(* ===== verification/Gloop_Prelude.thy ===== *)
theory Gloop_Prelude
  imports Main "HOL-Library.Word"
begin

text \<open>
  Shared vocabulary of the development.  The program is C++ that works on raw memory, so the
  prelude fixes the machine types (\<open>uint8_t\<close> to \<open>uint128\<close> as words of their width), a flat byte
  memory indexed by addresses, the way a process abort (\<open>CHECK\<close>, \<open>ABSL_HARDENING_ASSERT\<close>) is
  a value of the model, and the generic facts on words, lists and memory that the component
  theories use.
\<close>

unbundle bit_operations_syntax

section \<open>Machine types\<close>

type_synonym u8 = "8 word"
type_synonym u16 = "16 word"
type_synonym u32 = "32 word"
type_synonym u64 = "64 word"
type_synonym u128 = "128 word"

text \<open>
  A pointer is a natural number and memory is a total function from addresses to bytes.  That a
  routine stays inside its buffer is not built into the types: it is stated and proved, as
  ``two memories that agree on the buffer give the same result'' for reads and as ``every
  address outside the buffer keeps its byte'' for writes.
\<close>

type_synonym addr = nat
type_synonym mem = "addr \<Rightarrow> u8"

section \<open>Aborts\<close>

text \<open>
  The code base is compiled without exceptions: a failed \<open>CHECK\<close> or
  \<open>ABSL_HARDENING_ASSERT\<close> ends the process.  An operation that can abort returns
  \<open>abort + 'a\<close>, with \<open>Inl\<close> for the abort.  \<open>BadAccess\<close> stands for what the C++ code must
  never do and does not check: touching storage it does not own, reading or destroying a slot that
  holds no object, or constructing over a live object.  Plain \<open>assert\<close> and \<open>DCHECK\<close> are
  compiled out, as in a release build.
\<close>

datatype abort = HardeningAssert | CheckFailed | BadAccess

type_synonym 'a outcome = "abort + 'a"

definition require :: "abort \<Rightarrow> bool \<Rightarrow> 'a outcome \<Rightarrow> 'a outcome" where
  "require e c r = (if c then r else Inl e)"

definition andThen :: "'a outcome \<Rightarrow> ('a \<Rightarrow> 'b outcome) \<Rightarrow> 'b outcome" where
  "andThen r f = (case r of Inl e \<Rightarrow> Inl e | Inr a \<Rightarrow> f a)"

lemma require_simps [simp]:
  "require e True r = r" "require e False r = Inl e"
  "require e c r = Inr a \<longleftrightarrow> c \<and> r = Inr a"
  by (simp_all add: require_def)

lemma andThen_simps [simp]: "andThen (Inr a) f = f a" "andThen (Inl e) f = Inl e"
  by (simp_all add: andThen_def)

lemma andThen_eq_Inr: "andThen r f = Inr b \<longleftrightarrow> (\<exists>a. r = Inr a \<and> f a = Inr b)"
  by (cases r) auto

lemma andThen_assoc: "andThen (andThen r f) g = andThen r (\<lambda>a. andThen (f a) g)"
  by (cases r) auto

section \<open>Collections of facts\<close>

named_theorems mem_simps \<open>reading back what was written to memory\<close>
named_theorems word_nat \<open>moving from words to natural numbers\<close>

section \<open>Memory blocks\<close>

definition load_bytes :: "mem \<Rightarrow> addr \<Rightarrow> nat \<Rightarrow> u8 list" where
  "load_bytes m p n = map (\<lambda>i. m (p + i)) [0..<n]"

primrec store_bytes :: "mem \<Rightarrow> addr \<Rightarrow> u8 list \<Rightarrow> mem" where
  "store_bytes m p [] = m"
| "store_bytes m p (b # bs) = store_bytes (m(p := b)) (Suc p) bs"

lemma length_load_bytes [simp]: "length (load_bytes m p n) = n"
  by (simp add: load_bytes_def)

lemma load_bytes_0 [simp]: "load_bytes m p 0 = []"
  by (simp add: load_bytes_def)

lemma nth_load_bytes [simp]: "i < n \<Longrightarrow> load_bytes m p n ! i = m (p + i)"
  by (simp add: load_bytes_def)

lemma load_bytes_Suc: "load_bytes m p (Suc n) = m p # load_bytes m (Suc p) n"
  by (rule nth_equalityI) (auto simp: nth_Cons split: nat.splits)

lemma load_bytes_add: "load_bytes m p (a + b) = load_bytes m p a @ load_bytes m (p + a) b"
  by (rule nth_equalityI) (auto simp: nth_append)

lemma load_bytes_cong:
  "(\<And>a. p \<le> a \<Longrightarrow> a < p + n \<Longrightarrow> m a = m' a) \<Longrightarrow> load_bytes m p n = load_bytes m' p n"
  by (rule nth_equalityI) auto

lemma store_bytes_apply [mem_simps]:
  "store_bytes m p bs a = (if p \<le> a \<and> a < p + length bs then bs ! (a - p) else m a)"
proof (induction bs arbitrary: m p)
  case Nil
  then show ?case by auto
next
  case (Cons b bs)
  then show ?case by (auto simp: nth_Cons' Suc_diff_Suc)
qed

lemma store_bytes_outside [mem_simps]:
  "a < p \<or> p + length bs \<le> a \<Longrightarrow> store_bytes m p bs a = m a"
  by (auto simp: store_bytes_apply)

lemma load_store_bytes [mem_simps]: "load_bytes (store_bytes m p bs) p (length bs) = bs"
  by (rule nth_equalityI) (auto simp: store_bytes_apply)

lemma store_bytes_append:
  "store_bytes m p (xs @ ys) = store_bytes (store_bytes m p xs) (p + length xs) ys"
  by (induction xs arbitrary: m p) auto

lemma store_load_bytes [mem_simps]: "store_bytes m p (load_bytes m p n) = m"
  by (rule ext) (auto simp: store_bytes_apply)

text \<open>Short blocks, as the code writes them: one assignment per byte.\<close>

lemma store_bytes_unroll:
  "store_bytes m p [a] = m(p := a)"
  "store_bytes m p [a, b] = m(p := a, p + 1 := b)"
  "store_bytes m p [a, b, c] = m(p := a, p + 1 := b, p + 2 := c)"
  "store_bytes m p [a, b, c, d] = m(p := a, p + 1 := b, p + 2 := c, p + 3 := d)"
  "store_bytes m p [a, b, c, d, e] = m(p := a, p + 1 := b, p + 2 := c, p + 3 := d, p + 4 := e)"
  by (simp_all add: numeral_eq_Suc)

section \<open>Words\<close>

lemma unat_byte_less: "unat (b::u8) < 256"
  using unsigned_less [of b] by simp

lemma byte_less [word_nat]:
  "(b::u8) < 128 \<longleftrightarrow> unat b < 128"
  "b < 16 \<longleftrightarrow> unat b < 16"
  "b < 2 \<longleftrightarrow> unat b < 2"
  "127 < b \<longleftrightarrow> 128 \<le> unat b"
  by (simp_all add: word_less_nat_alt) arith

lemma unat_byte_less_2: "unat (b::u8) < 2 \<longleftrightarrow> b = 0 \<or> b = 1"
  unfolding word_unat_eq_iff by (simp add: less_2_cases_iff)

lemma byte_continued: "128 \<le> unat (b::u8) \<Longrightarrow> unat b = unat b mod 128 + 128"
  using unat_byte_less [of b] by (simp add: le_mod_geq)

text \<open>A byte widened to a larger register, and the digit of seven bits it carries.\<close>

lemma ucast_and_127 [word_nat]:
  "(ucast (b::u8) :: 'a::len word) AND 127 = of_nat (unat b mod 128)"
proof -
  have "(ucast b :: 'a word) AND 127 = take_bit 7 (ucast b)"
    by (simp add: take_bit_eq_mask mask_numeral)
  also have "\<dots> = of_nat (take_bit 7 (unat b))"
    by (rule bit_word_eqI) (auto simp: bit_simps)
  finally show ?thesis by (simp add: take_bit_eq_mod)
qed

lemma unat_ucast_byte [simp]:
  assumes "8 \<le> LENGTH('a)"
  shows "unat (ucast (b::u8) :: 'a::len word) = unat b"
proof -
  have "unat b < 2 ^ 8"
    using unat_byte_less [of b] by simp
  also have "(2::nat) ^ 8 \<le> 2 ^ LENGTH('a)"
    using assms by (intro power_increasing) auto
  finally show ?thesis
    by (simp add: unsigned_ucast_eq take_bit_nat_eq_self)
qed

lemma unat_drop_bit_div [word_nat]: "unat (drop_bit k (w::'a::len word)) = unat w div 2 ^ k"
  by (simp add: unat_drop_bit_eq flip: drop_bit_eq_div)

text \<open>
  Accumulating a digit above the bits already filled: the bitwise \<open>OR\<close> of the code is an
  addition, at every width and also when the digit is shifted out of the register.
\<close>

lemma or_push_bit_of_nat [word_nat]:
  assumes "R < 2 ^ k"
  shows "(of_nat R :: 'a::len word) OR push_bit k (of_nat X) = of_nat (R + X * 2 ^ k)"
proof -
  have "\<not> bit (of_nat R :: 'a word) n" if "k \<le> n" for n
  proof -
    have "R < 2 ^ n"
      using assms that by (meson less_le_trans one_le_numeral power_increasing)
    then show ?thesis by (simp add: bit_simps bit_nat_def)
  qed
  then have "(of_nat R :: 'a word) AND push_bit k (of_nat X) = 0"
    by (fastforce simp: bit_eq_iff bit_simps)
  then show ?thesis
    by (simp add: disjunctive_add_eq_or [symmetric] push_bit_eq_mult)
qed

lemma ucast_or_128 [word_nat]:
  assumes "8 \<le> LENGTH('a)"
  shows "(ucast (w OR 128 :: 'a::len word) :: u8) = of_nat (unat w mod 128 + 128)"
proof -
  have "w OR 128 = w OR push_bit 7 1"
    by (simp add: push_bit_eq_mult)
  then have "(ucast (w OR 128) :: u8) = ucast (w OR push_bit 7 1)"
    by (simp only:)
  also have "\<dots> = of_nat (take_bit 7 (unat w)) OR push_bit 7 (of_nat 1)"
    using assms by (intro bit_word_eqI) (auto simp only: bit_simps; auto)
  also have "\<dots> = of_nat (take_bit 7 (unat w) + 1 * 2 ^ 7)"
    by (rule or_push_bit_of_nat) (simp add: take_bit_eq_mod)
  finally show ?thesis by (simp add: take_bit_eq_mod)
qed

end
