(* ===== verification/Std_Bits.thy ===== *)
theory Std_Bits
  imports Gloop_Prelude
begin

text \<open>
  The bit-counting functions of the C++20 standard library that the code uses through
  \<^verbatim>\<open>absl/numeric/bits.h\<close>: \<open>bit_width\<close>, \<open>countl_zero\<close>, \<open>countr_zero\<close> and \<open>popcount\<close>.
\<close>

fun nat_bit_width :: "nat \<Rightarrow> nat" where
  "nat_bit_width n = (if n = 0 then 0 else Suc (nat_bit_width (n div 2)))"

declare nat_bit_width.simps [simp del]

definition bit_width :: "'a::len word \<Rightarrow> nat" where
  "bit_width v = nat_bit_width (unat v)"

definition countl_zero :: "'a::len word \<Rightarrow> nat" where
  "countl_zero v = LENGTH('a) - bit_width v"

definition countr_zero :: "'a::len word \<Rightarrow> nat" where
  "countr_zero v = length (takeWhile (\<lambda>i. \<not> bit v i) [0..<LENGTH('a)])"

definition popcount :: "'a::len word \<Rightarrow> nat" where
  "popcount v = length (filter (bit v) [0..<LENGTH('a)])"

lemma nat_bit_width_div: "nat_bit_width (n div 2 ^ k) = nat_bit_width n - k"
proof (induction k arbitrary: n)
  case (Suc k)
  have "n div 2 ^ Suc k = n div 2 div 2 ^ k" by (simp add: div_mult2_eq)
  then have "nat_bit_width (n div 2 ^ Suc k) = nat_bit_width (n div 2) - k" by (simp only: Suc)
  also have "nat_bit_width (n div 2) = nat_bit_width n - 1"
    by (subst (2) nat_bit_width.simps) (simp add: nat_bit_width.simps)
  finally show ?case by simp
qed simp

lemma nat_bit_width_le: "nat_bit_width n \<le> k \<longleftrightarrow> n < 2 ^ k"
proof (induction k arbitrary: n)
  case 0
  then show ?case by (simp add: nat_bit_width.simps)
next
  case (Suc k)
  have "nat_bit_width n \<le> Suc k \<longleftrightarrow> nat_bit_width (n div 2) \<le> k"
    using nat_bit_width_div [of n 1] by auto
  then show ?case by (simp add: Suc less_mult_imp_div_less div_less_iff_less_mult mult.commute)
qed

text \<open>The lowest and the highest set bit.\<close>

lemma exists_bit:
  fixes v :: "'a::len word"
  assumes "v \<noteq> 0"
  obtains i where "bit v i" and "i < LENGTH('a)"
  using assms bit_imp_le_length by (metis bit_0_eq bit_word_eqI bot_apply bot_bool_def)

lemma countr_zero_spec:
  fixes v :: "'a::len word"
  assumes "v \<noteq> 0"
  shows "bit v (countr_zero v)" and "countr_zero v < LENGTH('a)"
    and "i < countr_zero v \<Longrightarrow> \<not> bit v i"
proof -
  let ?P = "\<lambda>i. \<not> bit v i" and ?xs = "[0..<LENGTH('a)]"
  obtain j where j: "bit v j" "j < LENGTH('a)"
    using exists_bit [OF assms] .
  have lt: "length (takeWhile ?P ?xs) < length ?xs"
  proof (rule ccontr)
    assume "\<not> ?thesis"
    then have "takeWhile ?P ?xs = ?xs"
      using takeWhile_eq_take [of ?P ?xs] by simp
    then show False
      using j set_takeWhileD [of j ?P ?xs] by auto
  qed
  then show "countr_zero v < LENGTH('a)"
    by (simp add: countr_zero_def)
  show "bit v (countr_zero v)"
    using nth_length_takeWhile [OF lt] lt by (simp add: countr_zero_def)
  assume "i < countr_zero v"
  then have "takeWhile ?P ?xs ! i = i" "takeWhile ?P ?xs ! i \<in> set (takeWhile ?P ?xs)"
    using lt takeWhile_nth [of i ?P ?xs] nth_mem [of i "takeWhile ?P ?xs"] by (simp_all add: countr_zero_def)
  then show "\<not> bit v i"
    using set_takeWhileD by fastforce
qed

lemma bit_width_spec:
  fixes v :: "'a::len word"
  assumes "v \<noteq> 0"
  shows "bit v (bit_width v - 1)" and "bit_width v - 1 < LENGTH('a)" and "0 < bit_width v"
    and "bit_width v \<le> i \<Longrightarrow> \<not> bit v i"
proof -
  have bit: "bit v i \<longleftrightarrow> odd (unat v div 2 ^ i)" for i
    by (simp add: bit_nat_def [symmetric] bit_unsigned_iff)
  have above: "\<not> bit v i" if "bit_width v \<le> i" for i
  proof -
    have "unat v < 2 ^ i"
      using that by (simp add: bit_width_def nat_bit_width_le)
    then show ?thesis by (simp add: bit)
  qed
  show pos: "0 < bit_width v"
    using assms by (simp add: bit_width_def nat_bit_width.simps [of "unat v"] unat_eq_0)
  obtain k where k: "nat_bit_width (unat v) = Suc k"
    using pos gr0_implies_Suc by (auto simp: bit_width_def)
  have "\<not> unat v < 2 ^ (bit_width v - 1)" "unat v < 2 * 2 ^ (bit_width v - 1)"
    using nat_bit_width_le [of "unat v" k] nat_bit_width_le [of "unat v" "Suc k"] k
    by (simp_all add: bit_width_def)
  then have "unat v div 2 ^ (bit_width v - 1) = 1"
    by (intro div_nat_eqI) simp_all
  then show "bit v (bit_width v - 1)"
    by (simp add: bit)
  then show "bit_width v - 1 < LENGTH('a)"
    by (rule bit_imp_le_length)
  show "bit_width v \<le> i \<Longrightarrow> \<not> bit v i" by (rule above)
qed

end
