(* ===== verification/Varint.thy ===== *)
theory Varint
  imports Std_Bits
begin

text \<open>
  The varint codec, \<^verbatim>\<open>src/gloop/util/coding/varint.h\<close> and \<^verbatim>\<open>varint.cc\<close>.

  A parser gets the memory and a start address and returns \<open>None\<close> where the code returns
  \<open>nullptr\<close>, or the address just past the varint together with the value stored through
  \<open>OUTPUT\<close> (which the code writes exactly on success).  An encoder gets the memory and returns it
  updated, with the address just past the last byte written.  The code has an x86-64 and a
  portable version of three routines; both are modelled and proved equal.
\<close>

section \<open>The routines of the code\<close>

definition kMax32 :: nat where "kMax32 = 5"
definition kMax64 :: nat where "kMax64 = 10"

abbreviation byte32 :: "mem \<Rightarrow> addr \<Rightarrow> u32" where "byte32 m p \<equiv> ucast (m p)"
abbreviation byte64 :: "mem \<Rightarrow> addr \<Rightarrow> u64" where "byte64 m p \<equiv> ucast (m p)"
abbreviation sbyte64 :: "mem \<Rightarrow> addr \<Rightarrow> u64" where "sbyte64 m p \<equiv> scast (m p)"

subsection \<open>Parsing 32-bit varints\<close>

definition Parse32FallbackInline :: "mem \<Rightarrow> addr \<Rightarrow> (addr \<times> u32) option" where
  "Parse32FallbackInline m p =
    (let byte = byte32 m p; result = byte AND 127;
         byte = byte32 m (p + 1); result = result OR push_bit 7 (byte AND 127) in
     if byte < 128 then Some (p + 2, result) else
     let byte = byte32 m (p + 2); result = result OR push_bit 14 (byte AND 127) in
     if byte < 128 then Some (p + 3, result) else
     let byte = byte32 m (p + 3); result = result OR push_bit 21 (byte AND 127) in
     if byte < 128 then Some (p + 4, result) else
     let byte = byte32 m (p + 4); result = result OR push_bit 28 (byte AND 127) in
     if byte < 16 then Some (p + 5, result) else None)"

definition Parse32Fallback :: "mem \<Rightarrow> addr \<Rightarrow> (addr \<times> u32) option" where
  "Parse32Fallback m p = Parse32FallbackInline m p"

definition Parse32 :: "mem \<Rightarrow> addr \<Rightarrow> (addr \<times> u32) option" where
  "Parse32 m p =
    (let byte = byte32 m p in
     if byte < 128 then Some (p + 1, byte) else Parse32Fallback m p)"

definition Parse32Inline :: "mem \<Rightarrow> addr \<Rightarrow> (addr \<times> u32) option" where
  "Parse32Inline m p =
    (let byte = byte32 m p in
     if byte < 128 then Some (p + 1, byte) else Parse32FallbackInline m p)"

definition Parse32WithLimit :: "mem \<Rightarrow> addr \<Rightarrow> addr \<Rightarrow> (addr \<times> u32) option" where
  "Parse32WithLimit m p limit =
    (if p \<ge> limit then None else
     let b = byte32 m p; result = b AND 127 in
     if b < 128 then Some (p + 1, result) else
     if p + 1 \<ge> limit then None else
     let b = byte32 m (p + 1); result = result OR push_bit 7 (b AND 127) in
     if b < 128 then Some (p + 2, result) else
     if p + 2 \<ge> limit then None else
     let b = byte32 m (p + 2); result = result OR push_bit 14 (b AND 127) in
     if b < 128 then Some (p + 3, result) else
     if p + 3 \<ge> limit then None else
     let b = byte32 m (p + 3); result = result OR push_bit 21 (b AND 127) in
     if b < 128 then Some (p + 4, result) else
     if p + 4 \<ge> limit then None else
     let b = byte32 m (p + 4); result = result OR push_bit 28 (b AND 127) in
     if b < 16 then Some (p + 5, result) else None)"

definition Skip32 :: "mem \<Rightarrow> addr \<Rightarrow> addr option" where
  "Skip32 m p =
    (if m p < 128 then Some (p + 1)
     else if m (p + 1) < 128 then Some (p + 2)
     else if m (p + 2) < 128 then Some (p + 3)
     else if m (p + 3) < 128 then Some (p + 4)
     else if m (p + 4) < 16 then Some (p + 5)
     else None)"

definition Skip32WithLimit :: "mem \<Rightarrow> addr \<Rightarrow> addr \<Rightarrow> addr option" where
  "Skip32WithLimit m p limit =
    (if p \<ge> limit then None else if m p < 128 then Some (p + 1)
     else if p + 1 \<ge> limit then None else if m (p + 1) < 128 then Some (p + 2)
     else if p + 2 \<ge> limit then None else if m (p + 2) < 128 then Some (p + 3)
     else if p + 3 \<ge> limit then None else if m (p + 3) < 128 then Some (p + 4)
     else if p + 4 \<ge> limit then None else if m (p + 4) < 16 then Some (p + 5)
     else None)"

subsection \<open>Encoding\<close>

definition Encode32Inline :: "mem \<Rightarrow> addr \<Rightarrow> u32 \<Rightarrow> mem \<times> addr" where
  "Encode32Inline m p v =
    (let B = 128 :: u32 in
     if v < push_bit 7 1 then (m(p := ucast v), p + 1)
     else if v < push_bit 14 1 then
       (m(p := ucast (v OR B),
          p + 1 := ucast (drop_bit 7 v)), p + 2)
     else if v < push_bit 21 1 then
       (m(p := ucast (v OR B),
          p + 1 := ucast (drop_bit 7 v OR B),
          p + 2 := ucast (drop_bit 14 v)), p + 3)
     else if v < push_bit 28 1 then
       (m(p := ucast (v OR B),
          p + 1 := ucast (drop_bit 7 v OR B),
          p + 2 := ucast (drop_bit 14 v OR B),
          p + 3 := ucast (drop_bit 21 v)), p + 4)
     else
       (m(p := ucast (v OR B),
          p + 1 := ucast (drop_bit 7 v OR B),
          p + 2 := ucast (drop_bit 14 v OR B),
          p + 3 := ucast (drop_bit 21 v OR B),
          p + 4 := ucast (drop_bit 28 v)), p + 5))"

definition Encode32 :: "mem \<Rightarrow> addr \<Rightarrow> u32 \<Rightarrow> mem \<times> addr" where
  "Encode32 m p v = Encode32Inline m p v"

definition Encode64 :: "mem \<Rightarrow> addr \<Rightarrow> u64 \<Rightarrow> mem \<times> addr" where
  "Encode64 m p v =
    (if v < push_bit 28 1 then Encode32 m p (ucast v)
     else
       let x32 = ucast (v OR push_bit 7 1 OR push_bit 21 1) :: u32;
           y32 = ucast (v OR push_bit 14 1 OR push_bit 28 1) :: u32;
           m = m(p := ucast x32,
                 p + 1 := ucast (drop_bit 7 y32),
                 p + 2 := ucast (drop_bit 14 x32),
                 p + 3 := ucast (drop_bit 21 y32)) in
       if v < push_bit 35 1 then (m(p + 4 := ucast (drop_bit 28 v)), p + 5)
       else Encode32 (m(p + 4 := ucast (drop_bit 28 v OR push_bit 7 1))) (p + 5) (ucast (drop_bit 35 v)))"

subsection \<open>Parsing 64-bit varints\<close>

text \<open>
  The conditional compilation of the code is a parameter: \<open>X86_64\<close> is x86-64 without the
  \<open>lzcnt\<close> instruction, \<open>X86_64_LZCNT\<close> is x86-64 with it, \<open>Portable\<close> is everything else.
\<close>

datatype platform = X86_64 | X86_64_LZCNT | Portable

definition is_x86_64 :: "platform \<Rightarrow> bool" where
  "is_x86_64 plat = (plat \<noteq> Portable)"

text \<open>The x86-64 version: sign-extended bytes are combined with \<open>AND\<close>.\<close>

definition SHLD :: "u64 \<Rightarrow> nat \<Rightarrow> u64 \<Rightarrow> u64" where
  "SHLD ones n byte = push_bit (n * 7) byte OR drop_bit (64 - n * 7) ones"

definition Parse64FallbackPair :: "mem \<Rightarrow> addr \<Rightarrow> u64 \<Rightarrow> (addr \<times> u64) option" where
  "Parse64FallbackPair m p res1 =
    (let ones = res1;
         byte = SHLD ones 1 (sbyte64 m (p + 1)); res2 = byte in
     if \<not> byte <s 0 then Some (p + 2, res1 AND res2) else
     let byte = SHLD ones 2 (sbyte64 m (p + 2)); res3 = byte in
     if \<not> byte <s 0 then Some (p + 3, res1 AND res2 AND res3) else
     let res1 = res1 AND SHLD ones 3 (sbyte64 m (p + 3)) in
     if 0 \<le>s res1 then Some (p + 4, res1 AND res2 AND res3) else
     let res2 = res2 AND SHLD ones 4 (sbyte64 m (p + 4)) in
     if 0 \<le>s res2 then Some (p + 5, res1 AND res2 AND res3) else
     let res3 = res3 AND SHLD ones 5 (sbyte64 m (p + 5)) in
     if 0 \<le>s res3 then Some (p + 6, res1 AND res2 AND res3) else
     let res1 = res1 AND SHLD ones 6 (sbyte64 m (p + 6)) in
     if 0 \<le>s res1 then Some (p + 7, res1 AND res2 AND res3) else
     let res2 = res2 AND SHLD ones 7 (sbyte64 m (p + 7)) in
     if 0 \<le>s res2 then Some (p + 8, res1 AND res2 AND res3) else
     let res3 = res3 AND SHLD ones 8 (sbyte64 m (p + 8)) in
     if 0 \<le>s res3 then Some (p + 9, res1 AND res2 AND res3) else
     let byte = sbyte64 m (p + 9) in
     if byte = 1 then Some (p + 10, res1 AND res2 AND res3)
     else if byte = 0 then
       let res3 = res3 XOR push_bit 63 1 in Some (p + 10, res1 AND res2 AND res3)
     else None)"

text \<open>The portable version accumulates three 32-bit fragments.\<close>

definition Parse64Fallback :: "mem \<Rightarrow> addr \<Rightarrow> (addr \<times> u64) option" where
  "Parse64Fallback m p =
    (let byte = byte32 m p; res1 = byte AND 127;
         byte = byte32 m (p + 1); res1 = res1 OR push_bit 7 (byte AND 127) in
     if byte < 128 then Some (p + 2, ucast res1) else
     let byte = byte32 m (p + 2); res1 = res1 OR push_bit 14 (byte AND 127) in
     if byte < 128 then Some (p + 3, ucast res1) else
     let byte = byte32 m (p + 3); res1 = res1 OR push_bit 21 (byte AND 127) in
     if byte < 128 then Some (p + 4, ucast res1) else
     let byte = byte32 m (p + 4); res2 = byte AND 127 in
     if byte < 128 then Some (p + 5, ucast res1 OR push_bit 28 (ucast res2)) else
     let byte = byte32 m (p + 5); res2 = res2 OR push_bit 7 (byte AND 127) in
     if byte < 128 then Some (p + 6, ucast res1 OR push_bit 28 (ucast res2)) else
     let byte = byte32 m (p + 6); res2 = res2 OR push_bit 14 (byte AND 127) in
     if byte < 128 then Some (p + 7, ucast res1 OR push_bit 28 (ucast res2)) else
     let byte = byte32 m (p + 7); res2 = res2 OR push_bit 21 (byte AND 127) in
     if byte < 128 then Some (p + 8, ucast res1 OR push_bit 28 (ucast res2)) else
     let byte = byte32 m (p + 8); res3 = byte AND 127 in
     if byte < 128 then
       Some (p + 9, ucast res1 OR push_bit 28 (ucast res2) OR push_bit 56 (ucast res3)) else
     let byte = byte32 m (p + 9); res3 = res3 OR push_bit 7 (byte AND 127) in
     if byte < 2 then
       Some (p + 10, ucast res1 OR push_bit 28 (ucast res2) OR push_bit 56 (ucast res3))
     else None)"

definition Parse64 :: "platform \<Rightarrow> mem \<Rightarrow> addr \<Rightarrow> (addr \<times> u64) option" where
  "Parse64 plat m p =
    (if is_x86_64 plat then
       let byte = sbyte64 m p in
       if 0 \<le>s byte then Some (p + 1, byte) else Parse64FallbackPair m p byte
     else
       let byte = byte32 m p in
       if byte < 128 then Some (p + 1, ucast byte) else Parse64Fallback m p)"

text \<open>The sum is one of \<open>uintptr_t\<close> and wraps at the end of the address space.\<close>

definition OffsetWithinLimit :: "addr \<Rightarrow> nat \<Rightarrow> addr \<Rightarrow> bool" where
  "OffsetWithinLimit p offset limit = ((p + offset) mod 2 ^ 64 \<le> limit)"

definition Parse64WithLimit :: "platform \<Rightarrow> mem \<Rightarrow> addr \<Rightarrow> addr \<Rightarrow> (addr \<times> u64) option" where
  "Parse64WithLimit plat m p limit =
    (if OffsetWithinLimit p kMax64 limit then Parse64 plat m p
     else if is_x86_64 plat then
     if p \<ge> limit then None else
     let b = byte64 m p; result = b in if b < 128 then Some (p + 1, result) else
     if p + 1 \<ge> limit then None else
     let b = byte64 m (p + 1); result = result + push_bit 7 (b - 1) in if b < 128 then Some (p + 2, result) else
     if p + 2 \<ge> limit then None else
     let b = byte64 m (p + 2); result = result + push_bit 14 (b - 1) in if b < 128 then Some (p + 3, result) else
     if p + 3 \<ge> limit then None else
     let b = byte64 m (p + 3); result = result + push_bit 21 (b - 1) in if b < 128 then Some (p + 4, result) else
     if p + 4 \<ge> limit then None else
     let b = byte64 m (p + 4); result = result + push_bit 28 (b - 1) in if b < 128 then Some (p + 5, result) else
     if p + 5 \<ge> limit then None else
     let b = byte64 m (p + 5); result = result + push_bit 35 (b - 1) in if b < 128 then Some (p + 6, result) else
     if p + 6 \<ge> limit then None else
     let b = byte64 m (p + 6); result = result + push_bit 42 (b - 1) in if b < 128 then Some (p + 7, result) else
     if p + 7 \<ge> limit then None else
     let b = byte64 m (p + 7); result = result + push_bit 49 (b - 1) in if b < 128 then Some (p + 8, result) else
     if p + 8 \<ge> limit then None else
     let b = byte64 m (p + 8); result = result + push_bit 56 (b - 1) in if b < 128 then Some (p + 9, result) else
     None
     else
     if p \<ge> limit then None else
     let b = byte64 m p; result = b AND 127 in if b < 128 then Some (p + 1, result) else
     if p + 1 \<ge> limit then None else
     let b = byte64 m (p + 1); result = result OR push_bit 7 (b AND 127) in if b < 128 then Some (p + 2, result) else
     if p + 2 \<ge> limit then None else
     let b = byte64 m (p + 2); result = result OR push_bit 14 (b AND 127) in if b < 128 then Some (p + 3, result) else
     if p + 3 \<ge> limit then None else
     let b = byte64 m (p + 3); result = result OR push_bit 21 (b AND 127) in if b < 128 then Some (p + 4, result) else
     if p + 4 \<ge> limit then None else
     let b = byte64 m (p + 4); result = result OR push_bit 28 (b AND 127) in if b < 128 then Some (p + 5, result) else
     if p + 5 \<ge> limit then None else
     let b = byte64 m (p + 5); result = result OR push_bit 35 (b AND 127) in if b < 128 then Some (p + 6, result) else
     if p + 6 \<ge> limit then None else
     let b = byte64 m (p + 6); result = result OR push_bit 42 (b AND 127) in if b < 128 then Some (p + 7, result) else
     if p + 7 \<ge> limit then None else
     let b = byte64 m (p + 7); result = result OR push_bit 49 (b AND 127) in if b < 128 then Some (p + 8, result) else
     if p + 8 \<ge> limit then None else
     let b = byte64 m (p + 8); result = result OR push_bit 56 (b AND 127) in if b < 128 then Some (p + 9, result) else
     None)"

definition Skip64 :: "mem \<Rightarrow> addr \<Rightarrow> addr option" where
  "Skip64 m p =
    (if m p < 128 then Some (p + 1)
     else if m (p + 1) < 128 then Some (p + 2)
     else if m (p + 2) < 128 then Some (p + 3)
     else if m (p + 3) < 128 then Some (p + 4)
     else if m (p + 4) < 128 then Some (p + 5)
     else if m (p + 5) < 128 then Some (p + 6)
     else if m (p + 6) < 128 then Some (p + 7)
     else if m (p + 7) < 128 then Some (p + 8)
     else if m (p + 8) < 128 then Some (p + 9)
     else if m (p + 9) < 2 then Some (p + 10)
     else None)"

definition Skip64WithLimit :: "mem \<Rightarrow> addr \<Rightarrow> addr \<Rightarrow> addr option" where
  "Skip64WithLimit m p limit =
    (if p \<ge> limit then None else if m p < 128 then Some (p + 1)
     else if p + 1 \<ge> limit then None else if m (p + 1) < 128 then Some (p + 2)
     else if p + 2 \<ge> limit then None else if m (p + 2) < 128 then Some (p + 3)
     else if p + 3 \<ge> limit then None else if m (p + 3) < 128 then Some (p + 4)
     else if p + 4 \<ge> limit then None else if m (p + 4) < 128 then Some (p + 5)
     else if p + 5 \<ge> limit then None else if m (p + 5) < 128 then Some (p + 6)
     else if p + 6 \<ge> limit then None else if m (p + 6) < 128 then Some (p + 7)
     else if p + 7 \<ge> limit then None else if m (p + 7) < 128 then Some (p + 8)
     else if p + 8 \<ge> limit then None else if m (p + 8) < 128 then Some (p + 9)
     else if p + 9 \<ge> limit then None else if m (p + 9) < 2 then Some (p + 10)
     else None)"

subsection \<open>Parsing backwards\<close>

text \<open>
  The loop shared in shape by \<open>Skip32BackwardSlow\<close> and \<open>Skip64BackwardSlow\<close>: \<open>n\<close> iterations
  are left, and \<open>ptr\<close> is the address of the byte read last.
\<close>

fun SkipBackwardSlow_loop :: "nat \<Rightarrow> mem \<Rightarrow> addr \<Rightarrow> addr \<Rightarrow> addr option" where
  "SkipBackwardSlow_loop 0 m ptr base = None"
| "SkipBackwardSlow_loop (Suc n) m ptr base =
    (if ptr = base then Some ptr
     else let ptr = ptr - 1 in
       if m ptr < 128 then Some (ptr + 1) else SkipBackwardSlow_loop n m ptr base)"

definition Skip32BackwardSlow :: "mem \<Rightarrow> addr \<Rightarrow> addr \<Rightarrow> addr option" where
  "Skip32BackwardSlow m p base =
    (if p = base then None
     else if m (p - 1) > 127 then None
     else SkipBackwardSlow_loop 5 m (p - 1) base)"

definition Skip64BackwardSlow :: "mem \<Rightarrow> addr \<Rightarrow> addr \<Rightarrow> addr option" where
  "Skip64BackwardSlow m p base =
    (if p = base then None
     else if m (p - 1) > 127 then None
     else SkipBackwardSlow_loop 10 m (p - 1) base)"

definition Parse32BackwardSlow :: "mem \<Rightarrow> addr \<Rightarrow> addr \<Rightarrow> (addr \<times> u32) option" where
  "Parse32BackwardSlow m p base =
    (case Skip32BackwardSlow m p base of None \<Rightarrow> None
     | Some prev \<Rightarrow> (case Parse32 m prev of None \<Rightarrow> None | Some (_, v) \<Rightarrow> Some (prev, v)))"

definition Parse64BackwardSlow :: "platform \<Rightarrow> mem \<Rightarrow> addr \<Rightarrow> addr \<Rightarrow> (addr \<times> u64) option" where
  "Parse64BackwardSlow plat m p base =
    (case Skip64BackwardSlow m p base of None \<Rightarrow> None
     | Some prev \<Rightarrow> (case Parse64 plat m prev of None \<Rightarrow> None | Some (_, v) \<Rightarrow> Some (prev, v)))"

definition Parse32Backward :: "mem \<Rightarrow> addr \<Rightarrow> addr \<Rightarrow> (addr \<times> u32) option" where
  "Parse32Backward m p base =
    (if p > base + kMax32 then
       let byte = byte32 m (p - 1) in
       if byte > 127 then None else
       let result = byte; byte = byte32 m (p - 2) in
       if byte < 128 then Some (p - 1, result) else
       let result = push_bit 7 result OR (byte AND 127); byte = byte32 m (p - 3) in
       if byte < 128 then Some (p - 2, result) else
       let result = push_bit 7 result OR (byte AND 127); byte = byte32 m (p - 4) in
       if byte < 128 then Some (p - 3, result) else
       let result = push_bit 7 result OR (byte AND 127); byte = byte32 m (p - 5) in
       if byte < 128 then Some (p - 4, result) else
       let result = push_bit 7 result OR (byte AND 127); byte = byte32 m (p - 6) in
       if byte < 128 then Some (p - 5, result) else None
     else Parse32BackwardSlow m p base)"

definition Skip32Backward :: "mem \<Rightarrow> addr \<Rightarrow> addr \<Rightarrow> addr option" where
  "Skip32Backward m p base =
    (if p > base + kMax32 then
       if m (p - 1) > 127 then None
       else if m (p - 2) < 128 then Some (p - 1)
       else if m (p - 3) < 128 then Some (p - 2)
       else if m (p - 4) < 128 then Some (p - 3)
       else if m (p - 5) < 128 then Some (p - 4)
       else if m (p - 6) < 128 then Some (p - 5)
       else None
     else Skip32BackwardSlow m p base)"

definition Parse64Backward :: "platform \<Rightarrow> mem \<Rightarrow> addr \<Rightarrow> addr \<Rightarrow> (addr \<times> u64) option" where
  "Parse64Backward plat m p b =
    (if p > b + kMax64 then
       let byte = byte64 m (p - 1) in
       if byte > 127 then None else
       let res = byte; byte = byte64 m (p - 2) in
       if byte < 128 then Some (p - 1, res) else
       let res = push_bit 7 res OR (byte AND 127); byte = byte64 m (p - 3) in
       if byte < 128 then Some (p - 2, res) else
       let res = push_bit 7 res OR (byte AND 127); byte = byte64 m (p - 4) in
       if byte < 128 then Some (p - 3, res) else
       let res = push_bit 7 res OR (byte AND 127); byte = byte64 m (p - 5) in
       if byte < 128 then Some (p - 4, res) else
       let res = push_bit 7 res OR (byte AND 127); byte = byte64 m (p - 6) in
       if byte < 128 then Some (p - 5, res) else
       let res = push_bit 7 res OR (byte AND 127); byte = byte64 m (p - 7) in
       if byte < 128 then Some (p - 6, res) else
       let res = push_bit 7 res OR (byte AND 127); byte = byte64 m (p - 8) in
       if byte < 128 then Some (p - 7, res) else
       let res = push_bit 7 res OR (byte AND 127); byte = byte64 m (p - 9) in
       if byte < 128 then Some (p - 8, res) else
       let res = push_bit 7 res OR (byte AND 127); byte = byte64 m (p - 10) in
       if byte < 128 then Some (p - 9, res) else
       let res = push_bit 7 res OR (byte AND 127); byte = byte64 m (p - 11) in
       if byte < 128 then Some (p - 10, res) else None
     else Parse64BackwardSlow plat m p b)"

definition Skip64Backward :: "mem \<Rightarrow> addr \<Rightarrow> addr \<Rightarrow> addr option" where
  "Skip64Backward m p b =
    (if p > b + kMax64 then
       if m (p - 1) > 127 then None
       else if m (p - 2) < 128 then Some (p - 1)
       else if m (p - 3) < 128 then Some (p - 2)
       else if m (p - 4) < 128 then Some (p - 3)
       else if m (p - 5) < 128 then Some (p - 4)
       else if m (p - 6) < 128 then Some (p - 5)
       else if m (p - 7) < 128 then Some (p - 6)
       else if m (p - 8) < 128 then Some (p - 7)
       else if m (p - 9) < 128 then Some (p - 8)
       else if m (p - 10) < 128 then Some (p - 9)
       else if m (p - 11) < 128 then Some (p - 10)
       else None
     else Skip64BackwardSlow m p b)"

subsection \<open>Lengths and appending to strings\<close>

definition LengthImpl :: "platform \<Rightarrow> 'a::len word \<Rightarrow> nat" where
  "LengthImpl plat v =
    (if plat = X86_64 then (bit_width (v OR 1) * 9 + 64) div 64
     else ((LENGTH('a) * 9 + 64) - countl_zero v * 9) div 2 ^ 6)"

definition Length32 :: "platform \<Rightarrow> u32 \<Rightarrow> nat" where
  "Length32 plat v = LengthImpl plat v"

definition Length64 :: "platform \<Rightarrow> u64 \<Rightarrow> nat" where
  "Length64 plat v = LengthImpl plat v"

text \<open>
  A \<open>std::string\<close> is its characters and its capacity.  \<open>reserve(n)\<close> makes the capacity \<open>n\<close>
  when it is larger; \<open>push_back\<close> into spare capacity keeps it.  The callback of
  \<open>StringResizeAndOverwrite\<close> writes into the buffer of the resized string, which starts with
  the old characters.
\<close>

record cpp_string =
  chars :: "u8 list"
  capacity :: nat

definition string_buffer :: "u8 list \<Rightarrow> mem" where
  "string_buffer cs = (\<lambda>i. if i < length cs then cs ! i else 0)"

definition reserve :: "cpp_string \<Rightarrow> nat \<Rightarrow> cpp_string" where
  "reserve s n = s\<lparr>capacity := max (capacity s) n\<rparr>"

definition Append32Slow :: "platform \<Rightarrow> cpp_string \<Rightarrow> u32 \<Rightarrow> cpp_string" where
  "Append32Slow plat s value =
    (let start = length (chars s);
         len = Length32 plat value;
         new_size = start + len;
         s = (if new_size > capacity s then reserve s (max new_size (2 * capacity s)) else s)
     in s\<lparr>chars := load_bytes (fst (Encode32 (string_buffer (chars s)) start value)) 0 new_size\<rparr>)"

definition Append64Slow :: "platform \<Rightarrow> cpp_string \<Rightarrow> u64 \<Rightarrow> cpp_string" where
  "Append64Slow plat s value =
    (let start = length (chars s);
         len = Length64 plat value;
         new_size = start + len;
         s = (if new_size > capacity s then reserve s (max new_size (2 * capacity s)) else s)
     in s\<lparr>chars := load_bytes (fst (Encode64 (string_buffer (chars s)) start value)) 0 new_size\<rparr>)"

definition Append32 :: "platform \<Rightarrow> cpp_string \<Rightarrow> u32 \<Rightarrow> cpp_string" where
  "Append32 plat s value =
    (if value < 128 \<and> length (chars s) < capacity s then s\<lparr>chars := chars s @ [ucast value]\<rparr>
     else Append32Slow plat s value)"

definition Append64 :: "platform \<Rightarrow> cpp_string \<Rightarrow> u64 \<Rightarrow> cpp_string" where
  "Append64 plat s value =
    (if value < 128 \<and> length (chars s) < capacity s then s\<lparr>chars := chars s @ [ucast value]\<rparr>
     else Append64Slow plat s value)"

subsection \<open>Summing deltas\<close>

text \<open>
  The \<open>do\<close>-\<open>while\<close> loop has no bound of its own, so it is a partial function: \<open>None\<close> is
  ``does not return''.  \<open>acc\<close> (the code's \<open>sum\<close>), \<open>value\<close> and \<open>shift\<close> are \<open>int64_t\<close>.
\<close>

partial_function (option) FastDecodeDeltas_loop ::
  "mem \<Rightarrow> addr \<Rightarrow> u64 \<Rightarrow> u64 \<Rightarrow> (addr \<times> u64) option" where
  "FastDecodeDeltas_loop m ptr acc shift =
    (let value = sbyte64 m ptr;
         ptr = ptr + 1;
         acc = acc + push_bit (unat shift) (value AND 0x7F);
         shift = shift + 7;
         shift = shift AND signed_drop_bit 7 value in
     if (acc OR value) <s 0 then FastDecodeDeltas_loop m ptr acc shift
     else Some (ptr, acc))"

definition FastDecodeDeltas :: "mem \<Rightarrow> addr \<Rightarrow> u64 \<Rightarrow> (addr \<times> u64) option" where
  "FastDecodeDeltas m ptr goal =
    map_option (\<lambda>(ptr, acc). (ptr, goal + acc)) (FastDecodeDeltas_loop m ptr (- goal) 0)"

section \<open>The reference codec\<close>

text \<open>
  The specification the routines are measured against: little-endian base 128 on natural
  numbers.  \<open>varint_bytes\<close> prints a number; \<open>varint_scan n lim limit\<close> reads at most \<open>n\<close>
  digits from addresses below \<open>limit\<close>, of which the \<open>n\<close>-th must be below \<open>lim\<close>.
\<close>

fun varint_bytes :: "nat \<Rightarrow> u8 list" where
  "varint_bytes v =
     (if v < 128 then [of_nat v] else of_nat (v mod 128 + 128) # varint_bytes (v div 128))"

declare varint_bytes.simps [simp del]

fun varint_scan :: "nat \<Rightarrow> nat \<Rightarrow> addr \<Rightarrow> mem \<Rightarrow> addr \<Rightarrow> (addr \<times> nat) option" where
  "varint_scan 0 lim limit m p = None"
| "varint_scan (Suc n) lim limit m p =
    (if p \<ge> limit then None
     else if unat (m p) < (if n = 0 then lim else 128) then Some (p + 1, unat (m p))
     else map_option (\<lambda>(q, v). (q, unat (m p) mod 128 + 128 * v)) (varint_scan n lim limit m (p + 1)))"

text \<open>
  The unrolled code is a loop with the shift and the offset evaluated.  These are the loops:
  \<open>scan_acc\<close> masks each byte and ors it in, \<open>scan_sub\<close> adds the byte less one.
\<close>

fun scan_acc :: "nat \<Rightarrow> nat \<Rightarrow> addr \<Rightarrow> 'a::len word \<Rightarrow> nat \<Rightarrow> mem \<Rightarrow> addr \<Rightarrow> nat
    \<Rightarrow> (addr \<times> 'a word) option" where
  "scan_acc 0 lim limit r s m p i = None"
| "scan_acc (Suc n) lim limit r s m p i =
    (if p + i \<ge> limit then None
     else if unat (m (p + i)) < (if n = 0 then lim else 128)
     then Some (p + (i + 1), r OR push_bit s (ucast (m (p + i)) AND 127))
     else scan_acc n lim limit (r OR push_bit s (ucast (m (p + i)) AND 127)) (s + 7) m p (i + 1))"

fun scan_sub :: "nat \<Rightarrow> addr \<Rightarrow> u64 \<Rightarrow> nat \<Rightarrow> mem \<Rightarrow> addr \<Rightarrow> nat \<Rightarrow> (addr \<times> u64) option" where
  "scan_sub 0 limit r s m p i = None"
| "scan_sub (Suc n) limit r s m p i =
    (if p + i \<ge> limit then None
     else if unat (m (p + i)) < 128 then Some (p + (i + 1), r + push_bit s (ucast (m (p + i)) - 1))
     else scan_sub n limit (r + push_bit s (ucast (m (p + i)) - 1)) (s + 7) m p (i + 1))"

end
