(* ===== verification/Varint_Parse.thy ===== *)
theory Varint_Parse
  imports Varint
begin

text \<open>
  Every parsing and skipping routine of the varint codec computes the reference scan.  The
  unrolled code is first identified with a loop, then the loop with the reference by induction;
  the x86-64 routine, which combines sign-extended bytes with \<open>AND\<close>, has its own invariant.
\<close>

section \<open>Unrolled code and loops\<close>

lemma scan_acc_unroll:
  "scan_acc (numeral k) lim limit r s m p i =
    (if p + i \<ge> limit then None
     else if unat (m (p + i)) < (if pred_numeral k = 0 then lim else 128)
     then Some (p + (i + 1), r OR push_bit s (ucast (m (p + i)) AND 127))
     else scan_acc (pred_numeral k) lim limit (r OR push_bit s (ucast (m (p + i)) AND 127)) (s + 7) m p (i + 1))"
  "scan_acc 1 lim limit r s m p i =
    (if p + i \<ge> limit then None
     else if unat (m (p + i)) < lim then Some (p + (i + 1), r OR push_bit s (ucast (m (p + i)) AND 127))
     else None)"
  by (simp_all add: numeral_eq_Suc One_nat_def)

lemma scan_sub_unroll:
  "scan_sub (numeral k) limit r s m p i =
    (if p + i \<ge> limit then None
     else if unat (m (p + i)) < 128 then Some (p + (i + 1), r + push_bit s (ucast (m (p + i)) - 1))
     else scan_sub (pred_numeral k) limit (r + push_bit s (ucast (m (p + i)) - 1)) (s + 7) m p (i + 1))"
  "scan_sub 1 limit r s m p i =
    (if p + i \<ge> limit then None
     else if unat (m (p + i)) < 128 then Some (p + (i + 1), r + push_bit s (ucast (m (p + i)) - 1))
     else None)"
  by (simp_all add: numeral_eq_Suc One_nat_def)

lemma scan_acc_scan:
  assumes "R < 2 ^ s" "lim \<le> 128"
  shows "scan_acc n lim limit (of_nat R) s m p i =
    map_option (\<lambda>(q, v). (q, of_nat (R + v * 2 ^ s))) (varint_scan n lim limit m (p + i))"
  using assms
proof (induction n lim limit "of_nat R :: 'a word" s m p i arbitrary: R rule: scan_acc.induct)
  case (2 n lim limit s m p i)
  let ?d = "unat (m (p + i)) mod 128"
  have d: "?d < 128" by simp
  have "R + ?d * 2 ^ s < (?d + 1) * 2 ^ s" 
    using "2.prems"(1) by simp
  also have "\<dots> \<le> 128 * 2 ^ s"
    using d by (intro mult_right_mono) simp_all
  finally have bound: "R + ?d * 2 ^ s < 2 ^ (s + 7)"
    by (simp add: power_add)
  have acc: "of_nat R OR push_bit s (ucast (m (p + i)) AND 127) = (of_nat (R + ?d * 2 ^ s) :: 'a word)"
    using "2.prems"(1) by (simp only: ucast_and_127 or_push_bit_of_nat)
  note IH = "2.hyps" [of "R + ?d * 2 ^ s", OF _ _ acc bound "2.prems"(2)]
  show ?case
  proof (cases "unat (m (p + i)) < (if n = 0 then lim else 128)")
    case True
    then have "?d = unat (m (p + i))" using "2.prems"(2) by (simp split: if_splits)
    with True acc show ?thesis by simp
  next
    case False
    then have *: "scan_acc (Suc n) lim limit (of_nat R :: 'a word) s m p i =
        (if limit \<le> p + i then None else scan_acc n lim limit (of_nat (R + ?d * 2 ^ s)) (s + 7) m p (i + 1))"
      by (simp only: scan_acc.simps acc if_False)
    show ?thesis
    proof (cases "limit \<le> p + i")
      case nl: False
      have "scan_acc n lim limit (of_nat (R + ?d * 2 ^ s) :: 'a word) (s + 7) m p (i + 1) = 
         map_option (\<lambda>(q, v). (q, of_nat (R + ?d * 2 ^ s + v * 2 ^ (s + 7))))
        (varint_scan n lim limit m (p + (i + 1)))"
      using False nl by (subst IH) (simp_all add: acc)
    with False nl show ?thesis unfolding *
      by (simp add: option.map_comp comp_def case_prod_unfold power_add algebra_simps)
   qed simp
  qed
qed simp_all

lemma scan_acc_init:
  "lim \<le> 128 \<Longrightarrow> scan_acc n lim limit 0 0 m p 0 =
    map_option (\<lambda>(q, v). (q, of_nat v)) (varint_scan n lim limit m p)"
  using scan_acc_scan [of 0 0 lim n limit m p 0] by simp

lemma scan_sub_scan:
  assumes "limit \<le> p + i + n" 
  shows "scan_sub n limit (of_nat R + 2 ^ s) s m p i =
    map_option (\<lambda>(q, v). (q, of_nat (R + v * 2 ^ s))) (varint_scan (Suc n) lim limit m (p + i))"
  using assms
proof (induction n arbitrary: R s i)
  case (Suc n)
  let ?b = "unat (m (p + i))"
  have step: "of_nat R + 2 ^ s + push_bit s (ucast (m (p + i)) - 1) = (of_nat (R + ?b * 2 ^ s) :: u64)"
    by (simp add: push_bit_eq_mult algebra_simps)
  show ?case
  proof (cases "?b < 128")
    case True
    then show ?thesis by (simp add: step)
  next
    case False
    then have b: "?b = ?b mod 128 + 128"
      by (intro byte_continued) simp
    have split: "(of_nat (R + ?b * 2 ^ s) :: u64) = of_nat (R + ?b mod 128 * 2 ^ s) + 2 ^ (s + 7)"
    proof -
      have "?b * 2 ^ s = (?b mod 128 + 128) * 2 ^ s"
        by (rule arg_cong [OF b])
      also have "\<dots> = ?b mod 128 * 2 ^ s + 2 ^ (s + 7)"
        by (simp add: power_add add_mult_distrib)
      finally have "?b * 2 ^ s = ?b mod 128 * 2 ^ s + 2 ^ (s + 7)" .
      then show ?thesis by simp
    qed
    have IH: "scan_sub n limit (of_nat (R + ?b mod 128 * 2 ^ s) + 2 ^ (s + 7)) (s + 7) m p (i + 1) =
        map_option (\<lambda>(q, v). (q, of_nat (R + ?b mod 128 * 2 ^ s + v * 2 ^ (s + 7))))
          (varint_scan (Suc n) lim limit m (p + (i + 1)))"
      using Suc.prems by (intro Suc.IH) simp
    have l: "scan_sub (Suc n) limit (of_nat R + 2 ^ s) s m p i =
        (if limit \<le> p + i then None
         else scan_sub n limit (of_nat (R + ?b mod 128 * 2 ^ s) + 2 ^ (s + 7)) (s + 7) m p (i + 1))"
      using False by (simp only: scan_sub.simps step split if_False)
    have r: "varint_scan (Suc (Suc n)) lim limit m (p + i) =
        (if limit \<le> p + i then None
         else map_option (\<lambda>(q, v). (q, ?b mod 128 + 128 * v)) (varint_scan (Suc n) lim limit m (p + (i + 1))))"
      using False by (subst varint_scan.simps(2)) (simp del: varint_scan.simps)
    show ?thesis
      unfolding l r IH
      by (simp add: option.map_comp comp_def case_prod_unfold power_add algebra_simps
          del: varint_scan.simps)
  qed
qed simp_all


text \<open>A byte without its continuation bit, opaque to the simplifier while code is unrolled.\<close>

definition digit7 :: "u8 \<Rightarrow> 'a::len word" where
  "digit7 b = ucast b AND 127"

lemma digit7_small: "unat b < 128 \<Longrightarrow> digit7 b = ucast b"
  by (simp add: digit7_def ucast_and_127)

lemma ucast_digit7:
  "(ucast (digit7 b :: u32) :: u64) = digit7 b"
  unfolding digit7_def ucast_and_127 take_bit_eq_mod [of 7, simplified, symmetric]
  by (intro bit_word_eqI) (auto simp: bit_simps)
lemma ucast_push_digit7: 
  assumes "k \<le> 21" shows "(ucast (push_bit k (digit7 b :: u32)) :: u64) = push_bit k (digit7 b)"
  using assms unfolding digit7_def ucast_and_127 take_bit_eq_mod [of 7, simplified, symmetric]
  by (intro bit_word_eqI) (auto simp: bit_simps)

lemmas unroll_simps = scan_acc_unroll scan_sub_unroll word_less_nat_alt digit7_def [symmetric] 

lemma parse_ref: "Parse32 m p = scan_acc 5 16 (p + 5) 0 0 m p 0"
  unfolding Parse32_def Parse32Fallback_def Parse32FallbackInline_def Let_def digit7_def [symmetric]
  by (simp add: unroll_simps digit7_small del: One_nat_def cong: if_cong split del: if_split)
lemma parse_reflim: "Parse32WithLimit m p limit = scan_acc 5 16 limit 0 0 m p 0"
  unfolding Parse32WithLimit_def Let_def digit7_def [symmetric]
  by (simp add: unroll_simps del: One_nat_def cong: if_cong split del: if_split)
lemma parse64lim: "\<not> OffsetWithinLimit p kMax64 limit \<Longrightarrow> Parse64WithLimit Portable m p limit = scan_acc 9 128 limit 0 0 m p 0"
  unfolding Parse64WithLimit_def Let_def digit7_def [symmetric]
  by (simp add: is_x86_64_def unroll_simps del: One_nat_def cong: if_cong split del: if_split)
lemma parse64lim_x: "\<not> OffsetWithinLimit p kMax64 limit \<Longrightarrow> Parse64WithLimit X86_64 m p limit = scan_sub 9 limit 1 0 m p 0"
  unfolding Parse64WithLimit_def Let_def 
  by (simp add: is_x86_64_def unroll_simps del: One_nat_def cong: if_cong split del: if_split)

lemma parse64fallback: "128 \<le> unat (m p) \<Longrightarrow> Parse64Fallback m p = scan_acc 10 2 (p + 10) 0 0 m p 0"
  unfolding Parse64Fallback_def Let_def digit7_def [symmetric]
  by (simp add: unroll_simps ucast_digit7 ucast_push_digit7 unsigned_or_eq push_bit_or or.assoc del: One_nat_def cong: if_cong split del: if_split)

lemma sle0: "0 \<le>s (w :: u64) \<longleftrightarrow> \<not> bit w 63"
  using bit_last_iff [of w] by (simp add: word_sle_eq not_less)
lemma slt0: "(w :: u64) <s 0 \<longleftrightarrow> bit w 63"
  using bit_last_iff [of w] by (simp add: word_sless_alt)
lemma bit_byte_7: "bit (b::u8) 7 \<longleftrightarrow> 128 \<le> unat b"
proof -
  have "bit b 7 \<longleftrightarrow> bit (unat b) 7" by (simp add: bit_simps)
  also have "\<dots> \<longleftrightarrow> odd (unat b div 128)" by (simp add: bit_iff_odd)
  also have "unat b div 128 = of_bool (128 \<le> unat b)"
    using unat_byte_less[of b] by (cases "128 \<le> unat b") (auto simp: le_div_geq)
  finally show ?thesis by simp
qed
lemma bit_digit7: "bit (digit7 b :: u64) n \<longleftrightarrow> n < 7 \<and> bit b n"
  unfolding digit7_def ucast_and_127 take_bit_eq_mod [of 7, simplified, symmetric]
  by (auto simp: bit_simps dest: bit_imp_le_length)
lemma sbyte: "128 \<le> unat b \<Longrightarrow> (scast (b::u8) :: u64) = digit7 b OR NOT (mask 7)"
  unfolding bit_byte_7 [symmetric] 
  by (rule bit_word_eqI) (auto simp: bit_simps bit_word_scast_iff bit_digit7 less_Suc_eq numeral_eq_Suc)
lemma sbyte': "unat b < 128 \<Longrightarrow> (scast (b::u8) :: u64) = digit7 b"
  unfolding bit_byte_7 [symmetric] not_le [symmetric]
  by (rule bit_word_eqI) (auto simp: bit_simps bit_word_scast_iff bit_digit7 min_def split: if_splits)

lemma bit_SHLD:
  assumes "\<And>i. 7 \<le> i \<Longrightarrow> i < 64 \<Longrightarrow> bit ones i" "n \<le> 8"
  shows "SHLD ones n byte = push_bit (n * 7) byte OR mask (n * 7)"
proof (rule bit_word_eqI)
  fix i assume "i < LENGTH(64)"
  moreover have "bit ones (64 - n * 7 + i)" if "i < n * 7"
    by (rule assms(1)) (use that assms(2) in arith)+
  moreover have "\<not> bit ones (64 - n * 7 + i)" if "\<not> i < n * 7"
    using that assms(2) by (auto dest: bit_imp_le_length)
  ultimately show "bit (SHLD ones n byte) i \<longleftrightarrow> bit (push_bit (n * 7) byte OR mask (n * 7)) i"
    by (simp add: SHLD_def bit_or_iff bit_push_bit_iff bit_drop_bit_eq bit_mask_iff) (auto simp: bit_simps)
qed

lemma and_step:
  fixes L P :: "'a::len word" assumes "L AND mask k = L"
  shows "(L OR NOT (mask k)) AND (push_bit k P OR mask k) = L OR push_bit k P"
proof (rule bit_word_eqI)
  fix n assume "n < LENGTH('a)"
  have "bit L n \<longrightarrow> n < k" using assms by (metis bit_and_iff bit_mask_iff)
  then show "bit ((L OR NOT (mask k)) AND (push_bit k P OR mask k)) n \<longleftrightarrow> bit (L OR push_bit k P) n"
    using \<open>n < LENGTH('a)\<close> by (auto simp: bit_simps)
qed

fun conjs :: "mem \<Rightarrow> addr \<Rightarrow> nat \<Rightarrow> u64" where
  "conjs m p 0 = - 1"
| "conjs m p (Suc k) = conjs m p k AND (push_bit (k * 7) (sbyte64 m (p + k)) OR mask (k * 7))"

fun digs :: "mem \<Rightarrow> addr \<Rightarrow> nat \<Rightarrow> u64" where
  "digs m p 0 = 0"
| "digs m p (Suc k) = digs m p k OR push_bit (k * 7) (digit7 (m (p + k)))"

lemma conjs_unroll:
  "conjs m p (numeral n) = conjs m p (pred_numeral n) AND
     (push_bit (pred_numeral n * 7) (sbyte64 m (p + pred_numeral n)) OR mask (pred_numeral n * 7))"
  "conjs m p 1 = sbyte64 m p"
  by (simp_all add: numeral_eq_Suc One_nat_def)

lemma bit_digs: "bit (digs m p k) n \<Longrightarrow> n < k * 7"
  by (induction k) (auto simp: bit_simps bit_digit7)

lemma digs_bound: "digs m p k AND mask (k * 7) = digs m p k"
  by (rule bit_word_eqI) (auto simp: bit_simps dest: bit_digs)

lemma conjs_all: "(\<And>i. i < k \<Longrightarrow> 128 \<le> unat (m (p + i))) \<Longrightarrow> conjs m p k = digs m p k OR NOT (mask (k * 7))"
proof (induction k)
  case (Suc k)
  have "push_bit (k * 7) (NOT (mask 7)) = (NOT (mask (Suc k * 7)) :: u64)"
    by (rule bit_word_eqI) (auto simp: bit_simps)
  moreover have "conjs m p (Suc k) = digs m p k OR push_bit (k * 7) (sbyte64 m (p + k))"
    using Suc by (simp add: and_step digs_bound)
  moreover have "sbyte64 m (p + k) = digit7 (m (p + k)) OR NOT (mask 7)"
    using Suc.prems by (simp add: sbyte)
  ultimately show ?case
    by (simp add: push_bit_or or.assoc)
qed simp

lemma conjs_last:
  assumes "\<And>i. i < k \<Longrightarrow> 128 \<le> unat (m (p + i))" "unat (m (p + k)) < 128"
  shows "conjs m p (Suc k) = digs m p (Suc k)"
  using conjs_all [of k m p] assms by (simp add: and_step digs_bound sbyte')

lemma scan_acc_prefix:
  assumes "\<And>i. i < k \<Longrightarrow> 128 \<le> unat (m (p + (j + i)))" "p + (j + k) \<le> limit"
  shows "scan_acc (Suc (n + k)) lim limit (digs m p j) (j * 7) m p j =
    scan_acc (Suc n) lim limit (digs m p (j + k)) ((j + k) * 7) m p (j + k)"
  using assms
proof (induction k arbitrary: j)
  case (Suc k)
  have "scan_acc (Suc (n + k)) lim limit (digs m p (Suc j)) (Suc j * 7) m p (Suc j) =
      scan_acc (Suc n) lim limit (digs m p (Suc j + k)) ((Suc j + k) * 7) m p (Suc j + k)"
    using Suc.prems(1) [of "Suc i" for i] Suc.prems(2) by (intro Suc.IH) simp_all
  moreover have "128 \<le> unat (m (p + j))" using Suc.prems(1) [of 0] by simp
  ultimately show ?case
    using Suc.prems(2) by (simp add: digit7_def [symmetric] add.commute del: scan_acc.simps)
       (simp add: digit7_def add.commute)
qed simp

lemma bit_sbyte_high: "7 \<le> i \<Longrightarrow> i < 64 \<Longrightarrow> bit (scast (b::u8) :: u64) i \<longleftrightarrow> 128 \<le> unat b"
  by (cases "128 \<le> unat b") (auto simp: sbyte sbyte' bit_simps bit_digit7)

lemma bit_SHLD_63:
  assumes "n \<le> 8"
  shows "bit (SHLD ones n (scast (b::u8))) 63 \<longleftrightarrow> 128 \<le> unat b"
proof -
  have "\<not> bit ones (64 - n * 7 + 63)"
    using assms by (auto dest: bit_imp_le_length)
  then show ?thesis
    using assms bit_sbyte_high [of "63 - n * 7" b] by (auto simp: SHLD_def bit_simps)
qed

lemmas pair_simps = Parse64FallbackPair_def Let_def slt0 sle0 bit_and_iff bit_SHLD_63
  conjs_unroll not_less [symmetric] and.assoc and.left_commute and.commute

text \<open>The x86-64 parser stops at the first byte without a continuation bit.\<close>

lemma pair_case:
  assumes k: "0 < k" "k < 9"
    and cont: "\<And>i. i < k \<Longrightarrow> 128 \<le> unat (m (p + i))" and stop: "unat (m (p + k)) < 128"
  shows "Parse64FallbackPair m p (sbyte64 m p) = Some (p + (k + 1), conjs m p (k + 1))"
proof -
  have first: "128 \<le> unat (m p)"
    using cont [of 0] k by simp
  note shld = bit_SHLD [of "sbyte64 m p"]
  consider "k = 1" | "k = 2" | "k = 3" | "k = 4" | "k = 5" | "k = 6" | "k = 7" | "k = 8"
    using k by linarith
  then show ?thesis
    using first stop cont [of 1] cont [of 2] cont [of 3] cont [of 4] cont [of 5] cont [of 6] cont [of 7]
    by cases (simp_all add: pair_simps shld bit_sbyte_high)
qed

lemma scast_byte_inj: "(scast (b::u8) :: u64) = scast c \<longleftrightarrow> b = c"
proof -
  have "ucast (scast x :: u64) = x" for x :: u8
    by (rule bit_word_eqI) (auto simp: bit_simps bit_word_scast_iff min_def dest: le_antisym [of 7])
  then show ?thesis by metis
qed

lemma bit_top_bit: "bit (push_bit 63 (1::u64)) n \<longleftrightarrow> n = 63"
  unfolding bit_push_bit_iff by (auto simp: bit_1_iff)

lemma clear_top_bit:
  assumes "bit y 63"
  shows "y XOR push_bit 63 1 = y AND NOT (push_bit 63 (1::u64))"
proof (rule bit_word_eqI)
  fix n assume "n < LENGTH(64)"
  with assms show "bit (y XOR push_bit 63 1) n \<longleftrightarrow> bit (y AND NOT (push_bit 63 (1::u64))) n"
    unfolding bit_and_iff bit_xor_iff bit_not_iff bit_top_bit by (cases "n = 63") auto
qed

lemma pair_long:
  assumes cont: "\<And>i. i < 9 \<Longrightarrow> 128 \<le> unat (m (p + i))"
  shows "Parse64FallbackPair m p (sbyte64 m p) =
    (if m (p + 9) = 1 then Some (p + 10, conjs m p 9)
     else if m (p + 9) = 0 then Some (p + 10, conjs m p 9 AND NOT (push_bit 63 1)) else None)"
proof -
  have first: "128 \<le> unat (m p)"
    using cont [of 0] by simp
  note shld = bit_SHLD [of "sbyte64 m p"]
  show ?thesis
    using first cont [of 1] cont [of 2] cont [of 3] cont [of 4] cont [of 5] cont [of 6] cont [of 7] cont [of 8]
      scast_byte_inj [of "m (p + 9)" 1] scast_byte_inj [of "m (p + 9)" 0]
    by (simp add: pair_simps shld bit_sbyte_high bit_or_iff bit_push_bit_iff clear_top_bit [simplified])
qed

lemma digs_init: "scan_acc n lim limit 0 0 m p 0 = scan_acc n lim limit (digs m p 0) (0 * 7) m p 0"
  by simp

lemma Parse64FallbackPair_scan:
  assumes "128 \<le> unat (m p)"
  shows "Parse64FallbackPair m p (sbyte64 m p) = scan_acc 10 2 (p + 10) 0 0 m p 0"
proof (cases "\<exists>k<9. unat (m (p + k)) < 128")
  case True
  define k where "k = (LEAST k. unat (m (p + k)) < 128)"
  from True have stop: "unat (m (p + k)) < 128" and "k < 9"
    unfolding k_def by (auto intro: LeastI Least_le le_less_trans)
  have cont: "128 \<le> unat (m (p + i))" if "i < k" for i
    using not_less_Least [OF that [unfolded k_def]] by simp
  have "0 < k" using stop assms by (cases k) auto
  have "scan_acc (Suc ((9 - k) + k)) 2 (p + 10) (digs m p 0) (0 * 7) m p 0 =
      Some (p + (k + 1), digs m p (Suc k))"
    using scan_acc_prefix [of k m p 0 "p + 10" "9 - k" 2] cont stop \<open>k < 9\<close>
    by (simp add: digit7_def)
  moreover have "conjs m p (k + 1) = digs m p (Suc k)"
    using conjs_last [of k m p] cont stop by simp
  ultimately show ?thesis
    using pair_case [of k m p] cont stop \<open>0 < k\<close> \<open>k < 9\<close> by simp
next
  case False
  have cont: "128 \<le> unat (m (p + i))" if "i < 9" for i
    using False that by (simp add: not_less [symmetric])
  have "scan_acc (Suc (0 + 9)) 2 (p + 10) (digs m p 0) (0 * 7) m p 0 =
      (if unat (m (p + 9)) < 2 then Some (p + 10, digs m p 10) else None)"
    using scan_acc_prefix [of 9 m p 0 "p + 10" 0 2] cont
    by (simp add: digit7_def digs.simps(2) [of m p 9, simplified])
  moreover have "digs m p 10 = conjs m p 9" if "m (p + 9) = 1"
  proof -
    have "push_bit 63 (digit7 1) = (NOT (mask 63) :: u64)"
      by (rule bit_word_eqI) (auto simp: bit_simps bit_digit7)
    with that show ?thesis
      using conjs_all [of 9 m p] cont by (simp add: digs.simps(2) [of m p 9, simplified])
  qed
  moreover have "digs m p 10 = conjs m p 9 AND NOT (push_bit 63 1)" if "m (p + 9) = 0"
  proof -
    have "(digs m p 9 OR NOT (mask 63)) AND NOT (push_bit 63 1) = digs m p 9"
    proof (rule bit_word_eqI)
      fix n assume "n < LENGTH(64)"
      moreover have "bit (digs m p 9) n \<Longrightarrow> n < 63"
        using bit_digs [of m p 9 n] by simp
      ultimately show "bit ((digs m p 9 OR NOT (mask 63)) AND NOT (push_bit 63 1)) n \<longleftrightarrow> bit (digs m p 9) n"
        unfolding bit_and_iff bit_or_iff bit_not_iff bit_top_bit bit_mask_iff by auto
    qed
    with that show ?thesis
      using conjs_all [of 9 m p] cont
      by (simp add: digs.simps(2) [of m p 9, simplified] digit7_def del: push_bit_numeral_minus_1)
  qed
  moreover have "unat (m (p + 9)) < 2 \<longleftrightarrow> m (p + 9) = 0 \<or> m (p + 9) = 1"
    by (rule unat_byte_less_2)
  ultimately show ?thesis
    using pair_long [of m p] cont by auto
qed


lemma varint_scan_limit:
  "p + n \<le> limit \<Longrightarrow> p + n \<le> limit' \<Longrightarrow> varint_scan n lim limit m p = varint_scan n lim limit' m p"
  by (induction n arbitrary: p) auto

lemma varint_scan_short:
  "limit \<le> p + n \<Longrightarrow> varint_scan n 128 limit m p = varint_scan (Suc n) lim limit m p"
  by (induction n arbitrary: p) auto

lemma Parse32_scan: "Parse32 m p = map_option (\<lambda>(q, v). (q, of_nat v)) (varint_scan 5 16 (p + 5) m p)"
  by (simp add: parse_ref scan_acc_init)
lemma Parse32WithLimit_scan: "Parse32WithLimit m p limit = map_option (\<lambda>(q, v). (q, of_nat v)) (varint_scan 5 16 limit m p)"
  by (simp add: parse_reflim scan_acc_init)

lemma scan_first: "varint_scan (Suc (Suc n)) lim limit m p = (if limit \<le> p then None else if unat (m p) < 128 then Some (p + 1, unat (m p)) else
  map_option (\<lambda>(q, v). (q, unat (m p) mod 128 + 128 * v)) (varint_scan (Suc n) lim limit m (p + 1)))"
  by (subst varint_scan.simps(2)) (simp del: varint_scan.simps)

lemma Parse64_scan:
  "Parse64 plat m p = map_option (\<lambda>(q, v). (q, of_nat v)) (varint_scan 10 2 (p + 10) m p)"
proof (cases "unat (m p) < 128")
  case True
  have "varint_scan 10 2 (p + 10) m p = Some (p + 1, unat (m p))"
    using True by (simp add: numeral_eq_Suc)
  moreover have "(ucast (byte32 m p) :: u64) = byte64 m p"
    by (rule bit_word_eqI) (auto simp: bit_simps dest: bit_imp_le_length)
  ultimately show ?thesis using True
    by (simp add: Parse64_def Let_def sle0 bit_sbyte_high sbyte' [symmetric] word_less_nat_alt)
      (simp add: sbyte' digit7_small)
next
  case False
  then have "Parse64 plat m p = scan_acc 10 2 (p + 10) 0 0 m p 0"
    using Parse64FallbackPair_scan [of m p] parse64fallback [of m p]
    by (simp add: Parse64_def sle0 bit_sbyte_high word_less_nat_alt)
  then show ?thesis by (simp add: scan_acc_init)
qed

text \<open>
  The limit that \<open>Parse64WithLimit\<close> observes.  It is the given one, except from the last ten addresses of the
  address space: there the sum in \<open>OffsetWithinLimit\<close> wraps, and the parser believes that ten bytes are left.
\<close>

definition checked_limit :: "addr \<Rightarrow> addr \<Rightarrow> addr" where
  "checked_limit p limit =
    (if 2 ^ 64 \<le> p + kMax64 \<and> OffsetWithinLimit p kMax64 limit then p + kMax64 else limit)"

lemma checked_limit_eq: "p + kMax64 < 2 ^ 64 \<Longrightarrow> checked_limit p limit = limit"
  by (simp add: checked_limit_def)

lemma checked_limit_ge: "p + n \<le> limit \<Longrightarrow> n \<le> kMax64 \<Longrightarrow> p + n \<le> checked_limit p limit"
  by (simp add: checked_limit_def)

lemma Parse64WithLimit_scan:
  "Parse64WithLimit plat m p limit = map_option (\<lambda>(q, v). (q, of_nat v)) (varint_scan 10 2 (checked_limit p limit) m p)"
proof (cases "OffsetWithinLimit p kMax64 limit")
  case True
  then have "p + 10 \<le> checked_limit p limit" by (auto simp: OffsetWithinLimit_def checked_limit_def kMax64_def)
  then show ?thesis using True
    using varint_scan_limit [of p 10 "checked_limit p limit" "p + 10" 2 m]
    by (simp add: Parse64WithLimit_def Parse64_scan)
next
  case False
  then have limit: "checked_limit p limit = limit" by (simp add: checked_limit_def)
  have "limit < (p + 10) mod 2 ^ 64" using False by (simp add: OffsetWithinLimit_def kMax64_def)
  then have short: "limit \<le> p + 9" using mod_less_eq_dividend [of "p + 10" "2 ^ 64"] by linarith
  have eq: "Parse64WithLimit plat m p limit = Parse64WithLimit (if is_x86_64 plat then X86_64 else Portable) m p limit"
    using False by (simp add: Parse64WithLimit_def is_x86_64_def)
  have port: "scan_acc 9 128 limit 0 0 m p 0 = map_option (\<lambda>(q, v). (q, of_nat v :: u64)) (varint_scan 10 2 limit m p)"
    using short varint_scan_short [of limit p 9 m 2] by (simp add: scan_acc_init)
  have x86: "scan_sub 9 limit 1 0 m p 0 = map_option (\<lambda>(q, v). (q, of_nat v :: u64)) (varint_scan 10 2 limit m p)"
    using short scan_sub_scan [of limit p 0 9 0 0 m 2] by simp
  show ?thesis
    unfolding eq limit using parse64lim [OF False] parse64lim_x [OF False] port x86 by simp
qed

lemma varint_scan_unroll:
  "map_option fst (varint_scan (numeral k) lim limit m p) =
    (if p \<ge> limit then None
     else if unat (m p) < (if pred_numeral k = 0 then lim else 128) then Some (p + 1)
     else map_option fst (varint_scan (pred_numeral k) lim limit m (p + 1)))"
  "map_option fst (varint_scan 1 lim limit m p) =
    (if p \<ge> limit then None else if unat (m p) < lim then Some (p + 1) else None)"
  by (subst numeral_eq_Suc, simp add: option.map_comp comp_def case_prod_unfold)
    (simp add: One_nat_def)

lemma Skip32_scan: "Skip32 m p = map_option fst (varint_scan 5 16 (p + 5) m p)"
  by (simp add: Skip32_def varint_scan_unroll byte_less add.assoc del: One_nat_def add_2_eq_Suc' cong: if_cong split del: if_split)
lemma Skip32WithLimit_scan: "Skip32WithLimit m p limit = map_option fst (varint_scan 5 16 limit m p)"
  by (simp add: Skip32WithLimit_def varint_scan_unroll byte_less add.assoc del: One_nat_def add_2_eq_Suc' cong: if_cong split del: if_split)
lemma Skip64_scan: "Skip64 m p = map_option fst (varint_scan 10 2 (p + 10) m p)"
  by (simp add: Skip64_def varint_scan_unroll byte_less add.assoc del: One_nat_def add_2_eq_Suc' cong: if_cong split del: if_split)
lemma Skip64WithLimit_scan: "Skip64WithLimit m p limit = map_option fst (varint_scan 10 2 limit m p)"
  by (simp add: Skip64WithLimit_def varint_scan_unroll byte_less add.assoc del: One_nat_def add_2_eq_Suc' cong: if_cong split del: if_split)

end
