(* ===== verification/Codec_Interface.thy ===== *)
theory Codec_Interface
  imports Gloop_Prelude
begin

text \<open>
  The interface of a byte codec, as the coding library uses it: a writer that puts a value at an
  address and returns the address past it, and a reader that gets a value from an address without
  reading at or past a limit.  The laws are those that callers rely on; the limit is observed from the
  addresses that are \<open>safe\<close>, which are all of them for most codecs.  The varint and the
  fixed-width little-endian codecs interpret this locale on their own routines, and the facts
  about sequences of values are proved once, here.
\<close>

fun put_all :: "(mem \<Rightarrow> addr \<Rightarrow> 'a \<Rightarrow> mem \<times> addr) \<Rightarrow> mem \<Rightarrow> addr \<Rightarrow> 'a list \<Rightarrow> mem \<times> addr" where
  "put_all put m p [] = (m, p)"
| "put_all put m p (v # vs) = (case put m p v of (m, p) \<Rightarrow> put_all put m p vs)"

fun get_all :: "(mem \<Rightarrow> addr \<Rightarrow> addr \<Rightarrow> (addr \<times> 'a) option) \<Rightarrow> nat \<Rightarrow> mem \<Rightarrow> addr \<Rightarrow> addr
    \<Rightarrow> (addr \<times> 'a list) option" where
  "get_all get 0 m p limit = Some (p, [])"
| "get_all get (Suc n) m p limit = (case get m p limit of None \<Rightarrow> None
     | Some (q, v) \<Rightarrow> map_option (\<lambda>(q, vs). (q, v # vs)) (get_all get n m q limit))"

locale byte_codec =
  fixes enc :: "'a \<Rightarrow> u8 list"
    and put :: "mem \<Rightarrow> addr \<Rightarrow> 'a \<Rightarrow> mem \<times> addr"
    and get :: "mem \<Rightarrow> addr \<Rightarrow> addr \<Rightarrow> (addr \<times> 'a) option"
    and safe :: "addr \<Rightarrow> bool"
  assumes put_enc: "put m p v = (store_bytes m p (enc v), p + length (enc v))"
    and get_enc: "load_bytes m p (length (enc v)) = enc v \<Longrightarrow> p + length (enc v) \<le> limit \<Longrightarrow>
      get m p limit = Some (p + length (enc v), v)"
    and get_short: "safe p \<Longrightarrow> load_bytes m p (length (enc v)) = enc v \<Longrightarrow> limit < p + length (enc v) \<Longrightarrow>
      get m p limit = None"
    and get_reads: "safe p \<Longrightarrow> (\<And>a. p \<le> a \<Longrightarrow> a < limit \<Longrightarrow> m a = m' a) \<Longrightarrow> get m p limit = get m' p limit"
    and get_bounds: "safe p \<Longrightarrow> get m p limit = Some (q, v) \<Longrightarrow> p \<le> q \<and> q \<le> limit"
begin

lemma get_put:
  "safe p \<Longrightarrow> get (fst (put m p v)) p limit =
    (if snd (put m p v) \<le> limit then Some (snd (put m p v), v) else None)"
  using get_enc [OF load_store_bytes, of p v limit m] get_short [OF _ load_store_bytes, of p limit v m]
  by (simp add: put_enc)

lemma put_frame: "a < p \<or> snd (put m p v) \<le> a \<Longrightarrow> fst (put m p v) a = m a"
  by (simp add: put_enc store_bytes_outside)

lemma enc_prefix_free:
  assumes "enc v @ xs = enc w @ ys"
  shows "v = w \<and> xs = ys"
proof -
  define m where "m = store_bytes (\<lambda>_. 0) 0 (enc v @ xs)"
  have whole: "load_bytes m 0 (length (enc v @ xs)) = enc v @ xs"
    by (simp only: m_def load_store_bytes)
  have v: "load_bytes m 0 (length (enc v)) = enc v"
    using whole by (simp add: load_bytes_add)
  have "load_bytes m 0 (length (enc w @ ys)) = enc w @ ys"
    using whole by (simp only: assms)
  then have w: "load_bytes m 0 (length (enc w)) = enc w"
    by (simp add: load_bytes_add)
  have "get m 0 (length (enc v @ xs)) = Some (0 + length (enc v), v)"
    by (rule get_enc [OF v]) simp
  moreover have "get m 0 (length (enc v @ xs)) = Some (0 + length (enc w), w)"
    by (rule get_enc [OF w]) (simp add: assms)
  ultimately show ?thesis using assms by simp
qed

lemma enc_inject: "enc v = enc w \<longleftrightarrow> v = w"
  using enc_prefix_free [of v "[]" w "[]"] by auto

lemma put_all_enc:
  "put_all put m p vs = (store_bytes m p (concat (map enc vs)), p + length (concat (map enc vs)))"
  by (induction vs arbitrary: m p) (simp_all add: put_enc store_bytes_append add.assoc)

lemma get_all_enc:
  assumes "load_bytes m p (length (concat (map enc vs))) = concat (map enc vs)"
    and "p + length (concat (map enc vs)) \<le> limit"
  shows "get_all get (length vs) m p limit = Some (p + length (concat (map enc vs)), vs)"
  using assms
proof (induction vs arbitrary: p)
  case (Cons v vs)
  then show ?case using get_enc [of m p v limit] by (simp add: load_bytes_add add.assoc)
qed simp

lemma get_all_put_all:
  "snd (put_all put m p vs) \<le> limit \<Longrightarrow>
    get_all get (length vs) (fst (put_all put m p vs)) p limit = Some (snd (put_all put m p vs), vs)"
  by (simp add: put_all_enc get_all_enc load_store_bytes)

end

end
