(* ===== verification/Varint_Codec.thy ===== *)
theory Varint_Codec
  imports Varint_Parse Codec_Interface
begin

text \<open>
  The varint encoders against the reference printer, the round trips that follow, the length
  computation and the string appenders.  The two codecs are instances of the codec interface.
\<close>

section \<open>The reference codec is a codec\<close>

lemma varint_bytes_small: "v < 128 \<Longrightarrow> varint_bytes v = [of_nat v]"
  by (subst varint_bytes.simps) simp

lemma varint_bytes_step:
  "128 \<le> v \<Longrightarrow> varint_bytes v = of_nat (v mod 128 + 128) # varint_bytes (v div 128)"
  by (subst varint_bytes.simps) simp

lemma length_varint_bytes_pos: "0 < length (varint_bytes v)"
  by (subst varint_bytes.simps) simp

lemma unat_of_nat_byte: "n < 256 \<Longrightarrow> unat (of_nat n :: u8) = n"
  by (simp add: unsigned_of_nat take_bit_nat_eq_self)

lemma varint_scan_bytes:
  assumes "load_bytes m p (length (varint_bytes v)) = varint_bytes v"
    and "p + length (varint_bytes v) \<le> limit" and "v < lim * 128 ^ n" and "lim \<le> 128"
  shows "varint_scan (Suc n) lim limit m p = Some (p + length (varint_bytes v), v)"
  using assms
proof (induction n arbitrary: p v)
  case 0
  then have "varint_bytes v = [of_nat v]" by (simp add: varint_bytes_small)
  with 0 show ?case by (auto simp: load_bytes_Suc unat_of_nat_byte)
next
  case (Suc n)
  show ?case
  proof (cases "v < 128")
    case True
    with Suc.prems show ?thesis by (auto simp: varint_bytes_small load_bytes_Suc unat_of_nat_byte)
  next
    case False
    then have step: "varint_bytes v = of_nat (v mod 128 + 128) # varint_bytes (v div 128)"
      by (simp add: varint_bytes_step)
    have b: "unat (m p) = v mod 128 + 128"
      using Suc.prems(1) unat_of_nat_byte [of "v mod 128 + 128"] by (simp add: step load_bytes_Suc)
    have "varint_scan (Suc n) lim limit m (p + 1) = Some (p + 1 + length (varint_bytes (v div 128)), v div 128)"
      using Suc.prems by (intro Suc.IH) (auto simp: step load_bytes_Suc less_mult_imp_div_less algebra_simps)
    with b Suc.prems(2) show ?thesis
      by (simp add: scan_first step del: varint_scan.simps)
  qed
qed

lemma varint_scan_bounds:
  "varint_scan n lim limit m p = Some (q, v) \<Longrightarrow> p < q \<and> q \<le> limit \<and> q \<le> p + n"
  by (induction n arbitrary: p q v) (fastforce split: if_splits)+

lemma varint_scan_reads:
  "(\<And>a. p \<le> a \<Longrightarrow> a < limit \<Longrightarrow> a < p + n \<Longrightarrow> m a = m' a) \<Longrightarrow>
    varint_scan n lim limit m p = varint_scan n lim limit m' p"
  by (induction n arbitrary: p) auto

lemma varint_scan_value: "varint_scan (Suc n) lim limit m p = Some (q, v) \<Longrightarrow> lim \<le> 128 \<Longrightarrow> 0 < lim \<Longrightarrow> v < lim * 128 ^ n"
proof (induction n arbitrary: p q v)
  case 0
  then show ?case by (auto split: if_splits)
next
  case (Suc n)
  have le: "128 \<le> lim * (128 * 128 ^ n)" using Suc.prems(3) by (simp add: Suc_le_eq)
  show ?case
  proof (cases "unat (m p) < 128")
    case True
    then have "v = unat (m p)" using Suc.prems(1) by (auto split: if_splits)
    also have "\<dots> < 128" by (fact True)
    finally show ?thesis using le by (simp only: power_Suc less_le_trans)
  next
    case False
    with Suc.prems(1) obtain v' where s: "varint_scan (Suc n) lim limit m (p + 1) = Some (q, v')"
      and v: "v = unat (m p) mod 128 + 128 * v'"
      by (auto simp: scan_first split: if_splits simp del: varint_scan.simps)
    have "v' < lim * 128 ^ n" using Suc.IH [OF s] Suc.prems by simp
    then have "128 * v' + 128 \<le> 128 * (lim * 128 ^ n)" by (simp only: mult_le_mono flip: mult_Suc_right) 
    with v show ?thesis by simp
  qed
qed

section \<open>Lengths\<close>

lemma length_varint_bytes: "length (varint_bytes v) = (nat_bit_width v - 1) div 7 + 1"
proof (induction v rule: varint_bytes.induct)
  case (1 v)
  show ?case
  proof (cases "v < 128")
    case True
    then have "nat_bit_width v \<le> 7" by (simp add: nat_bit_width_le)
    with True show ?thesis by (simp add: varint_bytes_small)
  next
    case False
    then have "\<not> nat_bit_width v \<le> 7" by (simp add: nat_bit_width_le)
    then have "(nat_bit_width v - 1) div 7 = Suc ((nat_bit_width v - 7 - 1) div 7)"
      by (simp add: le_div_geq)
    with 1 False show ?thesis
      using nat_bit_width_div [of v 7] by (simp add: varint_bytes_step)
  qed
qed

lemma length_formula:
  assumes "b \<le> 64"
  shows "(b * 9 + 64) div 64 = (b - 1) div 7 + (1::nat)"
proof -
  have "\<forall>b\<in>set [0..<65]. (b * 9 + 64) div 64 = (b - 1) div 7 + (1::nat)"
    by code_simp
  with assms show ?thesis by (simp add: less_Suc_eq_le [symmetric] del: upt.simps)
qed

text \<open>
  \<open>LengthImpl\<close> replaces the division by seven of \<open>(bit_width - 1) div 7 + 1\<close> by a
  multiplication and a shift, which agrees up to 64 bits.
\<close>

lemma bit_width_or_1: "bit_width (v OR 1) = max 1 (bit_width (v :: 'a::len word))"
proof (cases "v = 0")
  case True
  then show ?thesis by (simp add: bit_width_def nat_bit_width.simps)
next
  case False
  have "unat (v OR 1) = unat v OR 1" by (simp add: unsigned_or_eq)
  also have "\<dots> = unat v + of_bool (even (unat v))" by (rule or_one_eq)
  finally have or1: "unat (v OR 1) = unat v + of_bool (even (unat v))" .
  then have "unat (v OR 1) div 2 = unat v div 2" by simp
  moreover have "unat v \<noteq> 0" using False by (simp add: unsigned_eq_0_iff)
  moreover have "unat (v OR 1) \<noteq> 0" using or1 \<open>unat v \<noteq> 0\<close> by (simp only:)
  ultimately have "bit_width (v OR 1) = bit_width v"
    unfolding bit_width_def by (metis nat_bit_width.simps)
  moreover have "1 \<le> bit_width v" using \<open>unat v \<noteq> 0\<close> 
    by (simp add: bit_width_def nat_bit_width.simps [of "unat v"])
  ultimately show ?thesis by simp
qed

lemma LengthImpl_varint:
  fixes v :: "'a::len word"
  assumes "LENGTH('a) \<le> 64"
  shows "LengthImpl plat v = length (varint_bytes (unat v))"
proof -
  have w: "bit_width v \<le> LENGTH('a)"
    by (simp add: bit_width_def nat_bit_width_le)
  have "(LENGTH('a) * 9 + 64) - countl_zero v * 9 = bit_width v * 9 + 64"
    using w by (simp add: countl_zero_def diff_mult_distrib)
  with assms w length_formula [of "bit_width v"] length_formula [of "max 1 (bit_width v)"] show ?thesis
    by (cases "1 \<le> bit_width v")
      (simp_all add: LengthImpl_def bit_width_or_1 length_varint_bytes bit_width_def [symmetric])
qed

section \<open>The encoders print the reference bytes\<close>

lemma byte_of_drop_bit: "(ucast (drop_bit k (v :: 'a::len word)) :: u8) = of_nat (unat v div 2 ^ k)"
  by (metis of_nat_unat unat_drop_bit_div)

lemma byte_of_drop_bit_or_128:
  "8 \<le> LENGTH('a) \<Longrightarrow> (ucast (drop_bit k (v :: 'a::len word) OR 128) :: u8) = of_nat (unat v div 2 ^ k mod 128 + 128)"
  by (simp only: ucast_or_128 unat_drop_bit_div)

lemma varint_bytes_unroll:
  "v < 2 ^ 7 \<Longrightarrow> varint_bytes v = [of_nat v]"
  "2 ^ 7 \<le> v \<Longrightarrow> v < 2 ^ 14 \<Longrightarrow> varint_bytes v = [of_nat (v mod 128 + 128), of_nat (v div 2 ^ 7)]"
  "2 ^ 14 \<le> v \<Longrightarrow> v < 2 ^ 21 \<Longrightarrow> varint_bytes v =
    [of_nat (v mod 128 + 128), of_nat (v div 2 ^ 7 mod 128 + 128), of_nat (v div 2 ^ 14)]"
  "2 ^ 21 \<le> v \<Longrightarrow> v < 2 ^ 28 \<Longrightarrow> varint_bytes v =
    [of_nat (v mod 128 + 128), of_nat (v div 2 ^ 7 mod 128 + 128), of_nat (v div 2 ^ 14 mod 128 + 128),
     of_nat (v div 2 ^ 21)]"
  "2 ^ 28 \<le> v \<Longrightarrow> varint_bytes v =
    [of_nat (v mod 128 + 128), of_nat (v div 2 ^ 7 mod 128 + 128), of_nat (v div 2 ^ 14 mod 128 + 128),
     of_nat (v div 2 ^ 21 mod 128 + 128)] @ varint_bytes (v div 2 ^ 28)"
  by (simp_all add: varint_bytes_step varint_bytes_small less_mult_imp_div_less div_mult2_eq [symmetric]
      div_le_mono div_greater_zero_iff  less_eq_div_iff_mult_less_eq del: of_nat_add)

lemma Encode32_bytes:
  "Encode32 m p v = (store_bytes m p (varint_bytes (unat v)), p + length (varint_bytes (unat v)))"
proof -
  have "unat v < 2 ^ 32"
    using unsigned_less [of v, where ?'a = nat] by simp
  then have v: "unat v div 2 ^ 28 < 2 ^ 7"
    by (simp add: less_mult_imp_div_less)
  then have v': "unat v div 268435456 < 128" by simp
  have lt: "v < push_bit 7 1 \<longleftrightarrow> unat v < 2 ^ 7" "v < push_bit 14 1 \<longleftrightarrow> unat v < 2 ^ 14"
    "v < push_bit 21 1 \<longleftrightarrow> unat v < 2 ^ 21" "v < push_bit 28 1 \<longleftrightarrow> unat v < 2 ^ 28"
    by (simp_all add: word_less_nat_alt)
  consider "unat v < 2 ^ 7" | "2 ^ 7 \<le> unat v" "unat v < 2 ^ 14" | "2 ^ 14 \<le> unat v" "unat v < 2 ^ 21"
    | "2 ^ 21 \<le> unat v" "unat v < 2 ^ 28" | "2 ^ 28 \<le> unat v" by linarith
  then show ?thesis
    unfolding Encode32_def Encode32Inline_def Let_def lt
    by cases (simp_all add: varint_bytes_unroll v varint_bytes_small [OF v'] store_bytes_unroll byte_of_drop_bit unat_drop_bit_div ucast_or_128 del: store_bytes.simps of_nat_add)
qed

lemma enc64_byte:
  fixes v :: u64
  assumes "k + 8 \<le> 32" and "i = k + 7 \<and> (j < k \<or> k + 8 \<le> j) \<or> j = k + 7 \<and> (i < k \<or> k + 8 \<le> i)"
  shows "(ucast (drop_bit k (ucast (v OR push_bit i 1 OR push_bit j 1) :: u32)) :: u8) =
    of_nat (unat v div 2 ^ k mod 128 + 128)"
proof -
  have "(ucast (drop_bit k (ucast (v OR push_bit i 1 OR push_bit j 1) :: u32)) :: u8) =
    ucast (drop_bit k v OR push_bit 7 1)"
  proof (rule bit_word_eqI)
    fix n assume "n < LENGTH(8)"
    then have n: "n < 8" by simp
    then have "bit (ucast (drop_bit k v OR push_bit 7 1) :: u8) n \<longleftrightarrow> bit v (k + n) \<or> n = 7"
      by (simp only: bit_simps) auto
    moreover have "bit (ucast (drop_bit k (ucast (v OR push_bit i 1 OR push_bit j 1) :: u32)) :: u8) n
      \<longleftrightarrow> bit v (k + n) \<or> k + n = i \<or> k + n = j"
      using n assms(1) by (simp only: bit_simps) (auto simp: bit_simps)
    ultimately show "bit (ucast (drop_bit k (ucast (v OR push_bit i 1 OR push_bit j 1) :: u32)) :: u8) n
      = bit (ucast (drop_bit k v OR push_bit 7 1) :: u8) n"
      using n assms(2) by (simp only:) linarith
  qed
  also have "push_bit 7 1 = (128 :: u64)" by simp
  also have "(ucast (drop_bit k v OR 128) :: u8) = of_nat (unat v div 2 ^ k mod 128 + 128)"
    by (rule byte_of_drop_bit_or_128) simp
  finally show ?thesis .
qed

lemma enc64_bytes:
  fixes v :: u64
  shows "(ucast (ucast (v OR push_bit 7 1 OR push_bit 21 1) :: u32) :: u8) = of_nat (unat v mod 128 + 128)"
    and "(ucast (drop_bit 7 (ucast (v OR push_bit 14 1 OR push_bit 28 1) :: u32)) :: u8) =
      of_nat (unat v div 2 ^ 7 mod 128 + 128)"
    and "(ucast (drop_bit 14 (ucast (v OR push_bit 7 1 OR push_bit 21 1) :: u32)) :: u8) =
      of_nat (unat v div 2 ^ 14 mod 128 + 128)"
    and "(ucast (drop_bit 21 (ucast (v OR push_bit 14 1 OR push_bit 28 1) :: u32)) :: u8) =
      of_nat (unat v div 2 ^ 21 mod 128 + 128)"
    and "(ucast (drop_bit 28 v OR push_bit 7 1) :: u8) = of_nat (unat v div 2 ^ 28 mod 128 + 128)"
proof -
  have "(ucast (drop_bit 0 (ucast (v OR push_bit 7 1 OR push_bit 21 1) :: u32)) :: u8) =
    of_nat (unat v div 2 ^ 0 mod 128 + 128)" by (rule enc64_byte) simp_all
  then show "(ucast (ucast (v OR push_bit 7 1 OR push_bit 21 1) :: u32) :: u8) = of_nat (unat v mod 128 + 128)"
    by (simp only: drop_bit_0 id_apply power_0 div_by_1)
  have "push_bit 7 1 = (128 :: u64)" by simp
  then show "(ucast (drop_bit 28 v OR push_bit 7 1) :: u8) = of_nat (unat v div 2 ^ 28 mod 128 + 128)"
    using byte_of_drop_bit_or_128 [of 28 v] by (simp only:) simp
qed (rule enc64_byte; simp)+

lemma Encode64_bytes:
  "Encode64 m p v = (store_bytes m p (varint_bytes (unat v)), p + length (varint_bytes (unat v)))"
proof -
  have v: "unat v < 2 ^ 64"
    using unsigned_less [of v, where ?'a = nat] by simp
  have lt: "v < push_bit 28 1 \<longleftrightarrow> unat v < 2 ^ 28" "v < push_bit 35 1 \<longleftrightarrow> unat v < 2 ^ 35"
    by (simp_all add: word_less_nat_alt)
  consider "unat v < 2 ^ 28" | "2 ^ 28 \<le> unat v" "unat v < 2 ^ 35" | "2 ^ 35 \<le> unat v" by linarith
  then show ?thesis
  proof cases
    case 1
    then have "unat (ucast v :: u32) = unat v" by (simp add: unsigned_ucast_eq take_bit_nat_eq_self)
    with 1 show ?thesis unfolding Encode64_def lt by (simp add: Encode32_bytes)
  next
    case 2
    then have "varint_bytes (unat v div 2 ^ 28) = [of_nat (unat v div 2 ^ 28)]"
      by (intro varint_bytes_small) (simp add: less_mult_imp_div_less)
    with 2 show ?thesis 
      unfolding Encode64_def lt Let_def enc64_bytes
      by (simp add: varint_bytes_unroll store_bytes_unroll byte_of_drop_bit del: store_bytes.simps of_nat_add)
  next
    case 3
    then have "128 \<le> unat v div 2 ^ 28" by (simp add: less_eq_div_iff_mult_less_eq)
    then have bytes: "varint_bytes (unat v) = [of_nat (unat v mod 128 + 128), of_nat (unat v div 2 ^ 7 mod 128 + 128),
      of_nat (unat v div 2 ^ 14 mod 128 + 128), of_nat (unat v div 2 ^ 21 mod 128 + 128),
      of_nat (unat v div 2 ^ 28 mod 128 + 128)] @ varint_bytes (unat v div 2 ^ 35)"
      using 3 by (simp add: varint_bytes_unroll varint_bytes_step div_mult2_eq [symmetric] del: of_nat_add)
    have "unat v div 2 ^ 35 < 2 ^ 32" using v by (simp add: less_mult_imp_div_less)
    then have "unat (ucast (drop_bit 35 v) :: u32) = unat v div 2 ^ 35"
      by (simp add: unsigned_ucast_eq take_bit_nat_eq_self unat_drop_bit_div)
    moreover have l5: "length [a, b, c, d, e] = 5" for a b c d e :: u8 by simp
    ultimately show ?thesis using 3
      unfolding Encode64_def lt Let_def enc64_bytes Encode32_bytes bytes store_bytes_append store_bytes_unroll l5
      by simp
  qed
qed


section \<open>Appending to strings\<close>

lemma load_string_buffer: "load_bytes (store_bytes (string_buffer cs) (length cs) bs) 0 (length cs + length bs) = cs @ bs"
  by (rule nth_equalityI) (auto simp: store_bytes_apply string_buffer_def nth_append)

lemma Append32_chars:
  "chars (Append32 plat s v) = chars s @ varint_bytes (unat v)"
proof -
  have "v < 128 \<longleftrightarrow> unat v < 128" by (simp add: word_less_nat_alt)
  then show ?thesis
    by (simp add: Append32_def Append32Slow_def Length32_def LengthImpl_varint Encode32_bytes Let_def
        load_string_buffer reserve_def varint_bytes_small)
qed

lemma Append64_chars:
  "chars (Append64 plat s v) = chars s @ varint_bytes (unat v)"
proof -
  have "v < 128 \<longleftrightarrow> unat v < 128" by (simp add: word_less_nat_alt)
  then show ?thesis
    by (simp add: Append64_def Append64Slow_def Length64_def LengthImpl_varint Encode64_bytes Let_def
        load_string_buffer reserve_def varint_bytes_small)
qed

lemma Append_capacity:
  assumes "length (chars s) \<le> capacity s"
  shows "length (chars (Append32 plat s v)) \<le> capacity (Append32 plat s v)"
    and "length (chars (Append64 plat s w)) \<le> capacity (Append64 plat s w)"
  using assms by (auto simp: Append32_def Append32Slow_def Append64_def Append64Slow_def reserve_def Let_def)

section \<open>Reading back what was printed\<close>

lemma varint_scan_truncated:
  assumes "load_bytes m p (length (varint_bytes v)) = varint_bytes v"
    and "limit < p + length (varint_bytes v)" and "lim \<le> 128"
  shows "varint_scan n lim limit m p = None"
  using assms
proof (induction n arbitrary: p v)
  case (Suc n)
  show ?case
  proof (cases "v < 128 \<or> limit \<le> p")
    case True
    with Suc.prems show ?thesis by (auto simp: varint_bytes_small)
  next
    case False
    then have step: "varint_bytes v = of_nat (v mod 128 + 128) # varint_bytes (v div 128)"
      by (simp add: varint_bytes_step)
    have "unat (m p) = v mod 128 + 128"
      using Suc.prems(1) unat_of_nat_byte [of "v mod 128 + 128"] by (simp add: step load_bytes_Suc)
    moreover have "varint_scan n lim limit m (p + 1) = None"
      using Suc.prems by (intro Suc.IH [of _ "v div 128"]) (auto simp: step load_bytes_Suc)
    ultimately show ?thesis using Suc.prems(3) by simp
  qed
qed simp

lemma varint_scan_printed:
  assumes "v < lim * 128 ^ n" "lim \<le> 128"
  shows "varint_scan (Suc n) lim limit (store_bytes m p (varint_bytes v)) p =
     (if p + length (varint_bytes v) \<le> limit then Some (p + length (varint_bytes v), v) else None)"
  using varint_scan_bytes [OF load_store_bytes _ assms] varint_scan_truncated [OF load_store_bytes _ assms(2)]
  by (simp add: not_le del: varint_scan.simps)

lemma length_varint_bytes_le:
  "length (varint_bytes (unat (v::u32))) \<le> 5"
  "length (varint_bytes (unat (w::u64))) \<le> 10"
proof -
  have "nat_bit_width (unat v) \<le> 32" "nat_bit_width (unat w) \<le> 64"
    by (simp_all add: nat_bit_width_le unsigned_less [of v, where ?'a=nat, simplified] unsigned_less [of w, where ?'a=nat, simplified])
  then have "(nat_bit_width (unat v) - 1) div 7 \<le> (32 - 1) div 7" "(nat_bit_width (unat w) - 1) div 7 \<le> (64 - 1) div 7"
    by (intro div_le_mono; linarith)+
  then show "length (varint_bytes (unat (v::u32))) \<le> 5"
  "length (varint_bytes (unat (w::u64))) \<le> 10" by (simp_all add: length_varint_bytes)
qed

lemma Parse64_Encode64:
  "Parse64 plat (fst (Encode64 m p v)) p = Some (snd (Encode64 m p v), v)"
proof -
  have "unat v < 2 * 128 ^ 9" using unsigned_less [of v, where ?'a = nat] by simp
  then have "varint_scan (Suc 9) 2 (p + 10) (store_bytes m p (varint_bytes (unat v))) p =
    Some (p + length (varint_bytes (unat v)), unat v)"
    by (subst varint_scan_printed) (auto simp: length_varint_bytes_le)
  then show ?thesis by (simp add: Encode64_bytes Parse64_scan)
qed

lemma Parse32_Encode32:
  "Parse32 (fst (Encode32 m p v)) p = Some (snd (Encode32 m p v), v)"
proof -
  have "unat v < 16 * 128 ^ 4" using unsigned_less [of v, where ?'a = nat] by simp
  then have "varint_scan (Suc 4) 16 (p + 5) (store_bytes m p (varint_bytes (unat v))) p =
    Some (p + length (varint_bytes (unat v)), unat v)"
    by (subst varint_scan_printed) (auto simp: length_varint_bytes_le)
  then show ?thesis by (simp add: Encode32_bytes Parse32_scan)
qed

lemma ParseWithLimit_Encode:
  "Parse32WithLimit (fst (Encode32 m p v)) p limit =
    (if snd (Encode32 m p v) \<le> limit then Some (snd (Encode32 m p v), v) else None)"
  "Parse64WithLimit plat (fst (Encode64 m p w)) p limit =
    (if snd (Encode64 m p w) \<le> checked_limit p limit then Some (snd (Encode64 m p w), w) else None)"
proof -
  have "unat v < 16 * 128 ^ 4" using unsigned_less [of v, where ?'a = nat] by simp
  then show "Parse32WithLimit (fst (Encode32 m p v)) p limit =
    (if snd (Encode32 m p v) \<le> limit then Some (snd (Encode32 m p v), v) else None)"
    using varint_scan_printed [of "unat v" 16 4 limit m p]
    by (simp add: Encode32_bytes Parse32WithLimit_scan)
  have "unat w < 2 * 128 ^ 9" using unsigned_less [of w, where ?'a = nat] by simp
  then show "Parse64WithLimit plat (fst (Encode64 m p w)) p limit =
    (if snd (Encode64 m p w) \<le> checked_limit p limit then Some (snd (Encode64 m p w), w) else None)"
    using varint_scan_printed [of "unat w" 2 9 "checked_limit p limit" m p]
    by (simp add: Encode64_bytes Parse64WithLimit_scan)
qed

lemma limit32:
  assumes "load_bytes m p (length (varint_bytes (unat v))) = varint_bytes (unat v)"
  shows "Parse32WithLimit m p limit = (if p + length (varint_bytes (unat v)) \<le> limit
    then Some (p + length (varint_bytes (unat v)), v) else None)"
proof -
  have "unat v < 16 * 128 ^ 4" using unsigned_less [of v, where ?'a = nat] by simp
  then show ?thesis
    using varint_scan_bytes [OF assms, of limit 16 4] varint_scan_truncated [OF assms, of limit 16 5]
    by (auto simp: Parse32WithLimit_scan simp del: varint_scan.simps)
qed

lemma limit64:
  assumes "load_bytes m p (length (varint_bytes (unat v))) = varint_bytes (unat v)"
  shows "Parse64WithLimit plat m p limit = (if p + length (varint_bytes (unat v)) \<le> checked_limit p limit
    then Some (p + length (varint_bytes (unat v)), v) else None)"
proof -
  have "unat v < 2 * 128 ^ 9" using unsigned_less [of v, where ?'a = nat] by simp
  then show ?thesis
    using varint_scan_bytes [OF assms, of "checked_limit p limit" 2 9] varint_scan_truncated [OF assms, of "checked_limit p limit" 2 10]
    by (auto simp: Parse64WithLimit_scan simp del: varint_scan.simps)
qed

interpretation varint32: byte_codec "\<lambda>v :: u32. varint_bytes (unat v)" Encode32 Parse32WithLimit "\<lambda>_. True"
proof
  fix m m' :: mem and p limit
  assume "\<And>a. p \<le> a \<Longrightarrow> a < limit \<Longrightarrow> m a = m' a"
  then show "Parse32WithLimit m p limit = Parse32WithLimit m' p limit"
    unfolding Parse32WithLimit_scan by (subst varint_scan_reads [of p limit 5 m m']) auto
next
  fix m p limit q v
  assume "Parse32WithLimit m p limit = Some (q, v)"
  then show "p \<le> q \<and> q \<le> limit"
    unfolding Parse32WithLimit_scan by (auto dest: varint_scan_bounds)
qed (simp_all add: Encode32_bytes limit32)

interpretation varint64: byte_codec "\<lambda>v :: u64. varint_bytes (unat v)" Encode64 "Parse64WithLimit plat"
  "\<lambda>p. p + kMax64 < 2 ^ 64" for plat
proof
  fix m m' :: mem and p limit
  assume "p + kMax64 < 2 ^ 64" "\<And>a. p \<le> a \<Longrightarrow> a < limit \<Longrightarrow> m a = m' a"
  then show "Parse64WithLimit plat m p limit = Parse64WithLimit plat m' p limit"
    unfolding Parse64WithLimit_scan by (subst varint_scan_reads [of p _ 10 m m']) (auto simp: checked_limit_eq)
next
  fix m p limit q v
  assume "p + kMax64 < 2 ^ 64" "Parse64WithLimit plat m p limit = Some (q, v)"
  then show "p \<le> q \<and> q \<le> limit"
    unfolding Parse64WithLimit_scan by (auto simp: checked_limit_eq dest: varint_scan_bounds)
next
  fix m p limit and v :: u64
  assume "load_bytes m p (length (varint_bytes (unat v))) = varint_bytes (unat v)"
    and "p + length (varint_bytes (unat v)) \<le> limit"
  then show "Parse64WithLimit plat m p limit = Some (p + length (varint_bytes (unat v)), v)"
    using length_varint_bytes_le(2) [of v] by (simp add: limit64 checked_limit_ge kMax64_def)
qed (simp_all add: Encode64_bytes limit64 checked_limit_eq)

section \<open>Properties\<close>

text \<open>
  Property C12.  The 64-bit parsers, on every platform, compute the reference parse: at most ten
  base-128 digits, the tenth at most 1, within the limit, and fail exactly when it fails.  The limit
  is the given one, except for a start in the last ten bytes of the address space (\<open>checked_limit\<close>).  The
  x86-64 version (sign-extended bytes combined with \<open>AND\<close>) and the portable version are
  therefore the same function.
\<close>

theorem Parse64_is_reference:
  "Parse64 plat m p = map_option (\<lambda>(q, v). (q, of_nat v)) (varint_scan 10 2 (p + 10) m p) \<and>
   Parse64WithLimit plat m p limit = map_option (\<lambda>(q, v). (q, of_nat v))
     (varint_scan 10 2 (if 2 ^ 64 \<le> p + kMax64 \<and> OffsetWithinLimit p kMax64 limit then p + kMax64 else limit) m p)"
  by (simp only: Parse64_scan Parse64WithLimit_scan checked_limit_def simp_thms)

text \<open>
  The encoders write exactly the reference bytes, change nothing else, and return
  the address past the last byte.
\<close>

theorem Encode_is_reference:
  "Encode32 m p v = (store_bytes m p (varint_bytes (unat v)), p + length (varint_bytes (unat v))) \<and>
   Encode64 m p w = (store_bytes m p (varint_bytes (unat w)), p + length (varint_bytes (unat w)))"
  by (simp only: Encode32_bytes Encode64_bytes simp_thms)

text \<open>
  Property C1.  Parsing what was encoded gives the value and the address the encoder returned,
  with the unbounded parsers and with the bounded ones, which fail exactly when the encoding does
  not fit below the limit (\<open>Parse64WithLimit\<close>, from the last ten bytes of the address space, not even then).
\<close>

theorem Varint_roundtrip:
  "Parse32 (fst (Encode32 m p v)) p = Some (snd (Encode32 m p v), v) \<and>
   Parse64 plat (fst (Encode64 m p w)) p = Some (snd (Encode64 m p w), w) \<and>
   Parse32WithLimit (fst (Encode32 m p v)) p limit =
     (if snd (Encode32 m p v) \<le> limit then Some (snd (Encode32 m p v), v) else None) \<and>
   Parse64WithLimit plat (fst (Encode64 m p w)) p limit =
     (if snd (Encode64 m p w) \<le> limit \<or> 2 ^ 64 \<le> p + kMax64 \<and> OffsetWithinLimit p kMax64 limit
      then Some (snd (Encode64 m p w), w) else None)"
proof -
  have "snd (Encode64 m p w) \<le> p + kMax64" using length_varint_bytes_le(2) [of w] by (simp add: Encode64_bytes kMax64_def)
  then show ?thesis
    using Parse32_Encode32 Parse64_Encode64 varint32.get_put ParseWithLimit_Encode(2) by (simp add: checked_limit_def)
qed

text \<open>
  A sequence of varints written back to back is read back value by value.
\<close>

theorem Varint_sequence_roundtrip:
  assumes "snd (put_all Encode64 m p vs) \<le> limit"
  shows "get_all (Parse64WithLimit plat) (length vs) (fst (put_all Encode64 m p vs)) p limit =
    Some (snd (put_all Encode64 m p vs), vs)"
  by (rule varint64.get_all_put_all [OF assms])

theorem Varint_sequence_roundtrip_witness:
  "snd (put_all Encode64 (\<lambda>_. 0) 0 [300, 5]) \<le> 3 \<and>
   get_all (Parse64WithLimit X86_64) (length [300, 5 :: u64]) (fst (put_all Encode64 (\<lambda>_. 0) 0 [300, 5])) 0 3 =
    Some (snd (put_all Encode64 (\<lambda>_. 0) 0 [300, 5]), [300, 5])"
proof -
  have h: "snd (put_all Encode64 (\<lambda>_. 0) 0 [300, 5]) \<le> 3" by code_simp
  show ?thesis using h Varint_sequence_roundtrip [OF h] by blast
qed

text \<open>
  Property C26.  A bounded parse or skip depends only on the bytes from the start up to the limit,
  and the address it returns lies after the start and not past the limit.  For \<open>Parse64WithLimit\<close> this holds
  from every start but the last ten bytes of the address space: from those its check of the limit wraps, and it
  parses as if there were no limit.
\<close>

theorem ParseWithLimit_in_bounds:
  assumes "\<And>a. p \<le> a \<Longrightarrow> a < limit \<Longrightarrow> m a = m' a"
  shows "Parse32WithLimit m p limit = Parse32WithLimit m' p limit \<and>
    Skip32WithLimit m p limit = Skip32WithLimit m' p limit \<and>
    Skip64WithLimit m p limit = Skip64WithLimit m' p limit \<and>
    (case Parse32WithLimit m p limit of None \<Rightarrow> True | Some (q, _) \<Rightarrow> p < q \<and> q \<le> limit) \<and>
    (case Skip32WithLimit m p limit of None \<Rightarrow> True | Some q \<Rightarrow> p < q \<and> q \<le> limit) \<and>
    (case Skip64WithLimit m p limit of None \<Rightarrow> True | Some q \<Rightarrow> p < q \<and> q \<le> limit) \<and>
    (p + kMax64 < 2 ^ 64 \<longrightarrow>
      Parse64WithLimit plat m p limit = Parse64WithLimit plat m' p limit \<and>
      (case Parse64WithLimit plat m p limit of None \<Rightarrow> True | Some (q, _) \<Rightarrow> p < q \<and> q \<le> limit)) \<and>
    (2 ^ 64 \<le> p + kMax64 \<and> p < 2 ^ 64 \<and> p \<le> limit \<longrightarrow> Parse64WithLimit plat m p limit = Parse64 plat m p)"
proof -
  have reads: "varint_scan n lim limit m p = varint_scan n lim limit m' p" for n lim
    using assms by (intro varint_scan_reads) auto
  have "Parse64WithLimit plat m p limit = Parse64 plat m p" if "2 ^ 64 \<le> p + kMax64" "p < 2 ^ 64" "p \<le> limit"
  proof -
    have "(p + kMax64) mod 2 ^ 64 = p + kMax64 - 2 ^ 64" using that(1,2) by (simp add: kMax64_def le_mod_geq)
    also have "\<dots> \<le> limit" using that(2,3) by (simp add: kMax64_def)
    finally show ?thesis by (simp add: Parse64WithLimit_def OffsetWithinLimit_def)
  qed
  then show ?thesis using reads
    by (auto simp: Parse32WithLimit_scan Parse64WithLimit_scan Skip32WithLimit_scan Skip64WithLimit_scan checked_limit_eq
        split: option.split dest: varint_scan_bounds simp del: varint_scan.simps)
qed

theorem ParseWithLimit_in_bounds_witness:
  "Parse64WithLimit X86_64 (\<lambda>_. 7) 1 2 = Parse64WithLimit X86_64 ((\<lambda>_. 7)(2 := 9)) 1 2"
  using ParseWithLimit_in_bounds [of 1 2 "\<lambda>_. 7" "(\<lambda>_. 7)(2 := 9)" X86_64] by (simp add: kMax64_def)

text \<open>
  Skipping a varint is parsing it and dropping the value: the skip routines fail on
  the same inputs as the parsers and stop at the same address.
\<close>

theorem Skip_is_Parse:
  assumes "p + kMax64 < 2 ^ 64"
  shows "Skip32 m p = map_option fst (Parse32 m p) \<and>
   Skip64 m p = map_option fst (Parse64 plat m p) \<and>
   Skip32WithLimit m p limit = map_option fst (Parse32WithLimit m p limit) \<and>
   Skip64WithLimit m p limit = map_option fst (Parse64WithLimit plat m p limit)"
  by (simp add: Parse32_scan Parse64_scan Parse32WithLimit_scan Parse64WithLimit_scan checked_limit_eq [OF assms] Skip32_scan Skip64_scan
      Skip32WithLimit_scan Skip64WithLimit_scan option.map_comp comp_def case_prod_unfold
      del: varint_scan.simps)

text \<open>
  On every platform, the length computed without a loop is the number of bytes the
  encoder writes, which is at most \<open>kMax32\<close> or \<open>kMax64\<close>.
\<close>

theorem Length_is_encoded_size:
  "snd (Encode32 m p v) = p + Length32 plat v \<and> 1 \<le> Length32 plat v \<and> Length32 plat v \<le> kMax32 \<and>
   snd (Encode64 m p w) = p + Length64 plat w \<and> 1 \<le> Length64 plat w \<and> Length64 plat w \<le> kMax64"
  using length_varint_bytes_pos [of "unat v"] length_varint_bytes_pos [of "unat w"]
  by (simp add: Encode32_bytes Encode64_bytes Length32_def Length64_def LengthImpl_varint kMax32_def kMax64_def
      length_varint_bytes_le Suc_le_eq)

text \<open>
  Appending to a string keeps its characters and adds the encoded bytes, whether the
  one-byte fast path or the slow path is taken, and the characters stay within the capacity.
\<close>

theorem Append_spec:
  assumes "length (chars s) \<le> capacity s"
  shows "chars (Append32 plat s v) = chars s @ varint_bytes (unat v) \<and>
    chars (Append64 plat s w) = chars s @ varint_bytes (unat w) \<and>
    length (chars (Append32 plat s v)) \<le> capacity (Append32 plat s v) \<and>
    length (chars (Append64 plat s w)) \<le> capacity (Append64 plat s w)"
  using Append_capacity [OF assms] by (simp only: Append32_chars Append64_chars simp_thms)

theorem Append_spec_witness:
  "length (chars \<lparr>chars = [1], capacity = 2\<rparr>) \<le> capacity \<lparr>chars = [1], capacity = 2\<rparr> \<and>
   chars (Append64 Portable \<lparr>chars = [1], capacity = 2\<rparr> 300) = [1] @ varint_bytes (unat (300 :: u64))"
  using Append_spec [of "\<lparr>chars = [1], capacity = 2\<rparr>" Portable 0 300] by simp

end
