(* ===== verification/Varint_Backward.thy ===== *)
theory Varint_Backward
  imports Varint_Codec
begin

text \<open>
  Parsing varints backwards from their end, and \<open>FastDecodeDeltas\<close>, the loop that sums a run
  of varints up to a goal.
\<close>

section \<open>Parsing backwards\<close>

text \<open>The fast path of the backward parsers as a loop.\<close>

fun back_acc :: "nat \<Rightarrow> 'a::len word \<Rightarrow> mem \<Rightarrow> addr \<Rightarrow> (addr \<times> 'a word) option" where
  "back_acc 0 res m q = (if m (q - 1) < 128 then Some (q, res) else None)"
| "back_acc (Suc n) res m q = (if m (q - 1) < 128 then Some (q, res)
     else back_acc n (push_bit 7 res OR (ucast (m (q - 1)) AND 127)) m (q - 1))"

lemma back_acc_numeral:
  "back_acc (numeral k) res m q = (if m (q - 1) < 128 then Some (q, res)
     else back_acc (pred_numeral k) (push_bit 7 res OR (ucast (m (q - 1)) AND 127)) m (q - 1))"
  "back_acc 1 res m q = (if m (q - 1) < 128 then Some (q, res)
     else back_acc 0 (push_bit 7 res OR (ucast (m (q - 1)) AND 127)) m (q - 1))"
  by (simp_all add: numeral_eq_Suc)

lemma ucast_less_128:
  "(ucast (b::u8) :: u32) < 128 \<longleftrightarrow> b < 128"
  "(ucast (b::u8) :: u64) < 128 \<longleftrightarrow> b < 128"
  "127 < (ucast (b::u8) :: u32) \<longleftrightarrow> 127 < b"
  "127 < (ucast (b::u8) :: u64) \<longleftrightarrow> 127 < b"
  by (simp_all add: word_less_nat_alt)

lemma Parse32Backward_loop:
  "base + 5 < p \<Longrightarrow> Parse32Backward m p base =
    (if m (p - 1) > 127 then None else back_acc 4 (ucast (m (p - 1))) m (p - 1))"
  unfolding Parse32Backward_def Let_def kMax32_def
  by (simp add: back_acc_numeral ucast_less_128 diff_diff_left del: One_nat_def diff_Suc_Suc
      cong: if_cong split del: if_split)

lemma Parse64Backward_loop:
  "base + 10 < p \<Longrightarrow> Parse64Backward plat m p base =
    (if m (p - 1) > 127 then None else back_acc 9 (ucast (m (p - 1))) m (p - 1))"
  unfolding Parse64Backward_def Let_def kMax64_def
  by (simp add: back_acc_numeral ucast_less_128 diff_diff_left del: One_nat_def diff_Suc_Suc
      cong: if_cong split del: if_split)

lemma nth_varint_bytes:
  "i < length (varint_bytes v) \<Longrightarrow> varint_bytes v ! i =
    of_nat (if Suc i = length (varint_bytes v) then v div 128 ^ i else v div 128 ^ i mod 128 + 128)"
proof (induction i arbitrary: v)
  case 0
  then show ?case
    using length_varint_bytes_pos [of "v div 128"]
    by (cases "v < 128") (auto simp: varint_bytes_small varint_bytes_step simp del: of_nat_add)
next
  case (Suc i)
  then have "\<not> v < 128" by (auto simp: varint_bytes_small)
  with Suc.prems Suc.IH [of "v div 128"] show ?case
    by (simp add: varint_bytes_step div_mult2_eq del: of_nat_add) (auto simp flip: div_mult2_eq power_Suc)
qed

lemma varint_last_digit: "v div 128 ^ (length (varint_bytes v) - 1) < 128"
proof (induction v rule: varint_bytes.induct)
  case (1 v)
  then show ?case
    using length_varint_bytes_pos [of "v div 128"]
    by (cases "v < 128") (auto simp: varint_bytes_small varint_bytes_step div_mult2_eq [symmetric]
        power_Suc [symmetric] simp del: power_Suc)
qed

text \<open>A printed varint in memory, its bytes one by one.\<close>

lemma printed_byte:
  assumes "load_bytes m p (length (varint_bytes v)) = varint_bytes v" "i < length (varint_bytes v)"
  shows "unat (m (p + i)) =
    (if Suc i = length (varint_bytes v) then v div 128 ^ i else v div 128 ^ i mod 128 + 128)"
proof -
  have "m (p + i) = varint_bytes v ! i"
    using assms nth_load_bytes [of i "length (varint_bytes v)" m p] by simp
  moreover have "(if Suc i = length (varint_bytes v) then v div 128 ^ i else v div 128 ^ i mod 128 + 128) < 256"
    using varint_last_digit [of v] diff_Suc_1 [of i] by (cases "Suc i = length (varint_bytes v)") simp_all
  ultimately show ?thesis
    by (simp only: nth_varint_bytes [OF assms(2)] unat_of_nat_byte)
qed

lemma back_acc_printed:
  assumes m: "load_bytes m p (length (varint_bytes v)) = varint_bytes v"
    and first: "m (p - 1) < 128"
  shows "j < length (varint_bytes v) \<Longrightarrow> j \<le> n \<Longrightarrow>
    back_acc n (of_nat (v div 128 ^ j)) m (p + j) = Some (p, of_nat v)"
proof (induction j arbitrary: n)
  case 0
  then show ?case using first by (cases n) simp_all
next
  case (Suc j)
  then obtain n' where n: "n = Suc n'" "j \<le> n'" by (cases n) auto
  have b: "unat (m (p + j)) = v div 128 ^ j mod 128 + 128"
    using printed_byte [OF m, of j] Suc.prems(1) by simp
  then have "\<not> m (p + j) < 128" by (simp add: byte_less)
  moreover have "push_bit 7 (of_nat (v div 128 ^ Suc j)) OR (ucast (m (p + j)) AND 127) =
    (of_nat (v div 128 ^ j) :: 'a word)"
  proof -
    have "(ucast (m (p + j)) AND 127 :: 'a word) = of_nat (v div 128 ^ j mod 128)"
      by (simp add: ucast_and_127 b)
    then have "push_bit 7 (of_nat (v div 128 ^ Suc j)) OR (ucast (m (p + j)) AND 127) =
      (of_nat (v div 128 ^ j mod 128) OR push_bit 7 (of_nat (v div 128 ^ j div 128)) :: 'a word)"
      by (simp only: or.commute power_Suc2 div_mult2_eq)
    also have "\<dots> = of_nat (v div 128 ^ j mod 128 + v div 128 ^ j div 128 * 2 ^ 7)"
      by (rule or_push_bit_of_nat) simp
    also have "v div 128 ^ j mod 128 + v div 128 ^ j div 128 * 2 ^ 7 = v div 128 ^ j"
      by (simp add: mod_div_mult_eq)
    finally show ?thesis .
  qed
  ultimately show ?case using Suc.IH [of n'] Suc.prems n
    by (simp del: power_Suc of_nat_unat)
qed

lemma SkipBackwardSlow_loop_printed:
  assumes m: "load_bytes m p (length (varint_bytes v)) = varint_bytes v"
    and first: "base = p \<or> base < p \<and> m (p - 1) < 128"
  shows "j < length (varint_bytes v) \<Longrightarrow> j \<le> n \<Longrightarrow> SkipBackwardSlow_loop (Suc n) m (p + j) base = Some p"
proof (induction j arbitrary: n)
  case 0
  then show ?case using first by auto
next
  case (Suc j)
  then obtain n' where n: "n = Suc n'" "j \<le> n'" by (cases n) auto
  have "unat (m (p + j)) = v div 128 ^ j mod 128 + 128"
    using printed_byte [OF m, of j] Suc.prems(1) by simp
  then have "\<not> m (p + j) < 128" by (simp add: byte_less)
  then show ?case using Suc.IH [of n'] Suc.prems n first by (subst SkipBackwardSlow_loop.simps) auto
qed

lemma printed_byte_last:
  assumes "load_bytes m p (length (varint_bytes v)) = varint_bytes v"
  shows "unat (m (p + length (varint_bytes v) - 1)) = v div 128 ^ (length (varint_bytes v) - 1)"
    and "\<not> 127 < m (p + length (varint_bytes v) - 1)"
proof -
  show u: "unat (m (p + length (varint_bytes v) - 1)) = v div 128 ^ (length (varint_bytes v) - 1)"
    using printed_byte [OF assms, of "length (varint_bytes v) - 1"] length_varint_bytes_pos [of v] by simp
  show "\<not> 127 < m (p + length (varint_bytes v) - 1)"
    using varint_last_digit [of v] by (simp add: byte_less u del: One_nat_def)
qed

lemma Parse32Backward_Encode32:
  fixes m p v
  defines "m' \<equiv> fst (Encode32 m p v)" and "q \<equiv> snd (Encode32 m p v)"
  assumes "base = p \<or> base < p \<and> m (p - 1) < 128"
  shows "Parse32Backward m' q base = Some (p, v)"
proof -
  define n where "n = length (varint_bytes (unat v))"
  have n: "0 < n" "n \<le> 5" by (simp_all add: n_def length_varint_bytes_pos length_varint_bytes_le del: length_greater_0_conv)
  have q: "q = p + n" by (simp add: q_def Encode32_bytes n_def)
  have m: "load_bytes m' p (length (varint_bytes (unat v))) = varint_bytes (unat v)"
    by (simp add: m'_def Encode32_bytes load_store_bytes)
  have first: "base = p \<or> base < p \<and> m' (p - 1) < 128"
    using assms(3) by (auto simp: m'_def Encode32_bytes store_bytes_outside)
  have last: "(of_nat (unat v div 128 ^ (n - 1)) :: u32) = ucast (m' (p + n - 1))" "\<not> 127 < m' (p + n - 1)"
    using printed_byte_last [OF m, folded n_def] by (metis of_nat_unat, metis)
  have pn: "p + (n - 1) = p + n - 1" using n by simp
  show ?thesis
  proof (cases "base + 5 < p + n")
    case True
    then have "m' (p - 1) < 128" using first n by auto
    then have "back_acc 4 (ucast (m' (p + n - 1))) m' (p + n - 1) = Some (p, v)"
      using back_acc_printed [OF m, of "n - 1" 4, where ?'a = 32] n last(1) pn by (simp flip: n_def del: One_nat_def)
    then show ?thesis using True last(2) by (simp add: Parse32Backward_loop q)
  next
    case False
    with SkipBackwardSlow_loop_printed [OF m first, of "n - 1" 4] printed_byte_last [OF m] n first
      Parse32_Encode32 [of m p v] show ?thesis
      by (auto simp add: Parse32Backward_def Parse32BackwardSlow_def Skip32BackwardSlow_def kMax32_def q pn m'_def [symmetric]
          simp flip: n_def)
  qed
qed

lemma Parse64Backward_Encode64:
  fixes m p v
  defines "m' \<equiv> fst (Encode64 m p v)" and "q \<equiv> snd (Encode64 m p v)"
  assumes "base = p \<or> base < p \<and> m (p - 1) < 128"
  shows "Parse64Backward plat m' q base = Some (p, v)"
proof -
  define n where "n = length (varint_bytes (unat v))"
  have n: "0 < n" "n \<le> 10" by (simp_all add: n_def length_varint_bytes_pos length_varint_bytes_le del: length_greater_0_conv)
  have q: "q = p + n" by (simp add: q_def Encode64_bytes n_def)
  have m: "load_bytes m' p (length (varint_bytes (unat v))) = varint_bytes (unat v)"
    by (simp add: m'_def Encode64_bytes load_store_bytes)
  have first: "base = p \<or> base < p \<and> m' (p - 1) < 128"
    using assms(3) by (auto simp: m'_def Encode64_bytes store_bytes_outside)
  have last: "(of_nat (unat v div 128 ^ (n - 1)) :: u64) = ucast (m' (p + n - 1))" "\<not> 127 < m' (p + n - 1)"
    using printed_byte_last [OF m, folded n_def] by (metis of_nat_unat, metis)
  have pn: "p + (n - 1) = p + n - 1" using n by simp
  show ?thesis
  proof (cases "base + 10 < p + n")
    case True
    then have "m' (p - 1) < 128" using first n by auto
    then have "back_acc 9 (ucast (m' (p + n - 1))) m' (p + n - 1) = Some (p, v)"
      using back_acc_printed [OF m, of "n - 1" 9, where ?'a = 64] n last(1) pn by (simp flip: n_def del: One_nat_def)
    then show ?thesis using True last(2) by (simp add: Parse64Backward_loop q)
  next
    case False
    with SkipBackwardSlow_loop_printed [OF m first, of "n - 1" 9] printed_byte_last [OF m] n first
      Parse64_Encode64 [of plat m p v] show ?thesis
      by (auto simp add: Parse64Backward_def Parse64BackwardSlow_def Skip64BackwardSlow_def kMax64_def q pn m'_def [symmetric]
          simp flip: n_def)
  qed
qed


section \<open>The backward fast path on any bytes\<close>

text \<open>The number whose base-128 digits, lowest first, are in the \<open>k\<close> bytes at \<open>q\<close>.\<close>

fun digits_value :: "mem \<Rightarrow> addr \<Rightarrow> nat \<Rightarrow> nat" where
  "digits_value m q 0 = 0"
| "digits_value m q (Suc k) = unat (m q) mod 128 + 128 * digits_value m (q + 1) k"

lemma digits_value_top: "digits_value m q (Suc k) = digits_value m q k + 128 ^ k * (unat (m (q + k)) mod 128)"
proof (induction k arbitrary: q)
  case (Suc k)
  show ?case
    using Suc [of "q + 1"] by (simp add: algebra_simps)
qed simp

lemma digits_value_big: "lim \<le> unat (m (q + k)) \<Longrightarrow> unat (m (q + k)) < 128 \<Longrightarrow> lim * 128 ^ k \<le> digits_value m q (Suc k)"
  by (simp add: digits_value_top mult.commute trans_le_add2 del: digits_value.simps)

lemma back_digit:
  "push_bit 7 (of_nat v) OR (ucast (b :: u8) AND 127) = (of_nat (unat b mod 128 + 128 * v) :: 'a::len word)"
proof -
  have "(ucast b AND 127 :: 'a word) = of_nat (unat b mod 128)" by (simp add: ucast_and_127)
  then have "push_bit 7 (of_nat v) OR (ucast b AND 127) = (of_nat (unat b mod 128) OR push_bit 7 (of_nat v) :: 'a word)"
    by (simp only: or.commute)
  also have "\<dots> = of_nat (unat b mod 128 + v * 2 ^ 7)"
    by (rule or_push_bit_of_nat) simp
  finally show ?thesis by (simp add: mult.commute)
qed

lemma SkipBackwardSlow_loop_bytes:
  "SkipBackwardSlow_loop (Suc n) m q base = Some s \<Longrightarrow> base \<le> q \<Longrightarrow>
    s \<le> q \<and> q \<le> s + n \<and> (\<forall>a. s \<le> a \<longrightarrow> a < q \<longrightarrow> 128 \<le> unat (m a))"
proof (induction n arbitrary: q)
  case 0
  then show ?case by (auto simp: Let_def split: if_splits)
next
  case (Suc n)
  show ?case
  proof (cases "q = base \<or> m (q - 1) < 128")
    case True
    with Suc.prems show ?thesis by (auto simp: Let_def split: if_splits)
  next
    case False
    then have "s \<le> q - 1 \<and> q - 1 \<le> s + n \<and> (\<forall>a. s \<le> a \<longrightarrow> a < q - 1 \<longrightarrow> 128 \<le> unat (m a))"
      using Suc.prems by (intro Suc.IH) (auto simp: SkipBackwardSlow_loop.simps(2) [of "Suc n"] Let_def
          simp del: SkipBackwardSlow_loop.simps)
    moreover have "128 \<le> unat (m (q - 1))" using False by (simp add: byte_less)
    moreover have "a < q - 1 \<or> a = q - 1" if "a < q" for a using that by auto
    ultimately show ?thesis by fastforce
  qed
qed

lemma back_acc_skip:
  "base + n < q \<Longrightarrow> back_acc n (of_nat v :: 'a::len word) m q =
    map_option (\<lambda>s. (s, of_nat (digits_value m s (q - s) + 128 ^ (q - s) * v))) (SkipBackwardSlow_loop (Suc n) m q base)"
proof (induction n arbitrary: v q)
  case 0
  then show ?case by (auto simp: Let_def)
next
  case (Suc n)
  show ?case
  proof (cases "m (q - 1) < 128")
    case True
    with Suc.prems show ?thesis by (simp add: Let_def)
  next
    case False
    let ?v = "unat (m (q - 1)) mod 128 + 128 * v"
    have IH: "back_acc n (of_nat ?v :: 'a word) m (q - 1) =
        map_option (\<lambda>s. (s, of_nat (digits_value m s (q - 1 - s) + 128 ^ (q - 1 - s) * ?v)))
          (SkipBackwardSlow_loop (Suc n) m (q - 1) base)"
      by (rule Suc.IH) (use Suc.prems in simp)
    have "back_acc (Suc n) (of_nat v :: 'a word) m q = back_acc n (of_nat ?v) m (q - 1)"
      using False by (simp only: back_acc.simps back_digit if_False)
    moreover have "SkipBackwardSlow_loop (Suc (Suc n)) m q base = SkipBackwardSlow_loop (Suc n) m (q - 1) base"
      using False Suc.prems by (simp add: SkipBackwardSlow_loop.simps(2) [of "Suc n"] Let_def
          del: SkipBackwardSlow_loop.simps)
    moreover have "digits_value m s (q - 1 - s) + 128 ^ (q - 1 - s) * ?v = digits_value m s (q - s) + 128 ^ (q - s) * v"
      if "SkipBackwardSlow_loop (Suc n) m (q - 1) base = Some s" for s
    proof -
      have "s \<le> q - 1" using SkipBackwardSlow_loop_bytes [OF that] Suc.prems by simp
      then have k: "q - s = Suc (q - 1 - s)" "s + (q - 1 - s) = q - 1" using Suc.prems by simp_all
      show ?thesis
        unfolding k(1) digits_value_top k(2) by (simp add: algebra_simps)
    qed
    ultimately show ?thesis
      unfolding IH by (cases "SkipBackwardSlow_loop (Suc n) m (q - 1) base")
        (simp_all del: of_nat_add of_nat_mult back_acc.simps SkipBackwardSlow_loop.simps)
  qed
qed

lemma scan_digits:
  assumes "\<forall>a. s \<le> a \<longrightarrow> a < s + k \<longrightarrow> 128 \<le> unat (m a)" and "unat (m (s + k)) < 128" and "k < n" and "lim \<le> 128"
    and "s + k < limit"
  shows "varint_scan n lim limit m s =
    (if Suc k = n \<and> lim \<le> unat (m (s + k)) then None else Some (s + k + 1, digits_value m s (Suc k)))"
  using assms
proof (induction k arbitrary: s n)
  case 0
  then show ?case by (cases n) auto
next
  case (Suc k)
  then obtain n' where n: "n = Suc n'" "k < n'" by (cases n) auto
  have "varint_scan n' lim limit m (s + 1) = (if Suc k = n' \<and> lim \<le> unat (m (s + 1 + k)) then None
      else Some (s + 1 + k + 1, digits_value m (s + 1) (Suc k)))"
    by (rule Suc.IH) (use Suc.prems n in auto)
  moreover have "128 \<le> unat (m s)" using Suc.prems(1) by simp
  ultimately show ?case using n Suc.prems(4,5) by auto
qed

lemma fast_digits:
  assumes "base + n < q" and "\<not> 127 < m q"
  shows "back_acc n (ucast (m q) :: 'a::len word) m q =
    map_option (\<lambda>s. (s, of_nat (digits_value m s (Suc q - s)))) (SkipBackwardSlow_loop (Suc n) m q base)"
proof -
  have "unat (m q) mod 128 = unat (m q)" using assms(2) by (simp add: byte_less)
  then have top: "digits_value m s (q - s) + 128 ^ (q - s) * unat (m q) = digits_value m s (Suc q - s)"
    if "s \<le> q" for s
    using digits_value_top [of m s "q - s"] that by (simp add: Suc_diff_le del: digits_value.simps)
  have "back_acc n (ucast (m q) :: 'a word) m q = back_acc n (of_nat (unat (m q))) m q" by simp
  also have "\<dots> = map_option (\<lambda>s. (s, of_nat (digits_value m s (q - s) + 128 ^ (q - s) * unat (m q))))
      (SkipBackwardSlow_loop (Suc n) m q base)"
    by (rule back_acc_skip [OF assms(1)])
  also have "\<dots> = map_option (\<lambda>s. (s, of_nat (digits_value m s (Suc q - s)))) (SkipBackwardSlow_loop (Suc n) m q base)"
    using SkipBackwardSlow_loop_bytes [of n m q base] assms(1)
    by (cases "SkipBackwardSlow_loop (Suc n) m q base")
      (simp_all add: top del: of_nat_add of_nat_mult SkipBackwardSlow_loop.simps)
  finally show ?thesis .
qed

lemma skipped_digits:
  assumes "SkipBackwardSlow_loop (Suc n) m p base = Some q" and "unat (m p) < 128" and "base \<le> p" and "lim \<le> 128"
  shows "varint_scan (Suc n) lim (q + Suc n) m q =
      (if q + n = p \<and> lim \<le> unat (m p) then None else Some (Suc p, digits_value m q (Suc p - q)))"
    and "q + n = p \<Longrightarrow> lim \<le> unat (m p) \<Longrightarrow> lim * 128 ^ n \<le> digits_value m q (Suc p - q)"
proof -
  have q: "q \<le> p" "p \<le> q + n" "\<forall>a. q \<le> a \<longrightarrow> a < p \<longrightarrow> 128 \<le> unat (m a)"
    using SkipBackwardSlow_loop_bytes [OF assms(1,3)] by auto
  then have p: "q + (p - q) = p" "Suc p - q = Suc (p - q)" "Suc (p - q) = Suc n \<longleftrightarrow> q + n = p" by auto
  have "varint_scan (Suc n) lim (q + Suc n) m q = (if Suc (p - q) = Suc n \<and> lim \<le> unat (m (q + (p - q))) then None
      else Some (q + (p - q) + 1, digits_value m q (Suc (p - q))))"
    by (rule scan_digits) (use q p assms(2,4) in auto)
  then show "varint_scan (Suc n) lim (q + Suc n) m q =
      (if q + n = p \<and> lim \<le> unat (m p) then None else Some (Suc p, digits_value m q (Suc p - q)))"
    unfolding p by simp
  show "lim * 128 ^ n \<le> digits_value m q (Suc p - q)" if "q + n = p" "lim \<le> unat (m p)"
    using digits_value_big [of lim m q n] that assms(2) by (auto simp del: digits_value.simps simp: Suc_diff_le)
qed

text \<open>
  Both widths at once: \<open>n\<close> is the greatest number of continuation bytes and \<open>lim\<close> the bound of the
  last digit.
\<close>

lemma backward_fast:
  assumes "base + Suc n < p" and "Skip = (if 127 < m (p - 1) then None else SkipBackwardSlow_loop (Suc n) m (p - 1) base)"
    and "lim \<le> 128"
    and "fast = (if 127 < m (p - 1) then None else back_acc n (ucast (m (p - 1)) :: 'a::len word) m (p - 1))"
    and "\<And>q. parse q = map_option (\<lambda>(r, v). (r, of_nat v :: 'a word)) (varint_scan (Suc n) lim (q + Suc n) m q)"
    and "slow = (case Skip of None \<Rightarrow> None | Some q \<Rightarrow> (case parse q of None \<Rightarrow> None | Some (r, v) \<Rightarrow> Some (q, v)))"
  shows "fast = map_option (\<lambda>q. (q, of_nat (digits_value m q (p - q)))) Skip"
    and "Skip = Some q \<Longrightarrow>
      (if q + Suc n = p \<and> lim \<le> unat (m (p - 1))
       then parse q = None \<and> slow = None \<and> lim * 128 ^ n \<le> digits_value m q (p - q)
       else parse q = Some (p, of_nat (digits_value m q (p - q))) \<and> slow = fast)"
proof -
  obtain r where r: "p = Suc r" using assms(1) by (cases p) auto
  show fast: "fast = map_option (\<lambda>q. (q, of_nat (digits_value m q (p - q)))) Skip"
    using fast_digits [of base n r m, where ?'a = 'a] assms(1,2,4) by (auto simp: r simp del: SkipBackwardSlow_loop.simps)
  assume q: "Skip = Some q"
  then have l: "SkipBackwardSlow_loop (Suc n) m r base = Some q" "unat (m r) < 128" "base \<le> r"
    using assms(1,2) by (auto simp: r byte_less split: if_splits simp del: SkipBackwardSlow_loop.simps)
  show "if q + Suc n = p \<and> lim \<le> unat (m (p - 1))
       then parse q = None \<and> slow = None \<and> lim * 128 ^ n \<le> digits_value m q (p - q)
       else parse q = Some (p, of_nat (digits_value m q (p - q))) \<and> slow = fast"
    using skipped_digits [OF l assms(3)] unfolding assms(6) fast q assms(5)
    by (auto simp: r simp del: varint_scan.simps digits_value.simps)
qed

lemma Parse32Backward_fast:
  assumes "base + kMax32 < p"
  shows "Parse32Backward m p base =
      map_option (\<lambda>q. (q, of_nat (digits_value m q (p - q)))) (Skip32BackwardSlow m p base)"
    and "Skip32BackwardSlow m p base = Some q \<Longrightarrow>
      (if q + 5 = p \<and> 16 \<le> unat (m (p - 1))
       then Parse32 m q = None \<and> Parse32BackwardSlow m p base = None \<and> 2 ^ 32 \<le> digits_value m q (p - q)
       else Parse32 m q = Some (p, of_nat (digits_value m q (p - q)))
         \<and> Parse32BackwardSlow m p base = Parse32Backward m p base)"
proof -
  have b: "base + Suc 4 < p" "base + 5 < p" using assms by (simp_all add: kMax32_def)
  have skip: "Skip32BackwardSlow m p base = (if 127 < m (p - 1) then None else SkipBackwardSlow_loop (Suc 4) m (p - 1) base)"
    using b by (simp add: Skip32BackwardSlow_def Let_def)
  have parse: "Parse32 m q = map_option (\<lambda>(r, v). (r, of_nat v)) (varint_scan (Suc 4) 16 (q + Suc 4) m q)" for q
    by (simp add: Parse32_scan)
  note * = backward_fast [OF b(1) skip _ Parse32Backward_loop [OF b(2)] parse Parse32BackwardSlow_def]
  show "Parse32Backward m p base =
      map_option (\<lambda>q. (q, of_nat (digits_value m q (p - q)))) (Skip32BackwardSlow m p base)"
    by (rule *(1)) simp
  show "Skip32BackwardSlow m p base = Some q \<Longrightarrow>
      (if q + 5 = p \<and> 16 \<le> unat (m (p - 1))
       then Parse32 m q = None \<and> Parse32BackwardSlow m p base = None \<and> 2 ^ 32 \<le> digits_value m q (p - q)
       else Parse32 m q = Some (p, of_nat (digits_value m q (p - q)))
         \<and> Parse32BackwardSlow m p base = Parse32Backward m p base)"
    using *(2) [of q] by (auto split: if_splits)
qed

lemma Parse64Backward_fast:
  assumes "base + kMax64 < p"
  shows "Parse64Backward plat m p base =
      map_option (\<lambda>q. (q, of_nat (digits_value m q (p - q)))) (Skip64BackwardSlow m p base)"
    and "Skip64BackwardSlow m p base = Some q \<Longrightarrow>
      (if q + 10 = p \<and> 2 \<le> unat (m (p - 1))
       then Parse64 plat m q = None \<and> Parse64BackwardSlow plat m p base = None \<and> 2 ^ 64 \<le> digits_value m q (p - q)
       else Parse64 plat m q = Some (p, of_nat (digits_value m q (p - q)))
         \<and> Parse64BackwardSlow plat m p base = Parse64Backward plat m p base)"
proof -
  have b: "base + Suc 9 < p" "base + 10 < p" using assms by (simp_all add: kMax64_def)
  have skip: "Skip64BackwardSlow m p base = (if 127 < m (p - 1) then None else SkipBackwardSlow_loop (Suc 9) m (p - 1) base)"
    using b by (simp add: Skip64BackwardSlow_def Let_def)
  have parse: "Parse64 plat m q = map_option (\<lambda>(r, v). (r, of_nat v)) (varint_scan (Suc 9) 2 (q + Suc 9) m q)" for q
    by (simp add: Parse64_scan)
  note * = backward_fast [OF b(1) skip _ Parse64Backward_loop [OF b(2), of plat] parse Parse64BackwardSlow_def]
  show "Parse64Backward plat m p base =
      map_option (\<lambda>q. (q, of_nat (digits_value m q (p - q)))) (Skip64BackwardSlow m p base)"
    by (rule *(1)) simp
  show "Skip64BackwardSlow m p base = Some q \<Longrightarrow>
      (if q + 10 = p \<and> 2 \<le> unat (m (p - 1))
       then Parse64 plat m q = None \<and> Parse64BackwardSlow plat m p base = None \<and> 2 ^ 64 \<le> digits_value m q (p - q)
       else Parse64 plat m q = Some (p, of_nat (digits_value m q (p - q)))
         \<and> Parse64BackwardSlow plat m p base = Parse64Backward plat m p base)"
    using *(2) [of q] by (auto split: if_splits)
qed

section \<open>Summing deltas\<close>

lemma sbyte_and_127: "(scast (b::u8) :: u64) AND 127 = of_nat (unat b mod 128)"
proof -
  have "(scast b :: u64) AND mask 7 = (ucast b :: u64) AND mask 7"
    by (rule bit_word_eqI) (auto simp: bit_simps bit_word_scast_iff)
  then show ?thesis using ucast_and_127 [of b, where ?'a = 64] by (simp add: mask_numeral)
qed

lemma signed_drop_bit_sbyte: "signed_drop_bit 7 (scast (b::u8) :: u64) = (if unat b < 128 then 0 else - 1)"
  by (rule bit_word_eqI) (auto simp: bit_signed_drop_bit_iff bit_sbyte_high not_less)

lemma FastDecodeDeltas_step:
  assumes "s < 2 ^ 64"
  shows "FastDecodeDeltas_loop m ptr acc (of_nat s) =
    (let acc' = acc + push_bit s (of_nat (unat (m ptr) mod 128)) in
     if unat (m ptr) < 128 then
       if acc' <s 0 then FastDecodeDeltas_loop m (ptr + 1) acc' 0 else Some (ptr + 1, acc')
     else FastDecodeDeltas_loop m (ptr + 1) acc' (of_nat (s + 7)))"
proof -
  have "sbyte64 m ptr AND 127 = of_nat (unat (m ptr) mod 128)"
    by (rule sbyte_and_127)
  moreover have "signed_drop_bit 7 (sbyte64 m ptr) = (if unat (m ptr) < 128 then 0 else -1)"
    by (rule signed_drop_bit_sbyte)
  moreover have "bit (sbyte64 m ptr) 63 \<longleftrightarrow> \<not> unat (m ptr) < 128"
    by (simp add: bit_sbyte_high not_less)
  moreover have "unat (of_nat s :: u64) = s" using assms by (simp add: unsigned_of_nat take_bit_nat_eq_self)
  ultimately have "FastDecodeDeltas_loop m ptr acc (of_nat s) =
    (let acc' = acc + push_bit s (of_nat (unat (m ptr) mod 128)) in
     if bit acc' 63 \<or> \<not> unat (m ptr) < 128
     then FastDecodeDeltas_loop m (ptr + 1) acc' ((of_nat s + 7) AND (if unat (m ptr) < 128 then 0 else - 1))
     else Some (ptr + 1, acc'))"
    by (subst FastDecodeDeltas_loop.simps) (simp only: Let_def slt0 bit_or_iff)
  then show ?thesis
    by (cases "unat (m ptr) < 128") (simp_all add: slt0 Let_def add.commute)
qed

lemma FastDecodeDeltas_varint:
  assumes "load_bytes m ptr (length (varint_bytes d)) = varint_bytes d"
    and "s + 7 * length (varint_bytes d) < 2 ^ 64"
  shows "FastDecodeDeltas_loop m ptr acc (of_nat s) =
    (let acc' = acc + push_bit s (of_nat d); ptr' = ptr + length (varint_bytes d) in
     if acc' <s 0 then FastDecodeDeltas_loop m ptr' acc' 0 else Some (ptr', acc'))"
  using assms
proof (induction d arbitrary: ptr acc s rule: varint_bytes.induct)
  case (1 d)
  show ?case
  proof (cases "d < 128")
    case True
    with 1 show ?thesis 
      by (simp add: FastDecodeDeltas_step Let_def varint_bytes_small load_bytes_Suc unat_of_nat_byte)
  next
    case False
    then have step: "varint_bytes d = of_nat (d mod 128 + 128) # varint_bytes (d div 128)"
      by (simp add: varint_bytes_step)
    have b: "unat (m ptr) = d mod 128 + 128"
      using 1(2) unat_of_nat_byte [of "d mod 128 + 128"] by (simp add: step load_bytes_Suc)
    have "acc + push_bit s (of_nat (d mod 128)) + push_bit (s + 7) (of_nat (d div 128)) =
       acc + push_bit s (of_nat d :: u64)"
    proof -
      have "d mod 128 * 2 ^ s + d div 128 * 2 ^ (s + 7) = (d mod 128 + d div 128 * 128) * 2 ^ s"
        by (simp only: distrib_right power_add mult.assoc mult.commute [of "2 ^ s"]) simp
      also have "\<dots> = d * 2 ^ s" by (simp only: mod_div_mult_eq)
      finally have "of_nat (d mod 128 * 2 ^ s + d div 128 * 2 ^ (s + 7)) = (of_nat (d * 2 ^ s) :: u64)"
        by (simp only:)
      then show ?thesis by (simp add: push_bit_eq_mult)
    qed
    moreover have "FastDecodeDeltas_loop m (ptr + 1) (acc + push_bit s (of_nat (d mod 128))) (of_nat (s + 7)) =
      (let acc' = acc + push_bit s (of_nat (d mod 128)) + push_bit (s + 7) (of_nat (d div 128)); 
           ptr' = ptr + 1 + length (varint_bytes (d div 128)) in
     if acc' <s 0 then FastDecodeDeltas_loop m ptr' acc' 0 else Some (ptr', acc'))"
      using False 1(2,3) by (intro 1(1)) (auto simp: step load_bytes_Suc)
    ultimately have "FastDecodeDeltas_loop m (ptr + 1) (acc + push_bit s (of_nat (d mod 128))) (of_nat (s + 7)) =
      (let acc' = acc + push_bit s (of_nat d); ptr' = ptr + 1 + length (varint_bytes (d div 128)) in
     if acc' <s 0 then FastDecodeDeltas_loop m ptr' acc' 0 else Some (ptr', acc'))"
      by (simp only:)
    with b 1(3) show ?thesis
      by (simp add: FastDecodeDeltas_step step Let_def)
  qed
qed

lemma bit_63_of_nat: "n < 2 ^ 64 \<Longrightarrow> bit (of_nat n :: u64) 63 \<longleftrightarrow> 2 ^ 63 \<le> n"
proof -
  assume n: "n < 2 ^ 64"
  have "bit (of_nat n :: u64) 63 \<longleftrightarrow> odd (n div 2 ^ 63)" by (simp add: bit_simps bit_iff_odd [of n])
  moreover have "n div 2 ^ 63 = of_bool (2 ^ 63 \<le> n)"
    using n by (cases "2 ^ 63 \<le> n") (simp_all add: le_div_geq)
  ultimately show ?thesis by simp
qed

lemma sless_diff_of_nat:
  assumes "x < 2 ^ 63" "goal < 2 ^ 63"
  shows "((of_nat x - of_nat goal :: u64) <s 0) \<longleftrightarrow> x < goal"
proof (cases "x < goal")
  case True
  then have "(of_nat x - of_nat goal :: u64) = of_nat (2 ^ 64 + x - goal)"
    using assms by (subst of_nat_diff) simp_all
  with True assms show ?thesis by (simp add: slt0 bit_63_of_nat del: of_nat_add of_nat_diff)
next
  case False
  then have "(of_nat x - of_nat goal :: u64) = of_nat (x - goal)" by (simp add: of_nat_diff)
  with False assms show ?thesis by (simp add: slt0 bit_63_of_nat del: of_nat_diff)
qed

text \<open>A run of deltas: the loop stops at the first varint that brings the sum up to the goal.\<close>

lemma varint_bytes_short: "d < 2 ^ 63 \<Longrightarrow> 7 * length (varint_bytes d) < 2 ^ 64"
proof -
  assume "d < 2 ^ 63"
  then have "nat_bit_width d \<le> 63" by (simp only: nat_bit_width_le)
  then have "(nat_bit_width d - 1) div 7 \<le> (63 - 1) div 7" by (intro div_le_mono) simp
  then show ?thesis by (simp add: length_varint_bytes)
qed

lemma FastDecodeDeltas_one:
  assumes "load_bytes m ptr (length (varint_bytes d)) = varint_bytes d" "a + d < 2 ^ 63" "goal < 2 ^ 63"
  shows "FastDecodeDeltas_loop m ptr (of_nat a - of_nat goal) 0 =
    (let ptr' = ptr + length (varint_bytes d); acc' = of_nat (a + d) - of_nat goal in
     if a + d < goal then FastDecodeDeltas_loop m ptr' acc' 0 else Some (ptr', acc'))"
proof -
  have eq: "of_nat a - of_nat goal + of_nat d = (of_nat (a + d) - of_nat goal :: u64)" by simp
  show ?thesis
    using FastDecodeDeltas_varint [OF assms(1), of 0 "of_nat a - of_nat goal"] varint_bytes_short [of d] assms
      sless_diff_of_nat [OF assms(2,3)]
    by (simp add: Let_def eq del: of_nat_add)
qed

lemma FastDecodeDeltas_run:
  assumes "load_bytes m ptr (length (concat (map varint_bytes (ds @ [d])))) = concat (map varint_bytes (ds @ [d]))"
    and "goal < 2 ^ 63" and "ds = [] \<or> a + sum_list ds < goal" and "goal \<le> a + sum_list ds + d"
    and "a + sum_list ds + d < 2 ^ 63"
  shows "FastDecodeDeltas_loop m ptr (of_nat a - of_nat goal) 0 =
    Some (ptr + length (concat (map varint_bytes (ds @ [d]))), of_nat (a + sum_list ds + d) - of_nat goal)"
  using assms
proof (induction ds arbitrary: ptr a)
  case Nil
  then show ?case by (simp add: FastDecodeDeltas_one Let_def)
next
  case (Cons e ds)
  let ?bs = "concat (map varint_bytes (ds @ [d]))"
  have e: "load_bytes m ptr (length (varint_bytes e)) = varint_bytes e"
    and rest: "load_bytes m (ptr + length (varint_bytes e)) (length ?bs) = ?bs"
    using Cons.prems(1) by (simp_all add: load_bytes_add)
  have "FastDecodeDeltas_loop m ptr (of_nat a - of_nat goal) 0 =
    FastDecodeDeltas_loop m (ptr + length (varint_bytes e)) (of_nat (a + e) - of_nat goal) 0"
    using FastDecodeDeltas_one [OF e, of a goal] Cons.prems by (simp add: Let_def del: of_nat_add)
  also have "\<dots> = Some (ptr + length (varint_bytes e) + length ?bs, of_nat (a + e + sum_list ds + d) - of_nat goal)"
    using Cons.prems by (intro Cons.IH rest) auto
  finally show ?case by (simp add: add.assoc)
qed

lemma FastDecodeDeltas_sum:
  assumes "load_bytes m ptr (length (concat (map varint_bytes (ds @ [d])))) = concat (map varint_bytes (ds @ [d]))"
    and "goal < 2 ^ 63" and "ds = [] \<or> sum_list ds < goal" and "goal \<le> sum_list ds + d"
    and "sum_list ds + d < 2 ^ 63"
  shows "FastDecodeDeltas m ptr (of_nat goal) =
    Some (ptr + length (concat (map varint_bytes (ds @ [d]))), of_nat (sum_list (ds @ [d])))"
  using FastDecodeDeltas_run [OF assms(1,2), of 0] assms by (simp add: FastDecodeDeltas_def)


section \<open>Properties\<close>

text \<open>
  Parsing backwards from the end of an encoded value finds its start and its value,
  when the encoding starts the buffer or follows a byte that ends a varint.  This covers the
  unrolled fast path and the slow path near the start of the buffer.
\<close>

theorem ParseBackward_Encode:
  assumes "base = p \<or> base < p \<and> m (p - 1) < 128"
  shows "Parse32Backward (fst (Encode32 m p v)) (snd (Encode32 m p v)) base = Some (p, v) \<and>
    Parse64Backward plat (fst (Encode64 m p w)) (snd (Encode64 m p w)) base = Some (p, w)"
  using assms by (simp only: Parse32Backward_Encode32 Parse64Backward_Encode64 simp_thms)

theorem ParseBackward_Encode_witness:
  "((0::nat) = 1 \<or> 0 < (1::nat) \<and> (0::u8) < 128) \<and>
   Parse32Backward (fst (Encode32 (\<lambda>_. 0) 1 300)) (snd (Encode32 (\<lambda>_. 0) 1 300)) 0 = Some (1, 300)"
  using ParseBackward_Encode [of 0 1 "\<lambda>_. 0" 300 X86_64 0] by simp

text \<open>
  On a run of deltas whose sum first reaches the goal with its last element,
  \<open>FastDecodeDeltas\<close> returns: it stops at the end of the run with the sum of the run.  The sums
  must fit in a signed 64-bit register.
\<close>

theorem FastDecodeDeltas_returns_sum:
  assumes "load_bytes m ptr (length (concat (map varint_bytes (ds @ [d])))) = concat (map varint_bytes (ds @ [d]))"
    and "goal < 2 ^ 63" and "ds = [] \<or> sum_list ds < goal" and "goal \<le> sum_list ds + d"
    and "sum_list ds + d < 2 ^ 63"
  shows "FastDecodeDeltas m ptr (of_nat goal) =
    Some (ptr + length (concat (map varint_bytes (ds @ [d]))), of_nat (sum_list (ds @ [d])))"
  by (rule FastDecodeDeltas_sum [OF assms])

theorem FastDecodeDeltas_returns_sum_witness:
  "FastDecodeDeltas (store_bytes (\<lambda>_. 0) 0 (concat (map varint_bytes ([3, 200] @ [5])))) 0 (of_nat 204) =
    Some (0 + length (concat (map varint_bytes ([3, 200] @ [5]))), of_nat (sum_list ([3, 200] @ [5])))"
  by (rule FastDecodeDeltas_returns_sum [OF load_store_bytes]) simp_all

text \<open>
  Property C34.  What the backward fast path accepts, on any bytes.  More than \<open>kMax32\<close> (\<open>kMax64\<close>)
  bytes from the start of the buffer, the backward parsers find the same start as the backward skip,
  and return the base-128 number there, truncated to the width, whatever its top digit is.  The
  forward parser at that start, and with it the slow path, returns the same except for exactly the
  encodings of full length whose last byte is 16 or more (2 or more): the number does not fit, it
  reports an error, and the fast path returns a truncated value.
\<close>

theorem ParseBackward_fast_path:
  "(base + kMax32 < p \<longrightarrow>
     Parse32Backward m p base =
       map_option (\<lambda>q. (q, of_nat (digits_value m q (p - q)))) (Skip32BackwardSlow m p base)
     \<and> (\<forall>q. Skip32BackwardSlow m p base = Some q \<longrightarrow>
         (if q + 5 = p \<and> 16 \<le> unat (m (p - 1))
          then Parse32 m q = None \<and> Parse32BackwardSlow m p base = None \<and> 2 ^ 32 \<le> digits_value m q (p - q)
          else Parse32 m q = Some (p, of_nat (digits_value m q (p - q)))
            \<and> Parse32BackwardSlow m p base = Parse32Backward m p base)))
   \<and> (base + kMax64 < p \<longrightarrow>
     Parse64Backward plat m p base =
       map_option (\<lambda>q. (q, of_nat (digits_value m q (p - q)))) (Skip64BackwardSlow m p base)
     \<and> (\<forall>q. Skip64BackwardSlow m p base = Some q \<longrightarrow>
         (if q + 10 = p \<and> 2 \<le> unat (m (p - 1))
          then Parse64 plat m q = None \<and> Parse64BackwardSlow plat m p base = None \<and> 2 ^ 64 \<le> digits_value m q (p - q)
          else Parse64 plat m q = Some (p, of_nat (digits_value m q (p - q)))
            \<and> Parse64BackwardSlow plat m p base = Parse64Backward plat m p base)))"
  using Parse32Backward_fast [where base = base and p = p and m = m]
    Parse64Backward_fast [where base = base and p = p and m = m and plat = plat] by blast

theorem ParseBackward_fast_path_witness:
  "\<exists>m. (0 :: nat) + kMax32 < 6 \<and> Skip32BackwardSlow m 6 0 = Some 1 \<and> 16 \<le> unat (m 5)
    \<and> Parse32Backward m 6 0 = Some (1, 0) \<and> Parse32BackwardSlow m 6 0 = None \<and> Parse32 m 1 = None"
proof -
  let ?m = "store_bytes (\<lambda>_. 0) 0 [1, 128, 128, 128, 128, 16]"
  have five: "(5 :: nat) = Suc (Suc (Suc (Suc (Suc 0))))" by simp
  have "digits_value ?m 1 5 = 2 ^ 32" unfolding five by simp
  then have v: "(of_nat (digits_value ?m 1 5) :: u32) = 0" by (simp only: of_nat_power) simp
  have h: "0 + kMax32 < 6" "Skip32BackwardSlow ?m 6 0 = Some 1" "unat (?m 5) = 16"
    by code_simp+
  show ?thesis
    using ParseBackward_fast_path [of 0 6 ?m X86_64] h v
    by (intro exI [of _ ?m]) (simp del: store_bytes.simps)
qed

end
