(* ===== verification/CircularBuffer.thy ===== *)
theory CircularBuffer
  imports Gloop_Prelude
begin

text \<open>
  The double-ended ring buffer with eviction, \<^verbatim>\<open>src/gloop/util/gtl/circularbuffer.h\<close>.

  The raw storage \<open>space_\<close> is a list of slots, \<open>None\<close> for a slot that holds no object; a null
  pointer is the empty list, which is what \<open>Allocate(0)\<close> returns.  \<open>size_type\<close> values are natural
  numbers, with the reduction modulo \<open>2 ^ 64\<close> written out where the code converts a negative
  \<open>difference_type\<close>; the invariant bounds the capacity below \<open>2 ^ 63\<close>, the largest object an
  allocator can return, so that no other sum wraps.
\<close>

section \<open>The buffer\<close>

record 'a CircularBuffer =
  cb_capacity :: nat
  cb_begin :: nat
  cb_size :: nat
  cb_space :: "'a option list"

definition Allocate :: "nat \<Rightarrow> 'a option list" where
  "Allocate n = replicate n None"

definition Deallocate :: "'a option list \<Rightarrow> nat \<Rightarrow> unit outcome" where
  "Deallocate p n = require HardeningAssert ((p = []) = (n = 0)) (Inr ())"

definition Construct :: "'a option list \<Rightarrow> nat \<Rightarrow> 'a \<Rightarrow> 'a option list outcome" where
  "Construct sp p v = require BadAccess (p < length sp \<and> sp ! p = None) (Inr (sp[p := Some v]))"

definition Destroy :: "'a option list \<Rightarrow> nat \<Rightarrow> 'a option list outcome" where
  "Destroy sp p = require BadAccess (p < length sp \<and> sp ! p \<noteq> None) (Inr (sp[p := None]))"

text \<open>Assignment to and use of the object in a slot.\<close>

definition assign_slot :: "'a option list \<Rightarrow> nat \<Rightarrow> 'a \<Rightarrow> 'a option list outcome" where
  "assign_slot sp p v = require BadAccess (p < length sp \<and> sp ! p \<noteq> None) (Inr (sp[p := Some v]))"

definition at_absolute :: "'a CircularBuffer \<Rightarrow> nat \<Rightarrow> 'a outcome" where
  "at_absolute cb p = (if p < length (cb_space cb)
     then (case cb_space cb ! p of None \<Rightarrow> Inl BadAccess | Some v \<Rightarrow> Inr v) else Inl BadAccess)"

definition logical_to_absolute :: "'a CircularBuffer \<Rightarrow> nat \<Rightarrow> nat outcome" where
  "logical_to_absolute cb logical = require HardeningAssert (logical < cb_size cb)
    (let absolute = cb_begin cb + logical;
         absolute = (if absolute \<ge> cb_capacity cb then absolute - cb_capacity cb else absolute)
     in require HardeningAssert (absolute < cb_capacity cb) (Inr absolute))"

definition absolute_to_logical :: "'a CircularBuffer \<Rightarrow> nat \<Rightarrow> nat outcome" where
  "absolute_to_logical cb absolute = require HardeningAssert (absolute < cb_capacity cb)
    (let logical = cb_capacity cb - cb_begin cb + absolute;
         logical = (if logical \<ge> cb_capacity cb then logical - cb_capacity cb else logical)
     in require HardeningAssert (logical \<le> cb_capacity cb) (Inr logical))"

definition nextpos :: "'a CircularBuffer \<Rightarrow> nat \<Rightarrow> nat outcome" where
  "nextpos cb absolute = require CheckFailed (absolute < cb_capacity cb)
    (Inr (if absolute + 1 = cb_capacity cb then 0 else absolute + 1))"

definition prevpos :: "'a CircularBuffer \<Rightarrow> nat \<Rightarrow> nat outcome" where
  "prevpos cb absolute = require CheckFailed (absolute < cb_capacity cb)
    (Inr ((if absolute = 0 then absolute + cb_capacity cb else absolute) - 1))"

definition cb_empty :: "'a CircularBuffer \<Rightarrow> bool" where
  "cb_empty cb = (cb_size cb = 0)"

definition cb_full :: "'a CircularBuffer \<Rightarrow> bool" where
  "cb_full cb = (cb_size cb = cb_capacity cb)"

definition new_CircularBuffer :: "nat \<Rightarrow> 'a CircularBuffer" where
  "new_CircularBuffer c = \<lparr>cb_capacity = c, cb_begin = 0, cb_size = 0, cb_space = Allocate c\<rparr>"

subsection \<open>Pushing and popping\<close>

definition push_front :: "'a CircularBuffer \<Rightarrow> 'a \<Rightarrow> 'a CircularBuffer outcome" where
  "push_front cb item = andThen (prevpos cb (cb_begin cb)) (\<lambda>b.
    let cb = cb\<lparr>cb_begin := b\<rparr> in
    if cb_full cb then andThen (assign_slot (cb_space cb) b item) (\<lambda>sp. Inr (cb\<lparr>cb_space := sp\<rparr>))
    else let cb = cb\<lparr>cb_size := cb_size cb + 1\<rparr> in
      andThen (Construct (cb_space cb) b item) (\<lambda>sp. Inr (cb\<lparr>cb_space := sp\<rparr>)))"

definition push_back :: "'a CircularBuffer \<Rightarrow> 'a \<Rightarrow> 'a CircularBuffer outcome" where
  "push_back cb item =
    (if cb_full cb then
       andThen (assign_slot (cb_space cb) (cb_begin cb) item) (\<lambda>sp.
       andThen (nextpos cb (cb_begin cb)) (\<lambda>b. Inr (cb\<lparr>cb_space := sp, cb_begin := b\<rparr>)))
     else let cb = cb\<lparr>cb_size := cb_size cb + 1\<rparr> in
       andThen (logical_to_absolute cb (cb_size cb - 1)) (\<lambda>p.
       andThen (Construct (cb_space cb) p item) (\<lambda>sp. Inr (cb\<lparr>cb_space := sp\<rparr>))))"

definition emplace_front :: "'a CircularBuffer \<Rightarrow> 'a \<Rightarrow> 'a CircularBuffer outcome" where
  "emplace_front cb item = andThen (prevpos cb (cb_begin cb)) (\<lambda>b.
    let cb = cb\<lparr>cb_begin := b\<rparr> in
    andThen (if cb_full cb
             then andThen (Destroy (cb_space cb) b) (\<lambda>sp. Inr (cb\<lparr>cb_space := sp\<rparr>))
             else Inr (cb\<lparr>cb_size := cb_size cb + 1\<rparr>)) (\<lambda>cb.
    andThen (Construct (cb_space cb) b item) (\<lambda>sp. Inr (cb\<lparr>cb_space := sp\<rparr>))))"

definition emplace_back :: "'a CircularBuffer \<Rightarrow> 'a \<Rightarrow> 'a CircularBuffer outcome" where
  "emplace_back cb item =
    (if cb_full cb then
       andThen (Destroy (cb_space cb) (cb_begin cb)) (\<lambda>sp.
       andThen (Construct sp (cb_begin cb) item) (\<lambda>sp.
       andThen (nextpos cb (cb_begin cb)) (\<lambda>b. Inr (cb\<lparr>cb_space := sp, cb_begin := b\<rparr>))))
     else let cb = cb\<lparr>cb_size := cb_size cb + 1\<rparr> in
       andThen (logical_to_absolute cb (cb_size cb - 1)) (\<lambda>p.
       andThen (Construct (cb_space cb) p item) (\<lambda>sp. Inr (cb\<lparr>cb_space := sp\<rparr>))))"

definition pop_front :: "'a CircularBuffer \<Rightarrow> 'a CircularBuffer outcome" where
  "pop_front cb = require CheckFailed (cb_size cb > 0)
    (andThen (Destroy (cb_space cb) (cb_begin cb)) (\<lambda>sp.
     andThen (nextpos cb (cb_begin cb)) (\<lambda>b.
     Inr (cb\<lparr>cb_space := sp, cb_begin := b, cb_size := cb_size cb - 1\<rparr>))))"

definition pop_back :: "'a CircularBuffer \<Rightarrow> 'a CircularBuffer outcome" where
  "pop_back cb = require CheckFailed (cb_size cb > 0)
    (andThen (logical_to_absolute cb (cb_size cb - 1)) (\<lambda>p.
     andThen (Destroy (cb_space cb) p) (\<lambda>sp.
     Inr (cb\<lparr>cb_space := sp, cb_size := cb_size cb - 1\<rparr>))))"

subsection \<open>Access\<close>

definition cb_front :: "'a CircularBuffer \<Rightarrow> 'a outcome" where
  "cb_front cb = at_absolute cb (cb_begin cb)"

text \<open>\<open>size_ - 1\<close> wraps on an empty buffer, and the assertion in \<open>logical_to_absolute\<close> stops it.\<close>

definition cb_back :: "'a CircularBuffer \<Rightarrow> 'a outcome" where
  "cb_back cb = andThen (logical_to_absolute cb (nat ((int (cb_size cb) - 1) mod 2 ^ 64))) (at_absolute cb)"

definition cb_at :: "'a CircularBuffer \<Rightarrow> int \<Rightarrow> 'a outcome" where
  "cb_at cb pos =
    (let logical = nat ((pos + of_bool (pos < 0) * int (cb_size cb)) mod 2 ^ 64) in
     require HardeningAssert (logical < cb_size cb)
       (andThen (logical_to_absolute cb logical) (at_absolute cb)))"

fun clear_loop :: "'a CircularBuffer \<Rightarrow> nat \<Rightarrow> nat \<Rightarrow> 'a option list \<Rightarrow> 'a option list outcome" where
  "clear_loop cb i 0 sp = Inr sp"
| "clear_loop cb i (Suc n) sp = andThen (logical_to_absolute cb i) (\<lambda>p.
     andThen (Destroy sp p) (clear_loop cb (i + 1) n))"

definition cb_clear :: "'a CircularBuffer \<Rightarrow> 'a CircularBuffer outcome" where
  "cb_clear cb = andThen (clear_loop cb 0 (cb_size cb) (cb_space cb)) (\<lambda>sp.
    Inr (cb\<lparr>cb_space := sp, cb_begin := 0, cb_size := 0\<rparr>))"

subsection \<open>Iterators\<close>

text \<open>
  An iterator is the absolute position it holds; \<open>kEnd\<close> is \<open>-1\<close> converted to \<open>size_type\<close>.
\<close>

definition kEnd :: nat where "kEnd = 2 ^ 64 - 1"

definition iter_begin :: "'a CircularBuffer \<Rightarrow> nat" where
  "iter_begin cb = (if cb_empty cb then kEnd else cb_begin cb)"

definition logical_pos :: "'a CircularBuffer \<Rightarrow> nat \<Rightarrow> nat outcome" where
  "logical_pos cb pos = (if pos = kEnd then Inr (cb_size cb) else absolute_to_logical cb pos)"

definition Incr :: "'a CircularBuffer \<Rightarrow> nat \<Rightarrow> int \<Rightarrow> nat outcome" where
  "Incr cb pos n = andThen (logical_pos cb pos) (\<lambda>l.
    let logical = nat ((int l + n) mod 2 ^ 64) in
    require CheckFailed (logical \<le> cb_size cb)
      (if logical = cb_size cb then Inr kEnd else logical_to_absolute cb logical))"

definition Subtract :: "'a CircularBuffer \<Rightarrow> nat \<Rightarrow> nat \<Rightarrow> int outcome" where
  "Subtract cb a b = andThen (logical_pos cb a) (\<lambda>la. andThen (logical_pos cb b) (\<lambda>lb. Inr (int la - int lb)))"

text \<open>
  A range-based \<open>for\<close>: dereference, then increment, until the end position is reached.  The
  counter bounds the iterations, and a buffer within its invariant never exhausts it.
\<close>

fun iterate :: "nat \<Rightarrow> 'a CircularBuffer \<Rightarrow> nat \<Rightarrow> nat \<Rightarrow> 'a list outcome" where
  "iterate fuel cb pos stop = (if pos = stop then Inr []
     else case fuel of 0 \<Rightarrow> Inl BadAccess
     | Suc fuel \<Rightarrow> andThen (at_absolute cb pos) (\<lambda>v. andThen (Incr cb pos 1) (\<lambda>pos.
         andThen (iterate fuel cb pos stop) (\<lambda>vs. Inr (v # vs)))))"

declare iterate.simps [simp del]

definition elements :: "'a CircularBuffer \<Rightarrow> 'a list outcome" where
  "elements cb = iterate (cb_size cb) cb (iter_begin cb) kEnd"

fun construct_all :: "'a option list \<Rightarrow> nat \<Rightarrow> 'a list \<Rightarrow> 'a option list outcome" where
  "construct_all sp p [] = Inr sp"
| "construct_all sp p (v # vs) = andThen (Construct sp p v) (\<lambda>sp. construct_all sp (p + 1) vs)"

subsection \<open>Copies, moves and capacity\<close>

definition copy_construct :: "'a CircularBuffer \<Rightarrow> 'a CircularBuffer outcome" where
  "copy_construct src = andThen (elements src) (\<lambda>es.
    andThen (construct_all (Allocate (cb_capacity src)) 0 es) (\<lambda>sp.
    Inr \<lparr>cb_capacity = cb_capacity src, cb_begin = 0, cb_size = cb_size src, cb_space = sp\<rparr>))"

definition moved_from :: "'a CircularBuffer" where
  "moved_from = \<lparr>cb_capacity = 0, cb_begin = 0, cb_size = 0, cb_space = []\<rparr>"

text \<open>The result is the new buffer and what is left of the source.\<close>

definition move_construct :: "'a CircularBuffer \<Rightarrow> 'a CircularBuffer \<times> 'a CircularBuffer" where
  "move_construct src = (src, moved_from)"

definition destruct :: "'a CircularBuffer \<Rightarrow> unit outcome" where
  "destruct cb = andThen (cb_clear cb) (\<lambda>cb. Deallocate (cb_space cb) (cb_capacity cb))"

text \<open>
  Assignment between two distinct buffers (self-assignment returns at once).  \<open>steal\<close> says
  whether the allocator may be taken over with the storage.
\<close>

definition move_assign :: "bool \<Rightarrow> 'a CircularBuffer \<Rightarrow> 'a CircularBuffer
    \<Rightarrow> ('a CircularBuffer \<times> 'a CircularBuffer) outcome" where
  "move_assign steal this src = andThen (cb_clear this) (\<lambda>this.
    andThen (Deallocate (cb_space this) (cb_capacity this)) (\<lambda>_.
    if steal then Inr (src, moved_from)
    else andThen (elements src) (\<lambda>es.
      andThen (construct_all (Allocate (cb_capacity src)) 0 es) (\<lambda>sp.
      andThen (cb_clear src) (\<lambda>src'.
      andThen (Deallocate (cb_space src') (cb_capacity src')) (\<lambda>_.
      Inr (\<lparr>cb_capacity = cb_capacity src, cb_begin = 0, cb_size = cb_size src, cb_space = sp\<rparr>,
           src'\<lparr>cb_space := [], cb_capacity := 0\<rparr>)))))))"

definition copy_assign :: "'a CircularBuffer \<Rightarrow> 'a CircularBuffer \<Rightarrow> 'a CircularBuffer outcome" where
  "copy_assign this src = andThen (cb_clear this) (\<lambda>this.
    andThen (Deallocate (cb_space this) (cb_capacity this)) (\<lambda>_.
    andThen (elements src) (\<lambda>es.
    andThen (construct_all (Allocate (cb_capacity src)) 0 es) (\<lambda>sp.
    Inr (this\<lparr>cb_capacity := cb_capacity src, cb_begin := 0, cb_size := cb_size src, cb_space := sp\<rparr>)))))"

fun push_back_all :: "'a CircularBuffer \<Rightarrow> 'a list \<Rightarrow> 'a CircularBuffer outcome" where
  "push_back_all cb [] = Inr cb"
| "push_back_all cb (v # vs) = andThen (push_back cb v) (\<lambda>cb. push_back_all cb vs)"

definition ChangeCapacity :: "bool \<Rightarrow> 'a CircularBuffer \<Rightarrow> nat \<Rightarrow> 'a CircularBuffer outcome" where
  "ChangeCapacity steal cb new_capacity =
    (if new_capacity = cb_capacity cb then Inr cb
     else andThen (Incr cb (iter_begin cb) (int (min (cb_size cb) new_capacity))) (\<lambda>stop.
       andThen (iterate (cb_size cb) cb (iter_begin cb) stop) (\<lambda>es.
       andThen (push_back_all (new_CircularBuffer new_capacity) es) (\<lambda>tmp.
       andThen (move_assign steal cb tmp) (\<lambda>(this, tmp).
       andThen (destruct tmp) (\<lambda>_. Inr this))))))"

definition cb_swap :: "'a CircularBuffer \<Rightarrow> 'a CircularBuffer \<Rightarrow> 'a CircularBuffer \<times> 'a CircularBuffer" where
  "cb_swap a b = (b, a)"

definition cb_equal :: "'a CircularBuffer \<Rightarrow> 'a CircularBuffer \<Rightarrow> bool outcome" where
  "cb_equal a b = andThen (elements a) (\<lambda>xs. andThen (elements b) (\<lambda>ys. Inr (xs = ys)))"

end
