(* ===== verification/CircularBuffer_Proofs.thy ===== *)
theory CircularBuffer_Proofs
  imports CircularBuffer
begin

text \<open>
  The ring buffer refines a bounded double-ended queue on lists.  The representation is a rotation
  of the storage, so the lemmas on rings come first, then one lemma per operation, then the
  interface of a bounded deque and its interpretation on the buffer.
\<close>


section \<open>Rings\<close>

lemma ring_mod: "b < n \<Longrightarrow> i < n \<Longrightarrow> (b + i) mod n = (if b + i < n then b + i else b + i - n)" for b :: nat
  by (simp add: le_mod_geq)

lemma rotate_update:
  assumes "i < length sp" "b < length sp"
  shows "rotate b (sp[(b + i) mod length sp := x]) = (rotate b sp)[i := x]"
proof (rule nth_equalityI)
  fix j assume "j < length (rotate b (sp[(b + i) mod length sp := x]))"
  then have j: "j < length sp" by simp
  have "(b + i) mod length sp = (b + j) mod length sp \<longleftrightarrow> i = j"
    using assms j by (auto simp: ring_mod)
  moreover have "(b + j) mod length sp < length sp"
    by (rule mod_less_divisor) (use j in linarith)
  ultimately show "rotate b (sp[(b + i) mod length sp := x]) ! j = (rotate b sp)[i := x] ! j"
    using j assms by (simp add: nth_rotate nth_list_update)
qed simp

lemma rotate_next: "rotate ((b + 1) mod length sp) sp = rotate1 (rotate b sp)"
  by (metis Suc_eq_plus1 rotate_Suc rotate_conv_mod)

lemma rotate_prev:
  assumes "b < length sp"
  shows "rotate ((if b = 0 then b + length sp else b) - 1) sp = last (rotate b sp) # butlast (rotate b sp)"
proof -
  let ?b = "(if b = 0 then b + length sp else b) - 1"
  have "(?b + 1) mod length sp = b" using assms by auto
  then have r: "rotate b sp = rotate1 (rotate ?b sp)" using rotate_next [of ?b sp] by simp
  have "rotate ?b sp \<noteq> []" using assms by auto
  then show ?thesis unfolding r by (cases "rotate ?b sp") auto
qed

section \<open>Abstraction\<close>

definition contents :: "'a CircularBuffer \<Rightarrow> 'a list" where
  "contents cb = map the (take (cb_size cb) (rotate (cb_begin cb) (cb_space cb)))"

text \<open>
  The invariant: read from \<open>begin_\<close> around the ring, the storage is the objects of the buffer
  followed by empty slots.
\<close>

definition cb_rep :: "'a CircularBuffer \<Rightarrow> 'a list \<Rightarrow> bool" where
  "cb_rep cb xs = (cb_capacity cb < 2 ^ 63 \<and> length (cb_space cb) = cb_capacity cb \<and>
     cb_size cb = length xs \<and> length xs \<le> cb_capacity cb \<and>
     (if cb_capacity cb = 0 then cb_begin cb = 0 else cb_begin cb < cb_capacity cb) \<and>
     rotate (cb_begin cb) (cb_space cb) = map Some xs @ replicate (cb_capacity cb - length xs) None)"

definition cb_ok :: "'a CircularBuffer \<Rightarrow> bool" where
  "cb_ok cb = cb_rep cb (contents cb)"

lemma cb_rep_contents: "cb_rep cb xs \<Longrightarrow> contents cb = xs"
  by (simp add: cb_rep_def contents_def comp_def)

lemma cb_rep_ok: "cb_rep cb xs \<Longrightarrow> cb_ok cb"
  by (simp add: cb_ok_def cb_rep_contents)

lemma slot_nth:
  assumes "cb_rep cb xs" "i < cb_capacity cb"
  shows "cb_space cb ! ((cb_begin cb + i) mod cb_capacity cb) = (if i < length xs then Some (xs ! i) else None)"
proof -
  have "cb_space cb ! ((cb_begin cb + i) mod cb_capacity cb) = rotate (cb_begin cb) (cb_space cb) ! i"
    using assms by (subst nth_rotate) (simp_all add: cb_rep_def)
  also have "\<dots> = (if i < length xs then Some (xs ! i) else None)"
    using assms by (auto simp: cb_rep_def nth_append)
  finally show ?thesis .
qed

lemma logical_to_absolute_ok:
  assumes "cb_begin cb < cb_capacity cb" "i < cb_size cb" "cb_size cb \<le> cb_capacity cb"
  shows "logical_to_absolute cb i = Inr ((cb_begin cb + i) mod cb_capacity cb)"
  using assms by (auto simp: logical_to_absolute_def Let_def ring_mod)

lemma nextpos_ok: "p < cb_capacity cb \<Longrightarrow> nextpos cb p = Inr ((p + 1) mod cb_capacity cb)"
  by (auto simp: nextpos_def mod_if)

lemma cb_rep_begin: "cb_rep cb xs \<Longrightarrow> 0 < cb_capacity cb \<Longrightarrow> cb_begin cb < cb_capacity cb"
  by (simp add: cb_rep_def)

section \<open>Operations\<close>

lemma new_rep: "c < 2 ^ 63 \<Longrightarrow> cb_rep (new_CircularBuffer c) []"
  by (simp add: cb_rep_def new_CircularBuffer_def Allocate_def)

definition push_back_list :: "nat \<Rightarrow> 'a list \<Rightarrow> 'a \<Rightarrow> 'a list" where
  "push_back_list c xs x = (if length xs = c then tl xs @ [x] else xs @ [x])"

definition push_front_list :: "nat \<Rightarrow> 'a list \<Rightarrow> 'a \<Rightarrow> 'a list" where
  "push_front_list c xs x = (if length xs = c then x # butlast xs else x # xs)"

lemma push_back_rep:
  assumes "cb_rep cb xs" "0 < cb_capacity cb"
  shows "\<exists>cb'. push_back cb v = Inr cb' \<and> cb_rep cb' (push_back_list (cb_capacity cb) xs v) \<and>
    cb_capacity cb' = cb_capacity cb"
proof (cases "length xs = cb_capacity cb")
  case True
  note b = cb_rep_begin [OF assms]
  have "cb_space cb ! cb_begin cb = Some (xs ! 0)" using slot_nth [OF assms(1), of 0] assms True b by simp
  moreover have "rotate ((cb_begin cb + 1) mod cb_capacity cb) ((cb_space cb)[cb_begin cb := Some v]) = map Some (tl xs @ [v])"
    using assms b True rotate_next [of "cb_begin cb" "(cb_space cb)[cb_begin cb := Some v]"]
      rotate_update [of 0 "cb_space cb" "cb_begin cb" "Some v"]
    by (cases xs) (simp_all add: cb_rep_def)
  ultimately show ?thesis
    using assms b True
    by (auto simp: push_back_def cb_full_def cb_rep_def assign_slot_def nextpos_ok push_back_list_def)
next
  case False
  note b = cb_rep_begin [OF assms]
  have lt: "length xs < cb_capacity cb" using False assms by (simp add: cb_rep_def)
  let ?p = "(cb_begin cb + length xs) mod cb_capacity cb"
  have free: "cb_space cb ! ?p = None" using slot_nth [OF assms(1) lt] by simp
  have "rotate (cb_begin cb) ((cb_space cb)[?p := Some v]) = map Some (xs @ [v]) @ replicate (cb_capacity cb - Suc (length xs)) None"
    using assms b lt rotate_update [of "length xs" "cb_space cb" "cb_begin cb" "Some v"]
    by (simp add: cb_rep_def list_update_append Suc_diff_Suc flip: replicate_Suc)
      (metis Suc_diff_Suc list_update_code(2) replicate_Suc)
  with free show ?thesis
    using assms b lt False
    by (auto simp: push_back_def cb_full_def cb_rep_def Construct_def logical_to_absolute_ok push_back_list_def)
qed

lemma emplace_back_push_back:
  assumes "cb_rep cb xs" "0 < cb_capacity cb"
  shows "emplace_back cb v = push_back cb v"
  using assms cb_rep_begin [OF assms] slot_nth [OF assms]
  by (cases xs) (auto simp: emplace_back_def push_back_def Destroy_def Construct_def assign_slot_def cb_full_def cb_rep_def)

lemma prevpos_ok:
  "p < cb_capacity cb \<Longrightarrow> prevpos cb p = Inr ((if p = 0 then p + cb_capacity cb else p) - 1)"
  by (simp add: prevpos_def)

lemma push_front_rep:
  assumes "cb_rep cb xs" "0 < cb_capacity cb"
  shows "\<exists>cb'. push_front cb v = Inr cb' \<and> cb_rep cb' (push_front_list (cb_capacity cb) xs v) \<and>
    cb_capacity cb' = cb_capacity cb"
proof -
  note b = cb_rep_begin [OF assms]
  let ?sp = "cb_space cb" let ?c = "cb_capacity cb"
  let ?b = "(if cb_begin cb = 0 then cb_begin cb + ?c else cb_begin cb) - 1"
  let ?L = "map Some xs @ replicate (?c - length xs) None"
  have len: "length ?sp = ?c" and L: "rotate (cb_begin cb) ?sp = ?L" and xs: "length xs \<le> ?c"
    using assms(1) by (simp_all add: cb_rep_def)
  have b': "?b < ?c" using b by auto
  have prev: "rotate ?b ?sp = last ?L # butlast ?L"
    using rotate_prev [of "cb_begin cb" ?sp] b by (simp only: len L)
  have "?sp ! ?b = rotate ?b ?sp ! 0" using b' by (subst nth_rotate) (auto simp: len)
  then have slot: "?sp ! ?b = last ?L" by (simp only: prev nth_Cons_0)
  have upd: "rotate ?b (?sp[?b := Some v]) = Some v # butlast ?L"
    using rotate_update [of 0 ?sp ?b "Some v"] b' by (simp only: len prev) simp
  show ?thesis
  proof (cases "length xs = ?c")
    case True
    then have "xs \<noteq> []" using assms(2) by auto
    then have "last ?L \<noteq> None" "butlast ?L = map Some (butlast xs)"
      using True by (simp_all add: last_map map_butlast)
    with True b b' upd slot assms show ?thesis
      by (auto simp: push_front_def prevpos_ok Let_def cb_full_def assign_slot_def cb_rep_def push_front_list_def)
  next
    case False
    then obtain k where k: "?c - length xs = Suc k" using xs by (metis Suc_diff_Suc le_neq_implies_less)
    then have "last ?L = None" "butlast ?L = map Some xs @ replicate k None" "?c - Suc (length xs) = k"
      by (simp_all add: butlast_append last_append flip: replicate_append_same)
    with False xs b b' upd slot assms show ?thesis
      by (auto simp: push_front_def prevpos_ok Let_def cb_full_def Construct_def cb_rep_def push_front_list_def)
  qed
qed

lemma emplace_front_push_front:
  assumes "cb_rep cb xs" "0 < cb_capacity cb"
  shows "emplace_front cb v = push_front cb v"
  using assms
  by (auto simp: require_def emplace_front_def push_front_def Destroy_def Construct_def assign_slot_def cb_full_def cb_rep_def Let_def prevpos_def)

lemma pop_front_rep:
  assumes "cb_rep cb (x # xs)"
  shows "\<exists>cb'. pop_front cb = Inr cb' \<and> cb_rep cb' xs \<and> cb_capacity cb' = cb_capacity cb"
proof -
  have c: "0 < cb_capacity cb" using assms by (auto simp: cb_rep_def)
  note b = cb_rep_begin [OF assms c]
  have slot: "cb_space cb ! cb_begin cb = Some x" using slot_nth [OF assms c] b by simp
  have "rotate ((cb_begin cb + 1) mod cb_capacity cb) ((cb_space cb)[cb_begin cb := None]) =
    map Some xs @ replicate (cb_capacity cb - length xs) None"
    using assms b rotate_next [of "cb_begin cb" "(cb_space cb)[cb_begin cb := None]"]
      rotate_update [of 0 "cb_space cb" "cb_begin cb" None] Suc_diff_Suc [of "length xs" "cb_capacity cb"]
    by (simp add: cb_rep_def replicate_append_same flip: replicate_Suc)
  with slot assms b show ?thesis
    by (auto simp: pop_front_def Destroy_def nextpos_ok cb_rep_def)
qed

lemma pop_back_rep:
  assumes "cb_rep cb (xs @ [x])"
  shows "\<exists>cb'. pop_back cb = Inr cb' \<and> cb_rep cb' xs \<and> cb_capacity cb' = cb_capacity cb"
proof -
  have lt: "length xs < cb_capacity cb" using assms by (auto simp: cb_rep_def)
  then have c: "0 < cb_capacity cb" by simp
  note b = cb_rep_begin [OF assms c]
  let ?p = "(cb_begin cb + length xs) mod cb_capacity cb"
  have slot: "cb_space cb ! ?p = Some x" using slot_nth [OF assms lt] by simp
  have "rotate (cb_begin cb) ((cb_space cb)[?p := None]) = map Some xs @ replicate (cb_capacity cb - length xs) None"
    using assms b lt rotate_update [of "length xs" "cb_space cb" "cb_begin cb" None]
      Suc_diff_Suc [of "length xs" "cb_capacity cb"]
    by (simp add: cb_rep_def list_update_append flip: replicate_Suc)
  with slot assms b lt show ?thesis
    by (auto simp: pop_back_def Destroy_def logical_to_absolute_ok cb_rep_def)
qed


subsection \<open>Access\<close>

lemma at_absolute_rep:
  assumes "cb_rep cb xs" "i < length xs"
  shows "at_absolute cb ((cb_begin cb + i) mod cb_capacity cb) = Inr (xs ! i)"
proof -
  have i: "i < cb_capacity cb" using assms by (simp add: cb_rep_def)
  then have "(cb_begin cb + i) mod cb_capacity cb < cb_capacity cb" by simp
  with i show ?thesis using slot_nth [OF assms(1) i] assms by (simp add: at_absolute_def cb_rep_def)
qed

lemma logical_to_absolute_rep:
  assumes "cb_rep cb xs"
  shows "logical_to_absolute cb i =
    (if i < length xs then Inr ((cb_begin cb + i) mod cb_capacity cb) else Inl HardeningAssert)"
  using assms logical_to_absolute_ok [of cb i]
  by (auto simp: cb_rep_def logical_to_absolute_def split: if_splits)

lemma cb_front_rep: "cb_rep cb xs \<Longrightarrow> xs \<noteq> [] \<Longrightarrow> cb_front cb = Inr (hd xs)"
  using at_absolute_rep [of cb xs 0] cb_rep_begin [of cb xs]
  by (cases "cb_capacity cb") (auto simp: cb_front_def hd_conv_nth cb_rep_def)

lemma cb_back_rep:
  assumes "cb_rep cb xs"
  shows "cb_back cb = (if xs = [] then Inl HardeningAssert else Inr (last xs))"
proof (cases "xs = []")
  case True
  with assms show ?thesis by (simp add: cb_back_def logical_to_absolute_rep [OF assms] cb_rep_def)
next
  case False
  have "cb_size cb = length xs" "length xs < 2 ^ 63" using assms by (auto simp: cb_rep_def)
  then have "nat ((int (cb_size cb) - 1) mod 2 ^ 64) = length xs - 1"
    using False by (simp add: mod_pos_pos_trivial nat_diff_distrib)
  with False show ?thesis
    using at_absolute_rep [OF assms, of "length xs - 1"] 
    by (simp add: cb_back_def logical_to_absolute_rep [OF assms] last_conv_nth del: One_nat_def)
qed

lemma cb_at_rep:
  assumes "cb_rep cb xs" "- (2 ^ 63) \<le> pos" "pos < 2 ^ 63"
  shows "cb_at cb pos =
    (if 0 \<le> pos \<and> pos < int (length xs) then Inr (xs ! nat pos)
     else if pos < 0 \<and> - int (length xs) \<le> pos then Inr (xs ! nat (int (length xs) + pos))
     else Inl HardeningAssert)"
proof -
  have s: "cb_size cb = length xs" "length xs < 2 ^ 63" using assms by (auto simp: cb_rep_def)
  let ?l = "nat ((pos + of_bool (pos < 0) * int (cb_size cb)) mod 2 ^ 64)"
  consider (pos) "0 \<le> pos" | (neg) "pos < 0" "- int (length xs) \<le> pos" | (low) "pos < 0" "pos < - int (length xs)" by linarith
  then have "?l = (if 0 \<le> pos then nat pos else if - int (length xs) \<le> pos then nat (int (length xs) + pos)
    else nat (2 ^ 64 + int (length xs) + pos))"
  proof cases
    case pos
    then show ?thesis using assms(3) by (simp add: mod_pos_pos_trivial)
  next
    case neg
    then show ?thesis using s by (simp add: mod_pos_pos_trivial add.commute)
  next
    case low
    have "(pos + int (length xs)) mod 2 ^ 64 = (pos + int (length xs) + 2 ^ 64) mod 2 ^ 64" by simp
    also have "\<dots> = pos + int (length xs) + 2 ^ 64"
      using low assms(2) by (intro mod_pos_pos_trivial) auto
    finally show ?thesis using low by (simp add: s algebra_simps)
  qed
  with s assms at_absolute_rep [OF assms(1), of ?l] show ?thesis
    by (auto simp: cb_at_def Let_def logical_to_absolute_rep [OF assms(1)] nat_less_iff simp del: of_bool_eq_1_iff)
qed

subsection \<open>Clearing\<close>

lemma rotate_eq_replicate: "rotate b sp = replicate n x \<longleftrightarrow> sp = replicate n x"
  by (metis length_replicate length_rotate replicate_eqI set_replicate_conv_if set_rotate empty_iff singletonD in_set_replicate)

lemma clear_loop_rep:
  assumes "cb_rep cb xs" "i + n = length xs" "length sp = cb_capacity cb"
    and "rotate (cb_begin cb) sp = replicate i None @ map Some (drop i xs) @ replicate (cb_capacity cb - length xs) None"
  shows "clear_loop cb i n sp = Inr (replicate (cb_capacity cb) None)"
  using assms(2-)
proof (induction n arbitrary: i sp)
  case 0
  then have "rotate (cb_begin cb) sp = replicate (cb_capacity cb) None"
    using assms(1) by (simp add: cb_rep_def flip: replicate_add)
  then show ?case by (simp add: rotate_eq_replicate)
next
  case (Suc n)
  let ?p = "(cb_begin cb + i) mod cb_capacity cb"
  have i: "i < length xs" "i < cb_capacity cb" using Suc.prems assms(1) by (auto simp: cb_rep_def)
  then have b: "cb_begin cb < cb_capacity cb" using cb_rep_begin [OF assms(1)] by simp
  have p: "?p < cb_capacity cb" using i by simp
  have "sp ! ?p = rotate (cb_begin cb) sp ! i" using Suc.prems i by (subst nth_rotate) auto
  then have slot: "sp ! ?p = Some (xs ! i)" using i by (simp add: Suc.prems nth_append)
  have "rotate (cb_begin cb) (sp[?p := None]) =
    replicate (Suc i) None @ map Some (drop (Suc i) xs) @ replicate (cb_capacity cb - length xs) None"
    using rotate_update [of i sp "cb_begin cb" None] i b Suc.prems
    by (simp add: list_update_append Cons_nth_drop_Suc [symmetric] replicate_app_Cons_same)
  then show ?case
    using Suc.IH [of "i + 1" "sp[?p := None]"] Suc.prems i p slot
    by (simp add: logical_to_absolute_rep [OF assms(1)] Destroy_def)
qed

lemma cb_clear_rep:
  assumes "cb_rep cb xs"
  shows "cb_clear cb = Inr (cb\<lparr>cb_space := replicate (cb_capacity cb) None, cb_begin := 0, cb_size := 0\<rparr>)"
  using clear_loop_rep [OF assms, of 0 "length xs" "cb_space cb"] assms by (simp add: cb_clear_def cb_rep_def)

lemma destruct_rep: "cb_rep cb xs \<Longrightarrow> destruct cb = Inr ()"
  by (auto simp: destruct_def cb_clear_rep Deallocate_def)

subsection \<open>Iterators\<close>

definition iter_pos :: "'a CircularBuffer \<Rightarrow> nat \<Rightarrow> nat" where
  "iter_pos cb i = (if i = cb_size cb then kEnd else (cb_begin cb + i) mod cb_capacity cb)"

lemma iter_begin_pos: "cb_rep cb xs \<Longrightarrow> iter_begin cb = iter_pos cb 0"
  using cb_rep_begin [of cb xs]
  by (cases "xs = []") (auto simp: iter_begin_def iter_pos_def cb_empty_def cb_rep_def split: if_splits)

lemma logical_pos_rep:
  assumes "cb_rep cb xs" "i \<le> length xs"
  shows "logical_pos cb (iter_pos cb i) = Inr i"
proof (cases "i = length xs")
  case True
  then show ?thesis using assms by (simp add: logical_pos_def iter_pos_def cb_rep_def)
next
  case False
  then have i: "i < cb_capacity cb" "i < length xs" using assms by (auto simp: cb_rep_def)
  then have b: "cb_begin cb < cb_capacity cb" using cb_rep_begin [OF assms(1)] by simp
  have "(cb_begin cb + i) mod cb_capacity cb < cb_capacity cb" using i by simp
  also have "\<dots> < kEnd" using assms by (simp add: cb_rep_def kEnd_def)
  finally have "(cb_begin cb + i) mod cb_capacity cb \<noteq> kEnd" by simp
  then show ?thesis using i b assms
    by (auto simp: logical_pos_def iter_pos_def absolute_to_logical_def Let_def ring_mod cb_rep_def)
qed

lemma Incr_rep:
  assumes "cb_rep cb xs" "i \<le> length xs" "- (2 ^ 63) \<le> n" "n < 2 ^ 63"
  shows "Incr cb (iter_pos cb i) n =
    (if 0 \<le> int i + n \<and> int i + n \<le> int (length xs) then Inr (iter_pos cb (nat (int i + n))) else Inl CheckFailed)"
proof -
  have s: "cb_size cb = length xs" "length xs < 2 ^ 63" using assms by (auto simp: cb_rep_def)
  have l: "nat ((int i + n) mod 2 ^ 64) = (if 0 \<le> int i + n then nat (int i + n) else nat (int i + n + 2 ^ 64))"
  proof (cases "0 \<le> int i + n")
    case True
    then show ?thesis using assms s by (simp add: mod_pos_pos_trivial)
  next
    case False
    have "(int i + n) mod 2 ^ 64 = (int i + n + 2 ^ 64) mod 2 ^ 64" by simp
    also have "\<dots> = int i + n + 2 ^ 64" using False assms(3) by (intro mod_pos_pos_trivial) auto
    finally show ?thesis using False by simp
  qed
  show ?thesis
    unfolding Incr_def logical_pos_rep [OF assms(1,2)] andThen_simps Let_def l
    using assms(3,4) s by (auto simp: logical_to_absolute_rep [OF assms(1)] iter_pos_def)
qed

lemma iter_pos_eq:
  assumes "cb_rep cb xs" "i \<le> length xs" "j \<le> length xs"
  shows "iter_pos cb i = iter_pos cb j \<longleftrightarrow> i = j"
  using logical_pos_rep [OF assms(1,2)] logical_pos_rep [OF assms(1,3)] by (metis sum.inject(2))

lemma iterate_rep:
  assumes "cb_rep cb xs" 
  shows "i \<le> j \<Longrightarrow> j \<le> length xs \<Longrightarrow> j - i \<le> fuel \<Longrightarrow>
    iterate fuel cb (iter_pos cb i) (iter_pos cb j) = Inr (take (j - i) (drop i xs))"
proof (induction fuel arbitrary: i)
  case 0
  then show ?case by (simp add: iterate.simps)
next
  case (Suc fuel)
  show ?case
  proof (cases "i = j")
    case False
    then have i: "i < length xs" "i < j" using Suc.prems by auto
    then have "iterate fuel cb (iter_pos cb (Suc i)) (iter_pos cb j) = Inr (take (j - Suc i) (drop (Suc i) xs))"
      using Suc by (intro Suc.IH) auto
    moreover have "Incr cb (iter_pos cb i) 1 = Inr (iter_pos cb (Suc i))"
      using Incr_rep [OF assms, of i 1] i by (simp add: nat_add_distrib)
    moreover have "at_absolute cb (iter_pos cb i) = Inr (xs ! i)"
      using at_absolute_rep [OF assms] i assms by (simp add: iter_pos_def cb_rep_def)
    moreover have "iter_pos cb i \<noteq> iter_pos cb j"
      using False i Suc.prems by (simp add: iter_pos_eq [OF assms])
    moreover have "take (j - i) (drop i xs) = xs ! i # take (j - Suc i) (drop (Suc i) xs)"
      using i by (simp add: Cons_nth_drop_Suc [symmetric] take_Cons' )
    ultimately show ?thesis by (subst iterate.simps) simp
  qed (simp add: iterate.simps)
qed

lemma elements_rep: "cb_rep cb xs \<Longrightarrow> elements cb = Inr xs"
  using iterate_rep [of cb xs 0 "length xs" "cb_size cb"]
  by (simp add: elements_def iter_begin_pos) (simp add: iter_pos_def cb_rep_def)


subsection \<open>Copies, moves and capacity\<close>

lemma construct_all_prefix:
  "construct_all (map Some ys @ replicate (length vs + k) None) (length ys) vs =
    Inr (map Some (ys @ vs) @ replicate k None)"
proof (induction vs arbitrary: ys)
  case (Cons v vs)
  then show ?case using Cons [of "ys @ [v]"]
    by (simp add: Construct_def nth_append list_update_append)
qed simp

lemma construct_all_new:
  "length vs \<le> n \<Longrightarrow> construct_all (Allocate n) 0 vs = Inr (map Some vs @ replicate (n - length vs) None)"
  using construct_all_prefix [of "[]" vs "n - length vs"] by (simp add: Allocate_def)

lemma copy_construct_rep:
  assumes "cb_rep cb xs"
  shows "\<exists>cb'. copy_construct cb = Inr cb' \<and> cb_rep cb' xs \<and> cb_capacity cb' = cb_capacity cb"
  using assms elements_rep [OF assms] construct_all_new [of xs "cb_capacity cb"]
  by (auto simp: copy_construct_def cb_rep_def)

lemma moved_from_rep: "cb_rep moved_from []"
  by (simp add: cb_rep_def moved_from_def)

lemma move_assign_rep:
  assumes "cb_rep cb xs" "cb_rep src ys"
  shows "\<exists>cb' src'. move_assign steal cb src = Inr (cb', src') \<and> cb_rep cb' ys \<and>
    cb_capacity cb' = cb_capacity src \<and> cb_rep src' [] \<and> cb_capacity src' = 0"
proof (cases steal)
  case True
  have "cb_capacity moved_from = 0" by (simp add: moved_from_def)
  with True show ?thesis
    using assms(2) moved_from_rep by (auto simp: move_assign_def cb_clear_rep [OF assms(1)] Deallocate_def)
next
  case False
  with assms(2) construct_all_new [of ys "cb_capacity src"] show ?thesis
    by (auto simp: move_assign_def cb_clear_rep [OF assms(1)] cb_clear_rep [OF assms(2)] Deallocate_def
        elements_rep [OF assms(2)] cb_rep_def)
qed

lemma copy_assign_rep:
  assumes "cb_rep cb xs" "cb_rep src ys"
  shows "\<exists>cb'. copy_assign cb src = Inr cb' \<and> cb_rep cb' ys \<and> cb_capacity cb' = cb_capacity src"
  using assms(2) construct_all_new [of ys "cb_capacity src"]
  by (auto simp: copy_assign_def cb_clear_rep [OF assms(1)] Deallocate_def elements_rep [OF assms(2)] cb_rep_def)

lemma push_back_all_rep:
  assumes "cb_rep cb xs" "length xs + length vs \<le> cb_capacity cb"
  shows "\<exists>cb'. push_back_all cb vs = Inr cb' \<and> cb_rep cb' (xs @ vs) \<and> cb_capacity cb' = cb_capacity cb"
  using assms
proof (induction vs arbitrary: cb xs)
  case (Cons v vs)
  then obtain cb' where "push_back cb v = Inr cb'" "cb_rep cb' (xs @ [v])" "cb_capacity cb' = cb_capacity cb"
    using push_back_rep [of cb xs v] by (auto simp: push_back_list_def)
  then show ?case using Cons.IH [of cb' "xs @ [v]"] Cons.prems by simp
qed simp

lemma ChangeCapacity_rep:
  assumes "cb_rep cb xs" "n < 2 ^ 63"
  shows "\<exists>cb'. ChangeCapacity steal cb n = Inr cb' \<and> cb_rep cb' (take n xs) \<and> cb_capacity cb' = n"
proof (cases "n = cb_capacity cb")
  case True
  then have "take n xs = xs" using assms by (simp add: cb_rep_def)
  then show ?thesis using assms True by (simp add: ChangeCapacity_def)
next
  case False
  let ?k = "min (length xs) n"
  have "Incr cb (iter_pos cb 0) (int ?k) = Inr (iter_pos cb ?k)"
    using Incr_rep [OF assms(1), of 0 "int ?k"] assms(2) by simp
  moreover have "iterate (cb_size cb) cb (iter_pos cb 0) (iter_pos cb ?k) = Inr (take n xs)"
    using iterate_rep [OF assms(1), of 0 ?k "cb_size cb"] assms(1) by (simp add: cb_rep_def min_def)
  moreover obtain tmp where "push_back_all (new_CircularBuffer n) (take n xs) = Inr tmp"
    "cb_rep tmp (take n xs)" "cb_capacity tmp = n"
    using push_back_all_rep [OF new_rep [OF assms(2)], of "take n xs"] by (auto simp: new_CircularBuffer_def)
  moreover obtain cb' src' where "move_assign steal cb tmp = Inr (cb', src')" "cb_rep cb' (take n xs)"
    "cb_capacity cb' = n" "cb_rep src' []"
    using move_assign_rep [OF assms(1), of tmp "take n xs" steal] calculation by auto
  moreover have "cb_size cb = length xs" using assms(1) by (simp add: cb_rep_def)
  ultimately show ?thesis using False
    by (simp add: ChangeCapacity_def iter_begin_pos [OF assms(1)] destruct_rep)
qed

section \<open>The bounded deque\<close>

text \<open>
  What the buffer promises: it is a double-ended queue of at most \<open>cap\<close> elements that makes room
  by evicting at the other end.  Facts about sequences of operations are proved from these laws.
\<close>

fun drain :: "('s \<Rightarrow> 'a outcome) \<Rightarrow> ('s \<Rightarrow> 's outcome) \<Rightarrow> nat \<Rightarrow> 's \<Rightarrow> 'a list outcome" where
  "drain fstv popf 0 s = Inr []"
| "drain fstv popf (Suc n) s =
    andThen (fstv s) (\<lambda>x. andThen (popf s) (\<lambda>s. andThen (drain fstv popf n s) (\<lambda>xs. Inr (x # xs))))"

locale bounded_deque =
  fixes rep :: "'s \<Rightarrow> 'a list \<Rightarrow> bool"
    and cap :: "'s \<Rightarrow> nat"
    and pushb :: "'s \<Rightarrow> 'a \<Rightarrow> 's outcome"
    and pushf :: "'s \<Rightarrow> 'a \<Rightarrow> 's outcome"
    and popf :: "'s \<Rightarrow> 's outcome"
    and popb :: "'s \<Rightarrow> 's outcome"
    and fstv :: "'s \<Rightarrow> 'a outcome"
    and lstv :: "'s \<Rightarrow> 'a outcome"
  assumes rep_cap: "rep s xs \<Longrightarrow> length xs \<le> cap s"
    and pushb: "rep s xs \<Longrightarrow> 0 < cap s \<Longrightarrow>
      \<exists>s'. pushb s x = Inr s' \<and> rep s' (push_back_list (cap s) xs x) \<and> cap s' = cap s"
    and pushf: "rep s xs \<Longrightarrow> 0 < cap s \<Longrightarrow>
      \<exists>s'. pushf s x = Inr s' \<and> rep s' (push_front_list (cap s) xs x) \<and> cap s' = cap s"
    and popf: "rep s (x # xs) \<Longrightarrow> \<exists>s'. popf s = Inr s' \<and> rep s' xs \<and> cap s' = cap s"
    and popb: "rep s (xs @ [x]) \<Longrightarrow> \<exists>s'. popb s = Inr s' \<and> rep s' xs \<and> cap s' = cap s"
    and fstv: "rep s (x # xs) \<Longrightarrow> fstv s = Inr x"
    and lstv: "rep s (xs @ [x]) \<Longrightarrow> lstv s = Inr x"
begin

text \<open>Pushing a sequence at the back keeps the last \<open>cap\<close> elements, in order.\<close>

lemma push_back_list_drop:
  "length xs \<le> c \<Longrightarrow> 0 < c \<Longrightarrow> push_back_list c xs x = drop (Suc (length xs) - c) (xs @ [x])"
  by (cases xs) (auto simp: push_back_list_def)

lemma pushb_many:
  assumes "rep s xs" "0 < cap s"
  shows "\<exists>s'. fold (\<lambda>x r. andThen r (\<lambda>s. pushb s x)) vs (Inr s) = Inr s' \<and> cap s' = cap s \<and>
    rep s' (drop (length xs + length vs - cap s) (xs @ vs))"
  using assms
proof (induction vs arbitrary: s xs)
  case Nil
  then show ?case using rep_cap [OF Nil(1)] by simp
next
  case (Cons v vs)
  let ?ys = "push_back_list (cap s) xs v"
  obtain s' where s': "pushb s v = Inr s'" "rep s' ?ys" "cap s' = cap s" using pushb [OF Cons.prems] by blast
  have ys: "?ys = drop (Suc (length xs) - cap s) (xs @ [v])"
    using rep_cap [OF Cons.prems(1)] Cons.prems(2) by (rule push_back_list_drop)
  have "drop (length ?ys + length vs - cap s) (?ys @ vs) =
    drop (length xs + length (v # vs) - cap s) (xs @ v # vs)"
  proof -
    have "?ys @ vs = drop (Suc (length xs) - cap s) (xs @ v # vs)" using Cons.prems(2) by (simp add: ys)
    moreover have "length ?ys + length vs - cap s + (Suc (length xs) - cap s) = length xs + length (v # vs) - cap s"
      using rep_cap [OF Cons.prems(1)] Cons.prems(2) by (simp add: ys)
    ultimately show ?thesis by (simp only: drop_drop)
  qed
  then show ?case using Cons.IH [OF s'(2)] s' Cons.prems(2) by simp
qed

text \<open>First in, first out: reading and removing the front lists the contents.\<close>

lemma drain_rep:
  "rep s xs \<Longrightarrow> drain fstv popf (length xs) s = Inr xs"
proof (induction xs arbitrary: s)
  case (Cons x xs)
  then obtain s' where "popf s = Inr s'" "rep s' xs" using popf by blast
  with Cons show ?case by (simp add: fstv)
qed simp

lemma push_then_drain:
  assumes "rep s []" "0 < cap s"
  shows "\<exists>s'. fold (\<lambda>x r. andThen r (\<lambda>s. pushb s x)) vs (Inr s) = Inr s' \<and>
    drain fstv popf (min (length vs) (cap s)) s' = Inr (drop (length vs - cap s) vs)"
proof -
  obtain s' where s': "fold (\<lambda>x r. andThen r (\<lambda>s. pushb s x)) vs (Inr s) = Inr s'"
    "rep s' (drop (length vs - cap s) vs)"
    using pushb_many [OF assms, of vs] by auto
  have "length (drop (length vs - cap s) vs) = min (length vs) (cap s)" by auto
  with drain_rep [OF s'(2)] s'(1) show ?thesis by simp
qed

end

interpretation ring: bounded_deque cb_rep cb_capacity push_back push_front pop_front pop_back cb_front cb_back
proof
  show "length xs \<le> cb_capacity s" if "cb_rep s xs" for s :: "'a CircularBuffer" and xs
    using that by (simp add: cb_rep_def)
qed (simp_all add: push_back_rep push_front_rep pop_front_rep pop_back_rep cb_front_rep cb_back_rep)

section \<open>Properties\<close>

text \<open>
  Property C5.  Pushing on a buffer of non-zero capacity never aborts and never touches a slot it
  should not: a full buffer loses the element at the opposite end, any other buffer grows by one.
  Emplacing does the same as pushing, on both ends.
\<close>

theorem CircularBuffer_push:
  assumes "cb_rep cb xs" and "0 < cb_capacity cb"
  shows "\<exists>a b. push_back cb v = Inr a \<and> emplace_back cb v = Inr a \<and>
      cb_rep a (if length xs = cb_capacity cb then tl xs @ [v] else xs @ [v]) \<and>
      push_front cb v = Inr b \<and> emplace_front cb v = Inr b \<and>
      cb_rep b (if length xs = cb_capacity cb then v # butlast xs else v # xs)"
  using push_back_rep [OF assms, of v] push_front_rep [OF assms, of v]
  by (auto simp: emplace_back_push_back [OF assms] emplace_front_push_front [OF assms]
      push_back_list_def push_front_list_def)

theorem CircularBuffer_push_witness:
  "\<exists>a b. push_back (new_CircularBuffer 2) (7 :: nat) = Inr a \<and> emplace_back (new_CircularBuffer 2) 7 = Inr a \<and>
     cb_rep a [7] \<and> push_front (new_CircularBuffer 2) (7 :: nat) = Inr b \<and> emplace_front (new_CircularBuffer 2) 7 = Inr b \<and>
     cb_rep b [7]"
  using CircularBuffer_push [of "new_CircularBuffer 2" "[]" "7 :: nat"]
  by (simp add: new_rep) (simp add: new_CircularBuffer_def)

text \<open>
  Popping removes the front or the back element and nothing else, and aborts through
  its \<open>CHECK\<close> exactly on the empty buffer.
\<close>

theorem CircularBuffer_pop:
  assumes "cb_rep cb xs"
  shows "(if xs = [] then pop_front cb = Inl CheckFailed \<and> pop_back cb = Inl CheckFailed
    else (\<exists>a b. pop_front cb = Inr a \<and> cb_rep a (tl xs) \<and> pop_back cb = Inr b \<and> cb_rep b (butlast xs)))"
proof (cases "xs = []")
  case True
  then show ?thesis using assms by (simp add: pop_front_def pop_back_def cb_rep_def)
next
  case False
  then have "cb_rep cb (hd xs # tl xs)" "cb_rep cb (butlast xs @ [last xs])" using assms by simp_all
  from pop_front_rep [OF this(1)] pop_back_rep [OF this(2)] False show ?thesis by auto
qed

theorem CircularBuffer_pop_witness:
  "pop_front (new_CircularBuffer 3 :: nat CircularBuffer) = Inl CheckFailed \<and>
   pop_back (new_CircularBuffer 3 :: nat CircularBuffer) = Inl CheckFailed"
  using CircularBuffer_pop [OF new_rep [of 3]] by simp

text \<open>
  Element access: \<open>at\<close> takes positions from the front, and negative positions from
  the back; outside \<open>[-size, size)\<close> it aborts through its hardening assertion although the
  position is first converted to an unsigned number.
\<close>

theorem CircularBuffer_at:
  assumes "cb_rep cb xs" and "- (2 ^ 63) \<le> pos" and "pos < 2 ^ 63"
  shows "cb_at cb pos =
    (if 0 \<le> pos \<and> pos < int (length xs) then Inr (xs ! nat pos)
     else if pos < 0 \<and> - int (length xs) \<le> pos then Inr (xs ! nat (int (length xs) + pos))
     else Inl HardeningAssert)"
  by (rule cb_at_rep [OF assms])

theorem CircularBuffer_at_witness:
  "cb_at \<lparr>cb_capacity = 3, cb_begin = 2, cb_size = 2, cb_space = [Some 8, None, Some (5 :: nat)]\<rparr> (-1) = Inr 8"
proof -
  have "cb_rep \<lparr>cb_capacity = 3, cb_begin = 2, cb_size = 2, cb_space = [Some 8, None, Some (5 :: nat)]\<rparr> [5, 8]"
    by (simp add: cb_rep_def rotate_drop_take)
  from CircularBuffer_at [OF this, of "-1"] show ?thesis by simp
qed

text \<open>
  Iterators: stepping by \<open>n\<close> moves by \<open>n\<close> logical positions and aborts exactly
  when it would leave \<open>[begin, end]\<close>; a range-based loop from begin to end terminates and visits
  the elements in order.
\<close>

theorem CircularBuffer_iteration:
  assumes "cb_rep cb xs" and "i \<le> length xs" and "- (2 ^ 63) \<le> n" and "n < 2 ^ 63"
  shows "Incr cb (iter_pos cb i) n =
      (if 0 \<le> int i + n \<and> int i + n \<le> int (length xs) then Inr (iter_pos cb (nat (int i + n))) else Inl CheckFailed) \<and>
    elements cb = Inr xs"
  by (rule conjI [OF Incr_rep [OF assms] elements_rep [OF assms(1)]])

theorem CircularBuffer_iteration_witness:
  "elements \<lparr>cb_capacity = 3, cb_begin = 2, cb_size = 2, cb_space = [Some 8, None, Some (5 :: nat)]\<rparr> = Inr [5, 8]"
proof -
  have "cb_rep \<lparr>cb_capacity = 3, cb_begin = 2, cb_size = 2, cb_space = [Some 8, None, Some (5 :: nat)]\<rparr> [5, 8]"
    by (simp add: cb_rep_def rotate_drop_take)
  from CircularBuffer_iteration [OF this, of 0 1] show ?thesis by simp
qed

text \<open>
  Changing the capacity keeps the elements at the front that fit, whatever the
  allocator propagation; copying and assigning give equal contents, and the source of a move is
  left a valid empty buffer.
\<close>

theorem CircularBuffer_capacity_and_copies:
  assumes "cb_rep cb xs" and "cb_rep src ys" and "n < 2 ^ 63"
  shows "(\<exists>a. ChangeCapacity steal cb n = Inr a \<and> cb_rep a (take n xs) \<and> cb_capacity a = n) \<and>
    (\<exists>a. copy_construct cb = Inr a \<and> cb_rep a xs) \<and>
    (\<exists>a. copy_assign cb src = Inr a \<and> cb_rep a ys) \<and>
    (\<exists>a s. move_assign steal cb src = Inr (a, s) \<and> cb_rep a ys \<and> cb_rep s [])"
  using ChangeCapacity_rep [OF assms(1,3), of steal] copy_construct_rep [OF assms(1)]
    copy_assign_rep [OF assms(1,2)] move_assign_rep [OF assms(1,2), of steal] by blast

theorem CircularBuffer_capacity_and_copies_witness:
  "\<exists>a. ChangeCapacity True \<lparr>cb_capacity = 3, cb_begin = 2, cb_size = 2, cb_space = [Some 8, None, Some (5 :: nat)]\<rparr> 1
    = Inr a \<and> cb_rep a [5]"
proof -
  have "cb_rep \<lparr>cb_capacity = 3, cb_begin = 2, cb_size = 2, cb_space = [Some 8, None, Some (5 :: nat)]\<rparr> [5, 8]"
    by (simp add: cb_rep_def rotate_drop_take)
  from CircularBuffer_capacity_and_copies [OF this this, of 1 True] show ?thesis by auto
qed

text \<open>
  Pushing any sequence onto an empty buffer and draining it from the front returns
  the last \<open>capacity\<close> elements of the sequence in the order they were pushed.
\<close>

theorem CircularBuffer_keeps_last:
  assumes "0 < c" and "c < 2 ^ 63"
  shows "\<exists>cb. fold (\<lambda>x r. andThen r (\<lambda>s. push_back s x)) vs (Inr (new_CircularBuffer c)) = Inr cb \<and>
    drain cb_front pop_front (min (length vs) c) cb = Inr (drop (length vs - c) vs)"
proof -
  have c: "cb_capacity (new_CircularBuffer c) = c" by (simp add: new_CircularBuffer_def)
  from ring.push_then_drain [OF new_rep [OF assms(2)], of vs] show ?thesis
    using assms(1) by (simp only: c)
qed

theorem CircularBuffer_keeps_last_witness:
  "\<exists>cb. fold (\<lambda>x r. andThen r (\<lambda>s. push_back s x)) [1, 2, 3 :: nat] (Inr (new_CircularBuffer 2)) = Inr cb \<and>
    drain cb_front pop_front (min (length [1, 2, 3 :: nat]) 2) cb = Inr (drop (length [1, 2, 3 :: nat] - 2) [1, 2, 3])"
  by (rule CircularBuffer_keeps_last) simp_all

end
