(* ===== verification/DisjointSetForest.thy ===== *)
theory DisjointSetForest
  imports Gloop_Prelude
begin

text \<open>
  The union-find forest, \<^verbatim>\<open>src/gloop/util/set/disjoint_set_forest.h\<close>.

  \<open>objects_\<close>, a node hash map, is a map from elements to \<open>ObjectData\<close>.  Its nodes do not move, so
  a pointer to an \<open>ObjectData\<close> is the key of its node, and writing through the pointer updates the
  map at that key.  \<open>EqualKey\<close> is equality.  \<open>InternalFindSet\<close> recurses along parent pointers with
  no bound of its own: it is a partial function whose \<open>None\<close> is ``does not return''; the inner
  sum carries the \<open>CHECK\<close> of \<open>FindData\<close>.
\<close>

record 'a ObjectData =
  parent :: 'a
  rank :: nat

type_synonym 'a ObjectMap = "'a \<rightharpoonup> 'a ObjectData"

record 'a DisjointSetForest =
  objects :: "'a ObjectMap"
  num_disjoint_sets :: int
  notfound_value :: 'a

definition new_forest :: "'a \<Rightarrow> 'a DisjointSetForest" where
  "new_forest notfound = \<lparr>objects = Map.empty, num_disjoint_sets = 0, notfound_value = notfound\<rparr>"

definition forest_clear :: "'a DisjointSetForest \<Rightarrow> 'a DisjointSetForest" where
  "forest_clear f = f\<lparr>objects := Map.empty, num_disjoint_sets := 0\<rparr>"

definition make_ObjectData :: "'a \<Rightarrow> 'a ObjectData" where
  "make_ObjectData x = \<lparr>parent = x, rank = 0\<rparr>"

text \<open>Writing through a pointer to the data of \<open>x\<close>.\<close>

definition set_parent :: "'a ObjectMap \<Rightarrow> 'a \<Rightarrow> 'a \<Rightarrow> 'a ObjectMap" where
  "set_parent objs x p = objs(x := map_option (\<lambda>d. d\<lparr>parent := p\<rparr>) (objs x))"

definition incr_rank :: "'a ObjectMap \<Rightarrow> 'a \<Rightarrow> 'a ObjectMap" where
  "incr_rank objs x = objs(x := map_option (\<lambda>d. d\<lparr>rank := rank d + 1\<rparr>) (objs x))"

definition deref :: "'a ObjectMap \<Rightarrow> 'a \<Rightarrow> 'a ObjectData outcome" where
  "deref objs x = (case objs x of None \<Rightarrow> Inl BadAccess | Some d \<Rightarrow> Inr d)"

definition FindData :: "'a ObjectMap \<Rightarrow> 'a \<Rightarrow> 'a ObjectData outcome" where
  "FindData objs x = (case objs x of None \<Rightarrow> Inl CheckFailed | Some d \<Rightarrow> Inr d)"

partial_function (option) InternalFindSet :: "'a ObjectMap \<Rightarrow> 'a \<Rightarrow> ('a ObjectMap \<times> 'a) outcome option" where
  "InternalFindSet objs x = (case deref objs x of Inl e \<Rightarrow> Some (Inl e) | Inr x_data \<Rightarrow>
    if x \<noteq> parent x_data then
      (case FindData objs (parent x_data) of Inl e \<Rightarrow> Some (Inl e) | Inr parent_data \<Rightarrow>
        Option.bind (InternalFindSet objs (parent x_data)) (\<lambda>r. Some (
          andThen r (\<lambda>(objs, repr).
          andThen (deref objs repr) (\<lambda>repr_data. Inr (set_parent objs x (parent repr_data), repr))))))
    else Some (Inr (objs, x)))"

definition FindSet :: "'a DisjointSetForest \<Rightarrow> 'a \<Rightarrow> ('a DisjointSetForest \<times> 'a) outcome option" where
  "FindSet f x = (case objects f x of None \<Rightarrow> Some (Inr (f, notfound_value f))
    | Some _ \<Rightarrow> map_option (\<lambda>r. andThen r (\<lambda>(objs, repr).
        andThen (deref objs repr) (\<lambda>d. Inr (f\<lparr>objects := objs\<rparr>, parent d)))) (InternalFindSet (objects f) x))"

definition IsSingleton :: "'a DisjointSetForest \<Rightarrow> 'a \<Rightarrow> bool" where
  "IsSingleton f x = (case objects f x of None \<Rightarrow> True | Some d \<Rightarrow> x = parent d \<and> rank d = 0)"

text \<open>\<open>try_emplace(x, x)\<close>: insert unless present, and say whether it was inserted.\<close>

definition try_emplace :: "'a ObjectMap \<Rightarrow> 'a \<Rightarrow> 'a ObjectMap \<times> bool" where
  "try_emplace objs x = (case objs x of None \<Rightarrow> (objs(x \<mapsto> make_ObjectData x), True) | Some _ \<Rightarrow> (objs, False))"

definition emplace_counted :: "'a DisjointSetForest \<Rightarrow> 'a \<Rightarrow> 'a DisjointSetForest" where
  "emplace_counted f x = (case try_emplace (objects f) x of (objs, inserted) \<Rightarrow>
    f\<lparr>objects := objs, num_disjoint_sets := num_disjoint_sets f + of_bool inserted\<rparr>)"

definition MakeSet :: "'a DisjointSetForest \<Rightarrow> 'a \<Rightarrow> 'a DisjointSetForest \<times> bool" where
  "MakeSet f x = (case try_emplace (objects f) x of (objs, inserted) \<Rightarrow>
    if inserted then (f\<lparr>objects := objs, num_disjoint_sets := num_disjoint_sets f + 1\<rparr>, True) else (f, False))"

definition Link :: "'a ObjectMap \<Rightarrow> 'a \<Rightarrow> 'a \<Rightarrow> 'a ObjectMap outcome" where
  "Link objs x_repr y_repr = andThen (deref objs x_repr) (\<lambda>x_data. andThen (deref objs y_repr) (\<lambda>y_data.
    if rank x_data < rank y_data then Inr (set_parent objs x_repr (parent y_data))
    else let objs = set_parent objs y_repr (parent x_data) in
      Inr (if rank x_data = rank y_data then incr_rank objs x_repr else objs)))"

definition UnionHelper :: "'a DisjointSetForest \<Rightarrow> 'a \<Rightarrow> 'a \<Rightarrow> ('a DisjointSetForest \<times> bool) outcome option" where
  "UnionHelper f x y =
    (let f = emplace_counted f y in
     Option.bind (InternalFindSet (objects f) x) (\<lambda>r. case r of Inl e \<Rightarrow> Some (Inl e) | Inr (objs, x_repr) \<Rightarrow>
     Option.bind (InternalFindSet objs y) (\<lambda>r. case r of Inl e \<Rightarrow> Some (Inl e) | Inr (objs, y_repr) \<Rightarrow>
     Some (andThen (deref objs x_repr) (\<lambda>x_data. andThen (deref objs y_repr) (\<lambda>y_data.
       if parent x_data \<noteq> parent y_data
       then andThen (Link objs x_repr y_repr) (\<lambda>objs.
         Inr (f\<lparr>objects := objs, num_disjoint_sets := num_disjoint_sets f - 1\<rparr>, True))
       else Inr (f\<lparr>objects := objs\<rparr>, False)))))))"

definition Union :: "'a DisjointSetForest \<Rightarrow> 'a \<Rightarrow> 'a \<Rightarrow> ('a DisjointSetForest \<times> bool) outcome option" where
  "Union f x y = UnionHelper (emplace_counted f x) x y"

text \<open>
  \<open>UnionManyIterator\<close> keeps a pointer to the data of the first element and skips an element whose
  parent pointer already equals the first one's.
\<close>

fun UnionMany_loop :: "'a DisjointSetForest \<Rightarrow> 'a \<Rightarrow> 'a list \<Rightarrow> 'a DisjointSetForest outcome option" where
  "UnionMany_loop f b [] = Some (Inr f)"
| "UnionMany_loop f b (x # xs) =
    (case deref (objects f) b of Inl e \<Rightarrow> Some (Inl e) | Inr b_data \<Rightarrow>
     if (case objects f x of None \<Rightarrow> True | Some d \<Rightarrow> parent b_data \<noteq> parent d)
     then Option.bind (UnionHelper f b x) (\<lambda>r. case r of Inl e \<Rightarrow> Some (Inl e) | Inr (f, _) \<Rightarrow> UnionMany_loop f b xs)
     else UnionMany_loop f b xs)"

fun UnionMany :: "'a DisjointSetForest \<Rightarrow> 'a list \<Rightarrow> 'a DisjointSetForest outcome option" where
  "UnionMany f [] = Some (Inr f)"
| "UnionMany f (b # xs) = UnionMany_loop (fst (MakeSet f b)) b xs"

text \<open>
  The former version, kept for benchmarks: all elements are inserted first, then each is united
  with the first one unless the parent pointers agree.
\<close>

fun UnionManyOld_loop :: "'a DisjointSetForest \<Rightarrow> 'a \<Rightarrow> 'a list \<Rightarrow> 'a DisjointSetForest outcome option" where
  "UnionManyOld_loop f b [] = Some (Inr f)"
| "UnionManyOld_loop f b (x # xs) =
    (case deref (objects f) x of Inl e \<Rightarrow> Some (Inl e) | Inr x_data \<Rightarrow>
     case deref (objects f) b of Inl e \<Rightarrow> Some (Inl e) | Inr b_data \<Rightarrow>
     if parent x_data \<noteq> parent b_data
     then Option.bind (Union f x b) (\<lambda>r. case r of Inl e \<Rightarrow> Some (Inl e) | Inr (f, _) \<Rightarrow> UnionManyOld_loop f b xs)
     else UnionManyOld_loop f b xs)"

definition UnionManyOld :: "'a DisjointSetForest \<Rightarrow> 'a list \<Rightarrow> 'a DisjointSetForest outcome option" where
  "UnionManyOld f elements =
    (let f = fold (\<lambda>x f. emplace_counted f x) elements f in
     case elements of [] \<Rightarrow> Some (Inr f) | b # xs \<Rightarrow> UnionManyOld_loop f b xs)"

end
