(* ===== verification/DisjointSetForest_Proofs.thy ===== *)
theory DisjointSetForest_Proofs
  imports DisjointSetForest
begin

text \<open>
  The forest implements a partition.  \<open>repr\<close> is the representative relation along parent
  pointers; the invariant says that ranks increase along them and that a root of rank \<open>k\<close> has at
  least \<open>2 ^ k\<close> descendants; \<open>same_set\<close> is the partition as an equivalence.  One lemma per
  operation, the union-find interface with its interpretation, then the properties over all
  reachable forests.
\<close>


section \<open>Representatives\<close>

inductive repr :: "'a ObjectMap \<Rightarrow> 'a \<Rightarrow> 'a \<Rightarrow> bool" for objs where
  root: "objs x = Some d \<Longrightarrow> parent d = x \<Longrightarrow> repr objs x x"
| up: "objs x = Some d \<Longrightarrow> parent d \<noteq> x \<Longrightarrow> repr objs (parent d) r \<Longrightarrow> repr objs x r"

inductive_cases reprE: "repr objs x r"

lemma repr_root: "repr objs x r \<Longrightarrow> \<exists>d. objs r = Some d \<and> parent d = r"
  by (induction rule: repr.induct) auto

lemma repr_dom: "repr objs x r \<Longrightarrow> x \<in> dom objs"
  by (auto elim: reprE)

lemma repr_unique: "repr objs x r \<Longrightarrow> repr objs x s \<Longrightarrow> r = s"
proof (induction arbitrary: s rule: repr.induct)
  case (root x d)
  from root(3) show ?case by cases (use root in auto)
next
  case (up x d r)
  from up(5) show ?case by cases (use up in auto)
qed

lemma repr_self: "repr objs x r \<Longrightarrow> repr objs r r"
  using repr_root by (metis repr.root)

definition ranks_ok :: "'a ObjectMap \<Rightarrow> bool" where
  "ranks_ok objs = (finite (dom objs) \<and> (\<forall>x d. objs x = Some d \<longrightarrow>
    (\<exists>p. objs (parent d) = Some p \<and> (parent d \<noteq> x \<longrightarrow> rank d < rank p))))"

lemma ranks_parent:
  "ranks_ok objs \<Longrightarrow> objs x = Some d \<Longrightarrow> \<exists>p. objs (parent d) = Some p \<and> (parent d \<noteq> x \<longrightarrow> rank d < rank p)"
  unfolding ranks_ok_def by blast

lemma repr_rank:
  "repr objs x r \<Longrightarrow> ranks_ok objs \<Longrightarrow> objs x = Some d \<Longrightarrow> objs r = Some e \<Longrightarrow> x \<noteq> r \<Longrightarrow> rank d < rank e"
proof (induction arbitrary: d rule: repr.induct)
  case (up x d' r)
  then have "d' = d" by simp
  then obtain p where p: "objs (parent d) = Some p" "rank d < rank p"
    using ranks_parent [OF up(5,6)] up(2) by auto
  then show ?case using up \<open>d' = d\<close> by (cases "parent d = r") (auto intro: less_trans)
qed simp

lemma rank_induct [consumes 2, case_names less]:
  assumes "ranks_ok objs" "objs x = Some d"
    and step: "\<And>x d. objs x = Some d \<Longrightarrow> (\<And>y e. objs y = Some e \<Longrightarrow> rank d < rank e \<Longrightarrow> P y) \<Longrightarrow> P x"
  shows "P x"
proof -
  have fin: "finite (ran objs)" using assms(1) by (simp add: ranks_ok_def finite_ran)
  define M where "M = Max (rank ` ran objs)"
  have le: "rank e \<le> M" if "objs y = Some e" for y e
    using that fin by (auto simp: M_def ran_def intro!: Max_ge)
  show ?thesis using assms(2)
  proof (induction "M - rank d" arbitrary: x d rule: less_induct)
    case less
    show ?case
      by (rule step [OF less.prems]) (use less le in \<open>force intro: diff_less_mono2\<close>)
  qed
qed

lemma repr_exists:
  assumes "ranks_ok objs" "objs x = Some d"
  shows "\<exists>r. repr objs x r"
  using assms
proof (induction rule: rank_induct)
  case (less x d)
  then show ?case using ranks_parent [OF assms(1) less(1)]
    by (cases "parent d = x") (blast intro: repr.root, blast intro: repr.up)
qed

section \<open>Path compression\<close>

lemma set_parent_apply:
  "set_parent objs x p y = (if y = x then map_option (\<lambda>d. d\<lparr>parent := p\<rparr>) (objs x) else objs y)"
  by (simp add: set_parent_def)

lemma dom_set_parent [simp]: "dom (set_parent objs x p) = dom objs"
  by (auto simp: set_parent_def dom_def)

lemma repr_compress:
  assumes "repr objs x r"
  shows "repr (set_parent objs x r) a b \<longleftrightarrow> repr objs a b"
proof
  assume "repr objs a b"
  then show "repr (set_parent objs x r) a b"
  proof induction
    case (root a d)
    then show ?case using assms repr_unique [of objs x r x] repr.root [of objs a d]
      by (cases "a = x") (auto simp: set_parent_apply intro!: repr.root)
  next
    case (up a d b)
    show ?case
    proof (cases "a = x")
      case True
      then have b: "b = r" using repr_unique [of objs x r b] assms repr.up [OF up(1-3)] by simp
      obtain e where e: "objs r = Some e" "parent e = r" using repr_root [OF assms] by blast
      then have "r \<noteq> x" using up True by auto
      with e have "repr (set_parent objs x r) r r" by (auto simp: set_parent_apply intro!: repr.root)
      then show ?thesis using True up(1) b \<open>r \<noteq> x\<close>
        by - (rule repr.up [of _ _ "d\<lparr>parent := r\<rparr>"], simp_all add: set_parent_apply [of objs x r x])
    next
      case False
      with up show ?thesis by - (rule repr.up [of _ _ d], auto simp: set_parent_apply)
    qed
  qed
next
  assume "repr (set_parent objs x r) a b"
  then show "repr objs a b"
  proof induction
    case (root a d)
    then show ?case using assms
      by (cases "a = x") (auto simp: set_parent_apply intro: repr.root)
  next
    case (up a d b)
    show ?case
    proof (cases "a = x")
      case True
      then have "parent d = r" using up(1) by (auto simp: set_parent_apply)
      then have "b = r" using up(4) repr_unique [OF repr_self [OF assms]] by blast
      then show ?thesis using True assms by simp
    next
      case False
      with up show ?thesis by - (rule repr.up [of _ _ d], auto simp: set_parent_apply)
    qed
  qed
qed

lemma ranks_compress:
  assumes "ranks_ok objs" "repr objs x r"
  shows "ranks_ok (set_parent objs x r)"
proof -
  obtain e where e: "objs r = Some e" "parent e = r" using repr_root [OF assms(2)] by blast
  have fin: "finite (dom objs)" using assms(1) by (simp add: ranks_ok_def)
  have "\<exists>p. set_parent objs x r (parent d) = Some p \<and> (parent d \<noteq> y \<longrightarrow> rank d < rank p)"
    if "set_parent objs x r y = Some d" for y d
  proof (cases "y = x")
    case True
    with that obtain d0 where d0: "objs x = Some d0" "d = d0\<lparr>parent := r\<rparr>" by (auto simp: set_parent_apply)
    then show ?thesis using e repr_rank [OF assms(2,1) d0(1) e(1)] True by (auto simp: set_parent_apply)
  next
    case False
    then have "objs y = Some d" using that by (simp add: set_parent_apply)
    then obtain p where "objs (parent d) = Some p" "parent d \<noteq> y \<longrightarrow> rank d < rank p"
      using assms(1) by (auto simp: ranks_ok_def)
    then show ?thesis by (auto simp: set_parent_apply)
  qed
  with fin show ?thesis by (simp add: ranks_ok_def)
qed

definition rank_of :: "'a ObjectMap \<Rightarrow> 'a \<Rightarrow> nat option" where
  "rank_of objs x = map_option rank (objs x)"

lemma rank_of_set_parent [simp]: "rank_of (set_parent objs x p) = rank_of objs"
  by (rule ext) (simp add: rank_of_def set_parent_apply option.map_comp comp_def)

lemma InternalFindSet_spec:
  assumes "ranks_ok objs" "objs x = Some d"
  shows "\<exists>objs' r. InternalFindSet objs x = Some (Inr (objs', r)) \<and> repr objs x r \<and> ranks_ok objs' \<and>
    repr objs' = repr objs \<and> rank_of objs' = rank_of objs \<and> dom objs' = dom objs"
  using assms
proof (induction rule: rank_induct)
  case (less x d)
  show ?case
  proof (cases "parent d = x")
    case True
    with less(1) assms(1) show ?thesis
      by (subst InternalFindSet.simps) (auto simp: deref_def intro: repr.root)
  next
    case False
    obtain p where p: "objs (parent d) = Some p" "rank d < rank p"
      using ranks_parent [OF assms(1) less(1)] False by auto
    from less(2) [OF this] obtain objs' r where IH: "InternalFindSet objs (parent d) = Some (Inr (objs', r))"
      "repr objs (parent d) r" "ranks_ok objs'" "repr objs' = repr objs" "rank_of objs' = rank_of objs" "dom objs' = dom objs"
      by blast
    have xr: "repr objs x r" by (rule repr.up [OF less(1) False IH(2)])
    then obtain e where e: "objs' r = Some e" "parent e = r" using repr_root [of objs' x r] IH(4) by auto
    have run: "InternalFindSet objs x = Some (Inr (set_parent objs' x r, r))"
      using less(1) False p(1) IH(1) e by (subst InternalFindSet.simps) (simp add: deref_def FindData_def)
    have "repr (set_parent objs' x r) = repr objs" using repr_compress [of objs' x r] xr IH(4) by (auto simp: fun_eq_iff)
    moreover have "ranks_ok (set_parent objs' x r)" using ranks_compress [OF IH(3)] xr IH(4) by simp
    ultimately show ?thesis using run xr IH(5,6) by simp
  qed
qed


section \<open>Linking\<close>

lemma repr_link:
  assumes "repr objs a a" "repr objs b b" "a \<noteq> b"
  shows "repr (set_parent objs a b) u v \<longleftrightarrow> (if repr objs u a then v = b else repr objs u v)"
proof
  assume "repr (set_parent objs a b) u v"
  then show "if repr objs u a then v = b else repr objs u v"
  proof induction
    case (root u d)
    then have "u \<noteq> a" using assms(3) by (auto simp: set_parent_apply)
    then have u: "repr objs u u" using root by (auto simp: set_parent_apply intro: repr.root)
    then show ?case using \<open>u \<noteq> a\<close> repr_unique [OF u] by auto
  next
    case (up u d v)
    show ?case
    proof (cases "u = a")
      case True
      then have "parent d = b" using up(1) by (auto simp: set_parent_apply)
      moreover have "\<not> repr objs b a" using assms repr_unique [of objs b a b] by auto
      ultimately show ?thesis using up(4) True assms repr_unique [of objs b b v] by auto
    next
      case False
      then have d: "objs u = Some d" using up(1) by (simp add: set_parent_apply)
      have "repr objs u w \<longleftrightarrow> repr objs (parent d) w" for w
        using d up(2) by (auto elim: repr.cases intro: repr.up)
      then show ?thesis using up(4) by simp
    qed
  qed
next
  assume uv: "if repr objs u a then v = b else repr objs u v"
  obtain e where e: "objs b = Some e" "parent e = b" using repr_root [OF assms(2)] by blast
  then have bb: "repr (set_parent objs a b) b b" using assms(3) by (auto simp: set_parent_apply intro!: repr.root)
  obtain da where da: "objs a = Some da" using repr_dom [OF assms(1)] by auto
  have ab: "repr (set_parent objs a b) a b"
    using da assms(3) bb by - (rule repr.up [of _ _ "da\<lparr>parent := b\<rparr>"], simp_all add: set_parent_apply [of objs a b a])
  have to_b: "repr (set_parent objs a b) u b" if "repr objs u w" "w = a" for u w
    using that
  proof induction
    case (root u d)
    then show ?case using ab by simp
  next
    case (up u d w)
    show ?case
    proof (cases "u = a")
      case False
      with up show ?thesis by - (rule repr.up [of _ _ d], simp_all add: set_parent_apply [of objs a b u])
    qed (use ab in simp)
  qed
  have other: "repr (set_parent objs a b) u v" if "repr objs u v" "\<not> repr objs u a" for u v
    using that
  proof induction
    case (root u d)
    then have "u \<noteq> a" using repr.root [of objs u d] root by auto
    then show ?case using root by - (rule repr.root [of _ _ d], simp_all add: set_parent_apply [of objs a b u])
  next
    case (up u d w)
    then have "u \<noteq> a" using assms(1) by auto
    moreover have "\<not> repr objs (parent d) a" using up repr.up [of objs u d a] by blast
    ultimately show ?case using up by - (rule repr.up [of _ _ d], simp_all add: set_parent_apply [of objs a b u])
  qed
  show "repr (set_parent objs a b) u v"
    using uv to_b other by (cases "repr objs u a") auto
qed

lemma repr_same_parents:
  assumes "repr objs u v" and par: "\<And>y. map_option parent (objs' y) = map_option parent (objs y)"
  shows "repr objs' u v"
  using assms(1)
proof induction
  case (root u d)
  then obtain d' where "objs' u = Some d'" "parent d' = u" using par [of u] by auto
  then show ?case using repr.root [of objs' u d'] by simp
next
  case (up u d v)
  then obtain d' where "objs' u = Some d'" "parent d' = parent d" using par [of u] by auto
  then show ?case using up by - (rule repr.up [of _ _ d'], simp_all)
qed

lemma repr_incr_rank: "repr (incr_rank objs x) = repr objs"
proof -
  have "map_option parent (incr_rank objs x y) = map_option parent (objs y)" for y
    by (simp add: incr_rank_def option.map_comp comp_def)
  then show ?thesis
    using repr_same_parents [of objs _ _ "incr_rank objs x"] repr_same_parents [of "incr_rank objs x" _ _ objs]
    by (auto simp: fun_eq_iff)
qed

section \<open>The invariant\<close>

definition class_of :: "'a ObjectMap \<Rightarrow> 'a \<Rightarrow> 'a set" where
  "class_of objs r = {x. repr objs x r}"

definition sizes_ok :: "'a ObjectMap \<Rightarrow> bool" where
  "sizes_ok objs = (\<forall>r d. objs r = Some d \<longrightarrow> parent d = r \<longrightarrow> 2 ^ rank d \<le> card (class_of objs r))"

definition roots :: "'a ObjectMap \<Rightarrow> 'a set" where
  "roots objs = {r. repr objs r r}"

definition uf_ok :: "'a ObjectMap \<Rightarrow> bool" where
  "uf_ok objs = (ranks_ok objs \<and> sizes_ok objs)"

definition forest_ok :: "'a DisjointSetForest \<Rightarrow> bool" where
  "forest_ok f = (uf_ok (objects f) \<and> num_disjoint_sets f = int (card (roots (objects f))))"

text \<open>The equivalence the forest stands for.\<close>

definition same_set :: "'a ObjectMap \<Rightarrow> ('a \<times> 'a) set" where
  "same_set objs = {(x, y). \<exists>r. repr objs x r \<and> repr objs y r}"

lemma root_iff: "repr objs r r \<longleftrightarrow> (\<exists>d. objs r = Some d \<and> parent d = r)"
  using repr_root repr.root by metis

lemma sizes_ok_iff: "sizes_ok objs \<longleftrightarrow>
  (\<forall>r k. rank_of objs r = Some k \<longrightarrow> repr objs r r \<longrightarrow> 2 ^ k \<le> card (class_of objs r))"
  by (auto simp: sizes_ok_def root_iff rank_of_def)

lemma sizes_ok_cong: "repr objs' = repr objs \<Longrightarrow> rank_of objs' = rank_of objs \<Longrightarrow> sizes_ok objs' = sizes_ok objs"
  by (simp add: sizes_ok_iff class_of_def)

lemma find_spec:
  assumes "uf_ok objs" "x \<in> dom objs"
  shows "\<exists>objs' r d. InternalFindSet objs x = Some (Inr (objs', r)) \<and> repr objs x r \<and> uf_ok objs' \<and>
    repr objs' = repr objs \<and> rank_of objs' = rank_of objs \<and> dom objs' = dom objs \<and> objs' r = Some d \<and> parent d = r"
proof -
  obtain d where "objs x = Some d" using assms(2) by auto
  with InternalFindSet_spec [of objs x d] assms(1) obtain objs' r where
    r: "InternalFindSet objs x = Some (Inr (objs', r))" "repr objs x r" "ranks_ok objs'"
    "repr objs' = repr objs" "rank_of objs' = rank_of objs" "dom objs' = dom objs" by (auto simp: uf_ok_def)
  moreover have "sizes_ok objs'" using sizes_ok_cong [OF r(4,5)] assms(1) by (simp add: uf_ok_def)
  moreover obtain d where "objs' r = Some d" "parent d = r" using repr_root [of objs' x r] r(2,4) by auto
  ultimately show ?thesis by (auto simp: uf_ok_def)
qed

lemma finite_class: "ranks_ok objs \<Longrightarrow> finite (class_of objs r)"
  by (rule finite_subset [of _ "dom objs"]) (auto simp: class_of_def ranks_ok_def dest: repr_dom)

lemma finite_roots: "ranks_ok objs \<Longrightarrow> finite (roots objs)"
  by (rule finite_subset [of _ "dom objs"]) (auto simp: roots_def ranks_ok_def dest: repr_dom)

lemma emplace_repr:
  assumes "objs x = None" "ranks_ok objs"
  shows "repr (objs(x \<mapsto> make_ObjectData x)) u v \<longleftrightarrow> (if u = x then v = x else repr objs u v)"
proof -
  let ?o = "objs(x \<mapsto> make_ObjectData x)"
  have xx: "repr ?o x x" by (rule repr.root [of _ _ "make_ObjectData x"]) (simp_all add: make_ObjectData_def)
  have 1: "repr ?o u v" if "repr objs u v" for u v using that
  proof induction
    case (root u d)
    then show ?case using assms(1) by - (rule repr.root [of _ _ d], auto)
  next
    case (up u d v)
    then show ?case using assms(1) by - (rule repr.up [of _ _ d], auto)
  qed
  have 2: "if u = x then v = x else repr objs u v" if "repr ?o u v" for u v using that
  proof induction
    case (root u d)
    then show ?case by (auto intro: repr.root split: if_splits)
  next
    case (up u d v)
    show ?case
    proof (cases "u = x")
      case True
      then show ?thesis using up(1,2) by (auto simp: make_ObjectData_def)
    next
      case False
      then have u: "objs u = Some d" using up(1) by simp
      then have "parent d \<noteq> x" using ranks_parent [OF assms(2) u] assms(1) by auto
      then show ?thesis using up False u by (auto intro: repr.up)
    qed
  qed
  show ?thesis using xx 1 2 repr_unique [OF xx] assms(1) repr_dom by (auto split: if_splits)
qed


section \<open>Inserting a singleton\<close>

lemma emplace_roots:
  assumes "objs x = None" "ranks_ok objs"
  shows "roots (objs(x \<mapsto> make_ObjectData x)) = insert x (roots objs)"
  using emplace_repr [OF assms] by (auto simp: roots_def)

lemma emplace_class:
  assumes "objs x = None" "ranks_ok objs"
  shows "class_of (objs(x \<mapsto> make_ObjectData x)) r = (if r = x then {x} else class_of objs r)"
proof -
  have "\<not> repr objs u x" for u using assms(1) repr_root [of objs u x] by auto
  moreover have "\<not> repr objs x r" for r using assms(1) repr_dom [of objs x] by auto
  ultimately show ?thesis using emplace_repr [OF assms] by (auto simp: class_of_def)
qed

lemma emplace_uf_ok:
  assumes "objs x = None" "uf_ok objs"
  shows "uf_ok (objs(x \<mapsto> make_ObjectData x))"
proof -
  have r: "ranks_ok objs" and s: "sizes_ok objs" using assms(2) by (simp_all add: uf_ok_def)
  have "\<exists>p. (objs(x \<mapsto> make_ObjectData x)) (parent d) = Some p \<and> (parent d \<noteq> y \<longrightarrow> rank d < rank p)"
    if "(objs(x \<mapsto> make_ObjectData x)) y = Some d" for y d
  proof (cases "y = x")
    case True
    then show ?thesis using that by (auto simp: make_ObjectData_def)
  next
    case False
    then have y: "objs y = Some d" using that by simp
    then have "parent d \<noteq> x" using ranks_parent [OF r y] assms(1) by auto
    then show ?thesis using ranks_parent [OF r y] by simp
  qed
  then have "ranks_ok (objs(x \<mapsto> make_ObjectData x))" using r by (simp add: ranks_ok_def)
  moreover have "sizes_ok (objs(x \<mapsto> make_ObjectData x))"
    unfolding sizes_ok_def emplace_class [OF assms(1) r]
    using s by (auto simp: sizes_ok_def make_ObjectData_def)
  ultimately show ?thesis by (simp add: uf_ok_def)
qed

lemma emplace_same_set:
  assumes "objs x = None" "ranks_ok objs"
  shows "same_set (objs(x \<mapsto> make_ObjectData x)) = insert (x, x) (same_set objs)"
proof -
  have "\<not> repr objs u x" for u using assms(1) repr_root [of objs u x] by auto
  moreover have "\<not> repr objs x r" for r using assms(1) repr_dom [of objs x] by auto
  ultimately show ?thesis by (auto simp: same_set_def emplace_repr [OF assms])
qed

lemma same_set_refl: "ranks_ok objs \<Longrightarrow> x \<in> dom objs \<Longrightarrow> (x, x) \<in> same_set objs"
  using repr_exists by (fastforce simp: same_set_def)

lemma emplace_counted_spec:
  assumes "forest_ok f"
  shows "forest_ok (emplace_counted f x) \<and> dom (objects (emplace_counted f x)) = insert x (dom (objects f)) \<and>
    same_set (objects (emplace_counted f x)) = insert (x, x) (same_set (objects f)) \<and>
    notfound_value (emplace_counted f x) = notfound_value f"
proof (cases "objects f x")
  case None
  have r: "ranks_ok (objects f)" using assms by (simp add: forest_ok_def uf_ok_def)
  have "x \<notin> roots (objects f)" using None repr_dom by (force simp: roots_def)
  then show ?thesis using None assms emplace_uf_ok [of "objects f" x] finite_roots [OF r]
    by (simp add: emplace_counted_def try_emplace_def forest_ok_def emplace_roots [OF None r] emplace_same_set [OF None r])
next
  case (Some d)
  then have "(x, x) \<in> same_set (objects f)" using assms by (auto simp: forest_ok_def uf_ok_def intro: same_set_refl)
  with Some assms show ?thesis by (auto simp: emplace_counted_def try_emplace_def insert_absorb)
qed

section \<open>Linking two roots\<close>

definition merge :: "('a \<times> 'a) set \<Rightarrow> 'a \<Rightarrow> 'a \<Rightarrow> ('a \<times> 'a) set" where
  "merge E x y = E \<union> (E `` {x} \<times> E `` {y}) \<union> (E `` {y} \<times> E `` {x})"

lemma link_roots:
  assumes "repr objs a a" "repr objs b b" "a \<noteq> b"
  shows "roots (set_parent objs a b) = roots objs - {a}"
proof (rule set_eqI)
  fix u
  have "repr objs u a \<Longrightarrow> u = b \<Longrightarrow> False" using assms repr_unique [of objs b a b] by auto
  moreover have "repr objs u u \<Longrightarrow> repr objs u a \<Longrightarrow> u = a" using repr_unique by metis
  ultimately show "u \<in> roots (set_parent objs a b) \<longleftrightarrow> u \<in> roots objs - {a}"
    using assms(1) by (auto simp: roots_def repr_link [OF assms])
qed

lemma link_same_set:
  assumes "repr objs a a" "repr objs b b" "a \<noteq> b"
  shows "same_set (set_parent objs a b) = merge (same_set objs) a b"
proof -
  have sa: "same_set objs `` {a} = {u. repr objs u a}" "same_set objs `` {b} = {u. repr objs u b}"
    using assms repr_unique by (fastforce simp: same_set_def)+
  have excl: "repr objs u a \<Longrightarrow> repr objs u b \<Longrightarrow> False" for u using assms(3) repr_unique by metis
  have mem: "(u, v) \<in> merge (same_set objs) a b \<longleftrightarrow> (\<exists>r. repr objs u r \<and> repr objs v r) \<or>
    repr objs u a \<and> repr objs v b \<or> repr objs u b \<and> repr objs v a" for u v
    unfolding merge_def Un_iff mem_Times_iff fst_conv snd_conv sa by (auto simp: same_set_def)
  show ?thesis
  proof (intro set_eqI iffI; clarify)
    fix u v
    assume "(u, v) \<in> same_set (set_parent objs a b)"
    then show "(u, v) \<in> merge (same_set objs) a b"
      unfolding mem by (auto simp: same_set_def repr_link [OF assms] split: if_splits)
  next
    fix u v
    assume "(u, v) \<in> merge (same_set objs) a b"
    then consider (same) r where "repr objs u r" "repr objs v r" | (ab) "repr objs u a" "repr objs v b"
      | (ba) "repr objs u b" "repr objs v a" unfolding mem by blast
    then show "(u, v) \<in> same_set (set_parent objs a b)"
    proof cases
      case same
      then have "repr objs u a \<longleftrightarrow> r = a" "repr objs v a \<longleftrightarrow> r = a" using repr_unique by metis+
      with same show ?thesis by (auto simp: same_set_def repr_link [OF assms])
    qed (use excl in \<open>auto simp: same_set_def repr_link [OF assms]\<close>)
  qed
qed

lemma link_class:
  assumes "repr objs a a" "repr objs b b" "a \<noteq> b"
  shows "class_of (set_parent objs a b) r =
    (if r = b then class_of objs a \<union> class_of objs b else if r = a then {} else class_of objs r)"
  using repr_unique [of objs] assms(3) by (auto simp: class_of_def repr_link [OF assms])

lemma class_disjoint: "a \<noteq> b \<Longrightarrow> class_of objs a \<inter> class_of objs b = {}"
  by (auto simp: class_of_def dest: repr_unique)

lemma link_ranks:
  assumes "ranks_ok objs" "objs a = Some da" "parent da = a" "objs b = Some db" "parent db = b" "a \<noteq> b"
    "rank da < rank db"
  shows "ranks_ok (set_parent objs a b)"
proof -
  have "\<exists>p. set_parent objs a b (parent d) = Some p \<and> (parent d \<noteq> y \<longrightarrow> rank d < rank p)"
    if "set_parent objs a b y = Some d" for y d
  proof (cases "y = a")
    case True
    then have "d = da\<lparr>parent := b\<rparr>" using that assms(2) by (simp add: set_parent_apply)
    then show ?thesis using assms by (auto simp: set_parent_apply)
  next
    case False
    then have y: "objs y = Some d" using that by (simp add: set_parent_apply)
    then show ?thesis using ranks_parent [OF assms(1) y] by (auto simp: set_parent_apply)
  qed
  then show ?thesis using assms(1) by (simp add: ranks_ok_def)
qed

lemma class_incr_rank: "class_of (incr_rank objs x) = class_of objs"
  by (simp add: class_of_def repr_incr_rank fun_eq_iff)

lemma dom_incr_rank: "dom (incr_rank objs x) = dom objs"
  by (auto simp: incr_rank_def dom_def)

text \<open>
  \<open>Link\<close>, from two distinct roots: the classes are merged, one root less, and the rank of the
  surviving root still bounds its class from below.
\<close>

lemma link_step:
  assumes "uf_ok objs" "objs a = Some da" "parent da = a" "objs b = Some db" "parent db = b" "a \<noteq> b"
    and rk: "rank da < rank db"
  shows "uf_ok (set_parent objs a b)"
proof -
  have a: "repr objs a a" and b: "repr objs b b" using assms by (auto simp: root_iff)
  have r: "ranks_ok objs" and s: "sizes_ok objs" using assms(1) by (simp_all add: uf_ok_def)
  have "sizes_ok (set_parent objs a b)"
    unfolding sizes_ok_iff rank_of_set_parent link_class [OF a b assms(6)] repr_link [OF a b assms(6)]
  proof clarify
    fix v k assume k: "rank_of objs v = Some k" "if repr objs v a then v = b else repr objs v v"
    have ba: "\<not> repr objs b a" using b assms(6) repr_unique by metis
    then have v: "repr objs v v" "v \<noteq> a" using k(2) a b by (auto split: if_splits)
    have "2 ^ k \<le> card (class_of objs v)" using s k(1) v(1) by (auto simp: sizes_ok_iff)
    moreover have "card (class_of objs b) \<le> card (class_of objs a \<union> class_of objs b)"
      by (rule card_mono) (simp_all add: finite_class [OF r])
    ultimately show "2 ^ k \<le> card (if v = b then class_of objs a \<union> class_of objs b else if v = a then {} else class_of objs v)"
      using v(2) by auto
  qed
  then show ?thesis using link_ranks [OF r assms(2-7)] by (simp add: uf_ok_def)
qed

lemma link_equal_step:
  assumes "uf_ok objs" "objs a = Some da" "parent da = a" "objs b = Some db" "parent db = b" "a \<noteq> b"
    and rk: "rank da = rank db"
  shows "uf_ok (incr_rank (set_parent objs a b) b)"
proof -
  have a: "repr objs a a" and b: "repr objs b b" using assms by (auto simp: root_iff)
  have r: "ranks_ok objs" and s: "sizes_ok objs" using assms(1) by (simp_all add: uf_ok_def)
  let ?o = "incr_rank (set_parent objs a b) b"
  have "\<exists>p. ?o (parent d) = Some p \<and> (parent d \<noteq> y \<longrightarrow> rank d < rank p)" if y: "?o y = Some d" for y d
  proof -
    consider "y = a" | "y = b" | "y \<noteq> a" "y \<noteq> b" by blast
    then show ?thesis
    proof cases
      case 1
      then have "d = da\<lparr>parent := b\<rparr>" using y assms by (auto simp: incr_rank_def set_parent_def)
      then show ?thesis using assms by (auto simp: incr_rank_def set_parent_def)
    next
      case 2
      then have "d = db\<lparr>rank := rank db + 1\<rparr>" using y assms by (auto simp: incr_rank_def set_parent_def)
      then show ?thesis using assms 2 y by (auto simp: incr_rank_def set_parent_def)
    next
      case 3
      then have "objs y = Some d" using y by (simp add: incr_rank_def set_parent_def)
      from ranks_parent [OF r this] show ?thesis by (auto simp: incr_rank_def set_parent_def)
    qed
  qed
  moreover have "finite (dom ?o)" using r by (simp add: dom_incr_rank ranks_ok_def)
  ultimately have "ranks_ok ?o" by (simp add: ranks_ok_def)
  moreover have "sizes_ok ?o"
    unfolding sizes_ok_iff class_incr_rank repr_incr_rank link_class [OF a b assms(6)] repr_link [OF a b assms(6)]
  proof clarify
    fix v k assume k: "rank_of ?o v = Some k" "if repr objs v a then v = b else repr objs v v"
    have ba: "\<not> repr objs b a" using b assms(6) repr_unique by metis
    then have v: "repr objs v v" "v \<noteq> a" using k(2) a b by (auto split: if_splits)
    show "2 ^ k \<le> card (if v = b then class_of objs a \<union> class_of objs b else if v = a then {} else class_of objs v)"
    proof (cases "v = b")
      case True
      then have "k = rank db + 1" using k(1) assms(4,6) by (auto simp: rank_of_def incr_rank_def set_parent_def)
      moreover have "2 ^ rank da \<le> card (class_of objs a)" "2 ^ rank db \<le> card (class_of objs b)"
        using s assms by (auto simp: sizes_ok_def)
      ultimately show ?thesis using True rk class_disjoint [OF assms(6)]
        by (simp add: card_Un_disjoint finite_class [OF r])
    next
      case False
      then have "rank_of objs v = Some k" using k(1) v(2) by (simp add: rank_of_def incr_rank_def set_parent_def)
      then show ?thesis using False v s by (auto simp: sizes_ok_iff)
    qed
  qed
  ultimately show ?thesis by (simp add: uf_ok_def)
qed

lemma same_set_incr_rank: "same_set (incr_rank objs x) = same_set objs"
  by (simp add: same_set_def repr_incr_rank)

lemma roots_incr_rank: "roots (incr_rank objs x) = roots objs"
  by (simp add: roots_def repr_incr_rank)

lemma merge_commute: "merge E x y = merge E y x"
  by (auto simp: merge_def)

lemma Link_spec:
  assumes "uf_ok objs" "objs a = Some da" "parent da = a" "objs b = Some db" "parent db = b" "a \<noteq> b"
  shows "\<exists>objs'. Link objs a b = Inr objs' \<and> uf_ok objs' \<and> same_set objs' = merge (same_set objs) a b \<and>
    dom objs' = dom objs \<and> card (roots objs') = card (roots objs) - 1 \<and> 0 < card (roots objs)"
proof -
  have a: "repr objs a a" and b: "repr objs b b" using assms by (auto simp: root_iff)
  have fin: "finite (roots objs)" using assms(1) by (simp add: uf_ok_def finite_roots)
  have ab: "a \<in> roots objs" "b \<in> roots objs" using a b by (simp_all add: roots_def)
  then have pos: "0 < card (roots objs)" using fin by (auto simp: card_gt_0_iff)
  have b_a: "b \<noteq> a" using assms(6) by simp
  consider "rank da < rank db" | "rank db < rank da" | "rank da = rank db" by linarith
  then show ?thesis
  proof cases
    case 1
    then show ?thesis using assms link_step [OF assms 1] pos ab
      by (auto simp: Link_def deref_def link_same_set [OF a b assms(6)] link_roots [OF a b assms(6)])
  next
    case 2
    then show ?thesis using assms link_step [OF assms(1,4,5,2,3) b_a 2] pos ab
      by (auto simp: Link_def deref_def Let_def link_same_set [OF b a b_a] link_roots [OF b a b_a] merge_commute)
  next
    case 3
    then show ?thesis using assms link_equal_step [OF assms(1,4,5,2,3) b_a] pos ab
      by (auto simp: Link_def deref_def Let_def same_set_incr_rank roots_incr_rank dom_incr_rank link_same_set [OF b a b_a] link_roots [OF b a b_a] merge_commute)
  qed
qed


section \<open>Union and find\<close>

lemma same_set_sym: "(x, y) \<in> same_set objs \<Longrightarrow> (y, x) \<in> same_set objs"
  by (auto simp: same_set_def)

lemma same_set_trans: "(x, y) \<in> same_set objs \<Longrightarrow> (y, z) \<in> same_set objs \<Longrightarrow> (x, z) \<in> same_set objs"
  by (auto simp: same_set_def dest: repr_unique)

lemma same_set_repr: "repr objs x r \<Longrightarrow> repr objs y s \<Longrightarrow> (x, y) \<in> same_set objs \<longleftrightarrow> r = s"
  by (auto simp: same_set_def dest: repr_unique)

lemma same_set_Image: "repr objs x r \<Longrightarrow> same_set objs `` {x} = class_of objs r"
  by (auto simp: same_set_def class_of_def dest: repr_unique)

lemma same_set_Image_repr: "repr objs x r \<Longrightarrow> same_set objs `` {x} = same_set objs `` {r}"
  using same_set_Image [of objs x r] same_set_Image [OF repr_self, of objs x r] by simp

lemma merge_repr:
  "repr objs x r \<Longrightarrow> repr objs y s \<Longrightarrow> merge (same_set objs) r s = merge (same_set objs) x y"
  by (simp add: merge_def same_set_Image_repr)

lemma merge_same: "(x, y) \<in> same_set objs \<Longrightarrow> merge (same_set objs) x y = same_set objs"
  using same_set_trans [of _ _ objs] same_set_sym [of _ _ objs] unfolding merge_def by blast

lemma UnionHelper_spec:
  assumes "forest_ok f" "x \<in> dom (objects f)"
  shows "\<exists>f' b. UnionHelper f x y = Some (Inr (f', b)) \<and> forest_ok f' \<and>
    dom (objects f') = insert y (dom (objects f)) \<and> notfound_value f' = notfound_value f \<and>
    same_set (objects f') = merge (insert (y, y) (same_set (objects f))) x y \<and>
    b = ((x, y) \<notin> insert (y, y) (same_set (objects f)))"
proof -
  define g where "g = emplace_counted f y"
  have g: "uf_ok (objects g)" "num_disjoint_sets g = int (card (roots (objects g)))"
    "dom (objects g) = insert y (dom (objects f))" "same_set (objects g) = insert (y, y) (same_set (objects f))"
    "notfound_value g = notfound_value f"
    using emplace_counted_spec [OF assms(1), of y] by (auto simp: g_def forest_ok_def)
  obtain o1 r d where 1: "InternalFindSet (objects g) x = Some (Inr (o1, r))" "repr (objects g) x r" "uf_ok o1"
    "repr o1 = repr (objects g)" "dom o1 = dom (objects g)" "o1 r = Some d" "parent d = r"
    using find_spec [OF g(1), of x] g(3) assms(2) by blast
  obtain o2 s e where 2: "InternalFindSet o1 y = Some (Inr (o2, s))" "repr o1 y s" "uf_ok o2"
    "repr o2 = repr o1" "dom o2 = dom o1" "o2 s = Some e" "parent e = s"
    using find_spec [OF 1(3), of y] 1(5) g(3) by blast
  have ss: "same_set o2 = same_set (objects g)" and rts: "roots o2 = roots (objects g)"
    using 1(4) 2(4) by (simp_all add: same_set_def roots_def)
  obtain d' where d': "o2 r = Some d'" "parent d' = r"
    using repr_root [of o2 x r] 1(2,4) 2(4) by auto
  have xr: "repr (objects g) x r" "repr (objects g) y s" using 1(2,4) 2(2) by simp_all
  note sm = same_set_repr [OF xr]
  have run: "UnionHelper f x y = Some (if r \<noteq> s
      then andThen (Link o2 r s) (\<lambda>objs. Inr (g\<lparr>objects := objs, num_disjoint_sets := num_disjoint_sets g - 1\<rparr>, True))
      else Inr (g\<lparr>objects := o2\<rparr>, False))"
    using 1(1) 2(1) d' 2(6,7) by (simp add: UnionHelper_def g_def [symmetric] Let_def deref_def)
  show ?thesis
  proof (cases "r = s")
    case True
    then have "(x, y) \<in> same_set (objects g)" by (simp add: sm)
    then have "(x, y) \<in> insert (y, y) (same_set (objects f))" "same_set o2 = merge (insert (y, y) (same_set (objects f))) x y"
      using merge_same [of x y "objects g"] by (simp_all add: g(4) ss)
    then show ?thesis using run True 2(3,5) 1(5) g(1,2,3,5)
      by (auto simp: forest_ok_def rts)
  next
    case False
    from Link_spec [OF 2(3) d' 2(6,7) False] obtain o3 where 3: "Link o2 r s = Inr o3" "uf_ok o3"
      "same_set o3 = merge (same_set o2) r s" "dom o3 = dom o2" "card (roots o3) = card (roots o2) - 1" "0 < card (roots o2)"
      by blast
    have "same_set o3 = merge (same_set (objects g)) x y" using merge_repr [OF xr] 3(3) ss by simp
    moreover have "(x, y) \<notin> same_set (objects g)" using False sm by simp
    ultimately show ?thesis using run False 3(1,2,4-) 2(5) 1(5) g
      by (auto simp add: forest_ok_def rts of_nat_diff)
  qed
qed

lemma Union_spec:
  assumes "forest_ok f"
  shows "\<exists>f' b. Union f x y = Some (Inr (f', b)) \<and> forest_ok f' \<and>
    dom (objects f') = insert y (insert x (dom (objects f))) \<and> notfound_value f' = notfound_value f \<and>
    same_set (objects f') = merge (insert (y, y) (insert (x, x) (same_set (objects f)))) x y \<and>
    b = ((x, y) \<notin> insert (y, y) (insert (x, x) (same_set (objects f))))"
  using UnionHelper_spec [of "emplace_counted f x" x y] emplace_counted_spec [OF assms, of x]
  by (simp add: Union_def)

lemma FindSet_spec:
  assumes "forest_ok f"
  shows "\<exists>f' r. FindSet f x = Some (Inr (f', r)) \<and> forest_ok f' \<and> dom (objects f') = dom (objects f) \<and>
    notfound_value f' = notfound_value f \<and> repr (objects f') = repr (objects f) \<and>
    (if x \<in> dom (objects f) then repr (objects f) x r else r = notfound_value f \<and> f' = f)"
proof (cases "objects f x")
  case None
  then show ?thesis using assms by (auto simp: FindSet_def)
next
  case (Some d)
  obtain o1 r d where 1: "InternalFindSet (objects f) x = Some (Inr (o1, r))" "repr (objects f) x r" "uf_ok o1"
    "repr o1 = repr (objects f)" "dom o1 = dom (objects f)" "o1 r = Some d" "parent d = r"
    using find_spec [of "objects f" x] assms Some by (auto simp: forest_ok_def)
  then show ?thesis using Some assms by (auto simp: FindSet_def deref_def forest_ok_def roots_def)
qed

lemma FindSet_compresses:
  assumes "forest_ok f" "FindSet f x = Some (Inr (f', r))" "x \<in> dom (objects f)"
  shows "map_option parent (objects f' x) = Some r"
proof -
  have rk: "ranks_ok (objects f)" using assms(1) by (auto simp: forest_ok_def uf_ok_def)
  obtain d where d: "objects f x = Some d" using assms(3) by auto
  show ?thesis
  proof (cases "parent d = x")
    case True
    with d assms(2) show ?thesis
      by (simp add: FindSet_def deref_def InternalFindSet.simps [of _ x])
  next
    case False
    obtain p where p: "objects f (parent d) = Some p" using ranks_parent [OF rk d] by auto
    obtain o1 q where 1: "InternalFindSet (objects f) (parent d) = Some (Inr (o1, q))" "repr (objects f) (parent d) q"
      "repr o1 = repr (objects f)" "dom o1 = dom (objects f)"
      using InternalFindSet_spec [OF rk p] by blast
    obtain e where e: "o1 q = Some e" "parent e = q" using repr_root [of o1 "parent d" q] 1(2,3) by auto
    obtain c where c: "o1 x = Some c" using 1(4) assms(3) by auto
    have "InternalFindSet (objects f) x = Some (Inr (set_parent o1 x q, q))"
      using d False p 1(1) e by (subst InternalFindSet.simps) (simp add: deref_def FindData_def)
    with assms(2) d e c show ?thesis
      by (auto simp: FindSet_def deref_def set_parent_apply split: if_splits)
  qed
qed

lemma MakeSet_emplace: "MakeSet f x = (emplace_counted f x, x \<notin> dom (objects f))"
  by (auto simp: MakeSet_def emplace_counted_def try_emplace_def split: option.split)

lemma IsSingleton_spec:
  assumes "forest_ok f"
  shows "IsSingleton f x \<longleftrightarrow> (\<forall>y. (x, y) \<in> same_set (objects f) \<longrightarrow> y = x)"
proof (cases "objects f x")
  case None
  then have "\<not> repr (objects f) x r" for r using repr_dom [of "objects f" x r] by auto
  with None show ?thesis by (simp add: IsSingleton_def same_set_def)
next
  case (Some d)
  have r: "ranks_ok (objects f)" and s: "sizes_ok (objects f)" using assms by (auto simp: forest_ok_def uf_ok_def)
  show ?thesis
  proof
    assume "IsSingleton f x"
    then have d: "parent d = x" "rank d = 0" using Some by (auto simp: IsSingleton_def)
    have xx: "repr (objects f) x x" using Some d by (auto simp: root_iff)
    show "\<forall>y. (x, y) \<in> same_set (objects f) \<longrightarrow> y = x"
    proof (intro allI impI)
      fix y assume "(x, y) \<in> same_set (objects f)"
      then have y: "repr (objects f) y x" using repr_unique [OF xx] by (auto simp: same_set_def)
      then obtain e where "objects f y = Some e" using repr_dom by fastforce
      with repr_rank [OF y r this Some] d show "y = x" by auto
    qed
  next
    assume all: "\<forall>y. (x, y) \<in> same_set (objects f) \<longrightarrow> y = x"
    obtain q where q: "repr (objects f) x q" using repr_exists [OF r Some] by blast
    then have "(x, q) \<in> same_set (objects f)" using repr_self [OF q] by (auto simp: same_set_def)
    then have xx: "repr (objects f) x x" using all q by auto
    then have "class_of (objects f) x = {x}" using all by (auto simp: class_of_def same_set_def)
    moreover have p: "parent d = x" using xx Some by (auto simp: root_iff)
    ultimately have "2 ^ rank d \<le> card {x}" using s Some by (auto simp: sizes_ok_def)
    then have "rank d < 1" using less_le_trans [OF less_exp, of "rank d" "card {x}"] by simp
    then have "rank d = 0" by simp
    then show "IsSingleton f x" using Some p by (simp add: IsSingleton_def)
  qed
qed


section \<open>Many unions\<close>

lemma repr_of_parent: "objs u = Some d \<Longrightarrow> repr objs (parent d) r \<Longrightarrow> repr objs u r"
  by (cases "parent d = u") (auto intro: repr.up)

lemma same_parent_same_set:
  assumes "ranks_ok objs" "objs u = Some d" "objs v = Some e" "parent d = parent e"
  shows "(u, v) \<in> same_set objs"
proof -
  obtain p where "objs (parent d) = Some p" using ranks_parent [OF assms(1,2)] by blast
  then obtain r where "repr objs (parent d) r" using repr_exists [OF assms(1)] by blast
  then have "repr objs u r" "repr objs v r"
    using repr_of_parent [of objs u d r] repr_of_parent [of objs v e r] assms by simp_all
  then show ?thesis by (auto simp: same_set_def)
qed

definition merge_all :: "('a \<times> 'a) set \<Rightarrow> 'a \<Rightarrow> 'a list \<Rightarrow> ('a \<times> 'a) set" where
  "merge_all E b xs = fold (\<lambda>x E. merge (insert (x, x) E) b x) xs E"

lemma UnionMany_loop_spec:
  assumes "forest_ok f" "b \<in> dom (objects f)"
  shows "\<exists>f'. UnionMany_loop f b xs = Some (Inr f') \<and> forest_ok f' \<and>
    same_set (objects f') = merge_all (same_set (objects f)) b xs"
  using assms
proof (induction xs arbitrary: f)
  case Nil
  then show ?case by (simp add: merge_all_def)
next
  case (Cons x xs)
  obtain db where db: "objects f b = Some db" using Cons.prems(2) by auto
  show ?case
  proof (cases "case objects f x of None \<Rightarrow> True | Some d \<Rightarrow> parent db \<noteq> parent d")
    case True
    obtain g r where g: "UnionHelper f b x = Some (Inr (g, r))" "forest_ok g"
      "dom (objects g) = insert x (dom (objects f))"
      "same_set (objects g) = merge (insert (x, x) (same_set (objects f))) b x"
      using UnionHelper_spec [OF Cons.prems, of x] by blast
    from Cons.IH [OF g(2)] g Cons.prems True db show ?thesis
      by (auto simp: deref_def merge_all_def)
  next
    case False
    then obtain d where d: "objects f x = Some d" "parent db = parent d" by (auto split: option.splits)
    have r: "ranks_ok (objects f)" using Cons.prems by (simp add: forest_ok_def uf_ok_def)
    have "(b, x) \<in> same_set (objects f)" by (rule same_parent_same_set [OF r db d])
    moreover have "(x, x) \<in> same_set (objects f)" using d by (intro same_set_refl [OF r]) auto
    ultimately have "merge (insert (x, x) (same_set (objects f))) b x = same_set (objects f)"
      by (simp add: insert_absorb merge_same)
    with Cons.IH [OF Cons.prems] False db show ?thesis by (simp add: deref_def merge_all_def)
  qed
qed

lemma UnionMany_spec:
  assumes "forest_ok f"
  shows "\<exists>f'. UnionMany f (b # xs) = Some (Inr f') \<and> forest_ok f' \<and>
    same_set (objects f') = merge_all (insert (b, b) (same_set (objects f))) b xs"
  using UnionMany_loop_spec [of "emplace_counted f b" b xs] emplace_counted_spec [OF assms, of b]
  by (simp add: MakeSet_emplace)

subsection \<open>The former version of the repeated union\<close>

lemma emplace_all_spec:
  assumes "forest_ok f"
  shows "forest_ok (fold (\<lambda>x f. emplace_counted f x) xs f) \<and>
    dom (objects (fold (\<lambda>x f. emplace_counted f x) xs f)) = dom (objects f) \<union> set xs \<and>
    same_set (objects (fold (\<lambda>x f. emplace_counted f x) xs f)) = same_set (objects f) \<union> Id_on (set xs)"
  using assms
proof (induction xs arbitrary: f)
  case (Cons x xs)
  from Cons.IH [of "emplace_counted f x"] emplace_counted_spec [OF Cons.prems, of x] show ?case by auto
qed simp

lemma UnionManyOld_loop_spec:
  assumes "forest_ok f" "b \<in> dom (objects f)" "set xs \<subseteq> dom (objects f)"
  shows "\<exists>f'. UnionManyOld_loop f b xs = Some (Inr f') \<and> forest_ok f' \<and>
    same_set (objects f') = merge_all (same_set (objects f)) b xs"
  using assms
proof (induction xs arbitrary: f)
  case (Cons x xs)
  obtain db dx where d: "objects f b = Some db" "objects f x = Some dx" using Cons.prems by auto
  have r: "ranks_ok (objects f)" using Cons.prems by (simp add: forest_ok_def uf_ok_def)
  have refl: "(x, x) \<in> same_set (objects f)" "(b, b) \<in> same_set (objects f)"
    using d by (auto intro: same_set_refl [OF r])
  show ?case
  proof (cases "parent dx = parent db")
    case True
    then have "(b, x) \<in> same_set (objects f)" using same_parent_same_set [OF r d] by simp
    then have "merge (insert (x, x) (same_set (objects f))) b x = same_set (objects f)"
      using refl by (simp add: insert_absorb merge_same)
    with Cons.IH [of f] Cons.prems True d show ?thesis by (simp add: deref_def merge_all_def)
  next
    case False
    obtain g k where g: "Union f x b = Some (Inr (g, k))" "forest_ok g" "dom (objects g) = insert b (insert x (dom (objects f)))"
      "same_set (objects g) = merge (insert (b, b) (insert (x, x) (same_set (objects f)))) x b"
      using Union_spec [OF Cons.prems(1), of x b] by blast
    have "same_set (objects g) = merge (insert (x, x) (same_set (objects f))) b x"
      using g(4) refl by (simp add: insert_absorb merge_commute)
    moreover have "b \<in> dom (objects g)" "set xs \<subseteq> dom (objects g)" using g(3) Cons.prems by auto
    ultimately show ?thesis using Cons.IH [OF g(2)] g(1) False d by (simp add: deref_def merge_all_def)
  qed
qed (simp add: merge_all_def)

lemma UnionManyOld_spec:
  assumes "forest_ok f"
  shows "\<exists>f'. UnionManyOld f (b # xs) = Some (Inr f') \<and> forest_ok f' \<and>
    same_set (objects f') = merge_all (same_set (objects f) \<union> Id_on (set (b # xs))) b xs"
proof -
  let ?g = "fold (\<lambda>x f. emplace_counted f x) (b # xs) f"
  have g: "forest_ok ?g" "dom (objects ?g) = dom (objects f) \<union> set (b # xs)"
    "same_set (objects ?g) = same_set (objects f) \<union> Id_on (set (b # xs))"
    using emplace_all_spec [OF assms, of "b # xs"] by blast+
  have "b \<in> dom (objects ?g)" "set xs \<subseteq> dom (objects ?g)" unfolding g(2) by auto
  from UnionManyOld_loop_spec [OF g(1) this] g(3) show ?thesis by (simp add: UnionManyOld_def)
qed

lemma trancl_Un_trancl: "(R\<^sup>+ \<union> T)\<^sup>+ = (R \<union> T)\<^sup>+"
proof
  have "R\<^sup>+ \<union> T \<subseteq> (R \<union> T)\<^sup>+" by (auto intro: trancl_mono)
  from trancl_mono_subset [OF this] show "(R\<^sup>+ \<union> T)\<^sup>+ \<subseteq> (R \<union> T)\<^sup>+" by (simp add: trancl_id)
  show "(R \<union> T)\<^sup>+ \<subseteq> (R\<^sup>+ \<union> T)\<^sup>+" by (rule trancl_mono_subset) auto
qed

section \<open>The union-find interface\<close>

fun union_edges :: "('s \<Rightarrow> 'a \<Rightarrow> 'a \<Rightarrow> ('s \<times> bool) outcome option) \<Rightarrow> 's \<Rightarrow> ('a \<times> 'a) list \<Rightarrow> 's outcome option" where
  "union_edges unite s [] = Some (Inr s)"
| "union_edges unite s ((x, y) # es) =
    Option.bind (unite s x y) (\<lambda>r. case r of Inl e \<Rightarrow> Some (Inl e) | Inr (s, _) \<Rightarrow> union_edges unite s es)"

text \<open>
  What clients use: a partial equivalence \<open>E\<close> on elements, whose domain is the elements present;
  \<open>unite\<close> adds and merges, \<open>find\<close> returns an element of the class that is the same for all of it.
\<close>

locale union_find =
  fixes inv :: "'s \<Rightarrow> bool"
    and E :: "'s \<Rightarrow> ('a \<times> 'a) set"
    and unite :: "'s \<Rightarrow> 'a \<Rightarrow> 'a \<Rightarrow> ('s \<times> bool) outcome option"
    and find :: "'s \<Rightarrow> 'a \<Rightarrow> ('s \<times> 'a) outcome option"
  assumes E_sym: "inv s \<Longrightarrow> sym (E s)" and E_trans: "inv s \<Longrightarrow> trans (E s)"
    and union_merges: "inv s \<Longrightarrow> \<exists>s' b. unite s x y = Some (Inr (s', b)) \<and> inv s' \<and>
      E s' = merge (insert (y, y) (insert (x, x) (E s))) x y"
    and find_class: "inv s \<Longrightarrow> (x, x) \<in> E s \<Longrightarrow> \<exists>s' r. find s x = Some (Inr (s', r)) \<and> inv s' \<and> E s' = E s \<and> (x, r) \<in> E s"
    and find_same: "inv s \<Longrightarrow> (x, y) \<in> E s \<Longrightarrow> find s x = Some (Inr (s1, r1)) \<Longrightarrow> find s y = Some (Inr (s2, r2)) \<Longrightarrow> r1 = r2"
begin

lemma merge_trancl:
  assumes "inv s" "inv s'" "E s' = merge (insert (y, y) (insert (x, x) (E s))) x y"
  shows "E s' = (E s \<union> {(x, y), (y, x)})\<^sup>+"
proof
  let ?S = "E s \<union> {(x, y), (y, x)}"
  have base: "E s \<subseteq> ?S\<^sup>+" "(x, y) \<in> ?S\<^sup>+" "(y, x) \<in> ?S\<^sup>+" by auto
  then have refl: "(x, x) \<in> ?S\<^sup>+" "(y, y) \<in> ?S\<^sup>+" by (meson trancl_trans)+
  have sym: "(b, a) \<in> E s \<Longrightarrow> (a, b) \<in> E s" for a b using E_sym [OF assms(1)] by (auto dest: symD)
  have to: "(a, x) \<in> ?S\<^sup>+" if "(x, a) \<in> insert (y, y) (insert (x, x) (E s))" for a
    using that base refl sym by auto
  have to': "(a, y) \<in> ?S\<^sup>+" if "(y, a) \<in> insert (y, y) (insert (x, x) (E s))" for a
    using that base refl sym by auto
  have from_: "(x, b) \<in> ?S\<^sup>+" if "(x, b) \<in> insert (y, y) (insert (x, x) (E s))" for b using that base refl by auto
  have from': "(y, b) \<in> ?S\<^sup>+" if "(y, b) \<in> insert (y, y) (insert (x, x) (E s))" for b using that base refl by auto
  have xy: "(a, b) \<in> ?S\<^sup>+" if "(x, a) \<in> insert (y, y) (insert (x, x) (E s))" "(y, b) \<in> insert (y, y) (insert (x, x) (E s))" for a b
    by (rule trancl_trans [OF trancl_trans [OF to [OF that(1)] base(2)] from' [OF that(2)]])
  have yx: "(a, b) \<in> ?S\<^sup>+" if "(y, a) \<in> insert (y, y) (insert (x, x) (E s))" "(x, b) \<in> insert (y, y) (insert (x, x) (E s))" for a b
    by (rule trancl_trans [OF trancl_trans [OF to' [OF that(1)] base(3)] from_ [OF that(2)]])
  show "E s' \<subseteq> ?S\<^sup>+"
    unfolding assms(3) merge_def
  proof (intro Un_least)
    show "insert (y, y) (insert (x, x) (E s)) \<subseteq> ?S\<^sup>+" using base(1) refl by blast
  qed (use xy yx in blast)+
  have "?S \<subseteq> E s'" unfolding assms(3) merge_def by auto
  then show "?S\<^sup>+ \<subseteq> E s'"
    using E_trans [OF assms(2)] by (metis trancl_id trancl_mono_subset)
qed

text \<open>Connectivity: after any sequence of unions the relation is reachability along the edges.\<close>

lemma union_edges_connected:
  assumes "inv s"
  shows "\<exists>s'. union_edges unite s es = Some (Inr s') \<and> inv s' \<and> E s' = (E s \<union> set es \<union> (set es)\<inverse>)\<^sup>+"
  using assms
proof (induction es arbitrary: s)
  case Nil
  then show ?case using E_trans [OF Nil] by (simp add: trancl_id)
next
  case (Cons e es)
  obtain x y where e: "e = (x, y)" by (cases e)
  obtain s1 b where 1: "unite s x y = Some (Inr (s1, b))" "inv s1" "E s1 = merge (insert (y, y) (insert (x, x) (E s))) x y"
    using union_merges [OF Cons.prems] by blast
  have E1: "E s1 = (E s \<union> {(x, y), (y, x)})\<^sup>+" by (rule merge_trancl [OF Cons.prems 1(2,3)])
  from Cons.IH [OF 1(2)] obtain s2 where 2: "union_edges unite s1 es = Some (Inr s2)" "inv s2"
    "E s2 = (E s1 \<union> set es \<union> (set es)\<inverse>)\<^sup>+" by blast
  have "(E s1 \<union> set es \<union> (set es)\<inverse>)\<^sup>+ = (E s \<union> set (e # es) \<union> (set (e # es))\<inverse>)\<^sup>+"
  proof -
    have "E s \<union> {(x, y), (y, x)} \<union> (set es \<union> (set es)\<inverse>) = E s \<union> set (e # es) \<union> (set (e # es))\<inverse>"
      unfolding e by auto
    then show ?thesis unfolding E1 Un_assoc [of _ "set es"] trancl_Un_trancl by (simp only: Un_assoc)
  qed
  with 1 2 e show ?case by simp
qed

lemma find_same_iff:
  assumes "inv s" "(x, x) \<in> E s" "(y, y) \<in> E s"
  shows "\<exists>s1 s2 r1 r2. find s x = Some (Inr (s1, r1)) \<and> find s y = Some (Inr (s2, r2)) \<and> (r1 = r2 \<longleftrightarrow> (x, y) \<in> E s)"
proof -
  obtain s1 r1 s2 r2 where f: "find s x = Some (Inr (s1, r1))" "(x, r1) \<in> E s" "find s y = Some (Inr (s2, r2))" "(y, r2) \<in> E s"
    using find_class [OF assms(1,2)] find_class [OF assms(1,3)] by blast
  have "(x, y) \<in> E s" if "r1 = r2"
    using f(2,4) that E_sym [OF assms(1)] E_trans [OF assms(1)] by (meson symD transD)
  with f find_same [OF assms(1)] show ?thesis by blast
qed

end

interpretation forest: union_find forest_ok "\<lambda>f. same_set (objects f)" Union FindSet
proof
  fix f :: "'a DisjointSetForest" assume f: "forest_ok f"
  show "sym (same_set (objects f))" by (auto intro: symI same_set_sym)
  show "trans (same_set (objects f))" by (auto intro: transI same_set_trans)
  fix x y
  show "\<exists>s' b. Union f x y = Some (Inr (s', b)) \<and> forest_ok s' \<and>
    same_set (objects s') = merge (insert (y, y) (insert (x, x) (same_set (objects f)))) x y"
    using Union_spec [OF f, of x y] by blast
next
  fix f :: "'a DisjointSetForest" and x assume f: "forest_ok f" and x: "(x, x) \<in> same_set (objects f)"
  then have "x \<in> dom (objects f)" by (auto simp: same_set_def dest: repr_dom)
  with FindSet_spec [OF f, of x] obtain f' r where r: "FindSet f x = Some (Inr (f', r))" "forest_ok f'"
    "repr (objects f') = repr (objects f)" "repr (objects f) x r" by auto
  then have "same_set (objects f') = same_set (objects f)" "(x, r) \<in> same_set (objects f)"
    using repr_self [OF r(4)] by (auto simp: same_set_def)
  with r show "\<exists>s' r. FindSet f x = Some (Inr (s', r)) \<and> forest_ok s' \<and>
      same_set (objects s') = same_set (objects f) \<and> (x, r) \<in> same_set (objects f)" by blast
next
  fix f s1 s2 :: "'a DisjointSetForest" and x y r1 r2
  assume f: "forest_ok f" and xy: "(x, y) \<in> same_set (objects f)"
    and find: "FindSet f x = Some (Inr (s1, r1))" "FindSet f y = Some (Inr (s2, r2))"
  have "x \<in> dom (objects f)" "y \<in> dom (objects f)" using xy by (auto simp: same_set_def dest: repr_dom)
  then have "repr (objects f) x r1" "repr (objects f) y r2"
    using FindSet_spec [OF f, of x] FindSet_spec [OF f, of y] find by auto
  with xy show "r1 = r2" by (simp add: same_set_repr)
qed


section \<open>Reachable forests\<close>

text \<open>Every forest a program can build through the public interface.\<close>

inductive forest_reach :: "'a \<Rightarrow> 'a DisjointSetForest \<Rightarrow> bool" for nf where
  new: "forest_reach nf (new_forest nf)"
| clear: "forest_reach nf f \<Longrightarrow> forest_reach nf (forest_clear f)"
| make_set: "forest_reach nf f \<Longrightarrow> forest_reach nf (fst (MakeSet f x))"
| find_set: "forest_reach nf f \<Longrightarrow> FindSet f x = Some (Inr (f', r)) \<Longrightarrow> forest_reach nf f'"
| union: "forest_reach nf f \<Longrightarrow> Union f x y = Some (Inr (f', b)) \<Longrightarrow> forest_reach nf f'"
| union_many: "forest_reach nf f \<Longrightarrow> UnionMany f xs = Some (Inr f') \<Longrightarrow> forest_reach nf f'"

lemma repr_empty: "\<not> repr Map.empty x r"
  using repr_dom [of Map.empty x r] by auto

lemma empty_ok: "uf_ok Map.empty" "roots Map.empty = {}" "same_set Map.empty = {}"
  by (simp_all add: uf_ok_def ranks_ok_def sizes_ok_def roots_def same_set_def repr_empty)

lemma new_forest_ok: "forest_ok (new_forest nf)"
  by (simp add: forest_ok_def new_forest_def empty_ok)

lemma reach_ok: "forest_reach nf f \<Longrightarrow> forest_ok f"
proof (induction rule: forest_reach.induct)
  case new
  then show ?case by (rule new_forest_ok)
next
  case (clear f)
  then show ?case by (simp add: forest_ok_def forest_clear_def empty_ok)
next
  case (make_set f x)
  then show ?case using emplace_counted_spec [OF make_set.IH, of x] by (simp add: MakeSet_emplace)
next
  case (find_set f x f' r)
  then show ?case using FindSet_spec [of f x] by auto
next
  case (union f x y f' b)
  then show ?case using Union_spec [of f x y] by auto
next
  case (union_many f xs f')
  show ?case
  proof (cases xs)
    case (Cons b ys)
    then show ?thesis using UnionMany_spec [OF union_many.IH, of b ys] union_many.hyps(2) by (auto simp del: UnionMany.simps)
  qed (use union_many in simp)
qed

lemma quotient_classes:
  assumes "ranks_ok objs"
  shows "dom objs // same_set objs = class_of objs ` roots objs"
proof (intro set_eqI iffI)
  fix C assume "C \<in> dom objs // same_set objs"
  then obtain x where x: "x \<in> dom objs" "C = same_set objs `` {x}" by (auto simp: quotient_def)
  then obtain r where "repr objs x r" using repr_exists [OF assms] by auto
  then show "C \<in> class_of objs ` roots objs"
    using x(2) same_set_Image repr_self by (fastforce simp: roots_def)
next
  fix C assume "C \<in> class_of objs ` roots objs"
  then obtain r where r: "repr objs r r" "C = class_of objs r" by (auto simp: roots_def)
  then show "C \<in> dom objs // same_set objs"
    using same_set_Image [OF r(1)] repr_dom [OF r(1)] by (auto simp: quotient_def)
qed

lemma card_quotient: "ranks_ok objs \<Longrightarrow> card (dom objs // same_set objs) = card (roots objs)"
proof -
  assume r: "ranks_ok objs"
  have "inj_on (class_of objs) (roots objs)"
    using class_disjoint [of _ _ objs] by (fastforce simp: inj_on_def roots_def class_of_def)
  then show ?thesis by (simp add: quotient_classes [OF r] card_image)
qed

lemma rank_bound:
  assumes "forest_ok f" "objects f x = Some d"
  shows "2 ^ rank d \<le> card (dom (objects f))"
proof -
  have r: "ranks_ok (objects f)" and s: "sizes_ok (objects f)" using assms by (auto simp: forest_ok_def uf_ok_def)
  obtain q where q: "repr (objects f) x q" using repr_exists [OF r assms(2)] by blast
  then obtain e where e: "objects f q = Some e" "parent e = q" using repr_root by fast
  have "rank d \<le> rank e" using repr_rank [OF q r assms(2) e(1)] assms(2) e(1) by (cases "x = q") auto
  then have "(2::nat) ^ rank d \<le> 2 ^ rank e" by simp
  also have "\<dots> \<le> card (class_of (objects f) q)" using s e by (auto simp: sizes_ok_def)
  also have "\<dots> \<le> card (dom (objects f))"
    using r by (intro card_mono) (auto simp: class_of_def ranks_ok_def dest: repr_dom)
  finally show ?thesis .
qed

lemma union_edges_from:
  assumes "forest_ok f" "b \<in> dom (objects f)"
  shows "\<exists>f'. union_edges Union f (map (Pair b) xs) = Some (Inr f') \<and>
    same_set (objects f') = merge_all (same_set (objects f)) b xs"
  using assms
proof (induction xs arbitrary: f)
  case (Cons x xs)
  have bb: "(b, b) \<in> same_set (objects f)" using Cons.prems by (auto simp: forest_ok_def uf_ok_def intro: same_set_refl)
  obtain g r where g: "Union f b x = Some (Inr (g, r))" "forest_ok g" "dom (objects g) = insert x (insert b (dom (objects f)))"
    "same_set (objects g) = merge (insert (x, x) (insert (b, b) (same_set (objects f)))) b x"
    using Union_spec [OF Cons.prems(1), of b x] by blast
  from Cons.IH [OF g(2)] g bb show ?case by (auto simp: merge_all_def insert_absorb)
qed (simp add: merge_all_def)

section \<open>Properties\<close>

text \<open>
  Property C27.  On every forest a program can build, \<open>FindSet\<close> terminates without failing a
  \<open>CHECK\<close>, and on a present element returns the representative of its set: the member of the set
  whose parent is itself, which is the answer for exactly the elements of that set, before the
  call and after its path compression.  For an absent element it returns the not-found value and
  changes nothing.  The compression changes no set and leaves the element linked straight to its
  representative.
\<close>

theorem FindSet_correct:
  assumes "forest_reach nf f"
  shows "\<exists>f' r. FindSet f x = Some (Inr (f', r)) \<and> forest_reach nf f' \<and>
    dom (objects f') = dom (objects f) \<and> same_set (objects f') = same_set (objects f) \<and>
    num_disjoint_sets f' = num_disjoint_sets f \<and>
    (if x \<in> dom (objects f)
     then (x, r) \<in> same_set (objects f) \<and> map_option parent (objects f r) = Some r \<and>
       map_option parent (objects f' x) = Some r \<and>
       (\<forall>g \<in> {f, f'}. \<forall>y \<in> dom (objects f). \<exists>g' r'. FindSet g y = Some (Inr (g', r')) \<and>
         (r' = r \<longleftrightarrow> (x, y) \<in> same_set (objects f)))
     else r = notfound_value f \<and> f' = f)"
proof -
  have ok: "forest_ok f" using reach_ok [OF assms] .
  obtain f' r where r: "FindSet f x = Some (Inr (f', r))" "forest_ok f'" "dom (objects f') = dom (objects f)"
    "repr (objects f') = repr (objects f)" "if x \<in> dom (objects f) then repr (objects f) x r else r = notfound_value f \<and> f' = f"
    using FindSet_spec [OF ok, of x] by blast
  have n: "num_disjoint_sets f' = num_disjoint_sets f"
    using r(2,4) ok by (simp add: forest_ok_def roots_def)
  have s: "same_set (objects f') = same_set (objects f)" using r(4) by (simp add: same_set_def)
  have present: "(x, r) \<in> same_set (objects f)" "map_option parent (objects f r) = Some r"
    "map_option parent (objects f' x) = Some r"
    "\<exists>g' r'. FindSet g y = Some (Inr (g', r')) \<and> (r' = r \<longleftrightarrow> (x, y) \<in> same_set (objects f))"
    if x: "x \<in> dom (objects f)" and g: "g \<in> {f, f'}" "y \<in> dom (objects f)" for g y
  proof -
    have xr: "repr (objects f) x r" using r(5) x by simp
    show "(x, r) \<in> same_set (objects f)" using xr repr_self [OF xr] by (auto simp: same_set_def)
    show "map_option parent (objects f r) = Some r" using repr_root [OF xr] by auto
    show "map_option parent (objects f' x) = Some r" by (rule FindSet_compresses [OF ok r(1) x])
    have "forest_ok g" "repr (objects g) = repr (objects f)" "dom (objects g) = dom (objects f)"
      using g r(2-4) ok by auto
    then obtain g' r' where "FindSet g y = Some (Inr (g', r'))" "repr (objects f) y r'"
      using FindSet_spec [of g y] g(2) by auto
    then show "\<exists>g' r'. FindSet g y = Some (Inr (g', r')) \<and> (r' = r \<longleftrightarrow> (x, y) \<in> same_set (objects f))"
      using same_set_repr [OF xr] by blast
  qed
  show ?thesis
    using r(1,3,5) n s present [of f x] present(4) forest_reach.find_set [OF assms r(1)] by (intro exI [of _ f'] exI [of _ r]) auto
qed

theorem FindSet_correct_witness:
  "\<exists>f f' r. Union (new_forest (0 :: nat)) 3 4 = Some (Inr (f, True)) \<and>
    FindSet f 3 = Some (Inr (f', r)) \<and> r \<in> {3, 4} \<and> map_option parent (objects f r) = Some r \<and>
    (\<exists>g' r'. FindSet f' 4 = Some (Inr (g', r')) \<and> r' = r)"
proof -
  obtain f b where f: "Union (new_forest (0 :: nat)) 3 4 = Some (Inr (f, b))" "b"
    "dom (objects f) = {4, 3}" "same_set (objects f) = merge {(4, 4), (3, 3)} 3 4"
    using Union_spec [OF reach_ok [OF forest_reach.new], of "0 :: nat" 3 4]
    by (auto simp: new_forest_def empty_ok)
  have h: "forest_reach 0 f" by (rule forest_reach.union [OF forest_reach.new f(1)])
  have s: "(3, y) \<in> same_set (objects f) \<longleftrightarrow> y \<in> {3, 4}" for y by (auto simp: f(4) merge_def)
  show ?thesis using FindSet_correct [OF h, of 3] f(1,2) by (auto simp: f(3) s)
qed

text \<open>
  \<open>Union\<close> terminates, adds absent elements as singletons, merges exactly the sets of
  its two arguments, and returns whether they were distinct sets before.
\<close>

theorem Union_correct:
  assumes "forest_reach nf f"
  shows "\<exists>f' b. Union f x y = Some (Inr (f', b)) \<and> forest_reach nf f' \<and>
    dom (objects f') = dom (objects f) \<union> {x, y} \<and>
    same_set (objects f') = merge (same_set (objects f) \<union> {(x, x), (y, y)}) x y \<and>
    b = ((x, y) \<notin> same_set (objects f) \<union> {(x, x), (y, y)})"
proof -
  have "insert (y, y) (insert (x, x) (same_set (objects f))) = same_set (objects f) \<union> {(x, x), (y, y)}" by auto
  with Union_spec [OF reach_ok [OF assms], of x y] show ?thesis
    by (auto intro: forest_reach.union [OF assms])
qed

theorem Union_correct_witness:
  "\<exists>f' b. Union (new_forest (0 :: nat)) 3 4 = Some (Inr (f', b)) \<and> b \<and> dom (objects f') = {3, 4}"
  using Union_correct [OF forest_reach.new, of "0 :: nat" 3 4] by (auto simp: new_forest_def empty_ok)

text \<open>
  Property C3.  The forest computes connectivity: after uniting the ends of any list of edges,
  two vertices have the same representative exactly when the edges connect them.
\<close>

theorem Union_FindSet_connectivity:
  assumes "x \<in> Domain (set es \<union> (set es)\<inverse>)" and "y \<in> Domain (set es \<union> (set es)\<inverse>)"
  shows "\<exists>f f1 f2 r1 r2. union_edges Union (new_forest nf) es = Some (Inr f) \<and>
    FindSet f x = Some (Inr (f1, r1)) \<and> FindSet f y = Some (Inr (f2, r2)) \<and>
    (r1 = r2 \<longleftrightarrow> (x, y) \<in> (set es \<union> (set es)\<inverse>)\<^sup>+)"
proof -
  let ?S = "set es \<union> (set es)\<inverse>"
  obtain f where f: "union_edges Union (new_forest nf) es = Some (Inr f)" "forest_ok f" "same_set (objects f) = ?S\<^sup>+"
    using forest.union_edges_connected [OF new_forest_ok, of nf es] by (auto simp: new_forest_def empty_ok)
  have "(v, v) \<in> ?S\<^sup>+" if "v \<in> Domain ?S" for v
    using that by (blast intro: trancl_trans)
  with assms forest.find_same_iff [OF f(2), of x y] f show ?thesis by auto
qed

theorem Union_FindSet_connectivity_witness:
  "\<exists>f f1 f2 r1 r2. union_edges Union (new_forest (0 :: nat)) [(1, 2), (2, 3)] = Some (Inr f) \<and>
    FindSet f 1 = Some (Inr (f1, r1)) \<and> FindSet f 3 = Some (Inr (f2, r2)) \<and>
    (r1 = r2 \<longleftrightarrow> (1 :: nat, 3) \<in> (set [(1, 2), (2, 3)] \<union> (set [(1, 2), (2, 3)])\<inverse>)\<^sup>+)"
  by (rule Union_FindSet_connectivity) auto

text \<open>
  On every reachable forest, \<open>num_disjoint_sets\<close> is the number of sets, and no rank
  exceeds the logarithm of the number of objects (so the \<open>int\<close> rank cannot overflow).
\<close>

theorem forest_counts_and_ranks:
  assumes "forest_reach nf f" and "objects f x = Some d"
  shows "num_disjoint_sets f = int (card (dom (objects f) // same_set (objects f))) \<and>
    2 ^ rank d \<le> card (dom (objects f))"
proof -
  have ok: "forest_ok f" by (rule reach_ok [OF assms(1)])
  then have "num_disjoint_sets f = int (card (dom (objects f) // same_set (objects f)))"
    by (simp add: forest_ok_def uf_ok_def card_quotient)
  with rank_bound [OF ok assms(2)] show ?thesis by simp
qed

theorem forest_counts_and_ranks_witness:
  "num_disjoint_sets (fst (MakeSet (new_forest 0) (5 :: nat))) =
    int (card (dom (objects (fst (MakeSet (new_forest 0) (5 :: nat)))) // same_set (objects (fst (MakeSet (new_forest 0) (5 :: nat))))))"
  using forest_counts_and_ranks [OF forest_reach.make_set [OF forest_reach.new], of "0 :: nat" 5 5 "make_ObjectData 5"]
  by (simp add: MakeSet_def new_forest_def try_emplace_def)

text \<open>
  \<open>IsSingleton\<close> answers whether the set of the element has no other member (true also
  for an absent element), although it only looks at the parent and the rank of the element.
\<close>

theorem IsSingleton_correct:
  assumes "forest_reach nf f"
  shows "IsSingleton f x \<longleftrightarrow> (\<forall>y. (x, y) \<in> same_set (objects f) \<longrightarrow> y = x)"
  by (rule IsSingleton_spec [OF reach_ok [OF assms]])

theorem IsSingleton_correct_witness:
  "IsSingleton (new_forest (0 :: nat)) 4 \<longleftrightarrow> (\<forall>y. (4, y) \<in> same_set (objects (new_forest (0 :: nat))) \<longrightarrow> y = 4)"
  by (rule IsSingleton_correct [OF forest_reach.new])

text \<open>
  \<open>UnionMany\<close>, which skips elements whose parent pointer already agrees, gives the
  same sets as adding the first element and uniting it with every other one.
\<close>

theorem UnionMany_is_repeated_Union:
  assumes "forest_reach nf f"
  shows "\<exists>g h. UnionMany f (b # xs) = Some (Inr g) \<and>
    union_edges Union (fst (MakeSet f b)) (map (Pair b) xs) = Some (Inr h) \<and>
    same_set (objects g) = same_set (objects h)"
proof -
  have ok: "forest_ok f" by (rule reach_ok [OF assms])
  have e: "forest_ok (emplace_counted f b)" "b \<in> dom (objects (emplace_counted f b))"
    "same_set (objects (emplace_counted f b)) = insert (b, b) (same_set (objects f))"
    using emplace_counted_spec [OF ok, of b] by auto
  from UnionMany_spec [OF ok, of b xs] union_edges_from [OF e(1,2), of xs] e(3) show ?thesis
    by (auto simp: MakeSet_emplace)
qed

theorem UnionMany_is_repeated_Union_witness:
  "\<exists>g h. UnionMany (new_forest (0 :: nat)) [1, 2, 1] = Some (Inr g) \<and>
    union_edges Union (fst (MakeSet (new_forest 0) 1)) (map (Pair 1) [2, 1]) = Some (Inr h) \<and>
    same_set (objects g) = same_set (objects h)"
  by (rule UnionMany_is_repeated_Union [OF forest_reach.new])

end
