(* ===== verification/AdjustablePriorityQueue.thy ===== *)
theory AdjustablePriorityQueue
  imports Gloop_Prelude "HOL-Library.Multiset"
begin

text \<open>
  The adjustable binary heap, \<^verbatim>\<open>src/gloop/util/pq/adjustable-heap.h\<close> and
  \<^verbatim>\<open>adjustable_priority_queue.h\<close>.

  The queue holds pointers, values of type \<open>'a\<close>; \<open>cmp a b\<close> is the user's comparison of what they
  point to (lower priority).  The heap index that the queue stores in each element through
  \<open>HeapIndexManip\<close> is the function \<open>apq_index\<close>, a \<open>ssize_t\<close> per element.  Reading \<open>elems_\<close> outside its
  bounds, which the code does not check, is \<open>BadAccess\<close>.
\<close>

section \<open>Moving holes, adjustable-heap.h\<close>

type_synonym 'a indexed = "'a list \<times> ('a \<Rightarrow> int)"

text \<open>The assignment \<open>*(first + i) = v\<close> followed by the call of the index maintainer.\<close>

definition put_at :: "'a indexed \<Rightarrow> nat \<Rightarrow> 'a \<Rightarrow> 'a indexed" where
  "put_at s i v = ((fst s)[i := v], (snd s)(v := int i))"

function AdjustUpwards :: "('a \<Rightarrow> 'a \<Rightarrow> bool) \<Rightarrow> 'a indexed \<Rightarrow> nat \<Rightarrow> 'a \<Rightarrow> 'a indexed" where
  "AdjustUpwards cmp s i t =
    (if i > 0 then
       let parent = (i - 1) div 2 in
       if \<not> cmp (fst s ! parent) t then put_at s i t
       else AdjustUpwards cmp (put_at s i (fst s ! parent)) parent t
     else put_at s i t)"
  by pat_completeness auto
termination by (relation "measure (\<lambda>(_, _, i, _). i)") auto

function AdjustDownwards :: "('a \<Rightarrow> 'a \<Rightarrow> bool) \<Rightarrow> 'a indexed \<Rightarrow> nat \<Rightarrow> nat \<Rightarrow> 'a \<Rightarrow> 'a indexed" where
  "AdjustDownwards cmp s i len t =
    (let left_child = 1 + 2 * i in
     if left_child \<ge> len then put_at s i t
     else
       let right_child = left_child + 1;
           next_i = (if right_child < len \<and> cmp (fst s ! left_child) (fst s ! right_child)
                     then right_child else left_child) in
       if \<not> cmp t (fst s ! next_i) then put_at s i t
       else AdjustDownwards cmp (put_at s i (fst s ! next_i)) next_i len t)"
  by pat_completeness auto
termination by (relation "measure (\<lambda>(_, _, i, len, _). len - i)") auto

function AdjustHoleDownwards :: "('a \<Rightarrow> 'a \<Rightarrow> bool) \<Rightarrow> 'a indexed \<Rightarrow> nat \<Rightarrow> nat \<Rightarrow> 'a indexed \<times> nat" where
  "AdjustHoleDownwards cmp s i len =
    (let left_child = 1 + 2 * i in
     if left_child \<ge> len then (s, i)
     else
       let right_child = left_child + 1 in
       if right_child \<ge> len then (put_at s i (fst s ! left_child), left_child)
       else
         let next_i = (if cmp (fst s ! left_child) (fst s ! right_child) then right_child else left_child) in
         AdjustHoleDownwards cmp (put_at s i (fst s ! next_i)) next_i len)"
  by pat_completeness auto
termination by (relation "measure (\<lambda>(_, _, i, len). len - i)") auto

declare AdjustUpwards.simps [simp del] AdjustDownwards.simps [simp del] AdjustHoleDownwards.simps [simp del]

section \<open>The priority queue\<close>

record 'a apq =
  apq_elems :: "'a list"
  apq_index :: "'a \<Rightarrow> int"

definition apq_indexed :: "'a apq \<Rightarrow> 'a indexed" where
  "apq_indexed q = (apq_elems q, apq_index q)"

definition apq_of :: "'a indexed \<Rightarrow> 'a apq" where
  "apq_of s = \<lparr>apq_elems = fst s, apq_index = snd s\<rparr>"

text \<open>
  The constructor from a range: \<open>std::make_heap\<close> rearranges the elements (\<open>make_heap\<close>, whose
  result the standard leaves open up to being a heap), then the indices are set in order.
\<close>

definition new_apq :: "('a list \<Rightarrow> 'a list) \<Rightarrow> 'a list \<Rightarrow> ('a \<Rightarrow> int) \<Rightarrow> 'a apq" where
  "new_apq make_heap xs ix =
    (if xs = [] then \<lparr>apq_elems = [], apq_index = ix\<rparr>
     else let es = make_heap xs in
       \<lparr>apq_elems = es, apq_index = fold (\<lambda>i ix. ix(es ! i := int i)) [0..<length es] ix\<rparr>)"

definition Size :: "'a apq \<Rightarrow> nat" where "Size q = length (apq_elems q)"

definition IsEmpty :: "'a apq \<Rightarrow> bool" where "IsEmpty q = (apq_elems q = [])"

definition Top :: "'a apq \<Rightarrow> 'a outcome" where
  "Top q = require BadAccess (apq_elems q \<noteq> []) (Inr (apq_elems q ! 0))"

function AllTop_loop :: "('a \<Rightarrow> 'a \<Rightarrow> bool) \<Rightarrow> 'a list \<Rightarrow> nat list \<Rightarrow> 'a list \<Rightarrow> 'a list" where
  "AllTop_loop cmp xs [] topvec = topvec"
| "AllTop_loop cmp xs (ind # need) topvec =
    (let leftchild = 1 + 2 * ind;
         rightchild = leftchild + 1 in
     AllTop_loop cmp xs
       (need @
        (if leftchild < length xs then
           (if \<not> cmp (xs ! leftchild) (xs ! ind) then [leftchild] else []) @
           (if rightchild < length xs \<and> \<not> cmp (xs ! rightchild) (xs ! ind) then [rightchild] else [])
         else []))
       (topvec @ [xs ! ind]))"
  by pat_completeness auto
termination
proof (relation "inv_image (mult less_than) (\<lambda>(_, xs, need, _). image_mset (\<lambda>i. length xs - i) (mset need))")
  show "wf (inv_image (mult less_than) (\<lambda>(_, xs, need, _). image_mset (\<lambda>i. length xs - i) (mset need)))"
    by (intro wf_inv_image wf_mult wf_less_than)
next
  fix cmp :: "'a \<Rightarrow> 'a \<Rightarrow> bool" and xs :: "'a list" and ind leftchild rightchild :: nat and need topvec
  assume l: "leftchild = 1 + 2 * ind" and r: "rightchild = leftchild + 1"
  let ?add = "if leftchild < length xs then
      (if \<not> cmp (xs ! leftchild) (xs ! ind) then [leftchild] else []) @
      (if rightchild < length xs \<and> \<not> cmp (xs ! rightchild) (xs ! ind) then [rightchild] else []) else []"
  have "(image_mset (\<lambda>i. length xs - i) (mset need) + image_mset (\<lambda>i. length xs - i) (mset ?add),
    image_mset (\<lambda>i. length xs - i) (mset need) + {#length xs - ind#}) \<in> mult less_than"
    by (rule one_step_implies_mult) (auto simp: l r)
  then show "((cmp, xs, need @ ?add, topvec @ [xs ! ind]), cmp, xs, ind # need, topvec)
    \<in> inv_image (mult less_than) (\<lambda>(_, xs, need, _). image_mset (\<lambda>i. length xs - i) (mset need))"
    by (simp only: in_inv_image prod.case mset.simps mset_append image_mset_union image_mset_add_mset
        union_mset_add_mset_right add_0_right)
qed

definition AllTop :: "('a \<Rightarrow> 'a \<Rightarrow> bool) \<Rightarrow> 'a apq \<Rightarrow> 'a list" where
  "AllTop cmp q = (if Size q = 0 then [] else AllTop_loop cmp (apq_elems q) [0] [])"

definition Add :: "('a \<Rightarrow> 'a \<Rightarrow> bool) \<Rightarrow> 'a apq \<Rightarrow> 'a \<Rightarrow> 'a apq" where
  "Add cmp q val =
    (let es = apq_elems q @ [val] in
     apq_of (AdjustUpwards cmp (es, apq_index q) (length es - 1) val))"

definition NoteChangedPriority :: "('a \<Rightarrow> 'a \<Rightarrow> bool) \<Rightarrow> 'a apq \<Rightarrow> 'a \<Rightarrow> 'a apq outcome" where
  "NoteChangedPriority cmp q val =
    (let i = apq_index q val in
     require BadAccess (0 \<le> i \<and> i < int (Size q))
      (let i = nat i; parent = (i - 1) div 2; s = apq_indexed q in
       if i > 0 \<and> cmp (fst s ! parent) val
       then Inr (apq_of (AdjustUpwards cmp (put_at s i (fst s ! parent)) parent val))
       else Inr (apq_of (AdjustDownwards cmp s i (Size q) val))))"

definition Remove :: "('a \<Rightarrow> 'a \<Rightarrow> bool) \<Rightarrow> 'a apq \<Rightarrow> 'a \<Rightarrow> 'a apq outcome" where
  "Remove cmp q val =
    (let last_i = int (Size q) - 1;
         i = apq_index q val in
     require BadAccess (0 \<le> i \<and> i < int (Size q))
      (if i = last_i then Inr (q\<lparr>apq_elems := butlast (apq_elems q)\<rparr>)
       else
         let v = apq_elems q ! nat last_i;
             s = put_at (apq_indexed q) (nat i) v;
             q = apq_of (butlast (fst s), snd s) in
         NoteChangedPriority cmp q v))"

definition Pop :: "('a \<Rightarrow> 'a \<Rightarrow> bool) \<Rightarrow> 'a apq \<Rightarrow> 'a apq outcome" where
  "Pop cmp q =
    (let sz = Size q in
     require BadAccess (0 < sz)
      (let v = apq_elems q ! (sz - 1);
           (s, i) = AdjustHoleDownwards cmp (apq_indexed q) 0 sz;
           s = (butlast (fst s), snd s) in
       if i + 1 = sz then Inr (apq_of s)
       else Inr (apq_of (AdjustUpwards cmp s i v))))"

definition Contains :: "'a apq \<Rightarrow> 'a \<Rightarrow> bool" where
  "Contains q val = (let i = apq_index q val in 0 \<le> i \<and> i < int (Size q) \<and> apq_elems q ! nat i = val)"

definition Clear :: "'a apq \<Rightarrow> 'a apq" where
  "Clear q = q\<lparr>apq_elems := []\<rparr>"

definition CheckValid :: "('a \<Rightarrow> 'a \<Rightarrow> bool) \<Rightarrow> 'a apq \<Rightarrow> unit outcome" where
  "CheckValid cmp q =
    require CheckFailed (\<forall>i\<in>set [0..<Size q].
      (1 + 2 * i < Size q \<longrightarrow> \<not> cmp (apq_elems q ! i) (apq_elems q ! (1 + 2 * i))) \<and>
      (2 + 2 * i < Size q \<longrightarrow> \<not> cmp (apq_elems q ! i) (apq_elems q ! (2 + 2 * i)))) (Inr ())"

end
