(* ===== verification/Heap_Sift.thy ===== *)
theory Heap_Sift
  imports Gloop_Prelude "HOL-Library.Multiset"
begin

text \<open>
  Binary heaps in arrays with back-pointers, independent of the direction of the comparison and of
  how ties are treated.  \<open>sift_up\<close>, \<open>sift_down\<close> and \<open>hole_down\<close> move a hole; the two heaps of the
  code base are instances that differ in when they stop (\<open>stopu\<close>, \<open>stopd\<close>) and which child they
  prefer (\<open>pick\<close>).  \<open>ok a b\<close> means that \<open>a\<close> may stand above \<open>b\<close>.
\<close>

section \<open>The hole-moving loops\<close>

abbreviation par :: "nat \<Rightarrow> nat" where "par i \<equiv> (i - Suc 0) div 2"

function sift_up :: "('a \<Rightarrow> 'a \<Rightarrow> bool) \<Rightarrow> (nat \<Rightarrow> 'i) \<Rightarrow> 'a list \<Rightarrow> ('a \<Rightarrow> 'i) \<Rightarrow> nat \<Rightarrow> 'a \<Rightarrow> 'a list \<times> ('a \<Rightarrow> 'i)" where
  "sift_up stopu mk xs ix i t =
    (if 0 < i \<and> \<not> stopu (xs ! par i) t
     then sift_up stopu mk (xs[i := xs ! par i]) (ix(xs ! par i := mk i)) (par i) t
     else (xs[i := t], ix(t := mk i)))"
  by pat_completeness auto
termination by (relation "measure (\<lambda>(_, _, _, _, i, _). i)") auto

definition best_child :: "('a \<Rightarrow> 'a \<Rightarrow> bool) \<Rightarrow> 'a list \<Rightarrow> nat \<Rightarrow> nat" where
  "best_child pick xs i =
    (if 2 * i + 2 < length xs \<and> pick (xs ! (2 * i + 1)) (xs ! (2 * i + 2)) then 2 * i + 2 else 2 * i + 1)"

lemma best_child_par [simp]: "par (best_child pick xs i) = i" "i < best_child pick xs i" "0 < best_child pick xs i"
  by (simp_all add: best_child_def)

lemma best_child_neq [simp]: "best_child pick xs i \<noteq> i" "i \<noteq> best_child pick xs i"
  by (simp_all add: best_child_def)

lemma best_child_less: "2 * i + 1 < length xs \<Longrightarrow> best_child pick xs i < length xs"
  by (simp add: best_child_def)

function sift_down :: "('a \<Rightarrow> 'a \<Rightarrow> bool) \<Rightarrow> ('a \<Rightarrow> 'a \<Rightarrow> bool) \<Rightarrow> (nat \<Rightarrow> 'i) \<Rightarrow> 'a list \<Rightarrow> ('a \<Rightarrow> 'i) \<Rightarrow> nat \<Rightarrow> 'a
    \<Rightarrow> 'a list \<times> ('a \<Rightarrow> 'i)" where
  "sift_down pick stopd mk xs ix i t =
    (if 2 * i + 1 < length xs \<and> \<not> stopd t (xs ! best_child pick xs i)
     then let k = best_child pick xs i in sift_down pick stopd mk (xs[i := xs ! k]) (ix(xs ! k := mk i)) k t
     else (xs[i := t], ix(t := mk i)))"
  by pat_completeness auto
termination
  by (relation "measure (\<lambda>(_, _, _, xs, _, i, _). length xs - i)") (auto simp: diff_less_mono2)

function hole_down :: "('a \<Rightarrow> 'a \<Rightarrow> bool) \<Rightarrow> (nat \<Rightarrow> 'i) \<Rightarrow> 'a list \<Rightarrow> ('a \<Rightarrow> 'i) \<Rightarrow> nat \<Rightarrow> ('a list \<times> ('a \<Rightarrow> 'i)) \<times> nat" where
  "hole_down pick mk xs ix i =
    (if 2 * i + 1 < length xs
     then let k = best_child pick xs i in hole_down pick mk (xs[i := xs ! k]) (ix(xs ! k := mk i)) k
     else ((xs, ix), i))"
  by pat_completeness auto
termination
  by (relation "measure (\<lambda>(_, _, xs, _, i). length xs - i)") (auto simp: diff_less_mono2)

declare sift_up.simps [simp del] sift_down.simps [simp del] hole_down.simps [simp del]

section \<open>Contents\<close>

lemma par_less [simp]: "0 < i \<Longrightarrow> (i - Suc 0) div 2 < i"
  by auto

lemma par_less_less: "0 < i \<Longrightarrow> i < n \<Longrightarrow> (i - Suc 0) div 2 < n"
  by (rule less_trans [OF par_less])

lemma mset_move:
  assumes "i < length xs" "p < length xs" "i \<noteq> p"
  shows "mset ((xs[i := xs ! p])[p := t]) = mset (xs[i := t])"
proof -
  have "(xs[i := xs ! p])[p := t] = (xs[i := t])[i := xs[i := t] ! p, p := xs[i := t] ! i]"
    using assms by simp
  then show ?thesis using assms mset_swap [of p "xs[i := t]" i] by (simp add: list_update_swap)
qed

lemma sift_up_mset: "i < length xs \<Longrightarrow> mset (fst (sift_up stopu mk xs ix i t)) = mset (xs[i := t])"
proof (induction stopu mk xs ix i t rule: sift_up.induct)
  case (1 stopu mk xs ix i t)
  then show ?case by (subst sift_up.simps) (auto simp: mset_move fun_upd_def)
qed

lemma sift_down_mset: "i < length xs \<Longrightarrow> mset (fst (sift_down pick stopd mk xs ix i t)) = mset (xs[i := t])"
proof (induction pick stopd mk xs ix i t rule: sift_down.induct)
  case (1 pick stopd mk xs ix i t)
  then show ?case
    by (subst sift_down.simps) (auto simp: mset_move Let_def best_child_less fun_upd_def)
qed

lemma hole_down_mset:
  "i < length xs \<Longrightarrow> hole_down pick mk xs ix i = ((ys, jx), j) \<Longrightarrow>
    mset (ys[j := v]) = mset (xs[i := v]) \<and> j < length xs \<and> length ys = length xs \<and> length xs \<le> 2 * j + 1"
proof (induction pick mk xs ix i rule: hole_down.induct)
  case (1 pick mk xs ix i)
  show ?case
  proof (cases "2 * i + 1 < length xs")
    case True
    let ?k = "best_child pick xs i"
    have "hole_down pick mk (xs[i := xs ! ?k]) (ix(xs ! ?k := mk i)) ?k = ((ys, jx), j)"
      using 1(3) True by (subst (asm) hole_down.simps) (simp add: Let_def)
    from 1(1) [OF True refl _ this] have "mset (ys[j := v]) = mset ((xs[i := xs ! ?k])[?k := v]) \<and>
      j < length xs \<and> length ys = length xs \<and> length xs \<le> 2 * j + 1"
      using best_child_less [OF True] by simp
    then show ?thesis using mset_move [of i xs ?k v] 1(2) best_child_less [OF True, of pick]
      by (simp add: less_imp_neq)
  next
    case False
    then show ?thesis using 1(2,3) by (subst (asm) hole_down.simps) auto
  qed
qed

lemma hole_down_leaf:
  "i < length xs \<Longrightarrow> hole_down pick mk xs ix i = ((ys, jx), j) \<Longrightarrow> length xs \<le> 2 * l + 1 \<Longrightarrow> l < length xs \<Longrightarrow>
    l \<noteq> j \<Longrightarrow> ys ! l = xs ! l"
proof (induction pick mk xs ix i rule: hole_down.induct)
  case (1 pick mk xs ix i)
  show ?case
  proof (cases "2 * i + 1 < length xs")
    case True
    let ?k = "best_child pick xs i"
    have h: "hole_down pick mk (xs[i := xs ! ?k]) (ix(xs ! ?k := mk i)) ?k = ((ys, jx), j)"
      using 1(3) True by (subst (asm) hole_down.simps) (simp add: Let_def)
    have "l \<noteq> i" using True 1(4) by auto
    then show ?thesis using 1(1) [OF True refl _ h] 1(4-) best_child_less [OF True, of pick] by simp
  next
    case False
    then show ?thesis using 1(2,3) by (subst (asm) hole_down.simps) auto
  qed
qed

lemma sift_up_length [simp]: "length (fst (sift_up stopu mk xs ix i t)) = length xs"
proof (induction stopu mk xs ix i t rule: sift_up.induct)
  case (1 stopu mk xs ix i t)
  then show ?case by (subst sift_up.simps) (auto simp: fun_upd_def)
qed

lemma sift_down_length [simp]: "length (fst (sift_down pick stopd mk xs ix i t)) = length xs"
proof (induction pick stopd mk xs ix i t rule: sift_down.induct)
  case (1 pick stopd mk xs ix i t)
  then show ?case by (subst sift_down.simps) (auto simp: Let_def fun_upd_def)
qed

section \<open>Back-pointers\<close>

definition index_ok :: "(nat \<Rightarrow> 'i) \<Rightarrow> 'a list \<Rightarrow> ('a \<Rightarrow> 'i) \<Rightarrow> bool" where
  "index_ok mk xs ix = (\<forall>j<length xs. ix (xs ! j) = mk j)"

text \<open>The pointers of all positions but the hole.\<close>

definition index_ok_but :: "(nat \<Rightarrow> 'i) \<Rightarrow> 'a list \<Rightarrow> ('a \<Rightarrow> 'i) \<Rightarrow> nat \<Rightarrow> bool" where
  "index_ok_but mk xs ix i = (\<forall>j<length xs. j \<noteq> i \<longrightarrow> ix (xs ! j) = mk j)"

lemma index_ok_butI: "index_ok mk xs ix \<Longrightarrow> index_ok_but mk xs ix i"
  by (simp add: index_ok_def index_ok_but_def)

lemma index_place:
  assumes "index_ok_but mk xs ix i" "distinct (xs[i := t])" "i < length xs"
  shows "index_ok mk (xs[i := t]) (ix(t := mk i))"
  unfolding index_ok_def
proof (intro allI impI)
  fix j assume "j < length (xs[i := t])"
  then have j: "j < length xs" by simp
  show "(ix(t := mk i)) (xs[i := t] ! j) = mk j"
  proof (cases "j = i")
    case False
    then have "xs[i := t] ! j \<noteq> xs[i := t] ! i" using assms(2,3) j by (simp only: nth_eq_iff_index_eq length_list_update) simp
    then show ?thesis using False j assms by (simp add: index_ok_but_def)
  qed (use assms(3) in simp)
qed

lemma index_move:
  assumes "index_ok_but mk xs ix i" "distinct (xs[i := t])" "i < length xs" "p < length xs" "p \<noteq> i"
  shows "index_ok_but mk (xs[i := xs ! p]) (ix(xs ! p := mk i)) p"
  unfolding index_ok_but_def
proof (intro allI impI)
  fix j assume "j < length (xs[i := xs ! p])" and jp: "j \<noteq> p"
  then have j: "j < length xs" by simp
  show "(ix(xs ! p := mk i)) (xs[i := xs ! p] ! j) = mk j"
  proof (cases "j = i")
    case False
    have "xs[i := t] ! j \<noteq> xs[i := t] ! p" using assms j jp by (simp only: nth_eq_iff_index_eq length_list_update) simp
    then have "xs ! j \<noteq> xs ! p" using False assms(5) by simp
    then show ?thesis using False j assms by (simp add: index_ok_but_def)
  qed (use assms(3) in simp)
qed

lemma distinct_move:
  assumes "i < length xs" "p < length xs" "p \<noteq> i"
  shows "distinct ((xs[i := xs ! p])[p := t]) = distinct (xs[i := t])"
  using mset_move [of i xs p t] assms mset_eq_imp_distinct_iff by blast

lemma sift_up_index:
  "index_ok_but mk xs ix i \<Longrightarrow> distinct (xs[i := t]) \<Longrightarrow> i < length xs \<Longrightarrow>
    index_ok mk (fst (sift_up stopu mk xs ix i t)) (snd (sift_up stopu mk xs ix i t))"
proof (induction stopu mk xs ix i t rule: sift_up.induct)
  case (1 stopu mk xs ix i t)
  show ?case
  proof (cases "0 < i \<and> \<not> stopu (xs ! par i) t")
    case True
    then have p: "par i < length xs" "par i \<noteq> i" using 1(4) by auto
    then show ?thesis using 1(1) [OF True index_move [OF 1(2-4) p]] True 1(3,4) distinct_move [OF 1(4) p, of t]
      by (subst (1 2) sift_up.simps) (simp add: fun_upd_def)
  next
    case False
    then show ?thesis using index_place [OF 1(2-4)] by (subst (1 2) sift_up.simps) auto
  qed
qed

lemma sift_down_index:
  "index_ok_but mk xs ix i \<Longrightarrow> distinct (xs[i := t]) \<Longrightarrow> i < length xs \<Longrightarrow>
    index_ok mk (fst (sift_down pick stopd mk xs ix i t)) (snd (sift_down pick stopd mk xs ix i t))"
proof (induction pick stopd mk xs ix i t rule: sift_down.induct)
  case (1 pick stopd mk xs ix i t)
  let ?k = "best_child pick xs i"
  show ?case
  proof (cases "2 * i + 1 < length xs \<and> \<not> stopd t (xs ! ?k)")
    case True
    then have p: "?k < length xs" "?k \<noteq> i" using best_child_less [of i xs pick] by auto
    then show ?thesis using 1(1) [OF True refl index_move [OF 1(2-4) p]] True 1(3,4) distinct_move [OF 1(4) p, of t]
      by (subst (1 2) sift_down.simps) (simp add: Let_def fun_upd_def)
  next
    case False
    then show ?thesis using index_place [OF 1(2-4)] by (subst (1 2) sift_down.simps) auto
  qed
qed

lemma hole_down_index:
  "index_ok_but mk xs ix i \<Longrightarrow> distinct (xs[i := t]) \<Longrightarrow> i < length xs \<Longrightarrow> hole_down pick mk xs ix i = ((ys, jx), j) \<Longrightarrow>
    index_ok_but mk ys jx j"
proof (induction pick mk xs ix i rule: hole_down.induct)
  case (1 pick mk xs ix i)
  let ?k = "best_child pick xs i"
  show ?case
  proof (cases "2 * i + 1 < length xs")
    case True
    then have p: "?k < length xs" "?k \<noteq> i" using best_child_less [of i xs pick] by auto
    have h: "hole_down pick mk (xs[i := xs ! ?k]) (ix(xs ! ?k := mk i)) ?k = ((ys, jx), j)"
      using 1(5) True by (subst (asm) hole_down.simps) (simp add: Let_def)
    show ?thesis using 1(1) [OF True refl index_move [OF 1(2-4) p] _ _ h] 1(3,4) distinct_move [OF 1(4) p, of t] p by simp
  next
    case False
    then show ?thesis using 1(2,5) by (subst (asm) hole_down.simps) auto
  qed
qed

text \<open>Elements outside the heap keep their back-pointer.\<close>

lemma sift_up_other: "i < length xs \<Longrightarrow> y \<notin> set (xs[i := t]) \<Longrightarrow> snd (sift_up stopu mk xs ix i t) y = ix y"
proof (induction stopu mk xs ix i t rule: sift_up.induct)
  case (1 stopu mk xs ix i t)
  show ?case
  proof (cases "0 < i \<and> \<not> stopu (xs ! par i) t")
    case True
    then have p: "par i < length xs" "i \<noteq> par i" using 1(2) by auto
    have "set ((xs[i := xs ! par i])[par i := t]) = set (xs[i := t])"
      using mset_move [OF 1(2) p] by (metis set_mset_mset)
    moreover have "xs ! par i \<in> set (xs[i := t])"
      using p nth_mem [of "par i" "xs[i := t]"] by simp
    ultimately show ?thesis using 1 True p by (subst sift_up.simps) (auto simp: fun_upd_def)
  next
    case False
    have "t \<in> set (xs[i := t])" using 1(2) by (simp add: set_update_memI)
    then show ?thesis using False 1 by (subst sift_up.simps) auto
  qed
qed



section \<open>The heap order\<close>

definition heap_ok :: "('a \<Rightarrow> 'a \<Rightarrow> bool) \<Rightarrow> 'a list \<Rightarrow> bool" where
  "heap_ok ok xs = (\<forall>i. 0 < i \<and> i < length xs \<longrightarrow> ok (xs ! par i) (xs ! i))"

text \<open>Heap order except for the edges at position \<open>i\<close>, whose neighbours are in order around it.\<close>

definition hole_ok :: "('a \<Rightarrow> 'a \<Rightarrow> bool) \<Rightarrow> 'a list \<Rightarrow> nat \<Rightarrow> bool" where
  "hole_ok ok xs i =
    ((\<forall>j. 0 < j \<and> j < length xs \<and> j \<noteq> i \<and> par j \<noteq> i \<longrightarrow> ok (xs ! par j) (xs ! j)) \<and>
     (\<forall>c. 0 < i \<and> 0 < c \<and> c < length xs \<and> par c = i \<longrightarrow> ok (xs ! par i) (xs ! c)))"

definition above_children :: "('a \<Rightarrow> 'a \<Rightarrow> bool) \<Rightarrow> 'a list \<Rightarrow> nat \<Rightarrow> bool" where
  "above_children ok xs i = (\<forall>c. 0 < c \<and> c < length xs \<and> par c = i \<longrightarrow> ok (xs ! i) (xs ! c))"

definition below_parent :: "('a \<Rightarrow> 'a \<Rightarrow> bool) \<Rightarrow> 'a list \<Rightarrow> nat \<Rightarrow> bool" where
  "below_parent ok xs i = (0 < i \<longrightarrow> ok (xs ! par i) (xs ! i))"

lemma hole_ok_edge: "hole_ok ok xs i \<Longrightarrow> 0 < j \<Longrightarrow> j < length xs \<Longrightarrow> j \<noteq> i \<Longrightarrow> par j \<noteq> i \<Longrightarrow> ok (xs ! par j) (xs ! j)"
  unfolding hole_ok_def by blast

lemma hole_ok_bypass: "hole_ok ok xs i \<Longrightarrow> 0 < i \<Longrightarrow> 0 < c \<Longrightarrow> c < length xs \<Longrightarrow> par c = i \<Longrightarrow> ok (xs ! par i) (xs ! c)"
  unfolding hole_ok_def by blast

text \<open>The value at the hole does not matter.\<close>

lemma hole_ok_value: "hole_ok ok (xs[i := v]) i \<Longrightarrow> hole_ok ok xs i"
  unfolding hole_ok_def
proof (intro conjI allI impI; elim conjE)
  fix j
  assume e: "\<forall>j. 0 < j \<and> j < length (xs[i := v]) \<and> j \<noteq> i \<and> par j \<noteq> i \<longrightarrow> ok (xs[i := v] ! par j) (xs[i := v] ! j)"
    and j: "0 < j" "j < length xs" "j \<noteq> i" "par j \<noteq> i"
  from e [rule_format, of j] j show "ok (xs ! par j) (xs ! j)" by simp
next
  fix c
  assume e: "\<forall>c. 0 < i \<and> 0 < c \<and> c < length (xs[i := v]) \<and> par c = i \<longrightarrow> ok (xs[i := v] ! par i) (xs[i := v] ! c)"
    and c: "0 < i" "0 < c" "c < length xs" "par c = i"
  have "c \<noteq> i" "par i \<noteq> i" using c by auto
  with e [rule_format, of c] c show "ok (xs ! par i) (xs ! c)" by simp
qed

lemma heap_ok_split:
  assumes "hole_ok ok xs i" "above_children ok xs i" "below_parent ok xs i"
  shows "heap_ok ok xs"
  unfolding heap_ok_def
proof (intro allI impI)
  fix j assume j: "0 < j \<and> j < length xs"
  consider "j = i" | "par j = i" | "j \<noteq> i" "par j \<noteq> i" by blast
  then show "ok (xs ! par j) (xs ! j)"
  proof cases
    case 1
    then show ?thesis using assms(3) j by (simp add: below_parent_def)
  next
    case 2
    then show ?thesis using assms(2) j unfolding above_children_def by blast
  next
    case 3
    then show ?thesis using hole_ok_edge [OF assms(1)] j by blast
  qed
qed

text \<open>A heap of three elements, for the examples.\<close>

lemma heap_ok_three: "heap_ok ok [a, b, c] \<longleftrightarrow> ok a b \<and> ok a c"
proof -
  have "0 < i \<and> i < length [a, b, c] \<longleftrightarrow> i = 1 \<or> i = 2" for i :: nat by auto
  then show ?thesis unfolding heap_ok_def by auto
qed

lemma index_ok_three: "index_ok mk [a, b, c] ix \<longleftrightarrow> ix a = mk 0 \<and> ix b = mk 1 \<and> ix c = mk 2"
proof -
  have "j < length [a, b, c] \<longleftrightarrow> j = 0 \<or> j = 1 \<or> j = 2" for j :: nat by auto
  then show ?thesis unfolding index_ok_def by auto
qed

locale heap_order =
  fixes ok :: "'a \<Rightarrow> 'a \<Rightarrow> bool"
  assumes ok_trans: "ok a b \<Longrightarrow> ok b c \<Longrightarrow> ok a c"
    and ok_total: "ok a b \<or> ok b a"
begin

lemma ok_refl: "ok a a"
  using ok_total by blast

lemma heap_hole: "heap_ok ok xs \<Longrightarrow> i < length xs \<Longrightarrow> hole_ok ok xs i"
  unfolding heap_ok_def hole_ok_def by (metis ok_trans)

text \<open>Moving the value at \<open>i\<close> up, past its parent.\<close>

lemma move_up:
  fixes xs i defines "p \<equiv> par i"
  defines "ys \<equiv> xs[i := xs ! p, p := xs ! i]"
  assumes h: "hole_ok ok xs i" "above_children ok xs i" and i: "0 < i" "i < length xs"
    and le: "ok (xs ! i) (xs ! p)"
  shows "hole_ok ok ys p \<and> above_children ok ys p"
proof -
  have p: "p < i" using i by (simp add: p_def)
  have ysi: "ys ! i = xs ! p" "ys ! p = xs ! i" using p i by (simp_all add: ys_def)
  have ysj: "ys ! j = xs ! j" if "j \<noteq> i" "j \<noteq> p" for j using that by (simp add: ys_def)
  have len: "length ys = length xs" by (simp add: ys_def)
  have child: "ok (xs ! p) (xs ! c)" if "0 < c" "c < length xs" "par c = p" "c \<noteq> i" for c
    using hole_ok_edge [OF h(1) that(1,2)] that p by simp
  have "hole_ok ok ys p"
    unfolding hole_ok_def len
  proof (intro conjI allI impI)
    fix j assume j: "0 < j \<and> j < length xs \<and> j \<noteq> p \<and> par j \<noteq> p"
    then have ji: "j \<noteq> i" by (auto simp: p_def)
    show "ok (ys ! par j) (ys ! j)"
    proof (cases "par j = i")
      case True
      then have "ok (xs ! p) (xs ! j)" using hole_ok_bypass [OF h(1) i(1)] j by (simp add: p_def)
      then show ?thesis using True ysi ysj j ji by simp
    next
      case False
      then show ?thesis using hole_ok_edge [OF h(1)] j ji ysj by simp
    qed
  next
    fix c assume c: "0 < p \<and> 0 < c \<and> c < length xs \<and> par c = p"
    then have pp: "par p < p" by simp
    have e: "ok (xs ! par p) (xs ! p)" using hole_ok_edge [OF h(1), of p] c p i pp by simp
    have "ys ! par p = xs ! par p" using pp p by (intro ysj) auto
    moreover have "ok (xs ! par p) (ys ! c)"
    proof (cases "c = i")
      case False
      moreover have "c \<noteq> p" using c by auto
      ultimately show ?thesis using child [of c] c e ok_trans ysj by metis
    qed (simp add: ysi e)
    ultimately show "ok (ys ! par p) (ys ! c)" by simp
  qed
  moreover have "above_children ok ys p"
    unfolding above_children_def len
  proof (intro allI impI)
    fix c assume c: "0 < c \<and> c < length xs \<and> par c = p"
    then have "c \<noteq> p" by auto
    then show "ok (ys ! p) (ys ! c)"
      using child [of c] c le ok_trans [OF le] by (cases "c = i") (auto simp: ysi ysj)
  qed
  ultimately show ?thesis by simp
qed

text \<open>Moving the value at \<open>i\<close> down, below the child \<open>k\<close> that may stand above its sibling.\<close>

lemma move_down:
  fixes xs i k
  defines "ys \<equiv> xs[i := xs ! k, k := xs ! i]"
  assumes h: "hole_ok ok xs i" and k: "0 < k" "k < length xs" "par k = i"
    and sib: "\<And>c. 0 < c \<Longrightarrow> c < length xs \<Longrightarrow> par c = i \<Longrightarrow> ok (xs ! k) (xs ! c)"
  shows "hole_ok ok ys k"
proof -
  have i: "i < k" "i < length xs" using k by auto
  have ysi: "ys ! i = xs ! k" "ys ! k = xs ! i" using k i by (simp_all add: ys_def)
  have ysj: "ys ! j = xs ! j" if "j \<noteq> i" "j \<noteq> k" for j using that by (simp add: ys_def)
  have len: "length ys = length xs" by (simp add: ys_def)
  show ?thesis
    unfolding hole_ok_def len
  proof (intro conjI allI impI)
    fix j assume j: "0 < j \<and> j < length xs \<and> j \<noteq> k \<and> par j \<noteq> k"
    consider "par j = i" | "j = i" | "j \<noteq> i" "par j \<noteq> i" by blast
    then show "ok (ys ! par j) (ys ! j)"
    proof cases
      case 1
      then have "j \<noteq> i" using j by auto
      then show ?thesis using 1 j sib [of j] by (simp add: ysi ysj)
    next
      case 2
      then have "par j \<noteq> i" using j by auto
      then show ?thesis using 2 j hole_ok_bypass [OF h, of k] k by (simp add: ysi ysj)
    next
      case 3
      then show ?thesis using j hole_ok_edge [OF h, of j] by (simp add: ysj)
    qed
  next
    fix c assume c: "0 < k \<and> 0 < c \<and> c < length xs \<and> par c = k"
    then have "c \<noteq> k" "c \<noteq> i" using i by auto
    then show "ok (ys ! par k) (ys ! c)" using hole_ok_edge [OF h, of c] c k i by (simp add: ysi ysj)
  qed
qed

lemma root_above_all: "heap_ok ok xs \<Longrightarrow> i < length xs \<Longrightarrow> ok (xs ! 0) (xs ! i)"
proof (induction i rule: less_induct)
  case (less i)
  show ?case
  proof (cases "i = 0")
    case False
    then have "ok (xs ! 0) (xs ! par i)" using less by simp
    moreover have "ok (xs ! par i) (xs ! i)" using less False by (simp add: heap_ok_def)
    ultimately show ?thesis by (rule ok_trans)
  qed (simp add: ok_refl)
qed

end

text \<open>
  The loops restore the heap order when their stopping conditions and their choice of child agree
  with it.
\<close>

locale heap_sift = heap_order ok
  for ok :: "'a \<Rightarrow> 'a \<Rightarrow> bool" +
  fixes stopu stopd pick :: "'a \<Rightarrow> 'a \<Rightarrow> bool"
  assumes stopu_ok: "stopu p t \<Longrightarrow> ok p t" and go_up: "\<not> stopu p t \<Longrightarrow> ok t p"
    and stopd_ok: "stopd t k \<Longrightarrow> ok t k" and go_down: "\<not> stopd t k \<Longrightarrow> ok k t"
    and pick_right: "pick l r \<Longrightarrow> ok r l" and pick_left: "\<not> pick l r \<Longrightarrow> ok l r"
begin

lemma best_child_ok:
  assumes "0 < c" "c < length xs" "par c = i"
  shows "ok (xs ! best_child pick xs i) (xs ! c)"
proof -
  have "c = 2 * i + 1 \<or> c = 2 * i + 2" using assms by auto
  then show ?thesis using assms pick_right pick_left ok_refl by (auto simp: best_child_def)
qed

lemma update_self: "i < length xs \<Longrightarrow> p < length xs \<Longrightarrow> p \<noteq> i \<Longrightarrow>
  (xs[i := t])[i := xs[i := t] ! p, p := xs[i := t] ! i] = (xs[i := xs ! p])[p := t]"
  by simp

lemma place_up:
  assumes "hole_ok ok (xs[i := t]) i" "above_children ok (xs[i := t]) i" "i < length xs" "0 < i \<Longrightarrow> ok (xs ! par i) t"
  shows "heap_ok ok (xs[i := t])"
proof (rule heap_ok_split [OF assms(1,2)])
  have "par i \<noteq> i \<or> i = 0" by auto
  then show "below_parent ok (xs[i := t]) i" using assms(3,4) by (auto simp: below_parent_def)
qed

lemma sift_up_heap:
  "i < length xs \<Longrightarrow> hole_ok ok (xs[i := t]) i \<Longrightarrow> above_children ok (xs[i := t]) i \<Longrightarrow>
    heap_ok ok (fst (sift_up stopu mk xs ix i t))"
proof (induction i arbitrary: xs ix rule: less_induct)
  case (less i)
  show ?case
  proof (cases "0 < i \<and> \<not> stopu (xs ! par i) t")
    case True
    let ?p = "par i"
    have p: "?p < i" "?p < length xs" "?p \<noteq> i" using True less.prems(1) by auto
    have le: "ok ((xs[i := t]) ! i) ((xs[i := t]) ! ?p)" using True go_up p less.prems(1) by simp
    have "hole_ok ok ((xs[i := xs ! ?p])[?p := t]) ?p \<and> above_children ok ((xs[i := xs ! ?p])[?p := t]) ?p"
      using move_up [OF less.prems(2,3) _ _ le] True less.prems(1) update_self [OF less.prems(1) p(2,3), of t] by simp
    then have "heap_ok ok (fst (sift_up stopu mk (xs[i := xs ! ?p]) (ix(xs ! ?p := mk i)) ?p t))"
      using less.IH [OF p(1), of "xs[i := xs ! ?p]"] p by simp
    then show ?thesis using True by (subst sift_up.simps) simp
  next
    case False
    then have "heap_ok ok (xs[i := t])" using place_up [OF less.prems(2,3,1)] stopu_ok by blast
    then show ?thesis using False by (subst sift_up.simps) auto
  qed
qed

lemma sift_down_heap:
  "i < length xs \<Longrightarrow> hole_ok ok (xs[i := t]) i \<Longrightarrow> below_parent ok (xs[i := t]) i \<Longrightarrow>
    heap_ok ok (fst (sift_down pick stopd mk xs ix i t))"
proof (induction "length xs - i" arbitrary: xs ix i rule: less_induct)
  case less
  let ?k = "best_child pick xs i" and ?ys = "xs[i := t]"
  have nth: "?ys ! c = xs ! c" if "par c = i" "0 < c" for c using that by auto
  have kb: "best_child pick ?ys i = ?k" by (simp add: best_child_def)
  show ?case
  proof (cases "2 * i + 1 < length xs \<and> \<not> stopd t (xs ! ?k)")
    case True
    then have k: "?k < length xs" "0 < ?k" "par ?k = i" "?k \<noteq> i" using best_child_less [of i xs pick] by auto
    have "hole_ok ok (?ys[i := ?ys ! ?k, ?k := ?ys ! i]) ?k"
      using best_child_ok [of _ ?ys i] k kb by (intro move_down [OF less.prems(2)]) auto
    then have h: "hole_ok ok ((xs[i := xs ! ?k])[?k := t]) ?k" using update_self [OF less.prems(1) k(1,4), of t] by simp
    have "below_parent ok ((xs[i := xs ! ?k])[?k := t]) ?k"
      using k less.prems(1) True go_down by (simp add: below_parent_def)
    then have "heap_ok ok (fst (sift_down pick stopd mk (xs[i := xs ! ?k]) (ix(xs ! ?k := mk i)) ?k t))"
      using less.hyps [of "xs[i := xs ! ?k]" ?k] h k(1) best_child_par(2) [of i pick xs] by (simp add: diff_less_mono2)
    then show ?thesis using True by (subst sift_down.simps) (simp add: Let_def)
  next
    case False
    have "above_children ok ?ys i"
      unfolding above_children_def
    proof (intro allI impI)
      fix c assume c: "0 < c \<and> c < length ?ys \<and> par c = i"
      then have "2 * i + 1 < length xs" by auto
      then have "ok t (xs ! ?k)" using False stopd_ok by blast
      then have "ok t (xs ! c)" using best_child_ok [of c xs i] c ok_trans by simp
      then show "ok (?ys ! i) (?ys ! c)" using nth [of c] c less.prems(1) by simp
    qed
    then have "heap_ok ok ?ys" using heap_ok_split [OF less.prems(2)] less.prems(3) by blast
    then show ?thesis using False by (subst sift_down.simps) auto
  qed
qed

lemma hole_down_hole:
  "i < length xs \<Longrightarrow> hole_ok ok xs i \<Longrightarrow> hole_down pick mk xs ix i = ((ys, jx), j) \<Longrightarrow> hole_ok ok ys j"
proof (induction "length xs - i" arbitrary: xs ix i rule: less_induct)
  case less
  let ?k = "best_child pick xs i"
  show ?case
  proof (cases "2 * i + 1 < length xs")
    case True
    then have k: "?k < length xs" "0 < ?k" "par ?k = i" "?k \<noteq> i" using best_child_less [of i xs pick] by auto
    have h: "hole_down pick mk (xs[i := xs ! ?k]) (ix(xs ! ?k := mk i)) ?k = ((ys, jx), j)"
      using less.prems(3) True by (subst (asm) hole_down.simps) (simp add: Let_def)
    have "hole_ok ok (xs[i := xs ! ?k, ?k := xs ! i]) ?k"
      using best_child_ok [of _ xs i] k by (intro move_down [OF less.prems(2)]) auto
    then have "hole_ok ok (xs[i := xs ! ?k]) ?k"
      by (rule hole_ok_value)
    then show ?thesis using less.hyps [OF _ _ _ h] k(1) best_child_par(2) [of i pick xs] by (simp add: diff_less_mono2)
  next
    case False
    then show ?thesis using less.prems by (subst (asm) hole_down.simps) auto
  qed
qed

end

section \<open>User-supplied comparisons\<close>

section \<open>Whole operations on an indexed heap\<close>

text \<open>A \<open>std::vector\<close> of pointers holds fewer than \<open>2 ^ 60\<close> of them.\<close>

definition max_pointers :: nat where "max_pointers = 2 ^ 60 - 1"

definition indexed_heap :: "('a \<Rightarrow> 'a \<Rightarrow> bool) \<Rightarrow> (nat \<Rightarrow> 'i) \<Rightarrow> 'a list \<Rightarrow> ('a \<Rightarrow> 'i) \<Rightarrow> bool" where
  "indexed_heap ok mk xs ix = (heap_ok ok xs \<and> distinct xs \<and> index_ok mk xs ix)"

text \<open>\<open>sifted\<close>: the result of a sift is an indexed heap with the elements of \<open>xs\<close>.\<close>

definition sifted :: "('a \<Rightarrow> 'a \<Rightarrow> bool) \<Rightarrow> (nat \<Rightarrow> 'i) \<Rightarrow> 'a list \<Rightarrow> 'a list \<times> ('a \<Rightarrow> 'i) \<Rightarrow> bool" where
  "sifted ok mk xs r = (indexed_heap ok mk (fst r) (snd r) \<and> mset (fst r) = mset xs)"

lemma indexed_heap_Nil [simp]: "indexed_heap ok mk [] ix"
  by (simp add: indexed_heap_def heap_ok_def index_ok_def)

lemma heap_ok_butlast: "heap_ok ok xs \<Longrightarrow> heap_ok ok (butlast xs)"
  unfolding heap_ok_def by (auto simp: nth_butlast)

lemma index_ok_butlast: "index_ok mk xs ix \<Longrightarrow> index_ok mk (butlast xs) ix"
  by (auto simp: index_ok_def nth_butlast)

lemma hole_ok_butlast:
  assumes "hole_ok ok xs i"
  shows "hole_ok ok (butlast xs) i"
  unfolding hole_ok_def
proof (intro conjI allI impI)
  fix j assume j: "0 < j \<and> j < length (butlast xs) \<and> j \<noteq> i \<and> par j \<noteq> i"
  then have "par j < length (butlast xs)" "j < length xs" using par_less_less [of j "length (butlast xs)"] by auto
  then show "ok (butlast xs ! par j) (butlast xs ! j)" using hole_ok_edge [OF assms, of j] j by (simp add: nth_butlast)
next
  fix c assume c: "0 < i \<and> 0 < c \<and> c < length (butlast xs) \<and> par c = i"
  then have "i < length (butlast xs)" using par_less_less [of c "length (butlast xs)"] by auto
  then have "par i < length (butlast xs)" using par_less_less [of i "length (butlast xs)"] c by simp
  moreover have "c < length xs" using c length_butlast [of xs] by linarith
  ultimately show "ok (butlast xs ! par i) (butlast xs ! c)" using hole_ok_bypass [OF assms, of c] c by (simp add: nth_butlast)
qed

lemma index_ok_but_butlast: "index_ok_but mk xs ix i \<Longrightarrow> index_ok_but mk (butlast xs) ix i"
  by (auto simp: index_ok_but_def nth_butlast)

lemma hole_ok_set: "hole_ok ok xs i \<Longrightarrow> hole_ok ok (xs[i := v]) i"
  using hole_ok_value [of ok "xs[i := v]" i "xs ! i"] by (cases "i < length xs") simp_all

lemma indexed_heap_butlast: "indexed_heap ok mk xs ix \<Longrightarrow> indexed_heap ok mk (butlast xs) ix"
  by (simp add: indexed_heap_def heap_ok_butlast index_ok_butlast distinct_butlast)

lemma indexed_heap_position:
  assumes "indexed_heap ok mk xs ix" "x \<in> set xs"
  obtains i where "i < length xs" "xs ! i = x" "ix x = mk i"
  using assms by (auto simp: indexed_heap_def index_ok_def in_set_conv_nth)

text \<open>
  A changed priority: the element at position \<open>i\<close> may be out of order with its neighbours; all other
  pairs are in order.
\<close>

lemma hole_changed:
  assumes "heap_ok ok xs" "i < length xs" "distinct xs" "\<And>a b c. ok a b \<Longrightarrow> ok b c \<Longrightarrow> ok a c"
    and same: "\<And>a b. a \<noteq> xs ! i \<Longrightarrow> b \<noteq> xs ! i \<Longrightarrow> ok' a b = ok a b"
  shows "hole_ok ok' xs i"
  unfolding hole_ok_def
proof (intro conjI allI impI)
  have neq: "xs ! j \<noteq> xs ! i" if "j < length xs" "j \<noteq> i" for j
    using that assms(2,3) by (simp add: nth_eq_iff_index_eq)
  fix j assume j: "0 < j \<and> j < length xs \<and> j \<noteq> i \<and> par j \<noteq> i"
  then have "par j < length xs" using par_less_less by blast
  then show "ok' (xs ! par j) (xs ! j)" using assms(1) j same neq by (simp add: heap_ok_def)
next
  have neq: "xs ! j \<noteq> xs ! i" if "j < length xs" "j \<noteq> i" for j
    using that assms(2,3) by (simp add: nth_eq_iff_index_eq)
  fix c assume c: "0 < i \<and> 0 < c \<and> c < length xs \<and> par c = i"
  have lt: "par i < i" "i < c" "par i < length xs" using c par_less [of i] par_less [of c] assms(2) by auto
  have "ok (xs ! par i) (xs ! i)" "ok (xs ! i) (xs ! c)" using assms(1,2) c by (auto simp: heap_ok_def)
  then have "ok (xs ! par i) (xs ! c)" by (rule assms(4))
  moreover have "xs ! par i \<noteq> xs ! i" by (rule neq) (use lt in simp_all)
  moreover have "xs ! c \<noteq> xs ! i" by (rule neq) (use lt c in simp_all)
  ultimately show "ok' (xs ! par i) (xs ! c)" using same by simp
qed

text \<open>The last element takes the place of the one at \<open>i\<close>.\<close>

lemma replace_by_last:
  assumes "hole_ok ok xs i" "distinct xs" "index_ok_but mk xs ix i" "i < length xs - 1"
  defines "ys \<equiv> (butlast xs)[i := last xs]"
  shows "hole_ok ok ys i" "distinct ys" "index_ok mk ys (ix(last xs := mk i))" "mset xs = add_mset (xs ! i) (mset ys)"
proof -
  have ib: "i < length (butlast xs)" using assms(4) by simp
  have bl: "xs = butlast xs @ [last xs]" using assms(4) by (cases xs rule: rev_cases) simp_all
  show "hole_ok ok ys i" unfolding ys_def by (rule hole_ok_set [OF hole_ok_butlast [OF assms(1)]])
  have "xs ! i \<in># mset (butlast xs)" using nth_mem [OF ib] ib by (simp add: nth_butlast)
  then have "mset (butlast xs) = add_mset (xs ! i) (mset (butlast xs) - {#xs ! i#})" by simp
  moreover have "mset ys = add_mset (last xs) (mset (butlast xs) - {#xs ! i#})"
    using mset_update [OF ib, of "last xs"] ib by (simp add: ys_def nth_butlast)
  moreover have "mset xs = add_mset (last xs) (mset (butlast xs))" by (subst bl) simp
  ultimately show m: "mset xs = add_mset (xs ! i) (mset ys)" using add_mset_commute [of "xs ! i" "last xs"] by metis
  then have "distinct (xs ! i # ys)" using assms(2) mset_eq_imp_distinct_iff [of "xs ! i # ys" xs] by simp
  then show d: "distinct ys" by simp
  then show "index_ok mk ys (ix(last xs := mk i))"
    unfolding ys_def by (intro index_place [OF index_ok_but_butlast [OF assms(3)] _ ib])
qed

context heap_sift
begin

lemma append_up:
  assumes "heap_ok ok xs" "distinct (xs @ [x])" "index_ok_but mk (xs @ [x]) ix (length xs)"
  shows "sifted ok mk (xs @ [x]) (sift_up stopu mk (xs @ [x]) ix (length xs) x)"
proof -
  let ?es = "xs @ [x]" and ?n = "length xs"
  let ?r = "sift_up stopu mk ?es ix ?n x"
  have upd: "?es[?n := x] = ?es" by simp
  have leaf: "\<not> (0 < c \<and> c < Suc ?n \<and> par c = ?n)" for c by auto
  have "hole_ok ok ?es ?n"
    unfolding hole_ok_def
  proof (intro conjI allI impI)
    fix j assume j: "0 < j \<and> j < length ?es \<and> j \<noteq> ?n \<and> par j \<noteq> ?n"
    then have "j < ?n" by simp
    moreover have "par j < ?n" using par_less_less [of j ?n] j calculation by simp
    ultimately show "ok (?es ! par j) (?es ! j)" using assms(1) j by (simp add: heap_ok_def nth_append)
  qed (use leaf in simp)
  moreover have "above_children ok ?es ?n" unfolding above_children_def using leaf by (intro allI impI) (metis length_append_singleton)
  ultimately have "heap_ok ok (fst ?r)"
    using sift_up_heap [of ?n ?es x mk ix] by (simp only: upd) simp
  moreover have "mset (fst ?r) = mset ?es" using sift_up_mset [of ?n ?es _ mk ix x] by (simp only: upd) simp
  moreover have "index_ok mk (fst ?r) (snd ?r)"
    using sift_up_index [OF assms(3), of x] assms(2) by (simp only: upd) simp
  moreover have "distinct (fst ?r)" using calculation(2) assms(2) mset_eq_imp_distinct_iff by blast
  ultimately show ?thesis by (simp add: indexed_heap_def sifted_def)
qed

lemma adjust_up:
  assumes "hole_ok ok xs i" "i < length xs" "distinct xs" "index_ok_but mk xs ix i"
    and go: "0 < i" "ok (xs ! i) (xs ! par i)"
  shows "sifted ok mk xs (sift_up stopu mk xs ix i (xs ! i))"
proof -
  let ?r = "sift_up stopu mk xs ix i (xs ! i)"
  have upd: "xs[i := xs ! i] = xs" by simp
  have "above_children ok xs i"
    unfolding above_children_def
  proof (intro allI impI)
    fix c assume c: "0 < c \<and> c < length xs \<and> par c = i"
    have "ok (xs ! par i) (xs ! c)" using hole_ok_bypass [OF assms(1)] go c by blast
    then show "ok (xs ! i) (xs ! c)" using ok_trans go by blast
  qed
  then have "heap_ok ok (fst ?r)" using sift_up_heap [of i xs "xs ! i" mk ix] assms(1,2) by (simp only: upd)
  moreover have m: "mset (fst ?r) = mset xs" using sift_up_mset [OF assms(2), of _ mk ix "xs ! i"] by (simp only: upd)
  moreover have "index_ok mk (fst ?r) (snd ?r)" using sift_up_index [OF assms(4), of "xs ! i"] assms(2,3) by (simp only: upd)
  moreover have "distinct (fst ?r)" using m assms(3) mset_eq_imp_distinct_iff by blast
  ultimately show ?thesis by (simp add: indexed_heap_def sifted_def)
qed

lemma adjust_down:
  assumes "hole_ok ok xs i" "i < length xs" "distinct xs" "index_ok_but mk xs ix i" "below_parent ok xs i"
  shows "sifted ok mk xs (sift_down pick stopd mk xs ix i (xs ! i))"
proof -
  let ?r = "sift_down pick stopd mk xs ix i (xs ! i)"
  have upd: "xs[i := xs ! i] = xs" by simp
  have "heap_ok ok (fst ?r)" using sift_down_heap [of i xs "xs ! i" mk ix] assms(1,2,5) by (simp only: upd)
  moreover have m: "mset (fst ?r) = mset xs" using sift_down_mset [OF assms(2), of _ _ mk ix "xs ! i"] by (simp only: upd)
  moreover have "index_ok mk (fst ?r) (snd ?r)" using sift_down_index [OF assms(4), of "xs ! i"] assms(2,3) by (simp only: upd)
  moreover have "distinct (fst ?r)" using m assms(3) mset_eq_imp_distinct_iff by blast
  ultimately show ?thesis by (simp add: indexed_heap_def sifted_def)
qed

end

text \<open>
  The contract of a comparator in C++: a strict weak ordering.  Both heaps take their order from
  one; the sublocales give them the facts about the loops.
\<close>

locale strict_weak =
  fixes cmp :: "'a \<Rightarrow> 'a \<Rightarrow> bool"
  assumes cmp_asym: "cmp a b \<Longrightarrow> \<not> cmp b a"
    and cmp_negtrans: "\<not> cmp a b \<Longrightarrow> \<not> cmp b c \<Longrightarrow> \<not> cmp a c"

sublocale strict_weak \<subseteq> max_heap: heap_sift "\<lambda>p c. \<not> cmp p c" "\<lambda>p t. \<not> cmp p t" "\<lambda>t k. \<not> cmp t k" cmp
  by unfold_locales (use cmp_asym cmp_negtrans in blast)+

sublocale strict_weak \<subseteq> min_heap: heap_sift "\<lambda>p c. \<not> cmp c p" cmp cmp "\<lambda>l r. cmp r l"
  by unfold_locales (use cmp_asym cmp_negtrans in blast)+

text \<open>\<open>std::less\<close>, the default comparator.\<close>

interpretation std_less: strict_weak "(<) :: 'a::linorder \<Rightarrow> 'a \<Rightarrow> bool"
  by unfold_locales auto

section \<open>The priority queue interface\<close>

text \<open>
  What both heaps promise their clients: a bag of distinct elements from which \<open>popq\<close> takes one
  that may stand above all others.
\<close>

fun push_all :: "('s \<Rightarrow> 'a \<Rightarrow> 's) \<Rightarrow> 's \<Rightarrow> 'a list \<Rightarrow> 's" where
  "push_all push s [] = s"
| "push_all push s (x # xs) = push_all push (push s x) xs"

fun pop_all :: "('s \<Rightarrow> ('a \<times> 's) outcome) \<Rightarrow> nat \<Rightarrow> 's \<Rightarrow> 'a list outcome" where
  "pop_all popq 0 s = Inr []"
| "pop_all popq (Suc n) s = andThen (popq s) (\<lambda>(x, s). andThen (pop_all popq n s) (\<lambda>xs. Inr (x # xs)))"

locale priority_queue = heap_order above
  for above :: "'a \<Rightarrow> 'a \<Rightarrow> bool" +
  fixes inv :: "'s \<Rightarrow> bool"
    and bag :: "'s \<Rightarrow> 'a multiset"
    and push :: "'s \<Rightarrow> 'a \<Rightarrow> 's"
    and popq :: "'s \<Rightarrow> ('a \<times> 's) outcome"
    and bound :: nat
  assumes bag_distinct: "inv s \<Longrightarrow> count (bag s) x \<le> 1"
    and push_ok: "inv s \<Longrightarrow> x \<notin># bag s \<Longrightarrow> Suc (size (bag s)) \<le> bound \<Longrightarrow>
      inv (push s x) \<and> bag (push s x) = add_mset x (bag s)"
    and popq_ok: "inv s \<Longrightarrow> bag s \<noteq> {#} \<Longrightarrow>
      \<exists>x s'. popq s = Inr (x, s') \<and> inv s' \<and> bag s = add_mset x (bag s') \<and> (\<forall>y\<in>#bag s. above x y)"
begin

lemma push_all_ok:
  "inv s \<Longrightarrow> distinct xs \<Longrightarrow> set xs \<inter> set_mset (bag s) = {} \<Longrightarrow> size (bag s) + length xs \<le> bound \<Longrightarrow>
    inv (push_all push s xs) \<and> bag (push_all push s xs) = mset xs + bag s"
proof (induction xs arbitrary: s)
  case (Cons x xs)
  have p: "inv (push s x)" "bag (push s x) = add_mset x (bag s)"
    using push_ok [of s x] Cons.prems by auto
  show ?case using Cons.IH [OF p(1)] Cons.prems p(2) by auto
qed simp

text \<open>Taking everything out lists the bag in order, highest first.\<close>

lemma pop_all_sorted:
  "inv s \<Longrightarrow> \<exists>xs. pop_all popq (size (bag s)) s = Inr xs \<and> mset xs = bag s \<and> sorted_wrt above xs"
proof (induction "size (bag s)" arbitrary: s)
  case 0
  then show ?case by simp
next
  case (Suc n)
  then have "bag s \<noteq> {#}" by auto
  then obtain x s' where x: "popq s = Inr (x, s')" "inv s'" "bag s = add_mset x (bag s')" "\<forall>y\<in>#bag s. above x y"
    using popq_ok [OF Suc.prems] by blast
  have n: "size (bag s) = Suc n" "n = size (bag s')" using Suc.hyps(2) x(3) by simp_all
  from Suc.hyps(1) [OF n(2) x(2)] obtain xs where "pop_all popq n s' = Inr xs" "mset xs = bag s'" "sorted_wrt above xs"
    using n(2) by auto
  moreover have "\<forall>y\<in>set xs. above x y" using x(3,4) calculation(2) by (metis in_multiset_in_set union_iff add_mset_add_single)
  ultimately show ?case using x(1,3) n(1) by (intro exI [of _ "x # xs"]) simp
qed

lemma heap_sort:
  assumes "inv s" "bag s = {#}" "distinct xs" "length xs \<le> bound"
  shows "\<exists>ys. pop_all popq (length xs) (push_all push s xs) = Inr ys \<and> mset ys = mset xs \<and> sorted_wrt above ys"
proof -
  have "inv (push_all push s xs)" "bag (push_all push s xs) = mset xs"
    using push_all_ok [OF assms(1,3)] assms(2,4) by auto
  with pop_all_sorted [of "push_all push s xs"] show ?thesis by simp
qed

end

end
