(* ===== verification/AdjustablePriorityQueue_Proofs.thy ===== *)
theory AdjustablePriorityQueue_Proofs
  imports AdjustablePriorityQueue Heap_Sift
begin

text \<open>
  Correctness of the adjustable heap: its three loops are the generic ones of \<^verbatim>\<open>Heap_Sift\<close>, every
  operation keeps the heap and the indices stored in the elements, \<open>AllTop\<close> lists the ties.
\<close>

section \<open>The loops of the code are the generic ones\<close>

lemma AdjustUpwards_sift: "AdjustUpwards cmp (xs, ix) i t = sift_up (\<lambda>p t. \<not> cmp p t) int xs ix i t"
proof (induction i arbitrary: xs ix rule: less_induct)
  case (less i)
  show ?case
    by (subst AdjustUpwards.simps, subst sift_up.simps) (auto simp: Let_def put_at_def less fun_upd_def)
qed

lemma AdjustDownwards_sift:
  "AdjustDownwards cmp (xs, ix) i (length xs) t = sift_down cmp (\<lambda>t k. \<not> cmp t k) int xs ix i t"
proof (induction "length xs - i" arbitrary: xs ix i rule: less_induct)
  case less
  have "AdjustDownwards cmp (xs[i := v], ix') k (length xs) t = sift_down cmp (\<lambda>t k. \<not> cmp t k) int (xs[i := v]) ix' k t"
    if "i < k" "k < length xs" for v ix' k
    using less [of "xs[i := v]" k ix'] that by simp
  then show ?case
    by (subst AdjustDownwards.simps, subst sift_down.simps) (simp add: Let_def put_at_def best_child_def)
qed

lemma AdjustHoleDownwards_hole:
  "AdjustHoleDownwards cmp (xs, ix) i (length xs) = hole_down cmp int xs ix i"
proof (induction "length xs - i" arbitrary: xs ix i rule: less_induct)
  case less
  have "AdjustHoleDownwards cmp (xs[i := v], ix') k (length xs) = hole_down cmp int (xs[i := v]) ix' k"
    if "i < k" "k < length xs" for v ix' k
    using less [of "xs[i := v]" k ix'] that by simp
  moreover have "hole_down cmp int (xs[i := v]) ix' (Suc (2 * i)) = ((xs[i := v], ix'), Suc (2 * i))"
    if "\<not> Suc (Suc (2 * i)) < length xs" for v ix'
    using that by (subst hole_down.simps) simp
  ultimately show ?case
    by (subst AdjustHoleDownwards.simps, subst hole_down.simps) (simp add: Let_def put_at_def best_child_def)
qed

section \<open>The invariant\<close>

definition apq_ok :: "('a \<Rightarrow> 'a \<Rightarrow> bool) \<Rightarrow> 'a apq \<Rightarrow> bool" where
  "apq_ok cmp q = indexed_heap (\<lambda>p c. \<not> cmp p c) int (apq_elems q) (apq_index q)"

lemma apq_mem_index:
  assumes "apq_ok cmp q" "x \<in> set (apq_elems q)"
  obtains i where "i < length (apq_elems q)" "apq_elems q ! i = x" "apq_index q x = int i"
  using indexed_heap_position assms unfolding apq_ok_def by metis

lemma Contains_iff:
  assumes "apq_ok cmp q"
  shows "Contains q x \<longleftrightarrow> x \<in> set (apq_elems q)"
proof
  assume "Contains q x"
  then show "x \<in> set (apq_elems q)"
    using nth_mem [of "nat (apq_index q x)" "apq_elems q"] by (simp add: Contains_def Let_def Size_def nat_less_iff)
next
  assume "x \<in> set (apq_elems q)"
  then show "Contains q x" 
    by (rule apq_mem_index [OF assms]) (simp add: Contains_def Let_def Size_def)
qed

context strict_weak
begin

abbreviation "aok \<equiv> (\<lambda>p c. \<not> cmp p c)"

lemma Add_ok:
  assumes "apq_ok cmp q" "x \<notin> set (apq_elems q)"
  shows "apq_ok cmp (Add cmp q x) \<and> mset (apq_elems (Add cmp q x)) = add_mset x (mset (apq_elems q))"
proof -
  have "index_ok_but int (apq_elems q @ [x]) (apq_index q) (length (apq_elems q))"
    using assms by (auto simp: apq_ok_def indexed_heap_def index_ok_def index_ok_but_def nth_append)
  then show ?thesis using max_heap.append_up [of "apq_elems q" x int] assms
    by (simp add: Add_def Let_def AdjustUpwards_sift apq_ok_def indexed_heap_def apq_of_def indexed_heap_def sifted_def)
qed

lemma Top_ok:
  assumes "apq_ok cmp q" "apq_elems q \<noteq> []"
  shows "Top q = Inr (apq_elems q ! 0) \<and> (\<forall>y\<in>set (apq_elems q). \<not> cmp (apq_elems q ! 0) y)"
  using assms max_heap.root_above_all [of "apq_elems q"] by (auto simp: Top_def apq_ok_def indexed_heap_def in_set_conv_nth)

lemma Pop_ok:
  assumes "apq_ok cmp q" "apq_elems q \<noteq> []"
  shows "\<exists>q'. Pop cmp q = Inr q' \<and> apq_ok cmp q' \<and>
    mset (apq_elems q) = add_mset (apq_elems q ! 0) (mset (apq_elems q'))"
proof -
  let ?xs = "apq_elems q" let ?n = "length ?xs" let ?top = "?xs ! 0" let ?v = "?xs ! (?n - 1)"
  have n: "0 < ?n" using assms(2) by simp
  have h: "heap_ok aok ?xs" "distinct ?xs" "index_ok int ?xs (apq_index q)" using assms by (auto simp: apq_ok_def indexed_heap_def)
  obtain ys jx j where d: "hole_down cmp int ?xs (apq_index q) 0 = ((ys, jx), j)" by (metis surj_pair)
  have m: "mset (ys[j := w]) = mset (?xs[0 := w])" and j: "j < ?n" "length ys = ?n" "?n \<le> 2 * j + 1" for w
    using hole_down_mset [OF n d, of w] by auto
  have hole: "hole_ok aok ys j" using max_heap.hole_down_hole [OF n max_heap.heap_hole [OF h(1) n] d] .
  have ix: "index_ok_but int ys jx j"
    using hole_down_index [OF index_ok_butI [OF h(3)] _ n d, of ?top] h(2) by simp
  have mtop: "mset (ys[j := ?top]) = mset ?xs" using m [of ?top] by simp
  then have dist: "distinct (ys[j := ?top])" using h(2) mset_eq_imp_distinct_iff by blast
  have run: "Pop cmp q = Inr (apq_of (if j + 1 = ?n then (butlast ys, jx)
      else sift_up (\<lambda>p t. \<not> cmp p t) int (butlast ys) jx j ?v))"
    using n d by (simp add: Pop_def Let_def Size_def apq_indexed_def AdjustHoleDownwards_hole AdjustUpwards_sift)
  show ?thesis
  proof (cases "j + 1 = ?n")
    case True
    then have jl: "j = length ys - 1" "ys \<noteq> []" using j n by auto
    then have ys: "ys[j := ?top] = butlast ys @ [?top]"
      by (metis append_butlast_last_id length_butlast list_update_length)
    have "heap_ok aok (butlast ys)"
      unfolding heap_ok_def
    proof (intro allI impI)
      fix i assume i: "0 < i \<and> i < length (butlast ys)"
      then have "i < j" using jl by simp
      moreover have "par i < j" using par_less_less [of i j] i calculation by simp
      ultimately show "\<not> cmp (butlast ys ! par i) (butlast ys ! i)"
        using hole_ok_edge [OF hole, of i] i jl by (simp add: nth_butlast)
    qed
    moreover have "index_ok int (butlast ys) jx" using ix jl by (auto simp: index_ok_def index_ok_but_def nth_butlast)
    moreover have "distinct (butlast ys)" using dist ys by simp
    ultimately show ?thesis using run True mtop ys by (simp add: apq_of_def apq_ok_def indexed_heap_def)
  next
    case False
    let ?zs = "butlast ys" let ?r = "sift_up (\<lambda>p t. \<not> cmp p t) int ?zs jx j ?v"
    have jn: "j < ?n - 1" "j < length ?zs" using False j by auto
    have "ys ! (?n - 1) = ?v" using hole_down_leaf [OF n d, of "?n - 1"] False j n by auto
    then have ys: "ys = ?zs @ [?v]" using j n by (metis append_butlast_last_id last_conv_nth length_0_conv less_irrefl)
    have zs: "mset (?zs[j := ?v]) + {#?top#} = mset ?xs"
    proof -
      have "ys[j := ?top] = ?zs[j := ?top] @ [?v]" using jn(2) by (subst ys) (simp add: list_update_append)
      then have "mset ?xs = mset (?zs[j := ?top]) + {#?v#}" using mtop by simp
      also have "\<dots> = mset (?zs[j := ?v]) + {#?top#}" using jn(2) by (simp add: mset_update)
      finally show ?thesis by simp
    qed
    then have dz: "distinct (?zs[j := ?v])" using h(2) mset_eq_imp_distinct_iff [of "?zs[j := ?v] @ [?top]" ?xs] by simp
    have hz: "hole_ok aok (?zs[j := ?v]) j" by (rule hole_ok_set [OF hole_ok_butlast [OF hole]])
    have "above_children aok (?zs[j := ?v]) j" using j(2,3) by (auto simp: above_children_def)
    then have "heap_ok aok (fst ?r)" by (rule max_heap.sift_up_heap [OF jn(2) hz])
    moreover have "mset (fst ?r) = mset (?zs[j := ?v])" by (rule sift_up_mset [OF jn(2)])
    moreover have "index_ok int (fst ?r) (snd ?r)" by (rule sift_up_index [OF index_ok_but_butlast [OF ix] dz jn(2)])
    moreover have "distinct (fst ?r)" using calculation(2) dz mset_eq_imp_distinct_iff by blast
    ultimately show ?thesis using run False zs by (simp add: apq_of_def apq_ok_def indexed_heap_def)
  qed
qed

lemma adjust_hole:
  assumes "hole_ok aok (apq_elems q) i" "i < length (apq_elems q)" "apq_elems q ! i = x" "apq_index q x = int i"
    and d: "distinct (apq_elems q)" and ix: "index_ok int (apq_elems q) (apq_index q)"
  shows "\<exists>q'. NoteChangedPriority cmp q x = Inr q' \<and> apq_ok cmp q' \<and> mset (apq_elems q') = mset (apq_elems q)"
proof (cases "0 < i \<and> cmp (apq_elems q ! par i) x")
  case True
  let ?xs = "apq_elems q" let ?ix = "apq_index q"
  let ?r = "sift_up (\<lambda>p t. \<not> cmp p t) int ?xs ?ix i x"
  have "?r = sift_up (\<lambda>p t. \<not> cmp p t) int (?xs[i := ?xs ! par i]) (?ix(?xs ! par i := int i)) (par i) x"
    using True by (subst sift_up.simps) simp
  then have "NoteChangedPriority cmp q x = Inr (apq_of ?r)" using True assms(2,4)
    by (simp add: NoteChangedPriority_def Let_def Size_def apq_indexed_def put_at_def AdjustUpwards_sift)
  moreover have "sifted aok int ?xs ?r"
    using max_heap.adjust_up [OF assms(1,2) d index_ok_butI [OF ix]] True cmp_asym assms(3) by blast
  ultimately show ?thesis by (simp add: apq_ok_def indexed_heap_def apq_of_def sifted_def)
next
  case False
  let ?xs = "apq_elems q"
  let ?r = "sift_down cmp (\<lambda>t k. \<not> cmp t k) int ?xs (apq_index q) i x"
  have "NoteChangedPriority cmp q x = Inr (apq_of ?r)"
    using False assms(2,4)
    by (auto simp: NoteChangedPriority_def Let_def Size_def apq_indexed_def AdjustDownwards_sift)
  moreover have "below_parent aok ?xs i" using False assms(3) by (auto simp: below_parent_def)
  then have "sifted aok int ?xs ?r"
    using max_heap.adjust_down [OF assms(1,2) d index_ok_butI [OF ix]] assms(3) by blast
  ultimately show ?thesis by (simp add: apq_ok_def indexed_heap_def apq_of_def sifted_def)
qed

lemma Remove_ok:
  assumes "apq_ok cmp q" "x \<in> set (apq_elems q)"
  shows "\<exists>q'. Remove cmp q x = Inr q' \<and> apq_ok cmp q' \<and> mset (apq_elems q) = add_mset x (mset (apq_elems q'))"
proof -
  let ?xs = "apq_elems q" let ?n = "length ?xs"
  obtain i where i: "i < ?n" "?xs ! i = x" "apq_index q x = int i" using apq_mem_index [OF assms] .
  have ne: "?xs \<noteq> []" using assms(2) by auto
  show ?thesis
  proof (cases "int i = int ?n - 1")
    case True
    then have "i = ?n - 1" by linarith
    then have "last ?xs = x" using i(2) ne by (simp add: last_conv_nth)
    then have "?xs = butlast ?xs @ [x]" using ne by (metis append_butlast_last_id)
    then have "mset ?xs = add_mset x (mset (butlast ?xs))" by (metis add_mset_add_single mset_append mset_single_iff_right)
    moreover have "Remove cmp q x = Inr (q\<lparr>apq_elems := butlast ?xs\<rparr>)"
      using True i ne by (simp add: Remove_def Let_def Size_def)
    ultimately show ?thesis using assms(1) by (simp add: apq_ok_def indexed_heap_butlast)
  next
    case False
    have h: "hole_ok aok ?xs i" "distinct ?xs" "index_ok_but int ?xs (apq_index q) i" "index_ok int ?xs (apq_index q)"
      using assms(1) max_heap.heap_hole [OF _ i(1)] index_ok_butI by (auto simp: apq_ok_def indexed_heap_def)
    have l: "i < ?n - 1" using i(1) False by linarith
    let ?ys = "(butlast ?xs)[i := last ?xs]"
    let ?q = "\<lparr>apq_elems = ?ys, apq_index = (apq_index q)(last ?xs := int i)\<rparr>"
    note r = replace_by_last [OF h(1-3) l]
    have "nat (int ?n - 1) = ?n - 1" "?xs ! (?n - 1) = last ?xs" "butlast (?xs[i := last ?xs]) = ?ys"
      using ne l by (simp_all add: last_conv_nth butlast_list_update)
    then have run: "Remove cmp q x = NoteChangedPriority cmp ?q (last ?xs)"
      using i False by (simp add: Remove_def Let_def Size_def apq_indexed_def put_at_def apq_of_def)
    have "\<exists>q'. NoteChangedPriority cmp ?q (last ?xs) = Inr q' \<and> apq_ok cmp q' \<and> mset (apq_elems q') = mset (apq_elems ?q)"
      using r l by (intro adjust_hole [of _ i]) simp_all
    then show ?thesis using run r(4) i(2) by auto
  qed
qed

end

lemma NoteChangedPriority_ok:
  assumes "strict_weak cmp" "strict_weak cmp'" "apq_ok cmp q" "x \<in> set (apq_elems q)"
    and same: "\<And>a b. a \<noteq> x \<Longrightarrow> b \<noteq> x \<Longrightarrow> cmp' a b = cmp a b"
  shows "\<exists>q'. NoteChangedPriority cmp' q x = Inr q' \<and> apq_ok cmp' q' \<and> mset (apq_elems q') = mset (apq_elems q)"
proof -
  obtain i where i: "i < length (apq_elems q)" "apq_elems q ! i = x" "apq_index q x = int i"
    using apq_mem_index [OF assms(3,4)] .
  have h: "heap_ok (\<lambda>p c. \<not> cmp p c) (apq_elems q)" "distinct (apq_elems q)" "index_ok int (apq_elems q) (apq_index q)"
    using assms by (auto simp: apq_ok_def indexed_heap_def)
  have "hole_ok (\<lambda>p c. \<not> cmp' p c) (apq_elems q) i"
    using hole_changed [OF h(1) i(1) h(2), of "\<lambda>p c. \<not> cmp' p c"] strict_weak.cmp_negtrans [OF assms(1)] same i(2)
    by blast
  from strict_weak.adjust_hole [OF assms(2) this i h(2,3)] show ?thesis .
qed

section \<open>AllTop\<close>

definition tie_edge :: "('a \<Rightarrow> 'a \<Rightarrow> bool) \<Rightarrow> 'a list \<Rightarrow> (nat \<times> nat) set" where
  "tie_edge cmp xs = {(i, c). c < length xs \<and> (c = 2 * i + 1 \<or> c = 2 * i + 2) \<and> \<not> cmp (xs ! c) (xs ! i)}"

definition tied_children :: "('a \<Rightarrow> 'a \<Rightarrow> bool) \<Rightarrow> 'a list \<Rightarrow> nat \<Rightarrow> nat list" where
  "tied_children cmp xs i =
    (if 1 + 2 * i < length xs then
       (if \<not> cmp (xs ! (1 + 2 * i)) (xs ! i) then [1 + 2 * i] else []) @
       (if 1 + 2 * i + 1 < length xs \<and> \<not> cmp (xs ! (1 + 2 * i + 1)) (xs ! i) then [1 + 2 * i + 1] else [])
     else [])"

lemma AllTop_loop_step:
  "AllTop_loop cmp xs (i # need) tv = AllTop_loop cmp xs (need @ tied_children cmp xs i) (tv @ [xs ! i])"
  by (simp only: AllTop_loop.simps Let_def tied_children_def)

declare AllTop_loop.simps(2) [simp del]

lemma set_tied_children: "set (tied_children cmp xs i) = tie_edge cmp xs `` {i}"
  by (auto simp: tied_children_def tie_edge_def)

lemma tied_children_sorted: "sorted_wrt (<) (tied_children cmp xs i)"
  by (simp add: tied_children_def)

lemma tied_children_range: "j \<in> set (tied_children cmp xs i) \<Longrightarrow> 2 * i < j \<and> j \<le> 2 * i + 2 \<and> j < length xs"
  by (auto simp: tied_children_def split: if_splits)

lemma tie_edge_less: "(i, j) \<in> (tie_edge cmp xs)\<^sup>* \<Longrightarrow> i \<le> j"
  by (induction rule: rtrancl_induct) (auto simp: tie_edge_def)

text \<open>The work list is the frontier of a breadth-first search, so positions leave it in increasing order.\<close>

lemma AllTop_loop_positions:
  assumes "sorted_wrt (<) need" "\<forall>j\<in>set need. j < 2 * hd need + 1"
  shows "\<exists>is. AllTop_loop cmp xs need tv = tv @ map ((!) xs) is \<and> sorted_wrt (<) is \<and>
    set is = (tie_edge cmp xs)\<^sup>* `` set need"
  using assms
proof (induction cmp xs need tv rule: AllTop_loop.induct)
  case (1 cmp xs topvec)
  show ?case by simp
next
  case (2 cmp xs i need topvec)
  let ?E = "tie_edge cmp xs" and ?kids = "tied_children cmp xs i"
  have lt: "\<forall>j\<in>set need. i < j \<and> j < 2 * i + 1" using 2(2,3) by auto
  have s: "sorted_wrt (<) (need @ ?kids)"
    using 2(2) lt tied_children_sorted [of cmp xs i] by (force simp: sorted_wrt_append dest: tied_children_range)
  have h: "\<forall>j\<in>set (need @ ?kids). j < 2 * hd (need @ ?kids) + 1"
  proof (cases "need @ ?kids")
    case (Cons k ks)
    have "k \<in> set need \<or> (need = [] \<and> k \<in> set ?kids)" using Cons by (cases need) auto
    moreover have "j \<le> 2 * i + 2" if "j \<in> set (need @ ?kids)" for j
      using that lt tied_children_range [of j cmp xs i] by auto
    ultimately show ?thesis using Cons lt tied_children_range [of k cmp xs i] by fastforce
  qed simp
  obtain "is" where r: "AllTop_loop cmp xs (need @ ?kids) (topvec @ [xs ! i]) = (topvec @ [xs ! i]) @ map ((!) xs) is"
    "sorted_wrt (<) is" "set is = ?E\<^sup>* `` set (need @ ?kids)"
    using 2(1) [OF refl refl] s h by (auto simp: tied_children_def)
  have "i < j" if jis: "j \<in> set is" for j
  proof -
    obtain k where "k \<in> set (need @ ?kids)" "(k, j) \<in> ?E\<^sup>*" using jis unfolding r(3) by blast
    then show ?thesis using lt tied_children_range [of k cmp xs i] tie_edge_less [of k j cmp xs] by fastforce
  qed
  then have "sorted_wrt (<) (i # is)" using r(2) by simp
  moreover have "?E\<^sup>* `` {i} = insert i (?E\<^sup>* `` (?E `` {i}))"
    by (auto elim: converse_rtranclE intro: converse_rtrancl_into_rtrancl)
  then have "set (i # is) = ?E\<^sup>* `` set (i # need)" using r(3) set_tied_children [of cmp xs i] by auto
  moreover have "AllTop_loop cmp xs (i # need) topvec = topvec @ map ((!) xs) (i # is)"
    using r(1) by (simp add: AllTop_loop_step)
  ultimately show ?case by blast
qed

context strict_weak
begin

lemma tied_positions:
  assumes "heap_ok (\<lambda>p c. \<not> cmp p c) xs" "xs \<noteq> []"
  shows "(tie_edge cmp xs)\<^sup>* `` {0} = {i. i < length xs \<and> \<not> cmp (xs ! i) (xs ! 0)}" (is "?L = ?R")
proof
  show "?L \<subseteq> ?R"
  proof
    fix j assume "j \<in> ?L"
    then have "(0, j) \<in> (tie_edge cmp xs)\<^sup>*" by simp
    then show "j \<in> ?R"
    proof (induction rule: rtrancl_induct)
      case base
      show ?case using assms(2) cmp_asym by blast
    next
      case (step i c)
      then show ?case using cmp_negtrans [of "xs ! c" "xs ! i" "xs ! 0"] by (auto simp: tie_edge_def)
    qed
  qed
next
  have "(0, i) \<in> (tie_edge cmp xs)\<^sup>*" if "i < length xs" "\<not> cmp (xs ! i) (xs ! 0)" for i
    using that
  proof (induction i rule: less_induct)
    case (less i)
    show ?case
    proof (cases "i = 0")
      case False
      then have p: "par i < i" "\<not> cmp (xs ! par i) (xs ! i)" "\<not> cmp (xs ! 0) (xs ! par i)"
        using assms(1) less.prems(1) max_heap.root_above_all [OF assms(1), of "par i"] by (auto simp: heap_ok_def)
      then have "(0, par i) \<in> (tie_edge cmp xs)\<^sup>*"
        using less cmp_negtrans [OF p(2) less.prems(2)] by simp
      moreover have "\<not> cmp (xs ! i) (xs ! par i)" using cmp_negtrans [OF less.prems(2) p(3)] .
      moreover have "i = 2 * par i + 1 \<or> i = 2 * par i + 2" using False by auto
      ultimately show ?thesis using less.prems(1) by (auto simp: tie_edge_def intro: rtrancl_into_rtrancl)
    qed simp
  qed
  then show "?R \<subseteq> ?L" by auto
qed

lemma AllTop_filter:
  assumes "apq_ok cmp q" "apq_elems q \<noteq> []"
  shows "AllTop cmp q = filter (\<lambda>x. \<not> cmp x (apq_elems q ! 0)) (apq_elems q)"
proof -
  let ?xs = "apq_elems q" let ?tied = "\<lambda>i. \<not> cmp (?xs ! i) (?xs ! 0)"
  obtain "is" where r: "AllTop_loop cmp ?xs [0] [] = map ((!) ?xs) is" "sorted_wrt (<) is" "set is = (tie_edge cmp ?xs)\<^sup>* `` {0}"
    using AllTop_loop_positions [of "[0]" cmp ?xs "[]"] by (simp, blast)
  have "set is = set (filter ?tied [0..<length ?xs])"
    using r(3) tied_positions [of ?xs] assms by (auto simp: apq_ok_def indexed_heap_def)
  then have "is = filter ?tied [0..<length ?xs]"
    using r(2) strict_sorted_equal [of "is" "filter ?tied [0..<length ?xs]"] by (simp add: sorted_wrt_filter)
  then have "AllTop cmp q = map ((!) ?xs) (filter ?tied [0..<length ?xs])"
    using r(1) assms(2) by (simp add: AllTop_def Size_def)
  also have "\<dots> = filter (\<lambda>x. \<not> cmp x (?xs ! 0)) (map ((!) ?xs) [0..<length ?xs])" by (simp add: filter_map o_def)
  also have "\<dots> = filter (\<lambda>x. \<not> cmp x (?xs ! 0)) ?xs" by (simp only: map_nth)
  finally show ?thesis .
qed

end

section \<open>Construction, Clear and CheckValid\<close>

lemma CheckValid_iff: "CheckValid cmp q = Inr () \<longleftrightarrow> heap_ok (\<lambda>p c. \<not> cmp p c) (apq_elems q)"
proof -
  let ?xs = "apq_elems q" let ?n = "length ?xs"
  have "(\<forall>i\<in>set [0..<?n]. (1 + 2 * i < ?n \<longrightarrow> \<not> cmp (?xs ! i) (?xs ! (1 + 2 * i))) \<and>
      (2 + 2 * i < ?n \<longrightarrow> \<not> cmp (?xs ! i) (?xs ! (2 + 2 * i)))) \<longleftrightarrow> heap_ok (\<lambda>p c. \<not> cmp p c) ?xs" (is "?C \<longleftrightarrow> ?H")
  proof
    assume c: ?C
    show ?H
      unfolding heap_ok_def
    proof (intro allI impI)
      fix i assume i: "0 < i \<and> i < ?n"
      then have "par i < ?n" using par_less_less by blast
      moreover have "i = 1 + 2 * par i \<or> i = 2 + 2 * par i" using i by auto
      ultimately show "\<not> cmp (?xs ! par i) (?xs ! i)" using c [rule_format, of "par i"] i by (metis atLeast0LessThan lessThan_iff set_upt)
    qed
  next
    assume h: ?H
    show ?C
    proof (intro ballI conjI impI)
      fix i assume "1 + 2 * i < ?n"
      then show "\<not> cmp (?xs ! i) (?xs ! (1 + 2 * i))" using h [unfolded heap_ok_def, rule_format, of "1 + 2 * i"] by simp
    next
      fix i assume "2 + 2 * i < ?n"
      then show "\<not> cmp (?xs ! i) (?xs ! (2 + 2 * i))" using h [unfolded heap_ok_def, rule_format, of "2 + 2 * i"] by simp
    qed
  qed
  then show ?thesis by (simp add: CheckValid_def Size_def require_def)
qed

lemma fold_index:
  assumes "distinct xs" "n \<le> length xs"
  shows "\<forall>i<n. fold (\<lambda>i ix. ix(xs ! i := int i)) [0..<n] ix (xs ! i) = int i"
  using assms(2)
proof (induction n)
  case (Suc n)
  then show ?case using assms(1) by (auto simp: less_Suc_eq nth_eq_iff_index_eq)
qed simp

lemma new_apq_ok:
  assumes "distinct xs" "mset (make_heap xs) = mset xs" "heap_ok (\<lambda>p c. \<not> cmp p c) (make_heap xs)"
  shows "apq_ok cmp (new_apq make_heap xs ix) \<and> mset (apq_elems (new_apq make_heap xs ix)) = mset xs"
proof (cases "xs = []")
  case False
  have "distinct (make_heap xs)" using assms(1,2) mset_eq_imp_distinct_iff by blast
  then show ?thesis using False assms(2,3) fold_index [of "make_heap xs" "length (make_heap xs)" ix]
    by (simp add: new_apq_def Let_def apq_ok_def indexed_heap_def index_ok_def)
qed (simp add: new_apq_def apq_ok_def indexed_heap_def heap_ok_def index_ok_def)

section \<open>The priority queue interface\<close>

text \<open>\<open>Top\<close> followed by \<open>Pop\<close>: what a client does to take the highest element out.\<close>

definition TopPop :: "('a \<Rightarrow> 'a \<Rightarrow> bool) \<Rightarrow> 'a apq \<Rightarrow> ('a \<times> 'a apq) outcome" where
  "TopPop cmp q = andThen (Top q) (\<lambda>x. andThen (Pop cmp q) (\<lambda>q'. Inr (x, q')))"

sublocale strict_weak \<subseteq> apq: priority_queue "\<lambda>p c. \<not> cmp p c" "apq_ok cmp" "\<lambda>q. mset (apq_elems q)"
  "Add cmp" "TopPop cmp" max_pointers
proof unfold_locales
  fix q :: "'a apq" and x :: 'a
  assume "apq_ok cmp q"
  then show "count (mset (apq_elems q)) x \<le> 1"
    by (simp add: apq_ok_def indexed_heap_def distinct_count_atmost_1)
next
  fix q :: "'a apq" and x :: 'a
  assume "apq_ok cmp q" "x \<notin># mset (apq_elems q)"
  then show "apq_ok cmp (Add cmp q x) \<and> mset (apq_elems (Add cmp q x)) = add_mset x (mset (apq_elems q))"
    using Add_ok by simp
next
  fix q :: "'a apq"
  assume "apq_ok cmp q" "mset (apq_elems q) \<noteq> {#}"
  then show "\<exists>x q'. TopPop cmp q = Inr (x, q') \<and> apq_ok cmp q' \<and> mset (apq_elems q) = add_mset x (mset (apq_elems q')) \<and>
      (\<forall>y\<in>#mset (apq_elems q). \<not> cmp x y)"
    using Top_ok [of q] Pop_ok [of q] by (auto simp: TopPop_def)
qed

context strict_weak
begin

lemma apq_heap_sort:
  assumes "apq_ok cmp q" "apq_elems q = []" "distinct xs" "length xs \<le> max_pointers"
  shows "\<exists>ys. pop_all (TopPop cmp) (length xs) (push_all (Add cmp) q xs) = Inr ys \<and>
    mset ys = mset xs \<and> sorted_wrt (\<lambda>a b. \<not> cmp a b) ys"
  using apq.heap_sort [OF assms(1) _ assms(3,4)] assms(2) by simp

end

section \<open>Properties\<close>

text \<open>
  Property C6.  Every operation of \<open>AdjustablePriorityQueue\<close> keeps the heap order, the distinctness of the
  elements and the heap index stored in each of them: \<open>Add\<close> adds an element that is not yet in the
  queue; \<open>Pop\<close> takes out the one \<open>Top\<close> shows, which no element exceeds, and both are bad accesses on an
  empty queue; \<open>Remove\<close> takes out the given element wherever it is; \<open>NoteChangedPriority\<close>, called after the
  priority of one element has gone up or down, restores the queue for the new ordering with the same
  elements; \<open>Clear\<close> empties it.  \<open>Contains\<close> decides membership, \<open>AllTop\<close> lists the elements that tie with the
  top in the order of their positions, and \<open>CheckValid\<close> passes.
\<close>
theorem AdjustablePriorityQueue_operations:
  assumes "strict_weak cmp" "apq_ok cmp q"
  shows "(x \<notin> set (apq_elems q) \<longrightarrow>
      apq_ok cmp (Add cmp q x) \<and> mset (apq_elems (Add cmp q x)) = add_mset x (mset (apq_elems q))) \<and>
    (\<not> IsEmpty q \<longrightarrow> (\<exists>t q'. Top q = Inr t \<and> Pop cmp q = Inr q' \<and> apq_ok cmp q' \<and>
      mset (apq_elems q) = add_mset t (mset (apq_elems q')) \<and> (\<forall>y\<in>set (apq_elems q). \<not> cmp t y) \<and>
      AllTop cmp q = filter (\<lambda>y. \<not> cmp y t) (apq_elems q))) \<and>
    (IsEmpty q \<longrightarrow> Top q = Inl BadAccess \<and> Pop cmp q = Inl BadAccess \<and> AllTop cmp q = []) \<and>
    (x \<in> set (apq_elems q) \<longrightarrow> (\<exists>q'. Remove cmp q x = Inr q' \<and> apq_ok cmp q' \<and>
      mset (apq_elems q) = add_mset x (mset (apq_elems q')))) \<and>
    (x \<in> set (apq_elems q) \<and> strict_weak cmp' \<and> (\<forall>a b. a \<noteq> x \<and> b \<noteq> x \<longrightarrow> cmp' a b = cmp a b) \<longrightarrow>
      (\<exists>q'. NoteChangedPriority cmp' q x = Inr q' \<and> apq_ok cmp' q' \<and> mset (apq_elems q') = mset (apq_elems q))) \<and>
    (Contains q x \<longleftrightarrow> x \<in> set (apq_elems q)) \<and>
    (apq_ok cmp (Clear q) \<and> IsEmpty (Clear q)) \<and>
    CheckValid cmp q = Inr ()"
proof -
  have "x \<in> set (apq_elems q) \<and> strict_weak cmp' \<and> (\<forall>a b. a \<noteq> x \<and> b \<noteq> x \<longrightarrow> cmp' a b = cmp a b) \<longrightarrow>
      (\<exists>q'. NoteChangedPriority cmp' q x = Inr q' \<and> apq_ok cmp' q' \<and> mset (apq_elems q') = mset (apq_elems q))"
    using NoteChangedPriority_ok [OF assms(1) _ assms(2)] by blast
  moreover have "\<not> IsEmpty q \<longrightarrow> (\<exists>t q'. Top q = Inr t \<and> Pop cmp q = Inr q' \<and> apq_ok cmp q' \<and>
      mset (apq_elems q) = add_mset t (mset (apq_elems q')) \<and> (\<forall>y\<in>set (apq_elems q). \<not> cmp t y) \<and>
      AllTop cmp q = filter (\<lambda>y. \<not> cmp y t) (apq_elems q))"
    using strict_weak.Top_ok [OF assms] strict_weak.Pop_ok [OF assms] strict_weak.AllTop_filter [OF assms]
    by (auto simp: IsEmpty_def Top_def)
  moreover have "CheckValid cmp q = Inr ()" using assms(2) by (simp add: CheckValid_iff apq_ok_def indexed_heap_def)
  ultimately show ?thesis
    using strict_weak.Add_ok [OF assms] strict_weak.Remove_ok [OF assms] Contains_iff [OF assms(2)]
    by (auto simp: IsEmpty_def Clear_def apq_ok_def Top_def Pop_def AllTop_def Size_def)
qed

text \<open>The example: three elements compared by their tens, of which two tie for the top.\<close>

abbreviation tens :: "int \<Rightarrow> int \<Rightarrow> bool" where
  "tens a b \<equiv> a div 10 < b div 10"

abbreviation apq_example :: "int apq" where
  "apq_example \<equiv> \<lparr>apq_elems = [51, 52, 20], apq_index = \<lambda>x. if x = 51 then 0 else if x = 52 then 1 else 2\<rparr>"

lemma strict_weak_tens: "strict_weak tens"
  by unfold_locales auto

lemma apq_ok_example: "apq_ok tens apq_example"
  by (simp add: apq_ok_def indexed_heap_def heap_ok_three index_ok_three)

text \<open>The element 20 gets the highest priority.\<close>

abbreviation tens_raised :: "int \<Rightarrow> int \<Rightarrow> bool" where
  "tens_raised a b \<equiv> (if a = 20 then 90 else a div 10) < (if b = 20 then 90 else b div 10)"

lemma strict_weak_tens_raised: "strict_weak tens_raised"
  by unfold_locales auto

theorem AdjustablePriorityQueue_operations_witness:
  "(\<exists>q'. Remove tens apq_example 20 = Inr q' \<and> mset (apq_elems q') = {#51, 52#}) \<and>
   (\<exists>q'. NoteChangedPriority tens_raised apq_example 20 = Inr q' \<and> apq_ok tens_raised q' \<and> mset (apq_elems q') = {#51, 52, 20#})"
  using AdjustablePriorityQueue_operations [OF strict_weak_tens apq_ok_example, of 20 tens_raised] strict_weak_tens_raised
  by (auto simp: add_mset_commute)

text \<open>
  \<open>AllTop\<close> lists exactly the elements that tie with the top, each once and in the order of
  their positions; its breadth-first search ends.
\<close>
theorem AllTop_lists_ties:
  assumes "strict_weak cmp" "apq_ok cmp q" "Top q = Inr t"
  shows "(AllTop cmp q = filter (\<lambda>x. \<not> cmp x t) (apq_elems q)) \<and>
    (distinct (AllTop cmp q))"
proof -
  have ne: "apq_elems q \<noteq> []" and t: "t = apq_elems q ! 0" using assms(3) by (auto simp: Top_def require_def split: if_splits)
  show ?thesis
    using strict_weak.AllTop_filter [OF assms(1,2) ne] t assms(2) by (simp add: apq_ok_def indexed_heap_def)
qed

theorem AllTop_lists_ties_witness: "AllTop tens apq_example = [51, 52]"
  using AllTop_lists_ties [OF strict_weak_tens apq_ok_example, of 51] by (simp add: Top_def)

text \<open>
  \<open>CheckValid\<close> returns exactly on a heap and otherwise fails a \<open>CHECK\<close>; the constructor from
  a range gives a valid queue of its elements, whatever heap \<open>std::make_heap\<close> arranges them into.
\<close>
theorem construct_and_CheckValid:
  assumes "distinct xs" "mset (make_heap xs) = mset xs" "CheckValid cmp \<lparr>apq_elems = make_heap xs, apq_index = ix\<rparr> = Inr ()"
  shows "(apq_ok cmp (new_apq make_heap xs ix)) \<and>
    (mset (apq_elems (new_apq make_heap xs ix)) = mset xs) \<and>
    (CheckValid cmp q = (if heap_ok (\<lambda>p c. \<not> cmp p c) (apq_elems q) then Inr () else Inl CheckFailed))"
proof -
  have "heap_ok (\<lambda>p c. \<not> cmp p c) (make_heap xs)" using assms(3) CheckValid_iff [of cmp "\<lparr>apq_elems = make_heap xs, apq_index = ix\<rparr>"] by simp
  from new_apq_ok [of _ make_heap, OF assms(1,2) this] show ?thesis
    using CheckValid_iff [of cmp q] by (auto simp: CheckValid_def require_def split: if_splits)
qed

theorem construct_and_CheckValid_witness: "apq_ok tens (new_apq id [51, 52, 20] (\<lambda>_. 0))"
  using construct_and_CheckValid [of "[51, 52, 20]" id tens "\<lambda>_. 0"] by (simp add: CheckValid_iff heap_ok_three)

text \<open>
  Adding any distinct elements to an empty \<open>AdjustablePriorityQueue\<close> and taking them out with
  \<open>Top\<close> and \<open>Pop\<close> returns them all, in an order in which none precedes one of higher priority.
\<close>
theorem AdjustablePriorityQueue_sorts:
  assumes "strict_weak cmp" "distinct xs" "length xs \<le> max_pointers"
  shows "\<exists>ys. pop_all (TopPop cmp) (length xs) (push_all (Add cmp) (new_apq make_heap [] ix) xs) = Inr ys \<and>
    mset ys = mset xs \<and> sorted_wrt (\<lambda>a b. \<not> cmp a b) ys"
proof -
  have "apq_ok cmp (new_apq make_heap [] ix)" by (simp add: new_apq_def apq_ok_def)
  from strict_weak.apq_heap_sort [OF assms(1) this _ assms(2,3)] show ?thesis by (simp add: new_apq_def)
qed

theorem AdjustablePriorityQueue_sorts_witness:
  "\<exists>ys. pop_all (TopPop (<)) (length [5, 2, 9 :: int]) (push_all (Add (<)) (new_apq id [] (\<lambda>_. 0)) [5, 2, 9 :: int]) = Inr ys \<and>
    mset ys = {#5, 2, 9#} \<and> sorted_wrt (\<lambda>a b. \<not> a < b) ys"
  using AdjustablePriorityQueue_sorts [OF std_less.strict_weak_axioms, of "[5, 2, 9 :: int]" id "\<lambda>_. 0"]
  by (simp add: max_pointers_def del: pop_all.simps)

end
