(* ===== verification/IntrusiveHeap.thy ===== *)
theory IntrusiveHeap
  imports Gloop_Prelude
begin

text \<open>
  The intrusive min-heap, \<^verbatim>\<open>src/gloop/util/gtl/intrusive_heap.h\<close>.

  Elements are pointers of type \<open>'a\<close>; \<open>compare a b\<close> is the \<open>PtrCompare\<close> policy; the link that the
  \<open>LinkAccess\<close> policy stores in each element is the function \<open>ih_link\<close>, with \<open>kNotMember\<close> the
  \<open>size_t\<close> value \<open>-1\<close>.  Heap sizes stay below \<open>2 ^ 63\<close>, so index arithmetic does not wrap.
\<close>

definition kNotMember :: nat where "kNotMember = 2 ^ 64 - 1"

record 'a iheap =
  ih_heap :: "'a list"
  ih_link :: "'a \<Rightarrow> nat"

definition ih_new :: "('a \<Rightarrow> nat) \<Rightarrow> 'a iheap" where
  "ih_new link = \<lparr>ih_heap = [], ih_link = link\<rparr>"

definition GetPositionOf :: "'a iheap \<Rightarrow> 'a \<Rightarrow> nat" where
  "GetPositionOf h t = ih_link h t"

definition SetPositionOf :: "'a iheap \<Rightarrow> 'a \<Rightarrow> nat \<Rightarrow> 'a iheap" where
  "SetPositionOf h t pos = h\<lparr>ih_link := (ih_link h)(t := pos)\<rparr>"

text \<open>\<open>heap()[i] = v\<close> followed by \<open>SetPositionOf(v, i)\<close>.\<close>

definition set_slot :: "'a iheap \<Rightarrow> nat \<Rightarrow> 'a \<Rightarrow> 'a iheap" where
  "set_slot h i v = SetPositionOf (h\<lparr>ih_heap := (ih_heap h)[i := v]\<rparr>) v i"

function FixHeapUp_loop :: "('a \<Rightarrow> 'a \<Rightarrow> bool) \<Rightarrow> 'a iheap \<Rightarrow> nat \<Rightarrow> 'a \<Rightarrow> 'a iheap" where
  "FixHeapUp_loop compare h i t =
    (if i \<noteq> 0 then
       let parent = (i - 1) div 2 in
       if compare (ih_heap h ! parent) t then set_slot h i t
       else FixHeapUp_loop compare (set_slot h i (ih_heap h ! parent)) parent t
     else set_slot h i t)"
  by pat_completeness auto
termination by (relation "measure (\<lambda>(_, _, i, _). i)") auto

definition FixHeapUp :: "('a \<Rightarrow> 'a \<Rightarrow> bool) \<Rightarrow> 'a iheap \<Rightarrow> 'a \<Rightarrow> 'a iheap" where
  "FixHeapUp compare h t = FixHeapUp_loop compare h (GetPositionOf h t) t"

function FixHeapDown_loop :: "('a \<Rightarrow> 'a \<Rightarrow> bool) \<Rightarrow> 'a iheap \<Rightarrow> nat \<Rightarrow> 'a \<Rightarrow> 'a iheap" where
  "FixHeapDown_loop compare h i t =
    (let kid = 2 * i + 1 in
     if kid \<ge> length (ih_heap h) then set_slot h i t
     else
       let kid = (if kid + 1 < length (ih_heap h) \<and> compare (ih_heap h ! (kid + 1)) (ih_heap h ! kid)
                  then kid + 1 else kid) in
       if compare t (ih_heap h ! kid) then set_slot h i t
       else FixHeapDown_loop compare (set_slot h i (ih_heap h ! kid)) kid t)"
  by pat_completeness auto
termination
  by (relation "measure (\<lambda>(_, h, i, _). length (ih_heap h) - i)") (auto simp: set_slot_def SetPositionOf_def)

declare FixHeapUp_loop.simps [simp del] FixHeapDown_loop.simps [simp del]

definition FixHeapDown :: "('a \<Rightarrow> 'a \<Rightarrow> bool) \<Rightarrow> 'a iheap \<Rightarrow> 'a \<Rightarrow> 'a iheap" where
  "FixHeapDown compare h t = FixHeapDown_loop compare h (GetPositionOf h t) t"

definition ih_size :: "'a iheap \<Rightarrow> nat" where "ih_size h = length (ih_heap h)"

definition ih_empty :: "'a iheap \<Rightarrow> bool" where "ih_empty h = (ih_heap h = [])"

definition ih_Contains :: "'a iheap \<Rightarrow> 'a \<Rightarrow> bool" where
  "ih_Contains h t =
    (let p = GetPositionOf h t in p \<noteq> kNotMember \<and> p < ih_size h \<and> ih_heap h ! p = t)"

definition ih_top :: "'a iheap \<Rightarrow> 'a outcome" where
  "ih_top h = require CheckFailed (\<not> ih_empty h) (Inr (ih_heap h ! 0))"

definition ih_Push :: "('a \<Rightarrow> 'a \<Rightarrow> bool) \<Rightarrow> 'a iheap \<Rightarrow> 'a \<Rightarrow> 'a iheap" where
  "ih_Push compare h t =
    (let h = SetPositionOf h t (ih_size h);
         h = h\<lparr>ih_heap := ih_heap h @ [t]\<rparr> in
     FixHeapUp compare h t)"

definition ih_Adjust :: "('a \<Rightarrow> 'a \<Rightarrow> bool) \<Rightarrow> 'a iheap \<Rightarrow> 'a \<Rightarrow> 'a iheap outcome" where
  "ih_Adjust compare h t = require CheckFailed (ih_Contains h t)
    (let p = GetPositionOf h t in
     if p \<noteq> 0 \<and> compare t (ih_heap h ! ((p - 1) div 2)) then Inr (FixHeapUp compare h t)
     else Inr (FixHeapDown compare h t))"

definition ih_Remove :: "('a \<Rightarrow> 'a \<Rightarrow> bool) \<Rightarrow> 'a iheap \<Rightarrow> 'a \<Rightarrow> 'a iheap outcome" where
  "ih_Remove compare h t = require CheckFailed (ih_Contains h t)
    (let p = GetPositionOf h t;
         h = SetPositionOf h t kNotMember in
     if p = ih_size h - 1 then Inr (h\<lparr>ih_heap := butlast (ih_heap h)\<rparr>)
     else
       let elem = last (ih_heap h);
           h = set_slot h p elem;
           h = h\<lparr>ih_heap := butlast (ih_heap h)\<rparr> in
       ih_Adjust compare h elem)"

definition ih_Pop :: "('a \<Rightarrow> 'a \<Rightarrow> bool) \<Rightarrow> 'a iheap \<Rightarrow> ('a \<times> 'a iheap) outcome" where
  "ih_Pop compare h = andThen (ih_top h) (\<lambda>t. andThen (ih_Remove compare h t) (\<lambda>h. Inr (t, h)))"

definition ih_Clear :: "'a iheap \<Rightarrow> 'a iheap" where
  "ih_Clear h = h\<lparr>ih_heap := []\<rparr>"

end
