(* ===== verification/IntrusiveHeap_Proofs.thy ===== *)
theory IntrusiveHeap_Proofs
  imports IntrusiveHeap Heap_Sift
begin

text \<open>
  Correctness of the intrusive heap: the loops are the generic ones, every operation keeps the heap
  order and the links, and the \<open>CHECK\<close>s fire exactly on an empty heap and on non-members.
\<close>

section \<open>The loops of the code are the generic ones\<close>

definition iheap_of :: "'a list \<times> ('a \<Rightarrow> nat) \<Rightarrow> 'a iheap" where
  "iheap_of r = \<lparr>ih_heap = fst r, ih_link = snd r\<rparr>"

lemma set_slot_eq: "set_slot h i v = \<lparr>ih_heap = (ih_heap h)[i := v], ih_link = (ih_link h)(v := i)\<rparr>"
  by (simp add: set_slot_def SetPositionOf_def)

lemma FixHeapUp_sift:
  "FixHeapUp_loop compare h i t = iheap_of (sift_up compare id (ih_heap h) (ih_link h) i t)"
proof (induction i arbitrary: h rule: less_induct)
  case (less i)
  have "FixHeapUp_loop compare (set_slot h i v) k t =
      iheap_of (sift_up compare id ((ih_heap h)[i := v]) ((ih_link h)(v := i)) k t)" if "k < i" for v k
    using less [OF that, of "set_slot h i v"] by (simp add: set_slot_eq id_def fun_upd_def)
  then show ?case
    by (subst FixHeapUp_loop.simps, subst sift_up.simps)
      (simp add: Let_def set_slot_eq [of h _ t] iheap_of_def)
qed

lemma FixHeapDown_sift:
  "FixHeapDown_loop compare h i t =
    iheap_of (sift_down (\<lambda>l r. compare r l) compare id (ih_heap h) (ih_link h) i t)"
proof (induction "length (ih_heap h) - i" arbitrary: h i rule: less_induct)
  case less
  have "FixHeapDown_loop compare (set_slot h i v) k t =
      iheap_of (sift_down (\<lambda>l r. compare r l) compare id ((ih_heap h)[i := v]) ((ih_link h)(v := i)) k t)"
    if "i < k" "k < length (ih_heap h)" for v k
    using less [of "set_slot h i v" k] that by (simp add: set_slot_eq)
  then show ?case
    by (subst FixHeapDown_loop.simps, subst sift_down.simps)
      (simp add: Let_def set_slot_eq [of h i t] best_child_def iheap_of_def)
qed

section \<open>The invariant\<close>

definition ih_ok :: "('a \<Rightarrow> 'a \<Rightarrow> bool) \<Rightarrow> 'a iheap \<Rightarrow> bool" where
  "ih_ok compare h = (indexed_heap (\<lambda>p c. \<not> compare c p) id (ih_heap h) (ih_link h) \<and>
    length (ih_heap h) \<le> max_pointers)"

lemma ih_position:
  assumes "ih_ok compare h" "x \<in> set (ih_heap h)"
  obtains i where "i < length (ih_heap h)" "ih_heap h ! i = x" "ih_link h x = i"
  using assms(1) indexed_heap_position [OF _ assms(2)] unfolding ih_ok_def by (metis id_apply)

lemma not_member_bound: "n \<le> max_pointers \<Longrightarrow> i < n \<Longrightarrow> i \<noteq> kNotMember"
  by (simp add: kNotMember_def max_pointers_def)

lemma ih_Contains_iff:
  assumes "ih_ok compare h"
  shows "ih_Contains h x \<longleftrightarrow> x \<in> set (ih_heap h)"
proof
  assume "ih_Contains h x"
  then show "x \<in> set (ih_heap h)"
    using nth_mem [of "ih_link h x" "ih_heap h"] by (simp add: ih_Contains_def Let_def GetPositionOf_def ih_size_def)
next
  assume "x \<in> set (ih_heap h)"
  then obtain i where "i < length (ih_heap h)" "ih_heap h ! i = x" "ih_link h x = i" by (rule ih_position [OF assms])
  then show "ih_Contains h x" using not_member_bound [of "length (ih_heap h)" i] assms
    by (simp add: ih_Contains_def Let_def GetPositionOf_def ih_size_def ih_ok_def)
qed

lemma ih_of_sifted:
  assumes "sifted (\<lambda>p c. \<not> compare c p) id xs r" "length xs \<le> max_pointers"
  shows "ih_ok compare (iheap_of r) \<and> mset (ih_heap (iheap_of r)) = mset xs"
  using assms mset_eq_length [of "fst r" xs] by (simp add: sifted_def ih_ok_def iheap_of_def)

context strict_weak
begin

abbreviation "iok \<equiv> (\<lambda>p c. \<not> cmp c p)"

lemma ih_Push_ok:
  assumes "ih_ok cmp h" "x \<notin> set (ih_heap h)" "Suc (length (ih_heap h)) \<le> max_pointers"
  shows "ih_ok cmp (ih_Push cmp h x) \<and> mset (ih_heap (ih_Push cmp h x)) = add_mset x (mset (ih_heap h))"
proof -
  let ?n = "length (ih_heap h)"
  let ?r = "sift_up cmp id (ih_heap h @ [x]) ((ih_link h)(x := ?n)) ?n x"
  have "index_ok_but id (ih_heap h @ [x]) ((ih_link h)(x := ?n)) ?n"
    using assms(1,2) nth_mem [of _ "ih_heap h"]
    by (auto simp: ih_ok_def indexed_heap_def index_ok_def index_ok_but_def nth_append less_Suc_eq)
  then have "sifted iok id (ih_heap h @ [x]) ?r"
    using min_heap.append_up [of "ih_heap h" x id] assms by (simp add: ih_ok_def indexed_heap_def)
  moreover have "ih_Push cmp h x = iheap_of ?r"
    by (simp add: ih_Push_def FixHeapUp_def FixHeapUp_sift GetPositionOf_def SetPositionOf_def ih_size_def Let_def)
  ultimately show ?thesis using ih_of_sifted [of cmp "ih_heap h @ [x]" ?r] assms(3) by simp
qed

lemma ih_top_ok:
  assumes "ih_ok cmp h" "ih_heap h \<noteq> []"
  shows "ih_top h = Inr (ih_heap h ! 0) \<and> (\<forall>y\<in>set (ih_heap h). \<not> cmp y (ih_heap h ! 0))"
  using assms min_heap.root_above_all [of "ih_heap h"]
  by (auto simp: ih_top_def ih_empty_def ih_ok_def indexed_heap_def in_set_conv_nth)

lemma ih_adjust_hole:
  assumes "hole_ok iok (ih_heap h) i" "i < length (ih_heap h)" "ih_heap h ! i = x" "ih_link h x = i"
    and d: "distinct (ih_heap h)" and ix: "index_ok id (ih_heap h) (ih_link h)" and len: "length (ih_heap h) \<le> max_pointers"
  shows "\<exists>h'. ih_Adjust cmp h x = Inr h' \<and> ih_ok cmp h' \<and> mset (ih_heap h') = mset (ih_heap h)"
proof -
  let ?xs = "ih_heap h"
  have c: "ih_Contains h x" using assms(2-4) not_member_bound [OF len assms(2)]
    by (simp add: ih_Contains_def Let_def GetPositionOf_def ih_size_def)
  show ?thesis
  proof (cases "0 < i \<and> cmp x (?xs ! par i)")
    case True
    let ?r = "sift_up cmp id ?xs (ih_link h) i x"
    have "sifted iok id ?xs ?r"
      using min_heap.adjust_up [OF assms(1,2) d index_ok_butI [OF ix]] True cmp_asym assms(3) by blast
    moreover have "ih_Adjust cmp h x = Inr (iheap_of ?r)"
      using c True assms(4) by (simp add: ih_Adjust_def GetPositionOf_def FixHeapUp_def FixHeapUp_sift)
    ultimately show ?thesis using ih_of_sifted [OF _ len] by blast
  next
    case False
    let ?r = "sift_down (\<lambda>l r. cmp r l) cmp id ?xs (ih_link h) i x"
    have "below_parent iok ?xs i" using False assms(3) by (auto simp: below_parent_def)
    then have "sifted iok id ?xs ?r"
      using min_heap.adjust_down [OF assms(1,2) d index_ok_butI [OF ix]] assms(3) by blast
    moreover have "ih_Adjust cmp h x = Inr (iheap_of ?r)"
      using c False assms(4) by (auto simp: ih_Adjust_def GetPositionOf_def FixHeapDown_def FixHeapDown_sift)
    ultimately show ?thesis using ih_of_sifted [OF _ len] by blast
  qed
qed

lemma ih_Remove_ok:
  assumes "ih_ok cmp h" "x \<in> set (ih_heap h)"
  shows "\<exists>h'. ih_Remove cmp h x = Inr h' \<and> ih_ok cmp h' \<and> mset (ih_heap h) = add_mset x (mset (ih_heap h'))"
proof -
  let ?xs = "ih_heap h" let ?n = "length ?xs"
  obtain i where i: "i < ?n" "?xs ! i = x" "ih_link h x = i" using ih_position [OF assms] .
  have c: "ih_Contains h x" using ih_Contains_iff [OF assms(1)] assms(2) by blast
  have ne: "?xs \<noteq> []" using assms(2) by auto
  have d: "distinct ?xs" and len: "?n \<le> max_pointers" using assms(1) by (auto simp: ih_ok_def indexed_heap_def)
  let ?ix = "(ih_link h)(x := kNotMember)"
  have ixb: "index_ok_but id ?xs ?ix i"
    using assms(1) i(1) d unfolding ih_ok_def indexed_heap_def index_ok_def index_ok_but_def i(2) [symmetric]
    by (simp add: nth_eq_iff_index_eq)
  show ?thesis
  proof (cases "i = ?n - 1")
    case True
    then have bl: "?xs = butlast ?xs @ [x]" using i(2) ne by (metis append_butlast_last_id last_conv_nth)
    then have "mset ?xs = add_mset x (mset (butlast ?xs))" by (metis add_mset_add_single mset_append mset_single_iff_right)
    moreover have "ih_Remove cmp h x = Inr (\<lparr>ih_heap = butlast ?xs, ih_link = ?ix\<rparr>)"
      using True c i by (simp add: ih_Remove_def GetPositionOf_def SetPositionOf_def ih_size_def)
    moreover have "index_ok id (butlast ?xs) ?ix"
      using ixb True by (auto simp: index_ok_but_def index_ok_def nth_butlast)
    ultimately show ?thesis using assms(1)
      by (auto simp: ih_ok_def indexed_heap_def heap_ok_butlast distinct_butlast)
  next
    case False
    then have l: "i < ?n - 1" using i(1) by linarith
    let ?ys = "(butlast ?xs)[i := last ?xs]"
    let ?h = "\<lparr>ih_heap = ?ys, ih_link = ?ix(last ?xs := i)\<rparr>"
    have "hole_ok iok ?xs i" using assms(1) min_heap.heap_hole [OF _ i(1)] by (auto simp: ih_ok_def indexed_heap_def)
    note r = replace_by_last [OF this d ixb l]
    have "butlast (?xs[i := last ?xs]) = ?ys" using l by (simp add: butlast_list_update)
    then have run: "ih_Remove cmp h x = ih_Adjust cmp ?h (last ?xs)"
      using c i False by (cases h) (simp add: ih_Remove_def GetPositionOf_def SetPositionOf_def ih_size_def set_slot_def Let_def)
    have "\<exists>h'. ih_Adjust cmp ?h (last ?xs) = Inr h' \<and> ih_ok cmp h' \<and> mset (ih_heap h') = mset (ih_heap ?h)"
      using r l len by (intro ih_adjust_hole [of _ i]) simp_all
    then show ?thesis using run r(4) i(2) by auto
  qed
qed

lemma ih_Pop_ok:
  assumes "ih_ok cmp h" "ih_heap h \<noteq> []"
  shows "\<exists>x h'. ih_Pop cmp h = Inr (x, h') \<and> ih_ok cmp h' \<and> mset (ih_heap h) = add_mset x (mset (ih_heap h')) \<and>
    (\<forall>y\<in>set (ih_heap h). \<not> cmp y x)"
proof -
  obtain h' where "ih_Remove cmp h (ih_heap h ! 0) = Inr h'" "ih_ok cmp h'"
    "mset (ih_heap h) = add_mset (ih_heap h ! 0) (mset (ih_heap h'))"
    using ih_Remove_ok [OF assms(1), of "ih_heap h ! 0"] assms(2) by auto
  then show ?thesis using ih_top_ok [OF assms] by (simp add: ih_Pop_def)
qed

end

lemma ih_Adjust_ok:
  assumes "strict_weak cmp" "strict_weak cmp'" "ih_ok cmp h" "x \<in> set (ih_heap h)"
    and same: "\<And>a b. a \<noteq> x \<Longrightarrow> b \<noteq> x \<Longrightarrow> cmp' a b = cmp a b"
  shows "\<exists>h'. ih_Adjust cmp' h x = Inr h' \<and> ih_ok cmp' h' \<and> mset (ih_heap h') = mset (ih_heap h)"
proof -
  obtain i where i: "i < length (ih_heap h)" "ih_heap h ! i = x" "ih_link h x = i" using ih_position [OF assms(3,4)] .
  have h: "heap_ok (\<lambda>p c. \<not> cmp c p) (ih_heap h)" "distinct (ih_heap h)" "index_ok id (ih_heap h) (ih_link h)"
    "length (ih_heap h) \<le> max_pointers"
    using assms(3) by (auto simp: ih_ok_def indexed_heap_def)
  have "hole_ok (\<lambda>p c. \<not> cmp' c p) (ih_heap h) i"
    using hole_changed [OF h(1) i(1) h(2), of "\<lambda>p c. \<not> cmp' c p"] strict_weak.cmp_negtrans [OF assms(1)] same i(2)
    by blast
  from strict_weak.ih_adjust_hole [OF assms(2) this i h(2-4)] show ?thesis .
qed

text \<open>A removed element is no longer linked, so later calls with it fail their \<open>CHECK\<close>.\<close>

lemma ih_nonmember_CHECK:
  assumes "ih_ok compare h" "x \<notin> set (ih_heap h)"
  shows "ih_Remove compare h x = Inl CheckFailed" "ih_Adjust compare h x = Inl CheckFailed"
  using assms ih_Contains_iff [OF assms(1), of x] by (simp_all add: ih_Remove_def ih_Adjust_def)

section \<open>The priority queue interface\<close>

sublocale strict_weak \<subseteq> iheap: priority_queue "\<lambda>p c. \<not> cmp c p" "ih_ok cmp" "\<lambda>h. mset (ih_heap h)"
  "ih_Push cmp" "ih_Pop cmp" max_pointers
proof unfold_locales
  fix h :: "'a iheap" and x :: 'a
  assume "ih_ok cmp h"
  then show "count (mset (ih_heap h)) x \<le> 1"
    by (simp add: ih_ok_def indexed_heap_def distinct_count_atmost_1)
next
  fix h :: "'a iheap" and x :: 'a
  assume "ih_ok cmp h" "x \<notin># mset (ih_heap h)" "Suc (size (mset (ih_heap h))) \<le> max_pointers"
  then show "ih_ok cmp (ih_Push cmp h x) \<and> mset (ih_heap (ih_Push cmp h x)) = add_mset x (mset (ih_heap h))"
    using ih_Push_ok by simp
next
  fix h :: "'a iheap"
  assume "ih_ok cmp h" "mset (ih_heap h) \<noteq> {#}"
  then show "\<exists>x h'. ih_Pop cmp h = Inr (x, h') \<and> ih_ok cmp h' \<and> mset (ih_heap h) = add_mset x (mset (ih_heap h')) \<and>
      (\<forall>y\<in>#mset (ih_heap h). \<not> cmp y x)"
    using ih_Pop_ok [of h] by simp
qed

context strict_weak
begin

lemma ih_heap_sort:
  assumes "ih_ok cmp h" "ih_heap h = []" "distinct xs" "length xs \<le> max_pointers"
  shows "\<exists>ys. pop_all (ih_Pop cmp) (length xs) (push_all (ih_Push cmp) h xs) = Inr ys \<and>
    mset ys = mset xs \<and> sorted_wrt (\<lambda>a b. \<not> cmp b a) ys"
  using iheap.heap_sort [OF assms(1) _ assms(3,4)] assms(2) by simp

end

section \<open>Properties\<close>

text \<open>
  Property C9.  Every operation of \<open>IntrusiveHeap\<close> keeps the heap order, the links of all members and
  the distinctness of the members: \<open>Push\<close> of a non-member adds it, as long as there are fewer members than a
  vector of pointers can hold; \<open>top\<close> is a least member and \<open>Pop\<close> takes it out; \<open>Remove\<close> of a member takes
  out that member; \<open>Adjust\<close>, called after the ordering of one member has changed in either direction,
  gives a heap with the same members for the new ordering; \<open>Clear\<close> empties the heap.  \<open>Contains\<close> decides
  membership.  \<open>top\<close> and \<open>Pop\<close> fail their \<open>CHECK\<close> exactly on the empty heap, \<open>Remove\<close> and \<open>Adjust\<close> on
  a pointer that is no member.
\<close>
theorem IntrusiveHeap_operations:
  assumes "strict_weak compare" "ih_ok compare h"
  shows "(x \<notin> set (ih_heap h) \<longrightarrow> ih_size h < max_pointers \<longrightarrow>
      ih_ok compare (ih_Push compare h x) \<and> mset (ih_heap (ih_Push compare h x)) = add_mset x (mset (ih_heap h))) \<and>
    (\<not> ih_empty h \<longrightarrow> (\<exists>t h'. ih_top h = Inr t \<and> ih_Pop compare h = Inr (t, h') \<and> ih_ok compare h' \<and>
      mset (ih_heap h) = add_mset t (mset (ih_heap h')) \<and> (\<forall>y\<in>set (ih_heap h). \<not> compare y t))) \<and>
    (ih_empty h \<longrightarrow> ih_top h = Inl CheckFailed \<and> ih_Pop compare h = Inl CheckFailed) \<and>
    (x \<in> set (ih_heap h) \<longrightarrow> (\<exists>h'. ih_Remove compare h x = Inr h' \<and> ih_ok compare h' \<and>
      mset (ih_heap h) = add_mset x (mset (ih_heap h')))) \<and>
    (x \<in> set (ih_heap h) \<and> strict_weak compare' \<and> (\<forall>a b. a \<noteq> x \<and> b \<noteq> x \<longrightarrow> compare' a b = compare a b) \<longrightarrow>
      (\<exists>h'. ih_Adjust compare' h x = Inr h' \<and> ih_ok compare' h' \<and> mset (ih_heap h') = mset (ih_heap h))) \<and>
    (x \<notin> set (ih_heap h) \<longrightarrow> ih_Remove compare h x = Inl CheckFailed \<and> ih_Adjust compare h x = Inl CheckFailed) \<and>
    (ih_ok compare (ih_Clear h) \<and> ih_empty (ih_Clear h)) \<and>
    (ih_Contains h x \<longleftrightarrow> x \<in> set (ih_heap h))"
proof -
  have "x \<in> set (ih_heap h) \<and> strict_weak compare' \<and> (\<forall>a b. a \<noteq> x \<and> b \<noteq> x \<longrightarrow> compare' a b = compare a b) \<longrightarrow>
      (\<exists>h'. ih_Adjust compare' h x = Inr h' \<and> ih_ok compare' h' \<and> mset (ih_heap h') = mset (ih_heap h))"
    using ih_Adjust_ok [OF assms(1) _ assms(2)] by blast
  moreover have "\<not> ih_empty h \<longrightarrow> (\<exists>t h'. ih_top h = Inr t \<and> ih_Pop compare h = Inr (t, h') \<and> ih_ok compare h' \<and>
      mset (ih_heap h) = add_mset t (mset (ih_heap h')) \<and> (\<forall>y\<in>set (ih_heap h). \<not> compare y t))"
    using strict_weak.ih_Pop_ok [OF assms] strict_weak.ih_top_ok [OF assms] by (auto simp: ih_empty_def ih_Pop_def andThen_eq_Inr)
  ultimately show ?thesis
    using strict_weak.ih_Push_ok [OF assms] strict_weak.ih_Remove_ok [OF assms] ih_Contains_iff [OF assms(2)]
      ih_nonmember_CHECK [OF assms(2)]
    by (simp add: ih_size_def ih_Clear_def ih_empty_def ih_ok_def ih_top_def ih_Pop_def)
qed

abbreviation ih_example :: "int iheap" where
  "ih_example \<equiv> \<lparr>ih_heap = [1, 3, 2], ih_link = \<lambda>x. if x = 1 then 0 else if x = 3 then 1 else 2\<rparr>"

lemma ih_ok_example: "ih_ok (<) ih_example"
  by (simp add: ih_ok_def indexed_heap_def heap_ok_three index_ok_three max_pointers_def)

text \<open>The member 1 becomes the greatest.\<close>

abbreviation one_raised :: "int \<Rightarrow> int \<Rightarrow> bool" where
  "one_raised a b \<equiv> (if a = 1 then 4 else a) < (if b = 1 then 4 else b)"

lemma strict_weak_one_raised: "strict_weak one_raised"
  by unfold_locales auto

theorem IntrusiveHeap_operations_witness:
  "ih_ok (<) (ih_Push (<) ih_example 0) \<and>
   (\<exists>h'. ih_Adjust one_raised ih_example 1 = Inr h' \<and> ih_ok one_raised h' \<and> mset (ih_heap h') = {#1, 3, 2#})"
  using IntrusiveHeap_operations [OF std_less.strict_weak_axioms ih_ok_example, of 0]
    IntrusiveHeap_operations [OF std_less.strict_weak_axioms ih_ok_example, of 1 one_raised] strict_weak_one_raised
  by (simp add: ih_size_def max_pointers_def)

text \<open>
  Pushing any distinct pointers into an empty \<open>IntrusiveHeap\<close> and popping until it is empty
  returns them all, in an order in which none is preceded by a greater one.
\<close>
theorem IntrusiveHeap_sorts:
  assumes "strict_weak compare" "distinct xs" "length xs \<le> max_pointers"
  shows "\<exists>ys. pop_all (ih_Pop compare) (length xs) (push_all (ih_Push compare) (ih_new link) xs) = Inr ys \<and>
    mset ys = mset xs \<and> sorted_wrt (\<lambda>a b. \<not> compare b a) ys"
proof -
  have "ih_ok compare (ih_new link)" by (simp add: ih_new_def ih_ok_def)
  from strict_weak.ih_heap_sort [OF assms(1) this _ assms(2,3)] show ?thesis by (simp add: ih_new_def)
qed

theorem IntrusiveHeap_sorts_witness:
  "\<exists>ys. pop_all (ih_Pop (<)) (length [5, 2, 9 :: int]) (push_all (ih_Push (<)) (ih_new (\<lambda>_. 0)) [5, 2, 9 :: int]) = Inr ys \<and>
    mset ys = {#5, 2, 9#} \<and> sorted_wrt (\<lambda>a b. \<not> b < a) ys"
  using IntrusiveHeap_sorts [OF std_less.strict_weak_axioms, of "[5, 2, 9 :: int]" "\<lambda>_. 0"] by (simp add: max_pointers_def del: pop_all.simps)

end
