(* ===== verification/Endian.thy ===== *)
theory Endian
  imports Gloop_Prelude
begin

text \<open>
  Byte order, \<^verbatim>\<open>src/gloop/util/endian/endian.h\<close>, with the unaligned accesses of
  \<^verbatim>\<open>src/gloop/util/gtl/unaligned.h\<close>.

  The byte order of the machine is an argument \<open>h\<close>, so that both branches of every conditional
  compilation are modelled.  \<open>absl::byteswap\<close> is the C++23 \<open>std::byteswap\<close>, and \<open>absl::uint128\<close>
  a 128-bit unsigned integer.  The overloads on arrays only add a \<open>static_assert\<close>; those on ranges
  check the size of the range, here the argument \<open>sz\<close>, before they access its start.
\<close>

section \<open>Integers as bytes\<close>

datatype bytesex = IS_LITTLE_ENDIAN | IS_BIG_ENDIAN

text \<open>The integer whose bytes, from the least significant one, are given; and the bytes of an integer.\<close>

primrec le_word :: "u8 list \<Rightarrow> 'a::len word" where
  "le_word [] = 0"
| "le_word (b # bs) = ucast b OR push_bit 8 (le_word bs)"

definition le_bytes :: "nat \<Rightarrow> 'a::len word \<Rightarrow> u8 list" where
  "le_bytes n w = map (\<lambda>i. ucast (drop_bit (8 * i) w)) [0..<n]"

definition size_of :: "'a::len word itself \<Rightarrow> nat" where
  "size_of _ = LENGTH('a) div 8"

text \<open>The object representation of an integer: the bytes in the order of the machine.\<close>

definition host_order :: "bytesex \<Rightarrow> u8 list \<Rightarrow> u8 list" where
  "host_order h bs = (case h of IS_LITTLE_ENDIAN \<Rightarrow> bs | IS_BIG_ENDIAN \<Rightarrow> rev bs)"

definition representation :: "bytesex \<Rightarrow> 'a::len word \<Rightarrow> u8 list" where
  "representation h w = host_order h (le_bytes (size_of TYPE('a word)) w)"

definition byteswap :: "'a::len word \<Rightarrow> 'a word" where
  "byteswap w = le_word (rev (le_bytes (size_of TYPE('a word)) w))"

definition MakeUint128 :: "u64 \<Rightarrow> u64 \<Rightarrow> u128" where
  "MakeUint128 high low = push_bit 64 (ucast high) OR ucast low"

definition Uint128Low64 :: "u128 \<Rightarrow> u64" where "Uint128Low64 v = ucast v"

definition Uint128High64 :: "u128 \<Rightarrow> u64" where "Uint128High64 v = ucast (drop_bit 64 v)"

section \<open>Unaligned access\<close>

definition UnalignedLoad :: "bytesex \<Rightarrow> mem \<Rightarrow> addr \<Rightarrow> 'a::len word" where
  "UnalignedLoad h m p = le_word (host_order h (load_bytes m p (size_of TYPE('a word))))"

definition UnalignedStore :: "bytesex \<Rightarrow> mem \<Rightarrow> 'a::len word \<Rightarrow> addr \<Rightarrow> mem" where
  "UnalignedStore h m v p = store_bytes m p (representation h v)"

definition UnalignedLoad_range :: "bytesex \<Rightarrow> mem \<Rightarrow> addr \<Rightarrow> nat \<Rightarrow> 'a::len word outcome" where
  "UnalignedLoad_range h m p sz = require HardeningAssert (sz \<ge> size_of TYPE('a word)) (Inr (UnalignedLoad h m p))"

definition UnalignedStore_range :: "bytesex \<Rightarrow> mem \<Rightarrow> 'a::len word \<Rightarrow> addr \<Rightarrow> nat \<Rightarrow> mem outcome" where
  "UnalignedStore_range h m v p sz = require HardeningAssert (sz \<ge> size_of TYPE('a word)) (Inr (UnalignedStore h m v p))"

section \<open>Network order\<close>

definition gbswap_16 :: "u16 \<Rightarrow> u16" where "gbswap_16 x = byteswap x"
definition gbswap_32 :: "u32 \<Rightarrow> u32" where "gbswap_32 x = byteswap x"
definition gbswap_64 :: "u64 \<Rightarrow> u64" where "gbswap_64 x = byteswap x"

definition gbswap_128 :: "u128 \<Rightarrow> u128" where
  "gbswap_128 x = MakeUint128 (byteswap (Uint128Low64 x)) (byteswap (Uint128High64 x))"

definition ghtons :: "bytesex \<Rightarrow> u16 \<Rightarrow> u16" where
  "ghtons h x = (case h of IS_LITTLE_ENDIAN \<Rightarrow> byteswap x | IS_BIG_ENDIAN \<Rightarrow> x)"

definition ghtonl :: "bytesex \<Rightarrow> u32 \<Rightarrow> u32" where
  "ghtonl h x = (case h of IS_LITTLE_ENDIAN \<Rightarrow> byteswap x | IS_BIG_ENDIAN \<Rightarrow> x)"

definition ghtonll :: "bytesex \<Rightarrow> u64 \<Rightarrow> u64" where
  "ghtonll h x = (case h of IS_LITTLE_ENDIAN \<Rightarrow> byteswap x | IS_BIG_ENDIAN \<Rightarrow> x)"

definition gntohs :: "bytesex \<Rightarrow> u16 \<Rightarrow> u16" where "gntohs h x = ghtons h x"
definition gntohl :: "bytesex \<Rightarrow> u32 \<Rightarrow> u32" where "gntohl h x = ghtonl h x"
definition gntohll :: "bytesex \<Rightarrow> u64 \<Rightarrow> u64" where "gntohll h x = ghtonll h x"

section \<open>LittleEndian\<close>

definition LE_FromHost16 :: "bytesex \<Rightarrow> u16 \<Rightarrow> u16" where
  "LE_FromHost16 h x = (case h of IS_LITTLE_ENDIAN \<Rightarrow> x | IS_BIG_ENDIAN \<Rightarrow> byteswap x)"
definition LE_ToHost16 :: "bytesex \<Rightarrow> u16 \<Rightarrow> u16" where
  "LE_ToHost16 h x = (case h of IS_LITTLE_ENDIAN \<Rightarrow> x | IS_BIG_ENDIAN \<Rightarrow> byteswap x)"
definition LE_FromHost32 :: "bytesex \<Rightarrow> u32 \<Rightarrow> u32" where
  "LE_FromHost32 h x = (case h of IS_LITTLE_ENDIAN \<Rightarrow> x | IS_BIG_ENDIAN \<Rightarrow> byteswap x)"
definition LE_ToHost32 :: "bytesex \<Rightarrow> u32 \<Rightarrow> u32" where
  "LE_ToHost32 h x = (case h of IS_LITTLE_ENDIAN \<Rightarrow> x | IS_BIG_ENDIAN \<Rightarrow> byteswap x)"
definition LE_FromHost64 :: "bytesex \<Rightarrow> u64 \<Rightarrow> u64" where
  "LE_FromHost64 h x = (case h of IS_LITTLE_ENDIAN \<Rightarrow> x | IS_BIG_ENDIAN \<Rightarrow> byteswap x)"
definition LE_ToHost64 :: "bytesex \<Rightarrow> u64 \<Rightarrow> u64" where
  "LE_ToHost64 h x = (case h of IS_LITTLE_ENDIAN \<Rightarrow> x | IS_BIG_ENDIAN \<Rightarrow> byteswap x)"
definition LE_FromHost128 :: "bytesex \<Rightarrow> u128 \<Rightarrow> u128" where
  "LE_FromHost128 h x = (case h of IS_LITTLE_ENDIAN \<Rightarrow> x | IS_BIG_ENDIAN \<Rightarrow> gbswap_128 x)"
definition LE_ToHost128 :: "bytesex \<Rightarrow> u128 \<Rightarrow> u128" where
  "LE_ToHost128 h x = (case h of IS_LITTLE_ENDIAN \<Rightarrow> x | IS_BIG_ENDIAN \<Rightarrow> gbswap_128 x)"

definition LE_Load16 :: "bytesex \<Rightarrow> mem \<Rightarrow> addr \<Rightarrow> u16" where
  "LE_Load16 h m p = LE_ToHost16 h (UnalignedLoad h m p)"
definition LE_Load16_range :: "bytesex \<Rightarrow> mem \<Rightarrow> addr \<Rightarrow> nat \<Rightarrow> u16 outcome" where
  "LE_Load16_range h m p sz = require HardeningAssert (sz \<ge> 2) (Inr (LE_Load16 h m p))"
definition LE_Store16 :: "bytesex \<Rightarrow> mem \<Rightarrow> addr \<Rightarrow> u16 \<Rightarrow> mem" where
  "LE_Store16 h m p v = UnalignedStore h m (LE_FromHost16 h v) p"
definition LE_Store16_range :: "bytesex \<Rightarrow> mem \<Rightarrow> addr \<Rightarrow> nat \<Rightarrow> u16 \<Rightarrow> mem outcome" where
  "LE_Store16_range h m p sz v = require HardeningAssert (sz \<ge> 2) (Inr (LE_Store16 h m p v))"

text \<open>On a little-endian machine three bytes are copied over a zero; otherwise they are assembled.\<close>

definition LE_Load24 :: "bytesex \<Rightarrow> mem \<Rightarrow> addr \<Rightarrow> u32" where
  "LE_Load24 h m p = (case h of
     IS_LITTLE_ENDIAN \<Rightarrow> le_word (load_bytes m p 3 @ [0])
   | IS_BIG_ENDIAN \<Rightarrow> ucast (LE_Load16 h m p) + push_bit 16 (ucast (m (p + 2))))"
definition LE_Load24_range :: "bytesex \<Rightarrow> mem \<Rightarrow> addr \<Rightarrow> nat \<Rightarrow> u32 outcome" where
  "LE_Load24_range h m p sz = require HardeningAssert (sz \<ge> 3) (Inr (LE_Load24 h m p))"
definition LE_Store24 :: "bytesex \<Rightarrow> mem \<Rightarrow> addr \<Rightarrow> u32 \<Rightarrow> mem" where
  "LE_Store24 h m p v = (case h of
     IS_LITTLE_ENDIAN \<Rightarrow> store_bytes m p (take 3 (representation h v))
   | IS_BIG_ENDIAN \<Rightarrow> m(p := ucast (v AND 0xFF), p + 1 := ucast (drop_bit 8 v AND 0xFF), p + 2 := ucast (drop_bit 16 v AND 0xFF)))"
definition LE_Store24_range :: "bytesex \<Rightarrow> mem \<Rightarrow> addr \<Rightarrow> nat \<Rightarrow> u32 \<Rightarrow> mem outcome" where
  "LE_Store24_range h m p sz v = require HardeningAssert (sz \<ge> 3) (Inr (LE_Store24 h m p v))"

definition LE_Load32 :: "bytesex \<Rightarrow> mem \<Rightarrow> addr \<Rightarrow> u32" where
  "LE_Load32 h m p = LE_ToHost32 h (UnalignedLoad h m p)"
definition LE_Load32_range :: "bytesex \<Rightarrow> mem \<Rightarrow> addr \<Rightarrow> nat \<Rightarrow> u32 outcome" where
  "LE_Load32_range h m p sz = require HardeningAssert (sz \<ge> 4) (Inr (LE_Load32 h m p))"
definition LE_Store32 :: "bytesex \<Rightarrow> mem \<Rightarrow> addr \<Rightarrow> u32 \<Rightarrow> mem" where
  "LE_Store32 h m p v = UnalignedStore h m (LE_FromHost32 h v) p"
definition LE_Store32_range :: "bytesex \<Rightarrow> mem \<Rightarrow> addr \<Rightarrow> nat \<Rightarrow> u32 \<Rightarrow> mem outcome" where
  "LE_Store32_range h m p sz v = require HardeningAssert (sz \<ge> 4) (Inr (LE_Store32 h m p v))"

definition LE_Load64 :: "bytesex \<Rightarrow> mem \<Rightarrow> addr \<Rightarrow> u64" where
  "LE_Load64 h m p = LE_ToHost64 h (UnalignedLoad h m p)"
definition LE_Load64_range :: "bytesex \<Rightarrow> mem \<Rightarrow> addr \<Rightarrow> nat \<Rightarrow> u64 outcome" where
  "LE_Load64_range h m p sz = require HardeningAssert (sz \<ge> 8) (Inr (LE_Load64 h m p))"
definition LE_Store64 :: "bytesex \<Rightarrow> mem \<Rightarrow> addr \<Rightarrow> u64 \<Rightarrow> mem" where
  "LE_Store64 h m p v = UnalignedStore h m (LE_FromHost64 h v) p"
definition LE_Store64_range :: "bytesex \<Rightarrow> mem \<Rightarrow> addr \<Rightarrow> nat \<Rightarrow> u64 \<Rightarrow> mem outcome" where
  "LE_Store64_range h m p sz v = require HardeningAssert (sz \<ge> 8) (Inr (LE_Store64 h m p v))"

primrec LE_Load64VariableLength_loop :: "mem \<Rightarrow> addr \<Rightarrow> nat \<Rightarrow> nat \<Rightarrow> u64 \<Rightarrow> u64" where
  "LE_Load64VariableLength_loop m src i 0 val = val"
| "LE_Load64VariableLength_loop m src i (Suc k) val =
    LE_Load64VariableLength_loop m src (Suc i) k (val OR push_bit (8 * i) (ucast (m (src + i))))"

definition LE_Load64VariableLength :: "mem \<Rightarrow> addr \<Rightarrow> nat \<Rightarrow> u64" where
  "LE_Load64VariableLength m p len = LE_Load64VariableLength_loop m p 0 len 0"

definition LE_Store64VariableLength :: "bytesex \<Rightarrow> mem \<Rightarrow> addr \<Rightarrow> u64 \<Rightarrow> nat \<Rightarrow> mem" where
  "LE_Store64VariableLength h m p v len = store_bytes m p (take len (representation h (LE_FromHost64 h v)))"

definition LE_Load128 :: "bytesex \<Rightarrow> mem \<Rightarrow> addr \<Rightarrow> u128" where
  "LE_Load128 h m p = MakeUint128 (LE_ToHost64 h (UnalignedLoad h m (p + 8))) (LE_ToHost64 h (UnalignedLoad h m p))"
definition LE_Load128_range :: "bytesex \<Rightarrow> mem \<Rightarrow> addr \<Rightarrow> nat \<Rightarrow> u128 outcome" where
  "LE_Load128_range h m p sz = require HardeningAssert (sz \<ge> 16) (Inr (LE_Load128 h m p))"
definition LE_Store128 :: "bytesex \<Rightarrow> mem \<Rightarrow> addr \<Rightarrow> u128 \<Rightarrow> mem" where
  "LE_Store128 h m p v =
    UnalignedStore h (UnalignedStore h m (LE_FromHost64 h (Uint128Low64 v)) p) (LE_FromHost64 h (Uint128High64 v)) (p + 8)"
definition LE_Store128_range :: "bytesex \<Rightarrow> mem \<Rightarrow> addr \<Rightarrow> nat \<Rightarrow> u128 \<Rightarrow> mem outcome" where
  "LE_Store128_range h m p sz v = require HardeningAssert (sz \<ge> 16) (Inr (LE_Store128 h m p v))"

definition LE_Load128VariableLength :: "bytesex \<Rightarrow> mem \<Rightarrow> addr \<Rightarrow> nat \<Rightarrow> u128" where
  "LE_Load128VariableLength h m p len =
    (if len \<le> 8 then ucast (LE_Load64VariableLength m p len)
     else MakeUint128 (LE_Load64VariableLength m (p + 8) (len - 8)) (LE_Load64 h m p))"

section \<open>BigEndian\<close>

definition BE_FromHost16 :: "bytesex \<Rightarrow> u16 \<Rightarrow> u16" where
  "BE_FromHost16 h x = (case h of IS_LITTLE_ENDIAN \<Rightarrow> byteswap x | IS_BIG_ENDIAN \<Rightarrow> x)"
definition BE_ToHost16 :: "bytesex \<Rightarrow> u16 \<Rightarrow> u16" where
  "BE_ToHost16 h x = (case h of IS_LITTLE_ENDIAN \<Rightarrow> byteswap x | IS_BIG_ENDIAN \<Rightarrow> x)"
definition BE_FromHost32 :: "bytesex \<Rightarrow> u32 \<Rightarrow> u32" where
  "BE_FromHost32 h x = (case h of IS_LITTLE_ENDIAN \<Rightarrow> byteswap x | IS_BIG_ENDIAN \<Rightarrow> x)"
definition BE_ToHost32 :: "bytesex \<Rightarrow> u32 \<Rightarrow> u32" where
  "BE_ToHost32 h x = (case h of IS_LITTLE_ENDIAN \<Rightarrow> byteswap x | IS_BIG_ENDIAN \<Rightarrow> x)"
definition BE_FromHost64 :: "bytesex \<Rightarrow> u64 \<Rightarrow> u64" where
  "BE_FromHost64 h x = (case h of IS_LITTLE_ENDIAN \<Rightarrow> byteswap x | IS_BIG_ENDIAN \<Rightarrow> x)"
definition BE_ToHost64 :: "bytesex \<Rightarrow> u64 \<Rightarrow> u64" where
  "BE_ToHost64 h x = (case h of IS_LITTLE_ENDIAN \<Rightarrow> byteswap x | IS_BIG_ENDIAN \<Rightarrow> x)"
definition BE_FromHost128 :: "bytesex \<Rightarrow> u128 \<Rightarrow> u128" where
  "BE_FromHost128 h x = (case h of IS_LITTLE_ENDIAN \<Rightarrow> gbswap_128 x | IS_BIG_ENDIAN \<Rightarrow> x)"
definition BE_ToHost128 :: "bytesex \<Rightarrow> u128 \<Rightarrow> u128" where
  "BE_ToHost128 h x = (case h of IS_LITTLE_ENDIAN \<Rightarrow> gbswap_128 x | IS_BIG_ENDIAN \<Rightarrow> x)"

definition BE_Load16 :: "bytesex \<Rightarrow> mem \<Rightarrow> addr \<Rightarrow> u16" where
  "BE_Load16 h m p = BE_ToHost16 h (UnalignedLoad h m p)"
definition BE_Load16_range :: "bytesex \<Rightarrow> mem \<Rightarrow> addr \<Rightarrow> nat \<Rightarrow> u16 outcome" where
  "BE_Load16_range h m p sz = require HardeningAssert (sz \<ge> 2) (Inr (BE_Load16 h m p))"
definition BE_Store16 :: "bytesex \<Rightarrow> mem \<Rightarrow> addr \<Rightarrow> u16 \<Rightarrow> mem" where
  "BE_Store16 h m p v = UnalignedStore h m (BE_FromHost16 h v) p"
definition BE_Store16_range :: "bytesex \<Rightarrow> mem \<Rightarrow> addr \<Rightarrow> nat \<Rightarrow> u16 \<Rightarrow> mem outcome" where
  "BE_Store16_range h m p sz v = require HardeningAssert (sz \<ge> 2) (Inr (BE_Store16 h m p v))"

definition BE_Load24 :: "bytesex \<Rightarrow> mem \<Rightarrow> addr \<Rightarrow> u32" where
  "BE_Load24 h m p = push_bit 16 (ucast (m p)) + ucast (BE_Load16 h m (p + 1))"
definition BE_Load24_range :: "bytesex \<Rightarrow> mem \<Rightarrow> addr \<Rightarrow> nat \<Rightarrow> u32 outcome" where
  "BE_Load24_range h m p sz = require HardeningAssert (sz \<ge> 3) (Inr (BE_Load24 h m p))"
definition BE_Store24 :: "bytesex \<Rightarrow> mem \<Rightarrow> addr \<Rightarrow> u32 \<Rightarrow> mem" where
  "BE_Store24 h m p v = (BE_Store16 h m (p + 1) (ucast v))(p := ucast (drop_bit 16 v))"
definition BE_Store24_range :: "bytesex \<Rightarrow> mem \<Rightarrow> addr \<Rightarrow> nat \<Rightarrow> u32 \<Rightarrow> mem outcome" where
  "BE_Store24_range h m p sz v = require HardeningAssert (sz \<ge> 3) (Inr (BE_Store24 h m p v))"

definition BE_Load32 :: "bytesex \<Rightarrow> mem \<Rightarrow> addr \<Rightarrow> u32" where
  "BE_Load32 h m p = BE_ToHost32 h (UnalignedLoad h m p)"
definition BE_Load32_range :: "bytesex \<Rightarrow> mem \<Rightarrow> addr \<Rightarrow> nat \<Rightarrow> u32 outcome" where
  "BE_Load32_range h m p sz = require HardeningAssert (sz \<ge> 4) (Inr (BE_Load32 h m p))"
definition BE_Store32 :: "bytesex \<Rightarrow> mem \<Rightarrow> addr \<Rightarrow> u32 \<Rightarrow> mem" where
  "BE_Store32 h m p v = UnalignedStore h m (BE_FromHost32 h v) p"
definition BE_Store32_range :: "bytesex \<Rightarrow> mem \<Rightarrow> addr \<Rightarrow> nat \<Rightarrow> u32 \<Rightarrow> mem outcome" where
  "BE_Store32_range h m p sz v = require HardeningAssert (sz \<ge> 4) (Inr (BE_Store32 h m p v))"

definition BE_Load64 :: "bytesex \<Rightarrow> mem \<Rightarrow> addr \<Rightarrow> u64" where
  "BE_Load64 h m p = BE_ToHost64 h (UnalignedLoad h m p)"
definition BE_Load64_range :: "bytesex \<Rightarrow> mem \<Rightarrow> addr \<Rightarrow> nat \<Rightarrow> u64 outcome" where
  "BE_Load64_range h m p sz = require HardeningAssert (sz \<ge> 8) (Inr (BE_Load64 h m p))"
definition BE_Store64 :: "bytesex \<Rightarrow> mem \<Rightarrow> addr \<Rightarrow> u64 \<Rightarrow> mem" where
  "BE_Store64 h m p v = UnalignedStore h m (BE_FromHost64 h v) p"
definition BE_Store64_range :: "bytesex \<Rightarrow> mem \<Rightarrow> addr \<Rightarrow> nat \<Rightarrow> u64 \<Rightarrow> mem outcome" where
  "BE_Store64_range h m p sz v = require HardeningAssert (sz \<ge> 8) (Inr (BE_Store64 h m p v))"

primrec BE_Load64VariableLength_loop :: "mem \<Rightarrow> addr \<Rightarrow> nat \<Rightarrow> nat \<Rightarrow> nat \<Rightarrow> u64 \<Rightarrow> u64" where
  "BE_Load64VariableLength_loop m src len i 0 val = val"
| "BE_Load64VariableLength_loop m src len i (Suc k) val =
    BE_Load64VariableLength_loop m src len (Suc i) k
      (if i < len then push_bit 8 val OR ucast (m (src + i)) else val)"

definition BE_Load64VariableLength :: "mem \<Rightarrow> addr \<Rightarrow> nat \<Rightarrow> u64" where
  "BE_Load64VariableLength m p len = BE_Load64VariableLength_loop m p len 0 8 0"

definition BE_Store64VariableLength :: "bytesex \<Rightarrow> mem \<Rightarrow> addr \<Rightarrow> u64 \<Rightarrow> nat \<Rightarrow> mem" where
  "BE_Store64VariableLength h m p v len =
    store_bytes m p (take len (drop (8 - len) (representation h (BE_FromHost64 h v))))"

definition BE_Load128 :: "bytesex \<Rightarrow> mem \<Rightarrow> addr \<Rightarrow> u128" where
  "BE_Load128 h m p = MakeUint128 (BE_ToHost64 h (UnalignedLoad h m p)) (BE_ToHost64 h (UnalignedLoad h m (p + 8)))"
definition BE_Load128_range :: "bytesex \<Rightarrow> mem \<Rightarrow> addr \<Rightarrow> nat \<Rightarrow> u128 outcome" where
  "BE_Load128_range h m p sz = require HardeningAssert (sz \<ge> 16) (Inr (BE_Load128 h m p))"
definition BE_Store128 :: "bytesex \<Rightarrow> mem \<Rightarrow> addr \<Rightarrow> u128 \<Rightarrow> mem" where
  "BE_Store128 h m p v =
    UnalignedStore h (UnalignedStore h m (BE_FromHost64 h (Uint128High64 v)) p) (BE_FromHost64 h (Uint128Low64 v)) (p + 8)"
definition BE_Store128_range :: "bytesex \<Rightarrow> mem \<Rightarrow> addr \<Rightarrow> nat \<Rightarrow> u128 \<Rightarrow> mem outcome" where
  "BE_Store128_range h m p sz v = require HardeningAssert (sz \<ge> 16) (Inr (BE_Store128 h m p v))"

definition BE_Load128VariableLength :: "bytesex \<Rightarrow> mem \<Rightarrow> addr \<Rightarrow> nat \<Rightarrow> u128" where
  "BE_Load128VariableLength h m p len =
    (if len \<le> 8 then ucast (BE_Load64VariableLength m p len)
     else if len < 16 then MakeUint128 (BE_Load64VariableLength m p (len - 8)) (BE_Load64 h m (p + len - 8))
     else MakeUint128 (BE_Load64 h m p) (BE_Load64 h m (p + 8)))"

section \<open>Loads and stores by type\<close>

text \<open>The templates take the class and select the conversion by the size of the type.\<close>

datatype EndianClass = LittleEndian | BigEndian

definition EC_FromHost16 :: "EndianClass \<Rightarrow> bytesex \<Rightarrow> u16 \<Rightarrow> u16" where
  "EC_FromHost16 c = (case c of LittleEndian \<Rightarrow> LE_FromHost16 | BigEndian \<Rightarrow> BE_FromHost16)"
definition EC_FromHost32 :: "EndianClass \<Rightarrow> bytesex \<Rightarrow> u32 \<Rightarrow> u32" where
  "EC_FromHost32 c = (case c of LittleEndian \<Rightarrow> LE_FromHost32 | BigEndian \<Rightarrow> BE_FromHost32)"
definition EC_FromHost64 :: "EndianClass \<Rightarrow> bytesex \<Rightarrow> u64 \<Rightarrow> u64" where
  "EC_FromHost64 c = (case c of LittleEndian \<Rightarrow> LE_FromHost64 | BigEndian \<Rightarrow> BE_FromHost64)"
definition EC_ToHost16 :: "EndianClass \<Rightarrow> bytesex \<Rightarrow> u16 \<Rightarrow> u16" where
  "EC_ToHost16 c = (case c of LittleEndian \<Rightarrow> LE_ToHost16 | BigEndian \<Rightarrow> BE_ToHost16)"
definition EC_ToHost32 :: "EndianClass \<Rightarrow> bytesex \<Rightarrow> u32 \<Rightarrow> u32" where
  "EC_ToHost32 c = (case c of LittleEndian \<Rightarrow> LE_ToHost32 | BigEndian \<Rightarrow> BE_ToHost32)"
definition EC_ToHost64 :: "EndianClass \<Rightarrow> bytesex \<Rightarrow> u64 \<Rightarrow> u64" where
  "EC_ToHost64 c = (case c of LittleEndian \<Rightarrow> LE_ToHost64 | BigEndian \<Rightarrow> BE_ToHost64)"

definition GFC_FromHost :: "EndianClass \<Rightarrow> bytesex \<Rightarrow> 'a::len word \<Rightarrow> 'a word" where
  "GFC_FromHost c h v =
    (if size_of TYPE('a word) = 1 then ucast (ucast v :: u8)
     else if size_of TYPE('a word) = 2 then ucast (EC_FromHost16 c h (ucast v))
     else if size_of TYPE('a word) = 4 then ucast (EC_FromHost32 c h (ucast v))
     else ucast (EC_FromHost64 c h (ucast v)))"

definition GFC_ToHost :: "EndianClass \<Rightarrow> bytesex \<Rightarrow> 'a::len word \<Rightarrow> 'a word" where
  "GFC_ToHost c h v =
    (if size_of TYPE('a word) = 1 then ucast (ucast v :: u8)
     else if size_of TYPE('a word) = 2 then ucast (EC_ToHost16 c h (ucast v))
     else if size_of TYPE('a word) = 4 then ucast (EC_ToHost32 c h (ucast v))
     else ucast (EC_ToHost64 c h (ucast v)))"

definition LoadInteger :: "EndianClass \<Rightarrow> bytesex \<Rightarrow> mem \<Rightarrow> addr \<Rightarrow> 'a::len word" where
  "LoadInteger c h m p =
    (if size_of TYPE('a word) = 1 then UnalignedLoad h m p
     else if size_of TYPE('a word) = 2 then ucast (EC_ToHost16 c h (UnalignedLoad h m p))
     else if size_of TYPE('a word) = 4 then ucast (EC_ToHost32 c h (UnalignedLoad h m p))
     else ucast (EC_ToHost64 c h (UnalignedLoad h m p)))"

definition StoreInteger :: "EndianClass \<Rightarrow> bytesex \<Rightarrow> mem \<Rightarrow> 'a::len word \<Rightarrow> addr \<Rightarrow> mem" where
  "StoreInteger c h m v p =
    (if size_of TYPE('a word) = 1 then m(p := ucast v)
     else if size_of TYPE('a word) = 2 then UnalignedStore h m (EC_FromHost16 c h (ucast v)) p
     else if size_of TYPE('a word) = 4 then UnalignedStore h m (EC_FromHost32 c h (ucast v)) p
     else UnalignedStore h m (EC_FromHost64 c h (ucast v)) p)"

text \<open>The machine word \<open>uword_t\<close> has 32 or 64 bits.\<close>

definition LE_LoadUnsignedWord :: "bytesex \<Rightarrow> mem \<Rightarrow> addr \<Rightarrow> 'a::len word" where
  "LE_LoadUnsignedWord h m p = (if size_of TYPE('a word) = 8 then ucast (LE_Load64 h m p) else ucast (LE_Load32 h m p))"
definition LE_StoreUnsignedWord :: "bytesex \<Rightarrow> mem \<Rightarrow> addr \<Rightarrow> 'a::len word \<Rightarrow> mem" where
  "LE_StoreUnsignedWord h m p v = (if size_of TYPE('a word) = 8 then LE_Store64 h m p (ucast v) else LE_Store32 h m p (ucast v))"
definition BE_LoadUnsignedWord :: "bytesex \<Rightarrow> mem \<Rightarrow> addr \<Rightarrow> 'a::len word" where
  "BE_LoadUnsignedWord h m p = (if size_of TYPE('a word) = 8 then ucast (BE_Load64 h m p) else ucast (BE_Load32 h m p))"
definition BE_StoreUnsignedWord :: "bytesex \<Rightarrow> mem \<Rightarrow> addr \<Rightarrow> 'a::len word \<Rightarrow> mem" where
  "BE_StoreUnsignedWord h m p v = (if size_of TYPE('a word) = 8 then BE_Store64 h m p (ucast v) else BE_Store32 h m p (ucast v))"

definition Load_bool :: "mem \<Rightarrow> addr \<Rightarrow> bool" where "Load_bool m p = (m p \<noteq> 0)"
definition Store_bool :: "mem \<Rightarrow> bool \<Rightarrow> addr \<Rightarrow> mem" where "Store_bool m v p = m(p := if v then 1 else 0)"

end
