(* ===== verification/Coder.thy ===== *)
theory Coder
  imports Endian Varint
begin

text \<open>
  The buffer encoder and decoder, \<^verbatim>\<open>src/gloop/util/coding/coder.h\<close> and \<^verbatim>\<open>coder.cc\<close>.

  An \<open>Encoder\<close> is its four pointers, a \<open>Decoder\<close> its three; \<open>0\<close> is the null pointer.  The bytes are
  those of one memory, passed through.  \<open>live\<close> is the set of blocks the program has allocated and not
  freed, each with the size that \<open>operator delete\<close> must be called with; freeing anything else is
  \<open>BadAccess\<close>.  The allocator is the argument \<open>alloc\<close>: it returns an address and the size it
  actually granted.  Floating-point values are their bit patterns.
\<close>

section \<open>State\<close>

record Encoder =
  e_buf :: addr
  e_limit :: addr
  e_underlying :: addr
  e_orig :: addr

record Decoder =
  d_orig :: addr
  d_buf :: addr
  d_limit :: addr

record store =
  bytes :: mem
  live :: "(addr \<times> nat) set"

type_synonym allocator = "store \<Rightarrow> nat \<Rightarrow> addr \<times> nat"

definition nullptr :: addr where "nullptr = 0"

definition new_Encoder :: Encoder where
  "new_Encoder = \<lparr>e_buf = nullptr, e_limit = nullptr, e_underlying = nullptr, e_orig = nullptr\<rparr>"

definition Encoder_on :: "addr \<Rightarrow> nat \<Rightarrow> Encoder" where
  "Encoder_on b maxn = \<lparr>e_buf = b, e_limit = b + maxn, e_underlying = nullptr, e_orig = b\<rparr>"

definition e_length :: "Encoder \<Rightarrow> nat" where "e_length e = e_buf e - e_orig e"
definition e_avail :: "Encoder \<Rightarrow> nat" where "e_avail e = e_limit e - e_buf e"
definition e_capacity :: "Encoder \<Rightarrow> nat" where "e_capacity e = e_limit e - e_orig e"
definition ensure_allowed :: "Encoder \<Rightarrow> bool" where "ensure_allowed e = (e_orig e = e_underlying e)"
definition e_base :: "Encoder \<Rightarrow> addr" where "e_base e = e_orig e"

text \<open>
  \<open>ABSL_HARDENING_ASSERT\<close> aborts in hardened builds.  In others it is compiled out, and the code goes on to
  use memory outside the buffer, \<open>BadAccess\<close>.
\<close>

datatype build = Hardened | Unhardened

definition hardening_failure :: "build \<Rightarrow> abort" where
  "hardening_failure bld = (case bld of Hardened \<Rightarrow> HardeningAssert | Unhardened \<Rightarrow> BadAccess)"

definition hardening_assert :: "build \<Rightarrow> bool \<Rightarrow> 'a outcome \<Rightarrow> 'a outcome" where
  "hardening_assert bld c r = require (hardening_failure bld) c r"

section \<open>The library's block copies\<close>

definition memcpy :: "mem \<Rightarrow> addr \<Rightarrow> addr \<Rightarrow> nat \<Rightarrow> mem" where
  "memcpy m dst src n = store_bytes m dst (load_bytes m src n)"

text \<open>\<open>memccpy\<close> stops after the first byte equal to \<open>c\<close> and returns the address past its copy.\<close>

definition memccpy :: "mem \<Rightarrow> addr \<Rightarrow> addr \<Rightarrow> u8 \<Rightarrow> nat \<Rightarrow> mem \<times> addr option" where
  "memccpy m dst src c n =
    (let bs = load_bytes m src n; k = length (takeWhile (\<lambda>b. b \<noteq> c) bs) in
     if k < n then (store_bytes m dst (take (k + 1) bs), Some (dst + k + 1))
     else (store_bytes m dst bs, None))"

section \<open>The writer\<close>

definition Writer_skip :: "addr \<Rightarrow> int \<Rightarrow> addr \<times> addr" where
  "Writer_skip p N = (p, nat (int p + N))"

definition Writer_put8 :: "mem \<Rightarrow> addr \<Rightarrow> u8 \<Rightarrow> mem \<times> addr" where
  "Writer_put8 m p v = (m(p := v), p + 1)"
definition Writer_put16 :: "bytesex \<Rightarrow> mem \<Rightarrow> addr \<Rightarrow> u16 \<Rightarrow> mem \<times> addr" where
  "Writer_put16 h m p v = (LE_Store16 h m p v, snd (Writer_skip p 2))"
definition Writer_put32 :: "bytesex \<Rightarrow> mem \<Rightarrow> addr \<Rightarrow> u32 \<Rightarrow> mem \<times> addr" where
  "Writer_put32 h m p v = (LE_Store32 h m p v, snd (Writer_skip p 4))"
definition Writer_put64 :: "bytesex \<Rightarrow> mem \<Rightarrow> addr \<Rightarrow> u64 \<Rightarrow> mem \<times> addr" where
  "Writer_put64 h m p v = (LE_Store64 h m p v, snd (Writer_skip p 8))"
definition Writer_put128 :: "bytesex \<Rightarrow> mem \<Rightarrow> addr \<Rightarrow> u128 \<Rightarrow> mem \<times> addr" where
  "Writer_put128 h m p v = (LE_Store128 h m p v, snd (Writer_skip p 16))"
definition Writer_putn :: "mem \<Rightarrow> addr \<Rightarrow> addr \<Rightarrow> nat \<Rightarrow> mem \<times> addr" where
  "Writer_putn m p src n = (memcpy m p src n, snd (Writer_skip p (int n)))"
definition Writer_putcn :: "mem \<Rightarrow> addr \<Rightarrow> addr \<Rightarrow> u8 \<Rightarrow> nat \<Rightarrow> mem \<times> addr" where
  "Writer_putcn m p src c n = (case memccpy m p src c n of
     (m, None) \<Rightarrow> (m, p + n)
   | (m, Some q) \<Rightarrow> (m, q))"
definition Writer_puts :: "mem \<Rightarrow> addr \<Rightarrow> addr \<Rightarrow> nat \<Rightarrow> mem \<times> addr" where
  "Writer_puts m p src avail = Writer_putcn m p src 0 avail"

function Writer_puts_no_null :: "mem \<Rightarrow> addr \<Rightarrow> addr \<Rightarrow> addr \<Rightarrow> mem \<times> addr" where
  "Writer_puts_no_null m p src l =
    (if m src \<noteq> 0 \<and> p < l then Writer_puts_no_null (m(p := m src)) (p + 1) (src + 1) l else (m, p))"
  by pat_completeness auto
termination by (relation "measure (\<lambda>(_, p, _, l). l - p)") auto

declare Writer_puts_no_null.simps [simp del]

text \<open>A call through the writer: its pointer is written back to \<open>buf_\<close> by its destructor.\<close>

definition through_writer :: "Encoder \<Rightarrow> mem \<times> addr \<Rightarrow> Encoder \<times> mem" where
  "through_writer e r = (e\<lparr>e_buf := snd r\<rparr>, fst r)"

section \<open>Encoding\<close>

definition e_put8 :: "build \<Rightarrow> Encoder \<Rightarrow> mem \<Rightarrow> u8 \<Rightarrow> (Encoder \<times> mem) outcome" where
  "e_put8 bld e m v = hardening_assert bld (e_avail e \<ge> 1) (Inr (through_writer e (Writer_put8 m (e_buf e) v)))"
definition e_put16 :: "build \<Rightarrow> bytesex \<Rightarrow> Encoder \<Rightarrow> mem \<Rightarrow> u16 \<Rightarrow> (Encoder \<times> mem) outcome" where
  "e_put16 bld h e m v = hardening_assert bld (e_avail e \<ge> 2) (Inr (through_writer e (Writer_put16 h m (e_buf e) v)))"
definition e_put32 :: "build \<Rightarrow> bytesex \<Rightarrow> Encoder \<Rightarrow> mem \<Rightarrow> u32 \<Rightarrow> (Encoder \<times> mem) outcome" where
  "e_put32 bld h e m v = hardening_assert bld (e_avail e \<ge> 4) (Inr (through_writer e (Writer_put32 h m (e_buf e) v)))"
definition e_put64 :: "build \<Rightarrow> bytesex \<Rightarrow> Encoder \<Rightarrow> mem \<Rightarrow> u64 \<Rightarrow> (Encoder \<times> mem) outcome" where
  "e_put64 bld h e m v = hardening_assert bld (e_avail e \<ge> 8) (Inr (through_writer e (Writer_put64 h m (e_buf e) v)))"
definition e_put128 :: "build \<Rightarrow> bytesex \<Rightarrow> Encoder \<Rightarrow> mem \<Rightarrow> u128 \<Rightarrow> (Encoder \<times> mem) outcome" where
  "e_put128 bld h e m v = hardening_assert bld (e_avail e \<ge> 16) (Inr (through_writer e (Writer_put128 h m (e_buf e) v)))"
definition e_putn :: "build \<Rightarrow> Encoder \<Rightarrow> mem \<Rightarrow> addr \<Rightarrow> nat \<Rightarrow> (Encoder \<times> mem) outcome" where
  "e_putn bld e m src n = hardening_assert bld (e_avail e \<ge> n) (Inr (through_writer e (Writer_putn m (e_buf e) src n)))"
definition e_putcn :: "build \<Rightarrow> Encoder \<Rightarrow> mem \<Rightarrow> addr \<Rightarrow> u8 \<Rightarrow> nat \<Rightarrow> (Encoder \<times> mem) outcome" where
  "e_putcn bld e m src c n =
    (let r = Writer_putcn m (e_buf e) src c n in
     case bld of Hardened \<Rightarrow> require HardeningAssert (e_avail e \<ge> n) (Inr (through_writer e r))
     | Unhardened \<Rightarrow> require BadAccess (snd r \<le> e_limit e) (Inr (through_writer e r)))"
definition e_puts :: "Encoder \<Rightarrow> mem \<Rightarrow> addr \<Rightarrow> Encoder \<times> mem" where
  "e_puts e m src = through_writer e (Writer_puts m (e_buf e) src (e_avail e))"
definition e_puts_without_null :: "Encoder \<Rightarrow> mem \<Rightarrow> addr \<Rightarrow> Encoder \<times> mem" where
  "e_puts_without_null e m src = through_writer e (Writer_puts_no_null m (e_buf e) src (e_limit e))"
definition e_putfloat :: "build \<Rightarrow> bytesex \<Rightarrow> Encoder \<Rightarrow> mem \<Rightarrow> u32 \<Rightarrow> (Encoder \<times> mem) outcome" where
  "e_putfloat bld h e m f = hardening_assert bld (e_avail e \<ge> 4) (Inr (through_writer e (Writer_put32 h m (e_buf e) f)))"
definition e_putdouble :: "build \<Rightarrow> bytesex \<Rightarrow> Encoder \<Rightarrow> mem \<Rightarrow> u64 \<Rightarrow> (Encoder \<times> mem) outcome" where
  "e_putdouble bld h e m d = hardening_assert bld (e_avail e \<ge> 8) (Inr (through_writer e (Writer_put64 h m (e_buf e) d)))"

definition e_put_varint32 :: "build \<Rightarrow> platform \<Rightarrow> Encoder \<Rightarrow> mem \<Rightarrow> u32 \<Rightarrow> (Encoder \<times> mem) outcome" where
  "e_put_varint32 bld plat e m v = hardening_assert bld (e_avail e \<ge> kMax32 \<or> e_avail e \<ge> Length32 plat v)
    (Inr (through_writer e (Encode32 m (e_buf e) v)))"
definition e_put_varint32_inline :: "build \<Rightarrow> platform \<Rightarrow> Encoder \<Rightarrow> mem \<Rightarrow> u32 \<Rightarrow> (Encoder \<times> mem) outcome" where
  "e_put_varint32_inline bld plat e m v = hardening_assert bld (e_avail e \<ge> kMax32 \<or> e_avail e \<ge> Length32 plat v)
    (Inr (through_writer e (Encode32Inline m (e_buf e) v)))"
definition e_put_varint64 :: "build \<Rightarrow> platform \<Rightarrow> Encoder \<Rightarrow> mem \<Rightarrow> u64 \<Rightarrow> (Encoder \<times> mem) outcome" where
  "e_put_varint64 bld plat e m v = hardening_assert bld (e_avail e \<ge> kMax64 \<or> e_avail e \<ge> Length64 plat v)
    (Inr (through_writer e (Encode64 m (e_buf e) v)))"

definition e_skip :: "build \<Rightarrow> Encoder \<Rightarrow> int \<Rightarrow> (Encoder \<times> addr) outcome" where
  "e_skip bld e N = hardening_assert bld (int (e_length e) + N \<ge> 0 \<and> int (e_avail e) \<ge> N)
    (case Writer_skip (e_buf e) N of (old, p) \<Rightarrow> Inr (e\<lparr>e_buf := p\<rparr>, old))"
definition RemoveLast :: "build \<Rightarrow> Encoder \<Rightarrow> nat \<Rightarrow> Encoder outcome" where
  "RemoveLast bld e N = hardening_assert bld (e_length e \<ge> N) (Inr (e\<lparr>e_buf := snd (Writer_skip (e_buf e) (- int N))\<rparr>))"
definition e_Resize :: "Encoder \<Rightarrow> nat \<Rightarrow> Encoder outcome" where
  "e_Resize e N = require CheckFailed (e_length e \<ge> N) (Inr (e\<lparr>e_buf := e_orig e + N\<rparr>))"
definition e_clear :: "Encoder \<Rightarrow> Encoder" where "e_clear e = e\<lparr>e_buf := e_orig e\<rparr>"

section \<open>Buffers\<close>

definition NewBuffer :: "allocator \<Rightarrow> store \<Rightarrow> nat \<Rightarrow> store \<times> addr \<times> nat" where
  "NewBuffer alloc s sz = (case alloc s sz of (p, n) \<Rightarrow> (s\<lparr>live := insert (p, n) (live s)\<rparr>, p, n))"

definition DeleteBuffer :: "store \<Rightarrow> addr \<Rightarrow> nat \<Rightarrow> store outcome" where
  "DeleteBuffer s b sz = (if b = nullptr then Inr s
     else require BadAccess ((b, sz) \<in> live s) (Inr (s\<lparr>live := live s - {(b, sz)}\<rparr>)))"

definition EnsureSlowPath :: "allocator \<Rightarrow> store \<Rightarrow> Encoder \<Rightarrow> u64 \<Rightarrow> (Encoder \<times> store) outcome" where
  "EnsureSlowPath alloc s e N = require CheckFailed (ensure_allowed e)
    (let current_len = e_length e;
         (s, new_buffer, new_capacity) =
           NewBuffer alloc s (unat (max (of_nat current_len + N) (2 * of_nat current_len))) in
     andThen (if e_underlying e \<noteq> nullptr
              then require BadAccess (current_len \<le> new_capacity)
                (DeleteBuffer (s\<lparr>bytes := memcpy (bytes s) new_buffer (e_underlying e) current_len\<rparr>)
                  (e_underlying e) (e_capacity e))
              else Inr s) (\<lambda>s.
     let e = \<lparr>e_buf = new_buffer + current_len, e_limit = new_buffer + new_capacity,
              e_underlying = new_buffer, e_orig = new_buffer\<rparr> in
     require CheckFailed (e_avail e \<ge> unat N) (Inr (e, s))))"

definition Ensure :: "allocator \<Rightarrow> store \<Rightarrow> Encoder \<Rightarrow> u64 \<Rightarrow> (Encoder \<times> store) outcome" where
  "Ensure alloc s e N = (if e_avail e < unat N then EnsureSlowPath alloc s e N else Inr (e, s))"

definition delete_owned :: "store \<Rightarrow> Encoder \<Rightarrow> store outcome" where
  "delete_owned s e = (if ensure_allowed e then DeleteBuffer s (e_underlying e) (e_capacity e) else Inr s)"

definition e_reset :: "store \<Rightarrow> Encoder \<Rightarrow> (Encoder \<times> store) outcome" where
  "e_reset s e = andThen (delete_owned s e) (\<lambda>s. Inr (new_Encoder, s))"

definition e_reset_on :: "store \<Rightarrow> Encoder \<Rightarrow> addr \<Rightarrow> nat \<Rightarrow> (Encoder \<times> store) outcome" where
  "e_reset_on s e b maxn = andThen (delete_owned s e) (\<lambda>s. Inr (Encoder_on b maxn, s))"

text \<open>Moving leaves the source empty; the results are the new encoder and the source.\<close>

definition e_move_construct :: "Encoder \<Rightarrow> Encoder \<times> Encoder" where
  "e_move_construct src = (src, new_Encoder)"

definition e_move_assign :: "store \<Rightarrow> Encoder \<Rightarrow> Encoder \<Rightarrow> (Encoder \<times> Encoder \<times> store) outcome" where
  "e_move_assign s this src = andThen (delete_owned s this) (\<lambda>s. Inr (src, new_Encoder, s))"

definition e_destruct :: "store \<Rightarrow> Encoder \<Rightarrow> store outcome" where
  "e_destruct s e = require CheckFailed (e_buf e \<le> e_limit e) (delete_owned s e)"

section \<open>Decoding\<close>

definition d_reset :: "build \<Rightarrow> addr \<Rightarrow> nat \<Rightarrow> Decoder outcome" where
  "d_reset bld b maxn = hardening_assert bld (b \<noteq> nullptr \<or> maxn = 0) (Inr \<lparr>d_orig = b, d_buf = b, d_limit = b + maxn\<rparr>)"

definition d_pos :: "Decoder \<Rightarrow> nat" where "d_pos d = d_buf d - d_orig d"
definition d_avail :: "Decoder \<Rightarrow> nat" where "d_avail d = d_limit d - d_buf d"

definition d_get8 :: "build \<Rightarrow> Decoder \<Rightarrow> mem \<Rightarrow> (u8 \<times> Decoder) outcome" where
  "d_get8 bld d m = hardening_assert bld (d_avail d \<ge> 1) (Inr (m (d_buf d), d\<lparr>d_buf := d_buf d + 1\<rparr>))"
definition d_get16 :: "build \<Rightarrow> bytesex \<Rightarrow> Decoder \<Rightarrow> mem \<Rightarrow> (u16 \<times> Decoder) outcome" where
  "d_get16 bld h d m = hardening_assert bld (d_avail d \<ge> 2) (Inr (LE_Load16 h m (d_buf d), d\<lparr>d_buf := d_buf d + 2\<rparr>))"
definition d_get32 :: "build \<Rightarrow> bytesex \<Rightarrow> Decoder \<Rightarrow> mem \<Rightarrow> (u32 \<times> Decoder) outcome" where
  "d_get32 bld h d m = hardening_assert bld (d_avail d \<ge> 4) (Inr (LE_Load32 h m (d_buf d), d\<lparr>d_buf := d_buf d + 4\<rparr>))"
definition d_get64 :: "build \<Rightarrow> bytesex \<Rightarrow> Decoder \<Rightarrow> mem \<Rightarrow> (u64 \<times> Decoder) outcome" where
  "d_get64 bld h d m = hardening_assert bld (d_avail d \<ge> 8) (Inr (LE_Load64 h m (d_buf d), d\<lparr>d_buf := d_buf d + 8\<rparr>))"
definition d_get128 :: "build \<Rightarrow> bytesex \<Rightarrow> Decoder \<Rightarrow> mem \<Rightarrow> (u128 \<times> Decoder) outcome" where
  "d_get128 bld h d m = hardening_assert bld (d_avail d \<ge> 16) (Inr (LE_Load128 h m (d_buf d), d\<lparr>d_buf := d_buf d + 16\<rparr>))"
definition d_getfloat :: "build \<Rightarrow> bytesex \<Rightarrow> Decoder \<Rightarrow> mem \<Rightarrow> (u32 \<times> Decoder) outcome" where
  "d_getfloat bld h d m = d_get32 bld h d m"
definition d_getdouble :: "build \<Rightarrow> bytesex \<Rightarrow> Decoder \<Rightarrow> mem \<Rightarrow> (u64 \<times> Decoder) outcome" where
  "d_getdouble bld h d m = d_get64 bld h d m"

definition d_getn :: "Decoder \<Rightarrow> mem \<Rightarrow> addr \<Rightarrow> nat \<Rightarrow> mem \<times> Decoder" where
  "d_getn d m dst n = (memcpy m dst (d_buf d) n, d\<lparr>d_buf := d_buf d + n\<rparr>)"
definition d_getcn :: "Decoder \<Rightarrow> mem \<Rightarrow> addr \<Rightarrow> u8 \<Rightarrow> nat \<Rightarrow> mem \<times> Decoder" where
  "d_getcn d m dst c n = (case memccpy m dst (d_buf d) c n of
     (m, None) \<Rightarrow> (m, d\<lparr>d_buf := d_buf d + n\<rparr>)
   | (m, Some q) \<Rightarrow> (m, d\<lparr>d_buf := d_buf d + (q - dst)\<rparr>))"
definition d_gets :: "Decoder \<Rightarrow> mem \<Rightarrow> addr \<Rightarrow> nat \<Rightarrow> mem \<times> Decoder" where
  "d_gets d m dst n =
    (if n = 0 then (m, d)
     else let len = (if n > 1 + (d_limit d - d_buf d) then d_limit d - d_buf d else n - 1) in
       d_getcn d (m(dst + len := 0)) dst 0 len)"

definition d_skip :: "build \<Rightarrow> Decoder \<Rightarrow> int \<Rightarrow> (Decoder \<times> addr) outcome" where
  "d_skip bld d n = hardening_assert bld (int (d_avail d) \<ge> n \<and> int (d_pos d) + n \<ge> 0)
    (Inr (d\<lparr>d_buf := nat (int (d_buf d) + n)\<rparr>, d_buf d))"
definition d_ptr :: "Decoder \<Rightarrow> addr" where "d_ptr d = d_buf d"

definition d_get_varint32 :: "Decoder \<Rightarrow> mem \<Rightarrow> (u32 \<times> Decoder) option" where
  "d_get_varint32 d m = (case Parse32WithLimit m (d_buf d) (d_limit d) of
     None \<Rightarrow> None | Some (r, v) \<Rightarrow> Some (v, d\<lparr>d_buf := r\<rparr>))"
definition d_get_varint64 :: "platform \<Rightarrow> Decoder \<Rightarrow> mem \<Rightarrow> (u64 \<times> Decoder) option" where
  "d_get_varint64 plat d m = (case Parse64WithLimit plat m (d_buf d) (d_limit d) of
     None \<Rightarrow> None | Some (r, v) \<Rightarrow> Some (v, d\<lparr>d_buf := r\<rparr>))"

text \<open>\<open>memset\<close> to zero makes every decoder that of \<open>Decoder(nullptr, 0)\<close>.\<close>

definition FillArray :: "nat \<Rightarrow> Decoder list" where
  "FillArray num_decoders = replicate num_decoders \<lparr>d_orig = nullptr, d_buf = nullptr, d_limit = nullptr\<rparr>"

section \<open>From a decoder to an encoder\<close>

definition CopyAndAdvance :: "nat \<Rightarrow> Encoder \<Rightarrow> Decoder \<Rightarrow> mem \<Rightarrow> Encoder \<times> Decoder \<times> mem" where
  "CopyAndAdvance N e d m = (e\<lparr>e_buf := e_buf e + N\<rparr>, d\<lparr>d_buf := d_buf d + N\<rparr>, memcpy m (e_buf e) (d_buf d) N)"

text \<open>The loop on bytes: the answer, the two positions reached, and the memory.\<close>

function PutVarint64_loop :: "addr \<Rightarrow> addr \<Rightarrow> addr \<Rightarrow> addr \<Rightarrow> mem \<Rightarrow> bool \<times> addr \<times> addr \<times> mem" where
  "PutVarint64_loop dec_ptr dec_limit enc_ptr limit m =
    (if dec_ptr \<ge> dec_limit then (False, dec_ptr, enc_ptr, m)
     else if enc_ptr \<ge> limit then (False, dec_ptr, enc_ptr, m)
     else let c = m dec_ptr; m = m(enc_ptr := c) in
       if c \<ge> 128 then PutVarint64_loop (dec_ptr + 1) dec_limit (enc_ptr + 1) limit m
       else (True, dec_ptr + 1, enc_ptr + 1, m))"
  by pat_completeness auto
termination by (relation "measure (\<lambda>(d, dl, _, _, _). dl - d)") auto

declare PutVarint64_loop.simps [simp del]

definition PutVarint64FromDecoderLessCommonSizes :: "Encoder \<Rightarrow> Decoder \<Rightarrow> mem \<Rightarrow> bool \<times> Encoder \<times> Decoder \<times> mem" where
  "PutVarint64FromDecoderLessCommonSizes e d m =
    (let dec_ptr = d_buf d; dec_limit = d_limit d in
     if dec_ptr + kMax64 \<le> dec_limit \<and> e_buf e + kMax64 \<le> e_limit e then
       if m (dec_ptr + 2) < 128 then (True, CopyAndAdvance 3 e d m)
       else if m (dec_ptr + 3) < 128 then (True, CopyAndAdvance 4 e d m)
       else if m (dec_ptr + 4) < 128 then (True, CopyAndAdvance 5 e d m)
       else if m (dec_ptr + 5) < 128 then (True, CopyAndAdvance 6 e d m)
       else if m (dec_ptr + 6) < 128 then (True, CopyAndAdvance 7 e d m)
       else if m (dec_ptr + 7) < 128 then (True, CopyAndAdvance 8 e d m)
       else if m (dec_ptr + 8) < 128 then (True, CopyAndAdvance 9 e d m)
       else if m (dec_ptr + 9) < 2 then (True, CopyAndAdvance 10 e d m)
       else (False, e, d, m)
     else case PutVarint64_loop dec_ptr dec_limit (e_buf e) (e_limit e) m of
       (ok, dp, ep, m) \<Rightarrow> if ok then (True, e\<lparr>e_buf := ep\<rparr>, d\<lparr>d_buf := dp\<rparr>, m) else (False, e, d, m))"

definition put_varint64_from_decoder :: "Encoder \<Rightarrow> Decoder \<Rightarrow> mem \<Rightarrow> bool \<times> Encoder \<times> Decoder \<times> mem" where
  "put_varint64_from_decoder e d m =
    (let enc_ptr = e_buf e; dec_ptr = d_buf d in
     if dec_ptr < d_limit d \<and> m dec_ptr < 128 then
       if enc_ptr \<ge> e_limit e then (False, e, d, m)
       else (True, e\<lparr>e_buf := e_buf e + 1\<rparr>, d\<lparr>d_buf := d_buf d + 1\<rparr>, m(enc_ptr := m dec_ptr))
     else if dec_ptr + 1 < d_limit d \<and> m (dec_ptr + 1) < 128 then
       if enc_ptr + 1 \<ge> e_limit e then (False, e, d, m)
       else (True, e\<lparr>e_buf := e_buf e + 2\<rparr>, d\<lparr>d_buf := d_buf d + 2\<rparr>, memcpy m enc_ptr dec_ptr 2)
     else PutVarint64FromDecoderLessCommonSizes e d m)"

end
