(* ===== verification/Endian_Proofs.thy ===== *)
theory Endian_Proofs
  imports Endian
begin

text \<open>
  Byte order: what every load and store means, independently of the machine.  The bytes of a word and
  the word of its bytes are inverse (shown bit by bit); swapping reverses the bytes; from these two
  facts the routines of both classes get their specification at every width.
\<close>

section \<open>Bits and bytes\<close>

lemma bit_le_word:
  "bit (le_word bs :: 'a::len word) i \<longleftrightarrow> i < LENGTH('a) \<and> i div 8 < length bs \<and> bit (bs ! (i div 8)) (i mod 8)"
proof (induction bs arbitrary: i)
  case (Cons b bs)
  show ?case
  proof (cases "i < 8")
    case True
    then show ?thesis by (auto simp: bit_simps)
  next
    case False
    then obtain j where j: "i = j + 8" by (metis add.commute le_Suc_ex not_less)
    have "\<not> bit b (j + 8)" using bit_imp_le_length [of b "j + 8"] by auto
    then show ?thesis using Cons.IH [of j] j by (auto simp: bit_simps div_add_self2)
  qed
qed simp

lemma length_le_bytes [simp]: "length (le_bytes n w) = n"
  by (simp add: le_bytes_def)

lemma nth_le_bytes [simp]: "i < n \<Longrightarrow> le_bytes n w ! i = ucast (drop_bit (8 * i) w)"
  by (simp add: le_bytes_def)

lemma le_word_le_bytes: "le_word (le_bytes n w) = take_bit (8 * n) (w :: 'a::len word)"
proof (rule bit_word_eqI)
  fix i assume i: "i < LENGTH('a)"
  have "8 * (i div 8) + i mod 8 = i" by simp
  moreover have "i div 8 < n \<longleftrightarrow> i < 8 * n" by auto
  ultimately show "bit (le_word (le_bytes n w) :: 'a word) i = bit (take_bit (8 * n) w) i"
    using i by (auto simp: bit_le_word bit_simps)
qed

lemma le_word_representation:
  "LENGTH('a) = 8 * n \<Longrightarrow> le_word (le_bytes n w) = (w :: 'a::len word)"
  by (simp add: le_word_le_bytes take_bit_word_eq_self)

lemma le_bytes_le_word:
  assumes "8 * n \<le> LENGTH('a)" "length bs = n"
  shows "le_bytes n (le_word bs :: 'a::len word) = bs"
proof (rule nth_equalityI)
  fix i assume "i < length (le_bytes n (le_word bs :: 'a word))"
  then have i: "i < n" by simp
  show "le_bytes n (le_word bs :: 'a word) ! i = bs ! i"
  proof (rule bit_word_eqI)
    fix j assume "j < LENGTH(8)"
    then have j: "j < 8" by simp
    have "8 * i + j < LENGTH('a)" using i j assms(1) by linarith
    then show "bit (le_bytes n (le_word bs :: 'a word) ! i) j = bit (bs ! i) j"
      using i j assms(2) by (auto simp: bit_simps bit_le_word)
  qed
qed (simp add: assms)

fun bytes_nat :: "u8 list \<Rightarrow> nat" where
  "bytes_nat [] = 0"
| "bytes_nat (b # bs) = unat b + 256 * bytes_nat bs"

lemma le_word_value: "le_word bs = of_nat (bytes_nat bs)"
proof (induction bs)
  case (Cons b bs)
  have "ucast b OR push_bit 8 (of_nat (bytes_nat bs)) = (of_nat (unat b) OR push_bit 8 (of_nat (bytes_nat bs)) :: 'a word)"
    by simp
  also have "\<dots> = of_nat (unat b + bytes_nat bs * 2 ^ 8)"
    using unat_byte_less [of b] by (intro or_push_bit_of_nat) simp
  finally show ?case using Cons by (simp add: mult.commute)
qed simp

lemma bytes_nat_less: "bytes_nat bs < 256 ^ length bs"
proof (induction bs)
  case (Cons b bs)
  then show ?case using unat_byte_less [of b] by simp
qed simp

lemma unat_le_word: "8 * length bs \<le> LENGTH('a) \<Longrightarrow> unat (le_word bs :: 'a::len word) = bytes_nat bs"
proof -
  assume l: "8 * length bs \<le> LENGTH('a)"
  have "bytes_nat bs < 2 ^ (8 * length bs)" using bytes_nat_less [of bs] by (simp add: power_mult)
  also have "(2 :: nat) ^ (8 * length bs) \<le> 2 ^ LENGTH('a)" using l by (intro power_increasing) auto
  finally show ?thesis by (simp add: le_word_value unsigned_of_nat take_bit_nat_eq_self)
qed

section \<open>Swapping\<close>

text \<open>The number of bytes of the types in use.\<close>

lemma size_of_simps [simp]:
  "size_of TYPE(u8) = 1" "size_of TYPE(u16) = 2" "size_of TYPE(u32) = 4" "size_of TYPE(u64) = 8" "size_of TYPE(u128) = 16"
  by (simp_all add: size_of_def)

definition whole_bytes :: "'a::len word itself \<Rightarrow> bool" where
  "whole_bytes _ \<longleftrightarrow> LENGTH('a) = 8 * size_of TYPE('a word)"

lemma whole_bytes_simps [simp]:
  "whole_bytes TYPE(u8)" "whole_bytes TYPE(u16)" "whole_bytes TYPE(u32)" "whole_bytes TYPE(u64)" "whole_bytes TYPE(u128)"
  by (simp_all add: whole_bytes_def)

lemma le_bytes_byteswap:
  assumes "whole_bytes TYPE('a::len word)"
  shows "le_bytes (size_of TYPE('a word)) (byteswap w) = rev (le_bytes (size_of TYPE('a word)) (w :: 'a word))"
  unfolding byteswap_def by (rule le_bytes_le_word) (use assms in \<open>simp_all add: whole_bytes_def\<close>)

lemma byteswap_byteswap [simp]:
  assumes "whole_bytes TYPE('a::len word)"
  shows "byteswap (byteswap w) = (w :: 'a word)"
  using le_bytes_byteswap [OF assms, of w] le_word_representation [of "size_of TYPE('a word)" w] assms
  by (subst byteswap_def) (simp add: whole_bytes_def)

lemma byteswap_le_word:
  assumes "whole_bytes TYPE('a::len word)" "length bs = size_of TYPE('a word)"
  shows "byteswap (le_word bs :: 'a word) = le_word (rev bs)"
  using le_bytes_le_word [of "size_of TYPE('a word)" bs, where ?'a = 'a] assms
  by (simp add: byteswap_def whole_bytes_def)

lemma host_order_simps [simp]:
  "host_order IS_LITTLE_ENDIAN bs = bs" "host_order IS_BIG_ENDIAN bs = rev bs" "length (host_order h bs) = length bs"
  by (simp_all add: host_order_def split: bytesex.splits)

lemma length_representation [simp]: "length (representation h (w :: 'a::len word)) = size_of TYPE('a word)"
  by (simp add: representation_def)

text \<open>Conversion before a store and after a load, for either byte order and on either machine.\<close>

definition le_host :: "bytesex \<Rightarrow> 'a::len word \<Rightarrow> 'a word" where
  "le_host h x = (case h of IS_LITTLE_ENDIAN \<Rightarrow> x | IS_BIG_ENDIAN \<Rightarrow> byteswap x)"

definition be_host :: "bytesex \<Rightarrow> 'a::len word \<Rightarrow> 'a word" where
  "be_host h x = (case h of IS_LITTLE_ENDIAN \<Rightarrow> byteswap x | IS_BIG_ENDIAN \<Rightarrow> x)"

lemma representation_host:
  assumes "whole_bytes TYPE('a::len word)"
  shows "representation h (le_host h w) = le_bytes (size_of TYPE('a word)) (w :: 'a word)"
    and "representation h (be_host h w) = rev (le_bytes (size_of TYPE('a word)) w)"
  using le_bytes_byteswap [OF assms, of w]
  by (simp_all add: representation_def le_host_def be_host_def split: bytesex.splits)

lemma load_host:
  assumes "whole_bytes TYPE('a::len word)"
  shows "le_host h (UnalignedLoad h m p) = (le_word (load_bytes m p (size_of TYPE('a word))) :: 'a word)"
    and "be_host h (UnalignedLoad h m p) = (le_word (rev (load_bytes m p (size_of TYPE('a word)))) :: 'a word)"
  using byteswap_le_word [OF assms, of "load_bytes m p (size_of TYPE('a word))"]
    byteswap_le_word [OF assms, of "rev (load_bytes m p (size_of TYPE('a word)))"]
  by (simp_all add: UnalignedLoad_def le_host_def be_host_def split: bytesex.splits)

lemma host_involution:
  assumes "whole_bytes TYPE('a::len word)"
  shows "le_host h (le_host h w) = (w :: 'a word)" "be_host h (be_host h w) = w"
  using assms by (simp_all add: le_host_def be_host_def split: bytesex.splits)

lemmas host_folds = le_host_def [symmetric] be_host_def [symmetric]

lemmas conversion_defs =
  LE_FromHost16_def LE_ToHost16_def LE_FromHost32_def LE_ToHost32_def LE_FromHost64_def LE_ToHost64_def
  BE_FromHost16_def BE_ToHost16_def BE_FromHost32_def BE_ToHost32_def BE_FromHost64_def BE_ToHost64_def

lemma conversion_host:
  "LE_FromHost16 = le_host" "LE_ToHost16 = le_host" "LE_FromHost32 = le_host" "LE_ToHost32 = le_host"
  "LE_FromHost64 = le_host" "LE_ToHost64 = le_host" "BE_FromHost16 = be_host" "BE_ToHost16 = be_host"
  "BE_FromHost32 = be_host" "BE_ToHost32 = be_host" "BE_FromHost64 = be_host" "BE_ToHost64 = be_host"
  by (intro ext; simp add: conversion_defs le_host_def be_host_def)+

lemma store_word:
  "LE_Store16 h m p v = store_bytes m p (le_bytes 2 v)" "LE_Store32 h m p w = store_bytes m p (le_bytes 4 w)"
  "LE_Store64 h m p x = store_bytes m p (le_bytes 8 x)"
  "BE_Store16 h m p v = store_bytes m p (rev (le_bytes 2 v))" "BE_Store32 h m p w = store_bytes m p (rev (le_bytes 4 w))"
  "BE_Store64 h m p x = store_bytes m p (rev (le_bytes 8 x))"
  by (simp_all add: LE_Store16_def LE_Store32_def LE_Store64_def BE_Store16_def BE_Store32_def BE_Store64_def
      UnalignedStore_def conversion_host representation_host)

lemma load_word:
  "LE_Load16 h m p = le_word (load_bytes m p 2)" "LE_Load32 h m p = le_word (load_bytes m p 4)"
  "LE_Load64 h m p = le_word (load_bytes m p 8)"
  "BE_Load16 h m p = le_word (rev (load_bytes m p 2))" "BE_Load32 h m p = le_word (rev (load_bytes m p 4))"
  "BE_Load64 h m p = le_word (rev (load_bytes m p 8))"
  by (simp_all add: LE_Load16_def LE_Load32_def LE_Load64_def BE_Load16_def BE_Load32_def BE_Load64_def
      conversion_host load_host)

section \<open>Assembled values\<close>

lemma bytes_nat_append: "bytes_nat (xs @ ys) = bytes_nat xs + 256 ^ length xs * bytes_nat ys"
  by (induction xs) (simp_all add: algebra_simps)

lemma power_256: "(256 :: 'a::comm_semiring_1) ^ n = 2 ^ (8 * n)"
  using power_mult [of "2 :: 'a" 8 n] by simp

lemma ucast_le_word:
  assumes "8 * length bs \<le> LENGTH('a)"
  shows "ucast (le_word bs :: 'a::len word) = (le_word bs :: 'b::len word)"
proof -
  have "ucast (le_word bs :: 'a word) = (of_nat (unat (le_word bs :: 'a word)) :: 'b word)" by simp
  then show ?thesis by (simp only: unat_le_word [OF assms] le_word_value [where ?'a = 'b])
qed

lemma le_word_append_add:
  "(le_word (xs @ ys) :: 'a::len word) = le_word xs + push_bit (8 * length xs) (le_word ys)"
  by (simp add: le_word_value bytes_nat_append push_bit_eq_mult power_256)

lemma le_word_append_or:
  "(le_word (xs @ ys) :: 'a::len word) = push_bit (8 * length xs) (le_word ys) OR le_word xs"
proof -
  have "bytes_nat xs < 2 ^ (8 * length xs)" using bytes_nat_less [of xs] by (simp add: power_256)
  from or_push_bit_of_nat [OF this, of "bytes_nat ys", where ?'a = 'a]
  show ?thesis by (subst or.commute) (simp add: le_word_value bytes_nat_append power_256 mult.commute)
qed

lemma le_word_single: "le_word [b] = ucast b"
  by simp

lemma load_bytes_rev_Suc: "rev (load_bytes m p (Suc n)) = rev (load_bytes m (Suc p) n) @ [m p]"
  by (simp add: load_bytes_Suc)

lemma load_bytes_snoc: "load_bytes m p (Suc n) = load_bytes m p n @ [m (p + n)]"
  using load_bytes_add [of m p n 1] by (simp add: load_bytes_def)

lemma load24:
  "LE_Load24 h m p = le_word (load_bytes m p 3)" "BE_Load24 h m p = le_word (rev (load_bytes m p 3))"
proof -
  have "LE_Load24 IS_LITTLE_ENDIAN m p = le_word (load_bytes m p 3)"
    using le_word_append_add [of "load_bytes m p 3" "[0]", where ?'a = 32] by (simp add: LE_Load24_def)
  moreover have "LE_Load24 IS_BIG_ENDIAN m p = le_word (load_bytes m p 3)"
    using le_word_append_add [of "load_bytes m p 2" "[m (p + 2)]", where ?'a = 32] load_bytes_snoc [of m p 2]
      ucast_le_word [of "load_bytes m p 2", where ?'a = 16 and ?'b = 32]
    by (simp add: LE_Load24_def load_word)
  ultimately show "LE_Load24 h m p = le_word (load_bytes m p 3)" by (cases h) simp_all
  show "BE_Load24 h m p = le_word (rev (load_bytes m p 3))"
    using le_word_append_add [of "rev (load_bytes m (Suc p) 2)" "[m p]", where ?'a = 32] load_bytes_rev_Suc [of m p 2]
      ucast_le_word [of "rev (load_bytes m (Suc p) 2)", where ?'a = 16 and ?'b = 32]
    by (simp add: BE_Load24_def load_word add.commute)
qed

lemma le_bytes_unroll:
  "le_bytes 2 v = [ucast v, ucast (drop_bit 8 v)]"
  "le_bytes 3 v = [ucast v, ucast (drop_bit 8 v), ucast (drop_bit 16 v)]"
  by (simp_all add: le_bytes_def numeral_eq_Suc)

lemma ucast_and_byte: "ucast (v AND 0xFF :: u32) = (ucast v :: u8)"
proof -
  have "(0xFF :: u32) = mask 8" by (simp add: mask_eq_exp_minus_1)
  moreover have "ucast (v AND mask 8) = (ucast v :: u8)" by (rule bit_word_eqI) (auto simp: bit_simps)
  ultimately show ?thesis by metis
qed

lemma store24:
  "LE_Store24 h m p v = store_bytes m p (le_bytes 3 v)" "BE_Store24 h m p v = store_bytes m p (rev (le_bytes 3 v))"
proof -
  have "LE_Store24 IS_LITTLE_ENDIAN m p v = store_bytes m p (le_bytes 3 v)"
    by (simp add: LE_Store24_def representation_def le_bytes_def take_map)
  moreover have "LE_Store24 IS_BIG_ENDIAN m p v = store_bytes m p (le_bytes 3 v)"
    by (simp add: LE_Store24_def ucast_and_byte store_bytes_unroll le_bytes_unroll)
  ultimately show "LE_Store24 h m p v = store_bytes m p (le_bytes 3 v)" by (cases h) simp_all
  have "(ucast (ucast v :: u16) :: u8) = ucast v" "(ucast (drop_bit 8 (ucast v :: u16)) :: u8) = ucast (drop_bit 8 v)"
    by (rule bit_word_eqI; auto simp: bit_simps)+
  then show "BE_Store24 h m p v = store_bytes m p (rev (le_bytes 3 v))"
    by (auto simp: BE_Store24_def store_word le_bytes_unroll store_bytes_unroll)
qed

section \<open>128 bits\<close>

lemma MakeUint128_le_word:
  assumes "length lo = 8" "length hi \<le> 8"
  shows "MakeUint128 (le_word hi) (le_word lo) = le_word (lo @ hi)"
  using assms le_word_append_or [of lo hi, where ?'a = 128]
    ucast_le_word [of lo, where ?'a = 64 and ?'b = 128] ucast_le_word [of hi, where ?'a = 64 and ?'b = 128]
  by (simp add: MakeUint128_def)

lemma le_bytes_16: "le_bytes 16 v = le_bytes 8 (Uint128Low64 v) @ le_bytes 8 (Uint128High64 v)"
proof (rule nth_equalityI)
  fix i assume "i < length (le_bytes 16 v)"
  then have i: "i < 16" by simp
  show "le_bytes 16 v ! i = (le_bytes 8 (Uint128Low64 v) @ le_bytes 8 (Uint128High64 v)) ! i"
  proof (cases "i < 8")
    case True
    have "(ucast (drop_bit (8 * i) v) :: u8) = ucast (drop_bit (8 * i) (ucast v :: u64))"
      by (rule bit_word_eqI) (use True in \<open>auto simp: bit_simps\<close>)
    then show ?thesis using i True by (simp add: nth_append Uint128Low64_def)
  next
    case False
    then obtain j where j: "i = j + 8" by (metis add.commute le_Suc_ex not_less)
    have "(ucast (drop_bit (8 * i) v) :: u8) = ucast (drop_bit (8 * j) (ucast (drop_bit 64 v) :: u64))"
      by (rule bit_word_eqI) (use i j in \<open>auto simp: bit_simps algebra_simps\<close>)
    then show ?thesis using i j by (simp add: nth_append Uint128High64_def)
  qed
qed simp

lemma word128:
  "LE_Load128 h m p = le_word (load_bytes m p 16)" "BE_Load128 h m p = le_word (rev (load_bytes m p 16))"
  "LE_Store128 h m p v = store_bytes m p (le_bytes 16 v)" "BE_Store128 h m p v = store_bytes m p (rev (le_bytes 16 v))"
proof -
  have l: "load_bytes m p 16 = load_bytes m p 8 @ load_bytes m (p + 8) 8" using load_bytes_add [of m p 8 8] by simp
  show "LE_Load128 h m p = le_word (load_bytes m p 16)"
    by (simp add: LE_Load128_def conversion_host load_host MakeUint128_le_word l)
  show "BE_Load128 h m p = le_word (rev (load_bytes m p 16))"
    by (simp add: BE_Load128_def conversion_host load_host MakeUint128_le_word l)
  show "LE_Store128 h m p v = store_bytes m p (le_bytes 16 v)"
    by (simp add: LE_Store128_def conversion_host representation_host UnalignedStore_def le_bytes_16 store_bytes_append)
  show "BE_Store128 h m p v = store_bytes m p (rev (le_bytes 16 v))"
    by (simp add: BE_Store128_def conversion_host representation_host UnalignedStore_def le_bytes_16 store_bytes_append)
qed

section \<open>Variable lengths\<close>

lemma LE_variable_loop:
  "LE_Load64VariableLength_loop m p i k (le_word (load_bytes m p i)) = le_word (load_bytes m p (i + k))"
proof (induction k arbitrary: i)
  case (Suc k)
  have "le_word (load_bytes m p i) OR push_bit (8 * i) (ucast (m (p + i))) = (le_word (load_bytes m p (Suc i)) :: u64)"
    using le_word_append_or [of "load_bytes m p i" "[m (p + i)]", where ?'a = 64] by (simp add: load_bytes_snoc or.commute)
  then show ?case using Suc [of "Suc i"] by simp
qed simp

lemma LE_Load64VariableLength: "LE_Load64VariableLength m p len = le_word (load_bytes m p len)"
  using LE_variable_loop [of m p 0 len] by (simp add: LE_Load64VariableLength_def)

lemma BE_variable_loop:
  "BE_Load64VariableLength_loop m p len i k (le_word (rev (load_bytes m p (min i len)))) =
    le_word (rev (load_bytes m p (min (i + k) len)))"
proof (induction k arbitrary: i)
  case (Suc k)
  have "push_bit 8 (le_word (rev (load_bytes m p i))) OR ucast (m (p + i)) = (le_word (rev (load_bytes m p (Suc i))) :: u64)"
    by (simp add: load_bytes_snoc or.commute)
  then show ?case using Suc [of "Suc i"] by (cases "i < len") (auto simp: min_def not_less le_Suc_eq)
qed simp

lemma BE_Load64VariableLength: "len \<le> 8 \<Longrightarrow> BE_Load64VariableLength m p len = le_word (rev (load_bytes m p len))"
  using BE_variable_loop [of m p len 0 8] by (simp add: BE_Load64VariableLength_def)

lemma variable128:
  assumes "len \<le> 16"
  shows "LE_Load128VariableLength h m p len = le_word (load_bytes m p len)"
    and "BE_Load128VariableLength h m p len = le_word (rev (load_bytes m p len))"
proof -
  show "LE_Load128VariableLength h m p len = le_word (load_bytes m p len)"
  proof (cases "len \<le> 8")
    case True
    then show ?thesis using ucast_le_word [of "load_bytes m p len", where ?'a = 64 and ?'b = 128]
      by (simp add: LE_Load128VariableLength_def LE_Load64VariableLength)
  next
    case False
    then have "load_bytes m p len = load_bytes m p 8 @ load_bytes m (p + 8) (len - 8)" using load_bytes_add [of m p 8 "len - 8"] by simp
    then show ?thesis using False assms
      by (simp add: LE_Load128VariableLength_def LE_Load64VariableLength load_word MakeUint128_le_word)
  qed
  show "BE_Load128VariableLength h m p len = le_word (rev (load_bytes m p len))"
  proof (cases "len \<le> 8")
    case True
    then show ?thesis using ucast_le_word [of "rev (load_bytes m p len)", where ?'a = 64 and ?'b = 128]
      by (simp add: BE_Load128VariableLength_def BE_Load64VariableLength)
  next
    case False
    then have l: "load_bytes m p len = load_bytes m p (len - 8) @ load_bytes m (p + len - 8) 8"
      using load_bytes_add [of m p "len - 8" 8] by simp
    show ?thesis
    proof (cases "len < 16")
      case True
      then show ?thesis using False l
        by (simp add: BE_Load128VariableLength_def BE_Load64VariableLength load_word MakeUint128_le_word)
    next
      case nl: False
      then have "len = 16" using assms by simp
      then show ?thesis using l by (simp add: BE_Load128VariableLength_def load_word MakeUint128_le_word add.commute)
    qed
  qed
qed

lemma store_variable:
  assumes "len \<le> 8"
  shows "LE_Store64VariableLength h m p v len = store_bytes m p (le_bytes len v)"
    and "BE_Store64VariableLength h m p v len = store_bytes m p (rev (le_bytes len v))"
proof -
  have t: "take len (le_bytes 8 v) = le_bytes len v" using assms by (simp add: le_bytes_def take_map min_def)
  then show "LE_Store64VariableLength h m p v len = store_bytes m p (le_bytes len v)"
    by (simp add: LE_Store64VariableLength_def conversion_host representation_host)
  show "BE_Store64VariableLength h m p v len = store_bytes m p (rev (le_bytes len v))"
    using t assms by (simp add: BE_Store64VariableLength_def conversion_host representation_host drop_rev)
qed

section \<open>Properties\<close>

text \<open>
  Property C10.  On machines of either byte order, every \<open>LittleEndian\<close> store writes exactly the bytes of
  the value from the least significant one up, every \<open>BigEndian\<close> store from the most significant one
  down, at all widths from 16 to 128 bits, the 24-bit and the variable-length forms included.
\<close>
theorem Store_byte_order:
  assumes "len \<le> 8"
  shows "LE_Store16 h m p a = store_bytes m p (le_bytes 2 a) \<and> BE_Store16 h m p a = store_bytes m p (rev (le_bytes 2 a)) \<and>
    LE_Store24 h m p b = store_bytes m p (le_bytes 3 b) \<and> BE_Store24 h m p b = store_bytes m p (rev (le_bytes 3 b)) \<and>
    LE_Store32 h m p b = store_bytes m p (le_bytes 4 b) \<and> BE_Store32 h m p b = store_bytes m p (rev (le_bytes 4 b)) \<and>
    LE_Store64 h m p c = store_bytes m p (le_bytes 8 c) \<and> BE_Store64 h m p c = store_bytes m p (rev (le_bytes 8 c)) \<and>
    LE_Store64VariableLength h m p c len = store_bytes m p (le_bytes len c) \<and>
    BE_Store64VariableLength h m p c len = store_bytes m p (rev (le_bytes len c)) \<and>
    LE_Store128 h m p d = store_bytes m p (le_bytes 16 d) \<and> BE_Store128 h m p d = store_bytes m p (rev (le_bytes 16 d))"
  using assms by (simp only: store_word store24 word128 store_variable simp_thms)

theorem Store_byte_order_witness:
  "LE_Store32 IS_BIG_ENDIAN (\<lambda>_. 0) 10 0x01020304 = store_bytes (\<lambda>_. 0) 10 (le_bytes 4 (0x01020304 :: u32))"
  using Store_byte_order [of 0 IS_BIG_ENDIAN "\<lambda>_. 0" 10] by simp

text \<open>
  On machines of either byte order, every \<open>LittleEndian\<close> load returns the sum of the bytes
  it reads weighted by the powers of 256 in order, every \<open>BigEndian\<close> load the same in reverse order;
  in the variable-length forms no byte past the length matters.
\<close>
theorem Load_value:
  assumes "len \<le> 8" "k \<le> 16"
  shows "unat (LE_Load16 h m p) = bytes_nat (load_bytes m p 2) \<and> unat (BE_Load16 h m p) = bytes_nat (rev (load_bytes m p 2)) \<and>
    unat (LE_Load24 h m p) = bytes_nat (load_bytes m p 3) \<and> unat (BE_Load24 h m p) = bytes_nat (rev (load_bytes m p 3)) \<and>
    unat (LE_Load32 h m p) = bytes_nat (load_bytes m p 4) \<and> unat (BE_Load32 h m p) = bytes_nat (rev (load_bytes m p 4)) \<and>
    unat (LE_Load64 h m p) = bytes_nat (load_bytes m p 8) \<and> unat (BE_Load64 h m p) = bytes_nat (rev (load_bytes m p 8)) \<and>
    unat (LE_Load64VariableLength m p len) = bytes_nat (load_bytes m p len) \<and>
    unat (BE_Load64VariableLength m p len) = bytes_nat (rev (load_bytes m p len)) \<and>
    unat (LE_Load128 h m p) = bytes_nat (load_bytes m p 16) \<and> unat (BE_Load128 h m p) = bytes_nat (rev (load_bytes m p 16)) \<and>
    unat (LE_Load128VariableLength h m p k) = bytes_nat (load_bytes m p k) \<and>
    unat (BE_Load128VariableLength h m p k) = bytes_nat (rev (load_bytes m p k))"
  using assms
  by (simp add: load_word load24 word128 LE_Load64VariableLength BE_Load64VariableLength variable128 unat_le_word)

theorem Load_value_witness:
  "unat (BE_Load64VariableLength (\<lambda>_. 1) 5 3) = bytes_nat (rev (load_bytes (\<lambda>_. 1) 5 3))"
  using Load_value [of 3 3 IS_LITTLE_ENDIAN "\<lambda>_. 1" 5] by simp

text \<open>
  Loading what was stored returns the value, at every width, in either byte order and on
  either machine; the 24-bit and variable-length forms return the bits that were stored.
\<close>
theorem Load_Store_roundtrip:
  assumes "len \<le> 8"
  shows "LE_Load16 h (LE_Store16 h m p a) p = a \<and> BE_Load16 h (BE_Store16 h m p a) p = a \<and>
    LE_Load24 h (LE_Store24 h m p b) p = take_bit 24 b \<and> BE_Load24 h (BE_Store24 h m p b) p = take_bit 24 b \<and>
    LE_Load32 h (LE_Store32 h m p b) p = b \<and> BE_Load32 h (BE_Store32 h m p b) p = b \<and>
    LE_Load64 h (LE_Store64 h m p c) p = c \<and> BE_Load64 h (BE_Store64 h m p c) p = c \<and>
    LE_Load64VariableLength (LE_Store64VariableLength h m p c len) p len = take_bit (8 * len) c \<and>
    BE_Load64VariableLength (BE_Store64VariableLength h m p c len) p len = take_bit (8 * len) c \<and>
    LE_Load128 h (LE_Store128 h m p d) p = d \<and> BE_Load128 h (BE_Store128 h m p d) p = d"
proof -
  have r: "load_bytes (store_bytes m p bs) p n = bs" if "length bs = n" for bs n
    using that load_store_bytes [of m p bs] by simp
  show ?thesis using assms
    by (simp add: load_word load24 word128 LE_Load64VariableLength BE_Load64VariableLength store_word store24 store_variable
        r le_word_le_bytes take_bit_word_eq_self)
qed

theorem Load_Store_roundtrip_witness:
  "BE_Load64VariableLength (BE_Store64VariableLength IS_LITTLE_ENDIAN (\<lambda>_. 0) 7 0x123456 2) 7 2 = 0x3456"
  using Load_Store_roundtrip [of 2 IS_LITTLE_ENDIAN "\<lambda>_. 0" 7 0 0 "0x123456"] by (simp add: take_bit_eq_mask mask_eq_exp_minus_1)

text \<open>
  The overloads that take a range abort through the hardening assertion exactly when the
  range is shorter than the value, and otherwise do what the overloads on pointers do.
\<close>
theorem range_overloads:
  "LE_Load16_range h m p sz = (if sz < 2 then Inl HardeningAssert else Inr (LE_Load16 h m p)) \<and>
   LE_Store16_range h m p sz a = (if sz < 2 then Inl HardeningAssert else Inr (LE_Store16 h m p a)) \<and>
   LE_Load24_range h m p sz = (if sz < 3 then Inl HardeningAssert else Inr (LE_Load24 h m p)) \<and>
   LE_Store24_range h m p sz b = (if sz < 3 then Inl HardeningAssert else Inr (LE_Store24 h m p b)) \<and>
   LE_Load32_range h m p sz = (if sz < 4 then Inl HardeningAssert else Inr (LE_Load32 h m p)) \<and>
   LE_Store32_range h m p sz b = (if sz < 4 then Inl HardeningAssert else Inr (LE_Store32 h m p b)) \<and>
   LE_Load64_range h m p sz = (if sz < 8 then Inl HardeningAssert else Inr (LE_Load64 h m p)) \<and>
   LE_Store64_range h m p sz c = (if sz < 8 then Inl HardeningAssert else Inr (LE_Store64 h m p c)) \<and>
   LE_Load128_range h m p sz = (if sz < 16 then Inl HardeningAssert else Inr (LE_Load128 h m p)) \<and>
   LE_Store128_range h m p sz d = (if sz < 16 then Inl HardeningAssert else Inr (LE_Store128 h m p d)) \<and>
   BE_Load16_range h m p sz = (if sz < 2 then Inl HardeningAssert else Inr (BE_Load16 h m p)) \<and>
   BE_Store16_range h m p sz a = (if sz < 2 then Inl HardeningAssert else Inr (BE_Store16 h m p a)) \<and>
   BE_Load24_range h m p sz = (if sz < 3 then Inl HardeningAssert else Inr (BE_Load24 h m p)) \<and>
   BE_Store24_range h m p sz b = (if sz < 3 then Inl HardeningAssert else Inr (BE_Store24 h m p b)) \<and>
   BE_Load32_range h m p sz = (if sz < 4 then Inl HardeningAssert else Inr (BE_Load32 h m p)) \<and>
   BE_Store32_range h m p sz b = (if sz < 4 then Inl HardeningAssert else Inr (BE_Store32 h m p b)) \<and>
   BE_Load64_range h m p sz = (if sz < 8 then Inl HardeningAssert else Inr (BE_Load64 h m p)) \<and>
   BE_Store64_range h m p sz c = (if sz < 8 then Inl HardeningAssert else Inr (BE_Store64 h m p c)) \<and>
   BE_Load128_range h m p sz = (if sz < 16 then Inl HardeningAssert else Inr (BE_Load128 h m p)) \<and>
   BE_Store128_range h m p sz d = (if sz < 16 then Inl HardeningAssert else Inr (BE_Store128 h m p d))"
  by (simp add: require_def not_le LE_Load16_range_def LE_Load24_range_def LE_Load32_range_def LE_Load64_range_def LE_Load128_range_def
      LE_Store16_range_def LE_Store24_range_def LE_Store32_range_def LE_Store64_range_def
      LE_Store128_range_def BE_Load16_range_def BE_Load24_range_def BE_Load32_range_def
      BE_Load64_range_def BE_Load128_range_def BE_Store16_range_def BE_Store24_range_def
      BE_Store32_range_def BE_Store64_range_def BE_Store128_range_def)

lemma gbswap_128_byteswap: "gbswap_128 d = byteswap d"
proof -
  have l: "length (rev (le_bytes 8 (Uint128High64 d))) = 8" "length (rev (le_bytes 8 (Uint128Low64 d))) \<le> 8" by simp_all
  show ?thesis using MakeUint128_le_word [OF l]
    by (simp add: gbswap_128_def byteswap_def [of d] le_bytes_16) (simp add: byteswap_def)
qed

lemma conversion128_host:
  "LE_FromHost128 = le_host" "LE_ToHost128 = le_host" "BE_FromHost128 = be_host" "BE_ToHost128 = be_host"
  by (intro ext; simp add: LE_FromHost128_def LE_ToHost128_def BE_FromHost128_def BE_ToHost128_def
      le_host_def be_host_def gbswap_128_byteswap split: bytesex.splits)+

lemma ghton_host: "ghtons = be_host" "ghtonl = be_host" "ghtonll = be_host"
  by (intro ext; simp add: ghtons_def ghtonl_def ghtonll_def be_host_def)+

text \<open>
  The conversions between host and network order, and those of \<open>LittleEndian\<close> and
  \<open>BigEndian\<close>, are inverse to each other, and the object representation of a converted value is the
  value's bytes in the order that the name promises, at every width up to 128 bits.
\<close>
theorem conversions_involutive:
  "gntohs h (ghtons h a) = a \<and> gntohl h (ghtonl h b) = b \<and> gntohll h (ghtonll h c) = c \<and>
   LE_ToHost16 h (LE_FromHost16 h a) = a \<and> BE_ToHost16 h (BE_FromHost16 h a) = a \<and>
   LE_ToHost32 h (LE_FromHost32 h b) = b \<and> BE_ToHost32 h (BE_FromHost32 h b) = b \<and>
   LE_ToHost64 h (LE_FromHost64 h c) = c \<and> BE_ToHost64 h (BE_FromHost64 h c) = c \<and>
   LE_ToHost128 h (LE_FromHost128 h d) = d \<and> BE_ToHost128 h (BE_FromHost128 h d) = d \<and>
   representation h (ghtons h a) = rev (le_bytes 2 a) \<and> representation h (ghtonl h b) = rev (le_bytes 4 b) \<and>
   representation h (ghtonll h c) = rev (le_bytes 8 c) \<and>
   representation h (LE_FromHost128 h d) = le_bytes 16 d \<and> representation h (BE_FromHost128 h d) = rev (le_bytes 16 d)"
  by (simp add: gntohs_def gntohl_def gntohll_def ghton_host conversion_host conversion128_host host_involution representation_host)

text \<open>
  The templates that select the width by the type agree with the routines named by
  width: \<open>Load<T>\<close> and \<open>Store<T>\<close> for integers of 8 to 64 bits, the machine-word forms, and a stored
  \<open>bool\<close> is read back.
\<close>
theorem templates_select_width:
  "(LoadInteger c h m p :: u8) = m p \<and> StoreInteger c h m (x :: u8) p = m(p := x) \<and>
   (LoadInteger LittleEndian h m p :: u16) = LE_Load16 h m p \<and> (LoadInteger BigEndian h m p :: u16) = BE_Load16 h m p \<and>
   (LoadInteger LittleEndian h m p :: u32) = LE_Load32 h m p \<and> (LoadInteger BigEndian h m p :: u32) = BE_Load32 h m p \<and>
   (LoadInteger LittleEndian h m p :: u64) = LE_Load64 h m p \<and> (LoadInteger BigEndian h m p :: u64) = BE_Load64 h m p \<and>
   StoreInteger LittleEndian h m (y :: u16) p = LE_Store16 h m p y \<and> StoreInteger BigEndian h m y p = BE_Store16 h m p y \<and>
   StoreInteger LittleEndian h m (z :: u32) p = LE_Store32 h m p z \<and> StoreInteger BigEndian h m z p = BE_Store32 h m p z \<and>
   StoreInteger LittleEndian h m (w :: u64) p = LE_Store64 h m p w \<and> StoreInteger BigEndian h m w p = BE_Store64 h m p w \<and>
   (LE_LoadUnsignedWord h (LE_StoreUnsignedWord h m p w) p) = w \<and> (BE_LoadUnsignedWord h (BE_StoreUnsignedWord h m p w) p) = w \<and>
   (LE_LoadUnsignedWord h (LE_StoreUnsignedWord h m p z) p) = z \<and> (BE_LoadUnsignedWord h (BE_StoreUnsignedWord h m p z) p) = z \<and>
   GFC_ToHost c h (GFC_FromHost c h w) = w \<and> GFC_ToHost c h (GFC_FromHost c h z) = z \<and> GFC_ToHost c h (GFC_FromHost c h y) = y \<and>
   Load_bool (Store_bool m v p) p = v"
proof -
  have r: "load_bytes (store_bytes m p bs) p n = bs" if "length bs = n" for bs n
    using that load_store_bytes [of m p bs] by simp
  have "(UnalignedLoad h m p :: u8) = m p"
    by (cases h) (simp_all add: UnalignedLoad_def load_bytes_def)
  moreover have "LE_LoadUnsignedWord h (LE_StoreUnsignedWord h m p w) p = w" "BE_LoadUnsignedWord h (BE_StoreUnsignedWord h m p w) p = w"
    "LE_LoadUnsignedWord h (LE_StoreUnsignedWord h m p z) p = z" "BE_LoadUnsignedWord h (BE_StoreUnsignedWord h m p z) p = z"
    by (simp_all add: LE_LoadUnsignedWord_def BE_LoadUnsignedWord_def LE_StoreUnsignedWord_def BE_StoreUnsignedWord_def
        load_word store_word r le_word_representation)
  moreover have "GFC_ToHost c h (GFC_FromHost c h w) = w" "GFC_ToHost c h (GFC_FromHost c h z) = z" "GFC_ToHost c h (GFC_FromHost c h y) = y"
    by (cases c; simp add: GFC_ToHost_def GFC_FromHost_def EC_ToHost16_def EC_FromHost16_def EC_ToHost32_def EC_FromHost32_def
        EC_ToHost64_def EC_FromHost64_def conversion_host host_involution)+
  ultimately show ?thesis
    by (simp add: LoadInteger_def StoreInteger_def EC_ToHost16_def EC_FromHost16_def EC_ToHost32_def EC_FromHost32_def
        EC_ToHost64_def EC_FromHost64_def LE_Load16_def BE_Load16_def LE_Load32_def BE_Load32_def LE_Load64_def BE_Load64_def
        LE_Store16_def BE_Store16_def LE_Store32_def BE_Store32_def LE_Store64_def BE_Store64_def Load_bool_def Store_bool_def)
qed

end
