(* ===== verification/Coder_Proofs.thy ===== *)
theory Coder_Proofs
  imports Coder Endian_Proofs Varint_Codec
begin

text \<open>
  Correctness of the encoder and decoder.  The fixed-width writers interpret the codec interface, as the
  varints do, and messages of mixed items follow; then the ownership of the encoder's buffer, the copy
  of a varint from a decoder (the unrolled code and its loop against the varint reference), and
  C strings.
\<close>

section \<open>Fixed-width values as codecs\<close>

lemma codec_laws:
  fixes enc :: "'v \<Rightarrow> u8 list" and n :: nat and load :: "mem \<Rightarrow> addr \<Rightarrow> 'v"
  assumes "\<And>v. length (enc v) = n" "\<And>m p v. load_bytes m p n = enc v \<Longrightarrow> load m p = v"
    "\<And>m m' p. load_bytes m p n = load_bytes m' p n \<Longrightarrow> load m p = load m' p"
  shows "byte_codec enc (\<lambda>m p v. (store_bytes m p (enc v), p + n))
    (\<lambda>m p limit. if p + n \<le> limit then Some (p + n, load m p) else None) (\<lambda>_. True)"
proof
  fix m m' :: mem and p limit
  assume "\<And>a. p \<le> a \<Longrightarrow> a < limit \<Longrightarrow> m a = m' a"
  then have "load_bytes m p n = load_bytes m' p n" if "p + n \<le> limit" using that by (intro load_bytes_cong) simp
  then show "(if p + n \<le> limit then Some (p + n, load m p) else None) = (if p + n \<le> limit then Some (p + n, load m' p) else None)"
    using assms(3) [of m p m'] by auto
qed (use assms(1,2) in \<open>auto split: if_splits\<close>)

interpretation fixed8: byte_codec "\<lambda>v :: u8. [v]" Writer_put8
  "\<lambda>m p limit. if p + 1 \<le> limit then Some (p + 1, m p) else None" "\<lambda>_. True"
proof -
  have put: "Writer_put8 = (\<lambda>m p v. (store_bytes m p [v], p + 1))" by (intro ext) (simp add: Writer_put8_def)
  show "byte_codec (\<lambda>v :: u8. [v]) Writer_put8 (\<lambda>m p limit. if p + 1 \<le> limit then Some (p + 1, m p) else None) (\<lambda>_. True)"
    unfolding put by (rule codec_laws [where load = "\<lambda>m p. m p"]) (simp_all add: load_bytes_Suc [of _ _ 0, simplified])
qed

lemma Writer_skip_simp [simp]: "snd (Writer_skip p (numeral n)) = p + numeral n" "snd (Writer_skip p (int k)) = p + k"
  by (simp_all add: Writer_skip_def nat_add_distrib)

interpretation fixed16: byte_codec "le_bytes 2" "Writer_put16 h"
  "\<lambda>m p limit. if p + 2 \<le> limit then Some (p + 2, LE_Load16 h m p) else None" "\<lambda>_. True" for h
proof -
  have put: "Writer_put16 h = (\<lambda>m p v. (store_bytes m p (le_bytes 2 v), p + 2))"
    by (intro ext) (simp add: Writer_put16_def store_word)
  show "byte_codec (le_bytes 2) (Writer_put16 h) (\<lambda>m p limit. if p + 2 \<le> limit then Some (p + 2, LE_Load16 h m p) else None) (\<lambda>_. True)"
    unfolding put by (rule codec_laws) (simp_all add: load_word le_word_representation)
qed

interpretation fixed32: byte_codec "le_bytes 4" "Writer_put32 h"
  "\<lambda>m p limit. if p + 4 \<le> limit then Some (p + 4, LE_Load32 h m p) else None" "\<lambda>_. True" for h
proof -
  have put: "Writer_put32 h = (\<lambda>m p v. (store_bytes m p (le_bytes 4 v), p + 4))"
    by (intro ext) (simp add: Writer_put32_def store_word)
  show "byte_codec (le_bytes 4) (Writer_put32 h) (\<lambda>m p limit. if p + 4 \<le> limit then Some (p + 4, LE_Load32 h m p) else None) (\<lambda>_. True)"
    unfolding put by (rule codec_laws) (simp_all add: load_word le_word_representation)
qed

interpretation fixed64: byte_codec "le_bytes 8" "Writer_put64 h"
  "\<lambda>m p limit. if p + 8 \<le> limit then Some (p + 8, LE_Load64 h m p) else None" "\<lambda>_. True" for h
proof -
  have put: "Writer_put64 h = (\<lambda>m p v. (store_bytes m p (le_bytes 8 v), p + 8))"
    by (intro ext) (simp add: Writer_put64_def store_word)
  show "byte_codec (le_bytes 8) (Writer_put64 h) (\<lambda>m p limit. if p + 8 \<le> limit then Some (p + 8, LE_Load64 h m p) else None) (\<lambda>_. True)"
    unfolding put by (rule codec_laws) (simp_all add: load_word le_word_representation)
qed

interpretation fixed128: byte_codec "le_bytes 16" "Writer_put128 h"
  "\<lambda>m p limit. if p + 16 \<le> limit then Some (p + 16, LE_Load128 h m p) else None" "\<lambda>_. True" for h
proof -
  have put: "Writer_put128 h = (\<lambda>m p v. (store_bytes m p (le_bytes 16 v), p + 16))"
    by (intro ext) (simp add: Writer_put128_def word128)
  show "byte_codec (le_bytes 16) (Writer_put128 h) (\<lambda>m p limit. if p + 16 \<le> limit then Some (p + 16, LE_Load128 h m p) else None) (\<lambda>_. True)"
    unfolding put by (rule codec_laws) (simp_all add: word128 le_word_representation)
qed

section \<open>Messages\<close>

datatype item = U8 u8 | U16 u16 | U32 u32 | U64 u64 | U128 u128 | Float u32 | Double u64 | V32 u32 | V32_inline u32 | V64 u64

fun item_bytes :: "item \<Rightarrow> u8 list" where
  "item_bytes (U8 v) = [v]"
| "item_bytes (U16 v) = le_bytes 2 v"
| "item_bytes (U32 v) = le_bytes 4 v"
| "item_bytes (U64 v) = le_bytes 8 v"
| "item_bytes (U128 v) = le_bytes 16 v"
| "item_bytes (Float v) = le_bytes 4 v"
| "item_bytes (Double v) = le_bytes 8 v"
| "item_bytes (V32 v) = varint_bytes (unat v)"
| "item_bytes (V32_inline v) = varint_bytes (unat v)"
| "item_bytes (V64 v) = varint_bytes (unat v)"

fun put_item :: "build \<Rightarrow> platform \<Rightarrow> bytesex \<Rightarrow> Encoder \<Rightarrow> mem \<Rightarrow> item \<Rightarrow> (Encoder \<times> mem) outcome" where
  "put_item bld plat h e m (U8 v) = e_put8 bld e m v"
| "put_item bld plat h e m (U16 v) = e_put16 bld h e m v"
| "put_item bld plat h e m (U32 v) = e_put32 bld h e m v"
| "put_item bld plat h e m (U64 v) = e_put64 bld h e m v"
| "put_item bld plat h e m (U128 v) = e_put128 bld h e m v"
| "put_item bld plat h e m (Float v) = e_putfloat bld h e m v"
| "put_item bld plat h e m (Double v) = e_putdouble bld h e m v"
| "put_item bld plat h e m (V32 v) = e_put_varint32 bld plat e m v"
| "put_item bld plat h e m (V32_inline v) = e_put_varint32_inline bld plat e m v"
| "put_item bld plat h e m (V64 v) = e_put_varint64 bld plat e m v"

text \<open>Reading an item of the same kind; \<open>None\<close> when the decoder aborts or reports failure.\<close>

definition got :: "('v \<Rightarrow> item) \<Rightarrow> ('v \<times> Decoder) outcome \<Rightarrow> (item \<times> Decoder) option" where
  "got mk r = (case r of Inl _ \<Rightarrow> None | Inr (v, d) \<Rightarrow> Some (mk v, d))"

fun get_item :: "build \<Rightarrow> platform \<Rightarrow> bytesex \<Rightarrow> item \<Rightarrow> Decoder \<Rightarrow> mem \<Rightarrow> (item \<times> Decoder) option" where
  "get_item bld plat h (U8 _) d m = got U8 (d_get8 bld d m)"
| "get_item bld plat h (U16 _) d m = got U16 (d_get16 bld h d m)"
| "get_item bld plat h (U32 _) d m = got U32 (d_get32 bld h d m)"
| "get_item bld plat h (U64 _) d m = got U64 (d_get64 bld h d m)"
| "get_item bld plat h (U128 _) d m = got U128 (d_get128 bld h d m)"
| "get_item bld plat h (Float _) d m = got Float (d_getfloat bld h d m)"
| "get_item bld plat h (Double _) d m = got Double (d_getdouble bld h d m)"
| "get_item bld plat h (V32 _) d m = map_option (map_prod V32 id) (d_get_varint32 d m)"
| "get_item bld plat h (V32_inline _) d m = map_option (map_prod V32_inline id) (d_get_varint32 d m)"
| "get_item bld plat h (V64 _) d m = map_option (map_prod V64 id) (d_get_varint64 plat d m)"

definition e_ok :: "Encoder \<Rightarrow> bool" where
  "e_ok e = (e_orig e \<le> e_buf e \<and> e_buf e \<le> e_limit e)"

lemma Length_bytes: "Length32 plat v = length (varint_bytes (unat v))" "Length64 plat w = length (varint_bytes (unat w))"
  by (simp_all add: Length32_def Length64_def LengthImpl_varint)

lemma room32: "(e_avail e \<ge> kMax32 \<or> e_avail e \<ge> Length32 plat v) \<longleftrightarrow> length (varint_bytes (unat v)) \<le> e_avail e"
  using length_varint_bytes_le(1) [of v] by (auto simp: Length_bytes kMax32_def)

lemma room64: "(e_avail e \<ge> kMax64 \<or> e_avail e \<ge> Length64 plat v) \<longleftrightarrow> length (varint_bytes (unat v)) \<le> e_avail e"
  using length_varint_bytes_le(2) [of v] by (auto simp: Length_bytes kMax64_def)

lemma put_item_spec:
  "put_item bld plat h e m it = (if length (item_bytes it) \<le> e_avail e
     then Inr (e\<lparr>e_buf := e_buf e + length (item_bytes it)\<rparr>, store_bytes m (e_buf e) (item_bytes it))
     else Inl (hardening_failure bld))"
proof (cases it)
  case (V32 v)
  then show ?thesis using room32 [of e plat v] by (simp add: e_put_varint32_def through_writer_def hardening_assert_def require_def Encode32_bytes)
next
  case (V32_inline v)
  then show ?thesis using room32 [of e plat v] Encode32_bytes [of m "e_buf e" v]
    by (simp add: e_put_varint32_inline_def through_writer_def hardening_assert_def require_def Encode32_def)
next
  case (V64 v)
  then show ?thesis using room64 [of e plat v] by (simp add: e_put_varint64_def through_writer_def hardening_assert_def require_def Encode64_bytes)
qed (simp_all add: e_put8_def e_put16_def e_put32_def e_put64_def e_put128_def e_putfloat_def e_putdouble_def hardening_assert_def require_def
      through_writer_def fixed8.put_enc fixed16.put_enc fixed32.put_enc fixed64.put_enc fixed128.put_enc)

lemma get_item_spec:
  assumes "load_bytes m (d_buf d) (length (item_bytes it)) = item_bytes it" "length (item_bytes it) \<le> d_avail d" "d_buf d \<le> d_limit d"
  shows "get_item bld plat h it d m = Some (it, d\<lparr>d_buf := d_buf d + length (item_bytes it)\<rparr>)"
proof -
  have lim: "d_buf d + length (item_bytes it) \<le> d_limit d" using assms(2,3) by (simp add: d_avail_def)
  show ?thesis
  proof (cases it)
    case (U8 v)
    then show ?thesis using assms fixed8.get_enc [of m "d_buf d" v "d_limit d"] lim by (simp add: d_get8_def got_def hardening_assert_def d_avail_def)
  next
    case (U16 v)
    then show ?thesis using assms fixed16.get_enc [of m "d_buf d" v "d_limit d" h] lim by (simp add: d_get16_def got_def hardening_assert_def)
  next
    case (U32 v)
    then show ?thesis using assms fixed32.get_enc [of m "d_buf d" v "d_limit d" h] lim by (simp add: d_get32_def got_def hardening_assert_def)
  next
    case (U64 v)
    then show ?thesis using assms fixed64.get_enc [of m "d_buf d" v "d_limit d" h] lim by (simp add: d_get64_def got_def hardening_assert_def)
  next
    case (U128 v)
    then show ?thesis using assms fixed128.get_enc [of m "d_buf d" v "d_limit d" h] lim by (simp add: d_get128_def got_def hardening_assert_def)
  next
    case (Float v)
    then show ?thesis using assms fixed32.get_enc [of m "d_buf d" v "d_limit d" h] lim by (simp add: d_getfloat_def d_get32_def got_def hardening_assert_def)
  next
    case (Double v)
    then show ?thesis using assms fixed64.get_enc [of m "d_buf d" v "d_limit d" h] lim by (simp add: d_getdouble_def d_get64_def got_def hardening_assert_def)
  next
    case (V32 v)
    then show ?thesis using assms varint32.get_enc [of m "d_buf d" v "d_limit d"] lim by (simp add: d_get_varint32_def)
  next
    case (V32_inline v)
    then show ?thesis using assms varint32.get_enc [of m "d_buf d" v "d_limit d"] lim by (simp add: d_get_varint32_def)
  next
    case (V64 v)
    then show ?thesis using assms varint64.get_enc [of m "d_buf d" v "d_limit d" plat] lim by (simp add: d_get_varint64_def)
  qed
qed

fun put_items :: "build \<Rightarrow> platform \<Rightarrow> bytesex \<Rightarrow> Encoder \<Rightarrow> mem \<Rightarrow> item list \<Rightarrow> (Encoder \<times> mem) outcome" where
  "put_items bld plat h e m [] = Inr (e, m)"
| "put_items bld plat h e m (it # its) = andThen (put_item bld plat h e m it) (\<lambda>(e, m). put_items bld plat h e m its)"

fun get_items :: "build \<Rightarrow> platform \<Rightarrow> bytesex \<Rightarrow> item list \<Rightarrow> Decoder \<Rightarrow> mem \<Rightarrow> (item list \<times> Decoder) option" where
  "get_items bld plat h [] d m = Some ([], d)"
| "get_items bld plat h (it # its) d m = (case get_item bld plat h it d m of None \<Rightarrow> None
     | Some (i, d) \<Rightarrow> map_option (map_prod (Cons i) id) (get_items bld plat h its d m))"

abbreviation message :: "item list \<Rightarrow> u8 list" where "message its \<equiv> concat (map item_bytes its)"

lemma put_items_spec:
  "e_ok e \<Longrightarrow> put_items bld plat h e m its = (if length (message its) \<le> e_avail e
     then Inr (e\<lparr>e_buf := e_buf e + length (message its)\<rparr>, store_bytes m (e_buf e) (message its))
     else Inl (hardening_failure bld))"
proof (induction its arbitrary: e m)
  case (Cons it its)
  let ?n = "length (item_bytes it)"
  let ?e = "e\<lparr>e_buf := e_buf e + ?n\<rparr>"
  show ?case
  proof (cases "?n \<le> e_avail e")
    case True
    then have ok: "e_ok ?e" and av: "e_avail ?e = e_avail e - ?n" using Cons.prems by (auto simp: e_ok_def e_avail_def)
    show ?thesis using True Cons.IH [OF ok, of "store_bytes m (e_buf e) (item_bytes it)"] av
      by (auto simp: put_item_spec store_bytes_append add.assoc)
  qed (simp add: put_item_spec)
qed simp

lemma get_items_spec:
  assumes "load_bytes m (d_buf d) (length (message its)) = message its" "length (message its) \<le> d_avail d" "d_buf d \<le> d_limit d"
  shows "get_items bld plat h its d m = Some (its, d\<lparr>d_buf := d_buf d + length (message its)\<rparr>)"
  using assms
proof (induction its arbitrary: d)
  case (Cons it its)
  let ?n = "length (item_bytes it)"
  have l: "load_bytes m (d_buf d) ?n = item_bytes it" "load_bytes m (d_buf d + ?n) (length (message its)) = message its"
    using Cons.prems(1) by (simp_all add: load_bytes_add)
  have "get_item bld plat h it d m = Some (it, d\<lparr>d_buf := d_buf d + ?n\<rparr>)"
    using get_item_spec [OF l(1) _ Cons.prems(3)] Cons.prems(2) by simp
  moreover have "get_items bld plat h its (d\<lparr>d_buf := d_buf d + ?n\<rparr>) m = Some (its, d\<lparr>d_buf := d_buf d + ?n + length (message its)\<rparr>)"
    using Cons.IH [of "d\<lparr>d_buf := d_buf d + ?n\<rparr>"] l(2) Cons.prems(2,3) by (simp add: d_avail_def)
  ultimately show ?case by (simp add: add.assoc)
qed simp

section \<open>Owned buffers\<close>

text \<open>
  What the allocator promises: a non-null block of at least the requested size, whose size is a \<open>size_t\<close>
  too, that overlaps no live block.
\<close>

definition good_allocator :: "allocator \<Rightarrow> bool" where
  "good_allocator alloc = (\<forall>s n. finite (live s) \<and> n < 2 ^ 64 \<longrightarrow> fst (alloc s n) \<noteq> nullptr \<and> n \<le> snd (alloc s n) \<and> snd (alloc s n) < 2 ^ 64 \<and>
    (\<forall>(q, k)\<in>live s. fst (alloc s n) + snd (alloc s n) \<le> q \<or> q + k \<le> fst (alloc s n)))"

definition owned :: "Encoder \<Rightarrow> (addr \<times> nat) set" where
  "owned e = (if ensure_allowed e \<and> e_underlying e \<noteq> nullptr then {(e_underlying e, e_capacity e)} else {})"

definition owner_ok :: "store \<Rightarrow> Encoder \<Rightarrow> bool" where
  "owner_ok s e = (e_ok e \<and> (e_orig e = nullptr \<longrightarrow> e_limit e = nullptr) \<and> owned e \<subseteq> live s \<and> finite (live s) \<and>
    e_capacity e < 2 ^ 64)"

lemma delete_owned_ok: "owner_ok s e \<Longrightarrow> delete_owned s e = Inr (s\<lparr>live := live s - owned e\<rparr>)"
  by (auto simp: delete_owned_def DeleteBuffer_def owner_ok_def owned_def)

definition encoded :: "store \<Rightarrow> Encoder \<Rightarrow> u8 list" where
  "encoded s e = load_bytes (bytes s) (e_orig e) (e_length e)"

lemma memcpy_other: "a < dst \<or> dst + n \<le> a \<Longrightarrow> memcpy m dst src n a = m a"
  by (simp add: memcpy_def store_bytes_outside)

lemma memcpy_copy: "load_bytes (memcpy m dst src n) dst n = load_bytes m src n"
  using load_store_bytes [of m dst "load_bytes m src n"] by (simp add: memcpy_def)

text \<open>The size asked for; the sum wraps when the request is close to the size of the address space.\<close>

lemma requested_size:
  fixes N :: u64
  assumes "len < 2 ^ 64"
  shows "len + unat N < 2 ^ 64 \<Longrightarrow> len + unat N \<le> unat (max (of_nat len + N) (2 * of_nat len))"
    and "len < 2 ^ 63 \<Longrightarrow> len \<le> unat (max (of_nat len + N) (2 * of_nat len))"
proof -
  have len: "unat (of_nat len :: u64) = len" using assms by (simp add: unat_of_nat take_bit_nat_eq_self)
  show "len + unat N \<le> unat (max (of_nat len + N) (2 * of_nat len))" if "len + unat N < 2 ^ 64"
  proof -
    have "unat (of_nat len + N) = len + unat N" using that len unat_add_lem [of "of_nat len" N] by simp
    then show ?thesis by (metis max.cobounded1 word_le_nat_alt)
  qed
  show "len \<le> unat (max (of_nat len + N) (2 * of_nat len))" if "len < 2 ^ 63"
  proof -
    have "(2 * of_nat len :: u64) = of_nat (2 * len)" by simp
    then have "unat (2 * of_nat len :: u64) = 2 * len" using that by (simp only: unat_of_nat) (simp add: take_bit_nat_eq_self)
    then have "len \<le> unat (2 * of_nat len :: u64)" by simp
    then show ?thesis by (metis max.cobounded2 order_trans word_le_nat_alt)
  qed
qed

text \<open>The state after the buffer has been replaced by the block \<open>(p, n)\<close>.\<close>

definition grown_encoder :: "Encoder \<Rightarrow> addr \<Rightarrow> nat \<Rightarrow> Encoder" where
  "grown_encoder e p n = \<lparr>e_buf = p + e_length e, e_limit = p + n, e_underlying = p, e_orig = p\<rparr>"

definition grown_store :: "store \<Rightarrow> Encoder \<Rightarrow> addr \<Rightarrow> nat \<Rightarrow> store" where
  "grown_store s e p n =
    \<lparr>bytes = if e_underlying e \<noteq> nullptr then memcpy (bytes s) p (e_underlying e) (e_length e) else bytes s,
     live = insert (p, n) (live s) - owned e\<rparr>"

lemma owner_nullptr: "owner_ok s e \<Longrightarrow> ensure_allowed e \<Longrightarrow> e_underlying e = nullptr \<Longrightarrow> e_length e = 0"
  by (auto simp: ensure_allowed_def owner_ok_def e_ok_def nullptr_def e_length_def)

lemma EnsureSlowPath_run:
  assumes "owner_ok s e" "ensure_allowed e" "e_length e \<le> n"
    and "alloc s (unat (max (of_nat (e_length e) + N) (2 * of_nat (e_length e)))) = (p, n)"
  shows "EnsureSlowPath alloc s e N =
    require CheckFailed (unat N \<le> n - e_length e) (Inr (grown_encoder e p n, grown_store s e p n))"
proof (cases "e_underlying e = nullptr")
  case True
  then show ?thesis using assms by (cases s) (simp add: EnsureSlowPath_def NewBuffer_def owned_def e_avail_def Let_def
    grown_encoder_def grown_store_def)
next
  case False
  then have "(e_underlying e, e_capacity e) \<in> live s" using assms(1,2) by (simp add: owner_ok_def owned_def)
  then show ?thesis using False assms by (cases s) (simp add: EnsureSlowPath_def NewBuffer_def DeleteBuffer_def owned_def
    e_avail_def Let_def grown_encoder_def grown_store_def)
qed

lemma grown_ok:
  assumes "owner_ok s e" "ensure_allowed e" "p \<noteq> nullptr" "0 < n" "n < 2 ^ 64" "e_length e \<le> n"
    and disj: "\<And>q k. (q, k) \<in> live s \<Longrightarrow> p + n \<le> q \<or> q + k \<le> p"
  defines "e' \<equiv> grown_encoder e p n" and "s' \<equiv> grown_store s e p n"
  shows "e_avail e' = n - e_length e \<and> encoded s' e' = encoded s e \<and>
    owner_ok s' e' \<and> ensure_allowed e' \<and> live s' - owned e' = live s - owned e \<and>
    (\<forall>(q, k)\<in>live s. \<forall>a. q \<le> a \<and> a < q + k \<longrightarrow> bytes s' a = bytes s a)"
proof -
  have fresh: "(p, n) \<notin> live s" using disj [of p n] assms(4) by auto
  have own: "owned e' = {(p, n)}" using assms(3) by (simp add: owned_def ensure_allowed_def e_capacity_def e'_def grown_encoder_def)
  have "owned e \<subseteq> live s" "finite (live s)" using assms(1) by (simp_all add: owner_ok_def)
  then have lv: "live s' - owned e' = live s - owned e" "owned e' \<subseteq> live s'" "finite (live s')"
    using fresh own by (auto simp: s'_def grown_store_def)
  have len: "e_length e' = e_length e" "e_orig e' = p" "e_avail e' = n - e_length e"
    by (simp_all add: e_length_def e_avail_def e'_def grown_encoder_def)
  have "encoded s' e' = encoded s e"
  proof (cases "e_underlying e = nullptr")
    case True
    then show ?thesis using len owner_nullptr [OF assms(1,2)] by (simp add: encoded_def)
  next
    case False
    then show ?thesis using assms(2) memcpy_copy [of "bytes s" p "e_underlying e" "e_length e"]
      by (simp add: encoded_def len ensure_allowed_def s'_def grown_store_def)
  qed
  moreover have "bytes s' a = bytes s a" if "(q, k) \<in> live s" "q \<le> a" "a < q + k" for q k a
    using disj [OF that(1)] that(2,3) assms(6) by (auto intro!: memcpy_other simp: s'_def grown_store_def)
  moreover have "owner_ok s' e'" "ensure_allowed e'"
    using assms(3,5,6) lv by (simp_all add: owner_ok_def e_ok_def ensure_allowed_def e_capacity_def e'_def grown_encoder_def)
  ultimately show ?thesis using lv(1) len(3) by blast
qed

lemma Ensure_ok:
  assumes "good_allocator alloc" "owner_ok s e" "ensure_allowed e"
  shows "e_length e + unat N < 2 ^ 64 \<Longrightarrow>
    \<exists>e' s'. Ensure alloc s e N = Inr (e', s') \<and> unat N \<le> e_avail e' \<and> encoded s' e' = encoded s e \<and>
    owner_ok s' e' \<and> ensure_allowed e' \<and> live s' - owned e' = live s - owned e \<and>
    (\<forall>(q, k)\<in>live s. \<forall>a. q \<le> a \<and> a < q + k \<longrightarrow> bytes s' a = bytes s a)"
    and "2 ^ 64 \<le> e_length e + unat N \<Longrightarrow> e_length e < 2 ^ 63 \<Longrightarrow> Ensure alloc s e N = Inl CheckFailed"
proof -
  let ?len = "e_length e" let ?sz = "unat (max (of_nat ?len + N) (2 * of_nat ?len))"
  obtain p n where al: "alloc s ?sz = (p, n)" by fastforce
  have fin: "finite (live s)" and len: "?len < 2 ^ 64" and cap: "?len + e_avail e < 2 ^ 64"
    using assms(2) by (auto simp: owner_ok_def e_capacity_def e_length_def e_avail_def e_ok_def)
  have "?sz < 2 ^ 64" using unsigned_less [of "max (of_nat ?len + N) (2 * of_nat ?len)"] by simp
  then have "fst (alloc s ?sz) \<noteq> nullptr \<and> ?sz \<le> snd (alloc s ?sz) \<and> snd (alloc s ?sz) < 2 ^ 64 \<and>
    (\<forall>(q, k)\<in>live s. fst (alloc s ?sz) + snd (alloc s ?sz) \<le> q \<or> q + k \<le> fst (alloc s ?sz))"
    using assms(1) fin unfolding good_allocator_def by blast
  then have g: "p \<noteq> nullptr" "?sz \<le> n" "n < 2 ^ 64" and disj: "\<And>q k. (q, k) \<in> live s \<Longrightarrow> p + n \<le> q \<or> q + k \<le> p"
    unfolding al by auto
  show "Ensure alloc s e N = Inl CheckFailed" if "2 ^ 64 \<le> ?len + unat N" "?len < 2 ^ 63"
  proof -
    have "?len \<le> n" using requested_size(2) [OF len that(2), of N] g(2) by linarith
    moreover have "e_avail e < unat N" "\<not> unat N \<le> n - ?len" using that(1) cap g(3) calculation by linarith+
    ultimately show ?thesis using EnsureSlowPath_run [where alloc = alloc and s = s and e = e and N = N, OF assms(2,3) _ al]
      by (simp add: Ensure_def require_def)
  qed
  assume "?len + unat N < 2 ^ 64"
  then have n: "?len + unat N \<le> n" using requested_size(1) [OF len] g(2) order_trans by blast
  show "\<exists>e' s'. Ensure alloc s e N = Inr (e', s') \<and> unat N \<le> e_avail e' \<and> encoded s' e' = encoded s e \<and>
    owner_ok s' e' \<and> ensure_allowed e' \<and> live s' - owned e' = live s - owned e \<and>
    (\<forall>(q, k)\<in>live s. \<forall>a. q \<le> a \<and> a < q + k \<longrightarrow> bytes s' a = bytes s a)"
  proof (cases "e_avail e < unat N")
    case True
    then have "Ensure alloc s e N = Inr (grown_encoder e p n, grown_store s e p n)"
      using EnsureSlowPath_run [where alloc = alloc and s = s and e = e and N = N, OF assms(2,3) _ al] n by (simp add: Ensure_def require_def)
    moreover have "0 < n" using True n by linarith
    ultimately show ?thesis using grown_ok [OF assms(2,3) g(1) _ g(3) _ disj] n by auto
  qed (use assms in \<open>auto simp: Ensure_def\<close>)
qed

section \<open>Copying a varint from a decoder\<close>

lemma scan_stop:
  "(\<And>j. j < k \<Longrightarrow> 128 \<le> unat (m (p + j))) \<Longrightarrow> p + k < limit \<Longrightarrow> k < n \<Longrightarrow> lim \<le> 128 \<Longrightarrow>
    unat (m (p + k)) < (if Suc k = n then lim else 128) \<Longrightarrow> \<exists>v. varint_scan n lim limit m p = Some (p + k + 1, v)"
proof (induction n arbitrary: p k)
  case (Suc n)
  show ?case
  proof (cases k)
    case 0
    then show ?thesis using Suc.prems by auto
  next
    case (Suc k')
    have "\<exists>v. varint_scan n lim limit m (Suc p) = Some (Suc p + k' + 1, v)"
      by (rule Suc.IH) (use Suc.prems Suc in \<open>auto split: if_splits\<close>, use Suc.prems(1) [of "Suc _"] Suc in auto)
    moreover have "128 \<le> unat (m p)" using Suc.prems(1) [of 0] Suc by simp
    ultimately show ?thesis using Suc.prems Suc by auto
  qed
qed simp

lemma scan_fail:
  "(\<And>j. j < n \<Longrightarrow> 128 \<le> unat (m (p + j))) \<Longrightarrow> lim \<le> unat (m (p + n)) \<Longrightarrow> lim \<le> 128 \<Longrightarrow>
    varint_scan (Suc n) lim limit m p = None"
proof (induction n arbitrary: p)
  case (Suc n)
  have "varint_scan (Suc n) lim limit m (Suc p) = None"
    by (rule Suc.IH) (use Suc.prems in auto, use Suc.prems(1) [of "Suc _"] in auto)
  moreover have "128 \<le> unat (m p)" using Suc.prems(1) [of 0] by simp
  ultimately show ?case using Suc.prems(3) by (subst varint_scan.simps) simp
qed simp

text \<open>A varint found in one place is found in any copy of its bytes.\<close>

lemma scan_copy:
  "varint_scan n lim limit m p = Some (q, v) \<Longrightarrow> load_bytes m' p' (q - p) = load_bytes m p (q - p) \<Longrightarrow>
    p' + (q - p) \<le> limit' \<Longrightarrow> varint_scan n lim limit' m' p' = Some (p' + (q - p), v)"
proof (induction n arbitrary: p p' q v)
  case (Suc n)
  have pq: "p < q" using varint_scan_bounds [OF Suc.prems(1)] by simp
  then obtain k where k: "q - p = Suc k" by (metis Suc_diff_Suc)
  then have b: "m' p' = m p" "load_bytes m' (Suc p') k = load_bytes m (Suc p) k" using Suc.prems(2) by (simp_all add: load_bytes_Suc)
  show ?case
  proof (cases "unat (m p) < (if n = 0 then lim else 128)")
    case True
    then have "q = Suc p" "v = unat (m p)" using Suc.prems(1) by (auto split: if_splits)
    then show ?thesis using True Suc.prems(3) b(1) by simp
  next
    case False
    then obtain w where w: "varint_scan n lim limit m (Suc p) = Some (q, w)" "v = unat (m p) mod 128 + 128 * w" "p < limit"
      using Suc.prems(1) by (auto split: if_splits)
    have kk: "q - Suc p = k" using k by simp
    have "varint_scan n lim limit' m' (Suc p') = Some (Suc p' + k, w)"
      using Suc.IH [OF w(1), of "Suc p'"] b(2) kk Suc.prems(3) k by simp
    then show ?thesis using False b(1) w(2) k Suc.prems(3) by simp
  qed
qed simp

text \<open>
  What a copy of one varint must do, given what a scan finds: the answer, both positions, and the
  memory, which changes only within the encoder's room.
\<close>

definition copied :: "mem \<Rightarrow> addr \<Rightarrow> addr \<Rightarrow> addr \<Rightarrow> (addr \<times> nat) option \<Rightarrow> bool \<times> addr \<times> addr \<times> mem \<Rightarrow> bool" where
  "copied m dp ep el found r =
    ((case found of None \<Rightarrow> \<not> fst r
      | Some (q, v) \<Rightarrow> if ep + (q - dp) \<le> el
          then r = (True, q, ep + (q - dp), store_bytes m ep (load_bytes m dp (q - dp))) else \<not> fst r) \<and>
     (\<forall>a. a < ep \<or> el \<le> a \<longrightarrow> snd (snd (snd r)) a = m a))"

lemma copied_none: "copied m dp ep el None (False, dp', ep', m)"
  by (simp add: copied_def)

lemma loop_spec:
  assumes "dl \<le> dp + n \<or> el \<le> ep + n" "el \<le> dp \<or> dl \<le> ep" "lim \<le> 128"
  shows "copied m dp ep el (varint_scan (Suc n) lim dl m dp) (PutVarint64_loop dp dl ep el m)"
  using assms
proof (induction n arbitrary: dp ep m)
  case 0
  have stop: "PutVarint64_loop dp dl ep el m = (False, dp, ep, m)"
    using 0(1) by (subst PutVarint64_loop.simps) auto
  then show ?case using 0(1) unfolding copied_def by (auto split: option.splits if_splits)
next
  case (Suc n)
  show ?case
  proof (cases "dp < dl \<and> ep < el")
    case False
    have stop: "PutVarint64_loop dp dl ep el m = (False, dp, ep, m)" using False by (subst PutVarint64_loop.simps) auto
    show ?thesis
    proof (cases "varint_scan (Suc (Suc n)) lim dl m dp")
      case None
      then show ?thesis unfolding stop by (simp only: copied_none)
    next
      case (Some r)
      obtain q v where r: "r = (q, v)" by fastforce
      have "dp < q" "q \<le> dl" using varint_scan_bounds [OF Some [unfolded r]] by simp_all
      then have "\<not> ep + (q - dp) \<le> el" using False by auto
      then show ?thesis unfolding Some r stop by (simp add: copied_def)
    qed
  next
    case True
    let ?m = "m(ep := m dp)"
    show ?thesis
    proof (cases "unat (m dp) < 128")
      case small: True
      then have "\<not> 128 \<le> m dp" by (simp add: word_le_nat_alt)
      then have "PutVarint64_loop dp dl ep el m = (True, dp + 1, ep + 1, ?m)" using True
        by (subst PutVarint64_loop.simps) (simp add: Let_def)
      then show ?thesis using True small by (auto simp: copied_def load_bytes_Suc)
    next
      case big: False
      then have "128 \<le> m dp" by (simp add: word_nat not_less [symmetric])
      then have run: "PutVarint64_loop dp dl ep el m = PutVarint64_loop (Suc dp) dl (Suc ep) el ?m" using True
        by (subst PutVarint64_loop.simps) (simp add: Let_def)
      have sc: "varint_scan (Suc n) lim dl ?m (Suc dp) = varint_scan (Suc n) lim dl m (Suc dp)"
        by (rule varint_scan_reads) (use Suc.prems(2) True in auto)
      have ij: "dl \<le> Suc dp + n \<or> el \<le> Suc ep + n" "el \<le> Suc dp \<or> dl \<le> Suc ep" using Suc.prems by auto
      have IH: "copied ?m (Suc dp) (Suc ep) el (varint_scan (Suc n) lim dl m (Suc dp)) (PutVarint64_loop dp dl ep el m)"
        using Suc.IH [OF ij Suc.prems(3), of ?m] unfolding sc run .
      have frame: "\<forall>a. a < ep \<or> el \<le> a \<longrightarrow> snd (snd (snd (PutVarint64_loop dp dl ep el m))) a = m a"
        using IH True by (auto simp: copied_def)
      have outer: "varint_scan (Suc (Suc n)) lim dl m dp =
          map_option (\<lambda>(q, v). (q, unat (m dp) mod 128 + 128 * v)) (varint_scan (Suc n) lim dl m (Suc dp))"
        using True big by (subst varint_scan.simps) simp
      show ?thesis
      proof (cases "varint_scan (Suc n) lim dl m (Suc dp)")
        case None
        then show ?thesis using IH frame unfolding outer None by (simp add: copied_def)
      next
        case (Some r)
        obtain q w where r: "r = (q, w)" by fastforce
        have q: "Suc dp < q" "q \<le> dl" using varint_scan_bounds [OF Some [unfolded r]] by simp_all
        have k: "q - dp = Suc (q - Suc dp)" using q by simp
        have "load_bytes ?m (Suc dp) (q - Suc dp) = load_bytes m (Suc dp) (q - Suc dp)"
          using Suc.prems(2) True q by (intro load_bytes_cong) auto
        then have "store_bytes ?m (Suc ep) (load_bytes ?m (Suc dp) (q - Suc dp)) = store_bytes m ep (load_bytes m dp (q - dp))"
          by (simp add: k load_bytes_Suc)
        then show ?thesis using IH frame unfolding outer Some r by (simp add: copied_def k)
      qed
    qed
  qed
qed

lemma CopyAndAdvance_copied:
  assumes "varint_scan n lim dl m (d_buf d) = Some (d_buf d + k, v)" "e_buf e + k \<le> e_limit e"
  shows "(case CopyAndAdvance k e d m of (e', d', m') \<Rightarrow>
    copied m (d_buf d) (e_buf e) (e_limit e) (varint_scan n lim dl m (d_buf d)) (True, d_buf d', e_buf e', m') \<and>
    e' = e\<lparr>e_buf := e_buf e'\<rparr> \<and> d' = d\<lparr>d_buf := d_buf d'\<rparr>)"
  using assms by (auto simp: CopyAndAdvance_def copied_def memcpy_def store_bytes_outside)

text \<open>The result of the routine as the loop's.\<close>

definition copy_ok :: "Encoder \<Rightarrow> Decoder \<Rightarrow> mem \<Rightarrow> bool \<times> Encoder \<times> Decoder \<times> mem \<Rightarrow> bool" where
  "copy_ok e d m r = (case r of (ok, e', d', m') \<Rightarrow>
    copied m (d_buf d) (e_buf e) (e_limit e) (varint_scan 10 2 (d_limit d) m (d_buf d)) (ok, d_buf d', e_buf e', m') \<and>
    e' = e\<lparr>e_buf := e_buf e'\<rparr> \<and> d' = d\<lparr>d_buf := d_buf d'\<rparr> \<and> (\<not> ok \<longrightarrow> e' = e \<and> d' = d))"

text \<open>The first \<open>k\<close> bytes all continue.\<close>

definition continued :: "mem \<Rightarrow> addr \<Rightarrow> nat \<Rightarrow> bool" where
  "continued m p k = (\<forall>j<k. 128 \<le> unat (m (p + j)))"

lemma continued_Suc: "continued m p (Suc k) \<longleftrightarrow> continued m p k \<and> \<not> m (p + k) < 128"
  by (auto simp: continued_def less_Suc_eq word_nat not_less)

lemma continued_0 [simp]: "continued m p 0"
  by (simp add: continued_def)

lemma copy_ok_advance:
  assumes "continued m (d_buf d) k" "m (d_buf d + k) < (if k = 9 then 2 else 128)" "k < 10"
    "d_buf d + k < d_limit d" "e_buf e + Suc k \<le> e_limit e"
  shows "copy_ok e d m (True, CopyAndAdvance (Suc k) e d m)"
proof -
  have "\<exists>v. varint_scan 10 2 (d_limit d) m (d_buf d) = Some (d_buf d + k + 1, v)"
    by (rule scan_stop) (use assms in \<open>auto simp: continued_def word_nat split: if_splits\<close>)
  then obtain v where "varint_scan 10 2 (d_limit d) m (d_buf d) = Some (d_buf d + Suc k, v)" by auto
  from CopyAndAdvance_copied [OF this assms(5)] show ?thesis by (auto simp: copy_ok_def CopyAndAdvance_def)
qed

lemma copy_ok_refuse:
  assumes "\<And>q v. varint_scan 10 2 (d_limit d) m (d_buf d) = Some (q, v) \<Longrightarrow> e_limit e < e_buf e + (q - d_buf d)"
  shows "copy_ok e d m (False, e, d, m)"
  using assms by (cases "varint_scan 10 2 (d_limit d) m (d_buf d)") (auto simp: copy_ok_def copied_def not_le)

lemma fast_path:
  assumes room: "d_buf d + kMax64 \<le> d_limit d" "e_buf e + kMax64 \<le> e_limit e" and c: "continued m (d_buf d) 2"
  shows "copy_ok e d m (PutVarint64FromDecoderLessCommonSizes e d m)"
proof -
  let ?p = "d_buf d"
  have r: "?p + k < d_limit d" "e_buf e + Suc k \<le> e_limit e" if "k < 10" for k using room that by (auto simp: kMax64_def)
  note adv = copy_ok_advance [of m d _ e, OF _ _ _ r(1) r(2)]
  have step: "continued m ?p 3 \<longleftrightarrow> continued m ?p 2 \<and> \<not> m (?p + 2) < 128" "continued m ?p 4 \<longleftrightarrow> continued m ?p 3 \<and> \<not> m (?p + 3) < 128"
    "continued m ?p 5 \<longleftrightarrow> continued m ?p 4 \<and> \<not> m (?p + 4) < 128" "continued m ?p 6 \<longleftrightarrow> continued m ?p 5 \<and> \<not> m (?p + 5) < 128"
    "continued m ?p 7 \<longleftrightarrow> continued m ?p 6 \<and> \<not> m (?p + 6) < 128" "continued m ?p 8 \<longleftrightarrow> continued m ?p 7 \<and> \<not> m (?p + 7) < 128"
    "continued m ?p 9 \<longleftrightarrow> continued m ?p 8 \<and> \<not> m (?p + 8) < 128"
    using continued_Suc [of m ?p 2] continued_Suc [of m ?p 3] continued_Suc [of m ?p 4] continued_Suc [of m ?p 5]
      continued_Suc [of m ?p 6] continued_Suc [of m ?p 7] continued_Suc [of m ?p 8] by simp_all
  have last: "copy_ok e d m (False, e, d, m)" if "continued m ?p 9" "\<not> m (?p + 9) < 2"
  proof -
    have "varint_scan (Suc 9) 2 (d_limit d) m ?p = None"
      by (rule scan_fail) (use that in \<open>auto simp: continued_def word_nat\<close>)
    then show ?thesis by (intro copy_ok_refuse) simp
  qed
  have unfold: "PutVarint64FromDecoderLessCommonSizes e d m =
     (if m (?p + 2) < 128 then (True, CopyAndAdvance 3 e d m) else if m (?p + 3) < 128 then (True, CopyAndAdvance 4 e d m)
      else if m (?p + 4) < 128 then (True, CopyAndAdvance 5 e d m) else if m (?p + 5) < 128 then (True, CopyAndAdvance 6 e d m)
      else if m (?p + 6) < 128 then (True, CopyAndAdvance 7 e d m) else if m (?p + 7) < 128 then (True, CopyAndAdvance 8 e d m)
      else if m (?p + 8) < 128 then (True, CopyAndAdvance 9 e d m) else if m (?p + 9) < 2 then (True, CopyAndAdvance 10 e d m)
      else (False, e, d, m))"
    using room by (simp add: PutVarint64FromDecoderLessCommonSizes_def Let_def)
  show ?thesis unfolding unfold
    using adv [of 2] adv [of 3] adv [of 4] adv [of 5] adv [of 6] adv [of 7] adv [of 8] adv [of 9] last c step
    by simp
qed

lemma slow_path:
  assumes "\<not> (d_buf d + kMax64 \<le> d_limit d \<and> e_buf e + kMax64 \<le> e_limit e)" "e_limit e \<le> d_buf d \<or> d_limit d \<le> e_buf e"
  shows "copy_ok e d m (PutVarint64FromDecoderLessCommonSizes e d m)"
proof -
  obtain ok dp ep m' where l: "PutVarint64_loop (d_buf d) (d_limit d) (e_buf e) (e_limit e) m = (ok, dp, ep, m')" by (metis prod_cases4)
  have "copied m (d_buf d) (e_buf e) (e_limit e) (varint_scan (Suc 9) 2 (d_limit d) m (d_buf d)) (ok, dp, ep, m')"
    using loop_spec [of "d_limit d" "d_buf d" 9 "e_limit e" "e_buf e" 2 m] assms l by (auto simp: kMax64_def)
  moreover have "PutVarint64FromDecoderLessCommonSizes e d m =
      (if ok then (True, e\<lparr>e_buf := ep\<rparr>, d\<lparr>d_buf := dp\<rparr>, m') else (False, e, d, m'))"
    using assms(1) l by (auto simp: PutVarint64FromDecoderLessCommonSizes_def Let_def)
  ultimately show ?thesis
    by (cases "varint_scan 10 2 (d_limit d) m (d_buf d)") (auto simp: copy_ok_def copied_def split: if_splits)
qed

lemma from_decoder_spec:
  assumes "e_limit e \<le> d_buf d \<or> d_limit d \<le> e_buf e"
  shows "copy_ok e d m (put_varint64_from_decoder e d m)"
proof -
  let ?p = "d_buf d" let ?q = "e_buf e"
  consider (one) "?p < d_limit d" "m ?p < 128" | (two) "\<not> (?p < d_limit d \<and> m ?p < 128)" "?p + 1 < d_limit d" "m (?p + 1) < 128"
    | (more) "\<not> (?p < d_limit d \<and> m ?p < 128)" "\<not> (?p + 1 < d_limit d \<and> m (?p + 1) < 128)" by blast
  then show ?thesis
  proof cases
    case one
    have scan: "varint_scan 10 2 (d_limit d) m ?p = Some (?p + 1, unat (m ?p))"
      using one scan_first [of 8 2 "d_limit d" m ?p] by (simp add: word_nat numeral_eq_Suc)
    show ?thesis
    proof (cases "?q \<ge> e_limit e")
      case True
      then have "put_varint64_from_decoder e d m = (False, e, d, m)" using one by (simp add: put_varint64_from_decoder_def Let_def)
      then show ?thesis using scan True copy_ok_refuse [of d m e] by simp
    next
      case False
      have "m(?q := m ?p) = store_bytes m ?q (load_bytes m ?p 1)" by (simp add: load_bytes_def)
      then show ?thesis using one False scan by (auto simp: put_varint64_from_decoder_def Let_def copy_ok_def copied_def store_bytes_outside)
    qed
  next
    case two
    then have c: "continued m ?p 1" using continued_Suc [of m ?p 0] by simp
    show ?thesis
    proof (cases "?q + 1 \<ge> e_limit e")
      case True
      obtain v where "varint_scan 10 2 (d_limit d) m ?p = Some (?p + 1 + 1, v)"
        using scan_stop [of 1 m ?p "d_limit d" 10 2] two c by (auto simp: continued_def word_nat)
      moreover have "put_varint64_from_decoder e d m = (False, e, d, m)"
        using two True by (simp add: put_varint64_from_decoder_def Let_def)
      ultimately show ?thesis using True copy_ok_refuse [of d m e] by simp
    next
      case False
      have "put_varint64_from_decoder e d m = (True, CopyAndAdvance (Suc 1) e d m)"
        using two False by (simp add: put_varint64_from_decoder_def Let_def CopyAndAdvance_def numeral_2_eq_2)
      then show ?thesis using copy_ok_advance [of m d 1 e] c two False by simp
    qed
  next
    case more
    have run: "put_varint64_from_decoder e d m = PutVarint64FromDecoderLessCommonSizes e d m"
      using more by (auto simp: put_varint64_from_decoder_def Let_def)
    show ?thesis
    proof (cases "?p + kMax64 \<le> d_limit d \<and> ?q + kMax64 \<le> e_limit e")
      case True
      then have "continued m ?p 2" using more continued_Suc [of m ?p 0] continued_Suc [of m ?p 1]
        by (simp add: kMax64_def numeral_2_eq_2)
      then show ?thesis using fast_path True run by simp
    next
      case False
      then show ?thesis using slow_path [OF False assms] run by simp
    qed
  qed
qed

section \<open>C strings\<close>

lemma takeWhile_all: "(\<forall>b\<in>set bs. b \<noteq> c) \<Longrightarrow> takeWhile (\<lambda>b. b \<noteq> c) (bs @ c # xs) = bs"
  by (induction bs) auto

lemma memccpy_found:
  assumes "load_bytes m src (Suc (length bs)) = bs @ [c]" "\<forall>b\<in>set bs. b \<noteq> c" "length bs < n"
  shows "memccpy m dst src c n = (store_bytes m dst (bs @ [c]), Some (dst + length bs + 1))"
proof -
  obtain k where k: "n = Suc (length bs) + k" using assms(3) less_iff_Suc_add by fastforce
  have l: "load_bytes m src n = bs @ c # load_bytes m (src + Suc (length bs)) k"
    unfolding k load_bytes_add by (simp add: assms(1))
  then have "takeWhile (\<lambda>b. b \<noteq> c) (load_bytes m src n) = bs" using takeWhile_all [OF assms(2)] by simp
  then show ?thesis using assms(3) l by (simp add: memccpy_def Let_def)
qed

lemma memccpy_absent:
  assumes "\<forall>b\<in>set (load_bytes m src n). b \<noteq> c"
  shows "memccpy m dst src c n = (store_bytes m dst (load_bytes m src n), None)"
proof -
  have tw: "takeWhile (\<lambda>b. b \<noteq> c) (load_bytes m src n) = load_bytes m src n" using assms by (simp add: takeWhile_eq_all_conv)
  show ?thesis unfolding memccpy_def Let_def tw by simp
qed

lemma memccpy_frame: "a < dst \<or> dst + n \<le> a \<Longrightarrow> fst (memccpy m dst src c n) a = m a"
  by (auto simp: memccpy_def Let_def intro!: store_bytes_outside)

lemma memccpy_end: "snd (memccpy m dst src c n) = Some q \<Longrightarrow> dst < q \<and> q \<le> dst + n"
  by (auto simp: memccpy_def Let_def split: if_splits)

lemma puts_no_null_spec:
  "Writer_puts_no_null m p src l = (m', q) \<Longrightarrow> p \<le> l \<Longrightarrow> p \<le> q \<and> q \<le> l \<and> (\<forall>a. a < p \<or> l \<le> a \<longrightarrow> m' a = m a)"
proof (induction m p src l rule: Writer_puts_no_null.induct)
  case (1 m p src l)
  show ?case
  proof (cases "m src \<noteq> 0 \<and> p < l")
    case True
    then have "Writer_puts_no_null (m(p := m src)) (p + 1) (src + 1) l = (m', q)"
      using 1(2) by (subst (asm) Writer_puts_no_null.simps) simp
    with 1(1) [OF True] True show ?thesis by (auto simp: fun_upd_def)
  next
    case False
    then show ?thesis using 1(2,3) by (subst (asm) Writer_puts_no_null.simps) auto
  qed
qed

text \<open>Without overlap the bytes before the terminator are copied, as many as fit.\<close>

lemma puts_no_null_copies:
  assumes "load_bytes m src (length bs) = bs" "\<forall>b\<in>set bs. b \<noteq> 0" "p + length bs \<le> l" "l \<le> src \<or> src + length bs < p"
    "m (src + length bs) = 0 \<or> p + length bs = l"
  shows "Writer_puts_no_null m p src l = (store_bytes m p bs, p + length bs)"
  using assms
proof (induction bs arbitrary: m p src)
  case Nil
  then show ?case by (subst Writer_puts_no_null.simps) auto
next
  case (Cons b bs)
  have b: "m src = b" "load_bytes m (Suc src) (length bs) = bs" using Cons.prems(1) by (simp_all add: load_bytes_Suc)
  have "load_bytes (m(p := b)) (Suc src) (length bs) = load_bytes m (Suc src) (length bs)"
    using Cons.prems(3,4) by (intro load_bytes_cong) auto
  then have "Writer_puts_no_null (m(p := b)) (Suc p) (Suc src) l = (store_bytes (m(p := b)) (Suc p) bs, Suc p + length bs)"
    using Cons.prems b by (intro Cons.IH) (auto simp: fun_upd_def)
  then show ?case using Cons.prems b(1) by (subst Writer_puts_no_null.simps) simp
qed

lemma getcn_mem: "fst (d_getcn d m dst c n) = fst (memccpy m dst (d_buf d) c n)"
  by (simp add: d_getcn_def split: prod.splits option.splits)

lemma gets_spec:
  assumes "load_bytes m (d_buf d) (Suc (length bs)) = bs @ [0]" "\<forall>b\<in>set bs. b \<noteq> 0" "length bs < n"
    "d_buf d + Suc (length bs) \<le> d_limit d" "dst + n \<le> d_buf d \<or> d_limit d < dst"
  shows "load_bytes (fst (d_gets d m dst n)) dst (Suc (length bs)) = bs @ [0]"
    and "snd (d_gets d m dst n) = d\<lparr>d_buf := d_buf d + (if n = Suc (length bs) then length bs else Suc (length bs))\<rparr>"
    and "a < dst \<or> dst + n \<le> a \<Longrightarrow> fst (d_gets d m dst n) a = m a"
proof -
  let ?len = "if n > 1 + (d_limit d - d_buf d) then d_limit d - d_buf d else n - 1"
  let ?m = "m(dst + ?len := 0)"
  have len: "length bs \<le> ?len" "?len < n" "?len = length bs \<longleftrightarrow> n = Suc (length bs)" "d_buf d + ?len \<le> d_limit d"
    using assms(3,4) by auto
  have run: "d_gets d m dst n = d_getcn d ?m dst 0 ?len" using assms(3) by (auto simp: d_gets_def Let_def)
  have "load_bytes ?m (d_buf d) (Suc (length bs)) = load_bytes m (d_buf d) (Suc (length bs))"
    using assms(4,5) len by (intro load_bytes_cong) auto
  then have l: "load_bytes ?m (d_buf d) (Suc (length bs)) = bs @ [0]" using assms(1) by simp
  show "a < dst \<or> dst + n \<le> a \<Longrightarrow> fst (d_gets d m dst n) a = m a"
  proof -
    assume a: "a < dst \<or> dst + n \<le> a"
    have "fst (memccpy ?m dst (d_buf d) 0 ?len) a = ?m a" using a len(2) by (intro memccpy_frame) auto
    moreover have "?m a = m a" using a len(2) by auto
    ultimately show ?thesis unfolding run getcn_mem by (rule trans)
  qed
  show "load_bytes (fst (d_gets d m dst n)) dst (Suc (length bs)) = bs @ [0]"
    "snd (d_gets d m dst n) = d\<lparr>d_buf := d_buf d + (if n = Suc (length bs) then length bs else Suc (length bs))\<rparr>"
  proof (atomize (full), cases "?len = length bs")
    case True
    have bs: "load_bytes ?m (d_buf d) ?len = bs" using l load_bytes_snoc [of ?m "d_buf d" "length bs"] True by simp
    have c: "memccpy ?m dst (d_buf d) 0 ?len = (store_bytes ?m dst bs, None)"
      using memccpy_absent [of ?m "d_buf d" ?len 0 dst] bs assms(2) by simp
    have r: "d_gets d m dst n = (store_bytes ?m dst bs, d\<lparr>d_buf := d_buf d + ?len\<rparr>)" unfolding run d_getcn_def c by simp
    have "load_bytes (store_bytes ?m dst bs) dst (Suc (length bs)) = bs @ [0]"
      using load_store_bytes [of ?m dst bs] True by (simp add: load_bytes_snoc store_bytes_outside)
    then show "load_bytes (fst (d_gets d m dst n)) dst (Suc (length bs)) = bs @ [0] \<and>
      snd (d_gets d m dst n) = d\<lparr>d_buf := d_buf d + (if n = Suc (length bs) then length bs else Suc (length bs))\<rparr>"
      using r True len(3) by simp
  next
    case False
    have c: "memccpy ?m dst (d_buf d) 0 ?len = (store_bytes ?m dst (bs @ [0]), Some (dst + length bs + 1))"
      by (rule memccpy_found [OF l assms(2)]) (use len(1) False in simp)
    have r: "d_gets d m dst n = (store_bytes ?m dst (bs @ [0]), d\<lparr>d_buf := d_buf d + Suc (length bs)\<rparr>)"
      unfolding run d_getcn_def c by simp
    then show "load_bytes (fst (d_gets d m dst n)) dst (Suc (length bs)) = bs @ [0] \<and>
      snd (d_gets d m dst n) = d\<lparr>d_buf := d_buf d + (if n = Suc (length bs) then length bs else Suc (length bs))\<rparr>"
      using False len(3) load_store_bytes [of ?m dst "bs @ [0]"] by simp
  qed
qed

section \<open>Properties\<close>

text \<open>
  Property C7.  A message of any integers, floating-point values and varints is written by an
  \<open>Encoder\<close> exactly when it fits into the room left: the encoder then advances by the message's length
  and changes no other byte, and a \<open>Decoder\<close> on the bytes written returns the values in order and ends at
  the end of the message.  When it does not fit, a hardened build aborts at the first value that
  would pass the limit, and a build without hardening assertions makes that access outside the buffer.
\<close>
theorem Coder_message_roundtrip:
  assumes "e_ok e"
  shows "put_items bld plat h e m its = (if length (message its) \<le> e_avail e
      then Inr (e\<lparr>e_buf := e_buf e + length (message its)\<rparr>, store_bytes m (e_buf e) (message its))
      else Inl (case bld of Hardened \<Rightarrow> HardeningAssert | Unhardened \<Rightarrow> BadAccess)) \<and>
    (\<forall>e' m'. put_items bld plat h e m its = Inr (e', m') \<longrightarrow>
      (\<forall>a. a < e_buf e \<or> e_buf e' \<le> a \<longrightarrow> m' a = m a) \<and>
      get_items bld plat h its \<lparr>d_orig = e_buf e, d_buf = e_buf e, d_limit = e_buf e'\<rparr> m' =
        Some (its, \<lparr>d_orig = e_buf e, d_buf = e_buf e', d_limit = e_buf e'\<rparr>))"
proof -
  note p = put_items_spec [OF assms, of bld plat h m its]
  let ?n = "length (message its)"
  let ?d = "\<lparr>d_orig = e_buf e, d_buf = e_buf e, d_limit = e_buf e + ?n\<rparr>"
  have "get_items bld plat h its ?d (store_bytes m (e_buf e) (message its)) = Some (its, ?d\<lparr>d_buf := d_buf ?d + ?n\<rparr>)"
    by (rule get_items_spec) (simp_all add: load_store_bytes d_avail_def)
  then show ?thesis using p by (auto simp: store_bytes_outside hardening_failure_def split: if_splits)
qed

theorem Coder_message_roundtrip_witness:
  "put_items Hardened X86_64 IS_LITTLE_ENDIAN (Encoder_on 100 8) (\<lambda>_. 0) [U16 513, V64 300, U32 7] =
    Inr ((Encoder_on 100 8)\<lparr>e_buf := 108\<rparr>, store_bytes (\<lambda>_. 0) 100 (message [U16 513, V64 300, U32 7]))"
proof -
  have "length (message [U16 513, V64 300, U32 7]) = 8" by (simp add: varint_bytes.simps)
  then show ?thesis
    using Coder_message_roundtrip [of "Encoder_on 100 8" Hardened X86_64 IS_LITTLE_ENDIAN "\<lambda>_. 0" "[U16 513, V64 300, U32 7]"]
    by (simp add: e_ok_def Encoder_on_def e_avail_def del: concat.simps list.map)
qed

text \<open>
  Property C28.  \<open>Ensure\<close> on an encoder that owns its buffer makes the room it promises and keeps the
  encoded bytes; it frees the old buffer with its own size and owns exactly the new one, so that no
  block leaks and no other block's bytes change; the destructor then frees what is owned and nothing
  else.  When the new size would not fit into a \<open>size_t\<close> the sum wraps and the \<open>CHECK\<close> after growing
  fails.  On a buffer given by the caller the first \<open>CHECK\<close> fails when the room is too small.
\<close>
theorem Ensure_keeps_data_and_ownership:
  assumes "good_allocator alloc" "owner_ok s e"
  shows "(ensure_allowed e \<and> e_length e + unat N < 2 ^ 64 \<longrightarrow>
      (\<exists>e' s'. Ensure alloc s e N = Inr (e', s') \<and> unat N \<le> e_avail e' \<and> encoded s' e' = encoded s e \<and>
      owner_ok s' e' \<and> live s' - owned e' = live s - owned e \<and>
      (\<forall>(q, k)\<in>live s. \<forall>a. q \<le> a \<and> a < q + k \<longrightarrow> bytes s' a = bytes s a) \<and>
      (\<exists>s''. e_destruct s' e' = Inr s'' \<and> live s'' = live s - owned e))) \<and>
    (ensure_allowed e \<and> 2 ^ 64 \<le> e_length e + unat N \<and> e_length e < 2 ^ 63 \<longrightarrow> Ensure alloc s e N = Inl CheckFailed) \<and>
    (\<not> ensure_allowed e \<and> e_avail e < unat N \<longrightarrow> Ensure alloc s e N = Inl CheckFailed)"
proof (intro conjI impI)
  assume a: "ensure_allowed e \<and> e_length e + unat N < 2 ^ 64"
  obtain e' s' where r: "Ensure alloc s e N = Inr (e', s')" "unat N \<le> e_avail e'" "encoded s' e' = encoded s e" "owner_ok s' e'"
    "live s' - owned e' = live s - owned e" "\<forall>(q, k)\<in>live s. \<forall>a. q \<le> a \<and> a < q + k \<longrightarrow> bytes s' a = bytes s a"
    using Ensure_ok(1) [OF assms, of N] a by blast
  have "e_destruct s' e' = Inr (s'\<lparr>live := live s' - owned e'\<rparr>)"
    using delete_owned_ok [OF r(4)] r(4) by (simp add: e_destruct_def owner_ok_def e_ok_def)
  then have "\<exists>s''. e_destruct s' e' = Inr s'' \<and> live s'' = live s - owned e" using r(5) by simp
  with r show "\<exists>e' s'. Ensure alloc s e N = Inr (e', s') \<and> unat N \<le> e_avail e' \<and> encoded s' e' = encoded s e \<and>
      owner_ok s' e' \<and> live s' - owned e' = live s - owned e \<and>
      (\<forall>(q, k)\<in>live s. \<forall>a. q \<le> a \<and> a < q + k \<longrightarrow> bytes s' a = bytes s a) \<and>
      (\<exists>s''. e_destruct s' e' = Inr s'' \<and> live s'' = live s - owned e)"
    by blast
qed (use Ensure_ok(2) [OF assms] in \<open>auto simp: Ensure_def EnsureSlowPath_def\<close>)

text \<open>An allocator that places each block behind all live ones.\<close>

definition bump_allocator :: allocator where
  "bump_allocator s n = (1 + (\<Sum>(q, k)\<in>live s. q + k), n)"

lemma bump_allocator_good: "good_allocator bump_allocator"
proof -
  have "q + k \<le> (\<Sum>(q, k)\<in>live s. q + k)" if "finite (live s)" "(q, k) \<in> live s" for q k and s :: store
    using member_le_sum [OF that(2) _ that(1), of "\<lambda>(q, k). q + k"] by auto
  then show ?thesis by (fastforce simp: good_allocator_def bump_allocator_def nullptr_def)
qed

theorem Ensure_keeps_data_and_ownership_witness:
  "\<exists>e' s'. Ensure bump_allocator \<lparr>bytes = \<lambda>_. 0, live = {(7, 2)}\<rparr> new_Encoder 5 = Inr (e', s') \<and> 5 \<le> e_avail e'"
proof -
  have "owner_ok \<lparr>bytes = \<lambda>_. 0, live = {(7, 2)}\<rparr> new_Encoder" "ensure_allowed new_Encoder"
    by (simp_all add: owner_ok_def e_ok_def new_Encoder_def owned_def ensure_allowed_def e_capacity_def e_length_def nullptr_def)
  moreover have len: "e_length new_Encoder + unat (5 :: u64) < 2 ^ 64" by (simp add: e_length_def new_Encoder_def)
  ultimately show ?thesis using Ensure_keeps_data_and_ownership [OF bump_allocator_good, of "\<lparr>bytes = \<lambda>_. 0, live = {(7, 2)}\<rparr>" new_Encoder 5] len
    by auto
qed

text \<open>
  \<open>put_varint64_from_decoder\<close>, through its one-byte, two-byte, unrolled and loop paths,
  moves a varint exactly when \<open>get_varint64\<close> would succeed and its bytes fit: it copies those bytes,
  advances both sides past them, and a decoder reads the same value from the copy; otherwise it returns
  false and leaves both positions.  It writes only within the encoder's room.  The decoder's bytes and the
  copy do not lie in the last ten bytes of the address space.
\<close>
theorem from_decoder_is_get_and_copy:
  assumes "e_limit e \<le> d_buf d \<or> d_limit d \<le> e_buf e"
    and "put_varint64_from_decoder e d m = (ok, e', d', m')"
    and "d_buf d + kMax64 < 2 ^ 64" "e_buf e + kMax64 < 2 ^ 64"
  shows "(ok \<longleftrightarrow> (\<exists>v d''. d_get_varint64 plat d m = Some (v, d'') \<and> e_buf e + (d_buf d'' - d_buf d) \<le> e_limit e)) \<and>
    (ok \<longrightarrow> (\<exists>v. d_get_varint64 plat d m = Some (v, d') \<and> e' = e\<lparr>e_buf := e_buf e + (d_buf d' - d_buf d)\<rparr> \<and>
      m' = store_bytes m (e_buf e) (load_bytes m (d_buf d) (d_buf d' - d_buf d)) \<and>
      d_get_varint64 plat \<lparr>d_orig = e_orig e, d_buf = e_buf e, d_limit = e_limit e\<rparr> m' =
        Some (v, \<lparr>d_orig = e_orig e, d_buf = e_buf e', d_limit = e_limit e\<rparr>))) \<and>
    (\<not> ok \<longrightarrow> e' = e \<and> d' = d) \<and>
    (\<forall>a. a < e_buf e \<or> e_limit e \<le> a \<longrightarrow> m' a = m a)"
proof -
  have c: "copy_ok e d m (ok, e', d', m')" using from_decoder_spec [OF assms(1), of m] assms(2) by simp
  show ?thesis
  proof (cases "varint_scan 10 2 (d_limit d) m (d_buf d)")
    case None
    then show ?thesis using c by (auto simp: copy_ok_def copied_def d_get_varint64_def Parse64WithLimit_scan checked_limit_eq [OF assms(3)])
  next
    case (Some r)
    obtain q w where r: "r = (q, w)" by fastforce
    have g: "d_get_varint64 plat d m = Some (of_nat w, d\<lparr>d_buf := q\<rparr>)"
      using Some r by (simp add: d_get_varint64_def Parse64WithLimit_scan checked_limit_eq [OF assms(3)])
    show ?thesis
    proof (cases "e_buf e + (q - d_buf d) \<le> e_limit e")
      case False
      then show ?thesis using c Some r g by (auto simp: copy_ok_def copied_def)
    next
      case True
      then have res: "ok" "d' = d\<lparr>d_buf := q\<rparr>" "e' = e\<lparr>e_buf := e_buf e + (q - d_buf d)\<rparr>"
        "m' = store_bytes m (e_buf e) (load_bytes m (d_buf d) (q - d_buf d))" "\<forall>a. a < e_buf e \<or> e_limit e \<le> a \<longrightarrow> m' a = m a"
        using c Some r by (auto simp: copy_ok_def copied_def)
      have "varint_scan 10 2 (e_limit e) m' (e_buf e) = Some (e_buf e + (q - d_buf d), w)"
        using scan_copy [OF Some [unfolded r], of m' "e_buf e" "e_limit e"] True res(4)
          load_store_bytes [of m "e_buf e" "load_bytes m (d_buf d) (q - d_buf d)"] by simp
      then have "d_get_varint64 plat \<lparr>d_orig = e_orig e, d_buf = e_buf e, d_limit = e_limit e\<rparr> m' =
          Some (of_nat w, \<lparr>d_orig = e_orig e, d_buf = e_buf e', d_limit = e_limit e\<rparr>)"
        using res(3) by (simp add: d_get_varint64_def Parse64WithLimit_scan checked_limit_eq [OF assms(4)])
      then show ?thesis using res g True by simp
    qed
  qed
qed

theorem from_decoder_is_get_and_copy_witness:
  "fst (put_varint64_from_decoder (Encoder_on 100 4) \<lparr>d_orig = 10, d_buf = 10, d_limit = 12\<rparr> ((\<lambda>_. 0)(10 := 0xAC, 11 := 2)))"
  using from_decoder_is_get_and_copy [of "Encoder_on 100 4" "\<lparr>d_orig = 10, d_buf = 10, d_limit = 12\<rparr>" "(\<lambda>_. 0)(10 := 0xAC, 11 := 2)"]
  by (simp add: put_varint64_from_decoder_def Encoder_on_def kMax64_def)

text \<open>
  The comment on \<open>put_varint64_from_decoder\<close> calls it the fast form of \<open>get_varint64\<close>
  followed by \<open>put_varint64\<close>.  On a varint with superfluous digits it is not: the two bytes
  \<open>0x80 0x00\<close> are copied as they are, where getting and putting the value writes the single byte \<open>0\<close>.
\<close>
theorem from_decoder_keeps_superfluous_digits:
  "let m = (\<lambda>_. 7)(10 := 0x80, 11 := 0); e = Encoder_on 100 10; d = \<lparr>d_orig = 10, d_buf = 10, d_limit = 12\<rparr> in
   (\<exists>e1 d1 m1. put_varint64_from_decoder e d m = (True, e1, d1, m1) \<and> e_length e1 = 2 \<and> m1 100 = 0x80) \<and>
   (\<exists>d2. d_get_varint64 plat d m = Some (0, d2)) \<and>
   (\<exists>e3 m3. e_put_varint64 bld plat e m 0 = Inr (e3, m3) \<and> e_length e3 = 1 \<and> m3 100 = 0)"
proof -
  let ?m = "(\<lambda>_. 7)(10 := 0x80, 11 := 0) :: mem"
  have "varint_scan 9 2 12 ?m 11 = Some (12, 0)" using scan_first [of 7 2 12 ?m 11] by simp
  then have "varint_scan 10 2 12 ?m 10 = Some (12, 0)" using scan_first [of 8 2 12 ?m 10] by simp
  then show ?thesis
    by (simp add: Let_def put_varint64_from_decoder_def Encoder_on_def d_get_varint64_def Parse64WithLimit_scan checked_limit_def
        e_put_varint64_def hardening_assert_def room64 Encode64_bytes through_writer_def varint_bytes_small e_length_def e_avail_def memcpy_def store_bytes_apply kMax64_def)
qed

text \<open>
  C strings: \<open>puts\<close> writes a string with its terminator when there is room and never
  writes past the limit; \<open>gets\<close> delivers the string with its terminator within the \<open>n\<close> bytes of the
  destination and steps past the terminator, except when \<open>n\<close> is exactly the string and its terminator:
  then the terminator stays in the input.
\<close>
theorem c_strings:
  assumes "load_bytes m src (Suc (length bs)) = bs @ [0]" "\<forall>b\<in>set bs. b \<noteq> 0" "e_ok e" "length bs < e_avail e" "length bs < n"
    and "dst + n \<le> e_buf e \<or> e_buf e + Suc (length bs) < dst"
  shows "e_puts e m src = (e\<lparr>e_buf := e_buf e + Suc (length bs)\<rparr>, store_bytes m (e_buf e) (bs @ [0])) \<and>
    (let m1 = snd (e_puts e m src); d = \<lparr>d_orig = e_buf e, d_buf = e_buf e, d_limit = e_buf e + Suc (length bs)\<rparr> in
     load_bytes (fst (d_gets d m1 dst n)) dst (Suc (length bs)) = bs @ [0] \<and>
     d_avail (snd (d_gets d m1 dst n)) = (if n = Suc (length bs) then 1 else 0) \<and>
     (\<forall>a. a < dst \<or> dst + n \<le> a \<longrightarrow> fst (d_gets d m1 dst n) a = m1 a))"
proof -
  have p: "e_puts e m src = (e\<lparr>e_buf := e_buf e + Suc (length bs)\<rparr>, store_bytes m (e_buf e) (bs @ [0]))"
    using memccpy_found [OF assms(1,2,4), of "e_buf e"] by (simp add: e_puts_def Writer_puts_def Writer_putcn_def through_writer_def)
  let ?d = "\<lparr>d_orig = e_buf e, d_buf = e_buf e, d_limit = e_buf e + Suc (length bs)\<rparr>"
  let ?m = "store_bytes m (e_buf e) (bs @ [0])"
  have l: "load_bytes ?m (d_buf ?d) (Suc (length bs)) = bs @ [0]" using load_store_bytes [of m "e_buf e" "bs @ [0]"] by simp
  note g = gets_spec [OF l assms(2,5), of dst]
  show ?thesis unfolding p Let_def snd_conv using g assms(6) by (auto simp: d_avail_def)
qed

theorem c_strings_witness:
  "e_puts (Encoder_on 100 9) ((\<lambda>_. 0)(10 := 65)) 10 =
    ((Encoder_on 100 9)\<lparr>e_buf := 102\<rparr>, store_bytes ((\<lambda>_. 0)(10 := 65)) 100 [65, 0])"
  using c_strings [of "(\<lambda>_. 0)(10 := 65)" 10 "[65]" "Encoder_on 100 9" 3 50]
  by (simp add: load_bytes_Suc e_ok_def Encoder_on_def e_avail_def)

end
