(* ===== verification/Bytestream.thy ===== *)
theory Bytestream
  imports Gloop_Prelude
begin

text \<open>
  Byte sources and sinks, \<^verbatim>\<open>src/gloop/strings/bytestream.h\<close> and \<^verbatim>\<open>bytestream.cc\<close>.

  A source class is the record of its virtual functions over the type \<open>'s\<close> of its objects.
  \<open>Skip\<close> is only described where the interface allows the call (\<open>n <= Available()\<close>).

  A sink owns a block of storage, a list of \<open>char option\<close> in which \<open>None\<close> is an uninitialised
  byte.  A pointer handed to \<open>Append\<close> is either the caller's own memory, given by the bytes in
  it, or a position inside the storage of the sink: the code compares pointers to find out which.
  Sizes are natural numbers; the sums of the code are sums of sizes of live objects.
\<close>

section \<open>Sources\<close>

record 's ByteSource =
  Available :: "'s \<Rightarrow> nat"
  Peek :: "'s \<Rightarrow> string"
  Skip :: "nat \<Rightarrow> 's \<Rightarrow> 's"

text \<open>The default \<open>CopyTo\<close>; the call \<open>sink->Append\<close> is the argument \<open>app\<close>.\<close>

function ByteSource_CopyTo ::
  "'s ByteSource \<Rightarrow> (string \<Rightarrow> 'k \<Rightarrow> 'k outcome) \<Rightarrow> nat \<Rightarrow> 's \<Rightarrow> 'k \<Rightarrow> ('s \<times> 'k) outcome" where
  "ByteSource_CopyTo B app n s k =
    (if n > 0 then
       (let fragment = Peek B s in
        if fragment = [] then Inr (s, k)
        else
          (let fragment_size = min n (length fragment) in
           andThen (app (take fragment_size fragment) k)
             (\<lambda>k. ByteSource_CopyTo B app (n - fragment_size) (Skip B fragment_size s) k)))
     else Inr (s, k))"
  by pat_completeness auto
termination
  by (relation "measure (\<lambda>(B, app, n, s, k). n)") auto

definition ArrayByteSource :: "string ByteSource" where
  "ArrayByteSource =
    \<lparr>Available = length, Peek = (\<lambda>input. input), Skip = (\<lambda>n input. drop n input)\<rparr>"

text \<open>
  The fragmented source of \<^verbatim>\<open>bytestream_test.cc\<close>, which shows its data in blocks and inherits the
  default \<open>CopyTo\<close>.
\<close>

record MockByteSource_state =
  m_data :: string
  m_block_size :: nat

definition MockByteSource :: "MockByteSource_state ByteSource" where
  "MockByteSource =
    \<lparr>Available = (\<lambda>m. length (m_data m)), Peek = (\<lambda>m. take (m_block_size m) (m_data m)),
     Skip = (\<lambda>n m. m\<lparr>m_data := drop n (m_data m)\<rparr>)\<rparr>"

record 's LimitByteSource_state =
  l_source :: 's
  l_limit :: nat

definition new_LimitByteSource :: "'s \<Rightarrow> nat \<Rightarrow> 's LimitByteSource_state" where
  "new_LimitByteSource s limit = \<lparr>l_source = s, l_limit = limit\<rparr>"

definition Limit_Available :: "'s ByteSource \<Rightarrow> 's LimitByteSource_state \<Rightarrow> nat" where
  "Limit_Available B l =
    (let available = Available B (l_source l) in
     if available > l_limit l then l_limit l else available)"

definition Limit_Peek :: "'s ByteSource \<Rightarrow> 's LimitByteSource_state \<Rightarrow> string" where
  "Limit_Peek B l =
    (let piece = Peek B (l_source l) in
     if length piece > l_limit l then take (l_limit l) piece else piece)"

text \<open>The difference of two \<open>size_t\<close> values, which wraps when the second is the larger one.\<close>

definition size_minus :: "nat \<Rightarrow> nat \<Rightarrow> nat" where
  "size_minus a b = (if b \<le> a then a - b else 2 ^ 64 + a - b)"

definition Limit_Skip ::
  "'s ByteSource \<Rightarrow> nat \<Rightarrow> 's LimitByteSource_state \<Rightarrow> 's LimitByteSource_state" where
  "Limit_Skip B n l = l\<lparr>l_source := Skip B n (l_source l), l_limit := size_minus (l_limit l) n\<rparr>"

definition LimitByteSource :: "'s ByteSource \<Rightarrow> 's LimitByteSource_state ByteSource" where
  "LimitByteSource B =
    \<lparr>Available = Limit_Available B, Peek = Limit_Peek B, Skip = Limit_Skip B\<rparr>"

text \<open>\<open>copy\<close> is the \<open>CopyTo\<close> of the underlying source, already given its sink's \<open>Append\<close>.\<close>

definition Limit_CopyTo ::
  "(nat \<Rightarrow> 's \<Rightarrow> 'k \<Rightarrow> ('s \<times> 'k) outcome) \<Rightarrow>
   nat \<Rightarrow> 's LimitByteSource_state \<Rightarrow> 'k \<Rightarrow> ('s LimitByteSource_state \<times> 'k) outcome" where
  "Limit_CopyTo copy n l k =
    andThen (copy n (l_source l) k)
      (\<lambda>(s, k). Inr (l\<lparr>l_source := s, l_limit := size_minus (l_limit l) n\<rparr>, k))"

section \<open>Storage and pointers\<close>

type_synonym storage = "char option list"

datatype data_ptr = External string | Internal nat

datatype append_buffer = Scratch | Own nat

definition overlay :: "nat \<Rightarrow> char option list \<Rightarrow> storage \<Rightarrow> storage" where
  "overlay off bs st = take off st @ bs @ drop (off + length bs) st"

text \<open>
  \<open>memcpy(st + off, p, n)\<close>: both regions have to be inside their blocks, and they may not overlap.
\<close>

definition readable :: "storage \<Rightarrow> data_ptr \<Rightarrow> nat \<Rightarrow> bool" where
  "readable st p n = (case p of External s \<Rightarrow> n \<le> length s | Internal k \<Rightarrow> k + n \<le> length st)"

definition read_ptr :: "storage \<Rightarrow> data_ptr \<Rightarrow> nat \<Rightarrow> char option list" where
  "read_ptr st p n =
    (case p of External s \<Rightarrow> map Some (take n s) | Internal k \<Rightarrow> take n (drop k st))"

definition copy_into :: "storage \<Rightarrow> nat \<Rightarrow> data_ptr \<Rightarrow> nat \<Rightarrow> storage outcome" where
  "copy_into st off p n =
    require BadAccess (off + n \<le> length st \<and> readable st p n
        \<and> (case p of External s \<Rightarrow> True | Internal k \<Rightarrow> k + n \<le> off \<or> off + n \<le> k))
      (Inr (overlay off (read_ptr st p n) st))"

section \<open>The default members of \<open>ByteSink\<close>\<close>

definition ByteSink_AppendExternalMemory ::
  "(string \<Rightarrow> 'k \<Rightarrow> 'k outcome) \<Rightarrow> ('a \<Rightarrow> 'w \<Rightarrow> 'w) \<Rightarrow>
   string \<Rightarrow> 'a \<Rightarrow> 'k \<times> 'w \<Rightarrow> ('k \<times> 'w) outcome" where
  "ByteSink_AppendExternalMemory app memory_releaser data arg kw =
    andThen (app data (fst kw)) (\<lambda>k. Inr (k, memory_releaser arg (snd kw)))"

definition ByteSink_MinAppendExternalMemoryLength :: nat where
  "ByteSink_MinAppendExternalMemoryLength = 2 ^ 64 - 1"

definition ByteSink_GetAppendBuffer ::
  "nat \<Rightarrow> nat \<Rightarrow> nat \<Rightarrow> 'k \<Rightarrow> ((append_buffer \<times> nat) \<times> 'k) outcome" where
  "ByteSink_GetAppendBuffer min_capacity desired_capacity_hint scratch_capacity k =
    require CheckFailed (min_capacity \<ge> 1) (require CheckFailed (scratch_capacity \<ge> min_capacity)
      (Inr ((Scratch, scratch_capacity), k)))"

definition ByteSink_Flush :: "'k \<Rightarrow> 'k" where
  "ByteSink_Flush k = k"

section \<open>Array sinks\<close>

text \<open>\<open>u_array\<close> is the caller's array, whose true size the sink does not know.\<close>

record UncheckedArrayByteSink =
  u_array :: storage
  u_dest :: nat

definition new_UncheckedArrayByteSink :: "storage \<Rightarrow> nat \<Rightarrow> UncheckedArrayByteSink" where
  "new_UncheckedArrayByteSink a dest = \<lparr>u_array = a, u_dest = dest\<rparr>"

definition Unchecked_Append ::
  "data_ptr \<Rightarrow> nat \<Rightarrow> UncheckedArrayByteSink \<Rightarrow> UncheckedArrayByteSink outcome" where
  "Unchecked_Append data n k =
    andThen
      (if data \<noteq> Internal (u_dest k)
       then andThen (copy_into (u_array k) (u_dest k) data n) (\<lambda>a. Inr (k\<lparr>u_array := a\<rparr>))
       else Inr k)
      (\<lambda>k. Inr (k\<lparr>u_dest := u_dest k + n\<rparr>))"

definition Unchecked_GetAppendBuffer ::
  "nat \<Rightarrow> nat \<Rightarrow> nat \<Rightarrow> UncheckedArrayByteSink \<Rightarrow>
   ((append_buffer \<times> nat) \<times> UncheckedArrayByteSink) outcome" where
  "Unchecked_GetAppendBuffer min_capacity desired_capacity_hint scratch_capacity k =
    require CheckFailed (min_capacity \<ge> 1) (require CheckFailed (scratch_capacity \<ge> min_capacity)
      (Inr ((Own (u_dest k), max min_capacity desired_capacity_hint), k)))"

definition CurrentDestination :: "UncheckedArrayByteSink \<Rightarrow> nat" where
  "CurrentDestination k = u_dest k"

record CheckedArrayByteSink =
  c_outbuf :: storage
  c_capacity :: nat
  c_size :: nat
  c_overflowed :: bool

definition new_CheckedArrayByteSink :: "storage \<Rightarrow> nat \<Rightarrow> CheckedArrayByteSink" where
  "new_CheckedArrayByteSink outbuf capacity =
    \<lparr>c_outbuf = outbuf, c_capacity = capacity, c_size = 0, c_overflowed = False\<rparr>"

definition Checked_Append ::
  "data_ptr \<Rightarrow> nat \<Rightarrow> CheckedArrayByteSink \<Rightarrow> CheckedArrayByteSink outcome" where
  "Checked_Append bytes n k =
    (let available = c_capacity k - c_size k;
         k = (if n > available then k\<lparr>c_overflowed := True\<rparr> else k);
         n = (if n > available then available else n) in
     andThen
       (if n > 0 \<and> bytes \<noteq> Internal (c_size k)
        then andThen (copy_into (c_outbuf k) (c_size k) bytes n) (\<lambda>b. Inr (k\<lparr>c_outbuf := b\<rparr>))
        else Inr k)
       (\<lambda>k. Inr (k\<lparr>c_size := c_size k + n\<rparr>)))"

definition Checked_GetAppendBuffer ::
  "nat \<Rightarrow> nat \<Rightarrow> nat \<Rightarrow> CheckedArrayByteSink \<Rightarrow>
   ((append_buffer \<times> nat) \<times> CheckedArrayByteSink) outcome" where
  "Checked_GetAppendBuffer min_capacity desired_capacity_hint scratch_capacity k =
    require CheckFailed (min_capacity \<ge> 1) (require CheckFailed (scratch_capacity \<ge> min_capacity)
      (let available = c_capacity k - c_size k in
       if available \<ge> min_capacity then Inr ((Own (c_size k), available), k)
       else Inr ((Scratch, scratch_capacity), k)))"

definition NumberOfBytesWritten :: "CheckedArrayByteSink \<Rightarrow> nat" where
  "NumberOfBytesWritten k = c_size k"

definition Overflowed :: "CheckedArrayByteSink \<Rightarrow> bool" where
  "Overflowed k = c_overflowed k"

section \<open>The growing sink\<close>

record GrowingArrayByteSink =
  g_capacity :: nat
  g_buf :: storage
  g_size :: nat

definition new_GrowingArrayByteSink :: "nat \<Rightarrow> GrowingArrayByteSink" where
  "new_GrowingArrayByteSink estimated_size =
    \<lparr>g_capacity = estimated_size, g_buf = replicate estimated_size None, g_size = 0\<rparr>"

definition Expand :: "nat \<Rightarrow> GrowingArrayByteSink \<Rightarrow> GrowingArrayByteSink outcome" where
  "Expand amount k =
    (let new_capacity = max (g_capacity k + amount) ((3 * g_capacity k) div 2) in
     require BadAccess (g_size k \<le> length (g_buf k) \<and> g_size k \<le> new_capacity)
       (Inr (k\<lparr>g_buf := overlay 0 (take (g_size k) (g_buf k)) (replicate new_capacity None),
              g_capacity := new_capacity\<rparr>)))"

text \<open>
  When \<open>Expand\<close> replaces the block, a pointer into the old one dangles: it is not equal to any
  position of the new block, and the copy would read freed memory.
\<close>

definition Growing_Append ::
  "data_ptr \<Rightarrow> nat \<Rightarrow> GrowingArrayByteSink \<Rightarrow> GrowingArrayByteSink outcome" where
  "Growing_Append bytes n k =
    (let available = g_capacity k - g_size k; expanded = (n > available) in
     andThen (if expanded then Expand (n - available) k else Inr k)
       (\<lambda>k. andThen
         (if n > 0 \<and> (bytes \<noteq> Internal (g_size k) \<or> expanded) then
            require BadAccess (\<not> expanded \<or> (case bytes of External s \<Rightarrow> True | Internal k \<Rightarrow> False))
              (andThen (copy_into (g_buf k) (g_size k) bytes n) (\<lambda>b. Inr (k\<lparr>g_buf := b\<rparr>)))
          else Inr k)
         (\<lambda>k. Inr (k\<lparr>g_size := g_size k + n\<rparr>))))"

definition Growing_GetAppendBuffer ::
  "nat \<Rightarrow> nat \<Rightarrow> nat \<Rightarrow> GrowingArrayByteSink \<Rightarrow>
   ((append_buffer \<times> nat) \<times> GrowingArrayByteSink) outcome" where
  "Growing_GetAppendBuffer min_capacity desired_capacity_hint scratch_capacity k =
    require CheckFailed (min_capacity \<ge> 1) (require CheckFailed (scratch_capacity \<ge> min_capacity)
      (let available = g_capacity k - g_size k in
       andThen
         (if available < min_capacity
          then Expand (max min_capacity desired_capacity_hint - available) k
          else Inr k)
         (\<lambda>k. Inr ((Own (g_size k), g_capacity k - g_size k), k))))"

definition ShrinkToFit :: "GrowingArrayByteSink \<Rightarrow> GrowingArrayByteSink outcome" where
  "ShrinkToFit k =
    (if g_capacity k > 256 \<and> g_size k < (3 * g_capacity k) div 4 then
       require BadAccess (g_size k \<le> length (g_buf k))
         (Inr (k\<lparr>g_buf := take (g_size k) (g_buf k), g_capacity := g_size k\<rparr>))
     else Inr k)"

definition GetBuffer ::
  "GrowingArrayByteSink \<Rightarrow> ((storage \<times> nat) \<times> GrowingArrayByteSink) outcome" where
  "GetBuffer k =
    andThen (ShrinkToFit k)
      (\<lambda>k. Inr ((g_buf k, g_size k), k\<lparr>g_buf := [], g_size := 0, g_capacity := 0\<rparr>))"

section \<open>The string sink\<close>

text \<open>
  \<open>dest_\<close> with the capacity of its \<open>std::string\<close>.  How the string type rounds a request for
  capacity is the argument \<open>policy\<close> (current capacity, request); whether it supports a resize
  that leaves the new bytes unset is the argument \<open>nontrashing\<close>
  (\<open>STLStringSupportsNontrashingResize\<close>).  \<open>std::string::npos\<close> is \<open>None\<close>.
\<close>

record StringByteSink =
  s_dest :: storage
  s_capacity :: nat
  s_last_append_buffer_pos :: "nat option"

definition new_StringByteSink :: "storage \<Rightarrow> nat \<Rightarrow> StringByteSink" where
  "new_StringByteSink dest cap =
    \<lparr>s_dest = dest, s_capacity = cap, s_last_append_buffer_pos = None\<rparr>"

definition UndoAppendBuffer :: "StringByteSink \<Rightarrow> StringByteSink" where
  "UndoAppendBuffer k =
    (case s_last_append_buffer_pos k of
       None \<Rightarrow> k
     | Some pos \<Rightarrow> k\<lparr>s_dest := take pos (s_dest k), s_last_append_buffer_pos := None\<rparr>)"

definition delete_StringByteSink :: "StringByteSink \<Rightarrow> StringByteSink" where
  "delete_StringByteSink k = UndoAppendBuffer k"

text \<open>\<open>std::string::erase\<close> throws past the end of the string, which ends the process.\<close>

definition string_append ::
  "(nat \<Rightarrow> nat \<Rightarrow> nat) \<Rightarrow> data_ptr \<Rightarrow> nat \<Rightarrow> StringByteSink \<Rightarrow> StringByteSink outcome" where
  "string_append policy data n k =
    require BadAccess (readable (s_dest k) data n)
      (let m = length (s_dest k) + n in
       Inr (k\<lparr>s_dest := s_dest k @ read_ptr (s_dest k) data n,
              s_capacity := (if m > s_capacity k then policy (s_capacity k) m else s_capacity k)\<rparr>))"

definition String_Append ::
  "(nat \<Rightarrow> nat \<Rightarrow> nat) \<Rightarrow> data_ptr \<Rightarrow> nat \<Rightarrow> StringByteSink \<Rightarrow> StringByteSink outcome" where
  "String_Append policy data n k =
    (case s_last_append_buffer_pos k of
       Some pos \<Rightarrow>
         if data = Internal pos then
           require CheckFailed (pos + n \<le> length (s_dest k))
             (Inr (k\<lparr>s_dest := take (pos + n) (s_dest k), s_last_append_buffer_pos := None\<rparr>))
         else string_append policy data n (UndoAppendBuffer k)
     | None \<Rightarrow> string_append policy data n (UndoAppendBuffer k))"

definition String_GetAppendBuffer ::
  "bool \<Rightarrow> (nat \<Rightarrow> nat \<Rightarrow> nat) \<Rightarrow> nat \<Rightarrow> nat \<Rightarrow> nat \<Rightarrow> StringByteSink \<Rightarrow>
   ((append_buffer \<times> nat) \<times> StringByteSink) outcome" where
  "String_GetAppendBuffer nontrashing policy min_capacity desired_capacity_hint scratch_capacity k =
    (if \<not> nontrashing then Inr ((Scratch, scratch_capacity), k)
     else
       (let k = UndoAppendBuffer k;
            increase_by = max min_capacity desired_capacity_hint;
            current_size = length (s_dest k);
            new_size = current_size + increase_by in
        require CheckFailed (s_last_append_buffer_pos k = None)
          (let cap = (if new_size > s_capacity k
                      then policy (s_capacity k) (max new_size (2 * s_capacity k))
                      else s_capacity k) in
           Inr ((Own current_size, cap - current_size),
                k\<lparr>s_last_append_buffer_pos := Some current_size, s_capacity := cap,
                  s_dest := s_dest k @ replicate (cap - length (s_dest k)) None\<rparr>))))"

definition NullByteSink_Append :: "data_ptr \<Rightarrow> nat \<Rightarrow> unit \<Rightarrow> unit outcome" where
  "NullByteSink_Append data n k = Inr ()"

section \<open>The caller's side of an append buffer\<close>

text \<open>
  The protocol of \<open>GetAppendBuffer\<close>: store the bytes where the returned pointer says, then pass the
  same pointer to \<open>Append\<close>.  \<open>update_storage\<close> is the store
  through the pointer.
\<close>

definition append_through_buffer ::
  "('k \<Rightarrow> ((append_buffer \<times> nat) \<times> 'k) outcome) \<Rightarrow> ((storage \<Rightarrow> storage) \<Rightarrow> 'k \<Rightarrow> 'k) \<Rightarrow>
   (data_ptr \<Rightarrow> nat \<Rightarrow> 'k \<Rightarrow> 'k outcome) \<Rightarrow> string \<Rightarrow> 'k \<Rightarrow> 'k outcome" where
  "append_through_buffer get_append_buffer update_storage app bs k =
    andThen (get_append_buffer k)
      (\<lambda>((buffer, capacity), k). require BadAccess (length bs \<le> capacity)
        (case buffer of
           Scratch \<Rightarrow> app (External bs) (length bs) k
         | Own pos \<Rightarrow>
             app (Internal pos) (length bs) (update_storage (overlay pos (map Some bs)) k)))"

end
