(* ===== verification/Csv.thy ===== *)
theory Csv
  imports Bytestream
begin

text \<open>
  The CSV parser and writer, \<^verbatim>\<open>src/gloop/util/csv/\<close>: \<^verbatim>\<open>parser.h\<close>, \<^verbatim>\<open>parser.cc\<close>,
  \<^verbatim>\<open>writer.h\<close> and \<^verbatim>\<open>writer.cc\<close>.

  A parser is generic in its \<open>ByteSource\<close>, a record of the source's virtual functions.  Its loops run
  over a source that may be any implementation of the interface, so they are partial functions into
  \<open>option\<close>; \<open>None\<close> means that the loop does not return, or that it reads the first character of an
  empty view.  A writer is generic in its sink, the argument \<open>S\<close>, and in \<open>StrSplit\<close>, the argument
  \<open>split\<close>.
\<close>

section \<open>Characters\<close>

abbreviation quote_char :: char where "quote_char \<equiv> CHR 0x22"
abbreviation newline :: char where "newline \<equiv> CHR 0x0A"
abbreviation carriage_return :: char where "carriage_return \<equiv> CHR 0x0D"
abbreviation backslash :: char where "backslash \<equiv> CHR 0x5C"

section \<open>State of the parser\<close>

datatype status = OkStatus | InvalidArgumentError nat nat

datatype Mode = RFC4180 | LITERAL_QUOTES | MYSQL_ESCAPING

datatype ParseState =
  FIELD_START | IN_FIELD | IN_QUOTED_FIELD | QUOTED_QUOTE | QUOTED_BACKSLASH_ESCAPE | ERROR
  | END_OF_RECORD

record Record =
  r_status :: status
  r_number :: int
  r_fields :: "string list"

definition new_Record :: "int \<Rightarrow> Record" where
  "new_Record number = \<lparr>r_status = OkStatus, r_number = number, r_fields = []\<rparr>"

record 's Parser =
  p_source :: 's
  p_orig_str_size :: nat
  p_current_str :: string
  p_record :: Record
  p_has_more_data :: bool
  p_delim :: char
  p_mode :: Mode
  p_record_count :: int
  p_begin_is_end :: bool

definition push_field :: "string \<Rightarrow> 's Parser \<Rightarrow> 's Parser" where
  "push_field f p = p\<lparr>p_record := (p_record p)\<lparr>r_fields := r_fields (p_record p) @ [f]\<rparr>\<rparr>"

section \<open>Reading characters\<close>

definition PopulateCurrentString :: "'s ByteSource \<Rightarrow> 's Parser \<Rightarrow> 's Parser \<times> bool" where
  "PopulateCurrentString B p =
    (let source = Skip B (p_orig_str_size p) (p_source p);
         p = p\<lparr>p_source := source\<rparr>;
         avail = Available B source in
     if avail = 0 then (p\<lparr>p_orig_str_size := 0\<rparr>, False)
     else
       (let str = Peek B source;
            str = (if avail < length str then take (length str - (length str - avail)) str else str) in
        (p\<lparr>p_current_str := str, p_orig_str_size := length str\<rparr>, True)))"

text \<open>The test \<open>current_str_.empty() && !PopulateCurrentString()\<close>: true at the end of the data.\<close>

definition at_eof :: "'s ByteSource \<Rightarrow> 's Parser \<Rightarrow> 's Parser \<times> bool" where
  "at_eof B p =
    (if p_current_str p = [] then
       (case PopulateCurrentString B p of (p, got) \<Rightarrow> (p, \<not> got))
     else (p, False))"

text \<open>The look-ahead for \<open>'\r\n'\<close>, given the character just removed.\<close>

definition collapse_crlf :: "'s ByteSource \<Rightarrow> char \<Rightarrow> 's Parser \<Rightarrow> ('s Parser \<times> char) option" where
  "collapse_crlf B next_char p =
    (if next_char = carriage_return then
       (case at_eof B p of
          (p, eof) \<Rightarrow> if eof then Some (p, newline) else
            (case p_current_str p of
               [] \<Rightarrow> None
             | c # cs \<Rightarrow> Some (if c = newline then p\<lparr>p_current_str := cs\<rparr> else p, newline)))
     else Some (p, next_char))"

section \<open>The state machine\<close>

text \<open>The \<open>switch\<close> of \<open>Advance\<close>: the new state, the current field and the parser.\<close>

definition switch_state ::
  "ParseState \<Rightarrow> char \<Rightarrow> string \<Rightarrow> 's Parser \<Rightarrow> ParseState \<times> string \<times> 's Parser" where
  "switch_state state next_char field p =
    (case state of
       FIELD_START \<Rightarrow>
         if p_mode p \<noteq> LITERAL_QUOTES \<and> next_char = quote_char then (IN_QUOTED_FIELD, field, p)
         else if next_char = p_delim p then (FIELD_START, [], push_field field p)
         else if next_char = newline then (END_OF_RECORD, field, push_field field p)
         else (IN_FIELD, field @ [next_char], p)
     | IN_FIELD \<Rightarrow>
         if p_mode p \<noteq> LITERAL_QUOTES \<and> next_char = quote_char then (IN_QUOTED_FIELD, field, p)
         else if next_char = p_delim p then (FIELD_START, [], push_field field p)
         else if next_char = newline then (END_OF_RECORD, field, push_field field p)
         else (IN_FIELD, field @ [next_char], p)
     | IN_QUOTED_FIELD \<Rightarrow>
         if next_char = quote_char then (QUOTED_QUOTE, field, p)
         else if next_char = backslash \<and> p_mode p = MYSQL_ESCAPING
         then (QUOTED_BACKSLASH_ESCAPE, field, p)
         else (IN_QUOTED_FIELD, field @ [next_char], p)
     | QUOTED_BACKSLASH_ESCAPE \<Rightarrow> (IN_QUOTED_FIELD, field @ [next_char], p)
     | QUOTED_QUOTE \<Rightarrow>
         if next_char = quote_char \<and> p_mode p \<noteq> MYSQL_ESCAPING
         then (IN_QUOTED_FIELD, field @ [quote_char], p)
         else if next_char = p_delim p then (FIELD_START, [], push_field field p)
         else if next_char = newline then (END_OF_RECORD, field, push_field field p)
         else (IN_FIELD, field @ [next_char], p)
     | ERROR \<Rightarrow> (ERROR, field, p)
     | END_OF_RECORD \<Rightarrow> (END_OF_RECORD, field, p))"

text \<open>After an error the rest of the line is read.\<close>

partial_function (option) skip_error_line ::
  "'s ByteSource \<Rightarrow> char \<Rightarrow> 's Parser \<Rightarrow> 's Parser option" where
  "skip_error_line B next_char p =
    (if next_char = newline \<or> next_char = carriage_return then Some p
     else (case at_eof B p of
         (p, eof) \<Rightarrow> if eof then Some p else
           (case p_current_str p of
              [] \<Rightarrow> None
            | c # cs \<Rightarrow> skip_error_line B c (p\<lparr>p_current_str := cs\<rparr>))))"

definition finish_at_eof :: "string \<Rightarrow> 's Parser \<Rightarrow> 's Parser" where
  "finish_at_eof field p =
    (let p = (if field \<noteq> [] \<or> r_fields (p_record p) \<noteq> [] then push_field field p else p) in
     if r_fields (p_record p) \<noteq> [] then p else p\<lparr>p_has_more_data := False\<rparr>)"

partial_function (option) Advance_loop ::
  "'s ByteSource \<Rightarrow> ParseState \<Rightarrow> string \<Rightarrow> 's Parser \<Rightarrow> 's Parser option" where
  "Advance_loop B state field p =
    (if state = ERROR \<or> state = END_OF_RECORD then Some p
     else (case at_eof B p of
         (p, eof) \<Rightarrow> if eof then Some (finish_at_eof field p) else
           (case p_current_str p of
              [] \<Rightarrow> None
            | c # cs \<Rightarrow>
                Option.bind (collapse_crlf B c (p\<lparr>p_current_str := cs\<rparr>)) (\<lambda>(p, next_char).
                  (case switch_state state next_char field p of
                     (state, field, p) \<Rightarrow>
                       if state = ERROR
                       then Option.bind (skip_error_line B next_char p) (Advance_loop B state field)
                       else Advance_loop B state field p)))))"

definition Advance :: "'s ByteSource \<Rightarrow> 's Parser \<Rightarrow> 's Parser option" where
  "Advance B p =
    Advance_loop B FIELD_START []
      (p\<lparr>p_record := new_Record (p_record_count p), p_record_count := p_record_count p + 1\<rparr>)"

definition new_Parser :: "'s ByteSource \<Rightarrow> 's \<Rightarrow> char \<Rightarrow> Mode \<Rightarrow> 's Parser option" where
  "new_Parser B source delim mode =
    Advance B
      \<lparr>p_source = source, p_orig_str_size = 0, p_current_str = [], p_record = new_Record 0,
       p_has_more_data = True, p_delim = delim, p_mode = mode, p_record_count = 0,
       p_begin_is_end = (Available B source = 0)\<rparr>"

section \<open>Iterators\<close>

text \<open>An iterator of a parser is its \<open>is_end_\<close>; \<open>end()\<close> is \<open>True\<close>.\<close>

definition Iterator_increment ::
  "'s ByteSource \<Rightarrow> 's Parser \<Rightarrow> bool \<Rightarrow> ('s Parser \<times> bool) option" where
  "Iterator_increment B p is_end =
    Option.bind (Advance B p) (\<lambda>p. Some (p, if \<not> p_has_more_data p then True else is_end))"

definition Iterator_equal :: "'s Parser \<Rightarrow> bool \<Rightarrow> bool \<Rightarrow> bool" where
  "Iterator_equal p is_end that_is_end =
    (let at_end = is_end \<or> \<not> p_has_more_data p;
         that_at_end = that_is_end \<or> \<not> p_has_more_data p in
     at_end = that_at_end)"

text \<open>The range-based \<open>for\<close> over a parser, collecting the records.\<close>

partial_function (option) for_each_record ::
  "'s ByteSource \<Rightarrow> 's Parser \<Rightarrow> bool \<Rightarrow> Record list option" where
  "for_each_record B p it =
    (if Iterator_equal p it True then Some []
     else Option.bind (Iterator_increment B p it) (\<lambda>(p', it').
       Option.bind (for_each_record B p' it') (\<lambda>rs. Some (p_record p # rs))))"

definition parse_all :: "'s ByteSource \<Rightarrow> 's \<Rightarrow> char \<Rightarrow> Mode \<Rightarrow> Record list option" where
  "parse_all B source delim mode =
    Option.bind (new_Parser B source delim mode) (\<lambda>p. for_each_record B p (p_begin_is_end p))"

definition ParseLine :: "string \<Rightarrow> char \<Rightarrow> Mode \<Rightarrow> Record option" where
  "ParseLine line delim mode =
    (let line = (if line = [] then [newline] else line) in
     Option.bind (new_Parser ArrayByteSource line delim mode) (\<lambda>p. Some (p_record p)))"

section \<open>The writer\<close>

record 'k ByteSink =
  Sink_Append :: "string \<Rightarrow> 'k \<Rightarrow> 'k outcome"
  Sink_Flush :: "'k \<Rightarrow> 'k"

type_synonym 'k formatter = "string \<Rightarrow> 'k \<Rightarrow> 'k outcome"

fun append_pieces :: "'k ByteSink \<Rightarrow> string \<Rightarrow> string list \<Rightarrow> 'k \<Rightarrow> 'k outcome" where
  "append_pieces S qq [] k = Inr k"
| "append_pieces S qq (sp # sps) k =
    andThen (Sink_Append S qq k) (\<lambda>k. andThen (Sink_Append S sp k)
      (append_pieces S [quote_char, quote_char] sps))"

definition StandardFieldFormatter ::
  "(char \<Rightarrow> string \<Rightarrow> string list) \<Rightarrow> 'k ByteSink \<Rightarrow> char \<Rightarrow> 'k formatter" where
  "StandardFieldFormatter split S field_delimiter field k =
    (let quotable_chars = [field_delimiter, quote_char, newline, carriage_return];
         quote_field = list_ex (\<lambda>c. c \<in> set quotable_chars) field in
     andThen (if quote_field then Sink_Append S [quote_char] k else Inr k) (\<lambda>k.
     andThen (append_pieces S [] (split quote_char field) k) (\<lambda>k.
     if quote_field then Sink_Append S [quote_char] k else Inr k)))"

record ('r, 'k) Writer =
  w_sink :: 'k
  w_num_fields :: nat
  w_order :: "'r \<Rightarrow> string list"
  w_field_delimiter :: char
  w_record_delimiter :: string
  w_status :: status
  w_auto_flush :: bool
  w_field_formatter :: "'k formatter"

definition new_Writer ::
  "nat \<Rightarrow> ('r \<Rightarrow> string list) \<Rightarrow> char \<Rightarrow> 'k \<Rightarrow> 'k formatter \<Rightarrow> ('r, 'k) Writer" where
  "new_Writer num_fields order field_delimiter sink field_formatter =
    \<lparr>w_sink = sink, w_num_fields = num_fields, w_order = order,
     w_field_delimiter = field_delimiter, w_record_delimiter = [newline], w_status = OkStatus,
     w_auto_flush = True, w_field_formatter = field_formatter\<rparr>"

definition new_Writer_delimiter ::
  "(char \<Rightarrow> string \<Rightarrow> string list) \<Rightarrow> 'k ByteSink \<Rightarrow>
   nat \<Rightarrow> ('r \<Rightarrow> string list) \<Rightarrow> char \<Rightarrow> 'k \<Rightarrow> ('r, 'k) Writer" where
  "new_Writer_delimiter split S num_fields order field_delimiter sink =
    new_Writer num_fields order field_delimiter sink
      (StandardFieldFormatter split S field_delimiter)"

definition new_Writer_default ::
  "(char \<Rightarrow> string \<Rightarrow> string list) \<Rightarrow> 'k ByteSink \<Rightarrow>
   nat \<Rightarrow> ('r \<Rightarrow> string list) \<Rightarrow> 'k \<Rightarrow> ('r, 'k) Writer" where
  "new_Writer_default split S num_fields order sink =
    new_Writer_delimiter split S num_fields order CHR '','' sink"

text \<open>The constructors that take a bare pointer; \<open>None\<close> is the null pointer.\<close>

definition new_Writer_ptr ::
  "nat \<Rightarrow> ('r \<Rightarrow> string list) \<Rightarrow> char \<Rightarrow> 'k option \<Rightarrow> 'k formatter \<Rightarrow> ('r, 'k) Writer outcome" where
  "new_Writer_ptr num_fields order field_delimiter sink field_formatter =
    (case sink of
       None \<Rightarrow> Inl CheckFailed
     | Some k \<Rightarrow> Inr (new_Writer num_fields order field_delimiter k field_formatter))"

definition new_Writer_delimiter_ptr ::
  "(char \<Rightarrow> string \<Rightarrow> string list) \<Rightarrow> 'k ByteSink \<Rightarrow>
   nat \<Rightarrow> ('r \<Rightarrow> string list) \<Rightarrow> char \<Rightarrow> 'k option \<Rightarrow> ('r, 'k) Writer outcome" where
  "new_Writer_delimiter_ptr split S num_fields order field_delimiter sink =
    new_Writer_ptr num_fields order field_delimiter sink
      (StandardFieldFormatter split S field_delimiter)"

definition new_Writer_default_ptr ::
  "(char \<Rightarrow> string \<Rightarrow> string list) \<Rightarrow> 'k ByteSink \<Rightarrow>
   nat \<Rightarrow> ('r \<Rightarrow> string list) \<Rightarrow> 'k option \<Rightarrow> ('r, 'k) Writer outcome" where
  "new_Writer_default_ptr split S num_fields order sink =
    (case sink of
       None \<Rightarrow> Inl CheckFailed
     | Some k \<Rightarrow> Inr (new_Writer_default split S num_fields order k))"

definition SetAutoFlush :: "bool \<Rightarrow> ('r, 'k) Writer \<Rightarrow> ('r, 'k) Writer" where
  "SetAutoFlush auto_flush w = w\<lparr>w_auto_flush := auto_flush\<rparr>"

definition SetCRLFRecordDelimiter :: "bool \<Rightarrow> ('r, 'k) Writer \<Rightarrow> ('r, 'k) Writer" where
  "SetCRLFRecordDelimiter use_crlf w =
    w\<lparr>w_record_delimiter := (if use_crlf then [carriage_return, newline] else [newline])\<rparr>"

fun write_fields ::
  "'k ByteSink \<Rightarrow> char \<Rightarrow> 'k formatter \<Rightarrow> nat \<Rightarrow> string list \<Rightarrow> 'k \<Rightarrow> 'k outcome" where
  "write_fields S d format i [] k = Inr k"
| "write_fields S d format i (f # fs) k =
    andThen (if i \<noteq> 0 then Sink_Append S [d] k else Inr k) (\<lambda>k.
    andThen (format f k) (write_fields S d format (i + 1) fs))"

definition WriteRecord ::
  "'k ByteSink \<Rightarrow> 'r \<Rightarrow> ('r, 'k) Writer \<Rightarrow> (status \<times> ('r, 'k) Writer) outcome" where
  "WriteRecord S record w =
    (let ordered_record = w_order w record in
     if w_num_fields w \<noteq> length ordered_record then
       (let st = InvalidArgumentError (w_num_fields w) (length ordered_record) in
        Inr (st, w\<lparr>w_status := st\<rparr>))
     else
       andThen (write_fields S (w_field_delimiter w) (w_field_formatter w) 0 ordered_record (w_sink w))
         (\<lambda>k. andThen (Sink_Append S (w_record_delimiter w) k)
         (\<lambda>k. let k = (if w_auto_flush w then Sink_Flush S k else k) in
           Inr (OkStatus, w\<lparr>w_sink := k, w_status := OkStatus\<rparr>))))"

definition DefaultOrder :: "string list \<Rightarrow> string list" where
  "DefaultOrder record = record"

datatype csv_record = Sequence "string list" | Map_like "string \<rightharpoonup> string"

fun HeaderOrder :: "string list \<Rightarrow> csv_record \<Rightarrow> string list" where
  "HeaderOrder headers (Map_like record) = List.map_filter record headers"
| "HeaderOrder headers (Sequence record) = record"

text \<open>The sink of \<open>WriteRecordToString\<close> is a \<open>StringByteSink\<close> on an empty string.\<close>

definition StringSink :: "(nat \<Rightarrow> nat \<Rightarrow> nat) \<Rightarrow> StringByteSink ByteSink" where
  "StringSink policy =
    \<lparr>Sink_Append = (\<lambda>s. String_Append policy (External s) (length s)), Sink_Flush = ByteSink_Flush\<rparr>"

definition WriteRecordToString ::
  "(char \<Rightarrow> string \<Rightarrow> string list) \<Rightarrow> (nat \<Rightarrow> nat \<Rightarrow> nat) \<Rightarrow> string list \<Rightarrow> char \<Rightarrow> storage outcome" where
  "WriteRecordToString split policy record field_delimiter =
    andThen
      (WriteRecord (StringSink policy) record
        (new_Writer_delimiter split (StringSink policy) (length record) DefaultOrder field_delimiter
          (new_StringByteSink [] 0)))
      (\<lambda>(st, w). require CheckFailed (st = OkStatus)
        (let out = s_dest (w_sink w) in Inr (take (length out - 1) out)))"

end
