(* ===== verification/Bytestream_Proofs.thy ===== *)
theory Bytestream_Proofs
  imports Bytestream
begin

text \<open>
  The contracts of \<open>ByteSource\<close> and \<open>ByteSink\<close> as locales, their interpretation on the classes of
  \<^verbatim>\<open>bytestream.cc\<close>, and what follows: copying between any source and any sink moves exactly the
  requested bytes, an append through a sink's own buffer is the append of the bytes stored there, and
  the bounded sink never leaves its array.
\<close>

declare ByteSource_CopyTo.simps [simp del]

section \<open>The contract of a source\<close>

text \<open>
  The laws are those of the comments in \<^verbatim>\<open>bytestream.h\<close>: \<open>Available\<close> counts the bytes left,
  \<open>Peek\<close> shows a first contiguous region of them, empty only at the end, and \<open>Skip\<close> drops bytes.
\<close>

locale byte_source =
  fixes B :: "'s ByteSource" and valid :: "'s \<Rightarrow> bool" and contents :: "'s \<Rightarrow> string"
  assumes available: "valid s \<Longrightarrow> Available B s = length (contents s)"
    and peek: "valid s \<Longrightarrow> Peek B s = take (length (Peek B s)) (contents s)"
    and peek_empty: "valid s \<Longrightarrow> Peek B s = [] \<longleftrightarrow> contents s = []"
    and skip: "valid s \<Longrightarrow> n \<le> length (contents s) \<Longrightarrow>
      valid (Skip B n s) \<and> contents (Skip B n s) = drop n (contents s)"
begin

lemma peek_length: "valid s \<Longrightarrow> length (Peek B s) \<le> length (contents s)"
  by (metis length_take min.cobounded2 min.commute peek)

lemma peek_take: "valid s \<Longrightarrow> n \<le> length (Peek B s) \<Longrightarrow> take n (Peek B s) = take n (contents s)"
  by (metis min.absorb1 peek take_take)

end

text \<open>\<open>valid\<close> and \<open>contents\<close> of the wrapped source carry over to a limited view of it.\<close>

lemma byte_source_limit:
  assumes "byte_source B valid contents"
  shows "byte_source (LimitByteSource B) (\<lambda>l. valid (l_source l))
    (\<lambda>l. take (l_limit l) (contents (l_source l)))"
proof
  fix l :: "'a LimitByteSource_state" and n
  assume v: "valid (l_source l)"
  note available = byte_source.available [OF assms v]
    and peek = byte_source.peek [OF assms v]
    and peek_empty = byte_source.peek_empty [OF assms v]
    and skip = byte_source.skip [OF assms v]
  show "Available (LimitByteSource B) l = length (take (l_limit l) (contents (l_source l)))"
    using available by (simp add: LimitByteSource_def Limit_Available_def Let_def)
  show "Peek (LimitByteSource B) l =
      take (length (Peek (LimitByteSource B) l)) (take (l_limit l) (contents (l_source l)))"
    using peek byte_source.peek_take [OF assms v, of "l_limit l"]
    by (simp add: LimitByteSource_def Limit_Peek_def Let_def min_def)
  show "Peek (LimitByteSource B) l = [] \<longleftrightarrow> take (l_limit l) (contents (l_source l)) = []"
    using peek_empty by (auto simp: LimitByteSource_def Limit_Peek_def Let_def)
  assume "n \<le> length (take (l_limit l) (contents (l_source l)))"
  then show "valid (l_source (Skip (LimitByteSource B) n l)) \<and>
      take (l_limit (Skip (LimitByteSource B) n l)) (contents (l_source (Skip (LimitByteSource B) n l)))
      = drop n (take (l_limit l) (contents (l_source l)))"
    using skip [of n] by (simp add: LimitByteSource_def Limit_Skip_def size_minus_def drop_take)
qed

interpretation array_source: byte_source ArrayByteSource "\<lambda>_. True" "\<lambda>s. s"
  by unfold_locales (simp_all add: ArrayByteSource_def)

interpretation limit_source:
  byte_source "LimitByteSource ArrayByteSource" "\<lambda>_. True" "\<lambda>l. take (l_limit l) (l_source l)"
  by (rule byte_source_limit [OF array_source.byte_source_axioms])

interpretation mock_source: byte_source MockByteSource "\<lambda>m. 0 < m_block_size m" m_data
  by unfold_locales (auto simp: MockByteSource_def min_def)

section \<open>The contract of a sink\<close>

text \<open>
  \<open>app\<close> appends bytes of the caller; \<open>out\<close> is what the sink holds.  \<open>ok\<close> is the invariant of
  the class.
\<close>

locale byte_sink =
  fixes app :: "string \<Rightarrow> 'k \<Rightarrow> 'k outcome" and ok :: "'k \<Rightarrow> bool" and out :: "'k \<Rightarrow> storage"
  assumes app: "ok k \<Longrightarrow> \<exists>k'. app s k = Inr k' \<and> ok k' \<and> out k' = out k @ map Some s"
begin

lemma app_cases:
  assumes "ok k"
  obtains k' where "app s k = Inr k'" and "ok k'" and "out k' = out k @ map Some s"
  using app [OF assms] by blast

end

locale copy_stream = byte_source B valid contents + byte_sink app ok out
  for B :: "'s ByteSource" and valid contents and app :: "string \<Rightarrow> 'k \<Rightarrow> 'k outcome" and ok out
begin

text \<open>Asking for more than is left copies what is left and stops.\<close>

lemma CopyTo_spec:
  assumes "valid s" and "ok k"
  shows "\<exists>s' k'. ByteSource_CopyTo B app n s k = Inr (s', k') \<and> valid s' \<and> ok k'
    \<and> contents s' = drop n (contents s) \<and> out k' = out k @ map Some (take n (contents s))"
  using assms
proof (induction n arbitrary: s k rule: less_induct)
  case (less n)
  let ?m = "min n (length (Peek B s))"
  show ?case
  proof (cases "n = 0 \<or> Peek B s = []")
    case True
    then show ?thesis
      using less.prems peek_empty by (auto simp: ByteSource_CopyTo.simps [of B app n s k])
  next
    case False
    then have m: "0 < ?m" "?m \<le> n" "?m \<le> length (Peek B s)" "?m \<le> length (contents s)"
      using peek_length [OF less.prems(1)] by auto
    obtain k1 where k1: "app (take ?m (Peek B s)) k = Inr k1" "ok k1"
      "out k1 = out k @ map Some (take ?m (contents s))"
      using app_cases [OF less.prems(2)] peek_take [OF less.prems(1) m(3)] by metis
    have s1: "valid (Skip B ?m s)" "contents (Skip B ?m s) = drop ?m (contents s)"
      using skip [OF less.prems(1) m(4)] by auto
    obtain s' k' where *: "ByteSource_CopyTo B app (n - ?m) (Skip B ?m s) k1 = Inr (s', k')"
      "valid s'" "ok k'" "contents s' = drop (n - ?m) (drop ?m (contents s))"
      "out k' = out k1 @ map Some (take (n - ?m) (drop ?m (contents s)))"
      using less.IH [of "n - ?m" "Skip B ?m s" k1] m s1 k1(2) by force
    have "take n (contents s) = take ?m (contents s) @ take (n - ?m) (drop ?m (contents s))"
      using m(2) by (metis le_add_diff_inverse take_add)
    moreover have "ByteSource_CopyTo B app n s k = Inr (s', k')"
      using False k1(1) *(1) by (simp add: ByteSource_CopyTo.simps [of B app n s k] Let_def)
    ultimately show ?thesis
      using * m(2) by (auto simp: k1(3))
  qed
qed

end

text \<open>Which bytes leave the source does not depend on the sink.\<close>

lemma CopyTo_source_eq:
  "ByteSource_CopyTo B app n s k = Inr (s1, k1) \<Longrightarrow> ByteSource_CopyTo B app' n s k' = Inr (s2, k2) \<Longrightarrow> s1 = s2"
proof (induction n arbitrary: s k k' rule: less_induct)
  case (less n)
  show ?case
  proof (cases "n = 0 \<or> Peek B s = []")
    case True
    then show ?thesis
      using less.prems by (auto simp: ByteSource_CopyTo.simps [of B _ n s] Let_def split: if_splits)
  next
    case False
    with less.prems show ?thesis
      using less.IH [of "n - min n (length (Peek B s))"]
      by (auto simp: ByteSource_CopyTo.simps [of B _ n s] Let_def andThen_eq_Inr)
  qed
qed

section \<open>Storage\<close>

lemma length_overlay [simp]:
  "off + length bs \<le> length st \<Longrightarrow> length (overlay off bs st) = length st"
  by (simp add: overlay_def)

lemma take_overlay: "off \<le> length st \<Longrightarrow> take (off + length bs) (overlay off bs st) = take off st @ bs"
  by (simp add: overlay_def)

lemma drop_overlay: "off \<le> length st \<Longrightarrow> drop (off + length bs) (overlay off bs st) = drop (off + length bs) st"
  by (simp add: overlay_def)

lemma copy_into_External:
  "off + length bs \<le> length st \<Longrightarrow>
   copy_into st off (External bs) (length bs) = Inr (overlay off (map Some bs) st)"
  by (simp add: copy_into_def readable_def read_ptr_def)

lemma copy_into_External_take:
  "off + n \<le> length st \<Longrightarrow> n \<le> length bs \<Longrightarrow>
   copy_into st off (External bs) n = Inr (overlay off (map Some (take n bs)) st)"
  by (simp add: copy_into_def readable_def read_ptr_def)

section \<open>The growing sink\<close>

definition growing_ok :: "GrowingArrayByteSink \<Rightarrow> bool" where
  "growing_ok k \<longleftrightarrow> length (g_buf k) = g_capacity k \<and> g_size k \<le> g_capacity k"

definition growing_out :: "GrowingArrayByteSink \<Rightarrow> storage" where
  "growing_out k = take (g_size k) (g_buf k)"

lemmas growing_defs = growing_ok_def growing_out_def

lemma growing_new: "growing_ok (new_GrowingArrayByteSink c)" "growing_out (new_GrowingArrayByteSink c) = []"
  by (simp_all add: growing_defs new_GrowingArrayByteSink_def)

lemma Expand_spec:
  assumes "growing_ok k"
  obtains k' where "Expand a k = Inr k'" and "growing_ok k'" and "growing_out k' = growing_out k"
    and "g_size k' = g_size k" and "g_capacity k + a \<le> g_capacity k'"
proof
  let ?c = "max (g_capacity k + a) ((3 * g_capacity k) div 2)"
  let ?k = "k\<lparr>g_buf := overlay 0 (take (g_size k) (g_buf k)) (replicate ?c None), g_capacity := ?c\<rparr>"
  have len: "length (take (g_size k) (g_buf k)) = g_size k" "g_size k \<le> ?c"
    using assms by (auto simp: growing_ok_def)
  show "Expand a k = Inr ?k"
    using assms by (auto simp: Expand_def growing_ok_def Let_def)
  show "growing_ok ?k"
    using len by (auto simp: growing_ok_def)
  show "growing_out ?k = growing_out k"
    using take_overlay [of 0 "replicate ?c None" "take (g_size k) (g_buf k)"] len
    by (simp add: growing_out_def)
qed simp_all

lemma Growing_Append_External:
  assumes "growing_ok k"
  shows "\<exists>k'. Growing_Append (External bs) (length bs) k = Inr k' \<and> growing_ok k'
    \<and> growing_out k' = growing_out k @ map Some bs"
proof -
  let ?a = "g_capacity k - g_size k"
  obtain k1 where k1: "(if length bs > ?a then Expand (length bs - ?a) k else Inr k) = Inr k1"
    "growing_ok k1" "growing_out k1 = growing_out k" "g_size k1 + length bs \<le> g_capacity k1"
  proof (cases "length bs > ?a")
    case True
    obtain k1 where "Expand (length bs - ?a) k = Inr k1" "growing_ok k1"
      "growing_out k1 = growing_out k" "g_size k1 = g_size k" "g_capacity k + (length bs - ?a) \<le> g_capacity k1"
      using Expand_spec [OF assms] by blast
    then show ?thesis
      using that [of k1] True assms by (auto simp: growing_ok_def)
  next
    case False
    then show ?thesis
      using that [of k] assms by (auto simp: growing_ok_def)
  qed
  let ?k = "k1\<lparr>g_buf := overlay (g_size k1) (map Some bs) (g_buf k1), g_size := g_size k1 + length bs\<rparr>"
  have "Growing_Append (External bs) (length bs) k = Inr ?k"
    using k1 copy_into_External [of "g_size k1" bs "g_buf k1"]
    by (cases "bs = []") (simp_all add: Growing_Append_def Let_def growing_ok_def overlay_def)
  moreover have "growing_ok ?k" "growing_out ?k = growing_out k @ map Some bs"
    using k1 take_overlay [of "g_size k1" "g_buf k1" "map Some bs"] by (auto simp: growing_defs)
  ultimately show ?thesis by blast
qed

interpretation growing_sink: byte_sink "\<lambda>s. Growing_Append (External s) (length s)" growing_ok growing_out
  by unfold_locales (rule Growing_Append_External)

lemma GetBuffer_spec:
  assumes "growing_ok k"
  shows "\<exists>buf k'. GetBuffer k = Inr ((buf, g_size k), k') \<and> take (g_size k) buf = growing_out k
    \<and> g_size k \<le> length buf \<and> growing_ok k' \<and> growing_out k' = []"
  using assms by (auto simp: GetBuffer_def ShrinkToFit_def growing_defs)

section \<open>The string sink\<close>

text \<open>\<open>out\<close> leaves out a reserved append buffer that has not been used yet.\<close>

definition string_ok :: "StringByteSink \<Rightarrow> bool" where
  "string_ok k \<longleftrightarrow> length (s_dest k) \<le> s_capacity k
    \<and> (\<forall>pos. s_last_append_buffer_pos k = Some pos \<longrightarrow> pos \<le> length (s_dest k))"

definition string_out :: "StringByteSink \<Rightarrow> storage" where
  "string_out k = s_dest (UndoAppendBuffer k)"

definition good_policy :: "(nat \<Rightarrow> nat \<Rightarrow> nat) \<Rightarrow> bool" where
  "good_policy policy \<longleftrightarrow> (\<forall>cap request. request \<le> policy cap request)"

lemma UndoAppendBuffer_simps [simp]:
  "s_last_append_buffer_pos (UndoAppendBuffer k) = None"
  "s_capacity (UndoAppendBuffer k) = s_capacity k"
  "string_ok k \<Longrightarrow> string_ok (UndoAppendBuffer k)"
  by (auto simp: UndoAppendBuffer_def string_ok_def split: option.splits)

lemma string_out_plain: "s_last_append_buffer_pos k = None \<Longrightarrow> string_out k = s_dest k"
  by (simp add: string_out_def UndoAppendBuffer_def)

lemma String_Append_External:
  assumes "good_policy policy" and "string_ok k"
  shows "\<exists>k'. String_Append policy (External bs) (length bs) k = Inr k' \<and> string_ok k'
    \<and> string_out k' = string_out k @ map Some bs"
proof -
  let ?k = "UndoAppendBuffer k"
  have "String_Append policy (External bs) (length bs) k
      = string_append policy (External bs) (length bs) ?k"
    by (simp add: String_Append_def split: option.splits)
  moreover have "string_ok ?k"
    using assms(2) by simp
  ultimately show ?thesis
    using assms(1) unfolding string_out_def [of k]
    by (auto simp: string_append_def readable_def read_ptr_def string_ok_def good_policy_def
        string_out_plain Let_def)
qed

lemma good_policy_max: "good_policy max"
  by (simp add: good_policy_def)

text \<open>One concrete policy: the capacity is what was asked for.\<close>

interpretation string_sink: byte_sink "\<lambda>s. String_Append max (External s) (length s)" string_ok string_out
  by unfold_locales (rule String_Append_External [OF good_policy_max])

section \<open>The array sinks\<close>

lemma drop_agree: "drop a xs = drop a ys \<Longrightarrow> a \<le> b \<Longrightarrow> drop b xs = drop b ys"
  by (metis drop_drop le_add_diff_inverse2)

lemma take_take_append: "take c (take c xs @ ys) = take c (xs @ ys)"
  by (simp add: min_def)

definition checked_ok :: "CheckedArrayByteSink \<Rightarrow> bool" where
  "checked_ok k \<longleftrightarrow> c_size k \<le> c_capacity k \<and> c_capacity k \<le> length (c_outbuf k)"

definition checked_out :: "CheckedArrayByteSink \<Rightarrow> storage" where
  "checked_out k = take (c_size k) (c_outbuf k)"

lemma checked_new:
  "c \<le> length a \<Longrightarrow> checked_ok (new_CheckedArrayByteSink a c)"
  "checked_out (new_CheckedArrayByteSink a c) = []"
  by (simp_all add: checked_ok_def checked_out_def new_CheckedArrayByteSink_def)

lemma Checked_Append_External:
  assumes "checked_ok k"
  shows "Checked_Append (External bs) (length bs) k =
    (let n = min (length bs) (c_capacity k - c_size k) in
     Inr (k\<lparr>c_outbuf := overlay (c_size k) (map Some (take n bs)) (c_outbuf k),
            c_size := c_size k + n,
            c_overflowed := (c_overflowed k \<or> length bs > c_capacity k - c_size k)\<rparr>))"
proof -
  let ?n = "min (length bs) (c_capacity k - c_size k)"
  have "copy_into (c_outbuf k) (c_size k) (External bs) ?n
      = Inr (overlay (c_size k) (map Some (take ?n bs)) (c_outbuf k))"
    using assms by (intro copy_into_External_take) (auto simp: checked_ok_def)
  then show ?thesis
    by (auto simp: Checked_Append_def Let_def overlay_def min_def)
qed

lemma Checked_Append_step:
  assumes "checked_ok k" and "Checked_Append (External bs) (length bs) k = Inr k'"
  shows "checked_ok k' \<and> c_size k' = min (c_capacity k) (c_size k + length bs)
    \<and> c_capacity k' = c_capacity k \<and> length (c_outbuf k') = length (c_outbuf k)
    \<and> checked_out k' = take (c_capacity k) (checked_out k @ map Some bs)
    \<and> (c_overflowed k' \<longleftrightarrow> c_overflowed k \<or> c_size k + length bs > c_capacity k)
    \<and> drop (c_size k') (c_outbuf k') = drop (c_size k') (c_outbuf k)"
proof -
  let ?n = "min (length bs) (c_capacity k - c_size k)"
  let ?bs = "map Some (take ?n bs)"
  have k': "k' = k\<lparr>c_outbuf := overlay (c_size k) ?bs (c_outbuf k), c_size := c_size k + ?n,
      c_overflowed := (c_overflowed k \<or> length bs > c_capacity k - c_size k)\<rparr>"
    using assms(2) by (simp add: Checked_Append_External [OF assms(1)] Let_def)
  have len: "length ?bs = ?n" and sz: "c_size k \<le> length (c_outbuf k)"
    using assms(1) by (auto simp: checked_ok_def)
  have out: "checked_out k' = take (c_size k) (c_outbuf k) @ ?bs"
    using take_overlay [OF sz, of ?bs] by (simp add: k' checked_out_def len)
  have "take (c_capacity k) (take (c_size k) (c_outbuf k) @ map Some bs)
      = take (c_size k) (c_outbuf k) @ ?bs"
    using assms(1) by (auto simp: checked_ok_def take_map min_def)
  then have "checked_out k' = take (c_capacity k) (checked_out k @ map Some bs)"
    using out by (simp add: checked_out_def)
  moreover have "drop (c_size k') (c_outbuf k') = drop (c_size k') (c_outbuf k)"
    using drop_overlay [OF sz, of ?bs] by (simp add: k' len)
  moreover have "length (overlay (c_size k) ?bs (c_outbuf k)) = length (c_outbuf k)"
    using assms(1) len by (intro length_overlay) (auto simp: checked_ok_def)
  ultimately show ?thesis
    using assms(1) by (auto simp: k' checked_ok_def)
qed

text \<open>A client that appends several pieces.\<close>

primrec append_all :: "(string \<Rightarrow> 'k \<Rightarrow> 'k outcome) \<Rightarrow> string list \<Rightarrow> 'k \<Rightarrow> 'k outcome" where
  "append_all app [] k = Inr k"
| "append_all app (bs # bss) k = andThen (app bs k) (append_all app bss)"

lemma Checked_append_all:
  assumes "checked_ok k"
  shows "\<exists>k'. append_all (\<lambda>s. Checked_Append (External s) (length s)) bss k = Inr k' \<and> checked_ok k'
    \<and> checked_out k' = take (c_capacity k) (checked_out k @ map Some (concat bss))
    \<and> (c_overflowed k' \<longleftrightarrow> c_overflowed k \<or> c_size k + length (concat bss) > c_capacity k)
    \<and> c_size k \<le> c_size k'
    \<and> drop (c_size k') (c_outbuf k') = drop (c_size k') (c_outbuf k)"
  using assms
proof (induction bss arbitrary: k)
  case Nil
  then show ?case by (auto simp: checked_ok_def checked_out_def)
next
  case (Cons bs bss)
  obtain k1 where k1: "Checked_Append (External bs) (length bs) k = Inr k1"
    using Checked_Append_External [OF Cons.prems] by (metis (no_types))
  note step = Checked_Append_step [OF Cons.prems k1]
  obtain k' where k': "append_all (\<lambda>s. Checked_Append (External s) (length s)) bss k1 = Inr k'"
    "checked_ok k'" "checked_out k' = take (c_capacity k1) (checked_out k1 @ map Some (concat bss))"
    "c_overflowed k' \<longleftrightarrow> c_overflowed k1 \<or> c_size k1 + length (concat bss) > c_capacity k1"
    "c_size k1 \<le> c_size k'"
    "drop (c_size k') (c_outbuf k') = drop (c_size k') (c_outbuf k1)"
    using Cons.IH [of k1] step by blast
  have "drop (c_size k1) (c_outbuf k1) = drop (c_size k1) (c_outbuf k)"
    using step by blast
  then have "drop (c_size k') (c_outbuf k') = drop (c_size k') (c_outbuf k)"
    using k'(5,6) drop_agree by metis
  moreover have "checked_out k' = take (c_capacity k) (checked_out k @ map Some (concat (bs # bss)))"
    using k'(3) step take_take_append [of "c_capacity k" "checked_out k @ map Some bs"] by simp
  moreover have "c_overflowed k' \<longleftrightarrow>
      c_overflowed k \<or> c_size k + length (concat (bs # bss)) > c_capacity k"
    using k'(4) step by auto
  moreover have "c_size k \<le> c_size k'"
    using k'(5) step Cons.prems by (auto simp: checked_ok_def)
  ultimately show ?case
    using k'(1,2) k1 by simp
qed

section \<open>Appending through a buffer\<close>

lemma Checked_through_buffer:
  assumes "checked_ok k" and "1 \<le> mn" and "mn \<le> sc" and "length bs \<le> mn"
  shows "append_through_buffer (Checked_GetAppendBuffer mn hint sc) c_outbuf_update Checked_Append bs k
    = Checked_Append (External bs) (length bs) k"
proof (cases "mn \<le> c_capacity k - c_size k")
  case True
  then show ?thesis
    using assms(2-) unfolding Checked_Append_External [OF assms(1)]
    by (simp add: append_through_buffer_def Checked_GetAppendBuffer_def Checked_Append_def Let_def)
next
  case False
  then show ?thesis
    using assms(2-) by (simp add: append_through_buffer_def Checked_GetAppendBuffer_def Let_def)
qed

lemma Unchecked_through_buffer:
  assumes "u_dest k + length bs \<le> length (u_array k)" and "1 \<le> mn" and "mn \<le> sc" and "length bs \<le> mn"
  shows "append_through_buffer (Unchecked_GetAppendBuffer mn hint sc) u_array_update Unchecked_Append bs k
    = Unchecked_Append (External bs) (length bs) k"
  using assms
  by (simp add: append_through_buffer_def Unchecked_GetAppendBuffer_def Unchecked_Append_def
      copy_into_External Let_def)

lemma Growing_GetAppendBuffer_spec:
  assumes "growing_ok k" and "1 \<le> mn" and "mn \<le> sc"
  obtains k' where
    "Growing_GetAppendBuffer mn hint sc k = Inr ((Own (g_size k'), g_capacity k' - g_size k'), k')"
    and "growing_ok k'" and "growing_out k' = growing_out k" and "mn \<le> g_capacity k' - g_size k'"
proof (cases "g_capacity k - g_size k < mn")
  case True
  let ?a = "max mn hint - (g_capacity k - g_size k)"
  obtain k' where k': "Expand ?a k = Inr k'" "growing_ok k'" "growing_out k' = growing_out k"
    "g_size k' = g_size k" "g_capacity k + ?a \<le> g_capacity k'"
    using Expand_spec [OF assms(1)] by blast
  moreover have "mn \<le> g_capacity k' - g_size k'"
    using k'(4,5) assms(1) by (auto simp: growing_ok_def)
  ultimately show ?thesis
    using that [of k'] True assms by (simp add: Growing_GetAppendBuffer_def Let_def)
next
  case False
  then show ?thesis
    using that [of k] assms by (simp add: Growing_GetAppendBuffer_def Let_def)
qed

lemma Growing_through_buffer:
  assumes "growing_ok k" and "1 \<le> mn" and "mn \<le> sc" and "length bs \<le> mn"
  shows "\<exists>k'. append_through_buffer (Growing_GetAppendBuffer mn hint sc) g_buf_update Growing_Append bs k
    = Inr k' \<and> growing_ok k' \<and> growing_out k' = growing_out k @ map Some bs"
proof -
  obtain k1 where k1:
    "Growing_GetAppendBuffer mn hint sc k = Inr ((Own (g_size k1), g_capacity k1 - g_size k1), k1)"
    "growing_ok k1" "growing_out k1 = growing_out k" "mn \<le> g_capacity k1 - g_size k1"
    using Growing_GetAppendBuffer_spec [OF assms(1-3)] .
  let ?k = "k1\<lparr>g_buf := overlay (g_size k1) (map Some bs) (g_buf k1), g_size := g_size k1 + length bs\<rparr>"
  have fits: "length bs \<le> g_capacity k1 - g_size k1"
    using assms(4) k1(4) by simp
  then have "append_through_buffer (Growing_GetAppendBuffer mn hint sc) g_buf_update Growing_Append bs k
      = Inr ?k"
    by (simp add: append_through_buffer_def k1(1) Growing_Append_def Let_def)
  moreover have "growing_ok ?k" "growing_out ?k = growing_out k @ map Some bs"
    using k1(2-) fits take_overlay [of "g_size k1" "g_buf k1" "map Some bs"]
    by (auto simp: growing_defs)
  ultimately show ?thesis by blast
qed

lemma String_through_buffer:
  assumes "good_policy policy" and "string_ok k" and "length bs \<le> mn" and "mn \<le> sc"
  shows "\<exists>k'. append_through_buffer (String_GetAppendBuffer nontrashing policy mn hint sc) s_dest_update
      (String_Append policy) bs k = Inr k' \<and> string_ok k' \<and> string_out k' = string_out k @ map Some bs"
proof (cases nontrashing)
  case False
  then show ?thesis
    using String_Append_External [OF assms(1,2), of bs] assms(3,4)
    by (simp add: append_through_buffer_def String_GetAppendBuffer_def)
next
  case True
  let ?u = "UndoAppendBuffer k"
  let ?n = "length (s_dest ?u)"
  define cap where "cap = (if ?n + max mn hint > s_capacity k
    then policy (s_capacity k) (max (?n + max mn hint) (2 * s_capacity k)) else s_capacity k)"
  have cap: "?n + length bs \<le> cap"
  proof -
    have "?n + max mn hint \<le> policy (s_capacity k) (max (?n + max mn hint) (2 * s_capacity k))"
      using assms(1) unfolding good_policy_def by (meson max.cobounded1 order_trans)
    then show ?thesis using assms(3) by (auto simp: cap_def)
  qed
  let ?k = "?u\<lparr>s_dest := s_dest ?u @ map Some bs, s_capacity := cap\<rparr>"
  have "String_GetAppendBuffer nontrashing policy mn hint sc k = Inr ((Own ?n, cap - ?n),
      ?u\<lparr>s_last_append_buffer_pos := Some ?n, s_capacity := cap,
        s_dest := s_dest ?u @ replicate (cap - ?n) None\<rparr>)"
    using True by (simp add: String_GetAppendBuffer_def Let_def cap_def)
  then have "append_through_buffer (String_GetAppendBuffer nontrashing policy mn hint sc) s_dest_update
      (String_Append policy) bs k = Inr ?k"
    using cap by (simp add: append_through_buffer_def String_Append_def overlay_def)
  moreover have "string_ok ?k" "string_out ?k = string_out k @ map Some bs"
    using cap by (auto simp: string_ok_def string_out_plain string_out_def [of k])
  ultimately show ?thesis by blast
qed

section \<open>Properties\<close>

text \<open>
  Property C30.  The default \<open>CopyTo\<close>, from any source that keeps the contract of \<open>ByteSource\<close>, in
  however many regions it shows its bytes, into any sink that keeps what it is given: it returns, the
  next \<open>n\<close> bytes, or all there are, are appended in order, and the source has advanced past exactly
  those.  Copied into a growing sink, whatever its size estimate, they are what \<open>GetBuffer\<close> hands
  out.  The override of \<open>LimitByteSource\<close> on such a source does the same, for every \<open>n\<close>: it forwards
  the call, and for an \<open>n\<close> within the limit this is a copy of the bytes the limit leaves visible,
  with the limit lowered by \<open>n\<close>.  It does not test \<open>n\<close>: past the limit, which the interface
  forbids, it copies bytes beyond it, and the limit wraps.
\<close>

theorem CopyTo_copies:
  assumes "byte_source B valid contents" and "valid s" and "byte_sink app ok out" and "ok k"
  shows "\<exists>s' k' k2 buf k3.
     ByteSource_CopyTo B app n s k = Inr (s', k') \<and> valid s' \<and> ok k'
     \<and> contents s' = drop n (contents s) \<and> out k' = out k @ map Some (take n (contents s))
     \<and> ByteSource_CopyTo B (\<lambda>s. Growing_Append (External s) (length s)) n s
         (new_GrowingArrayByteSink estimate) = Inr (s', k2)
     \<and> GetBuffer k2 = Inr ((buf, length (take n (contents s))), k3)
     \<and> take (length (take n (contents s))) buf = map Some (take n (contents s))
     \<and> Limit_CopyTo (ByteSource_CopyTo B app) n (new_LimitByteSource s limit) k
         = Inr (\<lparr>l_source = s', l_limit = size_minus limit n\<rparr>, k')
     \<and> (n \<le> limit \<longrightarrow> size_minus limit n = limit - n
         \<and> take (limit - n) (contents s') = drop n (take limit (contents s))
         \<and> out k' = out k @ map Some (take n (take limit (contents s))))"
proof -
  note copy = copy_stream.CopyTo_spec [OF copy_stream.intro, OF assms(1)]
  obtain s' k' where 1: "ByteSource_CopyTo B app n s k = Inr (s', k')" "valid s'" "ok k'"
    "contents s' = drop n (contents s)" "out k' = out k @ map Some (take n (contents s))"
    using copy [OF assms(3,2,4)] by blast
  obtain s2 k2 where 2: "ByteSource_CopyTo B (\<lambda>s. Growing_Append (External s) (length s)) n s
      (new_GrowingArrayByteSink estimate) = Inr (s2, k2)" "growing_ok k2"
      "growing_out k2 = map Some (take n (contents s))"
    using copy [OF growing_sink.byte_sink_axioms assms(2) growing_new(1)] growing_new(2) by force
  have "s2 = s'" by (rule CopyTo_source_eq [OF 2(1) 1(1)])
  moreover have "g_size k2 = length (take n (contents s))"
    using 2(2,3) by (metis growing_out_def growing_ok_def length_map length_take min.absorb2)
  ultimately show ?thesis
    using 1 2(1,3) GetBuffer_spec [OF 2(2)]
    by (fastforce simp: Limit_CopyTo_def new_LimitByteSource_def size_minus_def drop_take)
qed

theorem CopyTo_copies_witness:
  "\<exists>s' k2 buf k3.
     ByteSource_CopyTo MockByteSource (\<lambda>s. Growing_Append (External s) (length s)) 8
       \<lparr>m_data = ''Hello World'', m_block_size = 3\<rparr> (new_GrowingArrayByteSink 1) = Inr (s', k2)
     \<and> m_data s' = ''rld'' \<and> GetBuffer k2 = Inr ((buf, 8), k3) \<and> take 8 buf = map Some ''Hello Wo''"
  using CopyTo_copies [OF mock_source.byte_source_axioms _ growing_sink.byte_sink_axioms growing_new(1) [of 1],
      where s = "\<lparr>m_data = ''Hello World'', m_block_size = 3\<rparr>" and n = 8 and estimate = 1 and limit = 9]
  by (auto simp: numeral_eq_Suc)

text \<open>
  Property C31.  The bounded sink keeps to its array: any sequence of appends returns, the array then
  starts with the first \<open>capacity\<close> bytes of everything appended, \<open>NumberOfBytesWritten\<close> is how many
  they are, every later byte of the caller's memory is unchanged, and \<open>Overflowed\<close> tells exactly
  whether bytes were dropped.
\<close>

theorem CheckedArrayByteSink_bounds:
  assumes "capacity \<le> length outbuf"
  shows "\<exists>k. append_all (\<lambda>s. Checked_Append (External s) (length s)) bss
       (new_CheckedArrayByteSink outbuf capacity) = Inr k
     \<and> NumberOfBytesWritten k = min capacity (length (concat bss))
     \<and> take (NumberOfBytesWritten k) (c_outbuf k) = map Some (take capacity (concat bss))
     \<and> drop (NumberOfBytesWritten k) (c_outbuf k) = drop (NumberOfBytesWritten k) outbuf
     \<and> (Overflowed k \<longleftrightarrow> capacity < length (concat bss))"
proof -
  let ?k = "new_CheckedArrayByteSink outbuf capacity"
  have new: "c_capacity ?k = capacity" "c_size ?k = 0" "\<not> c_overflowed ?k" "c_outbuf ?k = outbuf"
    by (simp_all add: new_CheckedArrayByteSink_def)
  obtain k where k: "append_all (\<lambda>s. Checked_Append (External s) (length s)) bss ?k = Inr k"
    "checked_ok k" "checked_out k = take capacity (map Some (concat bss))"
    "c_overflowed k \<longleftrightarrow> length (concat bss) > capacity"
    "drop (c_size k) (c_outbuf k) = drop (c_size k) outbuf"
    using Checked_append_all [OF checked_new(1) [OF assms], of bss] new
    by (auto simp: checked_new(2))
  have "c_size k = length (checked_out k)"
    using k(2) by (simp add: checked_ok_def checked_out_def)
  then have "c_size k = min capacity (length (concat bss))"
    by (simp only: k(3)) simp
  then show ?thesis
    using k(1,3-5)
    by (intro exI [of _ k]) (simp add: NumberOfBytesWritten_def Overflowed_def checked_out_def take_map)
qed

theorem CheckedArrayByteSink_bounds_witness:
  "\<exists>k. append_all (\<lambda>s. Checked_Append (External s) (length s)) [''hi'', '', there'']
       (new_CheckedArrayByteSink (replicate 6 None) 4) = Inr k
     \<and> NumberOfBytesWritten k = 4 \<and> take 4 (c_outbuf k) = map Some ''hi, ''
     \<and> drop 4 (c_outbuf k) = [None, None] \<and> Overflowed k"
proof -
  have "4 \<le> length (replicate 6 (None :: char option))" by simp
  from CheckedArrayByteSink_bounds [OF this, of "[''hi'', '', there'']"] show ?thesis
    by (auto simp: numeral_eq_Suc simp del: append_all.simps)
qed

text \<open>
  \<open>GetAppendBuffer\<close> is an optimisation: when a caller asks for a buffer, writes at most
  \<open>min_capacity\<close> bytes where it points and appends that pointer, the sink ends up as if the bytes had
  been appended from the caller's own memory.  For the two array sinks the states are equal; the
  growing sink and the string sink return and hold the same bytes, whether the buffer is theirs, was
  just reallocated, or is the caller's scratch buffer.
\<close>

theorem append_buffer_equivalence:
  assumes "1 \<le> mn" and "mn \<le> sc" and "length bs \<le> mn" and "good_policy policy"
  shows "(\<forall>k. checked_ok k \<longrightarrow>
      append_through_buffer (Checked_GetAppendBuffer mn hint sc) c_outbuf_update Checked_Append bs k
      = Checked_Append (External bs) (length bs) k)
    \<and> (\<forall>k. u_dest k + length bs \<le> length (u_array k) \<longrightarrow>
      append_through_buffer (Unchecked_GetAppendBuffer mn hint sc) u_array_update Unchecked_Append bs k
      = Unchecked_Append (External bs) (length bs) k)
    \<and> (\<forall>k. growing_ok k \<longrightarrow> (\<exists>k1 k2.
      append_through_buffer (Growing_GetAppendBuffer mn hint sc) g_buf_update Growing_Append bs k = Inr k1
      \<and> Growing_Append (External bs) (length bs) k = Inr k2 \<and> growing_out k1 = growing_out k2))
    \<and> (\<forall>k. string_ok k \<longrightarrow> (\<exists>k1 k2.
      append_through_buffer (String_GetAppendBuffer nontrashing policy mn hint sc) s_dest_update
        (String_Append policy) bs k = Inr k1
      \<and> String_Append policy (External bs) (length bs) k = Inr k2 \<and> string_out k1 = string_out k2))"
proof (intro conjI allI impI)
  fix k
  show "append_through_buffer (Checked_GetAppendBuffer mn hint sc) c_outbuf_update Checked_Append bs k
      = Checked_Append (External bs) (length bs) k" if "checked_ok k"
    using Checked_through_buffer [OF that assms(1-3)] .
next
  fix k
  show "append_through_buffer (Unchecked_GetAppendBuffer mn hint sc) u_array_update Unchecked_Append bs k
      = Unchecked_Append (External bs) (length bs) k" if "u_dest k + length bs \<le> length (u_array k)"
    using Unchecked_through_buffer [OF that assms(1-3)] .
next
  fix k
  assume k: "growing_ok k"
  show "\<exists>k1 k2.
      append_through_buffer (Growing_GetAppendBuffer mn hint sc) g_buf_update Growing_Append bs k = Inr k1
      \<and> Growing_Append (External bs) (length bs) k = Inr k2 \<and> growing_out k1 = growing_out k2"
    using Growing_through_buffer [OF k assms(1-3), of hint] Growing_Append_External [OF k, of bs] by auto
next
  fix k
  assume k: "string_ok k"
  show "\<exists>k1 k2. append_through_buffer (String_GetAppendBuffer nontrashing policy mn hint sc) s_dest_update
        (String_Append policy) bs k = Inr k1
      \<and> String_Append policy (External bs) (length bs) k = Inr k2 \<and> string_out k1 = string_out k2"
    using String_through_buffer [OF assms(4) k assms(3,2), of nontrashing hint]
      String_Append_External [OF assms(4) k, of bs] by auto
qed

theorem append_buffer_equivalence_witness:
  "\<exists>k1 k2. append_through_buffer (String_GetAppendBuffer True max 8 0 8) s_dest_update
        (String_Append max) ''World'' (new_StringByteSink (map Some ''Hello '') 6) = Inr k1
      \<and> String_Append max (External ''World'') (length ''World'') (new_StringByteSink (map Some ''Hello '') 6) = Inr k2
      \<and> string_out k1 = string_out k2"
proof -
  have "string_ok (new_StringByteSink (map Some ''Hello '') 6)"
    by (simp add: string_ok_def new_StringByteSink_def)
  moreover have "length ''World'' \<le> (8::nat)" by simp
  ultimately show ?thesis
    using append_buffer_equivalence [of 8 8 "''World''" max 0 True] good_policy_max by auto
qed

end
