(* ===== verification/Csv_Proofs.thy ===== *)
theory Csv_Proofs
  imports Csv Bytestream_Proofs
begin

text \<open>
  What the CSV parser computes, independently of how its source is cut into pieces: the file is
  first normalised (every newline form becomes one character), then cut into records by a state
  machine over the whole text.  The parser refines this on every source that keeps the contract of
  \<open>ByteSource\<close>, and it undoes the writer.
\<close>

declare skip_error_line.simps [simp del] Advance_loop.simps [simp del] for_each_record.simps [simp del]

section \<open>The specification\<close>

fun strip_lf :: "string \<Rightarrow> string" where
  "strip_lf (c # cs) = (if c = newline then cs else c # cs)"
| "strip_lf [] = []"

lemma length_strip_lf: "length (strip_lf s) \<le> length s"
  by (cases s) auto

function collapse :: "string \<Rightarrow> string" where
  "collapse [] = []"
| "collapse (c # cs) =
    (if c = carriage_return then newline # collapse (strip_lf cs) else c # collapse cs)"
  by pat_completeness auto
termination
  by (relation "measure length") (auto simp: less_Suc_eq_le length_strip_lf)

lemma collapse_eq_Nil: "collapse s = [] \<longleftrightarrow> s = []"
  by (cases s) auto

text \<open>One character: the new state, the new field, and the fields completed by it.\<close>

definition machine ::
  "char \<Rightarrow> Mode \<Rightarrow> ParseState \<Rightarrow> char \<Rightarrow> string \<Rightarrow> ParseState \<times> string \<times> string list" where
  "machine d m st c f =
    (if st = IN_QUOTED_FIELD then
       (if c = quote_char then (QUOTED_QUOTE, f, [])
        else if c = backslash \<and> m = MYSQL_ESCAPING then (QUOTED_BACKSLASH_ESCAPE, f, [])
        else (IN_QUOTED_FIELD, f @ [c], []))
     else if st = QUOTED_BACKSLASH_ESCAPE then (IN_QUOTED_FIELD, f @ [c], [])
     else if st = QUOTED_QUOTE \<and> c = quote_char \<and> m \<noteq> MYSQL_ESCAPING
     then (IN_QUOTED_FIELD, f @ [c], [])
     else if st \<noteq> QUOTED_QUOTE \<and> c = quote_char \<and> m \<noteq> LITERAL_QUOTES
     then (IN_QUOTED_FIELD, f, [])
     else if c = d then (FIELD_START, [], [f])
     else if c = newline then (END_OF_RECORD, f, [f])
     else (IN_FIELD, f @ [c], []))"

fun scan_record ::
  "char \<Rightarrow> Mode \<Rightarrow> ParseState \<Rightarrow> string \<Rightarrow> string list \<Rightarrow> string \<Rightarrow> (string list \<times> string) option" where
  "scan_record d m st f fs [] = (if f \<noteq> [] \<or> fs \<noteq> [] then Some (fs @ [f], []) else None)"
| "scan_record d m st f fs (c # cs) =
    (case machine d m st c f of (st', f', done_fields) \<Rightarrow>
       if st' = END_OF_RECORD then Some (fs @ done_fields, cs)
       else scan_record d m st' f' (fs @ done_fields) cs)"

lemma scan_record_length:
  "scan_record d m st f fs s = Some (gs, rest) \<Longrightarrow> s \<noteq> [] \<Longrightarrow> length rest < length s"
proof (induction d m st f fs s rule: scan_record.induct)
  case (2 d m st f fs c cs)
  then show ?case
    by (cases cs) (force split: prod.splits if_splits)+
qed simp

lemma scan_record_None: "scan_record d m st f fs s = None \<Longrightarrow> fs = []"
  by (induction d m st f fs s rule: scan_record.induct) (auto split: prod.splits if_splits)

function csv_records :: "char \<Rightarrow> Mode \<Rightarrow> string \<Rightarrow> string list list" where
  "csv_records d m s =
    (if s = [] then []
     else (case scan_record d m FIELD_START [] [] s of
         None \<Rightarrow> []
       | Some (fs, rest) \<Rightarrow> fs # csv_records d m rest))"
  by pat_completeness auto
termination
  by (relation "measure (\<lambda>(d, m, s). length s)") (auto dest: scan_record_length)

declare csv_records.simps [simp del]

primrec number_records :: "int \<Rightarrow> string list list \<Rightarrow> Record list" where
  "number_records n [] = []"
| "number_records n (fs # fss) =
    \<lparr>r_status = OkStatus, r_number = n, r_fields = fs\<rparr> # number_records (n + 1) fss"

section \<open>The parser over any source\<close>

definition add_fields :: "string list \<Rightarrow> 's Parser \<Rightarrow> 's Parser" where
  "add_fields fs p = p\<lparr>p_record := (p_record p)\<lparr>r_fields := r_fields (p_record p) @ fs\<rparr>\<rparr>"

lemma switch_state_machine:
  assumes "st \<noteq> ERROR" and "st \<noteq> END_OF_RECORD"
  shows "switch_state st c f p = (case machine (p_delim p) (p_mode p) st c f of
    (st', f', done_fields) \<Rightarrow> (st', f', add_fields done_fields p))"
  using assms by (cases st) (auto simp: switch_state_def machine_def push_field_def add_fields_def)

lemma machine_not_error: "machine d m st c f = (st', f', gs) \<Longrightarrow> st' \<noteq> ERROR"
  by (auto simp: machine_def split: if_splits)

text \<open>What reading does not touch: everything but the source, the view and its size.\<close>

definition frame :: "'s Parser \<Rightarrow> Record \<times> bool \<times> char \<times> Mode \<times> int \<times> bool" where
  "frame p = (p_record p, p_has_more_data p, p_delim p, p_mode p, p_record_count p, p_begin_is_end p)"

context byte_source
begin

definition remaining :: "'s Parser \<Rightarrow> string" where
  "remaining p = drop (p_orig_str_size p - length (p_current_str p)) (contents (p_source p))"

definition reading :: "'s Parser \<Rightarrow> bool" where
  "reading p \<longleftrightarrow> valid (p_source p) \<and> length (p_current_str p) \<le> p_orig_str_size p
    \<and> p_orig_str_size p \<le> length (contents (p_source p))
    \<and> p_current_str p = take (length (p_current_str p)) (remaining p)"

lemma at_eof_spec:
  assumes "reading p" and "at_eof B p = (p', eof)"
  shows "reading p' \<and> remaining p' = remaining p \<and> frame p' = frame p \<and> (eof \<longleftrightarrow> remaining p = [])
    \<and> (\<not> eof \<longrightarrow> p_current_str p' \<noteq> [])"
proof (cases "p_current_str p = []")
  case False
  then show ?thesis
    using assms by (auto simp: at_eof_def reading_def)
next
  case True
  let ?s = "Skip B (p_orig_str_size p) (p_source p)"
  have rem: "remaining p = drop (p_orig_str_size p) (contents (p_source p))"
    using True by (simp add: remaining_def)
  have s: "valid ?s" "contents ?s = remaining p"
    using skip [of "p_source p" "p_orig_str_size p"] assms(1) by (auto simp: reading_def rem)
  note laws = available [OF s(1)] peek [OF s(1)] peek_empty [OF s(1)] peek_length [OF s(1)]
  show ?thesis
  proof (cases "remaining p = []")
    case eof: True
    then show ?thesis
      using assms(2) True s laws
      by (auto simp: at_eof_def PopulateCurrentString_def Let_def reading_def frame_def remaining_def)
  next
    case False
    then have "p' = p\<lparr>p_source := ?s, p_current_str := Peek B ?s, p_orig_str_size := length (Peek B ?s)\<rparr>"
        "\<not> eof"
      using assms(2) True s laws
      by (auto simp: at_eof_def PopulateCurrentString_def Let_def)
    then show ?thesis
      using False s laws by (simp add: reading_def frame_def remaining_def)
  qed
qed

lemma take_char:
  assumes "reading p" and "p_current_str p = c # cs"
  shows "reading (p\<lparr>p_current_str := cs\<rparr>) \<and> remaining p = c # remaining (p\<lparr>p_current_str := cs\<rparr>)"
proof -
  let ?n = "p_orig_str_size p" and ?t = "contents (p_source p)"
  have n: "Suc (length cs) \<le> ?n" "?n \<le> length ?t" and cs: "c # cs = take (Suc (length cs)) (remaining p)"
    using assms by (auto simp: reading_def)
  have rem: "remaining p = drop (?n - Suc (length cs)) ?t"
    using assms(2) by (simp add: remaining_def)
  have "remaining (p\<lparr>p_current_str := cs\<rparr>) = drop (Suc (?n - Suc (length cs))) ?t"
    using n by (simp add: remaining_def Suc_diff_Suc)
  also have "\<dots> = tl (remaining p)"
    by (simp add: rem drop_Suc tl_drop)
  finally have tl: "remaining (p\<lparr>p_current_str := cs\<rparr>) = tl (remaining p)" .
  moreover obtain r where r: "remaining p = c # r"
    using cs by (cases "remaining p") auto
  ultimately show ?thesis
    using assms(1) n cs by (auto simp: reading_def)
qed

lemma frame_current_str [simp]: "frame (p\<lparr>p_current_str := s\<rparr>) = frame p"
  by (simp add: frame_def)

lemma collapse_crlf_spec:
  assumes "reading p"
  obtains p' c' where "collapse_crlf B c p = Some (p', c')" and "reading p'" and "frame p' = frame p"
    and "collapse (c # remaining p) = c' # collapse (remaining p')"
proof (cases "c = carriage_return")
  case False
  then show ?thesis
    using that [of p c] assms by (simp add: collapse_crlf_def)
next
  case True
  obtain p1 eof where p1: "at_eof B p = (p1, eof)" by fastforce
  note spec = at_eof_spec [OF assms p1]
  show ?thesis
  proof (cases "p_current_str p1")
    case Nil
    then show ?thesis
      using that [of p1 newline] spec p1 True by (auto simp: collapse_crlf_def)
  next
    case (Cons d ds)
    have "\<not> eof"
      using spec Cons by (auto simp: reading_def)
    then show ?thesis
      using that [of "if d = newline then p1\<lparr>p_current_str := ds\<rparr> else p1" newline]
        spec p1 True Cons take_char [of p1 d ds]
      by (auto simp: collapse_crlf_def)
  qed
qed

lemma reading_add_fields [simp]:
  "reading (add_fields fs p) = reading p" "remaining (add_fields fs p) = remaining p"
  by (simp_all add: reading_def remaining_def add_fields_def)

text \<open>One turn of the loop of \<open>Advance\<close>.\<close>

lemma Advance_loop_end:
  assumes "reading p" and "st \<noteq> ERROR" and "st \<noteq> END_OF_RECORD" and "remaining p = []"
  obtains p' where "Advance_loop B st f p = Some (finish_at_eof f p')" and "reading p'"
    and "remaining p' = []" and "frame p' = frame p"
proof -
  obtain p' eof where p': "at_eof B p = (p', eof)" by fastforce
  show ?thesis
    using that [of p'] at_eof_spec [OF assms(1) p'] p' assms
    by (simp add: Advance_loop.simps [of B st f p])
qed

lemma Advance_loop_char:
  assumes "reading p" and "st \<noteq> ERROR" and "st \<noteq> END_OF_RECORD" and "remaining p \<noteq> []"
    and "machine (p_delim p) (p_mode p) st c' f = (st', f', gs)"
    and "collapse (remaining p) = c' # rest"
  obtains p' where "Advance_loop B st f p = Advance_loop B st' f' (add_fields gs p')" and "reading p'"
    and "collapse (remaining p') = rest" and "frame p' = frame p"
proof -
  obtain p1 eof where p1: "at_eof B p = (p1, eof)" by fastforce
  have 1: "reading p1" "remaining p1 = remaining p" "frame p1 = frame p" "\<not> eof" "p_current_str p1 \<noteq> []"
    using at_eof_spec [OF assms(1) p1] assms(4) by auto
  then obtain c cs where cs: "p_current_str p1 = c # cs"
    by (cases "p_current_str p1") auto
  let ?p = "p1\<lparr>p_current_str := cs\<rparr>"
  have 2: "reading ?p" "remaining p = c # remaining ?p" "frame ?p = frame p"
    using take_char [OF 1(1) cs] 1(2,3) by auto
  obtain p2 c2 where p2: "collapse_crlf B c ?p = Some (p2, c2)" "reading p2" "frame p2 = frame ?p"
    "collapse (c # remaining ?p) = c2 # collapse (remaining p2)"
    using collapse_crlf_spec [OF 2(1)] .
  have c2: "c2 = c'" "collapse (remaining p2) = rest"
    using p2(4) assms(6) 2(2) by simp_all
  have fr: "frame p2 = frame p"
    using p2(3) 2(3) by simp
  then have "p_delim p2 = p_delim p" "p_mode p2 = p_mode p"
    by (simp_all add: frame_def)
  then have "switch_state st c' f p2 = (st', f', add_fields gs p2)"
    using assms(5) by (simp add: switch_state_machine [OF assms(2,3)])
  then have "Advance_loop B st f p = Advance_loop B st' f' (add_fields gs p2)"
    using assms(2,3) p1 1(4) cs p2(1) c2(1) machine_not_error [OF assms(5)]
    by (simp add: Advance_loop.simps [of B st f p])
  then show ?thesis
    using that [of p2] p2(2) c2(2) fr by simp
qed

text \<open>
  The loop of \<open>Advance\<close> returns, and leaves the record that the specification scans from the
  normalised rest of the text.
\<close>

definition scanned :: "'s Parser \<Rightarrow> (string list \<times> string) option \<Rightarrow> 's Parser \<Rightarrow> bool" where
  "scanned p res p' \<longleftrightarrow> reading p' \<and> p_delim p' = p_delim p \<and> p_mode p' = p_mode p
    \<and> p_record_count p' = p_record_count p \<and> p_begin_is_end p' = p_begin_is_end p
    \<and> (case res of
         None \<Rightarrow> p_record p' = p_record p \<and> \<not> p_has_more_data p' \<and> remaining p' = []
       | Some (fs, rest) \<Rightarrow> p_record p' = (p_record p)\<lparr>r_fields := fs\<rparr>
           \<and> p_has_more_data p' = p_has_more_data p \<and> collapse (remaining p') = rest)"

lemma Advance_loop_spec:
  assumes "reading p" and "st \<noteq> ERROR" and "st \<noteq> END_OF_RECORD" and "collapse (remaining p) = s"
  shows "\<exists>p'. Advance_loop B st f p = Some p'
    \<and> scanned p (scan_record (p_delim p) (p_mode p) st f (r_fields (p_record p)) s) p'"
  using assms
proof (induction s arbitrary: p st f)
  case Nil
  have rem: "remaining p = []"
    using Nil.prems(4) by (simp add: collapse_eq_Nil)
  obtain p' where p': "Advance_loop B st f p = Some (finish_at_eof f p')" "reading p'"
    "remaining p' = []" "frame p' = frame p"
    using Advance_loop_end [OF Nil.prems(1-3) rem] .
  then show ?case
    by (auto simp: scanned_def finish_at_eof_def push_field_def frame_def reading_def remaining_def Let_def)
next
  case (Cons c' rest)
  obtain st' f' gs where mach: "machine (p_delim p) (p_mode p) st c' f = (st', f', gs)"
    using prod_cases3 by blast
  have "remaining p \<noteq> []"
    using Cons.prems(4) by auto
  then obtain p' where p': "Advance_loop B st f p = Advance_loop B st' f' (add_fields gs p')" "reading p'"
    "collapse (remaining p') = rest" "frame p' = frame p"
    using Advance_loop_char [OF Cons.prems(1-3) _ mach Cons.prems(4)] by blast
  let ?p = "add_fields gs p'"
  have fr: "p_delim ?p = p_delim p" "p_mode ?p = p_mode p" "p_record_count ?p = p_record_count p"
    "p_begin_is_end ?p = p_begin_is_end p" "p_has_more_data ?p = p_has_more_data p"
    "p_record ?p = (p_record p)\<lparr>r_fields := r_fields (p_record p) @ gs\<rparr>"
    using p'(4) by (simp_all add: frame_def add_fields_def)
  show ?case
  proof (cases "st' = END_OF_RECORD")
    case True
    then show ?thesis
      using mach p' fr by (simp add: Advance_loop.simps [of B END_OF_RECORD] scanned_def)
  next
    case False
    obtain p2 where "Advance_loop B st' f' ?p = Some p2"
      "scanned ?p (scan_record (p_delim ?p) (p_mode ?p) st' f' (r_fields (p_record ?p)) rest) p2"
      using Cons.IH [of ?p st' f'] p' machine_not_error [OF mach] False by auto
    moreover have "gs = []"
      if "scan_record (p_delim p) (p_mode p) st' f' (r_fields (p_record p) @ gs) rest = None"
      using scan_record_None [OF that] by simp
    ultimately show ?thesis
      using mach False p'(1) fr by (auto simp: scanned_def split: option.splits)
  qed
qed

lemma Advance_spec:
  assumes "reading p"
  shows "\<exists>p'. Advance B p = Some p' \<and>
    scanned (p\<lparr>p_record := new_Record (p_record_count p), p_record_count := p_record_count p + 1\<rparr>)
      (scan_record (p_delim p) (p_mode p) FIELD_START [] [] (collapse (remaining p))) p'"
proof -
  let ?p = "p\<lparr>p_record := new_Record (p_record_count p), p_record_count := p_record_count p + 1\<rparr>"
  have "reading ?p" "remaining ?p = remaining p"
    using assms by (simp_all add: reading_def remaining_def)
  then show ?thesis
    using Advance_loop_spec [of ?p FIELD_START "collapse (remaining p)" "[]"]
    by (simp add: Advance_def new_Record_def)
qed

lemma for_each_record_spec:
  assumes "reading p" and "p_has_more_data p" and "collapse (remaining p) = s"
  shows "for_each_record B p False =
    Some (p_record p # number_records (p_record_count p) (csv_records (p_delim p) (p_mode p) s))"
  using assms
proof (induction "length s" arbitrary: s p rule: less_induct)
  case less
  let ?q = "p\<lparr>p_record := new_Record (p_record_count p), p_record_count := p_record_count p + 1\<rparr>"
  let ?scan = "scan_record (p_delim p) (p_mode p) FIELD_START [] [] s"
  obtain p' where p': "Advance B p = Some p'" "scanned ?q ?scan p'"
    using Advance_spec [OF less.prems(1)] unfolding less.prems(3) by blast
  have unfold: "for_each_record B p False =
    Option.bind (for_each_record B p' (\<not> p_has_more_data p')) (\<lambda>rs. Some (p_record p # rs))"
    using less.prems(2) p'(1)
    by (simp add: for_each_record.simps [of B p] Iterator_equal_def Iterator_increment_def)
  show ?case
  proof (cases ?scan)
    case None
    then have "\<not> p_has_more_data p'" "csv_records (p_delim p) (p_mode p) s = []"
      using p'(2) by (auto simp: scanned_def csv_records.simps [of _ _ s])
    then show ?thesis
      by (simp add: unfold for_each_record.simps [of B p'] Iterator_equal_def)
  next
    case (Some a)
    obtain fs rest where a: "a = (fs, rest)" by fastforce
    have "s \<noteq> []" using Some by auto
    then have "length rest < length s"
      using scan_record_length Some a by blast
    moreover have sc: "reading p'" "p_has_more_data p'" "collapse (remaining p') = rest"
      "p_delim p' = p_delim p" "p_mode p' = p_mode p" "p_record_count p' = p_record_count p + 1"
      "p_record p' = \<lparr>r_status = OkStatus, r_number = p_record_count p, r_fields = fs\<rparr>"
      using p'(2) less.prems(2) by (auto simp: scanned_def Some a new_Record_def)
    moreover have "csv_records (p_delim p) (p_mode p) s = fs # csv_records (p_delim p) (p_mode p) rest"
      using Some a \<open>s \<noteq> []\<close> by (simp add: csv_records.simps [of _ _ s])
    ultimately show ?thesis
      using less.hyps [of rest p'] by (simp add: unfold)
  qed
qed

lemma new_Parser_spec:
  assumes "valid s"
  obtains p where "new_Parser B s d m = Some p" and "p_begin_is_end p \<longleftrightarrow> contents s = []"
    and "p_delim p = d" and "p_mode p = m" and "p_record_count p = 1" and "reading p"
    and "case scan_record d m FIELD_START [] [] (collapse (contents s)) of
      None \<Rightarrow> p_record p = new_Record 0 \<and> \<not> p_has_more_data p
    | Some (fs, rest) \<Rightarrow> p_record p = (new_Record 0)\<lparr>r_fields := fs\<rparr> \<and> p_has_more_data p
        \<and> collapse (remaining p) = rest"
proof -
  let ?p = "\<lparr>p_source = s, p_orig_str_size = 0, p_current_str = [], p_record = new_Record 0,
       p_has_more_data = True, p_delim = d, p_mode = m, p_record_count = 0,
       p_begin_is_end = (Available B s = 0)\<rparr>"
  have "reading ?p" "remaining ?p = contents s"
    using assms by (simp_all add: reading_def remaining_def)
  then obtain p where "Advance B ?p = Some p"
    "scanned (?p\<lparr>p_record_count := 1\<rparr>) (scan_record d m FIELD_START [] [] (collapse (contents s))) p"
    using Advance_spec [of ?p] by auto
  then show ?thesis
    using that [of p] available [OF assms]
    by (auto simp: new_Parser_def scanned_def split: option.splits)
qed

text \<open>The parser refines the specification.\<close>

lemma parse_all_spec:
  assumes "valid s"
  shows "parse_all B s d m = Some (number_records 0 (csv_records d m (collapse (contents s))))"
proof -
  obtain p where p: "new_Parser B s d m = Some p" "p_begin_is_end p \<longleftrightarrow> contents s = []"
    "p_delim p = d" "p_mode p = m" "p_record_count p = 1" "reading p"
    "case scan_record d m FIELD_START [] [] (collapse (contents s)) of
      None \<Rightarrow> p_record p = new_Record 0 \<and> \<not> p_has_more_data p
    | Some (fs, rest) \<Rightarrow> p_record p = (new_Record 0)\<lparr>r_fields := fs\<rparr> \<and> p_has_more_data p
        \<and> collapse (remaining p) = rest"
    using new_Parser_spec [OF assms] .
  show ?thesis
  proof (cases "contents s = []")
    case True
    then show ?thesis
      using p by (simp add: parse_all_def for_each_record.simps [of B p] Iterator_equal_def
          csv_records.simps [of d m "[]"])
  next
    case False
    then have unfold: "parse_all B s d m = for_each_record B p False"
      using p(1,2) by (simp add: parse_all_def)
    have ne: "collapse (contents s) \<noteq> []"
      using False by (simp add: collapse_eq_Nil)
    show ?thesis
    proof (cases "scan_record d m FIELD_START [] [] (collapse (contents s))")
      case None
      then show ?thesis
        using p(7) ne unfolding unfold
        by (simp add: for_each_record.simps [of B p] Iterator_equal_def csv_records.simps)
    next
      case (Some a)
      then show ?thesis
        using p(3-) ne unfolding unfold
        by (auto simp: for_each_record_spec csv_records.simps [of d m "collapse (contents s)"] new_Record_def)
    qed
  qed
qed

end

section \<open>The text the writer produces\<close>

primrec each_after :: "'a list \<Rightarrow> 'a list list \<Rightarrow> 'a list" where
  "each_after sep [] = []"
| "each_after sep (p # ps) = sep @ p @ each_after sep ps"

fun intercalate :: "'a list \<Rightarrow> 'a list list \<Rightarrow> 'a list" where
  "intercalate sep [] = []"
| "intercalate sep (p # ps) = p @ each_after sep ps"

text \<open>
  What is documented of \<open>absl::StrSplit\<close> at a character: at least one piece, none of them containing
  the character, and joining them with it gives the text back.
\<close>

definition good_split :: "(char \<Rightarrow> string \<Rightarrow> string list) \<Rightarrow> bool" where
  "good_split split \<longleftrightarrow> (\<forall>c s. split c s \<noteq> [] \<and> (\<forall>p \<in> set (split c s). c \<notin> set p)
    \<and> intercalate [c] (split c s) = s)"

primrec escape :: "string \<Rightarrow> string" where
  "escape [] = []"
| "escape (c # cs) = (if c = quote_char then [quote_char, quote_char] else [c]) @ escape cs"

definition special :: "char \<Rightarrow> char set" where
  "special d = {d, quote_char, newline, carriage_return}"

definition format_field :: "char \<Rightarrow> string \<Rightarrow> string" where
  "format_field d f =
    (if set f \<inter> special d \<noteq> {} then quote_char # escape f @ [quote_char] else f)"

definition format_fields :: "char \<Rightarrow> string list \<Rightarrow> string" where
  "format_fields d fs = intercalate [d] (map (format_field d) fs)"

lemma escape_append [simp]: "escape (s @ t) = escape s @ escape t"
  by (induction s) auto

lemma escape_id: "quote_char \<notin> set s \<Longrightarrow> escape s = s"
  by (induction s) auto

lemma escape_intercalate:
  assumes "\<forall>p \<in> set ps. quote_char \<notin> set p"
  shows "intercalate [quote_char, quote_char] ps = escape (intercalate [quote_char] ps)"
proof (cases ps)
  case (Cons p qs)
  have "each_after [quote_char, quote_char] qs = escape (each_after [quote_char] qs)"
    if "\<forall>p \<in> set qs. quote_char \<notin> set p" for qs
    using that by (induction qs) (auto simp: escape_id)
  then show ?thesis
    using Cons assms by (simp add: escape_id)
qed simp

text \<open>A client that writes several records in a row.\<close>

fun write_records :: "'k ByteSink \<Rightarrow> 'r list \<Rightarrow> ('r, 'k) Writer \<Rightarrow> ('r, 'k) Writer outcome" where
  "write_records S [] w = Inr w"
| "write_records S (r # rs) w = andThen (WriteRecord S r w) (\<lambda>(st, w). write_records S rs w)"

locale flush_sink = byte_sink "Sink_Append S" ok out
  for S :: "'k ByteSink" and ok and out +
  assumes flush: "ok k \<Longrightarrow> ok (Sink_Flush S k) \<and> out (Sink_Flush S k) = out k"
begin

lemma append_pieces_spec:
  assumes "ok k"
  shows "\<exists>k'. append_pieces S qq ps k = Inr k' \<and> ok k' \<and> out k' = out k @
    map Some (case ps of [] \<Rightarrow> [] | p # ps \<Rightarrow> qq @ p @ each_after [quote_char, quote_char] ps)"
  using assms
proof (induction ps arbitrary: k qq)
  case (Cons p ps)
  obtain k1 where k1: "Sink_Append S qq k = Inr k1" "ok k1" "out k1 = out k @ map Some qq"
    using app_cases [OF Cons.prems] .
  obtain k2 where k2: "Sink_Append S p k1 = Inr k2" "ok k2" "out k2 = out k1 @ map Some p"
    using app_cases [OF k1(2)] .
  show ?case
    using Cons.IH [OF k2(2), of "[quote_char, quote_char]"] k1 k2 by (cases ps) auto
qed simp

lemma append_if:
  assumes "ok k"
  obtains k' where "(if b then Sink_Append S s k else Inr k) = Inr k'" and "ok k'"
    and "out k' = out k @ (if b then map Some s else [])"
  using assms app_cases [OF assms, of s] by (cases b) auto

lemma StandardFieldFormatter_spec:
  assumes "ok k" and "good_split split"
  shows "\<exists>k'. StandardFieldFormatter split S d f k = Inr k' \<and> ok k'
    \<and> out k' = out k @ map Some (format_field d f)"
proof -
  let ?b = "list_ex (\<lambda>c. c \<in> set [d, quote_char, newline, carriage_return]) f"
  let ?q = "if ?b then [Some quote_char] else []"
  have b: "?b \<longleftrightarrow> set f \<inter> special d \<noteq> {}"
    by (auto simp: list_ex_iff special_def)
  obtain k1 where k1: "(if ?b then Sink_Append S [quote_char] k else Inr k) = Inr k1" "ok k1"
    "out k1 = out k @ (if ?b then map Some [quote_char] else [])"
    using append_if [OF assms(1)] .
  have sp: "split quote_char f \<noteq> []" "\<forall>p \<in> set (split quote_char f). quote_char \<notin> set p"
    "intercalate [quote_char] (split quote_char f) = f"
    using assms(2) by (auto simp: good_split_def)
  then have pieces: "(case split quote_char f of [] \<Rightarrow> [] | p # ps \<Rightarrow>
      [] @ p @ each_after [quote_char, quote_char] ps) = escape f"
    using escape_intercalate [OF sp(2)] by (cases "split quote_char f") simp_all
  obtain k2 where k2: "append_pieces S [] (split quote_char f) k1 = Inr k2" "ok k2"
    "out k2 = out k1 @ map Some (escape f)"
    using append_pieces_spec [OF k1(2), of "[]" "split quote_char f"] unfolding pieces by blast
  obtain k3 where k3: "(if ?b then Sink_Append S [quote_char] k2 else Inr k2) = Inr k3" "ok k3"
    "out k3 = out k2 @ (if ?b then map Some [quote_char] else [])"
    using append_if [OF k2(2)] .
  have "StandardFieldFormatter split S d f k = Inr k3"
    unfolding StandardFieldFormatter_def Let_def k1(1) andThen_simps k2(1) k3(1) ..
  moreover have "out k3 = out k @ map Some (format_field d f)"
    using k1(3) k2(3) k3(3) b
    by (auto simp: format_field_def special_def escape_id)
  ultimately show ?thesis using k3(2) by blast
qed

lemma write_fields_spec:
  assumes "ok k" and "good_split split"
  shows "\<exists>k'. write_fields S d (StandardFieldFormatter split S d) i fs k = Inr k' \<and> ok k'
    \<and> out k' = out k @ map Some (if i = 0 then format_fields d fs
        else each_after [d] (map (format_field d) fs))"
  using assms(1)
proof (induction fs arbitrary: k i)
  case Nil
  then show ?case by (simp add: format_fields_def)
next
  case (Cons f fs)
  obtain k1 where k1: "(if i \<noteq> 0 then Sink_Append S [d] k else Inr k) = Inr k1" "ok k1"
    "out k1 = out k @ (if i \<noteq> 0 then map Some [d] else [])"
    using append_if [OF Cons.prems] .
  obtain k2 where k2: "StandardFieldFormatter split S d f k1 = Inr k2" "ok k2"
    "out k2 = out k1 @ map Some (format_field d f)"
    using StandardFieldFormatter_spec [OF k1(2) assms(2)] by blast
  obtain k3 where "write_fields S d (StandardFieldFormatter split S d) (i + 1) fs k2 = Inr k3" "ok k3"
    "out k3 = out k2 @ map Some (each_after [d] (map (format_field d) fs))"
    using Cons.IH [OF k2(2), of "i + 1"] by auto
  then show ?case
    using k1 k2 by (auto simp: format_fields_def comp_def)
qed

text \<open>A writer built by the library's constructors, in whatever state the calls have brought it.\<close>

definition standard_writer ::
  "(char \<Rightarrow> string \<Rightarrow> string list) \<Rightarrow> char \<Rightarrow> ('r, 'k) Writer \<Rightarrow> bool" where
  "standard_writer split d w \<longleftrightarrow> ok (w_sink w) \<and> w_field_delimiter w = d
    \<and> w_field_formatter w = StandardFieldFormatter split S d"

lemma WriteRecord_spec:
  assumes "standard_writer split d w" and "good_split split" and "length (w_order w r) = w_num_fields w"
  shows "\<exists>k. WriteRecord S r w = Inr (OkStatus, w\<lparr>w_sink := k, w_status := OkStatus\<rparr>) \<and> ok k
    \<and> out k = out (w_sink w) @ map Some (format_fields d (w_order w r) @ w_record_delimiter w)"
proof -
  have w: "ok (w_sink w)" "w_field_delimiter w = d" "w_field_formatter w = StandardFieldFormatter split S d"
    using assms(1) by (auto simp: standard_writer_def)
  obtain k1 where k1: "write_fields S d (StandardFieldFormatter split S d) 0 (w_order w r) (w_sink w) = Inr k1"
    "ok k1" "out k1 = out (w_sink w) @ map Some (format_fields d (w_order w r))"
    using write_fields_spec [OF w(1) assms(2), of d 0 "w_order w r"] by auto
  obtain k2 where k2: "Sink_Append S (w_record_delimiter w) k1 = Inr k2" "ok k2"
    "out k2 = out k1 @ map Some (w_record_delimiter w)"
    using app_cases [OF k1(2)] .
  show ?thesis
    using w(2,3) k1 k2 assms(3) flush [OF k2(2)]
    by (intro exI [of _ "if w_auto_flush w then Sink_Flush S k2 else k2"])
      (simp add: WriteRecord_def Let_def)
qed

lemma write_records_spec:
  assumes "standard_writer split d w" and "good_split split"
    and "\<forall>r \<in> set rs. length (w_order w r) = w_num_fields w"
  shows "\<exists>k. write_records S rs w = Inr (w\<lparr>w_sink := k, w_status := if rs = [] then w_status w else OkStatus\<rparr>)
    \<and> ok k \<and> out k = out (w_sink w)
        @ map Some (concat (map (\<lambda>r. format_fields d (w_order w r) @ w_record_delimiter w) rs))"
  using assms(1,3)
proof (induction rs arbitrary: w)
  case Nil
  then show ?case by (auto simp: standard_writer_def intro: exI [of _ "w_sink w"])
next
  case (Cons r rs)
  obtain k where k: "WriteRecord S r w = Inr (OkStatus, w\<lparr>w_sink := k, w_status := OkStatus\<rparr>)" "ok k"
    "out k = out (w_sink w) @ map Some (format_fields d (w_order w r) @ w_record_delimiter w)"
    using WriteRecord_spec [OF Cons.prems(1) assms(2), of r] Cons.prems(2) by auto
  let ?w = "w\<lparr>w_sink := k, w_status := OkStatus\<rparr>"
  have "standard_writer split d ?w" "\<forall>r \<in> set rs. length (w_order ?w r) = w_num_fields ?w"
    using Cons.prems k(2) by (auto simp: standard_writer_def)
  from Cons.IH [OF this] show ?case
    using k by (auto split: if_splits)
qed

end

section \<open>Reading back what was written\<close>

definition plain_delim :: "char \<Rightarrow> bool" where
  "plain_delim d \<longleftrightarrow> d \<notin> {quote_char, newline, carriage_return}"

lemma collapse_append_plain: "carriage_return \<notin> set s \<Longrightarrow> collapse (s @ t) = s @ collapse t"
  by (induction s) auto

lemma collapse_escape:
  "collapse (escape s @ quote_char # t) = escape (collapse s) @ quote_char # collapse t"
proof (induction s rule: collapse.induct)
  case (2 c cs)
  have "strip_lf (escape cs @ quote_char # t) = escape (strip_lf cs) @ quote_char # t"
    by (cases cs) auto
  then show ?case
    using 2 by auto
qed simp

lemma scan_plain:
  assumes "set g \<inter> special d = {}" and "st = FIELD_START \<or> st = IN_FIELD"
  shows "\<exists>st'. (st' = FIELD_START \<or> st' = IN_FIELD)
    \<and> scan_record d RFC4180 st f fs (g @ t) = scan_record d RFC4180 st' (f @ g) fs t"
  using assms
proof (induction g arbitrary: f st)
  case Nil
  then show ?case by auto
next
  case (Cons c g)
  then have "machine d RFC4180 st c f = (IN_FIELD, f @ [c], [])"
    by (auto simp: machine_def special_def)
  then show ?case
    using Cons.IH [of IN_FIELD "f @ [c]"] Cons.prems(1) by simp
qed

lemma scan_quoted:
  "scan_record d RFC4180 IN_QUOTED_FIELD f fs (escape g @ quote_char # t)
    = scan_record d RFC4180 QUOTED_QUOTE (f @ g) fs t"
  by (induction g arbitrary: f) (simp_all add: machine_def)

text \<open>A formatted field, whichever way it is written, brings the machine to the end of the field.\<close>

lemma scan_field:
  assumes "plain_delim d"
  shows "\<exists>st. (st = FIELD_START \<or> st = IN_FIELD \<or> st = QUOTED_QUOTE)
    \<and> scan_record d RFC4180 FIELD_START [] fs (collapse (format_field d g @ t))
      = scan_record d RFC4180 st (collapse g) fs (collapse t)"
proof (cases "set g \<inter> special d = {}")
  case True
  then have cr: "carriage_return \<notin> set g"
    by (auto simp: special_def)
  then show ?thesis
    using scan_plain [OF True, of FIELD_START "[]" fs "collapse t"] True
      collapse_append_plain [OF cr, of t] collapse_append_plain [OF cr, of "[]"]
    by (auto simp: format_field_def)
next
  case False
  then show ?thesis
    using assms scan_quoted [of d "[]" fs "collapse g" "collapse t"]
    by (auto simp: format_field_def collapse_escape machine_def plain_delim_def)
qed

lemma scan_terminators:
  assumes "plain_delim d" and "st = FIELD_START \<or> st = IN_FIELD \<or> st = QUOTED_QUOTE"
  shows "scan_record d RFC4180 st f fs (d # t) = scan_record d RFC4180 FIELD_START [] (fs @ [f]) t"
    and "scan_record d RFC4180 st f fs (newline # t) = Some (fs @ [f], t)"
  using assms by (auto simp: machine_def plain_delim_def)

lemma collapse_plain_delim: "plain_delim d \<Longrightarrow> collapse (d # t) = d # collapse t"
  by (simp add: plain_delim_def)

text \<open>\<open>t\<close> is what follows the record: a record delimiter, or nothing.\<close>

lemma scan_fields:
  assumes "plain_delim d"
  shows "\<exists>st. (st = FIELD_START \<or> st = IN_FIELD \<or> st = QUOTED_QUOTE)
    \<and> scan_record d RFC4180 FIELD_START [] fs (collapse (format_fields d (g # gs) @ t))
      = scan_record d RFC4180 st (last (map collapse (g # gs)))
          (fs @ butlast (map collapse (g # gs))) (collapse t)"
proof (induction gs arbitrary: g fs)
  case Nil
  then show ?case
    using scan_field [OF assms, of fs g t] by (simp add: format_fields_def)
next
  case (Cons h hs)
  let ?t = "format_fields d (h # hs) @ t"
  obtain st where "st = FIELD_START \<or> st = IN_FIELD \<or> st = QUOTED_QUOTE"
    "scan_record d RFC4180 FIELD_START [] fs (collapse (format_field d g @ d # ?t))
      = scan_record d RFC4180 st (collapse g) fs (collapse (d # ?t))"
    using scan_field [OF assms, of fs g "d # ?t"] by blast
  then have "scan_record d RFC4180 FIELD_START [] fs (collapse (format_fields d (g # h # hs) @ t))
      = scan_record d RFC4180 FIELD_START [] (fs @ [collapse g]) (collapse ?t)"
    using scan_terminators(1) [OF assms] collapse_plain_delim [OF assms]
    by (simp add: format_fields_def)
  then show ?case
    using Cons.IH [of "fs @ [collapse g]" h] by simp
qed

lemma scan_record_line:
  assumes "plain_delim d" and "r \<noteq> []" and "e = [newline] \<or> e = [carriage_return, newline]"
  shows "scan_record d RFC4180 FIELD_START [] [] (collapse (format_fields d r @ e @ t))
    = Some (map collapse r, collapse t)"
proof -
  obtain g gs where r: "r = g # gs" using assms(2) by (cases r) auto
  have "collapse (e @ t) = newline # collapse t"
    using assms(3) by auto
  moreover obtain st where "st = FIELD_START \<or> st = IN_FIELD \<or> st = QUOTED_QUOTE"
    "scan_record d RFC4180 FIELD_START [] [] (collapse (format_fields d r @ e @ t))
      = scan_record d RFC4180 st (last (map collapse r)) (butlast (map collapse r)) (collapse (e @ t))"
    using scan_fields [OF assms(1), of "[]" g gs "e @ t"] unfolding r append_Nil by blast
  ultimately show ?thesis
    using scan_terminators(2) [OF assms(1)] assms(2) by simp
qed

lemma csv_records_written:
  assumes "plain_delim d" and "\<forall>r \<in> set rs. r \<noteq> []" and "e = [newline] \<or> e = [carriage_return, newline]"
  shows "csv_records d RFC4180 (collapse (concat (map (\<lambda>r. format_fields d r @ e) rs)))
    = map (map collapse) rs"
  using assms(2)
proof (induction rs)
  case Nil
  then show ?case by (simp add: csv_records.simps)
next
  case (Cons r rs)
  let ?t = "concat (map (\<lambda>r. format_fields d r @ e) rs)"
  have "collapse (format_fields d r @ e @ ?t) \<noteq> []"
    using assms(3) by (auto simp: collapse_eq_Nil)
  then show ?case
    using Cons scan_record_line [OF assms(1) _ assms(3), of r ?t]
    by (simp add: csv_records.simps [of d RFC4180 "collapse (format_fields d r @ e @ ?t)"])
qed

section \<open>The writer on a string\<close>

text \<open>No append buffer is outstanding: the writer only uses \<open>Append\<close>.\<close>

definition string_plain :: "StringByteSink \<Rightarrow> bool" where
  "string_plain k \<longleftrightarrow> string_ok k \<and> s_last_append_buffer_pos k = None"

lemma flush_sink_string:
  assumes "good_policy policy"
  shows "flush_sink (StringSink policy) string_plain s_dest"
proof
  fix k :: StringByteSink and s
  assume k: "string_plain k"
  show "string_plain (Sink_Flush (StringSink policy) k) \<and>
      s_dest (Sink_Flush (StringSink policy) k) = s_dest k"
    using k by (simp add: StringSink_def ByteSink_Flush_def)
  have "String_Append policy (External s) (length s) k = string_append policy (External s) (length s) k"
    using k by (simp add: String_Append_def UndoAppendBuffer_def string_plain_def)
  moreover obtain k' where k': "String_Append policy (External s) (length s) k = Inr k'" "string_ok k'"
    "string_out k' = string_out k @ map Some s"
    using String_Append_External [OF assms, of k s] k by (auto simp: string_plain_def)
  moreover have "s_last_append_buffer_pos k' = None" if "string_append policy (External s) (length s) k = Inr k'"
    using that k by (auto simp: string_append_def string_plain_def Let_def)
  ultimately show "\<exists>k'. Sink_Append (StringSink policy) s k = Inr k' \<and> string_plain k' \<and>
      s_dest k' = s_dest k @ map Some s"
    using k by (intro exI [of _ k']) (simp add: StringSink_def string_plain_def string_out_plain)
qed

interpretation string_writer: flush_sink "StringSink max" string_plain s_dest
  by (rule flush_sink_string [OF good_policy_max])

lemma string_new: "string_plain (new_StringByteSink [] 0)" "s_dest (new_StringByteSink [] 0) = []"
  by (simp_all add: string_ok_def string_plain_def new_StringByteSink_def)

text \<open>\<open>StrSplit\<close> as a function that keeps the contract.\<close>

primrec split_on :: "char \<Rightarrow> string \<Rightarrow> string list" where
  "split_on c [] = [[]]"
| "split_on c (x # xs) =
    (if x = c then [] # split_on c xs
     else (case split_on c xs of [] \<Rightarrow> [[x]] | p # ps \<Rightarrow> (x # p) # ps))"

lemma good_split_on: "good_split split_on"
proof -
  have "split_on c s \<noteq> [] \<and> (\<forall>p \<in> set (split_on c s). c \<notin> set p) \<and> intercalate [c] (split_on c s) = s" for c s
  proof (induction s)
    case (Cons x xs)
    then show ?case by (cases "split_on c xs") auto
  qed simp
  then show ?thesis by (simp add: good_split_def)
qed

lemma standard_writer_new:
  assumes "good_policy policy"
  shows "flush_sink.standard_writer (StringSink policy) string_plain split d
    (SetCRLFRecordDelimiter crlf (new_Writer_delimiter split (StringSink policy) n order d (new_StringByteSink [] 0)))"
  "flush_sink.standard_writer (StringSink policy) string_plain split d
    (new_Writer_delimiter split (StringSink policy) n order d (new_StringByteSink [] 0))"
  using string_new(1)
  by (simp_all add: flush_sink.standard_writer_def [OF flush_sink_string [OF assms]]
      new_Writer_delimiter_def new_Writer_def SetCRLFRecordDelimiter_def)

lemma WriteRecordToString_spec:
  assumes "good_split split" and "good_policy policy"
  shows "WriteRecordToString split policy r d = Inr (map Some (format_fields d r))"
proof -
  let ?w = "new_Writer_delimiter split (StringSink policy) (length r) DefaultOrder d (new_StringByteSink [] 0)"
  have "length (w_order ?w r) = w_num_fields ?w"
    by (simp add: new_Writer_delimiter_def new_Writer_def DefaultOrder_def)
  then obtain k where k: "WriteRecord (StringSink policy) r ?w
      = Inr (OkStatus, ?w\<lparr>w_sink := k, w_status := OkStatus\<rparr>)"
    "s_dest k = s_dest (w_sink ?w) @ map Some (format_fields d (w_order ?w r) @ w_record_delimiter ?w)"
    using flush_sink.WriteRecord_spec [OF flush_sink_string [OF assms(2)]
        standard_writer_new(2) [OF assms(2), of split d "length r" DefaultOrder] assms(1), of r] by blast
  have "s_dest k = map Some (format_fields d r) @ [Some newline]"
    using k(2) by (simp add: new_Writer_delimiter_def new_Writer_def DefaultOrder_def string_new(2))
  then show ?thesis
    by (simp add: WriteRecordToString_def k(1))
qed

lemma ParseLine_spec:
  assumes "line \<noteq> []" and "scan_record d m FIELD_START [] [] (collapse line) = Some (fs, rest)"
  shows "ParseLine line d m = Some \<lparr>r_status = OkStatus, r_number = 0, r_fields = fs\<rparr>"
proof -
  obtain p where "new_Parser ArrayByteSource line d m = Some p"
    "p_record p = (new_Record 0)\<lparr>r_fields := fs\<rparr>"
    using array_source.new_Parser_spec [of line d m] assms(2) by auto
  then show ?thesis
    using assms(1) by (simp add: ParseLine_def new_Record_def)
qed

lemma map_filter_total: "\<forall>x \<in> set xs. f x \<noteq> None \<Longrightarrow> List.map_filter f xs = map (\<lambda>x. the (f x)) xs"
  by (induction xs) (auto simp: List.map_filter_simps)

lemma map_filter_partial: "\<exists>x \<in> set xs. f x = None \<Longrightarrow> length (List.map_filter f xs) < length xs"
proof (induction xs)
  case (Cons x xs)
  have "length (List.map_filter f xs) \<le> length xs"
    by (simp add: List.map_filter_def)
  then show ?case
    using Cons by (cases "f x") (auto simp: List.map_filter_simps le_imp_less_Suc)
qed simp

section \<open>The end of the text\<close>



















section \<open>Properties\<close>

text \<open>
  Property C2.  On every source that keeps the contract of \<open>ByteSource\<close>, however it cuts the text into
  regions, a loop over the parser returns, and the records it sees are exactly those of the
  specification: newlines are normalised first, also inside quotes, then the text is cut by the state
  machine of the mode.  Records are numbered from \<open>0\<close> and their status is always \<open>Ok\<close>.
\<close>

theorem Parser_refines_specification:
  assumes "byte_source B valid contents" and "valid s"
  shows "parse_all B s delim mode
    = Some (number_records 0 (csv_records delim mode (collapse (contents s))))"
  using assms by (rule byte_source.parse_all_spec)

theorem Parser_refines_specification_witness:
  "parse_all (LimitByteSource ArrayByteSource)
     (new_LimitByteSource [CHR ''a'', carriage_return, newline, CHR ''b'', CHR '','', CHR ''c''] 5)
     CHR '','' RFC4180
   = Some [\<lparr>r_status = OkStatus, r_number = 0, r_fields = [''a'']\<rparr>,
           \<lparr>r_status = OkStatus, r_number = 1, r_fields = [''b'', '''']\<rparr>]"
  using Parser_refines_specification [OF limit_source.byte_source_axioms TrueI,
      of "new_LimitByteSource [CHR ''a'', carriage_return, newline, CHR ''b'', CHR '','', CHR ''c''] 5"
        "CHR '',''" RFC4180]
  by (simp add: new_LimitByteSource_def csv_records.simps machine_def)

text \<open>
  Property C8.  What the writer writes, the parser reads back.  Records of \<open>n > 0\<close> fields, written one
  after the other with either record delimiter, all succeed, and parsing the resulting text with the
  same field delimiter gives the same records in the same order, up to the one thing the parser
  promises to change: a carriage return in a field, with the line feed after it if there is one, comes
  back as a line feed.  The delimiter may be any character but a quote and the two newline characters.
\<close>

theorem Writer_Parser_roundtrip:
  assumes "plain_delim d" and "good_split split" and "good_policy policy"
    and "0 < n" and "\<forall>r \<in> set rs. length r = n"
  shows "\<exists>w text. write_records (StringSink policy) rs
      (SetCRLFRecordDelimiter crlf
        (new_Writer_delimiter split (StringSink policy) n DefaultOrder d (new_StringByteSink [] 0))) = Inr w
    \<and> w_status w = OkStatus
    \<and> s_dest (w_sink w) = map Some text
    \<and> parse_all ArrayByteSource text d RFC4180 = Some (number_records 0 (map (map collapse) rs))"
proof -
  let ?w = "SetCRLFRecordDelimiter crlf
    (new_Writer_delimiter split (StringSink policy) n DefaultOrder d (new_StringByteSink [] 0))"
  let ?e = "w_record_delimiter ?w"
  let ?text = "concat (map (\<lambda>r. format_fields d r @ ?e) rs)"
  have w: "w_order ?w = (\<lambda>r. r)" "w_num_fields ?w = n" "s_dest (w_sink ?w) = []" "w_status ?w = OkStatus"
    "?e = [newline] \<or> ?e = [carriage_return, newline]"
    by (auto simp: SetCRLFRecordDelimiter_def new_Writer_delimiter_def new_Writer_def DefaultOrder_def
        string_new(2))
  have "\<forall>r \<in> set rs. length (w_order ?w r) = w_num_fields ?w"
    using assms(5) by (simp add: w)
  then obtain k where k: "write_records (StringSink policy) rs ?w
      = Inr (?w\<lparr>w_sink := k, w_status := if rs = [] then w_status ?w else OkStatus\<rparr>)"
    "s_dest k = s_dest (w_sink ?w)
      @ map Some (concat (map (\<lambda>r. format_fields d (w_order ?w r) @ w_record_delimiter ?w) rs))"
    using flush_sink.write_records_spec [OF flush_sink_string [OF assms(3)]
        standard_writer_new(1) [OF assms(3), of split d crlf n DefaultOrder] assms(2), of rs] by blast
  have written: "s_dest k = map Some ?text"
    using k(2) by (simp add: w)
  have "csv_records d RFC4180 (collapse ?text) = map (map collapse) rs"
    using assms(4,5) by (intro csv_records_written [OF assms(1) _ w(5)]) auto
  then have "parse_all ArrayByteSource ?text d RFC4180 = Some (number_records 0 (map (map collapse) rs))"
    using array_source.parse_all_spec [of ?text d RFC4180] by simp
  then show ?thesis
    using k(1) written w(4) by auto
qed

theorem Writer_Parser_roundtrip_witness:
  "\<exists>w text. write_records (StringSink max) [[''a,b'', [quote_char]], ['''', [newline]]]
      (SetCRLFRecordDelimiter True
        (new_Writer_delimiter split_on (StringSink max) 2 DefaultOrder CHR '','' (new_StringByteSink [] 0))) = Inr w
    \<and> s_dest (w_sink w) = map Some text
    \<and> parse_all ArrayByteSource text CHR '','' RFC4180
      = Some [\<lparr>r_status = OkStatus, r_number = 0, r_fields = [''a,b'', [quote_char]]\<rparr>,
              \<lparr>r_status = OkStatus, r_number = 1, r_fields = ['''', [newline]]\<rparr>]"
proof -
  have "plain_delim CHR '',''" by (simp add: plain_delim_def)
  moreover have "\<forall>r \<in> set [[''a,b'', [quote_char]], ['''', [newline]]]. length r = 2" by simp
  ultimately show ?thesis
    using Writer_Parser_roundtrip [of "CHR '',''" split_on max 2
        "[[''a,b'', [quote_char]], ['''', [newline]]]" True] good_split_on good_policy_max
    by (auto simp del: write_records.simps)
qed

text \<open>
  One record through \<open>WriteRecordToString\<close> and \<open>ParseLine\<close>: formatting never fails,
  and parsing the line gives the fields back, with newlines normalised.  This includes the record with
  one empty field, whose line is empty.
\<close>

theorem ParseLine_WriteRecordToString:
  assumes "plain_delim d" and "good_split split" and "good_policy policy" and "r \<noteq> []"
  shows "\<exists>line. WriteRecordToString split policy r d = Inr (map Some line)
    \<and> ParseLine line d RFC4180 = Some \<lparr>r_status = OkStatus, r_number = 0, r_fields = map collapse r\<rparr>"
proof -
  let ?line = "format_fields d r"
  have w: "WriteRecordToString split policy r d = Inr (map Some ?line)"
    using assms(2,3) by (rule WriteRecordToString_spec)
  obtain g gs where r: "r = g # gs" using assms(4) by (cases r) auto
  obtain st where st: "scan_record d RFC4180 FIELD_START [] [] (collapse ?line)
      = scan_record d RFC4180 st (last (map collapse r)) (butlast (map collapse r)) []"
    using scan_fields [OF assms(1), of "[]" g gs "[]"] unfolding r by auto
  show ?thesis
  proof (cases "?line = []")
    case True
    then have "gs = []" "format_field d g = []"
      unfolding r format_fields_def by (cases gs; simp)+
    then have "r = [[]]"
      using r by (auto simp: format_field_def split: if_splits)
    moreover have "ParseLine [] d RFC4180 = ParseLine [newline] d RFC4180"
      by (simp add: ParseLine_def)
    moreover have "ParseLine [newline] d RFC4180
        = Some \<lparr>r_status = OkStatus, r_number = 0, r_fields = [[]]\<rparr>"
      using assms(1) by (intro ParseLine_spec [where rest = "[]"]) (auto simp: machine_def plain_delim_def)
    ultimately show ?thesis
      using w True by auto
  next
    case False
    have "last (map collapse r) \<noteq> [] \<or> butlast (map collapse r) \<noteq> []"
      using False r by (cases gs) (auto simp: collapse_eq_Nil format_fields_def format_field_def)
    then have "scan_record d RFC4180 FIELD_START [] [] (collapse ?line) = Some (map collapse r, [])"
      using st assms(4) by simp
    then show ?thesis
      using w ParseLine_spec [OF False] by blast
  qed
qed

theorem ParseLine_WriteRecordToString_witness:
  "\<exists>line. WriteRecordToString split_on max [''x;y'', ''z''] CHR '';'' = Inr (map Some line)
    \<and> ParseLine line CHR '';'' RFC4180 = Some \<lparr>r_status = OkStatus, r_number = 0, r_fields = [''x;y'', ''z'']\<rparr>"
proof -
  have "plain_delim CHR '';''" by (simp add: plain_delim_def)
  then show ?thesis
    using ParseLine_WriteRecordToString [of "CHR '';''" split_on max "[''x;y'', ''z'']"]
      good_split_on good_policy_max by auto
qed

text \<open>
  Records given as maps, with \<open>HeaderOrder\<close>.  When every header is a key, the fields are
  written in the order of the headers, whatever else the map holds.  When a header is missing, the call
  returns an error that states the number of fields found, \<open>status()\<close> keeps that error, and nothing
  has been written: the rest of the writer is as before.
\<close>

theorem WriteRecord_HeaderOrder:
  assumes "good_split split" and "good_policy policy" and "string_plain k"
    and w: "w = new_Writer_delimiter split (StringSink policy) (length headers) (HeaderOrder headers) d k"
  shows "(set headers \<subseteq> dom m \<longrightarrow>
      (\<exists>k'. WriteRecord (StringSink policy) (Map_like m) w = Inr (OkStatus, w\<lparr>w_sink := k'\<rparr>)
       \<and> s_dest k' = s_dest k @ map Some (format_fields d (map (the \<circ> m) headers) @ [newline])))
    \<and> (\<not> set headers \<subseteq> dom m \<longrightarrow>
      (\<exists>found. found < length headers
       \<and> WriteRecord (StringSink policy) (Map_like m) w =
           Inr (InvalidArgumentError (length headers) found,
                w\<lparr>w_status := InvalidArgumentError (length headers) found\<rparr>)))"
proof -
  note w_simps = w new_Writer_delimiter_def new_Writer_def
  have std: "flush_sink.standard_writer (StringSink policy) string_plain split d w"
    using assms(3)
    by (simp add: flush_sink.standard_writer_def [OF flush_sink_string [OF assms(2)]] w_simps)
  have "\<exists>k'. WriteRecord (StringSink policy) (Map_like m) w = Inr (OkStatus, w\<lparr>w_sink := k'\<rparr>)
       \<and> s_dest k' = s_dest k @ map Some (format_fields d (map (the \<circ> m) headers) @ [newline])"
    if "set headers \<subseteq> dom m"
  proof -
    have "\<forall>x \<in> set headers. m x \<noteq> None"
      using that by auto
    from map_filter_total [OF this] have ord: "w_order w (Map_like m) = map (the \<circ> m) headers"
      by (simp add: w_simps)
    then have "length (w_order w (Map_like m)) = w_num_fields w"
      by (simp add: w_simps)
    from flush_sink.WriteRecord_spec [OF flush_sink_string [OF assms(2)] std assms(1) this]
    show ?thesis
      unfolding ord by (auto simp: w_simps)
  qed
  moreover have "\<exists>found. found < length headers
       \<and> WriteRecord (StringSink policy) (Map_like m) w =
           Inr (InvalidArgumentError (length headers) found,
                w\<lparr>w_status := InvalidArgumentError (length headers) found\<rparr>)"
    if "\<not> set headers \<subseteq> dom m"
  proof -
    have "length (List.map_filter m headers) < length headers"
      using that by (intro map_filter_partial) auto
    then show ?thesis
      by (intro exI [of _ "length (List.map_filter m headers)"]) (simp add: w_simps WriteRecord_def Let_def)
  qed
  ultimately show ?thesis by blast
qed

theorem WriteRecord_HeaderOrder_witness:
  "\<exists>found. found < length [''Element'', ''Symbol'']
     \<and> WriteRecord (StringSink max) (Map_like [''Element'' \<mapsto> ''Gold''])
         (new_Writer_delimiter split_on (StringSink max) (length [''Element'', ''Symbol''])
           (HeaderOrder [''Element'', ''Symbol'']) CHR '','' (new_StringByteSink [] 0)) =
         Inr (InvalidArgumentError (length [''Element'', ''Symbol'']) found,
           (new_Writer_delimiter split_on (StringSink max) (length [''Element'', ''Symbol''])
             (HeaderOrder [''Element'', ''Symbol'']) CHR '','' (new_StringByteSink [] 0))
           \<lparr>w_status := InvalidArgumentError (length [''Element'', ''Symbol'']) found\<rparr>)"
proof -
  have "\<not> set [''Element'', ''Symbol''] \<subseteq> dom [''Element'' \<mapsto> ''Gold'']" by auto
  with WriteRecord_HeaderOrder [OF good_split_on good_policy_max string_new(1) refl,
      of "[''Element'', ''Symbol'']" "[''Element'' \<mapsto> ''Gold'']" "CHR '',''"]
  show ?thesis by blast
qed



end
