(* ===== verification/WeightedSemaphore.thy ===== *)
theory WeightedSemaphore
  imports Gloop_Prelude
begin

text \<open>
  The weighted semaphore of \<^verbatim>\<open>src/gloop/thread/simple_weighted_semaphore.h\<close> and
  \<^verbatim>\<open>simple_weighted_semaphore.cc\<close>.

  Every operation runs under \<open>pending_operations_lock_\<close>, which it gives up only inside
  \<open>CondVar::Wait\<close>.  A definition below is what one thread does from the point where it gets the lock to
  the point where it returns or waits: the new state, the condition variables it signalled, and either
  the value returned or the wait, with the place where the thread goes on when it is woken.  Costs are
  64-bit words, so sums wrap.  The time measurements (\<open>CycleTimer\<close>, \<open>msec\<close>) are left out.
\<close>

section \<open>State\<close>

record Sem =
  pending_cost :: u64
  max_cost :: u64
  stopped :: bool
  stopping :: bool
  stop_on_exit :: bool

datatype condvar = acquire_changed | no_pending_ops | stop_finished | started

datatype loc =
  StopLoop | StartLoop | AcquireLoop u64 | AlwaysStarted u64 | AlwaysLoop u64

datatype action = Wait condvar loc | Return bool

type_synonym segment = "(Sem \<times> condvar list \<times> action) outcome"

definition new_Semaphore :: "u64 \<Rightarrow> Sem" where
  "new_Semaphore max_concurrent_cost =
    \<lparr>pending_cost = 0, max_cost = max_concurrent_cost, stopped = False, stopping = False,
     stop_on_exit = True\<rparr>"

definition set_stop_on_exit :: "bool \<Rightarrow> Sem \<Rightarrow> Sem" where
  "set_stop_on_exit b s = s\<lparr>stop_on_exit := b\<rparr>"

section \<open>Operations\<close>

definition CanAcquire :: "Sem \<Rightarrow> u64 \<Rightarrow> bool" where
  "CanAcquire s cost =
    (let new_cost = pending_cost s + cost in new_cost \<le> max_cost s \<and> new_cost \<ge> pending_cost s)"

definition Stop_loop :: "Sem \<Rightarrow> segment" where
  "Stop_loop s =
    (if pending_cost s > 0 then Inr (s, [], Wait no_pending_ops StopLoop)
     else Inr (s\<lparr>stopping := False\<rparr>, [stop_finished], Return True))"

definition Stop :: "Sem \<Rightarrow> segment" where
  "Stop s =
    andThen (Stop_loop (s\<lparr>stopping := True, stopped := True\<rparr>))
      (\<lambda>(s, signals, a). Inr (s, acquire_changed # signals, a))"

definition Start :: "Sem \<Rightarrow> segment" where
  "Start s =
    (if stopping s then Inr (s, [], Wait stop_finished StartLoop)
     else Inr (s\<lparr>stopped := False\<rparr>, [started], Return True))"

definition set_max_cost :: "u64 \<Rightarrow> Sem \<Rightarrow> segment" where
  "set_max_cost m s = Inr (s\<lparr>max_cost := m\<rparr>, [acquire_changed], Return True)"

text \<open>\<open>pending_cost_ += cost; CHECK_GE(pending_cost_, cost)\<close>\<close>

definition take_cost :: "u64 \<Rightarrow> Sem \<Rightarrow> segment" where
  "take_cost cost s =
    (let s = s\<lparr>pending_cost := pending_cost s + cost\<rparr> in
     require CheckFailed (pending_cost s \<ge> cost) (Inr (s, [], Return True)))"

definition Acquire_loop :: "u64 \<Rightarrow> Sem \<Rightarrow> segment" where
  "Acquire_loop cost s =
    (if \<not> CanAcquire s cost \<and> \<not> stopped s then Inr (s, [], Wait acquire_changed (AcquireLoop cost))
     else if stopped s then Inr (s, [], Return False)
     else take_cost cost s)"

definition Acquire :: "u64 \<Rightarrow> Sem \<Rightarrow> segment" where
  "Acquire cost s =
    (if stopped s then Inr (s, [], Return False)
     else if cost = 0 then Inr (s, [], Return True)
     else Acquire_loop cost s)"

definition AcquireAlways :: "u64 \<Rightarrow> Sem \<Rightarrow> segment" where
  "AcquireAlways cost s =
    (if stopped s then Inr (s, [], Wait started (AlwaysStarted cost))
     else if cost = 0 then Inr (s, [], Return True)
     else if \<not> CanAcquire s cost \<and> \<not> stopped s
     then Inr (s, [], Wait acquire_changed (AlwaysLoop cost))
     else take_cost cost s)"

text \<open>Woken while waiting for resources; a stop in the meantime restarts the outer loop.\<close>

definition AcquireAlways_loop :: "u64 \<Rightarrow> Sem \<Rightarrow> segment" where
  "AcquireAlways_loop cost s =
    (if \<not> CanAcquire s cost \<and> \<not> stopped s then Inr (s, [], Wait acquire_changed (AlwaysLoop cost))
     else if stopped s then AcquireAlways cost s
     else take_cost cost s)"

definition TryAcquire :: "u64 \<Rightarrow> Sem \<Rightarrow> segment" where
  "TryAcquire cost s =
    (if \<not> stopped s \<and> CanAcquire s cost then take_cost cost s else Inr (s, [], Return False))"

definition Release :: "u64 \<Rightarrow> Sem \<Rightarrow> segment" where
  "Release cost s =
    (if cost = 0 then Inr (s, [], Return True)
     else require CheckFailed (cost \<le> pending_cost s)
       (let s = s\<lparr>pending_cost := pending_cost s - cost\<rparr> in
        Inr (s, acquire_changed # (if pending_cost s = 0 then [no_pending_ops] else []), Return True)))"

text \<open>
  The destructor, and the scoped lock's constructor (\<open>None\<close> is the null pointer) and destructor.
\<close>

definition delete_Semaphore :: "Sem \<Rightarrow> segment" where
  "delete_Semaphore s = (if stop_on_exit s then Stop s else Inr (s, [], Return True))"

definition SemaphoreLock :: "u64 \<Rightarrow> Sem option \<Rightarrow> segment" where
  "SemaphoreLock cost semaphore =
    (case semaphore of None \<Rightarrow> Inl CheckFailed | Some s \<Rightarrow> AcquireAlways cost s)"

definition delete_SemaphoreLock :: "u64 \<Rightarrow> Sem \<Rightarrow> segment" where
  "delete_SemaphoreLock cost s = Release cost s"

section \<open>Threads\<close>

datatype pc = Idle | Blocked condvar loc | Woken loc

datatype op =
  DoStop | DoStart | DoSetMax u64 | DoAcquire u64 | DoAcquireAlways u64 | DoTryAcquire u64
  | DoRelease u64

fun invoke :: "op \<Rightarrow> Sem \<Rightarrow> segment" where
  "invoke DoStop s = Stop s"
| "invoke DoStart s = Start s"
| "invoke (DoSetMax m) s = set_max_cost m s"
| "invoke (DoAcquire c) s = Acquire c s"
| "invoke (DoAcquireAlways c) s = AcquireAlways c s"
| "invoke (DoTryAcquire c) s = TryAcquire c s"
| "invoke (DoRelease c) s = Release c s"

fun resume :: "loc \<Rightarrow> Sem \<Rightarrow> segment" where
  "resume StopLoop s = Stop_loop s"
| "resume StartLoop s = Start s"
| "resume (AcquireLoop c) s = Acquire_loop c s"
| "resume (AlwaysStarted c) s = AcquireAlways c s"
| "resume (AlwaysLoop c) s = AcquireAlways_loop c s"

definition wake :: "condvar list \<Rightarrow> pc \<Rightarrow> pc" where
  "wake signals p = (case p of Blocked cv l \<Rightarrow> if cv \<in> set signals then Woken l else p | _ \<Rightarrow> p)"

definition next_pc :: "action \<Rightarrow> pc" where
  "next_pc a = (case a of Wait cv l \<Rightarrow> Blocked cv l | Return b \<Rightarrow> Idle)"

text \<open>
  A system of threads.  \<open>held\<close> is not program state: it is the total cost that successful acquires have
  granted and that has not been released, counted without a bound.
\<close>

record sys =
  sem :: Sem
  threads :: "nat \<Rightarrow> pc"
  held :: nat

fun requested :: "op \<Rightarrow> nat" where
  "requested (DoAcquire c) = unat c"
| "requested (DoAcquireAlways c) = unat c"
| "requested (DoTryAcquire c) = unat c"
| "requested _ = 0"

fun released :: "op \<Rightarrow> nat" where
  "released (DoRelease c) = unat c"
| "released _ = 0"

fun wanted :: "loc \<Rightarrow> nat" where
  "wanted (AcquireLoop c) = unat c"
| "wanted (AlwaysStarted c) = unat c"
| "wanted (AlwaysLoop c) = unat c"
| "wanted _ = 0"

definition granted :: "nat \<Rightarrow> action \<Rightarrow> nat" where
  "granted n a = (case a of Return True \<Rightarrow> n | _ \<Rightarrow> 0)"

text \<open>
  One step: a thread that is not in the semaphore calls an operation, a woken thread goes on, or a
  waiting thread wakes up for no reason, as a condition variable may.  The one thing asked of the
  callers is that they release no more than is held.
\<close>

inductive step :: "sys \<Rightarrow> sys \<Rightarrow> bool" where
  invoke: "threads S t = Idle \<Longrightarrow> released p \<le> held S \<Longrightarrow>
    invoke p (sem S) = Inr (s', signals, a) \<Longrightarrow>
    step S \<lparr>sem = s', threads = (\<lambda>u. wake signals (threads S u))(t := next_pc a),
            held = held S + granted (requested p) a - released p\<rparr>"
| resume: "threads S t = Woken l \<Longrightarrow> resume l (sem S) = Inr (s', signals, a) \<Longrightarrow>
    step S \<lparr>sem = s', threads = (\<lambda>u. wake signals (threads S u))(t := next_pc a),
            held = held S + granted (wanted l) a\<rparr>"
| spurious: "threads S t = Blocked cv l \<Longrightarrow>
    step S (S\<lparr>threads := (threads S)(t := Woken l)\<rparr>)"

definition initial :: "u64 \<Rightarrow> sys" where
  "initial m = \<lparr>sem = new_Semaphore m, threads = (\<lambda>_. Idle), held = 0\<rparr>"

inductive reachable :: "u64 \<Rightarrow> sys \<Rightarrow> bool" for m where
  start: "reachable m (initial m)"
| step: "reachable m S \<Longrightarrow> step S S' \<Longrightarrow> reachable m S'"

end
