(* ===== verification/WeightedSemaphore_Proofs.thy ===== *)
theory WeightedSemaphore_Proofs
  imports WeightedSemaphore
begin

text \<open>
  The semaphore under every interleaving of its threads: the 64-bit counter is the exact cost held,
  no check fails, no wakeup is lost, and stops complete once the cost has been released.
\<close>

section \<open>The counter\<close>

lemma unat_u64_less: "unat (w::u64) < 18446744073709551616"
  using unsigned_less [of w] by simp

lemma CanAcquire_iff: "CanAcquire s c \<longleftrightarrow> unat (pending_cost s) + unat c \<le> unat (max_cost s)"
proof -
  have "pending_cost s \<le> pending_cost s + c \<longleftrightarrow> unat (pending_cost s) + unat c < 2 ^ 64"
    using no_olen_add_nat [of "pending_cost s" c] by simp
  then show ?thesis
    using unat_u64_less [of "max_cost s"]
    by (auto simp: CanAcquire_def Let_def word_le_nat_alt unat_plus_if' split: if_splits)
qed

lemma unat_pending_add:
  "CanAcquire s c \<Longrightarrow> unat (pending_cost s + c) = unat (pending_cost s) + unat c"
  using unat_u64_less [of "max_cost s"] by (simp add: CanAcquire_iff unat_plus_if')

lemma take_cost_spec:
  "CanAcquire s c \<Longrightarrow> take_cost c s = Inr (s\<lparr>pending_cost := pending_cost s + c\<rparr>, [], Return True)"
  using unat_pending_add [of s c] by (simp add: take_cost_def Let_def word_le_nat_alt)

section \<open>Why a thread may be waiting\<close>

fun waits_for :: "Sem \<Rightarrow> condvar \<Rightarrow> loc \<Rightarrow> bool" where
  "waits_for s cv StopLoop = (cv = no_pending_ops \<and> pending_cost s \<noteq> 0)"
| "waits_for s cv StartLoop = (cv = stop_finished \<and> stopping s)"
| "waits_for s cv (AcquireLoop c) = (cv = acquire_changed \<and> \<not> CanAcquire s c \<and> \<not> stopped s)"
| "waits_for s cv (AlwaysLoop c) = (cv = acquire_changed \<and> \<not> CanAcquire s c \<and> \<not> stopped s)"
| "waits_for s cv (AlwaysStarted c) = (cv = started \<and> stopped s)"

fun in_stop :: "pc \<Rightarrow> bool" where
  "in_stop (Blocked cv l) = (l = StopLoop)"
| "in_stop (Woken l) = (l = StopLoop)"
| "in_stop Idle = False"

text \<open>
  What a segment from \<open>s\<close> guarantees, where \<open>n\<close> is the cost it was asked to acquire and \<open>r\<close> the cost
  it was asked to release: the exact effect on the counter, an acquire only within the limit and only
  while running, waiting only with a reason, and a signal to every thread whose reason is gone.
\<close>

definition segment_ok :: "Sem \<Rightarrow> nat \<Rightarrow> nat \<Rightarrow> Sem \<times> condvar list \<times> action \<Rightarrow> bool" where
  "segment_ok s n r = (\<lambda>(s', signals, a).
     unat (pending_cost s') + r = unat (pending_cost s) + granted n a
   \<and> (0 < granted n a \<longrightarrow> unat (pending_cost s') \<le> unat (max_cost s') \<and> \<not> stopped s')
   \<and> (\<forall>cv l. a = Wait cv l \<longrightarrow> waits_for s' cv l)
   \<and> (\<forall>cv l. waits_for s cv l \<longrightarrow> cv \<notin> set signals \<longrightarrow> waits_for s' cv l)
   \<and> ((stopping s \<longrightarrow> stopped s) \<longrightarrow> (stopping s' \<longrightarrow> stopped s'))
   \<and> (stopping s' \<longrightarrow> stopping s \<or> (\<exists>cv. a = Wait cv StopLoop)))"

lemma take_cost_ok:
  assumes "CanAcquire s c" and "\<not> stopped s"
  obtains x where "take_cost c s = Inr x" and "segment_ok s (unat c) 0 x"
proof
  let ?s = "s\<lparr>pending_cost := pending_cost s + c\<rparr>"
  show "take_cost c s = Inr (?s, [], Return True)"
    using assms(1) by (rule take_cost_spec)
  have "waits_for ?s cv l" if "waits_for s cv l" for cv l
    using that unat_pending_add [OF assms(1)] by (cases l) (auto simp: CanAcquire_iff unsigned_eq_0_iff)
  then show "segment_ok s (unat c) 0 (?s, [], Return True)"
    using assms unat_pending_add [OF assms(1)] by (auto simp: segment_ok_def granted_def CanAcquire_iff)
qed

text \<open>A segment that only waits or returns without a grant.\<close>

lemma segment_ok_Wait:
  "waits_for s cv l \<Longrightarrow> segment_ok s n 0 (s, [], Wait cv l)"
  by (auto simp: segment_ok_def granted_def)

lemma segment_ok_refused: "segment_ok s n 0 (s, [], Return False)"
  by (auto simp: segment_ok_def granted_def)

lemma segment_ok_trivial: "segment_ok s 0 0 (s, [], Return True)"
  by (auto simp: segment_ok_def granted_def)

lemma Stop_loop_ok: obtains x where "Stop_loop s = Inr x" and "segment_ok s 0 0 x"
proof (cases "pending_cost s > 0")
  case True
  then show ?thesis
    using that [of "(s, [], Wait no_pending_ops StopLoop)"] segment_ok_Wait [of s no_pending_ops StopLoop]
    by (simp add: Stop_loop_def word_gt_0)
next
  case False
  have "waits_for (s\<lparr>stopping := False\<rparr>) cv l" if "waits_for s cv l" "cv \<noteq> stop_finished" for cv l
    using that by (cases l) (auto simp: CanAcquire_def)
  then show ?thesis
    using that [of "(s\<lparr>stopping := False\<rparr>, [stop_finished], Return True)"] False
    by (auto simp: Stop_loop_def segment_ok_def granted_def)
qed

lemma Stop_ok: obtains x where "Stop s = Inr x" and "segment_ok s 0 0 x"
proof -
  let ?s = "s\<lparr>stopping := True, stopped := True\<rparr>"
  have keep: "waits_for ?s cv l" if "waits_for s cv l" "cv \<noteq> acquire_changed" for cv l
    using that by (cases l) auto
  show ?thesis
  proof (cases "pending_cost s > 0")
    case True
    then show ?thesis
      using that [of "(?s, [acquire_changed], Wait no_pending_ops StopLoop)"] keep
      by (auto simp: Stop_def Stop_loop_def segment_ok_def granted_def word_gt_0)
  next
    case False
    have "waits_for (?s\<lparr>stopping := False\<rparr>) cv l"
      if "waits_for s cv l" "cv \<noteq> acquire_changed" "cv \<noteq> stop_finished" for cv l
      using that by (cases l) auto
    then show ?thesis
      using that [of "(?s\<lparr>stopping := False\<rparr>, [acquire_changed, stop_finished], Return True)"] False
      by (auto simp: Stop_def Stop_loop_def segment_ok_def granted_def)
  qed
qed

lemma Start_ok: obtains x where "Start s = Inr x" and "segment_ok s 0 0 x"
proof (cases "stopping s")
  case True
  then show ?thesis
    using that [of "(s, [], Wait stop_finished StartLoop)"] segment_ok_Wait [of s stop_finished StartLoop]
    by (simp add: Start_def)
next
  case False
  have "waits_for (s\<lparr>stopped := False\<rparr>) cv l" if "waits_for s cv l" "cv \<noteq> started" for cv l
    using that by (cases l) (auto simp: CanAcquire_def)
  then show ?thesis
    using that [of "(s\<lparr>stopped := False\<rparr>, [started], Return True)"] False
    by (auto simp: Start_def segment_ok_def granted_def)
qed

lemma set_max_cost_ok: "segment_ok s 0 0 (s\<lparr>max_cost := m\<rparr>, [acquire_changed], Return True)"
proof -
  have "waits_for (s\<lparr>max_cost := m\<rparr>) cv l" if "waits_for s cv l" "cv \<noteq> acquire_changed" for cv l
    using that by (cases l) auto
  then show ?thesis
    by (auto simp: segment_ok_def granted_def)
qed

lemma Acquire_loop_ok: obtains x where "Acquire_loop c s = Inr x" and "segment_ok s (unat c) 0 x"
proof -
  consider (wait) "\<not> CanAcquire s c" "\<not> stopped s" | (stop) "stopped s"
    | (take) "CanAcquire s c" "\<not> stopped s" by blast
  then show ?thesis
  proof cases
    case wait
    then show ?thesis
      using that segment_ok_Wait [of s acquire_changed "AcquireLoop c"] by (simp add: Acquire_loop_def)
  next
    case stop
    then show ?thesis
      using that segment_ok_refused by (simp add: Acquire_loop_def)
  next
    case take
    then show ?thesis
      using that by (rule_tac take_cost_ok [of s c]) (simp_all add: Acquire_loop_def)
  qed
qed

lemma Acquire_ok: obtains x where "Acquire c s = Inr x" and "segment_ok s (unat c) 0 x"
proof (cases "stopped s \<or> c = 0")
  case True
  then show ?thesis
    using that segment_ok_refused segment_ok_trivial
    by (cases "stopped s") (simp_all add: Acquire_def)
next
  case False
  then show ?thesis
    using that by (rule_tac Acquire_loop_ok [of c s]) (simp add: Acquire_def)
qed

lemma AcquireAlways_ok: obtains x where "AcquireAlways c s = Inr x" and "segment_ok s (unat c) 0 x"
proof -
  consider (stop) "stopped s" | (zero) "\<not> stopped s" "c = 0" | (wait) "\<not> CanAcquire s c" "\<not> stopped s" "c \<noteq> 0"
    | (take) "CanAcquire s c" "\<not> stopped s" "c \<noteq> 0" by blast
  then show ?thesis
  proof cases
    case stop
    then show ?thesis
      using that segment_ok_Wait [of s started "AlwaysStarted c"] by (simp add: AcquireAlways_def)
  next
    case zero
    then show ?thesis
      using that segment_ok_trivial by (simp add: AcquireAlways_def)
  next
    case wait
    then show ?thesis
      using that segment_ok_Wait [of s acquire_changed "AlwaysLoop c"] by (simp add: AcquireAlways_def)
  next
    case take
    then show ?thesis
      using that by (rule_tac take_cost_ok [of s c]) (simp_all add: AcquireAlways_def)
  qed
qed

lemma AcquireAlways_loop_ok:
  obtains x where "AcquireAlways_loop c s = Inr x" and "segment_ok s (unat c) 0 x"
proof -
  consider (stop) "stopped s" | (wait) "\<not> CanAcquire s c" "\<not> stopped s"
    | (take) "CanAcquire s c" "\<not> stopped s" by blast
  then show ?thesis
  proof cases
    case stop
    then show ?thesis
      using that by (rule_tac AcquireAlways_ok [of c s]) (simp add: AcquireAlways_loop_def)
  next
    case wait
    then show ?thesis
      using that segment_ok_Wait [of s acquire_changed "AlwaysLoop c"] by (simp add: AcquireAlways_loop_def)
  next
    case take
    then show ?thesis
      using that by (rule_tac take_cost_ok [of s c]) (simp_all add: AcquireAlways_loop_def)
  qed
qed

lemma TryAcquire_ok: obtains x where "TryAcquire c s = Inr x" and "segment_ok s (unat c) 0 x"
proof (cases "\<not> stopped s \<and> CanAcquire s c")
  case True
  then show ?thesis
    using that by (rule_tac take_cost_ok [of s c]) (simp_all add: TryAcquire_def)
next
  case False
  then show ?thesis
    using that segment_ok_refused by (auto simp: TryAcquire_def)
qed

lemma Release_ok:
  assumes "unat c \<le> unat (pending_cost s)"
  obtains x where "Release c s = Inr x" and "segment_ok s 0 (unat c) x"
proof (cases "c = 0")
  case True
  then show ?thesis
    using that segment_ok_trivial by (simp add: Release_def)
next
  case False
  let ?s = "s\<lparr>pending_cost := pending_cost s - c\<rparr>"
  let ?sig = "acquire_changed # (if pending_cost ?s = 0 then [no_pending_ops] else [])"
  have sub: "unat (pending_cost s - c) = unat (pending_cost s) - unat c"
    using assms by (simp add: unat_sub word_le_nat_alt)
  have keep: "waits_for ?s cv l" if "waits_for s cv l" "cv \<notin> set ?sig" for cv l
    using that by (cases l) (auto split: if_splits)
  have "Release c s = Inr (?s, ?sig, Return True)"
    using assms False by (simp add: Release_def Let_def word_le_nat_alt)
  moreover have "segment_ok s 0 (unat c) (?s, ?sig, Return True)"
    unfolding segment_ok_def using keep sub assms by (auto simp: granted_def)
  ultimately show ?thesis using that by blast
qed

lemma invoke_ok:
  assumes "released p \<le> unat (pending_cost s)"
  obtains x where "invoke p s = Inr x" and "segment_ok s (requested p) (released p) x"
proof (cases p)
  case DoStop
  then show ?thesis using that by (rule_tac Stop_ok [of s]) simp
next
  case DoStart
  then show ?thesis using that by (rule_tac Start_ok [of s]) simp
next
  case (DoSetMax m)
  then show ?thesis using that set_max_cost_ok by (simp add: set_max_cost_def)
next
  case (DoAcquire c)
  then show ?thesis using that by (rule_tac Acquire_ok [of c s]) simp
next
  case (DoAcquireAlways c)
  then show ?thesis using that by (rule_tac AcquireAlways_ok [of c s]) simp
next
  case (DoTryAcquire c)
  then show ?thesis using that by (rule_tac TryAcquire_ok [of c s]) simp
next
  case (DoRelease c)
  then show ?thesis using that assms by (rule_tac Release_ok [of c s]) simp_all
qed

lemma resume_ok:
  obtains x where "resume l s = Inr x" and "segment_ok s (wanted l) 0 x"
proof (cases l)
  case StopLoop
  then show ?thesis using that by (rule_tac Stop_loop_ok [of s]) simp
next
  case StartLoop
  then show ?thesis using that by (rule_tac Start_ok [of s]) simp
next
  case (AcquireLoop c)
  then show ?thesis using that by (rule_tac Acquire_loop_ok [of c s]) simp
next
  case (AlwaysStarted c)
  then show ?thesis using that by (rule_tac AcquireAlways_ok [of c s]) simp
next
  case (AlwaysLoop c)
  then show ?thesis using that by (rule_tac AcquireAlways_loop_ok [of c s]) simp
qed

section \<open>The invariant of the system\<close>

definition sys_ok :: "sys \<Rightarrow> bool" where
  "sys_ok S \<longleftrightarrow> unat (pending_cost (sem S)) = held S
    \<and> (stopping (sem S) \<longrightarrow> stopped (sem S))
    \<and> (stopping (sem S) \<longrightarrow> (\<exists>t. in_stop (threads S t)))
    \<and> (\<forall>t cv l. threads S t = Blocked cv l \<longrightarrow> waits_for (sem S) cv l)"

lemma in_stop_wake [simp]: "in_stop (wake signals p) = in_stop p"
  by (cases p) (auto simp: wake_def)

lemma wake_Blocked: "wake signals p = Blocked cv l \<longleftrightarrow> p = Blocked cv l \<and> cv \<notin> set signals"
  by (cases p) (auto simp: wake_def)

lemma next_pc_Blocked: "next_pc a = Blocked cv l \<longleftrightarrow> a = Wait cv l"
  by (cases a) (auto simp: next_pc_def)

lemma segment_preserves:
  assumes "sys_ok S" and seg: "segment_ok (sem S) n r (s', signals, a)"
    and stop: "stopping s' \<longrightarrow> (\<exists>cv. a = Wait cv StopLoop) \<or> (stopping (sem S) \<and> \<not> in_stop (threads S t))"
  shows "sys_ok \<lparr>sem = s', threads = (\<lambda>u. wake signals (threads S u))(t := next_pc a),
    held = held S + granted n a - r\<rparr>"
proof -
  let ?th = "(\<lambda>u. wake signals (threads S u))(t := next_pc a)"
  have "unat (pending_cost s') = held S + granted n a - r" "stopping s' \<longrightarrow> stopped s'"
    using assms(1) seg by (auto simp: sys_ok_def segment_ok_def)
  moreover have "\<exists>u. in_stop (?th u)" if s': "stopping s'"
  proof (cases "\<exists>cv. a = Wait cv StopLoop")
    case True
    then show ?thesis by (intro exI [of _ t]) (auto simp: next_pc_def)
  next
    case False
    then obtain u where "in_stop (threads S u)" "u \<noteq> t"
      using s' stop assms(1) by (auto simp: sys_ok_def)
    then show ?thesis by (intro exI [of _ u]) simp
  qed
  moreover have "waits_for s' cv l" if "?th u = Blocked cv l" for u cv l
    using that assms(1) seg
    by (cases "u = t") (auto simp: sys_ok_def segment_ok_def wake_Blocked next_pc_Blocked)
  ultimately show ?thesis by (auto simp: sys_ok_def)
qed

lemma segment_ok_stopping:
  "segment_ok s n r (s', signals, a) \<Longrightarrow> stopping s' \<Longrightarrow> (\<exists>cv. a = Wait cv StopLoop) \<or> stopping s"
  by (auto simp: segment_ok_def)

lemma Stop_loop_stopping:
  "Stop_loop s = Inr (s', signals, a) \<Longrightarrow> stopping s' \<Longrightarrow> \<exists>cv. a = Wait cv StopLoop"
  by (auto simp: Stop_loop_def split: if_splits)

lemma sys_ok_step: "step S S' \<Longrightarrow> sys_ok S \<Longrightarrow> sys_ok S'"
proof (induction rule: step.induct)
  case (invoke S t p s' signals a)
  have "released p \<le> unat (pending_cost (sem S))"
    using invoke by (simp add: sys_ok_def)
  then have seg: "segment_ok (sem S) (requested p) (released p) (s', signals, a)"
    using invoke(3) invoke_ok by (metis sum.inject(2))
  show ?case
    using segment_preserves [OF invoke(4) seg] segment_ok_stopping [OF seg] invoke(1) by simp
next
  case (resume S t l s' signals a)
  have seg: "segment_ok (sem S) (wanted l) 0 (s', signals, a)"
    using resume(2) resume_ok by (metis sum.inject(2))
  have "stopping s' \<longrightarrow> (\<exists>cv. a = Wait cv StopLoop) \<or> (stopping (sem S) \<and> \<not> in_stop (threads S t))"
    using segment_ok_stopping [OF seg] resume(1,2) Stop_loop_stopping by (cases "l = StopLoop") auto
  from segment_preserves [OF resume(3) seg this] show ?case by simp
next
  case (spurious S t cv l)
  then show ?case
    by (auto simp: sys_ok_def) (metis in_stop.simps(1,2))
qed

lemma sys_ok_reachable: "reachable m S \<Longrightarrow> sys_ok S"
proof (induction rule: reachable.induct)
  case start
  then show ?case by (simp add: sys_ok_def initial_def new_Semaphore_def)
next
  case (step S S')
  then show ?case by (blast intro: sys_ok_step)
qed

section \<open>Runs\<close>

lemma reachable_invoke:
  assumes "reachable m S" and "threads S t = Idle" and "released p \<le> held S"
    and "invoke p (sem S) = Inr (s', signals, a)"
    and "S' = \<lparr>sem = s', threads = (\<lambda>u. wake signals (threads S u))(t := next_pc a),
            held = held S + granted (requested p) a - released p\<rparr>"
  shows "reachable m S'"
  using assms reachable.step step.invoke by blast

lemma reachable_resume:
  assumes "reachable m S" and "threads S t = Woken l" and "resume l (sem S) = Inr (s', signals, a)"
    and "S' = \<lparr>sem = s', threads = (\<lambda>u. wake signals (threads S u))(t := next_pc a),
            held = held S + granted (wanted l) a\<rparr>"
  shows "reachable m S'"
  using assms reachable.step step.resume by blast

abbreviation sem_at :: "u64 \<Rightarrow> bool \<Rightarrow> bool \<Rightarrow> Sem" where
  "sem_at c st sg \<equiv>
    \<lparr>pending_cost = c, max_cost = 10, stopped = st, stopping = sg, stop_on_exit = True\<rparr>"

lemmas run_simps = invoke.simps resume.simps Stop_def Stop_loop_def Start_def Acquire_def Acquire_loop_def
  CanAcquire_def take_cost_def Release_def wake_def next_pc_def granted_def Let_def fun_eq_iff

text \<open>Thread \<open>0\<close> has acquired a cost of 5, thread \<open>1\<close> waits for 8.\<close>

lemma run_acquired: "reachable 10 \<lparr>sem = sem_at 5 False False, threads = (\<lambda>_. Idle), held = 5\<rparr>"
  by (rule reachable_invoke [OF reachable.start, where t = 0 and p = "DoAcquire 5"])
    (simp_all add: initial_def new_Semaphore_def run_simps, simp add: run_simps)

lemma run_waiting: "reachable 10 \<lparr>sem = sem_at 5 False False,
    threads = (\<lambda>_. Idle)(1 := Blocked acquire_changed (AcquireLoop 8)), held = 5\<rparr>"
  by (rule reachable_invoke [OF run_acquired, where t = 1 and p = "DoAcquire 8"])
    (simp_all add: run_simps, simp add: run_simps)

text \<open>Nothing is held, and thread \<open>1\<close> waits for a cost above the maximum.\<close>

lemma run_too_much: "reachable 10 \<lparr>sem = sem_at 0 False False,
    threads = (\<lambda>_. Idle)(1 := Blocked acquire_changed (AcquireLoop 20)), held = 0\<rparr>"
  by (rule reachable_invoke [OF reachable.start, where t = 1 and p = "DoAcquire 20"])
    (simp_all add: initial_def new_Semaphore_def run_simps, simp add: run_simps)

text \<open>Two stops wait for the same release; then the first one finishes, and the semaphore is restarted.\<close>

lemma run_one_stop: "reachable 10 \<lparr>sem = sem_at 5 True True,
    threads = (\<lambda>_. Idle)(1 := Blocked no_pending_ops StopLoop), held = 5\<rparr>"
  by (rule reachable_invoke [OF run_acquired, where t = 1 and p = DoStop])
    (simp_all add: run_simps, simp add: run_simps)

lemma run_two_stops: "reachable 10 \<lparr>sem = sem_at 5 True True,
    threads = (\<lambda>_. Idle)(1 := Blocked no_pending_ops StopLoop, 2 := Blocked no_pending_ops StopLoop), held = 5\<rparr>"
  by (rule reachable_invoke [OF run_one_stop, where t = 2 and p = DoStop])
    (simp_all add: run_simps, simp add: run_simps)

lemma run_released: "reachable 10 \<lparr>sem = sem_at 0 True True,
    threads = (\<lambda>_. Idle)(1 := Woken StopLoop, 2 := Woken StopLoop), held = 0\<rparr>"
  by (rule reachable_invoke [OF run_two_stops, where t = 0 and p = "DoRelease 5"])
    (simp_all add: run_simps, simp add: run_simps)

lemma run_first_stopped: "reachable 10 \<lparr>sem = sem_at 0 True False,
    threads = (\<lambda>_. Idle)(2 := Woken StopLoop), held = 0\<rparr>"
  by (rule reachable_resume [OF run_released, where t = 1 and l = StopLoop])
    (simp_all add: run_simps, simp add: run_simps)

lemma run_restarted: "reachable 10 \<lparr>sem = sem_at 0 False False,
    threads = (\<lambda>_. Idle)(2 := Woken StopLoop), held = 0\<rparr>"
  by (rule reachable_invoke [OF run_first_stopped, where t = 1 and p = DoStart])
    (simp_all add: run_simps, simp add: run_simps)

lemma run_acquired_again: "reachable 10 \<lparr>sem = sem_at 5 False False,
    threads = (\<lambda>_. Idle)(2 := Woken StopLoop), held = 5\<rparr>"
  by (rule reachable_invoke [OF run_restarted, where t = 1 and p = "DoAcquire 5"])
    (simp_all add: run_simps, simp add: run_simps)

lemma run_forgotten_stop: "reachable 10 \<lparr>sem = sem_at 5 False False,
    threads = (\<lambda>_. Idle)(2 := Blocked no_pending_ops StopLoop), held = 5\<rparr>"
  by (rule reachable_resume [OF run_acquired_again, where t = 2 and l = StopLoop])
    (simp_all add: run_simps, simp add: run_simps)

section \<open>Properties\<close>

text \<open>
  Property C4.  Under every interleaving of calls, wakeups and spurious wakeups, with callers that
  release no more than is held: the 64-bit counter equals the cost held, so it never wraps; a stop
  in progress implies the stopped state; and no wakeup is lost: whoever is blocked still has the reason
  for which it blocked (a stop has pending cost, a start has a stop in progress, an acquire lacks the
  resources on a running semaphore, and \<open>AcquireAlways\<close> waits for a start while it is stopped).
\<close>

theorem semaphore_invariant:
  assumes "reachable m S"
  shows "unat (pending_cost (sem S)) = held S
    \<and> (stopping (sem S) \<longrightarrow> stopped (sem S))
    \<and> (\<forall>t cv l. threads S t = Blocked cv l \<longrightarrow> waits_for (sem S) cv l)"
  using sys_ok_reachable [OF assms] by (simp add: sys_ok_def)

theorem semaphore_invariant_witness:
  "waits_for (sem_at 5 False False) acquire_changed (AcquireLoop 8)"
proof -
  let ?S = "\<lparr>sem = sem_at 5 False False,
    threads = (\<lambda>_. Idle)(1 := Blocked acquire_changed (AcquireLoop 8)), held = 5\<rparr>"
  have "threads ?S 1 = Blocked acquire_changed (AcquireLoop 8)" by simp
  then have "waits_for (sem ?S) acquire_changed (AcquireLoop 8)"
    using semaphore_invariant [OF run_waiting] by blast
  then show ?thesis by (simp only: sys.simps)
qed

text \<open>
  Property C11.  No call and no resumed wait can fail a \<open>CHECK\<close> in a reachable state, as long as no more
  is released than is held; and whenever an acquire of a positive cost succeeds, the semaphore is
  running and the total cost, counted without wrap-around, is within the current maximum.
\<close>

theorem semaphore_never_aborts:
  assumes "reachable m S"
  shows "(\<forall>p. released p \<le> held S \<longrightarrow> (\<exists>s' signals a. invoke p (sem S) = Inr (s', signals, a)
      \<and> (a = Return True \<longrightarrow> 0 < requested p \<longrightarrow>
          held S + requested p \<le> unat (max_cost s') \<and> \<not> stopped s')))
    \<and> (\<forall>l. \<exists>s' signals a. resume l (sem S) = Inr (s', signals, a)
      \<and> (a = Return True \<longrightarrow> 0 < wanted l \<longrightarrow>
          held S + wanted l \<le> unat (max_cost s') \<and> \<not> stopped s'))"
proof (intro conjI allI impI)
  have held: "unat (pending_cost (sem S)) = held S"
    using sys_ok_reachable [OF assms] by (simp add: sys_ok_def)
  fix p
  assume p: "released p \<le> held S"
  obtain s' signals a where x: "invoke p (sem S) = Inr (s', signals, a)"
    "segment_ok (sem S) (requested p) (released p) (s', signals, a)"
    using invoke_ok [of p "sem S"] p held by (metis prod_cases3)
  moreover have "released p = 0" if "0 < requested p"
    using that by (cases p) auto
  ultimately show "\<exists>s' signals a. invoke p (sem S) = Inr (s', signals, a)
      \<and> (a = Return True \<longrightarrow> 0 < requested p \<longrightarrow>
          held S + requested p \<le> unat (max_cost s') \<and> \<not> stopped s')"
    using held by (auto simp: segment_ok_def granted_def)
next
  have held: "unat (pending_cost (sem S)) = held S"
    using sys_ok_reachable [OF assms] by (simp add: sys_ok_def)
  fix l
  obtain s' signals a where "resume l (sem S) = Inr (s', signals, a)"
    "segment_ok (sem S) (wanted l) 0 (s', signals, a)"
    using resume_ok by (metis prod_cases3)
  then show "\<exists>s' signals a. resume l (sem S) = Inr (s', signals, a)
      \<and> (a = Return True \<longrightarrow> 0 < wanted l \<longrightarrow>
          held S + wanted l \<le> unat (max_cost s') \<and> \<not> stopped s')"
    using held by (auto simp: segment_ok_def granted_def)
qed

theorem semaphore_never_aborts_witness:
  "\<exists>s' signals a. invoke (DoRelease 5) (sem_at 5 False False) = Inr (s', signals, a)"
  using semaphore_never_aborts [OF run_waiting] by (auto dest!: spec [of _ "DoRelease 5"])

text \<open>
  Property C29.  Stops and starts complete.  Once the whole cost has been released and every woken thread
  has run, no thread is left inside \<open>Stop\<close> or \<open>Start\<close>; a thread still blocked is in
  \<open>AcquireAlways\<close> on a stopped semaphore, or asks for more than the maximum.
\<close>

theorem semaphore_quiescent:
  assumes "reachable m S" and "held S = 0" and "\<forall>t l. threads S t \<noteq> Woken l"
  shows "\<not> stopping (sem S) \<and> (\<forall>t cv l. threads S t = Blocked cv l \<longrightarrow>
    (case l of
       StopLoop \<Rightarrow> False
     | StartLoop \<Rightarrow> False
     | AcquireLoop c \<Rightarrow> unat (max_cost (sem S)) < unat c
     | AlwaysLoop c \<Rightarrow> unat (max_cost (sem S)) < unat c
     | AlwaysStarted c \<Rightarrow> stopped (sem S)))"
proof -
  have ok: "unat (pending_cost (sem S)) = 0"
    "stopping (sem S) \<longrightarrow> (\<exists>t. in_stop (threads S t))"
    "\<forall>t cv l. threads S t = Blocked cv l \<longrightarrow> waits_for (sem S) cv l"
    using sys_ok_reachable [OF assms(1)] assms(2) by (simp_all add: sys_ok_def)
  have "\<not> in_stop (threads S t)" for t
  proof (cases "threads S t")
    case (Blocked cv l)
    then have "waits_for (sem S) cv l" using ok(3) by blast
    then show ?thesis using Blocked ok(1) by (auto simp: unsigned_eq_0_iff)
  qed (use assms(3) in auto)
  then have "\<not> stopping (sem S)"
    using ok(2) by blast
  then show ?thesis
    using ok(1,3) by (fastforce simp: CanAcquire_iff unsigned_eq_0_iff split: loc.split)
qed

theorem semaphore_quiescent_witness:
  "\<exists>S. reachable 10 S \<and> threads S 1 = Blocked acquire_changed (AcquireLoop 20) \<and> held S = 0
    \<and> \<not> stopping (sem S) \<and> unat (max_cost (sem S)) < unat (20 :: u64)"
proof -
  let ?S = "\<lparr>sem = sem_at 0 False False,
    threads = (\<lambda>_. Idle)(1 := Blocked acquire_changed (AcquireLoop 20)), held = 0\<rparr>"
  have "held ?S = 0" "\<forall>t l. threads ?S t \<noteq> Woken l" "threads ?S 1 = Blocked acquire_changed (AcquireLoop 20)"
    by simp_all
  with semaphore_quiescent [OF run_too_much] show ?thesis
    using run_too_much by fastforce
qed

text \<open>
  Property C33.  A stop can be forgotten.  Two overlapping calls of \<open>Stop\<close> are woken by the same release;
  the first finishes and clears \<open>stopping_\<close>, a \<open>Start\<close> and an \<open>Acquire\<close> come in between, and the
  second goes back to waiting on a semaphore that is neither stopped nor stopping and grants acquires,
  although its caller asked for all further acquires to be refused until it returns.
\<close>

theorem overlapping_Stop_forgotten:
  "\<exists>S t. reachable 10 S \<and> threads S t = Blocked no_pending_ops StopLoop
    \<and> \<not> stopped (sem S) \<and> \<not> stopping (sem S)
    \<and> (\<exists>s'. invoke (DoAcquire 5) (sem S) = Inr (s', [], Return True))"
  using run_forgotten_stop
  by (intro exI [of _ "\<lparr>sem = sem_at 5 False False,
    threads = (\<lambda>_. Idle)(2 := Blocked no_pending_ops StopLoop), held = 5\<rparr>"] exI [of _ 2])
    (simp add: run_simps)

end
