(* ===== verification/IntervalSet.thy ===== *)
theory IntervalSet
  imports Gloop_Prelude
begin

text \<open>
  Half-open intervals and sets of them, \<^verbatim>\<open>src/gloop/util/gtl/interval.h\<close> and
  \<^verbatim>\<open>interval_set.h\<close>.

  The type \<open>T\<close> of the bounds is any linear order; \<open>T()\<close>, the bound of a default interval, is \<open>0\<close>.
  An \<open>absl::btree_set\<close> is the list of its elements in the order of its comparator, an iterator is a
  position in that list and the end iterator its length.  Loops that advance two iterators are
  partial functions into \<open>option\<close>.
\<close>

section \<open>Intervals\<close>

record 'a Interval =
  i_start :: 'a
  i_limit :: 'a

definition ivl :: "'a \<Rightarrow> 'a \<Rightarrow> 'a Interval" where
  "ivl a b = \<lparr>i_start = a, i_limit = b\<rparr>"

definition default_ivl :: "'a::zero Interval" where
  "default_ivl = ivl 0 0"

definition i_empty :: "'a::linorder Interval \<Rightarrow> bool" where
  "i_empty i = (i_start i \<ge> i_limit i)"

definition i_length :: "'a::{linorder, minus} Interval \<Rightarrow> 'a" where
  "i_length i = (if i_empty i then i_start i else i_limit i) - i_start i"

definition i_contains :: "'a::linorder Interval \<Rightarrow> 'a \<Rightarrow> bool" where
  "i_contains i t = (i_start i \<le> t \<and> i_limit i > t)"

definition i_contains_ivl :: "'a::linorder Interval \<Rightarrow> 'a Interval \<Rightarrow> bool" where
  "i_contains_ivl x i =
    (\<not> i_empty x \<and> \<not> i_empty i \<and> i_start x \<le> i_start i \<and> i_limit x \<ge> i_limit i)"

definition i_Intersects :: "'a::linorder Interval \<Rightarrow> 'a Interval \<Rightarrow> bool" where
  "i_Intersects x i =
    (\<not> i_empty x \<and> \<not> i_empty i \<and> i_start x < i_limit i \<and> i_limit x > i_start i)"

definition i_Intersects_out :: "'a::linorder Interval \<Rightarrow> 'a Interval \<Rightarrow> 'a Interval option" where
  "i_Intersects_out x i =
    (if \<not> i_Intersects x i then None
     else Some (ivl (max (i_start x) (i_start i)) (min (i_limit x) (i_limit i))))"

definition i_IntersectWith :: "'a::linorder Interval \<Rightarrow> 'a Interval \<Rightarrow> 'a Interval \<times> bool" where
  "i_IntersectWith x i =
    (if i_empty x then (x, False)
     else
       (let (x, modified) =
          (if i_start i > i_start x then (x\<lparr>i_start := i_start i\<rparr>, True) else (x, False)) in
        if i_limit i < i_limit x then (x\<lparr>i_limit := i_limit i\<rparr>, True) else (x, modified)))"

definition i_SpanningUnion :: "'a::linorder Interval \<Rightarrow> 'a Interval \<Rightarrow> 'a Interval \<times> bool" where
  "i_SpanningUnion x i =
    (if i_empty i then (x, False)
     else if i_empty x then (i, True)
     else
       (let (x, modified) =
          (if i_start i < i_start x then (x\<lparr>i_start := i_start i\<rparr>, True) else (x, False)) in
        if i_limit i > i_limit x then (x\<lparr>i_limit := i_limit i\<rparr>, True) else (x, modified)))"

text \<open>The result, \<open>lo\<close> and \<open>hi\<close>.\<close>

definition i_Difference ::
  "'a::{linorder, zero} Interval \<Rightarrow> 'a Interval \<Rightarrow> bool \<times> 'a Interval \<times> 'a Interval" where
  "i_Difference x i =
    (if i_empty x then (False, default_ivl, default_ivl)
     else if i_empty i then (False, x, default_ivl)
     else if i_start x < i_limit i \<and> i_start x \<ge> i_start i \<and> i_limit x > i_limit i
     then (True, default_ivl, ivl (i_limit i) (i_limit x))
     else if i_limit x > i_start i \<and> i_limit x \<le> i_limit i \<and> i_start x < i_start i
     then (True, ivl (i_start x) (i_start i), default_ivl)
     else if i_start x < i_start i \<and> i_limit x > i_limit i
     then (True, ivl (i_start x) (i_start i), ivl (i_limit i) (i_limit x))
     else if i_start x \<ge> i_start i \<and> i_limit x \<le> i_limit i
     then (True, default_ivl, default_ivl)
     else (False, x, default_ivl))"

partial_function (option) i_Split_loop ::
  "('a::linorder \<Rightarrow> 'a) \<Rightarrow> 'a \<Rightarrow> 'a \<Rightarrow> 'a Interval list option" where
  "i_Split_loop next_si_limit_fn limit si_start =
    (if si_start < limit then
       (let si_limit = min (next_si_limit_fn si_start) limit in
        Option.bind (i_Split_loop next_si_limit_fn limit si_limit)
          (\<lambda>is. Some (ivl si_start si_limit # is)))
     else Some [])"

definition i_Split :: "('a::linorder \<Rightarrow> 'a) \<Rightarrow> 'a Interval \<Rightarrow> 'a Interval list option" where
  "i_Split next_si_limit_fn i = i_Split_loop next_si_limit_fn (i_limit i) (i_start i)"

definition i_equal :: "'a::linorder Interval \<Rightarrow> 'a Interval \<Rightarrow> bool" where
  "i_equal a b =
    (let ae = i_empty a; be = i_empty b in
     if ae \<and> be then True
     else if ae \<noteq> be then False
     else i_start a = i_start b \<and> i_limit a = i_limit b)"

definition i_less :: "'a::linorder Interval \<Rightarrow> 'a Interval \<Rightarrow> bool" where
  "i_less a b = (i_start a < i_start b \<or> (\<not> i_start b < i_start a \<and> i_limit b < i_limit a))"

section \<open>The ordered container\<close>

type_synonym 'a intervals = "'a Interval list"

definition IntervalLess :: "'a::linorder Interval \<Rightarrow> 'a Interval \<Rightarrow> bool" where
  "IntervalLess a b =
    (i_start a < i_start b \<or> (i_start a = i_start b \<and> i_limit a > i_limit b))"

definition IntervalLess_point :: "'a::linorder \<Rightarrow> 'a Interval \<Rightarrow> bool" where
  "IntervalLess_point a b = (a < i_start b)"

definition IntervalLess_to_point :: "'a::linorder Interval \<Rightarrow> 'a \<Rightarrow> bool" where
  "IntervalLess_to_point a b = (i_start a < b \<or> (i_start a = b \<and> i_limit a > b))"

definition upper_bound :: "'a::linorder Interval \<Rightarrow> 'a intervals \<Rightarrow> nat" where
  "upper_bound x xs = length (takeWhile (\<lambda>y. \<not> IntervalLess x y) xs)"

definition upper_bound_point :: "'a::linorder \<Rightarrow> 'a intervals \<Rightarrow> nat" where
  "upper_bound_point v xs = length (takeWhile (\<lambda>y. \<not> IntervalLess_point v y) xs)"

definition lower_bound_point :: "'a::linorder \<Rightarrow> 'a intervals \<Rightarrow> nat" where
  "lower_bound_point v xs = length (takeWhile (\<lambda>y. IntervalLess_to_point y v) xs)"

text \<open>\<open>insert\<close> and \<open>emplace\<close>: the set, the position of the element, and whether it is new.\<close>

definition set_insert :: "'a::linorder Interval \<Rightarrow> 'a intervals \<Rightarrow> 'a intervals \<times> nat \<times> bool" where
  "set_insert x xs =
    (let pos = length (takeWhile (\<lambda>y. IntervalLess y x) xs) in
     if pos < length xs \<and> \<not> IntervalLess x (xs ! pos) then (xs, pos, False)
     else (take pos xs @ x # drop pos xs, pos, True))"

definition erase_at :: "nat \<Rightarrow> 'a intervals \<Rightarrow> 'a intervals" where
  "erase_at it xs = take it xs @ drop (Suc it) xs"

definition ReplaceInterval :: "nat \<Rightarrow> 'a::linorder Interval \<Rightarrow> 'a intervals \<Rightarrow> 'a intervals \<times> nat" where
  "ReplaceInterval it interval xs =
    (case set_insert interval (erase_at it xs) of (xs, it, inserted) \<Rightarrow> (xs, it))"

section \<open>Merging\<close>

lemma length_erase_at: "length (erase_at it xs) = (if it < length xs then length xs - 1 else length xs)"
  by (auto simp: erase_at_def)

lemma length_set_insert:
  "set_insert x xs = (ys, pos, b) \<Longrightarrow> length ys = (if b then Suc (length xs) else length xs) \<and> pos < length ys"
proof -
  have "length (takeWhile (\<lambda>y. IntervalLess y x) xs) \<le> length xs"
    by (rule length_takeWhile_le)
  then show "set_insert x xs = (ys, pos, b) \<Longrightarrow>
      length ys = (if b then Suc (length xs) else length xs) \<and> pos < length ys"
    by (auto simp: set_insert_def Let_def split: if_splits)
qed

lemma length_ReplaceInterval:
  "ReplaceInterval it x xs = (ys, pos) \<Longrightarrow> it < length xs \<Longrightarrow> length ys \<le> length xs \<and> pos < length ys"
  using length_set_insert [of x "erase_at it xs"]
  by (fastforce simp: ReplaceInterval_def length_erase_at split: prod.splits if_splits)

text \<open>
  In the loop of \<open>Compact\<close>, \<open>prev\<close> is always the position before \<open>it\<close>: only \<open>prev\<close> is carried.
\<close>

function Compact_loop ::
  "('a::linorder Interval \<Rightarrow> bool) \<Rightarrow> nat \<Rightarrow> 'a intervals \<Rightarrow> 'a intervals" where
  "Compact_loop should_continue prev xs =
    (let it = prev + 1 in
     if it < length xs \<and> should_continue (xs ! it) then
       if i_limit (xs ! prev) \<ge> i_start (xs ! it) then
         if i_limit (xs ! prev) < i_limit (xs ! it) then
           (case ReplaceInterval prev (ivl (i_start (xs ! prev)) (i_limit (xs ! it))) xs of
              (xs, prev) \<Rightarrow> Compact_loop should_continue prev (erase_at (prev + 1) xs))
         else Compact_loop should_continue prev (erase_at it xs)
       else Compact_loop should_continue it xs
     else xs)"
  by pat_completeness auto
termination
proof (relation "measures [\<lambda>(c, prev, xs). length xs, \<lambda>(c, prev, xs). length xs - prev]", goal_cases)
  case (2 c prev xs it a b)
  then show ?case
    using length_ReplaceInterval [of prev "ivl (i_start (xs ! prev)) (i_limit (xs ! it))" xs a b]
    by (auto simp: length_erase_at)
qed (auto simp: length_erase_at)

declare Compact_loop.simps [simp del]

definition Compact :: "nat \<Rightarrow> ('a::linorder Interval \<Rightarrow> bool) \<Rightarrow> 'a intervals \<Rightarrow> 'a intervals" where
  "Compact begin should_continue xs =
    (if begin = length xs then xs else Compact_loop should_continue begin xs)"

section \<open>Operations\<close>

definition AddImpl :: "'a::linorder Interval \<Rightarrow> 'a intervals \<Rightarrow> 'a intervals" where
  "AddImpl interval xs =
    (if i_empty interval then xs
     else case set_insert interval xs of (xs, it, inserted) \<Rightarrow>
       if \<not> inserted then xs
       else
         (let limit = i_limit (xs ! it);
              it = (if it \<noteq> 0 then it - 1 else it);
              e = upper_bound_point limit xs in
          if e = length xs then Compact it (\<lambda>_. True) xs
          else
            (let actual_end = i_start (xs ! e) in
             Compact it (\<lambda>current. IntervalLess_to_point current actual_end) xs)))"

definition InitImpl :: "'a::linorder Interval \<Rightarrow> 'a intervals" where
  "InitImpl interval = (if i_empty interval then [] else [interval])"

definition Add_set :: "'a::linorder intervals \<Rightarrow> 'a intervals \<Rightarrow> 'a intervals" where
  "Add_set other xs = fold AddImpl other xs"

definition IntervalSet_assign :: "'a::linorder Interval list \<Rightarrow> 'a intervals" where
  "IntervalSet_assign il = fold AddImpl il []"

definition SpanningInterval :: "'a::{linorder, zero} intervals \<Rightarrow> 'a Interval" where
  "SpanningInterval xs =
    (if xs \<noteq> [] then ivl (i_start (hd xs)) (i_limit (last xs)) else default_ivl)"

definition Contains_value :: "'a::linorder \<Rightarrow> 'a intervals \<Rightarrow> bool" where
  "Contains_value v xs =
    (let it = upper_bound_point v xs in
     if it = 0 then False else i_contains (xs ! (it - 1)) v)"

definition Contains_interval :: "'a::linorder Interval \<Rightarrow> 'a intervals \<Rightarrow> bool" where
  "Contains_interval interval xs =
    (let it = upper_bound interval xs in
     if it = 0 then False else i_contains_ivl (xs ! (it - 1)) interval)"

definition Contains_set :: "'a::linorder intervals \<Rightarrow> 'a intervals \<Rightarrow> bool" where
  "Contains_set other xs =
    (if xs = [] \<or> other = [] \<or> i_start (hd xs) > i_start (hd other)
        \<or> i_limit (last xs) < i_limit (last other)
     then False
     else list_all (\<lambda>i. Contains_interval i xs) other)"

definition Find :: "'a::linorder \<Rightarrow> 'a intervals \<Rightarrow> nat" where
  "Find v xs =
    (let it = upper_bound_point v xs in
     if it = 0 then length xs
     else if i_contains (xs ! (it - 1)) v then it - 1 else length xs)"

definition Find_interval :: "'a::linorder Interval \<Rightarrow> 'a intervals \<Rightarrow> nat" where
  "Find_interval probe xs =
    (let it = upper_bound probe xs in
     if it = 0 then length xs
     else if i_contains_ivl (xs ! (it - 1)) probe then it - 1 else length xs)"

definition LowerBound :: "'a::linorder \<Rightarrow> 'a intervals \<Rightarrow> nat" where
  "LowerBound v xs =
    (let it = lower_bound_point v xs in
     if it = 0 then it else if i_contains (xs ! (it - 1)) v then it - 1 else it)"

definition UpperBound :: "'a::linorder \<Rightarrow> 'a intervals \<Rightarrow> nat" where
  "UpperBound v xs = upper_bound_point v xs"

definition IsDisjoint :: "'a::linorder Interval \<Rightarrow> 'a intervals \<Rightarrow> bool" where
  "IsDisjoint interval xs =
    (if i_empty interval then True
     else
       (let it = upper_bound_point (i_start interval) xs in
        if it < length xs \<and> i_limit interval > i_start (xs ! it) then False
        else if it = 0 then True
        else i_limit (xs ! (it - 1)) \<le> i_start interval))"

definition IntersectsInterval :: "'a::linorder Interval \<Rightarrow> 'a intervals \<Rightarrow> bool" where
  "IntersectsInterval interval xs = (\<not> IsDisjoint interval xs)"

definition Union_set :: "'a::linorder intervals \<Rightarrow> 'a intervals \<Rightarrow> 'a intervals" where
  "Union_set other xs = Compact 0 (\<lambda>_. True) (fold (\<lambda>i xs. fst (set_insert i xs)) other xs)"

definition FindIntersectionCandidate :: "'a::linorder Interval \<Rightarrow> 'a intervals \<Rightarrow> nat" where
  "FindIntersectionCandidate interval xs =
    (let mine = upper_bound interval xs in if mine \<noteq> 0 then mine - 1 else mine)"

text \<open>The end of \<open>Difference\<close>: the covered intervals from \<open>it\<close> on, and the one after them.\<close>

definition erase_covered :: "'a::linorder Interval \<Rightarrow> nat \<Rightarrow> 'a intervals \<Rightarrow> 'a intervals" where
  "erase_covered interval it xs =
    (let xs = take it xs @ dropWhile (\<lambda>i. i_limit i \<le> i_limit interval) (drop it xs) in
     if it < length xs \<and> i_start (xs ! it) < i_limit interval
     then fst (ReplaceInterval it (ivl (i_limit interval) (i_limit (xs ! it))) xs)
     else xs)"

text \<open>\<open>interval\<close> may be an element of the set itself: \<open>own\<close> is then its position.\<close>

definition Difference_interval ::
  "nat option \<Rightarrow> 'a::{linorder, zero} Interval \<Rightarrow> 'a intervals \<Rightarrow> 'a intervals" where
  "Difference_interval own interval xs =
    (if \<not> i_Intersects (SpanningInterval xs) interval then xs
     else
       (let it = FindIntersectionCandidate interval xs in
        if it = length xs then xs
        else if own = Some it then erase_at it xs
        else
          (case (if i_start (xs ! it) < i_start interval then
                   (case i_Difference (xs ! it) interval of (intersects, lo, hi) \<Rightarrow>
                      if intersects then
                        (case ReplaceInterval it lo xs of (xs, it) \<Rightarrow>
                           if \<not> i_empty hi then (fst (set_insert hi xs), it, True)
                           else (xs, it + 1, False))
                      else (xs, it + 1, False))
                 else (xs, it, False)) of
             (xs, it, finished) \<Rightarrow>
               if finished then xs else erase_covered interval it xs)))"

section \<open>Walking over two sets\<close>

definition skip_while :: "('b \<Rightarrow> bool) \<Rightarrow> 'b list \<Rightarrow> nat \<Rightarrow> nat" where
  "skip_while P xs n = n + length (takeWhile P (drop n xs))"

text \<open>
  \<open>on_hole\<close> erases the positions from the first to the second and returns the position that follows, or
  keeps them, according to \<open>erase\<close>.  The result is whether a pair was found, and the new \<open>x\<close>,
  \<open>mine\<close> and \<open>theirs\<close>.
\<close>

definition on_hole :: "bool \<Rightarrow> nat \<Rightarrow> nat \<Rightarrow> 'a intervals \<Rightarrow> 'a intervals \<times> nat" where
  "on_hole erase from to xs = (if erase then (take from xs @ drop to xs, from) else (xs, to))"

partial_function (option) FindNext_loop ::
  "bool \<Rightarrow> 'a::linorder intervals \<Rightarrow> 'a intervals \<Rightarrow> nat \<Rightarrow> nat \<Rightarrow>
   (bool \<times> 'a intervals \<times> nat \<times> nat) option" where
  "FindNext_loop erase xs ys mine theirs =
    (if i_Intersects (xs ! mine) (ys ! theirs) then Some (True, xs, mine, theirs)
     else
       (case on_hole erase mine (skip_while (\<lambda>i. i_limit i \<le> i_start (ys ! theirs)) xs mine) xs of
          (xs, mine) \<Rightarrow>
            if mine = length xs then Some (False, xs, mine, theirs)
            else
              (let theirs = skip_while (\<lambda>i. i_limit i \<le> i_start (xs ! mine)) ys theirs in
               if theirs = length ys
               then (case on_hole erase mine (length xs) xs of (xs, mine) \<Rightarrow> Some (False, xs, mine, theirs))
               else FindNext_loop erase xs ys mine theirs)))"

definition FindNextIntersectingPair ::
  "bool \<Rightarrow> 'a::linorder intervals \<Rightarrow> 'a intervals \<Rightarrow> nat \<Rightarrow> nat \<Rightarrow>
   (bool \<times> 'a intervals \<times> nat \<times> nat) option" where
  "FindNextIntersectingPair erase xs ys mine theirs =
    (if mine = length xs \<or> theirs = length ys then Some (False, xs, mine, theirs)
     else FindNext_loop erase xs ys mine theirs)"

text \<open>\<open>!SpanningInterval().Intersects(other.SpanningInterval())\<close>, as the code writes it.\<close>

definition apart :: "'a::linorder intervals \<Rightarrow> 'a intervals \<Rightarrow> bool" where
  "apart xs ys = (xs = [] \<or> ys = [] \<or> i_start (hd xs) \<ge> i_limit (last ys)
    \<or> i_limit (last xs) \<le> i_start (hd ys))"

definition Intersects :: "'a::linorder intervals \<Rightarrow> 'a intervals \<Rightarrow> bool option" where
  "Intersects other xs =
    (if apart xs other then Some False
     else
       (let mine = FindIntersectionCandidate (hd other) xs in
        if mine = length xs then Some False
        else
          (let theirs = FindIntersectionCandidate (xs ! mine) other in
           Option.bind (FindNextIntersectingPair False xs other mine theirs) (\<lambda>(found, _). Some found))))"

text \<open>The inner loop of \<open>Intersection\<close>: what \<open>i\<close> has in common with the intervals from \<open>theirs\<close> on.\<close>

fun insert_pieces ::
  "'a::linorder Interval \<Rightarrow> 'a intervals \<Rightarrow> 'a intervals \<times> nat \<times> nat \<Rightarrow> 'a intervals \<times> nat \<times> nat" where
  "insert_pieces i [] (xs, mine, theirs) = (xs, mine, theirs)"
| "insert_pieces i (y # ys) (xs, mine, theirs) =
    (case i_Intersects_out i y of
       None \<Rightarrow> (xs, mine, theirs)
     | Some common \<Rightarrow>
         (case set_insert common xs of (xs, mine, inserted) \<Rightarrow>
            insert_pieces i ys (xs, mine, theirs + 1)))"

partial_function (option) Intersection_loop ::
  "'a::linorder intervals \<Rightarrow> nat \<Rightarrow> nat \<Rightarrow> 'a intervals \<Rightarrow> 'a intervals option" where
  "Intersection_loop other mine theirs xs =
    Option.bind (FindNextIntersectingPair True xs other mine theirs) (\<lambda>(found, xs, mine, theirs).
      if \<not> found then Some xs
      else
        (let i = xs ! mine; xs = erase_at mine xs in
         case insert_pieces i (drop theirs other) (xs, length xs, theirs) of
           (xs, mine, theirs) \<Rightarrow> Intersection_loop other (mine + 1) (theirs - 1) xs))"

text \<open>\<open>same\<close> tells whether \<open>other\<close> is this very set.\<close>

definition Intersection :: "bool \<Rightarrow> 'a::linorder intervals \<Rightarrow> 'a intervals \<Rightarrow> 'a intervals option" where
  "Intersection same other xs =
    (if same then Some xs
     else if apart xs other then Some []
     else
       (let mine = FindIntersectionCandidate (hd other) xs;
            xs = drop mine xs;
            theirs = FindIntersectionCandidate (hd xs) other in
        Intersection_loop other 0 theirs xs))"

definition Intersection_interval :: "'a::linorder \<Rightarrow> 'a \<Rightarrow> 'a intervals \<Rightarrow> 'a intervals option" where
  "Intersection_interval s l xs = Intersection False (IntervalSet_assign [ivl s l]) xs"

definition GetIntersection_interval :: "'a::linorder Interval \<Rightarrow> 'a intervals \<Rightarrow> 'a intervals option" where
  "GetIntersection_interval i xs = Intersection False (InitImpl i) xs"

partial_function (option) Difference_loop ::
  "'a::{linorder, zero} intervals \<Rightarrow> nat \<Rightarrow> nat \<Rightarrow> 'a intervals \<Rightarrow> 'a intervals option" where
  "Difference_loop other mine theirs xs =
    Option.bind (FindNextIntersectingPair False xs other mine theirs) (\<lambda>(found, xs, mine, theirs).
      if \<not> found then Some xs
      else
        (case i_Difference (xs ! mine) (other ! theirs) of (b, lo, hi) \<Rightarrow>
           if \<not> i_empty hi then
             (case ReplaceInterval mine hi xs of (xs, mine) \<Rightarrow>
                if \<not> i_empty lo
                then (case set_insert lo xs of (xs, mine, ins) \<Rightarrow> Difference_loop other mine theirs xs)
                else Difference_loop other mine theirs xs)
           else if \<not> i_empty lo then
             (case ReplaceInterval mine lo xs of (xs, mine) \<Rightarrow> Difference_loop other (mine + 1) theirs xs)
           else Difference_loop other mine theirs (erase_at mine xs)))"

definition Difference_set ::
  "bool \<Rightarrow> 'a::{linorder, zero} intervals \<Rightarrow> 'a intervals \<Rightarrow> 'a intervals option" where
  "Difference_set same other xs =
    (if same then Some []
     else if apart xs other then Some xs
     else
       (let mine = FindIntersectionCandidate (hd other) xs in
        if mine = length xs then Some xs
        else Difference_loop other mine (FindIntersectionCandidate (hd xs) other) xs))"

definition Complement :: "'a::{linorder, zero} \<Rightarrow> 'a \<Rightarrow> 'a intervals \<Rightarrow> 'a intervals option" where
  "Complement s l xs = Difference_set False xs (InitImpl (ivl s l))"

definition Difference_range :: "'a::{linorder, zero} \<Rightarrow> 'a \<Rightarrow> 'a intervals \<Rightarrow> 'a intervals" where
  "Difference_range s l xs = Difference_interval None (ivl s l) xs"

text \<open>\<open>erase\<close>: the set, and the position of the interval that followed the erased one.\<close>

definition IntervalSet_erase :: "nat \<Rightarrow> 'a intervals \<Rightarrow> ('a intervals \<times> nat) outcome" where
  "IntervalSet_erase pos xs = require BadAccess (pos < length xs) (Inr (erase_at pos xs, pos))"

definition IntervalSet_Clear :: "'a intervals \<Rightarrow> 'a intervals" where
  "IntervalSet_Clear xs = []"

definition IntervalSet_Swap :: "'a intervals \<Rightarrow> 'a intervals \<Rightarrow> 'a intervals \<times> 'a intervals" where
  "IntervalSet_Swap xs other = (other, xs)"

definition IntervalSet_equal :: "'a::linorder intervals \<Rightarrow> 'a intervals \<Rightarrow> bool" where
  "IntervalSet_equal a b =
    (length a = length b
     \<and> list_all2 (\<lambda>x y. i_start x = i_start y \<and> i_limit x = i_limit y) a b)"

section \<open>Helpers for many sets and for integers\<close>

text \<open>
  The heap of \<open>UnionImpl\<close> holds what is left of each set; \<open>front heap\<close> is the position of the entry that
  the heap algorithms of the standard library keep in front, an entry whose first interval is minimal.
\<close>

lemma heap_shrinks:
  assumes "f < length heap" and "heap ! f \<noteq> []"
  shows "sum_list (map length (heap[f := tl (heap ! f)])) < sum_list (map length heap)"
    and "tl (heap ! f) = [] \<Longrightarrow>
      sum_list (map length (take f heap)) + sum_list (map length (drop (Suc f) heap))
      < sum_list (map length heap)"
proof -
  have "sum_list (map length heap) =
      sum_list (map length (take f heap)) + length (heap ! f) + sum_list (map length (drop (Suc f) heap))"
    using arg_cong [OF id_take_nth_drop [OF assms(1)], of "\<lambda>h. sum_list (map length h)"] by simp
  moreover obtain x xs where "heap ! f = x # xs"
    using assms(2) by (cases "heap ! f") auto
  ultimately show "tl (heap ! f) = [] \<Longrightarrow>
      sum_list (map length (take f heap)) + sum_list (map length (drop (Suc f) heap))
      < sum_list (map length heap)"
    and "sum_list (map length (heap[f := tl (heap ! f)])) < sum_list (map length heap)"
    using assms(1) by (simp_all add: upd_conv_take_nth_drop)
qed

function UnionImpl_loop ::
  "('a::linorder intervals list \<Rightarrow> nat) \<Rightarrow> 'a Interval \<Rightarrow> 'a intervals list \<Rightarrow> 'a intervals \<Rightarrow> 'a intervals" where
  "UnionImpl_loop front prior heap result =
    (if heap = [] \<or> front heap \<ge> length heap \<or> heap ! front heap = [] then AddImpl prior result
     else
       (let f = front heap;
            current = hd (heap ! f);
            left = tl (heap ! f);
            heap = (if left = [] then take f heap @ drop (Suc f) heap else heap[f := left]) in
        if i_start current \<le> i_limit prior \<and> i_limit current \<ge> i_start prior
        then UnionImpl_loop front
          (ivl (min (i_start prior) (i_start current)) (max (i_limit prior) (i_limit current))) heap result
        else UnionImpl_loop front current heap (AddImpl prior result)))"
  by pat_completeness auto
termination
proof (relation "measure (\<lambda>(front, prior, heap, result). sum_list (map length heap))", goal_cases)
  case (2 front prior heap result f current left heap')
  then show ?case by (auto simp: heap_shrinks)
next
  case (3 front prior heap result f current left heap')
  then show ?case by (auto simp: heap_shrinks)
qed simp

definition UnionImpl ::
  "('a::linorder intervals list \<Rightarrow> nat) \<Rightarrow> 'a intervals list \<Rightarrow> 'a intervals" where
  "UnionImpl front input_sets =
    (let heap = filter (\<lambda>xs. xs \<noteq> []) input_sets in
     if heap = [] then []
     else UnionImpl_loop front (hd (heap ! front heap)) heap [])"

text \<open>
  \<open>AddIntsToIntervalSet\<close> on integers below \<open>m\<close>, the largest value of the type; \<open>first\<close> and \<open>prev\<close> are
  the values at \<open>last_start\<close> and \<open>last_value\<close>.
\<close>

fun AddInts_loop :: "int \<Rightarrow> int \<Rightarrow> int \<Rightarrow> int list \<Rightarrow> int intervals \<Rightarrow> int intervals" where
  "AddInts_loop m first prev [] xs = AddImpl (ivl first (prev + 1)) xs"
| "AddInts_loop m first prev (v # vs) xs =
    (if v = m then AddInts_loop m first prev vs xs
     else if prev + 1 \<noteq> v then AddInts_loop m v v vs (AddImpl (ivl first (prev + 1)) xs)
     else AddInts_loop m first v vs xs)"

definition AddIntsToIntervalSet :: "int \<Rightarrow> int list \<Rightarrow> int intervals \<Rightarrow> int intervals" where
  "AddIntsToIntervalSet m ints xs =
    (case dropWhile (\<lambda>v. v = m) ints of [] \<Rightarrow> xs | v # vs \<Rightarrow> AddInts_loop m v v vs xs)"

fun Valid_from :: "'a::linorder Interval option \<Rightarrow> 'a intervals \<Rightarrow> bool" where
  "Valid_from prev [] = True"
| "Valid_from prev (i # is) =
    (if i_start i \<ge> i_limit i then False
     else if (case prev of None \<Rightarrow> False | Some p \<Rightarrow> i_limit p \<ge> i_start i) then False
     else Valid_from (Some i) is)"

definition Valid :: "'a::linorder intervals \<Rightarrow> bool" where
  "Valid xs = Valid_from None xs"

end
