(* ===== verification/IntervalSet_Proofs.thy ===== *)
theory IntervalSet_Proofs
  imports IntervalSet
begin

text \<open>
  Interval sets as sets of points.  A valid list of intervals is a normal form: it is determined by its
  points.  Every operation keeps the list valid and does to the points what its name says.
\<close>

section \<open>Points and the normal form\<close>

definition pts :: "'a::linorder Interval \<Rightarrow> 'a set" where
  "pts i = {i_start i ..< i_limit i}"

definition points :: "'a::linorder intervals \<Rightarrow> 'a set" where
  "points xs = (\<Union>i \<in> set xs. pts i)"

lemma points_simps [simp]:
  "points [] = {}" "points (i # is) = pts i \<union> points is" "points (xs @ ys) = points xs \<union> points ys"
  by (auto simp: points_def)

lemma ivl_simps [simp]: "i_start (ivl a b) = a" "i_limit (ivl a b) = b" "ivl (i_start i) (i_limit i) = i"
  by (simp_all add: ivl_def)

lemma pts_ivl [simp]: "pts (ivl a b) = {a ..< b}"
  by (simp add: pts_def)

lemma i_empty_iff: "i_empty i \<longleftrightarrow> \<not> i_start i < i_limit i"
  by (auto simp: i_empty_def)

lemma pts_empty: "i_empty i \<Longrightarrow> pts i = {}"
  by (simp add: pts_def i_empty_def)

definition normal :: "'a::linorder intervals \<Rightarrow> bool" where
  "normal xs \<longleftrightarrow> (\<forall>i \<in> set xs. i_start i < i_limit i) \<and> sorted_wrt (\<lambda>p i. i_limit p < i_start i) xs"

lemma normal_simps [simp]:
  "normal []"
  "normal (i # is) \<longleftrightarrow> i_start i < i_limit i \<and> (\<forall>j \<in> set is. i_limit i < i_start j) \<and> normal is"
  "normal (xs @ ys) \<longleftrightarrow> normal xs \<and> normal ys \<and> (\<forall>i \<in> set xs. \<forall>j \<in> set ys. i_limit i < i_start j)"
  by (auto simp: normal_def sorted_wrt_append)

lemma Valid_from_iff:
  "Valid_from prev xs \<longleftrightarrow> normal xs \<and> (\<forall>p. prev = Some p \<longrightarrow> (\<forall>i \<in> set xs. i_limit p < i_start i))"
proof (induction prev xs rule: Valid_from.induct)
  case (2 prev i "is")
  show ?case
  proof (cases "i_start i < i_limit i")
    case True
    then show ?thesis
      using 2 by (cases prev) (auto simp: not_le dest: less_trans intro: order.strict_trans)
  qed auto
qed auto

lemma Valid_iff: "Valid xs \<longleftrightarrow> normal xs"
  by (simp add: Valid_def Valid_from_iff)

section \<open>Merging\<close>

fun compact :: "('a::linorder Interval \<Rightarrow> bool) \<Rightarrow> 'a Interval \<Rightarrow> 'a intervals \<Rightarrow> 'a intervals" where
  "compact c p [] = [p]"
| "compact c p (i # is) =
    (if \<not> c i then p # i # is
     else if i_limit p \<ge> i_start i then compact c (ivl (i_start p) (max (i_limit p) (i_limit i))) is
     else p # compact c i is)"

text \<open>The container is sorted by its comparator.\<close>

definition ordered :: "'a::linorder intervals \<Rightarrow> bool" where
  "ordered xs \<longleftrightarrow> sorted_wrt IntervalLess xs"

lemma ordered_simps [simp]:
  "ordered []" "ordered (i # is) \<longleftrightarrow> (\<forall>j \<in> set is. IntervalLess i j) \<and> ordered is"
  "ordered (xs @ ys) \<longleftrightarrow> ordered xs \<and> ordered ys \<and> (\<forall>i \<in> set xs. \<forall>j \<in> set ys. IntervalLess i j)"
  by (auto simp: ordered_def sorted_wrt_append)

lemma IntervalLess_trans: "IntervalLess a b \<Longrightarrow> IntervalLess b c \<Longrightarrow> IntervalLess a c"
  by (auto simp: IntervalLess_def)

lemma IntervalLess_start: "IntervalLess a b \<Longrightarrow> i_start a \<le> i_start b"
  by (auto simp: IntervalLess_def)

lemma normal_ordered: "normal xs \<Longrightarrow> ordered xs"
  by (induction xs) (auto simp: IntervalLess_def intro: order.strict_trans)

lemma IntervalLess_asym: "IntervalLess a b \<Longrightarrow> \<not> IntervalLess b a"
  by (auto simp: IntervalLess_def)

lemma set_insert_at:
  assumes "\<forall>y \<in> set A. IntervalLess y x" and "\<forall>y \<in> set B. IntervalLess x y"
  shows "set_insert x (A @ B) = (A @ x # B, length A, True)"
proof -
  have "takeWhile (\<lambda>y. IntervalLess y x) B = []"
    using assms(2) by (cases B) (auto dest: IntervalLess_asym)
  then have tw: "takeWhile (\<lambda>y. IntervalLess y x) (A @ B) = A"
    using assms(1) by (simp add: takeWhile_append)
  show ?thesis
    unfolding set_insert_def Let_def tw using assms(2) by (cases B) simp_all
qed

lemma erase_at_append [simp]: "erase_at (length A) (A @ x # B) = A @ B"
  by (simp add: erase_at_def)

lemma ReplaceInterval_at:
  assumes "\<forall>y \<in> set A. IntervalLess y x" and "\<forall>y \<in> set B. IntervalLess x y"
  shows "ReplaceInterval (length A) x (A @ z # B) = (A @ x # B, length A)"
  using set_insert_at [OF assms] by (simp add: ReplaceInterval_def)

lemma Compact_loop_compact:
  assumes "ordered (A @ p # is)" and "\<forall>a \<in> set A. i_start a < i_start p"
    and "\<forall>i \<in> set (p # is). i_start i < i_limit i"
  shows "Compact_loop c (length A) (A @ p # is) = A @ compact c p is"
  using assms
proof (induction "is" arbitrary: A p)
  case Nil
  then show ?case by (simp add: Compact_loop.simps)
next
  case (Cons i "is")
  have nth: "(A @ p # i # is) ! length A = p" "(A @ p # i # is) ! Suc (length A) = i"
    by (simp_all add: nth_append)
  have erase: "erase_at (Suc (length A)) (A @ q # i # is) = A @ q # is" for q
    using erase_at_append [of "A @ [q]" i "is"] by simp
  let ?q = "ivl (i_start p) (max (i_limit p) (i_limit i))"
  have less: "IntervalLess p i" "\<forall>j \<in> set is. i_start i \<le> i_start j"
    using Cons.prems(1) IntervalLess_start by auto
  show ?case
  proof (cases "c i")
    case False
    then show ?thesis
      using nth by (simp add: Compact_loop.simps [of c "length A"])
  next
    case ci: True
    consider (apart) "i_limit p < i_start i"
      | (inside) "i_start i \<le> i_limit p" "i_limit i \<le> i_limit p"
      | (grow) "i_start i \<le> i_limit p" "i_limit p < i_limit i"
      by fastforce
    then show ?thesis
    proof cases
      case apart
      have "Compact_loop c (length (A @ [p])) ((A @ [p]) @ i # is) = (A @ [p]) @ compact c i is"
      proof (rule Cons.IH)
        have "i_start p < i_start i"
          using Cons.prems(3) apart by (auto intro: order.strict_trans)
        then show "\<forall>a \<in> set (A @ [p]). i_start a < i_start i"
          using Cons.prems(2) by (auto intro: order.strict_trans)
      qed (use Cons.prems in auto)
      then show ?thesis
        using apart [folded not_le] ci nth
        by (simp add: Compact_loop.simps [of c "length A" "A @ p # i # is"])
    next
      case inside
      then have q: "?q = p" by (simp add: max_def)
      have "Compact_loop c (length A) (A @ p # is) = A @ compact c p is"
        using Cons.prems by (intro Cons.IH) auto
      then show ?thesis
        using inside(1) inside(2) [folded not_less] ci nth q
        by (simp add: Compact_loop.simps [of c "length A" "A @ p # i # is"] erase)
    next
      case grow
      then have q: "?q = ivl (i_start p) (i_limit i)" by (simp add: max_def)
      have lt: "i_start p < i_start i"
        using less(1) grow(2) by (auto simp: IntervalLess_def)
      have q_less: "\<forall>a \<in> set A. IntervalLess a ?q" "\<forall>j \<in> set (i # is). IntervalLess ?q j"
        using Cons.prems(2) lt less(2) by (force simp: IntervalLess_def)+
      have "Compact_loop c (length A) (A @ ?q # is) = A @ compact c ?q is"
        using Cons.prems q_less by (intro Cons.IH) (auto simp: less_max_iff_disj)
      then show ?thesis
        using grow ci nth ReplaceInterval_at [OF q_less, of p] q
        by (simp add: Compact_loop.simps [of c "length A" "A @ p # i # is"] erase)
    qed
  qed
qed

text \<open>Merging everything gives the normal form of the same points.\<close>

lemma compact_all:
  assumes "\<forall>i \<in> set (p # is). i_start i < i_limit i" and "sorted_wrt (\<lambda>i j. i_start i \<le> i_start j) (p # is)"
  shows "normal (compact (\<lambda>_. True) p is)"
    and "points (compact (\<lambda>_. True) p is) = points (p # is)"
    and "\<forall>i \<in> set (compact (\<lambda>_. True) p is). i_start p \<le> i_start i"
proof -
  have "normal (compact (\<lambda>_. True) p is) \<and> points (compact (\<lambda>_. True) p is) = points (p # is)
    \<and> (\<forall>i \<in> set (compact (\<lambda>_. True) p is). i_start p \<le> i_start i)"
    using assms
  proof (induction "is" arbitrary: p)
    case Nil
    then show ?case by simp
  next
    case (Cons i "is")
    let ?q = "ivl (i_start p) (max (i_limit p) (i_limit i))"
    show ?case
    proof (cases "i_start i \<le> i_limit p")
      case True
      have "pts ?q = pts p \<union> pts i"
        using True Cons.prems by (auto simp: pts_def max_def split: if_splits)
      moreover have "normal (compact (\<lambda>_. True) ?q is) \<and> points (compact (\<lambda>_. True) ?q is) = points (?q # is)
          \<and> (\<forall>i \<in> set (compact (\<lambda>_. True) ?q is). i_start ?q \<le> i_start i)"
        using Cons.prems by (intro Cons.IH) (auto simp: less_max_iff_disj)
      ultimately show ?thesis
        using True by auto
    next
      case False
      have "normal (compact (\<lambda>_. True) i is) \<and> points (compact (\<lambda>_. True) i is) = points (i # is)
          \<and> (\<forall>j \<in> set (compact (\<lambda>_. True) i is). i_start i \<le> i_start j)"
        using Cons.prems by (intro Cons.IH) auto
      then show ?thesis
        using False Cons.prems by (auto simp: not_le)
    qed
  qed
  then show "normal (compact (\<lambda>_. True) p is)"
    and "points (compact (\<lambda>_. True) p is) = points (p # is)"
    and "\<forall>i \<in> set (compact (\<lambda>_. True) p is). i_start p \<le> i_start i"
    by auto
qed

lemma compact_normal: "normal (p # is) \<Longrightarrow> compact (\<lambda>_. True) p is = p # is"
  by (induction "is" arbitrary: p) auto

text \<open>
  Stopping early changes nothing when everything merged so far ends before the place of the stop and
  the rest is in normal form.
\<close>

lemma compact_stop:
  assumes "\<And>pre x post. is = pre @ x # post \<Longrightarrow> \<not> c x \<Longrightarrow>
    (\<forall>y \<in> set (p # pre). i_limit y < i_start x) \<and> normal (x # post)"
  shows "compact c p is = compact (\<lambda>_. True) p is"
  using assms
proof (induction "is" arbitrary: p)
  case (Cons i "is")
  show ?case
  proof (cases "c i")
    case True
    have later: "(\<forall>y \<in> set (p # i # pre). i_limit y < i_start x) \<and> normal (x # post)"
      if "is = pre @ x # post" "\<not> c x" for pre x post
      using Cons.prems [of "i # pre" x post] that by simp
    have "compact c q is = compact (\<lambda>_. True) q is"
      if "i_limit q = max (i_limit p) (i_limit i) \<or> q = i" for q
      using that later by (intro Cons.IH) fastforce
    then show ?thesis
      using True by simp
  next
    case False
    then have "\<not> i_start i \<le> i_limit p" "normal (i # is)"
      using Cons.prems [of "[]" i "is"] by auto
    then show ?thesis
      using False compact_normal [of i "is"] by simp
  qed
qed simp

section \<open>Adding\<close>

lemma IntervalLess_total: "IntervalLess a b \<or> a = b \<or> IntervalLess b a"
  by (cases a; cases b) (auto simp: IntervalLess_def)

lemma ordered_starts: "ordered xs \<Longrightarrow> sorted_wrt (\<lambda>i j. i_start i \<le> i_start j) xs"
  by (induction xs) (auto dest: IntervalLess_start)

text \<open>Where an element goes in an ordered container, and what inserting it does.\<close>

lemma set_insert_cases:
  assumes "ordered xs"
  obtains (present) n where "x \<in> set xs" and "set_insert x xs = (xs, n, False)"
  | (fresh) A B where "xs = A @ B" and "set_insert x xs = (A @ x # B, length A, True)"
      and "ordered (A @ x # B)"
proof -
  define A where "A = takeWhile (\<lambda>y. IntervalLess y x) xs"
  define B where "B = dropWhile (\<lambda>y. IntervalLess y x) xs"
  have xs: "xs = A @ B" and A: "\<forall>y \<in> set A. IntervalLess y x"
    by (auto simp: A_def B_def dest: set_takeWhileD)
  show thesis
  proof (cases B)
    case Nil
    then show ?thesis
      using fresh [of A B] set_insert_at [of A x B] A assms xs by simp
  next
    case (Cons b B')
    have b: "\<not> IntervalLess b x"
      using Cons hd_dropWhile [of "\<lambda>y. IntervalLess y x" xs] by (simp add: B_def)
    show ?thesis
    proof (cases "b = x")
      case True
      then have "length A < length xs" "\<not> IntervalLess x (xs ! length A)"
        using Cons xs b by (auto simp: nth_append)
      then have "set_insert x xs = (xs, length A, False)"
        unfolding set_insert_def Let_def A_def [symmetric] by simp
      then show ?thesis
        using present Cons True xs by simp
    next
      case False
      then have "\<forall>y \<in> set B. IntervalLess x y"
        using b Cons assms xs IntervalLess_total [of b x] by (auto intro: IntervalLess_trans)
      then show ?thesis
        using fresh [of A B] set_insert_at [of A x B] A assms xs by auto
    qed
  qed
qed

lemma normal_compact_after:
  assumes "ordered (A @ p # is)" and "normal A" and "\<forall>a \<in> set A. i_limit a < i_start p"
    and "\<forall>i \<in> set (p # is). i_start i < i_limit i"
  shows "normal (A @ compact (\<lambda>_. True) p is)"
    and "points (A @ compact (\<lambda>_. True) p is) = points (A @ p # is)"
proof -
  have srt: "sorted_wrt (\<lambda>i j. i_start i \<le> i_start j) (p # is)"
    using assms(1) by (intro ordered_starts) simp
  note c = compact_all [OF assms(4) srt]
  show "normal (A @ compact (\<lambda>_. True) p is)"
    using assms(2,3) c(1,3) by (auto intro: order.strict_trans2)
  show "points (A @ compact (\<lambda>_. True) p is) = points (A @ p # is)"
    using c(2) by simp
qed

lemma start_less_of_normal: "normal (A @ a # B) \<Longrightarrow> \<forall>y \<in> set A. i_start y < i_start a"
  by (force simp: normal_def sorted_wrt_append intro: order.strict_trans)

text \<open>The stop of \<open>AddImpl\<close>.\<close>

lemma add_stop:
  assumes "normal B" and "\<And>z. z \<in> set B \<Longrightarrow> \<not> c z \<Longrightarrow> i_limit x < i_start z"
  shows "compact c x B = compact (\<lambda>_. True) x B"
    and "c x \<Longrightarrow> \<forall>z \<in> set B. i_limit a < i_start z \<Longrightarrow>
      compact c a (x # B) = compact (\<lambda>_. True) a (x # B)"
proof -
  show "compact c x B = compact (\<lambda>_. True) x B"
    using assms by (intro compact_stop) auto
  assume cx: "c x" and a: "\<forall>z \<in> set B. i_limit a < i_start z"
  show "compact c a (x # B) = compact (\<lambda>_. True) a (x # B)"
  proof (rule compact_stop)
    fix pre z post
    assume z: "x # B = pre @ z # post" "\<not> c z"
    then obtain pre' where "pre = x # pre'" "B = pre' @ z # post"
      using cx by (cases pre) auto
    then show "(\<forall>y \<in> set (a # pre). i_limit y < i_start z) \<and> normal (z # post)"
      using assms a z(2) by auto
  qed
qed

lemma AddImpl_spec:
  assumes "normal xs"
  shows "normal (AddImpl x xs) \<and> points (AddImpl x xs) = points xs \<union> pts x"
proof (cases "i_empty x")
  case True
  then show ?thesis
    using assms by (simp add: AddImpl_def pts_empty)
next
  case False
  then have x: "i_start x < i_limit x" by (simp add: i_empty_iff)
  from normal_ordered [OF assms] show ?thesis
  proof (cases rule: set_insert_cases [of xs x])
    case (present n)
    then show ?thesis
      using assms False by (auto simp: AddImpl_def points_def)
  next
    case (fresh A B)
    let ?ys = "A @ x # B"
    let ?e = "upper_bound_point (i_limit x) ?ys"
    define c where "c = (if ?e = length ?ys then (\<lambda>_. True)
      else (\<lambda>current. IntervalLess_to_point current (i_start (?ys ! ?e))))"
    have add: "AddImpl x xs = Compact (if A \<noteq> [] then length A - 1 else length A) c ?ys"
      using False fresh(2) by (simp add: AddImpl_def c_def Let_def)
    have after: "i_limit x < i_start (?ys ! ?e)" if "?e < length ?ys"
      using nth_length_takeWhile [of "\<lambda>y. \<not> IntervalLess_point (i_limit x) y" ?ys] that
      by (simp add: upper_bound_point_def IntervalLess_point_def)
    have e: "?e \<le> length ?ys"
      unfolding upper_bound_point_def by (rule length_takeWhile_le)
    have nB: "normal B" and nA: "normal A" and AB: "\<forall>a \<in> set A. \<forall>z \<in> set B. i_limit a < i_start z"
      using assms fresh(1) by auto
    have cx: "c x"
      using after e x by (auto simp: c_def IntervalLess_to_point_def intro: order.strict_trans)
    have stop: "i_limit x < i_start z" if "z \<in> set B" "\<not> c z" for z
      using that nB after e
      by (auto simp: c_def IntervalLess_to_point_def normal_def not_less split: if_splits
          intro: order.strict_trans2)
    have ne: "\<forall>i \<in> set ?ys. i_start i < i_limit i"
      using x assms fresh(1) by (auto simp: normal_def)
    show ?thesis
    proof (cases A rule: rev_cases)
      case Nil
      have "AddImpl x xs = [] @ compact (\<lambda>_. True) x B"
        using add Nil Compact_loop_compact [of "[]" x B c] fresh(3) ne add_stop(1) [OF nB stop]
        by (simp add: Compact_def)
      then show ?thesis
        using normal_compact_after [of "[]" x B] Nil fresh ne by auto
    next
      case (snoc A' a)
      have "AddImpl x xs = A' @ compact c a (x # B)"
        using add snoc Compact_loop_compact [of A' a "x # B" c] fresh(3) ne
          start_less_of_normal [of A' a "[]"] nA
        by (simp add: Compact_def)
      also have "\<dots> = A' @ compact (\<lambda>_. True) a (x # B)"
        using add_stop(2) [where c = c and x = x and a = a, OF nB stop cx] AB snoc by simp
      finally have r: "AddImpl x xs = A' @ compact (\<lambda>_. True) a (x # B)" .
      have "ordered (A' @ a # x # B)" "normal A'" "\<forall>b \<in> set A'. i_limit b < i_start a"
        "\<forall>i \<in> set (a # x # B). i_start i < i_limit i"
        using fresh(3) nA ne unfolding snoc by simp_all
      note c = normal_compact_after [OF this]
      have "points xs \<union> pts x = points (A' @ a # x # B)"
        unfolding fresh(1) snoc by auto
      then show ?thesis
        unfolding r using c by metis
    qed
  qed
qed

section \<open>Union\<close>

lemma fold_insert_ordered:
  assumes "ordered xs" and "\<forall>i \<in> set xs \<union> set ys. i_start i < i_limit i"
  shows "ordered (fold (\<lambda>i xs. fst (set_insert i xs)) ys xs)
    \<and> set (fold (\<lambda>i xs. fst (set_insert i xs)) ys xs) = set xs \<union> set ys"
  using assms
proof (induction ys arbitrary: xs)
  case (Cons y ys)
  from Cons.prems(1) have "ordered (fst (set_insert y xs)) \<and> set (fst (set_insert y xs)) = insert y (set xs)"
    by (cases rule: set_insert_cases [of xs y]) (use Cons.prems(1) in auto)
  then show ?case
    using Cons.IH [of "fst (set_insert y xs)"] Cons.prems(2) by auto
qed simp

lemma Union_set_spec:
  assumes "normal xs" and "normal ys"
  shows "normal (Union_set ys xs) \<and> points (Union_set ys xs) = points xs \<union> points ys"
proof -
  let ?zs = "fold (\<lambda>i xs. fst (set_insert i xs)) ys xs"
  have ne: "\<forall>i \<in> set xs \<union> set ys. i_start i < i_limit i"
    using assms by (auto simp: normal_def)
  have zs: "ordered ?zs" "set ?zs = set xs \<union> set ys"
    using fold_insert_ordered [OF normal_ordered [OF assms(1)] ne] by auto
  then have pts: "points ?zs = points xs \<union> points ys"
    by (auto simp: points_def)
  show ?thesis
  proof (cases ?zs)
    case Nil
    then show ?thesis
      using pts by (simp add: Union_set_def Compact_def)
  next
    case (Cons p "is")
    then have ne': "\<forall>i \<in> set (p # is). i_start i < i_limit i"
      using ne zs(2) by simp
    have "Union_set ys xs = [] @ compact (\<lambda>_. True) p is"
      using Compact_loop_compact [of "[]" p "is" "\<lambda>_. True"] zs(1) ne' Cons
      by (simp add: Union_set_def Compact_def)
    then show ?thesis
      using normal_compact_after [of "[]" p "is"] Cons zs(1) ne' pts by auto
  qed
qed

section \<open>Searching\<close>

lemma takeWhile_split:
  assumes "ordered xs" and mono: "\<And>a b. IntervalLess a b \<Longrightarrow> Q a \<Longrightarrow> Q b"
  obtains A B where "xs = A @ B" and "takeWhile (\<lambda>y. \<not> Q y) xs = A"
    and "\<forall>a \<in> set A. \<not> Q a" and "\<forall>b \<in> set B. Q b"
proof
  let ?A = "takeWhile (\<lambda>y. \<not> Q y) xs" and ?B = "dropWhile (\<lambda>y. \<not> Q y) xs"
  show "xs = ?A @ ?B" by simp
  show "\<forall>a \<in> set ?A. \<not> Q a" by (auto dest: set_takeWhileD)
  show "\<forall>b \<in> set ?B. Q b"
  proof (cases ?B)
    case (Cons b B)
    then have "Q b"
      using hd_dropWhile [of "\<lambda>y. \<not> Q y" xs] by simp
    moreover have "ordered (?A @ b # B)"
      using assms(1) Cons by (metis takeWhile_dropWhile_id)
    ultimately show ?thesis
      using Cons mono by auto
  next
    case Nil
    show ?thesis unfolding Nil by simp
  qed
qed simp

lemma upper_bound_point_split:
  assumes "normal xs"
  obtains A B where "xs = A @ B" and "upper_bound_point v xs = length A"
    and "\<forall>a \<in> set A. i_start a \<le> v" and "\<forall>b \<in> set B. v < i_start b"
proof -
  have mono: "v < i_start b" if "IntervalLess a b" "v < i_start a" for a b
    using that(2) IntervalLess_start [OF that(1)] by (rule order.strict_trans2)
  obtain A B where "xs = A @ B" "takeWhile (\<lambda>y. \<not> v < i_start y) xs = A"
    "\<forall>a \<in> set A. \<not> v < i_start a" "\<forall>b \<in> set B. v < i_start b"
    using takeWhile_split [where Q = "\<lambda>y. v < i_start y", OF normal_ordered [OF assms] mono] .
  then show thesis
    using that [of A B] by (auto simp: upper_bound_point_def IntervalLess_point_def not_less)
qed

lemma upper_bound_split:
  assumes "normal xs"
  obtains A B where "xs = A @ B" and "upper_bound x xs = length A"
    and "\<forall>a \<in> set A. \<not> IntervalLess x a" and "\<forall>b \<in> set B. IntervalLess x b"
proof -
  obtain A B where "xs = A @ B" "takeWhile (\<lambda>y. \<not> IntervalLess x y) xs = A"
    "\<forall>a \<in> set A. \<not> IntervalLess x a" "\<forall>b \<in> set B. IntervalLess x b"
    using takeWhile_split [where Q = "IntervalLess x", OF normal_ordered [OF assms]
        IntervalLess_trans [of x]] .
  then show thesis
    using that [of A B] by (simp add: upper_bound_def)
qed

lemma mem_points: "v \<in> points xs \<longleftrightarrow> (\<exists>i \<in> set xs. i_start i \<le> v \<and> v < i_limit i)"
  by (auto simp: points_def pts_def)

lemma last_candidate:
  assumes "normal (A @ [a] @ B)" and "i_start a \<le> v" and "\<forall>b \<in> set B. v < i_start b"
  shows "i \<in> set (A @ [a] @ B) \<Longrightarrow> i_contains i v \<Longrightarrow> i = a"
  using assms by (fastforce simp: i_contains_def)

lemma Find_spec:
  assumes "normal xs"
  shows "Find v xs \<le> length xs"
    and "Find v xs < length xs \<Longrightarrow> i_contains (xs ! Find v xs) v"
    and "Find v xs = length xs \<longleftrightarrow> v \<notin> points xs"
    and "Contains_value v xs \<longleftrightarrow> v \<in> points xs"
proof -
  obtain A B where xs: "xs = A @ B" "upper_bound_point v xs = length A"
    "\<forall>a \<in> set A. i_start a \<le> v" "\<forall>b \<in> set B. v < i_start b"
    using upper_bound_point_split [OF assms] .
  have pts: "v \<in> points xs \<longleftrightarrow> (\<exists>i \<in> set xs. i_contains i v)"
    by (auto simp: mem_points i_contains_def)
  have "Find v xs \<le> length xs \<and> (Find v xs < length xs \<longrightarrow> i_contains (xs ! Find v xs) v)
      \<and> (Find v xs = length xs \<longleftrightarrow> v \<notin> points xs) \<and> (Contains_value v xs \<longleftrightarrow> v \<in> points xs)"
  proof (cases A rule: rev_cases)
    case Nil
    then show ?thesis
      using xs pts by (auto simp: Find_def Contains_value_def i_contains_def)
  next
    case (snoc A' a)
    have "v \<in> points xs \<longleftrightarrow> i_contains a v"
      using pts last_candidate [of A' a B v] assms xs snoc by auto
    then show ?thesis
      using xs snoc by (auto simp: Find_def Contains_value_def nth_append)
  qed
  then show "Find v xs \<le> length xs"
    and "Find v xs < length xs \<Longrightarrow> i_contains (xs ! Find v xs) v"
    and "Find v xs = length xs \<longleftrightarrow> v \<notin> points xs"
    and "Contains_value v xs \<longleftrightarrow> v \<in> points xs"
    by auto
qed

text \<open>An interval lies in a set of points exactly when one interval of the normal form contains it.\<close>

lemma pts_subset_points:
  assumes "normal xs" and "i_start x < i_limit x"
  shows "pts x \<subseteq> points xs \<longleftrightarrow> (\<exists>i \<in> set xs. i_contains_ivl i x)"
proof
  assume sub: "pts x \<subseteq> points xs"
  then have "i_start x \<in> points xs"
    using assms(2) by (auto simp: pts_def)
  then obtain i where i: "i \<in> set xs" "i_start i \<le> i_start x" "i_start x < i_limit i"
    by (auto simp: mem_points)
  have "i_limit x \<le> i_limit i"
  proof (rule ccontr)
    assume "\<not> i_limit x \<le> i_limit i"
    then have "i_limit i \<in> pts x"
      using i by (auto simp: pts_def)
    then have "i_limit i \<in> points xs"
      using sub by blast
    then obtain j where j: "j \<in> set xs" "i_start j \<le> i_limit i" "i_limit i < i_limit j"
      by (auto simp: mem_points)
    obtain A B where "xs = A @ i # B"
      using i(1) split_list by fastforce
    then show False
      using assms(1) j i by (auto dest: order.strict_trans)
  qed
  then show "\<exists>i \<in> set xs. i_contains_ivl i x"
    using i assms by (auto simp: i_contains_ivl_def i_empty_iff normal_def)
next
  assume "\<exists>i \<in> set xs. i_contains_ivl i x"
  then show "pts x \<subseteq> points xs"
    by (auto simp: i_contains_ivl_def points_def pts_def) (meson order.strict_trans2 order.trans)
qed

lemma Contains_interval_spec:
  assumes "normal xs"
  shows "Contains_interval x xs \<longleftrightarrow> \<not> i_empty x \<and> pts x \<subseteq> points xs"
proof (cases "i_empty x")
  case True
  then show ?thesis by (simp add: Contains_interval_def i_contains_ivl_def Let_def)
next
  case False
  obtain A B where xs: "xs = A @ B" "upper_bound x xs = length A"
    "\<forall>a \<in> set A. \<not> IntervalLess x a" "\<forall>b \<in> set B. IntervalLess x b"
    using upper_bound_split [OF assms] .
  have B: "\<not> i_contains_ivl b x" if "b \<in> set B" for b
    using xs(4) that by (auto simp: i_contains_ivl_def IntervalLess_def)
  show ?thesis
  proof (cases A rule: rev_cases)
    case Nil
    then show ?thesis
      using xs B pts_subset_points [OF assms, of x] False
      by (auto simp: Contains_interval_def i_empty_iff)
  next
    case (snoc A' a)
    have "\<not> i_contains_ivl b x" if "b \<in> set A'" for b
    proof -
      have "i_limit b < i_start a"
        using assms xs(1) snoc that by auto
      moreover have "i_start a \<le> i_start x"
        using xs(3) snoc by (auto simp: IntervalLess_def not_less)
      ultimately show ?thesis
        using False by (auto simp: i_contains_ivl_def i_empty_iff)
    qed
    then show ?thesis
      using xs snoc B pts_subset_points [OF assms, of x] False
      by (auto simp: Contains_interval_def i_empty_iff nth_append)
  qed
qed

section \<open>Single intervals\<close>

lemma i_Intersects_iff: "i_Intersects x y \<longleftrightarrow> pts x \<inter> pts y \<noteq> {}"
proof
  assume "i_Intersects x y"
  then have "max (i_start x) (i_start y) \<in> pts x \<inter> pts y"
    by (auto simp: i_Intersects_def pts_def i_empty_iff max_def not_le)
  then show "pts x \<inter> pts y \<noteq> {}" by blast
qed (auto simp: i_Intersects_def pts_def i_empty_iff dest: order.strict_trans1)

lemma i_Intersects_out_iff:
  "i_Intersects_out x y = Some z \<Longrightarrow> pts z = pts x \<inter> pts y \<and> i_start z < i_limit z"
  by (auto simp: i_Intersects_out_def i_Intersects_def pts_def i_empty_iff split: if_splits)

lemma default_ivl_empty [simp]: "i_empty default_ivl" "pts default_ivl = {}"
  by (simp_all add: default_ivl_def i_empty_iff)

lemma i_Difference_pts:
  assumes "i_Difference x y = (b, lo, hi)"
  shows "(b \<longleftrightarrow> pts x \<inter> pts y \<noteq> {}) \<and> pts lo \<union> pts hi = pts x - pts y"
proof -
  note [simp] = i_Difference_def i_empty_iff default_ivl_def
  have "(b \<longleftrightarrow> i_Intersects x y) \<and> pts lo \<union> pts hi = pts x - pts y"
    using assms by (auto simp: i_Intersects_def pts_def not_less not_le split: if_splits)
  then show ?thesis by (simp add: i_Intersects_iff)
qed

text \<open>The shapes of the two pieces when the intervals intersect.\<close>

lemma i_Difference_cases:
  assumes "i_Intersects x y"
  shows "i_Difference x y = (True,
    (if i_start x < i_start y then ivl (i_start x) (i_start y) else default_ivl),
    (if i_limit y < i_limit x then ivl (i_limit y) (i_limit x) else default_ivl))"
  using assms by (auto simp: i_Difference_def i_Intersects_def not_less not_le)

section \<open>Removing an interval\<close>

lemma erase_covered_spec:
  assumes "normal (Q @ R)" and "\<forall>r \<in> set R. i_start x \<le> i_start r"
  shows "normal (erase_covered x (length Q) (Q @ R))
    \<and> points (erase_covered x (length Q) (Q @ R)) = points Q \<union> (points R - pts x)"
    (is "normal ?zs \<and> _")
proof -
  define D where "D = takeWhile (\<lambda>i. i_limit i \<le> i_limit x) R"
  define S where "S = dropWhile (\<lambda>i. i_limit i \<le> i_limit x) R"
  have R: "R = D @ S" by (simp add: D_def S_def)
  have zs_def: "?zs = (if S \<noteq> [] \<and> i_start (hd S) < i_limit x
      then fst (ReplaceInterval (length Q) (ivl (i_limit x) (i_limit (hd S))) (Q @ S)) else Q @ S)"
    by (cases S) (auto simp: erase_covered_def S_def [symmetric] nth_append)
  have nQS: "normal (Q @ S)" using assms(1) R by auto
  have "pts d \<subseteq> pts x" if "d \<in> set D" for d
  proof -
    have "i_limit d \<le> i_limit x" "i_start x \<le> i_start d"
      using that assms(2) set_takeWhileD [of d "\<lambda>i. i_limit i \<le> i_limit x" R] by (auto simp: D_def)
    then show ?thesis by (auto simp: pts_def)
  qed
  then have D: "points D \<subseteq> pts x"
    by (auto simp: points_def)
  show ?thesis
  proof (cases S)
    case Nil
    then have "?zs = Q" "R = D"
      using zs_def R by simp_all
    then show ?thesis
      using D nQS by auto
  next
    case (Cons s S')
    have s: "i_limit x < i_limit s"
      using Cons hd_dropWhile [of "\<lambda>i. i_limit i \<le> i_limit x" R] by (simp add: S_def not_le)
    have S': "\<forall>r \<in> set S'. i_limit s < i_start r" and Q: "\<forall>q \<in> set Q. i_limit q < i_start s"
      using nQS Cons by auto
    have disj: "points S' \<inter> pts x = {}"
      using S' s by (fastforce simp: points_def pts_def)
    show ?thesis
    proof (cases "i_start s < i_limit x")
      case True
      let ?n = "ivl (i_limit x) (i_limit s)"
      have q: "i_start y < i_limit x" "i_limit y < i_limit x" if "y \<in> set Q" for y
      proof -
        have "i_start y < i_limit y" "i_limit y < i_start s"
          using nQS Q that by (auto simp: normal_def)
        then show "i_start y < i_limit x" "i_limit y < i_limit x"
          using True by (meson order.strict_trans)+
      qed
      have r: "i_limit x < i_start y" if "y \<in> set S'" for y
        using s S' that by (meson order.strict_trans)
      have "\<forall>y \<in> set Q. IntervalLess y ?n" "\<forall>y \<in> set S'. IntervalLess ?n y"
        using q(1) r by (simp_all add: IntervalLess_def)
      from ReplaceInterval_at [OF this, of s] have zs: "?zs = Q @ ?n # S'"
        using True by (simp add: zs_def Cons)
      moreover have "pts ?n = pts s - pts x"
        using assms(2) R Cons True s by (auto simp: pts_def not_less)
      ultimately show ?thesis
        using nQS q(2) S' s disj D R Cons by auto
    next
      case False
      then have "pts s \<inter> pts x = {}"
        by (auto simp: pts_def)
      moreover have "?zs = Q @ S"
        using False by (simp add: zs_def Cons)
      ultimately show ?thesis
        using nQS disj D R Cons by auto
    qed
  qed
qed

lemma spanning:
  assumes "normal xs" and "xs \<noteq> []"
  shows "\<forall>i \<in> set xs. i_start (hd xs) \<le> i_start i \<and> i_limit i \<le> i_limit (last xs)"
    and "points xs \<subseteq> {i_start (hd xs) ..< i_limit (last xs)}"
proof -
  obtain i "is" where xs: "xs = i # is"
    using assms(2) by (cases xs) auto
  have lo: "i_start i \<le> i_start j" if "j \<in> set xs" for j
    using assms(1) that xs by (auto intro: less_imp_le order.strict_trans)
  obtain js k where js: "xs = js @ [k]"
    using assms(2) by (cases xs rule: rev_cases) auto
  have hi: "i_limit j \<le> i_limit k" if "j \<in> set xs" for j
    using assms(1) that js by (auto intro: less_imp_le order.strict_trans)
  show bounds: "\<forall>i \<in> set xs. i_start (hd xs) \<le> i_start i \<and> i_limit i \<le> i_limit (last xs)"
    using lo hi by (metis js last_snoc list.sel(1) xs)
  show "points xs \<subseteq> {i_start (hd xs) ..< i_limit (last xs)}"
    using bounds by (fastforce simp: points_def pts_def)
qed

lemma candidate_split:
  assumes "normal xs" and "xs \<noteq> []"
  obtains P c R where "xs = P @ c # R" and "FindIntersectionCandidate x xs = length P"
    and "\<forall>p \<in> set P. i_limit p < i_start x" and "\<forall>r \<in> set R. i_start x \<le> i_start r"
    and "x \<in> set xs \<longrightarrow> c = x"
proof -
  obtain A B where xs: "xs = A @ B" "upper_bound x xs = length A"
    "\<forall>a \<in> set A. \<not> IntervalLess x a" "\<forall>b \<in> set B. IntervalLess x b"
    using upper_bound_split [OF assms(1)] .
  have B: "\<forall>b \<in> set B. i_start x \<le> i_start b" "x \<notin> set B"
    using xs(4) IntervalLess_start IntervalLess_asym by blast+
  show thesis
  proof (cases A rule: rev_cases)
    case Nil
    then obtain b B' where b: "B = b # B'"
      using xs(1) assms(2) by (cases B) auto
    have "x \<notin> set xs"
      using B(2) xs(1) Nil by simp
    then show ?thesis
      using that [of "[]" b B'] b Nil xs(1,2) B(1) by (simp add: FindIntersectionCandidate_def)
  next
    case (snoc A' a)
    have a: "i_start a \<le> i_start x"
      using xs(3) snoc by (auto simp: IntervalLess_def not_less)
    have A': "\<forall>p \<in> set A'. i_limit p < i_start a"
      using assms(1) xs(1) snoc by auto
    have x: "x \<notin> set A'"
    proof
      assume x: "x \<in> set A'"
      then have "i_start x < i_limit x" "i_limit x < i_start a"
        using assms(1) A' by (auto simp: xs(1) snoc normal_def)
      then show False
        using a by (meson leD order.strict_trans)
    qed
    show ?thesis
    proof (rule that [of A' a B])
      show "\<forall>p \<in> set A'. i_limit p < i_start x"
        using A' a by (meson order.strict_trans2)
      show "xs = A' @ a # B" "FindIntersectionCandidate x xs = length A'"
        using xs(1,2) snoc by (simp_all add: FindIntersectionCandidate_def)
      then show "x \<in> set xs \<longrightarrow> a = x"
        using x B(2) by auto
    qed (rule B(1))
  qed
qed

lemma before_disjoint: "\<forall>p \<in> set P. i_limit p \<le> i_start x \<Longrightarrow> points P \<inter> pts x = {}"
  by (fastforce simp: points_def pts_def)

lemma after_disjoint: "\<forall>r \<in> set R. i_limit x \<le> i_start r \<Longrightarrow> points R \<inter> pts x = {}"
  by (fastforce simp: points_def pts_def)

lemma ball_lessD: "\<forall>r \<in> A. a < f r \<Longrightarrow> \<forall>r \<in> A. a \<le> (f r :: 'b::linorder)"
  by auto

text \<open>The first candidate starts before the interval and is cut, into one piece or two.\<close>

lemma Difference_interval_cut:
  assumes n: "normal (P @ c # R)" and int: "i_Intersects (SpanningInterval (P @ c # R)) x"
    and cand: "FindIntersectionCandidate x (P @ c # R) = length P" and own: "own \<noteq> Some (length P)"
    and P: "points P \<inter> pts x = {}" and R: "\<forall>r \<in> set R. i_start x \<le> i_start r"
    and lt: "i_start c < i_start x" and cx: "i_Intersects c x"
  shows "normal (Difference_interval own x (P @ c # R))
    \<and> points (Difference_interval own x (P @ c # R)) = points (P @ c # R) - pts x"
proof -
  let ?lo = "ivl (i_start c) (i_start x)" and ?hi = "ivl (i_limit x) (i_limit c)"
  have cR: "\<forall>r \<in> set R. i_limit c < i_start r" and c: "i_start c < i_limit c"
    using n by auto
  have ord: "i_start x < i_limit c" and xx: "i_start x < i_limit x"
    using cx by (auto simp: i_Intersects_def i_empty_iff)
  have loR: "\<forall>r \<in> set R. i_start x < i_start r"
    using cR ord by (meson order.strict_trans)
  have Plo: "\<forall>y \<in> set P. i_start y < i_start c"
    using start_less_of_normal [OF n] .
  have rep: "ReplaceInterval (length P) ?lo (P @ c # R) = (P @ ?lo # R, length P)"
    using Plo c cR by (intro ReplaceInterval_at) (auto simp: IntervalLess_def intro: order.strict_trans)
  show ?thesis
  proof (cases "i_limit x < i_limit c")
    case False
    have nQ: "normal ((P @ [?lo]) @ R)"
      using n lt loR by auto
    have "pts c - pts x = pts ?lo"
      using lt False ord by (auto simp: pts_def intro: order.strict_trans)
    with erase_covered_spec [OF nQ R] show ?thesis
      using int cand own lt P rep False
      by (auto simp: Difference_interval_def Let_def i_Difference_cases [OF cx])
  next
    case True
    have xR: "\<forall>r \<in> set R. i_limit x < i_start r"
      using True cR by (meson order.strict_trans)
    have "\<forall>y \<in> set P. i_start y < i_limit x"
      using Plo lt xx by (meson order.strict_trans)
    then have "set_insert ?hi ((P @ [?lo]) @ R) = ((P @ [?lo]) @ ?hi # R, length (P @ [?lo]), True)"
      using lt xR xx by (intro set_insert_at) (auto simp: IntervalLess_def)
    then have "Difference_interval own x (P @ c # R) = P @ ?lo # ?hi # R"
      using int cand own lt rep True
      by (simp add: Difference_interval_def Let_def i_Difference_cases [OF cx] i_empty_iff)
    moreover have "normal (P @ ?lo # ?hi # R)"
    proof -
      have "\<forall>p \<in> set P. i_limit p < i_limit x"
        using n lt xx by (auto intro: order.strict_trans)
      then show ?thesis using n lt loR xx xR True by auto
    qed
    moreover have "points (P @ ?lo # ?hi # R) = points (P @ c # R) - pts x"
      using P after_disjoint [of R x] xR [THEN ball_lessD] lt True xx by (auto simp: pts_def)
    ultimately show ?thesis by simp
  qed
qed

lemma Difference_interval_spec:
  assumes n: "normal xs" and own: "own = None \<or> (\<exists>k < length xs. own = Some k \<and> xs ! k = x)"
  shows "normal (Difference_interval own x xs)
    \<and> points (Difference_interval own x xs) = points xs - pts x"
proof (cases "xs = [] \<or> \<not> i_Intersects (SpanningInterval xs) x")
  case True
  have "points xs \<inter> pts x = {}"
  proof (cases "xs = []")
    case False
    then have "pts (SpanningInterval xs) \<inter> pts x = {}"
      using True i_Intersects_iff by blast
    then show ?thesis
      using spanning [OF n False] False by (auto simp: SpanningInterval_def)
  qed simp
  moreover have "Difference_interval own x xs = xs"
    using True by (auto simp: Difference_interval_def SpanningInterval_def i_Intersects_def)
  ultimately show ?thesis
    using n by auto
next
  case False
  then have ne: "xs \<noteq> []" and int: "i_Intersects (SpanningInterval xs) x" by auto
  obtain P c R where xs: "xs = P @ c # R" and cand: "FindIntersectionCandidate x xs = length P"
    and P: "\<forall>p \<in> set P. i_limit p < i_start x" and R: "\<forall>r \<in> set R. i_start x \<le> i_start r"
    and c: "x \<in> set xs \<longrightarrow> c = x"
    using candidate_split [OF n ne] .
  have Pd: "points P \<inter> pts x = {}"
    using P by (intro before_disjoint) auto
  consider (own) "own = Some (length P)"
    | (later) "own \<noteq> Some (length P)" "\<not> i_start c < i_start x"
    | (missed) "own \<noteq> Some (length P)" "i_start c < i_start x" "\<not> i_Intersects c x"
    | (cut) "own \<noteq> Some (length P)" "i_start c < i_start x" "i_Intersects c x"
    by blast
  then show ?thesis
  proof cases
    case own
    then have "x \<in> set xs"
      using assms(2) nth_mem by blast
    then have cx: "c = x" using c by blast
    then have "points R \<inter> pts x = {}"
      using n xs by (intro after_disjoint) auto
    then have "points xs - pts x = points (P @ R)"
      using cx Pd xs by auto
    moreover have "Difference_interval own x xs = P @ R"
      using own int cand xs by (simp add: Difference_interval_def)
    ultimately show ?thesis
      using n xs by auto
  next
    case later
    have "\<forall>r \<in> set (c # R). i_start x \<le> i_start r"
      using R later(2) by auto
    from erase_covered_spec [of P "c # R" x, OF _ this] show ?thesis
      using int cand later Pd n by (simp add: Difference_interval_def xs Let_def) blast
  next
    case missed
    then have b: "\<not> fst (i_Difference c x)" and cd: "pts c \<inter> pts x = {}"
      using i_Difference_pts [of c x] i_Intersects_iff [of c x] by (cases "i_Difference c x", auto)+
    from erase_covered_spec [of "P @ [c]" R x, OF _ R] show ?thesis
      using int cand missed(1,2) Pd n b cd
      by (cases "i_Difference c x") (auto simp: Difference_interval_def xs Let_def)
  next
    case cut
    then show ?thesis
      using Difference_interval_cut [of P c R x own] n int cand R Pd unfolding xs by blast
  qed
qed

section \<open>The normal form is unique\<close>

lemma normal_contains_eq:
  assumes "normal xs" and "i \<in> set xs" and "j \<in> set xs" and "i_contains_ivl i j"
  shows "i = j"
proof (rule ccontr)
  assume "i \<noteq> j"
  obtain A B where xs: "xs = A @ i # B"
    using assms(2) split_list by fastforce
  with assms(3) \<open>i \<noteq> j\<close> have "j \<in> set A \<or> j \<in> set B" by auto
  then have "i_limit j < i_start i \<or> i_limit i < i_start j"
    using assms(1) xs by auto
  moreover have "i_start i \<le> i_start j" "i_limit j \<le> i_limit i" "i_start j < i_limit j"
    using assms(4) by (auto simp: i_contains_ivl_def i_empty_iff)
  ultimately show False
    by (meson leD order.strict_trans order.strict_trans2)
qed

lemma normal_member_of_points:
  assumes "normal xs" and "normal ys" and "points xs = points ys" and "i \<in> set xs"
  shows "i \<in> set ys"
proof -
  have ne: "\<forall>k \<in> set xs \<union> set ys. i_start k < i_limit k"
    using assms(1,2) by (auto simp: normal_def)
  have sub: "pts k \<subseteq> points ys" if "k \<in> set xs \<union> set ys" for k
    using that assms(3) by (auto simp: points_def)
  obtain j where j: "j \<in> set ys" "i_contains_ivl j i"
    using sub ne pts_subset_points [OF assms(2), of i] assms(4) by blast
  obtain k where k: "k \<in> set xs" "i_contains_ivl k j"
    using sub ne pts_subset_points [OF assms(1), of j] assms(3) j(1) by blast
  have "i_contains_ivl k i"
    using j(2) k(2) by (auto simp: i_contains_ivl_def)
  then have "k = i"
    using normal_contains_eq [OF assms(1) k(1) assms(4)] by simp
  then have "i_start j = i_start i" "i_limit j = i_limit i"
    using j(2) k(2) by (auto simp: i_contains_ivl_def)
  then show ?thesis
    using j(1) by (metis ivl_simps(3))
qed

lemma normal_set_unique: "normal xs \<Longrightarrow> normal ys \<Longrightarrow> set xs = set ys \<Longrightarrow> xs = ys"
proof (induction xs arbitrary: ys)
  case (Cons i "is")
  then obtain j js where ys: "ys = j # js"
    by (cases ys) auto
  have lt: "i_start i < i_limit i" "i_start j < i_limit j"
    using Cons.prems ys by auto
  have "i = j"
  proof (rule ccontr)
    assume "i \<noteq> j"
    then have "i \<in> set js" "j \<in> set is"
      using Cons.prems(3) ys by auto
    then have "i_limit i < i_start j" "i_limit j < i_start i"
      using Cons.prems ys by auto
    then show False
      using lt by (meson order.asym order.strict_trans)
  qed
  moreover have "i \<notin> set is" "j \<notin> set js"
    using Cons.prems(1,2) lt ys by (auto dest: order.asym)
  then have "set is = set js"
    using Cons.prems(3) ys \<open>i = j\<close> by auto
  ultimately show ?case
    using Cons.IH [of js] Cons.prems ys by simp
qed simp

lemma normal_unique:
  assumes "normal xs" and "normal ys" and "points xs = points ys"
  shows "xs = ys"
  using normal_member_of_points [OF assms] normal_member_of_points [OF assms(2,1) assms(3) [symmetric]]
  by (intro normal_set_unique assms(1,2)) blast

lemma IntervalSet_equal_iff: "IntervalSet_equal xs ys \<longleftrightarrow> xs = ys"
proof -
  have "list_all2 (\<lambda>x y. i_start x = i_start y \<and> i_limit x = i_limit y) xs ys \<longleftrightarrow> xs = ys"
  proof -
    have "(\<lambda>x y :: 'a Interval. i_start x = i_start y \<and> i_limit x = i_limit y) = (=)"
      by (auto simp: fun_eq_iff)
    then show ?thesis by (simp add: list.rel_eq)
  qed
  then show ?thesis by (auto simp: IntervalSet_equal_def)
qed

section \<open>Bounds, disjointness and containment\<close>

lemma UpperBound_spec: "UpperBound v xs = length (takeWhile (\<lambda>i. i_start i \<le> v) xs)"
  by (simp add: UpperBound_def upper_bound_point_def IntervalLess_point_def not_less)

lemma takeWhile_prefix:
  assumes "\<forall>a \<in> set A. Q a" and "\<forall>b \<in> set B. \<not> Q b"
  shows "takeWhile Q (A @ B) = A"
  using assms by (cases B) (simp_all add: takeWhile_append)

lemma lower_bound_split:
  assumes "normal xs"
  obtains A B where "xs = A @ B" and "lower_bound_point v xs = length A"
    and "\<forall>a \<in> set A. i_start a \<le> v" and "\<forall>b \<in> set B. v < i_start b"
proof -
  have eq: "IntervalLess_to_point y v \<longleftrightarrow> i_start y \<le> v" if "y \<in> set xs" for y
    using that assms by (auto simp: normal_def IntervalLess_to_point_def)
  obtain A B where AB: "xs = A @ B" "upper_bound_point v xs = length A"
    "\<forall>a \<in> set A. i_start a \<le> v" "\<forall>b \<in> set B. v < i_start b"
    using upper_bound_point_split [OF assms] .
  then have "takeWhile (\<lambda>y. IntervalLess_to_point y v) (A @ B) = A"
    using eq by (intro takeWhile_prefix) (auto simp: not_le [symmetric])
  then show thesis
    using AB(1,3,4) by (intro that [of A B]) (simp_all add: lower_bound_point_def)
qed

lemma LowerBound_spec:
  assumes "normal xs"
  shows "LowerBound v xs = length (takeWhile (\<lambda>i. i_limit i \<le> v) xs)"
proof -
  obtain A B where xs: "xs = A @ B" "lower_bound_point v xs = length A"
    "\<forall>a \<in> set A. i_start a \<le> v" "\<forall>b \<in> set B. v < i_start b"
    using lower_bound_split [OF assms] .
  have B: "\<forall>b \<in> set B. \<not> i_limit b \<le> v"
  proof
    fix b assume "b \<in> set B"
    then have "v < i_start b" "i_start b < i_limit b"
      using assms xs by (auto simp: normal_def)
    then show "\<not> i_limit b \<le> v"
      by (meson leD order.strict_trans)
  qed
  show ?thesis
  proof (cases A rule: rev_cases)
    case Nil
    then show ?thesis
      using B takeWhile_prefix [of "[]" "\<lambda>i. i_limit i \<le> v" B] xs by (simp add: LowerBound_def)
  next
    case (snoc A' a)
    have "i_limit p \<le> v" if "p \<in> set A'" for p
    proof -
      have "i_limit p < i_start a" "i_start a \<le> v"
        using that assms xs snoc by auto
      then show ?thesis by (meson less_imp_le order.trans)
    qed
    then have tw: "takeWhile (\<lambda>i. i_limit i \<le> v) xs = (if i_limit a \<le> v then A else A')"
      using takeWhile_prefix [of A "\<lambda>i. i_limit i \<le> v" B] B xs(1) snoc
        takeWhile_prefix [of A' "\<lambda>i. i_limit i \<le> v" "a # B"] by simp
    have "i_contains a v \<longleftrightarrow> \<not> i_limit a \<le> v"
      using xs(3) snoc by (auto simp: i_contains_def)
    then show ?thesis
      unfolding tw using xs(2) snoc by (simp add: LowerBound_def xs(1) nth_append)
  qed
qed

lemma IsDisjoint_spec:
  assumes "normal xs"
  shows "IsDisjoint x xs \<longleftrightarrow> pts x \<inter> points xs = {}"
proof (cases "i_empty x")
  case True
  then show ?thesis by (simp add: IsDisjoint_def pts_empty)
next
  case False
  obtain A B where xs: "xs = A @ B" "upper_bound_point (i_start x) xs = length A"
    "\<forall>a \<in> set A. i_start a \<le> i_start x" "\<forall>b \<in> set B. i_start x < i_start b"
    using upper_bound_point_split [OF assms] .
  have dis: "pts x \<inter> points zs = {} \<longleftrightarrow> (\<forall>z \<in> set zs. \<not> i_Intersects z x)" for zs
    by (auto simp: i_Intersects_iff points_def)
  have ne: "i_start i < i_limit i" if "i \<in> set xs" for i
    using that assms by (auto simp: normal_def)
  have B: "(\<forall>b \<in> set B. \<not> i_Intersects b x) \<longleftrightarrow> (B = [] \<or> i_limit x \<le> i_start (hd B))"
  proof (cases B)
    case (Cons b B')
    have "i_Intersects c x \<longleftrightarrow> i_start c < i_limit x" if "c \<in> set B" for c
      using xs(1,4) that False ne [of c]
      by (auto simp: i_Intersects_def i_empty_iff intro: order.strict_trans)
    moreover have "i_start b \<le> i_start c" if "c \<in> set B" for c
      using assms xs(1) Cons that by (auto intro: less_imp_le order.strict_trans)
    ultimately show ?thesis
      using Cons by (auto simp: not_less intro: order.trans)
  qed simp
  have A: "(\<forall>a \<in> set A. \<not> i_Intersects a x) \<longleftrightarrow> (A = [] \<or> i_limit (last A) \<le> i_start x)"
  proof (cases A rule: rev_cases)
    case (snoc A' a)
    have "i_Intersects c x \<longleftrightarrow> i_start x < i_limit c" if "c \<in> set A" for c
      using xs(1,3) that False ne [of c]
      by (auto simp: i_Intersects_def i_empty_iff intro: order.strict_trans1)
    moreover have "i_limit c \<le> i_limit a" if "c \<in> set A" for c
      using assms xs(1) snoc that by (auto intro: less_imp_le order.strict_trans)
    ultimately show ?thesis
      using snoc by (auto simp: not_less intro: order.trans)
  qed simp
  have "IsDisjoint x xs \<longleftrightarrow> (B = [] \<or> i_limit x \<le> i_start (hd B)) \<and> (A = [] \<or> i_limit (last A) \<le> i_start x)"
    using False xs(2)
    by (cases B; cases A rule: rev_cases) (auto simp: IsDisjoint_def xs(1) nth_append not_less)
  moreover have "pts x \<inter> points xs = {} \<longleftrightarrow>
      (\<forall>a \<in> set A. \<not> i_Intersects a x) \<and> (\<forall>b \<in> set B. \<not> i_Intersects b x)"
    unfolding dis unfolding xs(1) by (simp add: ball_Un)
  ultimately show ?thesis
    unfolding A B by blast
qed

lemma Contains_set_spec:
  assumes "normal xs" and "normal ys"
  shows "Contains_set ys xs \<longleftrightarrow> xs \<noteq> [] \<and> ys \<noteq> [] \<and> points ys \<subseteq> points xs"
proof (cases "xs = [] \<or> ys = []")
  case True
  then show ?thesis by (auto simp: Contains_set_def)
next
  case False
  have ne: "i_start i < i_limit i" if "i \<in> set ys" for i
    using that assms by (auto simp: normal_def)
  have all: "list_all (\<lambda>i. Contains_interval i xs) ys \<longleftrightarrow> points ys \<subseteq> points xs"
    using ne by (auto simp: list_all_iff Contains_interval_spec [OF assms(1)] i_empty_iff points_def)
  have contained: "\<exists>i \<in> set xs. i_contains_ivl i y" if "points ys \<subseteq> points xs" "y \<in> set ys" for y
    using pts_subset_points [OF assms(1) ne [OF that(2)]] that by (auto simp: points_def)
  have "\<not> i_start (hd xs) > i_start (hd ys) \<and> \<not> i_limit (last xs) < i_limit (last ys)"
    if sub: "points ys \<subseteq> points xs"
  proof -
    have ends: "hd ys \<in> set ys" "last ys \<in> set ys" "xs \<noteq> []"
      using False by simp_all
    obtain i where i: "i \<in> set xs" "i_contains_ivl i (hd ys)"
      using contained [OF sub ends(1)] by blast
    obtain j where j: "j \<in> set xs" "i_contains_ivl j (last ys)"
      using contained [OF sub ends(2)] by blast
    have "i_start (hd xs) \<le> i_start i" "i_limit j \<le> i_limit (last xs)"
      using spanning(1) [OF assms(1) ends(3)] i(1) j(1) by blast+
    moreover have "i_start i \<le> i_start (hd ys)" "i_limit (last ys) \<le> i_limit j"
      using i(2) j(2) by (simp_all add: i_contains_ivl_def)
    ultimately show ?thesis
      unfolding not_less by (meson order.trans)
  qed
  then show ?thesis
    using False all by (auto simp: Contains_set_def)
qed

end
