(* ===== verification/IntervalSet_Walks.thy ===== *)
theory IntervalSet_Walks
  imports IntervalSet_Proofs
begin

text \<open>
  The operations on two interval sets that walk over both: intersection, difference, complement.  The
  walk is seen as a zipper: what lies before the two positions, and what is left after them.
\<close>

section \<open>The next intersecting pair\<close>

lemma skip_while_append: "skip_while Q (A @ B) (length A) = length A + length (takeWhile Q B)"
  by (simp add: skip_while_def)

lemma on_hole_append:
  "on_hole e (length A) (length A + length D) (A @ D @ B) =
    (if e then (A @ B, length A) else (A @ D @ B, length A + length D))"
  by (simp add: on_hole_def)

lemma before_normal_disjoint:
  assumes "\<forall>d \<in> set D. i_limit d \<le> i_start v" and "normal (v # V)"
  shows "points D \<inter> points (v # V) = {}"
proof -
  have "points D \<inter> pts w = {}" if "w \<in> set (v # V)" for w
  proof (rule before_disjoint)
    have "i_start v \<le> i_start w"
      using that assms(2) by (auto intro: less_imp_le order.strict_trans)
    then show "\<forall>d \<in> set D. i_limit d \<le> i_start w"
      using assms(1) by (meson order.trans)
  qed
  then show ?thesis
    by (auto simp: points_def)
qed

text \<open>
  What a call of the walk gives, from the intervals \<open>R\<close> and \<open>V\<close> that are left: either nothing
  intersects, or the first intersecting pair is in front of what is left after dropping \<open>D\<close> and \<open>W\<close>,
  which intersect nothing.
\<close>

definition pair_found :: "'a::linorder intervals \<Rightarrow> 'a intervals \<Rightarrow> 'a intervals \<Rightarrow> 'a Interval \<Rightarrow>
    'a intervals \<Rightarrow> 'a intervals \<Rightarrow> 'a Interval \<Rightarrow> 'a intervals \<Rightarrow> bool" where
  "pair_found R V D i R' W v V' \<longleftrightarrow> R = D @ i # R' \<and> V = W @ v # V' \<and> i_Intersects i v
    \<and> points D \<inter> points V = {} \<and> points W \<inter> points (i # R') = {}"

lemma pair_found_skip:
  assumes "pair_found R V D i R' W v V'" and "points P \<inter> points (Q @ V) = {}" and "points Q \<inter> points R = {}"
  shows "pair_found (P @ R) (Q @ V) (P @ D) i R' (Q @ W) v V'"
  using assms by (auto simp: pair_found_def)

text \<open>One round of the walk, with the holes it erases or passes over.\<close>

lemma FindNext_loop_round:
  assumes "\<not> i_Intersects r v" and "R = r # Rs" and "V = v # Vs"
    and "R = D @ S" and "D = takeWhile (\<lambda>i. i_limit i \<le> i_start v) R"
    and "P' = (if e then P else P @ D)"
  shows "S = [] \<Longrightarrow> FindNext_loop e (P @ R) (U @ V) (length P) (length U) = Some (False, P', length P', length U)"
    and "S = s # Ss \<Longrightarrow> V = W @ V' \<Longrightarrow> W = takeWhile (\<lambda>i. i_limit i \<le> i_start s) V \<Longrightarrow>
      FindNext_loop e (P @ R) (U @ V) (length P) (length U) =
        (if V' = [] then Some (False, if e then P' else P' @ S, if e then length P' else length (P' @ S),
           length (U @ V))
         else FindNext_loop e (P' @ S) ((U @ W) @ V') (length P') (length (U @ W)))"
proof -
  have front: "(P @ R) ! length P = r" "(U @ V) ! length U = v"
    using assms(2,3) by simp_all
  have hole: "on_hole e (length P) (skip_while (\<lambda>i. i_limit i \<le> i_start v) (P @ R) (length P)) (P @ R)
      = (P' @ S, length P')"
    unfolding skip_while_append assms(5) [symmetric] using on_hole_append [of e P D S] assms(4,6) by simp
  note loop = FindNext_loop.simps [of e "P @ R" "U @ V" "length P" "length U", unfolded front hole prod.case]
  show "S = [] \<Longrightarrow> FindNext_loop e (P @ R) (U @ V) (length P) (length U) = Some (False, P', length P', length U)"
    unfolding loop using assms(1) by simp
  assume S: "S = s # Ss" and V: "V = W @ V'" "W = takeWhile (\<lambda>i. i_limit i \<le> i_start s) V"
  have s: "(P' @ S) ! length P' = s" using S by simp
  have "skip_while (\<lambda>i. i_limit i \<le> i_start s) (U @ V) (length U) = length (U @ W)"
    unfolding skip_while_append V(2) [symmetric] by simp
  then show "FindNext_loop e (P @ R) (U @ V) (length P) (length U) =
      (if V' = [] then Some (False, if e then P' else P' @ S, if e then length P' else length (P' @ S),
         length (U @ V))
       else FindNext_loop e (P' @ S) ((U @ W) @ V') (length P') (length (U @ W)))"
    unfolding loop s using assms(1) S V(1) by (simp add: on_hole_def Let_def)
qed

text \<open>A round that goes on has dropped something.\<close>

lemma round_progress:
  assumes "\<not> i_Intersects r v" and "normal (r # Rs)" and "normal (v # Vs)"
    and "r # Rs = takeWhile (\<lambda>i. i_limit i \<le> i_start v) (r # Rs) @ s # Ss"
  shows "takeWhile (\<lambda>i. i_limit i \<le> i_start v) (r # Rs) \<noteq> []
    \<or> takeWhile (\<lambda>i. i_limit i \<le> i_start s) (v # Vs) \<noteq> []"
proof (rule ccontr)
  assume "\<not> ?thesis"
  then have Nil: "takeWhile (\<lambda>i. i_limit i \<le> i_start v) (r # Rs) = []"
    "takeWhile (\<lambda>i. i_limit i \<le> i_start s) (v # Vs) = []" by blast+
  have "s = r"
    using assms(4) unfolding Nil(1) by simp
  moreover have "\<not> i_limit r \<le> i_start v" "\<not> i_limit v \<le> i_start s"
    using Nil by (simp_all split: if_splits)
  ultimately show False
    using assms(1-3) by (auto simp: i_Intersects_def i_empty_iff)
qed

lemma FindNext_loop_spec:
  assumes "normal R" and "normal V" and "R \<noteq> []" and "V \<noteq> []"
  shows "(points R \<inter> points V = {} \<and>
      (\<exists>m t. FindNext_loop e (P @ R) (U @ V) (length P) (length U) =
         Some (False, (if e then P else P @ R), m, t)))
    \<or> (\<exists>D i R' W v V'. pair_found R V D i R' W v V' \<and>
      FindNext_loop e (P @ R) (U @ V) (length P) (length U) =
         Some (True, (if e then P @ i # R' else P @ R),
           (if e then length P else length P + length D), length U + length W))"
  using assms
proof (induction "length R + length V" arbitrary: P R U V rule: less_induct)
  case less
  obtain r Rs v Vs where RV: "R = r # Rs" "V = v # Vs"
    using less.prems by (cases R; cases V) auto
  show ?case
  proof (cases "i_Intersects r v")
    case True
    show ?thesis
    proof (intro disjI2 exI conjI)
      show "pair_found R V [] r Rs [] v Vs"
        using True RV by (simp add: pair_found_def)
      show "FindNext_loop e (P @ R) (U @ V) (length P) (length U) =
          Some (True, (if e then P @ r # Rs else P @ R), (if e then length P else length P + length []),
            length U + length [])"
        using True RV by (simp add: FindNext_loop.simps)
    qed
  next
    case False
    define D where "D = takeWhile (\<lambda>i. i_limit i \<le> i_start v) R"
    define S where "S = dropWhile (\<lambda>i. i_limit i \<le> i_start v) R"
    have R: "R = D @ S" by (simp add: D_def S_def)
    have D: "points D \<inter> points V = {}"
      unfolding RV(2) using less.prems(2) RV(2)
      by (intro before_normal_disjoint) (auto simp: D_def dest: set_takeWhileD)
    define P' where "P' = (if e then P else P @ D)"
    note round = FindNext_loop_round [where U = U, OF False RV R D_def P'_def]
    show ?thesis
    proof (cases S)
      case Nil
      then have "points R \<inter> points V = {}" "P' = (if e then P else P @ R)"
        using D R by (simp_all add: P'_def)
      then show ?thesis
        using round(1) [OF Nil] by auto
    next
      case (Cons s Ss)
      define W where "W = takeWhile (\<lambda>i. i_limit i \<le> i_start s) V"
      define V' where "V' = dropWhile (\<lambda>i. i_limit i \<le> i_start s) V"
      have V: "V = W @ V'" by (simp add: W_def V'_def)
      have nS: "normal (s # Ss)"
        using less.prems(1) R Cons by simp
      have W: "points W \<inter> points S = {}"
        unfolding Cons using nS by (intro before_normal_disjoint) (auto simp: W_def dest: set_takeWhileD)
      note step = round(2) [OF Cons V W_def]
      show ?thesis
      proof (cases "V' = []")
        case True
        then have "points R \<inter> points V = {}"
          using D W R V by auto
        then show ?thesis
          using step True R by (auto simp: P'_def)
      next
        case ne: False
        have "D \<noteq> [] \<or> W \<noteq> []"
          using round_progress [OF False, of Rs Vs s Ss] less.prems(1,2) R unfolding D_def W_def RV Cons by blast
        then have "length S + length V' < length R + length V"
          using R V by (cases D; cases W) auto
        moreover have "normal S" "normal V'" "S \<noteq> []"
          using less.prems(1,2) R V Cons by auto
        ultimately consider (none) m t where "points S \<inter> points V' = {}"
            "FindNext_loop e (P' @ S) ((U @ W) @ V') (length P') (length (U @ W)) =
              Some (False, (if e then P' else P' @ S), m, t)"
          | (found) E i R' X v' V'' where "pair_found S V' E i R' X v' V''"
            "FindNext_loop e (P' @ S) ((U @ W) @ V') (length P') (length (U @ W)) =
              Some (True, (if e then P' @ i # R' else P' @ S),
                (if e then length P' else length P' + length E), length (U @ W) + length X)"
          using less.hyps [of S V' P' "U @ W"] ne by blast
        then show ?thesis
        proof cases
          case none
          have "points R \<inter> points V = {}"
            using none(1) D W R V by auto
          then show ?thesis
            using none(2) step ne R by (auto simp: P'_def)
        next
          case found
          show ?thesis
          proof (intro disjI2 exI conjI)
            show "pair_found R V (D @ E) i R' (W @ X) v' V''"
              using pair_found_skip [OF found(1), of D W] D W R V by simp
            show "FindNext_loop e (P @ R) (U @ V) (length P) (length U) =
                Some (True, (if e then P @ i # R' else P @ R),
                  (if e then length P else length P + length (D @ E)), length U + length (W @ X))"
              using found(2) step ne R by (simp add: P'_def)
          qed
        qed
      qed
    qed
  qed
qed


lemma FindNextIntersectingPair_cases:
  assumes "normal R" and "normal V"
  obtains (none) m t where "points R \<inter> points V = {}"
      and "FindNextIntersectingPair e (P @ R) (U @ V) (length P) (length U) =
        Some (False, (if e \<and> V \<noteq> [] then P else P @ R), m, t)"
  | (found) D i R' W v V' where "pair_found R V D i R' W v V'"
      and "FindNextIntersectingPair e (P @ R) (U @ V) (length P) (length U) =
        Some (True, (if e then P @ i # R' else P @ D @ i # R'),
          (if e then length P else length (P @ D)), length (U @ W))"
proof (cases "R = [] \<or> V = []")
  case True
  then show thesis
    using none by (auto simp: FindNextIntersectingPair_def)
next
  case False
  then have "FindNextIntersectingPair e (P @ R) (U @ V) (length P) (length U) =
      FindNext_loop e (P @ R) (U @ V) (length P) (length U)"
    by (simp add: FindNextIntersectingPair_def)
  with FindNext_loop_spec [OF assms, of e P U] False
  consider (a) m t where "points R \<inter> points V = {}"
      "FindNextIntersectingPair e (P @ R) (U @ V) (length P) (length U) =
        Some (False, (if e then P else P @ R), m, t)"
    | (b) D i R' W v V' where "pair_found R V D i R' W v V'"
      "FindNextIntersectingPair e (P @ R) (U @ V) (length P) (length U) =
        Some (True, (if e then P @ i # R' else P @ R),
          (if e then length P else length P + length D), length U + length W)"
    by metis
  then show thesis
  proof cases
    case a
    then show thesis using none False by simp
  next
    case b
    then have "R = D @ i # R'" by (simp add: pair_found_def)
    then show thesis
      using found [OF b(1)] b(2) by simp
  qed
qed

section \<open>Intersects\<close>

lemma apart_disjoint:
  assumes "normal xs" and "normal ys" and "apart xs ys"
  shows "points xs \<inter> points ys = {}"
proof (cases "xs = [] \<or> ys = []")
  case False
  then have "points xs \<subseteq> {i_start (hd xs) ..< i_limit (last xs)}"
    "points ys \<subseteq> {i_start (hd ys) ..< i_limit (last ys)}"
    using spanning(2) assms by blast+
  then show ?thesis
    using assms(3) False by (fastforce simp: apart_def)
qed auto

text \<open>Starting from the candidate loses nothing: what lies before it is disjoint from the other set.\<close>

lemma candidate_skips:
  assumes "normal xs" and "xs \<noteq> []" and "normal ys" and "ys \<noteq> []"
  obtains P R where "xs = P @ R" and "R \<noteq> []" and "FindIntersectionCandidate (hd ys) xs = length P"
    and "points P \<inter> points ys = {}"
proof -
  obtain y Y where ys: "ys = y # Y"
    using assms(4) by (cases ys) auto
  obtain P c R where xs: "xs = P @ c # R" and cand: "FindIntersectionCandidate y xs = length P"
    and P: "\<forall>p \<in> set P. i_limit p < i_start y" and "\<forall>r \<in> set R. i_start y \<le> i_start r"
    and "y \<in> set xs \<longrightarrow> c = y"
    using candidate_split [OF assms(1,2)] .
  have "points P \<inter> points ys = {}"
    unfolding ys using P assms(3) ys by (intro before_normal_disjoint) (auto intro: less_imp_le)
  then show thesis
    using that [of P "c # R"] xs cand ys by simp
qed

lemma pair_found_meets: "pair_found R V D i R' W v V' \<Longrightarrow> points R \<inter> points V \<noteq> {}"
  by (auto simp: pair_found_def i_Intersects_iff)

lemma Intersects_spec:
  assumes "normal xs" and "normal ys"
  shows "Intersects ys xs = Some (points xs \<inter> points ys \<noteq> {})"
proof (cases "apart xs ys")
  case True
  then show ?thesis
    using apart_disjoint [OF assms] by (simp add: Intersects_def)
next
  case False
  then have ne: "xs \<noteq> []" "ys \<noteq> []" by (auto simp: apart_def)
  obtain P R where xs: "xs = P @ R" "R \<noteq> []" "FindIntersectionCandidate (hd ys) xs = length P"
    "points P \<inter> points ys = {}"
    using candidate_skips [OF assms(1) ne(1) assms(2) ne(2)] .
  have nR: "normal R" using assms(1) xs(1) by simp
  obtain U V where V: "ys = U @ V" "V \<noteq> []" "FindIntersectionCandidate (hd R) ys = length U"
    "points U \<inter> points R = {}"
    using candidate_skips [OF assms(2) ne(2) nR xs(2)] .
  have nV: "normal V" using assms(2) V(1) by simp
  have meets: "points xs \<inter> points ys = points R \<inter> points V"
    using xs(1,4) V(1,4) by auto
  have "(P @ R) ! length P = hd R" "P @ R \<noteq> []"
    using xs(2) by (cases R; simp)+
  then have "Intersects ys xs = Option.bind (FindNextIntersectingPair False (P @ R) (U @ V) (length P) (length U))
      (\<lambda>(found, _). Some found)"
    using False xs(1-3) V(1,3) by (simp add: Intersects_def)
  then show ?thesis
    unfolding meets
    by (cases rule: FindNextIntersectingPair_cases [OF nR nV, of False P U])
      (auto dest: pair_found_meets)
qed

text \<open>Replacing an interval by pieces of it.\<close>

lemma normal_splice:
  assumes "normal (P @ i # R)" and "normal cs" and "\<forall>c \<in> set cs. i_start i \<le> i_start c \<and> i_limit c \<le> i_limit i"
  shows "normal (P @ cs @ R)"
proof -
  have "i_limit p < i_start c" if "p \<in> set P" "c \<in> set cs" for p c
  proof -
    have "i_limit p < i_start i" "i_start i \<le> i_start c"
      using that assms by auto
    then show ?thesis by (rule order.strict_trans2)
  qed
  moreover have "i_limit c < i_start r" if "c \<in> set cs" "r \<in> set R" for c r
  proof -
    have "i_limit c \<le> i_limit i" "i_limit i < i_start r"
      using that assms by auto
    then show ?thesis by (rule order.strict_trans1)
  qed
  ultimately show ?thesis
    using assms(1,2) by auto
qed

section \<open>Intersection\<close>

lemma lists_disjoint: "\<forall>a \<in> set A. \<forall>b \<in> set B. i_limit a \<le> i_start b \<Longrightarrow> points A \<inter> points B = {}"
  by (fastforce simp: points_def pts_def)

abbreviation common :: "'a::linorder Interval \<Rightarrow> 'a Interval \<Rightarrow> 'a Interval" where
  "common i v \<equiv> ivl (max (i_start i) (i_start v)) (min (i_limit i) (i_limit v))"

lemma common_Intersects:
  assumes "i_Intersects i v"
  shows "i_start (common i v) < i_limit (common i v)" and "pts (common i v) = pts i \<inter> pts v"
  using assms by (auto simp: i_Intersects_def i_empty_iff pts_def)

abbreviation pieces :: "'a::linorder Interval \<Rightarrow> 'a intervals \<Rightarrow> 'a intervals" where
  "pieces i V \<equiv> map (common i) (takeWhile (i_Intersects i) V)"

lemma insert_pieces_spec:
  assumes "normal V" and "\<forall>p \<in> set P. \<forall>v \<in> set V. i_start p < max (i_start i) (i_start v)"
    and "\<forall>r \<in> set R. i_limit i < i_start r"
  shows "insert_pieces i V (P @ R, m, t) =
    (P @ pieces i V @ R, (if pieces i V = [] then m else length P + length (pieces i V) - 1), t + length (pieces i V))"
  using assms(1,2)
proof (induction V arbitrary: P m t)
  case (Cons v V)
  show ?case
  proof (cases "i_Intersects i v")
    case True
    have lt: "i_start v < i_limit v" "\<forall>w \<in> set V. i_limit v < i_start w"
      using Cons.prems(1) by auto
    have "max (i_start i) (i_start v) < i_limit i"
      using True by (simp add: i_Intersects_def i_empty_iff)
    then have R: "\<forall>r \<in> set R. IntervalLess (common i v) r"
      using assms(3) by (auto simp: IntervalLess_def dest: order.strict_trans)
    have "set_insert (common i v) (P @ R) = (P @ common i v # R, length P, True)"
      using Cons.prems(2) R by (intro set_insert_at) (auto simp: IntervalLess_def)
    moreover have "insert_pieces i V ((P @ [common i v]) @ R, length P, Suc t) =
        ((P @ [common i v]) @ pieces i V @ R,
          (if pieces i V = [] then length P else length (P @ [common i v]) + length (pieces i V) - 1),
          Suc t + length (pieces i V))"
    proof (rule Cons.IH)
      have "max (i_start i) (i_start v) < max (i_start i) (i_start w)" if "w \<in> set V" for w
      proof -
        have "i_limit v < i_start w" "i_start i < i_limit v"
          using that lt(2) True by (auto simp: i_Intersects_def)
        then have "i_start i < i_start w" "i_start v < i_start w"
          using lt(1) by (meson order.strict_trans)+
        then show ?thesis by (simp add: less_max_iff_disj)
      qed
      then show "\<forall>p \<in> set (P @ [common i v]). \<forall>w \<in> set V. i_start p < max (i_start i) (i_start w)"
        using Cons.prems(2) by simp
    qed (use Cons.prems(1) in simp)
    ultimately show ?thesis
      using True by (simp add: i_Intersects_out_def)
  qed (simp add: i_Intersects_out_def)
qed (simp add:)

text \<open>The pieces of one interval, and what the other set has left for the next one.\<close>

lemma normal_pieces:
  assumes "normal V" and "\<forall>v \<in> set V. i_Intersects i v"
  shows "normal (map (common i) V)" and "points (map (common i) V) = pts i \<inter> points V"
    and "\<forall>c \<in> set (map (common i) V). i_start i \<le> i_start c \<and> i_limit c \<le> i_limit i"
proof -
  have "normal (map (common i) V) \<and> points (map (common i) V) = pts i \<inter> points V"
    using assms
  proof (induction V)
    case (Cons v V)
    have "i_limit (common i v) < i_start c" if "c \<in> set (map (common i) V)" for c
    proof -
      obtain w where "w \<in> set V" "c = common i w"
        using \<open>c \<in> set (map (common i) V)\<close> by auto
      moreover from this(1) have "i_limit v < i_start w"
        using Cons.prems(1) by simp
      ultimately show ?thesis
        by (simp add: min_less_iff_disj less_max_iff_disj)
    qed
    then have "normal (common i v # map (common i) V)"
      using Cons common_Intersects(1) [of i v] by (simp del: ivl_simps)
    moreover have "points (common i v # map (common i) V) = pts i \<inter> points (v # V)"
      using Cons common_Intersects(2) [of i v] by (simp del: pts_ivl) blast
    ultimately show ?case by (simp del: normal_simps points_simps)
  qed simp
  then show "normal (map (common i) V)" "points (map (common i) V) = pts i \<inter> points V" by auto
  show "\<forall>c \<in> set (map (common i) V). i_start i \<le> i_start c \<and> i_limit c \<le> i_limit i"
    by auto
qed

lemma pieces_split:
  assumes "normal (v # V)" and "i_Intersects i v"
  obtains A b B where "v # V = A @ b # B" and "takeWhile (i_Intersects i) (v # V) = A @ [b]"
    and "\<forall>a \<in> set (A @ [b]). i_Intersects i a"
    and "\<forall>w \<in> set B. i_limit i \<le> i_start w"
proof -
  obtain A b where Ab: "takeWhile (i_Intersects i) (v # V) = A @ [b]"
    using assms(2) by (cases "takeWhile (i_Intersects i) (v # V)" rule: rev_cases) auto
  define B where "B = dropWhile (i_Intersects i) (v # V)"
  have split: "v # V = A @ b # B"
    using takeWhile_dropWhile_id [of "i_Intersects i" "v # V"] Ab by (simp add: B_def)
  have int: "\<forall>a \<in> set (A @ [b]). i_Intersects i a"
    using set_takeWhileD [of _ "i_Intersects i" "v # V"] unfolding Ab by blast
  have "\<forall>w \<in> set B. i_limit i \<le> i_start w"
  proof (cases B)
    case (Cons w W)
    have n: "normal (b # w # W)"
      using assms(1) unfolding split Cons by simp
    have "\<not> i_Intersects i w"
      using hd_dropWhile [of "i_Intersects i" "v # V"] Cons unfolding B_def by simp
    moreover have "i_start i < i_limit b" "i_start i < i_limit i"
      using int by (auto simp: i_Intersects_def i_empty_iff)
    moreover have "i_limit b < i_start w" "i_start w < i_limit w"
      using n by auto
    ultimately have "i_limit i \<le> i_start w"
      by (auto simp: i_Intersects_def i_empty_iff not_less dest: order.strict_trans)
    moreover have "\<forall>z \<in> set B. i_start w \<le> i_start z"
      using n Cons by (auto intro: less_imp_le order.strict_trans)
    ultimately show ?thesis by (meson order.trans)
  qed simp
  then show thesis
    using that split Ab int by blast
qed

lemma intersection_round:
  assumes "R = D @ i # R'" and "V = W @ A @ b # B"
    and "points D \<inter> points V = {}" and "points W \<inter> points (i # R') = {}"
    and "normal (A @ b # B)" and "i_Intersects i b"
    and "\<forall>r \<in> set R'. i_limit i < i_start r" and "\<forall>w \<in> set B. i_limit i \<le> i_start w"
  shows "points R \<inter> points V = (pts i \<inter> points (A @ [b])) \<union> (points R' \<inter> points (b # B))"
proof -
  have "i_limit a \<le> i_start r" if "a \<in> set A" "r \<in> set R'" for a r
  proof -
    have "i_limit a < i_start b" "i_start b < i_limit i" "i_limit i < i_start r"
      using that assms(5-7) by (auto simp: i_Intersects_def)
    then show ?thesis by (meson less_imp_le order.strict_trans)
  qed
  then have "points A \<inter> points R' = {}"
    by (intro lists_disjoint) blast
  moreover have "points B \<inter> pts i = {}"
    using assms(8) by (intro after_disjoint)
  ultimately show ?thesis
    using assms(1-4) by auto
qed

lemma Intersection_loop_spec:
  assumes "normal (P @ R)" and "normal V" and "V \<noteq> []"
  shows "\<exists>Q. Intersection_loop (U @ V) (length P) (length U) (P @ R) = Some (P @ Q) \<and> normal Q
    \<and> points Q = points R \<inter> points V \<and> (\<forall>q \<in> set Q. \<exists>r \<in> set R. i_start r \<le> i_start q)"
  using assms
proof (induction "length R" arbitrary: P R U V rule: less_induct)
  case less
  have nR: "normal R" using less.prems(1) by simp
  note loop = Intersection_loop.simps [of "U @ V" "length P" "length U" "P @ R"]
  from nR less.prems(2) show ?case
  proof (cases rule: FindNextIntersectingPair_cases [where e = True and P = P and U = U])
    case none
    then have "Intersection_loop (U @ V) (length P) (length U) (P @ R) = Some (P @ [])"
      unfolding loop using less.prems(3) by simp
    then show ?thesis
      using none(1) by (intro exI [of _ "[]"]) simp
  next
    case (found D i R' W v V')
    have R: "R = D @ i # R'" and V: "V = W @ v # V'" and iv: "i_Intersects i v"
      and disj: "points D \<inter> points V = {}" "points W \<inter> points (i # R') = {}"
      using found(1) by (auto simp: pair_found_def)
    have nV: "normal (v # V')" using less.prems(2) V by simp
    obtain A b B where AB: "v # V' = A @ b # B" "takeWhile (i_Intersects i) (v # V') = A @ [b]"
      "\<forall>a \<in> set (A @ [b]). i_Intersects i a" "\<forall>w \<in> set B. i_limit i \<le> i_start w"
      using pieces_split [OF nV iv] .
    let ?cs = "map (common i) (A @ [b])"
    have iR: "\<forall>r \<in> set R'. i_limit i < i_start r" and nP: "normal (P @ i # R')"
      using less.prems(1) R by auto
    have nA: "normal (A @ [b])"
      using nV unfolding AB(1) by simp
    note cs = normal_pieces [OF nA AB(3)]
    have "insert_pieces i (v # V') (P @ R', length (P @ R'), length (U @ W)) =
        (P @ ?cs @ R', length (P @ ?cs) - 1, length (U @ W) + length ?cs)"
    proof -
      have "\<forall>p \<in> set P. \<forall>w \<in> set (v # V'). i_start p < max (i_start i) (i_start w)"
        using start_less_of_normal [OF nP] by (simp add: less_max_iff_disj)
      from insert_pieces_spec [OF nV this iR] show ?thesis
        by (simp add: AB(2) del: takeWhile.simps)
    qed
    then have "Intersection_loop (U @ V) (length P) (length U) (P @ R) =
        Intersection_loop ((U @ W @ A) @ b # B) (length (P @ ?cs)) (length (U @ W @ A)) ((P @ ?cs) @ R')"
      unfolding loop using found(2) V AB(1) by (simp add: add.assoc)
    moreover have "normal ((P @ ?cs) @ R')"
      using normal_splice [OF nP cs(1,3)] by simp
    moreover have "normal (b # B)"
      using nV unfolding AB(1) by simp
    moreover have "length R' < length R"
      using R by simp
    ultimately obtain Q where Q: "Intersection_loop (U @ V) (length P) (length U) (P @ R) = Some ((P @ ?cs) @ Q)"
      "normal Q" "points Q = points R' \<inter> points (b # B)" "\<forall>q \<in> set Q. \<exists>r \<in> set R'. i_start r \<le> i_start q"
      using less.hyps [of R' "P @ ?cs" "b # B" "U @ W @ A"] by auto
    show ?thesis
    proof (intro exI [of _ "?cs @ Q"] conjI)
      show "Intersection_loop (U @ V) (length P) (length U) (P @ R) = Some (P @ ?cs @ Q)"
        using Q(1) by simp
      have "i_limit c < i_start q" if "c \<in> set ?cs" "q \<in> set Q" for c q
        using that iR cs(3) Q(4) by (meson order.strict_trans1 order.strict_trans2)
      then show "normal (?cs @ Q)"
        using cs(1) Q(2) unfolding normal_simps by blast
      have "points R \<inter> points V = (pts i \<inter> points (A @ [b])) \<union> (points R' \<inter> points (b # B))"
      proof (rule intersection_round [OF R _ disj])
        show "V = W @ A @ b # B" using V AB(1) by simp
        show "normal (A @ b # B)" using nV AB(1) by simp
        show "i_Intersects i b" using AB(3) by simp
      qed (use iR AB(4) in blast)+
      then show "points (?cs @ Q) = points R \<inter> points V"
        unfolding points_simps(3) [of ?cs] cs(2) Q(3) by (rule sym)
      show "\<forall>q \<in> set (?cs @ Q). \<exists>r \<in> set R. i_start r \<le> i_start q"
        using cs(3) Q(4) R by auto
    qed
  qed
qed


lemma Intersection_spec:
  assumes "normal xs" and "normal ys" and "same \<longrightarrow> ys = xs"
  shows "\<exists>zs. Intersection same ys xs = Some zs \<and> normal zs \<and> points zs = points xs \<inter> points ys"
proof (cases "same \<or> apart xs ys")
  case True
  then show ?thesis
    using assms apart_disjoint [OF assms(1,2)] by (auto simp: Intersection_def)
next
  case False
  then have ne: "xs \<noteq> []" "ys \<noteq> []" by (auto simp: apart_def)
  obtain P R where xs: "xs = P @ R" "R \<noteq> []" "FindIntersectionCandidate (hd ys) xs = length P"
    "points P \<inter> points ys = {}"
    using candidate_skips [OF assms(1) ne(1) assms(2) ne(2)] .
  have nR: "normal R" using assms(1) xs(1) by simp
  obtain U V where V: "ys = U @ V" "V \<noteq> []" "FindIntersectionCandidate (hd R) ys = length U"
    "points U \<inter> points R = {}"
    using candidate_skips [OF assms(2) ne(2) nR xs(2)] .
  have "normal V" "normal ([] @ R)" using assms(2) V(1) nR by simp_all
  then obtain Q where "Intersection_loop (U @ V) 0 (length U) R = Some Q"
    "normal Q" "points Q = points R \<inter> points V"
    using Intersection_loop_spec [of "[]" R V U] V(2) by auto
  moreover have "points xs \<inter> points ys = points R \<inter> points V"
    using xs(1,4) V(1,4) by auto
  ultimately show ?thesis
    using False xs(1,3) V(1,3) by (simp add: Intersection_def)
qed


section \<open>Difference\<close>

text \<open>The number of intersecting pairs bounds the rounds of the loop.\<close>

definition meetings :: "'a::linorder intervals \<Rightarrow> 'a intervals \<Rightarrow> nat" where
  "meetings R V = sum_list (map (\<lambda>r. length (filter (i_Intersects r) V)) R)"

lemma meetings_append [simp]:
  "meetings (R @ S) V = meetings R V + meetings S V" "meetings [] V = 0"
  "meetings (r # R) V = length (filter (i_Intersects r) V) + meetings R V"
  by (simp_all add: meetings_def)

lemma length_filter_mono: "(\<And>x. x \<in> set V \<Longrightarrow> Q x \<Longrightarrow> Q' x) \<Longrightarrow> length (filter Q V) \<le> length (filter Q' V)"
  by (induction V) auto

lemma meetings_shorter: "meetings R V \<le> meetings R (W @ V)"
  by (induction R) auto

text \<open>What is left of \<open>i\<close> without \<open>v\<close>.\<close>

definition remains :: "'a::linorder Interval \<Rightarrow> 'a Interval \<Rightarrow> 'a intervals" where
  "remains i v = (if i_start i < i_start v then [ivl (i_start i) (i_start v)] else [])
    @ (if i_limit v < i_limit i then [ivl (i_limit v) (i_limit i)] else [])"

lemma remains_spec:
  assumes "i_Intersects i v"
  shows "normal (remains i v)" and "points (remains i v) = pts i - pts v"
    and "\<forall>c \<in> set (remains i v). i_start i \<le> i_start c \<and> i_limit c \<le> i_limit i"
  using assms by (auto simp: remains_def i_Intersects_def i_empty_iff pts_def intro: order.strict_trans less_imp_le)

lemma meetings_remains:
  assumes "i_Intersects i v" and "normal (v # V)"
  shows "meetings (remains i v) (v # V) < meetings [i] (v # V)"
proof -
  have v: "i_start v < i_limit v" using assms(2) by simp
  have lo: "filter (i_Intersects (ivl (i_start i) (i_start v))) (v # V) = []"
  proof -
    have "\<not> i_Intersects (ivl (i_start i) (i_start v)) w" if "w \<in> set (v # V)" for w
    proof -
      have "i_start v \<le> i_start w"
        using that assms(2) by (auto intro: less_imp_le order.strict_trans)
      then show ?thesis by (auto simp: i_Intersects_def)
    qed
    then show ?thesis by (auto simp: filter_empty_conv)
  qed
  have hi: "length (filter (i_Intersects (ivl (i_limit v) (i_limit i))) V) \<le> length (filter (i_Intersects i) V)"
    by (rule length_filter_mono) (use assms(1) v in \<open>auto simp: i_Intersects_def i_empty_iff dest: order.strict_trans\<close>)
  have "\<not> i_Intersects (ivl (i_limit v) (i_limit i)) v"
    by (simp add: i_Intersects_def)
  then show ?thesis
    using lo hi assms(1) by (simp add: remains_def)
qed

lemma in_place:
  assumes "normal (A @ x # B)"
  shows "set_insert x (A @ B) = (A @ x # B, length A, True)"
    and "ReplaceInterval (length A) x (A @ z # B) = (A @ x # B, length A)"
  using normal_ordered [OF assms] set_insert_at [of A x B] ReplaceInterval_at [of A x B] by simp_all

text \<open>One round of the loop leaves what remains of the found interval, or has passed it already.\<close>

lemma Difference_loop_round:
  assumes "i_Intersects i v" and "normal (A @ i # R)"
    and found: "FindNextIntersectingPair False xs (U @ v # V) m t = Some (True, A @ i # R, length A, length U)"
  defines "lo \<equiv> ivl (i_start i) (i_start v)"
  shows "remains i v \<noteq> [lo] \<Longrightarrow> Difference_loop (U @ v # V) m t xs =
      Difference_loop (U @ v # V) (length A) (length U) (A @ remains i v @ R)"
    and "remains i v = [lo] \<Longrightarrow> Difference_loop (U @ v # V) m t xs =
      Difference_loop (U @ v # V) (length (A @ [lo])) (length U) ((A @ [lo]) @ R)"
proof -
  let ?hi = "ivl (i_limit v) (i_limit i)"
  note r = remains_spec [OF assms(1)]
  have n: "normal (A @ remains i v @ R)"
    using normal_splice [OF assms(2) r(1,3)] .
  have lo_hi: "?hi \<noteq> lo"
    using assms(1) by (auto simp: lo_def ivl_def i_Intersects_def i_empty_iff)
  note loop = Difference_loop.simps [of "U @ v # V" m t xs, unfolded found]
  show "Difference_loop (U @ v # V) m t xs =
      Difference_loop (U @ v # V) (length A) (length U) (A @ remains i v @ R)" if "remains i v \<noteq> [lo]"
  proof (cases "i_limit v < i_limit i")
    case True
    then have "normal (A @ ?hi # R)"
      using n by (auto simp: remains_def split: if_splits)
    note hi = in_place(2) [OF this]
    have "normal (A @ lo # ?hi # R)" if "i_start i < i_start v"
      using n True that by (simp add: remains_def lo_def)
    note lo = in_place(1) [OF this]
    show ?thesis
      unfolding loop using True hi lo assms(1)
      by (simp add: i_Difference_cases i_empty_iff default_ivl_def remains_def lo_def)
  next
    case False
    then have "\<not> i_start i < i_start v"
      using that by (auto simp: remains_def lo_def)
    then show ?thesis
      unfolding loop using False assms(1)
      by (simp add: i_Difference_cases i_empty_iff default_ivl_def remains_def)
  qed
  assume only_lo: "remains i v = [lo]"
  then have "i_start i < i_start v" "\<not> i_limit v < i_limit i"
    using lo_hi by (auto simp: remains_def split: if_splits)
  moreover have "normal (A @ lo # R)"
    using n only_lo by simp
  ultimately show "Difference_loop (U @ v # V) m t xs =
      Difference_loop (U @ v # V) (length (A @ [lo])) (length U) ((A @ [lo]) @ R)"
    unfolding loop using in_place(2) [of A lo R i] assms(1)
    by (simp add: i_Difference_cases i_empty_iff default_ivl_def lo_def)
qed

lemma Difference_loop_spec:
  assumes "normal (P @ R)" and "normal V"
  shows "\<exists>Q. Difference_loop (U @ V) (length P) (length U) (P @ R) = Some (P @ Q) \<and> normal (P @ Q)
    \<and> points Q = points R - points V"
  using assms
proof (induction "meetings R V" arbitrary: P R U V rule: less_induct)
  case less
  have nR: "normal R" using less.prems(1) by simp
  note loop = Difference_loop.simps [of "U @ V" "length P" "length U" "P @ R"]
  from nR less.prems(2) show ?case
  proof (cases rule: FindNextIntersectingPair_cases [where e = False and P = P and U = U])
    case none
    then have "Difference_loop (U @ V) (length P) (length U) (P @ R) = Some (P @ R)"
      unfolding loop by simp
    then show ?thesis
      using none(1) less.prems(1) by (intro exI [of _ R]) auto
  next
    case (found D i R' W v V')
    have R: "R = D @ i # R'" and V: "V = W @ v # V'" and iv: "i_Intersects i v"
      and disj: "points D \<inter> points V = {}" "points W \<inter> points (i # R') = {}"
      using found(1) by (auto simp: pair_found_def)
    let ?lo = "ivl (i_start i) (i_start v)"
    have nV: "normal (v # V')" and n: "normal ((P @ D) @ i # R')"
      using less.prems V R by simp_all
    have nxt: "FindNextIntersectingPair False (P @ R) ((U @ W) @ v # V') (length P) (length U) =
        Some (True, (P @ D) @ i # R', length (P @ D), length (U @ W))"
      using found(2) V by simp
    note round = Difference_loop_round [OF iv n nxt]
    note r = remains_spec [OF iv]
    have nr: "normal ((P @ D) @ remains i v @ R')"
      using normal_splice [OF n r(1,3)] .
    have m: "meetings (remains i v @ R') (v # V') < meetings R V"
      using meetings_remains [OF iv nV] meetings_shorter [of "i # R'" "v # V'" W] R V by simp
    have left: "points R - points V = points D \<union> (points (remains i v @ R') - points (v # V'))"
      using disj r(2) R V by auto
    show ?thesis
    proof (cases "remains i v = [?lo]")
      case False
      obtain Q where "Difference_loop ((U @ W) @ v # V') (length (P @ D)) (length (U @ W))
          ((P @ D) @ remains i v @ R') = Some ((P @ D) @ Q)"
        "normal ((P @ D) @ Q)" "points Q = points (remains i v @ R') - points (v # V')"
        using less.hyps [OF m nr nV] by blast
      then show ?thesis
        using round(1) [OF False] left V by (intro exI [of _ "D @ Q"]) simp
    next
      case True
      have lo: "pts ?lo \<inter> points (v # V') = {}"
        using before_normal_disjoint [OF _ nV, of "[?lo]"] by simp
      have "normal ((P @ D @ [?lo]) @ R')" "meetings R' (v # V') < meetings R V"
        using nr m True by simp_all
      then obtain Q where "Difference_loop ((U @ W) @ v # V') (length (P @ D @ [?lo])) (length (U @ W))
          ((P @ D @ [?lo]) @ R') = Some ((P @ D @ [?lo]) @ Q)"
        "normal ((P @ D @ [?lo]) @ Q)" "points Q = points R' - points (v # V')"
        using less.hyps [OF _ _ nV] by blast
      then show ?thesis
        using round(2) [OF True] left lo True V by (intro exI [of _ "D @ ?lo # Q"]) auto
    qed
  qed
qed

lemma Difference_set_spec:
  assumes "normal xs" and "normal ys" and "same \<longrightarrow> ys = xs"
  shows "\<exists>zs. Difference_set same ys xs = Some zs \<and> normal zs \<and> points zs = points xs - points ys"
proof (cases "same \<or> apart xs ys")
  case True
  then show ?thesis
    using assms apart_disjoint [OF assms(1,2)] by (auto simp: Difference_set_def)
next
  case False
  then have ne: "xs \<noteq> []" "ys \<noteq> []" by (auto simp: apart_def)
  obtain P R where xs: "xs = P @ R" "R \<noteq> []" "FindIntersectionCandidate (hd ys) xs = length P"
    "points P \<inter> points ys = {}"
    using candidate_skips [OF assms(1) ne(1) assms(2) ne(2)] .
  obtain U V where V: "ys = U @ V" "V \<noteq> []" "FindIntersectionCandidate (hd xs) ys = length U"
    "points U \<inter> points xs = {}"
    using candidate_skips [OF assms(2) ne(2) assms(1) ne(1)] .
  have "normal (P @ R)" "normal V" using assms(1,2) V(1) xs(1) by simp_all
  then obtain Q where "Difference_loop (U @ V) (length P) (length U) (P @ R) = Some (P @ Q)"
    "normal (P @ Q)" "points Q = points R - points V"
    using Difference_loop_spec [of P R V U] by blast
  moreover have "points xs - points ys = points P \<union> (points R - points V)"
    using xs(1,4) V(1,4) by auto
  moreover have "length P < length xs"
    using xs(1,2) by simp
  ultimately show ?thesis
    using False xs(1,3) V(1,3) by (simp add: Difference_set_def)
qed

lemma InitImpl_spec: "normal (InitImpl i) \<and> points (InitImpl i) = pts i"
  by (auto simp: InitImpl_def i_empty_iff pts_def)

lemma Complement_spec:
  assumes "normal xs"
  shows "\<exists>zs. Complement s l xs = Some zs \<and> normal zs \<and> points zs = {s ..< l} - points xs"
  using Difference_set_spec [of "InitImpl (ivl s l)" xs False] InitImpl_spec [of "ivl s l"] assms
  by (simp add: Complement_def)

section \<open>Many sets at once\<close>

lemma merged_interval:
  assumes "i_start a < i_limit a" and "i_start b < i_limit b"
    and "i_start b \<le> i_limit a" and "i_start a \<le> i_limit b"
  shows "pts (ivl (min (i_start a) (i_start b)) (max (i_limit a) (i_limit b))) = pts a \<union> pts b"
  using assms by (auto simp: pts_def min_def max_def split: if_splits)

abbreviation heap_points :: "'a::linorder intervals list \<Rightarrow> 'a set" where
  "heap_points heap \<equiv> (\<Union>h \<in> set heap. points h)"

lemma heap_pop:
  assumes "f < length heap" and "\<forall>h \<in> set heap. h \<noteq> [] \<and> normal h"
  defines "left \<equiv> tl (heap ! f)"
  defines "heap' \<equiv> (if left = [] then take f heap @ drop (Suc f) heap else heap[f := left])"
  shows "\<forall>h \<in> set heap'. h \<noteq> [] \<and> normal h"
    and "heap_points heap = pts (hd (heap ! f)) \<union> heap_points heap'"
    and "i_start (hd (heap ! f)) < i_limit (hd (heap ! f))"
proof -
  obtain x xs where f: "heap ! f = x # xs" "normal (x # xs)"
    using assms(1,2) by (cases "heap ! f") (metis nth_mem)+
  have split: "heap = take f heap @ (x # xs) # drop (Suc f) heap"
    using id_take_nth_drop [OF assms(1)] f(1) by simp
  have others: "\<forall>h \<in> set (take f heap) \<union> set (drop (Suc f) heap). h \<noteq> [] \<and> normal h"
    using assms(2) by (auto dest: in_set_takeD in_set_dropD)
  have heap': "heap' = take f heap @ (if xs = [] then [] else [xs]) @ drop (Suc f) heap"
    using assms(1) f(1) by (simp add: heap'_def left_def upd_conv_take_nth_drop)
  show "\<forall>h \<in> set heap'. h \<noteq> [] \<and> normal h"
    unfolding heap' using others f(2) by auto
  have "heap_points heap = heap_points (take f heap @ (x # xs) # drop (Suc f) heap)"
    using split by simp
  then show "heap_points heap = pts (hd (heap ! f)) \<union> heap_points heap'"
    unfolding heap' using f(1) by auto
  show "i_start (hd (heap ! f)) < i_limit (hd (heap ! f))"
    using f by simp
qed

lemma UnionImpl_loop_spec:
  assumes front: "\<And>h. h \<noteq> [] \<Longrightarrow> front h < length h"
    and "\<forall>h \<in> set heap. h \<noteq> [] \<and> normal h" and "i_start prior < i_limit prior" and "normal result"
  shows "normal (UnionImpl_loop front prior heap result)
    \<and> points (UnionImpl_loop front prior heap result) = points result \<union> pts prior \<union> heap_points heap"
  using assms(2-4)
proof (induction "sum_list (map length heap)" arbitrary: prior heap result rule: less_induct)
  case less
  show ?case
  proof (cases "heap = []")
    case True
    then show ?thesis
      using AddImpl_spec [OF less.prems(3), of prior] by (simp add: UnionImpl_loop.simps [of front prior heap])
  next
    case False
    let ?f = "front heap" and ?current = "hd (heap ! front heap)"
    let ?prior = "ivl (min (i_start prior) (i_start ?current)) (max (i_limit prior) (i_limit ?current))"
    define heap' where
      "heap' = (if tl (heap ! ?f) = [] then take ?f heap @ drop (Suc ?f) heap else heap[?f := tl (heap ! ?f)])"
    have f: "?f < length heap" "heap ! ?f \<noteq> []"
      using front [OF False] less.prems(1) nth_mem by blast+
    note pop = heap_pop [OF f(1) less.prems(1), folded heap'_def]
    have smaller: "sum_list (map length heap') < sum_list (map length heap)"
      using heap_shrinks [OF f] by (auto simp: heap'_def)
    have loop: "UnionImpl_loop front prior heap result =
        (if i_start ?current \<le> i_limit prior \<and> i_limit ?current \<ge> i_start prior
         then UnionImpl_loop front ?prior heap' result
         else UnionImpl_loop front ?current heap' (AddImpl prior result))"
      using False f unfolding UnionImpl_loop.simps [of front prior heap result] Let_def heap'_def by simp
    show ?thesis
    proof (cases "i_start ?current \<le> i_limit prior \<and> i_limit ?current \<ge> i_start prior")
      case True
      then have "pts ?prior = pts prior \<union> pts ?current" "i_start ?prior < i_limit ?prior"
        using merged_interval [OF less.prems(2) pop(3)] less.prems(2)
        by (auto simp: min_less_iff_disj less_max_iff_disj)
      then show ?thesis
        using less.hyps [OF smaller pop(1) _ less.prems(3), of ?prior] pop(2) True
        unfolding loop by auto
    next
      case False
      then show ?thesis
        using less.hyps [OF smaller pop(1,3), of "AddImpl prior result"] pop(2)
          AddImpl_spec [OF less.prems(3), of prior]
        unfolding loop by auto
    qed
  qed
qed

lemma UnionImpl_spec:
  assumes "\<And>h. h \<noteq> [] \<Longrightarrow> front h < length h" and "\<forall>xs \<in> set sets. normal xs"
  shows "normal (UnionImpl front sets) \<and> points (UnionImpl front sets) = heap_points sets"
proof -
  let ?heap = "filter (\<lambda>xs. xs \<noteq> []) sets"
  have heap: "\<forall>h \<in> set ?heap. h \<noteq> [] \<and> normal h"
    using assms(2) by auto
  have pts: "heap_points ?heap = heap_points sets"
    by auto
  show ?thesis
  proof (cases "?heap = []")
    case True
    have "UnionImpl front sets = []"
      unfolding UnionImpl_def True by simp
    moreover have "heap_points sets = {}"
      unfolding pts [symmetric] True by simp
    ultimately show ?thesis by simp
  next
    case False
    have f: "front ?heap < length ?heap"
      using assms(1) False .
    have "UnionImpl front sets = UnionImpl_loop front (hd (?heap ! front ?heap)) ?heap []"
      unfolding UnionImpl_def Let_def if_not_P [OF False] by (rule refl)
    moreover have "pts (hd (?heap ! front ?heap)) \<subseteq> heap_points ?heap"
      unfolding heap_pop(2) [OF f heap] by (rule Un_upper1)
    ultimately show ?thesis
      using UnionImpl_loop_spec [of front ?heap "hd (?heap ! front ?heap)" "[]", OF assms(1) heap
          heap_pop(3) [OF f heap]] pts by auto
  qed
qed

section \<open>Adding integers\<close>

lemma AddInts_loop_spec:
  assumes "normal xs" and "first \<le> prev"
  shows "normal (AddInts_loop m first prev vs xs)
    \<and> points (AddInts_loop m first prev vs xs) = points xs \<union> {first .. prev} \<union> (set vs - {m})"
  using assms
proof (induction m first prev vs xs rule: AddInts_loop.induct)
  case (1 m first prev xs)
  show ?case
    using AddImpl_spec [OF 1(1), of "ivl first (prev + 1)"]
    by (simp add: atLeastLessThanPlusOne_atLeastAtMost_int)
next
  case (2 m first prev v vs xs)
  have add: "normal (AddImpl (ivl first (prev + 1)) xs)"
    "points (AddImpl (ivl first (prev + 1)) xs) = points xs \<union> {first .. prev}"
    using AddImpl_spec [OF 2(4), of "ivl first (prev + 1)"]
    by (simp_all add: atLeastLessThanPlusOne_atLeastAtMost_int)
  consider (skip) "v = m" | (gap) "v \<noteq> m" "prev + 1 \<noteq> v" | (run) "v \<noteq> m" "prev + 1 = v" by blast
  then show ?case
  proof cases
    case skip
    then show ?thesis using 2(1) [OF _ 2(4,5)] by simp
  next
    case gap
    then have "set (v # vs) - {m} = {v .. v} \<union> (set vs - {m})" by auto
    then show ?thesis
      using 2(2) [OF _ _ add(1)] gap add(2) by (simp add: Un_assoc)
  next
    case run
    then have "{first .. v} = insert v {first .. prev}"
      using 2(5) by auto
    then show ?thesis
      using 2(3) [OF _ _ 2(4)] 2(5) run by (simp add: insert_Diff_if)
  qed
qed

lemma AddIntsToIntervalSet_spec:
  assumes "normal xs"
  shows "normal (AddIntsToIntervalSet m ints xs)
    \<and> points (AddIntsToIntervalSet m ints xs) = points xs \<union> (set ints - {m})"
proof -
  have rest: "set ints - {m} = set (dropWhile (\<lambda>v. v = m) ints) - {m}"
    by (induction ints) auto
  show ?thesis
  proof (cases "dropWhile (\<lambda>v. v = m) ints")
    case Nil
    have "AddIntsToIntervalSet m ints xs = xs" "set ints - {m} = {}"
      unfolding AddIntsToIntervalSet_def rest Nil by simp_all
    then show ?thesis
      using assms by (simp only: Un_empty_right simp_thms)
  next
    case (Cons v vs)
    then have "v \<noteq> m"
      using hd_dropWhile [of "\<lambda>v. v = m" ints] by simp
    then have "set ints - {m} = {v .. v} \<union> (set vs - {m})"
      using rest Cons by auto
    then show ?thesis
      using Cons AddInts_loop_spec [OF assms, of v v m vs] by (simp add: AddIntsToIntervalSet_def Un_assoc)
  qed
qed


section \<open>Splitting and changing one interval\<close>

lemma i_IntersectWith_spec:
  assumes "i_IntersectWith x y = (z, modified)"
  shows "pts z = pts x \<inter> pts y \<and> (modified \<longleftrightarrow> z \<noteq> x)"
  using assms
  by (cases x) (auto simp: i_IntersectWith_def i_empty_iff pts_def split: if_splits)

lemma pts_subset_pts:
  assumes "i_start x < i_limit x"
  shows "pts x \<subseteq> pts w \<longleftrightarrow> i_start w \<le> i_start x \<and> i_limit x \<le> i_limit w"
proof
  assume sub: "pts x \<subseteq> pts w"
  then have "i_start x \<in> pts w"
    using assms by (auto simp: pts_def)
  moreover have "i_limit w \<notin> pts x"
    using sub by (auto simp: pts_def)
  ultimately show "i_start w \<le> i_start x \<and> i_limit x \<le> i_limit w"
    by (auto simp: pts_def not_le)
qed (auto simp: pts_def)

lemma i_SpanningUnion_spec:
  assumes "i_SpanningUnion x y = (z, modified)"
  shows "pts x \<union> pts y \<subseteq> pts w \<longleftrightarrow> pts z \<subseteq> pts w"
proof (cases "i_empty x \<or> i_empty y")
  case True
  then show ?thesis
    using assms pts_empty [of x] pts_empty [of y] by (auto simp: i_SpanningUnion_def split: if_splits)
next
  case False
  then have "z = ivl (min (i_start x) (i_start y)) (max (i_limit x) (i_limit y))"
    using assms by (cases x) (auto simp: i_SpanningUnion_def ivl_def min_def max_def split: if_splits)
  moreover from this have "i_start z < i_limit z"
    using False by (simp add: i_empty_iff min_less_iff_disj less_max_iff_disj)
  ultimately show ?thesis
    using False pts_subset_pts [of x w] pts_subset_pts [of y w] pts_subset_pts [of z w]
    by (auto simp: i_empty_iff)
qed

text \<open>The pieces of \<open>Split\<close> are adjacent and cover the interval, as long as the limits given advance.\<close>

fun adjacent :: "'a \<Rightarrow> 'a \<Rightarrow> 'a::linorder intervals \<Rightarrow> bool" where
  "adjacent a b [] \<longleftrightarrow> a = b"
| "adjacent a b (i # is) \<longleftrightarrow> i_start i = a \<and> a < i_limit i \<and> adjacent (i_limit i) b is"

lemma i_Split_loop_int:
  fixes limit :: int
  assumes "\<And>x. x < limit \<Longrightarrow> x < f x" and "a \<le> limit"
  shows "\<exists>is. i_Split_loop f limit a = Some is \<and> adjacent a limit is
    \<and> (\<forall>i \<in> set is. i_limit i = min (f (i_start i)) limit)"
  using assms(2)
proof (induction "nat (limit - a)" arbitrary: a rule: less_induct)
  case less
  show ?case
  proof (cases "a < limit")
    case False
    then have "a = limit" "i_Split_loop f limit a = Some []"
      using less.prems i_Split_loop.simps [of f limit a] by simp_all
    then show ?thesis by auto
  next
    case True
    let ?b = "min (f a) limit"
    have "a < ?b" "?b \<le> limit"
      using assms(1) [OF True] True by auto
    then obtain "is" where "i_Split_loop f limit ?b = Some is" "adjacent ?b limit is"
      "\<forall>i \<in> set is. i_limit i = min (f (i_start i)) limit"
      using less.hyps [of ?b] True by auto
    then show ?thesis
      using True \<open>a < ?b\<close> by (simp add: i_Split_loop.simps [of f limit a])
  qed
qed

end
