(* ===== verification/Point_Set_Interface.thy ===== *)
theory Point_Set_Interface
  imports Gloop_Prelude
begin

text \<open>
  What the clients of a set of points built from intervals rely on: adding an interval, and the binary
  operations, each seen through the set of points it denotes.  The second interface adds that the
  representation is canonical, so that laws about sets of points are equations between representations.
\<close>

locale point_set =
  fixes invar :: "'s \<Rightarrow> bool"
    and denotes :: "'s \<Rightarrow> 'a set"
    and covers :: "'i \<Rightarrow> 'a set"
    and add :: "'i \<Rightarrow> 's \<Rightarrow> 's"
  assumes add_invar: "invar s \<Longrightarrow> invar (add i s)"
    and add_denotes: "invar s \<Longrightarrow> denotes (add i s) = denotes s \<union> covers i"
begin

lemma add_all:
  "invar s \<Longrightarrow> invar (fold add is s) \<and> denotes (fold add is s) = denotes s \<union> (\<Union>i \<in> set is. covers i)"
  by (induction "is" arbitrary: s) (auto simp: add_invar add_denotes)

end

locale point_set_algebra = point_set +
  fixes join :: "'s \<Rightarrow> 's \<Rightarrow> 's"
    and meet :: "'s \<Rightarrow> 's \<Rightarrow> 's"
    and without :: "'s \<Rightarrow> 's \<Rightarrow> 's"
  assumes join_invar: "invar s \<Longrightarrow> invar t \<Longrightarrow> invar (join t s)"
    and join_denotes: "invar s \<Longrightarrow> invar t \<Longrightarrow> denotes (join t s) = denotes s \<union> denotes t"
    and meet_invar: "invar s \<Longrightarrow> invar t \<Longrightarrow> invar (meet t s)"
    and meet_denotes: "invar s \<Longrightarrow> invar t \<Longrightarrow> denotes (meet t s) = denotes s \<inter> denotes t"
    and without_invar: "invar s \<Longrightarrow> invar t \<Longrightarrow> invar (without t s)"
    and without_denotes: "invar s \<Longrightarrow> invar t \<Longrightarrow> denotes (without t s) = denotes s - denotes t"
    and canonical: "invar s \<Longrightarrow> invar t \<Longrightarrow> denotes s = denotes t \<Longrightarrow> s = t"
begin

lemmas algebra_laws =
  join_invar join_denotes meet_invar meet_denotes without_invar without_denotes

lemma join_all:
  "invar s \<Longrightarrow> \<forall>t \<in> set ts. invar t \<Longrightarrow>
    invar (fold join ts s) \<and> denotes (fold join ts s) = denotes s \<union> (\<Union>t \<in> set ts. denotes t)"
  by (induction ts arbitrary: s) (auto simp: algebra_laws)

lemma join_is_adding:
  assumes "invar s" and "invar t" and "denotes t = (\<Union>i \<in> set is. covers i)"
  shows "join t s = fold add is s"
  using assms add_all [OF assms(1), of "is"] by (intro canonical) (auto simp: algebra_laws)

lemma without_join: "invar s \<Longrightarrow> invar t \<Longrightarrow> invar u \<Longrightarrow> without (join t u) s = without t (without u s)"
  by (intro canonical) (auto simp: algebra_laws)

lemma meet_join: "invar s \<Longrightarrow> invar t \<Longrightarrow> invar u \<Longrightarrow> meet s (join t u) = join (meet s t) (meet s u)"
  by (intro canonical) (auto simp: algebra_laws)

lemma meet_without: "invar s \<Longrightarrow> invar t \<Longrightarrow> meet t s = without (without t s) s"
  by (intro canonical) (auto simp: algebra_laws)

lemma add_again: "invar s \<Longrightarrow> covers i \<subseteq> denotes s \<Longrightarrow> add i s = s"
  by (intro canonical) (auto simp: add_invar add_denotes)

end

end
