(* ===== verification/IntervalSet_Contract.thy ===== *)
theory IntervalSet_Contract
  imports IntervalSet_Walks Point_Set_Interface
begin

text \<open>
  The contract of \<open>IntervalSet\<close>: the interfaces of \<^verbatim>\<open>Point_Set_Interface\<close> interpreted on the model,
  and the properties of the component.
\<close>

section \<open>The interfaces\<close>

definition Intersected :: "'a::linorder intervals \<Rightarrow> 'a intervals \<Rightarrow> 'a intervals" where
  "Intersected ys xs = the (Intersection False ys xs)"

definition Without :: "'a::{linorder, zero} intervals \<Rightarrow> 'a intervals \<Rightarrow> 'a intervals" where
  "Without ys xs = the (Difference_set False ys xs)"

lemma Joined_spec:
  assumes "Valid xs" and "Valid ys"
  shows "Valid (Union_set ys xs)" and "points (Union_set ys xs) = points xs \<union> points ys"
  using Union_set_spec [of xs ys] assms by (simp_all add: Valid_iff)

lemma Intersected_spec:
  assumes "Valid xs" and "Valid ys"
  shows "Intersection False ys xs = Some (Intersected ys xs)"
    and "Valid (Intersected ys xs)" and "points (Intersected ys xs) = points xs \<inter> points ys"
proof -
  obtain zs where "Intersection False ys xs = Some zs" "normal zs \<and> points zs = points xs \<inter> points ys"
    using Intersection_spec [of xs ys False] assms unfolding Valid_iff by blast
  then show "Intersection False ys xs = Some (Intersected ys xs)" "Valid (Intersected ys xs)"
    "points (Intersected ys xs) = points xs \<inter> points ys"
    by (simp_all add: Intersected_def Valid_iff)
qed

lemma Without_spec:
  assumes "Valid xs" and "Valid ys"
  shows "Difference_set False ys xs = Some (Without ys xs)"
    and "Valid (Without ys xs)" and "points (Without ys xs) = points xs - points ys"
proof -
  obtain zs where "Difference_set False ys xs = Some zs" "normal zs \<and> points zs = points xs - points ys"
    using Difference_set_spec [of xs ys False] assms unfolding Valid_iff by blast
  then show "Difference_set False ys xs = Some (Without ys xs)" "Valid (Without ys xs)"
    "points (Without ys xs) = points xs - points ys"
    by (simp_all add: Without_def Valid_iff)
qed

interpretation adding: point_set Valid points pts AddImpl
  by unfold_locales (simp_all add: Valid_iff AddImpl_spec)

interpretation algebra: point_set_algebra Valid points pts AddImpl Union_set Intersected Without
proof unfold_locales
  show "\<And>s t :: 'a intervals. Valid s \<Longrightarrow> Valid t \<Longrightarrow> points s = points t \<Longrightarrow> s = t"
    by (simp add: Valid_iff normal_unique)
qed (simp_all add: Intersected_spec Without_spec Joined_spec)

section \<open>Properties\<close>

text \<open>The intervals before and after an erased one.\<close>

lemma IntervalSet_erase_spec:
  assumes "Valid xs" and "pos < length xs"
  shows "\<exists>zs. IntervalSet_erase pos xs = Inr (zs, pos) \<and> Valid zs \<and> points zs = points xs - pts (xs ! pos) \<and>
    drop pos zs = drop (Suc pos) xs"
proof -
  have xs: "take pos xs @ xs ! pos # drop (Suc pos) xs = xs" using assms(2) by (rule id_take_nth_drop [symmetric])
  have n: "normal (take pos xs @ xs ! pos # drop (Suc pos) xs)" using assms(1) xs by (simp add: Valid_iff)
  have p: "points xs = points (take pos xs) \<union> pts (xs ! pos) \<union> points (drop (Suc pos) xs)"
    by (subst xs [symmetric]) (auto simp: points_def)
  have "points (take pos xs) \<inter> pts (xs ! pos) = {}" "points (drop (Suc pos) xs) \<inter> pts (xs ! pos) = {}"
    using n by (fastforce simp: points_def pts_def)+
  then have "points (take pos xs @ drop (Suc pos) xs) = points xs - pts (xs ! pos)"
    unfolding p by (auto simp: points_def)
  moreover have "normal (take pos xs @ drop (Suc pos) xs)" using n by simp
  ultimately show ?thesis using assms(2) by (simp add: IntervalSet_erase_def erase_at_def Valid_iff)
qed

lemma Add_all_spec:
  assumes "Valid xs"
  shows "Valid (fold AddImpl is xs) \<and> points (fold AddImpl is xs) = points xs \<union> (\<Union>i \<in> set is. pts i)"
  using adding.add_all [OF assms, of "is"] by simp

text \<open>Property C13. Starting from valid sets, every operation of \<open>IntervalSet\<close> that changes a set returns, leaves a valid
  set (non-empty, ordered, disjoint and non-adjacent intervals), and does to the points of the set what its name says:
  \<open>Add\<close> of an interval or of a set and \<open>Union\<close> add points, \<open>assign\<close> and the constructor start anew, \<open>Intersection\<close> with a set, an interval or a range
  keeps the common points, \<open>Difference\<close> with an interval, a range or a set removes them, \<open>Complement\<close> turns the set around
  inside a range, \<open>erase\<close> takes out one interval and gives the position of the next, \<open>Clear\<close> and \<open>Swap\<close>.  The other set may be
  the set itself (\<open>same\<close>), and the interval given to \<open>Difference\<close> an element of it (\<open>own\<close>).\<close>

theorem IntervalSet_operations:
  fixes xs ys "is" :: "'a::{linorder, zero} intervals"
  assumes "Valid xs" and "Valid ys" and "same \<longrightarrow> ys = xs"
    and "own = None \<or> (\<exists>k < length xs. own = Some k \<and> xs ! k = x)"
  shows "(Valid (AddImpl x xs) \<and> points (AddImpl x xs) = points xs \<union> pts x) \<and>
    (Valid (Add_set ys xs) \<and> points (Add_set ys xs) = points xs \<union> points ys) \<and>
    (Valid (IntervalSet_assign is) \<and> points (IntervalSet_assign is) = (\<Union>i \<in> set is. pts i)) \<and>
    (Valid (InitImpl x) \<and> points (InitImpl x) = pts x) \<and>
    (Valid (Union_set ys xs) \<and> points (Union_set ys xs) = points xs \<union> points ys) \<and>
    (\<exists>zs. Intersection same ys xs = Some zs \<and> Valid zs \<and> points zs = points xs \<inter> points ys) \<and>
    (\<exists>zs. Intersection_interval s l xs = Some zs \<and> Valid zs \<and> points zs = points xs \<inter> {s ..< l}) \<and>
    (\<exists>zs. GetIntersection_interval x xs = Some zs \<and> Valid zs \<and> points zs = points xs \<inter> pts x) \<and>
    (\<exists>zs. Difference_set same ys xs = Some zs \<and> Valid zs \<and> points zs = points xs - points ys) \<and>
    (Valid (Difference_interval own x xs) \<and> points (Difference_interval own x xs) = points xs - pts x) \<and>
    (Valid (Difference_range s l xs) \<and> points (Difference_range s l xs) = points xs - {s ..< l}) \<and>
    (\<exists>zs. Complement s l xs = Some zs \<and> Valid zs \<and> points zs = {s ..< l} - points xs) \<and>
    (if pos < length xs then \<exists>zs. IntervalSet_erase pos xs = Inr (zs, pos) \<and> Valid zs \<and>
        points zs = points xs - pts (xs ! pos) \<and> drop pos zs = drop (Suc pos) xs
     else IntervalSet_erase pos xs = Inl BadAccess) \<and>
    (Valid (IntervalSet_Clear xs) \<and> points (IntervalSet_Clear xs) = {}) \<and>
    IntervalSet_Swap xs ys = (ys, xs)"
proof (intro conjI)
  have n: "normal xs" "normal ys" using assms(1,2) by (simp_all add: Valid_iff)
  have nil: "Valid ([] :: 'a intervals)" "points ([] :: 'a intervals) = {}" by (simp_all add: Valid_iff)
  have given: "normal (IntervalSet_assign [ivl s l])" "points (IntervalSet_assign [ivl s l]) = {s ..< l}"
    using Add_all_spec [OF nil(1), of "[ivl s l]"] nil(2) by (simp_all add: IntervalSet_assign_def Valid_iff)
  note init = InitImpl_spec [of x]
  show "Valid (AddImpl x xs)" "points (AddImpl x xs) = points xs \<union> pts x"
    using AddImpl_spec [of xs x] n by (simp_all add: Valid_iff)
  show "Valid (Add_set ys xs)" "points (Add_set ys xs) = points xs \<union> points ys"
    using Add_all_spec [OF assms(1), of ys] by (simp_all add: Add_set_def points_def)
  show "Valid (IntervalSet_assign is)" "points (IntervalSet_assign is) = (\<Union>i \<in> set is. pts i)"
    using Add_all_spec [OF nil(1), of "is"] nil(2) by (simp_all add: IntervalSet_assign_def)
  show "Valid (InitImpl x)" "points (InitImpl x) = pts x" using init by (simp_all add: Valid_iff)
  show "Valid (Union_set ys xs)" "points (Union_set ys xs) = points xs \<union> points ys" using Joined_spec assms(1,2) by blast+
  show "\<exists>zs. Intersection same ys xs = Some zs \<and> Valid zs \<and> points zs = points xs \<inter> points ys"
    unfolding Valid_iff by (rule Intersection_spec [OF n assms(3)])
  show "\<exists>zs. Intersection_interval s l xs = Some zs \<and> Valid zs \<and> points zs = points xs \<inter> {s ..< l}"
    using Intersection_spec [OF n(1) given(1), of False] given(2) by (simp add: Valid_iff Intersection_interval_def)
  show "\<exists>zs. GetIntersection_interval x xs = Some zs \<and> Valid zs \<and> points zs = points xs \<inter> pts x"
    using Intersection_spec [of xs "InitImpl x" False] init n(1) by (simp add: Valid_iff GetIntersection_interval_def)
  show "\<exists>zs. Difference_set same ys xs = Some zs \<and> Valid zs \<and> points zs = points xs - points ys"
    unfolding Valid_iff by (rule Difference_set_spec [OF n assms(3)])
  show "Valid (Difference_interval own x xs)" "points (Difference_interval own x xs) = points xs - pts x"
    using Difference_interval_spec [of xs own x] n assms(4) by (simp_all add: Valid_iff)
  show "Valid (Difference_range s l xs)" "points (Difference_range s l xs) = points xs - {s ..< l}"
    using Difference_interval_spec [of xs None "ivl s l"] n by (simp_all add: Valid_iff Difference_range_def)
  show "\<exists>zs. Complement s l xs = Some zs \<and> Valid zs \<and> points zs = {s ..< l} - points xs"
    unfolding Valid_iff by (rule Complement_spec [OF n(1)])
  show "if pos < length xs then \<exists>zs. IntervalSet_erase pos xs = Inr (zs, pos) \<and> Valid zs \<and>
      points zs = points xs - pts (xs ! pos) \<and> drop pos zs = drop (Suc pos) xs else IntervalSet_erase pos xs = Inl BadAccess"
    using IntervalSet_erase_spec [OF assms(1), of pos] by (simp add: IntervalSet_erase_def)
qed (simp_all add: IntervalSet_Clear_def IntervalSet_Swap_def Valid_iff)

abbreviation example_xs :: "int intervals" where
  "example_xs \<equiv> [ivl 0 3, ivl 5 9, ivl 12 20]"

abbreviation example_ys :: "int intervals" where
  "example_ys \<equiv> [ivl 2 6, ivl 14 15]"

lemma example_Valid: "Valid example_xs" "Valid example_ys"
  by (simp_all add: Valid_def)

theorem IntervalSet_operations_witness:
  "Valid (Difference_interval (Some 1) (ivl 5 9) example_xs) \<and>
    points (Difference_interval (Some 1) (ivl 5 9) example_xs) = points example_xs - {5 ..< 9} \<and>
    (\<exists>zs. Difference_set False example_ys example_xs = Some zs \<and> Valid zs
      \<and> points zs = points example_xs - points example_ys)"
  using IntervalSet_operations [OF example_Valid, of False "Some 1" "ivl 5 9" "[]" 0 0 0] by simp

text \<open>On a valid set the queries answer for the set of points: membership of a value, of an interval and
  of another set, disjointness from an interval, intersection with another set; \<open>Find\<close> returns the
  position of the interval that contains a value or the end, \<open>LowerBound\<close> the first interval that ends after it
  and \<open>UpperBound\<close> the first that starts after it.\<close>

theorem IntervalSet_queries:
  assumes "Valid xs" and "Valid ys"
  shows "(Contains_value v xs \<longleftrightarrow> v \<in> points xs) \<and>
    (Contains_interval x xs \<longleftrightarrow> \<not> i_empty x \<and> pts x \<subseteq> points xs) \<and>
    (Contains_set ys xs \<longleftrightarrow> xs \<noteq> [] \<and> ys \<noteq> [] \<and> points ys \<subseteq> points xs) \<and>
    (IsDisjoint x xs \<longleftrightarrow> pts x \<inter> points xs = {}) \<and>
    (Intersects ys xs = Some (points xs \<inter> points ys \<noteq> {})) \<and>
    (if v \<in> points xs then Find v xs < length xs \<and> i_contains (xs ! Find v xs) v else Find v xs = length xs) \<and>
    (LowerBound v xs = length (takeWhile (\<lambda>i. i_limit i \<le> v) xs)) \<and>
    (UpperBound v xs = length (takeWhile (\<lambda>i. i_start i \<le> v) xs))"
proof (intro conjI)
  have n: "normal xs" "normal ys" using assms by (simp_all add: Valid_iff)
  note f = Find_spec [OF n(1), of v]
  show "Contains_value v xs \<longleftrightarrow> v \<in> points xs" by (rule f(4))
  show "if v \<in> points xs then Find v xs < length xs \<and> i_contains (xs ! Find v xs) v else Find v xs = length xs"
    using f(1-3) by (auto simp: le_less)
  show "Contains_interval x xs \<longleftrightarrow> \<not> i_empty x \<and> pts x \<subseteq> points xs"
    by (rule Contains_interval_spec [OF n(1)])
  show "Contains_set ys xs \<longleftrightarrow> xs \<noteq> [] \<and> ys \<noteq> [] \<and> points ys \<subseteq> points xs"
    by (rule Contains_set_spec [OF n])
  show "IsDisjoint x xs \<longleftrightarrow> pts x \<inter> points xs = {}"
    by (rule IsDisjoint_spec [OF n(1)])
  show "Intersects ys xs = Some (points xs \<inter> points ys \<noteq> {})"
    by (rule Intersects_spec [OF n])
  show "LowerBound v xs = length (takeWhile (\<lambda>i. i_limit i \<le> v) xs)"
    by (rule LowerBound_spec [OF n(1)])
  show "UpperBound v xs = length (takeWhile (\<lambda>i. i_start i \<le> v) xs)"
    by (rule UpperBound_spec)
qed

theorem IntervalSet_queries_witness:
  "Contains_value 13 example_xs \<longleftrightarrow> 13 \<in> points example_xs"
  using IntervalSet_queries [OF example_Valid, of 13] by blast

text \<open>A valid set is a normal form: \<open>operator==\<close> compares lists of intervals, and for valid sets it is true exactly
  when the two sets have the same points.\<close>

theorem IntervalSet_equality:
  fixes xs ys :: "'a::{linorder, zero} intervals"
  assumes "Valid xs" and "Valid ys"
  shows "IntervalSet_equal xs ys \<longleftrightarrow> points xs = points ys"
  using algebra.canonical [OF assms] by (auto simp: IntervalSet_equal_iff)

theorem IntervalSet_equality_witness:
  "IntervalSet_equal example_xs example_ys \<longleftrightarrow> points example_xs = points example_ys"
  by (rule IntervalSet_equality [OF example_Valid])

text \<open>The optimised helpers agree with the plain operations: the heap-based union of many sets is the union of
  one after the other, whichever entry the heap has in front, and adding integers run by run is adding \<open>[v, v + 1)\<close> for
  every integer but the largest of the type.\<close>

theorem IntervalSet_helpers:
  fixes sets :: "'a::{linorder, zero} intervals list"
  assumes "\<And>h. h \<noteq> [] \<Longrightarrow> front h < length h" and "\<forall>s \<in> set sets. Valid s" and "Valid (xs :: int intervals)"
  shows "(UnionImpl front sets = fold Union_set sets []) \<and>
    (AddIntsToIntervalSet m ints xs = fold AddImpl (map (\<lambda>v. ivl v (v + 1)) (filter (\<lambda>v. v \<noteq> m) ints)) xs)"
proof (intro conjI)
  have nil: "Valid []" "points [] = {}" by (simp_all add: Valid_def)
  have n: "\<forall>s \<in> set sets. normal s" using assms(2) by (simp add: Valid_iff)
  show "UnionImpl front sets = fold Union_set sets []"
  proof (rule algebra.canonical)
    show "Valid (UnionImpl front sets)" "Valid (fold Union_set sets [])"
      using UnionImpl_spec [OF assms(1) n] algebra.join_all [OF nil(1) assms(2)] by (simp_all add: Valid_iff)
    show "points (UnionImpl front sets) = points (fold Union_set sets [])"
      using UnionImpl_spec [OF assms(1) n] algebra.join_all [OF nil(1) assms(2)] by simp
  qed
  let ?singles = "map (\<lambda>v. ivl v (v + 1)) (filter (\<lambda>v. v \<noteq> m) ints)"
  have "{v ..< v + 1} = {v}" for v :: int by auto
  then have singles: "(\<Union>i \<in> set ?singles. pts i) = set ints - {m}" by auto
  show "AddIntsToIntervalSet m ints xs = fold AddImpl ?singles xs"
  proof (rule algebra.canonical)
    show "Valid (AddIntsToIntervalSet m ints xs)" "Valid (fold AddImpl ?singles xs)"
      using AddIntsToIntervalSet_spec [of xs m ints] assms(3) adding.add_all [OF assms(3)]
      by (simp_all add: Valid_iff)
    show "points (AddIntsToIntervalSet m ints xs) = points (fold AddImpl ?singles xs)"
      using AddIntsToIntervalSet_spec [of xs m ints] assms(3) adding.add_all [OF assms(3), of ?singles] singles
      by (simp add: Valid_iff del: set_map)
  qed
qed

theorem IntervalSet_helpers_witness:
  "UnionImpl (\<lambda>h. length h - 1) [example_xs, [], example_ys] = fold Union_set [example_xs, [], example_ys] []"
  by (rule IntervalSet_helpers [where xs = "[]", THEN conjunct1]) (auto simp: Valid_def)

text \<open>\<open>Interval::Split\<close> on integers returns, as long as the callback gives a limit after its argument: the
  sub-intervals are non-empty, the first starts where the interval does, each starts where the one before ends, and the last
  ends where the interval does; each ends where the callback says, or at the end of the interval.\<close>

theorem Split_terminates:
  fixes i :: "int Interval"
  assumes "\<And>x. x < i_limit i \<Longrightarrow> x < f x" and "\<not> i_empty i"
  shows "\<exists>is. i_Split f i = Some is \<and> adjacent (i_start i) (i_limit i) is
    \<and> (\<forall>j \<in> set is. i_limit j = min (f (i_start j)) (i_limit i))"
  using i_Split_loop_int [of "i_limit i" f "i_start i"] assms by (simp add: i_Split_def i_empty_iff)

theorem Split_terminates_witness:
  "\<exists>is. i_Split (\<lambda>s. s + 10) (ivl 0 25 :: int Interval) = Some is
    \<and> adjacent (i_start (ivl 0 25)) (i_limit (ivl 0 25)) is
    \<and> (\<forall>j \<in> set is. i_limit j = min (i_start j + 10) (i_limit (ivl 0 25)))"
  by (rule Split_terminates) (simp_all add: i_empty_iff)

end
