(* ===== verification/Bitmap.thy ===== *)
theory Bitmap
  imports Std_Bits
begin

text \<open>
  Bitmaps, \<^verbatim>\<open>src/gloop/util/bitmap/bitmap.h\<close>, over words of any width.

  The first part models the member functions that read or change the bits: a bitmap is seen as the
  array of words behind \<open>map_\<close> and the number of bits.  An access past the array is \<open>BadAccess\<close>.  Words
  narrower than \<open>int\<close> are promoted in the code and truncated when they are stored or tested; on words
  of the given width that is the identity.  \<open>char\<close> is unsigned, as the build asks for.  The objects,
  with the owner of the array, are modelled in a theory of their own.
\<close>

section \<open>Words of the array\<close>

definition kIntBits :: "'w::len word list \<Rightarrow> nat" where
  "kIntBits ws = LENGTH('w)"

fun Log2 :: "nat \<Rightarrow> nat \<Rightarrow> nat" where
  "Log2 n p = (if n \<le> 1 then p else Log2 (n div 2) (p + 1))"

declare Log2.simps [simp del]

definition kLogIntBits :: "'w::len word list \<Rightarrow> nat" where
  "kLogIntBits ws = Log2 (kIntBits ws) 0"

definition kAllOnesWord :: "'w::len word" where
  "kAllOnesWord = NOT 0"

definition bit_offset :: "'w::len word list \<Rightarrow> nat \<Rightarrow> nat" where
  "bit_offset ws index = index AND (kIntBits ws - 1)"

definition word_at :: "'w::len word list \<Rightarrow> nat \<Rightarrow> 'w word outcome" where
  "word_at ws i = (if i < length ws then Inr (ws ! i) else Inl BadAccess)"

definition put_word :: "'w::len word list \<Rightarrow> nat \<Rightarrow> 'w word \<Rightarrow> 'w word list outcome" where
  "put_word ws i w = (if i < length ws then Inr (ws[i := w]) else Inl BadAccess)"

definition SetBit :: "'w::len word list \<Rightarrow> nat \<Rightarrow> bool \<Rightarrow> ('w word list \<times> bool) outcome" where
  "SetBit ws index val =
    (let b = push_bit (bit_offset ws index) 1 in
     andThen (word_at ws (index div kIntBits ws)) (\<lambda>old_value.
     let new_value = (if val then old_value OR b else old_value AND NOT b) in
     andThen (put_word ws (index div kIntBits ws) new_value) (\<lambda>ws.
     Inr (ws, old_value AND b \<noteq> 0))))"

definition GetBit :: "'w::len word list \<Rightarrow> nat \<Rightarrow> bool outcome" where
  "GetBit ws index =
    andThen (word_at ws (index div kIntBits ws)) (\<lambda>w.
    Inr (w AND push_bit (bit_offset ws index) 1 \<noteq> 0))"

section \<open>The bits of a bitmap\<close>

record 'v bitmap =
  bm_map :: "'v list"
  bm_size :: nat

definition RequiredArraySize :: "'w::len word list \<Rightarrow> nat \<Rightarrow> nat" where
  "RequiredArraySize ws num_bits = (if num_bits = 0 then 1 else (num_bits - 1) div kIntBits ws + 1)"

definition array_size :: "'w::len word bitmap \<Rightarrow> nat" where
  "array_size b = RequiredArraySize (bm_map b) (bm_size b)"

definition GetMapElement :: "'w::len word bitmap \<Rightarrow> nat \<Rightarrow> 'w word outcome" where
  "GetMapElement b array_index =
    require CheckFailed (array_index < array_size b) (word_at (bm_map b) array_index)"

text \<open>\<open>-size_\<close> wraps around in \<open>size_t\<close>.\<close>

definition HighOrderMapElementMask :: "'w::len word bitmap \<Rightarrow> 'w word" where
  "HighOrderMapElementMask b =
    (if bm_size b = 0 then 0
     else drop_bit (unat (- (of_nat (bm_size b) :: u64) AND of_nat (kIntBits (bm_map b) - 1))) kAllOnesWord)"

definition GetMaskedMapElement :: "'w::len word bitmap \<Rightarrow> nat \<Rightarrow> 'w word outcome" where
  "GetMaskedMapElement b array_index =
    (if array_index = array_size b - 1
     then andThen (word_at (bm_map b) (array_size b - 1)) (\<lambda>w. Inr (w AND HighOrderMapElementMask b))
     else word_at (bm_map b) array_index)"

definition SetMapElement :: "'w::len word bitmap \<Rightarrow> nat \<Rightarrow> 'w word \<Rightarrow> 'w word bitmap outcome" where
  "SetMapElement b array_index val =
    require CheckFailed (array_index < array_size b)
      (andThen (put_word (bm_map b) array_index val) (\<lambda>m. Inr (b\<lparr>bm_map := m\<rparr>)))"

definition bm_Get :: "'w::len word bitmap \<Rightarrow> nat \<Rightarrow> bool outcome" where
  "bm_Get b index = require HardeningAssert (index < bm_size b) (GetBit (bm_map b) index)"

definition bm_Set :: "'w::len word bitmap \<Rightarrow> nat \<Rightarrow> bool \<Rightarrow> ('w word bitmap \<times> bool) outcome" where
  "bm_Set b index val =
    require HardeningAssert (index < bm_size b)
      (andThen (SetBit (bm_map b) index val) (\<lambda>(m, old). Inr (b\<lparr>bm_map := m\<rparr>, old)))"

definition Toggle :: "'w::len word bitmap \<Rightarrow> nat \<Rightarrow> 'w word bitmap outcome" where
  "Toggle b index =
    require HardeningAssert (index < bm_size b)
      (andThen (word_at (bm_map b) (index div kIntBits (bm_map b))) (\<lambda>w.
       andThen (put_word (bm_map b) (index div kIntBits (bm_map b))
         (w XOR push_bit (bit_offset (bm_map b) index) 1)) (\<lambda>m.
       Inr (b\<lparr>bm_map := m\<rparr>))))"

text \<open>\<open>std::fill\<close> over the positions from \<open>i\<close> to \<open>j\<close>.\<close>

definition fill_words :: "'w::len word list \<Rightarrow> nat \<Rightarrow> nat \<Rightarrow> 'w word \<Rightarrow> 'w word list outcome" where
  "fill_words ws i j w =
    (if i < j \<and> length ws < j then Inl BadAccess
     else Inr (map (\<lambda>k. if i \<le> k \<and> k < j then w else ws ! k) [0..<length ws]))"

definition SetAll :: "'w::len word bitmap \<Rightarrow> bool \<Rightarrow> 'w word bitmap outcome" where
  "SetAll b val =
    andThen (fill_words (bm_map b) 0 (array_size b) (if val then kAllOnesWord else 0)) (\<lambda>m.
    Inr (b\<lparr>bm_map := m\<rparr>))"

definition bm_Clear :: "'w::len word bitmap \<Rightarrow> 'w word bitmap outcome" where
  "bm_Clear b = SetAll b False"

text \<open>Changing one word under a mask, as \<open>SetRange\<close> does three times.\<close>

definition mask_word :: "'w::len word list \<Rightarrow> nat \<Rightarrow> 'w word \<Rightarrow> bool \<Rightarrow> 'w word list outcome" where
  "mask_word ws i m val =
    andThen (word_at ws i) (\<lambda>w. put_word ws i (if val then w OR m else w AND NOT m))"

definition SetRange :: "'w::len word bitmap \<Rightarrow> nat \<Rightarrow> nat \<Rightarrow> bool \<Rightarrow> 'w word bitmap outcome" where
  "SetRange b begin end val =
    (if begin = end then Inr b
     else
       (let ws = bm_map b;
            begin_element = begin div kIntBits ws; begin_bit = begin mod kIntBits ws;
            end_element = end div kIntBits ws; end_bit = end mod kIntBits ws;
            initial_mask = push_bit begin_bit kAllOnesWord;
            initial_mask = (if end_element = begin_element
              then initial_mask AND drop_bit (kIntBits ws - end_bit) kAllOnesWord else initial_mask) in
        andThen (mask_word ws begin_element initial_mask val) (\<lambda>ws.
        if end_element \<noteq> begin_element then
          andThen (fill_words ws (begin_element + 1) end_element (if val then kAllOnesWord else 0)) (\<lambda>ws.
          if end_bit \<noteq> 0
          then andThen (mask_word ws end_element (drop_bit (kIntBits ws - end_bit) kAllOnesWord) val) (\<lambda>ws.
            Inr (b\<lparr>bm_map := ws\<rparr>))
          else Inr (b\<lparr>bm_map := ws\<rparr>))
        else Inr (b\<lparr>bm_map := ws\<rparr>))))"

text \<open>\<open>std::transform\<close> over the first \<open>n\<close> words of two arrays, into the first.\<close>

definition transform :: "nat \<Rightarrow> ('w::len word \<Rightarrow> 'w word \<Rightarrow> 'w word) \<Rightarrow> 'w word list \<Rightarrow> 'w word list
    \<Rightarrow> 'w word list outcome" where
  "transform n f ws vs =
    (if length ws < n \<or> length vs < n then Inl BadAccess
     else Inr (map (\<lambda>k. if k < n then f (ws ! k) (vs ! k) else ws ! k) [0..<length ws]))"

definition bm_Union :: "'w::len word bitmap \<Rightarrow> 'w word bitmap \<Rightarrow> 'w word bitmap outcome" where
  "bm_Union b other =
    (let min_array_size = min (array_size b) (array_size other) in
     if min_array_size = 0 then Inr b
     else
       (let last = min_array_size - 1 in
        andThen (transform last (\<lambda>x y. x OR y) (bm_map b) (bm_map other)) (\<lambda>ws.
        andThen (word_at ws last) (\<lambda>w.
        andThen (word_at (bm_map other) last) (\<lambda>v.
        andThen (put_word ws last (w OR (if array_size other = min_array_size
          then v AND HighOrderMapElementMask other else v))) (\<lambda>ws.
        Inr (b\<lparr>bm_map := ws\<rparr>)))))))"

definition bm_Intersection :: "'w::len word bitmap \<Rightarrow> 'w word bitmap \<Rightarrow> 'w word bitmap outcome" where
  "bm_Intersection b other =
    (let min_array_size = min (array_size b) (array_size other) in
     andThen (transform min_array_size (\<lambda>x y. x AND y) (bm_map b) (bm_map other)) (\<lambda>ws.
     if array_size other = min_array_size then
       andThen (if array_size other \<noteq> 0
         then andThen (word_at ws (array_size other - 1)) (\<lambda>w.
           put_word ws (array_size other - 1) (w AND HighOrderMapElementMask other))
         else Inr ws) (\<lambda>ws.
       andThen (fill_words ws (array_size other) (array_size b) 0) (\<lambda>ws.
       Inr (b\<lparr>bm_map := ws\<rparr>)))
     else Inr (b\<lparr>bm_map := ws\<rparr>)))"

definition bm_Complement :: "'w::len word bitmap \<Rightarrow> 'w word bitmap outcome" where
  "bm_Complement b =
    andThen (transform (array_size b) (\<lambda>w _. NOT w) (bm_map b) (bm_map b)) (\<lambda>ws.
    Inr (b\<lparr>bm_map := ws\<rparr>))"

definition bm_Difference :: "'w::len word bitmap \<Rightarrow> 'w word bitmap \<Rightarrow> 'w word bitmap outcome" where
  "bm_Difference b other =
    require CheckFailed (bm_size b = bm_size other)
      (andThen (transform (array_size b) (\<lambda>x y. x AND NOT y) (bm_map b) (bm_map other)) (\<lambda>ws.
       Inr (b\<lparr>bm_map := ws\<rparr>)))"

definition ExclusiveOr :: "'w::len word bitmap \<Rightarrow> 'w word bitmap \<Rightarrow> 'w word bitmap outcome" where
  "ExclusiveOr b other =
    require CheckFailed (bm_size b = bm_size other)
      (andThen (transform (array_size b) (\<lambda>x y. x XOR y) (bm_map b) (bm_map other)) (\<lambda>ws.
       Inr (b\<lparr>bm_map := ws\<rparr>)))"


section \<open>Queries\<close>

text \<open>Whether all words from \<open>i\<close> to \<open>j\<close> satisfy a test, stopping at the first that does not.\<close>

function all_words :: "('w::len word \<Rightarrow> bool) \<Rightarrow> 'w word list \<Rightarrow> nat \<Rightarrow> nat \<Rightarrow> bool outcome" where
  "all_words q ws i j =
    (if i < j then andThen (word_at ws i) (\<lambda>w. if q w then all_words q ws (i + 1) j else Inr False)
     else Inr True)"
  by pat_completeness auto
termination by (relation "measure (\<lambda>(q, ws, i, j). j - i)") auto

declare all_words.simps [simp del]

definition IsAllZeroes :: "'w::len word bitmap \<Rightarrow> bool outcome" where
  "IsAllZeroes b =
    andThen (all_words (\<lambda>w. w = 0) (bm_map b) 0 (array_size b - 1)) (\<lambda>r.
    if \<not> r then Inr False
    else andThen (word_at (bm_map b) (array_size b - 1)) (\<lambda>w. Inr (w AND HighOrderMapElementMask b = 0)))"

definition IsAllOnes :: "'w::len word bitmap \<Rightarrow> bool outcome" where
  "IsAllOnes b =
    andThen (all_words (\<lambda>w. w = kAllOnesWord) (bm_map b) 0 (array_size b - 1)) (\<lambda>r.
    if \<not> r then Inr False
    else andThen (word_at (bm_map b) (array_size b - 1)) (\<lambda>w. Inr (NOT w AND HighOrderMapElementMask b = 0)))"

definition TestRange :: "'w::len word bitmap \<Rightarrow> nat \<Rightarrow> nat \<Rightarrow> bool outcome" where
  "TestRange b begin end =
    (if begin = end then Inr False
     else
       (let ws = bm_map b; i = begin div kIntBits ws; j = bit_offset ws begin;
            ilast = (end - 1) div kIntBits ws; jlast = bit_offset ws (end - 1) in
        andThen
          (if i < ilast then
             andThen (word_at ws i) (\<lambda>w.
             if drop_bit j w \<noteq> 0 then Inr (True, 0)
             else andThen (all_words (\<lambda>w. w = 0) ws (i + 1) ilast) (\<lambda>zero. Inr (\<not> zero, 0)))
           else Inr (False, j))
          (\<lambda>(found, j).
           if found then Inr True
           else
             (let m = push_bit j (push_bit (jlast - j) (push_bit 1 1) - 1) in
              andThen (word_at ws ilast) (\<lambda>w. Inr (w AND m \<noteq> 0))))))"

text \<open>The number of set bits in the words from \<open>i\<close> to \<open>j\<close>.\<close>

function count_words :: "('w::len word \<Rightarrow> nat) \<Rightarrow> 'w word list \<Rightarrow> nat \<Rightarrow> nat \<Rightarrow> nat outcome" where
  "count_words f ws i j =
    (if i < j then andThen (word_at ws i) (\<lambda>w. andThen (count_words f ws (i + 1) j) (\<lambda>n. Inr (f w + n)))
     else Inr 0)"
  by pat_completeness auto
termination by (relation "measure (\<lambda>(f, ws, i, j). j - i)") auto

declare count_words.simps [simp del]

definition GetOnesCountInRange :: "'w::len word bitmap \<Rightarrow> nat \<Rightarrow> nat \<Rightarrow> nat outcome" where
  "GetOnesCountInRange b start end =
    require CheckFailed (end \<le> bm_size b) (require CheckFailed (start \<le> end)
      (if start \<ge> end then Inr 0
       else
         (let ws = bm_map b; start_word = start div kIntBits ws; end_word = (end - 1) div kIntBits ws in
          andThen (word_at ws start_word) (\<lambda>p.
          let c = p AND push_bit (bit_offset ws start) kAllOnesWord;
              endmask = drop_bit ((end_word + 1) * kIntBits ws - end) kAllOnesWord in
          if end_word = start_word then Inr (popcount (c AND endmask))
          else
            andThen (count_words popcount ws (start_word + 1) end_word) (\<lambda>n.
            andThen (word_at ws end_word) (\<lambda>p.
            Inr (popcount c + n + popcount (p AND endmask))))))))"

definition GetOnesCountBeforeLimit :: "'w::len word bitmap \<Rightarrow> nat \<Rightarrow> nat outcome" where
  "GetOnesCountBeforeLimit b limit = GetOnesCountInRange b 0 limit"

definition GetOnesCount :: "'w::len word bitmap \<Rightarrow> nat outcome" where
  "GetOnesCount b = GetOnesCountInRange b 0 (bm_size b)"

definition GetZeroesCountInRange :: "'w::len word bitmap \<Rightarrow> nat \<Rightarrow> nat \<Rightarrow> nat outcome" where
  "GetZeroesCountInRange b start end = andThen (GetOnesCountInRange b start end) (\<lambda>n. Inr (end - start - n))"

definition GetZeroesCountBeforeLimit :: "'w::len word bitmap \<Rightarrow> nat \<Rightarrow> nat outcome" where
  "GetZeroesCountBeforeLimit b limit = andThen (GetOnesCountInRange b 0 limit) (\<lambda>n. Inr (limit - n))"

definition GetZeroesCount :: "'w::len word bitmap \<Rightarrow> nat outcome" where
  "GetZeroesCount b = andThen (GetOnesCountInRange b 0 (bm_size b)) (\<lambda>n. Inr (bm_size b - n))"

text \<open>The two arrays word by word, from \<open>i\<close> to \<open>j\<close>: a sum, and whether some pair passes a test.\<close>

function sum_pairs :: "('w::len word \<Rightarrow> 'w word \<Rightarrow> nat) \<Rightarrow> 'w word list \<Rightarrow> 'w word list \<Rightarrow> nat \<Rightarrow> nat
    \<Rightarrow> nat outcome" where
  "sum_pairs f ws vs i j =
    (if i < j then
       andThen (word_at ws i) (\<lambda>w. andThen (word_at vs i) (\<lambda>v.
       andThen (sum_pairs f ws vs (i + 1) j) (\<lambda>n. Inr (f w v + n))))
     else Inr 0)"
  by pat_completeness auto
termination by (relation "measure (\<lambda>(f, ws, vs, i, j). j - i)") auto

declare sum_pairs.simps [simp del]

function any_pair :: "('w::len word \<Rightarrow> 'w word \<Rightarrow> bool) \<Rightarrow> 'w word list \<Rightarrow> 'w word list \<Rightarrow> nat \<Rightarrow> nat
    \<Rightarrow> bool outcome" where
  "any_pair q ws vs i j =
    (if i < j then
       andThen (word_at ws i) (\<lambda>w. andThen (word_at vs i) (\<lambda>v.
       if q w v then Inr True else any_pair q ws vs (i + 1) j))
     else Inr False)"
  by pat_completeness auto
termination by (relation "measure (\<lambda>(q, ws, vs, i, j). j - i)") auto

declare any_pair.simps [simp del]

definition HammingDistance :: "'w::len word bitmap \<Rightarrow> 'w word bitmap \<Rightarrow> nat outcome" where
  "HammingDistance b other =
    require CheckFailed (bm_size b = bm_size other)
      (let n = array_size b in
       require CheckFailed (n > 0)
         (andThen (sum_pairs (\<lambda>w v. popcount (w XOR v)) (bm_map b) (bm_map other) 0 (n - 1)) (\<lambda>dist.
          andThen (word_at (bm_map b) (n - 1)) (\<lambda>w. andThen (word_at (bm_map other) (n - 1)) (\<lambda>v.
          Inr (dist + popcount ((w XOR v) AND HighOrderMapElementMask b)))))))"

definition IsEqual :: "'w::len word bitmap \<Rightarrow> 'w word bitmap \<Rightarrow> bool outcome" where
  "IsEqual b other =
    (if bm_size b \<noteq> bm_size other then Inr False
     else
       andThen (any_pair (\<lambda>w v. w \<noteq> v) (bm_map b) (bm_map other) 0 (array_size b - 1)) (\<lambda>differ.
       if differ then Inr False
       else
         andThen (word_at (bm_map other) (array_size b - 1)) (\<lambda>v.
         andThen (word_at (bm_map b) (array_size b - 1)) (\<lambda>w.
         Inr (HighOrderMapElementMask b AND v = HighOrderMapElementMask b AND w)))))"

definition IsSubsetOf :: "'w::len word bitmap \<Rightarrow> 'w word bitmap \<Rightarrow> bool outcome" where
  "IsSubsetOf b other =
    require CheckFailed (bm_size b = bm_size other)
      (andThen (any_pair (\<lambda>w v. w AND NOT v \<noteq> 0) (bm_map b) (bm_map other) 0 (array_size b - 1)) (\<lambda>outside.
       if outside then Inr False
       else
         andThen (word_at (bm_map b) (array_size b - 1)) (\<lambda>w.
         andThen (word_at (bm_map other) (array_size b - 1)) (\<lambda>v.
         Inr (w AND NOT v AND HighOrderMapElementMask b = 0)))))"

definition IsIntersectionNonEmpty :: "'w::len word bitmap \<Rightarrow> 'w word bitmap \<Rightarrow> bool outcome" where
  "IsIntersectionNonEmpty b other =
    (let max_overlap = min (array_size b) (array_size other) - 1 in
     andThen (any_pair (\<lambda>w v. w AND v \<noteq> 0) (bm_map b) (bm_map other) 0 max_overlap) (\<lambda>meet.
     if meet then Inr True
     else
       andThen (word_at (bm_map b) max_overlap) (\<lambda>w.
       andThen (word_at (bm_map other) max_overlap) (\<lambda>v.
       let high_byte = w AND v in
       Inr ((if array_size other > array_size b then high_byte AND HighOrderMapElementMask b
         else if array_size b > array_size other then high_byte AND HighOrderMapElementMask other
         else high_byte AND HighOrderMapElementMask b AND HighOrderMapElementMask other) \<noteq> 0)))))"

fun compare_down :: "'w::len word list \<Rightarrow> 'w word list \<Rightarrow> nat \<Rightarrow> int outcome" where
  "compare_down ws vs 0 = Inr 0"
| "compare_down ws vs (Suc index) =
    andThen (word_at ws index) (\<lambda>left. andThen (word_at vs index) (\<lambda>right.
    if left \<noteq> right then Inr (if left < right then -1 else 1)
    else compare_down ws vs index))"

definition CompareToHelper :: "'w::len word bitmap \<Rightarrow> 'w word bitmap \<Rightarrow> int outcome" where
  "CompareToHelper a b =
    andThen (TestRange a (bm_size b) (bm_size a)) (\<lambda>higher.
    if higher then Inr 1
    else
      (let index = array_size b - 1 in
       andThen (word_at (bm_map a) index) (\<lambda>left. andThen (word_at (bm_map b) index) (\<lambda>right.
       let left = left AND HighOrderMapElementMask b; right = right AND HighOrderMapElementMask b in
       if left \<noteq> right then Inr (if left < right then -1 else 1)
       else
         andThen (compare_down (bm_map a) (bm_map b) index) (\<lambda>c.
         if c \<noteq> 0 then Inr c
         else Inr (if bm_size a = bm_size b then 0 else 1))))))"

definition CompareTo :: "'w::len word bitmap \<Rightarrow> 'w word bitmap \<Rightarrow> int outcome" where
  "CompareTo b other =
    (if bm_size b > bm_size other then CompareToHelper b other
     else andThen (CompareToHelper other b) (\<lambda>c. Inr (- c)))"

section \<open>Searching\<close>

text \<open>The out-parameter is returned beside the result; it is unchanged when nothing is found.\<close>

function FindNext_words :: "bool \<Rightarrow> 'w::len word list \<Rightarrow> nat \<Rightarrow> nat \<Rightarrow> 'w word \<Rightarrow> (nat \<times> 'w word) outcome" where
  "FindNext_words complement words last_int_index int_index one_word =
    (if int_index < last_int_index \<and> one_word = 0 then
       andThen (word_at words (int_index + 1)) (\<lambda>w.
       FindNext_words complement words last_int_index (int_index + 1) (if complement then NOT w else w))
     else Inr (int_index, one_word))"
  by pat_completeness auto
termination by (relation "measure (\<lambda>(c, ws, last_int_index, int_index, w). last_int_index - int_index)") auto

declare FindNext_words.simps [simp del]

definition FindNextBitInVector :: "bool \<Rightarrow> 'w::len word list \<Rightarrow> nat \<Rightarrow> nat \<Rightarrow> (bool \<times> nat) outcome" where
  "FindNextBitInVector complement words bit_index limit =
    (if bit_index \<ge> limit then Inr (False, bit_index)
     else
       (let int_index = drop_bit (kLogIntBits words) bit_index in
        andThen (word_at words int_index) (\<lambda>w.
        let one_word = (if complement then NOT w else w);
            first_bit_offset = bit_offset words bit_index in
        if one_word AND push_bit first_bit_offset 1 \<noteq> 0 then Inr (True, bit_index)
        else
          (let one_word = one_word AND push_bit first_bit_offset kAllOnesWord;
               last_int_index = drop_bit (kLogIntBits words) (limit - 1) in
           andThen (FindNext_words complement words last_int_index int_index one_word)
             (\<lambda>(int_index, one_word).
              let one_word = (if int_index < last_int_index then one_word
                else one_word AND NOT (push_bit (bit_offset words (limit - 1)) (kAllOnesWord - 1))) in
              if one_word \<noteq> 0 then Inr (True, push_bit (kLogIntBits words) int_index + countr_zero one_word)
              else Inr (False, bit_index))))))"

definition FindNextSetBitInVector :: "'w::len word list \<Rightarrow> nat \<Rightarrow> nat \<Rightarrow> (bool \<times> nat) outcome" where
  "FindNextSetBitInVector words bit_index bit_limit = FindNextBitInVector False words bit_index bit_limit"

definition FindNextUnsetBitInVector :: "'w::len word list \<Rightarrow> nat \<Rightarrow> nat \<Rightarrow> (bool \<times> nat) outcome" where
  "FindNextUnsetBitInVector words bit_index bit_limit = FindNextBitInVector True words bit_index bit_limit"

definition FindNextSetBitBeforeLimit :: "'w::len word bitmap \<Rightarrow> nat \<Rightarrow> nat \<Rightarrow> (bool \<times> nat) outcome" where
  "FindNextSetBitBeforeLimit b index limit =
    require CheckFailed (limit \<le> bm_size b) (FindNextSetBitInVector (bm_map b) index limit)"

definition FindNextSetBit :: "'w::len word bitmap \<Rightarrow> nat \<Rightarrow> (bool \<times> nat) outcome" where
  "FindNextSetBit b index = FindNextSetBitBeforeLimit b index (bm_size b)"

definition FindFirstSetBit :: "'w::len word bitmap \<Rightarrow> (bool \<times> nat) outcome" where
  "FindFirstSetBit b = FindNextSetBit b 0"

definition FindNextUnsetBitBeforeLimit :: "'w::len word bitmap \<Rightarrow> nat \<Rightarrow> nat \<Rightarrow> (bool \<times> nat) outcome" where
  "FindNextUnsetBitBeforeLimit b index limit =
    require CheckFailed (limit \<le> bm_size b) (FindNextUnsetBitInVector (bm_map b) index limit)"

definition FindNextUnsetBit :: "'w::len word bitmap \<Rightarrow> nat \<Rightarrow> (bool \<times> nat) outcome" where
  "FindNextUnsetBit b index = FindNextUnsetBitBeforeLimit b index (bm_size b)"

fun FindPrevious_words :: "bool \<Rightarrow> 'w::len word list \<Rightarrow> nat \<Rightarrow> 'w word \<Rightarrow> nat \<Rightarrow> 'w word
    \<Rightarrow> (nat \<times> 'w word) option outcome" where
  "FindPrevious_words complement words map_limit bit_limit_mask map_index one_word =
    (if one_word \<noteq> 0 then Inr (Some (map_index, one_word))
     else if map_index = map_limit then Inr None
     else
       (case map_index of
          0 \<Rightarrow> Inl BadAccess
        | Suc map_index \<Rightarrow>
            andThen (word_at words map_index) (\<lambda>w.
            let one_word = (if complement then NOT w else w);
                one_word = (if map_index = map_limit then one_word AND bit_limit_mask else one_word) in
            FindPrevious_words complement words map_limit bit_limit_mask map_index one_word)))"

declare FindPrevious_words.simps [simp del]

definition FindPreviousBitInVector :: "bool \<Rightarrow> 'w::len word list \<Rightarrow> nat \<Rightarrow> nat \<Rightarrow> (bool \<times> nat) outcome" where
  "FindPreviousBitInVector complement words bit_index limit =
    (let map_index = drop_bit (kLogIntBits words) bit_index;
         map_limit = drop_bit (kLogIntBits words) limit;
         bit_limit_mask = push_bit (bit_offset words limit) kAllOnesWord in
     andThen (word_at words map_index) (\<lambda>w.
     let one_word = (if complement then NOT w else w) in
     if limit > bit_index then Inr (False, bit_index)
     else
       (let offset = bit_offset words bit_index in
        if one_word AND push_bit offset 1 \<noteq> 0 then Inr (True, bit_index)
        else
          (let one_word = one_word AND NOT (push_bit offset (kAllOnesWord - 1));
               one_word = (if map_index = map_limit then one_word AND bit_limit_mask else one_word) in
           andThen (FindPrevious_words complement words map_limit bit_limit_mask map_index one_word) (\<lambda>r.
           case r of
             None \<Rightarrow> Inr (False, bit_index)
           | Some (map_index, one_word) \<Rightarrow>
               Inr (True, push_bit (kLogIntBits words) map_index + bit_width one_word - 1))))))"

definition FindPreviousSetBitBeforeLimit :: "'w::len word bitmap \<Rightarrow> nat \<Rightarrow> nat \<Rightarrow> (bool \<times> nat) outcome" where
  "FindPreviousSetBitBeforeLimit b index limit =
    (if index \<ge> bm_size b then Inr (False, index)
     else FindPreviousBitInVector False (bm_map b) index limit)"

definition FindPreviousSetBit :: "'w::len word bitmap \<Rightarrow> nat \<Rightarrow> (bool \<times> nat) outcome" where
  "FindPreviousSetBit b index = FindPreviousSetBitBeforeLimit b index 0"

definition FindPreviousUnsetBitBeforeLimit :: "'w::len word bitmap \<Rightarrow> nat \<Rightarrow> nat \<Rightarrow> (bool \<times> nat) outcome" where
  "FindPreviousUnsetBitBeforeLimit b index limit =
    (if index \<ge> bm_size b then Inr (False, index)
     else FindPreviousBitInVector True (bm_map b) index limit)"

definition FindPreviousUnsetBit :: "'w::len word bitmap \<Rightarrow> nat \<Rightarrow> (bool \<times> nat) outcome" where
  "FindPreviousUnsetBit b index = FindPreviousUnsetBitBeforeLimit b index 0"

text \<open>\<open>size_ - 1\<close> wraps around when there is no bit.\<close>

definition FindLastSetBit :: "'w::len word bitmap \<Rightarrow> (bool \<times> nat) outcome" where
  "FindLastSetBit b =
    FindPreviousSetBitBeforeLimit b (if bm_size b = 0 then 2 ^ 64 - 1 else bm_size b - 1) 0"

section \<open>Iteration and printing\<close>

record 'v BitIndexIter =
  it_bitmap :: "'v bitmap option"
  it_current :: 'v
  it_position :: nat

definition new_BitIndexIter :: "'w::len word bitmap option \<Rightarrow> nat \<Rightarrow> 'w word BitIndexIter outcome" where
  "new_BitIndexIter bitmap start_bit =
    (case bitmap of
       None \<Rightarrow> Inr \<lparr>it_bitmap = None, it_current = 0, it_position = 0\<rparr>
     | Some b \<Rightarrow>
         andThen (FindNextSetBit b start_bit) (\<lambda>(found, pos).
         if \<not> found then Inr \<lparr>it_bitmap = bitmap, it_current = 0, it_position = bm_size b\<rparr>
         else
           andThen (GetMaskedMapElement b (pos div kIntBits (bm_map b))) (\<lambda>w.
           Inr \<lparr>it_bitmap = bitmap, it_current = drop_bit (bit_offset (bm_map b) pos) w, it_position = pos\<rparr>)))"

definition iter_next :: "'w::len word BitIndexIter \<Rightarrow> 'w word BitIndexIter outcome" where
  "iter_next it =
    (let current = drop_bit 1 (it_current it); pos = it_position it + 1 in
     if current = 0 then
       (case it_bitmap it of
          None \<Rightarrow> Inl BadAccess
        | Some b \<Rightarrow>
            andThen (FindNextSetBit b pos) (\<lambda>(found, pos).
            if found then
              andThen (GetMaskedMapElement b (pos div kIntBits (bm_map b))) (\<lambda>w.
              Inr (it\<lparr>it_current := drop_bit (bit_offset (bm_map b) pos) w, it_position := pos\<rparr>))
            else Inr (it\<lparr>it_current := current, it_position := bm_size b\<rparr>)))
     else if current AND 1 = 0 then
       (let first = countr_zero current in
        Inr (it\<lparr>it_current := drop_bit first current, it_position := pos + first\<rparr>))
     else Inr (it\<lparr>it_current := current, it_position := pos\<rparr>))"

text \<open>The range \<open>TrueBitIndices()\<close>: \<open>begin\<close>, \<open>end\<close> and the loop over them.\<close>

definition range_LowerBound :: "'w::len word bitmap \<Rightarrow> nat \<Rightarrow> 'w word BitIndexIter outcome" where
  "range_LowerBound b bit_index_lower_bound = new_BitIndexIter (Some b) bit_index_lower_bound"

definition range_begin :: "'w::len word bitmap \<Rightarrow> 'w word BitIndexIter outcome" where
  "range_begin b = range_LowerBound b 0"

definition range_end :: "'w::len word bitmap \<Rightarrow> 'w word BitIndexIter outcome" where
  "range_end b = range_LowerBound b (2 ^ 64 - 1)"

partial_function (option) indices_loop :: "nat \<Rightarrow> 'w::len word BitIndexIter \<Rightarrow> nat list outcome option" where
  "indices_loop stop it =
    (if it_position it = stop then Some (Inr [])
     else
       (case iter_next it of
          Inl e \<Rightarrow> Some (Inl e)
        | Inr it' \<Rightarrow>
            Option.bind (indices_loop stop it') (\<lambda>r.
            Some (andThen r (\<lambda>is. Inr (it_position it # is))))))"

definition TrueBitIndices :: "'w::len word bitmap \<Rightarrow> nat list outcome option" where
  "TrueBitIndices b =
    (case range_begin b of
       Inl e \<Rightarrow> Some (Inl e)
     | Inr first \<Rightarrow>
         (case range_end b of
            Inl e \<Rightarrow> Some (Inl e)
          | Inr stop \<Rightarrow> indices_loop (it_position stop) first))"

partial_function (option) ToString_loop :: "'w::len word bitmap \<Rightarrow> nat \<Rightarrow> string \<Rightarrow> string outcome option" where
  "ToString_loop b index str =
    (case FindNextSetBit b index of
       Inl e \<Rightarrow> Some (Inl e)
     | Inr r \<Rightarrow> if fst r then ToString_loop b (snd r + 1) (str[snd r := CHR ''1'']) else Some (Inr str))"

definition bm_ToString :: "'w::len word bitmap \<Rightarrow> string outcome option" where
  "bm_ToString b = ToString_loop b 0 (replicate (bm_size b) CHR ''0'')"

function group_loop :: "nat \<Rightarrow> string \<Rightarrow> nat \<Rightarrow> string" where
  "group_loop grp source i =
    (if i < length source \<and> grp > 0 then
       (if i > 0 then ''_'' else []) @ take grp (drop i source) @ group_loop grp source (i + grp)
     else [])"
  by pat_completeness auto
termination by (relation "measure (\<lambda>(grp, source, i). length source - i)") auto

declare group_loop.simps [simp del]

definition ToString_group :: "'w::len word bitmap \<Rightarrow> int \<Rightarrow> string outcome option" where
  "ToString_group b grp =
    Option.bind (bm_ToString b) (\<lambda>r.
    Some (andThen r (\<lambda>source.
    if grp \<le> 0 then Inr source else Inr (group_loop (nat grp) source 0))))"

section \<open>Operators and hashing\<close>

definition operator_eq :: "'w::len word bitmap \<Rightarrow> 'w word bitmap \<Rightarrow> bool outcome" where
  "operator_eq lhs rhs = IsEqual lhs rhs"

definition operator_ne :: "'w::len word bitmap \<Rightarrow> 'w word bitmap \<Rightarrow> bool outcome" where
  "operator_ne lhs rhs = andThen (IsEqual lhs rhs) (\<lambda>r. Inr (\<not> r))"

definition operator_less :: "'w::len word bitmap \<Rightarrow> 'w word bitmap \<Rightarrow> bool outcome" where
  "operator_less lhs rhs = andThen (CompareTo lhs rhs) (\<lambda>r. Inr (r < 0))"

definition operator_le :: "'w::len word bitmap \<Rightarrow> 'w word bitmap \<Rightarrow> bool outcome" where
  "operator_le lhs rhs = andThen (CompareTo lhs rhs) (\<lambda>r. Inr (r \<le> 0))"

definition operator_greater :: "'w::len word bitmap \<Rightarrow> 'w word bitmap \<Rightarrow> bool outcome" where
  "operator_greater lhs rhs = andThen (CompareTo lhs rhs) (\<lambda>r. Inr (r > 0))"

definition operator_ge :: "'w::len word bitmap \<Rightarrow> 'w word bitmap \<Rightarrow> bool outcome" where
  "operator_ge lhs rhs = andThen (CompareTo lhs rhs) (\<lambda>r. Inr (r \<ge> 0))"

text \<open>
  The hash framework is a parameter: \<open>combine\<close> adds a word to a state, \<open>combine_contiguous\<close> an array.
  The first argument tells whether the words are atomic.
\<close>

definition AbslHashValue :: "bool \<Rightarrow> ('h \<Rightarrow> 'w::len word \<Rightarrow> 'h) \<Rightarrow> ('h \<Rightarrow> 'w word list \<Rightarrow> 'h) \<Rightarrow> 'h
    \<Rightarrow> 'w word bitmap \<Rightarrow> 'h outcome" where
  "AbslHashValue atomic combine combine_contiguous state b =
    (let complete_map_entries = bm_size b div kIntBits (bm_map b);
         entries = take complete_map_entries (bm_map b) in
     require BadAccess (complete_map_entries \<le> length (bm_map b))
       (let state = (if atomic then foldl combine state entries else combine_contiguous state entries) in
        if complete_map_entries \<noteq> array_size b then
          andThen (word_at (bm_map b) (array_size b - 1)) (\<lambda>w.
          Inr (combine state (w AND HighOrderMapElementMask b)))
        else Inr state))"

end
