(* ===== verification/Bitmap_Objects.thy ===== *)
theory Bitmap_Objects
  imports Bitmap
begin

text \<open>
  The bitmap objects of \<^verbatim>\<open>src/gloop/util/bitmap/bitmap.h\<close>: constructors, assignment, resizing and
  destruction, and the arrays they own or borrow.

  A store maps addresses to arrays of words and names to objects.  An array is either allocated with
  \<open>new\<close> or belongs to the caller; only the former may be deleted, once, and with the size it was
  allocated with.  A deleted address is not given out again, so that every use of it is \<open>BadAccess\<close>.  The
  words of a new array are arbitrary: they come from an argument.  Signed overflow is \<open>BadAccess\<close> too.
\<close>

section \<open>Arrays\<close>

record bitmap_object =
  ob_map :: nat
  ob_size :: nat
  ob_alloc :: bool

record 'v bitmap_store =
  st_blocks :: "nat \<Rightarrow> (bool \<times> 'v list) option"
  st_next :: nat
  st_objects :: "nat \<Rightarrow> bitmap_object option"

definition words_needed :: "'w::len word bitmap_store \<Rightarrow> nat \<Rightarrow> nat" where
  "words_needed st num_bits = RequiredArraySize ([] :: 'w word list) num_bits"

definition new_array :: "(nat \<Rightarrow> 'w::len word) \<Rightarrow> nat \<Rightarrow> 'w word bitmap_store \<Rightarrow> 'w word bitmap_store \<times> nat" where
  "new_array junk n st =
    (st\<lparr>st_blocks := (st_blocks st)(st_next st \<mapsto> (True, map junk [0..<n])), st_next := st_next st + 1\<rparr>,
     st_next st)"

definition DeleteMap :: "nat \<Rightarrow> nat \<Rightarrow> 'w::len word bitmap_store \<Rightarrow> 'w word bitmap_store outcome" where
  "DeleteMap a num st =
    (case st_blocks st a of
       Some (True, ws) \<Rightarrow> require BadAccess (length ws = num) (Inr (st\<lparr>st_blocks := (st_blocks st)(a := None)\<rparr>))
     | _ \<Rightarrow> Inl BadAccess)"

definition object_at :: "'w::len word bitmap_store \<Rightarrow> nat \<Rightarrow> bitmap_object outcome" where
  "object_at st x = (case st_objects st x of None \<Rightarrow> Inl BadAccess | Some ob \<Rightarrow> Inr ob)"

definition put_object :: "nat \<Rightarrow> bitmap_object \<Rightarrow> 'w::len word bitmap_store \<Rightarrow> 'w word bitmap_store" where
  "put_object x ob st = st\<lparr>st_objects := (st_objects st)(x \<mapsto> ob)\<rparr>"

text \<open>\<open>std::copy\<close> of the first \<open>n\<close> words of one array to another.\<close>

definition copy_words :: "nat \<Rightarrow> nat \<Rightarrow> nat \<Rightarrow> 'w::len word bitmap_store \<Rightarrow> 'w word bitmap_store outcome" where
  "copy_words from to n st =
    (case (st_blocks st from, st_blocks st to) of
       (Some (_, ws), Some (new, vs)) \<Rightarrow>
         require BadAccess (n \<le> length ws \<and> n \<le> length vs)
           (Inr (st\<lparr>st_blocks := (st_blocks st)(to \<mapsto> (new, take n ws @ drop n vs))\<rparr>))
     | _ \<Rightarrow> Inl BadAccess)"

text \<open>The bits of an object, and a member function that changes them.\<close>

definition view :: "'w::len word bitmap_store \<Rightarrow> bitmap_object \<Rightarrow> 'w word bitmap outcome" where
  "view st ob =
    (case st_blocks st (ob_map ob) of
       None \<Rightarrow> Inl BadAccess
     | Some (_, ws) \<Rightarrow> Inr \<lparr>bm_map = ws, bm_size = ob_size ob\<rparr>)"

definition update_bits :: "nat \<Rightarrow> ('w::len word bitmap \<Rightarrow> 'w word bitmap outcome) \<Rightarrow> 'w word bitmap_store
    \<Rightarrow> 'w word bitmap_store outcome" where
  "update_bits this f st =
    andThen (object_at st this) (\<lambda>ob.
    andThen (view st ob) (\<lambda>b.
    andThen (f b) (\<lambda>b'.
    Inr (st\<lparr>st_blocks := (st_blocks st)(ob_map ob := map_option (\<lambda>(new, _). (new, bm_map b')) (st_blocks st (ob_map ob)))\<rparr>))))"

section \<open>Constructors and destructor\<close>

definition BasicBitmap_fill :: "(nat \<Rightarrow> 'w::len word) \<Rightarrow> nat \<Rightarrow> nat \<Rightarrow> bool \<Rightarrow> 'w word bitmap_store \<Rightarrow> 'w word bitmap_store outcome" where
  "BasicBitmap_fill junk this num fill st =
    (let (st, a) = new_array junk (words_needed st num) st;
         st = put_object this \<lparr>ob_map = a, ob_size = num, ob_alloc = True\<rparr> st in
     update_bits this (\<lambda>b. SetAll b fill) st)"

definition BasicBitmap_size :: "(nat \<Rightarrow> 'w::len word) \<Rightarrow> nat \<Rightarrow> nat \<Rightarrow> 'w word bitmap_store \<Rightarrow> 'w word bitmap_store outcome" where
  "BasicBitmap_size junk this num st = BasicBitmap_fill junk this num False st"

text \<open>The index of the loop is an \<open>int\<close>.\<close>

fun set_values :: "nat \<Rightarrow> nat \<Rightarrow> bool list \<Rightarrow> 'w::len word bitmap_store \<Rightarrow> 'w word bitmap_store outcome" where
  "set_values this index [] st = Inr st"
| "set_values this index (v # vs) st =
    require BadAccess (index + 1 < 2 ^ 31)
      (andThen (update_bits this (\<lambda>b. andThen (bm_Set b index v) (\<lambda>(b, old). Inr b)) st) (\<lambda>st.
       set_values this (index + 1) vs st))"

definition BasicBitmap_values :: "(nat \<Rightarrow> 'w::len word) \<Rightarrow> nat \<Rightarrow> bool list \<Rightarrow> 'w word bitmap_store \<Rightarrow> 'w word bitmap_store outcome" where
  "BasicBitmap_values junk this values st =
    andThen (BasicBitmap_size junk this (length values) st) (\<lambda>st. set_values this 0 values st)"

definition BasicBitmap_borrow :: "nat \<Rightarrow> nat \<Rightarrow> nat \<Rightarrow> 'w::len word bitmap_store \<Rightarrow> 'w word bitmap_store" where
  "BasicBitmap_borrow this a num st = put_object this \<lparr>ob_map = a, ob_size = num, ob_alloc = False\<rparr> st"

definition BasicBitmap_default :: "(nat \<Rightarrow> 'w::len word) \<Rightarrow> nat \<Rightarrow> 'w word bitmap_store \<Rightarrow> 'w word bitmap_store" where
  "BasicBitmap_default junk this st =
    (let (st, a) = new_array junk (words_needed st 0) st in
     put_object this \<lparr>ob_map = a, ob_size = 0, ob_alloc = True\<rparr> st)"

definition BasicBitmap_copy :: "(nat \<Rightarrow> 'w::len word) \<Rightarrow> nat \<Rightarrow> nat \<Rightarrow> 'w word bitmap_store \<Rightarrow> 'w word bitmap_store outcome" where
  "BasicBitmap_copy junk this src st =
    andThen (object_at st src) (\<lambda>s.
    if ob_alloc s then
      (let n = words_needed st (ob_size s); (st, a) = new_array junk n st in
       andThen (copy_words (ob_map s) a n st) (\<lambda>st.
       Inr (put_object this \<lparr>ob_map = a, ob_size = ob_size s, ob_alloc = True\<rparr> st)))
    else Inr (put_object this \<lparr>ob_map = ob_map s, ob_size = ob_size s, ob_alloc = False\<rparr> st))"

definition BasicBitmap_move :: "nat \<Rightarrow> nat \<Rightarrow> 'w::len word bitmap_store \<Rightarrow> 'w word bitmap_store outcome" where
  "BasicBitmap_move this src st =
    andThen (object_at st src) (\<lambda>s.
    let st = put_object this s st in
    Inr (if ob_alloc s then put_object src (s\<lparr>ob_alloc := False\<rparr>) st else st))"

definition destroy_BasicBitmap :: "nat \<Rightarrow> 'w::len word bitmap_store \<Rightarrow> 'w word bitmap_store outcome" where
  "destroy_BasicBitmap this st =
    andThen (object_at st this) (\<lambda>ob.
    andThen (if ob_alloc ob then DeleteMap (ob_map ob) (words_needed st (ob_size ob)) st else Inr st) (\<lambda>st.
    Inr (st\<lparr>st_objects := (st_objects st)(this := None)\<rparr>)))"

section \<open>Resizing and assignment\<close>

definition bm_Resize :: "(nat \<Rightarrow> 'w::len word) \<Rightarrow> nat \<Rightarrow> nat \<Rightarrow> bool \<Rightarrow> 'w word bitmap_store \<Rightarrow> 'w word bitmap_store outcome" where
  "bm_Resize junk this num fill st =
    andThen (object_at st this) (\<lambda>ob.
    let old_size = ob_size ob; new_array_size = words_needed st num; array_size = words_needed st old_size in
    andThen
      (if new_array_size \<noteq> array_size then
         (let (st, new_map) = new_array junk new_array_size st in
          andThen (copy_words (ob_map ob) new_map (min new_array_size array_size) st) (\<lambda>st.
          andThen (if ob_alloc ob then DeleteMap (ob_map ob) array_size st else Inr st) (\<lambda>st.
          Inr (put_object this (ob\<lparr>ob_map := new_map, ob_alloc := True, ob_size := num\<rparr>) st))))
       else Inr (put_object this (ob\<lparr>ob_size := num\<rparr>) st))
      (\<lambda>st. if old_size < num then update_bits this (\<lambda>b. SetRange b old_size num fill) st else Inr st))"

definition operator_assign :: "(nat \<Rightarrow> 'w::len word) \<Rightarrow> nat \<Rightarrow> nat \<Rightarrow> 'w word bitmap_store \<Rightarrow> 'w word bitmap_store outcome" where
  "operator_assign junk this src st =
    (if this = src then Inr st
     else
       andThen (object_at st this) (\<lambda>ob.
       andThen (object_at st src) (\<lambda>s.
       let src_array_size = words_needed st (ob_size s) in
       andThen
         (if ob_alloc ob \<and> words_needed st (ob_size ob) \<noteq> src_array_size then
            andThen (DeleteMap (ob_map ob) (words_needed st (ob_size ob)) st) (\<lambda>st.
            Inr (new_array junk src_array_size st))
          else Inr (st, ob_map ob))
         (\<lambda>(st, map1).
          if ob_alloc s then
            (let (st, map2) = (if \<not> ob_alloc ob then new_array junk src_array_size st else (st, map1)) in
             andThen (copy_words (ob_map s) map2 src_array_size st) (\<lambda>st.
             Inr (put_object this \<lparr>ob_map = map2, ob_size = ob_size s, ob_alloc = True\<rparr> st)))
          else
            andThen (if ob_alloc ob then DeleteMap map1 (words_needed st (ob_size s)) st else Inr st) (\<lambda>st.
            Inr (put_object this \<lparr>ob_map = ob_map s, ob_size = ob_size s, ob_alloc = False\<rparr> st))))))"

end
