(* ===== verification/Bitmap_Proofs.thy ===== *)
theory Bitmap_Proofs
  imports Bitmap
begin

text \<open>
  Bitmaps refine lists of truth values.  The first section reduces the index arithmetic of the code to
  division and remainder, the others treat updates, queries and searches.
\<close>

section \<open>Index arithmetic\<close>

text \<open>The number of bits of a word is a power of two, as a static assertion of the code checks.\<close>

definition width_ok :: "'w::len word list \<Rightarrow> bool" where
  "width_ok ws \<longleftrightarrow> (\<exists>k < 64. kIntBits ws = 2 ^ k)"

lemma kIntBits_eq [simp]: "kIntBits (ws :: 'w::len word list) = LENGTH('w)"
  by (simp add: kIntBits_def)

lemma Log2_power: "Log2 (2 ^ k) p = p + k"
proof (induction k arbitrary: p)
  case (Suc k)
  have "\<not> (2::nat) * 2 ^ k \<le> 1" using one_le_power [of "2::nat" k] by linarith
  then show ?case
    using Suc [of "p + 1"] by (simp add: Log2.simps [of "2 * 2 ^ k"])
qed (simp add: Log2.simps)

lemma width_arith:
  fixes ws :: "'w::len word list"
  assumes "width_ok ws"
  shows "bit_offset ws i = i mod LENGTH('w)" and "drop_bit (kLogIntBits ws) i = i div LENGTH('w)"
    and "push_bit (kLogIntBits ws) i = i * LENGTH('w)"
proof -
  obtain k where k: "LENGTH('w) = 2 ^ k"
    using assms by (auto simp: width_ok_def)
  have "i AND (2 ^ k - 1) = take_bit k i"
    by (simp add: take_bit_eq_mask mask_eq_exp_minus_1)
  then show "bit_offset ws i = i mod LENGTH('w)"
    by (simp add: bit_offset_def k take_bit_eq_mod)
  have "kLogIntBits ws = k"
    by (simp add: kLogIntBits_def k Log2_power)
  then show "drop_bit (kLogIntBits ws) i = i div LENGTH('w)" "push_bit (kLogIntBits ws) i = i * LENGTH('w)"
    by (simp_all add: k drop_bit_eq_div push_bit_eq_mult)
qed

text \<open>A bit of the array, and a bitmap whose array is long enough.\<close>

definition testb :: "'w::len word list \<Rightarrow> nat \<Rightarrow> bool" where
  "testb ws i = bit (ws ! (i div LENGTH('w))) (i mod LENGTH('w))"

definition bm_ok :: "'w::len word bitmap \<Rightarrow> bool" where
  "bm_ok b \<longleftrightarrow> width_ok (bm_map b) \<and> array_size b \<le> length (bm_map b) \<and> bm_size b < 2 ^ 64"

definition bits_of :: "'w::len word bitmap \<Rightarrow> bool list" where
  "bits_of b = map (testb (bm_map b)) [0..<bm_size b]"

lemma length_bits_of [simp]: "length (bits_of b) = bm_size b"
  by (simp add: bits_of_def)

lemma nth_bits_of [simp]: "i < bm_size b \<Longrightarrow> bits_of b ! i = testb (bm_map b) i"
  by (simp add: bits_of_def)

lemma array_size_pos: "0 < array_size b"
  by (simp add: array_size_def RequiredArraySize_def)

lemma index_in_array:
  fixes b :: "'w::len word bitmap"
  assumes "i < bm_size b"
  shows "i div LENGTH('w) < array_size b"
proof -
  have "i div LENGTH('w) \<le> (bm_size b - 1) div LENGTH('w)"
    using assms by (intro div_le_mono) simp
  then show ?thesis
    using assms by (simp add: array_size_def RequiredArraySize_def)
qed

lemma bm_ok_access:
  fixes b :: "'w::len word bitmap"
  assumes "bm_ok b" and "i < bm_size b"
  shows "i div LENGTH('w) < length (bm_map b)"
  using index_in_array [OF assms(2)] assms(1) by (simp add: bm_ok_def)

text \<open>The mask of the last word.\<close>

lemma bit_all_ones [simp]: "bit (kAllOnesWord :: 'w::len word) i \<longleftrightarrow> i < LENGTH('w)"
  by (simp add: kAllOnesWord_def bit_simps)

lemma high_shift:
  assumes "0 < s" and "k < 64"
  shows "unat (- (of_nat s :: u64) AND of_nat (2 ^ k - 1)) = 2 ^ k - 1 - (s - 1) mod 2 ^ k"
proof -
  define m q r where "m = (2::nat) ^ k" and "q = (s - 1) div m" and "r = (s - 1) mod m"
  have r: "r < m" by (simp add: r_def m_def)
  have "s = q * m + r + 1"
    using assms(1) by (simp add: q_def r_def)
  then have "- int s = int (m - 1 - r) + int m * (- int q - 1)"
    using r by (simp add: algebra_simps of_nat_diff)
  then have "(- int s) mod int m = int (m - 1 - r) mod int m"
    by (metis mod_mult_self2)
  also have "\<dots> = int (m - 1 - r)"
    by (simp add: r_def m_def)
  finally have neg: "(- int s) mod 2 ^ k = int (2 ^ k - 1 - (s - 1) mod 2 ^ k)"
    by (simp add: m_def r_def)
  have "- (of_nat s :: u64) AND of_nat (2 ^ k - 1) = take_bit k (of_int (- int s))"
    by (simp add: take_bit_eq_mask mask_eq_exp_minus_1)
  then have "uint (- (of_nat s :: u64) AND of_nat (2 ^ k - 1)) = take_bit k (take_bit 64 (- int s))"
    by (simp only: unsigned_take_bit_eq unsigned_of_int) simp
  also have "\<dots> = (- int s) mod 2 ^ k"
    using assms(2) by (simp add: take_bit_eq_mod [of k])
  finally show ?thesis
    unfolding neg by (simp add: unat_eq_nat_uint)
qed

lemma bit_high_mask:
  fixes b :: "'w::len word bitmap"
  assumes "bm_ok b"
  shows "bit (HighOrderMapElementMask b) j \<longleftrightarrow> j < LENGTH('w) \<and> (array_size b - 1) * LENGTH('w) + j < bm_size b"
proof (cases "bm_size b = 0")
  case False
  obtain k where k: "LENGTH('w) = 2 ^ k" "k < 64"
    using assms by (auto simp: bm_ok_def width_ok_def)
  let ?r = "(bm_size b - 1) mod LENGTH('w)" and ?q = "(bm_size b - 1) div LENGTH('w)"
  have r: "?r < LENGTH('w)" by simp
  have s: "bm_size b = ?q * LENGTH('w) + ?r + 1" and q: "array_size b - 1 = ?q"
    using False by (simp_all add: array_size_def RequiredArraySize_def)
  have "(array_size b - 1) * LENGTH('w) + j < bm_size b \<longleftrightarrow> j \<le> ?r"
    unfolding q by (rule iffI) (use s in linarith)+
  moreover have "j \<le> ?r \<longleftrightarrow> LENGTH('w) - 1 - ?r + j < LENGTH('w)"
    by (rule iffI) (use r in linarith)+
  moreover have "j \<le> ?r \<Longrightarrow> j < LENGTH('w)"
    using r by linarith
  moreover have "HighOrderMapElementMask b = drop_bit (LENGTH('w) - 1 - ?r) kAllOnesWord"
    unfolding HighOrderMapElementMask_def kIntBits_eq k(1)
    using high_shift [of "bm_size b" k] False k(2) by (simp del: of_nat_diff)
  ultimately show ?thesis
    unfolding bit_all_ones [symmetric] by (metis bit_drop_bit_eq comp_apply)
next
  case True
  then show ?thesis by (simp add: HighOrderMapElementMask_def)
qed


section \<open>Accesses and updates\<close>

lemma word_at_ok [simp]: "i < length ws \<Longrightarrow> word_at ws i = Inr (ws ! i)"
  by (simp add: word_at_def)

lemma put_word_ok [simp]: "i < length ws \<Longrightarrow> put_word ws i w = Inr (ws[i := w])"
  by (simp add: put_word_def)

lemma and_single_bit: "(w :: 'w::len word) AND push_bit j 1 \<noteq> 0 \<longleftrightarrow> bit w j"
  by (simp add: and_exp_eq_0_iff_not_bit)

lemma GetBit_spec:
  fixes ws :: "'w::len word list"
  assumes "width_ok ws" and "i div LENGTH('w) < length ws"
  shows "GetBit ws i = Inr (testb ws i)"
  using assms by (simp add: GetBit_def width_arith and_exp_eq_0_iff_not_bit testb_def)

text \<open>An index is determined by its word and its offset.\<close>

lemma index_eq_iff: "(i::nat) = j \<longleftrightarrow> i div n = j div n \<and> i mod n = j mod n"
  by (metis div_mult_mod_eq)

lemma testb_update:
  fixes ws :: "'w::len word list"
  assumes "k < length ws"
  shows "testb (ws[k := w]) i = (if i div LENGTH('w) = k then bit w (i mod LENGTH('w)) else testb ws i)"
  using assms by (simp add: testb_def)

lemma SetBit_spec:
  fixes ws :: "'w::len word list"
  assumes "width_ok ws" and "i div LENGTH('w) < length ws"
  shows "\<exists>ws'. SetBit ws i v = Inr (ws', testb ws i) \<and> length ws' = length ws
    \<and> (\<forall>j. testb ws' j = (if j = i then v else testb ws j))"
proof -
  have off: "i mod LENGTH('w) < LENGTH('w)" by simp
  have "testb (ws[i div LENGTH('w) := if v then ws ! (i div LENGTH('w)) OR push_bit (i mod LENGTH('w)) 1
      else ws ! (i div LENGTH('w)) AND NOT (push_bit (i mod LENGTH('w)) 1)]) j =
      (if j = i then v else testb ws j)" for j
    unfolding testb_update [OF assms(2)]
    by (auto simp: bit_simps testb_def index_eq_iff [of j i "LENGTH('w)"])
  moreover have "SetBit ws i v = Inr (ws[i div LENGTH('w) := if v then ws ! (i div LENGTH('w)) OR push_bit (i mod LENGTH('w)) 1
      else ws ! (i div LENGTH('w)) AND NOT (push_bit (i mod LENGTH('w)) 1)], testb ws i)"
    using assms by (simp add: SetBit_def width_arith and_exp_eq_0_iff_not_bit testb_def)
  ultimately show ?thesis by simp
qed

lemma bm_ok_same:
  fixes b :: "'w::len word bitmap"
  assumes "bm_ok b" and "length ws = length (bm_map b)"
  shows "bm_ok (b\<lparr>bm_map := ws\<rparr>)"
  using assms by (auto simp: bm_ok_def width_ok_def array_size_def RequiredArraySize_def split: if_splits)

text \<open>The results of the updates: the same size, and new bits.\<close>

definition updated :: "'w::len word bitmap outcome \<Rightarrow> 'w word bitmap \<Rightarrow> (nat \<Rightarrow> bool) \<Rightarrow> bool" where
  "updated r b f \<longleftrightarrow> (\<exists>b'. r = Inr b' \<and> bm_ok b' \<and> bm_size b' = bm_size b
    \<and> length (bm_map b') = length (bm_map b) \<and> bits_of b' = map f [0..<bm_size b])"

lemma updatedI:
  assumes "bm_ok b" and "r = Inr (b\<lparr>bm_map := ws\<rparr>)" and "length ws = length (bm_map b)"
    and "\<And>i. i < bm_size b \<Longrightarrow> testb ws i = f i"
  shows "updated r b f"
  using bm_ok_same [OF assms(1,3)] assms by (simp add: updated_def bits_of_def)

lemma updated_cong:
  "map f [0..<bm_size b] = map g [0..<bm_size b] \<Longrightarrow> updated r b f = updated r b g"
  unfolding updated_def by (rule arg_cong [where f = Ex]) (auto intro!: ext)

lemma bm_Get_spec:
  assumes "bm_ok b"
  shows "bm_Get b i = (if i < bm_size b then Inr (bits_of b ! i) else Inl HardeningAssert)"
  using assms GetBit_spec [of "bm_map b" i] bm_ok_access [OF assms, of i]
  by (simp add: bm_Get_def bm_ok_def)

lemma bm_Set_spec:
  assumes "bm_ok b" and "i < bm_size b"
  shows "\<exists>b'. bm_Set b i v = Inr (b', bits_of b ! i) \<and> bm_ok b' \<and> bits_of b' = (bits_of b)[i := v]"
proof -
  have w: "width_ok (bm_map b)" using assms(1) by (simp add: bm_ok_def)
  obtain ws where ws: "SetBit (bm_map b) i v = Inr (ws, testb (bm_map b) i)" "length ws = length (bm_map b)"
    "\<forall>j. testb ws j = (if j = i then v else testb (bm_map b) j)"
    using SetBit_spec [OF w bm_ok_access [OF assms]] by blast
  have "bits_of (b\<lparr>bm_map := ws\<rparr>) = (bits_of b)[i := v]"
    using ws(3) by (intro nth_equalityI) (auto simp: bits_of_def nth_list_update)
  then show ?thesis
    using ws(1,2) assms bm_ok_same [OF assms(1) ws(2)] by (simp add: bm_Set_def)
qed

lemma Toggle_spec:
  assumes "bm_ok b" and "i < bm_size b"
  shows "updated (Toggle b i) b (\<lambda>j. if j = i then \<not> bits_of b ! i else bits_of b ! j)"
proof (rule updatedI [OF assms(1)])
  let ?L = "LENGTH('a)" and ?ws = "bm_map b"
  have w: "width_ok ?ws" using assms(1) by (simp add: bm_ok_def)
  have k: "i div ?L < length ?ws" using bm_ok_access [OF assms] .
  let ?new = "?ws[i div ?L := ?ws ! (i div ?L) XOR push_bit (i mod ?L) 1]"
  show "Toggle b i = Inr (b\<lparr>bm_map := ?new\<rparr>)"
    using assms(2) k w by (simp add: Toggle_def width_arith)
  show "testb ?new j = (if j = i then \<not> bits_of b ! i else bits_of b ! j)" if "j < bm_size b" for j
    unfolding testb_update [OF k] using that assms(2)
    by (auto simp: bit_simps testb_def index_eq_iff [of j i ?L])
qed simp

text \<open>The order of indices, by words and offsets.\<close>

lemma index_less_iff:
  fixes i j n :: nat
  assumes "0 < n"
  shows "i < j \<longleftrightarrow> i div n < j div n \<or> (i div n = j div n \<and> i mod n < j mod n)"
proof (cases "i div n" "j div n" rule: linorder_cases)
  case less
  then have "i < j" using div_le_mono leI by (metis not_less)
  with less show ?thesis by simp
next
  case equal
  then show ?thesis by (metis add_less_cancel_left div_mult_mod_eq less_irrefl)
next
  case greater
  then have "j < i" using div_le_mono leI by (metis not_less)
  with greater show ?thesis by simp
qed

lemma index_before_last:
  fixes b :: "'w::len word bitmap"
  assumes "i div LENGTH('w) < array_size b - 1"
  shows "i < bm_size b"
proof -
  have "i div LENGTH('w) < (bm_size b - 1) div LENGTH('w)"
    using assms by (auto simp: array_size_def RequiredArraySize_def split: if_splits)
  then have "i < bm_size b - 1"
    using index_less_iff [of "LENGTH('w)" i "bm_size b - 1"] by simp
  then show ?thesis by simp
qed

text \<open>The arrays that the loops over words produce, and their bits.\<close>

definition filled :: "'w::len word list \<Rightarrow> nat \<Rightarrow> nat \<Rightarrow> 'w word \<Rightarrow> 'w word list" where
  "filled ws i j w = map (\<lambda>k. if i \<le> k \<and> k < j then w else ws ! k) [0..<length ws]"

lemma length_filled [simp]: "length (filled ws i j w) = length ws"
  by (simp add: filled_def)

lemma fill_words_filled [simp]: "(i < j \<longrightarrow> j \<le> length ws) \<Longrightarrow> fill_words ws i j w = Inr (filled ws i j w)"
  by (auto simp: fill_words_def filled_def)

lemma testb_filled:
  "n div LENGTH('w) < length ws \<Longrightarrow> testb (filled ws i j (w :: 'w::len word)) n =
    (if i \<le> n div LENGTH('w) \<and> n div LENGTH('w) < j then bit w (n mod LENGTH('w)) else testb ws n)"
  by (simp add: filled_def testb_def)

definition masked :: "'w::len word list \<Rightarrow> nat \<Rightarrow> 'w word \<Rightarrow> bool \<Rightarrow> 'w word list" where
  "masked ws k m v = ws[k := if v then ws ! k OR m else ws ! k AND NOT m]"

lemma length_masked [simp]: "length (masked ws k m v) = length ws"
  by (simp add: masked_def)

lemma mask_word_masked [simp]: "k < length ws \<Longrightarrow> mask_word ws k m v = Inr (masked ws k m v)"
  by (simp add: mask_word_def masked_def)

lemma testb_masked:
  "k < length ws \<Longrightarrow> testb (masked ws k (m :: 'w::len word) v) n =
    (if n div LENGTH('w) = k \<and> bit m (n mod LENGTH('w)) then v else testb ws n)"
  unfolding masked_def by (auto simp: testb_update bit_simps testb_def [of ws])

definition transformed :: "nat \<Rightarrow> ('w::len word \<Rightarrow> 'w word \<Rightarrow> 'w word) \<Rightarrow> 'w word list \<Rightarrow> 'w word list \<Rightarrow> 'w word list" where
  "transformed n f ws vs = map (\<lambda>k. if k < n then f (ws ! k) (vs ! k) else ws ! k) [0..<length ws]"

lemma length_transformed [simp]: "length (transformed n f ws vs) = length ws"
  by (simp add: transformed_def)

lemma transform_transformed [simp]:
  "n \<le> length ws \<Longrightarrow> n \<le> length vs \<Longrightarrow> transform n f ws vs = Inr (transformed n f ws vs)"
  by (simp add: transform_def transformed_def)

lemma nth_transformed [simp]:
  "k < length ws \<Longrightarrow> transformed n f ws vs ! k = (if k < n then f (ws ! k) (vs ! k) else ws ! k)"
  by (simp add: transformed_def)

lemma SetAll_spec:
  fixes b :: "'w::len word bitmap"
  assumes "bm_ok b"
  shows "updated (SetAll b v) b (\<lambda>i. v)"
proof (rule updatedI [OF assms])
  let ?ws = "filled (bm_map b) 0 (array_size b) (if v then kAllOnesWord else 0)"
  show "SetAll b v = Inr (b\<lparr>bm_map := ?ws\<rparr>)"
    using assms by (simp add: SetAll_def bm_ok_def)
  show "testb ?ws i = v" if "i < bm_size b" for i
    using bm_ok_access [OF assms that] index_in_array [OF that] by (simp add: testb_filled)
qed simp

lemma bit_low_mask:
  assumes "0 < e" and "e \<le> LENGTH('w)"
  shows "bit (drop_bit (LENGTH('w) - e) kAllOnesWord :: 'w::len word) j \<longleftrightarrow> j < e"
  using assms by (auto simp: bit_drop_bit_eq)

lemma bit_push_ones:
  "bit (push_bit k kAllOnesWord :: 'w::len word) j \<longleftrightarrow> k \<le> j \<and> j < LENGTH('w)"
  by (auto simp: bit_push_bit_iff)

text \<open>\<open>SetRange\<close> changes one word, or two words and those between them.\<close>

lemma bit_end_mask:
  assumes "e mod LENGTH('w) \<noteq> 0"
  shows "bit (drop_bit (LENGTH('w) - e mod LENGTH('w)) kAllOnesWord :: 'w::len word) j \<longleftrightarrow> j < e mod LENGTH('w)"
  using assms by (intro bit_low_mask) (auto intro: less_imp_le)

lemma SetRange_one_word:
  fixes b :: "'w::len word bitmap"
  assumes "bm_ok b" and "s < e" and "e \<le> bm_size b" and same: "e div LENGTH('w) = s div LENGTH('w)"
  shows "updated (SetRange b s e v) b (\<lambda>i. if s \<le> i \<and> i < e then v else bits_of b ! i)"
proof -
  let ?L = "LENGTH('w)" and ?ws = "bm_map b"
  have L: "0 < ?L" by simp
  have bq: "s div ?L < length ?ws"
    using bm_ok_access [OF assms(1), of s] assms(2,3) by simp
  have br: "s mod ?L < e mod ?L"
    using assms(2) same index_less_iff [OF L, of s e] by simp
  let ?m = "push_bit (s mod ?L) kAllOnesWord AND drop_bit (?L - e mod ?L) kAllOnesWord :: 'w word"
  show ?thesis
  proof (rule updatedI [OF assms(1)])
    show "SetRange b s e v = Inr (b\<lparr>bm_map := masked ?ws (s div ?L) ?m v\<rparr>)"
      using assms(2) same bq by (simp add: SetRange_def Let_def)
    show "testb (masked ?ws (s div ?L) ?m v) i = (if s \<le> i \<and> i < e then v else bits_of b ! i)"
      if "i < bm_size b" for i
      using that same br bq bit_end_mask [of e, where 'w = 'w]
      by (auto simp: testb_masked bit_and_iff bit_push_ones not_less [symmetric]
          index_less_iff [OF L, of _ s] index_less_iff [OF L, of _ e])
  qed simp
qed

lemma SetRange_words:
  fixes b :: "'w::len word bitmap"
  assumes "bm_ok b" and "s < e" and "e \<le> bm_size b" and lt: "s div LENGTH('w) < e div LENGTH('w)"
  shows "updated (SetRange b s e v) b (\<lambda>i. if s \<le> i \<and> i < e then v else bits_of b ! i)"
proof -
  let ?L = "LENGTH('w)" and ?ws = "bm_map b"
  let ?bq = "s div ?L" and ?br = "s mod ?L" and ?eq = "e div ?L" and ?er = "e mod ?L"
  let ?ws1 = "masked ?ws ?bq (push_bit ?br kAllOnesWord) v"
  let ?ws2 = "filled ?ws1 (?bq + 1) ?eq (if v then kAllOnesWord else 0)"
  let ?ws3 = "masked ?ws2 ?eq (drop_bit (?L - ?er) kAllOnesWord) v"
  have bq: "?bq < length ?ws" and last: "(e - 1) div ?L < length ?ws"
    using bm_ok_access [OF assms(1)] assms(2,3) by simp_all
  have "?eq \<le> Suc ((e - 1) div ?L)"
    using assms(2) by (cases e) (auto simp: div_Suc)
  then have eq: "?eq \<le> length ?ws"
    using last by simp
  have eq': "?eq < length ?ws" if "?er \<noteq> 0"
    using that assms(2) last by (cases e) (auto simp: div_Suc split: if_splits)
  have ws2: "testb ?ws2 i = (if ?bq = i div ?L \<and> ?br \<le> i mod ?L \<or> ?bq < i div ?L \<and> i div ?L < ?eq
      then v else testb ?ws i)" if "i < bm_size b" for i
    using bm_ok_access [OF assms(1) that] lt bq by (auto simp: testb_filled testb_masked bit_push_ones)
  have range: "SetRange b s e v = Inr (b\<lparr>bm_map := if ?er = 0 then ?ws2 else ?ws3\<rparr>)"
    using assms(2) lt bq eq eq' by (simp add: SetRange_def Let_def)
  show ?thesis
  proof (rule updatedI [OF assms(1) range])
    fix i assume i: "i < bm_size b"
    have in_range: "s \<le> i \<and> i < e \<longleftrightarrow> ?bq = i div ?L \<and> ?br \<le> i mod ?L \<or> ?bq < i div ?L \<and> i div ?L < ?eq
        \<or> i div ?L = ?eq \<and> i mod ?L < ?er"
      unfolding not_less [symmetric] index_less_iff [of ?L _ s, OF len_gt_0] index_less_iff [of ?L _ e, OF len_gt_0]
      using lt by auto
    have "testb ?ws3 i = (if i div ?L = ?eq \<and> i mod ?L < ?er then v else testb ?ws2 i)" if "?er \<noteq> 0"
      using that eq' bit_end_mask [of e, where 'w = 'w] by (simp add: testb_masked)
    then show "testb (if ?er = 0 then ?ws2 else ?ws3) i = (if s \<le> i \<and> i < e then v else bits_of b ! i)"
      using ws2 [OF i] i unfolding in_range by (cases "?er = 0") auto
  qed simp
qed

lemma SetRange_spec:
  fixes b :: "'w::len word bitmap"
  assumes "bm_ok b" and "s \<le> e" and "e \<le> bm_size b"
  shows "updated (SetRange b s e v) b (\<lambda>i. if s \<le> i \<and> i < e then v else bits_of b ! i)"
proof (cases "s = e")
  case True
  then show ?thesis
    using assms(1) by (intro updatedI [where ws = "bm_map b"]) (auto simp: SetRange_def)
next
  case False
  have "s div LENGTH('w) \<le> e div LENGTH('w)" using assms(2) by (rule div_le_mono)
  then consider "e div LENGTH('w) = s div LENGTH('w)" | "s div LENGTH('w) < e div LENGTH('w)" by linarith
  then show ?thesis
    using False assms SetRange_one_word [OF assms(1)] SetRange_words [OF assms(1)] by cases simp_all
qed

lemma array_size_cong:
  "bm_size b = bm_size c \<Longrightarrow> array_size (b :: 'w::len word bitmap) = array_size (c :: 'w word bitmap)"
  by (simp add: array_size_def RequiredArraySize_def)

lemma testb_transformed:
  fixes ws :: "'w::len word list"
  assumes "i div LENGTH('w) < length ws"
  shows "testb (transformed n f ws vs) i = bit (if i div LENGTH('w) < n
    then f (ws ! (i div LENGTH('w))) (vs ! (i div LENGTH('w))) else ws ! (i div LENGTH('w))) (i mod LENGTH('w))"
  using assms by (simp add: testb_def)

lemma bm_Complement_spec:
  assumes "bm_ok b"
  shows "updated (bm_Complement b) b (\<lambda>i. \<not> bits_of b ! i)"
proof (rule updatedI [OF assms])
  let ?ws = "transformed (array_size b) (\<lambda>w _. NOT w) (bm_map b) (bm_map b)"
  show "bm_Complement b = Inr (b\<lparr>bm_map := ?ws\<rparr>)"
    using assms by (simp add: bm_Complement_def bm_ok_def)
  show "testb ?ws i = (\<not> bits_of b ! i)" if "i < bm_size b" for i
    using that bm_ok_access [OF assms that] index_in_array [OF that]
    by (simp add: testb_transformed bit_not_iff testb_def)
qed simp

lemma same_size_transform:
  fixes b c :: "'w::len word bitmap"
  assumes "bm_ok b" and "bm_ok c" and "bm_size b = bm_size c"
    and "\<And>w v j. j < LENGTH('w) \<Longrightarrow> bit (f w v) j = g (bit w j) (bit v j)"
  shows "updated (andThen (transform (array_size b) f (bm_map b) (bm_map c)) (\<lambda>ws. Inr (b\<lparr>bm_map := ws\<rparr>)))
    b (\<lambda>i. g (bits_of b ! i) (bits_of c ! i))"
proof (rule updatedI [OF assms(1)])
  let ?ws = "transformed (array_size b) f (bm_map b) (bm_map c)"
  show "andThen (transform (array_size b) f (bm_map b) (bm_map c)) (\<lambda>ws. Inr (b\<lparr>bm_map := ws\<rparr>)) =
      Inr (b\<lparr>bm_map := ?ws\<rparr>)"
    using assms(1,2) array_size_cong [OF assms(3)] by (simp add: bm_ok_def)
  show "testb ?ws i = g (bits_of b ! i) (bits_of c ! i)" if "i < bm_size b" for i
    using that assms(3,4) bm_ok_access [OF assms(1) that] index_in_array [OF that]
    by (simp add: testb_transformed testb_def)
qed simp

lemma bm_Difference_spec:
  assumes "bm_ok b" and "bm_ok c" and "bm_size b = bm_size c"
  shows "updated (bm_Difference b c) b (\<lambda>i. bits_of b ! i \<and> \<not> bits_of c ! i)"
  using same_size_transform [OF assms, of "\<lambda>x y. x AND NOT y" "\<lambda>p q. p \<and> \<not> q"] assms(3)
  by (simp add: bm_Difference_def bit_simps)

lemma ExclusiveOr_spec:
  assumes "bm_ok b" and "bm_ok c" and "bm_size b = bm_size c"
  shows "updated (ExclusiveOr b c) b (\<lambda>i. bits_of b ! i \<noteq> bits_of c ! i)"
  using same_size_transform [OF assms, of "\<lambda>x y. x XOR y" "\<lambda>p q. p \<noteq> q"] assms(3)
  by (simp add: ExclusiveOr_def bit_simps)

text \<open>In the last common word of two bitmaps the mask of the shorter one tells which bits it has.\<close>

lemma bit_high_mask_index:
  fixes c :: "'w::len word bitmap"
  assumes "bm_ok c" and "i div LENGTH('w) = array_size c - 1"
  shows "bit (HighOrderMapElementMask c) (i mod LENGTH('w)) \<longleftrightarrow> i < bm_size c"
proof -
  have "(array_size c - 1) * LENGTH('w) + i mod LENGTH('w) = i"
    unfolding assms(2) [symmetric] by simp
  then show ?thesis
    by (simp add: bit_high_mask [OF assms(1)])
qed

lemma bm_Union_spec:
  fixes b c :: "'w::len word bitmap"
  assumes "bm_ok b" and "bm_ok c"
  shows "updated (bm_Union b c) b (\<lambda>i. bits_of b ! i \<or> i < bm_size c \<and> bits_of c ! i)"
proof -
  let ?L = "LENGTH('w)"
  define l where "l = min (array_size b) (array_size c) - 1"
  define m where "m = (if array_size c = min (array_size b) (array_size c)
      then bm_map c ! l AND HighOrderMapElementMask c else bm_map c ! l)"
  let ?ws = "(transformed l (\<lambda>x y. x OR y) (bm_map b) (bm_map c))[l := bm_map b ! l OR m]"
  have l: "l < length (bm_map b)" "l < length (bm_map c)" "l < array_size b" "l < array_size c"
    using assms array_size_pos [of b] array_size_pos [of c] by (auto simp: l_def bm_ok_def)
  have min0: "min (array_size b) (array_size c) \<noteq> 0"
    using array_size_pos [of b] array_size_pos [of c] by simp
  show ?thesis
  proof (rule updatedI [OF assms(1)])
    show "bm_Union b c = Inr (b\<lparr>bm_map := ?ws\<rparr>)"
      using min0 l unfolding bm_Union_def Let_def l_def [symmetric] m_def by simp
    fix i assume i: "i < bm_size b"
    consider (below) "i div ?L < l" | (at) "i div ?L = l" | (above) "l < i div ?L" by linarith
    then show "testb ?ws i = (bits_of b ! i \<or> i < bm_size c \<and> bits_of c ! i)"
    proof cases
      case below
      then have "i < bm_size c"
        using index_before_last [of i c] l by simp
      then show ?thesis
        using below i l by (simp add: testb_def bit_or_iff)
    next
      case at
      have "bit m (i mod ?L) \<longleftrightarrow> i < bm_size c \<and> testb (bm_map c) i"
      proof (cases "array_size c = min (array_size b) (array_size c)")
        case True
        then have "i div ?L = array_size c - 1" using at by (simp add: l_def)
        then show ?thesis
          using bit_high_mask_index [OF assms(2)] True at by (auto simp: m_def bit_and_iff testb_def)
      next
        case False
        then have "i div ?L < array_size c - 1" using at l_def l by auto
        then have "i < bm_size c" by (rule index_before_last)
        moreover have "m = bm_map c ! l"
          unfolding m_def by (rule if_not_P [OF False])
        ultimately show ?thesis
          using at by (simp add: testb_def)
      qed
      then show ?thesis
        using at i l by (auto simp add: testb_update bit_or_iff) (auto simp: testb_def)
    next
      case above
      then have "\<not> i < bm_size c"
        using index_in_array [of i c] index_in_array [OF i] by (auto simp: l_def)
      then show ?thesis
        using above i bm_ok_access [OF assms(1) i] by (simp add: testb_def)
    qed
  qed simp
qed

lemma bm_Intersection_spec:
  fixes b c :: "'w::len word bitmap"
  assumes "bm_ok b" and "bm_ok c"
  shows "updated (bm_Intersection b c) b (\<lambda>i. bits_of b ! i \<and> i < bm_size c \<and> bits_of c ! i)"
proof -
  let ?L = "LENGTH('w)" and ?n = "min (array_size b) (array_size c)"
  let ?w1 = "transformed ?n (\<lambda>x y. x AND y) (bm_map b) (bm_map c)"
  let ?w2 = "?w1[array_size c - 1 := ?w1 ! (array_size c - 1) AND HighOrderMapElementMask c]"
  let ?w3 = "filled ?w2 (array_size c) (array_size b) 0"
  have n: "?n \<le> length (bm_map b)" "?n \<le> length (bm_map c)" "array_size b \<le> length (bm_map b)"
    using assms by (auto simp: bm_ok_def)
  have pos: "0 < array_size c" by (rule array_size_pos)
  have w1: "testb ?w1 i = (testb (bm_map b) i \<and> testb (bm_map c) i)" if "i div ?L < ?n" "i < bm_size b" for i
    using that bm_ok_access [OF assms(1) that(2)] by (simp add: testb_def bit_and_iff)
  show ?thesis
  proof (cases "array_size c = ?n")
    case True
    then have c: "array_size c - 1 < length (bm_map b)" "array_size c \<le> array_size b"
      using pos n by auto
    show ?thesis
    proof (rule updatedI [OF assms(1)])
      show "bm_Intersection b c = Inr (b\<lparr>bm_map := ?w3\<rparr>)"
        using n c True pos by (simp add: bm_Intersection_def Let_def)
      show "testb ?w3 i = (bits_of b ! i \<and> i < bm_size c \<and> bits_of c ! i)" if "i < bm_size b" for i
      proof -
        have d: "i div ?L < array_size b" "i div ?L < length (bm_map b)"
          using index_in_array [OF that] bm_ok_access [OF assms(1) that] .
        then have w3: "testb ?w3 i = (i div ?L < array_size c \<and> testb ?w2 i)"
          using testb_filled [of i ?w2 "array_size c" "array_size b" 0] by auto
        consider (below) "i div ?L < array_size c - 1" | (at) "i div ?L = array_size c - 1"
          | (above) "array_size c \<le> i div ?L" by linarith
        then show ?thesis
        proof cases
          case below
          then have "i < bm_size c" by (rule index_before_last)
          moreover have "testb ?w2 i = testb ?w1 i"
            using below c(1) by (simp add: testb_update)
          ultimately show ?thesis
            unfolding w3 using w1 [OF _ that] below True that by auto
        next
          case at
          then have "testb ?w2 i = (testb ?w1 i \<and> i < bm_size c)"
            using c(1) bit_high_mask_index [OF assms(2) at]
            by (simp only: testb_update length_transformed if_True bit_and_iff) (simp only: testb_def at if_True)
          then show ?thesis
            unfolding w3 using w1 [OF _ that] at True that pos by auto
        next
          case above
          then show ?thesis
            unfolding w3 using index_in_array [of i c] by auto
        qed
      qed
    qed simp
  next
    case False
    show ?thesis
    proof (rule updatedI [OF assms(1)])
      show "bm_Intersection b c = Inr (b\<lparr>bm_map := ?w1\<rparr>)"
        using n False by (simp add: bm_Intersection_def Let_def)
      show "testb ?w1 i = (bits_of b ! i \<and> i < bm_size c \<and> bits_of c ! i)" if "i < bm_size b" for i
      proof -
        have "i div ?L < array_size b" by (rule index_in_array [OF that])
        moreover from this have "i < bm_size c"
          using False by (intro index_before_last) auto
        ultimately show ?thesis
          using w1 [of i] that False by simp
      qed
    qed simp
  qed
qed

end
