(* ===== verification/Bitmap_Queries.thy ===== *)
theory Bitmap_Queries
  imports Bitmap_Proofs
begin

text \<open>The queries of bitmaps: tests over all bits, counting, comparing.\<close>

section \<open>Words and bits\<close>

lemma testb_at: "j < LENGTH('w) \<Longrightarrow> testb (ws :: 'w::len word list) (k * LENGTH('w) + j) = bit (ws ! k) j"
  by (simp add: testb_def)

lemma word_eq_iff_bits: "w = v \<longleftrightarrow> (\<forall>j < LENGTH('w). bit w j = bit (v :: 'w::len word) j)"
  by (auto intro: bit_word_eqI)

lemma array_size_covers: "bm_size b \<le> array_size b * LENGTH('w)" for b :: "'w::len word bitmap"
proof (cases "bm_size b")
  case (Suc m)
  have "m < (m div LENGTH('w) + 1) * LENGTH('w)" by (simp add: dividend_less_div_times)
  then show ?thesis using Suc by (simp add: array_size_def RequiredArraySize_def)
qed simp

text \<open>All bits of a bitmap: those of the full words and the valid ones of the last.\<close>

lemma all_bits_iff:
  fixes b :: "'w::len word bitmap"
  shows "(\<forall>i < bm_size b. Q i) \<longleftrightarrow>
    (\<forall>k < array_size b - 1. \<forall>j < LENGTH('w). Q (k * LENGTH('w) + j)) \<and>
    (\<forall>j < LENGTH('w). (array_size b - 1) * LENGTH('w) + j < bm_size b \<longrightarrow> Q ((array_size b - 1) * LENGTH('w) + j))"
    (is "?all \<longleftrightarrow> ?words \<and> ?last")
proof (intro iffI conjI)
  assume all: ?all
  show ?last using all by blast
  show ?words
  proof (intro allI impI)
    fix k j assume "k < array_size b - 1" "j < LENGTH('w)"
    then show "Q (k * LENGTH('w) + j)"
      using all index_before_last [of "k * LENGTH('w) + j" b] by simp
  qed
next
  assume parts: "?words \<and> ?last"
  show ?all
  proof (intro allI impI)
    fix i assume i: "i < bm_size b"
    let ?k = "i div LENGTH('w)" and ?j = "i mod LENGTH('w)"
    have "?k < array_size b" by (rule index_in_array [OF i])
    then consider "?k < array_size b - 1" | "?k = array_size b - 1" by linarith
    then have "Q (?k * LENGTH('w) + ?j)"
    proof cases
      case 2
      have "?k * LENGTH('w) + ?j < bm_size b" using i by simp
      then show ?thesis using parts 2 mod_less_divisor [OF len_gt_0] by metis
    next
      case 1
      have "?j < LENGTH('w)" by simp
      then show ?thesis using parts 1 by blast
    qed
    then show "Q i" by simp
  qed
qed

section \<open>Loops over words\<close>

lemma all_words_spec:
  "j \<le> length ws \<Longrightarrow> all_words q ws i j = Inr (\<forall>k. i \<le> k \<and> k < j \<longrightarrow> q (ws ! k))"
proof (induction q ws i j rule: all_words.induct)
  case (1 q ws i j)
  have "(\<forall>k. i \<le> k \<and> k < j \<longrightarrow> q (ws ! k)) \<longleftrightarrow> q (ws ! i) \<and> (\<forall>k. i + 1 \<le> k \<and> k < j \<longrightarrow> q (ws ! k))"
    if "i < j"
    using that by (metis Suc_eq_plus1 Suc_leI le_eq_less_or_eq le_refl less_eq_Suc_le)
  then show ?case
    using 1 by (cases "i < j") (auto simp: all_words.simps [of q ws i j])
qed

lemma any_pair_spec:
  "j \<le> length ws \<Longrightarrow> j \<le> length vs \<Longrightarrow>
    any_pair q ws vs i j = Inr (\<exists>k. i \<le> k \<and> k < j \<and> q (ws ! k) (vs ! k))"
proof (induction q ws vs i j rule: any_pair.induct)
  case (1 q ws vs i j)
  have "(\<exists>k. i \<le> k \<and> k < j \<and> q (ws ! k) (vs ! k)) \<longleftrightarrow>
      q (ws ! i) (vs ! i) \<or> (\<exists>k. i + 1 \<le> k \<and> k < j \<and> q (ws ! k) (vs ! k))" if "i < j"
    using that by (metis Suc_eq_plus1 Suc_leI le_eq_less_or_eq le_refl less_eq_Suc_le)
  then show ?case
    using 1 by (cases "i < j") (auto simp: any_pair.simps [of q ws vs i j])
qed

section \<open>Tests\<close>

lemma array_access:
  assumes "bm_ok b"
  shows "array_size b - 1 < length (bm_map b)" and "array_size b - 1 \<le> length (bm_map b)"
    and "k < array_size b - 1 \<Longrightarrow> k < length (bm_map b)"
  using assms array_size_pos [of b] by (auto simp: bm_ok_def)

lemma IsAllZeroes_spec:
  fixes b :: "'w::len word bitmap"
  assumes "bm_ok b"
  shows "IsAllZeroes b = Inr (\<forall>i < bm_size b. \<not> bits_of b ! i)"
proof -
  let ?n = "array_size b - 1" and ?L = "LENGTH('w)"
  note acc = array_access [OF assms]
  have "bm_map b ! k = 0 \<longleftrightarrow> (\<forall>j < ?L. \<not> testb (bm_map b) (k * ?L + j))" for k
    by (simp add: word_eq_iff_bits testb_at)
  moreover have "bm_map b ! ?n AND HighOrderMapElementMask b = 0 \<longleftrightarrow>
      (\<forall>j < ?L. ?n * ?L + j < bm_size b \<longrightarrow> \<not> testb (bm_map b) (?n * ?L + j))"
    by (auto simp: word_eq_iff_bits testb_at bit_and_iff bit_high_mask [OF assms])
  moreover have "(\<forall>i < bm_size b. \<not> bits_of b ! i) \<longleftrightarrow> (\<forall>i < bm_size b. \<not> testb (bm_map b) i)"
    by simp
  ultimately show ?thesis
    unfolding all_bits_iff [of b "\<lambda>i. \<not> testb (bm_map b) i"]
    using acc(1,2) by (simp add: IsAllZeroes_def all_words_spec)
qed

lemma IsAllOnes_spec:
  fixes b :: "'w::len word bitmap"
  assumes "bm_ok b"
  shows "IsAllOnes b = Inr (\<forall>i < bm_size b. bits_of b ! i)"
proof -
  let ?n = "array_size b - 1" and ?L = "LENGTH('w)"
  note acc = array_access [OF assms]
  have "bm_map b ! k = kAllOnesWord \<longleftrightarrow> (\<forall>j < ?L. testb (bm_map b) (k * ?L + j))" for k
    by (simp add: word_eq_iff_bits testb_at)
  moreover have "NOT (bm_map b ! ?n) AND HighOrderMapElementMask b = 0 \<longleftrightarrow>
      (\<forall>j < ?L. ?n * ?L + j < bm_size b \<longrightarrow> testb (bm_map b) (?n * ?L + j))"
    by (auto simp: word_eq_iff_bits testb_at bit_and_iff bit_not_iff bit_high_mask [OF assms])
  moreover have "(\<forall>i < bm_size b. bits_of b ! i) \<longleftrightarrow> (\<forall>i < bm_size b. testb (bm_map b) i)"
    by simp
  ultimately show ?thesis
    unfolding all_bits_iff [of b "testb (bm_map b)"]
    using acc(1,2) by (simp add: IsAllOnes_def all_words_spec)
qed

text \<open>Two bitmaps of the same size.\<close>

lemma IsEqual_spec:
  fixes b c :: "'w::len word bitmap"
  assumes "bm_ok b" and "bm_ok c"
  shows "IsEqual b c = Inr (bits_of b = bits_of c)"
proof (cases "bm_size b = bm_size c")
  case False
  then have "bits_of b \<noteq> bits_of c"
    using length_bits_of by metis
  then show ?thesis
    using False by (simp add: IsEqual_def)
next
  case True
  let ?n = "array_size b - 1" and ?L = "LENGTH('w)"
  have n: "array_size c - 1 = ?n" using array_size_cong [OF True] by simp
  note acc = array_access [OF assms(1)] array_access [OF assms(2), unfolded n]
  have "bm_map b ! k = bm_map c ! k \<longleftrightarrow> (\<forall>j < ?L. testb (bm_map b) (k * ?L + j) = testb (bm_map c) (k * ?L + j))" for k
    by (simp add: word_eq_iff_bits testb_at)
  moreover have "HighOrderMapElementMask b AND bm_map c ! ?n = HighOrderMapElementMask b AND bm_map b ! ?n \<longleftrightarrow>
      (\<forall>j < ?L. ?n * ?L + j < bm_size b \<longrightarrow> testb (bm_map b) (?n * ?L + j) = testb (bm_map c) (?n * ?L + j))"
    unfolding word_eq_iff_bits [of "HighOrderMapElementMask b AND _"]
    by (auto simp: testb_at bit_and_iff bit_high_mask [OF assms(1)])
  moreover have "bits_of b = bits_of c \<longleftrightarrow> (\<forall>i < bm_size b. testb (bm_map b) i = testb (bm_map c) i)"
    using True by (auto simp: list_eq_iff_nth_eq)
  ultimately show ?thesis
    unfolding all_bits_iff [of b "\<lambda>i. testb (bm_map b) i = testb (bm_map c) i"]
    using acc True by (simp add: IsEqual_def any_pair_spec)
qed

lemma IsSubsetOf_spec:
  fixes b c :: "'w::len word bitmap"
  assumes "bm_ok b" and "bm_ok c"
  shows "IsSubsetOf b c = (if bm_size b = bm_size c
    then Inr (\<forall>i < bm_size b. bits_of b ! i \<longrightarrow> bits_of c ! i) else Inl CheckFailed)"
proof (cases "bm_size b = bm_size c")
  case False
  then show ?thesis by (simp add: IsSubsetOf_def)
next
  case True
  let ?n = "array_size b - 1" and ?L = "LENGTH('w)" and ?Q = "\<lambda>i. testb (bm_map b) i \<longrightarrow> testb (bm_map c) i"
  have n: "array_size c - 1 = ?n" using array_size_cong [OF True] by simp
  note acc = array_access [OF assms(1)] array_access [OF assms(2), unfolded n]
  have "bm_map b ! k AND NOT (bm_map c ! k) = 0 \<longleftrightarrow> (\<forall>j < ?L. ?Q (k * ?L + j))" for k
    by (auto simp: word_eq_iff_bits testb_at bit_and_iff bit_not_iff)
  moreover have "bm_map b ! ?n AND NOT (bm_map c ! ?n) AND HighOrderMapElementMask b = 0 \<longleftrightarrow>
      (\<forall>j < ?L. ?n * ?L + j < bm_size b \<longrightarrow> ?Q (?n * ?L + j))"
    by (auto simp: word_eq_iff_bits testb_at bit_and_iff bit_not_iff bit_high_mask [OF assms(1)])
  moreover have "(\<forall>i < bm_size b. bits_of b ! i \<longrightarrow> bits_of c ! i) \<longleftrightarrow> (\<forall>i < bm_size b. ?Q i)"
    using True by simp
  ultimately show ?thesis
    unfolding all_bits_iff [of b ?Q]
    using acc True by (simp add: IsSubsetOf_def any_pair_spec)
qed

end
