(* ===== verification/Bitmap_Counts.thy ===== *)
theory Bitmap_Counts
  imports Bitmap_Queries
begin

text \<open>Counting the bits of bitmaps, word by word.\<close>

section \<open>Counting\<close>

definition count_bits :: "(nat \<Rightarrow> bool) \<Rightarrow> nat \<Rightarrow> nat \<Rightarrow> nat" where
  "count_bits Q s e = length (filter Q [s..<e])"

lemma count_bits_empty [simp]: "e \<le> s \<Longrightarrow> count_bits Q s e = 0"
  by (simp add: count_bits_def)

lemma count_bits_split: "s \<le> m \<Longrightarrow> m \<le> e \<Longrightarrow> count_bits Q s e = count_bits Q s m + count_bits Q m e"
  using upt_add_eq_append [of s m "e - m"] by (simp add: count_bits_def)

lemma count_bits_none: "(\<And>i. s \<le> i \<Longrightarrow> i < e \<Longrightarrow> \<not> Q i) \<Longrightarrow> count_bits Q s e = 0"
  by (auto simp: count_bits_def filter_empty_conv)

lemma count_bits_cong: "(\<And>i. s \<le> i \<Longrightarrow> i < e \<Longrightarrow> Q i = R i) \<Longrightarrow> count_bits Q s e = count_bits R s e"
  unfolding count_bits_def by (intro arg_cong [where f = length] filter_cong) auto

lemma count_bits_shift: "count_bits Q s (s + n) = count_bits (\<lambda>j. Q (s + j)) 0 n"
proof -
  have "[s..<s + n] = map (\<lambda>j. s + j) [0..<n]"
    by (rule nth_equalityI) simp_all
  then show ?thesis by (simp add: count_bits_def filter_map comp_def)
qed

text \<open>A range within larger bounds.\<close>

lemma count_bits_range:
  assumes "a \<le> s" and "s \<le> e" and "e \<le> z"
  shows "count_bits (\<lambda>i. s \<le> i \<and> i < e \<and> Q i) a z = count_bits Q s e"
proof -
  let ?R = "\<lambda>i. s \<le> i \<and> i < e \<and> Q i"
  have "count_bits ?R a z = count_bits ?R a s + (count_bits ?R s e + count_bits ?R e z)"
    using assms count_bits_split [of a s z ?R] count_bits_split [of s e z ?R] by simp
  moreover have "count_bits ?R a s = 0" "count_bits ?R e z = 0"
    by (rule count_bits_none; simp)+
  moreover have "count_bits ?R s e = count_bits Q s e"
    by (rule count_bits_cong) simp
  ultimately show ?thesis by simp
qed

text \<open>A word counts as its block of bits.\<close>

lemma popcount_block:
  fixes w :: "'w::len word"
  assumes "\<And>j. j < LENGTH('w) \<Longrightarrow> bit w j = Q (k * LENGTH('w) + j)"
  shows "popcount w = count_bits Q (k * LENGTH('w)) ((k + 1) * LENGTH('w))"
proof -
  have "popcount w = count_bits (\<lambda>j. Q (k * LENGTH('w) + j)) 0 (LENGTH('w))"
    using assms count_bits_cong [of 0 "LENGTH('w)" "bit w"] by (simp add: popcount_def count_bits_def)
  then show ?thesis
    using count_bits_shift [of Q "k * LENGTH('w)" "LENGTH('w)"] by (simp add: add.commute)
qed

lemma count_bits_block:
  assumes "i < j"
  shows "count_bits Q (i * n) (j * n) = count_bits Q (i * n) ((i + 1) * n) + count_bits Q ((i + 1) * n) (j * n)"
proof (rule count_bits_split)
  show "(i + 1) * n \<le> j * n" using assms by (intro mult_le_mono1) simp
qed simp

lemma count_words_spec:
  fixes ws :: "'w::len word list"
  assumes "i \<le> j" and "j \<le> length ws"
    and "\<And>k. i \<le> k \<Longrightarrow> k < j \<Longrightarrow> f (ws ! k) = count_bits Q (k * LENGTH('w)) ((k + 1) * LENGTH('w))"
  shows "count_words f ws i j = Inr (count_bits Q (i * LENGTH('w)) (j * LENGTH('w)))"
  using assms
proof (induction f ws i j rule: count_words.induct)
  case (1 f ws i j)
  show ?case
  proof (cases "i < j")
    case True
    have "count_words f ws (i + 1) j = Inr (count_bits Q ((i + 1) * LENGTH('w)) (j * LENGTH('w)))"
      using 1 True by simp
    moreover have "count_bits Q (i * LENGTH('w)) (j * LENGTH('w)) =
        f (ws ! i) + count_bits Q ((i + 1) * LENGTH('w)) (j * LENGTH('w))"
      using 1(4) [of i] True count_bits_block [of i j Q "LENGTH('w)"] by simp
    ultimately show ?thesis
      using True 1(3) by (simp add: count_words.simps [of f ws i j])
  qed (use 1(2) in \<open>simp add: count_words.simps [of f ws j j]\<close>)
qed

lemma sum_pairs_spec:
  fixes ws vs :: "'w::len word list"
  assumes "i \<le> j" and "j \<le> length ws" and "j \<le> length vs"
    and "\<And>k. i \<le> k \<Longrightarrow> k < j \<Longrightarrow> f (ws ! k) (vs ! k) = count_bits Q (k * LENGTH('w)) ((k + 1) * LENGTH('w))"
  shows "sum_pairs f ws vs i j = Inr (count_bits Q (i * LENGTH('w)) (j * LENGTH('w)))"
  using assms
proof (induction f ws vs i j rule: sum_pairs.induct)
  case (1 f ws vs i j)
  show ?case
  proof (cases "i < j")
    case True
    have "sum_pairs f ws vs (i + 1) j = Inr (count_bits Q ((i + 1) * LENGTH('w)) (j * LENGTH('w)))"
      using 1 True by simp
    moreover have "count_bits Q (i * LENGTH('w)) (j * LENGTH('w)) =
        f (ws ! i) (vs ! i) + count_bits Q ((i + 1) * LENGTH('w)) (j * LENGTH('w))"
      using 1(5) [of i] True count_bits_block [of i j Q "LENGTH('w)"] by simp
    ultimately show ?thesis
      using True 1(3,4) by (simp add: sum_pairs.simps [of f ws vs i j])
  qed (use 1(2) in \<open>simp add: sum_pairs.simps [of f ws vs j j]\<close>)
qed

text \<open>Where the blocks lie, and the masks of the first and the last word of a range.\<close>

lemma block_after: "0 < n \<Longrightarrow> s div n < k \<Longrightarrow> s \<le> k * n + (j::nat)"
  by (simp add: div_less_iff_less_mult)

lemma block_before:
  assumes "k < (e - 1) div n" and "j < (n::nat)"
  shows "k * n + j < e"
proof -
  have "(k + 1) * n \<le> (e - 1) div n * n" using assms(1) by (intro mult_le_mono1) simp
  also have "\<dots> \<le> e - 1" by simp
  finally have "k * n + n \<le> e - 1" by (simp add: add.commute)
  then show ?thesis using assms(2) by linarith
qed

lemma first_mask:
  fixes w :: "'w::len word"
  assumes "j < LENGTH('w)"
  shows "bit (w AND push_bit (s mod LENGTH('w)) kAllOnesWord) j \<longleftrightarrow> s \<le> s div LENGTH('w) * LENGTH('w) + j \<and> bit w j"
proof -
  have "s \<le> s div LENGTH('w) * LENGTH('w) + j \<longleftrightarrow> s mod LENGTH('w) \<le> j"
    by (rule iffI) (use div_mult_mod_eq [of s "LENGTH('w)"] in linarith)+
  then show ?thesis using assms by (simp add: bit_and_iff bit_push_ones conj_commute)
qed

lemma last_mask:
  assumes "0 < e" and "j < LENGTH('w)"
  shows "bit (drop_bit (((e - 1) div LENGTH('w) + 1) * LENGTH('w) - e) kAllOnesWord :: 'w::len word) j \<longleftrightarrow>
    (e - 1) div LENGTH('w) * LENGTH('w) + j < e"
proof -
  let ?q = "(e - 1) div LENGTH('w)" and ?r = "(e - 1) mod LENGTH('w)"
  have r: "?r < LENGTH('w)" by simp
  have e: "e = ?q * LENGTH('w) + ?r + 1" using assms(1) by simp
  have "(?q + 1) * LENGTH('w) - e + j < LENGTH('w) \<longleftrightarrow> ?q * LENGTH('w) + j < e"
    unfolding add_mult_distrib by (rule iffI) (use e r in linarith)+
  then show ?thesis by (simp add: bit_drop_bit_eq)
qed

lemma GetOnesCountInRange_spec:
  fixes b :: "'w::len word bitmap"
  assumes "bm_ok b"
  shows "GetOnesCountInRange b s e = (if e \<le> bm_size b \<and> s \<le> e
    then Inr (count_bits (\<lambda>i. bits_of b ! i) s e) else Inl CheckFailed)"
proof (cases "e \<le> bm_size b \<and> s < e")
  case False
  then show ?thesis by (auto simp: GetOnesCountInRange_def require_def)
next
  case True
  let ?L = "LENGTH('w)" and ?ws = "bm_map b"
  let ?sw = "s div ?L" and ?ew = "(e - 1) div ?L"
  let ?Q = "\<lambda>i. s \<le> i \<and> i < e \<and> testb ?ws i"
  let ?c = "?ws ! ?sw AND push_bit (s mod ?L) kAllOnesWord"
  let ?m = "drop_bit ((?ew + 1) * ?L - e) kAllOnesWord :: 'w word"
  have w: "width_ok ?ws" using assms by (simp add: bm_ok_def)
  have ew: "?ew < length ?ws" using True by (intro bm_ok_access [OF assms]) linarith
  have sw: "?sw \<le> ?ew" using True by (intro div_le_mono) linarith
  have e: "0 < e" using True by simp
  have "e \<le> (?ew + 1) * ?L"
    using dividend_less_div_times [of ?L "e - 1"] by simp
  then have "count_bits ?Q (?sw * ?L) ((?ew + 1) * ?L) = count_bits (testb ?ws) s e"
    using True by (intro count_bits_range) simp_all
  also have "\<dots> = count_bits (\<lambda>i. bits_of b ! i) s e"
    using True by (intro count_bits_cong) simp
  finally have total: "count_bits ?Q (?sw * ?L) ((?ew + 1) * ?L) = count_bits (\<lambda>i. bits_of b ! i) s e" .
  show ?thesis
  proof (cases "?ew = ?sw")
    case same: True
    have "popcount (?c AND ?m) = count_bits ?Q (?sw * ?L) ((?sw + 1) * ?L)"
      unfolding same using last_mask [OF e, where 'w = 'w, unfolded same]
      by (intro popcount_block) (auto simp: bit_and_iff [of ?c] first_mask testb_at)
    then show ?thesis
      using True ew same total by (simp add: GetOnesCountInRange_def width_arith [OF w] Let_def)
  next
    case False
    then have less: "?sw < ?ew" using sw by simp
    have "popcount ?c = count_bits ?Q (?sw * ?L) ((?sw + 1) * ?L)"
      using block_before [OF less] by (intro popcount_block) (auto simp: first_mask testb_at)
    moreover have "count_words popcount ?ws (?sw + 1) ?ew = Inr (count_bits ?Q ((?sw + 1) * ?L) (?ew * ?L))"
      using less ew block_before block_after [of ?L s]
      by (intro count_words_spec popcount_block) (auto simp: testb_at)
    moreover have "popcount (?ws ! ?ew AND ?m) = count_bits ?Q (?ew * ?L) ((?ew + 1) * ?L)"
      using block_after [OF _ less] last_mask [OF e, where 'w = 'w]
      by (intro popcount_block) (auto simp: bit_and_iff testb_at)
    moreover have "count_bits ?Q (?sw * ?L) ((?ew + 1) * ?L) = count_bits ?Q (?sw * ?L) ((?sw + 1) * ?L)
        + count_bits ?Q ((?sw + 1) * ?L) (?ew * ?L) + count_bits ?Q (?ew * ?L) ((?ew + 1) * ?L)"
      using count_bits_block [OF less, of ?Q ?L] count_bits_split [of "?sw * ?L" "?ew * ?L" "(?ew + 1) * ?L" ?Q] sw
      by simp
    ultimately show ?thesis
      unfolding total
      using True ew sw False by (simp add: GetOnesCountInRange_def width_arith [OF w] Let_def)
  qed
qed

lemma HammingDistance_spec:
  fixes b c :: "'w::len word bitmap"
  assumes "bm_ok b" and "bm_ok c"
  shows "HammingDistance b c = (if bm_size b = bm_size c
    then Inr (count_bits (\<lambda>i. bits_of b ! i \<noteq> bits_of c ! i) 0 (bm_size b)) else Inl CheckFailed)"
proof (cases "bm_size b = bm_size c")
  case False
  then show ?thesis by (simp add: HammingDistance_def)
next
  case True
  let ?L = "LENGTH('w)" and ?n = "array_size b - 1"
  let ?Q = "\<lambda>i. 0 \<le> i \<and> i < bm_size b \<and> testb (bm_map b) i \<noteq> testb (bm_map c) i"
  have n: "array_size c - 1 = ?n" using array_size_cong [OF True] by simp
  note acc = array_access [OF assms(1)] array_access [OF assms(2), unfolded n]
  have "sum_pairs (\<lambda>w v. popcount (w XOR v)) (bm_map b) (bm_map c) 0 ?n = Inr (count_bits ?Q (0 * ?L) (?n * ?L))"
  proof (rule sum_pairs_spec)
    fix k assume k: "k < ?n"
    show "popcount (bm_map b ! k XOR bm_map c ! k) = count_bits ?Q (k * ?L) ((k + 1) * ?L)"
      using index_before_last [of "k * ?L + _" b] k
      by (intro popcount_block) (simp add: bit_xor_iff testb_at)
  qed (use acc in simp_all)
  moreover have "popcount ((bm_map b ! ?n XOR bm_map c ! ?n) AND HighOrderMapElementMask b) =
      count_bits ?Q (?n * ?L) ((?n + 1) * ?L)"
    by (intro popcount_block) (auto simp: bit_and_iff bit_xor_iff testb_at bit_high_mask [OF assms(1)])
  moreover have "count_bits ?Q (0 * ?L) (?n * ?L) + count_bits ?Q (?n * ?L) ((?n + 1) * ?L) =
      count_bits (\<lambda>i. bits_of b ! i \<noteq> bits_of c ! i) 0 (bm_size b)"
  proof -
    have "bm_size b \<le> (?n + 1) * ?L"
      using array_size_covers [of b] array_size_pos [of b] by simp
    then have "count_bits ?Q 0 ((?n + 1) * ?L) = count_bits (\<lambda>i. testb (bm_map b) i \<noteq> testb (bm_map c) i) 0 (bm_size b)"
      by (intro count_bits_range) simp_all
    also have "\<dots> = count_bits (\<lambda>i. bits_of b ! i \<noteq> bits_of c ! i) 0 (bm_size b)"
      using True by (intro count_bits_cong) simp
    finally show ?thesis
      using count_bits_split [of 0 "?n * ?L" "(?n + 1) * ?L" ?Q] by simp
  qed
  ultimately show ?thesis
    using acc True array_size_pos [of b] by (simp add: HammingDistance_def Let_def)
qed

end
