(* ===== verification/Bitmap_Order.thy ===== *)
theory Bitmap_Order
  imports Bitmap_Counts
begin

text \<open>The tests on ranges of bits, and the order of bitmaps as numbers.\<close>

section \<open>Tests on ranges\<close>

lemma drop_bit_nonzero:
  fixes w :: "'w::len word"
  shows "drop_bit j w \<noteq> 0 \<longleftrightarrow> (\<exists>i < LENGTH('w). j \<le> i \<and> bit w i)"
proof -
  have "drop_bit j w \<noteq> 0 \<longleftrightarrow> (\<exists>i. bit w (j + i))"
    by (auto simp: bit_eq_iff bit_drop_bit_eq dest: bit_imp_le_length [of w])
      (metis add_lessD1 bit_imp_le_length add.commute)
  also have "\<dots> \<longleftrightarrow> (\<exists>i < LENGTH('w). j \<le> i \<and> bit w i)"
    using bit_imp_le_length by (metis le_add1 le_iff_add)
  finally show ?thesis .
qed

lemma and_nonzero:
  fixes w :: "'w::len word"
  shows "w AND m \<noteq> 0 \<longleftrightarrow> (\<exists>i < LENGTH('w). bit w i \<and> bit m i)"
  by (auto simp: word_eq_iff_bits bit_and_iff)

text \<open>The mask of the bits from \<open>j\<close> to \<open>l\<close>.\<close>

lemma bit_range_mask:
  assumes "j \<le> l" and "l < LENGTH('w)" and "i < LENGTH('w)"
  shows "bit (push_bit j (push_bit (l - j) (push_bit 1 1) - 1) :: 'w::len word) i \<longleftrightarrow> j \<le> i \<and> i \<le> l"
proof -
  have "push_bit (l - j) (push_bit 1 1) - 1 = (mask (l - j + 1) :: 'w word)"
    by (simp add: mask_eq_exp_minus_1 push_bit_eq_mult)
  then show ?thesis
    using assms by (auto simp: bit_push_bit_iff bit_mask_iff)
qed

text \<open>A range by words and offsets.\<close>

lemma range_blocks:
  fixes n :: nat
  assumes "0 < n" and "s < e"
  shows "(\<exists>i. s \<le> i \<and> i < e \<and> Q i) \<longleftrightarrow> (\<exists>k. \<exists>j < n.
    ((s div n < k \<or> s div n = k \<and> s mod n \<le> j) \<and> (k < (e - 1) div n \<or> k = (e - 1) div n \<and> j \<le> (e - 1) mod n))
    \<and> Q (k * n + j))" (is "?lhs \<longleftrightarrow> (\<exists>k. \<exists>j < n. ?in k j \<and> Q (k * n + j))")
proof -
  have in_range: "?in k j \<longleftrightarrow> s \<le> k * n + j \<and> k * n + j < e" if "j < n" for k j
  proof -
    have "s \<le> k * n + j \<longleftrightarrow> s div n < k \<or> s div n = k \<and> s mod n \<le> j"
      using index_less_iff [OF assms(1), of "k * n + j" s] that by (auto simp: not_less [symmetric])
    moreover have "k * n + j < e \<longleftrightarrow> \<not> e - 1 < k * n + j" using assms(2) by linarith
    moreover have "\<dots> \<longleftrightarrow> k < (e - 1) div n \<or> k = (e - 1) div n \<and> j \<le> (e - 1) mod n"
      using index_less_iff [OF assms(1), of "e - 1" "k * n + j"] that by auto
    ultimately show ?thesis by simp
  qed
  show ?thesis
  proof
    assume ?lhs
    then obtain i where i: "s \<le> i" "i < e" "Q i" by blast
    have "i mod n < n" using assms(1) by simp
    then show "\<exists>k. \<exists>j < n. ?in k j \<and> Q (k * n + j)"
      using i in_range [of "i mod n" "i div n"] by (metis div_mult_mod_eq)
  qed (use in_range in blast)
qed

lemma TestRange_spec:
  fixes b :: "'w::len word bitmap"
  assumes "bm_ok b" and "s \<le> e" and "e \<le> bm_size b"
  shows "TestRange b s e = Inr (\<exists>i. s \<le> i \<and> i < e \<and> bits_of b ! i)"
proof (cases "s = e")
  case False
  let ?L = "LENGTH('w)" and ?ws = "bm_map b"
  let ?i = "s div ?L" and ?l = "(e - 1) div ?L"
  have w: "width_ok ?ws" using assms(1) by (simp add: bm_ok_def)
  have less: "s \<le> e - 1" "e - 1 < bm_size b" "e - 1 < e" using False assms(2,3) by linarith+
  have l: "?l < length ?ws" by (rule bm_ok_access [OF assms(1) less(2)])
  have il: "?i \<le> ?l" using less(1) by (rule div_le_mono)
  have "(\<exists>i. s \<le> i \<and> i < e \<and> bits_of b ! i) \<longleftrightarrow> (\<exists>i. s \<le> i \<and> i < e \<and> testb ?ws i)"
    using assms(3) by auto
  also have "\<dots> \<longleftrightarrow> (\<exists>k. \<exists>j < ?L. (?i < k \<or> ?i = k \<and> s mod ?L \<le> j) \<and> (k < ?l \<or> k = ?l \<and> j \<le> (e - 1) mod ?L)
      \<and> bit (?ws ! k) j)"
    using range_blocks [of ?L s e "testb ?ws"] less by (simp add: testb_at cong: conj_cong)
  finally have bits: "(\<exists>i. s \<le> i \<and> i < e \<and> bits_of b ! i) \<longleftrightarrow> \<dots>" .
  show ?thesis
  proof (cases "?i < ?l")
    case True
    have "(\<exists>i. s \<le> i \<and> i < e \<and> bits_of b ! i) \<longleftrightarrow> drop_bit (s mod ?L) (?ws ! ?i) \<noteq> 0
        \<or> (\<exists>k. ?i < k \<and> k < ?l \<and> ?ws ! k \<noteq> 0)
        \<or> ?ws ! ?l AND push_bit 0 (push_bit ((e - 1) mod ?L - 0) (push_bit 1 1) - 1) \<noteq> 0"
      unfolding bits drop_bit_nonzero and_nonzero using True bit_range_mask [of 0 "(e - 1) mod ?L", where 'w = 'w]
      by (auto simp: word_eq_iff_bits)
    moreover have "all_words (\<lambda>w. w = 0) ?ws (?i + 1) ?l = Inr (\<forall>k. ?i < k \<and> k < ?l \<longrightarrow> ?ws ! k = 0)"
      using l by (simp add: all_words_spec Suc_le_eq)
    ultimately show ?thesis
      using False True l il by (simp add: TestRange_def Let_def width_arith [OF w]) blast
  next
    case False
    then have same: "?i = ?l" using il by simp
    have "s mod ?L \<le> (e - 1) mod ?L"
      using less(1) same index_less_iff [of ?L "e - 1" s] by auto
    then have "(\<exists>i. s \<le> i \<and> i < e \<and> bits_of b ! i) \<longleftrightarrow>
        ?ws ! ?l AND push_bit (s mod ?L) (push_bit ((e - 1) mod ?L - s mod ?L) (push_bit 1 1) - 1) \<noteq> 0"
      unfolding bits and_nonzero using same bit_range_mask [of "s mod ?L" "(e - 1) mod ?L", where 'w = 'w] by auto
    then show ?thesis
      using \<open>s \<noteq> e\<close> False l by (simp add: TestRange_def Let_def width_arith [OF w])
  qed
qed (simp add: TestRange_def)

lemma IsIntersectionNonEmpty_spec:
  fixes b c :: "'w::len word bitmap"
  assumes "bm_ok b" and "bm_ok c"
  shows "IsIntersectionNonEmpty b c =
    Inr (\<exists>i. i < bm_size b \<and> i < bm_size c \<and> bits_of b ! i \<and> bits_of c ! i)"
proof -
  let ?L = "LENGTH('w)"
  define n where "n = min (array_size b) (array_size c) - 1"
  define m where "m = (if array_size c > array_size b then HighOrderMapElementMask b
      else if array_size b > array_size c then HighOrderMapElementMask c
      else HighOrderMapElementMask b AND HighOrderMapElementMask c)"
  let ?both = "\<lambda>i. i < bm_size b \<and> i < bm_size c \<and> testb (bm_map b) i \<and> testb (bm_map c) i"
  have n: "n < length (bm_map b)" "n < length (bm_map c)"
    using array_access [OF assms(1)] array_access [OF assms(2)] by (auto simp: n_def)
  have valid: "j < ?L \<Longrightarrow> bit m j \<longleftrightarrow> n * ?L + j < bm_size b \<and> n * ?L + j < bm_size c" for j
    using index_before_last [of "n * ?L + j" b] index_before_last [of "n * ?L + j" c]
      diff_less_mono [of "array_size b" "array_size c" 1] diff_less_mono [of "array_size c" "array_size b" 1]
      array_size_pos [of b] array_size_pos [of c]
    by (auto simp: m_def n_def bit_high_mask assms bit_and_iff)
  have below: "k * ?L + j < bm_size b" "k * ?L + j < bm_size c" if "k < n" "j < ?L" for k j
    using that by (auto intro!: index_before_last simp: n_def)
  have last: "\<exists>j < ?L. bit m j \<and> bit (bm_map b ! n) j \<and> bit (bm_map c ! n) j"
    if "?both i" "\<not> i div ?L < n" for i
  proof (intro exI conjI)
    have "i div ?L < array_size b" "i div ?L < array_size c"
      using that(1) index_in_array [of i] by blast+
    then have k: "i div ?L = n" using that(2) by (auto simp: n_def)
    then show "bit (bm_map b ! n) (i mod ?L)" "bit (bm_map c ! n) (i mod ?L)"
      using that(1) by (simp_all add: testb_def)
    have "n * ?L + i mod ?L = i" using k by (metis div_mult_mod_eq)
    then show "bit m (i mod ?L)" using that(1) valid [of "i mod ?L"] by simp
  qed simp
  have bits: "(\<exists>i. ?both i) \<longleftrightarrow> (\<exists>k. 0 \<le> k \<and> k < n \<and> bm_map b ! k AND bm_map c ! k \<noteq> 0)
      \<or> (bm_map b ! n AND bm_map c ! n) AND m \<noteq> 0"
    unfolding and_nonzero bit_and_iff
  proof
    assume "\<exists>i. ?both i"
    then obtain i where i: "?both i" by blast
    show "(\<exists>k. 0 \<le> k \<and> k < n \<and> (\<exists>i < ?L. bit (bm_map b ! k) i \<and> bit (bm_map c ! k) i))
        \<or> (\<exists>i < ?L. (bit (bm_map b ! n) i \<and> bit (bm_map c ! n) i) \<and> bit m i)"
    proof (cases "i div ?L < n")
      case True
      moreover have "i mod ?L < ?L" by simp
      ultimately show ?thesis using i unfolding testb_def by blast
    qed (use last [OF i] in blast)
  next
    assume "(\<exists>k. 0 \<le> k \<and> k < n \<and> (\<exists>i < ?L. bit (bm_map b ! k) i \<and> bit (bm_map c ! k) i))
        \<or> (\<exists>i < ?L. (bit (bm_map b ! n) i \<and> bit (bm_map c ! n) i) \<and> bit m i)"
    then show "\<exists>i. ?both i"
    proof (elim disjE exE conjE)
      fix k j assume "k < n" "j < ?L" "bit (bm_map b ! k) j" "bit (bm_map c ! k) j"
      then show ?thesis by (intro exI [of _ "k * ?L + j"]) (simp add: below testb_at)
    next
      fix j assume "j < ?L" "bit (bm_map b ! n) j" "bit (bm_map c ! n) j" "bit m j"
      then show ?thesis by (intro exI [of _ "n * ?L + j"]) (simp add: valid testb_at)
    qed
  qed
  have "IsIntersectionNonEmpty b c = Inr ((\<exists>k. 0 \<le> k \<and> k < n \<and> bm_map b ! k AND bm_map c ! k \<noteq> 0)
      \<or> (bm_map b ! n AND bm_map c ! n) AND m \<noteq> 0)"
    unfolding IsIntersectionNonEmpty_def Let_def n_def [symmetric]
    using n by (simp add: any_pair_spec m_def and.assoc) auto
  then show ?thesis unfolding bits [symmetric] by auto
qed

section \<open>Bitmaps as numbers\<close>

text \<open>The number that the documentation of \<open>CompareTo\<close> assigns to a bitmap.\<close>

definition bits_value :: "(nat \<Rightarrow> bool) \<Rightarrow> nat \<Rightarrow> int" where
  "bits_value Q n = (\<Sum>i < n. of_bool (Q i) * 2 ^ i)"

lemma bits_value_simps [simp]:
  "bits_value Q 0 = 0" "bits_value Q (Suc n) = bits_value Q n + of_bool (Q n) * 2 ^ n"
  by (simp_all add: bits_value_def)

lemma bits_value_bounds: "0 \<le> bits_value Q n" "bits_value Q n < 2 ^ n"
proof -
  show "0 \<le> bits_value Q n" by (simp add: bits_value_def sum_nonneg)
  show "bits_value Q n < 2 ^ n" proof (induction n)
    case (Suc n)
    have "of_bool (Q n) * 2 ^ n \<le> (2::int) ^ n" by simp
    moreover have "(2::int) ^ Suc n = 2 ^ n + 2 ^ n" by simp
    ultimately show ?case unfolding bits_value_simps using Suc by linarith
  qed simp
qed

lemma bits_value_cong: "(\<And>i. i < n \<Longrightarrow> Q i = R i) \<Longrightarrow> bits_value Q n = bits_value R n"
  unfolding bits_value_def by (intro sum.cong) auto

lemma bits_value_add: "bits_value Q (m + n) = bits_value Q m + 2 ^ m * bits_value (\<lambda>j. Q (m + j)) n"
  by (induction n) (simp_all add: algebra_simps power_add)

lemma uint_bits_value: "uint (w :: 'w::len word) = bits_value (bit w) (LENGTH('w))"
proof -
  have "uint w = take_bit (LENGTH('w)) (uint w)"
    by (simp add: take_bit_int_eq_self)
  also have "\<dots> = horner_sum of_bool 2 (map (bit (uint w)) [0..<LENGTH('w)])"
    by (simp add: horner_sum_bit_eq_take_bit)
  also have "\<dots> = bits_value (bit w) (LENGTH('w))"
    by (auto simp: bits_value_def horner_sum_eq_sum bit_uint_iff atLeast0LessThan intro!: sum.cong)
  finally show ?thesis .
qed

lemma bits_value_Suc_block:
  fixes w :: "'w::len word"
  assumes "\<And>j. j < LENGTH('w) \<Longrightarrow> bit w j = Q (n * LENGTH('w) + j)"
  shows "bits_value Q (Suc n * LENGTH('w)) = bits_value Q (n * LENGTH('w)) + 2 ^ (n * LENGTH('w)) * uint w"
proof -
  have "uint w = bits_value (\<lambda>j. Q (n * LENGTH('w) + j)) (LENGTH('w))"
    using bits_value_cong [OF assms] by (simp add: uint_bits_value)
  then show ?thesis
    using bits_value_add [of Q "n * LENGTH('w)" "LENGTH('w)"] by (simp add: add.commute)
qed

text \<open>The higher parts decide.\<close>

lemma sgn_high:
  fixes x y p q m :: int
  assumes "0 \<le> x" "x < m" "0 \<le> y" "y < m"
  shows "sgn ((x + m * p) - (y + m * q)) = (if p = q then sgn (x - y) else if p < q then -1 else 1)"
proof -
  have "x + m * p < y + m * q" if "p < q"
  proof -
    have "m * (p + 1) \<le> m * q" using that assms by (intro mult_left_mono) auto
    then show ?thesis using assms by (simp add: algebra_simps)
  qed
  moreover have "y + m * q < x + m * p" if "q < p"
  proof -
    have "m * (q + 1) \<le> m * p" using that assms by (intro mult_left_mono) auto
    then show ?thesis using assms by (simp add: algebra_simps)
  qed
  ultimately show ?thesis
    by (cases p q rule: linorder_cases) (auto simp: sgn_if)
qed

lemma compare_step:
  fixes w v :: "'w::len word"
  assumes "\<And>j. j < LENGTH('w) \<Longrightarrow> bit w j = Q (n * LENGTH('w) + j)"
    and "\<And>j. j < LENGTH('w) \<Longrightarrow> bit v j = R (n * LENGTH('w) + j)"
  shows "sgn (bits_value Q (Suc n * LENGTH('w)) - bits_value R (Suc n * LENGTH('w))) =
    (if w = v then sgn (bits_value Q (n * LENGTH('w)) - bits_value R (n * LENGTH('w)))
     else if w < v then -1 else 1)"
proof -
  have "bits_value Q (Suc n * LENGTH('w)) = bits_value Q (n * LENGTH('w)) + 2 ^ (n * LENGTH('w)) * uint w"
    "bits_value R (Suc n * LENGTH('w)) = bits_value R (n * LENGTH('w)) + 2 ^ (n * LENGTH('w)) * uint v"
    using assms by (intro bits_value_Suc_block; simp)+
  then show ?thesis
    using sgn_high [OF bits_value_bounds [of Q "n * LENGTH('w)"] bits_value_bounds [of R "n * LENGTH('w)"],
        of "uint w" "uint v"]
    by (simp only: word_less_def word_uint_eq_iff)
qed

lemma compare_down_spec:
  fixes ws vs :: "'w::len word list"
  assumes "n \<le> length ws" and "n \<le> length vs"
    and "\<And>i. i < n * LENGTH('w) \<Longrightarrow> testb ws i = Q i" and "\<And>i. i < n * LENGTH('w) \<Longrightarrow> testb vs i = R i"
  shows "compare_down ws vs n = Inr (sgn (bits_value Q (n * LENGTH('w)) - bits_value R (n * LENGTH('w))))"
  using assms
proof (induction n)
  case 0
  then show ?case by simp
next
  case (Suc n)
  have "sgn (bits_value Q (Suc n * LENGTH('w)) - bits_value R (Suc n * LENGTH('w))) =
    (if ws ! n = vs ! n then sgn (bits_value Q (n * LENGTH('w)) - bits_value R (n * LENGTH('w)))
     else if ws ! n < vs ! n then -1 else 1)"
    using Suc.prems(3,4) [of "n * LENGTH('w) + _"] by (intro compare_step) (simp_all add: testb_at)
  then show ?case
    using Suc by simp
qed

lemma bits_value_zero_above:
  assumes "m \<le> n" and "\<And>i. m \<le> i \<Longrightarrow> i < n \<Longrightarrow> \<not> Q i"
  shows "bits_value Q n = bits_value Q m"
  using assms by (induction n rule: nat_induct_at_least) auto

lemma bits_value_ge:
  assumes "i < n" and "Q i"
  shows "2 ^ i \<le> bits_value Q n"
proof -
  have "bits_value Q n = bits_value Q (Suc i) + 2 ^ Suc i * bits_value (\<lambda>j. Q (Suc i + j)) (n - Suc i)"
    using assms(1) bits_value_add [of Q "Suc i" "n - Suc i"] by simp
  moreover have "0 \<le> 2 ^ Suc i * bits_value (\<lambda>j. Q (Suc i + j)) (n - Suc i)"
    using bits_value_bounds(1) by (intro mult_nonneg_nonneg) simp_all
  ultimately show ?thesis
    using assms(2) bits_value_bounds(1) [of Q i] by simp
qed

definition value_of :: "'w::len word bitmap \<Rightarrow> int" where
  "value_of b = bits_value (\<lambda>i. bits_of b ! i) (bm_size b)"

text \<open>First by value, then by size.\<close>

definition bitmap_order :: "'w::len word bitmap \<Rightarrow> 'w word bitmap \<Rightarrow> int" where
  "bitmap_order b c = (if value_of b = value_of c then sgn (int (bm_size b) - int (bm_size c))
     else sgn (value_of b - value_of c))"

lemma common_compare:
  fixes a b :: "'w::len word bitmap"
  assumes "bm_ok a" and "bm_ok b" and "bm_size b \<le> bm_size a"
  defines "n \<equiv> array_size b - 1" and "x \<equiv> bits_value (testb (bm_map a)) (bm_size b)"
    and "y \<equiv> bits_value (testb (bm_map b)) (bm_size b)"
  defines "l \<equiv> bm_map a ! n AND HighOrderMapElementMask b" and "r \<equiv> bm_map b ! n AND HighOrderMapElementMask b"
  shows "\<exists>c. compare_down (bm_map a) (bm_map b) n = Inr c \<and>
    sgn (x - y) = (if l = r then c else if l < r then -1 else 1)"
proof -
  let ?L = "LENGTH('w)"
  let ?Q = "\<lambda>i. i < bm_size b \<and> testb (bm_map a) i" and ?R = "\<lambda>i. i < bm_size b \<and> testb (bm_map b) i"
  have n: "Suc n = array_size b" using array_size_pos [of b] by (simp add: n_def)
  have "array_size b \<le> array_size a"
    using assms(3) by (auto simp: array_size_def RequiredArraySize_def intro: div_le_mono)
  then have len: "n \<le> length (bm_map a)" "n \<le> length (bm_map b)"
    using assms(1,2) by (auto simp: n_def bm_ok_def)
  have in_b: "i < bm_size b" if "i < n * ?L" for i
    using that by (intro index_before_last) (simp add: n_def less_mult_imp_div_less)
  have "compare_down (bm_map a) (bm_map b) n = Inr (sgn (bits_value ?Q (n * ?L) - bits_value ?R (n * ?L)))"
    by (rule compare_down_spec [OF len]) (simp_all add: in_b)
  moreover have "sgn (bits_value ?Q (Suc n * ?L) - bits_value ?R (Suc n * ?L)) =
      (if l = r then sgn (bits_value ?Q (n * ?L) - bits_value ?R (n * ?L)) else if l < r then -1 else 1)"
    by (rule compare_step) (auto simp: l_def r_def bit_and_iff bit_high_mask [OF assms(2)] testb_at n_def)
  moreover have "bits_value ?Q (Suc n * ?L) = x" "bits_value ?R (Suc n * ?L) = y"
    using bits_value_zero_above [of "bm_size b" "Suc n * ?L"] array_size_covers [of b] unfolding n x_def y_def
    by (auto intro: bits_value_cong)
  ultimately show ?thesis by simp
qed

lemma CompareToHelper_spec:
  fixes a b :: "'w::len word bitmap"
  assumes "bm_ok a" and "bm_ok b" and "bm_size b \<le> bm_size a"
  shows "CompareToHelper a b = Inr (bitmap_order a b)"
proof -
  let ?x = "bits_value (testb (bm_map a)) (bm_size b)" and ?y = "bits_value (testb (bm_map b)) (bm_size b)"
  have vb: "value_of b = ?y"
    unfolding value_of_def by (rule bits_value_cong) simp
  have va: "value_of a = bits_value (testb (bm_map a)) (bm_size a)"
    unfolding value_of_def by (rule bits_value_cong) simp
  show ?thesis
  proof (cases "\<exists>i. bm_size b \<le> i \<and> i < bm_size a \<and> bits_of a ! i")
    case True
    then obtain i where i: "bm_size b \<le> i" "i < bm_size a" "testb (bm_map a) i" by auto
    have "value_of b < 2 ^ bm_size b" unfolding vb by (rule bits_value_bounds)
    also have "\<dots> \<le> 2 ^ i" using i(1) by (rule power_increasing) simp
    also have "\<dots> \<le> value_of a" unfolding va using i(2,3) by (rule bits_value_ge)
    finally have "bitmap_order a b = 1" by (simp add: bitmap_order_def)
    then show ?thesis
      using True TestRange_spec [OF assms(1,3)] by (simp add: CompareToHelper_def)
  next
    case False
    then have va': "value_of a = ?x"
      unfolding va using assms(3) by (intro bits_value_zero_above) auto
    have order: "bitmap_order a b = (if ?x = ?y then (if bm_size a = bm_size b then 0 else 1) else sgn (?x - ?y))"
      unfolding bitmap_order_def va' vb using assms(3) by (auto simp: sgn_if)
    obtain c where c: "compare_down (bm_map a) (bm_map b) (array_size b - 1) = Inr c"
      "sgn (?x - ?y) = (if bm_map a ! (array_size b - 1) AND HighOrderMapElementMask b =
          bm_map b ! (array_size b - 1) AND HighOrderMapElementMask b then c
        else if bm_map a ! (array_size b - 1) AND HighOrderMapElementMask b <
          bm_map b ! (array_size b - 1) AND HighOrderMapElementMask b then -1 else 1)"
      using common_compare [OF assms] by blast
    have "array_size b \<le> array_size a"
      using assms(3) by (auto simp: array_size_def RequiredArraySize_def intro: div_le_mono)
    then have len: "array_size b - 1 < length (bm_map a)"
      using array_access(1) [OF assms(1)] by simp
    show ?thesis
      unfolding order using c False TestRange_spec [OF assms(1,3)] len array_access(1) [OF assms(2)]
      by (auto simp: CompareToHelper_def Let_def sgn_0_0 split: if_splits)
  qed
qed

lemma CompareTo_spec:
  assumes "bm_ok b" and "bm_ok c"
  shows "CompareTo b c = Inr (bitmap_order b c)"
proof (cases "bm_size b > bm_size c")
  case True
  then show ?thesis using CompareToHelper_spec [OF assms] by (simp add: CompareTo_def)
next
  case False
  have "- bitmap_order c b = bitmap_order b c"
    by (simp add: bitmap_order_def flip: sgn_minus)
  then show ?thesis
    using False CompareToHelper_spec [OF assms(2,1)] by (simp add: CompareTo_def)
qed

text \<open>Two bitmaps of the same order are the same list of bits.\<close>

lemma bits_value_inj:
  assumes "bits_value Q n = bits_value R n" and "i < n"
  shows "Q i = R i"
  using assms
proof (induction n)
  case (Suc n)
  have "bits_value Q n < 2 ^ n" "bits_value R n < 2 ^ n" "0 \<le> bits_value Q n" "0 \<le> bits_value R n"
    by (rule bits_value_bounds)+
  then have "Q n = R n" "bits_value Q n = bits_value R n"
    using Suc.prems(1) by (auto simp: of_bool_def split: if_splits)
  then show ?case
    using Suc by (auto simp: less_Suc_eq)
qed simp

lemma bitmap_order_bits: "bits_of b = bits_of c \<Longrightarrow> bitmap_order b c = 0"
  unfolding bitmap_order_def value_of_def by (metis diff_self length_bits_of sgn_0)

lemma bitmap_order_zero:
  assumes "bitmap_order b c = 0"
  shows "bits_of b = bits_of c"
proof -
  have v: "value_of b = value_of c" and n: "bm_size b = bm_size c"
    using assms by (auto simp: bitmap_order_def sgn_0_0 split: if_splits)
  show ?thesis
  proof (rule nth_equalityI)
    show "bits_of b ! i = bits_of c ! i" if "i < length (bits_of b)" for i
      using bits_value_inj [of "\<lambda>i. bits_of b ! i" "bm_size b" "\<lambda>i. bits_of c ! i" i] v n that
      by (simp add: value_of_def)
  qed (simp add: n)
qed

end
