(* ===== verification/Bitmap_Search.thy ===== *)
theory Bitmap_Search
  imports Bitmap_Order
begin

text \<open>Searching the bits of bitmaps: the scans over words find what a search bit by bit finds.\<close>

section \<open>Searching bit by bit\<close>

definition first_in :: "(nat \<Rightarrow> bool) \<Rightarrow> nat \<Rightarrow> nat \<Rightarrow> bool \<times> nat" where
  "first_in Q i limit = (case find Q [i..<limit] of None \<Rightarrow> (False, i) | Some j \<Rightarrow> (True, j))"

definition last_in :: "(nat \<Rightarrow> bool) \<Rightarrow> nat \<Rightarrow> nat \<Rightarrow> bool \<times> nat" where
  "last_in Q i limit = (case find Q (rev [limit..<Suc i]) of None \<Rightarrow> (False, i) | Some j \<Rightarrow> (True, j))"

lemma first_inI:
  assumes "i \<le> j" "j < limit" "Q j" "\<And>k. i \<le> k \<Longrightarrow> k < j \<Longrightarrow> \<not> Q k"
  shows "first_in Q i limit = (True, j)"
proof -
  have "find Q [i..<limit] = Some j"
    unfolding find_Some_iff using assms by (intro exI [of _ "j - i"]) auto
  then show ?thesis by (simp add: first_in_def)
qed

lemma first_in_none: "(\<And>k. i \<le> k \<Longrightarrow> k < limit \<Longrightarrow> \<not> Q k) \<Longrightarrow> first_in Q i limit = (False, i)"
proof -
  assume "\<And>k. i \<le> k \<Longrightarrow> k < limit \<Longrightarrow> \<not> Q k"
  then have "find Q [i..<limit] = None" by (auto simp: find_None_iff)
  then show ?thesis by (simp add: first_in_def)
qed

lemma last_inI:
  assumes "limit \<le> j" "j \<le> i" "Q j" "\<And>k. j < k \<Longrightarrow> k \<le> i \<Longrightarrow> \<not> Q k"
  shows "last_in Q i limit = (True, j)"
proof -
  have "find Q (rev [limit..<Suc i]) = Some j"
    unfolding find_Some_iff using assms by (intro exI [of _ "i - j"]) (auto simp: rev_nth simp del: upt_Suc)
  then show ?thesis by (simp add: last_in_def del: upt_Suc)
qed

lemma last_in_none: "(\<And>k. limit \<le> k \<Longrightarrow> k \<le> i \<Longrightarrow> \<not> Q k) \<Longrightarrow> last_in Q i limit = (False, i)"
proof -
  assume "\<And>k. limit \<le> k \<Longrightarrow> k \<le> i \<Longrightarrow> \<not> Q k"
  then have "find Q (rev [limit..<Suc i]) = None" by (auto simp: find_None_iff simp del: upt_Suc)
  then show ?thesis by (simp add: last_in_def del: upt_Suc)
qed

section \<open>Scanning upwards\<close>

text \<open>The bits that are searched: those of the array, or their complement.\<close>

definition sought :: "bool \<Rightarrow> 'w::len word list \<Rightarrow> nat \<Rightarrow> bool" where
  "sought complement ws i \<longleftrightarrow> testb ws i \<noteq> complement"

lemma bit_wanted:
  fixes ws :: "'w::len word list"
  assumes "j < LENGTH('w)"
  shows "bit (if c then NOT (ws ! k) else ws ! k) j \<longleftrightarrow> sought c ws (k * LENGTH('w) + j)"
  using assms by (simp add: sought_def testb_at bit_not_iff)

text \<open>The state of the scan: the current word holds the candidates of its block, and there are none before.\<close>

definition scan_up :: "(nat \<Rightarrow> bool) \<Rightarrow> nat \<Rightarrow> nat \<Rightarrow> 'w::len word \<Rightarrow> bool" where
  "scan_up Q i n w \<longleftrightarrow> (\<forall>j < LENGTH('w). bit w j \<longleftrightarrow> i \<le> n * LENGTH('w) + j \<and> Q (n * LENGTH('w) + j))
    \<and> (\<forall>k. i \<le> k \<and> k < n * LENGTH('w) \<longrightarrow> \<not> Q k)"

lemma scan_up_next:
  fixes v w :: "'w::len word"
  assumes "scan_up Q i n w" and "w = 0" and "i div LENGTH('w) \<le> n"
    and "\<And>j. j < LENGTH('w) \<Longrightarrow> bit v j = Q (Suc n * LENGTH('w) + j)"
  shows "scan_up Q i (Suc n) v"
  unfolding scan_up_def
proof (intro conjI allI impI)
  let ?L = "LENGTH('w)"
  have "i < Suc n * ?L"
    using assms(3) by (metis div_less_iff_less_mult len_gt_0 less_Suc_eq_le)
  then show "bit v j \<longleftrightarrow> i \<le> Suc n * ?L + j \<and> Q (Suc n * ?L + j)" if "j < ?L" for j
    using that assms(4) by auto
  fix k assume k: "i \<le> k \<and> k < Suc n * ?L"
  show "\<not> Q k"
  proof (cases "k < n * ?L")
    case True
    then show ?thesis using k assms(1) by (simp add: scan_up_def)
  next
    case False
    then have "k - n * ?L < ?L" "n * ?L + (k - n * ?L) = k" using k by auto
    then show ?thesis using k assms(1,2) unfolding scan_up_def by (metis bit_0_eq bot_apply bot_bool_def)
  qed
qed

lemma FindNext_words_spec:
  fixes ws :: "'w::len word list"
  assumes "scan_up (sought c ws) i n w" and "i div LENGTH('w) \<le> n" and "n \<le> l" and "l < length ws"
  shows "\<exists>n' w'. FindNext_words c ws l n w = Inr (n', w') \<and> scan_up (sought c ws) i n' w' \<and> n \<le> n' \<and> n' \<le> l
    \<and> (n' < l \<longrightarrow> w' \<noteq> 0)"
  using assms
proof (induction c ws l n w rule: FindNext_words.induct)
  case (1 c ws l n w)
  show ?case
  proof (cases "n < l \<and> w = 0")
    case True
    let ?v = "if c then NOT (ws ! Suc n) else ws ! Suc n"
    have at: "word_at ws (n + 1) = Inr (ws ! Suc n)" using True 1(5) by simp
    have "scan_up (sought c ws) i (Suc n) ?v"
      using 1(2,3) True by (intro scan_up_next [where w = w]) (auto simp: bit_wanted)
    then obtain n' w' where r: "FindNext_words c ws l (n + 1) ?v = Inr (n', w')" "scan_up (sought c ws) i n' w'"
      "Suc n \<le> n'" "n' \<le> l" "n' < l \<longrightarrow> w' \<noteq> 0"
      using 1(1) [OF True, of "ws ! Suc n"] 1(3,5) True by auto
    moreover have "FindNext_words c ws l n w = FindNext_words c ws l (n + 1) ?v"
      unfolding FindNext_words.simps [of c ws l n w] using True at by simp
    ultimately show ?thesis by (metis Suc_leD)
  next
    case False
    then show ?thesis
      using 1(2-5) by (auto simp: FindNext_words.simps [of c ws l n w])
  qed
qed

lemma bit_upto_mask:
  assumes "j < LENGTH('w)"
  shows "bit (NOT (push_bit o' (kAllOnesWord - 1)) :: 'w::len word) j \<longleftrightarrow> j \<le> o'"
proof -
  have "kAllOnesWord - 1 = (NOT 1 :: 'w word)"
    by (simp add: kAllOnesWord_def not_eq_complement)
  then show ?thesis
    unfolding \<open>kAllOnesWord - 1 = NOT 1\<close> using assms by (auto simp: bit_simps bit_1_iff)
qed

lemma block_before_start: "i \<le> k \<Longrightarrow> \<not> k < i div n * (n::nat)"
  using div_times_less_eq_dividend [of i n] by linarith

text \<open>The last word, reduced to the bits before the limit, decides.\<close>

definition candidates :: "(nat \<Rightarrow> bool) \<Rightarrow> nat \<Rightarrow> nat \<Rightarrow> nat \<Rightarrow> 'w::len word \<Rightarrow> bool" where
  "candidates Q i limit n w \<longleftrightarrow> (\<forall>j < LENGTH('w). bit w j \<longleftrightarrow>
    i \<le> n * LENGTH('w) + j \<and> n * LENGTH('w) + j < limit \<and> Q (n * LENGTH('w) + j))"

lemma scan_up_limit:
  fixes w :: "'w::len word"
  assumes "scan_up Q i n w" and "n \<le> (limit - 1) div LENGTH('w)" and "0 < limit"
  shows "candidates Q i limit n (if n < (limit - 1) div LENGTH('w) then w
    else w AND NOT (push_bit ((limit - 1) mod LENGTH('w)) (kAllOnesWord - 1)))"
proof (cases "n < (limit - 1) div LENGTH('w)")
  case True
  then show ?thesis using assms(1) block_before [OF True] by (simp add: scan_up_def candidates_def)
next
  case False
  then have n: "n = (limit - 1) div LENGTH('w)" using assms(2) by simp
  have "n * LENGTH('w) + j < limit \<longleftrightarrow> j \<le> (limit - 1) mod LENGTH('w)" for j
    unfolding n by (rule iffI) (use assms(3) div_mult_mod_eq [of "limit - 1" "LENGTH('w)"] in linarith)+
  then show ?thesis
    using assms(1) False by (auto simp: scan_up_def candidates_def bit_and_iff bit_upto_mask)
qed

lemma scan_up_found:
  fixes w :: "'w::len word"
  assumes none: "\<And>k. i \<le> k \<Longrightarrow> k < n * LENGTH('w) \<Longrightarrow> \<not> Q k"
    and w: "candidates Q i limit n w" and "w \<noteq> 0"
  shows "first_in Q i limit = (True, n * LENGTH('w) + countr_zero w)"
proof -
  note z = countr_zero_spec [OF \<open>w \<noteq> 0\<close>]
  have w: "bit w j \<longleftrightarrow> i \<le> n * LENGTH('w) + j \<and> n * LENGTH('w) + j < limit \<and> Q (n * LENGTH('w) + j)"
    if "j < LENGTH('w)" for j using w that by (simp add: candidates_def)
  have "\<not> Q k" if "i \<le> k" "k < n * LENGTH('w) + countr_zero w" for k
  proof (cases "k < n * LENGTH('w)")
    case False
    then have "k - n * LENGTH('w) < countr_zero w" "n * LENGTH('w) + (k - n * LENGTH('w)) = k" using that by auto
    then show ?thesis
      using w [of "k - n * LENGTH('w)"] w [OF z(2)] z that by auto
  qed (use that none in simp)
  then show ?thesis
    using w [OF z(2)] z(1) by (intro first_inI) auto
qed

lemma scan_up_empty:
  fixes w :: "'w::len word"
  assumes none: "\<And>k. i \<le> k \<Longrightarrow> k < n * LENGTH('w) \<Longrightarrow> \<not> Q k"
    and w: "candidates Q i limit n w" and "w = 0" and n: "n = (limit - 1) div LENGTH('w)"
  shows "first_in Q i limit = (False, i)"
proof (rule first_in_none)
  fix k assume k: "i \<le> k" "k < limit"
  show "\<not> Q k"
  proof (cases "k < n * LENGTH('w)")
    case False
    have "k div LENGTH('w) \<le> n" unfolding n using k(2) by (intro div_le_mono) linarith
    moreover have "n \<le> k div LENGTH('w)" using False by (simp add: less_eq_div_iff_mult_less_eq)
    ultimately have "n * LENGTH('w) + k mod LENGTH('w) = k" by (metis antisym div_mult_mod_eq)
    moreover have "k mod LENGTH('w) < LENGTH('w)" by simp
    ultimately show ?thesis
      using w k \<open>w = 0\<close> unfolding candidates_def by (metis bit_0_eq bot_apply bot_bool_def)
  qed (use k none in simp)
qed

lemma FindNextBitInVector_spec:
  fixes ws :: "'w::len word list"
  assumes "width_ok ws" and "limit \<le> length ws * LENGTH('w)"
  shows "FindNextBitInVector c ws i limit = Inr (first_in (sought c ws) i limit)"
proof (cases "i < limit")
  case False
  then show ?thesis using first_in_none [of i limit] by (simp add: FindNextBitInVector_def)
next
  case True
  let ?L = "LENGTH('w)" and ?Q = "sought c ws"
  let ?n = "i div ?L" and ?l = "(limit - 1) div ?L" and ?w = "if c then NOT (ws ! (i div ?L)) else ws ! (i div ?L)"
  have nl: "?n \<le> ?l" using True by (intro div_le_mono) linarith
  have l: "?l < length ws" using True assms(2) by (simp add: div_less_iff_less_mult)
  have first: "bit ?w (i mod ?L) \<longleftrightarrow> ?Q i"
    using bit_wanted [of "i mod ?L" c ws ?n] by simp
  note unfold = FindNextBitInVector_def Let_def width_arith [OF assms(1)] and_exp_eq_0_iff_not_bit
  show ?thesis
  proof (cases "?Q i")
    case Q: True
    have "first_in ?Q i limit = (True, i)" using True Q by (intro first_inI) auto
    then show ?thesis
      using True nl l first Q by (simp add: unfold)
  next
    case Q: False
    let ?v = "?w AND push_bit (i mod ?L) kAllOnesWord"
    have "scan_up ?Q i ?n ?v"
      using first_mask [of _ ?w i] block_before_start [of i _ ?L] by (auto simp: scan_up_def bit_wanted)
    then obtain n w where r: "FindNext_words c ws ?l ?n ?v = Inr (n, w)" "scan_up ?Q i n w" "?n \<le> n" "n \<le> ?l"
      "n < ?l \<longrightarrow> w \<noteq> 0"
      using FindNext_words_spec [of c ws i ?n ?v ?l] nl l by blast
    define w' where "w' = (if n < ?l then w else w AND NOT (push_bit ((limit - 1) mod ?L) (kAllOnesWord - 1)))"
    have found: "FindNextBitInVector c ws i limit = Inr (if w' \<noteq> 0 then (True, n * ?L + countr_zero w') else (False, i))"
      using True nl l first Q r(1) by (simp add: unfold w'_def)
    have none: "\<And>k. i \<le> k \<Longrightarrow> k < n * ?L \<Longrightarrow> \<not> ?Q k" using r(2) by (simp add: scan_up_def)
    have cand: "candidates ?Q i limit n w'"
      unfolding w'_def using True by (intro scan_up_limit [OF r(2,4)]) simp
    show ?thesis
    proof (cases "w' = 0")
      case True
      then have "n = ?l" using r(4,5) by (auto simp: w'_def split: if_splits)
      then show ?thesis using found True scan_up_empty [OF none cand] by simp
    qed (use found scan_up_found [OF none cand] in simp)
  qed
qed

section \<open>Scanning downwards\<close>

definition scan_down :: "(nat \<Rightarrow> bool) \<Rightarrow> nat \<Rightarrow> nat \<Rightarrow> nat \<Rightarrow> 'w::len word \<Rightarrow> bool" where
  "scan_down Q limit i n w \<longleftrightarrow> candidates Q limit (Suc i) n w \<and> (\<forall>k. Suc n * LENGTH('w) \<le> k \<and> k \<le> i \<longrightarrow> \<not> Q k)"

lemma scan_down_found:
  fixes w :: "'w::len word"
  assumes "scan_down Q limit i n w" and "w \<noteq> 0"
  shows "last_in Q i limit = (True, n * LENGTH('w) + bit_width w - 1)"
proof -
  note z = bit_width_spec [OF assms(2)]
  let ?L = "LENGTH('w)"
  have w: "bit w j \<longleftrightarrow> limit \<le> n * ?L + j \<and> n * ?L + j < Suc i \<and> Q (n * ?L + j)" if "j < ?L" for j
    using assms(1) that by (simp add: scan_down_def candidates_def)
  have pos: "n * ?L + bit_width w - 1 = n * ?L + (bit_width w - 1)" using z(3) by linarith
  have "\<not> Q k" if "n * ?L + (bit_width w - 1) < k" "k \<le> i" for k
  proof (cases "k < Suc n * ?L")
    case True
    then have k: "bit_width w \<le> k - n * ?L" "k - n * ?L < ?L" "n * ?L + (k - n * ?L) = k" using that(1) z(3) by auto
    have "limit \<le> k" using w [OF z(2)] z(1) that(1) by linarith
    then show ?thesis
      using w [OF k(2)] z(4) [OF k(1)] k(3) that(2) by simp
  qed (use that assms(1) in \<open>simp add: scan_down_def\<close>)
  then show ?thesis
    unfolding pos using w [OF z(2)] z(1) by (intro last_inI) auto
qed

lemma scan_down_empty:
  fixes w :: "'w::len word"
  assumes "scan_down Q limit i n w" and "w = 0" and n: "n = limit div LENGTH('w)"
  shows "last_in Q i limit = (False, i)"
proof (rule last_in_none)
  let ?L = "LENGTH('w)"
  fix k assume k: "limit \<le> k" "k \<le> i"
  show "\<not> Q k"
  proof (cases "k < Suc n * ?L")
    case True
    have "n * ?L \<le> limit" unfolding n by simp
    then have "k - n * ?L < ?L" "n * ?L + (k - n * ?L) = k" using True k(1) by auto
    then show ?thesis
      using assms(1,2) k unfolding scan_down_def candidates_def
      by (metis bit_0_eq bot_apply bot_bool_def less_Suc_eq_le)
  qed (use k assms(1) in \<open>simp add: scan_down_def\<close>)
qed

text \<open>Where the block of the limit is reached the bits before the limit are masked.\<close>

lemma candidates_down:
  fixes v :: "'w::len word"
  assumes "\<And>j. j < LENGTH('w) \<Longrightarrow> bit v j \<longleftrightarrow> n * LENGTH('w) + j < Suc i \<and> Q (n * LENGTH('w) + j)"
    and "limit div LENGTH('w) \<le> n"
  shows "candidates Q limit (Suc i) n
    (if n = limit div LENGTH('w) then v AND push_bit (limit mod LENGTH('w)) kAllOnesWord else v)"
proof (cases "n = limit div LENGTH('w)")
  case True
  then show ?thesis using assms(1) first_mask [of _ v limit] by (auto simp: candidates_def)
next
  case False
  then show ?thesis
    using assms block_after [of "LENGTH('w)" limit n] by (auto simp: candidates_def)
qed

lemma scan_down_next:
  fixes w v :: "'w::len word"
  assumes "scan_down Q limit i (Suc n) w" and "w = 0" and "limit div LENGTH('w) \<le> n" and "n < i div LENGTH('w)"
    and "\<And>j. j < LENGTH('w) \<Longrightarrow> bit v j = Q (n * LENGTH('w) + j)"
  shows "scan_down Q limit i n (if n = limit div LENGTH('w) then v AND push_bit (limit mod LENGTH('w)) kAllOnesWord else v)"
  unfolding scan_down_def
proof (intro conjI allI impI)
  let ?L = "LENGTH('w)"
  have "n * ?L + j < Suc i" if "j < ?L" for j
    using block_before [of n "Suc i" ?L j] assms(4) that by simp
  then show "candidates Q limit (Suc i) n (if n = limit div ?L then v AND push_bit (limit mod ?L) kAllOnesWord else v)"
    using assms(3,5) by (intro candidates_down) auto
  fix k assume k: "Suc n * ?L \<le> k \<and> k \<le> i"
  have limit: "limit \<le> k"
    using block_after [of ?L limit "Suc n" 0] assms(3) k by simp
  show "\<not> Q k"
  proof (cases "k < Suc (Suc n) * ?L")
    case True
    then have "k - Suc n * ?L < ?L" "Suc n * ?L + (k - Suc n * ?L) = k" using k by auto
    then show ?thesis
      using assms(1,2) k limit unfolding scan_down_def candidates_def
      by (metis bit_0_eq bot_apply bot_bool_def less_Suc_eq_le)
  qed (use k assms(1) in \<open>simp add: scan_down_def\<close>)
qed

lemma FindPrevious_words_spec:
  fixes ws :: "'w::len word list"
  assumes "scan_down (sought c ws) limit i n w" and "limit div LENGTH('w) \<le> n" and "n \<le> i div LENGTH('w)"
    and "i div LENGTH('w) < length ws"
  shows "(FindPrevious_words c ws (limit div LENGTH('w)) (push_bit (limit mod LENGTH('w)) kAllOnesWord) n w = Inr None
      \<and> last_in (sought c ws) i limit = (False, i))
    \<or> (\<exists>n' w'. FindPrevious_words c ws (limit div LENGTH('w)) (push_bit (limit mod LENGTH('w)) kAllOnesWord) n w
        = Inr (Some (n', w')) \<and> w' \<noteq> 0 \<and> scan_down (sought c ws) limit i n' w')"
  using assms
proof (induction n arbitrary: w)
  case 0
  then show ?case
    using scan_down_empty [of "sought c ws" limit i 0 w] by (cases "w = 0") (simp_all add: FindPrevious_words.simps [of c ws _ _ 0])
next
  case (Suc n)
  let ?L = "LENGTH('w)" and ?m = "push_bit (limit mod LENGTH('w)) kAllOnesWord :: 'w word"
  consider (found) "w \<noteq> 0" | (stop) "w = 0" "Suc n = limit div ?L" | (step) "w = 0" "limit div ?L \<le> n"
    using Suc.prems(2) by fastforce
  then show ?case
  proof cases
    case found
    then show ?thesis using Suc.prems(1) by (simp add: FindPrevious_words.simps [of c ws _ _ "Suc n" w])
  next
    case stop
    then show ?thesis
      using scan_down_empty [OF Suc.prems(1) stop]
      by (simp add: FindPrevious_words.simps [of c ws _ _ "limit div LENGTH('w)"])
  next
    case step
    let ?v = "if c then NOT (ws ! n) else ws ! n"
    let ?v' = "if n = limit div ?L then ?v AND ?m else ?v"
    have "scan_down (sought c ws) limit i n ?v'"
      using Suc.prems step by (intro scan_down_next [where w = w]) (auto simp: bit_wanted)
    note rest = Suc.IH [OF this step(2)]
    have "FindPrevious_words c ws (limit div ?L) ?m (Suc n) w = FindPrevious_words c ws (limit div ?L) ?m n ?v'"
      unfolding FindPrevious_words.simps [of c ws _ _ "Suc n" w] using step Suc.prems(3,4) by (simp add: Let_def)
    then show ?thesis using rest Suc.prems(3,4) by simp
  qed
qed

lemma FindPreviousBitInVector_spec:
  fixes ws :: "'w::len word list"
  assumes "width_ok ws" and "i div LENGTH('w) < length ws"
  shows "FindPreviousBitInVector c ws i limit = Inr (last_in (sought c ws) i limit)"
proof (cases "limit \<le> i")
  case False
  then show ?thesis
    using assms last_in_none [of limit i] by (simp add: FindPreviousBitInVector_def Let_def width_arith)
next
  case True
  let ?L = "LENGTH('w)" and ?Q = "sought c ws"
  let ?n = "i div ?L" and ?w = "if c then NOT (ws ! (i div ?L)) else ws ! (i div ?L)"
  have first: "bit ?w (i mod ?L) \<longleftrightarrow> ?Q i"
    using bit_wanted [of "i mod ?L" c ws ?n] by simp
  have limit: "limit div ?L \<le> ?n" using True by (rule div_le_mono)
  note unfold = FindPreviousBitInVector_def Let_def width_arith [OF assms(1)] and_exp_eq_0_iff_not_bit
  show ?thesis
  proof (cases "?Q i")
    case Q: True
    have "last_in ?Q i limit = (True, i)" using True Q by (intro last_inI) auto
    then show ?thesis using True assms(2) first Q by (simp add: unfold)
  next
    case Q: False
    let ?v = "?w AND NOT (push_bit (i mod ?L) (kAllOnesWord - 1))"
    define v where "v = (if ?n = limit div ?L then ?v AND push_bit (limit mod ?L) kAllOnesWord else ?v)"
    have upto: "bit ?v j \<longleftrightarrow> ?n * ?L + j < Suc i \<and> ?Q (?n * ?L + j)" if "j < ?L" for j
    proof -
      have "?n * ?L + j < Suc i \<longleftrightarrow> j \<le> i mod ?L"
        by (rule iffI) (use div_mult_mod_eq [of i ?L] in linarith)+
      then show ?thesis using that by (auto simp: bit_and_iff bit_upto_mask bit_wanted)
    qed
    have scan: "scan_down ?Q limit i ?n v"
      unfolding scan_down_def
    proof (intro conjI allI impI)
      show "candidates ?Q limit (Suc i) ?n v"
        unfolding v_def using upto limit by (intro candidates_down) auto
      have "i < Suc ?n * ?L" using dividend_less_div_times [of ?L i] by simp
      then show "\<not> ?Q k" if "Suc ?n * ?L \<le> k \<and> k \<le> i" for k using that by simp
    qed
    have run: "FindPreviousBitInVector c ws i limit =
        andThen (FindPrevious_words c ws (limit div ?L) (push_bit (limit mod ?L) kAllOnesWord) ?n v) (\<lambda>r.
          case r of None \<Rightarrow> Inr (False, i) | Some (n, w) \<Rightarrow> Inr (True, n * ?L + bit_width w - Suc 0))"
      unfolding v_def using True assms(2) first Q by (simp add: unfold)
    show ?thesis
      unfolding run
      using FindPrevious_words_spec [OF scan limit order_refl assms(2)] scan_down_found by fastforce
  qed
qed

section \<open>Searching a bitmap\<close>

lemma first_in_cong:
  assumes "\<And>k. i \<le> k \<Longrightarrow> k < limit \<Longrightarrow> Q k = R k"
  shows "first_in Q i limit = first_in R i limit"
proof -
  have "find Q [i..<limit] = find R [i..<limit]"
    using assms by (intro find_cong) auto
  then show ?thesis by (simp add: first_in_def)
qed

lemma last_in_cong:
  assumes "\<And>k. limit \<le> k \<Longrightarrow> k \<le> i \<Longrightarrow> Q k = R k"
  shows "last_in Q i limit = last_in R i limit"
proof -
  have "find Q (rev [limit..<Suc i]) = find R (rev [limit..<Suc i])"
    using assms by (intro find_cong) (auto simp del: upt_Suc)
  then show ?thesis by (simp add: last_in_def del: upt_Suc)
qed

lemma find_next_spec:
  fixes b :: "'w::len word bitmap"
  assumes "bm_ok b" and "limit \<le> bm_size b"
  shows "FindNextBitInVector c (bm_map b) i limit = Inr (first_in (\<lambda>k. bits_of b ! k \<noteq> c) i limit)"
proof -
  have "bm_size b \<le> length (bm_map b) * LENGTH('w)"
    using array_size_covers [of b] assms(1) le_trans mult_le_mono1 unfolding bm_ok_def by blast
  then have "FindNextBitInVector c (bm_map b) i limit = Inr (first_in (sought c (bm_map b)) i limit)"
    using assms by (intro FindNextBitInVector_spec) (auto simp: bm_ok_def)
  moreover have "first_in (sought c (bm_map b)) i limit = first_in (\<lambda>k. bits_of b ! k \<noteq> c) i limit"
    using assms(2) by (intro first_in_cong) (simp add: sought_def)
  ultimately show ?thesis by simp
qed

lemma FindNextSetBitBeforeLimit_spec:
  "bm_ok b \<Longrightarrow> FindNextSetBitBeforeLimit b i limit = (if limit \<le> bm_size b
    then Inr (first_in (\<lambda>k. bits_of b ! k) i limit) else Inl CheckFailed)"
  by (simp add: FindNextSetBitBeforeLimit_def FindNextSetBitInVector_def find_next_spec)

lemma FindNextUnsetBitBeforeLimit_spec:
  "bm_ok b \<Longrightarrow> FindNextUnsetBitBeforeLimit b i limit = (if limit \<le> bm_size b
    then Inr (first_in (\<lambda>k. \<not> bits_of b ! k) i limit) else Inl CheckFailed)"
  by (simp add: FindNextUnsetBitBeforeLimit_def FindNextUnsetBitInVector_def find_next_spec)

lemma find_previous_spec:
  fixes b :: "'w::len word bitmap"
  assumes "bm_ok b" and "i < bm_size b"
  shows "FindPreviousBitInVector c (bm_map b) i limit = Inr (last_in (\<lambda>k. bits_of b ! k \<noteq> c) i limit)"
proof -
  have "FindPreviousBitInVector c (bm_map b) i limit = Inr (last_in (sought c (bm_map b)) i limit)"
    using bm_ok_access [OF assms] assms(1) by (intro FindPreviousBitInVector_spec) (auto simp: bm_ok_def)
  moreover have "last_in (sought c (bm_map b)) i limit = last_in (\<lambda>k. bits_of b ! k \<noteq> c) i limit"
    using assms(2) by (intro last_in_cong) (simp add: sought_def)
  ultimately show ?thesis by simp
qed

lemma FindPreviousSetBitBeforeLimit_spec:
  "bm_ok b \<Longrightarrow> FindPreviousSetBitBeforeLimit b i limit =
    Inr (if i < bm_size b then last_in (\<lambda>k. bits_of b ! k) i limit else (False, i))"
  by (simp add: FindPreviousSetBitBeforeLimit_def find_previous_spec)

lemma FindPreviousUnsetBitBeforeLimit_spec:
  "bm_ok b \<Longrightarrow> FindPreviousUnsetBitBeforeLimit b i limit =
    Inr (if i < bm_size b then last_in (\<lambda>k. \<not> bits_of b ! k) i limit else (False, i))"
  by (simp add: FindPreviousUnsetBitBeforeLimit_def find_previous_spec)

section \<open>Iteration\<close>

text \<open>The set bits from an index on.\<close>

definition ones_from :: "'w::len word bitmap \<Rightarrow> nat \<Rightarrow> nat list" where
  "ones_from b i = filter (\<lambda>k. bits_of b ! k) [i..<bm_size b]"

lemma ones_from_next:
  assumes "i \<le> j" "j < bm_size b" "bits_of b ! j" "\<And>k. i \<le> k \<Longrightarrow> k < j \<Longrightarrow> \<not> bits_of b ! k"
  shows "ones_from b i = j # ones_from b (Suc j)"
proof -
  have "[i..<bm_size b] = [i..<j] @ j # [Suc j..<bm_size b]"
    using assms(1,2) by (metis le_Suc_ex less_imp_le upt_add_eq_append upt_conv_Cons)
  moreover have "filter (\<lambda>k. bits_of b ! k) [i..<j] = []"
    using assms(4) by (auto simp: filter_empty_conv)
  ultimately show ?thesis using assms(3) by (simp add: ones_from_def)
qed

lemma ones_from_none:
  "(\<And>k. i \<le> k \<Longrightarrow> k < bm_size b \<Longrightarrow> \<not> bits_of b ! k) \<Longrightarrow> ones_from b i = []"
  by (auto simp: ones_from_def filter_empty_conv)

lemma first_in_cases:
  obtains (none) "first_in Q i limit = (False, i)" "\<And>k. i \<le> k \<Longrightarrow> k < limit \<Longrightarrow> \<not> Q k"
    | (found) j where "first_in Q i limit = (True, j)" "i \<le> j" "j < limit" "Q j"
        "\<And>k. i \<le> k \<Longrightarrow> k < j \<Longrightarrow> \<not> Q k"
proof (cases "find Q [i..<limit]")
  case None
  then have "\<And>k. i \<le> k \<Longrightarrow> k < limit \<Longrightarrow> \<not> Q k" by (auto simp: find_None_iff)
  then show ?thesis using none None by (simp add: first_in_def)
next
  case (Some j)
  then obtain n where n: "n < limit - i" "Q (i + n)" "j = i + n" "\<forall>m < n. \<not> Q (i + m)"
    by (auto simp: find_Some_iff)
  then have "\<not> Q k" if "i \<le> k" "k < j" for k
    using that by (metis add_less_cancel_left le_Suc_ex)
  then show ?thesis using found [of j] n Some by (simp add: first_in_def)
qed

text \<open>
  An iterator is either at the end, or at a set bit, and its current word holds the remaining bits of
  the word of the bitmap.
\<close>

definition iter_at :: "'w::len word bitmap \<Rightarrow> 'w word BitIndexIter \<Rightarrow> bool" where
  "iter_at b it \<longleftrightarrow> it_bitmap it = Some b \<and> it_position it < bm_size b \<and> bits_of b ! it_position it
    \<and> (\<forall>j < LENGTH('w). bit (it_current it) j \<longleftrightarrow> it_position it mod LENGTH('w) + j < LENGTH('w)
        \<and> it_position it + j < bm_size b \<and> testb (bm_map b) (it_position it + j))"

lemma bit_masked_element:
  fixes b :: "'w::len word bitmap"
  assumes "bm_ok b" and "k < array_size b"
  shows "\<exists>w. GetMaskedMapElement b k = Inr w \<and>
    (\<forall>j < LENGTH('w). bit w j \<longleftrightarrow> k * LENGTH('w) + j < bm_size b \<and> testb (bm_map b) (k * LENGTH('w) + j))"
proof (cases "k = array_size b - 1")
  case True
  then show ?thesis
    using array_access(1) [OF assms(1)]
    by (auto simp: GetMaskedMapElement_def bit_and_iff bit_high_mask [OF assms(1)] testb_at)
next
  case False
  then have "k < array_size b - 1" using assms(2) by linarith
  then show ?thesis
    using array_access(3) [OF assms(1)] index_before_last [of "k * LENGTH('w) + _" b] False
    by (auto simp: GetMaskedMapElement_def testb_at)
qed

text \<open>Loading the word of a set bit.\<close>

lemma iter_load:
  fixes b :: "'w::len word bitmap"
  assumes "bm_ok b" and "i < bm_size b" and "bits_of b ! i"
  shows "\<exists>w. GetMaskedMapElement b (i div LENGTH('w)) = Inr w \<and>
    iter_at b \<lparr>it_bitmap = Some b, it_current = drop_bit (i mod LENGTH('w)) w, it_position = i\<rparr>"
proof -
  let ?L = "LENGTH('w)"
  obtain w where w: "GetMaskedMapElement b (i div ?L) = Inr w"
    "\<And>j. j < ?L \<Longrightarrow> bit w j \<longleftrightarrow> i div ?L * ?L + j < bm_size b \<and> testb (bm_map b) (i div ?L * ?L + j)"
    using bit_masked_element [OF assms(1) index_in_array [OF assms(2)]] by blast
  have "bit (drop_bit (i mod ?L) w) j \<longleftrightarrow> i mod ?L + j < ?L \<and> i + j < bm_size b \<and> testb (bm_map b) (i + j)" for j
  proof (cases "i mod ?L + j < ?L")
    case True
    have "i div ?L * ?L + (i mod ?L + j) = i + j" by (simp add: add.assoc [symmetric])
    then show ?thesis using w(2) [OF True] True by (simp add: bit_drop_bit_eq)
  next
    case False
    then show ?thesis using bit_imp_le_length by (auto simp: bit_drop_bit_eq)
  qed
  then show ?thesis using w(1) assms(2,3) by (auto simp: iter_at_def)
qed

text \<open>The rest of the current word holds the next bits of the same word of the array.\<close>

lemma iter_rest:
  fixes b :: "'w::len word bitmap"
  assumes "iter_at b it"
  shows "bit (drop_bit 1 (it_current it)) j \<longleftrightarrow> it_position it mod LENGTH('w) + Suc j < LENGTH('w) \<and>
    it_position it + Suc j < bm_size b \<and> testb (bm_map b) (it_position it + Suc j)"
proof (cases "Suc j < LENGTH('w)")
  case True
  then show ?thesis using assms by (simp add: iter_at_def bit_drop_bit_eq)
next
  case False
  then show ?thesis using bit_imp_le_length [of "it_current it" "Suc j"] by (auto simp: bit_drop_bit_eq)
qed

lemma iter_next_in_word:
  fixes b :: "'w::len word bitmap"
  assumes "iter_at b it" and "drop_bit 1 (it_current it) \<noteq> 0"
  shows "\<exists>it'. iter_next it = Inr it' \<and> iter_at b it' \<and>
    ones_from b (Suc (it_position it)) = it_position it' # ones_from b (Suc (it_position it'))"
proof -
  let ?L = "LENGTH('w)" and ?p = "it_position it" and ?c = "drop_bit 1 (it_current it)"
  note c = iter_rest [OF assms(1)] and z = countr_zero_spec [OF assms(2)]
  have it: "it_bitmap it = Some b" using assms(1) by (simp add: iter_at_def)
  let ?i = "?p + Suc (countr_zero ?c)"
  let ?it = "\<lparr>it_bitmap = Some b, it_current = drop_bit (countr_zero ?c) ?c, it_position = ?i\<rparr>"
  have i: "?p mod ?L + Suc (countr_zero ?c) < ?L" "?i < bm_size b" "testb (bm_map b) ?i"
    using c [of "countr_zero ?c"] z(1) by auto
  have mod: "?i mod ?L = ?p mod ?L + Suc (countr_zero ?c)"
    using i(1) by (metis mod_add_left_eq mod_less)
  have "bit ?c 0 \<Longrightarrow> countr_zero ?c = 0" using z(3) [of 0] by auto
  then have "iter_next it = Inr ?it"
    using assms(2) it by (cases it; cases "bit ?c 0")
      (simp_all add: iter_next_def Let_def bit_0 and_one_eq odd_iff_mod_2_eq_one even_iff_mod_2_eq_zero)
  moreover have "iter_at b ?it"
    using i c mod by (simp add: iter_at_def bit_drop_bit_eq ac_simps)
  moreover have "ones_from b (Suc ?p) = ?i # ones_from b (Suc ?i)"
  proof (rule ones_from_next)
    fix k assume k: "Suc ?p \<le> k" "k < ?i"
    define j where "j = k - Suc ?p"
    have j: "j < countr_zero ?c" "k = ?p + Suc j" using k by (auto simp: j_def)
    have "k < bm_size b" using k(2) i(2) by simp
    then show "\<not> bits_of b ! k"
      using c [of j] z(3) [OF j(1)] i(1) j by simp
  qed (use i in simp_all)
  ultimately show ?thesis by auto
qed

lemma iter_next_spec:
  fixes b :: "'w::len word bitmap"
  assumes "bm_ok b" and "iter_at b it"
  shows "\<exists>it'. iter_next it = Inr it' \<and>
    (iter_at b it' \<and> ones_from b (Suc (it_position it)) = it_position it' # ones_from b (Suc (it_position it'))
     \<or> it_position it' = bm_size b \<and> ones_from b (Suc (it_position it)) = [])"
proof (cases "drop_bit 1 (it_current it) = 0")
  case True
  let ?L = "LENGTH('w)" and ?p = "it_position it"
  have w: "width_ok (bm_map b)" using assms(1) by (simp add: bm_ok_def)
  have it: "it_bitmap it = Some b" using assms(2) by (simp add: iter_at_def)
  show ?thesis
  proof (cases rule: first_in_cases [of "\<lambda>k. bits_of b ! k" "Suc ?p" "bm_size b"])
    case none
    then show ?thesis
      using True it ones_from_none [of "Suc ?p" b] assms(1)
      by (auto simp: iter_next_def FindNextSetBit_def FindNextSetBitBeforeLimit_spec)
  next
    case (found i)
    obtain v where v: "GetMaskedMapElement b (i div ?L) = Inr v"
      "iter_at b \<lparr>it_bitmap = Some b, it_current = drop_bit (i mod ?L) v, it_position = i\<rparr>"
      using iter_load [OF assms(1) found(3,4)] by blast
    have "iter_next it = Inr \<lparr>it_bitmap = Some b, it_current = drop_bit (i mod ?L) v, it_position = i\<rparr>"
      using True it found(1) v(1) assms(1)
      by (simp add: iter_next_def FindNextSetBit_def FindNextSetBitBeforeLimit_spec width_arith [OF w])
    then show ?thesis using v(2) ones_from_next [of "Suc ?p" i b] found by simp
  qed
next
  case False
  then show ?thesis using iter_next_in_word [OF assms(2)] by blast
qed

lemma indices_loop_spec:
  fixes b :: "'w::len word bitmap"
  assumes "bm_ok b"
  shows "iter_at b it \<Longrightarrow> indices_loop (bm_size b) it = Some (Inr (it_position it # ones_from b (Suc (it_position it))))"
proof (induction "bm_size b - it_position it" arbitrary: it rule: less_induct)
  case less
  have p: "it_position it < bm_size b" using less.prems by (simp add: iter_at_def)
  obtain it' where it': "iter_next it = Inr it'"
    and step: "iter_at b it' \<and> ones_from b (Suc (it_position it)) = it_position it' # ones_from b (Suc (it_position it'))
     \<or> it_position it' = bm_size b \<and> ones_from b (Suc (it_position it)) = []"
    using iter_next_spec [OF assms less.prems] by blast
  from step show ?case
  proof (elim disjE conjE)
    assume at: "iter_at b it'" and next_one: "ones_from b (Suc (it_position it)) = it_position it' # ones_from b (Suc (it_position it'))"
    have "it_position it' \<in> set (ones_from b (Suc (it_position it)))" unfolding next_one by simp
    then have "it_position it < it_position it'" by (auto simp: ones_from_def)
    then have "indices_loop (bm_size b) it' = Some (Inr (it_position it' # ones_from b (Suc (it_position it'))))"
      using less.hyps [OF _ at] p by simp
    then show ?case
      using p it' next_one by (simp add: indices_loop.simps [of "bm_size b" it])
  next
    assume stop: "it_position it' = bm_size b" and none: "ones_from b (Suc (it_position it)) = []"
    then show ?case
      using p it' by (simp add: indices_loop.simps [of "bm_size b" it] indices_loop.simps [of "bm_size b" it'])
  qed
qed

lemma TrueBitIndices_spec:
  assumes "bm_ok (b :: 'w::len word bitmap)"
  shows "TrueBitIndices b = Some (Inr (filter (\<lambda>k. bits_of b ! k) [0..<bm_size b]))"
proof -
  have w: "width_ok (bm_map b)" and size: "bm_size b < 2 ^ 64" using assms by (simp_all add: bm_ok_def)
  have "first_in (\<lambda>k. bits_of b ! k) (2 ^ 64 - 1) (bm_size b) = (False, 2 ^ 64 - 1)"
    using size by (intro first_in_none) auto
  then have stop: "range_end b = Inr \<lparr>it_bitmap = Some b, it_current = 0, it_position = bm_size b\<rparr>"
    using assms by (simp add: range_end_def range_LowerBound_def new_BitIndexIter_def FindNextSetBit_def FindNextSetBitBeforeLimit_spec)
  show ?thesis
  proof (cases rule: first_in_cases [of "\<lambda>k. bits_of b ! k" 0 "bm_size b"])
    case none
    then show ?thesis
      using stop ones_from_none [of 0 b] assms
      by (simp add: TrueBitIndices_def range_begin_def range_LowerBound_def new_BitIndexIter_def FindNextSetBit_def
          FindNextSetBitBeforeLimit_spec indices_loop.simps ones_from_def)
  next
    case (found i)
    obtain v where v: "GetMaskedMapElement b (i div LENGTH('w)) = Inr v"
      "iter_at b \<lparr>it_bitmap = Some b, it_current = drop_bit (i mod LENGTH('w)) v, it_position = i\<rparr>"
      using iter_load [OF assms found(3,4)] by blast
    show ?thesis
      using stop indices_loop_spec [OF assms v(2)] v(1) found(1) assms ones_from_next [of 0 i b] found
      by (simp add: TrueBitIndices_def range_begin_def range_LowerBound_def new_BitIndexIter_def FindNextSetBit_def
          FindNextSetBitBeforeLimit_spec ones_from_def width_arith [OF w])
  qed
qed

section \<open>Printing\<close>

definition show_bit :: "bool \<Rightarrow> char" where
  "show_bit v = (if v then CHR ''1'' else CHR ''0'')"

text \<open>The string in which the bits before an index are already printed.\<close>

definition printed :: "'w::len word bitmap \<Rightarrow> nat \<Rightarrow> string" where
  "printed b i = map (\<lambda>k. show_bit (k < i \<and> bits_of b ! k)) [0..<bm_size b]"

lemma ToString_loop_spec:
  assumes "bm_ok b"
  shows "ToString_loop b i (printed b i) = Some (Inr (map show_bit (bits_of b)))"
proof (induction "bm_size b - i" arbitrary: i rule: less_induct)
  case less
  show ?case
  proof (cases rule: first_in_cases [of "\<lambda>k. bits_of b ! k" i "bm_size b"])
    case none
    have "show_bit (k < i \<and> bits_of b ! k) = show_bit (bits_of b ! k)" if "k < bm_size b" for k
      using none(2) [of k] that by (cases "k < i") auto
    then have "printed b i = map show_bit (bits_of b)"
      by (intro nth_equalityI) (simp_all add: printed_def del: nth_bits_of)
    then show ?thesis
      using none(1) assms
      by (simp add: ToString_loop.simps [of b i] FindNextSetBit_def FindNextSetBitBeforeLimit_spec)
  next
    case (found j)
    have "(printed b i)[j := CHR ''1''] = printed b (j + 1)"
      using found(2-5)
      by (intro nth_equalityI) (auto simp: printed_def show_bit_def nth_list_update not_less less_Suc_eq)
    moreover have "ToString_loop b i (printed b i) = ToString_loop b (j + 1) ((printed b i)[j := CHR ''1''])"
      using found(1) assms
      by (simp add: ToString_loop.simps [of b i] FindNextSetBit_def FindNextSetBitBeforeLimit_spec)
    ultimately show ?thesis
      using less [of "j + 1"] found(2,3) by simp
  qed
qed

lemma ToString_spec:
  assumes "bm_ok b"
  shows "bm_ToString b = Some (Inr (map show_bit (bits_of b)))"
proof -
  have "replicate (bm_size b) CHR ''0'' = printed b 0"
    by (intro nth_equalityI) (simp_all add: printed_def show_bit_def)
  then show ?thesis
    unfolding bm_ToString_def using ToString_loop_spec [OF assms, of 0] by simp
qed

lemma group_loop_filter:
  assumes "0 < g" and "CHR ''_'' \<notin> set source"
  shows "filter (\<lambda>c. c \<noteq> CHR ''_'') (group_loop g source i) = drop i source"
  using assms
proof (induction g source i rule: group_loop.induct)
  case (1 g source i)
  show ?case
  proof (cases "i < length source")
    case True
    have "filter (\<lambda>c. c \<noteq> CHR ''_'') (take g (drop i source)) = take g (drop i source)"
      using 1(3) by (auto simp: filter_id_conv dest!: in_set_takeD in_set_dropD)
    then show ?thesis
      using 1 True append_take_drop_id [of g "drop i source"]
      by (simp add: group_loop.simps [of g source i] add.commute)
  qed (use 1 in \<open>simp add: group_loop.simps [of g source i]\<close>)
qed

section \<open>Hashing\<close>

text \<open>Equal bitmaps have equal hash values: the unused bits of the last word do not matter.\<close>

lemma hash_equal:
  fixes b c :: "'w::len word bitmap"
  assumes "bm_ok b" and "bm_ok c" and eq: "bits_of b = bits_of c"
  shows "AbslHashValue atomic f g state b = AbslHashValue atomic f g state c"
proof -
  let ?L = "LENGTH('w)" and ?n = "array_size b - 1" and ?k = "bm_size b div LENGTH('w)"
  have size: "bm_size c = bm_size b" using eq length_bits_of by metis
  have n: "array_size c = array_size b" by (rule array_size_cong) (rule size)
  have bits: "testb (bm_map b) i = testb (bm_map c) i" if "i < bm_size b" for i
    using that size eq nth_bits_of by metis
  have k: "?k \<le> array_size b"
    using array_size_covers [of b] by (metis div_le_mono nonzero_mult_div_cancel_right len_not_eq_0)
  have "bm_map b ! i = bm_map c ! i" if "i < ?k" for i
  proof -
    have "i * ?L + j < bm_size b" if "j < ?L" for j
    proof -
      have "(i + 1) * ?L \<le> ?k * ?L" using \<open>i < ?k\<close> by (intro mult_le_mono1) simp
      then show ?thesis
        using that div_times_less_eq_dividend [of "bm_size b" ?L] unfolding add_mult_distrib by linarith
    qed
    then show ?thesis using bits by (simp add: word_eq_iff_bits testb_at [symmetric])
  qed
  then have entries: "take ?k (bm_map b) = take ?k (bm_map c)"
    using assms(1,2) n k by (intro nth_equalityI) (simp_all add: bm_ok_def)
  have "bm_map b ! ?n AND HighOrderMapElementMask b = bm_map c ! ?n AND HighOrderMapElementMask c"
    using bits unfolding word_eq_iff_bits
    by (auto simp: bit_and_iff bit_high_mask assms n size testb_at [symmetric])
  then show ?thesis
    using entries assms(1,2) k n size array_access(1) [OF assms(1)] array_access(1) [OF assms(2)]
    by (cases "?k = array_size b") (simp_all add: AbslHashValue_def Let_def bm_ok_def)
qed

end
