(* ===== verification/Bitmap_Ownership.thy ===== *)
theory Bitmap_Ownership
  imports Bitmap_Objects Bitmap_Search
begin

text \<open>
  Who owns the arrays of bitmaps.  The invariant of a store says that every array allocated with \<open>new\<close>
  has exactly one owner, of the right size; it excludes leaks, double deletion and deletion of the
  caller's arrays.  Every operation keeps it and gives the object the bits it should have.
\<close>

section \<open>The invariant\<close>

definition own_ok :: "'w::len word bitmap_store \<Rightarrow> bool" where
  "own_ok st \<longleftrightarrow>
    (\<forall>x ob. st_objects st x = Some ob \<longrightarrow> ob_size ob < 2 ^ 64 \<and> ob_map ob < st_next st) \<and>
    (\<forall>x ob. st_objects st x = Some ob \<and> ob_alloc ob \<longrightarrow>
      (\<exists>ws. st_blocks st (ob_map ob) = Some (True, ws) \<and> length ws = words_needed st (ob_size ob))) \<and>
    (\<forall>x y ob pb. st_objects st x = Some ob \<and> st_objects st y = Some pb \<and> ob_alloc ob \<and> ob_alloc pb
      \<and> ob_map ob = ob_map pb \<longrightarrow> x = y) \<and>
    (\<forall>a ws. st_blocks st a = Some (True, ws) \<longrightarrow> (\<exists>x ob. st_objects st x = Some ob \<and> ob_alloc ob \<and> ob_map ob = a)) \<and>
    (\<forall>a. st_blocks st a \<noteq> None \<longrightarrow> a < st_next st)"

text \<open>The bits of an object, when its array is there and long enough.\<close>

definition ob_bits :: "'w::len word bitmap_store \<Rightarrow> nat \<Rightarrow> bool list option" where
  "ob_bits st x =
    (case st_objects st x of
       None \<Rightarrow> None
     | Some ob \<Rightarrow> (case view st ob of Inl _ \<Rightarrow> None | Inr b \<Rightarrow> if bm_ok b then Some (bits_of b) else None))"

lemma words_needed_simps [simp]:
  "words_needed (st_blocks_update f st) n = words_needed st n"
  "words_needed (st_next_update g st) n = words_needed st n"
  "words_needed (st_objects_update h st) n = words_needed st n"
  by (simp_all add: words_needed_def)

lemma array_size_needed: "array_size b = words_needed st (bm_size b)"
  for b :: "'w::len word bitmap" and st :: "'w word bitmap_store"
  by (simp add: array_size_def words_needed_def RequiredArraySize_def)

lemma own_ok_D:
  assumes "own_ok st"
  shows "st_objects st x = Some ob \<Longrightarrow> ob_size ob < 2 ^ 64"
    and "st_objects st x = Some ob \<Longrightarrow> ob_map ob < st_next st"
    and "st_objects st x = Some ob \<Longrightarrow> ob_alloc ob \<Longrightarrow>
      \<exists>ws. st_blocks st (ob_map ob) = Some (True, ws) \<and> length ws = words_needed st (ob_size ob)"
    and "st_objects st x = Some ob \<Longrightarrow> st_objects st y = Some pb \<Longrightarrow> ob_alloc ob \<Longrightarrow> ob_alloc pb \<Longrightarrow>
      ob_map ob = ob_map pb \<Longrightarrow> x = y"
    and "st_blocks st a = Some (True, ws) \<Longrightarrow> \<exists>x ob. st_objects st x = Some ob \<and> ob_alloc ob \<and> ob_map ob = a"
    and "st_blocks st a = Some blk \<Longrightarrow> a < st_next st"
  using assms unfolding own_ok_def by (blast, blast, blast, blast, blast, blast)

text \<open>The arrays once an object has given up the array it owns.\<close>

definition freed_by :: "'w::len word bitmap_store \<Rightarrow> nat \<Rightarrow> (nat \<Rightarrow> (bool \<times> 'w word list) option)" where
  "freed_by st x =
    (case st_objects st x of
       None \<Rightarrow> st_blocks st
     | Some ob \<Rightarrow> if ob_alloc ob then (st_blocks st)(ob_map ob := None) else st_blocks st)"

lemma released_other:
  assumes "own_ok st" and "st_objects st y = Some pb" and "ob_alloc pb" and "y \<noteq> x"
  shows "freed_by st x (ob_map pb) = st_blocks st (ob_map pb)"
  using own_ok_D(4) [OF assms(1)] assms(2-) by (auto simp: freed_by_def split: option.splits)

lemma released_some: "freed_by st x a = Some blk \<Longrightarrow> st_blocks st a = Some blk"
  by (auto simp: freed_by_def split: option.splits if_splits)

lemma released_new:
  assumes "own_ok st" and "freed_by st x a = Some (True, ws)"
  shows "\<exists>y ob. y \<noteq> x \<and> st_objects st y = Some ob \<and> ob_alloc ob \<and> ob_map ob = a"
proof -
  obtain y ob where y: "st_objects st y = Some ob" "ob_alloc ob" "ob_map ob = a"
    using own_ok_D(5) [OF assms(1) released_some [OF assms(2)]] by blast
  then have "y \<noteq> x"
    using assms(2) by (auto simp: freed_by_def)
  then show ?thesis using y by blast
qed

text \<open>The ways in which operations change a store: an object takes a new array, gives up its own or changes its words.\<close>

definition give :: "nat \<Rightarrow> nat \<Rightarrow> 'w::len word list \<Rightarrow> 'w word bitmap_store \<Rightarrow> 'w word bitmap_store" where
  "give x n ws st = st\<lparr>st_blocks := (freed_by st x)(st_next st \<mapsto> (True, ws)), st_next := st_next st + 1,
    st_objects := (st_objects st)(x \<mapsto> \<lparr>ob_map = st_next st, ob_size = n, ob_alloc = True\<rparr>)\<rparr>"

definition shed :: "nat \<Rightarrow> bitmap_object option \<Rightarrow> 'w::len word bitmap_store \<Rightarrow> 'w word bitmap_store" where
  "shed x r st = st\<lparr>st_blocks := freed_by st x, st_objects := (st_objects st)(x := r)\<rparr>"

definition rewrite :: "nat \<Rightarrow> nat \<Rightarrow> 'w::len word list \<Rightarrow> 'w word bitmap_store \<Rightarrow> 'w word bitmap_store" where
  "rewrite x n ws st = (case st_objects st x of None \<Rightarrow> st | Some ob \<Rightarrow>
    st\<lparr>st_blocks := (st_blocks st)(ob_map ob := map_option (\<lambda>(new, _). (new, ws)) (st_blocks st (ob_map ob))),
      st_objects := (st_objects st)(x \<mapsto> ob\<lparr>ob_size := n\<rparr>)\<rparr>)"

lemma own_okI:
  assumes "\<And>x ob. st_objects st x = Some ob \<Longrightarrow> ob_size ob < 2 ^ 64 \<and> ob_map ob < st_next st"
    and "\<And>x ob. st_objects st x = Some ob \<Longrightarrow> ob_alloc ob \<Longrightarrow>
      \<exists>ws. st_blocks st (ob_map ob) = Some (True, ws) \<and> length ws = words_needed st (ob_size ob)"
    and "\<And>x y ob pb. st_objects st x = Some ob \<Longrightarrow> st_objects st y = Some pb \<Longrightarrow> ob_alloc ob \<Longrightarrow> ob_alloc pb \<Longrightarrow>
      ob_map ob = ob_map pb \<Longrightarrow> x = y"
    and "\<And>a ws. st_blocks st a = Some (True, ws) \<Longrightarrow> \<exists>x ob. st_objects st x = Some ob \<and> ob_alloc ob \<and> ob_map ob = a"
    and "\<And>a blk. st_blocks st a = Some blk \<Longrightarrow> a < st_next st"
  shows "own_ok st"
  unfolding own_ok_def using assms by (auto simp del: split_paired_Ex)

lemma own_give:
  assumes "own_ok st" and "n < 2 ^ 64" and "length ws = words_needed st n"
  shows "own_ok (give x n ws st)"
proof -
  note D = own_ok_D [OF assms(1)]
  have new: "st_objects st y = Some ob \<Longrightarrow> ob_map ob \<noteq> st_next st" for y ob using D(2) [of y ob] by auto
  show ?thesis
  proof (rule own_okI)
    fix y ob assume "st_objects (give x n ws st) y = Some ob"
    then show "ob_size ob < 2 ^ 64 \<and> ob_map ob < st_next (give x n ws st)"
      using D(1,2) [of y ob] assms(2) by (auto simp: give_def split: if_splits)
  next
    fix y ob assume "st_objects (give x n ws st) y = Some ob" "ob_alloc ob"
    then show "\<exists>vs. st_blocks (give x n ws st) (ob_map ob) = Some (True, vs)
        \<and> length vs = words_needed (give x n ws st) (ob_size ob)"
      using D(3) [of y ob] new [of y ob] released_other [OF assms(1), of y ob x] assms(3)
      by (auto simp: give_def split: if_splits)
  next
    fix y z ob pb assume "st_objects (give x n ws st) y = Some ob" "st_objects (give x n ws st) z = Some pb"
      "ob_alloc ob" "ob_alloc pb" "ob_map ob = ob_map pb"
    then show "y = z"
      using D(4) [of y ob z pb] new [of y ob] new [of z pb] by (auto simp: give_def split: if_splits)
  next
    fix a vs assume "st_blocks (give x n ws st) a = Some (True, vs)"
    then show "\<exists>y ob. st_objects (give x n ws st) y = Some ob \<and> ob_alloc ob \<and> ob_map ob = a"
      using released_new [OF assms(1), of x a vs] by (fastforce simp: give_def split: if_splits)
  next
    fix a blk assume "st_blocks (give x n ws st) a = Some blk"
    then show "a < st_next (give x n ws st)"
      using D(6) [of a] released_some [of st x a] by (fastforce simp: give_def split: if_splits)
  qed
qed

lemma own_shed:
  assumes "own_ok st" and "\<And>ob. r = Some ob \<Longrightarrow> \<not> ob_alloc ob \<and> ob_size ob < 2 ^ 64 \<and> ob_map ob < st_next st"
  shows "own_ok (shed x r st)"
proof -
  note D = own_ok_D [OF assms(1)]
  show ?thesis
  proof (rule own_okI)
    fix y ob assume "st_objects (shed x r st) y = Some ob"
    then show "ob_size ob < 2 ^ 64 \<and> ob_map ob < st_next (shed x r st)"
      using D(1,2) [of y ob] assms(2) [of ob] by (auto simp: shed_def split: if_splits)
  next
    fix y ob assume "st_objects (shed x r st) y = Some ob" "ob_alloc ob"
    then show "\<exists>vs. st_blocks (shed x r st) (ob_map ob) = Some (True, vs)
        \<and> length vs = words_needed (shed x r st) (ob_size ob)"
      using D(3) [of y ob] released_other [OF assms(1), of y ob x] assms(2) [of ob] by (auto simp: shed_def split: if_splits)
  next
    fix y z ob pb assume "st_objects (shed x r st) y = Some ob" "st_objects (shed x r st) z = Some pb"
      "ob_alloc ob" "ob_alloc pb" "ob_map ob = ob_map pb"
    then show "y = z"
      using D(4) [of y ob z pb] assms(2) [of ob] assms(2) [of pb] by (auto simp: shed_def split: if_splits)
  next
    fix c vs assume "st_blocks (shed x r st) c = Some (True, vs)"
    then show "\<exists>y ob. st_objects (shed x r st) y = Some ob \<and> ob_alloc ob \<and> ob_map ob = c"
      using released_new [OF assms(1), of x c vs] by (fastforce simp: shed_def split: if_splits)
  next
    fix c blk assume "st_blocks (shed x r st) c = Some blk"
    then show "c < st_next (shed x r st)"
      using D(6) [of c] released_some [of st x c] by (fastforce simp: shed_def split: if_splits)
  qed
qed

lemma own_rewrite:
  assumes "own_ok st" and "n < 2 ^ 64" and "st_objects st x = Some ob"
    and "st_blocks st (ob_map ob) = Some (new, vs)" and "length ws = length vs"
    and "words_needed st n = words_needed st (ob_size ob)"
  shows "own_ok (rewrite x n ws st)"
proof -
  note D = own_ok_D [OF assms(1)]
  note rw = rewrite_def assms(3,4)
  show ?thesis
  proof (rule own_okI)
    fix y pb assume "st_objects (rewrite x n ws st) y = Some pb"
    then show "ob_size pb < 2 ^ 64 \<and> ob_map pb < st_next (rewrite x n ws st)"
      using D(1,2) [of y pb] D(2) [OF assms(3)] assms(2) by (auto simp: rw split: if_splits)
  next
    fix y pb assume "st_objects (rewrite x n ws st) y = Some pb" "ob_alloc pb"
    then show "\<exists>us. st_blocks (rewrite x n ws st) (ob_map pb) = Some (True, us)
        \<and> length us = words_needed (rewrite x n ws st) (ob_size pb)"
      using D(3) [of y pb] D(3) [OF assms(3)] assms(4-6) by (auto simp: rw split: if_splits)
  next
    fix y z pb qb assume "st_objects (rewrite x n ws st) y = Some pb" "st_objects (rewrite x n ws st) z = Some qb"
      "ob_alloc pb" "ob_alloc qb" "ob_map pb = ob_map qb"
    moreover have "\<exists>pb'. st_objects st w = Some pb' \<and> ob_alloc pb' = ob_alloc pb \<and> ob_map pb' = ob_map pb"
      if "st_objects (rewrite x n ws st) w = Some pb" for w pb
      using that assms(3) by (cases "w = x") (auto simp: rw)
    ultimately show "y = z" using D(4) by metis
  next
    fix c us assume c: "st_blocks (rewrite x n ws st) c = Some (True, us)"
    then have "\<exists>us. st_blocks st c = Some (True, us)"
      using assms(4) by (auto simp: rw split: if_splits)
    then obtain y pb where "st_objects st y = Some pb" "ob_alloc pb" "ob_map pb = c"
      using D(5) by blast
    then show "\<exists>y pb. st_objects (rewrite x n ws st) y = Some pb \<and> ob_alloc pb \<and> ob_map pb = c"
      using assms(3) by (cases "y = x") (auto simp: rw intro!: exI [of _ y])
  next
    fix c blk assume "st_blocks (rewrite x n ws st) c = Some blk"
    then show "c < st_next (rewrite x n ws st)"
      using D(6) [of c blk] D(2) [OF assms(3)] by (cases "c = ob_map ob") (simp_all add: rw)
  qed
qed

section \<open>Contents\<close>

lemma width_ok_any: "width_ok ([] :: 'w::len word list) \<Longrightarrow> width_ok (ws :: 'w word list)"
  by (simp add: width_ok_def)

lemma contents_give:
  fixes st :: "'w::len word bitmap_store"
  assumes "width_ok ([] :: 'w word list)" and "n < 2 ^ 64" and "length ws = words_needed st n"
  shows "ob_bits (give x n ws st) x = Some (bits_of \<lparr>bm_map = ws, bm_size = n\<rparr>)"
proof -
  have "array_size \<lparr>bm_map = ws, bm_size = n\<rparr> = words_needed st n"
    using array_size_needed [of "\<lparr>bm_map = ws, bm_size = n\<rparr>" st] by simp
  then have "bm_ok \<lparr>bm_map = ws, bm_size = n\<rparr>"
    using assms width_ok_any [OF assms(1)] by (simp add: bm_ok_def)
  then show ?thesis
    by (simp add: ob_bits_def give_def view_def)
qed

text \<open>Two objects with different arrays.\<close>

definition ob_apart :: "'w::len word bitmap_store \<Rightarrow> nat \<Rightarrow> nat \<Rightarrow> bool" where
  "ob_apart st x y \<longleftrightarrow> x \<noteq> y \<and> (\<forall>ob pb. st_objects st x = Some ob \<longrightarrow> st_objects st y = Some pb \<longrightarrow> ob_map ob \<noteq> ob_map pb)"

lemma contents_cong:
  assumes "st_objects st' y = st_objects st y"
    and "\<And>pb. st_objects st y = Some pb \<Longrightarrow> st_blocks st' (ob_map pb) = st_blocks st (ob_map pb)"
  shows "ob_bits st' y = ob_bits st y"
  using assms by (auto simp: ob_bits_def view_def split: option.splits)

lemma released_apart:
  "ob_apart st x y \<Longrightarrow> st_objects st y = Some pb \<Longrightarrow> freed_by st x (ob_map pb) = st_blocks st (ob_map pb)"
  by (auto simp: ob_apart_def freed_by_def split: option.splits)

lemma contents_give_other:
  assumes "own_ok st" and "ob_apart st x y"
  shows "ob_bits (give x n ws st) y = ob_bits st y"
proof (rule contents_cong)
  show "st_objects (give x n ws st) y = st_objects st y"
    using assms(2) by (auto simp: give_def ob_apart_def)
  show "st_blocks (give x n ws st) (ob_map pb) = st_blocks st (ob_map pb)" if "st_objects st y = Some pb" for pb
    using released_apart [OF assms(2) that] own_ok_D(2) [OF assms(1) that] by (simp add: give_def)
qed

lemma contents_shed_other:
  assumes "ob_apart st x y"
  shows "ob_bits (shed x r st) y = ob_bits st y"
  using assms released_apart [OF assms] by (intro contents_cong) (auto simp: shed_def ob_apart_def)

lemma contents_rewrite_other:
  assumes "ob_apart st x y"
  shows "ob_bits (rewrite x n ws st) y = ob_bits st y"
  using assms by (intro contents_cong) (auto simp: rewrite_def ob_apart_def split: option.splits)

lemma contents_rewrite:
  fixes st :: "'w::len word bitmap_store"
  assumes "width_ok ([] :: 'w word list)" and "n < 2 ^ 64" and "st_objects st x = Some ob"
    and "st_blocks st (ob_map ob) = Some (new, vs)" and "words_needed st n \<le> length ws"
  shows "ob_bits (rewrite x n ws st) x = Some (bits_of \<lparr>bm_map = ws, bm_size = n\<rparr>)"
proof -
  have "array_size \<lparr>bm_map = ws, bm_size = n\<rparr> = words_needed st n"
    using array_size_needed [of "\<lparr>bm_map = ws, bm_size = n\<rparr>" st] by simp
  then have "bm_ok \<lparr>bm_map = ws, bm_size = n\<rparr>"
    using assms width_ok_any [OF assms(1)] by (simp add: bm_ok_def)
  then show ?thesis
    using assms(3,4) by (simp add: ob_bits_def rewrite_def view_def)
qed

text \<open>An object with contents has an array of the needed length.\<close>

lemma contentsE:
  assumes "ob_bits st x = Some bs"
  obtains ob new ws where "st_objects st x = Some ob" "st_blocks st (ob_map ob) = Some (new, ws)"
    "words_needed st (ob_size ob) \<le> length ws" "bm_ok \<lparr>bm_map = ws, bm_size = ob_size ob\<rparr>"
    "bs = bits_of \<lparr>bm_map = ws, bm_size = ob_size ob\<rparr>"
proof -
  obtain ob new ws where *: "st_objects st x = Some ob" "st_blocks st (ob_map ob) = Some (new, ws)"
    "bm_ok \<lparr>bm_map = ws, bm_size = ob_size ob\<rparr>" "bs = bits_of \<lparr>bm_map = ws, bm_size = ob_size ob\<rparr>"
    using assms by (auto simp: ob_bits_def view_def split: option.splits sum.splits if_splits)
  moreover have "words_needed st (ob_size ob) \<le> length ws"
    using *(3) array_size_needed [of "\<lparr>bm_map = ws, bm_size = ob_size ob\<rparr>" st] by (simp add: bm_ok_def)
  ultimately show ?thesis using that by blast
qed

text \<open>A member function that changes bits.\<close>

lemma update_bits_rewrite:
  assumes "st_objects st x = Some ob" and "st_blocks st (ob_map ob) = Some (new, ws)"
    and "f \<lparr>bm_map = ws, bm_size = ob_size ob\<rparr> = Inr b"
  shows "update_bits x f st = Inr (rewrite x (ob_size ob) (bm_map b) st)"
  using assms by (simp add: update_bits_def object_at_def view_def rewrite_def fun_upd_idem)

section \<open>Operations\<close>

text \<open>
  What an operation on an object does: it succeeds, keeps the invariant, gives the object its bits and
  leaves alone the objects with other arrays.
\<close>

definition achieves :: "'w::len word bitmap_store outcome \<Rightarrow> 'w word bitmap_store \<Rightarrow> nat \<Rightarrow> bool list \<Rightarrow> bool" where
  "achieves r st x bs \<longleftrightarrow> (\<exists>st'. r = Inr st' \<and> own_ok st' \<and> ob_bits st' x = Some bs
    \<and> (\<forall>y. ob_apart st x y \<longrightarrow> ob_bits st' y = ob_bits st y \<and> ob_apart st' x y))"

lemma apart_give: "own_ok st \<Longrightarrow> ob_apart st x y \<Longrightarrow> ob_apart (give x n ws st) x y"
  using own_ok_D(2) [of st y] by (fastforce simp: ob_apart_def give_def)

lemma apart_rewrite: "ob_apart st x y \<Longrightarrow> ob_apart (rewrite x n ws st) x y"
  by (auto simp: ob_apart_def rewrite_def split: option.splits)

lemma achieves_give:
  fixes st :: "'w::len word bitmap_store"
  assumes "width_ok ([] :: 'w word list)" and "own_ok st" and "n < 2 ^ 64" and "length ws = words_needed st n"
  shows "achieves (Inr (give x n ws st)) st x (bits_of \<lparr>bm_map = ws, bm_size = n\<rparr>)"
  using own_give [OF assms(2-4)] contents_give [OF assms(1,3,4)] contents_give_other [OF assms(2)] apart_give [OF assms(2)]
  by (simp add: achieves_def)

lemma achieves_rewrite:
  fixes st :: "'w::len word bitmap_store"
  assumes "width_ok ([] :: 'w word list)" and "own_ok st" and "n < 2 ^ 64" and "st_objects st x = Some ob"
    and "st_blocks st (ob_map ob) = Some (new, vs)" and "length ws = length vs"
    and "words_needed st n = words_needed st (ob_size ob)" and "words_needed st n \<le> length ws"
  shows "achieves (Inr (rewrite x n ws st)) st x (bits_of \<lparr>bm_map = ws, bm_size = n\<rparr>)"
  using own_rewrite [OF assms(2-7)] contents_rewrite [OF assms(1,3-5,8)] contents_rewrite_other apart_rewrite
  by (auto simp: achieves_def)

lemma achieves_update:
  fixes st :: "'w::len word bitmap_store"
  assumes "width_ok ([] :: 'w word list)" and "own_ok st" and "ob_bits st x = Some bs"
    and f: "\<And>b. bm_ok b \<Longrightarrow> bits_of b = bs \<Longrightarrow> updated (f b) b g"
  shows "achieves (update_bits x f st) st x (map g [0..<length bs])"
proof -
  obtain ob new ws where x: "st_objects st x = Some ob" "st_blocks st (ob_map ob) = Some (new, ws)"
    "words_needed st (ob_size ob) \<le> length ws" "bm_ok \<lparr>bm_map = ws, bm_size = ob_size ob\<rparr>"
    "bs = bits_of \<lparr>bm_map = ws, bm_size = ob_size ob\<rparr>"
    using contentsE [OF assms(3)] .
  let ?b = "\<lparr>bm_map = ws, bm_size = ob_size ob\<rparr>"
  obtain b' where b': "f ?b = Inr b'" "bm_size b' = ob_size ob" "length (bm_map b') = length ws"
    "bits_of b' = map g [0..<ob_size ob]"
    using f [OF x(4) x(5) [symmetric]] by (auto simp: updated_def)
  have "\<lparr>bm_map = bm_map b', bm_size = ob_size ob\<rparr> = b'" using b'(2) by (cases b') simp
  then show ?thesis
    using achieves_rewrite [OF assms(1,2) own_ok_D(1) [OF assms(2) x(1)] x(1,2) b'(3) refl] x(3) b'(3,4)
      update_bits_rewrite [of st x ob new ws f b', OF x(1,2) b'(1)]
    by (simp add: x(5))
qed

text \<open>Two steps on the same object.\<close>

lemma achieves_step:
  "achieves (Inr st1) st x bs \<Longrightarrow> achieves r st1 x cs \<Longrightarrow> achieves r st x cs"
  by (fastforce simp: achieves_def)

lemma achieves_contents: "achieves (Inr st1) st x bs \<Longrightarrow> ob_bits st1 x = Some bs \<and> own_ok st1"
  by (simp add: achieves_def)

lemma BasicBitmap_fill_spec:
  fixes st :: "'w::len word bitmap_store"
  assumes "width_ok ([] :: 'w word list)" and "own_ok st" and "n < 2 ^ 64" and "st_objects st x = None"
  shows "achieves (BasicBitmap_fill junk x n v st) st x (replicate n v)"
proof -
  let ?ws = "map junk [0..<words_needed st n]"
  let ?st1 = "give x n ?ws st"
  have start: "BasicBitmap_fill junk x n v st = update_bits x (\<lambda>b. SetAll b v) ?st1"
    using assms(4) by (simp add: BasicBitmap_fill_def new_array_def put_object_def give_def freed_by_def Let_def)
  have one: "achieves (Inr ?st1) st x (bits_of \<lparr>bm_map = ?ws, bm_size = n\<rparr>)"
    using assms by (intro achieves_give) simp_all
  have "achieves (update_bits x (\<lambda>b. SetAll b v) ?st1) ?st1 x
      (map (\<lambda>i. v) [0..<length (bits_of \<lparr>bm_map = ?ws, bm_size = n\<rparr>)])"
    using achieves_contents [OF one] by (intro achieves_update [OF assms(1)]) (simp_all add: SetAll_spec)
  then show ?thesis
    unfolding start using achieves_step [OF one]
    by (simp add: map_replicate_const)
qed

lemma bm_Set_updated:
  assumes "bm_ok b" and "i < bm_size b"
  shows "updated (andThen (bm_Set b i v) (\<lambda>(b, old). Inr b)) b (\<lambda>j. (bits_of b)[i := v] ! j)"
proof -
  have w: "width_ok (bm_map b)" using assms(1) by (simp add: bm_ok_def)
  obtain ws where ws: "SetBit (bm_map b) i v = Inr (ws, testb (bm_map b) i)" "length ws = length (bm_map b)"
    "\<forall>j. testb ws j = (if j = i then v else testb (bm_map b) j)"
    using SetBit_spec [OF w bm_ok_access [OF assms]] by blast
  show ?thesis
  proof (rule updatedI [OF assms(1)])
    show "andThen (bm_Set b i v) (\<lambda>(b, old). Inr b) = Inr (b\<lparr>bm_map := ws\<rparr>)"
      using ws(1) assms(2) by (simp add: bm_Set_def)
  qed (use ws in \<open>simp_all add: nth_list_update\<close>)
qed

lemma update_Set_spec:
  fixes st :: "'w::len word bitmap_store"
  assumes "width_ok ([] :: 'w word list)" and "own_ok st" and "ob_bits st x = Some bs" and "i < length bs"
  shows "achieves (update_bits x (\<lambda>b. andThen (bm_Set b i v) (\<lambda>(b, old). Inr b)) st) st x (bs[i := v])"
proof -
  have "achieves (update_bits x (\<lambda>b. andThen (bm_Set b i v) (\<lambda>(b, old). Inr b)) st) st x
      (map (\<lambda>j. bs[i := v] ! j) [0..<length bs])"
    using assms(4) bm_Set_updated by (intro achieves_update [OF assms(1-3)]) fastforce
  then show ?thesis by (metis length_list_update map_nth)
qed

lemma set_values_spec:
  fixes st :: "'w::len word bitmap_store"
  assumes "width_ok ([] :: 'w word list)" and "own_ok st" and "ob_bits st x = Some bs"
    and "i + length vs \<le> length bs" and "i + length vs < 2 ^ 31"
  shows "achieves (set_values x i vs st) st x (take i bs @ vs @ drop (i + length vs) bs)"
  using assms(2-)
proof (induction vs arbitrary: i st bs)
  case Nil
  then show ?case by (simp add: achieves_def)
next
  case (Cons v vs)
  have one: "achieves (update_bits x (\<lambda>b. andThen (bm_Set b i v) (\<lambda>(b, old). Inr b)) st) st x (bs[i := v])"
    using Cons.prems by (intro update_Set_spec [OF assms(1)]) simp_all
  then obtain st1 where st1: "update_bits x (\<lambda>b. andThen (bm_Set b i v) (\<lambda>(b, old). Inr b)) st = Inr st1"
    by (auto simp: achieves_def)
  have "achieves (set_values x (i + 1) vs st1) st1 x
      (take (i + 1) (bs[i := v]) @ vs @ drop (i + 1 + length vs) (bs[i := v]))"
    using achieves_contents [OF one [unfolded st1]] Cons.prems by (intro Cons.IH) simp_all
  moreover have "take (i + 1) (bs[i := v]) @ vs @ drop (i + 1 + length vs) (bs[i := v]) =
      take i bs @ (v # vs) @ drop (i + length (v # vs)) bs"
    using Cons.prems(3) by (simp add: take_Suc_conv_app_nth)
  moreover have "set_values x i (v # vs) st = set_values x (i + 1) vs st1"
    using Cons.prems(4) by (simp add: st1)
  ultimately show ?case
    using achieves_step [OF one [unfolded st1]] by simp
qed

text \<open>The \<open>int\<close> index overflows when there are \<open>2 ^ 31\<close> values or more.\<close>

lemma set_values_overflow:
  fixes st :: "'w::len word bitmap_store"
  assumes "width_ok ([] :: 'w word list)" and "own_ok st" and "ob_bits st x = Some bs"
    and "i + length vs \<le> length bs" and "2 ^ 31 \<le> i + length vs" and "i < 2 ^ 31"
  shows "set_values x i vs st = Inl BadAccess"
  using assms(2-)
proof (induction vs arbitrary: i st bs)
  case Nil
  then show ?case by simp
next
  case (Cons v vs)
  have one: "achieves (update_bits x (\<lambda>b. andThen (bm_Set b i v) (\<lambda>(b, old). Inr b)) st) st x (bs[i := v])"
    using Cons.prems by (intro update_Set_spec [OF assms(1)]) simp_all
  then obtain st1 where st1: "update_bits x (\<lambda>b. andThen (bm_Set b i v) (\<lambda>(b, old). Inr b)) st = Inr st1"
    by (auto simp: achieves_def)
  have "set_values x (i + 1) vs st1 = Inl BadAccess" if "i + 1 < 2 ^ 31"
    using achieves_contents [OF one [unfolded st1]] Cons.prems that by (intro Cons.IH [of st1 "bs[i := v]"]) simp_all
  then show ?case by (cases "i + 1 < 2 ^ 31") (simp_all add: st1)
qed

lemma BasicBitmap_values_spec:
  fixes st :: "'w::len word bitmap_store"
  assumes "width_ok ([] :: 'w word list)" and "own_ok st" and "length vs < 2 ^ 64" and "st_objects st x = None"
  shows "if length vs < 2 ^ 31 then achieves (BasicBitmap_values junk x vs st) st x vs
    else BasicBitmap_values junk x vs st = Inl BadAccess"
proof -
  have one: "achieves (BasicBitmap_size junk x (length vs) st) st x (replicate (length vs) False)"
    unfolding BasicBitmap_size_def by (rule BasicBitmap_fill_spec [OF assms])
  then obtain st1 where st1: "BasicBitmap_size junk x (length vs) st = Inr st1" by (auto simp: achieves_def)
  note st1_ok = achieves_contents [OF one [unfolded st1]]
  have "achieves (set_values x 0 vs st1) st x vs" if "length vs < 2 ^ 31"
    using set_values_spec [OF assms(1), of st1 x "replicate (length vs) False" 0 vs] st1_ok that
      achieves_step [OF one [unfolded st1]] by simp
  moreover have "set_values x 0 vs st1 = Inl BadAccess" if "\<not> length vs < 2 ^ 31"
    using set_values_overflow [OF assms(1), of st1 x "replicate (length vs) False" 0 vs] st1_ok that by simp
  ultimately show ?thesis by (simp add: BasicBitmap_values_def st1)
qed

lemma BasicBitmap_default_spec:
  fixes st :: "'w::len word bitmap_store"
  assumes "width_ok ([] :: 'w word list)" and "own_ok st" and "st_objects st x = None"
  shows "achieves (Inr (BasicBitmap_default junk x st)) st x []"
proof -
  have "BasicBitmap_default junk x st = give x 0 (map junk [0..<words_needed st 0]) st"
    using assms(3) by (simp add: BasicBitmap_default_def new_array_def put_object_def give_def freed_by_def)
  moreover have "bits_of \<lparr>bm_map = ws, bm_size = 0\<rparr> = []" for ws :: "'w word list"
    by (simp add: bits_of_def)
  ultimately show ?thesis
    using achieves_give [OF assms(1,2), of 0 "map junk [0..<words_needed st 0]" x] by simp
qed

text \<open>Objects that look at the array of another object or of the caller.\<close>

lemma contents_shed:
  assumes "freed_by st x (ob_map ob) = Some (new, ws)" and "bm_ok \<lparr>bm_map = ws, bm_size = ob_size ob\<rparr>"
  shows "ob_bits (shed x (Some ob) st) x = Some (bits_of \<lparr>bm_map = ws, bm_size = ob_size ob\<rparr>)"
  using assms by (simp add: ob_bits_def shed_def view_def)

lemma BasicBitmap_borrow_spec:
  fixes st :: "'w::len word bitmap_store"
  assumes "width_ok ([] :: 'w word list)" and "own_ok st" and "st_objects st x = None" and "n < 2 ^ 64"
    and "st_blocks st a = Some (new, ws)" and "words_needed st n \<le> length ws"
  shows "own_ok (BasicBitmap_borrow x a n st)"
    and "ob_bits (BasicBitmap_borrow x a n st) x = Some (bits_of \<lparr>bm_map = ws, bm_size = n\<rparr>)"
    and "y \<noteq> x \<Longrightarrow> ob_bits (BasicBitmap_borrow x a n st) y = ob_bits st y"
proof -
  have lend: "BasicBitmap_borrow x a n st = shed x (Some \<lparr>ob_map = a, ob_size = n, ob_alloc = False\<rparr>) st"
    using assms(3) by (simp add: BasicBitmap_borrow_def put_object_def shed_def freed_by_def)
  show "own_ok (BasicBitmap_borrow x a n st)"
    unfolding lend using assms(4) own_ok_D(6) [OF assms(2,5)] by (intro own_shed [OF assms(2)]) auto
  have "array_size \<lparr>bm_map = ws, bm_size = n\<rparr> = words_needed st n"
    using array_size_needed [of "\<lparr>bm_map = ws, bm_size = n\<rparr>" st] by simp
  then have "bm_ok \<lparr>bm_map = ws, bm_size = n\<rparr>"
    using assms(4,6) width_ok_any [OF assms(1)] by (simp add: bm_ok_def)
  then show "ob_bits (BasicBitmap_borrow x a n st) x = Some (bits_of \<lparr>bm_map = ws, bm_size = n\<rparr>)"
    unfolding lend using contents_shed [of st x "\<lparr>ob_map = a, ob_size = n, ob_alloc = False\<rparr>" new ws] assms(3,5)
    by (simp add: freed_by_def)
  show "y \<noteq> x \<Longrightarrow> ob_bits (BasicBitmap_borrow x a n st) y = ob_bits st y"
    unfolding lend using assms(3) by (intro contents_shed_other) (simp add: ob_apart_def)
qed

lemma BasicBitmap_copy_spec:
  fixes st :: "'w::len word bitmap_store"
  assumes "width_ok ([] :: 'w word list)" and "own_ok st" and "st_objects st x = None"
    and "ob_bits st src = Some bs"
  shows "\<exists>st'. BasicBitmap_copy junk x src st = Inr st' \<and> own_ok st' \<and> ob_bits st' x = Some bs
    \<and> (\<forall>y. y \<noteq> x \<longrightarrow> ob_bits st' y = ob_bits st y)"
proof -
  obtain s new ws where s: "st_objects st src = Some s" "st_blocks st (ob_map s) = Some (new, ws)"
    "words_needed st (ob_size s) \<le> length ws" "bm_ok \<lparr>bm_map = ws, bm_size = ob_size s\<rparr>"
    "bs = bits_of \<lparr>bm_map = ws, bm_size = ob_size s\<rparr>"
    using contentsE [OF assms(4)] .
  note size = own_ok_D(1) [OF assms(2) s(1)] and less = own_ok_D(2) [OF assms(2) s(1)]
  have freed_by: "freed_by st x = st_blocks st" using assms(3) by (simp add: freed_by_def)
  have other: "y \<noteq> x \<Longrightarrow> ob_apart st x y" for y using assms(3) by (auto simp: ob_apart_def)
  show ?thesis
  proof (cases "ob_alloc s")
    case True
    then have len: "length ws = words_needed st (ob_size s)"
      using own_ok_D(3) [OF assms(2) s(1)] s(2) by auto
    have "BasicBitmap_copy junk x src st = Inr (give x (ob_size s) ws st)"
      using True s(1,2) len less
      by (simp add: BasicBitmap_copy_def object_at_def new_array_def copy_words_def put_object_def give_def
          freed_by Let_def fun_upd_twist)
    then show ?thesis
      using achieves_give [OF assms(1,2) size len, of x] other by (simp add: achieves_def s(5))
  next
    case False
    let ?ob = "\<lparr>ob_map = ob_map s, ob_size = ob_size s, ob_alloc = False\<rparr>"
    have "BasicBitmap_copy junk x src st = Inr (shed x (Some ?ob) st)"
      using False s(1) by (simp add: BasicBitmap_copy_def object_at_def put_object_def shed_def freed_by)
    moreover have "own_ok (shed x (Some ?ob) st)"
      using size less by (intro own_shed [OF assms(2)]) auto
    moreover have "ob_bits (shed x (Some ?ob) st) x = Some bs"
      using contents_shed [of st x ?ob new ws] s freed_by by simp
    ultimately show ?thesis using contents_shed_other [OF other] by blast
  qed
qed

lemma own_move:
  assumes "own_ok st" and "st_objects st x = None" and s: "st_objects st src = Some s"
  shows "own_ok (st\<lparr>st_objects := (st_objects st)(x \<mapsto> s, src \<mapsto> s\<lparr>ob_alloc := False\<rparr>)\<rparr>)" (is "own_ok ?st")
proof -
  note D = own_ok_D [OF assms(1)]
  have ne: "x \<noteq> src" using assms(2,3) by auto
  show ?thesis
  proof (rule own_okI)
    fix y ob assume "st_objects ?st y = Some ob"
    then show "ob_size ob < 2 ^ 64 \<and> ob_map ob < st_next ?st"
      using D(1,2) [of y ob] D(1,2) [OF s] by (auto split: if_splits)
  next
    fix y ob assume "st_objects ?st y = Some ob" "ob_alloc ob"
    then show "\<exists>vs. st_blocks ?st (ob_map ob) = Some (True, vs) \<and> length vs = words_needed ?st (ob_size ob)"
      using D(3) [of y ob] D(3) [OF s] by (auto split: if_splits)
  next
    fix y z ob pb assume "st_objects ?st y = Some ob" "st_objects ?st z = Some pb" "ob_alloc ob" "ob_alloc pb"
      "ob_map ob = ob_map pb"
    then show "y = z"
      using D(4) [of y ob z pb] D(4) [OF s, of z pb] D(4) [OF _ s, of y ob] by (auto split: if_splits)
  next
    fix a vs assume "st_blocks ?st a = Some (True, vs)"
    then obtain y ob where y: "st_objects st y = Some ob" "ob_alloc ob" "ob_map ob = a"
      using D(5) [of a vs] by auto
    have "y \<noteq> x" using y(1) assms(2) by auto
    then show "\<exists>y ob. st_objects ?st y = Some ob \<and> ob_alloc ob \<and> ob_map ob = a"
      using y s ne by (cases "y = src") (auto intro: exI [of _ x] exI [of _ y])
  next
    fix a blk assume "st_blocks ?st a = Some blk"
    then show "a < st_next ?st" using D(6) [of a blk] by simp
  qed
qed

lemma BasicBitmap_move_spec:
  fixes st :: "'w::len word bitmap_store"
  assumes "own_ok st" and "st_objects st x = None" and "ob_bits st src = Some bs"
  shows "\<exists>st'. BasicBitmap_move x src st = Inr st' \<and> own_ok st' \<and> ob_bits st' x = Some bs
    \<and> (\<forall>y. y \<noteq> x \<longrightarrow> ob_bits st' y = ob_bits st y)"
proof -
  obtain s new ws where s: "st_objects st src = Some s" "st_blocks st (ob_map s) = Some (new, ws)"
    "bm_ok \<lparr>bm_map = ws, bm_size = ob_size s\<rparr>" "bs = bits_of \<lparr>bm_map = ws, bm_size = ob_size s\<rparr>"
    using contentsE [OF assms(3)] by metis
  have ne: "x \<noteq> src" using assms(2) s(1) by auto
  let ?st = "st\<lparr>st_objects := (st_objects st)(x \<mapsto> s, src \<mapsto> s\<lparr>ob_alloc := False\<rparr>)\<rparr>"
  have "\<not> ob_alloc s \<Longrightarrow> (st_objects st)(x \<mapsto> s, src \<mapsto> s\<lparr>ob_alloc := False\<rparr>) = (st_objects st)(x \<mapsto> s)"
    using s(1) ne by (intro fun_upd_idem) simp
  then have "BasicBitmap_move x src st = Inr ?st"
    using s(1) by (simp add: BasicBitmap_move_def object_at_def put_object_def Let_def)
  moreover have "ob_bits ?st x = Some bs"
    using s ne by (simp add: ob_bits_def view_def)
  moreover have "ob_bits ?st y = ob_bits st y" if "y \<noteq> x" for y
    using that s(1) by (cases "y = src") (simp_all add: ob_bits_def view_def split: option.split)
  ultimately show ?thesis using own_move [OF assms(1,2) s(1)] by blast
qed

lemma DeleteMap_own:
  assumes "own_ok st" and "st_objects st x = Some ob"
  shows "(if ob_alloc ob then DeleteMap (ob_map ob) (words_needed st (ob_size ob)) st else Inr st) =
    Inr (st\<lparr>st_blocks := freed_by st x\<rparr>)"
  using own_ok_D(3) [OF assms] assms(2) by (auto simp: DeleteMap_def freed_by_def)

lemma destroy_spec:
  assumes "own_ok st" and "st_objects st x = Some ob"
  shows "\<exists>st'. destroy_BasicBitmap x st = Inr st' \<and> own_ok st' \<and> st_objects st' x = None
    \<and> (\<forall>y. ob_apart st x y \<longrightarrow> ob_bits st' y = ob_bits st y)"
proof -
  have "destroy_BasicBitmap x st = Inr (shed x None st)"
    using assms(2) DeleteMap_own [OF assms] by (simp add: destroy_BasicBitmap_def object_at_def shed_def)
  then show ?thesis
    using own_shed [OF assms(1), of None x] contents_shed_other [of st x] by (auto simp: shed_def)
qed

section \<open>Resizing\<close>

lemma index_needed: "k < n \<Longrightarrow> k div LENGTH('w) < words_needed (st :: 'w::len word bitmap_store) n"
  using index_in_array [of k "\<lparr>bm_map = [] :: 'w word list, bm_size = n\<rparr>"]
    array_size_needed [of "\<lparr>bm_map = [] :: 'w word list, bm_size = n\<rparr>" st] by simp

lemma bits_of_prefix:
  fixes ws vs :: "'w::len word list"
  assumes "\<And>k. k < n \<Longrightarrow> vs ! (k div LENGTH('w)) = ws ! (k div LENGTH('w))" and "n \<le> p" and "n \<le> q"
  shows "take n (bits_of \<lparr>bm_map = vs, bm_size = p\<rparr>) = take n (bits_of \<lparr>bm_map = ws, bm_size = q\<rparr>)"
  using assms by (intro nth_equalityI) (simp_all add: testb_def)

lemma Resize_realloc:
  fixes st :: "'w::len word bitmap_store" and junk :: "nat \<Rightarrow> 'w word"
  assumes "own_ok st" and "st_objects st x = Some ob" and "st_blocks st (ob_map ob) = Some (new, ws)"
    and "words_needed st (ob_size ob) \<le> length ws" and "words_needed st n \<noteq> words_needed st (ob_size ob)"
  defines "m \<equiv> min (words_needed st n) (words_needed st (ob_size ob))"
  defines "st1 \<equiv> give x n (take m ws @ drop m (map junk [0..<words_needed st n])) st"
  shows "bm_Resize junk x n v st =
    (if ob_size ob < n then update_bits x (\<lambda>b. SetRange b (ob_size ob) n v) st1 else Inr st1)"
proof -
  have ne: "ob_map ob \<noteq> st_next st" using own_ok_D(2) [OF assms(1,2)] by simp
  note run = bm_Resize_def object_at_def new_array_def copy_words_def DeleteMap_def put_object_def
    give_def freed_by_def Let_def fun_upd_twist words_needed_def m_def st1_def
  show ?thesis
  proof (cases "ob_alloc ob")
    case True
    then have "new" "length ws = words_needed st (ob_size ob)"
      using own_ok_D(3) [OF assms(1,2)] assms(3) by auto
    then show ?thesis
      using assms(2-5) ne True by (cases st; cases ob) (simp add: run)
  next
    case False
    then show ?thesis
      using assms(2-5) ne by (cases st; cases ob) (simp add: run min.coboundedI2)
  qed
qed

lemma Resize_start:
  fixes st :: "'w::len word bitmap_store"
  assumes "width_ok ([] :: 'w word list)" and "own_ok st" and "ob_bits st x = Some bs" and "n < 2 ^ 64"
  obtains st1 cs where "achieves (Inr st1) st x cs" and "length cs = n"
    and "take (min n (length bs)) cs = take (min n (length bs)) bs"
    and "bm_Resize junk x n v st =
      (if length bs < n then update_bits x (\<lambda>b. SetRange b (length bs) n v) st1 else Inr st1)"
proof -
  obtain ob new ws where x: "st_objects st x = Some ob" "st_blocks st (ob_map ob) = Some (new, ws)"
    "words_needed st (ob_size ob) \<le> length ws" "bm_ok \<lparr>bm_map = ws, bm_size = ob_size ob\<rparr>"
    "bs = bits_of \<lparr>bm_map = ws, bm_size = ob_size ob\<rparr>"
    using contentsE [OF assms(3)] .
  let ?new = "words_needed st n" and ?old = "words_needed st (ob_size ob)"
  have size: "length bs = ob_size ob" by (simp add: x(5))
  show thesis
  proof (cases "?new = ?old")
    case True
    have "bm_Resize junk x n v st =
        (if length bs < n then update_bits x (\<lambda>b. SetRange b (length bs) n v) (rewrite x n ws st)
         else Inr (rewrite x n ws st))"
      using True x(1,2) size by (simp add: bm_Resize_def object_at_def put_object_def rewrite_def fun_upd_idem)
    moreover have "achieves (Inr (rewrite x n ws st)) st x (bits_of \<lparr>bm_map = ws, bm_size = n\<rparr>)"
      using True x(3) by (intro achieves_rewrite [OF assms(1,2,4) x(1,2)]) simp_all
    moreover have "take (min n (length bs)) (bits_of \<lparr>bm_map = ws, bm_size = n\<rparr>) = take (min n (length bs)) bs"
      unfolding x(5) by (simp add: bits_of_def take_map)
    ultimately show thesis using that by simp
  next
    case False
    let ?m = "min ?new ?old"
    let ?ws = "take ?m ws @ drop ?m (map junk [0..<?new])"
    have m: "?m \<le> length ws" using x(3) by simp
    have "bm_Resize junk x n v st =
        (if length bs < n then update_bits x (\<lambda>b. SetRange b (length bs) n v) (give x n ?ws st)
         else Inr (give x n ?ws st))"
      using Resize_realloc [OF assms(2) x(1-3) False] size by simp
    moreover have "achieves (Inr (give x n ?ws st)) st x (bits_of \<lparr>bm_map = ?ws, bm_size = n\<rparr>)"
      using m by (intro achieves_give [OF assms(1,2,4)]) simp
    moreover have "take (min n (length bs)) (bits_of \<lparr>bm_map = ?ws, bm_size = n\<rparr>) = take (min n (length bs)) bs"
      unfolding x(5)
    proof (rule bits_of_prefix)
      fix k assume "k < min n (length (bits_of \<lparr>bm_map = ws, bm_size = ob_size ob\<rparr>))"
      then have "k div LENGTH('w) < ?m" using index_needed [of k n st] index_needed [of k "ob_size ob" st] by simp
      then show "?ws ! (k div LENGTH('w)) = ws ! (k div LENGTH('w))" using m by (simp add: nth_append)
    qed simp_all
    ultimately show thesis using that by simp
  qed
qed

lemma SetRange_tail:
  assumes "bm_ok b" and "bits_of b = cs" and "k \<le> length cs"
  shows "updated (SetRange b k (length cs) v) b (\<lambda>i. (take k cs @ replicate (length cs - k) v) ! i)"
proof -
  have n: "bm_size b = length cs" using assms(2) length_bits_of by metis
  have eq: "map (\<lambda>i. if k \<le> i \<and> i < length cs then v else bits_of b ! i) [0..<bm_size b] =
      map (\<lambda>i. (take k cs @ replicate (length cs - k) v) ! i) [0..<bm_size b]"
    using assms(2,3) n by (auto simp: nth_append)
  show ?thesis
    using SetRange_spec [OF assms(1,3), of v] n unfolding updated_cong [OF eq] by simp
qed

lemma Resize_spec:
  fixes st :: "'w::len word bitmap_store"
  assumes "width_ok ([] :: 'w word list)" and "own_ok st" and "ob_bits st x = Some bs" and "n < 2 ^ 64"
  shows "achieves (bm_Resize junk x n v st) st x (take n bs @ replicate (n - length bs) v)"
proof -
  obtain st1 cs where one: "achieves (Inr st1) st x cs" "length cs = n"
    "take (min n (length bs)) cs = take (min n (length bs)) bs"
    and run: "bm_Resize junk x n v st =
      (if length bs < n then update_bits x (\<lambda>b. SetRange b (length bs) n v) st1 else Inr st1)"
    using Resize_start [OF assms] .
  show ?thesis
  proof (cases "length bs < n")
    case True
    have "achieves (update_bits x (\<lambda>b. SetRange b (length bs) n v) st1) st1 x
        (map (\<lambda>i. (take (length bs) cs @ replicate (length cs - length bs) v) ! i) [0..<length cs])"
      using achieves_contents [OF one(1)] True one(2) SetRange_tail [of _ cs "length bs" v]
      by (intro achieves_update [OF assms(1)]) auto
    moreover have "map (\<lambda>i. (take (length bs) cs @ replicate (length cs - length bs) v) ! i) [0..<length cs] =
        take n bs @ replicate (n - length bs) v"
      using True one(2,3) by (intro nth_equalityI) (simp_all add: min_def)
    ultimately show ?thesis
      using run True achieves_step [OF one(1)] by simp
  next
    case False
    then show ?thesis using run one by (simp add: min_def)
  qed
qed

section \<open>Assignment\<close>

lemma own_next: "own_ok st \<Longrightarrow> own_ok (st\<lparr>st_next := st_next st + 1\<rparr>)"
  unfolding own_ok_def by (fastforce intro: less_SucI)

lemma contents_next [simp]: "ob_bits (st\<lparr>st_next := n\<rparr>) = ob_bits st"
  by (intro ext contents_cong) simp_all

text \<open>An assignment from an object that owns its array.\<close>

lemma assign_owner:
  fixes st :: "'w::len word bitmap_store"
  assumes "width_ok ([] :: 'w word list)" and "own_ok st" and "x \<noteq> src" and "st_objects st x = Some ob"
    and "ob_bits st src = Some bs" and "st_objects st src = Some s" and "ob_alloc s"
  shows "achieves (operator_assign junk x src st) st x bs"
proof -
  obtain ws where s: "st_blocks st (ob_map s) = Some (True, ws)" "length ws = words_needed st (ob_size s)"
    using own_ok_D(3) [OF assms(2,6,7)] by blast
  have bs: "bs = bits_of \<lparr>bm_map = ws, bm_size = ob_size s\<rparr>"
    using assms(5,6) s(1) by (auto simp: ob_bits_def view_def split: if_splits)
  note size = own_ok_D(1) [OF assms(2,6)]
  have less: "ob_map s < st_next st" "ob_map ob < st_next st"
    using own_ok_D(2) [OF assms(2)] assms(4,6) by auto
  note give = achieves_give [OF assms(1,2) size s(2), of x]
  show ?thesis
  proof (cases "ob_alloc ob")
    case True
    obtain vs where ob: "st_blocks st (ob_map ob) = Some (True, vs)" "length vs = words_needed st (ob_size ob)"
      using own_ok_D(3) [OF assms(2,4) True] by blast
    have ne: "ob_map s \<noteq> ob_map ob" using own_ok_D(4) [OF assms(2,4,6) True assms(7)] assms(3) by auto
    show ?thesis
    proof (cases "words_needed st (ob_size ob) = words_needed st (ob_size s)")
      case same: True
      have "operator_assign junk x src st = Inr (rewrite x (ob_size s) ws st)"
        using assms(3,4,6,7) True same s ob
        by (cases ob) (simp add: operator_assign_def object_at_def copy_words_def put_object_def rewrite_def)
      then show ?thesis
        unfolding bs using s(2) ob(2) same
        by (simp add: achieves_rewrite [OF assms(1,2) size assms(4) ob(1)])
    next
      case False
      have "operator_assign junk x src st = Inr (give x (ob_size s) ws st)"
        using assms(3,4,6,7) True False s ob ne less
        by (simp add: operator_assign_def object_at_def DeleteMap_def new_array_def copy_words_def put_object_def
            give_def freed_by_def)
      then show ?thesis using give bs by simp
    qed
  next
    case False
    have "operator_assign junk x src st = Inr (give x (ob_size s) ws st)"
      using assms(3,4,6,7) False s less
      by (simp add: operator_assign_def object_at_def new_array_def copy_words_def put_object_def
          give_def freed_by_def)
    then show ?thesis using give bs by simp
  qed
qed

text \<open>An assignment from an object that borrows: the target gives up its array and borrows too.\<close>

lemma assign_borrower:
  fixes st :: "'w::len word bitmap_store"
  assumes "own_ok st" and "x \<noteq> src" and "st_objects st x = Some ob" and "st_objects st src = Some s"
    and "\<not> ob_alloc s"
  shows "\<exists>k. operator_assign junk x src st = Inr ((shed x (Some s) st)\<lparr>st_next := st_next st + k\<rparr>) \<and> k \<le> 1"
proof -
  have s: "\<lparr>ob_map = ob_map s, ob_size = ob_size s, ob_alloc = False\<rparr> = s" using assms(5) by (cases s) simp
  have fresh: "freed_by st x (st_next st) = None"
    using own_ok_D(6) [OF assms(1), of "st_next st"] released_some [of st x "st_next st"]
    by (cases "freed_by st x (st_next st)") auto
  note del = DeleteMap_own [OF assms(1,3)]
  show ?thesis
  proof (cases "ob_alloc ob \<and> words_needed st (ob_size ob) \<noteq> words_needed st (ob_size s)")
    case True
    then have "operator_assign junk x src st = Inr ((shed x (Some s) st)\<lparr>st_next := st_next st + 1\<rparr>)"
      using assms(2-5) del fresh
      by (simp add: operator_assign_def object_at_def new_array_def DeleteMap_def [of "st_next st"] put_object_def
          shed_def s fun_upd_idem)
    then show ?thesis by blast
  next
    case False
    then have "operator_assign junk x src st = Inr ((shed x (Some s) st)\<lparr>st_next := st_next st + 0\<rparr>)"
      using assms(2-5) del
      by (cases "ob_alloc ob") (simp_all add: operator_assign_def object_at_def put_object_def shed_def s freed_by_def)
    then show ?thesis by blast
  qed
qed

lemma own_borrower:
  assumes "own_ok st" and "st_objects st src = Some s" and "\<not> ob_alloc s" and "k \<le> 1"
  shows "own_ok ((shed x (Some s) st)\<lparr>st_next := st_next st + k\<rparr>)"
proof -
  have "own_ok (shed x (Some s) st)"
    using own_ok_D(1,2) [OF assms(1,2)] assms(3) by (intro own_shed [OF assms(1)]) auto
  moreover have "k = 0 \<or> k = 1" using assms(4) by linarith
  ultimately show ?thesis
    using own_next [of "shed x (Some s) st"] by (auto simp: shed_def)
qed

text \<open>The target may lose the array that the source borrows from it.\<close>

lemma operator_assign_spec:
  fixes st :: "'w::len word bitmap_store"
  assumes "width_ok ([] :: 'w word list)" and "own_ok st" and "x \<noteq> src" and "st_objects st x = Some ob"
    and "ob_bits st src = Some bs" and "st_objects st src = Some s"
  shows "\<exists>st'. operator_assign junk x src st = Inr st' \<and> own_ok st' \<and>
    (if ob_alloc ob \<and> \<not> ob_alloc s \<and> ob_map ob = ob_map s then ob_bits st' x = None \<and> ob_bits st' src = None
     else ob_bits st' x = Some bs) \<and>
    (\<forall>y. ob_apart st x y \<longrightarrow> ob_bits st' y = ob_bits st y)"
proof (cases "ob_alloc s")
  case True
  then show ?thesis using assign_owner [OF assms True, of junk] by (auto simp: achieves_def)
next
  case False
  obtain k where k: "operator_assign junk x src st = Inr ((shed x (Some s) st)\<lparr>st_next := st_next st + k\<rparr>)" "k \<le> 1"
    using assign_borrower [OF assms(2-4,6) False] by blast
  obtain new ws where s: "st_blocks st (ob_map s) = Some (new, ws)" "bm_ok \<lparr>bm_map = ws, bm_size = ob_size s\<rparr>"
    "bs = bits_of \<lparr>bm_map = ws, bm_size = ob_size s\<rparr>"
    using contentsE [OF assms(5)] assms(6) by (metis option.inject)
  have "ob_bits (shed x (Some s) st) x = Some bs" if "\<not> (ob_alloc ob \<and> ob_map ob = ob_map s)"
    using contents_shed [of st x s new ws] s that assms(4) by (auto simp: freed_by_def)
  moreover have "ob_bits (shed x (Some s) st) y = None"
    if "ob_alloc ob" "ob_map ob = ob_map s" "y = x \<or> y = src" for y
    using that assms(4,6) by (auto simp: ob_bits_def shed_def view_def freed_by_def)
  ultimately show ?thesis
    using k(1) own_borrower [OF assms(2,6) False k(2), of x] contents_shed_other [of st x] False by simp
qed

end
