(* ===== verification/Bitmap_Contract.thy ===== *)
theory Bitmap_Contract
  imports Bitmap_Ownership
begin

text \<open>
  What bitmaps promise.  A bitmap whose array is long enough stands for the list of its bits; updates,
  tests, counts, searches, comparison, iteration and printing are those of that list, whatever the
  unused bits of the last word are.  Two example bitmaps over bytes serve in the witnesses.
\<close>

definition bitmap_a :: "8 word bitmap" where
  "bitmap_a = \<lparr>bm_map = [0xA5, 0xFF], bm_size = 10\<rparr>"

definition bitmap_b :: "8 word bitmap" where
  "bitmap_b = \<lparr>bm_map = [0x81, 0x02], bm_size = 10\<rparr>"

lemma bytes_ok: "width_ok (ws :: 8 word list)"
  by (auto simp: width_ok_def intro: exI [of _ 3])

lemma bitmap_a_ok: "bm_ok bitmap_a" and bitmap_b_ok: "bm_ok bitmap_b"
  by (simp_all add: bm_ok_def bytes_ok bitmap_a_def bitmap_b_def array_size_def RequiredArraySize_def)

lemma bitmap_a_bits: "bits_of bitmap_a = [True, False, True, False, False, True, False, True, True, True]"
  and bitmap_b_bits: "bits_of bitmap_b = [True, False, False, False, False, False, False, True, False, True]"
  by code_simp+

lemma GetMapElement_spec:
  "bm_ok b \<Longrightarrow> GetMapElement b k = (if k < array_size b then Inr (bm_map b ! k) else Inl CheckFailed)"
  by (auto simp: GetMapElement_def bm_ok_def)

lemma SetMapElement_spec:
  fixes b :: "'w::len word bitmap"
  assumes "bm_ok b" and "k < array_size b"
  shows "updated (SetMapElement b k w) b
    (\<lambda>i. if i div LENGTH('w) = k then bit w (i mod LENGTH('w)) else bits_of b ! i)"
proof (rule updatedI [OF assms(1)])
  have k: "k < length (bm_map b)" using assms by (simp add: bm_ok_def)
  show "SetMapElement b k w = Inr (b\<lparr>bm_map := (bm_map b)[k := w]\<rparr>)"
    using assms(2) k by (simp add: SetMapElement_def)
  show "testb ((bm_map b)[k := w]) i = (if i div LENGTH('w) = k then bit w (i mod LENGTH('w)) else bits_of b ! i)"
    if "i < bm_size b" for i using that k by (simp add: testb_update)
qed simp

text \<open>
  Property C14. On bitmaps whose arrays are long enough the operations that read and change bits never
  leave their arrays and act on the list of bits: \<open>Get\<close> and \<open>Set\<close> are indexing and update, and abort
  exactly past the size; the others give every bit its Boolean combination, where bits that the other
  bitmap does not have count as zero; \<open>Difference\<close> and \<open>ExclusiveOr\<close> abort exactly on different sizes.
\<close>

theorem Bitmap_updates:
  fixes b c :: "'w::len word bitmap"
  assumes "bm_ok b" and "bm_ok c"
  shows "(\<forall>i. bm_Get b i = (if i < bm_size b then Inr (bits_of b ! i) else Inl HardeningAssert)) \<and>
    (\<forall>i v. if i < bm_size b
      then \<exists>b'. bm_Set b i v = Inr (b', bits_of b ! i) \<and> bm_ok b' \<and> bits_of b' = (bits_of b)[i := v]
      else bm_Set b i v = Inl HardeningAssert) \<and>
    (\<forall>i. if i < bm_size b then updated (Toggle b i) b (\<lambda>j. if j = i then \<not> bits_of b ! i else bits_of b ! j)
      else Toggle b i = Inl HardeningAssert) \<and>
    (\<forall>v. updated (SetAll b v) b (\<lambda>i. v)) \<and>
    (\<forall>s e v. s \<le> e \<and> e \<le> bm_size b \<longrightarrow>
      updated (SetRange b s e v) b (\<lambda>i. if s \<le> i \<and> i < e then v else bits_of b ! i)) \<and>
    (\<forall>k w. if k < array_size b
      then updated (SetMapElement b k w) b (\<lambda>i. if i div LENGTH('w) = k then bit w (i mod LENGTH('w)) else bits_of b ! i)
      else SetMapElement b k w = Inl CheckFailed) \<and>
    updated (bm_Union b c) b (\<lambda>i. bits_of b ! i \<or> i < bm_size c \<and> bits_of c ! i) \<and>
    updated (bm_Intersection b c) b (\<lambda>i. bits_of b ! i \<and> i < bm_size c \<and> bits_of c ! i) \<and>
    updated (bm_Complement b) b (\<lambda>i. \<not> bits_of b ! i) \<and>
    (if bm_size b = bm_size c
     then updated (bm_Difference b c) b (\<lambda>i. bits_of b ! i \<and> \<not> bits_of c ! i) \<and>
       updated (ExclusiveOr b c) b (\<lambda>i. bits_of b ! i \<noteq> bits_of c ! i)
     else bm_Difference b c = Inl CheckFailed \<and> ExclusiveOr b c = Inl CheckFailed)"
proof (intro conjI allI impI)
  show "bm_Get b i = (if i < bm_size b then Inr (bits_of b ! i) else Inl HardeningAssert)" for i
    by (rule bm_Get_spec [OF assms(1)])
  show "if i < bm_size b
      then \<exists>b'. bm_Set b i v = Inr (b', bits_of b ! i) \<and> bm_ok b' \<and> bits_of b' = (bits_of b)[i := v]
      else bm_Set b i v = Inl HardeningAssert" for i v
    using bm_Set_spec [OF assms(1), of i v] by (simp add: bm_Set_def)
  show "if i < bm_size b then updated (Toggle b i) b (\<lambda>j. if j = i then \<not> bits_of b ! i else bits_of b ! j)
      else Toggle b i = Inl HardeningAssert" for i
    using Toggle_spec [OF assms(1), of i] by (simp add: Toggle_def)
  show "updated (SetAll b v) b (\<lambda>i. v)" for v by (rule SetAll_spec [OF assms(1)])
  show "updated (SetRange b s e v) b (\<lambda>i. if s \<le> i \<and> i < e then v else bits_of b ! i)"
    if "s \<le> e \<and> e \<le> bm_size b" for s e v using SetRange_spec [OF assms(1)] that by blast
  show "if k < array_size b
      then updated (SetMapElement b k w) b (\<lambda>i. if i div LENGTH('w) = k then bit w (i mod LENGTH('w)) else bits_of b ! i)
      else SetMapElement b k w = Inl CheckFailed" for k w
    using SetMapElement_spec [OF assms(1), of k w] by (simp add: SetMapElement_def)
  show "updated (bm_Union b c) b (\<lambda>i. bits_of b ! i \<or> i < bm_size c \<and> bits_of c ! i)"
    by (rule bm_Union_spec [OF assms])
  show "updated (bm_Intersection b c) b (\<lambda>i. bits_of b ! i \<and> i < bm_size c \<and> bits_of c ! i)"
    by (rule bm_Intersection_spec [OF assms])
  show "updated (bm_Complement b) b (\<lambda>i. \<not> bits_of b ! i)"
    by (rule bm_Complement_spec [OF assms(1)])
  show "if bm_size b = bm_size c
     then updated (bm_Difference b c) b (\<lambda>i. bits_of b ! i \<and> \<not> bits_of c ! i) \<and>
       updated (ExclusiveOr b c) b (\<lambda>i. bits_of b ! i \<noteq> bits_of c ! i)
     else bm_Difference b c = Inl CheckFailed \<and> ExclusiveOr b c = Inl CheckFailed"
    using bm_Difference_spec [OF assms] ExclusiveOr_spec [OF assms]
    by (simp add: bm_Difference_def ExclusiveOr_def)
qed

theorem Bitmap_updates_witness:
  "bm_ok bitmap_a \<and> bm_ok bitmap_b \<and> bm_Get bitmap_a 9 = Inr True \<and> bm_Get bitmap_a 10 = Inl HardeningAssert \<and>
    updated (bm_Intersection bitmap_a bitmap_b) bitmap_a (\<lambda>i. i \<in> {0, 7, 9})"
proof -
  note all = Bitmap_updates [OF bitmap_a_ok bitmap_b_ok]
  have eq: "map (\<lambda>i. bits_of bitmap_a ! i \<and> i < bm_size bitmap_b \<and> bits_of bitmap_b ! i) [0..<bm_size bitmap_a] =
      map (\<lambda>i. i \<in> {0, 7, 9}) [0..<bm_size bitmap_a]"
    by code_simp
  have "updated (bm_Intersection bitmap_a bitmap_b) bitmap_a
      (\<lambda>i. bits_of bitmap_a ! i \<and> i < bm_size bitmap_b \<and> bits_of bitmap_b ! i)"
    using all by (elim conjE)
  then have "updated (bm_Intersection bitmap_a bitmap_b) bitmap_a (\<lambda>i. i \<in> {0, 7, 9})"
    unfolding updated_cong [OF eq] .
  moreover have "bits_of bitmap_a ! 9" "bm_size bitmap_a = 10" by code_simp+
  ultimately show ?thesis
    using conjunct1 [OF all] bitmap_a_ok bitmap_b_ok by (simp del: nth_bits_of)
qed

text \<open>
  Property C35. On bitmaps whose arrays are long enough the tests, counts and comparisons answer for the
  lists of bits: all bits zero or one, some bit set in a range, the number of ones in a range (which
  aborts exactly outside the size), the number of differing bits and the inclusion (which abort exactly on
  different sizes), common bits, and equality; equal bitmaps have the same hash value.
\<close>

theorem Bitmap_queries:
  fixes b c :: "'w::len word bitmap"
  assumes "bm_ok b" and "bm_ok c"
  shows "IsAllZeroes b = Inr (\<forall>i < bm_size b. \<not> bits_of b ! i) \<and>
    IsAllOnes b = Inr (\<forall>i < bm_size b. bits_of b ! i) \<and>
    (\<forall>s e. s \<le> e \<and> e \<le> bm_size b \<longrightarrow> TestRange b s e = Inr (\<exists>i. s \<le> i \<and> i < e \<and> bits_of b ! i)) \<and>
    (\<forall>s e. GetOnesCountInRange b s e = (if e \<le> bm_size b \<and> s \<le> e
      then Inr (length (filter (\<lambda>i. bits_of b ! i) [s..<e])) else Inl CheckFailed)) \<and>
    (\<forall>s e. GetZeroesCountInRange b s e = (if e \<le> bm_size b \<and> s \<le> e
      then Inr (length (filter (\<lambda>i. \<not> bits_of b ! i) [s..<e])) else Inl CheckFailed)) \<and>
    HammingDistance b c = (if bm_size b = bm_size c
      then Inr (length (filter (\<lambda>i. bits_of b ! i \<noteq> bits_of c ! i) [0..<bm_size b])) else Inl CheckFailed) \<and>
    IsEqual b c = Inr (bits_of b = bits_of c) \<and>
    IsSubsetOf b c = (if bm_size b = bm_size c
      then Inr (\<forall>i < bm_size b. bits_of b ! i \<longrightarrow> bits_of c ! i) else Inl CheckFailed) \<and>
    IsIntersectionNonEmpty b c =
      Inr (\<exists>i. i < bm_size b \<and> i < bm_size c \<and> bits_of b ! i \<and> bits_of c ! i) \<and>
    (operator_eq b c = Inr True \<longrightarrow> (\<forall>atomic combine combine_contiguous (state :: 'h).
      AbslHashValue atomic combine combine_contiguous state b = AbslHashValue atomic combine combine_contiguous state c))"
proof (intro conjI allI impI)
  show "GetOnesCountInRange b s e = (if e \<le> bm_size b \<and> s \<le> e
      then Inr (length (filter (\<lambda>i. bits_of b ! i) [s..<e])) else Inl CheckFailed)" for s e
    using GetOnesCountInRange_spec [OF assms(1)] by (simp add: count_bits_def)
  show "GetZeroesCountInRange b s e = (if e \<le> bm_size b \<and> s \<le> e
      then Inr (length (filter (\<lambda>i. \<not> bits_of b ! i) [s..<e])) else Inl CheckFailed)" for s e
    using sum_length_filter_compl [of "\<lambda>i. bits_of b ! i" "[s..<e]"] GetOnesCountInRange_spec [OF assms(1)]
    by (auto simp: GetZeroesCountInRange_def count_bits_def simp del: sum_length_filter_compl)
  show "HammingDistance b c = (if bm_size b = bm_size c
      then Inr (length (filter (\<lambda>i. bits_of b ! i \<noteq> bits_of c ! i) [0..<bm_size b])) else Inl CheckFailed)"
    using HammingDistance_spec [OF assms] by (simp add: count_bits_def)
  show "AbslHashValue atomic combine combine_contiguous state b = AbslHashValue atomic combine combine_contiguous state c"
    if "operator_eq b c = Inr True" for atomic combine combine_contiguous and state :: 'h
    using that IsEqual_spec [OF assms] by (intro hash_equal [OF assms]) (simp add: operator_eq_def)
qed (use IsAllZeroes_spec [OF assms(1)] IsAllOnes_spec [OF assms(1)] TestRange_spec [OF assms(1)] IsEqual_spec [OF assms]
    IsSubsetOf_spec [OF assms] IsIntersectionNonEmpty_spec [OF assms] in auto)

theorem Bitmap_queries_witness:
  "bm_ok bitmap_a \<and> bm_ok bitmap_b \<and> GetOnesCountInRange bitmap_a 1 9 = Inr 4 \<and>
    HammingDistance bitmap_a bitmap_b = Inr 3 \<and> IsSubsetOf bitmap_b bitmap_a = Inr True \<and>
    IsEqual bitmap_a bitmap_b = Inr False"
proof -
  have "length (filter (\<lambda>i. bits_of bitmap_a ! i) [1..<9]) = 4" by code_simp
  moreover have "length (filter (\<lambda>i. bits_of bitmap_a ! i \<noteq> bits_of bitmap_b ! i) [0..<bm_size bitmap_a]) = 3"
    by code_simp
  moreover have "\<forall>i < bm_size bitmap_b. bits_of bitmap_b ! i \<longrightarrow> bits_of bitmap_a ! i" by code_simp
  moreover have "bm_size bitmap_a = 10" "bm_size bitmap_b = 10" by (simp_all add: bitmap_a_def bitmap_b_def)
  moreover have "bits_of bitmap_a \<noteq> bits_of bitmap_b" by code_simp
  moreover have "GetOnesCountInRange bitmap_a 1 9 = (if 9 \<le> bm_size bitmap_a \<and> 1 \<le> (9::nat)
      then Inr (length (filter (\<lambda>i. bits_of bitmap_a ! i) [1..<9])) else Inl CheckFailed)"
    "HammingDistance bitmap_a bitmap_b = (if bm_size bitmap_a = bm_size bitmap_b
      then Inr (length (filter (\<lambda>i. bits_of bitmap_a ! i \<noteq> bits_of bitmap_b ! i) [0..<bm_size bitmap_a]))
      else Inl CheckFailed)"
    "IsEqual bitmap_a bitmap_b = Inr (bits_of bitmap_a = bits_of bitmap_b)"
    using Bitmap_queries [OF bitmap_a_ok bitmap_b_ok] by blast+
  moreover have "IsSubsetOf bitmap_b bitmap_a = (if bm_size bitmap_b = bm_size bitmap_a
      then Inr (\<forall>i < bm_size bitmap_b. bits_of bitmap_b ! i \<longrightarrow> bits_of bitmap_a ! i) else Inl CheckFailed)"
    using Bitmap_queries [OF bitmap_b_ok bitmap_a_ok] by blast
  ultimately show ?thesis
    using bitmap_a_ok bitmap_b_ok by (simp del: nth_bits_of)
qed

text \<open>
  Property C15. The searches for the next and the previous set or unset bit, which scan whole words,
  return what a search bit by bit returns, and leave the position alone when there is no such bit; they
  abort exactly when the limit is past the size.  The first and the last set bit are special cases.
\<close>

theorem Bitmap_searches:
  assumes "bm_ok b"
  shows "(\<forall>i limit. FindNextSetBitBeforeLimit b i limit = (if limit \<le> bm_size b
      then Inr (first_in (\<lambda>k. bits_of b ! k) i limit) else Inl CheckFailed)) \<and>
    (\<forall>i limit. FindNextUnsetBitBeforeLimit b i limit = (if limit \<le> bm_size b
      then Inr (first_in (\<lambda>k. \<not> bits_of b ! k) i limit) else Inl CheckFailed)) \<and>
    (\<forall>i limit. FindPreviousSetBitBeforeLimit b i limit =
      Inr (if i < bm_size b then last_in (\<lambda>k. bits_of b ! k) i limit else (False, i))) \<and>
    (\<forall>i limit. FindPreviousUnsetBitBeforeLimit b i limit =
      Inr (if i < bm_size b then last_in (\<lambda>k. \<not> bits_of b ! k) i limit else (False, i))) \<and>
    FindFirstSetBit b = Inr (first_in (\<lambda>k. bits_of b ! k) 0 (bm_size b)) \<and>
    FindLastSetBit b = Inr (if bm_size b = 0 then (False, 2 ^ 64 - 1)
      else last_in (\<lambda>k. bits_of b ! k) (bm_size b - 1) 0)"
proof (intro conjI allI)
  show "FindFirstSetBit b = Inr (first_in (\<lambda>k. bits_of b ! k) 0 (bm_size b))"
    using FindNextSetBitBeforeLimit_spec [OF assms] by (simp add: FindFirstSetBit_def FindNextSetBit_def)
  show "FindLastSetBit b = Inr (if bm_size b = 0 then (False, 2 ^ 64 - 1)
      else last_in (\<lambda>k. bits_of b ! k) (bm_size b - 1) 0)"
    using FindPreviousSetBitBeforeLimit_spec [OF assms] by (simp add: FindLastSetBit_def)
qed (rule FindNextSetBitBeforeLimit_spec [OF assms] FindNextUnsetBitBeforeLimit_spec [OF assms]
    FindPreviousSetBitBeforeLimit_spec [OF assms] FindPreviousUnsetBitBeforeLimit_spec [OF assms])+

theorem Bitmap_searches_witness:
  "bm_ok bitmap_b \<and> FindNextSetBitBeforeLimit bitmap_b 1 9 = Inr (True, 7) \<and>
    FindNextSetBitBeforeLimit bitmap_b 1 7 = Inr (False, 1) \<and>
    FindPreviousSetBitBeforeLimit bitmap_b 8 1 = Inr (True, 7) \<and> FindLastSetBit bitmap_b = Inr (True, 9)"
proof -
  have "first_in (\<lambda>k. bits_of bitmap_b ! k) 1 9 = (True, 7)" "first_in (\<lambda>k. bits_of bitmap_b ! k) 1 7 = (False, 1)"
    "last_in (\<lambda>k. bits_of bitmap_b ! k) 8 1 = (True, 7)" "last_in (\<lambda>k. bits_of bitmap_b ! k) 9 0 = (True, 9)"
    by code_simp+
  moreover have "bm_size bitmap_b = 10" by (simp add: bitmap_b_def)
  ultimately show ?thesis
    using Bitmap_searches [OF bitmap_b_ok] bitmap_b_ok by simp
qed

text \<open>
  \<open>CompareTo\<close> orders bitmaps as its documentation says: by the number \<open>b0 + 2 b1 + 4 b2 + ...\<close>
  that the bits stand for, and by size among bitmaps of the same number; the operators follow it, and \<open>==\<close>
  holds exactly where it is zero.
\<close>

theorem Bitmap_order:
  fixes b c :: "'w::len word bitmap"
  assumes "bm_ok b" and "bm_ok c"
  shows "CompareTo b c = Inr (bitmap_order b c) \<and>
    operator_less b c = Inr (value_of b < value_of c \<or> value_of b = value_of c \<and> bm_size b < bm_size c) \<and>
    operator_le b c = Inr (value_of b < value_of c \<or> value_of b = value_of c \<and> bm_size b \<le> bm_size c) \<and>
    operator_greater b c = operator_less c b \<and> operator_ge b c = operator_le c b \<and>
    operator_eq b c = Inr (bitmap_order b c = 0) \<and> operator_ne b c = Inr (bitmap_order b c \<noteq> 0)"
proof (intro conjI)
  note cmp = CompareTo_spec [OF assms] CompareTo_spec [OF assms(2,1)]
  show "CompareTo b c = Inr (bitmap_order b c)" by (rule cmp)
  show "operator_less b c = Inr (value_of b < value_of c \<or> value_of b = value_of c \<and> bm_size b < bm_size c)"
    "operator_le b c = Inr (value_of b < value_of c \<or> value_of b = value_of c \<and> bm_size b \<le> bm_size c)"
    by (auto simp: operator_less_def operator_le_def cmp bitmap_order_def sgn_if)
  show "operator_greater b c = operator_less c b" "operator_ge b c = operator_le c b"
    by (auto simp: operator_less_def operator_le_def operator_greater_def operator_ge_def cmp bitmap_order_def sgn_if)
  have "bits_of b = bits_of c \<longleftrightarrow> bitmap_order b c = 0"
  proof
    assume "bits_of b = bits_of c"
    then show "bitmap_order b c = 0" by (metis bitmap_order_bits)
  next
    assume "bitmap_order b c = 0"
    then show "bits_of b = bits_of c" by (rule bitmap_order_zero)
  qed
  then show "operator_eq b c = Inr (bitmap_order b c = 0)" "operator_ne b c = Inr (bitmap_order b c \<noteq> 0)"
    by (simp_all add: operator_eq_def operator_ne_def IsEqual_spec [OF assms])
qed

theorem Bitmap_order_witness:
  "bm_ok bitmap_a \<and> bm_ok bitmap_b \<and> CompareTo bitmap_a bitmap_b = Inr 1 \<and> operator_less bitmap_a bitmap_b = Inr False"
proof -
  have "bitmap_order bitmap_a bitmap_b = 1" "\<not> value_of bitmap_a \<le> value_of bitmap_b"
    by code_simp+
  then show ?thesis
    using Bitmap_order [OF bitmap_a_ok bitmap_b_ok] bitmap_a_ok bitmap_b_ok by simp
qed

text \<open>
  Iterating over \<open>TrueBitIndices\<close> ends and visits exactly the set bits, in order; \<open>ToString\<close>
  returns and prints every bit, and the grouped form differs from it only by underscores.
\<close>

theorem Bitmap_iteration:
  assumes "bm_ok b"
  shows "TrueBitIndices b = Some (Inr (filter (\<lambda>k. bits_of b ! k) [0..<bm_size b])) \<and>
    bm_ToString b = Some (Inr (map show_bit (bits_of b))) \<and>
    (\<forall>grp. \<exists>str. ToString_group b grp = Some (Inr str) \<and>
      filter (\<lambda>c. c \<noteq> CHR ''_'') str = map show_bit (bits_of b))"
proof (intro conjI allI)
  show "TrueBitIndices b = Some (Inr (filter (\<lambda>k. bits_of b ! k) [0..<bm_size b]))"
    by (rule TrueBitIndices_spec [OF assms])
  show "bm_ToString b = Some (Inr (map show_bit (bits_of b)))"
    by (rule ToString_spec [OF assms])
  fix grp
  have no: "CHR ''_'' \<notin> set (map show_bit (bits_of b))" by (auto simp: show_bit_def)
  then have id: "filter (\<lambda>c. c \<noteq> CHR ''_'') (map show_bit (bits_of b)) = map show_bit (bits_of b)"
    by (auto simp: filter_id_conv show_bit_def)
  show "\<exists>str. ToString_group b grp = Some (Inr str) \<and>
      filter (\<lambda>c. c \<noteq> CHR ''_'') str = map show_bit (bits_of b)"
  proof (cases "grp \<le> 0")
    case True
    then show ?thesis using id by (simp add: ToString_group_def ToString_spec [OF assms])
  next
    case False
    then show ?thesis
      using group_loop_filter [OF _ no, of "nat grp" 0] by (simp add: ToString_group_def ToString_spec [OF assms])
  qed
qed

theorem Bitmap_iteration_witness:
  "bm_ok bitmap_a \<and> TrueBitIndices bitmap_a = Some (Inr [0, 2, 5, 7, 8, 9]) \<and>
    bm_ToString bitmap_a = Some (Inr ''1010010111'')"
proof -
  have "filter (\<lambda>k. bits_of bitmap_a ! k) [0..<bm_size bitmap_a] = [0, 2, 5, 7, 8, 9]"
    "map show_bit (bits_of bitmap_a) = ''1010010111''"
    by code_simp+
  then show ?thesis
    using Bitmap_iteration [OF bitmap_a_ok] bitmap_a_ok by (simp del: nth_bits_of)
qed

section \<open>Objects\<close>

text \<open>
  Property C16. In a store in which every allocated array has exactly one owner of its size, the
  operations on bitmap objects succeed and keep it so: nothing is leaked, deleted twice or deleted while
  it is the caller's.  A new object has the bits it was given, a copy or a moved-to object those of its
  source, a resized one its own bits cut off or filled up, an assigned one those of its source; objects
  with other arrays keep their bits.  Two exceptions are part of the statement: the constructor from a
  list of values overflows its \<open>int\<close> index from \<open>2 ^ 31\<close> values on, and an assignment from an object that
  borrows its array from the target deletes that array.
\<close>

theorem Bitmap_ownership:
  fixes st :: "'w::len word bitmap_store"
  assumes "width_ok ([] :: 'w word list)" and "own_ok st"
  shows "(\<forall>junk x n v. st_objects st x = None \<and> n < 2 ^ 64 \<longrightarrow>
      achieves (BasicBitmap_fill junk x n v st) st x (replicate n v)) \<and>
    (\<forall>junk x. st_objects st x = None \<longrightarrow> achieves (Inr (BasicBitmap_default junk x st)) st x []) \<and>
    (\<forall>junk x vs. st_objects st x = None \<and> length vs < 2 ^ 64 \<longrightarrow>
      (if length vs < 2 ^ 31 then achieves (BasicBitmap_values junk x vs st) st x vs
       else BasicBitmap_values junk x vs st = Inl BadAccess)) \<and>
    (\<forall>junk x src bs. st_objects st x = None \<and> ob_bits st src = Some bs \<longrightarrow>
      (\<forall>r \<in> {BasicBitmap_copy junk x src st, BasicBitmap_move x src st}.
        \<exists>st'. r = Inr st' \<and> own_ok st' \<and> ob_bits st' x = Some bs \<and> (\<forall>y. y \<noteq> x \<longrightarrow> ob_bits st' y = ob_bits st y))) \<and>
    (\<forall>x ob. st_objects st x = Some ob \<longrightarrow> (\<exists>st'. destroy_BasicBitmap x st = Inr st' \<and> own_ok st' \<and>
      st_objects st' x = None \<and> (\<forall>y. ob_apart st x y \<longrightarrow> ob_bits st' y = ob_bits st y))) \<and>
    (\<forall>junk x bs n v. ob_bits st x = Some bs \<and> n < 2 ^ 64 \<longrightarrow>
      achieves (bm_Resize junk x n v st) st x (take n bs @ replicate (n - length bs) v)) \<and>
    (\<forall>junk x src ob s bs. x \<noteq> src \<and> st_objects st x = Some ob \<and> st_objects st src = Some s \<and> ob_bits st src = Some bs \<longrightarrow>
      (\<exists>st'. operator_assign junk x src st = Inr st' \<and> own_ok st' \<and>
        (if ob_alloc ob \<and> \<not> ob_alloc s \<and> ob_map ob = ob_map s then ob_bits st' x = None \<and> ob_bits st' src = None
         else ob_bits st' x = Some bs) \<and>
        (\<forall>y. ob_apart st x y \<longrightarrow> ob_bits st' y = ob_bits st y)))"
proof (intro conjI allI impI; (elim conjE)?)
  show "achieves (BasicBitmap_fill junk x n v st) st x (replicate n v)"
    if "st_objects st x = None" "n < 2 ^ 64" for junk x n v
    by (rule BasicBitmap_fill_spec [OF assms that(2,1)])
  show "achieves (Inr (BasicBitmap_default junk x st)) st x []" if "st_objects st x = None" for junk x
    by (rule BasicBitmap_default_spec [OF assms that])
  show "if length vs < 2 ^ 31 then achieves (BasicBitmap_values junk x vs st) st x vs
       else BasicBitmap_values junk x vs st = Inl BadAccess"
    if "st_objects st x = None" "length vs < 2 ^ 64" for junk x vs
    by (rule BasicBitmap_values_spec [OF assms that(2,1)])
  show "\<forall>r \<in> {BasicBitmap_copy junk x src st, BasicBitmap_move x src st}.
      \<exists>st'. r = Inr st' \<and> own_ok st' \<and> ob_bits st' x = Some bs \<and> (\<forall>y. y \<noteq> x \<longrightarrow> ob_bits st' y = ob_bits st y)"
    if "st_objects st x = None" "ob_bits st src = Some bs" for junk x src bs
    using BasicBitmap_copy_spec [OF assms that] BasicBitmap_move_spec [OF assms(2) that] by blast
  show "\<exists>st'. destroy_BasicBitmap x st = Inr st' \<and> own_ok st' \<and> st_objects st' x = None \<and>
      (\<forall>y. ob_apart st x y \<longrightarrow> ob_bits st' y = ob_bits st y)" if "st_objects st x = Some ob" for x ob
    by (rule destroy_spec [OF assms(2) that])
  show "achieves (bm_Resize junk x n v st) st x (take n bs @ replicate (n - length bs) v)"
    if "ob_bits st x = Some bs" "n < 2 ^ 64" for junk x bs n v
    by (rule Resize_spec [OF assms that])
  show "\<exists>st'. operator_assign junk x src st = Inr st' \<and> own_ok st' \<and>
        (if ob_alloc ob \<and> \<not> ob_alloc s \<and> ob_map ob = ob_map s then ob_bits st' x = None \<and> ob_bits st' src = None
         else ob_bits st' x = Some bs) \<and>
        (\<forall>y. ob_apart st x y \<longrightarrow> ob_bits st' y = ob_bits st y)"
    if "x \<noteq> src" "st_objects st x = Some ob" "st_objects st src = Some s" "ob_bits st src = Some bs"
    for junk x src ob s bs
    by (rule operator_assign_spec [OF assms that(1,2,4,3)])
qed

definition store_a :: "8 word bitmap_store" where
  "store_a = \<lparr>st_blocks = [0 \<mapsto> (True, [0xFD])], st_next = 1,
    st_objects = [0 \<mapsto> \<lparr>ob_map = 0, ob_size = 3, ob_alloc = True\<rparr>]\<rparr>"

lemma store_a_ok: "own_ok store_a" and store_a_contents: "ob_bits store_a 0 = Some [True, False, True]"
proof -
  show "own_ok store_a"
    by (rule own_okI) (auto simp: store_a_def words_needed_def RequiredArraySize_def split: if_splits)
  have "bits_of \<lparr>bm_map = [0xFD :: 8 word], bm_size = 3\<rparr> = [True, False, True]" by code_simp
  then show "ob_bits store_a 0 = Some [True, False, True]"
    by (simp add: ob_bits_def store_a_def view_def bm_ok_def bytes_ok array_size_def RequiredArraySize_def)
qed

theorem Bitmap_ownership_witness:
  "own_ok store_a \<and> achieves (bm_Resize (\<lambda>_. 0x5A) 0 10 True store_a) store_a 0
    [True, False, True, True, True, True, True, True, True, True]"
proof -
  have "\<forall>junk x bs n v. ob_bits store_a x = Some bs \<and> n < 2 ^ 64 \<longrightarrow>
      achieves (bm_Resize junk x n v store_a) store_a x (take n bs @ replicate (n - length bs) v)"
    using Bitmap_ownership [OF bytes_ok store_a_ok] by (elim conjE)
  moreover have "(10::nat) < 2 ^ 64" by simp
  ultimately have "achieves (bm_Resize (\<lambda>_. 0x5A) 0 10 True store_a) store_a 0
      (take 10 [True, False, True] @ replicate (10 - length [True, False, True]) True)"
    using store_a_contents by blast
  moreover have "take 10 [True, False, True] @ replicate (10 - length [True, False, True]) True =
      [True, False, True, True, True, True, True, True, True, True]" by code_simp
  ultimately show ?thesis using store_a_ok by simp
qed

text \<open>
  Property C36. The move constructor leaves its source as a reference to the array it gave away, as
  documented.  Assigning that source back to the new object deletes the array under both: afterwards
  neither has bits that may be read.
\<close>

theorem assign_moved_from_dangles:
  fixes st :: "'w::len word bitmap_store"
  assumes "width_ok ([] :: 'w word list)" and "own_ok st" and "st_objects st x = None"
    and "ob_bits st src = Some bs" and "st_objects st src = Some s" and "ob_alloc s"
  shows "\<exists>st1 st2. BasicBitmap_move x src st = Inr st1 \<and> ob_bits st1 x = Some bs \<and> ob_bits st1 src = Some bs \<and>
    operator_assign junk x src st1 = Inr st2 \<and> ob_bits st2 x = None \<and> ob_bits st2 src = None"
proof -
  have ne: "x \<noteq> src" using assms(3,5) by auto
  obtain st1 where st1: "BasicBitmap_move x src st = Inr st1" "own_ok st1" "ob_bits st1 x = Some bs"
    "ob_bits st1 src = Some bs"
    using BasicBitmap_move_spec [OF assms(2-4)] ne assms(4) by metis
  have "st_objects st1 x = Some s" "st_objects st1 src = Some (s\<lparr>ob_alloc := False\<rparr>)"
    using st1(1) assms(5,6) ne by (auto simp: BasicBitmap_move_def object_at_def put_object_def)
  then show ?thesis
    using operator_assign_spec [OF assms(1) st1(2) ne _ st1(4), of s "s\<lparr>ob_alloc := False\<rparr>" junk] st1 assms(6) by auto
qed

theorem assign_moved_from_dangles_witness:
  "own_ok store_a \<and> (\<exists>st1 st2. BasicBitmap_move 7 0 store_a = Inr st1 \<and> ob_bits st1 7 = Some [True, False, True] \<and>
    ob_bits st1 0 = Some [True, False, True] \<and>
    operator_assign (\<lambda>_. 0) 7 0 st1 = Inr st2 \<and> ob_bits st2 7 = None \<and> ob_bits st2 0 = None)"
proof -
  have "st_objects store_a 7 = None" "st_objects store_a 0 = Some \<lparr>ob_map = 0, ob_size = 3, ob_alloc = True\<rparr>"
    by (simp_all add: store_a_def)
  then show ?thesis
    using assign_moved_from_dangles [OF bytes_ok store_a_ok _ store_a_contents, of 7
        "\<lparr>ob_map = 0, ob_size = 3, ob_alloc = True\<rparr>" "\<lambda>_. 0"] store_a_ok by simp
qed

end
