(* ===== verification/Monitor.thy ===== *)
theory Monitor
  imports Gloop_Prelude
begin

text \<open>
  Threads inside a monitor: code that runs under one mutex and gives it up only to wait on a condition
  variable.  What a thread does from the point where it gets the mutex to the point where it leaves or
  waits is one segment; its signals take effect with it.  The queues of \<^verbatim>\<open>src/gloop/thread\<close>
  are written this way, and each of their waits is in a loop, so that a woken thread goes on from the
  call it is in.

  A condition variable hands a signal to one of the threads that wait, any of them.  A wait with a
  deadline also ends when the deadline passes, and then reports so.  As documented for
  \<open>absl::CondVar\<close>, a thread may wake for no reason, and a wait may report that the deadline passed even
  if the thread was signalled at the same time; the second is what the parameter \<open>races\<close> allows.
\<close>

section \<open>Segments and signals\<close>

datatype ('c, 'o) thread_state = Out | Asleep 'c 'o | Awake 'o bool

datatype 'c signal = SignalOne 'c | SignalAll 'c

datatype ('c, 'r) exit = Sleep 'c | Leave 'r

type_synonym ('c, 'o) thread_states = "nat \<Rightarrow> ('c, 'o) thread_state"
type_synonym ('s, 'c, 'r) monitor_segment = "('s \<times> 'c signal list \<times> ('c, 'r) exit) outcome"

definition after_exit :: "'o \<Rightarrow> ('c, 'r) exit \<Rightarrow> ('c, 'o) thread_state" where
  "after_exit p a = (case a of Sleep c \<Rightarrow> Asleep c p | Leave r \<Rightarrow> Out)"

definition completed :: "'o \<Rightarrow> ('c, 'r) exit \<Rightarrow> ('o \<times> 'r) list" where
  "completed p a = (case a of Sleep c \<Rightarrow> [] | Leave r \<Rightarrow> [(p, r)])"

lemma exit_simps [simp]: "after_exit p (Sleep c) = Asleep c p" "after_exit p (Leave r) = Out"
  "completed p (Sleep c) = []" "completed p (Leave r) = [(p, r)]"
  by (simp_all add: after_exit_def completed_def)

definition wake_all :: "'c \<Rightarrow> ('c, 'o) thread_states \<Rightarrow> ('c, 'o) thread_states" where
  "wake_all c T = (\<lambda>t. case T t of Asleep d l \<Rightarrow> if d = c then Awake l False else Asleep d l | s \<Rightarrow> s)"

inductive deliver :: "'c signal list \<Rightarrow> ('c, 'o) thread_states \<Rightarrow> ('c, 'o) thread_states \<Rightarrow> bool" where
  nothing: "deliver [] T T"
| someone: "T t = Asleep c l \<Longrightarrow> deliver ss (T(t := Awake l False)) T' \<Longrightarrow> deliver (SignalOne c # ss) T T'"
| nobody: "(\<And>t l. T t \<noteq> Asleep c l) \<Longrightarrow> deliver ss T T' \<Longrightarrow> deliver (SignalOne c # ss) T T'"
| everyone: "deliver ss (wake_all c T) T' \<Longrightarrow> deliver (SignalAll c # ss) T T'"

text \<open>Signals never block, they only wake threads that wait for them, and they wake one if there is one.\<close>

lemma deliver_exists: "\<exists>T'. deliver ss T T'"
proof (induction ss arbitrary: T)
  case Nil
  then show ?case using deliver.nothing by blast
next
  case (Cons s ss)
  show ?case
  proof (cases s)
    case (SignalOne c)
    then show ?thesis using Cons deliver.someone deliver.nobody by metis
  next
    case (SignalAll c)
    then show ?thesis using Cons deliver.everyone by metis
  qed
qed

definition signals_to :: "'c signal list \<Rightarrow> 'c \<Rightarrow> bool" where
  "signals_to ss c \<longleftrightarrow> SignalOne c \<in> set ss \<or> SignalAll c \<in> set ss"

lemma wake_all_simps: "T t = Asleep c l \<Longrightarrow> wake_all c T t = Awake l False"
  "T t = Asleep d l \<Longrightarrow> d \<noteq> c \<Longrightarrow> wake_all c T t = Asleep d l"
  "(\<And>d l. T t \<noteq> Asleep d l) \<Longrightarrow> wake_all c T t = T t"
  by (auto simp: wake_all_def split: thread_state.split)

lemma deliver_thread:
  assumes "deliver ss T T'"
  shows "T' t = T t \<or> (\<exists>c l. T t = Asleep c l \<and> T' t = Awake l False \<and> signals_to ss c)"
  using assms
proof (induction rule: deliver.induct)
  case (someone T u c l ss T')
  then show ?case by (cases "t = u") (auto simp: signals_to_def)
next
  case (everyone ss c T T')
  then show ?case by (cases "T t") (auto simp: signals_to_def wake_all_def split: if_splits)
qed (auto simp: signals_to_def)

lemma deliver_Awake: "deliver ss T T' \<Longrightarrow> T t = Awake l e \<Longrightarrow> T' t = Awake l e"
  by (drule deliver_thread [where t = t]) auto

lemma deliver_Out: "deliver ss T T' \<Longrightarrow> T t = Out \<Longrightarrow> T' t = Out"
  by (drule deliver_thread [where t = t]) auto

lemma deliver_Asleep: "deliver ss T T' \<Longrightarrow> T' t = Asleep c l \<Longrightarrow> T t = Asleep c l"
  by (drule deliver_thread [where t = t]) auto

lemma deliver_wakes:
  assumes "deliver ss T T'" and "signals_to ss c" and "T t = Asleep c l"
  shows "\<exists>u m. T u = Asleep c m \<and> T' u = Awake m False"
  using assms
proof (induction arbitrary: t l rule: deliver.induct)
  case (someone T u d m ss T')
  show ?case
  proof (cases "d = c")
    case True
    have "T' u = Awake m False" by (rule deliver_Awake [OF someone.hyps(2)]) simp
    then show ?thesis using someone.hyps(1) True by blast
  next
    case False
    then have "(T(u := Awake m False)) t = Asleep c l" "signals_to ss c"
      using someone by (auto simp: signals_to_def)
    then obtain v n where "(T(u := Awake m False)) v = Asleep c n" "T' v = Awake n False"
      using someone.IH by blast
    then show ?thesis by (auto split: if_splits)
  qed
next
  case (nobody T d ss T')
  then have "signals_to ss c" by (auto simp: signals_to_def)
  then show ?case using nobody by blast
next
  case (everyone ss d T T')
  show ?case
  proof (cases "d = c")
    case True
    then have "T' t = Awake l False"
      using everyone.prems(2) by (intro deliver_Awake [OF everyone.hyps]) (simp add: wake_all_simps)
    then show ?thesis using everyone.prems(2) by blast
  next
    case False
    then have "wake_all d T t = Asleep c l" "signals_to ss c"
      using everyone.prems by (auto simp: signals_to_def wake_all_simps)
    then obtain v n where v: "wake_all d T v = Asleep c n" "T' v = Awake n False"
      using everyone.IH by blast
    then have "T v = Asleep c n" by (cases "T v") (auto simp: wake_all_def split: if_splits)
    then show ?thesis using v(2) by blast
  qed
qed (simp add: signals_to_def)

section \<open>Systems of threads\<close>

text \<open>
  The code of a monitor: what a thread does when it makes a call and when it goes on after a wait, which
  reports whether the deadline expired; \<open>late\<close> is what a look at the clock gives then.  \<open>timed\<close> are the
  calls whose waits have a deadline.
\<close>

record ('s, 'c, 'o, 'r) monitor_code =
  on_call :: "nat \<Rightarrow> 'o \<Rightarrow> 's \<Rightarrow> ('s, 'c, 'r) monitor_segment"
  on_wake :: "nat \<Rightarrow> 'o \<Rightarrow> bool \<Rightarrow> bool \<Rightarrow> 's \<Rightarrow> ('s, 'c, 'r) monitor_segment"
  timed :: "'o \<Rightarrow> bool"

text \<open>\<open>calls\<close> is not program state: it is the list of the calls that returned, with what they returned.\<close>

record ('s, 'c, 'o, 'r) monitor =
  shared :: 's
  states :: "('c, 'o) thread_states"
  calls :: "('o \<times> 'r) list"

inductive moves :: "('s, 'c, 'o, 'r) monitor_code \<Rightarrow> bool \<Rightarrow> ('s, 'c, 'o, 'r) monitor \<Rightarrow>
    ('s, 'c, 'o, 'r) monitor \<Rightarrow> bool" for code races where
  call: "states S t = Out \<Longrightarrow> on_call code t p (shared S) = Inr (s', ss, a) \<Longrightarrow>
    deliver ss (states S) T' \<Longrightarrow>
    moves code races S
      \<lparr>shared = s', states = T'(t := after_exit p a), calls = calls S @ completed p a\<rparr>"
| wake: "states S t = Awake p expired \<Longrightarrow>
    on_wake code t p expired late (shared S) = Inr (s', ss, a) \<Longrightarrow>
    deliver ss (states S) T' \<Longrightarrow>
    moves code races S
      \<lparr>shared = s', states = T'(t := after_exit p a), calls = calls S @ completed p a\<rparr>"
| expire: "states S t = Asleep c p \<Longrightarrow> timed code p \<Longrightarrow>
    moves code races S (S\<lparr>states := (states S)(t := Awake p True)\<rparr>)"
| race: "races \<Longrightarrow> states S t = Awake p False \<Longrightarrow> timed code p \<Longrightarrow>
    moves code races S (S\<lparr>states := (states S)(t := Awake p True)\<rparr>)"
| spurious: "states S t = Asleep c p \<Longrightarrow>
    moves code races S (S\<lparr>states := (states S)(t := Awake p False)\<rparr>)"

definition monitor_start :: "'s \<Rightarrow> ('s, 'c, 'o, 'r) monitor" where
  "monitor_start s = \<lparr>shared = s, states = (\<lambda>_. Out), calls = []\<rparr>"

inductive runs :: "('s, 'c, 'o, 'r) monitor_code \<Rightarrow> bool \<Rightarrow> 's \<Rightarrow> ('s, 'c, 'o, 'r) monitor \<Rightarrow> bool"
  for code races s where
  start: "runs code races s (monitor_start s)"
| move: "runs code races s S \<Longrightarrow> moves code races S S' \<Longrightarrow> runs code races s S'"

text \<open>
  A call whose thread waits or has been woken is one that can wait: \<open>W\<close> says when the call \<open>p\<close> of thread
  \<open>t\<close> may wait for \<open>c\<close>.
\<close>

lemma runs_waiting:
  assumes "runs code races s S"
    and "\<And>t p s s' ss c. on_call code t p s = Inr (s', ss, Sleep c) \<Longrightarrow> W t c p"
    and "\<And>t p e late s s' ss c. on_wake code t p e late s = Inr (s', ss, Sleep c) \<Longrightarrow> W t c p"
  shows "(states S t = Asleep c p \<longrightarrow> W t c p) \<and> (states S t = Awake p e \<longrightarrow> (\<exists>c. W t c p))"
  using assms(1)
proof (induction arbitrary: t c p e rule: runs.induct)
  case start
  then show ?case by (simp add: monitor_start_def)
next
  case (move S S')
  have old: "states S u = Asleep d q \<Longrightarrow> W u d q" "states S u = Awake q x \<Longrightarrow> \<exists>d. W u d q" for u d q x
    using move.IH by auto
  have dl: "T' u = Asleep d q \<Longrightarrow> W u d q" "T' u = Awake q x \<Longrightarrow> \<exists>d. W u d q"
    if "deliver ss (states S) T'" for ss T' u d q x
    using deliver_thread [OF that, of u] old(1) [of u d q] old(2) [of u q x] old(1) [of u _ q] by auto
  show ?case
    using move.hyps(2)
  proof (cases rule: moves.cases)
    case (call u q s' ss a T')
    then show ?thesis using dl [OF call(4)] assms(2) by (cases a) (auto split: if_splits)
  next
    case (wake u q x late s' ss a T')
    then show ?thesis using dl [OF wake(4)] assms(3) by (cases a) (auto split: if_splits)
  qed (use old in auto)
qed

text \<open>
  An invariant of the shared state and the calls completed so far: it is enough that every segment keeps
  it.
\<close>

locale monitor_invariant =
  fixes code :: "('s, 'c, 'o, 'r) monitor_code"
    and start :: 's
    and I :: "'s \<Rightarrow> ('o \<times> 'r) list \<Rightarrow> bool"
  assumes I_start: "I start []"
    and I_call: "I s h \<Longrightarrow> on_call code t p s = Inr (s', ss, a) \<Longrightarrow> I s' (h @ completed p a)"
    and I_wake: "I s h \<Longrightarrow> on_wake code t p e late s = Inr (s', ss, a) \<Longrightarrow> I s' (h @ completed p a)"
begin

lemma I_moves: "moves code races S S' \<Longrightarrow> I (shared S) (calls S) \<Longrightarrow> I (shared S') (calls S')"
  by (induction rule: moves.induct) (auto intro: I_call I_wake)

lemma I_runs: "runs code races start S \<Longrightarrow> I (shared S) (calls S)"
  by (induction rule: runs.induct) (auto simp: monitor_start_def I_start intro: I_moves)

end

text \<open>
  Signals that are not lost.  \<open>ready s\<close> says that a thread that waits for \<open>c\<close> could go on in state \<open>s\<close>, and
  \<open>owner\<close> which condition variable a call waits for.  The code has to signal when the state becomes
  ready, and a woken thread that leaves the state ready has to pass the signal on.  \<open>sure\<close> says of which
  woken threads this is known: where \<open>sure True\<close> fails, a thread that reports an expired deadline may
  drop the signal, and there must be no races.  Then whenever the state is ready and some thread waits, a
  thread has been woken.
\<close>

locale signal_discipline = monitor_invariant code start I
  for code :: "('s, 'c, 'o, 'r) monitor_code" and start I +
  fixes c :: 'c
    and owner :: "'o \<Rightarrow> 'c"
    and ready :: "'s \<Rightarrow> bool"
    and sure :: "bool \<Rightarrow> bool"
    and races :: bool
  assumes sure_signal: "sure False"
    and sure_race: "races \<Longrightarrow> sure True"
    and call_signals: "I s h \<Longrightarrow> on_call code t p s = Inr (s', ss, a) \<Longrightarrow> ready s' \<Longrightarrow>
      ready s \<or> signals_to ss c"
    and wake_signals: "I s h \<Longrightarrow> on_wake code t p e late s = Inr (s', ss, a) \<Longrightarrow> ready s' \<Longrightarrow>
      ready s \<and> (owner p = c \<longrightarrow> \<not> sure e) \<or> signals_to ss c"
    and call_sleeps: "I s h \<Longrightarrow> on_call code t p s = Inr (s', ss, Sleep d) \<Longrightarrow>
      owner p = d \<and> (d = c \<longrightarrow> \<not> ready s')"
    and wake_sleeps: "I s h \<Longrightarrow> on_wake code t p e late s = Inr (s', ss, Sleep d) \<Longrightarrow>
      owner p = d \<and> (d = c \<longrightarrow> \<not> ready s')"
begin

definition owned :: "('s, 'c, 'o, 'r) monitor \<Rightarrow> bool" where
  "owned S \<longleftrightarrow> (\<forall>t d p. states S t = Asleep d p \<longrightarrow> owner p = d)"

definition awaited :: "('s, 'c, 'o, 'r) monitor \<Rightarrow> bool" where
  "awaited S \<longleftrightarrow> ready (shared S) \<and> (\<exists>t p. states S t = Asleep c p)"

definition attended :: "('s, 'c, 'o, 'r) monitor \<Rightarrow> bool" where
  "attended S \<longleftrightarrow> (\<exists>t p e. states S t = Awake p e \<and> owner p = c \<and> sure e)"

lemma owned_segment:
  assumes "owned S" and "deliver ss (states S) T'" and "\<And>d. a = Sleep d \<Longrightarrow> owner p = d"
  shows "owned \<lparr>shared = s', states = T'(t := after_exit p a), calls = h\<rparr>"
proof -
  have "owner q = d" if "T' u = Asleep d q" for u d q
    using deliver_Asleep [OF assms(2) that] assms(1) by (simp add: owned_def)
  then show ?thesis using assms(3) by (cases a) (auto simp: owned_def)
qed

lemma attended_signalled:
  assumes "owned S" and "deliver ss (states S) T'" and "signals_to ss c"
    and "states S v = Asleep c q" and "\<And>d q. states S t \<noteq> Asleep d q"
  shows "attended \<lparr>shared = s', states = T'(t := x), calls = h\<rparr>"
proof -
  obtain u m where u: "states S u = Asleep c m" "T' u = Awake m False"
    using deliver_wakes [OF assms(2,3,4)] by blast
  then have "u \<noteq> t" "owner m = c" using assms(1,5) by (auto simp: owned_def)
  with u sure_signal show ?thesis by (auto simp: attended_def intro!: exI [of _ u])
qed

lemma attended_kept:
  assumes "attended S" and "deliver ss (states S) T'"
    and "\<And>p e. states S t = Awake p e \<Longrightarrow> owner p = c \<Longrightarrow> \<not> sure e"
  shows "attended \<lparr>shared = s', states = T'(t := x), calls = h\<rparr>"
proof -
  obtain u q e where u: "states S u = Awake q e" "owner q = c" "sure e"
    using assms(1) by (auto simp: attended_def)
  then have "u \<noteq> t" using assms(3) by blast
  with u deliver_Awake [OF assms(2) u(1)] show ?thesis by (auto simp: attended_def intro!: exI [of _ u])
qed

lemma attended_segment:
  assumes "owned S" and "awaited S \<Longrightarrow> attended S" and "deliver ss (states S) T'"
    and "ready s' \<Longrightarrow> ready (shared S) \<and>
      (\<forall>q e. states S t = Awake q e \<longrightarrow> owner q = c \<longrightarrow> \<not> sure e) \<or> signals_to ss c"
    and "\<And>d. a = Sleep d \<Longrightarrow> d = c \<Longrightarrow> \<not> ready s'" and "\<And>d q. states S t \<noteq> Asleep d q"
    and "awaited \<lparr>shared = s', states = T'(t := after_exit p a), calls = h\<rparr>"
  shows "attended \<lparr>shared = s', states = T'(t := after_exit p a), calls = h\<rparr>"
proof -
  obtain v q where v: "(T'(t := after_exit p a)) v = Asleep c q" and r: "ready s'"
    using assms(7) by (auto simp: awaited_def)
  have "v \<noteq> t" using v r assms(5) by (cases a) auto
  then have w: "states S v = Asleep c q" using v deliver_Asleep [OF assms(3)] by simp
  show ?thesis
  proof (cases "signals_to ss c")
    case True
    then show ?thesis using attended_signalled [OF assms(1,3) True w assms(6)] by blast
  next
    case False
    then have "ready (shared S)" "\<And>q e. states S t = Awake q e \<Longrightarrow> owner q = c \<Longrightarrow> \<not> sure e"
      using assms(4) [OF r] by auto
    moreover from this(1) w have "attended S" using assms(2) by (auto simp: awaited_def)
    ultimately show ?thesis using attended_kept assms(3) by blast
  qed
qed

lemma attended_rewoken:
  assumes "owned S" and "awaited S \<Longrightarrow> attended S"
    and "\<And>q x. states S t = Awake q x \<Longrightarrow> q = p \<and> sure e"
  shows "owned (S\<lparr>states := (states S)(t := Awake p e)\<rparr>) \<and>
    (awaited (S\<lparr>states := (states S)(t := Awake p e)\<rparr>) \<longrightarrow>
     attended (S\<lparr>states := (states S)(t := Awake p e)\<rparr>))"
proof (intro conjI impI)
  show "owned (S\<lparr>states := (states S)(t := Awake p e)\<rparr>)" using assms(1) by (simp add: owned_def)
  assume "awaited (S\<lparr>states := (states S)(t := Awake p e)\<rparr>)"
  then have "awaited S" by (auto simp: awaited_def split: if_splits)
  then obtain u q x where "states S u = Awake q x" "owner q = c" "sure x"
    using assms(2) by (auto simp: attended_def)
  then show "attended (S\<lparr>states := (states S)(t := Awake p e)\<rparr>)"
    using assms(3) by (cases "u = t") (auto simp: attended_def intro!: exI [of _ u])
qed

lemma attended_moves:
  assumes "moves code races S S'" and "I (shared S) (calls S)" and "owned S"
    and "awaited S \<Longrightarrow> attended S"
  shows "owned S' \<and> (awaited S' \<longrightarrow> attended S')"
  using assms
proof (induction rule: moves.induct)
  case (call S t p s' ss a T')
  then show ?case
    using call_signals [OF call.prems(1) call.hyps(2)] call_sleeps [OF call.prems(1)]
    by (intro conjI impI owned_segment [OF call.prems(2) call.hyps(3)]
        attended_segment [OF call.prems(2) _ call.hyps(3)]) auto
next
  case (wake S t p e late s' ss a T')
  then show ?case
    using wake_signals [OF wake.prems(1) wake.hyps(2)] wake_sleeps [OF wake.prems(1)]
    by (intro conjI impI owned_segment [OF wake.prems(2) wake.hyps(3)]
        attended_segment [OF wake.prems(2) _ wake.hyps(3)]) auto
next
  case (expire S t d p)
  then show ?case by (intro attended_rewoken) auto
next
  case (race S t p)
  then show ?case using sure_race by (intro attended_rewoken) auto
next
  case (spurious S t d p)
  then show ?case by (intro attended_rewoken) auto
qed

theorem no_lost_signal:
  assumes "runs code races start S" and "ready (shared S)" and "states S t = Asleep c p"
  shows "\<exists>u q e. states S u = Awake q e \<and> owner q = c \<and> sure e"
proof -
  have "owned S \<and> (awaited S \<longrightarrow> attended S)"
    using assms(1)
  proof (induction rule: runs.induct)
    case start
    then show ?case by (simp add: monitor_start_def owned_def awaited_def)
  next
    case (move S S')
    then show ?case using attended_moves I_runs [OF move.hyps(1)] by blast
  qed
  then show ?thesis using assms(2,3) by (auto simp: awaited_def attended_def)
qed

end

section \<open>Running a schedule\<close>

text \<open>
  For concrete runs: the moves of a given schedule on threads \<open>0\<close> to \<open>n - 1\<close>, where a signal goes to the
  waiting thread with the least number.
\<close>

datatype 'o action = MakeCall nat 'o | GoOn nat bool | Expire nat | Race nat

definition asleep_on :: "'c \<Rightarrow> ('c, 'o) thread_state \<Rightarrow> bool" where
  "asleep_on c x = (case x of Asleep d p \<Rightarrow> d = c | _ \<Rightarrow> False)"

definition rouse :: "('c, 'o) thread_state \<Rightarrow> ('c, 'o) thread_state" where
  "rouse x = (case x of Asleep d p \<Rightarrow> Awake p False | _ \<Rightarrow> x)"

fun deliver_first :: "nat \<Rightarrow> 'c signal list \<Rightarrow> ('c, 'o) thread_states \<Rightarrow> ('c, 'o) thread_states" where
  "deliver_first n [] T = T"
| "deliver_first n (SignalOne c # ss) T = deliver_first n ss
    (case find (\<lambda>t. asleep_on c (T t)) [0..<n] of None \<Rightarrow> T | Some t \<Rightarrow> T(t := rouse (T t)))"
| "deliver_first n (SignalAll c # ss) T = deliver_first n ss (wake_all c T)"

definition finish_segment :: "nat \<Rightarrow> nat \<Rightarrow> 'o \<Rightarrow> ('s, 'c, 'r) monitor_segment \<Rightarrow>
    ('s, 'c, 'o, 'r) monitor \<Rightarrow> ('s, 'c, 'o, 'r) monitor option" where
  "finish_segment n t p x S = (case x of Inl _ \<Rightarrow> None
    | Inr (s', ss, a) \<Rightarrow> Some \<lparr>shared = s',
        states = (deliver_first n ss (states S))(t := after_exit p a), calls = calls S @ completed p a\<rparr>)"

fun perform :: "nat \<Rightarrow> ('s, 'c, 'o, 'r) monitor_code \<Rightarrow> bool \<Rightarrow> 'o action \<Rightarrow>
    ('s, 'c, 'o, 'r) monitor \<Rightarrow> ('s, 'c, 'o, 'r) monitor option" where
  "perform n code races (MakeCall t p) S =
    (case states S t of Out \<Rightarrow>
       if t < n then finish_segment n t p (on_call code t p (shared S)) S else None
     | _ \<Rightarrow> None)"
| "perform n code races (GoOn t late) S =
    (case states S t of Awake p e \<Rightarrow> finish_segment n t p (on_wake code t p e late (shared S)) S
     | _ \<Rightarrow> None)"
| "perform n code races (Expire t) S =
    (case states S t of Asleep c p \<Rightarrow>
       if timed code p then Some (S\<lparr>states := (states S)(t := Awake p True)\<rparr>) else None
     | _ \<Rightarrow> None)"
| "perform n code races (Race t) S =
    (case states S t of Awake p e \<Rightarrow>
       if races \<and> \<not> e \<and> timed code p then Some (S\<lparr>states := (states S)(t := Awake p True)\<rparr>) else None
     | _ \<Rightarrow> None)"

fun perform_all :: "nat \<Rightarrow> ('s, 'c, 'o, 'r) monitor_code \<Rightarrow> bool \<Rightarrow> 'o action list \<Rightarrow>
    ('s, 'c, 'o, 'r) monitor \<Rightarrow> ('s, 'c, 'o, 'r) monitor option" where
  "perform_all n code races [] S = Some S"
| "perform_all n code races (x # xs) S =
    (case perform n code races x S of None \<Rightarrow> None | Some S' \<Rightarrow> perform_all n code races xs S')"

lemma deliver_first_deliver:
  "(\<And>t. n \<le> t \<Longrightarrow> T t = Out) \<Longrightarrow> deliver ss T (deliver_first n ss T)"
proof (induction n ss T rule: deliver_first.induct)
  case (2 n c ss T)
  show ?case
  proof (cases "find (\<lambda>t. asleep_on c (T t)) [0..<n]")
    case None
    have "T t \<noteq> Asleep c l" for t l
      using None "2.prems" [of t] by (cases "t < n") (auto simp: find_None_iff asleep_on_def)
    then show ?thesis using 2 None by (auto intro: deliver.nobody)
  next
    case (Some t)
    then have "t < n" "asleep_on c (T t)" by (auto simp: find_Some_iff)
    then obtain p where p: "T t = Asleep c p" by (auto simp: asleep_on_def split: thread_state.splits)
    have "deliver ss (T(t := Awake p False)) (deliver_first n ss (T(t := Awake p False)))"
      using "2.IH" "2.prems" Some p \<open>t < n\<close> by (simp add: rouse_def fun_upd_def)
    then show ?thesis using Some p by (auto simp: rouse_def intro: deliver.someone)
  qed
next
  case (3 n c ss T)
  then show ?case by (auto intro!: deliver.everyone simp: wake_all_def)
qed (simp add: deliver.nothing)

lemma perform_moves:
  assumes "\<And>t. n \<le> t \<Longrightarrow> states S t = Out" and "perform n code races x S = Some S'"
  shows "moves code races S S' \<and> (\<forall>t \<ge> n. states S' t = Out)"
proof -
  have d: "deliver ss (states S) (deliver_first n ss (states S))" for ss
    using assms(1) by (rule deliver_first_deliver)
  have out: "deliver_first n ss (states S) t = Out" if "n \<le> t" for ss t
    using deliver_Out [OF d] assms(1) [OF that] by blast
  show ?thesis
    using assms
  proof (cases x)
    case (MakeCall t p)
    then show ?thesis using assms(2) d out
      by (auto simp: finish_segment_def split: thread_state.splits if_splits sum.splits
          intro!: moves.call)
  next
    case (GoOn t late)
    then have "t < n" using assms by (cases "t < n") auto
    then show ?thesis using GoOn assms(2) d out
      by (auto simp: finish_segment_def split: thread_state.splits if_splits sum.splits
          intro!: moves.wake)
  next
    case (Expire t)
    then have "t < n" using assms by (cases "t < n") auto
    then show ?thesis using Expire assms
      by (auto split: thread_state.splits if_splits intro: moves.expire)
  next
    case (Race t)
    then have "t < n" using assms by (cases "t < n") auto
    then show ?thesis using Race assms
      by (auto split: thread_state.splits if_splits intro: moves.race)
  qed
qed

lemma perform_all_runs:
  assumes "perform_all n code races xs S = Some S'" and "runs code races s S"
    and "\<And>t. n \<le> t \<Longrightarrow> states S t = Out"
  shows "runs code races s S' \<and> (\<forall>t \<ge> n. states S' t = Out)"
  using assms
proof (induction xs arbitrary: S)
  case (Cons x xs)
  then obtain S1 where "perform n code races x S = Some S1" "perform_all n code races xs S1 = Some S'"
    by (auto split: option.splits)
  then show ?case using Cons perform_moves [of n S code races x S1] runs.move by metis
qed simp

lemma schedule_runs:
  assumes "perform_all n code races xs (monitor_start s) = Some S"
  shows "runs code races s S" "n \<le> t \<Longrightarrow> states S t = Out"
  using perform_all_runs [OF assms runs.start] by (auto simp: monitor_start_def)

definition scheduled :: "nat \<Rightarrow> ('s, 'c, 'o, 'r) monitor_code \<Rightarrow> bool \<Rightarrow> 's \<Rightarrow> 'o action list \<Rightarrow>
    ('s, 'c, 'o, 'r) monitor" where
  "scheduled n code races s xs =
    (case perform_all n code races xs (monitor_start s) of None \<Rightarrow> monitor_start s | Some S \<Rightarrow> S)"

definition nobody_awake :: "nat \<Rightarrow> ('s, 'c, 'o, 'r) monitor \<Rightarrow> bool" where
  "nobody_awake n S = list_all (\<lambda>t. case states S t of Awake p e \<Rightarrow> False | _ \<Rightarrow> True) [0..<n]"

lemma scheduled_runs: "runs code races s (scheduled n code races s xs)"
  using schedule_runs(1) [of n code races xs s]
  by (auto simp: scheduled_def runs.start split: option.split)

lemma scheduled_nobody_awake:
  assumes "nobody_awake n (scheduled n code races s xs)"
  shows "states (scheduled n code races s xs) t \<noteq> Awake p e"
proof (cases "t < n")
  case True
  then show ?thesis using assms by (force simp: nobody_awake_def list_all_iff)
next
  case False
  then have "states (scheduled n code races s xs) t = Out"
    using schedule_runs(2) [of n code races xs s]
    by (auto simp: scheduled_def monitor_start_def split: option.split)
  then show ?thesis by simp
qed

end
