(* ===== verification/OrderedQueue.thy ===== *)
theory OrderedQueue
  imports Monitor
begin

text \<open>
  The queue of \<^verbatim>\<open>src/gloop/thread/ordered-producer-consumer-queue.h\<close>: elements are created in order,
  produced in any order and consumed in the order of their creation.

  Each operation runs under \<open>busy_\<close>, so a definition below is one segment of a monitor: the new state,
  the signals given and either the wait or the value returned.  A call that waits waits in a loop;
  \<open>woken\<close> is the local variable of that name, which is true from the first wait on.  The clock is not
  modelled: of a deadline the model keeps whether there is one, and a wait may report at any moment that
  it has passed.  Copying and moving versions of an operation do the same to the queue.
\<close>

section \<open>State\<close>

record 'a OrderedQueue =
  oq_capacity :: nat
  oq_first :: int
  oq_elems :: "('a \<times> bool) list"
  oq_stop :: bool

datatype oq_condvar = can_consume | can_produce

datatype 'a oq_call =
  Create 'a
| TryCreate 'a
| TryCreateWithTimeout 'a int
| Produce int
| Consume
| TryConsume
| TryConsumeWithTimeout int
| StopConsumers
| QueueEmpty
| QueueSize
| QueueStopped

text \<open>
  What the calls return.  A refused creation gives \<open>*stopped\<close>, a refused consumption \<open>*stopped\<close> and
  \<open>*timed_out\<close>.
\<close>

datatype 'a oq_result =
  Created int
| NotCreated bool
| Taken 'a
| NotTaken bool bool
| Finished
| Answer bool
| Count nat

type_synonym 'a oq_segment = "('a OrderedQueue, oq_condvar, 'a oq_result) monitor_segment"

definition new_OrderedQueue :: "nat \<Rightarrow> 'a OrderedQueue" where
  "new_OrderedQueue capacity =
    \<lparr>oq_capacity = capacity, oq_first = 0, oq_elems = [], oq_stop = False\<rparr>"

definition delete_OrderedQueue :: "'a OrderedQueue \<Rightarrow> unit outcome" where
  "delete_OrderedQueue s = require CheckFailed (oq_elems s = []) (Inr ())"

section \<open>Creating\<close>

definition oq_full :: "'a OrderedQueue \<Rightarrow> bool" where
  "oq_full s \<longleftrightarrow> oq_capacity s \<noteq> 0 \<and> length (oq_elems s) = oq_capacity s"

text \<open>The end of both \<open>CreateInternal\<close> and \<open>TryCreateInternal\<close>.\<close>

definition push_element :: "'a \<Rightarrow> bool \<Rightarrow> 'a OrderedQueue \<Rightarrow> 'a oq_segment" where
  "push_element e woken s =
    (let index = oq_first s + int (length (oq_elems s));
         s = s\<lparr>oq_elems := oq_elems s @ [(e, False)]\<rparr>
     in Inr (s, if woken \<and> length (oq_elems s) \<noteq> oq_capacity s then [SignalOne can_produce] else [],
             Leave (Created index)))"

definition CreateInternal :: "'a \<Rightarrow> bool \<Rightarrow> 'a OrderedQueue \<Rightarrow> 'a oq_segment" where
  "CreateInternal e woken s =
    (if oq_full s then Inr (s, [], Sleep can_produce)
     else require CheckFailed (\<not> oq_stop s) (push_element e woken s))"

definition TryCreate_loop :: "'a \<Rightarrow> bool \<Rightarrow> 'a OrderedQueue \<Rightarrow> 'a oq_segment" where
  "TryCreate_loop e woken s =
    (if oq_full s then Inr (s, [], Sleep can_produce) else push_element e woken s)"

definition TryCreateInternal :: "'a \<Rightarrow> 'a OrderedQueue \<Rightarrow> 'a oq_segment" where
  "TryCreateInternal e s =
    (if oq_stop s then Inr (s, [], Leave (NotCreated True)) else TryCreate_loop e False s)"

text \<open>Both versions of \<open>TryCreateWithTimeout\<close> refuse a negative timeout.\<close>

definition TryCreate_within :: "int \<Rightarrow> 'a \<Rightarrow> 'a OrderedQueue \<Rightarrow> 'a oq_segment" where
  "TryCreate_within timeout e s = require CheckFailed (timeout \<ge> 0) (TryCreateInternal e s)"

text \<open>From where the wait in the loop returns.\<close>

definition TryCreate_woken :: "'a \<Rightarrow> bool \<Rightarrow> 'a OrderedQueue \<Rightarrow> 'a oq_segment" where
  "TryCreate_woken e expired s =
    (if expired then Inr (s, [], Leave (NotCreated False))
     else if oq_stop s then Inr (s, [], Leave (NotCreated True))
     else TryCreate_loop e True s)"

section \<open>Producing\<close>

definition Produce_index :: "int \<Rightarrow> 'a OrderedQueue \<Rightarrow> 'a oq_segment" where
  "Produce_index index s =
    (let i = index - oq_first s in
     require CheckFailed (i \<ge> 0)
       (require CheckFailed (i < int (length (oq_elems s)))
         (let p = oq_elems s ! nat i in
          require CheckFailed (\<not> snd p)
            (Inr (s\<lparr>oq_elems := (oq_elems s)[nat i := (fst p, True)]\<rparr>,
                  if nat i = 0 then [SignalOne can_consume] else [], Leave Finished)))))"

section \<open>Consuming\<close>

definition front_produced :: "'a OrderedQueue \<Rightarrow> bool" where
  "front_produced s \<longleftrightarrow> (case oq_elems s of [] \<Rightarrow> False | p # _ \<Rightarrow> snd p)"

text \<open>
  Taking the front element, which all three operations end with.  \<open>TryConsume\<close> does it with \<open>woken\<close>
  false.
\<close>

definition take_front :: "bool \<Rightarrow> 'a OrderedQueue \<Rightarrow> 'a oq_segment" where
  "take_front woken s =
    (let signal = (if length (oq_elems s) = oq_capacity s then [SignalOne can_produce] else []);
         e = fst (hd (oq_elems s));
         s = s\<lparr>oq_elems := tl (oq_elems s), oq_first := oq_first s + 1\<rparr>
     in Inr (s, signal @ (if woken \<and> front_produced s then [SignalOne can_consume] else []),
             Leave (Taken e)))"

definition Consume_loop :: "bool \<Rightarrow> 'a OrderedQueue \<Rightarrow> 'a oq_segment" where
  "Consume_loop woken s =
    (if \<not> front_produced s then
       if oq_elems s = [] \<and> oq_stop s
       then Inr (s, [SignalOne can_consume], Leave (NotTaken True False))
       else Inr (s, [], Sleep can_consume)
     else take_front woken s)"

definition TryConsume_once :: "'a OrderedQueue \<Rightarrow> 'a oq_segment" where
  "TryConsume_once s =
    (if \<not> front_produced s
     then Inr (s, [], Leave (NotTaken (oq_elems s = [] \<and> oq_stop s) False))
     else take_front False s)"

text \<open>\<open>late\<close> stands for \<open>left_to_wait <= absl::ZeroDuration()\<close>.\<close>

definition TryConsume_loop :: "bool \<Rightarrow> bool \<Rightarrow> 'a OrderedQueue \<Rightarrow> 'a oq_segment" where
  "TryConsume_loop woken late s =
    (if \<not> front_produced s then
       if oq_elems s = [] \<and> oq_stop s
       then Inr (s, [SignalOne can_consume], Leave (NotTaken True False))
       else if late then Inr (s, [], Leave (NotTaken False True))
       else Inr (s, [], Sleep can_consume)
     else take_front woken s)"

definition StopConsumers_all :: "'a OrderedQueue \<Rightarrow> 'a oq_segment" where
  "StopConsumers_all s =
    Inr (s\<lparr>oq_stop := True\<rparr>, [SignalAll can_consume, SignalAll can_produce], Leave Finished)"

definition Empty_now :: "'a OrderedQueue \<Rightarrow> 'a oq_segment" where
  "Empty_now s = Inr (s, [], Leave (Answer (oq_elems s = [])))"

definition Size_now :: "'a OrderedQueue \<Rightarrow> 'a oq_segment" where
  "Size_now s = Inr (s, [], Leave (Count (length (oq_elems s))))"

definition Stopped_now :: "'a OrderedQueue \<Rightarrow> 'a oq_segment" where
  "Stopped_now s = Inr (s, [], Leave (Answer (oq_stop s)))"

section \<open>The queue as a monitor\<close>

fun oq_on_call :: "nat \<Rightarrow> 'a oq_call \<Rightarrow> 'a OrderedQueue \<Rightarrow> 'a oq_segment" where
  "oq_on_call t (Create e) s = CreateInternal e False s"
| "oq_on_call t (TryCreate e) s = TryCreateInternal e s"
| "oq_on_call t (TryCreateWithTimeout e timeout) s =
    TryCreate_within timeout e s"
| "oq_on_call t (Produce index) s = Produce_index index s"
| "oq_on_call t Consume s = Consume_loop False s"
| "oq_on_call t TryConsume s = TryConsume_once s"
| "oq_on_call t (TryConsumeWithTimeout timeout) s = TryConsume_loop False (timeout \<le> 0) s"
| "oq_on_call t StopConsumers s = StopConsumers_all s"
| "oq_on_call t QueueEmpty s = Empty_now s"
| "oq_on_call t QueueSize s = Size_now s"
| "oq_on_call t QueueStopped s = Stopped_now s"

text \<open>Only four calls wait; for the others there is nothing to go on with.\<close>

fun oq_on_wake :: "nat \<Rightarrow> 'a oq_call \<Rightarrow> bool \<Rightarrow> bool \<Rightarrow> 'a OrderedQueue \<Rightarrow> 'a oq_segment" where
  "oq_on_wake t (Create e) expired late s = CreateInternal e True s"
| "oq_on_wake t (TryCreate e) expired late s = TryCreate_woken e expired s"
| "oq_on_wake t (TryCreateWithTimeout e timeout) expired late s = TryCreate_woken e expired s"
| "oq_on_wake t Consume expired late s = Consume_loop True s"
| "oq_on_wake t (TryConsumeWithTimeout timeout) expired late s = TryConsume_loop True late s"
| "oq_on_wake t _ expired late s = Inl BadAccess"

fun oq_timed :: "'a oq_call \<Rightarrow> bool" where
  "oq_timed (TryCreateWithTimeout e timeout) = True"
| "oq_timed (TryConsumeWithTimeout timeout) = True"
| "oq_timed _ = False"

definition oq_code :: "('a OrderedQueue, oq_condvar, 'a oq_call, 'a oq_result) monitor_code" where
  "oq_code = \<lparr>on_call = oq_on_call, on_wake = oq_on_wake, timed = oq_timed\<rparr>"

type_synonym 'a oq_system = "('a OrderedQueue, oq_condvar, 'a oq_call, 'a oq_result) monitor"

definition oq_runs :: "bool \<Rightarrow> nat \<Rightarrow> 'a oq_system \<Rightarrow> bool" where
  "oq_runs races capacity = runs oq_code races (new_OrderedQueue capacity)"

section \<open>What the calls did\<close>

text \<open>
  Read off the list of completed calls: the elements created, with the numbers they were given, the
  elements consumed, the numbers produced and whether the queue was stopped.
\<close>

fun creation :: "'a oq_call \<times> 'a oq_result \<Rightarrow> ('a \<times> int) option" where
  "creation (Create e, Created i) = Some (e, i)"
| "creation (TryCreate e, Created i) = Some (e, i)"
| "creation (TryCreateWithTimeout e timeout, Created i) = Some (e, i)"
| "creation _ = None"

fun consumption :: "'a oq_call \<times> 'a oq_result \<Rightarrow> 'a option" where
  "consumption (p, Taken e) = Some e"
| "consumption _ = None"

fun production :: "'a oq_call \<times> 'a oq_result \<Rightarrow> int option" where
  "production (Produce i, Finished) = Some i"
| "production _ = None"

definition created :: "('a oq_call \<times> 'a oq_result) list \<Rightarrow> 'a list" where
  "created h = map fst (List.map_filter creation h)"

definition serials :: "('a oq_call \<times> 'a oq_result) list \<Rightarrow> int list" where
  "serials h = map snd (List.map_filter creation h)"

definition consumed :: "('a oq_call \<times> 'a oq_result) list \<Rightarrow> 'a list" where
  "consumed h = List.map_filter consumption h"

definition produced :: "('a oq_call \<times> 'a oq_result) list \<Rightarrow> int list" where
  "produced h = List.map_filter production h"

definition stopped_by :: "('a oq_call \<times> 'a oq_result) list \<Rightarrow> bool" where
  "stopped_by h \<longleftrightarrow> (StopConsumers, Finished) \<in> set h"

end
