(* ===== verification/OrderedQueue_Proofs.thy ===== *)
theory OrderedQueue_Proofs
  imports OrderedQueue
begin

text \<open>
  Correctness of the ordered queue: its state is determined by the calls that returned (creation,
  production and consumption in order), the conditions under which the operations abort, and the
  wake-ups of consumers and creators.
\<close>

section \<open>The state and the calls\<close>

lemma calls_snoc [simp]:
  "created [] = []" "serials [] = []" "consumed [] = []" "produced [] = []" "\<not> stopped_by []"
  "created (h @ [x]) = created h @ (case creation x of Some (e, i) \<Rightarrow> [e] | None \<Rightarrow> [])"
  "serials (h @ [x]) = serials h @ (case creation x of Some (e, i) \<Rightarrow> [i] | None \<Rightarrow> [])"
  "consumed (h @ [x]) = consumed h @ (case consumption x of Some e \<Rightarrow> [e] | None \<Rightarrow> [])"
  "produced (h @ [x]) = produced h @ (case production x of Some i \<Rightarrow> [i] | None \<Rightarrow> [])"
  "stopped_by (h @ [x]) \<longleftrightarrow> stopped_by h \<or> x = (StopConsumers, Finished)"
  by (auto simp: created_def serials_def consumed_def produced_def stopped_by_def List.map_filter_def
      split: option.split)

definition oq_invariant :: "nat \<Rightarrow> 'a OrderedQueue \<Rightarrow> ('a oq_call \<times> 'a oq_result) list \<Rightarrow> bool" where
  "oq_invariant cap s h \<longleftrightarrow>
    oq_capacity s = cap \<and>
    created h = consumed h @ map fst (oq_elems s) \<and>
    serials h = map int [0..<length (serials h)] \<and>
    oq_first s = int (length (consumed h)) \<and>
    (\<forall>i < length (oq_elems s). snd (oq_elems s ! i) \<longleftrightarrow> oq_first s + int i \<in> set (produced h)) \<and>
    (\<forall>j. 0 \<le> j \<and> j < oq_first s \<longrightarrow> j \<in> set (produced h)) \<and>
    (\<forall>j \<in> set (produced h). 0 \<le> j \<and> j < oq_first s + int (length (oq_elems s))) \<and>
    distinct (produced h) \<and>
    (oq_stop s \<longleftrightarrow> stopped_by h) \<and>
    (cap \<noteq> 0 \<longrightarrow> length (oq_elems s) \<le> cap)"

lemma oq_invariantD:
  assumes "oq_invariant cap s h"
  shows "oq_capacity s = cap" "created h = consumed h @ map fst (oq_elems s)"
    "serials h = map int [0..<length (serials h)]" "oq_first s = int (length (consumed h))"
    "i < length (oq_elems s) \<Longrightarrow> snd (oq_elems s ! i) \<longleftrightarrow> oq_first s + int i \<in> set (produced h)"
    "0 \<le> j \<Longrightarrow> j < oq_first s \<Longrightarrow> j \<in> set (produced h)"
    "j \<in> set (produced h) \<Longrightarrow> 0 \<le> j \<and> j < oq_first s + int (length (oq_elems s))"
    "distinct (produced h)" "oq_stop s \<longleftrightarrow> stopped_by h"
    "cap \<noteq> 0 \<Longrightarrow> length (oq_elems s) \<le> cap"
  using assms by (auto simp: oq_invariant_def)

text \<open>Nothing else than creating, producing, consuming and stopping matters.\<close>

lemma oq_invariant_other:
  assumes "oq_invariant cap s h"
    and "creation (p, r) = None" and "consumption (p, r) = None" and "production (p, r) = None"
    and "p \<noteq> StopConsumers"
  shows "oq_invariant cap s (h @ [(p, r)])"
  using oq_invariantD [OF assms(1)] unfolding oq_invariant_def by (simp add: assms(2-5))

lemma oq_invariant_push:
  assumes "oq_invariant cap s h" and "\<not> oq_full s"
    and "\<And>i. creation (p, Created i) = Some (e, i)" and "\<And>i. production (p, Created i) = None"
    and "push_element e woken s = Inr (s', ss, a)"
  shows "oq_invariant cap s' (h @ completed p a)"
proof -
  note D = oq_invariantD [OF assms(1)]
  have s': "s' = s\<lparr>oq_elems := oq_elems s @ [(e, False)]\<rparr>"
    and a: "a = Leave (Created (oq_first s + int (length (oq_elems s))))"
    using assms(5) by (auto simp: push_element_def Let_def)
  have new: "oq_first s + int (length (oq_elems s)) \<notin> set (produced h)"
    using D(7) [of "oq_first s + int (length (oq_elems s))"] by auto
  have len: "length (serials h) = length (created h)" by (simp add: serials_def created_def)
  have "length (serials h) = length (consumed h) + length (oq_elems s)" by (simp add: len D(2))
  moreover have "snd (oq_elems s' ! k) \<longleftrightarrow> oq_first s + int k \<in> set (produced h)"
    if "k < Suc (length (oq_elems s))" for k
    using that D(5) [of k] new by (auto simp: s' nth_append less_Suc_eq)
  ultimately show ?thesis
    using D(1-4,6,8-10) D(7) assms(2) unfolding oq_invariant_def a
    by (simp add: s' assms(3,4) oq_full_def) force
qed

lemma oq_invariant_take:
  assumes "oq_invariant cap s h" and "front_produced s"
    and "\<And>e. creation (p, Taken e) = None" and "\<And>e. production (p, Taken e) = None"
    and "take_front woken s = Inr (s', ss, a)"
  shows "oq_invariant cap s' (h @ completed p a)"
proof (cases "oq_elems s")
  case Nil
  then show ?thesis using assms(2) by (simp add: front_produced_def)
next
  case (Cons x q)
  note D = oq_invariantD [OF assms(1)]
  have flag: "snd (q ! i) \<longleftrightarrow> oq_first s + 1 + int i \<in> set (produced h)" if "i < length q" for i
    using D(5) [of "Suc i"] that Cons by (simp add: algebra_simps)
  have "oq_first s \<in> set (produced h)"
    using D(5) [of 0] assms(2) Cons by (simp add: front_produced_def)
  then have "j \<in> set (produced h)" if "0 \<le> j" "j < oq_first s + 1" for j
    using D(6) [of j] that by (cases "j = oq_first s") auto
  moreover have s': "s' = s\<lparr>oq_elems := q, oq_first := oq_first s + 1\<rparr>" and a: "a = Leave (Taken (fst x))"
    using assms(5) Cons by (auto simp: take_front_def Let_def)
  moreover have "j < oq_first s + 1 + int (length q)" if "j \<in> set (produced h)" for j
    using D(7) [OF that] Cons by simp
  moreover have "length q \<le> cap" if "cap \<noteq> 0" using D(10) [OF that] Cons by simp
  ultimately show ?thesis
    using D(1-4,7-9) flag Cons unfolding oq_invariant_def s' a by (simp add: assms(3,4))
qed

lemma Produce_index_eq:
  "Produce_index index s = Inr (s', ss, a) \<longleftrightarrow>
    (\<exists>i < length (oq_elems s). index = oq_first s + int i \<and> \<not> snd (oq_elems s ! i) \<and>
      s' = s\<lparr>oq_elems := (oq_elems s)[i := (fst (oq_elems s ! i), True)]\<rparr> \<and>
      ss = (if i = 0 then [SignalOne can_consume] else []) \<and> a = Leave Finished)"
  (is "?l \<longleftrightarrow> ?r")
proof
  assume ?l
  then show ?r
    by (intro exI [of _ "nat (index - oq_first s)"]) (auto simp: Produce_index_def Let_def)
next
  assume ?r
  then show ?l by (auto simp: Produce_index_def Let_def)
qed

lemma oq_invariant_produce:
  assumes "oq_invariant cap s h" and "Produce_index index s = Inr (s', ss, a)"
  shows "oq_invariant cap s' (h @ completed (Produce index) a)"
proof -
  note D = oq_invariantD [OF assms(1)]
  obtain i where i: "i < length (oq_elems s)" "index = oq_first s + int i" "\<not> snd (oq_elems s ! i)"
    and s': "s' = s\<lparr>oq_elems := (oq_elems s)[i := (fst (oq_elems s ! i), True)]\<rparr>" and a: "a = Leave Finished"
    using assms(2) unfolding Produce_index_eq by blast
  have new: "index \<notin> set (produced h)" using D(5) [OF i(1)] i(2,3) by simp
  have fsts: "map fst (oq_elems s') = map fst (oq_elems s)"
    using i(1) by (simp add: s' map_update) (metis list_update_id map_update)
  have flags: "snd (oq_elems s' ! k) \<longleftrightarrow> oq_first s + int k \<in> insert index (set (produced h))"
    if "k < length (oq_elems s)" for k
    using D(5) [OF that] that i by (auto simp: s' nth_list_update)
  show ?thesis
    using D new flags i(1,2) a unfolding oq_invariant_def fsts
    by (simp add: s')
qed

lemma oq_invariant_stop:
  assumes "oq_invariant cap s h"
  shows "oq_invariant cap (s\<lparr>oq_stop := True\<rparr>) (h @ [(StopConsumers, Finished)])"
  using oq_invariantD [OF assms] unfolding oq_invariant_def by simp

lemmas oq_segments = CreateInternal_def TryCreateInternal_def TryCreate_loop_def TryCreate_woken_def
  Consume_loop_def TryConsume_once_def TryConsume_loop_def StopConsumers_all_def
  TryCreate_within_def Empty_now_def Size_now_def Stopped_now_def

lemma oq_invariant_call:
  assumes "oq_invariant cap s h" and "oq_on_call t p s = Inr (s', ss, a)"
  shows "oq_invariant cap s' (h @ completed p a)"
  using assms
  by (cases p) (auto simp: oq_segments oq_invariant_other split: if_splits
      intro: oq_invariant_push oq_invariant_take oq_invariant_produce
        oq_invariant_stop)

lemma oq_invariant_wake:
  assumes "oq_invariant cap s h" and "oq_on_wake t p e late s = Inr (s', ss, a)"
  shows "oq_invariant cap s' (h @ completed p a)"
  using assms
  by (cases p) (auto simp: oq_segments oq_invariant_other split: if_splits
      intro: oq_invariant_push oq_invariant_take)

lemma oq_invariant_start: "oq_invariant cap (new_OrderedQueue cap) []"
  by (simp add: oq_invariant_def new_OrderedQueue_def)

lemma oq_code_simps [simp]: "on_call oq_code = oq_on_call" "on_wake oq_code = oq_on_wake"
  "timed oq_code = oq_timed"
  by (simp_all add: oq_code_def)

interpretation oq: monitor_invariant oq_code "new_OrderedQueue cap" "oq_invariant cap" for cap
  by unfold_locales (auto intro: oq_invariant_start oq_invariant_call oq_invariant_wake)

section \<open>Wake-ups\<close>

fun oq_owner :: "'a oq_call \<Rightarrow> oq_condvar" where
  "oq_owner Consume = can_consume"
| "oq_owner (TryConsumeWithTimeout timeout) = can_consume"
| "oq_owner _ = can_produce"

definition oq_room :: "'a OrderedQueue \<Rightarrow> bool" where
  "oq_room s \<longleftrightarrow> \<not> oq_stop s \<and> oq_capacity s \<noteq> 0 \<and> length (oq_elems s) < oq_capacity s"

lemma front_produced_push: "push_element e woken s = Inr (s', ss, a) \<Longrightarrow> front_produced s' = front_produced s"
  by (auto simp: push_element_def front_produced_def Let_def split: list.splits)

lemma front_produced_update:
  "0 < i \<Longrightarrow> front_produced (s\<lparr>oq_elems := (oq_elems s)[i := x]\<rparr>) = front_produced s"
  by (cases "oq_elems s") (auto simp: front_produced_def split: nat.split)

lemma front_produced_stop [simp]: "front_produced (s\<lparr>oq_stop := b\<rparr>) = front_produced s"
  by (simp add: front_produced_def)

lemma front_produced_take: "take_front woken s = Inr (s', ss, a) \<Longrightarrow>
    front_produced s' \<Longrightarrow> woken \<Longrightarrow> SignalOne can_consume \<in> set ss"
  by (auto simp: take_front_def Let_def)

lemma front_produced_call:
  "oq_on_call t p s = Inr (s', ss, a) \<Longrightarrow> front_produced s' \<Longrightarrow> front_produced s \<or> signals_to ss can_consume"
  by (cases p)
    (auto simp: oq_segments signals_to_def Produce_index_eq front_produced_update
      split: if_splits dest: front_produced_push)

lemma front_produced_wake:
  "oq_on_wake t p e late s = Inr (s', ss, a) \<Longrightarrow> front_produced s' \<Longrightarrow>
    front_produced s \<and> oq_owner p \<noteq> can_consume \<or> signals_to ss can_consume"
  by (cases p)
    (auto simp: oq_segments signals_to_def split: if_splits dest: front_produced_push front_produced_take)

text \<open>\<open>Create\<close> may wait only while the queue is full, a consumer only while its element is not there.\<close>

lemma oq_call_sleeps: "oq_on_call t p s = Inr (s', ss, Sleep d) \<Longrightarrow>
    oq_owner p = d \<and> (if d = can_consume then \<not> front_produced s' else \<not> oq_room s')"
  by (cases p) (auto simp: oq_segments Produce_index_eq push_element_def take_front_def Let_def oq_room_def
      oq_full_def split: if_splits)

lemma oq_wake_sleeps: "oq_on_wake t p e late s = Inr (s', ss, Sleep d) \<Longrightarrow>
    oq_owner p = d \<and> (if d = can_consume then \<not> front_produced s' else \<not> oq_room s')"
  by (cases p) (auto simp: oq_segments push_element_def take_front_def Let_def oq_room_def
      oq_full_def split: if_splits)

interpretation consumers: signal_discipline oq_code "new_OrderedQueue cap" "oq_invariant cap"
  can_consume oq_owner front_produced "\<lambda>_. True" races for cap races
  by unfold_locales
    (auto dest: front_produced_call front_produced_wake oq_call_sleeps oq_wake_sleeps)

lemma oq_room_call:
  assumes "oq_invariant cap s h" and "oq_on_call t p s = Inr (s', ss, a)" and "oq_room s'"
  shows "oq_room s \<or> signals_to ss can_produce"
  using assms oq_invariantD(1,10) [OF assms(1)]
  by (cases p) (auto simp: oq_segments signals_to_def Produce_index_eq push_element_def take_front_def Let_def
      oq_room_def oq_full_def split: if_splits)

lemma oq_room_wake:
  assumes "oq_invariant cap s h" and "oq_on_wake t p e late s = Inr (s', ss, a)" and "oq_room s'"
  shows "oq_room s \<and> (oq_owner p = can_produce \<longrightarrow> e) \<or> signals_to ss can_produce"
  using assms oq_invariantD(1,10) [OF assms(1)]
  by (cases p) (auto simp: oq_segments signals_to_def push_element_def take_front_def Let_def
      oq_room_def oq_full_def split: if_splits)

interpretation creators: signal_discipline oq_code "new_OrderedQueue cap" "oq_invariant cap"
  can_produce oq_owner oq_room Not False for cap
  by unfold_locales
    (auto dest: oq_room_call oq_room_wake oq_call_sleeps oq_wake_sleeps)

section \<open>Properties\<close>

lemma oq_runs_invariant: "oq_runs races cap S \<Longrightarrow> oq_invariant cap (shared S) (calls S)"
  unfolding oq_runs_def by (rule oq.I_runs)

lemma oq_scheduled: "oq_runs races cap (scheduled n oq_code races (new_OrderedQueue cap) xs)"
  unfolding oq_runs_def by (rule scheduled_runs)

lemma oq_flags:
  assumes "oq_invariant cap s h"
  shows "map snd (oq_elems s) =
    map (\<lambda>i. int i \<in> set (produced h)) [length (consumed h)..<length (created h)]"
  using oq_invariantD(2,4,5) [OF assms] by (intro nth_equalityI) auto

text \<open>
  Property C17.  Order.  In every run, with any number of threads and whatever the waits report, the queue
  is determined by the calls that returned, in the order in which they did: the elements consumed and
  then those in the queue are exactly the elements created, in the order of creation; the creations were
  numbered from 0 on; an element in the queue is marked exactly if its number was produced; every
  consumed element was produced before; no number was produced twice; the queue is stopped exactly if
  \<open>StopConsumers\<close> was called; and it never holds more than its capacity.
\<close>

theorem OrderedQueue_order:
  assumes "oq_runs races cap S"
  shows "created (calls S) = consumed (calls S) @ map fst (oq_elems (shared S)) \<and>
    serials (calls S) = map int [0..<length (created (calls S))] \<and>
    oq_first (shared S) = int (length (consumed (calls S))) \<and>
    map snd (oq_elems (shared S)) =
      map (\<lambda>i. int i \<in> set (produced (calls S))) [length (consumed (calls S))..<length (created (calls S))] \<and>
    (\<forall>i < length (consumed (calls S)). int i \<in> set (produced (calls S))) \<and>
    distinct (produced (calls S)) \<and>
    oq_stop (shared S) = stopped_by (calls S) \<and>
    (cap \<noteq> 0 \<longrightarrow> length (oq_elems (shared S)) \<le> cap)"
proof -
  note I = oq_runs_invariant [OF assms]
  have "length (serials (calls S)) = length (created (calls S))" by (simp add: serials_def created_def)
  then show ?thesis
    using oq_invariantD(2-4,6,8-10) [OF I] oq_flags [OF I] by simp
qed

text \<open>
  A run: a consumer waits, two elements are created, a third creation waits for room, the elements are
  produced in the opposite order, and the consumer takes the first one.
\<close>

definition oq_example :: "nat oq_call action list" where
  "oq_example = [MakeCall 0 Consume, MakeCall 1 (Create 7), MakeCall 1 (TryCreate 8), MakeCall 2 (Create 9),
    MakeCall 1 (Produce 1), MakeCall 1 (Produce 0), GoOn 0 False]"

abbreviation oq_final :: "nat oq_system" where
  "oq_final \<equiv> scheduled 3 oq_code False (new_OrderedQueue 2) oq_example"

theorem OrderedQueue_order_witness:
  "oq_runs False 2 oq_final \<and> consumed (calls oq_final) = [7] \<and> oq_elems (shared oq_final) = [(8, True)] \<and>
   created (calls oq_final) = consumed (calls oq_final) @ map fst (oq_elems (shared oq_final))"
proof -
  have "consumed (calls oq_final) = [7]" "oq_elems (shared oq_final) = [(8, True)]" by code_simp+
  then show ?thesis using OrderedQueue_order [OF oq_scheduled [of False 2 3 oq_example]] oq_scheduled by simp
qed

text \<open>Only these calls wait; a woken thread is in one of them.\<close>

fun oq_waits :: "'a oq_call \<Rightarrow> bool" where
  "oq_waits (Create e) = True"
| "oq_waits (TryCreate e) = True"
| "oq_waits (TryCreateWithTimeout e timeout) = True"
| "oq_waits Consume = True"
| "oq_waits (TryConsumeWithTimeout timeout) = True"
| "oq_waits _ = False"

lemma oq_awake_waits:
  assumes "oq_runs races cap S" and "states S t = Awake p e"
  shows "oq_waits p"
proof -
  have "oq_waits p" if "oq_on_call t p s = Inr (s', ss, Sleep c)" for t p and s :: "'a OrderedQueue" and s' ss c
    using that by (cases p) (auto simp: oq_segments Produce_index_eq take_front_def Let_def split: if_splits)
  moreover have "oq_waits p" if "oq_on_wake t p e late s = Inr (s', ss, Sleep c)"
    for t p e late and s :: "'a OrderedQueue" and s' ss c
    using that by (cases p) auto
  ultimately have "states S t = Awake p e \<longrightarrow> (\<exists>c :: oq_condvar. oq_waits p)"
    using runs_waiting [OF assms(1) [unfolded oq_runs_def], of "\<lambda>t c p. oq_waits p" t _ p e] by simp
  then show ?thesis using assms(2) by simp
qed

text \<open>\<open>Produce\<close> takes every number that was given to an element and not produced yet, and nothing else.\<close>

lemma Produce_aborts:
  assumes "oq_invariant cap s h"
  shows "(\<exists>x. Produce_index i s = Inl x) \<longleftrightarrow>
    \<not> (0 \<le> i \<and> i < int (length (created h)) \<and> i \<notin> set (produced h))" (is "?l \<longleftrightarrow> \<not> ?r")
proof -
  note D = oq_invariantD [OF assms]
  have len: "int (length (created h)) = oq_first s + int (length (oq_elems s))" using D(2,4) by simp
  have "(\<exists>y. Produce_index i s = Inr y) \<longleftrightarrow>
      (\<exists>k < length (oq_elems s). i = oq_first s + int k \<and> \<not> snd (oq_elems s ! k))"
    by (simp add: split_paired_Ex Produce_index_eq)
  also have "\<dots> \<longleftrightarrow> (\<exists>k < length (oq_elems s). i = oq_first s + int k \<and> i \<notin> set (produced h))"
    using D(5) by blast
  also have "\<dots> \<longleftrightarrow> oq_first s \<le> i \<and> i < int (length (created h)) \<and> i \<notin> set (produced h)"
    unfolding len by (auto intro!: exI [of _ "nat (i - oq_first s)"])
  also have "\<dots> \<longleftrightarrow> ?r" using D(4) D(6) [of i] by linarith
  finally have "(\<exists>y. Produce_index i s = Inr y) \<longleftrightarrow> ?r" .
  then show ?thesis by (cases "Produce_index i s") auto
qed

text \<open>
  Property C37.  When an operation of the queue aborts.  In every run: \<open>Produce\<close> aborts exactly for numbers
  that were not given to an element or that have been produced before; \<open>Create\<close> aborts exactly if the
  queue has been stopped and there is room (the caller's mistake that its comment names), when called or
  when woken; \<open>TryCreateWithTimeout\<close> aborts exactly for a negative timeout; the destructor aborts exactly
  if some created element has not been consumed; no other call aborts, and no other woken thread does.
\<close>

theorem OrderedQueue_aborts:
  assumes "oq_runs races cap S"
  shows "(\<forall>t i. (\<exists>x. oq_on_call t (Produce i) (shared S) = Inl x) \<longleftrightarrow>
      \<not> (0 \<le> i \<and> i < int (length (created (calls S))) \<and> i \<notin> set (produced (calls S)))) \<and>
    (\<forall>t e. (\<exists>x. oq_on_call t (Create e) (shared S) = Inl x) \<longleftrightarrow>
      stopped_by (calls S) \<and> \<not> oq_full (shared S)) \<and>
    (\<forall>t e ms. (\<exists>x. oq_on_call t (TryCreateWithTimeout e ms) (shared S) = Inl x) \<longleftrightarrow> ms < 0) \<and>
    (\<forall>t p. (\<exists>x. oq_on_call t p (shared S) = Inl x) \<longrightarrow>
      (\<exists>i e ms. p = Produce i \<or> p = Create e \<or> p = TryCreateWithTimeout e ms)) \<and>
    (\<forall>t p e late. states S t = Awake p e \<longrightarrow>
      ((\<exists>x. oq_on_wake t p e late (shared S) = Inl x) \<longleftrightarrow>
       (\<exists>y. p = Create y) \<and> stopped_by (calls S) \<and> \<not> oq_full (shared S))) \<and>
    ((\<exists>x. delete_OrderedQueue (shared S) = Inl x) \<longleftrightarrow> consumed (calls S) \<noteq> created (calls S))"
proof -
  note I = oq_runs_invariant [OF assms]
  note D = oq_invariantD [OF I]
  have call: "(\<exists>i e ms. p = Produce i \<or> p = Create e \<or> p = TryCreateWithTimeout e ms)"
    if "oq_on_call t p (shared S) = Inl x" for t p x
    using that by (cases p) (auto simp: oq_segments push_element_def take_front_def Let_def split: if_splits)
  have wake: "(\<exists>x. oq_on_wake t p e late (shared S) = Inl x) \<longleftrightarrow>
       (\<exists>y. p = Create y) \<and> stopped_by (calls S) \<and> \<not> oq_full (shared S)"
    if "states S t = Awake p e" for t p e late
    using oq_awake_waits [OF assms that] D(9)
    by (cases p) (auto simp: oq_segments push_element_def take_front_def Let_def require_def)
  show ?thesis
    using Produce_aborts [OF I] call wake D(2,9)
    by (simp add: oq_segments push_element_def Let_def delete_OrderedQueue_def require_def) blast
qed

theorem OrderedQueue_aborts_witness:
  "(\<exists>x. oq_on_call 5 (Produce 2) (shared oq_final) = Inl x) \<and>
   (\<exists>x. delete_OrderedQueue (shared oq_final) = Inl x)"
proof -
  have "length (created (calls oq_final)) = 2" "consumed (calls oq_final) \<noteq> created (calls oq_final)"
    by code_simp+
  then show ?thesis using OrderedQueue_aborts [OF oq_scheduled [of False 2 3 oq_example]] by simp
qed

text \<open>
  Property C20.  No wake-up of a consumer is lost.  In every run, also if waits report an expired deadline
  although they were signalled: when the front element has been produced and a thread waits in \<open>Consume\<close>
  or \<open>TryConsumeWithTimeout\<close>, some thread in one of these calls has been woken, and when it goes on it
  takes the front element, whatever its deadline.
\<close>

theorem OrderedQueue_consumers:
  assumes "oq_runs races cap S" and "front_produced (shared S)" and "states S t = Asleep can_consume p"
  shows "\<exists>u q e. states S u = Awake q e \<and>
    (\<forall>late. \<exists>s' ss. oq_on_wake u q e late (shared S) =
      Inr (s', ss, Leave (Taken (created (calls S) ! length (consumed (calls S))))))"
proof -
  obtain u q e where u: "states S u = Awake q e" "oq_owner q = can_consume"
    using consumers.no_lost_signal [OF assms(1) [unfolded oq_runs_def] assms(2,3)] by blast
  obtain x xs where x: "oq_elems (shared S) = x # xs"
    using assms(2) by (cases "oq_elems (shared S)") (auto simp: front_produced_def)
  then have "created (calls S) ! length (consumed (calls S)) = fst x"
    using oq_invariantD(2) [OF oq_runs_invariant [OF assms(1)]] by (simp add: nth_append)
  then have "\<exists>s' ss. oq_on_wake u q e late (shared S) =
      Inr (s', ss, Leave (Taken (created (calls S) ! length (consumed (calls S)))))" for late
    using u(2) oq_awake_waits [OF assms(1) u(1)] assms(2) x
    by (cases q) (auto simp: oq_segments take_front_def Let_def)
  with u(1) show ?thesis by blast
qed

definition oq_two_consumers :: "nat oq_call action list" where
  "oq_two_consumers = [MakeCall 0 Consume, MakeCall 1 (TryConsumeWithTimeout 5), MakeCall 2 (Create 7),
    MakeCall 2 (Produce 0)]"

abbreviation oq_woken :: "nat oq_system" where
  "oq_woken \<equiv> scheduled 3 oq_code False (new_OrderedQueue 2) oq_two_consumers"

theorem OrderedQueue_consumers_witness:
  "\<exists>u q e. states oq_woken u = Awake q e \<and>
    (\<forall>late. \<exists>s' ss. oq_on_wake u q e late (shared oq_woken) = Inr (s', ss, Leave (Taken 7)))"
proof -
  have "front_produced (shared oq_woken)" "states oq_woken 1 = Asleep can_consume (TryConsumeWithTimeout 5)"
    and "created (calls oq_woken) ! length (consumed (calls oq_woken)) = 7" by code_simp+
  then show ?thesis
    using OrderedQueue_consumers [OF oq_scheduled [of False 2 3 oq_two_consumers]] by metis
qed

text \<open>
  No wake-up of a creator is lost, as long as a wait that was signalled does not report an
  expired deadline: in every such run, when a queue of limited capacity has room, has not been stopped
  and a thread waits to create an element, some thread has been woken for that, and when it goes on it
  creates its element with the next number.
\<close>

theorem OrderedQueue_creators:
  assumes "oq_runs False cap S" and "cap \<noteq> 0" and "\<not> oq_stop (shared S)"
    and "length (oq_elems (shared S)) < cap" and "states S t = Asleep can_produce p"
  shows "\<exists>u q. states S u = Awake q False \<and>
    (\<forall>late. \<exists>s' ss. oq_on_wake u q False late (shared S) =
      Inr (s', ss, Leave (Created (int (length (created (calls S)))))))"
proof -
  note D = oq_invariantD [OF oq_runs_invariant [OF assms(1)]]
  have room: "oq_room (shared S)" using assms(2-4) D(1) by (simp add: oq_room_def)
  obtain u q e where u: "states S u = Awake q e" "oq_owner q = can_produce" "\<not> e"
    using creators.no_lost_signal [OF assms(1) [unfolded oq_runs_def] room assms(5)] by blast
  have "oq_first (shared S) + int (length (oq_elems (shared S))) = int (length (created (calls S)))"
    using D(2,4) by simp
  then have "\<exists>s' ss. oq_on_wake u q False late (shared S) =
      Inr (s', ss, Leave (Created (int (length (created (calls S))))))" for late
    using u(2) oq_awake_waits [OF assms(1) u(1)] room
    by (cases q) (auto simp: oq_segments oq_room_def oq_full_def push_element_def Let_def)
  with u(1,3) show ?thesis by auto
qed

definition oq_two_creators :: "nat oq_call action list" where
  "oq_two_creators = [MakeCall 0 (Create 7), MakeCall 1 (Create 8), MakeCall 2 (TryCreate 9),
    MakeCall 0 (Produce 0), MakeCall 0 TryConsume]"

abbreviation oq_freed :: "nat oq_system" where
  "oq_freed \<equiv> scheduled 3 oq_code False (new_OrderedQueue 1) oq_two_creators"

theorem OrderedQueue_creators_witness:
  "\<exists>u q. states oq_freed u = Awake q False \<and>
    (\<forall>late. \<exists>s' ss. oq_on_wake u q False late (shared oq_freed) = Inr (s', ss, Leave (Created 1)))"
proof -
  have "\<not> oq_stop (shared oq_freed)" "length (oq_elems (shared oq_freed)) < 1"
    "states oq_freed 2 = Asleep can_produce (TryCreate 9)"
    and "int (length (created (calls oq_freed))) = 1" by code_simp+
  then show ?thesis
    using OrderedQueue_creators [OF oq_scheduled [of False 1 3 oq_two_creators]]
    by (metis zero_neq_one)
qed

section \<open>Where the code does less\<close>

text \<open>
  With races the last property fails.  A \<open>TryCreateWithTimeout\<close> and a \<open>Create\<close> wait for room in a queue of
  capacity 1; the element in it is consumed, and the signal goes to the first at the moment when its
  deadline passes.  \<open>TryCreateInternal\<close> then returns without a look at the queue and without passing the
  signal on: the \<open>Create\<close> goes on waiting, with the queue empty and no thread woken.
\<close>

definition oq_lost_signal :: "nat oq_call action list" where
  "oq_lost_signal = [MakeCall 0 (Create 7), MakeCall 1 (TryCreateWithTimeout 8 5), MakeCall 2 (Create 9),
    MakeCall 0 (Produce 0), MakeCall 0 Consume, Race 1, GoOn 1 True]"

lemma TryCreate_drops_signal:
  "\<exists>S. oq_runs True 1 S \<and> oq_room (shared S) \<and> states S 2 = Asleep can_produce (Create (9 :: nat)) \<and>
    (\<forall>t p e. states S t \<noteq> Awake p e)"
proof -
  let ?S = "scheduled 3 oq_code True (new_OrderedQueue 1) oq_lost_signal"
  have "oq_room (shared ?S)" "states ?S 2 = Asleep can_produce (Create 9)" "nobody_awake 3 ?S"
    by code_simp+
  then show ?thesis by (intro exI [of _ ?S] conjI allI scheduled_nobody_awake oq_scheduled)
qed

text \<open>
  \<open>StopConsumers\<close> does not end every \<open>Consume\<close> once the queue has drained: of two consumers, one takes
  the last element after the stop and does not come back; the other one waits, with the queue stopped and
  empty and no thread woken.
\<close>

definition oq_stop_run :: "nat oq_call action list" where
  "oq_stop_run = [MakeCall 0 (Create 7), MakeCall 1 Consume, MakeCall 2 Consume, MakeCall 0 StopConsumers,
    GoOn 1 False, GoOn 2 False, MakeCall 0 (Produce 0), GoOn 1 False]"

lemma StopConsumers_leaves_consumer:
  "\<exists>S. oq_runs False 1 S \<and> oq_stop (shared S) \<and> oq_elems (shared S) = ([] :: (nat \<times> bool) list) \<and>
    states S 2 = Asleep can_consume Consume \<and> (\<forall>t p e. states S t \<noteq> Awake p e)"
proof -
  let ?S = "scheduled 3 oq_code False (new_OrderedQueue 1) oq_stop_run"
  have "oq_stop (shared ?S)" "oq_elems (shared ?S) = []" "states ?S 2 = Asleep can_consume Consume"
    "nobody_awake 3 ?S" by code_simp+
  then show ?thesis by (intro exI [of _ ?S] conjI allI scheduled_nobody_awake oq_scheduled)
qed

text \<open>
  \<open>TryCreateWithTimeout\<close> can return with \<open>*stopped\<close> false although the queue was stopped during the call:
  its deadline passes, the queue is stopped before the thread has the mutex again, and the expired
  deadline is looked at first.
\<close>

definition oq_late_stop :: "nat oq_call action list" where
  "oq_late_stop = [MakeCall 0 (Create 7), MakeCall 1 (TryCreateWithTimeout 8 5), Expire 1,
    MakeCall 0 StopConsumers, GoOn 1 True]"

lemma stop_reported_as_timeout:
  "\<exists>S. oq_runs False 1 S \<and>
    calls S = [(Create (7 :: nat), Created 0), (StopConsumers, Finished),
      (TryCreateWithTimeout 8 5, NotCreated False)]"
proof -
  have "calls (scheduled 2 oq_code False (new_OrderedQueue 1) oq_late_stop) =
    [(Create (7 :: nat), Created 0), (StopConsumers, Finished), (TryCreateWithTimeout 8 5, NotCreated False)]"
    by code_simp
  then show ?thesis using oq_scheduled by blast
qed

text \<open>
  Property C38.  Three things the comments of the queue promise and the code does not keep.  There is a run
  in which a wait that was signalled also reports its deadline, after which a thread waits in \<open>Create\<close>
  although the queue has room and no thread has been woken; a run in which the queue has been stopped and
  has drained while a thread still waits in \<open>Consume\<close> and no thread has been woken; and a run in which a
  \<open>TryCreateWithTimeout\<close> that waited while the queue was stopped returns with \<open>*stopped\<close> false.
\<close>

theorem OrderedQueue_gaps:
  "(\<exists>S. oq_runs True 1 S \<and> oq_room (shared S) \<and> states S 2 = Asleep can_produce (Create (9 :: nat)) \<and>
      (\<forall>t p e. states S t \<noteq> Awake p e)) \<and>
   (\<exists>S. oq_runs False 1 S \<and> oq_stop (shared S) \<and> oq_elems (shared S) = ([] :: (nat \<times> bool) list) \<and>
      states S 2 = Asleep can_consume Consume \<and> (\<forall>t p e. states S t \<noteq> Awake p e)) \<and>
   (\<exists>S. oq_runs False 1 S \<and>
      calls S = [(Create (7 :: nat), Created 0), (StopConsumers, Finished),
        (TryCreateWithTimeout 8 5, NotCreated False)])"
  using TryCreate_drops_signal StopConsumers_leaves_consumer stop_reported_as_timeout by blast

end
