(* ===== verification/PcQueue.thy ===== *)
theory PcQueue
  imports Monitor
begin

text \<open>
  The queue of \<^verbatim>\<open>src/gloop/thread/pcqueue.h\<close>, a first-in first-out queue with a limit on its size.

  Threads that wait in \<open>Get\<close> have a \<open>Waiter\<close> each, a node on their stack with a condition variable of its
  own; the nodes form a ring with the node \<open>waiters_\<close> of the queue, the thread that came last first.  The
  model keeps the nodes in a heap: an access to a node that is gone, or to a pointer that was never set,
  is the error \<open>BadAccess\<close>.  Threads that wait in \<open>Put\<close> share the condition variable \<open>wait_nonfull_\<close>.

  Each operation runs under \<open>mutex_\<close> and is one segment of a monitor.  \<open>count()\<close> and \<open>capacity()\<close> read one
  value without the mutex.  The clock is not modelled: a wait with a deadline may report at any moment
  that the deadline has passed.  Counts and the capacity are unbounded integers; \<open>kUnbounded\<close> is the
  largest \<open>int64_t\<close>, and stands for no limit.  The assertions \<open>DCHECK\<close> are checks.
\<close>

section \<open>State\<close>

datatype node = Head | Self nat

record Waiter =
  waiter_next :: "node option"
  waiter_prev :: "node option"

type_synonym waiters = "node \<rightharpoonup> Waiter"

record 'a PcQueue =
  pq_capacity :: int
  pq_num_waiters :: int
  pq_waiters :: waiters
  pq_queue :: "'a list"
  pq_count :: int

definition kUnbounded :: int where
  "kUnbounded = 2 ^ 63 - 1"

definition IsLimitedCapacity :: "'a PcQueue \<Rightarrow> bool" where
  "IsLimitedCapacity s \<longleftrightarrow> pq_capacity s \<noteq> kUnbounded"

definition new_PcQueue :: "int \<Rightarrow> 'a PcQueue outcome" where
  "new_PcQueue capacity =
    require CheckFailed (capacity > 0)
      (Inr \<lparr>pq_capacity = capacity, pq_num_waiters = 0,
            pq_waiters = [Head \<mapsto> \<lparr>waiter_next = Some Head, waiter_prev = Some Head\<rparr>],
            pq_queue = [], pq_count = 0\<rparr>)"

section \<open>The ring of waiters\<close>

definition next_of :: "waiters \<Rightarrow> node \<Rightarrow> node outcome" where
  "next_of h n = (case h n of None \<Rightarrow> Inl BadAccess
    | Some w \<Rightarrow> (case waiter_next w of None \<Rightarrow> Inl BadAccess | Some m \<Rightarrow> Inr m))"

definition prev_of :: "waiters \<Rightarrow> node \<Rightarrow> node outcome" where
  "prev_of h n = (case h n of None \<Rightarrow> Inl BadAccess
    | Some w \<Rightarrow> (case waiter_prev w of None \<Rightarrow> Inl BadAccess | Some m \<Rightarrow> Inr m))"

definition set_next :: "node \<Rightarrow> node \<Rightarrow> waiters \<Rightarrow> waiters outcome" where
  "set_next n m h =
    (case h n of None \<Rightarrow> Inl BadAccess | Some w \<Rightarrow> Inr (h(n \<mapsto> w\<lparr>waiter_next := Some m\<rparr>)))"

definition set_prev :: "node \<Rightarrow> node \<Rightarrow> waiters \<Rightarrow> waiters outcome" where
  "set_prev n m h =
    (case h n of None \<Rightarrow> Inl BadAccess | Some w \<Rightarrow> Inr (h(n \<mapsto> w\<lparr>waiter_prev := Some m\<rparr>)))"

text \<open>\<open>Waiter self;\<close> and the end of its scope.\<close>

definition new_waiter :: "node \<Rightarrow> waiters \<Rightarrow> waiters" where
  "new_waiter n h = h(n \<mapsto> \<lparr>waiter_next = None, waiter_prev = None\<rparr>)"

definition drop_waiter :: "node \<Rightarrow> waiters \<Rightarrow> waiters" where
  "drop_waiter n h = h(n := None)"

definition TopWaiter :: "'a PcQueue \<Rightarrow> node outcome" where
  "TopWaiter s = next_of (pq_waiters s) Head"

definition PushWaiter :: "node \<Rightarrow> 'a PcQueue \<Rightarrow> 'a PcQueue outcome" where
  "PushWaiter waiter s =
    andThen (set_prev waiter Head (pq_waiters s)) (\<lambda>h.
    andThen (next_of h Head) (\<lambda>m.
    andThen (set_next waiter m h) (\<lambda>h.
    andThen (next_of h waiter) (\<lambda>m.
    andThen (set_prev m waiter h) (\<lambda>h.
    andThen (prev_of h waiter) (\<lambda>m.
    andThen (set_next m waiter h) (\<lambda>h.
    Inr (s\<lparr>pq_waiters := h, pq_num_waiters := pq_num_waiters s + 1\<rparr>))))))))"

definition RemoveWaiter :: "node \<Rightarrow> 'a PcQueue \<Rightarrow> 'a PcQueue outcome" where
  "RemoveWaiter waiter s =
    require CheckFailed (waiter \<noteq> Head)
     (let h = pq_waiters s in
      andThen (next_of h waiter) (\<lambda>n.
      andThen (prev_of h waiter) (\<lambda>p.
      andThen (set_prev n p h) (\<lambda>h.
      andThen (prev_of h waiter) (\<lambda>p.
      andThen (next_of h waiter) (\<lambda>n.
      andThen (set_next p n h) (\<lambda>h.
      Inr (s\<lparr>pq_waiters := h, pq_num_waiters := pq_num_waiters s - 1\<rparr>))))))))"

section \<open>Putting\<close>

datatype pq_condvar = Nonfull | Cv node

datatype 'a pq_call =
  Put 'a
| ForcePut 'a
| TryPut 'a
| PutIfReadyToRun 'a
| Get
| GetWithTimeout int
| TryGet
| ElementCount
| Capacity

datatype 'a pq_result = Stored | NotStored | Got 'a | NotGot | Number int

type_synonym 'a pq_segment = "('a PcQueue, pq_condvar, 'a pq_result) monitor_segment"

definition InternalPut :: "'a \<Rightarrow> 'a PcQueue \<Rightarrow> 'a pq_segment" where
  "InternalPut elem s =
    (let s = s\<lparr>pq_queue := pq_queue s @ [elem], pq_count := pq_count s + 1\<rparr> in
     andThen (TopWaiter s) (\<lambda>w. Inr (s, [SignalOne (Cv w)], Leave Stored)))"

definition Put_loop :: "'a \<Rightarrow> 'a PcQueue \<Rightarrow> 'a pq_segment" where
  "Put_loop elem s =
    (if IsLimitedCapacity s \<and> pq_count s \<ge> pq_capacity s then Inr (s, [], Sleep Nonfull)
     else InternalPut elem s)"

definition TryPut_once :: "'a \<Rightarrow> 'a PcQueue \<Rightarrow> 'a pq_segment" where
  "TryPut_once elem s =
    (if pq_count s \<ge> pq_capacity s then Inr (s, [], Leave NotStored) else InternalPut elem s)"

definition PutIfReady :: "'a \<Rightarrow> 'a PcQueue \<Rightarrow> 'a pq_segment" where
  "PutIfReady elem s =
    (if pq_num_waiters s \<le> pq_count s \<or> pq_count s \<ge> pq_capacity s then Inr (s, [], Leave NotStored)
     else InternalPut elem s)"

section \<open>Getting\<close>

text \<open>\<open>front()\<close> and \<open>pop_front()\<close> of an empty queue are errors.\<close>

definition RemoveElement :: "'a PcQueue \<Rightarrow> ('a \<times> 'a PcQueue \<times> pq_condvar signal list) outcome" where
  "RemoveElement s =
    (case pq_queue s of [] \<Rightarrow> Inl BadAccess
     | e # q \<Rightarrow>
        (let s = s\<lparr>pq_queue := q, pq_count := pq_count s - 1\<rparr>;
             signals = (if IsLimitedCapacity s then [SignalOne Nonfull] else [])
         in if pq_count s > 0
            then andThen (TopWaiter s) (\<lambda>w. Inr (e, s, signals @ [SignalOne (Cv w)]))
            else Inr (e, s, signals)))"

definition take_element :: "'a PcQueue \<Rightarrow> 'a pq_segment" where
  "take_element s =
    require CheckFailed (pq_count s > 0)
      (andThen (RemoveElement s) (\<lambda>(e, s, signals). Inr (s, signals, Leave (Got e))))"

text \<open>\<open>Get\<close> and \<open>GetWithTimeout\<close> up to the wait, which they share, and what follows it.\<close>

definition Get_start :: "nat \<Rightarrow> 'a PcQueue \<Rightarrow> 'a pq_segment" where
  "Get_start t s =
    (if pq_count s = 0
     then andThen (PushWaiter (Self t) (s\<lparr>pq_waiters := new_waiter (Self t) (pq_waiters s)\<rparr>))
       (\<lambda>s. Inr (s, [], Sleep (Cv (Self t))))
     else take_element s)"

definition end_wait :: "nat \<Rightarrow> 'a PcQueue \<Rightarrow> 'a PcQueue outcome" where
  "end_wait t s =
    andThen (RemoveWaiter (Self t) s)
      (\<lambda>s. Inr (s\<lparr>pq_waiters := drop_waiter (Self t) (pq_waiters s)\<rparr>))"

definition Get_woken :: "nat \<Rightarrow> 'a PcQueue \<Rightarrow> 'a pq_segment" where
  "Get_woken t s =
    (if pq_count s = 0 then Inr (s, [], Sleep (Cv (Self t)))
     else andThen (end_wait t s) take_element)"

definition GetWithTimeout_woken :: "nat \<Rightarrow> bool \<Rightarrow> 'a PcQueue \<Rightarrow> 'a pq_segment" where
  "GetWithTimeout_woken t expired s =
    (if expired then
       if pq_count s > 0 then andThen (end_wait t s) take_element
       else andThen (end_wait t s) (\<lambda>s. Inr (s, [], Leave NotGot))
     else Get_woken t s)"

definition TryGet_once :: "'a PcQueue \<Rightarrow> 'a pq_segment" where
  "TryGet_once s =
    (if pq_count s > 0
     then andThen (RemoveElement s) (\<lambda>(e, s, signals). Inr (s, signals, Leave (Got e)))
     else Inr (s, [], Leave NotGot))"

definition count_now :: "'a PcQueue \<Rightarrow> 'a pq_segment" where
  "count_now s = Inr (s, [], Leave (Number (pq_count s)))"

definition capacity_now :: "'a PcQueue \<Rightarrow> 'a pq_segment" where
  "capacity_now s = Inr (s, [], Leave (Number (pq_capacity s)))"

section \<open>The queue as a monitor\<close>

fun pq_on_call :: "nat \<Rightarrow> 'a pq_call \<Rightarrow> 'a PcQueue \<Rightarrow> 'a pq_segment" where
  "pq_on_call t (Put e) s = Put_loop e s"
| "pq_on_call t (ForcePut e) s = InternalPut e s"
| "pq_on_call t (TryPut e) s = TryPut_once e s"
| "pq_on_call t (PutIfReadyToRun e) s = PutIfReady e s"
| "pq_on_call t Get s = Get_start t s"
| "pq_on_call t (GetWithTimeout ms) s = Get_start t s"
| "pq_on_call t TryGet s = TryGet_once s"
| "pq_on_call t ElementCount s = count_now s"
| "pq_on_call t Capacity s = capacity_now s"

text \<open>Only three calls wait; for the others there is nothing to go on with.\<close>

fun pq_on_wake :: "nat \<Rightarrow> 'a pq_call \<Rightarrow> bool \<Rightarrow> bool \<Rightarrow> 'a PcQueue \<Rightarrow> 'a pq_segment" where
  "pq_on_wake t (Put e) expired late s = Put_loop e s"
| "pq_on_wake t Get expired late s = Get_woken t s"
| "pq_on_wake t (GetWithTimeout ms) expired late s = GetWithTimeout_woken t expired s"
| "pq_on_wake t _ expired late s = Inl BadAccess"

fun pq_timed :: "'a pq_call \<Rightarrow> bool" where
  "pq_timed (GetWithTimeout ms) = True"
| "pq_timed _ = False"

definition pq_code :: "('a PcQueue, pq_condvar, 'a pq_call, 'a pq_result) monitor_code" where
  "pq_code = \<lparr>on_call = pq_on_call, on_wake = pq_on_wake, timed = pq_timed\<rparr>"

type_synonym 'a pq_system = "('a PcQueue, pq_condvar, 'a pq_call, 'a pq_result) monitor"

definition pq_runs :: "int \<Rightarrow> 'a pq_system \<Rightarrow> bool" where
  "pq_runs capacity S = (\<exists>s. new_PcQueue capacity = Inr s \<and> runs pq_code True s S)"

section \<open>What the calls did\<close>

fun storing :: "'a pq_call \<times> 'a pq_result \<Rightarrow> 'a option" where
  "storing (Put e, Stored) = Some e"
| "storing (ForcePut e, Stored) = Some e"
| "storing (TryPut e, Stored) = Some e"
| "storing (PutIfReadyToRun e, Stored) = Some e"
| "storing _ = None"

fun getting :: "'a pq_call \<times> 'a pq_result \<Rightarrow> 'a option" where
  "getting (p, Got e) = Some e"
| "getting _ = None"

definition stored :: "('a pq_call \<times> 'a pq_result) list \<Rightarrow> 'a list" where
  "stored h = List.map_filter storing h"

definition gotten :: "('a pq_call \<times> 'a pq_result) list \<Rightarrow> 'a list" where
  "gotten h = List.map_filter getting h"

end
