(* ===== verification/PcQueue_Ring.thy ===== *)
theory PcQueue_Ring
  imports PcQueue
begin

text \<open>
  The ring of waiters of the producer-consumer queue: what its pointer operations do, when the nodes
  linked are known.
\<close>

section \<open>Pointers\<close>

definition nx :: "waiters \<Rightarrow> node \<rightharpoonup> node" where
  "nx h n = Option.bind (h n) waiter_next"

definition pv :: "waiters \<Rightarrow> node \<rightharpoonup> node" where
  "pv h n = Option.bind (h n) waiter_prev"

lemma next_of_nx: "nx h n = Some m \<Longrightarrow> next_of h n = Inr m"
  by (auto simp: next_of_def nx_def split: option.splits bind_splits)

lemma prev_of_pv: "pv h n = Some m \<Longrightarrow> prev_of h n = Inr m"
  by (auto simp: prev_of_def pv_def split: option.splits bind_splits)

lemma set_next_nx:
  assumes "n \<in> dom h"
  obtains h' where "set_next n m h = Inr h'" "nx h' = (nx h)(n \<mapsto> m)" "pv h' = pv h" "dom h' = dom h"
proof -
  obtain w where "h n = Some w" using assms by auto
  then show thesis
    by (intro that [of "h(n \<mapsto> w\<lparr>waiter_next := Some m\<rparr>)"])
      (auto simp: set_next_def nx_def [abs_def] pv_def [abs_def] fun_eq_iff)
qed

lemma set_prev_pv:
  assumes "n \<in> dom h"
  obtains h' where "set_prev n m h = Inr h'" "pv h' = (pv h)(n \<mapsto> m)" "nx h' = nx h" "dom h' = dom h"
proof -
  obtain w where "h n = Some w" using assms by auto
  then show thesis
    by (intro that [of "h(n \<mapsto> w\<lparr>waiter_prev := Some m\<rparr>)"])
      (auto simp: set_prev_def nx_def [abs_def] pv_def [abs_def] fun_eq_iff)
qed

lemma new_waiter_pointers: "nx (new_waiter n h) = (nx h)(n := None)" "pv (new_waiter n h) = (pv h)(n := None)"
  "dom (new_waiter n h) = insert n (dom h)"
  by (auto simp: new_waiter_def nx_def [abs_def] pv_def [abs_def] fun_eq_iff)

lemma drop_waiter_pointers: "nx (drop_waiter n h) = (nx h)(n := None)" "pv (drop_waiter n h) = (pv h)(n := None)"
  "dom (drop_waiter n h) = dom h - {n}"
  by (auto simp: drop_waiter_def nx_def [abs_def] pv_def [abs_def] fun_eq_iff)

section \<open>Linked lists of nodes\<close>

fun linked :: "(node \<rightharpoonup> node) \<Rightarrow> (node \<rightharpoonup> node) \<Rightarrow> node list \<Rightarrow> bool" where
  "linked f g (a # b # xs) \<longleftrightarrow> f a = Some b \<and> g b = Some a \<and> linked f g (b # xs)"
| "linked f g _ \<longleftrightarrow> True"

lemma linked_append: "linked f g (xs @ a # ys) \<longleftrightarrow> linked f g (xs @ [a]) \<and> linked f g (a # ys)"
  by (induction f g xs rule: linked.induct) (cases ys; auto)+

lemma linked_cong:
  assumes "\<And>n. n \<in> set (butlast xs) \<Longrightarrow> f' n = f n" and "\<And>n. n \<in> set (tl xs) \<Longrightarrow> g' n = g n"
  shows "linked f' g' xs = linked f g xs"
  using assms by (induction f g xs rule: linked.induct) (auto split: if_splits)

lemma linked_relink:
  assumes "linked f g (us @ [p, t, n] @ vs)" and "p \<notin> set us" "p \<notin> set (butlast (n # vs))"
    and "n \<notin> set vs" "n \<notin> set (tl (us @ [p]))"
  shows "linked (f(p \<mapsto> n)) (g(n \<mapsto> p)) (us @ [p, n] @ vs)"
proof -
  have "linked f g (us @ [p])" "linked f g (n # vs)"
    using assms(1) linked_append [of f g us p "t # n # vs"] by simp_all
  then have "linked (f(p \<mapsto> n)) (g(n \<mapsto> p)) (us @ [p])" "linked (f(p \<mapsto> n)) (g(n \<mapsto> p)) (n # vs)"
    using assms(2-5) by (subst linked_cong [where f = f and g = g]; auto)+
  then show ?thesis using linked_append [of _ _ us p "n # vs"] by simp
qed

section \<open>The ring\<close>

definition ring_nodes :: "nat list \<Rightarrow> node list" where
  "ring_nodes ws = Head # map Self ws @ [Head]"

definition ring :: "waiters \<Rightarrow> nat list \<Rightarrow> bool" where
  "ring h ws \<longleftrightarrow> linked (nx h) (pv h) (ring_nodes ws) \<and> distinct ws \<and> dom h = set (ring_nodes ws)"

definition top_node :: "nat list \<Rightarrow> node" where
  "top_node ws = (case ws of [] \<Rightarrow> Head | t # _ \<Rightarrow> Self t)"

lemma ring_top: "ring (pq_waiters s) ws \<Longrightarrow> TopWaiter s = Inr (top_node ws)"
  by (cases ws) (auto simp: ring_def ring_nodes_def TopWaiter_def top_node_def intro!: next_of_nx)

lemma ring_empty: "ring [Head \<mapsto> \<lparr>waiter_next = Some Head, waiter_prev = Some Head\<rparr>] []"
  by (simp add: ring_def ring_nodes_def nx_def pv_def)

lemma ring_push:
  assumes "ring (pq_waiters s) ws" and "t \<notin> set ws"
  shows "\<exists>h'. PushWaiter (Self t) (s\<lparr>pq_waiters := new_waiter (Self t) (pq_waiters s)\<rparr>) =
      Inr (s\<lparr>pq_waiters := h', pq_num_waiters := pq_num_waiters s + 1\<rparr>) \<and> ring h' (t # ws)"
proof -
  let ?h = "pq_waiters s" and ?t = "Self t"
  obtain m rest where m: "map Self ws @ [Head] = m # rest" by (cases ws) auto
  have L: "linked (nx ?h) (pv ?h) (Head # m # rest)" and D: "dom ?h = set (Head # m # rest)"
    using assms(1) by (simp_all add: ring_def ring_nodes_def m)
  have mt: "m \<noteq> ?t" "?t \<notin> set rest" "m \<notin> set rest" "Head \<notin> set (butlast (m # rest))"
    "?t \<notin> set (butlast (m # rest))"
    using m assms by (cases ws; auto simp: ring_def)+
  obtain h1 where h1: "set_prev ?t Head (new_waiter ?t ?h) = Inr h1"
    "pv h1 = (pv (new_waiter ?t ?h))(?t \<mapsto> Head)" "nx h1 = nx (new_waiter ?t ?h)" "dom h1 = insert ?t (dom ?h)"
    using set_prev_pv [of ?t "new_waiter ?t ?h" Head] by (metis new_waiter_pointers(3) insertI1)
  have n1: "next_of h1 Head = Inr m" using h1(3) L by (intro next_of_nx) (simp add: new_waiter_pointers)
  obtain h2 where h2: "set_next ?t m h1 = Inr h2" "nx h2 = (nx h1)(?t \<mapsto> m)" "pv h2 = pv h1" "dom h2 = dom h1"
    using set_next_nx [of ?t h1 m] h1(4) by auto
  have n2: "next_of h2 ?t = Inr m" using h2(2) by (intro next_of_nx) simp
  obtain h3 where h3: "set_prev m ?t h2 = Inr h3" "pv h3 = (pv h2)(m \<mapsto> ?t)" "nx h3 = nx h2" "dom h3 = dom h2"
    using set_prev_pv [of m h2 ?t] h2(4) h1(4) D by auto
  have p3: "prev_of h3 ?t = Inr Head" using h3(2) h2(3) h1(2) mt(1) by (intro prev_of_pv) simp
  obtain h4 where h4: "set_next Head ?t h3 = Inr h4" "nx h4 = (nx h3)(Head \<mapsto> ?t)" "pv h4 = pv h3" "dom h4 = dom h3"
    using set_next_nx [of Head h3 ?t] h3(4) h2(4) h1(4) D by auto
  have nx4: "nx h4 = (nx ?h)(?t \<mapsto> m, Head \<mapsto> ?t)"
    by (simp add: h4(2) h3(3) h2(2) h1(3) new_waiter_pointers)
  have pv4: "pv h4 = (pv ?h)(?t \<mapsto> Head, m \<mapsto> ?t)"
    by (simp add: h4(3) h3(2) h2(3) h1(2) new_waiter_pointers)
  have "linked (nx h4) (pv h4) (m # rest) = linked (nx ?h) (pv ?h) (m # rest)"
    using mt by (intro linked_cong) (unfold nx4 pv4, auto simp del: butlast.simps)
  then have "linked (nx h4) (pv h4) (Head # ?t # m # rest)" using L mt(1) by (simp add: nx4 pv4)
  then have "ring h4 (t # ws)"
    using assms D m by (auto simp: ring_def ring_nodes_def h4(4) h3(4) h2(4) h1(4))
  then show ?thesis
    by (auto simp: PushWaiter_def h1(1) n1 h2(1) n2 h3(1) p3 h4(1))
qed

text \<open>The neighbours of a waiter in the ring.\<close>

lemma ring_split:
  assumes "distinct (as @ t # bs)"
  obtains us p n vs where "ring_nodes (as @ t # bs) = us @ [p, Self t, n] @ vs"
    "ring_nodes (as @ bs) = us @ [p, n] @ vs" "Self t \<notin> set (us @ [p, n] @ vs)"
    "p \<notin> set us" "p \<notin> set (butlast (n # vs))" "n \<notin> set vs" "n \<notin> set (tl (us @ [p]))"
proof -
  obtain us p where p: "Head # map Self as = us @ [p]" by (metis append_butlast_last_id list.distinct(1))
  obtain n vs where n: "map Self bs @ [Head] = n # vs" by (cases bs) auto
  have "ring_nodes (as @ cs @ bs) = (Head # map Self as) @ map Self cs @ (map Self bs @ [Head])" for cs
    by (simp add: ring_nodes_def)
  then have "ring_nodes (as @ cs @ bs) = us @ [p] @ map Self cs @ n # vs" for cs unfolding p n by simp
  from this [of "[t]"] this [of "[]"] have nodes: "ring_nodes (as @ t # bs) = us @ [p, Self t, n] @ vs"
    "ring_nodes (as @ bs) = us @ [p, n] @ vs" by simp_all
  have "Self t \<notin> set (ring_nodes (as @ bs))" using assms by (auto simp: ring_nodes_def)
  then have notin: "Self t \<notin> set (us @ [p, n] @ vs)" unfolding nodes(2) .
  have "distinct (Head # map Self as)" "distinct (map Self bs @ [Head])"
    using assms by (auto simp: distinct_map inj_on_def)
  then have a: "p \<notin> set us" "n \<notin> set vs" unfolding p n by simp_all
  have "p \<in> set (us @ [p])" "n \<in> set (n # vs)" by simp_all
  then have "p \<in> set (Head # map Self as)" "n \<in> set (map Self bs @ [Head])" unfolding p n .
  moreover have "butlast (n # vs) = map Self bs" "tl (us @ [p]) = map Self as" by (simp_all flip: p n)
  ultimately have "p \<notin> set (butlast (n # vs))" "n \<notin> set (tl (us @ [p]))" using assms by auto
  with nodes notin a show thesis using that by blast
qed

lemma ring_remove:
  assumes "ring (pq_waiters s) ws" and "t \<in> set ws"
  shows "\<exists>h'. end_wait t s = Inr (s\<lparr>pq_num_waiters := pq_num_waiters s - 1, pq_waiters := h'\<rparr>) \<and>
      ring h' (remove1 t ws)"
proof -
  let ?h = "pq_waiters s" and ?t = "Self t"
  obtain as bs where ws: "ws = as @ t # bs" and ta: "t \<notin> set as" using assms(2) split_list_first by metis
  have dist: "distinct (as @ t # bs)" using assms(1) by (simp add: ring_def ws)
  obtain us p n vs where nodes: "ring_nodes (as @ t # bs) = us @ [p, ?t, n] @ vs"
      "ring_nodes (as @ bs) = us @ [p, n] @ vs" and notin: "?t \<notin> set (us @ [p, n] @ vs)"
    and apart: "p \<notin> set us" "p \<notin> set (butlast (n # vs))" "n \<notin> set vs" "n \<notin> set (tl (us @ [p]))"
    using ring_split [OF dist] by blast
  have L: "linked (nx ?h) (pv ?h) (us @ [p, ?t, n] @ vs)" and D: "dom ?h = set (us @ [p, ?t, n] @ vs)"
    using assms(1) by (simp_all add: ring_def ws nodes(1))
  have links: "nx ?h ?t = Some n" "pv ?h ?t = Some p"
    using L linked_append [of "nx ?h" "pv ?h" us p "?t # n # vs"] by simp_all
  obtain h1 where h1: "set_prev n p ?h = Inr h1" "pv h1 = (pv ?h)(n \<mapsto> p)" "nx h1 = nx ?h" "dom h1 = dom ?h"
    using set_prev_pv [of n ?h p] D by auto
  have r1: "prev_of h1 ?t = Inr p" "next_of h1 ?t = Inr n"
    using h1 links notin by (auto intro: prev_of_pv next_of_nx)
  obtain h2 where h2: "set_next p n h1 = Inr h2" "nx h2 = (nx h1)(p \<mapsto> n)" "pv h2 = pv h1" "dom h2 = dom h1"
    using set_next_nx [of p h1 n] h1(4) D by auto
  let ?h' = "drop_waiter ?t h2"
  have "linked (nx ?h') (pv ?h') (us @ [p, n] @ vs) = linked (nx h2) (pv h2) (us @ [p, n] @ vs)"
    using notin by (intro linked_cong; cases us) (auto simp: drop_waiter_pointers dest: in_set_butlastD split: if_splits)
  moreover have "linked (nx h2) (pv h2) (us @ [p, n] @ vs)"
    using linked_relink [OF L apart] by (simp add: h1 h2)
  ultimately have "ring ?h' (as @ bs)"
    using dist D notin by (auto simp: ring_def nodes(2) drop_waiter_pointers(3) h1(4) h2(4))
  then show ?thesis
    using ta by (auto simp: end_wait_def RemoveWaiter_def Let_def links next_of_nx prev_of_pv h1(1) r1 h2(1)
        ws remove1_append)
qed

end
