(* ===== verification/PcQueue_Proofs.thy ===== *)
theory PcQueue_Proofs
  imports PcQueue_Ring
begin

text \<open>
  Correctness of the producer-consumer queue: the specification over a list of elements and a list of
  waiting threads that the pointer operations implement, the order of the elements, and the wake-ups of
  the threads that get and put.
\<close>

section \<open>Specification\<close>

text \<open>
  The queue without its ring: the elements and the threads that wait in \<open>Get\<close> or \<open>GetWithTimeout\<close>, the
  last one to arrive first.
\<close>

type_synonym 'a pq_spec = "('a list \<times> nat list) \<times> pq_condvar signal list \<times> (pq_condvar, 'a pq_result) exit"

definition spec_put :: "'a \<Rightarrow> 'a list \<Rightarrow> nat list \<Rightarrow> 'a pq_spec" where
  "spec_put e q ws = ((q @ [e], ws), [SignalOne (Cv (top_node ws))], Leave Stored)"

definition spec_take :: "int \<Rightarrow> 'a list \<Rightarrow> nat list \<Rightarrow> 'a pq_spec" where
  "spec_take cap q ws = ((tl q, ws),
    (if cap \<noteq> kUnbounded then [SignalOne Nonfull] else []) @
    (if tl q \<noteq> [] then [SignalOne (Cv (top_node ws))] else []), Leave (Got (hd q)))"

definition spec_put_loop :: "int \<Rightarrow> 'a \<Rightarrow> 'a list \<Rightarrow> nat list \<Rightarrow> 'a pq_spec" where
  "spec_put_loop cap e q ws =
    (if cap \<noteq> kUnbounded \<and> cap \<le> int (length q) then ((q, ws), [], Sleep Nonfull) else spec_put e q ws)"

definition spec_get :: "int \<Rightarrow> nat \<Rightarrow> 'a list \<Rightarrow> nat list \<Rightarrow> 'a pq_spec" where
  "spec_get cap t q ws =
    (if q = [] then ((q, t # ws), [], Sleep (Cv (Self t))) else spec_take cap q ws)"

fun spec_call :: "int \<Rightarrow> nat \<Rightarrow> 'a pq_call \<Rightarrow> 'a list \<Rightarrow> nat list \<Rightarrow> 'a pq_spec" where
  "spec_call cap t (Put e) q ws = spec_put_loop cap e q ws"
| "spec_call cap t (ForcePut e) q ws = spec_put e q ws"
| "spec_call cap t (TryPut e) q ws =
    (if cap \<le> int (length q) then ((q, ws), [], Leave NotStored) else spec_put e q ws)"
| "spec_call cap t (PutIfReadyToRun e) q ws =
    (if length ws \<le> length q \<or> cap \<le> int (length q) then ((q, ws), [], Leave NotStored)
     else spec_put e q ws)"
| "spec_call cap t Get q ws = spec_get cap t q ws"
| "spec_call cap t (GetWithTimeout ms) q ws = spec_get cap t q ws"
| "spec_call cap t TryGet q ws = (if q = [] then ((q, ws), [], Leave NotGot) else spec_take cap q ws)"
| "spec_call cap t ElementCount q ws = ((q, ws), [], Leave (Number (int (length q))))"
| "spec_call cap t Capacity q ws = ((q, ws), [], Leave (Number cap))"

fun spec_wake :: "int \<Rightarrow> nat \<Rightarrow> 'a pq_call \<Rightarrow> bool \<Rightarrow> 'a list \<Rightarrow> nat list \<Rightarrow> 'a pq_spec" where
  "spec_wake cap t (Put e) expired q ws = spec_put_loop cap e q ws"
| "spec_wake cap t (GetWithTimeout ms) expired q ws =
    (if q = [] then if expired then ((q, remove1 t ws), [], Leave NotGot) else ((q, ws), [], Sleep (Cv (Self t)))
     else spec_take cap q (remove1 t ws))"
| "spec_wake cap t _ expired q ws =
    (if q = [] then ((q, ws), [], Sleep (Cv (Self t))) else spec_take cap q (remove1 t ws))"

fun getter :: "'a pq_call \<Rightarrow> bool" where
  "getter Get = True"
| "getter (GetWithTimeout ms) = True"
| "getter _ = False"

fun putter :: "'a pq_call \<Rightarrow> bool" where
  "putter (Put e) = True"
| "putter _ = False"

definition represents :: "int \<Rightarrow> 'a PcQueue \<Rightarrow> 'a list \<Rightarrow> nat list \<Rightarrow> bool" where
  "represents cap s q ws \<longleftrightarrow> pq_capacity s = cap \<and> pq_queue s = q \<and> pq_count s = int (length q) \<and>
    pq_num_waiters s = int (length ws) \<and> ring (pq_waiters s) ws"

text \<open>What the code returns is what the specification does, on the state that represents it.\<close>

definition implements :: "int \<Rightarrow> 'a pq_segment \<Rightarrow> 'a pq_spec \<Rightarrow> bool" where
  "implements cap x y \<longleftrightarrow>
    (\<exists>s'. x = Inr (s', fst (snd y), snd (snd y)) \<and> represents cap s' (fst (fst y)) (snd (fst y)))"

lemma new_PcQueue_represents:
  "new_PcQueue cap = Inr s \<Longrightarrow> represents cap s [] [] \<and> cap > 0"
  by (auto simp: new_PcQueue_def represents_def ring_empty)

lemma InternalPut_implements: "represents cap s q ws \<Longrightarrow> implements cap (InternalPut e s) (spec_put e q ws)"
  by (auto simp: implements_def represents_def InternalPut_def spec_put_def Let_def ring_top)

lemma RemoveElement_eq:
  assumes "represents cap s q ws" and "q \<noteq> []"
  shows "\<exists>s'. RemoveElement s = Inr (hd q, s', fst (snd (spec_take cap q ws))) \<and> represents cap s' (tl q) ws"
  using assms
  by (cases q) (auto simp: RemoveElement_def represents_def spec_take_def Let_def ring_top IsLimitedCapacity_def)

lemma take_element_implements:
  assumes "represents cap s q ws" and "q \<noteq> []"
  shows "implements cap (take_element s) (spec_take cap q ws)"
  using RemoveElement_eq [OF assms] assms
  by (auto simp: implements_def take_element_def represents_def spec_take_def)

lemma push_represents:
  assumes "represents cap s q ws" and "t \<notin> set ws"
  shows "\<exists>s'. PushWaiter (Self t) (s\<lparr>pq_waiters := new_waiter (Self t) (pq_waiters s)\<rparr>) = Inr s' \<and>
    represents cap s' q (t # ws)"
  using ring_push [of s ws t] assms by (auto simp: represents_def)

lemma end_wait_represents:
  assumes "represents cap s q ws" and "t \<in> set ws"
  shows "\<exists>s'. end_wait t s = Inr s' \<and> represents cap s' q (remove1 t ws)"
proof -
  have "Suc 0 \<le> length ws" using length_pos_if_in_set [OF assms(2)] by (rule Suc_leI)
  then show ?thesis
    using ring_remove [of s ws t] assms by (auto simp: represents_def length_remove1 of_nat_diff)
qed

lemma represents_count: "represents cap s q ws \<Longrightarrow> pq_count s = int (length q) \<and> pq_capacity s = cap \<and>
    pq_num_waiters s = int (length ws)"
  by (simp add: represents_def)

lemma implements_same: "represents cap s q ws \<Longrightarrow> implements cap (Inr (s, ss, a)) ((q, ws), ss, a)"
  by (simp add: implements_def)

lemma TryGet_take: "pq_count s > 0 \<Longrightarrow> TryGet_once s = take_element s"
  "pq_count s = 0 \<Longrightarrow> TryGet_once s = Inr (s, [], Leave NotGot)"
  by (simp_all add: TryGet_once_def take_element_def)

lemma call_implements:
  assumes "represents cap s q ws" and "t \<notin> set ws"
  shows "implements cap (pq_on_call t p s) (spec_call cap t p q ws)"
  using assms(1) represents_count [OF assms(1)] push_represents [OF assms]
  by (cases p) (auto simp: Put_loop_def IsLimitedCapacity_def TryPut_once_def PutIfReady_def Get_start_def
      TryGet_take spec_put_loop_def spec_get_def count_now_def capacity_now_def
      intro: InternalPut_implements take_element_implements implements_same)

lemma wake_implements:
  assumes "represents cap s q ws" and "getter p \<longrightarrow> t \<in> set ws" and "getter p \<or> putter p"
  shows "implements cap (pq_on_wake t p expired late s) (spec_wake cap t p expired q ws)"
proof (cases "getter p")
  case True
  then obtain s' where "end_wait t s = Inr s'" "represents cap s' q (remove1 t ws)"
    using end_wait_represents [OF assms(1)] assms(2) by blast
  then show ?thesis
    using True assms(1) represents_count [OF assms(1)]
    by (cases p) (auto simp: Get_woken_def GetWithTimeout_woken_def
        intro: take_element_implements implements_same)
next
  case False
  then show ?thesis
    using assms(1,3) represents_count [OF assms(1)]
    by (cases p) (auto simp: Put_loop_def IsLimitedCapacity_def spec_put_loop_def
        intro: InternalPut_implements implements_same)
qed

section \<open>Threads\<close>

fun in_get :: "('c, 'a pq_call) thread_state \<Rightarrow> bool" where
  "in_get Out = False"
| "in_get (Asleep c p) = getter p"
| "in_get (Awake p e) = getter p"

fun well_placed :: "nat \<Rightarrow> (pq_condvar, 'a pq_call) thread_state \<Rightarrow> bool" where
  "well_placed t Out = True"
| "well_placed t (Asleep c p) \<longleftrightarrow> getter p \<and> c = Cv (Self t) \<or> putter p \<and> c = Nonfull"
| "well_placed t (Awake p e) \<longleftrightarrow> getter p \<or> putter p"

text \<open>
  One segment of thread \<open>t\<close> in the call \<open>p\<close>, called or woken, and what it does according to the
  specification.
\<close>

definition spec_segment :: "int \<Rightarrow> nat \<Rightarrow> 'a pq_call \<Rightarrow> (pq_condvar, 'a pq_call) thread_state \<Rightarrow>
    'a list \<Rightarrow> nat list \<Rightarrow> 'a pq_spec \<Rightarrow> bool" where
  "spec_segment cap t p x q ws y \<longleftrightarrow>
    (x = Out \<and> t \<notin> set ws \<and> y = spec_call cap t p q ws) \<or>
    (\<exists>e. x = Awake p e \<and> (getter p \<or> putter p) \<and> (t \<in> set ws \<longleftrightarrow> getter p) \<and> y = spec_wake cap t p e q ws)"

lemmas spec_defs = spec_put_def spec_take_def spec_put_loop_def spec_get_def

lemma spec_segment_exit:
  assumes "spec_segment cap t p x q ws ((q', ws'), ss, a)" and "distinct ws"
  shows "well_placed t (after_exit p a)" and "in_get (after_exit p a) \<longleftrightarrow> t \<in> set ws'"
    and "u \<noteq> t \<Longrightarrow> u \<in> set ws' \<longleftrightarrow> u \<in> set ws"
  using assms unfolding spec_segment_def
  by (cases p; auto simp: spec_defs split: if_splits)+

lemma top_node_hd: "ws \<noteq> [] \<Longrightarrow> top_node ws = Self (hd ws)"
  by (cases ws) (simp_all add: top_node_def)

lemma spec_segment_top:
  assumes "spec_segment cap t p x q ws ((q', ws'), ss, a)" and "distinct ws" and "q' \<noteq> []" and "ws' \<noteq> []"
  shows "t \<noteq> hd ws'" and "SignalOne (Cv (Self (hd ws'))) \<in> set ss \<or> q' = q \<and> ws' = ws"
proof -
  have "t \<notin> set ws'"
    using assms unfolding spec_segment_def by (cases p) (auto simp: spec_defs split: if_splits)
  then show "t \<noteq> hd ws'" using assms(4) hd_in_set by metis
  show "SignalOne (Cv (Self (hd ws'))) \<in> set ss \<or> q' = q \<and> ws' = ws"
    using assms unfolding spec_segment_def by (cases p) (auto simp: spec_defs top_node_hd split: if_splits)
qed

text \<open>How many threads have been woken in \<open>Put\<close>.\<close>

definition woken_putters :: "(pq_condvar, 'a pq_call) thread_states \<Rightarrow> nat set" where
  "woken_putters T = {t. \<exists>p e. T t = Awake p e \<and> putter p}"

definition putter_waits :: "(pq_condvar, 'a pq_call) thread_states \<Rightarrow> bool" where
  "putter_waits T \<longleftrightarrow> (\<exists>t p. T t = Asleep Nonfull p)"

definition threads_in :: "(pq_condvar, 'a pq_call) thread_states \<Rightarrow> nat set" where
  "threads_in T = {t. T t \<noteq> Out}"

lemma woken_putters_finite: "finite (threads_in T) \<Longrightarrow> finite (woken_putters T)"
  by (rule finite_subset [of _ "threads_in T"]) (auto simp: woken_putters_def threads_in_def)

lemma deliver_threads_in:
  assumes "deliver ss T T'" and "finite (threads_in T)"
  shows "finite (threads_in (T'(t := x)))"
proof -
  have "threads_in (T'(t := x)) \<subseteq> insert t (threads_in T)"
    using deliver_Out [OF assms(1)] by (auto simp: threads_in_def split: if_splits)
  then show ?thesis using assms(2) finite_subset by blast
qed

lemma deliver_placed:
  assumes "deliver ss T T'" and "well_placed t (T t)"
  shows "well_placed t (T' t)" and "in_get (T' t) \<longleftrightarrow> in_get (T t)"
  using deliver_thread [OF assms(1), of t] assms(2) by auto

lemma woken_putters_segment:
  assumes "deliver ss T T'" and "finite (threads_in T)" and "\<And>t. well_placed t (T t)"
    and "\<And>c q. T t \<noteq> Asleep c q"
  shows "card (woken_putters T) + (if SignalOne Nonfull \<in> set ss \<and> putter_waits T then 1 else 0) \<le>
    card (woken_putters (T'(t := x))) + (if t \<in> woken_putters T then 1 else 0)"
proof -
  let ?P = "woken_putters T" and ?P' = "woken_putters (T'(t := x))"
  have fin: "finite ?P'"
    using deliver_threads_in [OF assms(1,2)] by (rule woken_putters_finite)
  have kept: "?P - {t} \<subseteq> ?P'"
    using deliver_Awake [OF assms(1)] by (auto simp: woken_putters_def)
  have card: "card ?P = card (?P - {t}) + (if t \<in> ?P then 1 else 0)"
    using woken_putters_finite [OF assms(2)] card.remove [of ?P t] by auto
  show ?thesis
  proof (cases "SignalOne Nonfull \<in> set ss \<and> putter_waits T")
    case True
    then obtain v q where "T v = Asleep Nonfull q" by (auto simp: putter_waits_def)
    then obtain u m where u: "T u = Asleep Nonfull m" "T' u = Awake m False"
      using deliver_wakes [OF assms(1), of Nonfull v q] True by (auto simp: signals_to_def)
    then have "u \<in> ?P'" "u \<notin> ?P" using assms(3) [of u] assms(4)
      by (auto simp: woken_putters_def)
    then have "insert u (?P - {t}) \<subseteq> ?P'" "card (insert u (?P - {t})) = Suc (card (?P - {t}))"
      using kept woken_putters_finite [OF assms(2)] by auto
    with card_mono [OF fin this(1)] have "Suc (card (?P - {t})) \<le> card ?P'" by simp
    then show ?thesis using card True by simp
  next
    case False
    then show ?thesis using card card_mono [OF fin kept] by auto
  qed
qed

definition pq_ok :: "int \<Rightarrow> 'a pq_system \<Rightarrow> nat list \<Rightarrow> bool" where
  "pq_ok cap S ws \<longleftrightarrow>
    represents cap (shared S) (pq_queue (shared S)) ws \<and>
    stored (calls S) = gotten (calls S) @ pq_queue (shared S) \<and>
    (\<forall>t. well_placed t (states S t) \<and> (t \<in> set ws \<longleftrightarrow> in_get (states S t))) \<and>
    finite (threads_in (states S)) \<and>
    (pq_queue (shared S) \<noteq> [] \<longrightarrow> ws \<noteq> [] \<longrightarrow> (\<exists>p e. states S (hd ws) = Awake p e)) \<and>
    (cap \<noteq> kUnbounded \<longrightarrow> putter_waits (states S) \<longrightarrow>
      cap - int (length (pq_queue (shared S))) \<le> int (card (woken_putters (states S)))) \<and>
    (cap \<noteq> kUnbounded \<longrightarrow> (\<forall>e. (ForcePut e, Stored) \<notin> set (calls S)) \<longrightarrow>
      int (length (pq_queue (shared S))) \<le> cap)"

lemma pq_okD:
  assumes "pq_ok cap S ws"
  shows "represents cap (shared S) (pq_queue (shared S)) ws"
    "stored (calls S) = gotten (calls S) @ pq_queue (shared S)"
    "well_placed t (states S t)" "t \<in> set ws \<longleftrightarrow> in_get (states S t)"
    "finite (threads_in (states S))"
    "pq_queue (shared S) \<noteq> [] \<Longrightarrow> ws \<noteq> [] \<Longrightarrow> \<exists>p e. states S (hd ws) = Awake p e"
    "cap \<noteq> kUnbounded \<Longrightarrow> putter_waits (states S) \<Longrightarrow>
      cap - int (length (pq_queue (shared S))) \<le> int (card (woken_putters (states S)))"
    "cap \<noteq> kUnbounded \<Longrightarrow> \<forall>e. (ForcePut e, Stored) \<notin> set (calls S) \<Longrightarrow>
      int (length (pq_queue (shared S))) \<le> cap"
    "distinct ws"
  using assms by (auto simp: pq_ok_def represents_def ring_def)

lemma represents_queue: "represents cap s q ws \<Longrightarrow> pq_queue s = q"
  by (simp add: represents_def)

text \<open>A segment keeps every part of the invariant.\<close>

lemma calls_snoc_pq [simp]: "stored [] = []" "gotten [] = []"
  "stored (h @ [x]) = stored h @ (case storing x of Some e \<Rightarrow> [e] | None \<Rightarrow> [])"
  "gotten (h @ [x]) = gotten h @ (case getting x of Some e \<Rightarrow> [e] | None \<Rightarrow> [])"
  by (auto simp: stored_def gotten_def List.map_filter_def split: option.split)

lemma spec_segment_order:
  assumes "spec_segment cap t p x q ws ((q', ws'), ss, a)" and "stored h = gotten h @ q"
  shows "stored (h @ completed p a) = gotten (h @ completed p a) @ q'"
  using assms unfolding spec_segment_def
  by (cases p; cases q) (auto simp: spec_defs split: if_splits)

lemma spec_segment_bound:
  assumes "spec_segment cap t p x q ws ((q', ws'), ss, a)" and "cap \<noteq> kUnbounded"
    and "\<forall>e. (ForcePut e, Stored) \<notin> set (h @ completed p a)" and "int (length q) \<le> cap"
  shows "int (length q') \<le> cap"
  using assms unfolding spec_segment_def
  by (cases p) (auto simp: spec_defs split: if_splits)

text \<open>
  An element taken is one more place and one more signal; an element put is one place less, and one woken
  thread less if the thread had waited; a thread starts to wait only if there is no place.
\<close>

lemma spec_segment_places:
  assumes "spec_segment cap t p x q ws ((q', ws'), ss, a)" and "cap \<noteq> kUnbounded"
  shows "a = Sleep Nonfull \<and> cap \<le> int (length q') \<or>
    length q + (if \<exists>e. x = Awake p e \<and> putter p then 1 else 0) \<le>
      length q' + (if SignalOne Nonfull \<in> set ss then 1 else 0) \<and> a \<noteq> Sleep Nonfull"
  using assms unfolding spec_segment_def
  by (cases p; cases q) (auto simp: spec_defs split: if_splits)

lemma top_woken:
  assumes "deliver ss T T'" and "\<And>t. well_placed t (T t)" and "in_get (T' u)"
    and "SignalOne (Cv (Self u)) \<in> set ss"
  shows "\<exists>p e. T' u = Awake p e"
proof (cases "T' u")
  case (Asleep c q)
  then have u: "T u = Asleep c q" by (rule deliver_Asleep [OF assms(1)])
  moreover have "getter q" using Asleep assms(3) by simp
  ultimately have "c = Cv (Self u)" using assms(2) [of u] by (cases q) auto
  then obtain v m where v: "T v = Asleep (Cv (Self u)) m" "T' v = Awake m False"
    using deliver_wakes [OF assms(1), of "Cv (Self u)" u q] u assms(4) by (auto simp: signals_to_def)
  then have "v = u" using assms(2) [of v] by auto
  then show ?thesis using v(2) by blast
qed (use assms(3) in auto)

lemma segment_top:
  assumes "pq_ok cap S ws" and "spec_segment cap t p x (pq_queue (shared S)) ws ((q', ws'), ss, a)"
    and "deliver ss (states S) T'" and "q' \<noteq> []" and "ws' \<noteq> []"
  shows "\<exists>p e. (T'(t := y)) (hd ws') = Awake p e"
proof -
  note D = pq_okD [OF assms(1)]
  note u = spec_segment_top [OF assms(2) D(9) assms(4,5)]
  have "in_get (T' (hd ws'))"
    using spec_segment_exit(3) [OF assms(2) D(9), of "hd ws'"] u(1) assms(5) D(4) [of "hd ws'"]
      deliver_placed(2) [OF assms(3) D(3)] by auto
  then have "\<exists>p e. T' (hd ws') = Awake p e"
    using u(2) top_woken [OF assms(3) D(3)] D(6) deliver_Awake [OF assms(3)] assms(4,5) by metis
  then show ?thesis using u(1) by auto
qed

lemma segment_places:
  assumes "pq_ok cap S ws" and "states S t = x" and "\<And>c q. x \<noteq> Asleep c q"
    and "spec_segment cap t p x (pq_queue (shared S)) ws ((q', ws'), ss, a)"
    and "deliver ss (states S) T'" and "cap \<noteq> kUnbounded" and "putter_waits (T'(t := after_exit p a))"
  shows "cap - int (length q') \<le> int (card (woken_putters (T'(t := after_exit p a))))"
  using spec_segment_places [OF assms(4,6)]
proof (elim disjE conjE)
  assume le: "length (pq_queue (shared S)) + (if \<exists>e. x = Awake p e \<and> putter p then 1 else 0) \<le>
      length q' + (if SignalOne Nonfull \<in> set ss then 1 else 0)" and "a \<noteq> Sleep Nonfull"
  note D = pq_okD [OF assms(1)]
  obtain v r where v: "(T'(t := after_exit p a)) v = Asleep Nonfull r"
    using assms(7) by (auto simp: putter_waits_def)
  then have "v \<noteq> t" using \<open>a \<noteq> Sleep Nonfull\<close> by (cases a) auto
  then have w: "putter_waits (states S)" using v deliver_Asleep [OF assms(5), of v Nonfull r] by (auto simp: putter_waits_def)
  have "t \<in> woken_putters (states S) \<longleftrightarrow> (\<exists>e. x = Awake p e \<and> putter p)"
    using assms(2,4) by (auto simp: woken_putters_def spec_segment_def)
  moreover have "card (woken_putters (states S)) + (if SignalOne Nonfull \<in> set ss then 1 else 0) \<le>
    card (woken_putters (T'(t := after_exit p a))) + (if t \<in> woken_putters (states S) then 1 else 0)"
    using woken_putters_segment [OF assms(5) D(5,3), of t "after_exit p a"] assms(2,3) w by simp
  ultimately show ?thesis using D(7) [OF assms(6) w] le by (auto split: if_splits)
qed simp

lemma pq_ok_segment:
  assumes "pq_ok cap S ws" and "states S t = x" and "\<And>c q. x \<noteq> Asleep c q"
    and "spec_segment cap t p x (pq_queue (shared S)) ws ((q', ws'), ss, a)"
    and "represents cap s' q' ws'" and "deliver ss (states S) T'"
  shows "pq_ok cap \<lparr>shared = s', states = T'(t := after_exit p a), calls = calls S @ completed p a\<rparr> ws'"
proof -
  note D = pq_okD [OF assms(1)] and E = spec_segment_exit [OF assms(4) D(9)]
  let ?T = "T'(t := after_exit p a)" and ?q = "pq_queue (shared S)"
  have placed: "well_placed u (?T u) \<and> (u \<in> set ws' \<longleftrightarrow> in_get (?T u))" for u
    using E deliver_placed [OF assms(6) D(3) [of u]] D(4) [of u] by auto
  show ?thesis
    using D assms(5) placed segment_top [OF assms(1,4,6)] segment_places [OF assms(1-4,6)]
      deliver_threads_in [OF assms(6) D(5)]
      spec_segment_order [OF assms(4) D(2)] spec_segment_bound [OF assms(4), of "calls S"]
    unfolding pq_ok_def by (auto simp: represents_queue [OF assms(5)])
qed

lemma pq_ok_rewoken:
  assumes "pq_ok cap S ws" and "(\<exists>c. states S t = Asleep c p) \<or> states S t = Awake p x"
  shows "pq_ok cap (S\<lparr>states := (states S)(t := Awake p e)\<rparr>) ws"
proof -
  note D = pq_okD [OF assms(1)]
  let ?T = "(states S)(t := Awake p e)"
  have "well_placed u (?T u) \<and> (u \<in> set ws \<longleftrightarrow> in_get (?T u))" for u
    using D(3,4) [of u] assms(2) by auto
  moreover have fin: "finite (threads_in ?T)"
    using deliver_threads_in [OF deliver.nothing D(5)] .
  moreover have "int (length (pq_queue (shared S))) \<ge> cap - int (card (woken_putters ?T))"
    if lim: "cap \<noteq> kUnbounded" and w: "putter_waits ?T"
  proof -
    have "woken_putters (states S) \<subseteq> woken_putters ?T"
      using assms(2) by (auto simp: woken_putters_def)
    then have "card (woken_putters (states S)) \<le> card (woken_putters ?T)"
      using woken_putters_finite [OF fin] by (rule card_mono [rotated])
    moreover have "putter_waits (states S)" using w by (auto simp: putter_waits_def split: if_splits)
    ultimately show ?thesis using D(7) [OF lim] by simp
  qed
  ultimately show ?thesis
    using D(1,2,6,8) unfolding pq_ok_def by auto
qed

lemma implements_result:
  assumes "implements cap x y" and "x = Inr (s', ss, a)"
  obtains q' ws' where "y = ((q', ws'), ss, a)" and "represents cap s' q' ws'"
  using assms by (cases y) (auto simp: implements_def)

lemma pq_ok_call:
  assumes "pq_ok cap S ws" and "states S t = Out" and "pq_on_call t p (shared S) = Inr (s', ss, a)"
    and "deliver ss (states S) T'"
  shows "\<exists>ws'. pq_ok cap \<lparr>shared = s', states = T'(t := after_exit p a), calls = calls S @ completed p a\<rparr> ws'"
proof -
  have t: "t \<notin> set ws" using pq_okD(4) [OF assms(1), of t] assms(2) by simp
  obtain q' ws' where y: "spec_call cap t p (pq_queue (shared S)) ws = ((q', ws'), ss, a)"
    and "represents cap s' q' ws'"
    using implements_result [OF call_implements [OF pq_okD(1) [OF assms(1)] t, of p] assms(3)] .
  then have "spec_segment cap t p Out (pq_queue (shared S)) ws ((q', ws'), ss, a)"
    using t by (simp add: spec_segment_def)
  then show ?thesis
    using pq_ok_segment [OF assms(1,2) _ _ \<open>represents cap s' q' ws'\<close> assms(4)] by blast
qed

lemma pq_ok_wake:
  assumes "pq_ok cap S ws" and "states S t = Awake p e"
    and "pq_on_wake t p e late (shared S) = Inr (s', ss, a)" and "deliver ss (states S) T'"
  shows "\<exists>ws'. pq_ok cap \<lparr>shared = s', states = T'(t := after_exit p a), calls = calls S @ completed p a\<rparr> ws'"
proof -
  have t: "getter p \<longleftrightarrow> t \<in> set ws" "getter p \<or> putter p"
    using pq_okD(3,4) [OF assms(1), of t] assms(2) by auto
  obtain q' ws' where y: "spec_wake cap t p e (pq_queue (shared S)) ws = ((q', ws'), ss, a)"
    and "represents cap s' q' ws'"
    using implements_result [OF wake_implements [OF pq_okD(1) [OF assms(1)] _ t(2)] assms(3)] t(1) by blast
  then have "spec_segment cap t p (Awake p e) (pq_queue (shared S)) ws ((q', ws'), ss, a)"
    using t by (simp add: spec_segment_def)
  then show ?thesis
    using pq_ok_segment [OF assms(1,2) _ _ \<open>represents cap s' q' ws'\<close> assms(4)] by blast
qed

lemma pq_ok_moves:
  assumes "moves pq_code True S S'" and "pq_ok cap S ws"
  shows "\<exists>ws'. pq_ok cap S' ws'"
  using assms(1)
proof (cases rule: moves.cases)
  case (call t p s' ss a T')
  then show ?thesis using pq_ok_call [OF assms(2)] by (simp add: pq_code_def)
next
  case (wake t p e late s' ss a T')
  then show ?thesis using pq_ok_wake [OF assms(2)] by (simp add: pq_code_def)
qed (use pq_ok_rewoken [OF assms(2)] in blast)+

lemma pq_runs_ok:
  assumes "pq_runs cap S"
  shows "cap > 0 \<and> (\<exists>ws. pq_ok cap S ws)"
proof -
  obtain s where s: "new_PcQueue cap = Inr s" and r: "runs pq_code True s S"
    using assms by (auto simp: pq_runs_def)
  note R = new_PcQueue_represents [OF s]
  from r have "\<exists>ws. pq_ok cap S ws"
  proof (induction rule: runs.induct)
    case start
    have "pq_ok cap (monitor_start s) []"
      using R by (auto simp: pq_ok_def monitor_start_def represents_queue threads_in_def putter_waits_def)
    then show ?case by blast
  next
    case (move S S')
    then show ?case using pq_ok_moves by blast
  qed
  then show ?thesis using R by blast
qed

section \<open>Properties\<close>

lemma pq_scheduled:
  "cap > 0 \<Longrightarrow> pq_runs cap (scheduled n pq_code True (projr (new_PcQueue cap)) xs)"
  by (auto simp: pq_runs_def new_PcQueue_def intro: scheduled_runs)

text \<open>
  Property C18.  Refinement.  In every run, with any number of threads and whatever the waits report, the
  ring of waiters is well linked and holds exactly the threads inside \<open>Get\<close> and \<open>GetWithTimeout\<close> that had to
  wait, the last one first; and every call of a thread that is outside, and every woken thread, does
  exactly what the specification on the list of elements and the list of waiting threads says: no access
  to a node that is gone, no failed assertion, the same signals, the same wait or result, and a state that
  represents the specification's.
\<close>

theorem PcQueue_refines:
  assumes "pq_runs cap S"
  shows "\<exists>ws. represents cap (shared S) (pq_queue (shared S)) ws \<and>
    (\<forall>t. t \<in> set ws \<longleftrightarrow> in_get (states S t)) \<and>
    (\<forall>t p. states S t = Out \<longrightarrow>
      implements cap (pq_on_call t p (shared S)) (spec_call cap t p (pq_queue (shared S)) ws)) \<and>
    (\<forall>t p e late. states S t = Awake p e \<longrightarrow>
      implements cap (pq_on_wake t p e late (shared S)) (spec_wake cap t p e (pq_queue (shared S)) ws))"
proof -
  obtain ws where ok: "pq_ok cap S ws" using pq_runs_ok [OF assms] by blast
  note D = pq_okD [OF ok]
  have "implements cap (pq_on_call t p (shared S)) (spec_call cap t p (pq_queue (shared S)) ws)"
    if "states S t = Out" for t p
    using that D(4) [of t] by (intro call_implements D(1)) simp
  moreover have "implements cap (pq_on_wake t p e late (shared S)) (spec_wake cap t p e (pq_queue (shared S)) ws)"
    if "states S t = Awake p e" for t p e late
    using that D(3,4) [of t] by (intro wake_implements D(1)) auto
  ultimately show ?thesis using D(1,4) by blast
qed

text \<open>
  A run on a queue of capacity 1: two threads wait in \<open>Get\<close>, an element arrives and wakes the second one,
  another thread takes the element first, two threads put one each, of which one has to wait, and the
  woken thread takes the first of them.
\<close>

definition pq_example :: "nat pq_call action list" where
  "pq_example = [MakeCall 0 Get, MakeCall 1 (GetWithTimeout 5), MakeCall 2 (Put 7), MakeCall 3 TryGet,
    MakeCall 2 (Put 8), MakeCall 3 (Put 9), GoOn 1 False]"

abbreviation pq_final :: "nat pq_system" where
  "pq_final \<equiv> scheduled 4 pq_code True (projr (new_PcQueue 1)) pq_example"

theorem PcQueue_refines_witness:
  "states pq_final 0 = Asleep (Cv (Self 0)) Get \<and>
   (\<exists>ws. represents 1 (shared pq_final) (pq_queue (shared pq_final)) ws \<and> 0 \<in> set ws)"
proof -
  have "states pq_final 0 = Asleep (Cv (Self 0)) Get" by code_simp
  then show ?thesis using PcQueue_refines [OF pq_scheduled [of 1 4 pq_example]] by force
qed

text \<open>
  Property C39.  Order and counts.  In every run the elements got and then those in the queue are exactly
  the elements put, in the order in which they were put; \<open>count_\<close> is the number of elements and
  \<open>num_waiters_\<close> the number of threads inside \<open>Get\<close> and \<open>GetWithTimeout\<close> that had to wait; and as long as
  \<open>ForcePut\<close> is not used, a queue of limited capacity never holds more than its capacity.
\<close>

theorem PcQueue_order:
  assumes "pq_runs cap S"
  shows "stored (calls S) = gotten (calls S) @ pq_queue (shared S) \<and>
    pq_count (shared S) = int (length (pq_queue (shared S))) \<and>
    pq_num_waiters (shared S) = int (card {t. in_get (states S t)}) \<and>
    (cap \<noteq> kUnbounded \<and> (\<forall>e. (ForcePut e, Stored) \<notin> set (calls S)) \<longrightarrow> pq_count (shared S) \<le> cap)"
proof -
  obtain ws where ok: "pq_ok cap S ws" using pq_runs_ok [OF assms] by blast
  note D = pq_okD [OF ok]
  have "{t. in_get (states S t)} = set ws" using D(4) by auto
  then have "card {t. in_get (states S t)} = length ws" using D(9) distinct_card by metis
  then show ?thesis using D(1,2,8) by (auto simp: represents_def)
qed

theorem PcQueue_order_witness:
  "gotten (calls pq_final) = [7, 8] \<and> stored (calls pq_final) = [7, 8] \<and> pq_count (shared pq_final) \<le> 1"
proof -
  have "gotten (calls pq_final) = [7, 8]" "stored (calls pq_final) = [7, 8]"
    "list_all (\<lambda>x. case x of (ForcePut e, r) \<Rightarrow> False | _ \<Rightarrow> True) (calls pq_final)" by code_simp+
  moreover from this(3) have "\<forall>e. (ForcePut e, Stored) \<notin> set (calls pq_final)"
    by (force simp: list_all_iff)
  ultimately show ?thesis
    using PcQueue_order [OF pq_scheduled [of 1 4 pq_example]] by (simp add: kUnbounded_def)
qed

text \<open>
  Property C19.  No wake-up is lost.  In every run, also if waits report an expired deadline although they
  were signalled: if the queue is not empty and a thread waits inside \<open>Get\<close> or \<open>GetWithTimeout\<close>, then one
  such thread has been woken and takes the oldest element when it goes on; and if a queue of limited
  capacity has room and a thread waits in \<open>Put\<close>, then at least as many threads have been woken in \<open>Put\<close> as
  there are free places, and each of them puts its element when it goes on.
\<close>

theorem PcQueue_wakeups:
  assumes "pq_runs cap S"
  shows "(pq_queue (shared S) \<noteq> [] \<and> in_get (states S t) \<longrightarrow>
      (\<exists>u p e. states S u = Awake p e \<and> (\<forall>late. \<exists>s' ss.
        pq_on_wake u p e late (shared S) = Inr (s', ss, Leave (Got (hd (pq_queue (shared S)))))))) \<and>
    (cap \<noteq> kUnbounded \<and> pq_count (shared S) < cap \<and> states S t = Asleep Nonfull p \<longrightarrow>
      cap - pq_count (shared S) \<le> int (card (woken_putters (states S))) \<and>
      (\<forall>u \<in> woken_putters (states S). \<exists>q e. states S u = Awake q e \<and> (\<forall>late. \<exists>s' ss.
        pq_on_wake u q e late (shared S) = Inr (s', ss, Leave Stored))))"
proof -
  obtain ws where ok: "pq_ok cap S ws" using pq_runs_ok [OF assms] by blast
  note D = pq_okD [OF ok] and C = represents_count [OF pq_okD(1) [OF ok]]
  have run: "implements cap (pq_on_wake u p e late (shared S)) (spec_wake cap u p e (pq_queue (shared S)) ws)"
    if "states S u = Awake p e" for u p e late
    using that D(3,4) [of u] by (intro wake_implements D(1)) auto
  have get: "\<exists>u p e. states S u = Awake p e \<and> (\<forall>late. \<exists>s' ss.
        pq_on_wake u p e late (shared S) = Inr (s', ss, Leave (Got (hd (pq_queue (shared S))))))"
    if ne: "pq_queue (shared S) \<noteq> []" and t: "in_get (states S t)"
  proof -
    have ws: "ws \<noteq> []" using t D(4) [of t] by auto
    then obtain p e where u: "states S (hd ws) = Awake p e" using D(6) ne by blast
    then have "getter p" using D(4) [of "hd ws"] ws by simp
    then have "\<exists>s' ss. pq_on_wake (hd ws) p e late (shared S) = Inr (s', ss, Leave (Got (hd (pq_queue (shared S)))))"
      for late
      using run [OF u, of late] ne by (cases p) (auto simp: implements_def spec_take_def)
    with u show ?thesis by blast
  qed
  have put: "\<exists>q e. states S u = Awake q e \<and> (\<forall>late. \<exists>s' ss.
        pq_on_wake u q e late (shared S) = Inr (s', ss, Leave Stored))"
    if room: "pq_count (shared S) < cap" and w: "u \<in> woken_putters (states S)" for u
  proof -
    obtain q e where u: "states S u = Awake q e" "putter q" using w by (auto simp: woken_putters_def)
    then have "\<exists>s' ss. pq_on_wake u q e late (shared S) = Inr (s', ss, Leave Stored)" for late
      using run [OF u(1), of late] room C
      by (cases q) (auto simp: implements_def spec_put_loop_def spec_put_def)
    with u(1) show ?thesis by blast
  qed
  show ?thesis using get put D(7) C by (auto simp: putter_waits_def)
qed

definition pq_wake_example :: "nat pq_call action list" where
  "pq_wake_example = [MakeCall 0 (Put 7), MakeCall 1 (Put 8), MakeCall 2 (Put 9), MakeCall 0 Get]"

abbreviation pq_woken :: "nat pq_system" where
  "pq_woken \<equiv> scheduled 3 pq_code True (projr (new_PcQueue 1)) pq_wake_example"

theorem PcQueue_wakeups_witness:
  "states pq_woken 2 = Asleep Nonfull (Put 9) \<and> 1 \<le> int (card (woken_putters (states pq_woken)))"
proof -
  have "states pq_woken 2 = Asleep Nonfull (Put 9)" "pq_count (shared pq_woken) = 0" by code_simp+
  then show ?thesis
    using PcQueue_wakeups [OF pq_scheduled [of 1 3 pq_wake_example], of 2 "Put 9"] by (simp add: kUnbounded_def)
qed

end
