(* ===== verification/Bits.thy ===== *)
theory Bits
  imports Std_Bits Endian
begin

text \<open>
  Bit utilities, \<^verbatim>\<open>src/gloop/util/bits/bits.h\<close>.

  Integers of type \<open>T\<close> are words of their width; signed integers, floats and pointers are cast bit by bit to
  them.  Operands narrower than \<open>int\<close> are promoted to it: where this matters the type of the arithmetic is
  an argument \<open>'p itself\<close>, 32 bits for the types of 8 and 16 bits and the type itself for the others, and
  so is the signedness of the type.
  Compiler built-ins are given by their documentation, and every variant that conditional compilation can
  choose is modelled.
\<close>

section \<open>Counting\<close>

definition CountOnes128 :: "u128 \<Rightarrow> nat" where
  "CountOnes128 n = popcount (Uint128High64 n) + popcount (Uint128Low64 n)"

definition CountLeadingZeros128 :: "u128 \<Rightarrow> nat" where
  "CountLeadingZeros128 n =
    (let hi = Uint128High64 n in
     if hi \<noteq> 0 then countl_zero hi else countl_zero (Uint128Low64 n) + 64)"

text \<open>
  The loops over byte sequences; \<open>num_bytes\<close> may be negative, then nothing is counted.  The counter is a
  mathematical integer: it fits an \<open>int\<close> for less than \<open>2 ^ 28\<close> bytes.
\<close>

fun Count_loop :: "mem \<Rightarrow> addr \<Rightarrow> nat \<Rightarrow> int \<Rightarrow> int" where
  "Count_loop m s 0 nbits = nbits"
| "Count_loop m s (Suc k) nbits = Count_loop m (s + 1) k (nbits + int (popcount (m s)))"

definition Bits_Count :: "mem \<Rightarrow> addr \<Rightarrow> int \<Rightarrow> int" where
  "Bits_Count m s num_bytes = Count_loop m s (nat num_bytes) 0"

fun Difference64_loop :: "bytesex \<Rightarrow> mem \<Rightarrow> addr \<Rightarrow> addr \<Rightarrow> nat \<Rightarrow> int \<Rightarrow> int" where
  "Difference64_loop h m s1 s2 0 nbits = nbits"
| "Difference64_loop h m s1 s2 (Suc k) nbits =
    Difference64_loop h m (s1 + 8) (s2 + 8) k
      (nbits + int (popcount ((UnalignedLoad h m s1 :: u64) XOR UnalignedLoad h m s2)))"

fun Difference8_loop :: "mem \<Rightarrow> addr \<Rightarrow> addr \<Rightarrow> nat \<Rightarrow> int \<Rightarrow> int" where
  "Difference8_loop m s1 s2 0 nbits = nbits"
| "Difference8_loop m s1 s2 (Suc k) nbits =
    Difference8_loop m (s1 + 1) (s2 + 1) k (nbits + int (popcount (m s1 XOR m s2)))"

definition Bits_Difference :: "bytesex \<Rightarrow> mem \<Rightarrow> addr \<Rightarrow> addr \<Rightarrow> int \<Rightarrow> int" where
  "Bits_Difference h m m1 m2 num_bytes =
    (if num_bytes mod 8 = 0 then Difference64_loop h m m1 m2 (nat (num_bytes div 8)) 0
     else Difference8_loop m m1 m2 (nat num_bytes) 0)"

fun CappedDifference_loop :: "mem \<Rightarrow> addr \<Rightarrow> addr \<Rightarrow> nat \<Rightarrow> int \<Rightarrow> int \<Rightarrow> int" where
  "CappedDifference_loop m s1 s2 0 cap nbits = nbits"
| "CappedDifference_loop m s1 s2 (Suc k) cap nbits =
    (if nbits \<le> cap
     then CappedDifference_loop m (s1 + 1) (s2 + 1) k cap (nbits + int (popcount (m s1 XOR m s2)))
     else nbits)"

definition CappedDifference :: "mem \<Rightarrow> addr \<Rightarrow> addr \<Rightarrow> int \<Rightarrow> int \<Rightarrow> int" where
  "CappedDifference m m1 m2 num_bytes cap = CappedDifference_loop m m1 m2 (nat num_bytes) cap 0"

section \<open>Logarithms and powers of two\<close>

definition Log2Floor :: "u32 \<Rightarrow> int" where
  "Log2Floor n = int (bit_width n) - 1"

definition Log2Floor64 :: "u64 \<Rightarrow> int" where
  "Log2Floor64 n = int (bit_width n) - 1"

text \<open>The behaviour of the \<open>NonZero\<close> functions is only defined for arguments other than zero.\<close>

definition Log2FloorNonZero :: "u32 \<Rightarrow> int" where
  "Log2FloorNonZero n = int (bit_width n) - 1"

definition Log2FloorNonZero64 :: "u64 \<Rightarrow> int" where
  "Log2FloorNonZero64 n = int (bit_width n) - 1"

definition Log2Floor128 :: "u128 \<Rightarrow> int" where
  "Log2Floor128 n =
    (let hi = Uint128High64 n in
     if hi \<noteq> 0 then 64 + Log2FloorNonZero64 hi else int (bit_width (Uint128Low64 n)) - 1)"

definition Log2FloorNonZero128 :: "u128 \<Rightarrow> int" where
  "Log2FloorNonZero128 n =
    (let hi = Uint128High64 n in
     if hi \<noteq> 0 then 64 + Log2FloorNonZero64 hi else Log2FloorNonZero64 (Uint128Low64 n))"

definition Log2Ceiling :: "u32 \<Rightarrow> int" where
  "Log2Ceiling n =
    (let floor = int (bit_width n) - 1 in if n AND (n - 1) = 0 then floor else floor + 1)"

definition Log2Ceiling64 :: "u64 \<Rightarrow> int" where
  "Log2Ceiling64 n =
    (let floor = int (bit_width n) - 1 in if n AND (n - 1) = 0 then floor else floor + 1)"

definition Log2Ceiling128 :: "u128 \<Rightarrow> int" where
  "Log2Ceiling128 n =
    (let floor = Log2Floor128 n in if n AND (n - 1) = 0 then floor else floor + 1)"

text \<open>Signed integers; on unsigned ones \<open>IsPowerOfTwo\<close> is \<open>std::has_single_bit\<close>.\<close>

definition IsPowerOfTwo :: "int \<Rightarrow> bool" where
  "IsPowerOfTwo n \<longleftrightarrow> n > 0 \<and> n AND (n - 1) = 0"

definition IsPowerOfTwo_unsigned :: "'w::len word \<Rightarrow> bool" where
  "IsPowerOfTwo_unsigned n \<longleftrightarrow> popcount n = 1"

definition FindLSBSetNonZero :: "u32 \<Rightarrow> nat" where "FindLSBSetNonZero n = countr_zero n"

definition FindLSBSetNonZero64 :: "u64 \<Rightarrow> nat" where "FindLSBSetNonZero64 n = countr_zero n"

definition FindLSBSetNonZero128 :: "u128 \<Rightarrow> nat" where
  "FindLSBSetNonZero128 n =
    (let lo = Uint128Low64 n in
     if lo \<noteq> 0 then FindLSBSetNonZero64 lo else 64 + FindLSBSetNonZero64 (Uint128High64 n))"

definition FindMSBSetNonZero :: "u32 \<Rightarrow> int" where "FindMSBSetNonZero n = Log2FloorNonZero n"

definition FindMSBSetNonZero64 :: "u64 \<Rightarrow> int" where "FindMSBSetNonZero64 n = Log2FloorNonZero64 n"

definition FindMSBSetNonZero128 :: "u128 \<Rightarrow> int" where "FindMSBSetNonZero128 n = Log2FloorNonZero128 n"

section \<open>Reversing bits\<close>

text \<open>
  The compilers' \<open>__builtin_bitreverse\<close>, the instruction \<open>rbit\<close> of AArch64, and \<open>bpermd\<close> of POWER:
  bit \<open>i\<close> of its result is the bit of the source that byte \<open>i\<close> of the selector names, counted from the
  most significant bit.
\<close>

datatype reverse_variant = Builtin | AArch64 | PowerPC64 | Portable_LP64 | Portable

definition bitreverse :: "'w::len word \<Rightarrow> 'w word" where
  "bitreverse n = horner_sum of_bool 2 (map (bit n) (rev [0..<LENGTH('w)]))"

definition bpermd :: "u64 \<Rightarrow> u64 \<Rightarrow> u64" where
  "bpermd selector source =
    horner_sum of_bool 2 (map (\<lambda>i.
      let index = unat (take_bit 8 (drop_bit (8 * i) selector))
      in index < 64 \<and> bit source (63 - index)) [0..<8])"

text \<open>One step of the portable versions.\<close>

definition swap_groups :: "nat \<Rightarrow> 'w::len word \<Rightarrow> 'w word \<Rightarrow> 'w word" where
  "swap_groups k pattern n = (drop_bit k n AND pattern) OR push_bit k (n AND pattern)"

definition ReverseBits8 :: "reverse_variant \<Rightarrow> u8 \<Rightarrow> u8" where
  "ReverseBits8 variant n =
    (case variant of
       Builtin \<Rightarrow> bitreverse n
     | AArch64 \<Rightarrow> ucast (bitreverse (push_bit (32 - 8) (ucast n) :: u32))
     | PowerPC64 \<Rightarrow> ucast (bpermd 0x3f3e3d3c3b3a3938 (ucast n))
     | _ \<Rightarrow>
        let n = swap_groups 1 0x55 n;
            n = swap_groups 2 0x33 n
        in swap_groups 4 0x0f n)"

definition ReverseBits16 :: "reverse_variant \<Rightarrow> u16 \<Rightarrow> u16" where
  "ReverseBits16 variant n =
    (case variant of
       Builtin \<Rightarrow> bitreverse n
     | AArch64 \<Rightarrow> ucast (bitreverse (push_bit (32 - 16) (ucast n) :: u32))
     | PowerPC64 \<Rightarrow>
        let temp = ucast n;
            result_0 = push_bit 8 (bpermd 0x3f3e3d3c3b3a3938 temp);
            result_1 = bpermd 0x3736353433323130 temp
        in ucast (result_0 OR result_1)
     | _ \<Rightarrow>
        let n = swap_groups 1 0x5555 n;
            n = swap_groups 2 0x3333 n;
            n = swap_groups 4 0x0f0f n
        in byteswap n)"

definition ReverseBits32 :: "reverse_variant \<Rightarrow> u32 \<Rightarrow> u32" where
  "ReverseBits32 variant n =
    (case variant of
       Builtin \<Rightarrow> bitreverse n
     | AArch64 \<Rightarrow> bitreverse n
     | PowerPC64 \<Rightarrow>
        let temp = ucast n;
            result_0 = push_bit 24 (bpermd 0x3f3e3d3c3b3a3938 temp);
            result_1 = push_bit 16 (bpermd 0x3736353433323130 temp);
            result_2 = push_bit 8 (bpermd 0x2f2e2d2c2b2a2928 temp);
            result_3 = bpermd 0x2726252423222120 temp
        in ucast (result_0 OR result_1 OR result_2 OR result_3)
     | _ \<Rightarrow>
        let n = swap_groups 1 0x55555555 n;
            n = swap_groups 2 0x33333333 n;
            n = swap_groups 4 0x0F0F0F0F n
        in byteswap n)"

definition ReverseBits64 :: "reverse_variant \<Rightarrow> u64 \<Rightarrow> u64" where
  "ReverseBits64 variant n =
    (case variant of
       Builtin \<Rightarrow> bitreverse n
     | AArch64 \<Rightarrow> bitreverse n
     | PowerPC64 \<Rightarrow>
        let result_lo0 = push_bit 56 (bpermd 0x3f3e3d3c3b3a3938 n);
            result_lo1 = push_bit 48 (bpermd 0x3736353433323130 n);
            result_lo2 = push_bit 40 (bpermd 0x2f2e2d2c2b2a2928 n);
            result_lo3 = push_bit 32 (bpermd 0x2726252423222120 n);
            result_hi0 = push_bit 24 (bpermd 0x1f1e1d1c1b1a1918 n);
            result_hi1 = push_bit 16 (bpermd 0x1716151413121110 n);
            result_hi2 = push_bit 8 (bpermd 0x0f0e0d0c0b0a0908 n);
            result_hi3 = bpermd 0x0706050403020100 n
        in result_lo0 OR result_lo1 OR result_lo2 OR result_lo3 OR
           result_hi0 OR result_hi1 OR result_hi2 OR result_hi3
     | Portable_LP64 \<Rightarrow>
        let n = swap_groups 1 0x5555555555555555 n;
            n = swap_groups 2 0x3333333333333333 n;
            n = swap_groups 4 0x0F0F0F0F0F0F0F0F n
        in byteswap n
     | Portable \<Rightarrow>
        ucast (ReverseBits32 variant (ucast (drop_bit 32 n))) OR
        push_bit 32 (ucast (ReverseBits32 variant (ucast (n AND 0xffffffff)))))"

definition ReverseBits128 :: "reverse_variant \<Rightarrow> u128 \<Rightarrow> u128" where
  "ReverseBits128 variant n =
    MakeUint128 (ReverseBits64 variant (Uint128Low64 n)) (ReverseBits64 variant (Uint128High64 n))"

section \<open>Scanning the bytes of a word\<close>

definition half_ones :: "'w::len word" where
  "half_ones = push_bit (LENGTH('w) div 8 * 4) 1 - 1"

definition BitPattern_l :: "'w::len word" where
  "BitPattern_l = (if LENGTH('w) = 8 then 1 else half_ones div 0xff * (half_ones + 2))"

definition BitPattern_h :: "'w::len word" where
  "BitPattern_h = NOT (BitPattern_l * 0x7f)"

text \<open>
  The conversion to the type of the arithmetic: a signed type (\<open>sg\<close>) keeps its value, so its sign bit is copied
  into the new bits.  The patterns are of the unsigned type.
\<close>

definition promote :: "bool \<Rightarrow> 'w::len word \<Rightarrow> 'p::len word" where
  "promote sg w = (if sg then scast w else ucast w)"

definition BytesContainByteLessThan :: "'p::len itself \<Rightarrow> bool \<Rightarrow> 'w::len word \<Rightarrow> u8 \<Rightarrow> bool" where
  "BytesContainByteLessThan _ sg bytes c =
    (let l = ucast (BitPattern_l :: 'w word) :: 'p word;
         h = ucast (BitPattern_h :: 'w word);
         bytes = promote sg bytes
     in if c \<le> 0x80 then (h AND (bytes - l * ucast c) AND NOT bytes) \<noteq> 0
        else (((bytes - l * ucast c) OR (bytes XOR h)) AND h) \<noteq> 0)"

definition BytesContainByte :: "'p::len itself \<Rightarrow> bool \<Rightarrow> 'w::len word \<Rightarrow> u8 \<Rightarrow> bool" where
  "BytesContainByte p sg bytes c =
    BytesContainByteLessThan p sg
      (ucast (promote sg bytes XOR (ucast c * ucast (BitPattern_l :: 'w word)) :: 'p word) :: 'w word) 1"

text \<open>The last call names no type: it is instantiated for the type of its promoted argument.\<close>

definition BytesAllInRange :: "'p::len itself \<Rightarrow> bool \<Rightarrow> 'w::len word \<Rightarrow> u8 \<Rightarrow> u8 \<Rightarrow> bool" where
  "BytesAllInRange p sg bytes lo hi =
    (let l = ucast (BitPattern_l :: 'w word) :: 'p word;
         h = ucast (BitPattern_h :: 'w word);
         bytes = promote sg bytes
     in if lo > hi then False
        else if uint hi - uint lo < 128
        then let x = bytes - l * ucast lo;
                 y = bytes + l * of_int (127 - uint hi)
             in (x OR y) AND h = 0
        else \<not> BytesContainByteLessThan p sg (bytes + of_int (255 - uint hi) * l)
                 (of_int (uint lo + (255 - uint hi))))"

section \<open>Fields of bits\<close>

text \<open>
  With \<open>bmi\<close> and \<open>bmi2\<close> the overloads for 32 and 64 bits use the instructions \<open>bextr\<close> and \<open>bzhi\<close>, which take
  the low eight bits of the positions.
\<close>

definition bextr :: "'w::len word \<Rightarrow> nat \<Rightarrow> nat \<Rightarrow> 'w word" where
  "bextr src start len = take_bit (len mod 256) (drop_bit (start mod 256) src)"

definition bzhi :: "'w::len word \<Rightarrow> nat \<Rightarrow> 'w word" where
  "bzhi src index = take_bit (index mod 256) src"

definition NBitsFromLSB :: "nat \<Rightarrow> 'w::len word" where
  "NBitsFromLSB nbits = (if nbits = 0 then 0 else drop_bit (LENGTH('w) - nbits) (NOT 0))"

definition GetBitsImpl :: "bool \<Rightarrow> 'w::len word \<Rightarrow> nat \<Rightarrow> nat \<Rightarrow> 'w word" where
  "GetBitsImpl bmi src offset nbits =
    (if bmi \<and> LENGTH('w) \<in> {32, 64} then bextr src offset nbits
     else drop_bit offset src AND NBitsFromLSB nbits)"

definition GetLowBitsImpl :: "bool \<Rightarrow> bool \<Rightarrow> 'w::len word \<Rightarrow> nat \<Rightarrow> 'w word" where
  "GetLowBitsImpl bmi bmi2 src nbits =
    (if bmi2 \<and> LENGTH('w) \<in> {32, 64} then bzhi src nbits else GetBitsImpl bmi src 0 nbits)"

definition Bits_GetBits :: "bool \<Rightarrow> 'w::len word \<Rightarrow> nat \<Rightarrow> nat \<Rightarrow> 'w word" where
  "Bits_GetBits bmi src offset nbits = GetBitsImpl bmi src offset nbits"

definition SetBits :: "'w::len word \<Rightarrow> nat \<Rightarrow> nat \<Rightarrow> 'w word \<Rightarrow> 'w word" where
  "SetBits value offset nbits dest =
    (let ones = NBitsFromLSB nbits
     in (dest AND NOT (push_bit offset ones)) OR push_bit offset (value AND ones))"

definition CopyBits :: "bool \<Rightarrow> 'd::len word \<Rightarrow> nat \<Rightarrow> 's::len word \<Rightarrow> nat \<Rightarrow> nat \<Rightarrow> 'd word" where
  "CopyBits bmi dest dest_offset src src_offset nbits =
    SetBits (ucast (Bits_GetBits bmi src src_offset nbits)) dest_offset nbits dest"

definition GetLowBits :: "bool \<Rightarrow> bool \<Rightarrow> 'w::len word \<Rightarrow> nat \<Rightarrow> 'w word" where
  "GetLowBits bmi bmi2 src nbits = GetLowBitsImpl bmi bmi2 src nbits"

end
