(* ===== verification/TwoValuesVarint.thy ===== *)
theory TwoValuesVarint
  imports Varint Bits
begin

text \<open>
  Pairs of values in one varint, \<^verbatim>\<open>src/gloop/util/coding/two-values-varint.h\<close> and
  \<^verbatim>\<open>two-values-varint.cc\<close>: the nibbles of the two values alternate, and the result is written as a
  varint, of up to 128 bits for two 64-bit values.

  The decoders follow the conventions of the varint parsers: \<open>None\<close> is \<open>nullptr\<close>, otherwise the address
  past the code and the values stored through \<open>a\<close> and \<open>b\<close>.
\<close>

section \<open>Encoding\<close>

definition kMax128 :: nat where "kMax128 = 19"

function InterleaveNibbles_loop :: "u32 \<Rightarrow> u32 \<Rightarrow> u64 \<Rightarrow> nat \<Rightarrow> u64" where
  "InterleaveNibbles_loop a b v shift =
    (if a > 0 \<or> b > 0
     then let one_byte = ucast ((a AND 0xf) OR push_bit 4 (b AND 0xf)) :: u8
          in InterleaveNibbles_loop (drop_bit 4 a) (drop_bit 4 b)
               (v OR push_bit shift (ucast one_byte)) (shift + 8)
     else v)"
  by pat_completeness auto

lemma drop_bit_4_smaller: "unat (drop_bit 4 (a :: u32)) = unat a div 16"
  using unat_drop_bit_div [of 4 a] by simp

termination InterleaveNibbles_loop
  by (relation "measure (\<lambda>(a, b, v, shift). unat a + unat b)")
    (auto simp: drop_bit_4_smaller word_less_nat_alt intro: add_less_le_mono add_le_less_mono)

definition InterleaveNibbles :: "u32 \<Rightarrow> u32 \<Rightarrow> u64" where
  "InterleaveNibbles a b = InterleaveNibbles_loop a b 0 0"

definition Length128 :: "platform \<Rightarrow> u64 \<Rightarrow> u64 \<Rightarrow> nat" where
  "Length128 plat hi lo =
    (if hi = 0 then Length64 plat lo
     else nat ((73 * Log2FloorNonZero128 (MakeUint128 hi lo) + 530) div 512))"

text \<open>
  \<open>STLStringResizeUninitialized\<close> may leave anything in the new characters (\<open>junk\<close>) and makes the capacity
  what the string class likes (\<open>grow\<close>, of the old capacity and the new size).
\<close>

definition resize_uninitialized ::
    "(nat \<Rightarrow> nat \<Rightarrow> nat) \<Rightarrow> (nat \<Rightarrow> u8) \<Rightarrow> cpp_string \<Rightarrow> nat \<Rightarrow> cpp_string" where
  "resize_uninitialized grow junk s new_size =
    \<lparr>chars = take new_size (chars s) @ map junk [length (chars s)..<new_size],
     capacity = grow (capacity s) new_size\<rparr>"

definition Encode128 :: "platform \<Rightarrow> (nat \<Rightarrow> nat \<Rightarrow> nat) \<Rightarrow> (nat \<Rightarrow> u8) \<Rightarrow>
    cpp_string \<Rightarrow> u64 \<Rightarrow> u64 \<Rightarrow> cpp_string" where
  "Encode128 plat grow junk s hi lo =
    (let start = length (chars s);
         s = resize_uninitialized grow junk s (start + Length128 plat hi lo);
         ptr = start;
         m = (string_buffer (chars s))
           (ptr := ucast (lo OR 128),
            ptr + 1 := ucast (drop_bit 7 lo OR 128),
            ptr + 2 := ucast (drop_bit 14 lo OR 128),
            ptr + 3 := ucast (drop_bit 21 lo OR 128),
            ptr + 4 := ucast (drop_bit 28 lo OR 128),
            ptr + 5 := ucast (drop_bit 35 lo OR 128),
            ptr + 6 := ucast (drop_bit 42 lo OR 128),
            ptr + 7 := ucast (drop_bit 49 lo OR 128),
            ptr + 8 := ucast (drop_bit 56 lo OR 128));
         m = (if hi < push_bit 6 1
              then m(ptr + 9 := ucast (drop_bit 63 lo OR push_bit 1 hi))
              else fst (Encode64 (m(ptr + 9 := ucast ((drop_bit 63 lo OR push_bit 1 hi) OR 128)))
                          (ptr + 10) (drop_bit 6 hi)))
     in s\<lparr>chars := load_bytes m 0 (length (chars s))\<rparr>)"

definition TwoValues_Encode32 :: "platform \<Rightarrow> cpp_string \<Rightarrow> u32 \<Rightarrow> u32 \<Rightarrow> cpp_string" where
  "TwoValues_Encode32 plat s a b = Append64 plat s (InterleaveNibbles a b)"

definition TwoValues_Encode64 :: "platform \<Rightarrow> (nat \<Rightarrow> nat \<Rightarrow> nat) \<Rightarrow> (nat \<Rightarrow> u8) \<Rightarrow>
    cpp_string \<Rightarrow> u64 \<Rightarrow> u64 \<Rightarrow> cpp_string" where
  "TwoValues_Encode64 plat grow junk s a b =
    (let lo = InterleaveNibbles (ucast a) (ucast b) in
     if drop_bit 32 (a OR b) = 0 then Append64 plat s lo
     else let hi = InterleaveNibbles (ucast (drop_bit 32 a)) (ucast (drop_bit 32 b))
          in Encode128 plat grow junk s hi lo)"

section \<open>Decoding\<close>

definition GetBits :: "u32 \<Rightarrow> nat \<Rightarrow> nat \<Rightarrow> u64" where
  "GetBits byte offset bits = ucast (drop_bit offset byte AND (push_bit bits 1 - 1))"

text \<open>
  The variables of the decoders: the position, and each result with its shift.  One use of
  \<open>PARSE_BITS_DECODE_TWO\<close> returns null, jumps to \<open>done\<close> or goes on.
\<close>

record 'v decode_state =
  uptr :: addr
  res1 :: 'v
  shift1 :: nat
  res2 :: 'v
  shift2 :: nat

datatype 'v decode_step = NullPointer | Done "'v decode_state" | Proceed "'v decode_state"

definition PARSE_BITS_DECODE_TWO :: "bool \<Rightarrow> mem \<Rightarrow> addr \<Rightarrow> nat \<Rightarrow> 'w::len word decode_state \<Rightarrow> 'w word decode_step" where
  "PARSE_BITS_DECODE_TWO RespectLimit m ulimit shift d =
    (if RespectLimit \<and> uptr d \<ge> ulimit then NullPointer
     else let byte = byte32 m (uptr d);
              b = res2 d OR ucast (push_bit (shift2 d) (GetBits byte 0 shift));
              a = res1 d OR ucast (push_bit (shift1 d) (GetBits byte shift 4));
              b = b OR ucast (push_bit (shift2 d + shift) (GetBits byte (shift + 4) (3 - shift)));
              d = d\<lparr>uptr := uptr d + 1, res1 := a, res2 := b\<rparr>
          in if byte < 128 then Done d
             else Proceed (d\<lparr>shift1 := shift1 d + 4, shift2 := shift2 d + 3\<rparr>))"

text \<open>The same with the variables exchanged.\<close>

definition exchange :: "'w::len word decode_state \<Rightarrow> 'w word decode_state" where
  "exchange d = \<lparr>uptr = uptr d, res1 = res2 d, shift1 = shift2 d, res2 = res1 d, shift2 = shift1 d\<rparr>"

definition map_step :: "('w::len word decode_state \<Rightarrow> 'w word decode_state) \<Rightarrow> 'w word decode_step \<Rightarrow> 'w word decode_step" where
  "map_step f x = (case x of NullPointer \<Rightarrow> NullPointer | Done d \<Rightarrow> Done (f d) | Proceed d \<Rightarrow> Proceed (f d))"

datatype macro = Plain nat | Switched nat

primrec parse_macro :: "bool \<Rightarrow> mem \<Rightarrow> addr \<Rightarrow> macro \<Rightarrow> 'w::len word decode_state \<Rightarrow> 'w word decode_step" where
  "parse_macro RespectLimit m ulimit (Plain shift) d = PARSE_BITS_DECODE_TWO RespectLimit m ulimit shift d"
| "parse_macro RespectLimit m ulimit (Switched shift) d =
    map_step exchange (PARSE_BITS_DECODE_TWO RespectLimit m ulimit shift (exchange d))"

primrec parse_macros :: "bool \<Rightarrow> mem \<Rightarrow> addr \<Rightarrow> macro list \<Rightarrow> 'w::len word decode_state \<Rightarrow> 'w word decode_step" where
  "parse_macros RespectLimit m ulimit [] d = Proceed d"
| "parse_macros RespectLimit m ulimit (x # xs) d =
    (case parse_macro RespectLimit m ulimit x d of
       Proceed d \<Rightarrow> parse_macros RespectLimit m ulimit xs d
     | y \<Rightarrow> y)"

definition decode_start :: "addr \<Rightarrow> 'w::len word decode_state" where
  "decode_start p = \<lparr>uptr = p, res1 = 0, shift1 = 0, res2 = 0, shift2 = 0\<rparr>"

definition Decode32Internal :: "bool \<Rightarrow> mem \<Rightarrow> addr \<Rightarrow> addr \<Rightarrow> (addr \<times> u32 \<times> u32) option" where
  "Decode32Internal RespectLimit m ptr limit =
    (case parse_macros RespectLimit m limit
        [Plain 0, Plain 1, Plain 2, Plain 3,
         Switched 0, Switched 1, Switched 2, Switched 3,
         Plain 0] (decode_start ptr) of
       NullPointer \<Rightarrow> None
     | Done d \<Rightarrow> Some (uptr d, res1 d, res2 d)
     | Proceed d \<Rightarrow>
        if RespectLimit \<and> uptr d \<ge> limit then None
        else let byte = byte32 m (uptr d) in
          if byte > 1 then None
          else Some (uptr d + 1, res1 d, res2 d OR push_bit 31 byte))"

definition Decode64Internal :: "bool \<Rightarrow> mem \<Rightarrow> addr \<Rightarrow> addr \<Rightarrow> (addr \<times> u64 \<times> u64) option" where
  "Decode64Internal RespectLimit m ptr limit =
    (case parse_macros RespectLimit m limit
        [Plain 0, Plain 1, Plain 2, Plain 3,
         Switched 0, Switched 1, Switched 2, Switched 3,
         Plain 0, Plain 1, Plain 2, Plain 3,
         Switched 0, Switched 1, Switched 2, Switched 3,
         Plain 0, Plain 1] (decode_start ptr) of
       NullPointer \<Rightarrow> None
     | Done d \<Rightarrow> Some (uptr d, res1 d, res2 d)
     | Proceed d \<Rightarrow>
        if RespectLimit \<and> uptr d \<ge> limit then None
        else let byte = byte64 m (uptr d) in
          if byte > 3 then None
          else Some (uptr d + 1, res1 d, res2 d OR push_bit 62 byte))"

definition Decode32Slow :: "mem \<Rightarrow> addr \<Rightarrow> (addr \<times> u32 \<times> u32) option" where
  "Decode32Slow m p = Decode32Internal False m p 0"

definition Decode64Slow :: "mem \<Rightarrow> addr \<Rightarrow> (addr \<times> u64 \<times> u64) option" where
  "Decode64Slow m p = Decode64Internal False m p 0"

definition Decode32 :: "mem \<Rightarrow> addr \<Rightarrow> (addr \<times> u32 \<times> u32) option" where
  "Decode32 m p =
    (if m p < 128 then Some (p + 1, ucast (m p AND 0xf), ucast (drop_bit 4 (m p))) else Decode32Slow m p)"

definition Decode64 :: "mem \<Rightarrow> addr \<Rightarrow> (addr \<times> u64 \<times> u64) option" where
  "Decode64 m p =
    (if m p < 128 then Some (p + 1, ucast (m p AND 0xf), ucast (drop_bit 4 (m p))) else Decode64Slow m p)"

definition Decode32WithLimit :: "mem \<Rightarrow> addr \<Rightarrow> addr \<Rightarrow> (addr \<times> u32 \<times> u32) option" where
  "Decode32WithLimit m p limit =
    (if p + kMax64 \<le> limit then Decode32 m p else Decode32Internal True m p limit)"

definition Decode64WithLimit :: "mem \<Rightarrow> addr \<Rightarrow> addr \<Rightarrow> (addr \<times> u64 \<times> u64) option" where
  "Decode64WithLimit m p limit =
    (if p + kMax128 \<le> limit then Decode64 m p else Decode64Internal True m p limit)"

end
