(* ===== verification/Bits_Scan.thy ===== *)
theory Bits_Scan
  imports Bits Endian_Proofs
begin

text \<open>
  The scans over the bytes of a word.  The arithmetic on all bytes at once is exact up to the lowest byte
  that is carried out of or borrowed from, which is the byte the scans look for.
\<close>

section \<open>Adding to every byte\<close>

definition byte_at :: "int \<Rightarrow> nat \<Rightarrow> int" where
  "byte_at V k = V div 256 ^ k mod 256"

fun repunit :: "nat \<Rightarrow> int" where
  "repunit 0 = 0"
| "repunit (Suc n) = 1 + 256 * repunit n"

lemma byte_at_range: "0 \<le> byte_at V k" "byte_at V k < 256"
  by (simp_all add: byte_at_def)

lemma byte_at_0: "byte_at V 0 = V mod 256"
  by (simp add: byte_at_def)

lemma byte_at_Suc: "byte_at V (Suc k) = byte_at (V div 256) k"
  by (simp add: byte_at_def div_mult2_eq zdiv_zmult2_eq)

lemma byte_at_mod:
  assumes "k < n"
  shows "byte_at (V mod 256 ^ n) k = byte_at V k"
proof -
  have "(256 :: int) ^ n = 256 ^ k * (256 * 256 ^ (n - Suc k))"
    using assms by (simp flip: power_add power_Suc)
  then have "V mod 256 ^ n div 256 ^ k = V div 256 ^ k mod (256 * 256 ^ (n - Suc k))"
    by (simp add: zmod_zmult2_eq zdiv_zmult2_eq)
  then show ?thesis by (simp add: byte_at_def mod_mult2_eq mod_mod_cancel)
qed

lemma byte_at_add:
  assumes "\<And>j. j < k \<Longrightarrow> 0 \<le> byte_at V j + e \<and> byte_at V j + e < 256" and "k < n"
  shows "byte_at (V + e * repunit n) k = (byte_at V k + e) mod 256"
  using assms
proof (induction k arbitrary: V n)
  case 0
  then obtain r where "n = Suc r" by (cases n) auto
  then have "V + e * repunit n = V + e + 256 * (e * repunit r)" by (simp add: algebra_simps)
  then show ?case unfolding byte_at_0 by (simp only: mod_mult_self2 mod_add_left_eq)
next
  case (Suc k)
  then obtain r where n: "n = Suc r" "k < r" by (cases n) auto
  have "0 \<le> V mod 256 + e" "V mod 256 + e < 256" using Suc.prems(1) [of 0] by (simp_all add: byte_at_0)
  moreover have "V + e * repunit n = (V mod 256 + e) + 256 * (V div 256 + e * repunit r)"
    unfolding n repunit.simps by (simp add: algebra_simps)
  ultimately have "(V + e * repunit n) div 256 = V div 256 + e * repunit r"
    by (simp only: div_mult_self2 div_pos_pos_trivial)
  moreover have "0 \<le> byte_at (V div 256) j + e \<and> byte_at (V div 256) j + e < 256" if "j < k" for j
    using Suc.prems(1) [of "Suc j"] that by (simp add: byte_at_Suc)
  ultimately show ?case using Suc.IH [of "V div 256" r] n by (simp add: byte_at_Suc)
qed

lemma mod_256: "0 \<le> a \<Longrightarrow> a < 256 \<Longrightarrow> a mod 256 = a" "- 256 \<le> a \<Longrightarrow> a < 0 \<Longrightarrow> a mod 256 = a + 256" for a :: int
  using mod_pos_pos_trivial [of "a + 256" 256] by simp_all

lemma outside_range:
  fixes b :: int
  assumes "0 \<le> lo" "lo \<le> hi" "hi < 256" "hi - lo < 128" "0 \<le> b" "b < 256" "b < lo \<or> hi < b"
  shows "128 \<le> (b + - lo) mod 256 \<or> 128 \<le> (b + (127 - hi)) mod 256"
proof -
  consider "b < lo" "lo - b \<le> 128" | "b < lo" "128 < lo - b" | "hi < b" "b - hi \<le> 128" | "hi < b" "128 < b - hi"
    using assms(7) by linarith
  then show ?thesis
  proof cases
    case 1
    then have "(b + - lo) mod 256 = b + - lo + 256" using assms by (intro mod_256) linarith+
    with 1 show ?thesis by linarith
  next
    case 2
    then have "(b + (127 - hi)) mod 256 = b + (127 - hi) + 256" using assms by (intro mod_256) linarith+
    with assms show ?thesis by linarith
  next
    case 3
    then have "(b + (127 - hi)) mod 256 = b + (127 - hi)" using assms by (intro mod_256) linarith+
    with 3 show ?thesis by linarith
  next
    case 4
    then have "(b + - lo) mod 256 = b + - lo" using assms by (intro mod_256) linarith+
    with 4 assms show ?thesis by linarith
  qed
qed

section \<open>Words made of bytes\<close>

lemma uint_byte_range: "0 \<le> uint (c :: u8)" "uint (c :: u8) < 256"
  using uint_lt2p [of c] by simp_all

lemma uint_of_int_byte: "0 \<le> v \<Longrightarrow> v < 256 \<Longrightarrow> uint (of_int v :: u8) = v"
  by (simp add: unsigned_of_int take_bit_eq_mod)

definition byte_of :: "'w::len word \<Rightarrow> nat \<Rightarrow> int" where
  "byte_of w k = byte_at (uint w) k"

lemma byte_of_range: "0 \<le> byte_of w k" "byte_of w k < 256"
  by (simp_all add: byte_of_def byte_at_range)

lemma uint_byte: "uint (ucast (drop_bit (8 * k) w) :: u8) = byte_of w k"
proof -
  have u: "uint v = int (unat v)" for v :: "'a word" by simp
  have "uint (drop_bit (8 * k) w) = uint w div 256 ^ k"
    unfolding u unat_drop_bit_div by (simp add: zdiv_int power_mult)
  then show ?thesis by (simp add: byte_of_def byte_at_def unsigned_ucast_eq take_bit_eq_mod)
qed

lemma high_bit: "bit w (8 * k + 7) \<longleftrightarrow> 128 \<le> byte_of w k"
proof -
  let ?b = "ucast (drop_bit (8 * k) w) :: u8"
  have "bit w (8 * k + 7) \<longleftrightarrow> bit ?b 7" by (simp add: bit_simps ac_simps)
  also have "\<dots> \<longleftrightarrow> bit (uint ?b) 7" by (simp add: bit_simps)
  also have "\<dots> \<longleftrightarrow> odd (uint ?b div 2 ^ 7)" by (simp add: bit_iff_odd)
  also have "\<dots> \<longleftrightarrow> 128 \<le> uint ?b"
  proof -
    have "0 \<le> uint ?b" "uint ?b < 256" using byte_of_range [of w k] by (simp_all add: uint_byte)
    then have "uint ?b div 128 = (if 128 \<le> uint ?b then 1 else 0)" by auto
    then show ?thesis by simp
  qed
  finally show ?thesis by (simp add: uint_byte)
qed

lemma promote_id: "promote sg (w :: 'w::len word) = w"
  by (simp add: promote_def)

locale byte_words =
  fixes ty :: "'w::len itself" and n :: nat
  assumes width: "LENGTH('w) = 8 * n"
    and l: "uint (BitPattern_l :: 'w word) = repunit n"
    and h: "bit (BitPattern_h :: 'w word) i \<longleftrightarrow> i < 8 * n \<and> i mod 8 = 7"
begin

lemma h_and: "BitPattern_h AND (z :: 'w word) \<noteq> 0 \<longleftrightarrow> (\<exists>k<n. bit z (8 * k + 7))"
proof
  assume "BitPattern_h AND z \<noteq> 0"
  then obtain i where "bit (BitPattern_h AND z) i" using exists_bit by blast
  then have "i < 8 * n" "i mod 8 = 7" "bit z i" by (auto simp: bit_simps h)
  then show "\<exists>k<n. bit z (8 * k + 7)"
    by (intro exI [of _ "i div 8"]) (metis div_less_iff_less_mult div_mult_mod_eq less_mult_imp_div_less mult.commute)
next
  assume "\<exists>k<n. bit z (8 * k + 7)"
  then obtain k where "k < n" "bit z (8 * k + 7)" by blast
  then have "bit (BitPattern_h AND z) (8 * k + 7)" by (auto simp: bit_simps h)
  then show "BitPattern_h AND z \<noteq> 0" by auto
qed

lemma uint_add_bytes: "uint (w + of_int e * BitPattern_l :: 'w word) = (uint w + e * repunit n) mod 256 ^ n"
proof -
  have w: "w + of_int e * BitPattern_l = of_int (uint w + e * repunit n)" by (simp flip: l)
  show ?thesis unfolding w unsigned_of_int take_bit_eq_mod width by (simp add: power_mult)
qed

lemma byte_of_add:
  fixes w :: "'w word"
  assumes "\<And>j. j < k \<Longrightarrow> 0 \<le> byte_of w j + e \<and> byte_of w j + e < 256" and "k < n"
  shows "byte_of (w + of_int e * BitPattern_l) k = (byte_of w k + e) mod 256"
  using assms byte_at_add [of k "uint w" e n] uint_add_bytes [of w e] by (simp add: byte_of_def byte_at_mod)

text \<open>Either all bytes satisfy a condition or there is a lowest one that does not.\<close>

lemma lowest_byte:
  assumes "\<not> (\<forall>k<n. Q (byte_of w k))"
  obtains k where "k < n" and "\<not> Q (byte_of w k)" and "\<And>j. j < k \<Longrightarrow> Q (byte_of w j)"
proof -
  from assms obtain k where k: "k < n \<and> \<not> Q (byte_of w k)" by blast
  let ?k = "LEAST k. k < n \<and> \<not> Q (byte_of w k)"
  have l: "?k < n \<and> \<not> Q (byte_of w ?k)" by (rule LeastI [of "\<lambda>k. k < n \<and> \<not> Q (byte_of w k)", OF k])
  show ?thesis
  proof (rule that)
    show "?k < n" "\<not> Q (byte_of w ?k)" using l by simp_all
    fix j assume "j < ?k"
    then show "Q (byte_of w j)" using not_less_Least [of j "\<lambda>k. k < n \<and> \<not> Q (byte_of w k)"] l by auto
  qed
qed

lemma ContainByteLessThan_bytes:
  "BytesContainByteLessThan TYPE('w) sg (w :: 'w word) c \<longleftrightarrow> (\<exists>k<n. byte_of w k < uint c)"
proof -
  define x where "x = w + of_int (- uint c) * BitPattern_l"
  let ?B = "byte_of w"
  have x: "w - BitPattern_l * ucast c = x" by (simp add: x_def mult.commute)
  have i: "8 * k + 7 < 8 * n \<longleftrightarrow> k < n" for k by linarith
  have z: "k < n \<and> bit (x AND NOT w) (8 * k + 7) \<longleftrightarrow> k < n \<and> 128 \<le> byte_of x k \<and> ?B k < 128"
    "k < n \<and> bit (x OR (w XOR BitPattern_h)) (8 * k + 7) \<longleftrightarrow> k < n \<and> (128 \<le> byte_of x k \<or> ?B k < 128)" for k
    unfolding high_bit [symmetric] not_le [symmetric] by (auto simp: bit_simps h width i)
  have c: "0 \<le> uint c" "uint c < 256" using uint_byte_range [of c] by simp_all
  have r: "0 \<le> ?B j + - uint c \<and> ?B j + - uint c < 256" if "uint c \<le> ?B j" for j
    using that byte_of_range [of w j] c by linarith
  note add = byte_of_add [of _ w "- uint c", folded x_def]
  have e: "BytesContainByteLessThan TYPE('w) sg w c \<longleftrightarrow>
    (if uint c \<le> 128 then \<exists>k<n. 128 \<le> byte_of x k \<and> ?B k < 128
     else \<exists>k<n. 128 \<le> byte_of x k \<or> ?B k < 128)"
    unfolding BytesContainByteLessThan_def Let_def promote_id ucast_id x and.assoc and.commute [of _ BitPattern_h] h_and
    unfolding z by (simp add: word_le_def)
  show ?thesis
  proof (cases "\<forall>k<n. uint c \<le> ?B k")
    case True
    have b: "byte_of x k = ?B k - uint c" if "k < n" for k
    proof -
      have "byte_of x k = (?B k + - uint c) mod 256" using True that by (intro add r) simp_all
      then show ?thesis using True that r [of k] by simp
    qed
    have "\<not> (128 \<le> byte_of x k \<and> ?B k < 128)" "128 < uint c \<Longrightarrow> \<not> (128 \<le> byte_of x k \<or> ?B k < 128)"
      if "k < n" for k
      using b [OF that] True [rule_format, OF that] byte_of_range(2) [of w k] c(1) by linarith+
    then have "\<not> (\<exists>k<n. 128 \<le> byte_of x k \<and> ?B k < 128)"
      "128 < uint c \<Longrightarrow> \<not> (\<exists>k<n. 128 \<le> byte_of x k \<or> ?B k < 128)" by blast+
    moreover have "\<not> (\<exists>k<n. ?B k < uint c)" using True by (auto simp: not_less)
    ultimately show ?thesis unfolding e
      by (cases "uint c \<le> 128") (simp_all only: if_True if_False not_le simp_thms if_cancel)
  next
    case False
    then obtain k where k: "k < n" "?B k < uint c" "\<And>j. j < k \<Longrightarrow> uint c \<le> ?B j"
      by (rule lowest_byte) (auto simp: not_le)
    have "byte_of x k = (?B k + - uint c) mod 256" using k by (intro add r) simp_all
    also have "\<dots> = (?B k - uint c + 256) mod 256" by simp
    also have "\<dots> = ?B k - uint c + 256" using k(2) byte_of_range [of w k] c by (intro mod_pos_pos_trivial) auto
    finally have b: "byte_of x k = ?B k - uint c + 256" .
    show ?thesis unfolding e using k(1,2) b byte_of_range [of w k] c by auto
  qed
qed

lemma byte_of_xor_0: "byte_of (v XOR w) k = 0 \<longleftrightarrow> byte_of v k = byte_of (w :: 'w word) k"
proof -
  let ?v = "ucast (drop_bit (8 * k) v) :: u8" and ?w = "ucast (drop_bit (8 * k) w) :: u8"
  have x: "ucast (drop_bit (8 * k) (v XOR w)) = ?v XOR ?w" by (rule bit_word_eqI) (auto simp: bit_simps)
  have "?v XOR ?w = 0 \<longleftrightarrow> ?v = ?w" by (simp add: bit_eq_iff bit_xor_iff)
  then show ?thesis unfolding uint_byte [symmetric] x unsigned_eq_0_iff word_uint_eq_iff .
qed

lemma ContainByte_bytes:
  "BytesContainByte TYPE('w) sg (w :: 'w word) c \<longleftrightarrow> (\<exists>k<n. byte_of w k = uint c)"
proof -
  have c: "byte_of (ucast c * BitPattern_l :: 'w word) k = uint c" if "k < n" for k
  proof -
    have "byte_of (0 :: 'w word) j = 0" for j by (simp add: byte_of_def byte_at_def)
    then show ?thesis using byte_of_add [of k 0 "uint c"] that uint_byte_range [of c] by simp
  qed
  have "byte_of (w XOR ucast c * BitPattern_l) k < uint (1 :: u8) \<longleftrightarrow>
      byte_of (w XOR ucast c * BitPattern_l) k = 0" for k
    using byte_of_range [of "w XOR ucast c * BitPattern_l" k] by auto
  then show ?thesis
    unfolding BytesContainByte_def promote_id ucast_id ContainByteLessThan_bytes byte_of_xor_0 using c by auto
qed

text \<open>The two sums of the narrow range: the lowest byte outside it has its high bit set in one of them.\<close>

lemma narrow_range:
  fixes w :: "'w word"
  assumes "0 \<le> lo" "lo \<le> hi" "hi < 256" "hi - lo < 128"
  shows "(\<forall>k<n. \<not> (128 \<le> byte_of (w + of_int (- lo) * BitPattern_l) k \<or>
        128 \<le> byte_of (w + of_int (127 - hi) * BitPattern_l) k)) \<longleftrightarrow>
    (\<forall>k<n. lo \<le> byte_of w k \<and> byte_of w k \<le> hi)" (is "?zero \<longleftrightarrow> ?all")
proof -
  let ?B = "byte_of w" and ?ok = "\<lambda>b. lo \<le> b \<and> b \<le> hi"
  have r: "0 \<le> ?B j + - lo \<and> ?B j + - lo < 256" "0 \<le> ?B j + (127 - hi) \<and> ?B j + (127 - hi) < 256"
    if "?ok (?B j)" for j using that byte_of_range [of w j] assms by auto
  note x = byte_of_add [of _ w "- lo"] and y = byte_of_add [of _ w "127 - hi"]
  show ?thesis
  proof (cases ?all)
    case True
    have "\<not> (128 \<le> byte_of (w + of_int (- lo) * BitPattern_l) k \<or>
        128 \<le> byte_of (w + of_int (127 - hi) * BitPattern_l) k)" if "k < n" for k
    proof -
      note k = True [rule_format, OF that]
      have "byte_of (w + of_int (- lo) * BitPattern_l) k = (?B k + - lo) mod 256"
        "byte_of (w + of_int (127 - hi) * BitPattern_l) k = (?B k + (127 - hi)) mod 256"
        using True that by (intro x y r; simp)+
      moreover have "(?B k + - lo) mod 256 = ?B k + - lo" "(?B k + (127 - hi)) mod 256 = ?B k + (127 - hi)"
        using r [OF k] by (simp_all only: mod_pos_pos_trivial)
      ultimately show ?thesis using k assms by linarith
    qed
    then show ?thesis using True by blast
  next
    case False
    then obtain k where k: "k < n" "\<not> ?ok (?B k)" "\<And>j. j < k \<Longrightarrow> ?ok (?B j)"
      using lowest_byte [of ?ok w] by blast
    have "byte_of (w + of_int (- lo) * BitPattern_l) k = (?B k + - lo) mod 256"
      "byte_of (w + of_int (127 - hi) * BitPattern_l) k = (?B k + (127 - hi)) mod 256"
      using k by (intro x y r; simp)+
    moreover have "128 \<le> (?B k + - lo) mod 256 \<or> 128 \<le> (?B k + (127 - hi)) mod 256"
      using k(2) byte_of_range [of w k] assms by (intro outside_range) auto
    ultimately show ?thesis using False k(1) by auto
  qed
qed

text \<open>The wide range: every byte is moved up by the distance from \<open>hi\<close> to 255.\<close>

lemma wide_range:
  fixes w :: "'w word"
  assumes "0 \<le> lo" "lo \<le> hi" "hi < 256"
  shows "(\<exists>k<n. byte_of (w + of_int (255 - hi) * BitPattern_l) k < lo + (255 - hi)) \<longleftrightarrow>
    \<not> (\<forall>k<n. lo \<le> byte_of w k \<and> byte_of w k \<le> hi)" (is "?found \<longleftrightarrow> \<not> ?all")
proof -
  let ?B = "byte_of w" and ?ok = "\<lambda>b. lo \<le> b \<and> b \<le> hi"
  have r: "0 \<le> ?B j + (255 - hi) \<and> ?B j + (255 - hi) < 256" if "?ok (?B j)" for j
    using that byte_of_range [of w j] assms by linarith
  note x = byte_of_add [of _ w "255 - hi"]
  show ?thesis
  proof (cases ?all)
    case True
    have "lo + (255 - hi) \<le> byte_of (w + of_int (255 - hi) * BitPattern_l) k" if "k < n" for k
    proof -
      note k = True [rule_format, OF that]
      have "byte_of (w + of_int (255 - hi) * BitPattern_l) k = (?B k + (255 - hi)) mod 256"
        using True that by (intro x r) simp_all
      also have "\<dots> = ?B k + (255 - hi)" using r [OF k] by (simp only: mod_256)
      finally show ?thesis using k by linarith
    qed
    then show ?thesis using True by (meson not_le)
  next
    case False
    then obtain k where k: "k < n" "\<not> ?ok (?B k)" "\<And>j. j < k \<Longrightarrow> ?ok (?B j)"
      using lowest_byte [of ?ok w] by blast
    have "byte_of (w + of_int (255 - hi) * BitPattern_l) k = (?B k + (255 - hi)) mod 256"
      using k by (intro x r; simp)
    moreover have "(?B k + (255 - hi)) mod 256 < lo + (255 - hi)"
    proof (cases "?B k < lo")
      case True
      then have "(?B k + (255 - hi)) mod 256 = ?B k + (255 - hi)"
        using assms byte_of_range [of w k] by (intro mod_256) linarith+
      with True show ?thesis by linarith
    next
      case False
      then have "(?B k + (255 - hi) - 256) mod 256 = ?B k + (255 - hi) - 256"
        using k(2) assms byte_of_range [of w k] by (intro mod_256) linarith+
      then have "(?B k + (255 - hi)) mod 256 = ?B k + (255 - hi) - 256" by (simp only: minus_mod_self2)
      then show ?thesis using assms byte_of_range [of w k] by linarith
    qed
    ultimately show ?thesis using False k(1) by auto
  qed
qed

lemma AllInRange_bytes:
  fixes w :: "'w word"
  shows "BytesAllInRange TYPE('w) sg w lo hi \<longleftrightarrow> (\<forall>k<n. uint lo \<le> byte_of w k \<and> byte_of w k \<le> uint hi)"
proof -
  let ?all = "\<forall>k<n. uint lo \<le> byte_of w k \<and> byte_of w k \<le> uint hi"
  note b = uint_byte_range [of lo] uint_byte_range [of hi]
  have x: "w - BitPattern_l * ucast lo = w + of_int (- uint lo) * BitPattern_l"
    "w + BitPattern_l * of_int e = w + of_int e * BitPattern_l" for e by (simp_all add: mult.commute)
  consider "uint hi < uint lo" | "uint lo \<le> uint hi" "uint hi - uint lo < 128"
    | "uint lo \<le> uint hi" "128 \<le> uint hi - uint lo" by linarith
  then show ?thesis
  proof cases
    case 1
    have "0 < n" using width len_gt_0 [where ?'a = 'w] by linarith
    then have "\<not> ?all" using 1 by auto
    with 1 show ?thesis by (simp add: BytesAllInRange_def Let_def word_less_def)
  next
    case 2
    have "BytesAllInRange TYPE('w) sg w lo hi \<longleftrightarrow>
        \<not> BitPattern_h AND ((w + of_int (- uint lo) * BitPattern_l) OR (w + of_int (127 - uint hi) * BitPattern_l)) \<noteq> 0"
    proof -
      have "\<not> lo > hi" using 2(1) by (simp add: word_less_def)
      then show ?thesis
        unfolding BytesAllInRange_def Let_def promote_id ucast_id x and.commute [of _ BitPattern_h]
        using 2(2) by (simp only: if_True if_False simp_thms)
    qed
    moreover have "(\<not> (\<exists>k<n. P k)) = (\<forall>k<n. \<not> P k)" for P by blast
    ultimately show ?thesis unfolding h_and bit_or_iff unfolding high_bit
      using narrow_range [OF b(1) 2(1) b(4) 2(2), of w] by (simp only:)
  next
    case 3
    have c: "uint (of_int (uint lo + (255 - uint hi)) :: u8) = uint lo + (255 - uint hi)"
      using b 3 by (intro uint_of_int_byte) linarith+
    have "BytesAllInRange TYPE('w) sg w lo hi \<longleftrightarrow> \<not> BytesContainByteLessThan TYPE('w) sg
        (w + of_int (255 - uint hi) * BitPattern_l) (of_int (uint lo + (255 - uint hi)))"
    proof -
      have "\<not> lo > hi" "\<not> uint hi - uint lo < 128" using 3 by (simp_all add: word_less_def)
      then show ?thesis unfolding BytesAllInRange_def Let_def promote_id ucast_id by (simp only: if_False)
    qed
    then show ?thesis unfolding ContainByteLessThan_bytes c wide_range [OF b(1) 3(1) b(4)] by simp
  qed
qed

end

lemma high_bits_8: "bit (BitPattern_h :: u8) i \<longleftrightarrow> i < 8 * 1 \<and> i mod 8 = 7"
proof -
  have "(BitPattern_h :: u8) = 0x80" by code_simp
  moreover have "\<forall>i \<in> set [0..<8]. bit (0x80 :: u8) i \<longleftrightarrow> i mod 8 = 7" by code_simp
  ultimately show ?thesis using bit_imp_le_length [of "0x80 :: u8" i] by auto
qed

lemma high_bits_16: "bit (BitPattern_h :: u16) i \<longleftrightarrow> i < 8 * 2 \<and> i mod 8 = 7"
proof -
  have "(BitPattern_h :: u16) = 0x8080" by code_simp
  moreover have "\<forall>i \<in> set [0..<16]. bit (0x8080 :: u16) i \<longleftrightarrow> i mod 8 = 7" by code_simp
  ultimately show ?thesis using bit_imp_le_length [of "0x8080 :: u16" i] by auto
qed

lemma high_bits_32: "bit (BitPattern_h :: u32) i \<longleftrightarrow> i < 8 * 4 \<and> i mod 8 = 7"
proof -
  have "(BitPattern_h :: u32) = 0x80808080" by code_simp
  moreover have "\<forall>i \<in> set [0..<32]. bit (0x80808080 :: u32) i \<longleftrightarrow> i mod 8 = 7" by code_simp
  ultimately show ?thesis using bit_imp_le_length [of "0x80808080 :: u32" i] by auto
qed

lemma high_bits_64: "bit (BitPattern_h :: u64) i \<longleftrightarrow> i < 8 * 8 \<and> i mod 8 = 7"
proof -
  have "(BitPattern_h :: u64) = 0x8080808080808080" by code_simp
  moreover have "\<forall>i \<in> set [0..<64]. bit (0x8080808080808080 :: u64) i \<longleftrightarrow> i mod 8 = 7" by code_simp
  ultimately show ?thesis using bit_imp_le_length [of "0x8080808080808080 :: u64" i] by auto
qed

interpretation bytes8: byte_words "TYPE(8)" 1
proof
  show "uint (BitPattern_l :: u8) = repunit 1" by code_simp
qed (simp_all add: high_bits_8)

interpretation bytes16: byte_words "TYPE(16)" 2
proof
  show "uint (BitPattern_l :: u16) = repunit 2" by code_simp
qed (simp_all add: high_bits_16)

interpretation bytes32: byte_words "TYPE(32)" 4
proof
  show "uint (BitPattern_l :: u32) = repunit 4" by code_simp
qed (simp_all add: high_bits_32)

interpretation bytes64: byte_words "TYPE(64)" 8
proof
  show "uint (BitPattern_l :: u64) = repunit 8" by code_simp
qed (simp_all add: high_bits_64)

section \<open>Promotion to a wider type\<close>

lemma ucast_of_int_down: "LENGTH('w::len) \<le> LENGTH('p::len) \<Longrightarrow> ucast (of_int v :: 'p word) = (of_int v :: 'w word)"
  by (rule bit_word_eqI) (simp add: bit_simps)

lemma promoted_test:
  assumes "LENGTH('w::len) \<le> LENGTH('p::len)"
  shows "(ucast (x :: 'w word) AND z :: 'p word) = 0 \<longleftrightarrow> x AND ucast z = 0"
proof
  assume z: "ucast x AND z = 0"
  show "x AND ucast z = 0"
  proof (rule bit_word_eqI)
    fix i assume "i < LENGTH('w)"
    then show "bit (x AND ucast z) i \<longleftrightarrow> bit (0 :: 'w word) i"
      using arg_cong [OF z, of "\<lambda>v. bit v i"] assms by (auto simp: bit_simps)
  qed
next
  assume z: "x AND ucast z = 0"
  show "ucast x AND z = 0"
  proof (rule bit_word_eqI)
    fix i assume "i < LENGTH('p)"
    then show "bit (ucast x AND z) i \<longleftrightarrow> bit (0 :: 'p word) i"
      using arg_cong [OF z, of "\<lambda>v. bit v i"] bit_imp_le_length [of x i] by (auto simp: bit_simps)
  qed
qed

lemma ucast_not_down: "LENGTH('w::len) \<le> LENGTH('p::len) \<Longrightarrow> ucast (NOT z :: 'p word) = (NOT (ucast z) :: 'w word)"
  by (rule bit_word_eqI) (auto simp: bit_simps)

lemma ucast_up_down: "LENGTH('w::len) \<le> LENGTH('p::len) \<Longrightarrow> ucast (ucast z :: 'p word) = (z :: 'w word)"
  by (rule bit_word_eqI) (auto simp: bit_simps)

lemma promote_down: "LENGTH('w::len) \<le> LENGTH('p::len) \<Longrightarrow> ucast (promote sg z :: 'p word) = (z :: 'w word)"
proof (rule bit_word_eqI)
  fix i assume le: "LENGTH('w) \<le> LENGTH('p)" and i: "i < LENGTH('w)"
  then have "i < LENGTH('p)" by simp
  moreover have "\<not> i < LENGTH('w) - Suc 0 \<Longrightarrow> LENGTH('w) - Suc 0 = i" using i by simp
  ultimately show "bit (ucast (promote sg z :: 'p word) :: 'w word) i = bit z i"
    using i by (cases sg) (auto simp: bit_simps promote_def min_def)
qed

lemma ucast_arith_down:
  assumes "LENGTH('w::len) \<le> LENGTH('p::len)"
  shows "ucast (a + b :: 'p word) = (ucast a + ucast b :: 'w word)"
    and "ucast (a - b :: 'p word) = (ucast a - ucast b :: 'w word)"
    and "ucast (a * b :: 'p word) = (ucast a * ucast b :: 'w word)"
  using ucast_of_int_down [OF assms, of "uint a + uint b"] ucast_of_int_down [OF assms, of "uint a - uint b"]
    ucast_of_int_down [OF assms, of "uint a * uint b"] by simp_all

lemma ucast_byte_down: "LENGTH('w::len) \<le> LENGTH('p::len) \<Longrightarrow> ucast (ucast (c :: u8) :: 'p word) = (ucast c :: 'w word)"
  using ucast_of_int_down [of "uint c", where ?'w = 'w and ?'p = 'p] by simp

lemmas promotion = promoted_test ucast_arith_down ucast_byte_down ucast_not_down ucast_up_down promote_down ucast_of_int_down

lemma promoted_ContainByteLessThan:
  assumes "LENGTH('w::len) \<le> LENGTH('p::len)"
  shows "BytesContainByteLessThan TYPE('p) sg (w :: 'w word) c = BytesContainByteLessThan TYPE('w) sg w c"
  unfolding BytesContainByteLessThan_def Let_def and.commute [of _ "ucast BitPattern_h"]
  by (simp add: promotion [OF assms] promote_id unsigned_and_eq unsigned_or_eq unsigned_xor_eq and.commute [of _ BitPattern_h])

lemma promoted_ContainByte:
  assumes "LENGTH('w::len) \<le> LENGTH('p::len)"
  shows "BytesContainByte TYPE('p) sg (w :: 'w word) c = BytesContainByte TYPE('w) sg w c"
  unfolding BytesContainByte_def promoted_ContainByteLessThan [OF assms]
  by (simp add: promotion [OF assms] promote_id unsigned_xor_eq)

lemma promoted_AllInRange:
  assumes "LENGTH('w::len) \<le> LENGTH('p::len)" and "uint hi - uint lo < 128"
  shows "BytesAllInRange TYPE('p) sg (w :: 'w word) lo hi = BytesAllInRange TYPE('w) sg w lo hi"
  using assms(2) unfolding BytesAllInRange_def Let_def and.commute [of _ "ucast BitPattern_h"]
  by (simp add: promotion [OF assms(1)] promote_id unsigned_or_eq and.commute [of _ BitPattern_h] del: of_int_diff)

text \<open>The bytes as a list.\<close>

lemma byte_of_le_bytes: "k < n \<Longrightarrow> byte_of w k = uint (le_bytes n w ! k)"
  by (simp add: le_bytes_def uint_byte)

lemma bytes_less: "(\<exists>k<n. byte_of w k < uint c) \<longleftrightarrow> (\<exists>b \<in> set (le_bytes n w). b < c)"
  by (simp add: le_bytes_def uint_byte word_less_def Bex_def image_iff) (metis uint_byte)

lemma bytes_equal: "(\<exists>k<n. byte_of w k = uint c) \<longleftrightarrow> c \<in> set (le_bytes n w)"
  by (auto simp: le_bytes_def uint_byte [symmetric] simp flip: word_uint_eq_iff)

lemma bytes_between: "(\<forall>k<n. uint lo \<le> byte_of w k \<and> byte_of w k \<le> uint hi) \<longleftrightarrow>
    (\<forall>b \<in> set (le_bytes n w). lo \<le> b \<and> b \<le> hi)"
  by (auto simp: le_bytes_def uint_byte word_le_def)

section \<open>The range test on narrow types\<close>

lemma full_range: "uint lo + (255 - uint hi) \<le> 0 \<longleftrightarrow> lo = 0 \<and> hi = 255" for lo hi :: u8
proof -
  have "uint (0 :: u8) = 0" "uint (255 :: u8) = 255" by simp_all
  then show ?thesis unfolding word_uint_eq_iff using uint_byte_range [of lo] uint_byte_range [of hi] by presburger
qed

text \<open>For a wide range the promoted sum is scanned as a word of 32 bits.\<close>

lemma wide_range_promoted:
  fixes w :: "'w::len word" and lo hi :: u8
  assumes "128 \<le> uint hi - uint lo"
  defines "c \<equiv> uint lo + (255 - uint hi)"
  shows "BytesAllInRange TYPE(32) sg w lo hi \<longleftrightarrow>
    (\<forall>k<4. c \<le> byte_of (promote sg w + of_int (255 - uint hi) * ucast (BitPattern_l :: 'w word) :: u32) k)"
proof -
  note b = uint_byte_range [of lo] uint_byte_range [of hi]
  have c: "uint (of_int c :: u8) = c" unfolding c_def using b assms(1) by (intro uint_of_int_byte) linarith+
  have "\<not> lo > hi" "\<not> uint hi - uint lo < 128" using assms(1) b by (simp_all add: word_less_def)
  then have "BytesAllInRange TYPE(32) sg w lo hi \<longleftrightarrow> \<not> BytesContainByteLessThan TYPE(32) sg
      (promote sg w + of_int (255 - uint hi) * ucast (BitPattern_l :: 'w word) :: u32) (of_int c)"
    unfolding BytesAllInRange_def Let_def c_def by (simp only: if_False)
  moreover have "(\<not> (\<exists>k<4. f k < c)) \<longleftrightarrow> (\<forall>k<4. c \<le> f k)" for f :: "nat \<Rightarrow> int" by (meson not_less)
  ultimately show ?thesis unfolding bytes32.ContainByteLessThan_bytes c by (simp only:)
qed

lemma byte_of_of_int: "k < 4 \<Longrightarrow> byte_of (of_int v :: u32) k = byte_at v k"
  using byte_at_mod [of k 4 v] by (simp add: byte_of_def unsigned_of_int take_bit_eq_mod)

text \<open>A sum that is not negative and fits into three bytes: its highest byte is zero.\<close>

lemma scan_nonnegative:
  assumes "0 \<le> v" "v < 2 ^ 24"
  shows "(\<forall>k<4. c \<le> byte_of (of_int v :: u32) k) \<longleftrightarrow> c \<le> 0"
proof
  have "byte_at v 3 = 0" using assms by (simp add: byte_at_def)
  then have "byte_of (of_int v :: u32) 3 = 0" using byte_of_of_int [of 3 v] by simp
  moreover have "3 < (4 :: nat)" by simp
  ultimately show "\<forall>k<4. c \<le> byte_of (of_int v :: u32) k \<Longrightarrow> c \<le> 0" by metis
  show "c \<le> 0 \<Longrightarrow> \<forall>k<4. c \<le> byte_of (of_int v :: u32) k" using byte_of_range(1) order_trans by blast
qed

text \<open>A negative one: the bytes beyond those of the type are 255.\<close>

lemma byte_at_negative:
  assumes "- (256 ^ n) \<le> v" "v < 0" "n \<le> k"
  shows "byte_at v k = 255"
proof -
  have "(256 :: int) ^ n \<le> 256 ^ k" using assms(3) by (simp add: power_increasing)
  then have "0 \<le> v + 256 ^ k" using assms(1) by linarith
  then have "v div 256 ^ k = - 1" using assms(2) by (intro int_div_pos_eq [of _ _ _ "v + 256 ^ k"]) simp_all
  then show ?thesis by (simp add: byte_at_def)
qed

lemma bytes_at_most:
  "0 \<le> v \<Longrightarrow> v < 256 ^ n \<Longrightarrow> (\<And>k. k < n \<Longrightarrow> byte_at v k \<le> m) \<Longrightarrow> v \<le> m * repunit n"
proof (induction n arbitrary: v)
  case (Suc n)
  have "v div 256 \<le> m * repunit n"
    using Suc.prems(3) [of "Suc _"] by (intro Suc.IH) (use Suc.prems in \<open>simp_all add: byte_at_Suc div_less_iff_less_mult\<close>)
  moreover have "v mod 256 \<le> m" using Suc.prems(3) [of 0] by (simp add: byte_at_0)
  moreover have "v = v mod 256 + 256 * (v div 256)" by simp
  moreover have "m * repunit (Suc n) = m + 256 * (m * repunit n)" by (simp add: algebra_simps)
  ultimately show ?case by linarith
qed simp

lemma repunit_255: "255 * repunit n = 256 ^ n - 1"
  by (induction n) simp_all

lemma small_sums:
  fixes u e :: int
  assumes "n = 1 \<or> n = 2" "0 \<le> u" "u < 256 ^ n" "0 \<le> e" "e \<le> 255"
  shows "0 \<le> e * repunit n" "u + e * repunit n < 2 ^ 24"
  using assms by (auto simp: numeral_2_eq_2)

lemma sint_alt: "sint (w :: 'w::len word) = uint w - (if bit w (LENGTH('w) - 1) then 2 ^ LENGTH('w) else 0)"
proof -
  obtain m where m: "LENGTH('w) = Suc m" using len_gt_0 [where ?'a = 'w] gr0_conv_Suc by blast
  have "sint w = take_bit (Suc m) (uint w) - 2 ^ Suc m * of_bool (bit (uint w) m)"
    unfolding sint_uint signed_take_bit_eq_take_bit_minus m by simp
  moreover have "take_bit (Suc m) (uint w) = uint w" using uint_lt2p [of w] by (simp add: take_bit_int_eq_self_iff m)
  ultimately show ?thesis by (simp add: bit_simps m)
qed

context byte_words
begin

text \<open>In a sum that is negative as an \<open>int\<close>, the low bytes are those of the sum in the type itself.\<close>

lemma scan_negative:
  fixes w :: "'w word"
  assumes "n < 4" "c \<le> 255" "bit w (8 * n - 1)" "0 \<le> e" "0 \<le> repunit n"
  defines "v \<equiv> uint w - 256 ^ n + e * repunit n"
  assumes "v < 0"
  shows "(\<forall>k<4. c \<le> byte_of (of_int v :: u32) k) \<longleftrightarrow> (\<forall>k<n. c \<le> byte_of (w + of_int e * BitPattern_l) k)"
proof -
  have low: "byte_of (w + of_int e * BitPattern_l) k = byte_of (of_int v :: u32) k" if "k < n" for k
  proof -
    have "uint (w + of_int e * BitPattern_l) = v mod 256 ^ n"
      unfolding uint_add_bytes v_def by (simp add: mod_diff_right_eq [symmetric] algebra_simps)
    then show ?thesis using that assms(1) byte_of_of_int [of k v] byte_at_mod [of k n v] by (simp add: byte_of_def)
  qed
  have high: "byte_of (of_int v :: u32) k = 255" if "n \<le> k" "k < 4" for k
  proof -
    have "0 \<le> e * repunit n" "0 \<le> uint w" using assms(4,5) by simp_all
    then have "- (256 ^ n) \<le> v" unfolding v_def by linarith
    then show ?thesis using byte_at_negative [of n v k] assms(7) that byte_of_of_int by simp
  qed
  show ?thesis
  proof (intro iffI allI impI)
    fix k assume "\<forall>k<n. c \<le> byte_of (w + of_int e * BitPattern_l) k" "k < (4 :: nat)"
    then show "c \<le> byte_of (of_int v :: u32) k" using low [of k] high [of k] assms(2) by (cases "k < n") auto
  qed (use low assms(1) in auto)
qed

lemma wide_range_signed:
  fixes w :: "'w word" and lo hi :: u8
  assumes "n \<le> 2" and d: "128 \<le> uint hi - uint lo"
  shows "BytesAllInRange TYPE(32) True w lo hi \<longleftrightarrow>
    (bit w (8 * n - 1) \<and> (\<forall>k<n. uint lo \<le> byte_of w k \<and> byte_of w k \<le> uint hi)) \<or> lo = 0 \<and> hi = 255"
proof -
  let ?e = "255 - uint hi" and ?c = "uint lo + (255 - uint hi)"
  let ?all = "\<forall>k<n. uint lo \<le> byte_of w k \<and> byte_of w k \<le> uint hi"
  note b = uint_byte_range [of lo] uint_byte_range [of hi]
  define v where "v = sint w + ?e * repunit n"
  have n: "n = 1 \<or> n = 2" using assms(1) width len_gt_0 [where ?'a = 'w] by linarith
  have top: "LENGTH('w) - 1 = 8 * n - 1" "(2 :: int) ^ LENGTH('w) = 256 ^ n" unfolding width by (simp_all add: power_mult)
  have s: "sint w = uint w - (if bit w (8 * n - 1) then 256 ^ n else 0)" unfolding sint_alt top ..
  have w: "0 \<le> uint w" "uint w < 256 ^ n" using uint_lt2p [of w] top(2) by simp_all
  have p: "promote True w + of_int ?e * ucast (BitPattern_l :: 'w word) = (of_int v :: u32)"
    by (simp add: promote_def v_def flip: l)
  have e: "0 \<le> ?e" "?e \<le> 255" using b by linarith+
  note small = small_sums [OF n w e]
  have scan: "BytesAllInRange TYPE(32) True w lo hi \<longleftrightarrow> (\<forall>k<4. ?c \<le> byte_of (of_int v :: u32) k)"
    using wide_range_promoted [OF d, of True w] p by simp
  show ?thesis
  proof (cases "v < 0")
    case True
    have neg: "bit w (8 * n - 1)"
    proof (rule ccontr)
      assume "\<not> bit w (8 * n - 1)"
      then have "sint w = uint w" unfolding s by simp
      then show False using True w(1) small(1) unfolding v_def by linarith
    qed
    have r: "0 \<le> repunit n" using n by (auto simp: numeral_2_eq_2)
    have v: "v = uint w - 256 ^ n + ?e * repunit n" using neg by (simp add: v_def s)
    have "(\<forall>k<4. ?c \<le> byte_of (of_int v :: u32) k) \<longleftrightarrow> (\<forall>k<n. ?c \<le> byte_of (w + of_int ?e * BitPattern_l) k)"
      unfolding v using True n d by (intro scan_negative [OF _ _ neg e(1) r]) (auto simp: v)
    moreover have "(\<exists>k<n. byte_of (w + of_int ?e * BitPattern_l) k < ?c) \<longleftrightarrow> \<not> ?all"
      using d b by (intro wide_range) linarith+
    then have "(\<forall>k<n. ?c \<le> byte_of (w + of_int ?e * BitPattern_l) k) \<longleftrightarrow> ?all" by (meson not_less)
    moreover have "byte_of w k \<le> 255" for k using byte_of_range(2) [of w k] by linarith
    then have "lo = 0 \<and> hi = 255 \<Longrightarrow> ?all" by (simp add: byte_of_range(1))
    ultimately show ?thesis using scan neg by blast
  next
    case False
    have "sint w \<le> uint w" unfolding s by simp
    then have "v < 2 ^ 24" using small(2) unfolding v_def by linarith
    then have r: "BytesAllInRange TYPE(32) True w lo hi \<longleftrightarrow> lo = 0 \<and> hi = 255"
      using scan scan_nonnegative [of v ?c] False full_range [of lo hi] by simp
    have "\<not> ?all" if "bit w (8 * n - 1)"
    proof
      assume ?all
      then have "uint w \<le> uint hi * repunit n" using w by (intro bytes_at_most) (simp_all add: byte_of_def)
      then have "uint w + ?e * repunit n < 256 ^ n" using repunit_255 [of n] by (simp add: algebra_simps)
      then show False using False that unfolding v_def s by simp
    qed
    then show ?thesis using r by blast
  qed
qed

lemma wide_range_unsigned:
  fixes w :: "'w word" and lo hi :: u8
  assumes "n \<le> 2" and d: "128 \<le> uint hi - uint lo"
  shows "BytesAllInRange TYPE(32) False w lo hi \<longleftrightarrow> lo = 0 \<and> hi = 255"
proof -
  let ?v = "uint w + (255 - uint hi) * repunit n" and ?c = "uint lo + (255 - uint hi)"
  note b = uint_byte_range [of lo] uint_byte_range [of hi]
  have n: "n = 1 \<or> n = 2" using assms(1) width len_gt_0 [where ?'a = 'w] by linarith
  have w: "0 \<le> uint w" "uint w < 256 ^ n" using uint_lt2p [of w] unfolding width by (simp_all add: power_mult)
  have "promote False w + of_int (255 - uint hi) * ucast (BitPattern_l :: 'w word) = (of_int ?v :: u32)"
    by (simp add: promote_def flip: l)
  moreover have "0 \<le> 255 - uint hi" "255 - uint hi \<le> 255" using b by linarith+
  from small_sums [OF n w this] have "0 \<le> ?v" "?v < 2 ^ 24" using w(1) by linarith+
  moreover have "?c \<le> 0 \<longleftrightarrow> lo = 0 \<and> hi = 255" by (rule full_range)
  ultimately show ?thesis using wide_range_promoted [OF d, of False w] scan_nonnegative [of ?v ?c] by simp
qed

end

section \<open>Properties\<close>

text \<open>
  Property C23.  The scans find what they say in every byte: for the signed and unsigned types of 8, 16, 32 and
  64 bits \<open>BytesContainByte\<close> tells whether a byte equals \<open>c\<close>, \<open>BytesContainByteLessThan\<close> whether one is less than
  \<open>c\<close>, for every \<open>c\<close>, although the arithmetic carries from byte to byte; \<open>BytesAllInRange\<close> tells for the types of 32
  and 64 bits, and every \<open>lo\<close> and \<open>hi\<close>, whether all bytes are between them.
\<close>

theorem Bits_byte_scans:
  fixes w8 :: u8 and w16 :: u16 and w32 :: u32 and w64 :: u64
  shows
   "(BytesContainByteLessThan TYPE(32) sg w8 c \<longleftrightarrow> (\<exists>b \<in> set (le_bytes 1 w8). b < c)) \<and>
    (BytesContainByteLessThan TYPE(32) sg w16 c \<longleftrightarrow> (\<exists>b \<in> set (le_bytes 2 w16). b < c)) \<and>
    (BytesContainByteLessThan TYPE(32) sg w32 c \<longleftrightarrow> (\<exists>b \<in> set (le_bytes 4 w32). b < c)) \<and>
    (BytesContainByteLessThan TYPE(64) sg w64 c \<longleftrightarrow> (\<exists>b \<in> set (le_bytes 8 w64). b < c)) \<and>
    (BytesContainByte TYPE(32) sg w8 c \<longleftrightarrow> c \<in> set (le_bytes 1 w8)) \<and>
    (BytesContainByte TYPE(32) sg w16 c \<longleftrightarrow> c \<in> set (le_bytes 2 w16)) \<and>
    (BytesContainByte TYPE(32) sg w32 c \<longleftrightarrow> c \<in> set (le_bytes 4 w32)) \<and>
    (BytesContainByte TYPE(64) sg w64 c \<longleftrightarrow> c \<in> set (le_bytes 8 w64)) \<and>
    (BytesAllInRange TYPE(32) sg w32 lo hi \<longleftrightarrow> list_all (\<lambda>b. lo \<le> b \<and> b \<le> hi) (le_bytes 4 w32)) \<and>
    (BytesAllInRange TYPE(64) sg w64 lo hi \<longleftrightarrow> list_all (\<lambda>b. lo \<le> b \<and> b \<le> hi) (le_bytes 8 w64))"
  unfolding bytes_less [symmetric] bytes_equal [symmetric] list_all_iff bytes_between [symmetric]
  by (simp add: promoted_ContainByteLessThan promoted_ContainByte
      bytes8.ContainByteLessThan_bytes bytes16.ContainByteLessThan_bytes bytes32.ContainByteLessThan_bytes
      bytes64.ContainByteLessThan_bytes bytes8.ContainByte_bytes bytes16.ContainByte_bytes
      bytes32.ContainByte_bytes bytes64.ContainByte_bytes bytes32.AllInRange_bytes bytes64.AllInRange_bytes)

text \<open>
  Property C40.  On types narrower than \<open>int\<close> the range test is right for ranges of at most 128 values, and wrong
  for wider ones, where the promoted sum is scanned as an \<open>int\<close>.  For unsigned types the upper bytes of the \<open>int\<close> are
  zero, and the answer is yes for the range of all bytes and no for every other.  For signed types they are 255
  when the sum is negative and zero otherwise: for every range but that of all bytes the answer is yes exactly when all
  bytes are in the range and the highest bit is set.  So the byte 100 is found between 0 and 200 by neither.
\<close>

theorem BytesAllInRange_narrow_types:
  fixes w8 :: u8 and w16 :: u16
  shows
   "(BytesAllInRange TYPE(32) False w8 lo hi \<longleftrightarrow>
      (if uint hi - uint lo < 128 then list_all (\<lambda>b. lo \<le> b \<and> b \<le> hi) (le_bytes 1 w8) else lo = 0 \<and> hi = 255)) \<and>
    (BytesAllInRange TYPE(32) False w16 lo hi \<longleftrightarrow>
      (if uint hi - uint lo < 128 then list_all (\<lambda>b. lo \<le> b \<and> b \<le> hi) (le_bytes 2 w16) else lo = 0 \<and> hi = 255)) \<and>
    (BytesAllInRange TYPE(32) True w8 lo hi \<longleftrightarrow>
      list_all (\<lambda>b. lo \<le> b \<and> b \<le> hi) (le_bytes 1 w8) \<and> (if uint hi - uint lo < 128 then True else bit w8 7 \<or> lo = 0 \<and> hi = 255)) \<and>
    (BytesAllInRange TYPE(32) True w16 lo hi \<longleftrightarrow>
      list_all (\<lambda>b. lo \<le> b \<and> b \<le> hi) (le_bytes 2 w16) \<and> (if uint hi - uint lo < 128 then True else bit w16 15 \<or> lo = 0 \<and> hi = 255)) \<and>
    \<not> BytesAllInRange TYPE(32) sg (100 :: u8) 0 200"
proof -
  have "\<not> BytesAllInRange TYPE(32) False (100 :: u8) 0 200" "\<not> BytesAllInRange TYPE(32) True (100 :: u8) 0 200" by code_simp+
  then have 100: "\<not> BytesAllInRange TYPE(32) sg (100 :: u8) 0 200" by (cases sg) simp_all
  have "b \<le> 255" for b :: u8 unfolding word_le_def using uint_byte_range(2) [of b] by simp
  then have full: "list_all (\<lambda>b. (0 :: u8) \<le> b \<and> b \<le> 255) bs" for bs by (simp add: list_all_iff)
  show ?thesis
  proof (cases "uint hi - uint lo < 128")
    case True
    then show ?thesis using 100
      by (simp add: promoted_AllInRange bytes8.AllInRange_bytes bytes16.AllInRange_bytes list_all_iff flip: bytes_between)
  next
    case False
    then have d: "128 \<le> uint hi - uint lo" by simp
    have "BytesAllInRange TYPE(32) True w8 lo hi \<longleftrightarrow>
        bit w8 7 \<and> list_all (\<lambda>b. lo \<le> b \<and> b \<le> hi) (le_bytes 1 w8) \<or> lo = 0 \<and> hi = 255"
      "BytesAllInRange TYPE(32) True w16 lo hi \<longleftrightarrow>
        bit w16 15 \<and> list_all (\<lambda>b. lo \<le> b \<and> b \<le> hi) (le_bytes 2 w16) \<or> lo = 0 \<and> hi = 255"
      using bytes8.wide_range_signed [OF _ d, of w8] bytes16.wide_range_signed [OF _ d, of w16]
      by (simp_all add: list_all_iff flip: bytes_between)
    then show ?thesis
      using False 100 full bytes8.wide_range_unsigned [OF _ d, of w8] bytes16.wide_range_unsigned [OF _ d, of w16] by auto
  qed
qed

end
