(* ===== verification/Bits_Reverse.thy ===== *)
theory Bits_Reverse
  imports Bits Endian_Proofs
begin

text \<open>Every variant of \<open>ReverseBits\<close> reverses the bits.\<close>

section \<open>The built-ins\<close>

lemma bit_bitreverse: "bit (bitreverse (n :: 'w::len word)) i \<longleftrightarrow> i < LENGTH('w) \<and> bit n (LENGTH('w) - Suc i)"
  by (auto simp: bitreverse_def bit_horner_sum_bit_word_iff rev_nth)

lemma bit_bpermd: "bit (bpermd selector source) i \<longleftrightarrow> i < 8 \<and>
    (let index = unat (take_bit 8 (drop_bit (8 * i) selector)) in index < 64 \<and> bit source (63 - index))"
  by (auto simp: bpermd_def bit_horner_sum_bit_word_iff)

text \<open>The selector of byte \<open>j\<close>, counted from the least significant one, reverses that byte.\<close>

definition selects :: "u64 \<Rightarrow> nat \<Rightarrow> bool" where
  "selects selector j \<longleftrightarrow>
    j < 8 \<and> (\<forall>i \<in> set [0..<8]. unat (take_bit 8 (drop_bit (8 * i) selector)) = 56 - 8 * j + i)"

lemma selectors:
  "selects 0x3f3e3d3c3b3a3938 0" "selects 0x3736353433323130 1" "selects 0x2f2e2d2c2b2a2928 2" "selects 0x2726252423222120 3"
  "selects 0x1f1e1d1c1b1a1918 4" "selects 0x1716151413121110 5" "selects 0x0f0e0d0c0b0a0908 6" "selects 0x0706050403020100 7"
  unfolding selects_def by code_simp+

lemma bit_selected:
  assumes "selects selector j"
  shows "bit (bpermd selector source) i \<longleftrightarrow> i < 8 \<and> bit source (8 * j + 7 - i)"
proof -
  have "unat (take_bit 8 (drop_bit (8 * i) selector)) = 56 - 8 * j + i" if "i < 8"
    using assms that by (simp add: selects_def)
  moreover have "63 - (56 - 8 * j + i) = 8 * j + 7 - i" "i < 8 \<Longrightarrow> 56 - 8 * j + i < 64"
    using assms by (auto simp: selects_def)
  ultimately show ?thesis unfolding bit_bpermd Let_def by (metis (no_types, lifting))
qed

lemma bit_shifted_byte:
  assumes "selects selector j" and "k + 8 * j + 8 = N" and "k \<le> 56"
  shows "bit (push_bit k (bpermd selector source)) i \<longleftrightarrow> k \<le> i \<and> i < k + 8 \<and> bit source (N - Suc i)"
proof -
  have "8 * j + 7 - (i - k) = N - Suc i" if "k \<le> i" "i < k + 8" using assms(2) that by linarith
  then show ?thesis using assms(3) by (auto simp: bit_push_bit_iff bit_selected [OF assms(1)] possible_bit_word)
qed

section \<open>The portable steps\<close>

definition alternates :: "nat \<Rightarrow> 'w::len word \<Rightarrow> bool" where
  "alternates k pattern \<longleftrightarrow> (\<forall>i \<in> set [0..<LENGTH('w)]. bit pattern i \<longleftrightarrow> even (i div k))"

lemma bit_swap_groups:
  fixes n :: "'w::len word"
  assumes "alternates k pattern" and "0 < k" and "i < LENGTH('w)"
  shows "bit (swap_groups k pattern n) i \<longleftrightarrow> bit n (if even (i div k) then i + k else i - k)"
proof -
  have p: "bit pattern j \<longleftrightarrow> even (j div k)" if "j < LENGTH('w)" for j using assms(1) that by (simp add: alternates_def)
  show ?thesis
  proof (cases "k \<le> i")
    case True
    then have "(i - k) div k = i div k - 1" "0 < i div k" using assms(2) by (simp_all add: div_if le_div_geq)
    then show ?thesis using True assms(3) p [of i] p [of "i - k"]
      by (auto simp: swap_groups_def bit_simps add.commute)
  next
    case False
    then show ?thesis using assms(3) p [of i] by (auto simp: swap_groups_def bit_simps add.commute)
  qed
qed

lemma patterns:
  "alternates 1 (0x55 :: u8)" "alternates 2 (0x33 :: u8)" "alternates 4 (0x0f :: u8)"
  "alternates 1 (0x5555 :: u16)" "alternates 2 (0x3333 :: u16)" "alternates 4 (0x0f0f :: u16)"
  "alternates 1 (0x55555555 :: u32)" "alternates 2 (0x33333333 :: u32)" "alternates 4 (0x0F0F0F0F :: u32)"
  "alternates 1 (0x5555555555555555 :: u64)" "alternates 2 (0x3333333333333333 :: u64)"
  "alternates 4 (0x0F0F0F0F0F0F0F0F :: u64)"
  unfolding alternates_def by code_simp+

text \<open>The three steps together reverse every byte.\<close>

definition swapped :: "nat \<Rightarrow> nat \<Rightarrow> nat" where
  "swapped k r = (if even (r div k) then r + k else r - k)"

lemma swapped_reverses: "\<forall>r \<in> set [0..<8]. swapped 1 (swapped 2 (swapped 4 r)) = 7 - r \<and>
    swapped 4 r < 8 \<and> swapped 2 (swapped 4 r) < 8"
  by code_simp

lemma bit_swap_in_byte:
  fixes n :: "'w::len word"
  assumes "alternates k pattern" and "8 = k * (2 * m)" and "8 * q + 7 < LENGTH('w)" and "r < 8"
  shows "bit (swap_groups k pattern n) (8 * q + r) \<longleftrightarrow> bit n (8 * q + swapped k r)"
proof -
  have k: "0 < k" using assms(2) by (cases k) simp_all
  have "8 * q = k * (2 * (m * q))" unfolding assms(2) by (simp only: mult.assoc)
  then have "(8 * q + r) div k = (r + k * (2 * (m * q))) div k" by (simp only: add.commute)
  also have "\<dots> = 2 * (m * q) + r div k" using k by (simp only: div_mult_self2)
  finally have e: "even ((8 * q + r) div k) \<longleftrightarrow> even (r div k)" by simp
  have "k \<le> r" if "odd (r div k)" using that by (metis div_less even_zero not_le)
  then have "(if even (r div k) then 8 * q + r + k else 8 * q + r - k) = 8 * q + swapped k r"
    by (simp add: swapped_def)
  then show ?thesis using bit_swap_groups [OF assms(1) k, of "8 * q + r" n] assms(3,4) e by simp
qed

lemma bit_reverse_bytes:
  fixes n :: "'w::len word"
  assumes "alternates 1 p1" "alternates 2 p2" "alternates 4 p4" and "8 * q + 7 < LENGTH('w)" and "r < 8"
  shows "bit (swap_groups 4 p4 (swap_groups 2 p2 (swap_groups 1 p1 n))) (8 * q + r) \<longleftrightarrow> bit n (8 * q + (7 - r))"
proof -
  have "swapped 1 (swapped 2 (swapped 4 r)) = 7 - r" "swapped 4 r < 8" "swapped 2 (swapped 4 r) < 8"
    using swapped_reverses assms(5) by simp_all
  then show ?thesis
    using bit_swap_in_byte [OF assms(3) _ assms(4,5), of 1] bit_swap_in_byte [OF assms(2) _ assms(4), of 2 "swapped 4 r"]
      bit_swap_in_byte [OF assms(1) _ assms(4), of 4 "swapped 2 (swapped 4 r)"]
    by simp
qed

lemma bit_byteswap:
  fixes w :: "'w::len word"
  assumes "whole_bytes TYPE('w word)" and "q < size_of TYPE('w word)" and "r < 8"
  shows "bit (byteswap w) (8 * q + r) \<longleftrightarrow> bit w (8 * (size_of TYPE('w word) - Suc q) + r)"
proof -
  let ?n = "size_of TYPE('w word)"
  have b: "bit (le_bytes ?n v ! k) r \<longleftrightarrow> bit v (8 * k + r)" if "k < ?n" for k and v :: "'w word"
    using that assms(3) by (simp add: le_bytes_def bit_simps)
  have l: "length (le_bytes ?n w) = ?n" by (simp add: le_bytes_def)
  have "bit (byteswap w) (8 * q + r) \<longleftrightarrow> bit (rev (le_bytes ?n w) ! q) r"
    using b [OF assms(2), of "byteswap w"] unfolding le_bytes_byteswap [OF assms(1)] by simp
  also have "rev (le_bytes ?n w) ! q = le_bytes ?n w ! (?n - Suc q)" using assms(2) by (simp add: rev_nth l)
  finally show ?thesis using b [of "?n - Suc q" w] assms(2) by simp
qed

lemma byteswap_reversed_bytes:
  fixes n :: "'w::len word"
  assumes "whole_bytes TYPE('w word)" "alternates 1 p1" "alternates 2 p2" "alternates 4 p4"
  shows "byteswap (swap_groups 4 p4 (swap_groups 2 p2 (swap_groups 1 p1 n))) = bitreverse n"
proof (rule bit_word_eqI)
  fix i assume i: "i < LENGTH('w)"
  let ?N = "size_of TYPE('w word)" and ?q = "i div 8" and ?r = "i mod 8"
  have w: "LENGTH('w) = 8 * ?N" using assms(1) by (simp add: whole_bytes_def)
  have q: "?q < ?N" using i w by (simp add: less_mult_imp_div_less)
  have "8 * (?N - Suc ?q) + (7 - ?r) = LENGTH('w) - Suc i"
    using q div_mult_mod_eq [of i 8] mod_less_divisor [of 8 i] unfolding w by linarith
  then have "bit (swap_groups 4 p4 (swap_groups 2 p2 (swap_groups 1 p1 n))) (8 * (?N - Suc ?q) + ?r) \<longleftrightarrow>
      bit n (LENGTH('w) - Suc i)"
    using bit_reverse_bytes [OF assms(2-4), of "?N - Suc ?q" ?r n] q w by simp
  then have "bit (byteswap (swap_groups 4 p4 (swap_groups 2 p2 (swap_groups 1 p1 n)))) (8 * ?q + ?r) \<longleftrightarrow>
      bit n (LENGTH('w) - Suc i)"
    using bit_byteswap [OF assms(1) q, of ?r] by simp
  then show "bit (byteswap (swap_groups 4 p4 (swap_groups 2 p2 (swap_groups 1 p1 n)))) i \<longleftrightarrow> bit (bitreverse n) i"
    using i by (simp add: bit_bitreverse)
qed

section \<open>The variants\<close>

lemma ReverseBits8_eq: "ReverseBits8 variant n = bitreverse n"
proof -
  have "swap_groups 4 0x0f (swap_groups 2 0x33 (swap_groups 1 0x55 n)) = bitreverse n"
  proof (rule bit_word_eqI)
    fix i assume "i < LENGTH(8)"
    then show "bit (swap_groups 4 0x0f (swap_groups 2 0x33 (swap_groups 1 0x55 n))) i \<longleftrightarrow> bit (bitreverse n) i"
      using bit_reverse_bytes [OF patterns(1-3), of 0 i n] by (simp add: bit_bitreverse)
  qed
  moreover have "ucast (bitreverse (push_bit (32 - 8) (ucast n) :: u32)) = bitreverse n"
    by (rule bit_word_eqI) (auto simp: bit_simps bit_bitreverse)
  moreover have "ucast (bpermd 0x3f3e3d3c3b3a3938 (ucast n)) = bitreverse n"
    by (rule bit_word_eqI) (auto simp: bit_simps bit_bitreverse bit_selected [OF selectors(1)])
  ultimately show ?thesis by (simp add: ReverseBits8_def Let_def split: reverse_variant.splits)
qed

lemma ReverseBits16_eq: "ReverseBits16 variant n = bitreverse n"
proof -
  have "ucast (bitreverse (push_bit (32 - 16) (ucast n) :: u32)) = bitreverse n"
    by (rule bit_word_eqI) (auto simp: bit_simps bit_bitreverse)
  moreover have "ucast (push_bit 8 (bpermd 0x3f3e3d3c3b3a3938 (ucast n)) OR bpermd 0x3736353433323130 (ucast n)) =
      bitreverse n"
    using bit_shifted_byte [OF selectors(1), of 8 16] bit_shifted_byte [OF selectors(2), of 0 16]
    by (intro bit_word_eqI) (auto simp: bit_ucast_iff bit_or_iff bit_bitreverse)
  ultimately show ?thesis
    using byteswap_reversed_bytes [OF _ patterns(4-6), of n]
    by (simp add: ReverseBits16_def Let_def split: reverse_variant.splits)
qed

lemma ReverseBits32_eq: "ReverseBits32 variant n = bitreverse n"
proof -
  have "ucast (push_bit 24 (bpermd 0x3f3e3d3c3b3a3938 (ucast n)) OR push_bit 16 (bpermd 0x3736353433323130 (ucast n)) OR
      push_bit 8 (bpermd 0x2f2e2d2c2b2a2928 (ucast n)) OR bpermd 0x2726252423222120 (ucast n)) = bitreverse n"
    using bit_shifted_byte [OF selectors(1), of 24 32] bit_shifted_byte [OF selectors(2), of 16 32]
      bit_shifted_byte [OF selectors(3), of 8 32] bit_shifted_byte [OF selectors(4), of 0 32]
    by (intro bit_word_eqI) (auto simp: bit_ucast_iff bit_or_iff bit_bitreverse)
  then show ?thesis
    using byteswap_reversed_bytes [OF _ patterns(7-9), of n]
    by (simp add: ReverseBits32_def Let_def split: reverse_variant.splits)
qed

lemma ReverseBits64_eq: "ReverseBits64 variant n = bitreverse n"
proof -
  have "push_bit 56 (bpermd 0x3f3e3d3c3b3a3938 n) OR push_bit 48 (bpermd 0x3736353433323130 n) OR
      push_bit 40 (bpermd 0x2f2e2d2c2b2a2928 n) OR push_bit 32 (bpermd 0x2726252423222120 n) OR
      push_bit 24 (bpermd 0x1f1e1d1c1b1a1918 n) OR push_bit 16 (bpermd 0x1716151413121110 n) OR
      push_bit 8 (bpermd 0x0f0e0d0c0b0a0908 n) OR bpermd 0x0706050403020100 n = bitreverse n"
    using bit_shifted_byte [OF selectors(1), of 56 64] bit_shifted_byte [OF selectors(2), of 48 64]
      bit_shifted_byte [OF selectors(3), of 40 64] bit_shifted_byte [OF selectors(4), of 32 64]
      bit_shifted_byte [OF selectors(5), of 24 64] bit_shifted_byte [OF selectors(6), of 16 64]
      bit_shifted_byte [OF selectors(7), of 8 64] bit_shifted_byte [OF selectors(8), of 0 64]
    by (intro bit_word_eqI) (auto simp: bit_or_iff bit_bitreverse)
  moreover have "ucast (bitreverse (ucast (drop_bit 32 n) :: u32)) OR
      push_bit 32 (ucast (bitreverse (ucast (n AND 0xffffffff) :: u32))) = bitreverse n"
  proof (rule bit_word_eqI)
    have m: "(0xffffffff :: u64) = mask 32" by (simp add: mask_eq_exp_minus_1)
    have low: "ucast (n AND 0xffffffff) = (ucast n :: u32)"
      unfolding m by (rule bit_word_eqI) (auto simp: bit_simps)
    fix i assume "i < LENGTH(64)"
    then show "bit (ucast (bitreverse (ucast (drop_bit 32 n) :: u32)) OR
      push_bit 32 (ucast (bitreverse (ucast (n AND 0xffffffff) :: u32))) :: u64) i \<longleftrightarrow> bit (bitreverse n) i"
      unfolding low by (cases "i < 32") (auto simp: bit_simps bit_bitreverse)
  qed
  ultimately show ?thesis
    using byteswap_reversed_bytes [OF _ patterns(10-12), of n]
    by (simp add: ReverseBits64_def Let_def ReverseBits32_eq split: reverse_variant.splits)
qed

lemma ReverseBits128_eq: "ReverseBits128 variant n = bitreverse n"
proof (rule bit_word_eqI)
  fix i assume "i < LENGTH(128)"
  then show "bit (ReverseBits128 variant n) i \<longleftrightarrow> bit (bitreverse n) i"
    by (cases "i < 64")
      (auto simp: ReverseBits128_def ReverseBits64_eq MakeUint128_def Uint128Low64_def Uint128High64_def bit_simps bit_bitreverse)
qed

lemma bitreverse_bitreverse: "bitreverse (bitreverse n) = n"
  by (rule bit_word_eqI) (auto simp: bit_bitreverse)

section \<open>Property\<close>

text \<open>
  Property C25.  On every platform, with the compilers' built-ins, the instructions of AArch64 and POWER and
  in both portable versions, \<open>ReverseBits8\<close> to \<open>ReverseBits128\<close> put bit \<open>i\<close> in the place of bit \<open>N - 1 - i\<close>,
  so reversing twice, even with different versions, gives the number back.
\<close>

theorem ReverseBits_reverses:
  "(bit (ReverseBits8 v a) i \<longleftrightarrow> i < 8 \<and> bit a (7 - i)) \<and>
   (bit (ReverseBits16 v b) i \<longleftrightarrow> i < 16 \<and> bit b (15 - i)) \<and>
   (bit (ReverseBits32 v c) i \<longleftrightarrow> i < 32 \<and> bit c (31 - i)) \<and>
   (bit (ReverseBits64 v d) i \<longleftrightarrow> i < 64 \<and> bit d (63 - i)) \<and>
   (bit (ReverseBits128 v e) i \<longleftrightarrow> i < 128 \<and> bit e (127 - i)) \<and>
   ReverseBits8 v (ReverseBits8 v' a) = a \<and> ReverseBits16 v (ReverseBits16 v' b) = b \<and>
   ReverseBits32 v (ReverseBits32 v' c) = c \<and> ReverseBits64 v (ReverseBits64 v' d) = d \<and>
   ReverseBits128 v (ReverseBits128 v' e) = e"
  by (simp add: ReverseBits8_eq ReverseBits16_eq ReverseBits32_eq ReverseBits64_eq ReverseBits128_eq
      bitreverse_bitreverse bit_bitreverse)

end
