(* ===== verification/Bits_Proofs.thy ===== *)
theory Bits_Proofs
  imports Bits_Scan Bits_Reverse
begin

text \<open>
  Counting, logarithms and fields of bits: the routines of \<open>Bits\<close> against the numbers and the bits they
  stand for.
\<close>

section \<open>Powers of two\<close>

lemma nat_and_pred: "(x :: nat) AND (x - 1) = 0 \<longleftrightarrow> x = 0 \<or> (\<exists>k. x = 2 ^ k)"
proof (induction x rule: less_induct)
  case (less x)
  show ?case
  proof (cases "x = 0")
    case False
    have rec: "x AND (x - 1) = of_bool (odd x \<and> odd (x - 1)) + 2 * (x div 2 AND ((x - 1) div 2))" by (rule and_rec)
    show ?thesis
    proof (cases "even x")
      case True
      then obtain y where y: "x = 2 * y" "0 < y" using False by (auto elim: evenE)
      then have "(x - 1) div 2 = y - 1" by linarith
      then have "x AND (x - 1) = 2 * (y AND (y - 1))" using rec y by simp
      moreover have "(\<exists>k. x = 2 ^ k) \<longleftrightarrow> (\<exists>k. y = 2 ^ k)"
      proof
        assume "\<exists>k. x = 2 ^ k"
        then obtain k where k: "x = 2 ^ k" by blast
        then show "\<exists>k. y = 2 ^ k" using y True by (cases k) auto
      next
        assume "\<exists>k. y = 2 ^ k"
        then show "\<exists>k. x = 2 ^ k" using y by (metis power_Suc)
      qed
      ultimately show ?thesis using less.IH [of y] y by simp
    next
      case odd: False
      then obtain y where y: "x = 2 * y + 1" by (auto elim: oddE)
      then have "x AND (x - 1) = 2 * y" using rec by simp
      moreover have "(\<exists>k. x = 2 ^ k) \<longleftrightarrow> y = 0"
      proof
        assume "\<exists>k. x = 2 ^ k"
        then obtain k where "x = 2 ^ k" by blast
        then show "y = 0" using odd y by (cases k) auto
      next
        assume "y = 0"
        then have "x = 2 ^ 0" using y by simp
        then show "\<exists>k. x = 2 ^ k" by blast
      qed
      ultimately show ?thesis using y by simp
    qed
  qed simp
qed

lemma word_and_pred: "n AND (n - 1) = 0 \<longleftrightarrow> unat n = 0 \<or> (\<exists>k. unat n = 2 ^ k)" for n :: "'w::len word"
proof (cases "n = 0")
  case False
  then have "unat (n - 1) = unat n - 1" by (rule unat_minus_one)
  then have "unat (n AND (n - 1)) = unat n AND (unat n - 1)" by (simp add: unsigned_and_eq)
  then show ?thesis by (metis nat_and_pred unsigned_eq_0_iff)
qed simp

lemma IsPowerOfTwo_iff: "IsPowerOfTwo n \<longleftrightarrow> (\<exists>k. n = 2 ^ k)"
proof (cases "n > 0")
  case True
  then obtain x where x: "n = int x" "0 < x" by (metis zero_less_imp_eq_int)
  then have "n - 1 = int (x - 1)" by simp
  then have "n AND (n - 1) = int (x AND (x - 1))" by (simp only: x of_nat_and_eq)
  moreover have "(\<exists>k. n = 2 ^ k) \<longleftrightarrow> (\<exists>k. x = 2 ^ k)" unfolding x by (metis of_nat_eq_iff of_nat_numeral of_nat_power)
  ultimately show ?thesis using nat_and_pred [of x] x by (simp add: IsPowerOfTwo_def)
next
  case False
  then show ?thesis by (auto simp: IsPowerOfTwo_def)
qed

lemma popcount_card: "popcount n = card {i. bit n i}" for n :: "'w::len word"
proof -
  have "popcount n = card (set (filter (bit n) [0..<LENGTH('w)]))"
    unfolding popcount_def by (rule distinct_card [symmetric]) simp
  also have "set (filter (bit n) [0..<LENGTH('w)]) = {i. bit n i}" using bit_imp_le_length by auto
  finally show ?thesis .
qed

lemma IsPowerOfTwo_unsigned_iff: "IsPowerOfTwo_unsigned n \<longleftrightarrow> (\<exists>k. unat n = 2 ^ k)" for n :: "'w::len word"
proof
  assume "IsPowerOfTwo_unsigned n"
  then obtain k where k: "{i. bit n i} = {k}"
    by (auto simp: IsPowerOfTwo_unsigned_def popcount_card card_1_singleton_iff)
  then have "bit n k" by auto
  have "bit (unat n) i \<longleftrightarrow> bit (2 ^ k :: nat) i" for i
    using k by (auto simp: bit_unsigned_iff bit_exp_iff)
  then show "\<exists>k. unat n = 2 ^ k" using bit_eqI [of "unat n"] by blast
next
  assume "\<exists>k. unat n = 2 ^ k"
  then obtain k where k: "unat n = 2 ^ k" by blast
  have "bit n i \<longleftrightarrow> bit (unat n) i" for i by (simp add: bit_unsigned_iff)
  then have "{i. bit n i} = {k}" unfolding k by (auto simp: bit_exp_iff)
  then show "IsPowerOfTwo_unsigned n" by (simp add: IsPowerOfTwo_unsigned_def popcount_card)
qed

section \<open>Logarithms\<close>

definition is_floor_log :: "nat \<Rightarrow> int \<Rightarrow> bool" where
  "is_floor_log v L \<longleftrightarrow> (if v = 0 then L = - 1 else 0 \<le> L \<and> 2 ^ nat L \<le> v \<and> v < 2 ^ Suc (nat L))"

definition is_ceiling_log :: "nat \<Rightarrow> int \<Rightarrow> bool" where
  "is_ceiling_log v L \<longleftrightarrow> (if v = 0 then L = - 1 else 0 \<le> L \<and> v \<le> 2 ^ nat L \<and> (\<forall>k < nat L. 2 ^ k < v))"

lemma bit_width_log: "is_floor_log (unat n) (int (bit_width n) - 1)"
proof (cases "unat n = 0")
  case True
  then show ?thesis by (simp add: is_floor_log_def bit_width_def nat_bit_width.simps [of 0])
next
  case False
  then obtain k where k: "nat_bit_width (unat n) = Suc k" by (simp add: nat_bit_width.simps [of "unat n"])
  then have "\<not> unat n < 2 ^ k" "unat n < 2 ^ Suc k"
    using nat_bit_width_le [of "unat n" k] nat_bit_width_le [of "unat n" "Suc k"] by simp_all
  then show ?thesis using False k by (simp add: is_floor_log_def bit_width_def)
qed

lemma ceiling_of_floor:
  assumes "is_floor_log (unat n) L"
  shows "is_ceiling_log (unat n) (if n AND (n - 1) = 0 then L else L + 1)"
proof (cases "unat n = 0")
  case True
  then show ?thesis using assms by (simp add: is_floor_log_def is_ceiling_log_def word_and_pred)
next
  case False
  note L = assms [unfolded is_floor_log_def, simplified False, simplified]
  show ?thesis
  proof (cases "n AND (n - 1) = 0")
    case True
    then obtain k where k: "unat n = 2 ^ k" using False by (auto simp: word_and_pred)
    then have "nat L = k" using L power_less_imp_less_exp [of "2 :: nat" k "Suc (nat L)"]
      power_le_imp_le_exp [of "2 :: nat" "nat L" k] by simp
    then show ?thesis using True False L k by (simp add: is_ceiling_log_def)
  next
    case False2: False
    then have "unat n \<noteq> 2 ^ k" for k by (auto simp: word_and_pred)
    then have "unat n \<noteq> 2 ^ nat L" .
    then have "2 ^ nat L < unat n" using L by linarith
    moreover have "(2 :: nat) ^ k \<le> 2 ^ nat L" if "k < Suc (nat L)" for k using that by (simp add: less_Suc_eq_le)
    ultimately have "2 ^ k < unat n" if "k < Suc (nat L)" for k using that le_less_trans by blast
    then show ?thesis using False False2 L by (simp add: is_ceiling_log_def nat_add_distrib)
  qed
qed

lemma unat_halves: "unat n = unat (Uint128Low64 n) + 2 ^ 64 * unat (Uint128High64 n)"
proof -
  have "unat (Uint128Low64 n) = unat n mod 2 ^ 64"
    by (simp add: Uint128Low64_def unsigned_ucast_eq take_bit_eq_mod)
  moreover have "unat n div 2 ^ 64 < 2 ^ 64"
    using unsigned_less [of n, where ?'a = nat] by (simp add: less_mult_imp_div_less)
  then have "unat (Uint128High64 n) = unat n div 2 ^ 64"
    by (simp add: Uint128High64_def unsigned_ucast_eq take_bit_eq_mod unat_drop_bit_div)
  ultimately show ?thesis by (metis mod_mult_div_eq)
qed

lemma bit_width_halves:
  "bit_width n = (if Uint128High64 n \<noteq> 0 then 64 + bit_width (Uint128High64 n) else bit_width (Uint128Low64 n))"
proof (cases "Uint128High64 n = 0")
  case True
  then show ?thesis using unat_halves [of n] by (simp add: bit_width_def)
next
  case False
  have "unat (Uint128Low64 n) < 2 ^ 64" using unsigned_less [of "Uint128Low64 n", where ?'a = nat] by simp
  then have "unat n div 2 ^ 64 = unat (Uint128High64 n)" unfolding unat_halves [of n] by (simp only: div_mult_self2) simp
  then have "nat_bit_width (unat (Uint128High64 n)) = nat_bit_width (unat n) - 64"
    using nat_bit_width_div [of "unat n" 64] by simp
  moreover have "0 < nat_bit_width (unat (Uint128High64 n))"
    using bit_width_spec(3) [OF False] by (simp add: bit_width_def)
  ultimately show ?thesis using False by (simp add: bit_width_def)
qed

lemma Log2Floor128_eq: "Log2Floor128 n = int (bit_width n) - 1" "Log2FloorNonZero128 n = int (bit_width n) - 1"
  unfolding bit_width_halves [of n]
  by (simp_all add: Log2Floor128_def Log2FloorNonZero128_def Log2FloorNonZero64_def Let_def)

lemma floor_logs:
  "is_floor_log (unat a) (Log2Floor a)" "is_floor_log (unat b) (Log2Floor64 b)" "is_floor_log (unat c) (Log2Floor128 c)"
  "is_floor_log (unat a) (Log2FloorNonZero a)" "is_floor_log (unat b) (Log2FloorNonZero64 b)"
  "is_floor_log (unat c) (Log2FloorNonZero128 c)"
  using bit_width_log [of a] bit_width_log [of b] bit_width_log [of c]
  by (simp_all add: Log2Floor_def Log2Floor64_def Log2FloorNonZero_def Log2FloorNonZero64_def Log2Floor128_eq)

lemma ceiling_logs:
  "is_ceiling_log (unat a) (Log2Ceiling a)" "is_ceiling_log (unat b) (Log2Ceiling64 b)"
  "is_ceiling_log (unat c) (Log2Ceiling128 c)"
  using ceiling_of_floor [OF bit_width_log, of a] ceiling_of_floor [OF bit_width_log, of b]
    ceiling_of_floor [OF floor_logs(3), of c]
  by (simp_all add: Log2Ceiling_def Log2Ceiling64_def Log2Ceiling128_def Let_def)

section \<open>Counting bits\<close>

lemma bit_halves: "bit n i \<longleftrightarrow> (if i < 64 then bit (Uint128Low64 n) i else bit (Uint128High64 n) (i - 64))"
proof (cases "i < 128")
  case True
  then show ?thesis by (auto simp: Uint128Low64_def Uint128High64_def bit_simps)
next
  case False
  then show ?thesis using bit_imp_le_length [of n i] bit_imp_le_length [of "Uint128High64 n" "i - 64"] by auto
qed

lemma CountOnes128_card: "CountOnes128 n = card {i. bit n i}"
proof -
  let ?l = "{i. bit (Uint128Low64 n) i}" and ?h = "{i. bit (Uint128High64 n) i}"
  have b: "?l \<subseteq> {..<64}" "?h \<subseteq> {..<64}" using bit_imp_le_length by fastforce+
  then have "finite ?l" "finite ?h" by (auto intro: finite_subset)
  moreover have "{i. bit n i} = ?l \<union> (+) 64 ` ?h"
  proof (rule set_eqI)
    fix i show "i \<in> {i. bit n i} \<longleftrightarrow> i \<in> ?l \<union> (+) 64 ` ?h"
      using b unfolding mem_Collect_eq bit_halves [of n i]
      by (cases "i < 64") (auto simp: image_iff intro: exI [of _ "i - 64"])
  qed
  moreover have "?l \<inter> (+) 64 ` ?h = {}" using b by auto
  ultimately show ?thesis by (simp add: CountOnes128_def popcount_card card_Un_disjoint card_image)
qed

lemma CountLeadingZeros128_eq: "CountLeadingZeros128 n = 128 - bit_width n"
proof -
  have "bit_width (Uint128Low64 n) \<le> 64" "bit_width (Uint128High64 n) \<le> 64"
    using unsigned_less [of "Uint128Low64 n", where ?'a = nat] unsigned_less [of "Uint128High64 n", where ?'a = nat]
    by (simp_all add: bit_width_def nat_bit_width_le)
  then show ?thesis unfolding bit_width_halves [of n]
    by (simp add: CountLeadingZeros128_def countl_zero_def Let_def)
qed

lemma lowest_bit128:
  assumes "n \<noteq> 0"
  shows "bit n (FindLSBSetNonZero128 n) \<and> (\<forall>j < FindLSBSetNonZero128 n. \<not> bit n j)"
proof (cases "Uint128Low64 n = 0")
  case True
  then have "Uint128High64 n \<noteq> 0" using assms unat_halves [of n] by (metis unsigned_eq_0_iff add_0 mult_0_right)
  note h = countr_zero_spec [OF this]
  show ?thesis
    using True h(1) h(3) bit_halves [of n] by (auto simp: FindLSBSetNonZero128_def FindLSBSetNonZero64_def)
next
  case False
  note l = countr_zero_spec [OF this]
  then show ?thesis
    using False l bit_halves [of n] by (auto simp: FindLSBSetNonZero128_def FindLSBSetNonZero64_def)
qed

lemma lowest_bits:
  assumes "a \<noteq> 0" "b \<noteq> 0"
  shows "bit a (FindLSBSetNonZero a) \<and> (\<forall>j < FindLSBSetNonZero a. \<not> bit a j)"
    and "bit b (FindLSBSetNonZero64 b) \<and> (\<forall>j < FindLSBSetNonZero64 b. \<not> bit b j)"
  using countr_zero_spec [OF assms(1)] countr_zero_spec [OF assms(2)]
  by (auto simp: FindLSBSetNonZero_def FindLSBSetNonZero64_def)

text \<open>The bits of a word are those of its bytes.\<close>

lemma popcount_bytes:
  fixes w :: "'w::len word"
  assumes "LENGTH('w) = 8 * n"
  shows "popcount w = sum_list (map popcount (le_bytes n w))"
proof -
  have "length (filter (bit w) [0..<8 * k]) = sum_list (map popcount (le_bytes k w))" for k
  proof (induction k)
    case (Suc k)
    have "[0..<8 * Suc k] = [0..<8 * k] @ map ((+) (8 * k)) [0..<8]"
      by (rule nth_equalityI) (auto simp: nth_append)
    moreover have "length (filter (bit w) (map ((+) (8 * k)) [0..<8])) = popcount (ucast (drop_bit (8 * k) w) :: u8)"
    proof -
      have "filter (\<lambda>i. bit w (8 * k + i)) [0..<8] = filter (bit (ucast (drop_bit (8 * k) w) :: u8)) [0..<8]"
        by (rule filter_cong) (auto simp: bit_simps)
      then show ?thesis by (simp add: filter_map popcount_def comp_def)
    qed
    ultimately show ?case using Suc by (simp add: le_bytes_def)
  qed (simp add: le_bytes_def)
  then show ?thesis by (simp add: popcount_def assms)
qed

lemma le_bytes_xor: "le_bytes n (v XOR w) = map2 (XOR) (le_bytes n v) (le_bytes n w)"
proof -
  have "(ucast (drop_bit k (v XOR w)) :: u8) = ucast (drop_bit k v) XOR ucast (drop_bit k w)" for k
    by (rule bit_word_eqI) (auto simp: bit_simps)
  then show ?thesis by (simp add: le_bytes_def map2_map_map)
qed

definition hamming :: "mem \<Rightarrow> addr \<Rightarrow> addr \<Rightarrow> nat \<Rightarrow> nat" where
  "hamming m s1 s2 k = (\<Sum>i<k. popcount (m (s1 + i) XOR m (s2 + i)))"

lemma hamming_add: "hamming m s1 s2 (j + k) = hamming m s1 s2 j + hamming m (s1 + j) (s2 + j) k"
  by (induction k) (simp_all add: hamming_def add.assoc)

lemma popcount_loaded:
  "popcount ((UnalignedLoad h m s1 :: u64) XOR UnalignedLoad h m s2) = hamming m s1 s2 8"
proof -
  have b: "le_bytes 8 (UnalignedLoad h m s :: u64) = host_order h (load_bytes m s 8)" for s
    unfolding UnalignedLoad_def by (subst le_bytes_le_word) simp_all
  have "map2 (XOR) (host_order h (load_bytes m s1 8)) (host_order h (load_bytes m s2 8)) =
      host_order h (map2 (XOR) (load_bytes m s1 8) (load_bytes m s2 8))"
    by (cases h) (simp_all add: zip_rev rev_map)
  moreover have "sum_list (map f (host_order h xs)) = sum_list (map f xs)" for f :: "u8 \<Rightarrow> nat" and xs
    by (cases h) (simp_all add: rev_map [symmetric] sum_list_rev)
  moreover have "sum_list (map popcount (map2 (XOR) (load_bytes m s1 8) (load_bytes m s2 8))) = hamming m s1 s2 8"
    by (simp add: load_bytes_def hamming_def map2_map_map comp_def interv_sum_list_conv_sum_set_nat atLeast0LessThan)
  ultimately show ?thesis using popcount_bytes [of 8 "UnalignedLoad h m s1 XOR UnalignedLoad h m s2 :: u64"]
    by (simp add: le_bytes_xor b)
qed

lemma Count_loop_eq: "Count_loop m s k nbits = nbits + int (\<Sum>i<k. popcount (m (s + i)))"
  by (induction k arbitrary: s nbits) (simp_all add: sum.lessThan_Suc_shift del: sum.lessThan_Suc)

lemma hamming_Suc: "hamming m s1 s2 (Suc k) = popcount (m s1 XOR m s2) + hamming m (s1 + 1) (s2 + 1) k"
  using hamming_add [of m s1 s2 1 k] by (simp add: hamming_def)

lemma Difference8_loop_eq: "Difference8_loop m s1 s2 k nbits = nbits + int (hamming m s1 s2 k)"
  by (induction k arbitrary: s1 s2 nbits) (simp_all add: hamming_Suc hamming_def [of _ _ _ 0])

lemma Difference64_loop_eq: "Difference64_loop h m s1 s2 k nbits = nbits + int (hamming m s1 s2 (8 * k))"
proof (induction k arbitrary: s1 s2 nbits)
  case (Suc k)
  have "hamming m s1 s2 (8 * Suc k) = hamming m s1 s2 8 + hamming m (s1 + 8) (s2 + 8) (8 * k)"
    using hamming_add [of m s1 s2 8 "8 * k"] by simp
  then show ?case using Suc by (simp add: popcount_loaded)
qed (simp add: hamming_def)

lemma Difference_eq: "Bits_Difference h m s1 s2 n = int (hamming m s1 s2 (nat n))"
proof (cases "n mod 8 = 0")
  case True
  then have "8 * (n div 8) = n" by presburger
  then have "8 * nat (n div 8) = nat n" by (metis nat_mult_distrib nat_numeral zero_le_numeral)
  with True show ?thesis by (simp add: Bits_Difference_def Difference64_loop_eq)
next
  case False
  then show ?thesis by (simp add: Bits_Difference_def Difference8_loop_eq)
qed

lemma CappedDifference_loop_eq:
  "nbits \<le> CappedDifference_loop m s1 s2 k cap nbits \<and>
   CappedDifference_loop m s1 s2 k cap nbits \<le> nbits + int (hamming m s1 s2 k) \<and>
   (CappedDifference_loop m s1 s2 k cap nbits \<le> cap \<longrightarrow>
     CappedDifference_loop m s1 s2 k cap nbits = nbits + int (hamming m s1 s2 k))"
proof (induction k arbitrary: s1 s2 nbits)
  case (Suc k)
  show ?case using Suc [of "nbits + int (popcount (m s1 XOR m s2))" "s1 + 1" "s2 + 1"]
    by (auto simp: hamming_Suc)
qed (simp add: hamming_def)

lemma hamming_bound: "hamming m s1 s2 k \<le> 8 * k"
proof (induction k)
  case (Suc k)
  have "popcount w \<le> 8" for w :: u8 using length_filter_le [of "bit w" "[0..<8]"] by (simp add: popcount_def)
  from this [of "m (s1 + k) XOR m (s2 + k)"] show ?case using Suc by (simp add: hamming_def)
qed (simp add: hamming_def)

section \<open>Fields\<close>

lemma bit_NBitsFromLSB: "nbits \<le> LENGTH('w) \<Longrightarrow> bit (NBitsFromLSB nbits :: 'w::len word) i \<longleftrightarrow> i < nbits"
  by (auto simp: NBitsFromLSB_def bit_simps)

lemma bit_Bits_GetBits:
  fixes src :: "'w::len word"
  assumes "offset + nbits \<le> LENGTH('w)"
  shows "bit (Bits_GetBits bmi src offset nbits) i \<longleftrightarrow> i < nbits \<and> bit src (offset + i)"
proof (cases "bmi \<and> LENGTH('w) \<in> {32, 64}")
  case True
  then have "offset mod 256 = offset" "nbits mod 256 = nbits" using assms by auto
  with True show ?thesis by (auto simp: Bits_GetBits_def GetBitsImpl_def bextr_def bit_simps)
next
  case False
  then show ?thesis using assms
    by (auto simp: Bits_GetBits_def GetBitsImpl_def bit_and_iff bit_drop_bit_eq bit_NBitsFromLSB)
qed

lemma bit_SetBits:
  fixes dest :: "'w::len word"
  assumes "offset + nbits \<le> LENGTH('w)"
  shows "bit (SetBits value offset nbits dest) i \<longleftrightarrow>
    (if offset \<le> i \<and> i < offset + nbits then bit value (i - offset) else bit dest i)"
proof (cases "i < LENGTH('w)")
  case True
  have "nbits \<le> LENGTH('w)" using assms by simp
  note n = bit_NBitsFromLSB [OF this]
  show ?thesis using True
    by (auto simp: SetBits_def Let_def bit_and_iff bit_or_iff bit_not_iff bit_push_bit_iff n possible_bit_word)
next
  case False
  then show ?thesis using assms bit_imp_le_length [of _ i, where ?'a = 'w] by auto
qed

lemma GetLowBits_eq:
  fixes src :: "'w::len word"
  assumes "nbits \<le> LENGTH('w)"
  shows "GetLowBits bmi bmi2 src nbits = Bits_GetBits bmi src 0 nbits"
proof (rule bit_word_eqI)
  fix i assume "i < LENGTH('w)"
  have "nbits mod 256 = nbits" if "LENGTH('w) \<in> {32, 64}" using assms that by auto
  then show "bit (GetLowBits bmi bmi2 src nbits) i \<longleftrightarrow> bit (Bits_GetBits bmi src 0 nbits) i"
    using bit_Bits_GetBits [of 0 nbits bmi src i] assms
    by (auto simp: GetLowBits_def GetLowBitsImpl_def bzhi_def bit_take_bit_iff Bits_GetBits_def)
qed

section \<open>Properties\<close>

text \<open>
  Logarithms, powers of two and counts.  The floor functions give the exponent of the greatest
  power of two not above the number, the ceiling functions that of the least power not below it, and \<open>-1\<close> for
  zero, for 32, 64 and 128 bits; \<open>IsPowerOfTwo\<close> is that; \<open>CountOnes128\<close> counts the bits, \<open>CountLeadingZeros128\<close>
  the zeros above the highest one, and \<open>FindLSBSetNonZero\<close> finds the lowest one.
\<close>

theorem Bits_logarithms:
  fixes a :: u32 and b :: u64 and c :: u128 and w :: "'w::len word"
  shows
   "is_floor_log (unat a) (Log2Floor a) \<and> is_floor_log (unat b) (Log2Floor64 b) \<and>
    is_floor_log (unat c) (Log2Floor128 c) \<and> is_floor_log (unat c) (Log2FloorNonZero128 c) \<and>
    is_ceiling_log (unat a) (Log2Ceiling a) \<and> is_ceiling_log (unat b) (Log2Ceiling64 b) \<and>
    is_ceiling_log (unat c) (Log2Ceiling128 c) \<and>
    (IsPowerOfTwo n \<longleftrightarrow> (\<exists>k. n = 2 ^ k)) \<and> (IsPowerOfTwo_unsigned w \<longleftrightarrow> (\<exists>k. unat w = 2 ^ k)) \<and>
    CountOnes128 c = card {i. bit c i} \<and> int (CountLeadingZeros128 c) = 127 - Log2Floor128 c \<and>
    (if c = 0 then FindLSBSetNonZero128 c = 128
     else bit c (FindLSBSetNonZero128 c) \<and> list_all (\<lambda>j. \<not> bit c j) [0..<FindLSBSetNonZero128 c])"
proof -
  have "bit_width c \<le> 128" using unsigned_less [of c, where ?'a = nat] by (simp add: bit_width_def nat_bit_width_le)
  then have "int (CountLeadingZeros128 c) = 127 - Log2Floor128 c" by (simp add: CountLeadingZeros128_eq Log2Floor128_eq)
  moreover have "FindLSBSetNonZero128 0 = 128" by code_simp
  ultimately show ?thesis
    using lowest_bit128 [of c]
    by (simp add: floor_logs ceiling_logs IsPowerOfTwo_iff IsPowerOfTwo_unsigned_iff CountOnes128_card list_all_iff)
qed

text \<open>
  \<open>Difference\<close> is the Hamming distance of the byte sequences, whether it goes by bytes or, for a
  multiple of eight, by 64-bit words, on machines of either byte order; \<open>Count\<close> is the number of ones; both are at
  most eight times the length.  \<open>CappedDifference\<close> is exact up to the cap, and above it neither falls to the cap
  nor exceeds the distance.
\<close>

theorem Bits_differences:
  "Bits_Difference h m s1 s2 n = int (\<Sum>i<nat n. card {j. bit (m (s1 + i)) j \<noteq> bit (m (s2 + i)) j}) \<and>
   Bits_Difference h m s1 s2 n \<le> 8 * max 0 n \<and>
   Bits_Count m s n = int (\<Sum>i<nat n. card {j. bit (m (s + i)) j}) \<and>
   (if Bits_Difference h m s1 s2 n \<le> cap then CappedDifference m s1 s2 n cap = Bits_Difference h m s1 s2 n
    else cap < CappedDifference m s1 s2 n cap \<and> CappedDifference m s1 s2 n cap \<le> Bits_Difference h m s1 s2 n)"
proof -
  have x: "card {j. bit (v :: u8) j \<noteq> bit w j} = popcount (v XOR w)" for v w by (simp add: popcount_card bit_xor_iff)
  have "hamming m s1 s2 (nat n) \<le> 8 * nat n" by (rule hamming_bound)
  then have "int (hamming m s1 s2 (nat n)) \<le> 8 * max 0 n" by (cases "0 \<le> n") simp_all
  then show ?thesis
    using CappedDifference_loop_eq [of 0 m s1 s2 "nat n" cap]
    unfolding x Difference_eq CappedDifference_def hamming_def [symmetric] Bits_Count_def
    by (simp add: Count_loop_eq popcount_card) linarith
qed

text \<open>
  Fields of bits, with and without the instructions of BMI: \<open>GetBits\<close> reads the bits at
  \<open>offset\<close>, \<open>SetBits\<close> replaces exactly those, \<open>CopyBits\<close> moves a field between words of any two widths, and what
  was set is got back; \<open>GetLowBits\<close> is \<open>GetBits\<close> at offset zero.
\<close>

theorem Bits_fields:
  fixes src :: "'s::len word" and dest :: "'d::len word"
  assumes "src_offset + nbits \<le> LENGTH('s)" and "dest_offset + nbits \<le> LENGTH('d)"
  shows
   "(bit (Bits_GetBits bmi src src_offset nbits) i \<longleftrightarrow> i < nbits \<and> bit src (src_offset + i)) \<and>
    (bit (CopyBits bmi dest dest_offset src src_offset nbits) i \<longleftrightarrow>
      (if dest_offset \<le> i \<and> i < dest_offset + nbits then bit src (src_offset + (i - dest_offset)) else bit dest i)) \<and>
    Bits_GetBits bmi (SetBits value dest_offset nbits dest) dest_offset nbits = take_bit nbits value \<and>
    SetBits (Bits_GetBits bmi dest dest_offset nbits) dest_offset nbits dest = dest \<and>
    GetLowBits bmi bmi2 src nbits = take_bit nbits src"
proof -
  note get = bit_Bits_GetBits [OF assms(1)] bit_Bits_GetBits [OF assms(2)] and set = bit_SetBits [OF assms(2)]
  have "bit (CopyBits bmi dest dest_offset src src_offset nbits) i \<longleftrightarrow>
      (if dest_offset \<le> i \<and> i < dest_offset + nbits then bit src (src_offset + (i - dest_offset)) else bit dest i)"
    using assms(2) by (auto simp: CopyBits_def set bit_ucast_iff get)
  moreover have "Bits_GetBits bmi (SetBits value dest_offset nbits dest) dest_offset nbits = take_bit nbits value"
    using assms(2) by (intro bit_word_eqI) (auto simp: get set bit_take_bit_iff)
  moreover have "SetBits (Bits_GetBits bmi dest dest_offset nbits) dest_offset nbits dest = dest"
    by (rule bit_word_eqI) (auto simp: get set)
  moreover have "GetLowBits bmi bmi2 src nbits = take_bit nbits src"
  proof -
    have "nbits \<le> LENGTH('s)" using assms(1) by simp
    then show ?thesis
      using bit_Bits_GetBits [of 0 nbits bmi src] by (intro bit_word_eqI) (auto simp: GetLowBits_eq bit_take_bit_iff)
  qed
  ultimately show ?thesis using get(1) by blast
qed

theorem Bits_fields_witness:
  "CopyBits True (0xff00 :: u16) 4 (0xabcd :: u32) 8 8 = 0xfab0"
proof -
  have v: "\<forall>i \<in> set [0..<16]. (if 4 \<le> i \<and> i < 4 + 8 then bit (0xabcd :: u32) (8 + (i - 4)) else bit (0xff00 :: u16) i) \<longleftrightarrow>
      bit (0xfab0 :: u16) i" by code_simp
  have "bit (CopyBits True (0xff00 :: u16) 4 (0xabcd :: u32) 8 8) i \<longleftrightarrow>
      (if 4 \<le> i \<and> i < 4 + 8 then bit (0xabcd :: u32) (8 + (i - 4)) else bit (0xff00 :: u16) i)" for i
    by (rule Bits_fields [of 8 8 4 True, THEN conjunct2, THEN conjunct1]) simp_all
  then show ?thesis using v by (intro bit_word_eqI) simp
qed

end
