(* ===== verification/TwoValuesVarint_Proofs.thy ===== *)
theory TwoValuesVarint_Proofs
  imports TwoValuesVarint Varint_Codec Bits_Proofs
begin

text \<open>
  Pairs of values in one varint: the decoders equal a varint scan followed by taking the nibbles apart,
  the encoders print the interleaved number, and what they print is read back.
\<close>

section \<open>Interleaving nibbles\<close>

function interleave :: "nat \<Rightarrow> nat \<Rightarrow> nat" where
  "interleave a b =
    (if a = 0 \<and> b = 0 then 0 else a mod 16 + 16 * (b mod 16) + 256 * interleave (a div 16) (b div 16))"
  by pat_completeness auto

termination interleave
  by (relation "measure (\<lambda>(a, b). a + b)") (auto intro: add_less_le_mono add_le_less_mono)

fun low_nibbles :: "nat \<Rightarrow> nat" where
  "low_nibbles v = (if v = 0 then 0 else v mod 16 + 16 * low_nibbles (v div 256))"

definition high_nibbles :: "nat \<Rightarrow> nat" where
  "high_nibbles v = low_nibbles (v div 16)"

declare interleave.simps [simp del] low_nibbles.simps [simp del]

lemma interleave_step: "interleave a b = a mod 16 + 16 * (b mod 16) + 256 * interleave (a div 16) (b div 16)"
  by (subst interleave.simps) (simp add: interleave.simps)

lemma low_nibbles_step: "low_nibbles v = v mod 16 + 16 * low_nibbles (v div 256)"
  by (subst low_nibbles.simps) (simp add: low_nibbles.simps)

lemma high_nibbles_step: "high_nibbles v = v div 16 mod 16 + 16 * high_nibbles (v div 256)"
  unfolding high_nibbles_def
  by (subst low_nibbles_step) (simp add: div_mult2_eq [symmetric])

lemma nibble_parts:
  assumes "x < 16" and "y < (16 :: nat)"
  shows "(x + 16 * y + 256 * i) mod 16 = x" "(x + 16 * y + 256 * i) div 16 mod 16 = y"
    "(x + 16 * y + 256 * i) div 256 = i"
proof -
  have n: "x + 16 * y + 256 * i = x + 16 * (y + 16 * i)" by simp
  show "(x + 16 * y + 256 * i) mod 16 = x" unfolding n mod_mult_self2 using assms by simp
  have d: "(x + 16 * y + 256 * i) div 16 = y + 16 * i"
    unfolding n by (subst div_mult_self2) (use assms in simp_all)
  show "(x + 16 * y + 256 * i) div 16 mod 16 = y" unfolding d mod_mult_self2 using assms by simp
  have "(x + 16 * y + 256 * i) div (16 * 16) = i"
    unfolding div_mult2_eq d by (subst div_mult_self2) (use assms in simp_all)
  then show "(x + 16 * y + 256 * i) div 256 = i" by simp
qed

lemma interleave_parts: "interleave a b mod 16 = a mod 16" "interleave a b div 16 mod 16 = b mod 16"
  "interleave a b div 256 = interleave (a div 16) (b div 16)"
  by (subst (1) interleave_step; rule nibble_parts; simp)+

lemma low_nibbles_interleave: "low_nibbles (interleave a b) = a"
proof (induction a b rule: interleave.induct)
  case (1 a b)
  then show ?case
    by (cases "a = 0 \<and> b = 0")
      (simp_all add: interleave.simps [of 0 0] low_nibbles.simps [of 0]
        low_nibbles_step [of "interleave a b"] interleave_parts)
qed

lemma high_nibbles_interleave: "high_nibbles (interleave a b) = b"
proof (induction a b rule: interleave.induct)
  case (1 a b)
  then show ?case
    by (cases "a = 0 \<and> b = 0")
      (simp_all add: interleave.simps [of 0 0] high_nibbles_def [of 0] low_nibbles.simps [of 0]
        high_nibbles_step [of "interleave a b"] interleave_parts)
qed

lemma interleave_bound: "a < 16 ^ n \<Longrightarrow> b < 16 ^ n \<Longrightarrow> interleave a b < 256 ^ n"
proof (induction n arbitrary: a b)
  case 0
  then show ?case by (simp add: interleave.simps)
next
  case (Suc n)
  then have "interleave (a div 16) (b div 16) < 256 ^ n" by (simp add: less_mult_imp_div_less mult.commute)
  moreover have "a mod 16 + 16 * (b mod 16) < 256" by (rule less_le_trans [of _ "16 + 16 * 15"]) (simp_all add: add_less_le_mono)
  ultimately show ?case by (subst interleave_step) simp
qed

text \<open>The halves of two numbers are interleaved separately.\<close>

lemma interleave_halves: 
  "interleave a b = interleave (a mod 16 ^ n) (b mod 16 ^ n) + 256 ^ n * interleave (a div 16 ^ n) (b div 16 ^ n)"
proof (induction n arbitrary: a b)
  case 0
  then show ?case by (simp add: interleave.simps [of 0])
next
  case (Suc n)
  have "interleave a b = a mod 16 + 16 * (b mod 16) + 256 * interleave (a div 16) (b div 16)"
    by (rule interleave_step)
  also have "interleave (a div 16) (b div 16) = interleave (a div 16 mod 16 ^ n) (b div 16 mod 16 ^ n) +
      256 ^ n * interleave (a div 16 div 16 ^ n) (b div 16 div 16 ^ n)"
    by (rule Suc.IH)
  finally show ?case
    using interleave_step [of "a mod 16 ^ Suc n" "b mod 16 ^ Suc n"]
    by (simp add: div_mult2_eq mod_mult2_eq algebra_simps)
qed

section \<open>Positions of bits\<close>

text \<open>Where bit \<open>n\<close> of the first and of the second number goes.\<close>

definition low_pos :: "nat \<Rightarrow> nat" where
  "low_pos n = n + 4 * (n div 4)"

definition high_pos :: "nat \<Rightarrow> nat" where
  "high_pos n = low_pos n + 4"

lemma bit_below: "V < 2 ^ x \<Longrightarrow> bit (V :: nat) n \<Longrightarrow> n < x"
  by (metis bit_take_bit_iff take_bit_nat_eq_self)

lemma bit_add_digit:
  assumes "V < 2 ^ x"
  shows "bit (V + D * 2 ^ x :: nat) y \<longleftrightarrow> (if y < x then bit V y else bit D (y - x))"
proof -
  have "V AND push_bit x D = 0" by (auto simp: bit_eq_iff bit_simps dest: bit_below [OF assms])
  then have "V + push_bit x D = V OR push_bit x D" by (rule disjunctive_add_eq_or)
  moreover have "push_bit x D = D * 2 ^ x" by (simp add: push_bit_eq_mult)
  ultimately have "bit (V + D * 2 ^ x) y \<longleftrightarrow> bit (V OR push_bit x D) y" by simp
  also have "\<dots> \<longleftrightarrow> (if y < x then bit V y else bit D (y - x))"
    by (auto simp: bit_simps dest: bit_below [OF assms])
  finally show ?thesis .
qed

lemma bit_low_nibbles: "bit (low_nibbles v) n \<longleftrightarrow> bit v (low_pos n)"
proof (induction v arbitrary: n rule: low_nibbles.induct)
  case (1 v)
  show ?case
  proof (cases "v = 0")
    case False
    have "low_nibbles v = v mod 16 + low_nibbles (v div 256) * 2 ^ 4" by (subst low_nibbles_step) simp
    then have "bit (low_nibbles v) n \<longleftrightarrow> (if n < 4 then bit (v mod 16) n else bit (low_nibbles (v div 256)) (n - 4))"
      using bit_add_digit [of "v mod 16" 4 "low_nibbles (v div 256)" n] by simp
    also have "bit (v mod 16) n \<longleftrightarrow> n < 4 \<and> bit v n"
      using bit_take_bit_iff [of 4 v n] by (simp add: take_bit_eq_mod)
    also have "bit (low_nibbles (v div 256)) (n - 4) \<longleftrightarrow> bit v (8 + low_pos (n - 4))"
      using 1 [OF False] bit_drop_bit_eq [of 8 v] by (simp add: drop_bit_eq_div comp_def)
    finally show ?thesis
      by (cases "n < 4") (simp_all add: low_pos_def le_div_geq ac_simps)
  qed (simp add: low_nibbles.simps)
qed

lemma bit_high_nibbles: "bit (high_nibbles v) n \<longleftrightarrow> bit v (high_pos n)"
  using bit_drop_bit_eq [of 4 v]
  by (simp add: high_nibbles_def bit_low_nibbles high_pos_def drop_bit_eq_div comp_def add.commute)

text \<open>
  After \<open>k\<close> digits of seven bits, that is below position \<open>7 * k\<close>: how many bits of each number.
\<close>

definition low_count :: "nat \<Rightarrow> nat" where
  "low_count k = 28 * (k div 8) + (if k mod 8 < 4 then 4 * (k mod 8) else 16 + 3 * (k mod 8 - 4))"

definition high_count :: "nat \<Rightarrow> nat" where
  "high_count k = 28 * (k div 8) + (if k mod 8 < 4 then 3 * (k mod 8) else 12 + 4 * (k mod 8 - 4))"

lemma pos_28: "low_pos (28 * q + r) = 56 * q + low_pos r"
proof -
  have "(r + 4 * (7 * q)) div 4 = 7 * q + r div 4" by (rule div_mult_self2) simp
  then show ?thesis by (simp add: low_pos_def add.commute)
qed

lemma mod_8_cases: "k mod 8 = 0 \<or> k mod 8 = 1 \<or> k mod 8 = 2 \<or> k mod 8 = 3 \<or> k mod 8 = 4 \<or>
    k mod 8 = 5 \<or> k mod 8 = 6 \<or> k mod 8 = (7::nat)"
  by presburger

lemma digit_split: "7 * k = 56 * (k div 8) + 7 * (k mod 8)" for k :: nat
  by presburger

text \<open>Where the seven bits of the next digit belong, for each of its eight phases.\<close>

lemma phases: "\<forall>j \<in> set [0..<8]. \<forall>i \<in> set [0..<4].
    (j < 4 \<longrightarrow> low_pos (4 * j + i) = 7 * j + (j mod 4 + i) \<and>
      (i < 3 \<longrightarrow> high_pos (3 * j + i) = 7 * j + (if i < j mod 4 then i else 4 + i))) \<and>
    (\<not> j < 4 \<longrightarrow> high_pos (12 + 4 * (j - 4) + i) = 7 * j + (j mod 4 + i) \<and>
      (i < 3 \<longrightarrow> low_pos (16 + 3 * (j - 4) + i) = 7 * j + (if i < j mod 4 then i else 4 + i)))"
  by code_simp

lemma phase:
  assumes "i < 4"
  shows "k mod 8 < 4 \<Longrightarrow> low_pos (4 * (k mod 8) + i) = 7 * (k mod 8) + (k mod 4 + i) \<and>
      (i < 3 \<longrightarrow> high_pos (3 * (k mod 8) + i) = 7 * (k mod 8) + (if i < k mod 4 then i else 4 + i))"
    and "\<not> k mod 8 < 4 \<Longrightarrow> high_pos (12 + 4 * (k mod 8 - 4) + i) = 7 * (k mod 8) + (k mod 4 + i) \<and>
      (i < 3 \<longrightarrow> low_pos (16 + 3 * (k mod 8 - 4) + i) = 7 * (k mod 8) + (if i < k mod 4 then i else 4 + i))"
proof -
  have "k mod 8 \<in> set [0..<8]" "i \<in> set [0..<4]" using assms by simp_all
  moreover have "k mod 8 mod 4 = k mod 4" by (rule mod_mod_cancel) simp
  ultimately show "k mod 8 < 4 \<Longrightarrow> low_pos (4 * (k mod 8) + i) = 7 * (k mod 8) + (k mod 4 + i) \<and>
      (i < 3 \<longrightarrow> high_pos (3 * (k mod 8) + i) = 7 * (k mod 8) + (if i < k mod 4 then i else 4 + i))"
    "\<not> k mod 8 < 4 \<Longrightarrow> high_pos (12 + 4 * (k mod 8 - 4) + i) = 7 * (k mod 8) + (k mod 4 + i) \<and>
      (i < 3 \<longrightarrow> low_pos (16 + 3 * (k mod 8 - 4) + i) = 7 * (k mod 8) + (if i < k mod 4 then i else 4 + i))"
    using phases by metis+
qed

lemma high_pos_28: "high_pos (28 * q + r) = 56 * q + high_pos r"
  by (simp add: high_pos_def pos_28)

lemma low_positions:
  "k mod 8 < 4 \<Longrightarrow> i < 4 \<Longrightarrow> low_pos (low_count k + i) = 7 * k + (k mod 4 + i)"
  "\<not> k mod 8 < 4 \<Longrightarrow> i < 3 \<Longrightarrow> low_pos (low_count k + i) = 7 * k + (if i < k mod 4 then i else 4 + i)"
  unfolding low_count_def digit_split [of k] add.assoc [of "28 * _"] pos_28
  using phase [of i k] by simp_all

lemma high_positions:
  "k mod 8 < 4 \<Longrightarrow> i < 3 \<Longrightarrow> high_pos (high_count k + i) = 7 * k + (if i < k mod 4 then i else 4 + i)"
  "\<not> k mod 8 < 4 \<Longrightarrow> i < 4 \<Longrightarrow> high_pos (high_count k + i) = 7 * k + (k mod 4 + i)"
  unfolding high_count_def digit_split [of k] add.assoc [of "28 * _"] high_pos_28
  using phase [of i k] by simp_all

lemma count_Suc:
  "low_count (Suc k) = low_count k + (if k mod 8 < 4 then 4 else 3)"
  "high_count (Suc k) = high_count k + (if k mod 8 < 4 then 3 else 4)"
  using mod_8_cases [of k] by (auto simp: low_count_def high_count_def mod_Suc div_Suc)

lemma low_pos_mono: "i < j \<Longrightarrow> low_pos i < low_pos j"
  unfolding low_pos_def by (intro add_less_le_mono mult_le_mono2 div_le_mono) simp_all

lemma low_pos_less_iff: "low_pos n < 7 * k \<longleftrightarrow> n < low_count k"
proof
  assume n: "low_pos n < 7 * k"
  have "7 * k \<le> low_pos (low_count k)" using low_positions [of k 0] by (cases "k mod 8 < 4") auto
  then have "\<not> low_count k \<le> n" using n low_pos_mono [of "low_count k" n] by (cases "low_count k = n") auto
  then show "n < low_count k" by simp
next
  assume n: "n < low_count k"
  then obtain k' where k: "k = Suc k'" by (cases k) (auto simp: low_count_def)
  let ?i = "if k' mod 8 < 4 then 3 else 2"
  have "n \<le> low_count k' + ?i" using n by (auto simp: k count_Suc split: if_splits)
  then have "low_pos n \<le> low_pos (low_count k' + ?i)"
    using low_pos_mono [of n "low_count k' + ?i"] by (cases "n = low_count k' + ?i") auto
  also have "\<dots> < 7 * k"
    using low_positions [of k' ?i] mod_less_divisor [of 4 k'] by (auto simp: k)
  finally show "low_pos n < 7 * k" .
qed

lemma high_pos_less_iff: "high_pos n < 7 * k \<longleftrightarrow> n < high_count k"
proof
  assume n: "high_pos n < 7 * k"
  have "7 * k \<le> high_pos (high_count k)" using high_positions [of k 0] by (cases "k mod 8 < 4") auto
  then have "\<not> high_count k \<le> n"
    using n low_pos_mono [of "high_count k" n] by (cases "high_count k = n") (auto simp: high_pos_def)
  then show "n < high_count k" by simp
next
  assume n: "n < high_count k"
  then obtain k' where k: "k = Suc k'" by (cases k) (auto simp: high_count_def)
  let ?i = "if k' mod 8 < 4 then 2 else 3"
  have "n \<le> high_count k' + ?i" using n by (auto simp: k count_Suc split: if_splits)
  then have "high_pos n \<le> high_pos (high_count k' + ?i)"
    using low_pos_mono [of n "high_count k' + ?i"] by (cases "n = high_count k' + ?i") (auto simp: high_pos_def)
  also have "\<dots> < 7 * k"
    using high_positions [of k' ?i] mod_less_divisor [of 4 k'] by (auto simp: k)
  finally show "high_pos n < 7 * k" .
qed

section \<open>Decoding\<close>

text \<open>A word holds the bits of a number that a position function selects.\<close>

definition holds :: "(nat \<Rightarrow> nat) \<Rightarrow> 'w::len word \<Rightarrow> nat \<Rightarrow> bool" where
  "holds pos w V \<longleftrightarrow> (\<forall>n < LENGTH('w). bit w n \<longleftrightarrow> bit V (pos n))"

lemma bit_GetBits: "n \<le> 4 \<Longrightarrow> bit (GetBits byte s n) i \<longleftrightarrow> i < n \<and> bit byte (s + i)"
proof -
  assume "n \<le> 4"
  have "push_bit n 1 - 1 = (mask n :: u32)" by (simp add: mask_eq_decr_exp push_bit_of_1)
  then show ?thesis using \<open>n \<le> 4\<close> by (auto simp: GetBits_def bit_simps dest: bit_imp_le_length)
qed

lemma bit_digit: "bit (unat (B :: u8) mod 128) i \<longleftrightarrow> i < 7 \<and> bit B i"
  using bit_take_bit_iff [of 7 "unat B" i] by (simp add: take_bit_eq_mod bit_unsigned_iff)

lemma bit_byte32: "bit (ucast (B :: u8) :: u32) i \<longleftrightarrow> bit B i"
  by (auto simp: bit_simps dest: bit_imp_le_length)

lemma bit_shifted: "LENGTH('w) \<le> 64 \<Longrightarrow> n < LENGTH('w) \<Longrightarrow>
    bit (ucast (push_bit c (X :: u64)) :: 'w::len word) n \<longleftrightarrow> c \<le> n \<and> bit X (n - c)"
  by (auto simp: bit_simps)

text \<open>The next digit gives four bits to one number and three to the other.\<close>

lemma holds_four:
  fixes w :: "'w::len word"
  assumes "LENGTH('w) \<le> 64" and "holds pos w V" and "V < 2 ^ (7 * k)" and "s < 4"
    and "\<And>n. pos n < 7 * k \<longleftrightarrow> n < c" and "\<And>n. pos n < 7 * Suc k \<longleftrightarrow> n < c + 4"
    and "\<And>i. i < 4 \<Longrightarrow> pos (c + i) = 7 * k + (s + i)"
  shows "holds pos (w OR ucast (push_bit c (GetBits (ucast (B :: u8)) s 4)))
    (V + (unat B mod 128) * 2 ^ (7 * k))"
  unfolding holds_def
proof (intro allI impI)
  fix n assume n: "n < LENGTH('w)"
  consider "n < c" | i where "n = c + i" "i < 4" | "c + 4 \<le> n"
    by (metis add_diff_inverse_nat add_less_cancel_left not_less)
  then show "bit (w OR ucast (push_bit c (GetBits (ucast B) s 4))) n \<longleftrightarrow>
      bit (V + (unat B mod 128) * 2 ^ (7 * k)) (pos n)"
    using n assms(2) assms(1,4) assms(5) [of n] assms(6) [of n]
    by cases (auto simp: bit_add_digit [OF assms(3)] bit_digit bit_or_iff bit_shifted bit_GetBits bit_byte32
        holds_def assms(7) not_less dest: bit_below [OF assms(3)])
qed

lemma holds_three:
  fixes w :: "'w::len word"
  assumes "LENGTH('w) \<le> 64" and "holds pos w V" and "V < 2 ^ (7 * k)" and "s < 4"
    and "\<And>n. pos n < 7 * k \<longleftrightarrow> n < c" and "\<And>n. pos n < 7 * Suc k \<longleftrightarrow> n < c + 3"
    and "\<And>i. i < 3 \<Longrightarrow> pos (c + i) = 7 * k + (if i < s then i else 4 + i)"
  shows "holds pos ((w OR ucast (push_bit c (GetBits (ucast (B :: u8)) 0 s))) OR
      ucast (push_bit (c + s) (GetBits (ucast B) (s + 4) (3 - s))))
    (V + (unat B mod 128) * 2 ^ (7 * k))"
  unfolding holds_def
proof (intro allI impI)
  fix n assume n: "n < LENGTH('w)"
  consider "n < c" | i where "n = c + i" "i < 3" | "c + 3 \<le> n"
    by (metis add_diff_inverse_nat add_less_cancel_left not_less)
  then show "bit ((w OR ucast (push_bit c (GetBits (ucast (B :: u8)) 0 s))) OR
      ucast (push_bit (c + s) (GetBits (ucast B) (s + 4) (3 - s)))) n \<longleftrightarrow>
      bit (V + (unat B mod 128) * 2 ^ (7 * k)) (pos n)"
    using n assms(2) assms(1,4) assms(5) [of n] assms(6) [of n]
    by cases (auto simp: bit_add_digit [OF assms(3)] bit_digit bit_or_iff bit_shifted bit_GetBits bit_byte32
        holds_def assms(7) not_less dest: bit_below [OF assms(3)])
qed

text \<open>The state after \<open>k\<close> digits that make up the number \<open>V\<close>.\<close>

definition decoded :: "nat \<Rightarrow> nat \<Rightarrow> addr \<Rightarrow> 'w::len word decode_state \<Rightarrow> bool" where
  "decoded k V p d \<longleftrightarrow> V < 2 ^ (7 * k) \<and> uptr d = p + k \<and>
    holds low_pos (res1 d) V \<and> shift1 d = low_count k \<and>
    holds high_pos (res2 d) V \<and> shift2 d = high_count k"

definition macro_at :: "nat \<Rightarrow> macro" where
  "macro_at k = (if k mod 8 < 4 then Plain (k mod 4) else Switched (k mod 4))"

lemma digit_bound: "V < 2 ^ (7 * k) \<Longrightarrow> V + (B mod 128) * 2 ^ (7 * k) < 2 ^ (7 * Suc k)" for V B :: nat
proof -
  assume "V < 2 ^ (7 * k)"
  then have "V + (B mod 128) * 2 ^ (7 * k) < Suc (B mod 128) * 2 ^ (7 * k)" by simp
  also have "\<dots> \<le> 128 * 2 ^ (7 * k)" by (intro mult_le_mono1) (simp add: Suc_leI)
  finally show ?thesis by (simp add: power_add)
qed

lemma byte32_less: "(byte32 m p < 128) = (unat (m p) < 128)"
  by (simp add: word_less_nat_alt)

lemma next_digit_low:
  fixes B :: u8
  assumes "LENGTH('w) \<le> 64" and "decoded k V p (d :: 'w::len word decode_state)"
  shows "k mod 8 < 4 \<Longrightarrow> holds low_pos (res1 d OR ucast (push_bit (shift1 d) (GetBits (ucast B) (k mod 4) 4)))
      (V + (unat B mod 128) * 2 ^ (7 * k))"
    and "\<not> k mod 8 < 4 \<Longrightarrow> holds low_pos ((res1 d OR ucast (push_bit (shift1 d) (GetBits (ucast B) 0 (k mod 4)))) OR
      ucast (push_bit (shift1 d + k mod 4) (GetBits (ucast B) (k mod 4 + 4) (3 - k mod 4))))
      (V + (unat B mod 128) * 2 ^ (7 * k))"
proof -
  have d: "holds low_pos (res1 d) V" "V < 2 ^ (7 * k)" and c: "shift1 d = low_count k"
    using assms(2) by (simp_all add: decoded_def)
  show "holds low_pos (res1 d OR ucast (push_bit (shift1 d) (GetBits (ucast B) (k mod 4) 4)))
      (V + (unat B mod 128) * 2 ^ (7 * k))"
    if phase4: "k mod 8 < 4" unfolding c
    by (rule holds_four [OF assms(1) d]) (simp_all add: low_pos_less_iff count_Suc low_positions phase4 del: mult_Suc_right)
  show "holds low_pos ((res1 d OR ucast (push_bit (shift1 d) (GetBits (ucast B) 0 (k mod 4)))) OR
      ucast (push_bit (shift1 d + k mod 4) (GetBits (ucast B) (k mod 4 + 4) (3 - k mod 4))))
      (V + (unat B mod 128) * 2 ^ (7 * k))"
    if phase3: "\<not> k mod 8 < 4" unfolding c
    by (rule holds_three [OF assms(1) d]) (simp_all add: low_pos_less_iff count_Suc low_positions phase3 del: mult_Suc_right)
qed

lemma next_digit_high:
  fixes B :: u8
  assumes "LENGTH('w) \<le> 64" and "decoded k V p (d :: 'w::len word decode_state)"
  shows "\<not> k mod 8 < 4 \<Longrightarrow> holds high_pos (res2 d OR ucast (push_bit (shift2 d) (GetBits (ucast B) (k mod 4) 4)))
      (V + (unat B mod 128) * 2 ^ (7 * k))"
    and "k mod 8 < 4 \<Longrightarrow> holds high_pos ((res2 d OR ucast (push_bit (shift2 d) (GetBits (ucast B) 0 (k mod 4)))) OR
      ucast (push_bit (shift2 d + k mod 4) (GetBits (ucast B) (k mod 4 + 4) (3 - k mod 4))))
      (V + (unat B mod 128) * 2 ^ (7 * k))"
proof -
  have d: "holds high_pos (res2 d) V" "V < 2 ^ (7 * k)" and c: "shift2 d = high_count k"
    using assms(2) by (simp_all add: decoded_def)
  show "holds high_pos (res2 d OR ucast (push_bit (shift2 d) (GetBits (ucast B) (k mod 4) 4)))
      (V + (unat B mod 128) * 2 ^ (7 * k))"
    if phase4: "\<not> k mod 8 < 4" unfolding c
    by (rule holds_four [OF assms(1) d]) (simp_all add: high_pos_less_iff count_Suc high_positions phase4 del: mult_Suc_right)
  show "holds high_pos ((res2 d OR ucast (push_bit (shift2 d) (GetBits (ucast B) 0 (k mod 4)))) OR
      ucast (push_bit (shift2 d + k mod 4) (GetBits (ucast B) (k mod 4 + 4) (3 - k mod 4))))
      (V + (unat B mod 128) * 2 ^ (7 * k))"
    if phase3: "k mod 8 < 4" unfolding c
    by (rule holds_three [OF assms(1) d]) (simp_all add: high_pos_less_iff count_Suc high_positions phase3 del: mult_Suc_right)
qed

lemma parse_macro_digit:
  fixes d :: "'w::len word decode_state" and m :: mem
  assumes "LENGTH('w) \<le> 64" and "decoded k V p d"
  defines "V' \<equiv> V + (unat (m (p + k)) mod 128) * 2 ^ (7 * k)"
  shows "\<exists>d'. parse_macro RL m limit (macro_at k) d =
      (if RL \<and> limit \<le> p + k then NullPointer
       else if unat (m (p + k)) < 128 then Done d' else Proceed (d'\<lparr>shift1 := low_count (Suc k), shift2 := high_count (Suc k)\<rparr>)) \<and>
      uptr d' = p + Suc k \<and> holds low_pos (res1 d') V' \<and> holds high_pos (res2 d') V'"
proof -
  note L = next_digit_low [OF assms(1,2), of "m (p + k)", folded V'_def]
  note H = next_digit_high [OF assms(1,2), of "m (p + k)", folded V'_def]
  have u: "uptr d = p + k" "shift1 d = low_count k" "shift2 d = high_count k"
    using assms(2) by (simp_all add: decoded_def)
  show ?thesis
  proof (cases "k mod 8 < 4")
    case True
    let ?d = "d\<lparr>uptr := p + Suc k, res1 := res1 d OR ucast (push_bit (shift1 d) (GetBits (byte32 m (p + k)) (k mod 4) 4)),
      res2 := (res2 d OR ucast (push_bit (shift2 d) (GetBits (byte32 m (p + k)) 0 (k mod 4)))) OR
      ucast (push_bit (shift2 d + k mod 4) (GetBits (byte32 m (p + k)) (k mod 4 + 4) (3 - k mod 4)))\<rparr>"
    show ?thesis
      using True L(1) H(2) u
      by (intro exI [of _ ?d])
        (simp add: macro_at_def PARSE_BITS_DECODE_TWO_def Let_def byte32_less count_Suc)
  next
    case False
    let ?d = "d\<lparr>uptr := p + Suc k, res2 := res2 d OR ucast (push_bit (shift2 d) (GetBits (byte32 m (p + k)) (k mod 4) 4)),
      res1 := (res1 d OR ucast (push_bit (shift1 d) (GetBits (byte32 m (p + k)) 0 (k mod 4)))) OR
      ucast (push_bit (shift1 d + k mod 4) (GetBits (byte32 m (p + k)) (k mod 4 + 4) (3 - k mod 4)))\<rparr>"
    show ?thesis
      using False L(2) H(1) u
      by (intro exI [of _ ?d])
        (simp add: macro_at_def PARSE_BITS_DECODE_TWO_def Let_def byte32_less count_Suc exchange_def map_step_def)
  qed
qed

lemma holds_low: "holds low_pos (w :: 'w::len word) V \<Longrightarrow> w = of_nat (low_nibbles V)"
  by (rule bit_word_eqI) (simp add: holds_def bit_of_nat_iff bit_low_nibbles)

lemma holds_high: "holds high_pos (w :: 'w::len word) V \<Longrightarrow> w = of_nat (high_nibbles V)"
  by (rule bit_word_eqI) (simp add: holds_def bit_of_nat_iff bit_high_nibbles)

text \<open>The end of both decoders, with the bound of the last digit.\<close>

definition decode_end :: "bool \<Rightarrow> mem \<Rightarrow> addr \<Rightarrow> nat \<Rightarrow> nat \<Rightarrow> 'w::len word decode_step \<Rightarrow>
    (addr \<times> 'w word \<times> 'w word) option" where
  "decode_end RL m limit lim sh x =
    (case x of NullPointer \<Rightarrow> None | Done d \<Rightarrow> Some (uptr d, res1 d, res2 d)
     | Proceed d \<Rightarrow> if RL \<and> uptr d \<ge> limit then None
        else if lim \<le> unat (m (uptr d)) then None
        else Some (uptr d + 1, res1 d, res2 d OR push_bit sh (ucast (m (uptr d)))))"

definition split_nibbles :: "addr \<times> nat \<Rightarrow> addr \<times> 'w::len word \<times> 'w word" where
  "split_nibbles = (\<lambda>(q, v). (q, of_nat (low_nibbles v), of_nat (high_nibbles v)))"

lemma last_digit:
  fixes d :: "'w::len word decode_state"
  assumes "decoded K V p d" and "LENGTH('w) = low_count K" and "LENGTH('w) \<le> high_count K + K mod 4"
    and "K mod 8 < 4" and "8 \<le> LENGTH('w)"
  shows "res1 d = of_nat (low_nibbles (V + B * 2 ^ (7 * K)))"
    and "res2 d OR push_bit (high_count K) (of_nat B) = of_nat (high_nibbles (V + B * 2 ^ (7 * K)))"
proof -
  have V: "V < 2 ^ (7 * K)" and L: "holds low_pos (res1 d) V" and H: "holds high_pos (res2 d) V"
    using assms(1) by (simp_all add: decoded_def)
  have "holds low_pos (res1 d) (V + B * 2 ^ (7 * K))"
    using L low_pos_less_iff [of _ K] assms(2) by (simp add: holds_def bit_add_digit [OF V])
  then show "res1 d = of_nat (low_nibbles (V + B * 2 ^ (7 * K)))" by (rule holds_low)
  have "bit (res2 d OR push_bit (high_count K) (of_nat B)) n \<longleftrightarrow> bit (V + B * 2 ^ (7 * K)) (high_pos n)"
    if n: "n < LENGTH('w)" for n
  proof (cases "n < high_count K")
    case True
    then show ?thesis
      using H n high_pos_less_iff [of n K] by (auto simp: holds_def bit_add_digit [OF V] bit_simps)
  next
    case False
    then obtain i where i: "n = high_count K + i" by (auto dest: le_Suc_ex simp: not_less)
    then have "i < K mod 4" using n assms(3) by simp
    moreover have "K mod 4 \<le> 3" by (simp flip: less_Suc_eq_le numeral_eq_Suc add: Suc_numeral)
    ultimately have "high_pos n = 7 * K + i" using high_positions(1) [of K i] assms(4) i by simp
    then show ?thesis
      using H n i by (auto simp: holds_def bit_add_digit [OF V] bit_simps dest: bit_below [OF V])
  qed
  then have "holds high_pos (res2 d OR push_bit (high_count K) (of_nat B)) (V + B * 2 ^ (7 * K))"
    by (simp add: holds_def)
  then show "res2 d OR push_bit (high_count K) (of_nat B) = of_nat (high_nibbles (V + B * 2 ^ (7 * K)))"
    by (rule holds_high)
qed

lemma decode_scan:
  fixes d :: "'w::len word decode_state"
  assumes "LENGTH('w) \<le> 64" and "LENGTH('w) = low_count K" and "LENGTH('w) \<le> high_count K + K mod 4"
    and "K mod 8 < 4" and "8 \<le> LENGTH('w)" and "RL \<Longrightarrow> L = limit" and "\<not> RL \<Longrightarrow> p + K < L"
    and "decoded k V p d" and "k \<le> K"
  shows "decode_end RL m limit lim (high_count K) (parse_macros RL m limit (map macro_at [k..<K]) d) =
    map_option (\<lambda>(q, v). split_nibbles (q, V + v * 2 ^ (7 * k))) (varint_scan (Suc (K - k)) lim L m (p + k))"
  using assms(8,9)
proof (induction "K - k" arbitrary: k V d)
  case 0
  then have k: "k = K" by simp
  have u: "uptr d = p + K" using "0.prems" k by (simp add: decoded_def)
  have lim: "RL \<and> limit \<le> p + K \<longleftrightarrow> L \<le> p + K" using assms(6,7) by (cases RL) auto
  note B = last_digit [OF "0.prems"(1) [unfolded k] assms(2-5), of "unat (m (p + K))"]
  show ?case
    using B by (auto simp: k decode_end_def u lim split_nibbles_def unsigned_of_nat)
next
  case (Suc n)
  then have kK: "k < K" and n: "n = K - Suc k" by auto
  let ?B = "unat (m (p + k))" and ?V = "V + (unat (m (p + k)) mod 128) * 2 ^ (7 * k)"
  obtain d' where step: "parse_macro RL m limit (macro_at k) d =
      (if RL \<and> limit \<le> p + k then NullPointer
       else if ?B < 128 then Done d' else Proceed (d'\<lparr>shift1 := low_count (Suc k), shift2 := high_count (Suc k)\<rparr>))"
    and d': "uptr d' = p + Suc k" "holds low_pos (res1 d') ?V" "holds high_pos (res2 d') ?V"
    using parse_macro_digit [OF assms(1) Suc.prems(1), where m = m and RL = RL and limit = limit] by blast
  have dec: "decoded (Suc k) ?V p (d'\<lparr>shift1 := low_count (Suc k), shift2 := high_count (Suc k)\<rparr>)"
    using d' digit_bound [of V k ?B] Suc.prems(1) by (simp add: decoded_def del: mult_Suc_right)
  have upt: "map macro_at [k..<K] = macro_at k # map macro_at [Suc k..<K]" using kK by (simp add: upt_conv_Cons)
  have lim': "RL \<and> limit \<le> p + k \<longleftrightarrow> L \<le> p + k" using assms(6,7) kK by (cases RL) auto
  have n': "K - k = Suc (K - Suc k)" using kK by simp
  have scan: "varint_scan (Suc (K - k)) lim L m (p + k) =
    (if L \<le> p + k then None else if ?B < 128 then Some (p + k + 1, ?B)
     else map_option (\<lambda>(q, v). (q, ?B mod 128 + 128 * v)) (varint_scan (Suc (K - Suc k)) lim L m (p + Suc k)))"
    unfolding n' by (subst varint_scan.simps(2)) (simp del: varint_scan.simps)
  have IH: "decode_end RL m limit lim (high_count K) (parse_macros RL m limit (map macro_at [Suc k..<K])
      (d'\<lparr>shift1 := low_count (Suc k), shift2 := high_count (Suc k)\<rparr>)) =
    map_option (\<lambda>(q, v). split_nibbles (q, ?V + v * 2 ^ (7 * Suc k))) (varint_scan (Suc (K - Suc k)) lim L m (p + Suc k))"
    by (rule Suc.hyps(1) [OF n dec]) (use kK in simp)
  have V': "?V + v * 2 ^ (7 * Suc k) = V + (?B mod 128 + 128 * v) * 2 ^ (7 * k)" for v
    by (simp add: power_add algebra_simps)
  consider "L \<le> p + k" | "\<not> L \<le> p + k" "?B < 128" | "\<not> L \<le> p + k" "\<not> ?B < 128" by blast
  then show ?case
  proof cases
    case 1
    then have "parse_macro RL m limit (macro_at k) d = NullPointer" using step lim' by (simp only: if_True)
    then show ?thesis unfolding upt scan using 1 by (simp add: decode_end_def)
  next
    case 2
    then show ?thesis unfolding upt scan using lim' d'(1) holds_low [OF d'(2)] holds_high [OF d'(3)]
      by (simp add: step decode_end_def split_nibbles_def)
  next
    case 3
    then have "parse_macro RL m limit (macro_at k) d =
        Proceed (d'\<lparr>shift1 := low_count (Suc k), shift2 := high_count (Suc k)\<rparr>)"
      using step lim' by (simp only: if_False)
    then show ?thesis unfolding upt scan using 3 IH
      by (simp add: V' option.map_comp comp_def case_prod_unfold del: varint_scan.simps mult_Suc_right)
  qed
qed

lemma decoded_start: "decoded 0 0 p (decode_start p)"
  by (simp add: decoded_def decode_start_def holds_def low_count_def high_count_def)

lemma macro_lists:
  "map macro_at [0..<9] = [Plain 0, Plain 1, Plain 2, Plain 3, Switched 0, Switched 1, Switched 2, Switched 3, Plain 0]"
  "map macro_at [0..<18] = [Plain 0, Plain 1, Plain 2, Plain 3, Switched 0, Switched 1, Switched 2, Switched 3,
    Plain 0, Plain 1, Plain 2, Plain 3, Switched 0, Switched 1, Switched 2, Switched 3, Plain 0, Plain 1]"
  by code_simp+

lemma counts: "low_count 9 = 32" "high_count 9 = 31" "low_count 18 = 64" "high_count 18 = 62"
  by (simp_all add: low_count_def high_count_def)

lemma byte_bounds: "(byte32 m p > 1) = (2 \<le> unat (m p))" "(byte64 m p > 3) = (4 \<le> unat (m p))"
  by (simp_all add: word_less_nat_alt) arith+

lemma Decode32Internal_scan:
  assumes "RL \<Longrightarrow> L = limit" and "\<not> RL \<Longrightarrow> p + 9 < L"
  shows "Decode32Internal RL m p limit = map_option split_nibbles (varint_scan 10 2 L m p)"
proof -
  have "Decode32Internal RL m p limit =
      decode_end RL m limit 2 (high_count 9) (parse_macros RL m limit (map macro_at [0..<9]) (decode_start p))"
    unfolding Decode32Internal_def decode_end_def macro_lists counts
    by (simp add: Let_def byte_bounds split: decode_step.split)
  also have "\<dots> = map_option (\<lambda>(q, v). split_nibbles (q, 0 + v * 2 ^ (7 * 0))) (varint_scan (Suc (9 - 0)) 2 L m (p + 0))"
    by (rule decode_scan [OF _ _ _ _ _ assms decoded_start]) (simp_all add: counts)
  finally show ?thesis by (simp add: numeral_eq_Suc del: varint_scan.simps)
qed

lemma Decode64Internal_scan:
  assumes "RL \<Longrightarrow> L = limit" and "\<not> RL \<Longrightarrow> p + 18 < L"
  shows "Decode64Internal RL m p limit = map_option split_nibbles (varint_scan 19 4 L m p)"
proof -
  have "Decode64Internal RL m p limit =
      decode_end RL m limit 4 (high_count 18) (parse_macros RL m limit (map macro_at [0..<18]) (decode_start p))"
    unfolding Decode64Internal_def decode_end_def macro_lists counts
    by (simp add: Let_def byte_bounds split: decode_step.split)
  also have "\<dots> = map_option (\<lambda>(q, v). split_nibbles (q, 0 + v * 2 ^ (7 * 0))) (varint_scan (Suc (18 - 0)) 4 L m (p + 0))"
    by (rule decode_scan [OF _ _ _ _ _ assms decoded_start]) (simp_all add: counts)
  finally show ?thesis by (simp add: numeral_eq_Suc del: varint_scan.simps)
qed

lemma small_pair:
  assumes "unat (b :: u8) < 128"
  shows "ucast (b AND 0xf) = (of_nat (low_nibbles (unat b)) :: 'w::len word)"
    and "ucast (drop_bit 4 b) = (of_nat (high_nibbles (unat b)) :: 'w word)"
proof -
  have n: "bit b n \<Longrightarrow> n < 7" for n using assms bit_below [of "unat b" 7 n] by (simp add: bit_unsigned_iff)
  show "ucast (b AND 0xf) = (of_nat (low_nibbles (unat b)) :: 'w::len word)"
  proof (rule bit_word_eqI)
    fix i
    have f: "(0xf :: u8) = mask 4" by (simp add: mask_numeral)
    have "bit b (low_pos i) \<longleftrightarrow> i < 4 \<and> bit b i"
      using n [of "low_pos i"] by (cases "i < 4") (auto simp: low_pos_def le_div_geq)
    then show "bit (ucast (b AND 0xf) :: 'w word) i \<longleftrightarrow> bit (of_nat (low_nibbles (unat b)) :: 'w word) i"
      unfolding f by (auto simp: bit_simps bit_of_nat_iff bit_low_nibbles bit_unsigned_iff)
  qed
  show "ucast (drop_bit 4 b) = (of_nat (high_nibbles (unat b)) :: 'w word)"
  proof (rule bit_word_eqI)
    fix i
    have "bit b (high_pos i) \<longleftrightarrow> bit b (4 + i)"
      using n [of "high_pos i"] n [of "4 + i"] by (cases "i < 4") (auto simp: high_pos_def low_pos_def le_div_geq add.commute)
    then show "bit (ucast (drop_bit 4 b) :: 'w word) i \<longleftrightarrow> bit (of_nat (high_nibbles (unat b)) :: 'w word) i"
      by (auto simp: bit_simps bit_of_nat_iff bit_high_nibbles bit_unsigned_iff)
  qed
qed

lemma Decode32_scan: "Decode32 m p = map_option split_nibbles (varint_scan 10 2 (p + 10) m p)"
proof (cases "unat (m p) < 128")
  case True
  then have "varint_scan 10 2 (p + 10) m p = Some (p + 1, unat (m p))"
    using scan_first [of 8 2 "p + 10" m p] by (simp add: numeral_eq_Suc del: varint_scan.simps)
  with True show ?thesis
    by (simp add: Decode32_def byte_less split_nibbles_def small_pair del: varint_scan.simps)
next
  case False
  then show ?thesis
    by (simp add: Decode32_def byte_less Decode32Slow_def Decode32Internal_scan [of False "p + 10"] del: varint_scan.simps)
qed

lemma Decode64_scan: "Decode64 m p = map_option split_nibbles (varint_scan 19 4 (p + 19) m p)"
proof (cases "unat (m p) < 128")
  case True
  then have "varint_scan 19 4 (p + 19) m p = Some (p + 1, unat (m p))"
    using scan_first [of 17 4 "p + 19" m p] by (simp add: numeral_eq_Suc del: varint_scan.simps)
  with True show ?thesis
    by (simp add: Decode64_def byte_less split_nibbles_def small_pair del: varint_scan.simps)
next
  case False
  then show ?thesis
    by (simp add: Decode64_def byte_less Decode64Slow_def Decode64Internal_scan [of False "p + 19"] del: varint_scan.simps)
qed

lemma Decode32WithLimit_scan: "Decode32WithLimit m p limit = map_option split_nibbles (varint_scan 10 2 limit m p)"
  using varint_scan_limit [of p 10 limit "p + 10" 2 m] Decode32Internal_scan [of True limit limit p m]
  by (simp add: Decode32WithLimit_def kMax64_def Decode32_scan del: varint_scan.simps)

lemma Decode64WithLimit_scan: "Decode64WithLimit m p limit = map_option split_nibbles (varint_scan 19 4 limit m p)"
  using varint_scan_limit [of p 19 limit "p + 19" 4 m] Decode64Internal_scan [of True limit limit p m]
  by (simp add: Decode64WithLimit_def kMax128_def Decode64_scan del: varint_scan.simps)

section \<open>Encoding\<close>

lemma pair_byte:
  fixes a b :: u32
  shows "(ucast ((a AND 0xf) OR push_bit 4 (b AND 0xf)) :: u8) = of_nat (unat a mod 16 + 16 * (unat b mod 16))"
proof -
  have f: "(0xf :: u32) = mask 4" by (simp add: mask_numeral)
  have "(ucast ((a AND 0xf) OR push_bit 4 (b AND 0xf)) :: u8) =
      of_nat (take_bit 4 (unat a)) OR push_bit 4 (of_nat (take_bit 4 (unat b)))"
    unfolding f by (rule bit_word_eqI) (auto simp: bit_simps bit_unsigned_iff)
  also have "\<dots> = of_nat (take_bit 4 (unat a) + take_bit 4 (unat b) * 2 ^ 4)"
    by (rule or_push_bit_of_nat) (simp add: take_bit_eq_mod)
  finally show ?thesis by (simp add: take_bit_eq_mod)
qed

lemma ucast_byte_of_nat: "n < 256 \<Longrightarrow> ucast (of_nat n :: u8) = (of_nat n :: u64)"
  by (intro word_unat_eq_iff [THEN iffD2]) (simp add: unsigned_of_nat take_bit_nat_eq_self)

lemma InterleaveNibbles_loop_eq:
  "R < 2 ^ s \<Longrightarrow> InterleaveNibbles_loop a b (of_nat R) s = of_nat (R + interleave (unat a) (unat b) * 2 ^ s)"
proof (induction a b "of_nat R :: u64" s arbitrary: R rule: InterleaveNibbles_loop.induct)
  case (1 a b s)
  let ?x = "unat a mod 16 + 16 * (unat b mod 16)"
  show ?case
  proof (cases "a = 0 \<and> b = 0")
    case True
    then show ?thesis by (subst InterleaveNibbles_loop.simps) (simp add: interleave.simps)
  next
    case False
    then have ab: "a > 0 \<or> b > 0" by (simp add: word_gt_0)
    have x: "?x < 256" by (rule less_le_trans [of _ "16 + 16 * 15"]) (simp_all add: add_less_le_mono)
    have byte: "ucast (ucast ((a AND 0xf) OR push_bit 4 (b AND 0xf)) :: u8) = (of_nat ?x :: u64)"
      unfolding pair_byte using x by (rule ucast_byte_of_nat)
    have acc: "of_nat R OR push_bit s (of_nat ?x) = (of_nat (R + ?x * 2 ^ s) :: u64)"
      using "1.prems" by (rule or_push_bit_of_nat)
    have "R + ?x * 2 ^ s < Suc ?x * 2 ^ s" using "1.prems" by simp
    also have "\<dots> \<le> 256 * 2 ^ s" using x by (intro mult_le_mono1) simp
    finally have bound: "R + ?x * 2 ^ s < 2 ^ (s + 8)" by (simp add: power_add)
    have "InterleaveNibbles_loop a b (of_nat R) s =
        InterleaveNibbles_loop (drop_bit 4 a) (drop_bit 4 b) (of_nat (R + ?x * 2 ^ s)) (s + 8)"
      using ab by (subst InterleaveNibbles_loop.simps) (simp only: Let_def byte acc if_True)
    also have "\<dots> = of_nat (R + ?x * 2 ^ s + interleave (unat a div 16) (unat b div 16) * 2 ^ (s + 8))"
      using "1.hyps" [OF ab refl _ bound] byte acc by (simp add: drop_bit_4_smaller)
    also have "R + ?x * 2 ^ s + interleave (unat a div 16) (unat b div 16) * 2 ^ (s + 8) =
        R + interleave (unat a) (unat b) * 2 ^ s"
      by (subst (2) interleave_step) (simp add: power_add algebra_simps)
    finally show ?thesis .
  qed
qed

lemma unat_InterleaveNibbles: "unat (InterleaveNibbles a b) = interleave (unat a) (unat b)"
proof -
  have "unat a < 16 ^ 8" "unat b < 16 ^ 8"
    using unsigned_less [of a, where ?'a = nat] unsigned_less [of b, where ?'a = nat] by simp_all
  then have "interleave (unat a) (unat b) < 256 ^ 8" by (rule interleave_bound)
  then show ?thesis
    using InterleaveNibbles_loop_eq [of 0 0 a b]
    by (simp add: InterleaveNibbles_def unsigned_of_nat take_bit_nat_eq_self)
qed

text \<open>Numbers of 128 bits, given by their halves.\<close>

definition join :: "u64 \<Rightarrow> u64 \<Rightarrow> nat" where
  "join hi lo = unat lo + 2 ^ 64 * unat hi"

lemma join_div: "join hi lo div 2 ^ 64 = unat hi" "join hi lo div 2 ^ 63 = unat lo div 2 ^ 63 + 2 * unat hi"
  "join hi lo div 2 ^ 70 = unat hi div 64"
proof -
  have lo: "unat lo < 2 ^ 64" using unsigned_less [of lo, where ?'a = nat] by simp
  show h: "join hi lo div 2 ^ 64 = unat hi" unfolding join_def using lo by (subst div_mult_self2) simp_all
  have "join hi lo = unat lo + 2 ^ 63 * (2 * unat hi)" by (simp add: join_def)
  then show "join hi lo div 2 ^ 63 = unat lo div 2 ^ 63 + 2 * unat hi" by (simp only: div_mult_self2) simp
  have "join hi lo div 2 ^ 70 = join hi lo div (2 ^ 64 * 2 ^ 6)" by (simp flip: power_add)
  then show "join hi lo div 2 ^ 70 = unat hi div 64" unfolding div_mult2_eq h by simp
qed

lemma join_digit:
  assumes "i \<le> 8"
  shows "join hi lo div 128 ^ i mod 128 = unat lo div 2 ^ (7 * i) mod 128"
proof -
  have p: "(128 :: nat) ^ i = 2 ^ (7 * i)" by (simp add: power_mult)
  have "(2 :: nat) ^ 64 = 2 ^ (7 * i) * (128 * 2 ^ (57 - 7 * i))"
    using assms power_add [of "2 :: nat" "7 * i" "7 + (57 - 7 * i)"] power_add [of "2 :: nat" 7 "57 - 7 * i"] by simp
  then have "join hi lo = unat lo + 2 ^ (7 * i) * (128 * (2 ^ (57 - 7 * i) * unat hi))" by (simp add: join_def)
  then have "join hi lo div 2 ^ (7 * i) = unat lo div 2 ^ (7 * i) + 128 * (2 ^ (57 - 7 * i) * unat hi)"
    by (simp only: div_mult_self2) simp
  then show ?thesis unfolding p by (simp only: mod_mult_self2)
qed

lemma varint_bytes_digits:
  "128 ^ k \<le> N \<Longrightarrow>
    varint_bytes N = map (\<lambda>i. of_nat (N div 128 ^ i mod 128 + 128)) [0..<k] @ varint_bytes (N div 128 ^ k)"
proof (induction k arbitrary: N)
  case (Suc k)
  then have "128 ^ k \<le> N div 128" by (simp add: less_eq_div_iff_mult_less_eq mult.commute)
  note IH = Suc.IH [OF this]
  have "128 \<le> N" using Suc.prems order_trans [of "128 * 1" "128 * 128 ^ k" N] by simp
  then have "varint_bytes N = of_nat (N mod 128 + 128) # varint_bytes (N div 128)" by (rule varint_bytes_step)
  then show ?case unfolding IH
    by (simp add: map_upt_Suc div_mult2_eq mult.commute [of _ 128] del: of_nat_add upt_Suc)
qed simp

lemma length128_formula:
  assumes "L < 128"
  shows "(73 * L + 530) div 512 = L div 7 + (1::nat)"
proof -
  define q r where "q = L div 7" and "r = L mod 7"
  then have L: "L = 7 * q + r" and r: "r < 7" by simp_all
  have q: "q \<le> 18" using assms L by linarith
  then obtain x where x: "18 = q + x" by (auto dest: le_Suc_ex)
  then have "73 * L + 530 = (x + 73 * r) + 512 * (q + 1)" using L by simp
  moreover have "x + 73 * r < 512" using r x by linarith
  ultimately have "(73 * L + 530) div 512 = q + 1" by simp
  then show ?thesis by (simp add: q_def)
qed

lemma unat_MakeUint128: "unat (MakeUint128 hi lo) = join hi lo"
proof -
  have "Uint128Low64 (MakeUint128 hi lo) = lo" "Uint128High64 (MakeUint128 hi lo) = hi"
    by (rule bit_word_eqI; use bit_imp_le_length [of lo] in
        \<open>fastforce simp: Uint128Low64_def Uint128High64_def MakeUint128_def bit_simps\<close>)+
  then show ?thesis unfolding unat_halves [of "MakeUint128 hi lo"] join_def by simp
qed

lemma Length128_varint:
  assumes "hi \<noteq> 0"
  shows "Length128 plat hi lo = length (varint_bytes (join hi lo))"
proof -
  have "unat hi \<noteq> 0" using assms by (simp add: unsigned_eq_0_iff)
  then have pos: "1 \<le> nat_bit_width (unat hi)" by (simp add: nat_bit_width.simps [of "unat hi"])
  have "nat_bit_width (unat hi) = nat_bit_width (join hi lo) - 64"
    using nat_bit_width_div [of "join hi lo" 64] unfolding join_div(1) .
  moreover from this have big: "1 \<le> nat_bit_width (join hi lo)" using pos by linarith
  moreover have "nat_bit_width (unat hi) \<le> 64"
    using unsigned_less [of hi, where ?'a = nat] by (simp add: nat_bit_width_le)
  ultimately have "(73 * (nat_bit_width (join hi lo) - 1) + 530) div 512 = length (varint_bytes (join hi lo))"
    using pos length128_formula [of "nat_bit_width (join hi lo) - 1"] by (simp add: length_varint_bytes)
  moreover have "Log2FloorNonZero128 (MakeUint128 hi lo) = int (nat_bit_width (join hi lo) - 1)"
    using big by (simp add: Log2Floor128_eq bit_width_def unat_MakeUint128 of_nat_diff)
  ultimately show ?thesis using assms by (simp add: Length128_def zdiv_int [symmetric] nat_int_add)
qed

lemma byte_of_nat64: "(ucast (of_nat n :: u64) :: u8) = of_nat n"
  by (rule bit_word_eqI) (auto simp: bit_simps)

lemma tenth_byte:
  "drop_bit 63 lo OR push_bit 1 hi = (of_nat (join hi lo div 2 ^ 63) :: u64)"
proof -
  have d: "drop_bit 63 lo = (of_nat (unat lo div 2 ^ 63) :: u64)" unfolding unat_drop_bit_div [symmetric] by simp
  have h: "push_bit 1 hi = (push_bit 1 (of_nat (unat hi)) :: u64)" by simp
  have "unat lo div 2 ^ 63 < 2 ^ 1"
    using unsigned_less [of lo, where ?'a = nat] by (simp add: less_mult_imp_div_less)
  then have "of_nat (unat lo div 2 ^ 63) OR push_bit 1 (of_nat (unat hi)) =
      (of_nat (unat lo div 2 ^ 63 + unat hi * 2 ^ 1) :: u64)" by (rule or_push_bit_of_nat)
  then show ?thesis unfolding d h join_div(2) by (simp only: power_one_right mult.commute)
qed

lemma load_resized:
  "length bs = n \<Longrightarrow> length js = n \<Longrightarrow>
    load_bytes (store_bytes (string_buffer (cs @ js)) (length cs) bs) 0 (length cs + n) = cs @ bs"
  by (rule nth_equalityI) (auto simp: store_bytes_apply string_buffer_def nth_append)

lemma store_nine:
  "store_bytes m p [a, b, c, d, e, f, g, h, i] =
    m(p := a, p + 1 := b, p + 2 := c, p + 3 := d, p + 4 := e, p + 5 := f, p + 6 := g, p + 7 := h, p + 8 := i)"
  by (simp add: numeral_eq_Suc)

lemma nine_digits:
  "map (\<lambda>i. of_nat (join hi lo div 128 ^ i mod 128 + 128)) [0..<9] =
    [ucast (lo OR 128), ucast (drop_bit 7 lo OR 128), ucast (drop_bit 14 lo OR 128),
     ucast (drop_bit 21 lo OR 128), ucast (drop_bit 28 lo OR 128), ucast (drop_bit 35 lo OR 128),
     ucast (drop_bit 42 lo OR 128), ucast (drop_bit 49 lo OR 128), (ucast (drop_bit 56 lo OR 128) :: u8)]"
proof -
  have d: "of_nat (join hi lo div 128 ^ i mod 128 + 128) = (ucast (drop_bit (7 * i) lo OR 128) :: u8)"
    if "i \<le> 8" for i
    using byte_of_drop_bit_or_128 [of "7 * i" lo] join_digit [OF that, of hi lo] by simp
  have e: "map (\<lambda>i. of_nat (join hi lo div 128 ^ i mod 128 + 128)) [0..<9] =
      map (\<lambda>i. ucast (drop_bit (7 * i) lo OR 128) :: u8) [0..<9]"
    by (intro map_cong [OF refl]) (rule d, simp)
  have u: "[0..<9] = [0, 1, 2, 3, 4, 5, 6, 7, 8::nat]" by code_simp
  have "map (\<lambda>i. ucast (drop_bit (7 * i) lo OR 128) :: u8) [0..<9] =
    [ucast (lo OR 128), ucast (drop_bit 7 lo OR 128), ucast (drop_bit 14 lo OR 128),
     ucast (drop_bit 21 lo OR 128), ucast (drop_bit 28 lo OR 128), ucast (drop_bit 35 lo OR 128),
     ucast (drop_bit 42 lo OR 128), ucast (drop_bit 49 lo OR 128), ucast (drop_bit 56 lo OR 128)]"
    unfolding u by simp
  with e show ?thesis by (rule trans)
qed

lemma store_snoc: "length ns = k \<Longrightarrow> (store_bytes m p ns)(p + k := b) = store_bytes m p (ns @ [b])"
  by (simp add: store_bytes_append)

text \<open>The bytes of a long code: nine that depend on the low half only, the one in the middle, the rest.\<close>

lemma long_bytes:
  fixes hi lo :: u64
  assumes "hi \<noteq> 0"
  defines "ns \<equiv> map (\<lambda>i. of_nat (join hi lo div 128 ^ i mod 128 + 128) :: u8) [0..<9]"
  shows "unat hi < 64 \<Longrightarrow>
      varint_bytes (join hi lo) = ns @ [ucast (drop_bit 63 lo OR push_bit 1 hi)]"
    and "\<not> unat hi < 64 \<Longrightarrow> varint_bytes (join hi lo) =
      (ns @ [ucast ((drop_bit 63 lo OR push_bit 1 hi) OR 128)]) @ varint_bytes (unat (drop_bit 6 hi))"
proof -
  have p: "(128 :: nat) ^ 9 = 2 ^ 63" "(128 :: nat) ^ 10 = 2 ^ 70" by simp_all
  have lo: "unat lo < 2 ^ 64" using unsigned_less [of lo, where ?'a = nat] by simp
  have "1 \<le> unat hi" using assms(1) by (simp add: Suc_le_eq unat_gt_0)
  then have "128 ^ 9 \<le> join hi lo" by (simp add: join_def)
  note nine = varint_bytes_digits [OF this, folded ns_def, unfolded p(1)]
  show "varint_bytes (join hi lo) = ns @ [ucast (drop_bit 63 lo OR push_bit 1 hi)]" if "unat hi < 64"
  proof -
    have "unat lo div 2 ^ 63 < 2" using lo by (simp add: less_mult_imp_div_less)
    then have "join hi lo div 2 ^ 63 < 128" using that unfolding join_div(2) by linarith
    then show ?thesis unfolding nine tenth_byte byte_of_nat64 by (simp only: varint_bytes_small)
  qed
  show "varint_bytes (join hi lo) =
      (ns @ [ucast ((drop_bit 63 lo OR push_bit 1 hi) OR 128)]) @ varint_bytes (unat (drop_bit 6 hi))"
    if "\<not> unat hi < 64"
  proof -
    have b: "128 \<le> join hi lo div 2 ^ 63" using that unfolding join_div(2) by linarith
    have d: "join hi lo div 2 ^ 63 div 128 = unat hi div 64"
      using join_div(3) [of hi lo] by (simp flip: div_mult2_eq)
    have "unat (of_nat (join hi lo div 2 ^ 63) :: u64) mod 128 = join hi lo div 2 ^ 63 mod 128"
      by (simp add: unsigned_of_nat take_bit_eq_mod mod_mod_cancel)
    then have t: "(ucast ((drop_bit 63 lo OR push_bit 1 hi) OR 128) :: u8) =
        of_nat (join hi lo div 2 ^ 63 mod 128 + 128)"
      unfolding tenth_byte by (subst ucast_or_128) simp_all
    show ?thesis unfolding nine varint_bytes_step [OF b] d t by (simp add: unat_drop_bit_div)
  qed
qed

lemma Encode128_bytes:
  assumes "hi \<noteq> 0"
  shows "chars (Encode128 plat grow junk s hi lo) = chars s @ varint_bytes (join hi lo)"
proof -
  let ?N = "join hi lo" and ?p = "length (chars s)"
  let ?js = "map junk [?p..<?p + Length128 plat hi lo]"
  let ?ns = "map (\<lambda>i. of_nat (join hi lo div 128 ^ i mod 128 + 128) :: u8) [0..<9]"
  have hi: "(hi < push_bit 6 1) = (unat hi < 64)" by (simp add: word_less_nat_alt)
  have l: "length ?ns = 9" "length (?ns @ [b]) = 10" for b by simp_all
  have bytes: "(if hi < push_bit 6 1
      then (store_bytes m ?p ?ns)(?p + 9 := ucast (drop_bit 63 lo OR push_bit 1 hi))
      else fst (Encode64 ((store_bytes m ?p ?ns)(?p + 9 := ucast ((drop_bit 63 lo OR push_bit 1 hi) OR 128)))
        (?p + 10) (drop_bit 6 hi))) = store_bytes m ?p (varint_bytes ?N)" for m
  proof (cases "unat hi < 64")
    case True
    then show ?thesis
      unfolding hi long_bytes(1) [OF assms True] by (simp only: if_True store_snoc [OF l(1)])
  next
    case False
    then show ?thesis
      unfolding hi long_bytes(2) [OF assms False] Encode64_bytes store_bytes_append
      by (simp only: if_False fst_conv store_snoc [OF l(1)] l(2) store_bytes_append)
  qed
  show ?thesis
    using load_resized [of "varint_bytes ?N" "Length128 plat hi lo" ?js "chars s"]
    unfolding Encode128_def Let_def resize_uninitialized_def store_nine [symmetric] nine_digits [symmetric, of lo hi] bytes
    by (simp add: Length128_varint [OF assms] del: store_bytes.simps)
qed

text \<open>What the encoders append.\<close>

lemma TwoValues_Encode32_chars:
  "chars (TwoValues_Encode32 plat s a b) = chars s @ varint_bytes (interleave (unat a) (unat b))"
  by (simp add: TwoValues_Encode32_def Append64_chars unat_InterleaveNibbles)

lemma word_halves:
  fixes a :: u64
  shows "unat (ucast a :: u32) = unat a mod 16 ^ 8" "unat (ucast (drop_bit 32 a) :: u32) = unat a div 16 ^ 8"
proof -
  show "unat (ucast a :: u32) = unat a mod 16 ^ 8" by (simp add: unsigned_ucast_eq take_bit_eq_mod)
  have "unat a div 2 ^ 32 < 2 ^ 32"
    using unsigned_less [of a, where ?'a = nat] by (simp add: less_mult_imp_div_less)
  then show "unat (ucast (drop_bit 32 a) :: u32) = unat a div 16 ^ 8"
    by (simp add: unsigned_ucast_eq take_bit_eq_mod unat_drop_bit_div)
qed

lemma word_0_unat: "c = 0 \<longleftrightarrow> unat c = 0"
  by (simp add: unsigned_eq_0_iff)

lemma high_halves: "drop_bit 32 (a OR b) = 0 \<longleftrightarrow> unat a div 16 ^ 8 = 0 \<and> unat b div 16 ^ 8 = 0" for a b :: u64
proof -
  have z: "drop_bit 32 c = 0 \<longleftrightarrow> unat c div 16 ^ 8 = 0" for c :: u64
    unfolding word_0_unat [of "drop_bit 32 c"] unat_drop_bit_div by simp
  have "drop_bit 32 (a OR b) = 0 \<longleftrightarrow> drop_bit 32 a = 0 \<and> drop_bit 32 b = 0"
    unfolding drop_bit_or by (auto simp: bit_eq_iff bit_or_iff)
  then show ?thesis unfolding z .
qed

lemma interleave_0: "interleave a b = 0 \<longleftrightarrow> a = 0 \<and> b = 0"
proof
  assume z: "interleave a b = 0"
  have "low_nibbles 0 = 0" by (simp add: low_nibbles.simps [of 0])
  then show "a = 0 \<and> b = 0"
    using low_nibbles_interleave [of a b] high_nibbles_interleave [of a b] unfolding high_nibbles_def z by simp
qed (simp add: interleave.simps [of 0 0])

lemma TwoValues_Encode64_chars:
  "chars (TwoValues_Encode64 plat grow junk s a b) = chars s @ varint_bytes (interleave (unat a) (unat b))"
proof -
  let ?lo = "InterleaveNibbles (ucast a) (ucast b)"
  let ?hi = "InterleaveNibbles (ucast (drop_bit 32 a)) (ucast (drop_bit 32 b))"
  have hi: "unat ?hi = interleave (unat a div 16 ^ 8) (unat b div 16 ^ 8)"
    unfolding unat_InterleaveNibbles word_halves(2) ..
  have lo: "unat ?lo = interleave (unat a mod 16 ^ 8) (unat b mod 16 ^ 8)"
    unfolding unat_InterleaveNibbles word_halves(1) ..
  have j: "join ?hi ?lo = interleave (unat a) (unat b)"
    unfolding join_def hi lo using interleave_halves [of "unat a" "unat b" 8] by simp
  have z: "?hi = 0 \<longleftrightarrow> drop_bit 32 (a OR b) = 0"
    unfolding word_0_unat [of ?hi] hi interleave_0 high_halves ..
  show ?thesis
  proof (cases "drop_bit 32 (a OR b) = 0")
    case True
    then have "unat ?lo = interleave (unat a) (unat b)" using j z by (simp add: join_def)
    with True show ?thesis by (simp add: TwoValues_Encode64_def Append64_chars)
  next
    case False
    then show ?thesis using z Encode128_bytes [of ?hi plat grow junk s ?lo]
      by (simp add: TwoValues_Encode64_def Let_def j)
  qed
qed

section \<open>Reading back\<close>

text \<open>A number too large for the decoder is refused, however many bytes may be read.\<close>

lemma varint_scan_large:
  assumes "load_bytes m p (length (varint_bytes v)) = varint_bytes v"
    and "lim * 128 ^ n \<le> v" and "0 < lim" "lim \<le> 128"
  shows "varint_scan (Suc n) lim limit m p = None"
  using assms
proof (induction n arbitrary: p v)
  case 0
  show ?case
  proof (cases "v < 128")
    case True
    with 0 show ?thesis by (auto simp: varint_bytes_small load_bytes_Suc unat_of_nat_byte)
  next
    case False
    then have "unat (m p) = v mod 128 + 128"
      using 0(1) unat_of_nat_byte [of "v mod 128 + 128"] by (simp add: varint_bytes_step load_bytes_Suc)
    with 0(4) show ?thesis by simp
  qed
next
  case (Suc n)
  have "1 * (128 * 1) \<le> lim * (128 * 128 ^ n)" using Suc.prems(3) by (intro mult_mono) simp_all
  then have v: "128 \<le> v" using Suc.prems(2) unfolding power_Suc by linarith
  have h: "lim * 128 ^ n \<le> v div 128" using Suc.prems(2) by (simp add: less_eq_div_iff_mult_less_eq algebra_simps)
  have b: "unat (m p) = v mod 128 + 128"
    using Suc.prems(1) unat_of_nat_byte [of "v mod 128 + 128"] v by (simp add: varint_bytes_step load_bytes_Suc)
  have "varint_scan (Suc n) lim limit m (p + 1) = None"
    using Suc.prems(1,3,4) v h by (intro Suc.IH [of _ "v div 128"]) (auto simp: varint_bytes_step load_bytes_Suc)
  then show ?case by (subst varint_scan.simps) (simp add: b del: varint_scan.simps)
qed

lemma split_interleaved:
  "split_nibbles (q, interleave (unat a) (unat b)) = (q, of_nat (unat a), of_nat (unat b))"
  by (simp add: split_nibbles_def low_nibbles_interleave high_nibbles_interleave)

lemma interleave_word_bounds:
  fixes a b :: u32 and c d :: u64
  shows "interleave (unat a) (unat b) < 2 * 128 ^ 9" "interleave (unat c) (unat d) < 4 * 128 ^ 18"
proof -
  have "unat x < 16 ^ 8" for x :: u32 using unsigned_less [of x, where ?'a = nat] by simp
  then show "interleave (unat a) (unat b) < 2 * 128 ^ 9" using interleave_bound [of "unat a" 8 "unat b"] by simp
  have "unat x < 16 ^ 16" for x :: u64 using unsigned_less [of x, where ?'a = nat] by simp
  then show "interleave (unat c) (unat d) < 4 * 128 ^ 18" using interleave_bound [of "unat c" 16 "unat d"] by simp
qed

lemma length_pair_code: 
  fixes a b :: u32 and c d :: u64
  shows "length (varint_bytes (interleave (unat a) (unat b))) \<le> 10"
    "length (varint_bytes (interleave (unat c) (unat d))) \<le> 19"
proof -
  have "nat_bit_width (interleave (unat a) (unat b)) \<le> 64" "nat_bit_width (interleave (unat c) (unat d)) \<le> 128"
    using interleave_word_bounds(1) [of a b] interleave_word_bounds(2) [of c d] by (simp_all add: nat_bit_width_le)
  then show "length (varint_bytes (interleave (unat a) (unat b))) \<le> 10"
    "length (varint_bytes (interleave (unat c) (unat d))) \<le> 19" by (simp_all add: length_varint_bytes)
qed

lemma interleave_large:
  assumes "\<not> (a < 2 ^ 32 \<and> b < 2 ^ 32)"
  shows "2 * 128 ^ 9 \<le> interleave a b"
proof -
  have "a div 16 ^ 8 \<noteq> 0 \<or> b div 16 ^ 8 \<noteq> 0" using assms by (auto simp: div_eq_0_iff)
  then have "interleave (a div 16 ^ 8) (b div 16 ^ 8) \<noteq> 0" unfolding interleave_0 by blast
  then have "1 \<le> interleave (a div 16 ^ 8) (b div 16 ^ 8)" by simp
  then show ?thesis using interleave_halves [of a b 8] by simp
qed

lemma pair_scans:
  fixes a b :: u32 and c d :: u64
  defines "bs \<equiv> varint_bytes (interleave (unat a) (unat b))" and "ds \<equiv> varint_bytes (interleave (unat c) (unat d))"
  shows "Decode32 (store_bytes m p bs) p = Some (p + length bs, a, b)"
    and "Decode32WithLimit (store_bytes m p bs) p limit =
      (if p + length bs \<le> limit then Some (p + length bs, a, b) else None)"
    and "Decode64 (store_bytes m p ds) p = Some (p + length ds, c, d)"
    and "Decode64WithLimit (store_bytes m p ds) p limit =
      (if p + length ds \<le> limit then Some (p + length ds, c, d) else None)"
proof -
  note short = varint_scan_printed [OF interleave_word_bounds(1) [of a b], simplified, of _ m p, folded bs_def]
  note long = varint_scan_printed [OF interleave_word_bounds(2) [of c d], simplified, of _ m p, folded ds_def]
  note len = length_pair_code(1) [of a b, folded bs_def] length_pair_code(2) [of c d, folded ds_def]
  have s: "split_nibbles (q, interleave (unat a) (unat b)) = (q, a, b)"
    "split_nibbles (q, interleave (unat c) (unat d)) = (q, c, d)" for q
    unfolding split_interleaved by simp_all
  show "Decode32 (store_bytes m p bs) p = Some (p + length bs, a, b)"
    unfolding Decode32_scan short using len by (simp add: s)
  show "Decode32WithLimit (store_bytes m p bs) p limit =
      (if p + length bs \<le> limit then Some (p + length bs, a, b) else None)"
    unfolding Decode32WithLimit_scan short by (simp add: s)
  show "Decode64 (store_bytes m p ds) p = Some (p + length ds, c, d)"
    unfolding Decode64_scan long using len by (simp add: s)
  show "Decode64WithLimit (store_bytes m p ds) p limit =
      (if p + length ds \<le> limit then Some (p + length ds, c, d) else None)"
    unfolding Decode64WithLimit_scan long by (simp add: s)
qed

lemma pair_too_large:
  assumes "\<not> (unat c < 2 ^ 32 \<and> unat d < 2 ^ 32)"
  defines "ds \<equiv> varint_bytes (interleave (unat c) (unat d))"
  shows "Decode32 (store_bytes m p ds) p = None" "Decode32WithLimit (store_bytes m p ds) p limit = None"
  using varint_scan_large [OF load_store_bytes interleave_large [OF assms(1)]]
  by (simp_all add: Decode32_scan Decode32WithLimit_scan ds_def del: varint_scan.simps)

section \<open>Properties\<close>

text \<open>
  Property C22.  Reading a pair is reading a varint and taking its nibbles apart: \<open>Decode32\<close> and
  \<open>Decode32WithLimit\<close> return null exactly where \<open>Parse64\<close> and \<open>Parse64WithLimit\<close> do, stop at the same byte,
  and give the even and the odd nibbles of the number those give (\<open>Parse64WithLimit\<close> from a start that is not in the last ten
  bytes of the address space; \<open>Decode32WithLimit\<close> equals the reference parse up to the limit everywhere);
  \<open>Decode64\<close> and \<open>Decode64WithLimit\<close> do the same for a varint of up to nineteen bytes, the last of them below four.
\<close>

theorem TwoValues_decode:
  "Decode32 m p = (case Parse64 plat m p of None \<Rightarrow> None
     | Some (q, v) \<Rightarrow> Some (q, of_nat (low_nibbles (unat v)), of_nat (high_nibbles (unat v)))) \<and>
   (p + kMax64 < 2 ^ 64 \<longrightarrow>
    Decode32WithLimit m p limit = (case Parse64WithLimit plat m p limit of None \<Rightarrow> None
     | Some (q, v) \<Rightarrow> Some (q, of_nat (low_nibbles (unat v)), of_nat (high_nibbles (unat v))))) \<and>
   Decode32WithLimit m p limit = map_option split_nibbles (varint_scan 10 2 limit m p) \<and>
   Decode64 m p = map_option split_nibbles (varint_scan 19 4 (p + 19) m p) \<and>
   Decode64WithLimit m p limit = map_option split_nibbles (varint_scan 19 4 limit m p)"
proof -
  have u: "unat (of_nat v :: u64) = v" if "varint_scan 10 2 l m p = Some (q, v)" for l q v
    using varint_scan_value [of 9 2 l m p q v] that by (simp add: unsigned_of_nat take_bit_eq_mod del: varint_scan.simps)
  then show ?thesis
    unfolding Decode32_scan Decode32WithLimit_scan Decode64_scan Decode64WithLimit_scan
      Parse64_scan Parse64WithLimit_scan
    by (auto simp: split_nibbles_def checked_limit_eq split: option.splits simp del: varint_scan.simps)
qed

theorem TwoValues_decode_witness:
  "Decode32WithLimit (\<lambda>_. 7) 1 2 = (case Parse64WithLimit X86_64 (\<lambda>_. 7) 1 2 of None \<Rightarrow> None
     | Some (q, v) \<Rightarrow> Some (q, of_nat (low_nibbles (unat v)), of_nat (high_nibbles (unat v))))"
  using TwoValues_decode [of "\<lambda>_. 7" 1 X86_64 2] by (simp add: kMax64_def)

text \<open>
  Property C21.  What the encoders append is read back.  The code of two 32-bit values is decoded by all
  four decoders, whatever follows it, and with a limit exactly when it ends by the limit; \<open>Encode64\<close> writes
  the same code for them.  The code of two 64-bit values is decoded by the 64-bit decoders in the same way,
  and refused by the 32-bit ones unless both values fit in 32 bits.
\<close>

theorem TwoValues_roundtrip:
  fixes a b :: u32 and c d :: u64
  shows
  "(let bs = drop (length (chars s)) (chars (TwoValues_Encode32 plat s a b));
        m = store_bytes m p bs; q = p + length bs
    in chars (TwoValues_Encode32 plat s a b) = chars s @ bs \<and>
       chars (TwoValues_Encode64 plat grow junk s (ucast a) (ucast b)) = chars s @ bs \<and>
       Decode32 m p = Some (q, a, b) \<and>
       Decode32WithLimit m p limit = (if q \<le> limit then Some (q, a, b) else None) \<and>
       Decode64 m p = Some (q, ucast a, ucast b) \<and>
       Decode64WithLimit m p limit = (if q \<le> limit then Some (q, ucast a, ucast b) else None)) \<and>
   (let ds = drop (length (chars s)) (chars (TwoValues_Encode64 plat grow junk s c d));
        m = store_bytes m p ds; q = p + length ds
    in chars (TwoValues_Encode64 plat grow junk s c d) = chars s @ ds \<and>
       Decode64 m p = Some (q, c, d) \<and>
       Decode64WithLimit m p limit = (if q \<le> limit then Some (q, c, d) else None) \<and>
       Decode32 m p = (if c < 2 ^ 32 \<and> d < 2 ^ 32 then Some (q, ucast c, ucast d) else None))"
proof -
  have w: "unat (ucast x :: u64) = unat x" for x :: u32
    using unsigned_less [of x, where ?'a = nat] by (simp add: unsigned_ucast_eq take_bit_eq_mod)
  have n: "c < 2 ^ 32 \<longleftrightarrow> unat c < 2 ^ 32" for c :: u64 by (simp add: word_less_nat_alt)
  have v: "unat (ucast c :: u32) = unat c" if "c < 2 ^ 32" for c :: u64
    using that unfolding word_halves(1) n by simp
  have "Decode32 (store_bytes m p (varint_bytes (interleave (unat c) (unat d)))) p =
      (if c < 2 ^ 32 \<and> d < 2 ^ 32
       then Some (p + length (varint_bytes (interleave (unat c) (unat d))), ucast c, ucast d) else None)"
    using pair_scans(1) [of m p "ucast c" "ucast d"] pair_too_large(1) [of c d m p] v [of c] v [of d]
    by (cases "c < 2 ^ 32 \<and> d < 2 ^ 32") (simp_all only: n simp_thms if_True if_False)
  then show ?thesis
    using pair_scans(3) [of m p "ucast a" "ucast b"] pair_scans(4) [of m p "ucast a" "ucast b" limit]
    unfolding Let_def TwoValues_Encode32_chars TwoValues_Encode64_chars w
    by (simp add: pair_scans)
qed

end
