(* ===== verification/BitCopy.thy ===== *)
theory BitCopy
  imports Gloop_Prelude
begin

text \<open>
  Copying bits between byte arrays at any offsets, \<^verbatim>\<open>src/gloop/util/bits/bit-copy.cc\<close>.

  Source and destination lie in one memory, and the steps are in the order of the code, so that the model is
  also that of overlapping arrays.  Every read of the source is checked against the bytes that hold the bits to
  copy; the others need not belong to the caller.  Offsets and counts are not negative, and their sums fit an
  \<open>int\<close>.
\<close>

definition byte_in :: "addr \<Rightarrow> addr \<Rightarrow> mem \<Rightarrow> int \<Rightarrow> u8 outcome" where
  "byte_in lo hi m p = (if int lo \<le> p \<and> p < int hi then Inr (m (nat p)) else Inl BadAccess)"

function BitCopy_loop :: "(mem \<Rightarrow> int \<Rightarrow> u8 outcome) \<Rightarrow> addr \<Rightarrow> int \<Rightarrow> nat \<Rightarrow> nat \<Rightarrow> nat \<Rightarrow>
    mem \<Rightarrow> nat \<Rightarrow> nat \<Rightarrow> (mem \<times> nat \<times> nat) outcome" where
  "BitCopy_loop get dest src diff idiff ndest m i j =
    (if i < ndest - 1
     then andThen (get m (src + int i)) (\<lambda>a.
          andThen (get m (src + int j)) (\<lambda>b.
          BitCopy_loop get dest src diff idiff ndest
            (m(dest + i := drop_bit diff a OR push_bit idiff b)) (i + 1) (j + 1)))
     else Inr (m, i, j))"
  by pat_completeness auto

termination BitCopy_loop
  by (relation "measure (\<lambda>(get, dest, src, diff, idiff, ndest, m, i, j). ndest - i)") auto

declare BitCopy_loop.simps [simp del]

definition BitCopy :: "mem \<Rightarrow> addr \<Rightarrow> nat \<Rightarrow> addr \<Rightarrow> nat \<Rightarrow> nat \<Rightarrow> mem outcome" where
  "BitCopy m vdest dest_offset vsrc src_offset nbits =
    (if nbits = 0 then Inr m
     else
      let get = byte_in (vsrc + src_offset div 8) (vsrc + (src_offset + nbits + 7) div 8);
          dest = vdest + dest_offset div 8;
          src = int (vsrc + src_offset div 8);
          dest_offset = dest_offset mod 8;
          src_offset = src_offset mod 8;
          ndest = (dest_offset + nbits + 7) div 8;
          nsrc = (src_offset + nbits + 7) div 8;
          src_end = src + int nsrc;
          start_mask = push_bit dest_offset 1 - 1 :: u8;
          end_mask = - push_bit 1 (push_bit ((dest_offset + nbits - 1) mod 8) 1) :: u8;
          start_mask = (if ndest = 1 then start_mask OR end_mask else start_mask);
          x = int src_offset - int dest_offset;
          i = 0;
          j = (if x \<noteq> 0 then 1 else 0);
          diff = nat ((x + 8) mod 8);
          idiff = (8 - diff) mod 8;
          src = (if x < 0 then src - 1 else src);
          m = m(dest + i := m (dest + i) AND start_mask)
      in andThen (if x \<ge> 0 then andThen (get m (src + int i)) (\<lambda>a. Inr (drop_bit diff a)) else Inr 0) (\<lambda>a.
         andThen (if src + int j < src_end then andThen (get m (src + int j)) (\<lambda>b. Inr (push_bit idiff b)) else Inr 0) (\<lambda>b.
         let m = m(dest + i := m (dest + i) OR ((a OR b) AND NOT start_mask))
         in andThen (BitCopy_loop get dest src diff idiff ndest m (i + 1) (j + 1)) (\<lambda>(m, i, j).
            if i < ndest
            then let m = m(dest + i := m (dest + i) AND end_mask)
                 in andThen (get m (src + int i)) (\<lambda>a.
                    andThen (if src + int j < src_end then andThen (get m (src + int j)) (\<lambda>b. Inr (push_bit idiff b)) else Inr 0) (\<lambda>b.
                    Inr (m(dest + i := m (dest + i) OR ((drop_bit diff a OR b) AND NOT end_mask)))))
            else Inr m))))"

end
