(* ===== verification/BitCopy_Proofs.thy ===== *)
theory BitCopy_Proofs
  imports BitCopy
begin

text \<open>
  \<open>BitCopy\<close> copies the bits it should, changes no other bit, and reads no byte outside the ones that hold the
  bits to copy.
\<close>

section \<open>Where the bits of a byte come from\<close>

text \<open>
  With \<open>x\<close> the difference of the offsets, bit \<open>r\<close> of byte \<open>i\<close> of the destination comes from bit \<open>8 * i + r + x\<close> of
  the source.  The byte at \<open>i\<close>, shifted down, provides it or the next byte, shifted up, or both for \<open>x = 0\<close>.
\<close>

definition source_bit :: "mem \<Rightarrow> int \<Rightarrow> int \<Rightarrow> bool" where
  "source_bit m s k = bit (m (nat (s + k div 8))) (nat (k mod 8))"

definition diff_of :: "int \<Rightarrow> nat" where "diff_of x = nat ((x + 8) mod 8)"

definition idiff_of :: "int \<Rightarrow> nat" where "idiff_of x = (8 - diff_of x) mod 8"

definition base_of :: "int \<Rightarrow> int \<Rightarrow> int" where "base_of s x = (if x < 0 then s - 1 else s)"

definition step_of :: "int \<Rightarrow> nat" where "step_of x = (if x \<noteq> 0 then 1 else 0)"

lemma shift_table: "\<forall>x \<in> set [-7..7]. \<forall>r \<in> set [0..<8]. diff_of x < 8 \<and> idiff_of x < 8 \<and>
    (r + diff_of x < 8 \<longrightarrow> base_of 0 x = (int r + x) div 8 \<and> int (r + diff_of x) = (int r + x) mod 8 \<and>
      (x < 0 \<longrightarrow> int r + x < 0)) \<and>
    (idiff_of x \<le> r \<longrightarrow> base_of 0 x + int (step_of x) = (int r + x) div 8 \<and> int (r - idiff_of x) = (int r + x) mod 8) \<and>
    (r + diff_of x < 8 \<or> idiff_of x \<le> r)"
  by code_simp

lemma pieces:
  assumes "- 8 < x" "x < 8" "r < 8" and K: "K = int (8 * i + r) + x"
  shows "r + diff_of x < 8 \<Longrightarrow> base_of s x + int i = s + K div 8 \<and> int (r + diff_of x) = K mod 8"
    and "idiff_of x \<le> r \<Longrightarrow> base_of s x + int (i + step_of x) = s + K div 8 \<and> int (r - idiff_of x) = K mod 8"
    and "r + diff_of x < 8 \<or> idiff_of x \<le> r"
    and "r + diff_of x < 8 \<Longrightarrow> x < 0 \<Longrightarrow> K < 8 * int i"
    and "diff_of x < 8" and "idiff_of x < 8"
proof -
  have k: "K = (int r + x) + 8 * int i" using K by simp
  have "x \<in> set [-7..7]" "r \<in> set [0..<8]"
    unfolding set_upto set_upt atLeastAtMost_iff atLeastLessThan_iff using assms(1-3) by linarith+
  note t = shift_table [rule_format, OF this]
  have b: "base_of s x = s + base_of 0 x" by (simp add: base_of_def)
  have "K div 8 = int i + (int r + x) div 8" "K mod 8 = (int r + x) mod 8" unfolding k by simp_all
  then show "r + diff_of x < 8 \<Longrightarrow> base_of s x + int i = s + K div 8 \<and> int (r + diff_of x) = K mod 8"
    "idiff_of x \<le> r \<Longrightarrow> base_of s x + int (i + step_of x) = s + K div 8 \<and> int (r - idiff_of x) = K mod 8"
    using t b by simp_all
  show "r + diff_of x < 8 \<or> idiff_of x \<le> r" "r + diff_of x < 8 \<Longrightarrow> x < 0 \<Longrightarrow> K < 8 * int i"
    "diff_of x < 8" "idiff_of x < 8"
    using t k by simp_all
qed

text \<open>The byte made of two of the source, where the bits of a missing one are not wanted.\<close>

lemma bit_combined:
  fixes a b :: u8
  assumes "- 8 < x" "x < 8" "r < 8" and K: "K = int (8 * i + r) + x"
    and a: "r + diff_of x < 8 \<Longrightarrow> a = drop_bit (diff_of x) (m (nat (base_of s x + int i)))"
    and b: "idiff_of x \<le> r \<Longrightarrow> b = push_bit (idiff_of x) (m (nat (base_of s x + int (i + step_of x))))"
    and a0: "\<not> r + diff_of x < 8 \<Longrightarrow> \<not> bit a r" and b0: "\<not> idiff_of x \<le> r \<Longrightarrow> \<not> bit b r"
  shows "bit (a OR b) r \<longleftrightarrow> source_bit m s K"
proof -
  note p = pieces [OF assms(1-4)]
  have "bit a r \<longleftrightarrow> source_bit m s K" if "r + diff_of x < 8"
  proof -
    have "nat (K mod 8) = r + diff_of x" using p(1) [OF that, of s] by linarith
    then show ?thesis using p(1) [OF that, of s] a [OF that] by (simp add: source_bit_def bit_drop_bit_eq add.commute)
  qed
  moreover have "bit b r \<longleftrightarrow> source_bit m s K" if "idiff_of x \<le> r"
  proof -
    have "nat (K mod 8) = r - idiff_of x" using p(2) [OF that, of s] by linarith
    then show ?thesis using p(2) [OF that, of s] b [OF that] that assms(3)
      by (simp add: source_bit_def bit_push_bit_iff possible_bit_word)
  qed
  ultimately show ?thesis using p(3) a0 b0 by (auto simp: bit_or_iff)
qed

text \<open>Only bytes of the source that hold bits to copy are needed.\<close>

lemma source_range:
  fixes od os n :: nat
  assumes "0 < n" "od < 8" "od \<le> p" "p < od + n" and "K = int p + (int os - int od)"
  shows "0 \<le> K" "0 \<le> K div 8" "K div 8 < int ((os + n + 7) div 8)"
proof -
  have k: "int os \<le> K" "K < int (os + n)" using assms by linarith+
  then show "0 \<le> K" "0 \<le> K div 8" by linarith+
  have "K div 8 \<le> (int (os + n) - 1) div 8" using k by (intro zdiv_mono1) linarith+
  also have "\<dots> < int ((os + n + 7) div 8)" using assms(1) by (simp add: zdiv_int)
  finally show "K div 8 < int ((os + n + 7) div 8)" .
qed

section \<open>The masks\<close>

lemma bit_start_mask: "od < 8 \<Longrightarrow> bit (push_bit od 1 - 1 :: u8) r \<longleftrightarrow> r < od"
  by (auto simp: push_bit_of_1 bit_mask_iff possible_bit_word simp flip: mask_eq_exp_minus_1)

lemma bit_last_mask: "r < 8 \<Longrightarrow> bit (- push_bit 1 (push_bit e 1) :: u8) r \<longleftrightarrow> e < r"
proof -
  assume r: "r < 8"
  have p: "push_bit 1 (push_bit e 1) = (2 ^ Suc e :: u8)" by (simp add: push_bit_of_1)
  show ?thesis using r unfolding p minus_exp_eq_not_mask
    by (auto simp: bit_not_iff bit_mask_iff possible_bit_word)
qed

section \<open>The loop\<close>

text \<open>
  The arguments after the whole bytes of the offsets are taken off: the arrays start at \<open>d\<close> and \<open>s\<close>, the offsets
  are below eight, and the bytes written are not among those read.
\<close>

definition copying :: "nat \<Rightarrow> nat \<Rightarrow> nat \<Rightarrow> nat \<Rightarrow> nat \<Rightarrow> bool" where
  "copying d od s os n \<longleftrightarrow> 0 < n \<and> od < 8 \<and> os < 8 \<and>
    (d + (od + n + 7) div 8 \<le> s \<or> s + (os + n + 7) div 8 \<le> d)"

definition source_kept :: "nat \<Rightarrow> nat \<Rightarrow> nat \<Rightarrow> mem \<Rightarrow> mem \<Rightarrow> bool" where
  "source_kept s os n m m' \<longleftrightarrow> (\<forall>a. s \<le> a \<and> a < s + (os + n + 7) div 8 \<longrightarrow> m' a = m a)"

lemma source_kept_update:
  "copying d od s os n \<Longrightarrow> source_kept s os n m m' \<Longrightarrow> k < (od + n + 7) div 8 \<Longrightarrow>
    source_kept s os n m (m'(d + k := b))"
  by (auto simp: copying_def source_kept_def)

abbreviation get_source :: "nat \<Rightarrow> nat \<Rightarrow> nat \<Rightarrow> mem \<Rightarrow> int \<Rightarrow> u8 outcome" where
  "get_source s os n \<equiv> byte_in s (s + (os + n + 7) div 8)"

lemma get_source_kept:
  assumes "source_kept s os n m m'" and "int s \<le> p" "p < int s + int ((os + n + 7) div 8)"
  shows "get_source s os n m' p = Inr (m (nat p))"
proof -
  have "s \<le> nat p" "nat p < s + (os + n + 7) div 8" using assms(2,3) by linarith+
  then show ?thesis using assms by (simp add: byte_in_def source_kept_def)
qed

lemma get_wanted:
  assumes c: "copying d od s os n" and "source_kept s os n m m'" and "od \<le> p" "p < od + n"
  shows "get_source s os n m' (int s + (int p + (int os - int od)) div 8) =
    Inr (m (nat (int s + (int p + (int os - int od)) div 8)))"
  using source_range [of n od p, OF _ _ assms(3,4) refl, of os] c
  by (intro get_source_kept [OF assms(2)]) (simp_all add: copying_def)

text \<open>A byte of which the lowest bit is wanted: the first read; one of which the highest is: the second.\<close>

lemma get_lower:
  assumes "copying d od s os n" "source_kept s os n m m'" "od \<le> 8 * i" "8 * i < od + n"
  shows "get_source s os n m' (base_of (int s) (int os - int od) + int i) =
    Inr (m (nat (base_of (int s) (int os - int od) + int i)))"
proof -
  have x: "- 8 < int os - int od" "int os - int od < 8" using assms(1) by (auto simp: copying_def)
  have "base_of (int s) (int os - int od) + int i = int s + (int (8 * i) + (int os - int od)) div 8"
    using pieces(1) [OF x _ refl, of 0 "int s" i] pieces(5) [OF x _ refl, of 0] by simp
  then show ?thesis using get_wanted [OF assms] by (simp only:)
qed

lemma get_upper:
  assumes "copying d od s os n" "source_kept s os n m m'" "od \<le> 8 * i + 7" "8 * i + 7 < od + n"
  shows "get_source s os n m' (base_of (int s) (int os - int od) + int (i + step_of (int os - int od))) =
    Inr (m (nat (base_of (int s) (int os - int od) + int (i + step_of (int os - int od)))))"
proof -
  have x: "- 8 < int os - int od" "int os - int od < 8" using assms(1) by (auto simp: copying_def)
  have "base_of (int s) (int os - int od) + int (i + step_of (int os - int od)) =
      int s + (int (8 * i + 7) + (int os - int od)) div 8"
    using pieces(2) [OF x _ refl, of 7 "int s" i] pieces(6) [OF x _ refl, of 7] by simp
  then show ?thesis using get_wanted [OF assms] by (simp only:)
qed

lemma middle_byte:
  assumes "copying d od s os n" "r < 8"
  shows "bit (drop_bit (diff_of (int os - int od)) (m (nat (base_of (int s) (int os - int od) + int i))) OR
      push_bit (idiff_of (int os - int od))
        (m (nat (base_of (int s) (int os - int od) + int (i + step_of (int os - int od)))))) r \<longleftrightarrow>
    source_bit m (int s) (int (8 * i + r) + (int os - int od))"
  using assms
  by (intro bit_combined [of _ _ _ i]) (auto simp: copying_def bit_simps possible_bit_word dest: bit_imp_le_length)

lemma BitCopy_loop_copies:
  assumes c: "copying d od s os n" and "source_kept s os n m0 m" and "1 \<le> i"
  defines "x \<equiv> int os - int od" and "ndest \<equiv> (od + n + 7) div 8"
  shows "\<exists>m'. BitCopy_loop (get_source s os n) d (base_of (int s) x) (diff_of x) (idiff_of x) ndest m i (i + step_of x) =
      Inr (m', max i (ndest - 1), max i (ndest - 1) + step_of x) \<and>
    source_kept s os n m0 m' \<and>
    (\<forall>k r. i \<le> k \<and> k < ndest - 1 \<and> r < 8 \<longrightarrow> (bit (m' (d + k)) r \<longleftrightarrow> source_bit m0 (int s) (int (8 * k + r) + x))) \<and>
    (\<forall>a. a < d + i \<or> d + (ndest - 1) \<le> a \<longrightarrow> m' a = m a)"
  using assms(2,3)
proof (induction "ndest - i" arbitrary: m i)
  case 0
  then have "\<not> i < ndest - 1" by simp
  then show ?case using 0 by (subst BitCopy_loop.simps) (auto simp: max_def)
next
  case (Suc t)
  show ?case
  proof (cases "i < ndest - 1")
    case True
    have "8 * ndest \<le> od + n + 7" unfolding ndest_def by simp
    then have w: "od \<le> 8 * i" "8 * i + 7 < od + n" using True Suc.prems c by (auto simp: copying_def)
    let ?a = "m0 (nat (base_of (int s) x + int i))" and ?b = "m0 (nat (base_of (int s) x + int (i + step_of x)))"
    let ?m = "m(d + i := drop_bit (diff_of x) ?a OR push_bit (idiff_of x) ?b)"
    have step: "BitCopy_loop (get_source s os n) d (base_of (int s) x) (diff_of x) (idiff_of x) ndest m i (i + step_of x) =
        BitCopy_loop (get_source s os n) d (base_of (int s) x) (diff_of x) (idiff_of x) ndest ?m (i + 1) (i + 1 + step_of x)"
      using True get_lower [OF c Suc.prems(1), of i] get_upper [OF c Suc.prems(1), of i] w
      by (subst BitCopy_loop.simps) (simp add: x_def)
    have kept: "source_kept s os n m0 ?m"
      using True by (intro source_kept_update [OF c Suc.prems(1)]) (simp add: ndest_def)
    have t: "t = ndest - (i + 1)" "1 \<le> i + 1" using Suc.hyps(2) by simp_all
    from Suc.hyps(1) [OF t(1) kept t(2)] obtain m' where m':
      "BitCopy_loop (get_source s os n) d (base_of (int s) x) (diff_of x) (idiff_of x) ndest ?m (i + 1) (i + 1 + step_of x) =
        Inr (m', max (i + 1) (ndest - 1), max (i + 1) (ndest - 1) + step_of x)"
      "source_kept s os n m0 m'"
      "\<And>k r. i + 1 \<le> k \<Longrightarrow> k < ndest - 1 \<Longrightarrow> r < 8 \<Longrightarrow> bit (m' (d + k)) r \<longleftrightarrow> source_bit m0 (int s) (int (8 * k + r) + x)"
      "\<And>a. a < d + (i + 1) \<or> d + (ndest - 1) \<le> a \<Longrightarrow> m' a = ?m a"
      by blast
    have "bit (m' (d + k)) r \<longleftrightarrow> source_bit m0 (int s) (int (8 * k + r) + x)"
      if "i \<le> k" "k < ndest - 1" "r < 8" for k r
    proof (cases "k = i")
      case True
      then show ?thesis using m'(4) [of "d + i"] middle_byte [OF c that(3), of m0 i] by (simp add: x_def)
    qed (use m'(3) that in simp)
    moreover have "m' a = m a" if "a < d + i \<or> d + (ndest - 1) \<le> a" for a using m'(4) [of a] that True by auto
    ultimately show ?thesis using m'(1,2) True unfolding step by (auto simp: max_def)
  next
    case False
    then show ?thesis using Suc.prems by (subst BitCopy_loop.simps) (auto simp: max_def)
  qed
qed

section \<open>The first and the last byte\<close>

lemma bit_masked:
  fixes v c sm :: u8
  shows "r < 8 \<Longrightarrow> bit ((v AND sm) OR (c AND NOT sm)) r \<longleftrightarrow> (if bit sm r then bit v r else bit c r)"
  by (auto simp: bit_simps)

text \<open>The two bytes read at an end, with zero for one that lies outside.\<close>

definition first_part :: "mem \<Rightarrow> nat \<Rightarrow> int \<Rightarrow> u8" where
  "first_part m s x = (if x \<ge> 0 then drop_bit (diff_of x) (m (nat (base_of (int s) x))) else 0)"

definition second_part :: "mem \<Rightarrow> nat \<Rightarrow> nat \<Rightarrow> int \<Rightarrow> nat \<Rightarrow> u8" where
  "second_part m s nsrc x i =
    (if base_of (int s) x + int (i + step_of x) < int s + int nsrc
     then push_bit (idiff_of x) (m (nat (base_of (int s) x + int (i + step_of x)))) else 0)"

lemma second_part_wanted:
  assumes c: "copying d od s os n" "r < 8" "od \<le> 8 * i + r" "8 * i + r < od + n"
  defines "x \<equiv> int os - int od"
  shows "idiff_of x \<le> r \<Longrightarrow> second_part m s ((os + n + 7) div 8) x i =
      push_bit (idiff_of x) (m (nat (base_of (int s) x + int (i + step_of x))))"
    and "\<not> idiff_of x \<le> r \<Longrightarrow> \<not> bit (second_part m s ((os + n + 7) div 8) x i) r"
proof -
  have x: "- 8 < x" "x < 8" using c(1) by (auto simp: copying_def x_def)
  have "(int (8 * i + r) + x) div 8 < int ((os + n + 7) div 8)"
    using source_range(3) [of n od "8 * i + r" _ os] c by (simp add: copying_def x_def)
  then show "second_part m s ((os + n + 7) div 8) x i =
      push_bit (idiff_of x) (m (nat (base_of (int s) x + int (i + step_of x))))" if "idiff_of x \<le> r"
    using pieces(2) [OF x c(2) refl that, of "int s" i] by (simp add: second_part_def)
  show "\<not> bit (second_part m s ((os + n + 7) div 8) x i) r" if "\<not> idiff_of x \<le> r"
    using that by (auto simp: second_part_def bit_simps)
qed

lemma first_byte:
  assumes c: "copying d od s os n" "r < 8" "od \<le> r" "r < od + n"
  defines "x \<equiv> int os - int od"
  shows "bit (first_part m s x OR second_part m s ((os + n + 7) div 8) x 0) r \<longleftrightarrow> source_bit m (int s) (int r + x)"
proof -
  have x: "- 8 < x" "x < 8" using c(1) by (auto simp: copying_def x_def)
  have "0 \<le> int r + x" using source_range(1) [of n od r _ os] c by (simp add: copying_def x_def)
  then have "r + diff_of x < 8 \<Longrightarrow> first_part m s x = drop_bit (diff_of x) (m (nat (base_of (int s) x + int 0)))"
    using pieces(4) [OF x c(2) refl, of 0] by (auto simp: first_part_def)
  moreover have "\<not> r + diff_of x < 8 \<Longrightarrow> \<not> bit (first_part m s x) r"
    using bit_imp_le_length [of _ "r + diff_of x", where ?'a = 8] by (auto simp: first_part_def bit_simps add.commute)
  ultimately show ?thesis
    using second_part_wanted [of d od s os n r 0 m] c
    by (intro bit_combined [OF x c(2), of _ 0]) (simp_all add: x_def)
qed

lemma last_byte:
  assumes c: "copying d od s os n" "r < 8" "od \<le> 8 * i + r" "8 * i + r < od + n"
  defines "x \<equiv> int os - int od"
  shows "bit (drop_bit (diff_of x) (m (nat (base_of (int s) x + int i))) OR
      second_part m s ((os + n + 7) div 8) x i) r \<longleftrightarrow> source_bit m (int s) (int (8 * i + r) + x)"
proof -
  have x: "- 8 < x" "x < 8" using c(1) by (auto simp: copying_def x_def)
  have "\<not> r + diff_of x < 8 \<Longrightarrow> \<not> bit (drop_bit (diff_of x) (m (nat (base_of (int s) x + int i)))) r"
    using bit_imp_le_length [of _ "r + diff_of x", where ?'a = 8] by (auto simp: bit_simps add.commute)
  then show ?thesis
    using second_part_wanted [OF c, of m] by (intro bit_combined [OF x c(2), of _ i]) (simp_all add: x_def)
qed

text \<open>The masks keep the bits that are not to be copied.\<close>

lemma start_mask_keeps:
  assumes "0 < n" "od < 8" "r < 8"
  defines "sm \<equiv> (if (od + n + 7) div 8 = 1
      then (push_bit od 1 - 1) OR - push_bit 1 (push_bit ((od + n - 1) mod 8) 1) else push_bit od 1 - 1 :: u8)"
  shows "bit sm r \<longleftrightarrow> \<not> (od \<le> r \<and> r < od + n)"
proof (cases "od + n \<le> 8")
  case True
  then have one: "(od + n + 7) div 8 = 1" and e: "(od + n - 1) mod 8 = od + n - 1" using assms(1) by auto
  have "sm = (push_bit od 1 - 1) OR - push_bit 1 (push_bit (od + n - 1) 1)" unfolding sm_def e using one by (simp only: if_True simp_thms)
  then have "bit sm r \<longleftrightarrow> r < od \<or> od + n - 1 < r"
    by (simp only: bit_or_iff bit_start_mask [OF assms(2)] bit_last_mask [OF assms(3)])
  then show ?thesis using assms(1) by auto
next
  case False
  then have "(od + n + 7) div 8 \<noteq> 1" by auto
  then have "bit sm r \<longleftrightarrow> r < od" unfolding sm_def by (simp only: if_False bit_start_mask [OF assms(2)])
  then show ?thesis using assms(3) False by auto
qed

lemma end_mask_keeps:
  assumes "0 < n" "r < 8" "i = (od + n + 7) div 8 - 1"
  shows "bit (- push_bit 1 (push_bit ((od + n - 1) mod 8) 1) :: u8) r \<longleftrightarrow> \<not> 8 * i + r < od + n"
proof -
  have "(od + n + 7) div 8 = (od + n - 1) div 8 + 1" using assms(1) by simp
  then have "8 * i + (od + n - 1) mod 8 = od + n - 1" using assms(3) by simp
  then show ?thesis using assms(1,2) bit_last_mask [OF assms(2), of "(od + n - 1) mod 8"] by auto
qed

section \<open>The whole copy\<close>

lemma BitCopy_unfold:
  fixes m :: mem
  assumes c: "copying d od s os n"
  defines "x \<equiv> int os - int od" and "ndest \<equiv> (od + n + 7) div 8" and "nsrc \<equiv> (os + n + 7) div 8"
    and "em \<equiv> - push_bit 1 (push_bit ((od + n - 1) mod 8) 1) :: u8"
  defines "sm \<equiv> (if ndest = 1 then (push_bit od 1 - 1) OR em else push_bit od 1 - 1)"
  defines "m1 \<equiv> m(d := (m d AND sm) OR ((first_part m s x OR second_part m s nsrc x 0) AND NOT sm))"
  shows "BitCopy m d od s os n =
    andThen (BitCopy_loop (get_source s os n) d (base_of (int s) x) (diff_of x) (idiff_of x) ndest m1 1 (1 + step_of x)) (\<lambda>(m, i, j).
      if i < ndest
      then let m = m(d + i := m (d + i) AND em)
           in andThen (get_source s os n m (base_of (int s) x + int i)) (\<lambda>a.
              andThen (if base_of (int s) x + int j < int s + int nsrc
                then andThen (get_source s os n m (base_of (int s) x + int j)) (\<lambda>b. Inr (push_bit (idiff_of x) b)) else Inr 0) (\<lambda>b.
              Inr (m(d + i := m (d + i) OR ((drop_bit (diff_of x) a OR b) AND NOT em)))))
      else Inr m)"
proof -
  let ?m = "m(d := m d AND sm)"
  have o: "od mod 8 = od" "os mod 8 = os" "od div 8 = 0" "os div 8 = 0" "n \<noteq> 0" using c by (auto simp: copying_def)
  have "0 < nsrc" "0 < ndest" using c by (auto simp: copying_def nsrc_def ndest_def)
  then have kept: "source_kept s os n m ?m"
    using source_kept_update [OF c, of m m 0 "m d AND sm"] by (simp add: source_kept_def ndest_def)
  have r1: "(if x \<ge> 0 then andThen (get_source s os n ?m (base_of (int s) x + int 0)) (\<lambda>a. Inr (drop_bit (diff_of x) a)) else Inr 0) =
      Inr (first_part m s x)"
    using get_source_kept [OF kept, of "int s"] \<open>0 < nsrc\<close> by (auto simp: first_part_def base_of_def nsrc_def)
  have r2: "(if base_of (int s) x + int (step_of x) < int s + int nsrc
      then andThen (get_source s os n ?m (base_of (int s) x + int (step_of x))) (\<lambda>b. Inr (push_bit (idiff_of x) b)) else Inr 0) =
      Inr (second_part m s nsrc x 0)"
    using get_source_kept [OF kept, of "base_of (int s) x + int (step_of x)"]
    by (auto simp: second_part_def base_of_def step_of_def nsrc_def)
  show ?thesis
    unfolding BitCopy_def Let_def o x_def [symmetric] ndest_def [symmetric] nsrc_def [symmetric] em_def [symmetric]
      sm_def [symmetric] diff_of_def [symmetric] idiff_of_def [symmetric] step_of_def [symmetric]
      add_0_right of_nat_0 add_0 base_of_def [symmetric]
    using o(5) by (simp only: r1 [unfolded nsrc_def [symmetric]] r2 [unfolded nsrc_def [symmetric]]
      if_False andThen_simps fun_upd_same fun_upd_upd m1_def of_nat_0 add_0_right add.commute [of 1 "step_of x"])
qed

definition copied :: "nat \<Rightarrow> nat \<Rightarrow> nat \<Rightarrow> nat \<Rightarrow> nat \<Rightarrow> mem \<Rightarrow> mem \<Rightarrow> nat \<Rightarrow> bool" where
  "copied d od s os n m m' k \<longleftrightarrow> (\<forall>r<8. bit (m' (d + k)) r \<longleftrightarrow>
    (if od \<le> 8 * k + r \<and> 8 * k + r < od + n then source_bit m (int s) (int (8 * k + r) + (int os - int od))
     else bit (m (d + k)) r))"

lemma copied_cong: "copied d od s os n m m' k \<Longrightarrow> m'' (d + k) = m' (d + k) \<Longrightarrow> copied d od s os n m m'' k"
  by (simp add: copied_def)

lemma copied_first:
  assumes c: "copying d od s os n"
  defines "x \<equiv> int os - int od" and "em \<equiv> - push_bit 1 (push_bit ((od + n - 1) mod 8) 1) :: u8"
  defines "sm \<equiv> (if (od + n + 7) div 8 = 1 then (push_bit od 1 - 1) OR em else push_bit od 1 - 1)"
  shows "copied d od s os n m
    (m(d := (m d AND sm) OR ((first_part m s x OR second_part m s ((os + n + 7) div 8) x 0) AND NOT sm))) 0"
proof -
  have "bit sm r \<longleftrightarrow> \<not> (od \<le> r \<and> r < od + n)" if "r < 8" for r
    using start_mask_keeps [of n od r] c that unfolding sm_def em_def by (simp only: copying_def)
  then show ?thesis using first_byte [OF c, of _ m] by (simp add: copied_def bit_masked x_def)
qed

lemma copied_last:
  assumes c: "copying d od s os n" and i: "i = (od + n + 7) div 8 - 1" "1 \<le> i" and v: "v = m (d + i)"
  defines "x \<equiv> int os - int od" and "em \<equiv> - push_bit 1 (push_bit ((od + n - 1) mod 8) 1) :: u8"
  shows "copied d od s os n m (m'(d + i := (v AND em) OR
    ((drop_bit (diff_of x) (m (nat (base_of (int s) x + int i))) OR second_part m s ((os + n + 7) div 8) x i) AND NOT em))) i"
proof -
  have "0 < n" "od < 8" using c by (simp_all add: copying_def)
  then have "bit em r \<longleftrightarrow> \<not> 8 * i + r < od + n" "od \<le> 8 * i + r" if "r < 8" for r
    using end_mask_keeps [OF _ that i(1)] i(2) by (simp_all add: em_def)
  then show ?thesis using last_byte [OF c, of _ i m] v by (simp add: copied_def bit_masked x_def)
qed

lemma copied_middle:
  assumes "copying d od s os n" "1 \<le> k" "k < (od + n + 7) div 8 - 1"
    and "\<And>r. r < 8 \<Longrightarrow> bit (m' (d + k)) r \<longleftrightarrow> source_bit m (int s) (int (8 * k + r) + (int os - int od))"
  shows "copied d od s os n m m' k"
proof -
  have "8 * ((od + n + 7) div 8) \<le> od + n + 7" by simp
  then have "od \<le> 8 * k + r" "8 * k + r < od + n" if "r < 8" for r using assms(1-3) that by (auto simp: copying_def)
  then show ?thesis using assms(4) by (simp add: copied_def)
qed

lemma last_step:
  assumes c: "copying d od s os n" and k: "source_kept s os n m m2" and i: "i = (od + n + 7) div 8 - 1" "1 \<le> i"
  defines "x \<equiv> int os - int od" and "nsrc \<equiv> (os + n + 7) div 8"
  shows "(let m = m2(d + i := m2 (d + i) AND em)
     in andThen (get_source s os n m (base_of (int s) x + int i)) (\<lambda>a.
        andThen (if base_of (int s) x + int (i + step_of x) < int s + int nsrc
          then andThen (get_source s os n m (base_of (int s) x + int (i + step_of x))) (\<lambda>b. Inr (push_bit (idiff_of x) b)) else Inr 0) (\<lambda>b.
        Inr (m(d + i := m (d + i) OR ((drop_bit (diff_of x) a OR b) AND NOT em)))))) =
    Inr (m2(d + i := (m2 (d + i) AND em) OR
      ((drop_bit (diff_of x) (m (nat (base_of (int s) x + int i))) OR second_part m s nsrc x i) AND NOT em)))"
proof -
  define m3 where "m3 = m2(d + i := m2 (d + i) AND em)"
  have "0 < n" using c by (simp add: copying_def)
  then have e: "(od + n + 7) div 8 = (od + n - 1) div 8 + 1" by simp
  then have w: "od \<le> 8 * i" "8 * i < od + n" using i c by (auto simp: copying_def)
  have k3: "source_kept s os n m m3"
    unfolding m3_def using source_kept_update [OF c k, of i] i e by simp
  have r: "(if base_of (int s) x + int (i + step_of x) < int s + int nsrc
      then andThen (get_source s os n m3 (base_of (int s) x + int (i + step_of x))) (\<lambda>b. Inr (push_bit (idiff_of x) b)) else Inr 0) =
      Inr (second_part m s nsrc x i)"
    using get_source_kept [OF k3, of "base_of (int s) x + int (i + step_of x)"] i(2)
    by (auto simp: second_part_def base_of_def step_of_def nsrc_def)
  show ?thesis
    unfolding Let_def m3_def [symmetric]
    by (simp only: get_lower [OF c k3 w, folded x_def] r andThen_simps) (simp only: m3_def fun_upd_same fun_upd_upd)
qed

lemma BitCopy_bytes:
  assumes c: "copying d od s os n"
  shows "\<exists>m'. BitCopy m d od s os n = Inr m' \<and> (\<forall>k < (od + n + 7) div 8. copied d od s os n m m' k) \<and>
    (\<forall>a. a < d \<or> d + (od + n + 7) div 8 \<le> a \<longrightarrow> m' a = m a)"
proof -
  define x ndest nsrc where "x = int os - int od" and "ndest = (od + n + 7) div 8" and "nsrc = (os + n + 7) div 8"
  define em where "em = (- push_bit 1 (push_bit ((od + n - 1) mod 8) 1) :: u8)"
  define sm where "sm = (if ndest = 1 then (push_bit od 1 - 1) OR em else push_bit od 1 - 1)"
  define m1 where "m1 = m(d := (m d AND sm) OR ((first_part m s x OR second_part m s nsrc x 0) AND NOT sm))"
  note defs = x_def ndest_def nsrc_def em_def sm_def m1_def
  have "0 < ndest" using c by (auto simp: copying_def ndest_def)
  then have k1: "source_kept s os n m m1"
    using source_kept_update [OF c, of m m 0] by (simp add: source_kept_def m1_def ndest_def)
  have first: "copied d od s os n m m1 0" unfolding defs by (rule copied_first [OF c])
  obtain m2 where loop: "BitCopy_loop (get_source s os n) d (base_of (int s) x) (diff_of x) (idiff_of x) ndest m1 1 (1 + step_of x) =
      Inr (m2, max 1 (ndest - 1), max 1 (ndest - 1) + step_of x)" "source_kept s os n m m2"
    and mid: "\<And>k r. 1 \<le> k \<Longrightarrow> k < ndest - 1 \<Longrightarrow> r < 8 \<Longrightarrow> bit (m2 (d + k)) r \<longleftrightarrow> source_bit m (int s) (int (8 * k + r) + x)"
    and rest: "\<And>a. a < d + 1 \<or> d + (ndest - 1) \<le> a \<Longrightarrow> m2 a = m1 a"
    using BitCopy_loop_copies [OF c k1, of 1, folded x_def ndest_def] by blast
  note unf = BitCopy_unfold [OF c, of m, folded x_def ndest_def nsrc_def em_def, folded sm_def, folded m1_def,
      unfolded loop(1) [folded nsrc_def] andThen_simps prod.case]
  have middle: "copied d od s os n m m2 k" if "1 \<le> k" "k < ndest - 1" for k
    using copied_middle [OF c that(1)] mid that by (simp add: ndest_def x_def)
  have zero: "copied d od s os n m m2 0" using first rest [of d] by (simp add: copied_def)
  have same: "m1 a = m a" if "a \<noteq> d" for a using that by (simp add: m1_def)
  show ?thesis
  proof (cases "ndest = 1")
    case True
    then have "BitCopy m d od s os n = Inr m2" using unf by simp
    moreover have "m2 a = m a" if "a < d \<or> d + 1 \<le> a" for a using rest [of a] same [of a] that True by auto
    ultimately show ?thesis using zero True by (auto simp: ndest_def)
  next
    case False
    define i where "i = ndest - 1"
    have i: "1 \<le> i" "i < ndest" "max 1 (ndest - 1) = i" using False \<open>0 < ndest\<close> by (auto simp: i_def)
    have e: "i = (od + n + 7) div 8 - 1" by (simp only: i_def ndest_def)
    have old: "m2 (d + i) = m (d + i)" using rest [of "d + i"] same [of "d + i"] i by (simp add: i_def)
    have "BitCopy m d od s os n = Inr (m2(d + i := (m2 (d + i) AND em) OR
        ((drop_bit (diff_of x) (m (nat (base_of (int s) x + int i))) OR second_part m s nsrc x i) AND NOT em)))"
      (is "_ = Inr ?m'")
      using i(2) unfolding unf i(3) by (simp only: if_True last_step [OF c loop(2) e i(1), folded x_def nsrc_def])
    moreover have "copied d od s os n m ?m' k" if kn: "k < ndest" for k
    proof -
      have cases: "k = 0 \<or> (1 \<le> k \<and> k < ndest - 1) \<or> k = i" using kn unfolding i_def by linarith
      have other: "copied d od s os n m ?m' k" if "copied d od s os n m m2 k" "k \<noteq> i"
        by (rule copied_cong [OF that(1)]) (use that(2) in simp)
      from cases consider "k = 0" | "1 \<le> k" "k < ndest - 1" | "k = i" by blast
      then show ?thesis
      proof cases
        case 1
        then show ?thesis using i(1) zero by (intro other) simp_all
      next
        case 2
        then show ?thesis using middle by (intro other) (simp_all add: i_def)
      next
        case 3
        then show ?thesis using copied_last [where m = m, OF c _ i(1) old, of m2] by (simp add: defs i_def)
      qed
    qed
    moreover have "?m' a = m a" if "a < d \<or> d + ndest \<le> a" for a
    proof -
      have "a < d + 1 \<or> d + (ndest - 1) \<le> a" "a \<noteq> d" "a \<noteq> d + i" using that i(2) by linarith+
      then show ?thesis using rest [of a] same [of a] by simp
    qed
    ultimately show ?thesis unfolding ndest_def by blast
  qed
qed

section \<open>Property\<close>

text \<open>Bit \<open>k\<close> of the array of bytes at \<open>a\<close>.\<close>

definition memory_bit :: "mem \<Rightarrow> addr \<Rightarrow> nat \<Rightarrow> bool" where
  "memory_bit m a k = bit (m (a + k div 8)) (k mod 8)"

lemma BitCopy_offsets:
  "BitCopy m vdest dest_offset vsrc src_offset n =
   BitCopy m (vdest + dest_offset div 8) (dest_offset mod 8) (vsrc + src_offset div 8) (src_offset mod 8) n"
proof -
  have "(src_offset + (n + 7)) div 8 = src_offset div 8 + (src_offset mod 8 + (n + 7)) div 8"
    using div_mult_self2 [of 8 "src_offset mod 8 + (n + 7)" "src_offset div 8"] by simp
  then show ?thesis by (simp only: BitCopy_def mod_mod_trivial mod_div_trivial add_0_right add.assoc)
qed

lemma source_bit_memory:
  assumes "p = int K"
  shows "source_bit m (int (vsrc + P)) p \<longleftrightarrow> memory_bit m vsrc (8 * P + K)"
proof -
  have "nat (int (vsrc + P) + int K div 8) = vsrc + (P + K div 8)" "nat (int K mod 8) = K mod 8"
    by (simp_all add: nat_add_distrib nat_div_distrib nat_mod_distrib)
  then show ?thesis unfolding source_bit_def memory_bit_def assms by simp
qed

lemma copied_memory:
  assumes "copied (vdest + Q) od (vsrc + P) os n m m' q" and k: "k = 8 * (Q + q) + r" "r < 8"
  shows "memory_bit m' vdest k = (if 8 * Q + od \<le> k \<and> k < 8 * Q + od + n
    then memory_bit m vsrc (8 * P + os + (k - (8 * Q + od))) else memory_bit m vdest k)"
proof -
  have d: "k div 8 = Q + q" "k mod 8 = r" unfolding k(1) using k(2) by (simp_all only: mod_mult_self4 div_mult_self4) simp_all
  have "memory_bit m' vdest k \<longleftrightarrow> (if od \<le> 8 * q + r \<and> 8 * q + r < od + n
      then source_bit m (int (vsrc + P)) (int (8 * q + r) + (int os - int od)) else memory_bit m vdest k)"
    using assms(1) k(2) unfolding copied_def memory_bit_def d by (simp add: add.assoc)
  moreover have "source_bit m (int (vsrc + P)) (int (8 * q + r) + (int os - int od)) =
      memory_bit m vsrc (8 * P + os + (k - (8 * Q + od)))" if "od \<le> 8 * q + r"
  proof -
    have "int (8 * q + r) + (int os - int od) = int (os + (8 * q + r - od))" using that by linarith
    note source_bit_memory [OF this, of m vsrc P]
    moreover have "8 * P + (os + (8 * q + r - od)) = 8 * P + os + (k - (8 * Q + od))" unfolding k(1) by simp
    ultimately show ?thesis by (simp only:)
  qed
  moreover have "od \<le> 8 * q + r \<and> 8 * q + r < od + n \<longleftrightarrow> 8 * Q + od \<le> k \<and> k < 8 * Q + od + n"
    unfolding k(1) by auto
  ultimately show ?thesis by auto
qed

text \<open>
  Property C24.  If the bytes that hold the bits to write are not among those that hold the bits to read,
  \<open>BitCopy\<close> copies every bit, for all offsets and lengths; it changes no other bit of memory, although it writes
  whole bytes, and reads no byte of the source that holds none of the bits.
\<close>

theorem BitCopy_copies:
  assumes "vdest + (dest_offset + nbits + 7) div 8 \<le> vsrc + src_offset div 8 \<or>
    vsrc + (src_offset + nbits + 7) div 8 \<le> vdest + dest_offset div 8"
  shows "\<exists>m'. BitCopy m vdest dest_offset vsrc src_offset nbits = Inr m' \<and>
    (\<forall>k. memory_bit m' vdest k =
      (if dest_offset \<le> k \<and> k < dest_offset + nbits then memory_bit m vsrc (src_offset + (k - dest_offset))
       else memory_bit m vdest k)) \<and>
    (\<forall>a. a < vdest \<longrightarrow> m' a = m a)"
proof (cases "nbits = 0")
  case True
  then show ?thesis by (auto simp: BitCopy_def)
next
  case False
  define Q od P os where "Q = dest_offset div 8" and "od = dest_offset mod 8" and "P = src_offset div 8" and "os = src_offset mod 8"
  have o: "dest_offset = 8 * Q + od" "src_offset = 8 * P + os" by (simp_all add: Q_def od_def P_def os_def)
  have e: "(dest_offset + nbits + 7) div 8 = Q + (od + nbits + 7) div 8"
    "(src_offset + nbits + 7) div 8 = P + (os + nbits + 7) div 8"
    unfolding o by simp_all
  have c: "copying (vdest + Q) od (vsrc + P) os nbits"
    using assms False unfolding e by (auto simp: copying_def od_def os_def Q_def P_def)
  from BitCopy_bytes [OF c, of m] obtain m' where m': "BitCopy m vdest dest_offset vsrc src_offset nbits = Inr m'"
    "\<And>k. k < (od + nbits + 7) div 8 \<Longrightarrow> copied (vdest + Q) od (vsrc + P) os nbits m m' k"
    "\<And>a. a < vdest + Q \<or> vdest + Q + (od + nbits + 7) div 8 \<le> a \<Longrightarrow> m' a = m a"
    unfolding BitCopy_offsets [of m vdest dest_offset] Q_def od_def P_def os_def by blast
  have "memory_bit m' vdest k = (if dest_offset \<le> k \<and> k < dest_offset + nbits
      then memory_bit m vsrc (src_offset + (k - dest_offset)) else memory_bit m vdest k)" for k
  proof (cases "Q \<le> k div 8 \<and> k div 8 < Q + (od + nbits + 7) div 8")
    case True
    then have "k div 8 - Q < (od + nbits + 7) div 8" "k = 8 * (Q + (k div 8 - Q)) + k mod 8" by auto
    then show ?thesis unfolding o by (intro copied_memory [OF m'(2)]) (assumption | rule mod_less_divisor, simp)+
  next
    case False
    then have "vdest + k div 8 < vdest + Q \<or> vdest + Q + (od + nbits + 7) div 8 \<le> vdest + k div 8" by auto
    then have "memory_bit m' vdest k = memory_bit m vdest k" using m'(3) by (simp add: memory_bit_def)
    moreover have "\<not> (dest_offset \<le> k \<and> k < dest_offset + nbits)"
      using False unfolding o by (auto simp: not_le not_less div_le_mono)
    ultimately show ?thesis by (simp only: if_False)
  qed
  then show ?thesis using m'(1,3) by auto
qed

theorem BitCopy_copies_witness:
  "\<exists>m'. BitCopy (\<lambda>a. of_nat a) 64 5 32 3 20 = Inr m' \<and> memory_bit m' 64 24 = bit (34 :: u8) 6"
proof -
  have "64 + (5 + 20 + 7) div 8 \<le> 32 + 3 div 8 \<or> 32 + (3 + 20 + 7) div 8 \<le> 64 + 5 div (8 :: nat)" by simp
  from BitCopy_copies [OF this, of "\<lambda>a. of_nat a"] obtain m' where
    "BitCopy (\<lambda>a. of_nat a) 64 5 32 3 20 = Inr m'"
    "memory_bit m' 64 24 = memory_bit (\<lambda>a. of_nat a) 32 (3 + (24 - 5))" by force
  moreover have "memory_bit (\<lambda>a. of_nat a) 32 (3 + (24 - 5)) = bit (34 :: u8) 6" by (simp add: memory_bit_def)
  ultimately show ?thesis by blast
qed

end
