(* ===== verification/Spec2Isabelle.thy ===== *)
theory Spec2Isabelle
  imports Varint_Backward CircularBuffer_Proofs DisjointSetForest_Proofs
    AdjustablePriorityQueue_Proofs IntrusiveHeap_Proofs Coder_Proofs
    Csv_Proofs WeightedSemaphore_Proofs IntervalSet_Contract Bitmap_Contract
    OrderedQueue_Proofs PcQueue_Proofs TwoValuesVarint_Proofs BitCopy_Proofs
begin

text \<open>
  A verification library for the core of gloop: its byte coding, byte streams, CSV files, bit
  utilities, containers, and the semaphore and queues by which threads synchronise.  All file names are relative to \<^verbatim>\<open>src/gloop/\<close>.

  \<^bold>\<open>Parts and how they interact.\<close>

  \<^item> Varint coding, \<^verbatim>\<open>util/coding/varint.h\<close> and \<^verbatim>\<open>varint.cc\<close>: encoding and parsing of
    variable-length integers forwards, backwards, with limits and in delta sequences.
  \<^item> Byte order, \<^verbatim>\<open>util/endian/endian.h\<close>, on the unaligned accesses of
    \<^verbatim>\<open>util/gtl/unaligned.h\<close>.
  \<^item> \<open>Encoder\<close> and \<open>Decoder\<close>, \<^verbatim>\<open>util/coding/coder.h\<close> and \<^verbatim>\<open>coder.cc\<close>: message
    buffers that use both of the above.
  \<^item> Byte sources and sinks, \<^verbatim>\<open>strings/bytestream.h\<close> and \<^verbatim>\<open>bytestream.cc\<close>, and on top of
    them the CSV parser and writer, \<^verbatim>\<open>util/csv/\<close>.
  \<^item> Containers: the ring buffer \<^verbatim>\<open>util/gtl/circularbuffer.h\<close>, union-find
    \<^verbatim>\<open>util/set/disjoint_set_forest.h\<close>, and two heaps whose elements know their position,
    \<^verbatim>\<open>util/pq/adjustable-heap.h\<close> with \<^verbatim>\<open>adjustable_priority_queue.h\<close>, and
    \<^verbatim>\<open>util/gtl/intrusive_heap.h\<close>.
  \<^item> Intervals and sets of them, \<^verbatim>\<open>util/gtl/interval.h\<close> and \<^verbatim>\<open>interval_set.h\<close>.
  \<^item> Bitmaps, \<^verbatim>\<open>util/bitmap/bitmap.h\<close>, over words of any width.
  \<^item> Bit utilities: \<^verbatim>\<open>util/bits/bits.h\<close> (counting, logarithms, reversal, scans of the bytes of a
    word, bit fields) and copying of bits between byte arrays, \<^verbatim>\<open>util/bits/bit-copy.cc\<close>.
  \<^item> Pairs of numbers in one varint, \<^verbatim>\<open>util/coding/two-values-varint.h\<close> and \<^verbatim>\<open>.cc\<close>, on top of
    varint coding.
  \<^item> The weighted semaphore \<^verbatim>\<open>thread/simple_weighted_semaphore.h\<close> and \<^verbatim>\<open>.cc\<close>, and two
    producer-consumer queues, \<^verbatim>\<open>thread/ordered-producer-consumer-queue.h\<close> and
    \<^verbatim>\<open>thread/pcqueue.h\<close>.

  \<^bold>\<open>Theories.\<close>  A theory named like a class holds its model: a record for the state, one definition per
  member function, in the order and with the branches of the code.  The theory with \<open>_Proofs\<close> added
  holds the invariant, the lemmas and the properties.

  \<^item> \<open>Gloop_Prelude\<close>: machine words, byte memory, aborts as values (\<open>outcome\<close>), shared lemmas.
  \<^item> \<open>Codec_Interface\<close>: the locale of a byte codec (what is put is got back, and only its bytes
    matter), its consequences for sequences; interpreted for both varint widths in \<open>Varint_Codec\<close> and
    for the fixed widths in \<open>Coder_Proofs\<close>.
  \<^item> \<open>Varint\<close> (model), \<open>Varint_Parse\<close> (every parser equals one reference parser),
    \<open>Varint_Codec\<close> (encoders, limits, skipping, lengths, appending), \<open>Varint_Backward\<close>.
  \<^item> \<open>Endian\<close>, \<open>Endian_Proofs\<close>; \<open>Coder\<close>, \<open>Coder_Proofs\<close>.
  \<^item> \<open>Bytestream\<close>, \<open>Bytestream_Proofs\<close>: the contracts \<open>byte_source\<close> and \<open>byte_sink\<close> as
    locales, \<open>copy_stream\<close> over both, interpreted on the classes of the file.
  \<^item> \<open>Csv\<close>, \<open>Csv_Proofs\<close>: the parser is proved inside \<open>byte_source\<close>, the writer inside
    \<open>flush_sink\<close>, which extends \<open>byte_sink\<close>.
  \<^item> \<open>CircularBuffer\<close>, \<open>DisjointSetForest\<close> and their proofs.
  \<^item> \<open>Heap_Sift\<close>: the locales of sifting shared by the two heaps, down to a priority queue that
    sorts; \<open>AdjustablePriorityQueue\<close>, \<open>IntrusiveHeap\<close> and their proofs interpret them.
  \<^item> \<open>IntervalSet\<close> (model), \<open>IntervalSet_Proofs\<close> (points and normal form, adding, searching, removing an
    interval), \<open>IntervalSet_Walks\<close> (the operations that walk over two sets, as zippers; many sets;
    integers), \<open>Point_Set_Interface\<close> (the locales of a set of points and of its algebra, canonical
    representations) and \<open>IntervalSet_Contract\<close>, which interprets them and holds the properties.
  \<^item> \<open>Std_Bits\<close>: the bit counting functions of the standard library, for varints and bitmaps.
  \<^item> \<open>Bitmap\<close> (the member functions on bits) and \<open>Bitmap_Objects\<close> (constructors, assignment, resizing,
    destruction, in a store of arrays with owners) are the model.  \<open>Bitmap_Proofs\<close> reduces the index
    arithmetic and treats the updates, \<open>Bitmap_Queries\<close>, \<open>Bitmap_Counts\<close>, \<open>Bitmap_Order\<close> and
    \<open>Bitmap_Search\<close> the other operations, \<open>Bitmap_Ownership\<close> the objects; \<open>Bitmap_Contract\<close> holds the
    properties.
  \<^item> \<open>WeightedSemaphore\<close>, \<open>WeightedSemaphore_Proofs\<close>: atomic segments between lock and wait, a step
    relation over threads, and its invariant by rule induction.
  \<^item> \<open>Monitor\<close>: the threads of a monitor with condition variables, deadlines and signals as a step
    relation, shared by the queues.  \<open>OrderedQueue\<close> and \<open>OrderedQueue_Proofs\<close>: the ordered queue.
    \<open>PcQueue\<close> (model, the waiters as linked nodes in a heap), \<open>PcQueue_Ring\<close> (the ring of waiters as
    a list), \<open>PcQueue_Proofs\<close>.
  \<^item> \<open>TwoValuesVarint\<close>, \<open>TwoValuesVarint_Proofs\<close>.
  \<^item> \<open>Bits\<close> (model), \<open>Bits_Scan\<close> (the scans of the bytes of a word, in the locale \<open>byte_words\<close> that
    is interpreted for the four widths), \<open>Bits_Reverse\<close>, \<open>Bits_Proofs\<close> (logarithms, fields, differences);
    \<open>BitCopy\<close>, \<open>BitCopy_Proofs\<close>.

  \<^bold>\<open>What the properties show.\<close>  Coding: encoders equal reference encodings, every parser path equals
  the reference parser, round trips, no read outside the given bounds, and where the backward parser
  departs from its comment, for any bytes.  \<open>Coder\<close>: messages round trip or the encoder aborts (in a
  hardened build), growing keeps data and ownership.  Streams: copies are exact from sources in any number
  of fragments, the bounded sink stays in bounds, append buffers are an optimisation only.  CSV: the parser refines a specification over the whole text on every source, it
  inverts the writer, errors leave the output untouched, and exactly which ends of a file lose a record.
  Containers: every operation keeps the invariant and refines lists, partitions or priority queues;
  find terminates with the representative; checks fire exactly where they should.  Interval sets: every operation returns, keeps
  the normal form and acts on the points as a set operation; equality of representations is equality
  of sets; the optimised helpers equal the plain ones; splitting terminates.  Bitmaps: every operation stays
  inside the array and acts on the list of bits whatever the unused bits are, the scans over words equal
  searches bit by bit, comparison is the documented order, iteration ends with the set bits, every array
  has one owner, and an assignment that deletes the array it is about to borrow.  Semaphore: the counter
  is exact, no lost wakeup, no failed check, stops complete, and an interleaving in which a stop is
  forgotten.  Queues: elements leave in the promised order, each once; the ring of waiters stays linked and
  no thread waits for what is there; the checks fire exactly on misuse; and three interleavings in
  which the ordered queue does less than it says.  Pairs: the decoders equal a varint parse followed by a
  split into digits, and invert the encoders.  Bits: the scans of a word equal tests byte by byte, with a
  flaw for narrow types; reversal is right in every compiled variant; the bit copy writes exactly
  the bits asked for and reads no byte outside the source.

  \<^bold>\<open>Conventions.\<close>  A failed \<open>CHECK\<close> or hardening assertion, and any access the code must not make, is
  \<open>Inl\<close> of an outcome.  Hardening assertions are those of a hardened build; \<open>Coder\<close>, whose writes they
  guard, has both builds (\<open>build\<close>), and an unhardened one makes the bad access.  Plain \<open>assert\<close> and \<open>DCHECK\<close> are compiled out
  (those of \<open>PcQueue\<close> are kept, and shown to hold).  Time is left to chance: a deadline may expire at any step.
  Integer promotion is an explicit type argument in \<open>Bits\<close>, the signedness of the type another, compiler built-ins follow their documentation.  Loops are structural or carry a
  termination proof; only loops over caller-supplied sources or callbacks, the pointer chase of union-find, the walks
  over two interval sets and the loops driven by an iterator over a bitmap are partial functions into \<open>option\<close>, and their properties state that they return.
  The one counter is that of \<open>iterate\<close>, the range-based loop over a ring buffer: it starts at the size of the buffer, and \<open>iterate_rep\<close>
  shows that it is never used up.
  Conditional compilation is a parameter (\<open>platform\<close>, \<open>bytesex\<close>).  Code outside the repository is a
  parameter with named hypotheses: the allocator (\<open>good_allocator\<close>), \<open>std::make_heap\<close>, the
  entry a heap of the standard library has in front, the hash framework, the words of a new array, the growth of
  \<open>std::string\<close> (\<open>good_policy\<close>) and \<open>absl::StrSplit\<close> (\<open>good_split\<close>); each has a concrete instance
  in a witness.  Sizes are natural numbers where the code adds sizes of live objects; costs, coded
  values, byte-order words and the argument of \<open>Ensure\<close> keep their width.  Addresses are natural numbers; where the code compares sums
  of addresses or subtracts sizes without a check (\<open>OffsetWithinLimit\<close>, \<open>LimitByteSource\<close>), the wrap-around is written out.

  \<^bold>\<open>Not modelled.\<close>  Operating-system code (base, process, symbolize, threads and fibers), code that needs
  a weak memory model (rcu, per-cpu, lock-free tables), floating-point formatting and arithmetic, template
  metaprogramming (tuple, functional), hashes, address parsing through system calls.  Of the libraries of
  the modelled kind: the interval map and interval tree, the inlined bit vector, packed arrays of
  integers (\<^verbatim>\<open>util/coding/shrunk-array.cc\<close>), the integer templates of \<^verbatim>\<open>util/intops\<close> and \<^verbatim>\<open>util/math\<close>,
  the remaining containers of \<^verbatim>\<open>util/gtl\<close>, and string helpers over absl.  Within the
  modelled parts: time measurements of the semaphore, \<open>TypeId\<close> of sinks, and copying of values as such
  (values are mathematical).
\<close>

end
